(* ===== verification/Base_Prelude.thy ===== *)
theory Base_Prelude
  imports Main "HOL-Library.Word" "HOL-Library.Monad_Syntax"
begin

unbundle bit_operations_syntax

text \<open>
  What every component of the model shares: Go's slice primitives on lists, Go's
  64-bit integer conversions, the circular view of a backing array, and the two
  power-of-two helpers that the queues and the network ring buffer are built on.

  A call that can fail to return normally (an index panic, a loop that does not end)
  has an \<^typ>\<open>'a option\<close> result, in which \<^term>\<open>None\<close> is "no normal return".
  The zero value of a Go type is the \<^term>\<open>0\<close> of the type class \<open>zero\<close>.
\<close>

named_theorems go_simps \<open>evaluation of the slice primitives\<close>

named_theorems ring_simps \<open>contents of a circular buffer after an operation\<close>

type_synonym byte = "8 word"

type_synonym u32 = "32 word"

type_synonym u64 = "64 word"

section \<open>Go integers\<close>

text \<open>
  \<open>int\<close> is Go's 64-bit signed type: the value of an expression over \<open>int\<close> is wrapped by
  \<open>i64\<close> where it can leave the range. The conversion \<open>int(u)\<close> of a \<open>uint64\<close> is
  \<^const>\<open>sint\<close>, and \<open>uint64(i)\<close> of an \<open>int\<close> is \<^const>\<open>word_of_int\<close>.
\<close>

definition i64 :: "int \<Rightarrow> int" where
  "i64 x = signed_take_bit 63 x"

lemma i64_id [simp]: "- (2 ^ 63) \<le> x \<Longrightarrow> x < 2 ^ 63 \<Longrightarrow> i64 x = x"
  by (simp add: i64_def signed_take_bit_int_eq_self)

lemma sint_small:
  assumes "unat (w :: u64) < 2 ^ 63"
  shows "sint w = int (unat w)"
proof -
  have "int (unat w) < int (2 ^ 63)"
    using assms by (simp only: of_nat_less_iff)
  then have u: "uint w < 2 ^ 63" by simp
  have "sint w = signed_take_bit 63 (uint w)"
    by (subst sint_uint) simp
  also have "\<dots> = uint w"
    by (rule signed_take_bit_int_eq_self) (use u uint_ge_0[of w] in linarith)+
  finally show ?thesis by simp
qed

section \<open>Slices\<close>

text \<open>
  \<open>go_copy dst off src\<close> is \<open>copy(dst[off:], src)\<close>; \<open>go_clear xs a b\<close> is \<open>clear(xs[a:b])\<close>;
  \<open>go_slice xs a b\<close> is \<open>xs[a:b]\<close>, which panics when the bounds are not
  \<open>0 \<le> a \<le> b \<le> len(xs)\<close>.
\<close>

definition go_copy :: "'a list \<Rightarrow> nat \<Rightarrow> 'a list \<Rightarrow> 'a list" where
  "go_copy dst off src = take off dst @ take (length dst - off) src @ drop (off + length src) dst"

definition go_clear :: "'a::zero list \<Rightarrow> nat \<Rightarrow> nat \<Rightarrow> 'a list" where
  "go_clear xs a b = take a xs @ replicate (b - a) 0 @ drop b xs"

definition go_slice :: "'a list \<Rightarrow> int \<Rightarrow> int \<Rightarrow> 'a list option" where
  "go_slice xs a b =
     (if 0 \<le> a \<and> a \<le> b \<and> b \<le> int (length xs) then Some (take (nat b - nat a) (drop (nat a) xs)) else None)"

lemma length_go_copy [simp, go_simps]:
  "off \<le> length dst \<Longrightarrow> length (go_copy dst off src) = length dst"
  by (simp add: go_copy_def)

lemma nth_go_copy [go_simps]:
  assumes "off \<le> length dst" "j < length dst"
  shows "go_copy dst off src ! j = (if off \<le> j \<and> j < off + length src then src ! (j - off) else dst ! j)"
  using assms by (auto simp: go_copy_def nth_append min_def not_less)

lemma length_go_clear [simp, go_simps]:
  "a \<le> b \<Longrightarrow> b \<le> length xs \<Longrightarrow> length (go_clear xs a b) = length xs"
  by (simp add: go_clear_def)

lemma nth_go_clear [go_simps]:
  assumes "a \<le> b" "b \<le> length xs" "j < length xs"
  shows "go_clear xs a b ! j = (if a \<le> j \<and> j < b then 0 else xs ! j)"
  using assms by (auto simp: go_clear_def nth_append)

lemma go_slice_nat [simp, go_simps]:
  "a \<le> b \<Longrightarrow> b \<le> length xs \<Longrightarrow> go_slice xs (int a) (int b) = Some (take (b - a) (drop a xs))"
  by (simp add: go_slice_def)

section \<open>Circular view of a backing array\<close>

text \<open>
  \<open>ring_view buf s n\<close> lists the \<open>n\<close> elements that start at index \<open>s\<close> of the backing
  array \<open>buf\<close> and wrap round its end: the abstract contents of every ring of the code.
\<close>

definition ring_view :: "'a list \<Rightarrow> nat \<Rightarrow> nat \<Rightarrow> 'a list" where
  "ring_view buf s n = map (\<lambda>i. buf ! ((s + i) mod length buf)) [0..<n]"

lemma length_ring_view [simp]: "length (ring_view buf s n) = n"
  by (simp add: ring_view_def)

lemma nth_ring_view [simp]: "i < n \<Longrightarrow> ring_view buf s n ! i = buf ! ((s + i) mod length buf)"
  by (simp add: ring_view_def)

lemma ring_view_0 [simp]: "ring_view buf s 0 = []"
  by (simp add: ring_view_def)

lemma ring_view_eq_Nil [simp]: "ring_view buf s n = [] \<longleftrightarrow> n = 0"
  by (simp add: ring_view_def)

lemma ring_view_start_mod [simp]: "ring_view buf (s mod length buf) n = ring_view buf s n"
  by (rule nth_equalityI) (simp_all add: mod_add_left_eq)

lemma ring_view_start_cong:
  "s mod length buf = t mod length buf \<Longrightarrow> ring_view buf s n = ring_view buf t n"
  by (metis ring_view_start_mod)

lemma ring_view_Suc: "ring_view buf s (Suc n) = ring_view buf s n @ [buf ! ((s + n) mod length buf)]"
  by (simp add: ring_view_def)

lemma ring_view_Cons: "ring_view buf s (Suc n) = buf ! (s mod length buf) # ring_view buf (Suc s) n"
  by (rule nth_equalityI) (auto simp: nth_Cons split: nat.split)

lemma ring_view_add: "ring_view buf s (m + n) = ring_view buf s m @ ring_view buf (s + m) n"
  by (rule nth_equalityI) (auto simp: nth_append add.assoc)

lemma take_ring_view [ring_simps]: "take k (ring_view buf s n) = ring_view buf s (min k n)"
  by (rule nth_equalityI) auto

lemma drop_ring_view [ring_simps]: "drop k (ring_view buf s n) = ring_view buf (s + k) (n - k)"
  by (rule nth_equalityI) (auto simp: add.assoc)

lemma hd_ring_view [ring_simps]: "0 < n \<Longrightarrow> hd (ring_view buf s n) = buf ! (s mod length buf)"
  by (cases n) (auto simp: ring_view_Cons)

lemma tl_ring_view [ring_simps]: "tl (ring_view buf s n) = ring_view buf (Suc s) (n - 1)"
  by (cases n) (auto simp: ring_view_Cons)

text \<open>Where the window does not wrap, it is a plain slice; where it wraps, it is two.\<close>

lemma ring_view_flat [ring_simps]:
  "s + n \<le> length buf \<Longrightarrow> ring_view buf s n = take n (drop s buf)"
  by (rule nth_equalityI) auto

lemma ring_view_wrap [ring_simps]:
  assumes "s \<le> length buf" "length buf \<le> s + n" "n \<le> length buf"
  shows "ring_view buf s n = drop s buf @ take (n - (length buf - s)) buf"
proof -
  have "ring_view buf s n = ring_view buf s ((length buf - s) + (n - (length buf - s)))"
    using assms by simp
  also have "\<dots> = ring_view buf s (length buf - s) @ ring_view buf (length buf) (n - (length buf - s))"
    unfolding ring_view_add using assms by simp
  also have "ring_view buf (length buf) (n - (length buf - s)) = ring_view buf 0 (n - (length buf - s))"
    by (rule ring_view_start_cong) simp
  also have "\<dots> = take (n - (length buf - s)) buf"
    using assms by (subst ring_view_flat) auto
  also have "ring_view buf s (length buf - s) = drop s buf"
    using assms by (subst ring_view_flat) auto
  finally show ?thesis .
qed

text \<open>Two windows into arrays of the same length that agree on the window are equal.\<close>

lemma ring_view_cong:
  assumes "length b' = length b"
    and "\<And>i. i < n \<Longrightarrow> b' ! ((s + i) mod length b) = b ! ((s + i) mod length b)"
  shows "ring_view b' s n = ring_view b s n"
  by (rule nth_equalityI) (auto simp: assms)

lemma mod_window_inj:
  fixes s i j c :: nat
  assumes "i < c" "j < c" "(s + i) mod c = (s + j) mod c"
  shows "i = j"
proof -
  have "(int s + int i) mod int c = (int s + int j) mod int c"
    using assms(3) by (metis of_nat_add of_nat_mod)
  then have "int c dvd int i - int j"
    by (simp add: mod_eq_dvd_iff)
  then have "\<bar>int i - int j\<bar> < int c \<Longrightarrow> int i - int j = 0"
    using zdvd_not_zless[of "\<bar>int i - int j\<bar>" "int c"] by fastforce
  with assms(1,2) show ?thesis by linarith
qed

section \<open>Powers of two\<close>

text \<open>
  The bit-smearing loop body shared by \<open>nextPowerOfTwo\<close> (package zqueue, on \<open>int\<close>) and
  \<open>nextPowerOfTwo64\<close> (package znet, on \<open>uint64\<close>): the six statements
  \<open>n |= n >> 1; \<dots>; n |= n >> 32\<close>.
\<close>

definition smear_step :: "nat \<Rightarrow> 'a::semiring_bit_operations \<Rightarrow> 'a" where
  "smear_step k n = n OR drop_bit k n"

definition smear64 :: "'a::semiring_bit_operations \<Rightarrow> 'a" where
  "smear64 n = smear_step 32 (smear_step 16 (smear_step 8 (smear_step 4 (smear_step 2 (smear_step 1 n)))))"

lemma bit_smear_step:
  assumes "\<And>i. bit m i \<longleftrightarrow> (\<exists>j<k. bit n (i + j))"
  shows "bit (smear_step k m) i \<longleftrightarrow> (\<exists>j<2*k. bit n (i + j))"
proof -
  have "bit (smear_step k m) i \<longleftrightarrow> (\<exists>j<k. bit n (i + j)) \<or> (\<exists>j<k. bit n (i + k + j))"
    by (simp add: smear_step_def bit_or_iff bit_drop_bit_eq assms add.commute)
  also have "\<dots> \<longleftrightarrow> (\<exists>j<2*k. bit n (i + j))"
  proof safe
    fix j assume "j < k" "bit n (i + j)"
    then show "\<exists>j<2*k. bit n (i + j)" by (intro exI[of _ j]) auto
  next
    fix j assume "j < k" "bit n (i + k + j)"
    then show "\<exists>j<2*k. bit n (i + j)" by (intro exI[of _ "k + j"]) (auto simp: add.assoc)
  next
    fix j assume j: "j < 2 * k" "bit n (i + j)" "\<not> (\<exists>j<k. bit n (i + k + j))"
    show "\<exists>j<k. bit n (i + j)"
    proof (cases "j < k")
      case False
      then have "j - k < k" "i + k + (j - k) = i + j" using j by auto
      then show ?thesis using j by metis
    qed (use j in auto)
  qed
  finally show ?thesis .
qed

lemma bit_smear64: "bit (smear64 n) i \<longleftrightarrow> (\<exists>j<64. bit n (i + j))"
proof -
  have "\<And>i. bit n i \<longleftrightarrow> (\<exists>j<1. bit n (i + j))" by auto
  from bit_smear_step[OF this]
  have "\<And>i. bit (smear_step 1 n) i \<longleftrightarrow> (\<exists>j<2. bit n (i + j))" by simp
  from bit_smear_step[OF this]
  have "\<And>i. bit (smear_step 2 (smear_step 1 n)) i \<longleftrightarrow> (\<exists>j<4. bit n (i + j))" by simp
  from bit_smear_step[OF this]
  have "\<And>i. bit (smear_step 4 (smear_step 2 (smear_step 1 n))) i \<longleftrightarrow> (\<exists>j<8. bit n (i + j))" by simp
  from bit_smear_step[OF this]
  have "\<And>i. bit (smear_step 8 (smear_step 4 (smear_step 2 (smear_step 1 n)))) i \<longleftrightarrow> (\<exists>j<16. bit n (i + j))"
    by simp
  from bit_smear_step[OF this]
  have "\<And>i. bit (smear_step 16 (smear_step 8 (smear_step 4 (smear_step 2 (smear_step 1 n))))) i
      \<longleftrightarrow> (\<exists>j<32. bit n (i + j))"
    by simp
  from bit_smear_step[OF this] show ?thesis by (simp add: smear64_def)
qed

text \<open>\<open>bits_of n\<close> is the length of the binary numeral of \<open>n\<close>; smearing fills it with ones.\<close>

lemma smear64_nat_window:
  fixes x :: nat
  assumes "2 ^ k \<le> x" "x < 2 ^ Suc k"
  shows "bit x k" "k < i \<Longrightarrow> \<not> bit x i"
proof -
  have "x div 2 ^ k = 1"
    using assms by (intro div_nat_eqI) auto
  then show "bit x k" by (simp add: bit_iff_odd)
next
  assume "k < i"
  then have "x < 2 ^ i"
    using assms(2) by (meson Suc_leI less_le_trans one_le_numeral power_increasing)
  then show "\<not> bit x i" by (simp add: bit_iff_odd)
qed

lemma smear64_nat:
  fixes x :: nat
  assumes "2 ^ k \<le> x" "x < 2 ^ Suc k" "k < 64"
  shows "smear64 x = 2 ^ Suc k - 1"
proof -
  have "bit (smear64 x) i \<longleftrightarrow> i < Suc k" for i
  proof (cases "i \<le> k")
    case True
    then have "k - i < 64" "bit x (i + (k - i))"
      using smear64_nat_window(1)[OF assms(1,2)] assms(3) by auto
    then show ?thesis using True by (auto simp: bit_smear64)
  next
    case False
    then have "\<not> bit x (i + j)" for j
      using smear64_nat_window(2)[OF assms(1,2), of "i + j"] by simp
    then show ?thesis using False by (auto simp: bit_smear64)
  qed
  then have "smear64 x = mask (Suc k)"
    by (intro bit_eqI) (simp add: bit_mask_iff)
  then show ?thesis by (simp add: mask_eq_exp_minus_1)
qed


lemma exists_pow2_window:
  fixes x :: nat
  assumes "0 < x"
  shows "\<exists>k. 2 ^ k \<le> x \<and> x < 2 ^ Suc k"
  using assms
proof (induction x rule: less_induct)
  case (less x)
  show ?case
  proof (cases "x = 1")
    case False
    with less.prems have "0 < x div 2" "x div 2 < x" by auto
    with less.IH obtain k where "2 ^ k \<le> x div 2" "x div 2 < 2 ^ Suc k" by blast
    then have "2 ^ Suc k \<le> x" "x < 2 ^ Suc (Suc k)" by auto
    then show ?thesis by blast
  qed (intro exI[of _ 0], simp)
qed

lemma smear64_0 [simp]: "smear64 0 = (0 :: 'a::semiring_bit_operations)"
  by (simp add: smear64_def smear_step_def)

lemma unat_smear64: "unat (smear64 w) = smear64 (unat (w :: 'w::len word))"
  by (simp add: smear64_def smear_step_def unsigned_or_eq unat_drop_bit_eq)

lemma smear64_of_nat: "smear64 (int x) = int (smear64 x)"
  by (simp add: smear64_def smear_step_def of_nat_or_eq of_nat_drop_bit)

text \<open>
  The least power of two that is not below \<open>n\<close>, by search: the reference that both
  bit-trick versions are proved to compute.
\<close>

definition is_ceil_pow2 :: "nat \<Rightarrow> nat \<Rightarrow> bool" where
  "is_ceil_pow2 n p \<longleftrightarrow> (\<exists>k. p = 2 ^ k \<and> n \<le> 2 ^ k \<and> (k = 0 \<or> 2 ^ (k - 1) < n))"

lemma is_ceil_pow2_unique: "is_ceil_pow2 n p \<Longrightarrow> is_ceil_pow2 n q \<Longrightarrow> p = q"
proof -
  have *: "\<not> k < l" if "n \<le> 2 ^ k" "l = 0 \<or> 2 ^ (l - 1) < n" for k l :: nat
  proof
    assume "k < l"
    then have "(2::nat) ^ k \<le> 2 ^ (l - 1)" by (intro power_increasing) auto
    moreover from that \<open>k < l\<close> have "2 ^ (l - 1) < n" by auto
    ultimately show False using that(1) by linarith
  qed
  assume "is_ceil_pow2 n p" "is_ceil_pow2 n q"
  then show "p = q" unfolding is_ceil_pow2_def using * by (metis linorder_neqE_nat)
qed

lemma smear64_ceil_pow2:
  assumes "1 < n" "n \<le> 2 ^ 64"
  shows "is_ceil_pow2 n (smear64 (n - 1) + 1)"
proof -
  obtain k where k: "2 ^ k \<le> n - 1" "n - 1 < 2 ^ Suc k"
    using exists_pow2_window[of "n - 1"] assms(1) by auto
  have "k < 64"
  proof (rule ccontr)
    assume "\<not> k < 64"
    then have "(2::nat) ^ 64 \<le> 2 ^ k" by (intro power_increasing) auto
    with k(1) assms show False by linarith
  qed
  with k have "smear64 (n - 1) + 1 = 2 ^ Suc k"
    by (simp add: smear64_nat)
  moreover have "n \<le> 2 ^ Suc k" "2 ^ k < n" using k by auto
  ultimately show ?thesis
    unfolding is_ceil_pow2_def by (intro exI[of _ "Suc k"]) auto
qed

lemma is_ceil_pow2_1: "n \<le> 1 \<Longrightarrow> is_ceil_pow2 n 1"
  unfolding is_ceil_pow2_def by (intro exI[of _ 0]) auto

lemma is_ceil_pow2_bounds:
  assumes "is_ceil_pow2 n p"
  shows "n \<le> p" "0 < p" "0 < n \<Longrightarrow> p < 2 * n"
proof -
  from assms obtain k where k: "p = 2 ^ k" "n \<le> 2 ^ k" "k = 0 \<or> 2 ^ (k - 1) < n"
    by (auto simp: is_ceil_pow2_def)
  then show "n \<le> p" "0 < p" by auto
  show "p < 2 * n" if "0 < n" using k that by (cases k) auto
qed

lemma is_ceil_pow2_le:
  assumes "is_ceil_pow2 n p" "n \<le> 2 ^ m"
  shows "p \<le> 2 ^ m"
proof -
  from assms(1) obtain k where k: "p = 2 ^ k" "k = 0 \<or> 2 ^ (k - 1) < n"
    by (auto simp: is_ceil_pow2_def)
  have "k \<le> m"
  proof (rule ccontr)
    assume "\<not> k \<le> m"
    then have "(2::nat) ^ m \<le> 2 ^ (k - 1)" by (intro power_increasing) auto
    moreover from k \<open>\<not> k \<le> m\<close> have "2 ^ (k - 1) < n" by auto
    ultimately show False using assms(2) by linarith
  qed
  with k show ?thesis by simp
qed

text \<open>Reduction modulo a power of two by a bit mask.\<close>

lemma unat_and_mask:
  "unat ((w :: 'w::len word) AND (2 ^ k - 1)) = unat w mod 2 ^ k"
proof -
  have "w AND (2 ^ k - 1) = take_bit k w"
    by (simp add: take_bit_eq_mask mask_eq_exp_minus_1)
  then have "unat (w AND (2 ^ k - 1)) = take_bit k (unat w)"
    by (simp only: unsigned_take_bit_eq)
  then show ?thesis by (simp only: take_bit_eq_mod)
qed

text \<open>64-bit sums under a mask, and sums that stay far below \<open>2^64\<close>.\<close>

lemma unat_add_mod: "k \<le> 64 \<Longrightarrow> unat ((a :: u64) + b) mod 2 ^ k = (unat a + unat b) mod 2 ^ k"
proof -
  assume "k \<le> 64"
  then have "(2::nat) ^ k dvd 2 ^ 64" by (rule le_imp_power_dvd)
  then show ?thesis by (simp add: unat_word_ariths mod_mod_cancel)
qed

lemma unat_of_nat_mod: "k \<le> 64 \<Longrightarrow> unat (of_nat n :: u64) mod 2 ^ k = n mod 2 ^ k"
proof -
  assume "k \<le> 64"
  then have "(2::nat) ^ k dvd 2 ^ 64" by (rule le_imp_power_dvd)
  then show ?thesis by (simp add: unat_of_nat mod_mod_cancel)
qed

lemma unat_plus_small: "unat (a :: u64) + n < 2 ^ 64 \<Longrightarrow> unat (a + of_nat n) = unat a + n"
  by (simp add: unat_word_ariths unat_of_nat)

section \<open>Writing and clearing a window of a circular array\<close>

text \<open>
  \<open>ring_put buf pos xs\<close> is the two-chunk copy every ring of the code writes a batch
  with; \<open>ring_clear buf pos n\<close> the two-chunk clear. Both are described by one fact about
  the element at offset \<open>i\<close> from \<open>pos\<close>.
\<close>

definition ring_put :: "'a list \<Rightarrow> nat \<Rightarrow> 'a list \<Rightarrow> 'a list" where
  "ring_put buf pos xs =
     (if length xs \<le> length buf - pos then go_copy buf pos xs
      else go_copy (go_copy buf pos (take (length buf - pos) xs)) 0 (drop (length buf - pos) xs))"

definition ring_clear :: "'a::zero list \<Rightarrow> nat \<Rightarrow> nat \<Rightarrow> 'a list" where
  "ring_clear buf pos n =
     (if n \<le> length buf - pos then go_clear buf pos (pos + n)
      else go_clear (go_clear buf pos (length buf)) 0 (n - (length buf - pos)))"

lemma length_ring_put [simp]: "pos \<le> length buf \<Longrightarrow> length (ring_put buf pos xs) = length buf"
  by (simp add: ring_put_def)

lemma length_ring_clear [simp]:
  "pos \<le> length buf \<Longrightarrow> n \<le> length buf \<Longrightarrow> length (ring_clear buf pos n) = length buf"
  by (auto simp: ring_clear_def)

lemma mod_offset:
  fixes pos i c :: nat
  assumes "pos < c" "i < c"
  shows "(pos + i) mod c = (if pos + i < c then pos + i else pos + i - c)"
  using assms by (simp add: mod_if)

lemma nth_ring_put:
  assumes "pos < length buf" "length xs \<le> length buf" "i < length buf"
  shows "ring_put buf pos xs ! ((pos + i) mod length buf) =
         (if i < length xs then xs ! i else buf ! ((pos + i) mod length buf))"
  using assms by (auto simp: ring_put_def nth_go_copy mod_offset)

lemma nth_ring_clear:
  assumes "pos < length buf" "n \<le> length buf" "i < length buf"
  shows "ring_clear buf pos n ! ((pos + i) mod length buf) =
         (if i < n then 0 else buf ! ((pos + i) mod length buf))"
  using assms by (auto simp: ring_clear_def nth_go_clear mod_offset)

lemma mod_assoc_shift: "((s + n) mod c + i) mod c = (s + (n + i)) mod (c::nat)"
  by (simp add: mod_add_left_eq add.assoc)

lemma mod_split: "k \<le> n \<Longrightarrow> ((s + k) mod c + (n - k)) mod c = (s + n) mod (c::nat)"
  by (simp only: mod_assoc_shift le_add_diff_inverse)

lemma nth_ring_put_at:
  assumes "0 < length buf" "n + length xs \<le> length buf" "j < length buf"
  shows "ring_put buf ((s + n) mod length buf) xs ! ((s + j) mod length buf) =
         (if n \<le> j \<and> j < n + length xs then xs ! (j - n) else buf ! ((s + j) mod length buf))"
proof (cases "n \<le> j")
  case True
  then obtain k where k: "j = n + k" using le_Suc_ex by blast
  have "(s + j) mod length buf = ((s + n) mod length buf + k) mod length buf"
    by (simp only: mod_assoc_shift k)
  then show ?thesis
    using assms k by (simp add: nth_ring_put)
next
  case False
  have "n \<le> length buf + j" using assms by linarith
  then obtain k where k: "length buf + j = n + k" using le_Suc_ex by blast
  then have "s + (n + k) = (s + j) + length buf" by simp
  then have "(s + j) mod length buf = ((s + n) mod length buf + k) mod length buf"
    by (simp only: mod_assoc_shift mod_add_self2)
  moreover have "k < length buf" "\<not> k < length xs" using False assms k by linarith+
  ultimately show ?thesis
    using assms False by (simp add: nth_ring_put)
qed

lemma ring_view_put [ring_simps]:
  assumes "0 < length buf" "n + length xs \<le> length buf"
  shows "ring_view (ring_put buf ((s + n) mod length buf) xs) s (n + length xs) = ring_view buf s n @ xs"
  by (rule nth_equalityI) (use assms in \<open>auto simp: nth_append nth_ring_put_at\<close>)

lemma nth_list_update_at:
  assumes "i < length buf" "j < length buf"
  shows "buf[(s + i) mod length buf := x] ! ((s + j) mod length buf) =
         (if i = j then x else buf ! ((s + j) mod length buf))"
proof -
  have "(s + i) mod length buf < length buf" by (rule mod_less_divisor) (use assms in linarith)
  then show ?thesis
    using mod_window_inj[OF assms, of s] by (auto simp: nth_list_update)
qed

lemma ring_view_snoc [ring_simps]:
  assumes "n < length buf"
  shows "ring_view (buf[(s + n) mod length buf := x]) s (Suc n) = ring_view buf s n @ [x]"
  by (rule nth_equalityI) (use assms in \<open>auto simp: nth_append nth_list_update_at less_Suc_eq\<close>)

lemma ring_view_clear [ring_simps]:
  assumes "s < length buf" "k + n \<le> length buf"
  shows "ring_view (ring_clear buf s k) (s + k) n = ring_view buf (s + k) n"
  using assms by (intro ring_view_cong) (auto simp: nth_ring_clear add.assoc)

end
