(* ===== verification/Fifo_Spec.thy ===== *)
theory Fifo_Spec
  imports Base_Prelude
begin

text \<open>
  The contract every queue of package zqueue is used through: single and batch
  insertion at the back, single and batch removal at the front, over an abstract list
  of contents. The locale states what a provider promises for one call; the lemmas
  derive what a client relies on over a whole sequence of calls.
\<close>

datatype 'a fifo_op = Enq 'a | EnqBatch "'a list" | Deq | DeqBatch nat

text \<open>
  Running a sequence of calls: the elements the queue accepted, the elements it
  delivered, both in call order, and the final state.
\<close>

fun fifo_run ::
  "('q \<Rightarrow> 'a \<Rightarrow> bool \<times> 'q) \<Rightarrow> ('q \<Rightarrow> 'a list \<Rightarrow> nat \<times> 'q) \<Rightarrow> ('q \<Rightarrow> ('a \<times> bool) \<times> 'q)
    \<Rightarrow> ('q \<Rightarrow> nat \<Rightarrow> 'a list \<times> 'q) \<Rightarrow> 'a fifo_op list \<Rightarrow> 'q \<Rightarrow> 'a list \<times> 'a list \<times> 'q" where
  "fifo_run enq enqb deq deqb [] q = ([], [], q)"
| "fifo_run enq enqb deq deqb (Enq x # ops) q =
     (let (ok, q1) = enq q x; (acc, out, q2) = fifo_run enq enqb deq deqb ops q1
      in ((if ok then [x] else []) @ acc, out, q2))"
| "fifo_run enq enqb deq deqb (EnqBatch xs # ops) q =
     (let (k, q1) = enqb q xs; (acc, out, q2) = fifo_run enq enqb deq deqb ops q1
      in (take k xs @ acc, out, q2))"
| "fifo_run enq enqb deq deqb (Deq # ops) q =
     (let ((x, ok), q1) = deq q; (acc, out, q2) = fifo_run enq enqb deq deqb ops q1
      in (acc, (if ok then [x] else []) @ out, q2))"
| "fifo_run enq enqb deq deqb (DeqBatch n # ops) q =
     (let (xs, q1) = deqb q n; (acc, out, q2) = fifo_run enq enqb deq deqb ops q1
      in (acc, xs @ out, q2))"

locale fifo =
  fixes enq :: "'q \<Rightarrow> 'a::zero \<Rightarrow> bool \<times> 'q"
    and enqb :: "'q \<Rightarrow> 'a list \<Rightarrow> nat \<times> 'q"
    and deq :: "'q \<Rightarrow> ('a \<times> bool) \<times> 'q"
    and deqb :: "'q \<Rightarrow> nat \<Rightarrow> 'a list \<times> 'q"
    and contents :: "'q \<Rightarrow> 'a list"
    and invar :: "'q \<Rightarrow> bool"
  assumes enq_law: "invar q \<Longrightarrow> enq q x = (ok, q') \<Longrightarrow>
      invar q' \<and> contents q' = contents q @ (if ok then [x] else [])"
    and enqb_law: "invar q \<Longrightarrow> enqb q xs = (k, q') \<Longrightarrow>
      invar q' \<and> contents q' = contents q @ take k xs"
    and deq_law: "invar q \<Longrightarrow> deq q = ((x, ok), q') \<Longrightarrow>
      invar q' \<and> (if ok then contents q = x # contents q' else contents q = [] \<and> contents q' = [] \<and> x = 0)"
    and deqb_law: "invar q \<Longrightarrow> deqb q n = (xs, q') \<Longrightarrow>
      invar q' \<and> contents q = xs @ contents q' \<and> length xs \<le> n"
begin

lemma run_law:
  "invar q \<Longrightarrow> fifo_run enq enqb deq deqb ops q = (acc, out, q') \<Longrightarrow>
     invar q' \<and> contents q @ acc = out @ contents q'"
proof (induction ops arbitrary: q acc out)
  case Nil
  then show ?case by simp
next
  case (Cons op ops)
  show ?case
  proof (cases op)
    case (Enq x)
    obtain ok q1 acc' out' where e: "enq q x = (ok, q1)"
      and r: "fifo_run enq enqb deq deqb ops q1 = (acc', out', q')"
      and o: "acc = (if ok then [x] else []) @ acc'" "out = out'"
      using Cons.prems(2) Enq by (auto split: prod.splits)
    from Cons.IH[OF _ r] enq_law[OF Cons.prems(1) e] o show ?thesis by auto
  next
    case (EnqBatch xs)
    obtain k q1 acc' out' where e: "enqb q xs = (k, q1)"
      and r: "fifo_run enq enqb deq deqb ops q1 = (acc', out', q')"
      and o: "acc = take k xs @ acc'" "out = out'"
      using Cons.prems(2) EnqBatch by (auto split: prod.splits)
    from Cons.IH[OF _ r] enqb_law[OF Cons.prems(1) e] o show ?thesis by auto
  next
    case Deq
    obtain x ok q1 acc' out' where e: "deq q = ((x, ok), q1)"
      and r: "fifo_run enq enqb deq deqb ops q1 = (acc', out', q')"
      and o: "acc = acc'" "out = (if ok then [x] else []) @ out'"
      using Cons.prems(2) Deq by (auto split: prod.splits)
    from Cons.IH[OF _ r] deq_law[OF Cons.prems(1) e] o show ?thesis by (cases ok) auto
  next
    case (DeqBatch n)
    obtain xs q1 acc' out' where e: "deqb q n = (xs, q1)"
      and r: "fifo_run enq enqb deq deqb ops q1 = (acc', out', q')"
      and o: "acc = acc'" "out = xs @ out'"
      using Cons.prems(2) DeqBatch by (auto split: prod.splits)
    from Cons.IH[OF _ r] deqb_law[OF Cons.prems(1) e] o show ?thesis by auto
  qed
qed

text \<open>
  From an empty queue the delivered elements are a prefix of the accepted ones, in
  order: nothing is lost, duplicated, reordered or invented, and what is not yet
  delivered is exactly the contents.
\<close>

lemma run_from_empty:
  "invar q \<Longrightarrow> contents q = [] \<Longrightarrow> fifo_run enq enqb deq deqb ops q = (acc, out, q') \<Longrightarrow>
     acc = out @ contents q'"
  using run_law by fastforce

text \<open>A removal reports "empty" exactly when the contents are empty.\<close>

lemma deq_ok_iff: "invar q \<Longrightarrow> snd (fst (deq q)) \<longleftrightarrow> contents q \<noteq> []"
  using deq_law[of q "fst (fst (deq q))" "snd (fst (deq q))" "snd (deq q)"]
  by (auto split: if_splits)

end

text \<open>
  A mailbox is a queue whose owner can stop further insertions: it accepts exactly while it
  is not stopped, stopping keeps what is queued, and a batch removal takes as many as asked
  for. This is what a connection relies on to close without losing what was accepted.
\<close>

locale mailbox = fifo enq enqb deq deqb contents invar
  for enq :: "'q \<Rightarrow> 'a::zero \<Rightarrow> bool \<times> 'q" and enqb deq deqb contents invar +
  fixes stop :: "'q \<Rightarrow> 'q" and stopped :: "'q \<Rightarrow> bool"
  assumes enq_iff: "invar q \<Longrightarrow> enq q x = (ok, q') \<Longrightarrow> (ok \<longleftrightarrow> \<not> stopped q) \<and> stopped q' = stopped q"
    and deqb_take: "invar q \<Longrightarrow> deqb q n = (xs, q') \<Longrightarrow> xs = take n (contents q) \<and> stopped q' = stopped q"
    and stop_law: "invar q \<Longrightarrow> invar (stop q) \<and> contents (stop q) = contents q \<and> stopped (stop q)"
begin

lemma refused_when_stopped: "invar q \<Longrightarrow> stopped q \<Longrightarrow> enq q x = (ok, q') \<Longrightarrow> \<not> ok \<and> contents q' = contents q"
  using enq_iff[of q x ok q'] enq_law[of q x ok q'] by simp

lemma deqb_rest: "invar q \<Longrightarrow> deqb q n = (xs, q') \<Longrightarrow> invar q' \<and> contents q' = drop n (contents q)"
  using deqb_take[of q n xs q'] deqb_law[of q n xs q'] by (metis append_take_drop_id same_append_eq)

lemma deqb_empty_iff: "invar q \<Longrightarrow> 0 < n \<Longrightarrow> deqb q n = (xs, q') \<Longrightarrow> xs = [] \<longleftrightarrow> contents q = []"
  using deqb_take[of q n xs q'] by auto

end

end
