(* ===== verification/Bounded_Queue.thy ===== *)
theory Bounded_Queue
  imports Fifo_Spec
begin

text \<open>
  \<^verbatim>\<open>zqueue/queue.go\<close>: the mutex-protected bounded ring queue. One definition per method,
  run as one atomic step, since every method holds \<open>q.lock\<close> for its whole body. The
  slices and counters are the fields of the record; \<open>items\<close> is a list whose length is
  \<open>len(q.items)\<close>.
\<close>

section \<open>State and construction\<close>

type_synonym full_policy = int

definition FullPolicyResize :: full_policy where "FullPolicyResize = 0"

definition FullPolicyDrop :: full_policy where "FullPolicyDrop = 1"

record 'a queue =
  q_items :: "'a list"
  q_head :: nat
  q_tail :: nat
  q_count :: nat
  q_fullPolicy :: full_policy
  q_maxSize :: int
  q_closed :: bool

definition nextPowerOfTwo :: "int \<Rightarrow> int" where
  "nextPowerOfTwo n = (if n \<le> 0 then 2 else i64 (smear64 (n - 1) + 1))"

definition normalizeQueueMaxSize :: "int \<Rightarrow> int \<Rightarrow> int" where
  "normalizeQueueMaxSize capacity maxSize =
     (if maxSize \<le> 0 then 0
      else let maxSize = nextPowerOfTwo maxSize
           in if capacity > maxSize then capacity else maxSize)"

definition NewQueue :: "int \<Rightarrow> int \<Rightarrow> full_policy \<Rightarrow> 'a::zero queue" where
  "NewQueue initialSize maxSize policy =
     (let capacity = nextPowerOfTwo initialSize
      in \<lparr>q_items = replicate (nat capacity) 0, q_head = 0, q_tail = 0, q_count = 0,
          q_fullPolicy = policy, q_maxSize = normalizeQueueMaxSize capacity maxSize,
          q_closed = False\<rparr>)"

definition GetDefaultQueue :: "int \<Rightarrow> 'a::zero queue" where
  "GetDefaultQueue sz = NewQueue sz 0 FullPolicyResize"

definition Count :: "'a queue \<Rightarrow> nat" where "Count q = q_count q"

definition Cap :: "'a queue \<Rightarrow> nat" where "Cap q = length (q_items q)"

definition IsClosed :: "'a queue \<Rightarrow> bool" where "IsClosed q = q_closed q"

definition Close :: "'a queue \<Rightarrow> 'a queue" where "Close q = q\<lparr>q_closed := True\<rparr>"

section \<open>Resizing\<close>

fun resize_copy :: "'a list \<Rightarrow> nat \<Rightarrow> nat \<Rightarrow> nat \<Rightarrow> 'a list \<Rightarrow> 'a list" where
  "resize_copy old cur i 0 new = new"
| "resize_copy old cur i (Suc n) new =
     resize_copy old ((cur + 1) mod length old) (Suc i) n (new[i := old ! cur])"

definition resizeTo :: "nat \<Rightarrow> 'a::zero queue \<Rightarrow> 'a queue" where
  "resizeTo targetSize q =
     (if targetSize \<le> length (q_items q) then q
      else q\<lparr>q_items := resize_copy (q_items q) (q_head q) 0 (q_count q) (replicate targetSize 0),
             q_head := 0, q_tail := q_count q\<rparr>)"

definition resize :: "'a::zero queue \<Rightarrow> 'a queue" where
  "resize q = resizeTo (length (q_items q) * 2) q"

section \<open>Insertion\<close>

definition put_locked :: "'a \<Rightarrow> nat \<Rightarrow> 'a queue \<Rightarrow> 'a queue" where
  "put_locked item next q =
     q\<lparr>q_items := (q_items q)[q_tail q := item], q_tail := next, q_count := q_count q + 1\<rparr>"

definition enqueueLocked :: "'a::zero queue \<Rightarrow> 'a \<Rightarrow> bool \<times> 'a queue" where
  "enqueueLocked q item =
     (if q_closed q then (False, q)
      else let n = length (q_items q); next = (q_tail q + 1) mod n
           in if next = q_head q then
                if q_fullPolicy q = FullPolicyResize then
                  if q_maxSize q > 0 \<and> int n \<ge> q_maxSize q then (False, q)
                  else let q1 = resize q; n1 = length (q_items q1)
                       in (True, put_locked item ((q_tail q1 + 1) mod n1) q1)
                else if q_fullPolicy q = FullPolicyDrop then (False, q)
                else (True, put_locked item next q)
              else (True, put_locked item next q))"

definition Enqueue :: "'a::zero queue \<Rightarrow> 'a \<Rightarrow> bool \<times> 'a queue" where
  "Enqueue q item = enqueueLocked q item"

text \<open>\<open>lockFree\<close> is the outcome of \<open>q.lock.TryLock()\<close>.\<close>

definition TryEnqueue :: "bool \<Rightarrow> 'a::zero queue \<Rightarrow> 'a \<Rightarrow> bool \<times> 'a queue" where
  "TryEnqueue lockFree q item = (if \<not> lockFree then (False, q) else enqueueLocked q item)"

text \<open>
  The doubling loop of \<open>EnqueueBatch\<close>: \<open>Some (True, t)\<close> when it ends with target \<open>t\<close>,
  \<open>Some (False, t)\<close> for the early \<open>return false\<close>, \<^term>\<open>None\<close> when it does not end.
\<close>

partial_function (option) grow_target :: "int \<Rightarrow> nat \<Rightarrow> nat \<Rightarrow> nat \<Rightarrow> (bool \<times> nat) option" where
  "grow_target maxSize cnt required targetSize =
     (if int targetSize - 1 - int cnt < int required then
        if maxSize > 0 \<and> int (targetSize * 2) > maxSize then Some (False, targetSize * 2)
        else grow_target maxSize cnt required (targetSize * 2)
      else Some (True, targetSize))"

definition put_batch :: "'a list \<Rightarrow> 'a queue \<Rightarrow> 'a queue" where
  "put_batch xs q =
     (let requiredSpace = length xs; n = length (q_items q); firstChunkLen = n - q_tail q
      in if firstChunkLen \<ge> requiredSpace then
           q\<lparr>q_items := go_copy (q_items q) (q_tail q) xs,
             q_tail := (q_tail q + requiredSpace) mod n, q_count := q_count q + requiredSpace\<rparr>
         else let secondChunkLen = requiredSpace - firstChunkLen
              in q\<lparr>q_items := go_copy (go_copy (q_items q) (q_tail q) (take firstChunkLen xs)) 0
                                (drop firstChunkLen xs),
                   q_tail := secondChunkLen mod n, q_count := q_count q + requiredSpace\<rparr>)"

definition EnqueueBatch :: "'a::zero queue \<Rightarrow> 'a list \<Rightarrow> (bool \<times> 'a queue) option" where
  "EnqueueBatch q xs =
     (if length xs = 0 then Some (True, q)
      else if q_closed q then Some (False, q)
      else let requiredSpace = length xs; currentCap = length (q_items q);
               availableSpace = int currentCap - 1 - int (q_count q)
           in if availableSpace < int requiredSpace then
                if q_fullPolicy q = FullPolicyDrop then Some (False, q)
                else do {
                  (fits, targetSize) \<leftarrow> grow_target (q_maxSize q) (q_count q) requiredSpace currentCap;
                  if fits then Some (True, put_batch xs (resizeTo targetSize q))
                  else Some (False, q)
                }
              else Some (True, put_batch xs q))"

section \<open>Removal\<close>

definition Front :: "'a::zero queue \<Rightarrow> 'a \<times> bool" where
  "Front q = (if q_count q = 0 then (0, False) else (q_items q ! q_head q, True))"

definition Dequeue :: "'a::zero queue \<Rightarrow> ('a \<times> bool) \<times> 'a queue" where
  "Dequeue q =
     (if q_count q = 0 then ((0, False), q)
      else ((q_items q ! q_head q, True),
            q\<lparr>q_items := go_clear (q_items q) (q_head q) (q_head q + 1),
              q_head := (q_head q + 1) mod length (q_items q),
              q_count := q_count q - 1\<rparr>))"

text \<open>\<open>limit\<close> is \<open>cap(buf)\<close>; the result is the returned slice and the remaining count.\<close>

definition DequeueBatch :: "'a::zero queue \<Rightarrow> nat \<Rightarrow> ('a list \<times> nat) \<times> 'a queue" where
  "DequeueBatch q capBuf =
     (if q_count q = 0 then (([], 0), q)
      else if capBuf = 0 then (([], q_count q), q)
      else let limit = (if capBuf > q_count q then q_count q else capBuf);
               startHead = q_head q;
               nitems = length (q_items q);
               first = (if nitems - startHead > limit then limit else nitems - startHead);
               remain = limit - first;
               buf1 = (if first > 0 then take first (drop startHead (q_items q)) else []);
               items1 = (if first > 0 then go_clear (q_items q) startHead (startHead + first) else q_items q);
               buf2 = (if remain > 0 then buf1 @ take remain items1 else buf1);
               items2 = (if remain > 0 then go_clear items1 0 remain else items1)
           in ((buf2, q_count q - limit),
               q\<lparr>q_items := items2, q_head := (startHead + limit) mod nitems,
                 q_count := q_count q - limit\<rparr>))"

section \<open>Invariant and abstraction\<close>

text \<open>
  The well-formedness invariant: a power-of-two ring with one slot kept free, the tail
  determined by head and count, the configured maximum a power of two that bounds the
  ring, and every slot outside the window zeroed (no reference is retained).
\<close>

definition vacant_zero :: "'a::zero list \<Rightarrow> nat \<Rightarrow> nat \<Rightarrow> bool" where
  "vacant_zero buf s n \<longleftrightarrow> (\<forall>i. n \<le> i \<and> i < length buf \<longrightarrow> buf ! ((s + i) mod length buf) = 0)"

definition ring_ok :: "'a::zero queue \<Rightarrow> bool" where
  "ring_ok q \<longleftrightarrow> q_head q < length (q_items q)
     \<and> q_tail q = (q_head q + q_count q) mod length (q_items q)
     \<and> q_count q < length (q_items q)
     \<and> vacant_zero (q_items q) (q_head q) (q_count q)"

definition bounds_ok :: "'a queue \<Rightarrow> bool" where
  "bounds_ok q \<longleftrightarrow> (\<exists>k. length (q_items q) = 2 ^ k)
     \<and> (q_maxSize q = 0 \<or> (\<exists>k. q_maxSize q = 2 ^ k \<and> int (length (q_items q)) \<le> q_maxSize q))
     \<and> (q_fullPolicy q = FullPolicyResize \<or> q_fullPolicy q = FullPolicyDrop)"

definition queue_inv :: "'a::zero queue \<Rightarrow> bool" where
  "queue_inv q \<longleftrightarrow> ring_ok q \<and> bounds_ok q"

definition queue_contents :: "'a queue \<Rightarrow> 'a list" where
  "queue_contents q = ring_view (q_items q) (q_head q) (q_count q)"

lemmas queue_defs = queue_inv_def ring_ok_def bounds_ok_def

text \<open>Construction.\<close>

lemma nextPowerOfTwo_ceil:
  assumes "0 < n" "n \<le> 2 ^ 62"
  obtains p where "nextPowerOfTwo n = int p" "is_ceil_pow2 (nat n) p"
proof -
  have n: "n - 1 = int (nat n - 1)" using assms by simp
  have le: "nat n \<le> 2 ^ 62" using assms by (simp add: nat_le_iff)
  have "\<exists>p. smear64 (n - 1) + 1 = int p \<and> is_ceil_pow2 (nat n) p"
  proof (cases "n = 1")
    case True
    then show ?thesis by (intro exI[of _ 1]) (use is_ceil_pow2_1[of 1] in simp)
  next
    case False
    then have "is_ceil_pow2 (nat n) (smear64 (nat n - 1) + 1)"
      using assms le by (intro smear64_ceil_pow2) auto
    then show ?thesis unfolding n smear64_of_nat by (intro exI[of _ "smear64 (nat n - 1) + 1"]) simp
  qed
  then obtain p where p: "smear64 (n - 1) + 1 = int p" "is_ceil_pow2 (nat n) p" by blast
  have "p \<le> 2 ^ 62" using is_ceil_pow2_le[OF p(2) le] .
  then have "int p \<le> int (2 ^ 62)" by (simp only: of_nat_le_iff)
  then have "nextPowerOfTwo n = int p" using assms p(1) by (simp add: nextPowerOfTwo_def)
  with p(2) show thesis using that by blast
qed

lemma nextPowerOfTwo_pow2:
  assumes "n \<le> 2 ^ 62"
  shows "\<exists>k. nextPowerOfTwo n = 2 ^ k \<and> k \<le> 62 \<and> n \<le> 2 ^ k"
proof (cases "n \<le> 0")
  case True
  then show ?thesis by (intro exI[of _ 1]) (simp add: nextPowerOfTwo_def)
next
  case False
  then obtain p where p: "nextPowerOfTwo n = int p" "is_ceil_pow2 (nat n) p"
    using nextPowerOfTwo_ceil assms by (metis not_le)
  then obtain k where k: "p = 2 ^ k" by (auto simp: is_ceil_pow2_def)
  have "p \<le> 2 ^ 62" using is_ceil_pow2_le[OF p(2), of 62] assms by (simp add: nat_le_iff)
  then have "k \<le> 62" unfolding k by (rule power_le_imp_le_exp[rotated]) simp
  moreover have "n \<le> int p" using is_ceil_pow2_bounds(1)[OF p(2)] by (simp add: nat_le_iff)
  ultimately show ?thesis using p(1) k by auto
qed

lemma normalizeQueueMaxSize_pow2:
  assumes "capacity = 2 ^ k" "maxSize \<le> 2 ^ 62"
  shows "normalizeQueueMaxSize capacity maxSize = 0
     \<or> (\<exists>m. normalizeQueueMaxSize capacity maxSize = 2 ^ m \<and> capacity \<le> normalizeQueueMaxSize capacity maxSize)"
  using nextPowerOfTwo_pow2[OF assms(2)] assms(1)
  by (auto simp: normalizeQueueMaxSize_def Let_def)

lemma NewQueue_inv:
  assumes "initialSize \<le> 2 ^ 62" "maxSize \<le> 2 ^ 62"
    and "policy = FullPolicyResize \<or> policy = FullPolicyDrop"
  shows "queue_inv (NewQueue initialSize maxSize policy)" "queue_contents (NewQueue initialSize maxSize policy) = []"
proof -
  obtain k where k: "nextPowerOfTwo initialSize = 2 ^ k" using nextPowerOfTwo_pow2[OF assms(1)] by blast
  then show "queue_inv (NewQueue initialSize maxSize policy)"
    using normalizeQueueMaxSize_pow2[OF k assms(2)] assms(3)
    by (auto simp: queue_defs NewQueue_def Let_def vacant_zero_def nat_power_eq)
  show "queue_contents (NewQueue initialSize maxSize policy) = []"
    by (simp add: queue_contents_def NewQueue_def Let_def)
qed

section \<open>The operations keep the ring and move the contents\<close>

lemma ring_ok_nonempty: "ring_ok q \<Longrightarrow> q_items q \<noteq> []"
  by (auto simp: ring_ok_def)

text \<open>Resizing copies the window to the front of a larger zeroed array.\<close>

lemma resize_copy_eq:
  "cur < length old \<Longrightarrow> i + n \<le> length new \<Longrightarrow>
     resize_copy old cur i n new = go_copy new i (ring_view old cur n)"
proof (induction n arbitrary: cur i new)
  case 0
  then show ?case by (simp add: go_copy_def)
next
  case (Suc n)
  have c: "(cur + 1) mod length old < length old" using Suc.prems(1) by (intro mod_less_divisor) linarith
  have "resize_copy old cur i (Suc n) new =
      go_copy (new[i := old ! cur]) (Suc i) (ring_view old (Suc cur) n)"
    using Suc.IH[OF c] Suc.prems by simp
  also have "\<dots> = go_copy new i (old ! cur # ring_view old (Suc cur) n)"
    by (rule nth_equalityI) (use Suc.prems in \<open>auto simp: nth_go_copy nth_Cons' nth_list_update\<close>)
  also have "old ! cur # ring_view old (Suc cur) n = ring_view old cur (Suc n)"
    using Suc.prems by (simp add: ring_view_Cons)
  finally show ?case .
qed

lemma resizeTo_facts:
  assumes "ring_ok q" "length (q_items q) < t"
  shows "ring_ok (resizeTo t q)" "length (q_items (resizeTo t q)) = t"
    and "queue_contents (resizeTo t q) = queue_contents q"
    and "q_head (resizeTo t q) = 0" "q_tail (resizeTo t q) = q_count q" "q_count (resizeTo t q) = q_count q"
proof -
  let ?w = "ring_view (q_items q) (q_head q) (q_count q)"
  have it: "q_items (resizeTo t q) = go_copy (replicate t 0) 0 ?w"
    using assms by (simp add: resizeTo_def resize_copy_eq ring_ok_def)
  show l: "length (q_items (resizeTo t q)) = t" by (simp add: it)
  show h: "q_head (resizeTo t q) = 0" "q_tail (resizeTo t q) = q_count q" "q_count (resizeTo t q) = q_count q"
    using assms by (auto simp: resizeTo_def)
  show "ring_ok (resizeTo t q)"
    using assms l h by (auto simp: ring_ok_def vacant_zero_def it nth_go_copy)
  show "queue_contents (resizeTo t q) = queue_contents q"
    unfolding queue_contents_def h it
    by (rule nth_equalityI) (use assms in \<open>auto simp: nth_go_copy ring_ok_def\<close>)
qed

lemma put_locked_facts:
  assumes "ring_ok q" "q_count q + 1 < length (q_items q)" "next = (q_tail q + 1) mod length (q_items q)"
  shows "ring_ok (put_locked x next q)"
    and "queue_contents (put_locked x next q) = queue_contents q @ [x]"
proof -
  let ?c = "length (q_items q)"
  have t: "q_tail q = (q_head q + q_count q) mod ?c" using assms by (simp add: ring_ok_def)
  show "queue_contents (put_locked x next q) = queue_contents q @ [x]"
    using assms by (simp add: queue_contents_def put_locked_def t ring_view_snoc)
  have "vacant_zero ((q_items q)[(q_head q + q_count q) mod ?c := x]) (q_head q) (Suc (q_count q))"
    using assms by (auto simp: vacant_zero_def ring_ok_def nth_list_update_at)
  then show "ring_ok (put_locked x next q)"
    using assms by (simp add: ring_ok_def put_locked_def t mod_Suc_eq add.commute)
qed

lemma put_batch_eq:
  assumes "q_tail q < length (q_items q)" "length xs \<le> length (q_items q)"
  shows "put_batch xs q = q\<lparr>q_items := ring_put (q_items q) (q_tail q) xs,
     q_tail := (q_tail q + length xs) mod length (q_items q), q_count := q_count q + length xs\<rparr>"
proof -
  have "(length xs - (length (q_items q) - q_tail q)) mod length (q_items q) =
        (q_tail q + length xs) mod length (q_items q)"
    if "\<not> length xs \<le> length (q_items q) - q_tail q"
  proof -
    have "length xs - (length (q_items q) - q_tail q) = q_tail q + length xs - length (q_items q)"
      using assms by simp
    moreover have "length (q_items q) \<le> q_tail q + length xs" using that by simp
    ultimately show ?thesis by (simp only: le_mod_geq)
  qed
  then show ?thesis by (auto simp: put_batch_def ring_put_def Let_def)
qed

lemma put_batch_facts:
  assumes "ring_ok q" "q_count q + length xs < length (q_items q)"
  shows "ring_ok (put_batch xs q)" "queue_contents (put_batch xs q) = queue_contents q @ xs"
proof -
  let ?c = "length (q_items q)"
  have ne: "q_items q \<noteq> []" using assms(1) by (rule ring_ok_nonempty)
  have t: "q_tail q = (q_head q + q_count q) mod ?c" "q_tail q < ?c" "0 < ?c"
    using assms ne by (auto simp: ring_ok_def)
  have e: "put_batch xs q = q\<lparr>q_items := ring_put (q_items q) (q_tail q) xs,
     q_tail := (q_tail q + length xs) mod ?c, q_count := q_count q + length xs\<rparr>"
    using assms t by (intro put_batch_eq) auto
  show "queue_contents (put_batch xs q) = queue_contents q @ xs"
    using assms t(2,3) unfolding t(1) by (simp add: queue_contents_def e t(1) ring_view_put)
  have "vacant_zero (ring_put (q_items q) (q_tail q) xs) (q_head q) (q_count q + length xs)"
    using assms t by (auto simp: vacant_zero_def ring_ok_def nth_ring_put_at)
  then show "ring_ok (put_batch xs q)"
    using assms t(2) by (auto simp: ring_ok_def e mod_add_left_eq add.assoc)
qed

section \<open>Exact behaviour of every operation\<close>

lemma next_is_head_iff:
  assumes "ring_ok q"
  shows "(q_tail q + 1) mod length (q_items q) = q_head q \<longleftrightarrow> q_count q + 1 = length (q_items q)"
proof -
  let ?c = "length (q_items q)"
  have h: "q_head q < ?c" "q_count q < ?c" "q_tail q = (q_head q + q_count q) mod ?c" "q_items q \<noteq> []"
    using assms ring_ok_nonempty by (auto simp: ring_ok_def)
  have eq: "(q_tail q + 1) mod ?c = (q_head q + (q_count q + 1)) mod ?c"
    using h(3) by (simp add: mod_simps)
  show ?thesis
  proof
    assume "(q_tail q + 1) mod ?c = q_head q"
    then have "(q_head q + (q_count q + 1)) mod ?c = (q_head q + 0) mod ?c"
      using eq h(1) by simp
    then show "q_count q + 1 = ?c"
      using mod_window_inj[of "q_count q + 1" ?c 0 "q_head q"] h
      by (cases "q_count q + 1 = ?c") auto
  next
    assume "q_count q + 1 = ?c"
    then show "(q_tail q + 1) mod ?c = q_head q" using eq h(1) by simp
  qed
qed

text \<open>
  The abstract capacity: how many elements the queue can hold before an insertion is
  refused. \<^term>\<open>None\<close> is "no bound".
\<close>

definition room :: "'a queue \<Rightarrow> nat option" where
  "room q = (if q_fullPolicy q = FullPolicyDrop then Some (length (q_items q) - 1)
             else if q_maxSize q = 0 then None else Some (nat (q_maxSize q) - 1))"

definition fits :: "'a queue \<Rightarrow> nat \<Rightarrow> bool" where
  "fits q n \<longleftrightarrow> (case room q of None \<Rightarrow> True | Some m \<Rightarrow> q_count q + n \<le> m)"

lemma policies_distinct [simp]: "FullPolicyDrop \<noteq> FullPolicyResize" "FullPolicyResize \<noteq> FullPolicyDrop"
  by (simp_all add: FullPolicyDrop_def FullPolicyResize_def)

lemma pow2_double_le:
  assumes "(2::int) ^ a < 2 ^ b" shows "2 * 2 ^ a \<le> (2::int) ^ b"
proof -
  have "a < b" using assms by (rule power_less_imp_less_exp[rotated]) simp
  then have "(2::int) ^ Suc a \<le> 2 ^ b" by (intro power_increasing) auto
  then show ?thesis by simp
qed

lemma bounds_ok_double:
  assumes "bounds_ok q" "\<not> (q_maxSize q > 0 \<and> int (length (q_items q)) \<ge> q_maxSize q)"
    "length its = 2 * length (q_items q)"
  shows "bounds_ok (q\<lparr>q_items := its, q_head := h, q_tail := t, q_count := n\<rparr>)"
proof -
  obtain k where k: "length (q_items q) = 2 ^ k" using assms by (auto simp: bounds_ok_def)
  have "q_maxSize q = 0 \<or> (\<exists>m. q_maxSize q = 2 ^ m \<and> 2 * 2 ^ k \<le> q_maxSize q)"
    using assms(1,2) k pow2_double_le[of k] by (auto simp: bounds_ok_def)
  then show ?thesis
    using assms k by (auto simp: bounds_ok_def intro!: exI[of _ "Suc k"])
qed

lemma enqueueLocked_facts:
  assumes inv: "queue_inv q" and e: "enqueueLocked q x = (ok, q')"
  shows "queue_inv q'"
    and "ok \<longleftrightarrow> \<not> q_closed q \<and> fits q 1"
    and "queue_contents q' = queue_contents q @ (if ok then [x] else [])"
    and "\<not> ok \<Longrightarrow> q' = q"
proof -
  let ?c = "length (q_items q)"
  have r: "ring_ok q" and b: "bounds_ok q" using inv by (auto simp: queue_inv_def)
  note nx = next_is_head_iff[OF r]
  have cc: "q_count q < ?c" using r by (simp add: ring_ok_def)
  have mx: "q_maxSize q = 0 \<or> int ?c \<le> q_maxSize q" using b by (auto simp: bounds_ok_def)
  consider (closed) "q_closed q" | (space) "\<not> q_closed q" "q_count q + 1 < ?c"
    | (drop) "\<not> q_closed q" "q_count q + 1 = ?c" "q_fullPolicy q = FullPolicyDrop"
    | (max) "\<not> q_closed q" "q_count q + 1 = ?c" "q_fullPolicy q = FullPolicyResize"
        "q_maxSize q > 0 \<and> int ?c \<ge> q_maxSize q"
    | (grow) "\<not> q_closed q" "q_count q + 1 = ?c" "q_fullPolicy q = FullPolicyResize"
        "\<not> (q_maxSize q > 0 \<and> int ?c \<ge> q_maxSize q)"
    using cc b unfolding bounds_ok_def by linarith
  then have "queue_inv q' \<and> (ok \<longleftrightarrow> \<not> q_closed q \<and> fits q 1)
     \<and> queue_contents q' = queue_contents q @ (if ok then [x] else []) \<and> (\<not> ok \<longrightarrow> q' = q)"
  proof cases
    case closed
    then show ?thesis using e inv by (auto simp: enqueueLocked_def)
  next
    case space
    then have q': "ok" "q' = put_locked x ((q_tail q + 1) mod ?c) q"
      using e nx by (auto simp: enqueueLocked_def Let_def)
    have "bounds_ok q'" using b q' by (auto simp: bounds_ok_def put_locked_def)
    moreover have "fits q 1"
      using space mx by (auto simp: fits_def room_def)
    ultimately show ?thesis
      using put_locked_facts[OF r space(2) refl] q' space by (simp add: queue_inv_def)
  next
    case drop
    then show ?thesis using e nx inv
      by (auto simp: enqueueLocked_def Let_def fits_def room_def)
  next
    case max
    then show ?thesis using e nx inv
      by (auto simp: enqueueLocked_def Let_def fits_def room_def)
  next
    case grow
    let ?q1 = "resize q"
    have c0: "0 < ?c" using cc by linarith
    note f = resizeTo_facts[OF r, of "?c * 2", folded resize_def]
    have q': "ok" "q' = put_locked x ((q_tail ?q1 + 1) mod length (q_items ?q1)) ?q1"
      using e nx grow by (auto simp: enqueueLocked_def Let_def)
    have p: "ring_ok q'" "queue_contents q' = queue_contents q @ [x]"
      using put_locked_facts[of ?q1 _ x] f c0 cc q'(2) by auto
    have "bounds_ok q'"
    proof -
      have "q' = q\<lparr>q_items := q_items q', q_head := q_head q', q_tail := q_tail q', q_count := q_count q'\<rparr>"
        by (simp add: q' put_locked_def resize_def resizeTo_def)
      moreover have "length (q_items q') = 2 * ?c" using f c0 by (simp add: q' put_locked_def)
      ultimately show ?thesis using bounds_ok_double[OF b grow(4)] by metis
    qed
    moreover have "fits q 1"
      using grow mx cc by (auto simp: fits_def room_def)
    ultimately show ?thesis using p q' grow by (simp add: queue_inv_def)
  qed
  then show "queue_inv q'" "ok \<longleftrightarrow> \<not> q_closed q \<and> fits q 1"
    "queue_contents q' = queue_contents q @ (if ok then [x] else [])" "\<not> ok \<Longrightarrow> q' = q" by auto
qed

text \<open>The doubling loop of \<open>EnqueueBatch\<close> ends, and ends with the right target.\<close>

lemma grow_target_total:
  "0 < t \<Longrightarrow> \<exists>ok t'. grow_target M cnt r t = Some (ok, t')
     \<and> (ok \<longrightarrow> cnt + r < t' \<and> (\<exists>j. t' = t * 2 ^ j) \<and> (t' = t \<or> M \<le> 0 \<or> int t' \<le> M))
     \<and> (\<not> ok \<longrightarrow> 0 < M \<and> (\<forall>j. int (t * 2 ^ j) \<le> M \<longrightarrow> t * 2 ^ j \<le> cnt + r))"
proof (induction "cnt + r + 1 - t" arbitrary: t rule: less_induct)
  case less
  consider (stop) "cnt + r < t" | (over) "\<not> cnt + r < t" "M > 0 \<and> int (t * 2) > M"
    | (step) "\<not> cnt + r < t" "\<not> (M > 0 \<and> int (t * 2) > M)" by blast
  then show ?case
  proof cases
    case stop
    then have "grow_target M cnt r t = Some (True, t)" by (subst grow_target.simps) simp
    moreover have "\<exists>j. t = t * 2 ^ j" by (rule exI[of _ 0]) simp
    ultimately show ?thesis using stop by auto
  next
    case over
    have "t * 2 ^ j \<le> cnt + r" if "int (t * 2 ^ j) \<le> M" for j
    proof (cases j)
      case 0 then show ?thesis using over by simp
    next
      case (Suc i)
      have "int t * 2 \<le> int t * (2 ^ j)" using Suc by (intro mult_left_mono) auto
      then have False
        using over(2) that unfolding of_nat_mult of_nat_power of_nat_numeral by linarith
      then show ?thesis ..
    qed
    moreover have "grow_target M cnt r t = Some (False, t * 2)"
      using over by (subst grow_target.simps) auto
    ultimately show ?thesis using over by auto
  next
    case step
    have "cnt + r + 1 - t * 2 < cnt + r + 1 - t" "0 < t * 2" using step less.prems by auto
    from less.hyps[OF this] obtain ok t' where ih: "grow_target M cnt r (t * 2) = Some (ok, t')"
      "ok \<longrightarrow> cnt + r < t' \<and> (\<exists>j. t' = t * 2 * 2 ^ j) \<and> (t' = t * 2 \<or> M \<le> 0 \<or> int t' \<le> M)"
      "\<not> ok \<longrightarrow> 0 < M \<and> (\<forall>j. int (t * 2 * 2 ^ j) \<le> M \<longrightarrow> t * 2 * 2 ^ j \<le> cnt + r)" by blast
    have g: "grow_target M cnt r t = Some (ok, t')"
      using step ih(1) by (subst grow_target.simps) auto
    have "t * 2 ^ j \<le> cnt + r" if "\<not> ok" "int (t * 2 ^ j) \<le> M" for j
      using ih(3) that step by (cases j) (auto simp: mult.assoc)
    moreover have "\<exists>j. t' = t * 2 ^ j" if ok
      using ih(2) that by (auto simp: mult.assoc simp flip: power_Suc)
    ultimately show ?thesis using g ih(2,3) step by (auto simp: not_less)
  qed
qed

lemma EnqueueBatch_facts:
  assumes inv: "queue_inv q"
  shows "\<exists>ok q'. EnqueueBatch q xs = Some (ok, q') \<and> queue_inv q'
     \<and> (ok \<longleftrightarrow> xs = [] \<or> (\<not> q_closed q \<and> fits q (length xs)))
     \<and> queue_contents q' = queue_contents q @ (if ok then xs else [])
     \<and> (\<not> ok \<longrightarrow> q' = q)"
proof -
  let ?c = "length (q_items q)" and ?r = "length xs"
  have r: "ring_ok q" and b: "bounds_ok q" using inv by (auto simp: queue_inv_def)
  have cc: "q_count q < ?c" "0 < ?c" using r by (auto simp: ring_ok_def)
  have mx: "q_maxSize q = 0 \<or> int ?c \<le> q_maxSize q" using b by (auto simp: bounds_ok_def)
  have put: "queue_inv (put_batch xs p) \<and> queue_contents (put_batch xs p) = queue_contents p @ xs"
    if "queue_inv p" "q_count p + ?r < length (q_items p)" for p
  proof -
    have "bounds_ok (put_batch xs p)"
      using that put_batch_facts(1)[of p xs] by (auto simp: queue_defs put_batch_eq)
    then show ?thesis using that put_batch_facts[of p xs] by (auto simp: queue_inv_def)
  qed
  consider (nil) "xs = []" | (closed) "xs \<noteq> []" "q_closed q"
    | (space) "xs \<noteq> []" "\<not> q_closed q" "q_count q + ?r < ?c"
    | (drop) "xs \<noteq> []" "\<not> q_closed q" "\<not> q_count q + ?r < ?c" "q_fullPolicy q = FullPolicyDrop"
    | (grow) "xs \<noteq> []" "\<not> q_closed q" "\<not> q_count q + ?r < ?c" "q_fullPolicy q = FullPolicyResize"
    using b unfolding bounds_ok_def by blast
  then show ?thesis
  proof cases
    case nil
    then show ?thesis using inv by (intro exI[of _ True]) (simp add: EnqueueBatch_def)
  next
    case closed
    then show ?thesis using inv by (intro exI[of _ False]) (simp add: EnqueueBatch_def)
  next
    case space
    then have "EnqueueBatch q xs = Some (True, put_batch xs q)"
      using cc by (simp add: EnqueueBatch_def Let_def)
    moreover have "fits q ?r" using space mx cc by (auto simp: fits_def room_def)
    ultimately show ?thesis using put[OF inv space(3)] space by auto
  next
    case drop
    then have "EnqueueBatch q xs = Some (False, q)"
      using cc by (simp add: EnqueueBatch_def Let_def)
    then show ?thesis using drop inv cc by (auto simp: fits_def room_def)
  next
    case grow
    obtain ok t where g: "grow_target (q_maxSize q) (q_count q) ?r ?c = Some (ok, t)"
      "ok \<longrightarrow> q_count q + ?r < t \<and> (\<exists>j. t = ?c * 2 ^ j) \<and> (t = ?c \<or> q_maxSize q \<le> 0 \<or> int t \<le> q_maxSize q)"
      "\<not> ok \<longrightarrow> 0 < q_maxSize q \<and> (\<forall>j. int (?c * 2 ^ j) \<le> q_maxSize q \<longrightarrow> ?c * 2 ^ j \<le> q_count q + ?r)"
      using grow_target_total[OF cc(2)] by blast
    have e: "EnqueueBatch q xs = (if ok then Some (True, put_batch xs (resizeTo t q)) else Some (False, q))"
      using grow g(1) cc by (simp add: EnqueueBatch_def Let_def)
    obtain k where k: "?c = 2 ^ k" using b by (auto simp: bounds_ok_def)
    show ?thesis
    proof (cases ok)
      case True
      then have t: "q_count q + ?r < t" "t = ?c \<or> q_maxSize q \<le> 0 \<or> int t \<le> q_maxSize q" "\<exists>j. t = 2 ^ j"
        using g(2) k by (auto simp flip: power_add)
      then have "?c < t" using grow(3) by linarith
      note f = resizeTo_facts[OF r this]
      have "bounds_ok (resizeTo t q)"
        using b t f \<open>?c < t\<close> by (auto simp: bounds_ok_def resizeTo_def)
      then have "queue_inv (resizeTo t q)" using f by (simp add: queue_inv_def)
      then have "queue_inv (put_batch xs (resizeTo t q)) \<and> queue_contents (put_batch xs (resizeTo t q)) = queue_contents q @ xs"
        using put f t by simp
      moreover have "fits q ?r" using grow t(1,2) mx \<open>?c < t\<close> by (auto simp: fits_def room_def)
      ultimately show ?thesis using True e grow by auto
    next
      case False
      then have M: "0 < q_maxSize q" using g(3) by blast
      then obtain m where m: "q_maxSize q = 2 ^ m" "int ?c \<le> 2 ^ m" using b by (auto simp: bounds_ok_def)
      then have "k \<le> m" using k by simp
      then have "?c * 2 ^ (m - k) = 2 ^ m" by (simp add: k flip: power_add)
      then have "2 ^ m \<le> q_count q + ?r" using g(3) False m by (metis of_nat_numeral of_nat_power order_refl)
      then have "\<not> q_count q + ?r \<le> 2 ^ m - 1" using zero_less_power[of "2::nat" m] by linarith
      then have "\<not> fits q ?r" using grow M m by (auto simp: fits_def room_def nat_power_eq)
      then show ?thesis using False e grow inv by auto
    qed
  qed
qed

text \<open>Removal.\<close>

lemma vacant_zero_clear:
  assumes "s < length buf" "k \<le> n" "n \<le> length buf" "vacant_zero buf s n"
  shows "vacant_zero (ring_clear buf s k) ((s + k) mod length buf) (n - k)"
  unfolding vacant_zero_def
proof safe
  fix i assume i: "n - k \<le> i" "i < length (ring_clear buf s k)"
  have l: "length (ring_clear buf s k) = length buf" using assms by simp
  then have il: "i < length buf" using i by simp
  have "ring_clear buf s k ! ((s + (k + i)) mod length buf) = 0"
  proof (cases "k + i < length buf")
    case True
    then show ?thesis using assms i by (simp add: nth_ring_clear vacant_zero_def)
  next
    case False
    then obtain d where d: "k + i = length buf + d" using le_Suc_ex not_less by blast
    then have "d < k" using il by linarith
    have "(s + (k + i)) mod length buf = (s + d) mod length buf" 
      by (metis d add.commute add.left_commute mod_add_self2)
    then show ?thesis using assms \<open>d < k\<close> by (simp add: nth_ring_clear)
  qed
  then show "ring_clear buf s k ! (((s + k) mod length buf + i) mod length (ring_clear buf s k)) = 0"
    by (simp add: l mod_assoc_shift)
qed

lemma ring_ok_drop:
  assumes "ring_ok q" "k \<le> q_count q"
  shows "ring_ok (q\<lparr>q_items := ring_clear (q_items q) (q_head q) k,
      q_head := (q_head q + k) mod length (q_items q), q_count := q_count q - k\<rparr>)"
    and "queue_contents (q\<lparr>q_items := ring_clear (q_items q) (q_head q) k,
      q_head := (q_head q + k) mod length (q_items q), q_count := q_count q - k\<rparr>) = drop k (queue_contents q)"
proof -
  let ?c = "length (q_items q)"
  have f: "q_head q < ?c" "q_count q < ?c" "q_tail q = (q_head q + q_count q) mod ?c"
    "vacant_zero (q_items q) (q_head q) (q_count q)" "q_items q \<noteq> []"
    using assms ring_ok_nonempty by (auto simp: ring_ok_def)
  have "((q_head q + k) mod ?c + (q_count q - k)) mod ?c = (q_head q + q_count q) mod ?c"
    using assms(2) by (rule mod_split)
  then show "ring_ok (q\<lparr>q_items := ring_clear (q_items q) (q_head q) k,
      q_head := (q_head q + k) mod ?c, q_count := q_count q - k\<rparr>)"
    using f assms(2) vacant_zero_clear[of "q_head q" "q_items q" k "q_count q"]
    by (simp add: ring_ok_def)
  have "ring_view (ring_clear (q_items q) (q_head q) k) ((q_head q + k) mod ?c) (q_count q - k) =
        ring_view (ring_clear (q_items q) (q_head q) k) (q_head q + k) (q_count q - k)"
    using f assms(2) by (intro ring_view_start_cong) simp
  then show "queue_contents (q\<lparr>q_items := ring_clear (q_items q) (q_head q) k,
      q_head := (q_head q + k) mod ?c, q_count := q_count q - k\<rparr>) = drop k (queue_contents q)"
    using f assms(2) by (simp add: queue_contents_def drop_ring_view ring_view_clear)
qed

lemma bounds_ok_drop: "bounds_ok q \<Longrightarrow> length its = length (q_items q) \<Longrightarrow>
    bounds_ok (q\<lparr>q_items := its, q_head := h, q_count := n\<rparr>)"
  by (auto simp: bounds_ok_def)

lemma queue_inv_drop:
  assumes "queue_inv q" "k \<le> q_count q"
  shows "queue_inv (q\<lparr>q_items := ring_clear (q_items q) (q_head q) k,
      q_head := (q_head q + k) mod length (q_items q), q_count := q_count q - k\<rparr>)"
proof -
  have "k \<le> length (q_items q)" "q_head q \<le> length (q_items q)"
    using assms by (auto simp: queue_defs)
  then show ?thesis
    using assms ring_ok_drop(1) by (auto simp: queue_inv_def intro!: bounds_ok_drop)
qed

lemma Dequeue_facts:
  assumes inv: "queue_inv q" and e: "Dequeue q = ((x, ok), q')"
  shows "queue_inv q'"
    and "if ok then queue_contents q = x # queue_contents q' else queue_contents q = [] \<and> q' = q \<and> x = 0"
proof -
  have r: "ring_ok q" using inv by (simp add: queue_inv_def)
  have c: "q_count q < length (q_items q)" "q_head q < length (q_items q)"
    using r by (auto simp: ring_ok_def)
  have "queue_inv q' \<and> (if ok then queue_contents q = x # queue_contents q' else queue_contents q = [] \<and> q' = q \<and> x = 0)"
  proof (cases "q_count q = 0")
    case True
    then show ?thesis using e inv by (auto simp: Dequeue_def queue_contents_def)
  next
    case False
    have clr: "go_clear (q_items q) (q_head q) (q_head q + 1) = ring_clear (q_items q) (q_head q) 1"
      using c(2) by (auto simp: ring_clear_def)
    have q': "ok" "x = q_items q ! q_head q"
      "q' = q\<lparr>q_items := ring_clear (q_items q) (q_head q) 1,
              q_head := (q_head q + 1) mod length (q_items q), q_count := q_count q - 1\<rparr>"
      using e False by (auto simp: Dequeue_def clr simp del: One_nat_def)
    have "x # drop 1 (queue_contents q) = queue_contents q"
      using False c by (cases "q_count q") (simp_all add: queue_contents_def ring_view_Cons q'(2))
    then show ?thesis
      using queue_inv_drop[OF inv, of 1] ring_ok_drop(2)[OF r, of 1] False q' by simp
  qed
  then show "queue_inv q'"
    "if ok then queue_contents q = x # queue_contents q' else queue_contents q = [] \<and> q' = q \<and> x = 0" by auto
qed

lemma DequeueBatch_facts:
  assumes inv: "queue_inv q" and e: "DequeueBatch q n = ((xs, rest), q')"
  shows "queue_inv q'" "xs = take n (queue_contents q)" "queue_contents q' = drop n (queue_contents q)"
    "rest = length (queue_contents q')"
proof -
  let ?c = "length (q_items q)"
  have r: "ring_ok q" using inv by (simp add: queue_inv_def)
  have c: "q_count q < ?c" "q_head q < ?c" using r by (auto simp: ring_ok_def)
  have "queue_inv q' \<and> xs = take n (queue_contents q) \<and> queue_contents q' = drop n (queue_contents q)
      \<and> rest = length (queue_contents q')"
  proof (cases "q_count q = 0 \<or> n = 0")
    case True
    then show ?thesis using e inv by (auto simp: DequeueBatch_def queue_contents_def split: if_splits)
  next
    case False
    define k where "k = (if n > q_count q then q_count q else n)"
    have k: "0 < k" "k \<le> q_count q" using False by (auto simp: k_def)
    define f where "f = (if ?c - q_head q > k then k else ?c - q_head q)"
    have f: "0 < f" "f \<le> k" "f = min k (?c - q_head q)" using k c by (auto simp: f_def)
    let ?it1 = "go_clear (q_items q) (q_head q) (q_head q + f)"
    let ?it2 = "if k - f > 0 then go_clear ?it1 0 (k - f) else ?it1"
    let ?out = "if k - f > 0 then take f (drop (q_head q) (q_items q)) @ take (k - f) ?it1
                else take f (drop (q_head q) (q_items q))"
    have q': "xs = ?out" "rest = q_count q - k"
      "q' = q\<lparr>q_items := ?it2, q_head := (q_head q + k) mod ?c, q_count := q_count q - k\<rparr>"
      using e False f(1) unfolding DequeueBatch_def Let_def k_def[symmetric] f_def[symmetric]
      by (auto split: if_splits)
    have it2: "?it2 = ring_clear (q_items q) (q_head q) k"
      using f k c by (auto simp: ring_clear_def min_def)
    have out: "?out = ring_view (q_items q) (q_head q) k"
    proof (cases "k - f > 0")
      case True
      then have "f = ?c - q_head q" "?c \<le> q_head q + k" using f by (auto simp: min_def split: if_splits)
      moreover have "take (k - f) ?it1 = take (k - f) (q_items q)"
        using k c f calculation by (simp add: go_clear_def)
      ultimately show ?thesis using True c k by (simp add: ring_view_wrap)
    next
      case False
      then show ?thesis using f k c by (simp add: ring_view_flat min_def split: if_splits)
    qed
    have "take n (queue_contents q) = ring_view (q_items q) (q_head q) k" "drop n (queue_contents q) = drop k (queue_contents q)"
      using False by (auto simp: queue_contents_def take_ring_view k_def min_def)
    then show ?thesis
      using queue_inv_drop[OF inv k(2)] ring_ok_drop(2)[OF r k(2)] unfolding q' it2 out
      by (simp add: queue_contents_def)
  qed
  then show "queue_inv q'" "xs = take n (queue_contents q)" "queue_contents q' = drop n (queue_contents q)"
    "rest = length (queue_contents q')" by auto
qed

text \<open>The mutex queue provides the FIFO contract.\<close>

definition enqueue_batch_count :: "'a::zero queue \<Rightarrow> 'a list \<Rightarrow> nat \<times> 'a queue" where
  "enqueue_batch_count q xs =
     (case EnqueueBatch q xs of None \<Rightarrow> (0, q) | Some (ok, q') \<Rightarrow> ((if ok then length xs else 0), q'))"

definition dequeue_batch_items :: "'a::zero queue \<Rightarrow> nat \<Rightarrow> 'a list \<times> 'a queue" where
  "dequeue_batch_items q n = (case DequeueBatch q n of ((xs, rest), q') \<Rightarrow> (xs, q'))"

interpretation bq: fifo Enqueue enqueue_batch_count Dequeue dequeue_batch_items queue_contents queue_inv
proof unfold_locales
  fix q q' :: "'a::zero queue" and x ok
  assume "queue_inv q" "Enqueue q x = (ok, q')"
  then show "queue_inv q' \<and> queue_contents q' = queue_contents q @ (if ok then [x] else [])"
    using enqueueLocked_facts(1,3) unfolding Enqueue_def by blast
next
  fix q q' :: "'a::zero queue" and xs k
  assume "queue_inv q" "enqueue_batch_count q xs = (k, q')"
  then show "queue_inv q' \<and> queue_contents q' = queue_contents q @ take k xs"
    using EnqueueBatch_facts[of q xs] by (auto simp: enqueue_batch_count_def split: if_splits)
next
  fix q q' :: "'a::zero queue" and x ok
  assume "queue_inv q" "Dequeue q = ((x, ok), q')"
  then show "queue_inv q' \<and> (if ok then queue_contents q = x # queue_contents q'
      else queue_contents q = [] \<and> queue_contents q' = [] \<and> x = 0)"
    using Dequeue_facts[of q x ok q'] by (cases ok) auto
next
  fix q q' :: "'a::zero queue" and xs n
  assume "queue_inv q" "dequeue_batch_items q n = (xs, q')"
  then show "queue_inv q' \<and> queue_contents q = xs @ queue_contents q' \<and> length xs \<le> n"
    using DequeueBatch_facts[of q n xs] by (auto simp: dequeue_batch_items_def split: prod.splits)
qed

section \<open>Properties\<close>

text \<open>
  C34: The mutex queue is a FIFO. Start from \<open>NewQueue\<close> (any sizes up to \<open>2^62\<close>, either
  policy) and run any sequence of \<open>Enqueue\<close>, \<open>EnqueueBatch\<close>, \<open>Dequeue\<close> and \<open>DequeueBatch\<close>
  calls, through any number of ring resizes: the elements accepted are, in order, the
  elements delivered followed by what the queue still holds.
\<close>

theorem queue_fifo_order:
  assumes "initialSize \<le> 2 ^ 62" "maxSize \<le> 2 ^ 62"
    and "policy = FullPolicyResize \<or> policy = FullPolicyDrop"
    and "fifo_run Enqueue enqueue_batch_count Dequeue dequeue_batch_items ops
           (NewQueue initialSize maxSize policy) = (accepted, delivered, q)"
  shows "accepted = delivered @ queue_contents q \<and> queue_inv q"
  using bq.run_law[OF NewQueue_inv(1)[OF assms(1-3)] assms(4)]
  by (simp add: NewQueue_inv(2)[OF assms(1-3)])

theorem queue_fifo_order_witness:
  "(\<exists>accepted delivered q.
      fifo_run Enqueue enqueue_batch_count Dequeue dequeue_batch_items
        [Enq 1, EnqBatch [2, 3, 4], Deq, Enq 5, DeqBatch 2] (NewQueue 2 0 FullPolicyResize :: int queue)
        = (accepted, delivered, q) \<and> accepted = delivered @ queue_contents q)"
proof -
  let ?r = "fifo_run Enqueue enqueue_batch_count Dequeue dequeue_batch_items
        [Enq 1, EnqBatch [2, 3, 4], Deq, Enq 5, DeqBatch 2] (NewQueue 2 0 FullPolicyResize :: int queue)"
  obtain a d q where r: "?r = (a, d, q)" by (metis prod_cases3)
  have "a = d @ queue_contents q \<and> queue_inv q"
    by (rule queue_fifo_order[OF _ _ _ r]) simp_all
  with r show ?thesis by blast
qed

text \<open>
  \<open>EnqueueBatch\<close> always returns (its doubling loop ends), is all-or-nothing, and
  accepts a non-empty batch exactly when the queue is open and the batch fits the room
  that the policy and \<open>maxSize\<close> leave; a refused batch changes nothing.
\<close>

theorem enqueue_batch_atomic:
  assumes "queue_inv q"
  shows "\<exists>ok q'. EnqueueBatch q xs = Some (ok, q') \<and> queue_inv q'
     \<and> (ok \<longleftrightarrow> xs = [] \<or> (\<not> q_closed q \<and> fits q (length xs)))
     \<and> queue_contents q' = queue_contents q @ (if ok then xs else [])
     \<and> (\<not> ok \<longrightarrow> q' = q)"
  using assms by (rule EnqueueBatch_facts)

theorem enqueue_batch_atomic_witness:
  "\<exists>ok q'. EnqueueBatch (NewQueue 2 4 FullPolicyResize :: int queue) [1, 2, 3] = Some (ok, q')
     \<and> ok \<and> queue_contents q' = [1, 2, 3]"
proof -
  let ?q = "NewQueue 2 4 FullPolicyResize :: int queue"
  have inv: "queue_inv ?q" by (rule NewQueue_inv) simp_all
  have p: "nextPowerOfTwo 2 = 2" "nextPowerOfTwo 4 = 4" by code_simp+
  have "fits ?q (length [1, 2, 3 :: int])" "\<not> q_closed ?q" "queue_contents ?q = []"
    by (simp_all add: fits_def room_def NewQueue_def Let_def normalizeQueueMaxSize_def p queue_contents_def)
  with enqueue_batch_atomic[OF inv, of "[1, 2, 3]"] show ?thesis by auto
qed

text \<open>
  A single insertion succeeds exactly when the queue is open and one more element
  fits; it then appends the element, possibly after doubling the ring, and otherwise
  leaves the queue untouched. The invariant it keeps includes that the ring never grows
  past \<open>maxSize\<close> and that every vacant slot is zero.
\<close>

lemma enqueue_exact:
  assumes "queue_inv q" and "Enqueue q x = (ok, q')"
  shows "queue_inv q' \<and> (ok \<longleftrightarrow> \<not> q_closed q \<and> fits q 1)
     \<and> queue_contents q' = queue_contents q @ (if ok then [x] else []) \<and> (\<not> ok \<longrightarrow> q' = q)"
  using enqueueLocked_facts[OF assms(1)] assms(2) unfolding Enqueue_def by blast

end
