(* ===== verification/Bounded_MPSC.thy ===== *)
theory Bounded_MPSC
  imports Bounded_Queue
begin

text \<open>
  \<^verbatim>\<open>zqueue/mpsc.go\<close>: the lock-free bounded ring for many producers and one consumer.
  Every atomic access of the code, and every access to the data of a slot, is a step of its
  own: \<open>pstep\<close> runs one access of a producer from the point its call has reached, \<open>cstep\<close>
  one of the consumer, and \<open>ring_step\<close> interleaves any number of producers with the
  consumer. Counters, sequence numbers and the mask are 64-bit words as in the code. A
  slot is addressed by its logical index; the layout of the padded queue in memory is
  modelled on its own. \<open>runtime.Gosched\<close> has no effect on the state.
\<close>

section \<open>State and construction\<close>

record 'a mring =
  mq_head :: u64
  mq_tail :: u64
  mq_mask :: u64
  mq_closed :: bool
  mq_seq :: "u64 list"
  mq_data :: "'a list"

definition NewMPSCQueue :: "int \<Rightarrow> 'a::zero mring" where
  "NewMPSCQueue capacity =
     (let capacity = nextPowerOfTwo capacity
      in \<lparr>mq_head = 0, mq_tail = 0, mq_mask = word_of_int (capacity - 1), mq_closed = False,
          mq_seq = map of_nat [0..<nat capacity], mq_data = replicate (nat capacity) 0\<rparr>)"

definition slot_of :: "'a mring \<Rightarrow> u64 \<Rightarrow> nat" where
  "slot_of s h = unat (h AND mq_mask s)"

definition sequenceAt :: "'a mring \<Rightarrow> u64 \<Rightarrow> u64" where
  "sequenceAt s h = mq_seq s ! slot_of s h"

definition dataAt :: "'a mring \<Rightarrow> u64 \<Rightarrow> 'a" where
  "dataAt s h = mq_data s ! slot_of s h"

definition store_sequence :: "u64 \<Rightarrow> u64 \<Rightarrow> 'a mring \<Rightarrow> 'a mring" where
  "store_sequence h v s = s\<lparr>mq_seq := (mq_seq s)[slot_of s h := v]\<rparr>"

definition store_data :: "u64 \<Rightarrow> 'a \<Rightarrow> 'a mring \<Rightarrow> 'a mring" where
  "store_data h v s = s\<lparr>mq_data := (mq_data s)[slot_of s h := v]\<rparr>"

definition MCap :: "'a mring \<Rightarrow> u64" where "MCap s = mq_mask s + 1"

definition MIsClosed :: "'a mring \<Rightarrow> bool" where "MIsClosed s = mq_closed s"

definition MClose :: "'a mring \<Rightarrow> 'a mring" where "MClose s = s\<lparr>mq_closed := True\<rparr>"

text \<open>\<open>Len\<close> reads the tail in one state and the head in a later one.\<close>

definition MLen :: "'a mring \<Rightarrow> 'a mring \<Rightarrow> u64" where
  "MLen at_tail at_head =
     (let t = mq_tail at_tail; h = mq_head at_head in if h < t then 0 else h - t)"

subsection \<open>The padded layout\<close>

text \<open>
  The stride of a slot in bytes and the number of physical slots behind a logical one, for
  a slot of \<open>slotSize\<close> bytes; the byte offset of a logical slot.
\<close>

definition cacheLineSize :: nat where "cacheLineSize = 128"

definition padded_layout :: "nat \<Rightarrow> nat \<times> nat" where
  "padded_layout slotSize =
     (if slotSize \<ge> cacheLineSize then (slotSize, 1)
      else let stride = (slotSize + cacheLineSize - 1) div cacheLineSize * cacheLineSize;
               slotsPerLogical = stride div slotSize
           in if stride mod slotSize \<noteq> 0
              then let slotsPerLogical = slotsPerLogical + 1 in (slotsPerLogical * slotSize, slotsPerLogical)
              else (stride, slotsPerLogical))"

definition slot_offset :: "nat \<Rightarrow> nat \<Rightarrow> nat" where "slot_offset stride i = stride * i"

section \<open>The producers\<close>

text \<open>
  The points of a call that a producer can be at. \<open>Fast k xs\<close> is the head of the batch loop
  in attempt \<open>k\<close>; \<open>Slow once xs n\<close> is the loop that puts the items \<open>xs\<close> one by one after
  \<open>n\<close> were put, \<open>once\<close> telling the Try calls, which do not repeat, from the others. \<open>Put\<close>
  and \<open>Publish\<close> fill the slots claimed from \<open>h\<close> on with the items \<open>ys\<close>. A call ends in
  \<open>Returned n\<close>, \<open>n\<close> being the number of items that were put; a single \<open>Enqueue\<close> is the
  loop over one item, and its result \<open>true\<close> is \<open>n = 1\<close>.
\<close>

datatype 'a ppc = Returned nat
  | Fast nat "'a list" | FastOpen nat "'a list" | FastHead nat "'a list" u64
  | FastLast nat "'a list" u64 | FastCas nat "'a list" u64
  | Slow bool "'a list" nat | SlowOpen bool "'a list" nat | SlowHead bool "'a list" nat u64
  | SlowCas bool "'a list" nat u64 | SlowFull "'a list" nat u64
  | Put "'a list" u64 bool "'a list" nat | Publish "'a list" u64 bool "'a list" nat

definition MEnqueue :: "'a \<Rightarrow> 'a ppc" where "MEnqueue x = Slow False [x] 0"

definition MTryEnqueue :: "'a \<Rightarrow> 'a ppc" where "MTryEnqueue x = Slow True [x] 0"

definition MTryEnqueueBatch :: "'a list \<Rightarrow> 'a ppc" where "MTryEnqueueBatch xs = Slow True xs 0"

definition MEnqueueBatch :: "'a list \<Rightarrow> 'a ppc" where
  "MEnqueueBatch xs = (if xs = [] then Returned 0 else Fast 0 xs)"

fun fast_step :: "'a mring \<Rightarrow> 'a ppc \<Rightarrow> 'a mring \<times> 'a ppc" where
  "fast_step s (Fast k xs) =
     (if k < 3 \<and> length xs \<le> unat (MCap s)
      then (if mq_closed s then (s, Returned 0) else (s, FastOpen k xs))
      else (s, Slow False xs 0))"
| "fast_step s (FastOpen k xs) = (s, FastHead k xs (mq_head s))"
| "fast_step s (FastHead k xs h) =
     (let lst = h + of_nat (length xs) - 1
      in if sint (sequenceAt s lst - lst) < 0 then (s, Slow False xs 0) else (s, FastLast k xs h))"
| "fast_step s (FastLast k xs h) =
     (if sint (sequenceAt s h - h) \<noteq> 0 then (s, Fast (k + 1) xs) else (s, FastCas k xs h))"
| "fast_step s (FastCas k xs h) =
     (if mq_head s = h then (s\<lparr>mq_head := h + of_nat (length xs)\<rparr>, Put xs h False [] 0)
      else (s, Fast (k + 1) xs))"
| "fast_step s pc = (s, pc)"

fun slow_step :: "'a mring \<Rightarrow> 'a ppc \<Rightarrow> 'a mring \<times> 'a ppc" where
  "slow_step s (Slow once [] n) = (s, Returned n)"
| "slow_step s (Slow once (x # xs) n) =
     (if mq_closed s then (s, Returned n) else (s, SlowOpen once (x # xs) n))"
| "slow_step s (SlowOpen once xs n) = (s, SlowHead once xs n (mq_head s))"
| "slow_step s (SlowHead once xs n h) =
     (let dif = sint (sequenceAt s h - h)
      in if dif = 0 then (s, SlowCas once xs n h)
         else if once then (s, Returned n)
         else if dif < 0 then (s, SlowFull xs n h)
         else (s, Slow once xs n))"
| "slow_step s (SlowCas once xs n h) =
     (if mq_head s = h then (s\<lparr>mq_head := h + 1\<rparr>, Put [hd xs] h once (tl xs) n)
      else if once then (s, Returned n) else (s, Slow once xs n))"
| "slow_step s (SlowFull xs n h) = (if mq_head s = h then (s, Returned n) else (s, Slow False xs n))"
| "slow_step s pc = (s, pc)"

fun put_step :: "'a mring \<Rightarrow> 'a ppc \<Rightarrow> 'a mring \<times> 'a ppc" where
  "put_step s (Put ys h once xs n) = (store_data h (hd ys) s, Publish ys h once xs n)"
| "put_step s (Publish ys h once xs n) =
     (store_sequence h (h + 1) s,
      if tl ys = [] then Slow once xs (n + 1) else Put (tl ys) (h + 1) once xs (n + 1))"
| "put_step s pc = (s, pc)"

definition pstep :: "'a mring \<Rightarrow> 'a ppc \<Rightarrow> 'a mring \<times> 'a ppc" where
  "pstep s pc =
     (case pc of Returned n \<Rightarrow> (s, pc)
      | Put ys h once xs n \<Rightarrow> put_step s pc
      | Publish ys h once xs n \<Rightarrow> put_step s pc
      | Fast k xs \<Rightarrow> fast_step s pc
      | FastOpen k xs \<Rightarrow> fast_step s pc
      | FastHead k xs h \<Rightarrow> fast_step s pc
      | FastLast k xs h \<Rightarrow> fast_step s pc
      | FastCas k xs h \<Rightarrow> fast_step s pc
      | _ \<Rightarrow> slow_step s pc)"

section \<open>The consumer\<close>

text \<open>
  \<open>CScan lim acc t\<close> is the head of the reading loop at position \<open>t\<close>; then a slot is read
  (\<open>CTake\<close>) and cleared (\<open>CZero\<close>), the tail is stored (\<open>CTail\<close>) and the slots are released
  (\<open>CRelease\<close>, the \<open>i\<close>-th from \<open>base\<close>). \<open>Dequeue\<close> makes the accesses of a batch of one.
\<close>

datatype 'a cpc = CDone "'a list"
  | CScan nat "'a list" u64 | CTake nat "'a list" u64 | CZero nat "'a list" u64
  | CTail "'a list" u64 | CRelease "'a list" u64 nat

definition MDequeueBatch :: "nat \<Rightarrow> 'a mring \<Rightarrow> 'a cpc" where
  "MDequeueBatch limit s = (if limit = 0 then CDone [] else CScan limit [] (mq_tail s))"

definition MDequeue :: "'a mring \<Rightarrow> 'a cpc" where "MDequeue s = CScan 1 [] (mq_tail s)"

fun cstep :: "'a::zero mring \<Rightarrow> 'a cpc \<Rightarrow> 'a mring \<times> 'a cpc" where
  "cstep s (CScan lim acc t) =
     (if length acc < lim \<and> \<not> sint (sequenceAt s t - t) \<noteq> 1 then (s, CTake lim acc t)
      else if acc = [] then (s, CDone []) else (s, CTail acc t))"
| "cstep s (CTake lim acc t) = (s, CZero lim (acc @ [dataAt s t]) t)"
| "cstep s (CZero lim acc t) = (store_data t 0 s, CScan lim acc (t + 1))"
| "cstep s (CTail acc t) = (s\<lparr>mq_tail := t\<rparr>, CRelease acc (t - of_nat (length acc)) 0)"
| "cstep s (CRelease acc base i) =
     (if i < length acc
      then (store_sequence (base + of_nat i) (base + of_nat i + mq_mask s + 1) s, CRelease acc base (i + 1))
      else (s, CDone acc))"
| "cstep s (CDone acc) = (s, CDone acc)"

text \<open>What the accesses of a single removal come to.\<close>

definition consumeOne :: "'a::zero mring \<Rightarrow> u64 \<Rightarrow> 'a \<times> 'a mring" where
  "consumeOne s tail =
     (let val = dataAt s tail; s = store_data tail 0 s; s = s\<lparr>mq_tail := tail + 1\<rparr>
      in (val, store_sequence tail (tail + mq_mask s + 1) s))"

section \<open>Interleaving\<close>

text \<open>
  The system keeps, beside the queue and where everyone is, the items in the order they were
  claimed (\<open>ms_in\<close>) and delivered (\<open>ms_out\<close>), and for each producer the items of its current
  call and those of them it has claimed.
\<close>

record 'a msys =
  ms_ring :: "'a mring"
  ms_pc :: "nat \<Rightarrow> 'a ppc"
  ms_con :: "'a cpc"
  ms_in :: "'a list"
  ms_out :: "'a list"
  ms_req :: "nat \<Rightarrow> 'a list"
  ms_acc :: "nat \<Rightarrow> 'a list"

fun claims :: "'a mring \<Rightarrow> 'a ppc \<Rightarrow> 'a list" where
  "claims s (FastCas k xs h) = (if mq_head s = h then xs else [])"
| "claims s (SlowCas once xs n h) = (if mq_head s = h then [hd xs] else [])"
| "claims s pc = []"

fun takes :: "'a mring \<Rightarrow> 'a cpc \<Rightarrow> 'a list" where
  "takes s (CTake lim acc t) = [dataAt s t]"
| "takes s c = []"

inductive ring_step :: "'a::zero msys \<Rightarrow> 'a msys \<Rightarrow> bool" where
  call: "ms_pc m p = Returned n \<Longrightarrow> pc \<in> {Slow once xs 0, MEnqueueBatch xs} \<Longrightarrow>
    ring_step m (m\<lparr>ms_pc := (ms_pc m)(p := pc), ms_req := (ms_req m)(p := xs), ms_acc := (ms_acc m)(p := [])\<rparr>)"
| producer: "pstep (ms_ring m) (ms_pc m p) = (s, pc) \<Longrightarrow>
    ring_step m (m\<lparr>ms_ring := s, ms_pc := (ms_pc m)(p := pc), ms_in := ms_in m @ claims (ms_ring m) (ms_pc m p),
      ms_acc := (ms_acc m)(p := ms_acc m p @ claims (ms_ring m) (ms_pc m p))\<rparr>)"
| close: "ring_step m (m\<lparr>ms_ring := MClose (ms_ring m)\<rparr>)"
| ask: "ms_con m = CDone acc \<Longrightarrow> ring_step m (m\<lparr>ms_con := MDequeueBatch limit (ms_ring m)\<rparr>)"
| consumer: "cstep (ms_ring m) (ms_con m) = (s, c) \<Longrightarrow>
    ring_step m (m\<lparr>ms_ring := s, ms_con := c, ms_out := ms_out m @ takes (ms_ring m) (ms_con m)\<rparr>)"

definition ring_start :: "int \<Rightarrow> 'a::zero msys" where
  "ring_start capacity = \<lparr>ms_ring = NewMPSCQueue capacity, ms_pc = (\<lambda>_. Returned 0), ms_con = CDone [],
     ms_in = [], ms_out = [], ms_req = (\<lambda>_. []), ms_acc = (\<lambda>_. [])\<rparr>"

text \<open>
  The runs considered claim fewer than \<open>2 ^ 63\<close> items, so that no counter has gone round.
\<close>

definition counters_fit :: "'a msys \<Rightarrow> bool" where
  "counters_fit m \<longleftrightarrow> length (ms_in m) < 2 ^ 63"

inductive ring_reach :: "int \<Rightarrow> 'a::zero msys \<Rightarrow> bool" for capacity where
  start: "ring_reach capacity (ring_start capacity)"
| step: "ring_reach capacity m \<Longrightarrow> ring_step m m' \<Longrightarrow> counters_fit m' \<Longrightarrow> ring_reach capacity m'"

inductive_cases ring_stepE: "ring_step m m'"

lemmas ring_step_cases = ring_stepE[consumes 1, case_names call producer close ask consumer]


section \<open>Signed differences of counters\<close>

lemma sint_zero_iff: "sint (w :: u64) = 0 \<longleftrightarrow> w = 0"
  by (auto intro: signed_word_eqI)

lemma sint_one_iff: "sint (a - t :: u64) = 1 \<longleftrightarrow> a = t + 1"
proof -
  have "sint (a - t) = 1 \<longleftrightarrow> a - t = 1" by (auto intro: signed_word_eqI)
  then show ?thesis by (simp add: diff_eq_eq add.commute)
qed

text \<open>The signed difference of two counters that are close together.\<close>

lemma sint_diff:
  assumes "- (2 ^ 63) \<le> uint a - uint (b :: u64)" "uint a - uint b < 2 ^ 63"
  shows "sint (a - b) = uint a - uint b"
proof -
  have "a - b = word_of_int (uint a - uint b)" by simp
  then have "sint (a - b) = signed_take_bit 63 (uint a - uint b)"
    by (simp only: sint_sbintrunc' len_num0 len_bit0 len_bit1) (simp add: signed_take_bit_int_eq_self)
  then show ?thesis using assms by (simp add: signed_take_bit_int_eq_self)
qed

lemma unat_eqI: "unat a = unat (b :: u64) \<Longrightarrow> a = b"
  by (rule unsigned_word_eqI)

section \<open>The invariant\<close>

text \<open>
  Positions are counted from the start of the run. With \<open>R\<close> the first position that is not
  yet released and \<open>C\<close> the first that is not yet read, the slots of the positions
  \<open>R, \<dots>, R + cap - 1\<close> are those of the ring; a position is read, published, claimed by
  exactly one producer, or free, as its sequence number says.
\<close>

definition ring_wf :: "nat \<Rightarrow> 'a mring \<Rightarrow> bool" where
  "ring_wf k s \<longleftrightarrow> 1 \<le> k \<and> k \<le> 62 \<and> mq_mask s = 2 ^ k - 1 \<and> length (mq_seq s) = 2 ^ k \<and> length (mq_data s) = 2 ^ k"

definition seq_at :: "'a mring \<Rightarrow> nat \<Rightarrow> nat" where
  "seq_at s p = unat (mq_seq s ! (p mod length (mq_seq s)))"

definition data_at :: "'a mring \<Rightarrow> nat \<Rightarrow> 'a" where
  "data_at s p = mq_data s ! (p mod length (mq_data s))"

fun owns :: "'a ppc \<Rightarrow> nat set" where
  "owns (Put ys h once xs n) = {unat h ..< unat h + length ys}"
| "owns (Publish ys h once xs n) = {unat h ..< unat h + length ys}"
| "owns pc = {}"

text \<open>What the program point of a producer remembers about the ring.\<close>

fun pc_sees :: "nat \<Rightarrow> 'a mring \<Rightarrow> nat \<Rightarrow> nat \<Rightarrow> 'a list \<Rightarrow> 'a ppc \<Rightarrow> bool" where
  "pc_sees k s R H L (Put ys h once xs n) =
     (ys \<noteq> [] \<and> unat h + length ys \<le> H \<and> (\<forall>j<length ys. seq_at s (unat h + j) = unat h + j \<and> L ! (unat h + j) = ys ! j))"
| "pc_sees k s R H L (Publish ys h once xs n) =
     (ys \<noteq> [] \<and> unat h + length ys \<le> H \<and> (\<forall>j<length ys. seq_at s (unat h + j) = unat h + j \<and> L ! (unat h + j) = ys ! j)
      \<and> data_at s (unat h) = hd ys)"
| "pc_sees k s R H L (SlowOpen once xs n) = (xs \<noteq> [])"
| "pc_sees k s R H L (SlowHead once xs n h) = (xs \<noteq> [] \<and> unat h \<le> H)"
| "pc_sees k s R H L (SlowFull xs n h) = (xs \<noteq> [])"
| "pc_sees k s R H L (SlowCas once xs n h) = (xs \<noteq> [] \<and> unat h \<le> H \<and> (unat h = H \<longrightarrow> H + 1 \<le> R + 2 ^ k))"
| "pc_sees k s R H L (Fast a xs) = (xs \<noteq> [])"
| "pc_sees k s R H L (FastOpen a xs) = (xs \<noteq> [] \<and> length xs \<le> 2 ^ k)"
| "pc_sees k s R H L (FastHead a xs h) = (xs \<noteq> [] \<and> length xs \<le> 2 ^ k \<and> unat h \<le> H)"
| "pc_sees k s R H L (FastLast a xs h) =
     (xs \<noteq> [] \<and> length xs \<le> 2 ^ k \<and> unat h \<le> H \<and> (unat h = H \<longrightarrow> H + length xs \<le> R + 2 ^ k))"
| "pc_sees k s R H L (FastCas a xs h) =
     (xs \<noteq> [] \<and> length xs \<le> 2 ^ k \<and> unat h \<le> H \<and> (unat h = H \<longrightarrow> H + length xs \<le> R + 2 ^ k))"
| "pc_sees k s R H L pc = True"

definition ring_inv :: "nat \<Rightarrow> 'a mring \<Rightarrow> (nat \<Rightarrow> 'a ppc) \<Rightarrow> nat \<Rightarrow> nat \<Rightarrow> 'a list \<Rightarrow> bool" where
  "ring_inv k s pcs R C L \<longleftrightarrow>
     ring_wf k s \<and> unat (mq_head s) = length L \<and> length L < 2 ^ 63
     \<and> R \<le> C \<and> C \<le> length L \<and> length L \<le> R + 2 ^ k
     \<and> (\<forall>p. R \<le> p \<and> p < C \<longrightarrow> seq_at s p = p + 1)
     \<and> (\<forall>p. C \<le> p \<and> p < length L \<longrightarrow>
          (seq_at s p = p + 1 \<and> data_at s p = L ! p) \<or> (seq_at s p = p \<and> (\<exists>i. p \<in> owns (pcs i))))
     \<and> (\<forall>p. length L \<le> p \<and> p < R + 2 ^ k \<longrightarrow> seq_at s p = p)
     \<and> (\<forall>i. pc_sees k s R (length L) L (pcs i) \<and> owns (pcs i) \<subseteq> {C ..< length L})
     \<and> (\<forall>i j. i \<noteq> j \<longrightarrow> owns (pcs i) \<inter> owns (pcs j) = {})"

fun released :: "nat \<Rightarrow> 'a cpc \<Rightarrow> nat" where
  "released T (CRelease acc base i) = unat base + i"
| "released T c = T"

fun consumed :: "nat \<Rightarrow> 'a cpc \<Rightarrow> nat" where
  "consumed T (CScan lim acc t) = unat t"
| "consumed T (CTake lim acc t) = unat t"
| "consumed T (CZero lim acc t) = unat t + 1"
| "consumed T (CTail acc t) = unat t"
| "consumed T c = T"

fun con_sees :: "'a mring \<Rightarrow> nat \<Rightarrow> 'a list \<Rightarrow> 'a cpc \<Rightarrow> bool" where
  "con_sees s H L (CScan lim acc t) = (unat t = unat (mq_tail s) + length acc)"
| "con_sees s H L (CTake lim acc t) = (unat t = unat (mq_tail s) + length acc \<and> unat t < H \<and> seq_at s (unat t) = unat t + 1)"
| "con_sees s H L (CZero lim acc t) = (acc \<noteq> [] \<and> unat t + 1 = unat (mq_tail s) + length acc)"
| "con_sees s H L (CTail acc t) = (unat t = unat (mq_tail s) + length acc)"
| "con_sees s H L (CRelease acc base i) = (unat base + length acc = unat (mq_tail s) \<and> i \<le> length acc)"
| "con_sees s H L (CDone acc) = True"

definition msys_inv :: "nat \<Rightarrow> 'a msys \<Rightarrow> bool" where
  "msys_inv k m \<longleftrightarrow>
     (let T = unat (mq_tail (ms_ring m)); C = consumed T (ms_con m) in
      ring_inv k (ms_ring m) (ms_pc m) (released T (ms_con m)) C (ms_in m)
      \<and> con_sees (ms_ring m) (length (ms_in m)) (ms_in m) (ms_con m)
      \<and> ms_out m = take C (ms_in m))"

subsection \<open>Slots and positions\<close>

lemma ring_wfD:
  assumes "ring_wf k s"
  shows "slot_of s h = unat h mod 2 ^ k" "length (mq_seq s) = 2 ^ k" "length (mq_data s) = 2 ^ k" "k \<le> 62"
    "1 \<le> k" "unat (mq_mask s) + 1 = 2 ^ k" "unat (MCap s) = 2 ^ k"
proof -
  show "slot_of s h = unat h mod 2 ^ k" using assms by (simp add: ring_wf_def slot_of_def unat_and_mask)
  show l: "length (mq_seq s) = 2 ^ k" "length (mq_data s) = 2 ^ k" "k \<le> 62" "1 \<le> k"
    using assms by (auto simp: ring_wf_def)
  have lt: "(2::nat) ^ k < 2 ^ 64" using l(3) by (intro power_strict_increasing) auto
  have "(of_nat (2 ^ k - 1) :: u64) = 2 ^ k - 1" by (simp add: of_nat_diff)
  then have "mq_mask s = of_nat (2 ^ k - 1)" using assms by (simp add: ring_wf_def)
  moreover have "unat (of_nat (2 ^ k - 1) :: u64) = 2 ^ k - 1"
    by (subst unat_of_nat) (use lt in simp)
  ultimately show m: "unat (mq_mask s) + 1 = 2 ^ k" by simp
  have "(2::nat) ^ k \<le> 2 ^ 62" using l(3) by (intro power_increasing) auto
  then show "unat (MCap s) = 2 ^ k"
    using unat_plus_small[of "mq_mask s" 1] m by (simp add: MCap_def)
qed

lemma pow_62: "k \<le> 62 \<Longrightarrow> (2::nat) ^ k \<le> 2 ^ 62"
  by (intro power_increasing) auto

lemma pow_1: "1 \<le> k \<Longrightarrow> (2::nat) \<le> 2 ^ k"
  using power_increasing[of 1 k "2::nat"] by simp

lemma sequenceAt_eq: "ring_wf k s \<Longrightarrow> unat (sequenceAt s h) = seq_at s (unat h)"
  by (simp add: sequenceAt_def seq_at_def ring_wfD)

lemma dataAt_eq: "ring_wf k s \<Longrightarrow> dataAt s h = data_at s (unat h)"
  by (simp add: dataAt_def data_at_def ring_wfD)

lemma same_slot:
  fixes p q R :: nat
  assumes "R \<le> p" "p < R + n" "R \<le> q" "q < R + n"
  shows "p mod n = q mod n \<longleftrightarrow> p = q"
  using mod_window_inj[of "p - R" n "q - R" R] assms by fastforce

lemma seq_at_store:
  assumes "ring_wf k s" "R \<le> p" "p < R + 2 ^ k" "R \<le> unat h" "unat h < R + 2 ^ k"
  shows "seq_at (store_sequence h v s) p = (if p = unat h then unat v else seq_at s p)"
  using assms same_slot[of R p "2 ^ k" "unat h"]
  by (auto simp: seq_at_def store_sequence_def ring_wfD nth_list_update)

lemma data_at_store:
  assumes "ring_wf k s" "R \<le> p" "p < R + 2 ^ k" "R \<le> unat h" "unat h < R + 2 ^ k"
  shows "data_at (store_data h v s) p = (if p = unat h then v else data_at s p)"
  using assms same_slot[of R p "2 ^ k" "unat h"]
  by (auto simp: data_at_def store_data_def ring_wfD nth_list_update)

lemma store_facts [simp]:
  "ring_wf k (store_sequence h v s) = ring_wf k s" "ring_wf k (store_data h x s) = ring_wf k s"
  "seq_at (store_data h x s) p = seq_at s p" "data_at (store_sequence h v s) p = data_at s p"
  "mq_head (store_sequence h v s) = mq_head s" "mq_head (store_data h x s) = mq_head s"
  "mq_tail (store_sequence h v s) = mq_tail s" "mq_tail (store_data h x s) = mq_tail s"
  "mq_closed (store_sequence h v s) = mq_closed s" "mq_closed (store_data h x s) = mq_closed s"
  by (auto simp: ring_wf_def store_sequence_def store_data_def seq_at_def data_at_def)

subsection \<open>What each access keeps\<close>

lemma ring_invD:
  assumes "ring_inv k s pcs R C L"
  shows "ring_wf k s" "unat (mq_head s) = length L" "length L < 2 ^ 63" "R \<le> C" "C \<le> length L" "length L \<le> R + 2 ^ k"
    "R \<le> p \<Longrightarrow> p < C \<Longrightarrow> seq_at s p = p + 1"
    "C \<le> p \<Longrightarrow> p < length L \<Longrightarrow>
      (seq_at s p = p + 1 \<and> data_at s p = L ! p) \<or> (seq_at s p = p \<and> (\<exists>i. p \<in> owns (pcs i)))"
    "length L \<le> p \<Longrightarrow> p < R + 2 ^ k \<Longrightarrow> seq_at s p = p"
    "pc_sees k s R (length L) L (pcs i)" "owns (pcs i) \<subseteq> {C ..< length L}"
    "i \<noteq> j \<Longrightarrow> owns (pcs i) \<inter> owns (pcs j) = {}"
  using assms unfolding ring_inv_def by blast+

lemma ring_invI:
  assumes "ring_wf k s" "unat (mq_head s) = length L" "length L < 2 ^ 63" "R \<le> C" "C \<le> length L" "length L \<le> R + 2 ^ k"
    "\<And>p. R \<le> p \<Longrightarrow> p < C \<Longrightarrow> seq_at s p = p + 1"
    "\<And>p. C \<le> p \<Longrightarrow> p < length L \<Longrightarrow>
      (seq_at s p = p + 1 \<and> data_at s p = L ! p) \<or> (seq_at s p = p \<and> (\<exists>i. p \<in> owns (pcs i)))"
    "\<And>p. length L \<le> p \<Longrightarrow> p < R + 2 ^ k \<Longrightarrow> seq_at s p = p"
    "\<And>i. pc_sees k s R (length L) L (pcs i)" "\<And>i. owns (pcs i) \<subseteq> {C ..< length L}"
    "\<And>i j. i \<noteq> j \<Longrightarrow> owns (pcs i) \<inter> owns (pcs j) = {}"
  shows "ring_inv k s pcs R C L"
  using assms unfolding ring_inv_def by blast

lemma pc_sees_frame:
  assumes "pc_sees k s R (length L) L pc" "R \<le> R'"
    "\<And>q. q \<in> owns pc \<Longrightarrow> seq_at s' q = seq_at s q \<and> data_at s' q = data_at s q"
  shows "pc_sees k s' R' (length (L @ xs)) (L @ xs) pc"
  using assms by (cases pc) (auto simp: nth_append)

lemma owner_unpublished: "pc_sees k s R H L pc \<Longrightarrow> q \<in> owns pc \<Longrightarrow> seq_at s q = q"
proof (cases pc)
  case (Put ys h once xs n)
  moreover assume "pc_sees k s R H L pc" "q \<in> owns pc"
  ultimately obtain j where "q = unat h + j" "j < length ys" "pc_sees k s R H L (Put ys h once xs n)"
    using le_Suc_ex[of "unat h" q] by auto
  then show ?thesis by simp
next
  case (Publish ys h once xs n)
  moreover assume "pc_sees k s R H L pc" "q \<in> owns pc"
  ultimately obtain j where "q = unat h + j" "j < length ys" "pc_sees k s R H L (Publish ys h once xs n)"
    using le_Suc_ex[of "unat h" q] by auto
  then show ?thesis by simp
qed auto

text \<open>A read, or a step of a producer that owns the same positions after it.\<close>

lemma ring_inv_move:
  assumes inv: "ring_inv k s pcs R C L" and o: "owns pc = owns (pcs p)" and sees: "pc_sees k s R (length L) L pc"
  shows "ring_inv k s (pcs(p := pc)) R C L"
proof -
  have eq: "owns ((pcs(p := pc)) i) = owns (pcs i)" for i using o by simp
  have "pc_sees k s R (length L) L ((pcs(p := pc)) i)" for i using sees ring_invD(10)[OF inv, of i] by simp
  then show ?thesis using inv unfolding ring_inv_def eq by blast
qed

lemma ring_inv_close: "ring_inv k s pcs R C L \<Longrightarrow> ring_inv k (MClose s) pcs R C L"
proof -
  assume inv: "ring_inv k s pcs R C L"
  have eq: "seq_at (MClose s) = seq_at s" "data_at (MClose s) = data_at s" "mq_head (MClose s) = mq_head s"
    "ring_wf k (MClose s) = ring_wf k s"
    by (auto simp: MClose_def seq_at_def data_at_def ring_wf_def)
  have "pc_sees k (MClose s) R (length L) L pc = pc_sees k s R (length L) L pc" for pc
    by (cases pc) (auto simp: eq)
  then show ?thesis using inv by (simp add: ring_inv_def eq)
qed

text \<open>A successful compare-and-swap claims free positions, all at once.\<close>

lemma ring_inv_claim:
  assumes inv: "ring_inv k s pcs R C L" and h: "mq_head s = h" and xs: "xs \<noteq> []" "length L + length xs \<le> R + 2 ^ k"
    and no: "owns (pcs p) = {}" and fit: "length (L @ xs) < 2 ^ 63"
  shows "ring_inv k (s\<lparr>mq_head := h + of_nat (length xs)\<rparr>) (pcs(p := Put xs h once r n)) R C (L @ xs)"
proof -
  let ?s = "s\<lparr>mq_head := h + of_nat (length xs)\<rparr>" and ?pcs = "pcs(p := Put xs h once r n)"
  note d = ring_invD[OF inv]
  have eq: "seq_at ?s = seq_at s" "data_at ?s = data_at s" "ring_wf k ?s = ring_wf k s"
    by (auto simp: seq_at_def data_at_def ring_wf_def fun_eq_iff)
  have uh: "unat h = length L" using d(2) h by simp
  have Cl: "C \<le> length L" by (fact d(5))
  show ?thesis
  proof (rule ring_invI)
    show "unat (mq_head ?s) = length (L @ xs)"
      using unat_plus_small[of h "length xs"] uh fit by simp
    fix q assume q: "C \<le> q" "q < length (L @ xs)"
    show "(seq_at ?s q = q + 1 \<and> data_at ?s q = (L @ xs) ! q) \<or> (seq_at ?s q = q \<and> (\<exists>i. q \<in> owns (?pcs i)))"
    proof (cases "q < length L")
      case True
      have "\<exists>i. q \<in> owns (?pcs i)" if "q \<in> owns (pcs i)" for i
        by (intro exI[of _ i]) (use that no in \<open>cases "i = p"; auto\<close>)
      then have "seq_at s q = q \<and> (\<exists>i. q \<in> owns (pcs i)) \<Longrightarrow> seq_at s q = q \<and> (\<exists>i. q \<in> owns (?pcs i))" by blast
      then show ?thesis using d(8)[OF q(1) True] True unfolding eq nth_append by (simp only: if_True) blast
    next
      case False
      then have "q \<in> owns (?pcs p)" using q uh by simp
      moreover have "seq_at s q = q" using False q xs d(9) by simp
      ultimately show ?thesis by (auto simp: eq)
    qed
  next
    fix i show "pc_sees k ?s R (length (L @ xs)) (L @ xs) (?pcs i)"
    proof (cases "i = p")
      case True
      have "seq_at s (length L + j) = length L + j" if "j < length xs" for j
        using that xs by (intro d(9)) auto
      then show ?thesis using True uh xs by (simp add: eq)
    next
      case False
      then show ?thesis using pc_sees_frame[OF d(10)[of i], of R ?s xs] by (simp add: eq)
    qed
    show "owns (?pcs i) \<subseteq> {C ..< length (L @ xs)}"
      using d(11)[of i] uh Cl by (cases "i = p") auto
    fix j assume "i \<noteq> j"
    then show "owns (?pcs i) \<inter> owns (?pcs j) = {}"
      using d(12)[of i j] d(11)[of i] d(11)[of j] uh by (cases "i = p"; cases "j = p") (auto simp del: owns.simps(2))
  qed (use d(1,4,5,7,9) fit xs in \<open>auto simp: eq\<close>)
qed

lemma owned_window: "ring_inv k s pcs R C L \<Longrightarrow> q \<in> owns (pcs i) \<Longrightarrow> R \<le> q \<and> q < R + 2 ^ k \<and> C \<le> q \<and> q < length L"
  using ring_invD(4,6)[of k s pcs R C L] ring_invD(11)[of k s pcs R C L i] by fastforce

text \<open>Filling a claimed slot, and publishing it.\<close>

lemma ring_inv_write:
  assumes inv: "ring_inv k s pcs R C L" and pc: "pcs p = Put ys h once xs n"
  shows "ring_inv k (store_data h (hd ys) s) (pcs(p := Publish ys h once xs n)) R C L"
proof -
  let ?s = "store_data h (hd ys) s" and ?pcs = "pcs(p := Publish ys h once xs n)"
  note d = ring_invD[OF inv]
  have ys: "ys \<noteq> []" using d(10)[of p] pc by simp
  then have own: "unat h \<in> owns (pcs p)" by (simp add: pc)
  note w = owned_window[OF inv own]
  have da: "R \<le> q \<Longrightarrow> q < R + 2 ^ k \<Longrightarrow> data_at ?s q = (if q = unat h then hd ys else data_at s q)" for q
    using w d(1) by (intro data_at_store) auto
  have o: "owns (?pcs i) = owns (pcs i)" for i by (simp add: pc)
  have sh: "seq_at s (unat h) = unat h" using owner_unpublished[OF d(10) own] .
  show ?thesis
  proof (rule ring_invI)
    fix q assume q: "C \<le> q" "q < length L"
    then have "data_at ?s q = (if q = unat h then hd ys else data_at s q)" using d(4,6) by (intro da) auto
    then show "(seq_at ?s q = q + 1 \<and> data_at ?s q = L ! q) \<or> (seq_at ?s q = q \<and> (\<exists>i. q \<in> owns (?pcs i)))"
      using d(8)[OF q] sh own unfolding o by auto
  next
    fix i show "pc_sees k ?s R (length L) L (?pcs i)"
    proof (cases "i = p")
      case True
      then show ?thesis using d(10)[of p] da[of "unat h"] w by (simp add: pc)
    next
      case False
      have "seq_at ?s q = seq_at s q \<and> data_at ?s q = data_at s q" if q: "q \<in> owns (pcs i)" for q
      proof -
        have "q \<noteq> unat h" using d(12)[OF False] q own by auto
        then show ?thesis using owned_window[OF inv q] da[of q] by simp
      qed
      then show ?thesis using False pc_sees_frame[OF d(10)[of i], of R ?s "[]"] by simp
    qed
    show "owns (?pcs i) \<subseteq> {C..<length L}" unfolding o by (rule d(11))
    fix j assume "i \<noteq> j" then show "owns (?pcs i) \<inter> owns (?pcs j) = {}" unfolding o by (rule d(12))
  qed (use d(1-7,9) in auto)
qed

lemma ring_inv_publish:
  assumes inv: "ring_inv k s pcs R C L" and pc: "pcs p = Publish ys h once xs n"
    and pc': "pc' = (if tl ys = [] then Slow once xs (n + 1) else Put (tl ys) (h + 1) once xs (n + 1))"
  shows "ring_inv k (store_sequence h (h + 1) s) (pcs(p := pc')) R C L"
proof -
  let ?s = "store_sequence h (h + 1) s" and ?pcs = "pcs(p := pc')"
  note d = ring_invD[OF inv]
  obtain y zs where ys: "ys = y # zs" using d(10)[of p] pc by (cases ys) auto
  have sees: "pc_sees k s R (length L) L (Publish ys h once xs n)" using d(10)[of p] pc by simp
  have own: "unat h \<in> owns (pcs p)" by (simp add: pc ys)
  note w = owned_window[OF inv own]
  have u1: "unat (h + 1) = unat h + 1" using unat_plus_small[of h 1] w d(3) by simp
  have sa: "R \<le> q \<Longrightarrow> q < R + 2 ^ k \<Longrightarrow> seq_at ?s q = (if q = unat h then unat h + 1 else seq_at s q)" for q
    using seq_at_store[OF d(1), of R q h "h + 1"] w u1 by simp
  have o': "owns pc' = owns (pcs p) - {unat h}"
    by (cases zs) (auto simp: pc' pc ys u1)
  have o: "owns (?pcs i) = (if i = p then owns (pcs p) - {unat h} else owns (pcs i))" for i
    by (simp add: o')
  have keep: "\<exists>i. q \<in> owns (?pcs i)" if "q \<in> owns (pcs i)" "q \<noteq> unat h" for q i
    unfolding o by (intro exI[of _ i]) (use that in auto)
  show ?thesis
  proof (rule ring_invI)
    fix q assume q: "R \<le> q" "q < C"
    then show "seq_at ?s q = q + 1" using d(7)[OF q] sa[of q] w d(5,6) by auto
  next
    fix q assume q: "C \<le> q" "q < length L"
    have s: "seq_at ?s q = (if q = unat h then unat h + 1 else seq_at s q)" using q d(4,6) by (intro sa) auto
    show "(seq_at ?s q = q + 1 \<and> data_at ?s q = L ! q) \<or> (seq_at ?s q = q \<and> (\<exists>i. q \<in> owns (?pcs i)))"
    proof (cases "q = unat h")
      case True
      have "\<forall>j<length ys. L ! (unat h + j) = ys ! j" using sees by simp
      then have "L ! (unat h + 0) = ys ! 0" using ys by blast
      then show ?thesis using True s sees by (simp add: ys)
    next
      case False
      then show ?thesis using d(8)[OF q] s keep by (simp only: if_False store_facts) blast
    qed
  next
    fix q assume q: "length L \<le> q" "q < R + 2 ^ k"
    then show "seq_at ?s q = q" using d(9)[OF q] sa[of q] w d(4,5) by auto
  next
    fix i show "pc_sees k ?s R (length L) L (?pcs i)"
    proof (cases "i = p")
      case True
      have "seq_at ?s (unat h + 1 + j) = unat h + 1 + j \<and> L ! (unat h + 1 + j) = zs ! j" if j: "j < length zs" for j
      proof -
        have "\<forall>j<length ys. seq_at s (unat h + j) = unat h + j \<and> L ! (unat h + j) = ys ! j" using sees by simp
        moreover have "Suc j < length ys" using j ys by simp
        ultimately have "seq_at s (unat h + Suc j) = unat h + Suc j \<and> L ! (unat h + Suc j) = ys ! Suc j" by blast
        moreover have "unat h + Suc j \<in> owns (pcs p)" using j by (simp add: pc ys)
        then have "R \<le> unat h + Suc j" "unat h + Suc j < R + 2 ^ k" using owned_window[OF inv] by blast+
        ultimately show ?thesis using sa[of "unat h + Suc j"] ys by simp
      qed
      then show ?thesis using True sees by (cases zs) (auto simp: pc' ys u1)
    next
      case False
      have "seq_at ?s q = seq_at s q \<and> data_at ?s q = data_at s q" if q: "q \<in> owns (pcs i)" for q
      proof -
        have "q \<noteq> unat h" using d(12)[OF False] q own by auto
        then show ?thesis using owned_window[OF inv q] sa[of q] by simp
      qed
      then show ?thesis using False pc_sees_frame[OF d(10)[of i], of R ?s "[]"] by simp
    qed
    show "owns (?pcs i) \<subseteq> {C..<length L}" unfolding o using d(11)[of i] d(11)[of p] by auto
    fix j assume "i \<noteq> j" then show "owns (?pcs i) \<inter> owns (?pcs j) = {}" unfolding o using d(12)[of i j] by auto
  qed (use d(1-6) in auto)
qed

text \<open>The consumer reads the next position, clears its slot, and later releases it.\<close>

lemma ring_inv_take:
  assumes inv: "ring_inv k s pcs R C L" and c: "C < length L" "seq_at s C = C + 1"
  shows "ring_inv k s pcs R (C + 1) L" "data_at s C = L ! C"
proof -
  note d = ring_invD[OF inv]
  have no: "C \<notin> owns (pcs i)" for i using owner_unpublished[OF d(10)[of i], of C] c(2) by auto
  show "data_at s C = L ! C" using d(8)[of C] c by auto
  show "ring_inv k s pcs R (C + 1) L"
  proof (rule ring_invI)
    fix q assume "R \<le> q" "q < C + 1" then show "seq_at s q = q + 1" using d(7)[of q] c(2) by (cases "q = C") auto
  next
    fix i show "owns (pcs i) \<subseteq> {C + 1..<length L}" using d(11)[of i] no[of i] by (auto simp: Suc_le_eq nat_less_le)
  qed (use d c in auto)
qed

lemma ring_inv_clear:
  assumes inv: "ring_inv k s pcs R C L" and t: "R \<le> unat t" "unat t < C"
  shows "ring_inv k (store_data t x s) pcs R C L"
proof -
  let ?s = "store_data t x s"
  note d = ring_invD[OF inv]
  have da: "data_at ?s q = data_at s q" if "C \<le> q" "q < length L" for q
    using data_at_store[OF d(1), of R q t x] t d(4-6) that by simp
  show ?thesis
  proof (rule ring_invI)
    fix q assume q: "C \<le> q" "q < length L"
    then show "(seq_at ?s q = q + 1 \<and> data_at ?s q = L ! q) \<or> (seq_at ?s q = q \<and> (\<exists>i. q \<in> owns (pcs i)))"
      using d(8)[OF q] da by simp
  next
    fix i
    have "seq_at ?s q = seq_at s q \<and> data_at ?s q = data_at s q" if "q \<in> owns (pcs i)" for q
      using owned_window[OF inv that] da by simp
    then show "pc_sees k ?s R (length L) L (pcs i)"
      using pc_sees_frame[OF d(10)[of i], of R ?s "[]"] by simp
  qed (use d in auto)
qed

lemma ring_inv_tail: "ring_inv k s pcs R C L \<Longrightarrow> ring_inv k (s\<lparr>mq_tail := t\<rparr>) pcs R C L"
proof -
  assume inv: "ring_inv k s pcs R C L"
  have eq: "seq_at (s\<lparr>mq_tail := t\<rparr>) = seq_at s" "data_at (s\<lparr>mq_tail := t\<rparr>) = data_at s"
    "ring_wf k (s\<lparr>mq_tail := t\<rparr>) = ring_wf k s"
    by (auto simp: seq_at_def data_at_def ring_wf_def fun_eq_iff)
  have "pc_sees k (s\<lparr>mq_tail := t\<rparr>) R (length L) L pc = pc_sees k s R (length L) L pc" for pc
    by (cases pc) (auto simp: eq)
  then show ?thesis using inv by (simp add: ring_inv_def eq)
qed

lemma ring_inv_release:
  assumes inv: "ring_inv k s pcs R C L" and r: "unat b = R" "R < C" and v: "v = b + mq_mask s + 1"
  shows "ring_inv k (store_sequence b v s) pcs (R + 1) C L"
proof -
  let ?s = "store_sequence b v s"
  note d = ring_invD[OF inv] and wd = ring_wfD[OF ring_invD(1)[OF inv]]
  have "v = b + of_nat (unat (mq_mask s) + 1)" by (simp add: v add.assoc)
  then have uv: "unat v = R + 2 ^ k"
    using unat_plus_small[of b "unat (mq_mask s) + 1"] wd(6) r(1) pow_62[OF wd(4)] d(3,5) r(2) by simp
  have sa: "seq_at ?s q = seq_at s q" if "R + 1 \<le> q" "q < R + 2 ^ k" for q
    using seq_at_store[OF d(1), of R q b v] that r by simp
  have "seq_at ?s (R + 2 ^ k) = seq_at ?s R" by (simp add: seq_at_def wd(2) store_sequence_def)
  then have top: "seq_at ?s (R + 2 ^ k) = R + 2 ^ k"
    using seq_at_store[OF d(1), of R R b v] r uv by simp
  show ?thesis
  proof (rule ring_invI)
    fix q assume q: "R + 1 \<le> q" "q < C"
    then show "seq_at ?s q = q + 1" using d(7)[of q] sa[of q] d(5,6) by simp
  next
    fix q assume q: "C \<le> q" "q < length L"
    then have "seq_at ?s q = seq_at s q" using r(2) d(6) by (intro sa) auto
    then show "(seq_at ?s q = q + 1 \<and> data_at ?s q = L ! q) \<or> (seq_at ?s q = q \<and> (\<exists>i. q \<in> owns (pcs i)))"
      using d(8)[OF q] by simp
  next
    fix q assume q: "length L \<le> q" "q < R + 1 + 2 ^ k"
    then show "seq_at ?s q = q" using top sa[of q] d(9)[of q] d(5) r(2) by (cases "q = R + 2 ^ k") auto
  next
    fix i
    have "seq_at ?s q = seq_at s q \<and> data_at ?s q = data_at s q" if "q \<in> owns (pcs i)" for q
      using owned_window[OF inv that] sa[of q] r(2) by simp
    then show "pc_sees k ?s (R + 1) (length L) L (pcs i)"
      using pc_sees_frame[OF d(10)[of i], of "R + 1" ?s "[]"] by simp
  qed (use d r in auto)
qed

subsection \<open>Every step keeps the invariant\<close>

text \<open>What a producer learns from a sequence number while the head has not moved.\<close>

lemma free_slot:
  assumes inv: "ring_inv k s pcs R C L" and h: "unat h = length L" and sq: "sequenceAt s h = h"
  shows "length L + 1 \<le> R + 2 ^ k"
proof (rule ccontr)
  note d = ring_invD[OF inv] and wd = ring_wfD[OF ring_invD(1)[OF inv]]
  assume "\<not> length L + 1 \<le> R + 2 ^ k"
  then have H: "length L = R + 2 ^ k" using d(6) by simp
  have "seq_at s (length L) = seq_at s R" by (simp add: H seq_at_def wd(2))
  moreover have "seq_at s R = R \<or> seq_at s R = R + 1" using d(7)[of R] d(8)[of R] d(4,5) H by (cases "R < C") auto
  moreover have "seq_at s (length L) = length L" using sequenceAt_eq[OF d(1), of h] sq h by simp
  ultimately show False using H pow_1[OF wd(5)] by simp
qed

lemma free_run:
  assumes inv: "ring_inv k s pcs R C L" and h: "unat h = length L"
    and n: "0 < n" "n \<le> 2 ^ k" and sq: "\<not> sint (sequenceAt s (h + of_nat n - 1) - (h + of_nat n - 1)) < 0"
  shows "length L + n \<le> R + 2 ^ k"
proof (rule ccontr)
  note d = ring_invD[OF inv] and wd = ring_wfD[OF ring_invD(1)[OF inv]]
  let ?l = "h + of_nat n - 1"
  have "?l = h + of_nat (n - 1)" using n(1) by (simp add: of_nat_diff)
  moreover have "unat (h + of_nat (n - 1)) = length L + (n - 1)"
    using unat_plus_small[of h "n - 1"] h d(3) n(2) pow_62[OF wd(4)] by simp
  ultimately have ul: "unat ?l = length L + (n - 1)" by (simp only:)
  assume big: "\<not> length L + n \<le> R + 2 ^ k"
  define q where "q = length L + n - 1 - 2 ^ k"
  have l: "length L + (n - 1) = q + 2 ^ k" using big n(1) by (auto simp: q_def)
  have q: "R \<le> q" "q < length L" using big n by (auto simp: q_def)
  have "seq_at s (q + 2 ^ k) = seq_at s q" by (simp add: seq_at_def wd(2))
  moreover have "seq_at s q = q \<or> seq_at s q = q + 1" using d(7)[of q] d(8)[of q] q by (cases "q < C") auto
  ultimately have su: "unat (sequenceAt s ?l) \<le> q + 1" "q \<le> unat (sequenceAt s ?l)"
    using sequenceAt_eq[OF d(1), of ?l] ul l by auto
  have u: "uint w = int (unat w)" for w :: u64 by simp
  have b: "(2::nat) ^ k \<le> 4611686018427387904" "(2::int) ^ 63 = 9223372036854775808"
    using pow_62[OF wd(4)] by simp_all
  have "sint (sequenceAt s ?l - ?l) = uint (sequenceAt s ?l) - uint ?l"
    by (rule sint_diff; unfold u) (use su ul l b in linarith)+
  also have "\<dots> < 0" unfolding u using su ul l pow_1[OF wd(5)] by linarith
  finally show False using sq by simp
qed

lemma pstep_inv:
  assumes inv: "ring_inv k s pcs R C L"
    and fit: "length (L @ claims s (pcs p)) < 2 ^ 63"
  shows "ring_inv k (fst (pstep s (pcs p))) (pcs(p := snd (pstep s (pcs p)))) R C (L @ claims s (pcs p))"
proof -
  note d = ring_invD[OF inv] and wd = ring_wfD[OF ring_invD(1)[OF inv]]
  note sees = d(10)[of p]
  have move: "ring_inv k s (pcs(p := pc)) R C (L @ [])"
    if "owns pc = owns (pcs p)" "pc_sees k s R (length L) L pc" for pc
    using ring_inv_move[OF inv that] by simp
  show ?thesis
  proof (cases "pcs p")
    case (Returned n)
    then show ?thesis using move[of "Returned n"] by (simp add: pstep_def)
  next
    case (Fast a xs)
    then show ?thesis using sees wd(7)
      by (auto simp: pstep_def split: if_splits intro!: move[simplified])
  next
    case (FastOpen a xs)
    then show ?thesis using sees d(2) by (auto simp: pstep_def intro!: move[simplified])
  next
    case (FastHead a xs h)
    then show ?thesis using sees free_run[OF inv, of h "length xs"]
      by (auto simp: pstep_def Let_def split: if_splits intro!: move[simplified])
  next
    case (FastLast a xs h)
    then show ?thesis using sees by (auto simp: pstep_def split: if_splits intro!: move[simplified])
  next
    case (FastCas a xs h)
    show ?thesis
    proof (cases "mq_head s = h")
      case True
      then show ?thesis using FastCas sees d(2) fit ring_inv_claim[OF inv True, of xs p False "[]" 0]
        by (auto simp: pstep_def)
    next
      case False
      then show ?thesis using FastCas sees by (auto simp: pstep_def intro!: move[simplified])
    qed
  next
    case (Slow once xs n)
    then show ?thesis by (cases xs) (auto simp: pstep_def split: if_splits intro!: move[simplified])
  next
    case (SlowOpen once xs n)
    then show ?thesis using sees d(2) by (auto simp: pstep_def intro!: move[simplified])
  next
    case (SlowHead once xs n h)
    have "length L + 1 \<le> R + 2 ^ k" if "sint (sequenceAt s h - h) = 0" "unat h = length L"
      using that by (intro free_slot[OF inv]) (auto simp: sint_zero_iff)
    then show ?thesis using SlowHead sees
      by (auto simp: pstep_def Let_def split: if_splits intro!: move[simplified])
  next
    case (SlowCas once xs n h)
    show ?thesis
    proof (cases "mq_head s = h")
      case True
      then show ?thesis using SlowCas sees d(2) fit ring_inv_claim[OF inv True, of "[hd xs]" p once "tl xs" n]
        by (auto simp: pstep_def)
    next
      case False
      then show ?thesis using SlowCas sees by (auto simp: pstep_def split: if_splits intro!: move[simplified])
    qed
  next
    case (SlowFull xs n h)
    then show ?thesis using sees by (auto simp: pstep_def split: if_splits intro!: move[simplified])
  next
    case (Put ys h once xs n)
    then show ?thesis using ring_inv_write[OF inv Put] by (auto simp: pstep_def)
  next
    case (Publish ys h once xs n)
    then show ?thesis using ring_inv_publish[OF inv Publish refl] by (auto simp: pstep_def)
  qed
qed

text \<open>A published position stays published under the steps of the producers.\<close>

lemma pstep_published:
  assumes inv: "ring_inv k s pcs R C L" and q: "R \<le> q" "q < R + 2 ^ k" "seq_at s q = q + 1"
  shows "seq_at (fst (pstep s (pcs p))) q = q + 1"
proof (cases "pcs p")
  case (Publish ys h once xs n)
  note d = ring_invD[OF inv]
  have own: "unat h \<in> owns (pcs p)" using d(10)[of p] Publish by simp
  have "q \<noteq> unat h" using owner_unpublished[OF d(10) own] q(3) by auto
  then show ?thesis using seq_at_store[OF d(1), of R q h "h + 1"] owned_window[OF inv own] q Publish
    by (simp add: pstep_def)
next
  case (Slow once xs n)
  then show ?thesis using q(3) by (cases xs) (auto simp: pstep_def)
qed (use q(3) in \<open>auto simp: pstep_def Let_def seq_at_def store_data_def\<close>)

lemma msys_inv_start:
  assumes "1 \<le> k" "k \<le> 62" "nextPowerOfTwo capacity = 2 ^ k"
  shows "msys_inv k (ring_start capacity)"
proof -
  let ?s = "NewMPSCQueue capacity"
  have n: "nat (2 ^ k) = 2 ^ k" by (simp add: nat_power_eq)
  have lt: "(2::nat) ^ k < 2 ^ 64" using assms(2) by (intro power_strict_increasing) auto
  have wf: "ring_wf k ?s" using assms by (simp add: ring_wf_def NewMPSCQueue_def n)
  have sq: "seq_at ?s p = p" if "p < 2 ^ k" for p
    using that assms(3) lt by (simp add: seq_at_def NewMPSCQueue_def n unat_of_nat)
  have "ring_inv k ?s (\<lambda>_. Returned 0) 0 0 []"
    by (rule ring_invI) (use wf sq in \<open>auto simp: NewMPSCQueue_def Let_def\<close>)
  then show ?thesis by (simp add: msys_inv_def ring_start_def NewMPSCQueue_def Let_def)
qed

lemma pstep_tail [simp]: "mq_tail (fst (pstep s pc)) = mq_tail s"
proof (cases pc)
  case (Slow once xs n)
  then show ?thesis by (cases xs) (auto simp: pstep_def)
qed (auto simp: pstep_def Let_def)

lemma readable_is_claimed:
  assumes inv: "ring_inv k s pcs R C L" and q: "seq_at s C = C + 1"
  shows "C < length L"
proof (rule ccontr)
  note d = ring_invD[OF inv] and wd = ring_wfD[OF ring_invD(1)[OF inv]]
  assume "\<not> C < length L"
  then have C: "C = length L" using d(5) by simp
  show False
  proof (cases "length L < R + 2 ^ k")
    case True then show False using d(9)[of "length L"] q C by simp
  next
    case False
    then have H: "length L = R + 2 ^ k" using d(6) by simp
    have "seq_at s (length L) = seq_at s R" by (simp add: H seq_at_def wd(2))
    moreover have "seq_at s R = R + 1" using d(7)[of R] C H by simp
    ultimately show False using q C H pow_1[OF wd(5)] by simp
  qed
qed

lemma unat_1: "unat (t :: u64) < 2 ^ 63 \<Longrightarrow> unat (t + 1) = unat t + 1"
  using unat_plus_small[of t 1] by simp

lemma cstep_inv:
  assumes T: "T = unat (mq_tail s)" and inv: "ring_inv k s pcs (released T c) (consumed T c) L"
    and con: "con_sees s (length L) L c" and out: "ms = take (consumed T c) L"
    and st: "cstep s c = (s', c')"
  shows "ring_inv k s' pcs (released (unat (mq_tail s')) c') (consumed (unat (mq_tail s')) c') L
    \<and> con_sees s' (length L) L c' \<and> ms @ takes s c = take (consumed (unat (mq_tail s')) c') L"
proof (cases c)
  case (CDone acc)
  then have "s' = s" "c' = c" using st by auto
  then show ?thesis using assms CDone by simp
next
  case (CScan lim acc t)
  note d = ring_invD[OF inv] and sq = sequenceAt_eq[OF ring_invD(1)[OF inv], of t]
  have u: "unat (t + 1) = unat t + 1" using unat_1[of t] d(3,5) CScan by simp
  have r: "unat t < length L \<and> seq_at s (unat t) = unat t + 1" if "sequenceAt s t = t + 1"
    using readable_is_claimed[OF inv] that sq u CScan by simp
  show ?thesis
  proof (cases "length acc < lim \<and> \<not> sint (sequenceAt s t - t) \<noteq> 1")
    case True
    then have "s' = s" "c' = CTake lim acc t" using st CScan by auto
    then show ?thesis using True r assms CScan by (simp add: sint_one_iff)
  next
    case False
    then have "s' = s" "c' = (if acc = [] then CDone [] else CTail acc t)" using st CScan by (auto split: if_splits)
    then show ?thesis using assms(1-4) CScan by (cases "acc = []") auto
  qed
next
  case (CTake lim acc t)
  note d = ring_invD[OF inv]
  have t: "unat t < length L" "seq_at s (unat t) = unat t + 1" using con CTake by auto
  have "dataAt s t = L ! unat t"
    using ring_inv_take(2)[OF inv] dataAt_eq[OF d(1), of t] t CTake by simp
  moreover have "ring_inv k s pcs T (unat t + 1) L" using ring_inv_take(1)[OF inv] t CTake by simp
  moreover have "s' = s" "c' = CZero lim (acc @ [dataAt s t]) t" using st CTake by auto
  ultimately show ?thesis using assms CTake t by (simp add: take_Suc_conv_app_nth)
next
  case (CZero lim acc t)
  note d = ring_invD[OF inv]
  have u: "unat (t + 1) = unat t + 1" using unat_1[of t] d(3,5) CZero by simp
  have "T \<le> unat t" using con T CZero by (cases acc) auto
  then have "ring_inv k (store_data t 0 s) pcs T (unat t + 1) L"
    using inv CZero by (intro ring_inv_clear) auto
  moreover have "s' = store_data t 0 s" "c' = CScan lim acc (t + 1)" using st CZero by auto
  ultimately show ?thesis using assms CZero u by simp
next
  case (CTail acc t)
  note d = ring_invD[OF inv]
  have "t = mq_tail s + of_nat (length acc)"
    using con CTail unat_plus_small[of "mq_tail s" "length acc"] d(3,5) by (intro unat_eqI) simp
  then have "t - of_nat (length acc) = mq_tail s" by simp
  moreover have "s' = s\<lparr>mq_tail := t\<rparr>" "c' = CRelease acc (t - of_nat (length acc)) 0" using st CTail by auto
  ultimately show ?thesis using assms CTail ring_inv_tail[OF inv, of t] by simp
next
  case (CRelease acc base i)
  note d = ring_invD[OF inv]
  have con': "unat base + length acc = T" "i \<le> length acc" using con T CRelease by auto
  show ?thesis
  proof (cases "i < length acc")
    case True
    have ub: "unat (base + of_nat i) = unat base + i"
      using unat_plus_small[of base i] con' True d(3,5) CRelease by simp
    have "ring_inv k (store_sequence (base + of_nat i) (base + of_nat i + mq_mask s + 1) s) pcs (unat base + i + 1) T L"
      by (rule ring_inv_release) (use inv ub con' True CRelease in auto)
    moreover have "s' = store_sequence (base + of_nat i) (base + of_nat i + mq_mask s + 1) s"
      "c' = CRelease acc base (i + 1)" using st CRelease True by auto
    ultimately show ?thesis using assms CRelease True con' by (simp add: add.assoc)
  next
    case False
    then have "s' = s" "c' = CDone acc" using st CRelease by auto
    then show ?thesis using assms CRelease con' False by simp
  qed
qed

lemma con_sees_frame:
  assumes "con_sees s H L c" "mq_tail s' = mq_tail s" "H \<le> H'"
    "\<And>lim acc t. c = CTake lim acc t \<Longrightarrow> seq_at s' (unat t) = unat t + 1"
  shows "con_sees s' H' L' c"
  using assms by (cases c) auto

lemma ring_step_inv:
  assumes st: "ring_step m m'" and inv: "msys_inv k m" and fit: "counters_fit m'"
  shows "msys_inv k m'"
  using st
proof (cases rule: ring_step_cases)
  case (call p n pc xs)
  let ?T = "unat (mq_tail (ms_ring m))"
  have i: "ring_inv k (ms_ring m) (ms_pc m) (released ?T (ms_con m)) (consumed ?T (ms_con m)) (ms_in m)"
    using inv by (simp add: msys_inv_def Let_def)
  have "ring_inv k (ms_ring m) ((ms_pc m)(p := pc)) (released ?T (ms_con m)) (consumed ?T (ms_con m)) (ms_in m)"
    by (rule ring_inv_move[OF i]) (use call in \<open>auto simp: MEnqueueBatch_def split: if_splits\<close>)
  then show ?thesis using inv call by (simp add: msys_inv_def Let_def)
next
  case (producer p s pc)
  let ?T = "unat (mq_tail (ms_ring m))" and ?cl = "claims (ms_ring m) (ms_pc m p)"
  have i: "ring_inv k (ms_ring m) (ms_pc m) (released ?T (ms_con m)) (consumed ?T (ms_con m)) (ms_in m)"
    and con: "con_sees (ms_ring m) (length (ms_in m)) (ms_in m) (ms_con m)"
    and out: "ms_out m = take (consumed ?T (ms_con m)) (ms_in m)"
    using inv by (auto simp: msys_inv_def Let_def)
  have s: "s = fst (pstep (ms_ring m) (ms_pc m p))" "pc = snd (pstep (ms_ring m) (ms_pc m p))"
    using producer(2) by simp_all
  have tl: "mq_tail s = mq_tail (ms_ring m)" by (simp add: s)
  have "length (ms_in m @ ?cl) < 2 ^ 63" using fit producer(1) by (simp add: counters_fit_def)
  from pstep_inv[OF i this] have "ring_inv k s ((ms_pc m)(p := pc)) (released ?T (ms_con m)) (consumed ?T (ms_con m)) (ms_in m @ ?cl)"
    by (simp add: s)
  moreover have "con_sees s (length (ms_in m @ ?cl)) (ms_in m @ ?cl) (ms_con m)"
  proof (rule con_sees_frame[OF con tl])
    fix lim acc t assume c: "ms_con m = CTake lim acc t"
    then have "seq_at (ms_ring m) (unat t) = unat t + 1" "unat t < length (ms_in m)" using con by auto
    then show "seq_at s (unat t) = unat t + 1"
      using pstep_published[OF i _ _ _, of "unat t" p] ring_invD(4,6)[OF i] c by (simp add: s(1))
  qed simp
  moreover have "ms_out m = take (consumed ?T (ms_con m)) (ms_in m @ ?cl)" using out ring_invD(5)[OF i] by simp
  ultimately show ?thesis using producer(1) by (simp add: msys_inv_def Let_def tl)
next
  case close
  have "con_sees (MClose s) H L c = con_sees s H L c" for s :: "'a mring" and H L c
    by (cases c) (auto simp: MClose_def seq_at_def)
  moreover have "mq_tail (MClose s) = mq_tail s" for s :: "'a mring" by (simp add: MClose_def)
  ultimately show ?thesis using close inv by (simp add: msys_inv_def Let_def ring_inv_close)
next
  case (ask acc limit)
  then show ?thesis using inv by (simp add: msys_inv_def Let_def MDequeueBatch_def)
next
  case (consumer s c)
  then show ?thesis using inv cstep_inv[OF refl _ _ _ consumer(2), of k "ms_pc m" "ms_in m" "ms_out m"]
    by (simp add: msys_inv_def Let_def)
qed

lemma ring_reach_inv:
  assumes "ring_reach capacity m" "1 \<le> k" "k \<le> 62" "nextPowerOfTwo capacity = 2 ^ k"
  shows "msys_inv k m"
  using assms(1)
proof (induction rule: ring_reach.induct)
  case start
  show ?case using assms(2-4) by (rule msys_inv_start)
next
  case (step m m')
  then show ?case using ring_step_inv by blast
qed

subsection \<open>What a call reports\<close>

fun call_ok :: "'a list \<Rightarrow> 'a list \<Rightarrow> 'a ppc \<Rightarrow> bool" where
  "call_ok req acc (Returned n) = (acc = take n req \<and> n \<le> length req)"
| "call_ok req acc (Slow once xs n) = (req = acc @ xs \<and> n = length acc)"
| "call_ok req acc (SlowOpen once xs n) = (req = acc @ xs \<and> n = length acc \<and> xs \<noteq> [])"
| "call_ok req acc (SlowHead once xs n h) = (req = acc @ xs \<and> n = length acc \<and> xs \<noteq> [])"
| "call_ok req acc (SlowCas once xs n h) = (req = acc @ xs \<and> n = length acc \<and> xs \<noteq> [])"
| "call_ok req acc (SlowFull xs n h) = (req = acc @ xs \<and> n = length acc \<and> xs \<noteq> [])"
| "call_ok req acc (Put ys h once xs n) = (req = acc @ xs \<and> n + length ys = length acc \<and> ys \<noteq> [])"
| "call_ok req acc (Publish ys h once xs n) = (req = acc @ xs \<and> n + length ys = length acc \<and> ys \<noteq> [])"
| "call_ok req acc (Fast k xs) = (acc = [] \<and> req = xs \<and> xs \<noteq> [])"
| "call_ok req acc (FastOpen k xs) = (acc = [] \<and> req = xs \<and> xs \<noteq> [])"
| "call_ok req acc (FastHead k xs h) = (acc = [] \<and> req = xs \<and> xs \<noteq> [])"
| "call_ok req acc (FastLast k xs h) = (acc = [] \<and> req = xs \<and> xs \<noteq> [])"
| "call_ok req acc (FastCas k xs h) = (acc = [] \<and> req = xs \<and> xs \<noteq> [])"

lemma pstep_call_ok:
  "call_ok req acc pc \<Longrightarrow> call_ok req (acc @ claims s pc) (snd (pstep s pc))"
proof (cases pc)
  case (Slow once xs n)
  moreover assume "call_ok req acc pc"
  ultimately show ?thesis by (cases xs) (auto simp: pstep_def)
next
  case (Publish ys h once xs n)
  moreover assume "call_ok req acc pc"
  ultimately show ?thesis by (cases ys; cases "tl ys") (auto simp: pstep_def)
qed (auto simp: pstep_def Let_def)

lemma ring_reach_call_ok: "ring_reach capacity m \<Longrightarrow> call_ok (ms_req m p) (ms_acc m p) (ms_pc m p)"
proof (induction rule: ring_reach.induct)
  case start
  show ?case by (simp add: ring_start_def)
next
  case (step m m')
  from step.hyps(2) show ?case
  proof (cases rule: ring_step_cases)
    case (call q n pc xs)
    then show ?thesis using step.IH by (auto simp: MEnqueueBatch_def)
  next
    case (producer q s pc)
    have "pc = snd (pstep (ms_ring m) (ms_pc m q))" using producer(2) by simp
    then show ?thesis using step.IH pstep_call_ok[of "ms_req m q" "ms_acc m q" "ms_pc m q" "ms_ring m"] producer(1)
      by (cases "p = q") auto
  qed (use step.IH in auto)
qed

subsection \<open>A removal that is not disturbed\<close>

text \<open>The consumer's call run to its end: four accesses for each item and four more are enough.\<close>

fun crun :: "nat \<Rightarrow> 'a::zero mring \<Rightarrow> 'a cpc \<Rightarrow> 'a mring \<times> 'a cpc" where
  "crun 0 s c = (s, c)"
| "crun (Suc fuel) s c = (let (s, c) = cstep s c in crun fuel s c)"

definition batch_fuel :: "nat \<Rightarrow> nat" where "batch_fuel limit = 4 * limit + 4"

lemma crun_done [simp]: "crun n s (CDone acc) = (s, CDone acc)"
  by (induction n) auto

lemma crun_add: "crun (a + b) s c = (case crun a s c of (s, c) \<Rightarrow> crun b s c)"
  by (induction a arbitrary: s c) (auto split: prod.splits)

lemma crun_single: "crun 6 s (CTake 1 [] t) = (snd (consumeOne s t), CDone [fst (consumeOne s t)])"
  by (simp add: eval_nat_numeral consumeOne_def Let_def)

lemma crun_release: "i \<le> length acc \<Longrightarrow> length acc - i < n \<Longrightarrow> snd (crun n s (CRelease acc b i)) = CDone acc"
proof (induction n arbitrary: s i)
  case (Suc n)
  then show ?case by (cases "i < length acc") (auto simp del: add_Suc_right)
qed simp

text \<open>Positions that are published are read in order, up to the limit.\<close>

lemma crun_scan:
  assumes "ring_inv k s pcs R C L" "unat t = C" "\<And>q. C \<le> q \<Longrightarrow> q < length L \<Longrightarrow> seq_at s q = q + 1"
    "length acc \<le> lim" "4 * (lim - length acc) + length acc + 4 \<le> n"
  shows "snd (crun n s (CScan lim acc t)) = CDone (acc @ take (lim - length acc) (drop C L))"
  using assms
proof (induction "lim - length acc" arbitrary: n s acc t C)
  case 0
  obtain m where n: "n = Suc m" using 0 by (cases n) auto
  have "snd (crun m s (CTail acc t)) = CDone acc" if "acc \<noteq> []"
    using crun_release[of 0 acc "m - 1"] 0 n by (cases m) auto
  then show ?case using 0 n by auto
next
  case (Suc j)
  note d = ring_invD[OF Suc.prems(1)]
  have sq: "unat (sequenceAt s t) = seq_at s C" using sequenceAt_eq[OF d(1), of t] Suc.prems(2) by simp
  have u: "unat (t + 1) = C + 1" using unat_1[of t] d(3,5) Suc.prems(2) by simp
  obtain m where n: "n = Suc (Suc (Suc m))" using Suc.prems(5)
    by (intro that[of "n - 3"]) simp
  have lt: "length acc < lim" using Suc.hyps(2) by simp
  show ?case
  proof (cases "C < length L")
    case True
    then have r: "seq_at s C = C + 1" using Suc.prems(3)[of C] by simp
    then have "sequenceAt s t = t + 1" using sq u by (intro unat_eqI) simp
    moreover note tk = ring_inv_take[OF Suc.prems(1) True r]
    moreover have "dataAt s t = L ! C" using tk(2) dataAt_eq[OF d(1), of t] Suc.prems(2) by simp
    ultimately have "crun n s (CScan lim acc t) = crun m (store_data t 0 s) (CScan lim (acc @ [L ! C]) (t + 1))"
      using lt by (simp add: n sint_one_iff)
    also have "snd \<dots> = CDone ((acc @ [L ! C]) @ take (lim - length (acc @ [L ! C])) (drop (C + 1) L))"
    proof (rule Suc.hyps(1))
      show "ring_inv k (store_data t 0 s) pcs R (C + 1) L"
        by (rule ring_inv_clear[OF tk(1)]) (use d(4) Suc.prems(2) in auto)
    qed (use Suc.hyps(2) Suc.prems u n in auto)
    also have "(acc @ [L ! C]) @ take (lim - length (acc @ [L ! C])) (drop (C + 1) L) = acc @ take (lim - length acc) (drop C L)"
      using Suc.hyps(2) True by (simp add: Cons_nth_drop_Suc[symmetric] take_Cons')
    finally show ?thesis .
  next
    case False
    then have C: "C = length L" using d(5) by simp
    have "sequenceAt s t \<noteq> t + 1"
      using readable_is_claimed[OF Suc.prems(1)] False sq u by auto
    moreover have "snd (crun (Suc (Suc m)) s (CTail acc t)) = CDone acc"
      using crun_release[of 0 acc "Suc m"] Suc.prems(5) n by simp
    moreover have "crun n s (CScan lim acc t) = crun (Suc (Suc m)) s (if acc = [] then CDone [] else CTail acc t)"
      if "sequenceAt s t \<noteq> t + 1"
      unfolding n crun.simps(2)[of "Suc (Suc m)"] using that by (simp add: sint_one_iff del: crun.simps(2))
    ultimately show ?thesis using C by (cases "acc = []") (simp_all del: crun.simps(2))
  qed
qed

section \<open>Properties\<close>

lemma ring_reach_pow2:
  assumes "ring_reach capacity m" "capacity \<noteq> 1" "capacity \<le> 2 ^ 62"
  obtains k where "msys_inv k m" "unat (MCap (ms_ring m)) = 2 ^ k" "1 \<le> k" "k \<le> 62" "nextPowerOfTwo capacity = 2 ^ k"
proof -
  obtain k where k: "nextPowerOfTwo capacity = 2 ^ k" "k \<le> 62" "capacity \<le> 2 ^ k"
    using nextPowerOfTwo_pow2[OF assms(3)] by blast
  have "k \<noteq> 0"
  proof
    assume "k = 0"
    then have "capacity \<le> 0" "nextPowerOfTwo capacity = 1" using k assms(2) by auto
    then show False by (simp add: nextPowerOfTwo_def)
  qed
  then have "msys_inv k m" using ring_reach_inv[OF assms(1)] k by simp
  moreover from this have "ring_wf k (ms_ring m)" by (simp add: msys_inv_def Let_def ring_inv_def)
  ultimately show ?thesis using that k \<open>k \<noteq> 0\<close> ring_wfD(7) by fastforce
qed

lemma msys_facts:
  assumes "msys_inv k m"
  shows "\<exists>pending. ms_in m = ms_out m @ pending \<and> length pending \<le> 2 ^ k"
    "MLen (ms_ring m) (ms_ring m) \<le> MCap (ms_ring m)"
    "(\<forall>p. \<exists>n. ms_pc m p = Returned n) \<Longrightarrow> ms_con m = CDone acc \<Longrightarrow>
      snd (crun (batch_fuel limit) (ms_ring m) (MDequeueBatch limit (ms_ring m)))
        = CDone (take limit (drop (length (ms_out m)) (ms_in m)))"
proof -
  let ?s = "ms_ring m" and ?c = "ms_con m" and ?L = "ms_in m"
  let ?T = "unat (mq_tail ?s)"
  have inv: "ring_inv k ?s (ms_pc m) (released ?T ?c) (consumed ?T ?c) ?L"
    and con: "con_sees ?s (length ?L) ?L ?c" and out: "ms_out m = take (consumed ?T ?c) ?L"
    using assms by (auto simp: msys_inv_def Let_def)
  note d = ring_invD[OF inv] and wd = ring_wfD[OF ring_invD(1)[OF inv]]
  show "\<exists>pending. ?L = ms_out m @ pending \<and> length pending \<le> 2 ^ k"
    by (rule exI[of _ "drop (consumed ?T ?c) ?L"]) (use out d(4,6) in auto)
  have T: "released ?T ?c \<le> ?T" "?T \<le> consumed ?T ?c" using con by (cases ?c; auto)+
  then have "?T \<le> unat (mq_head ?s)" "unat (mq_head ?s) \<le> ?T + 2 ^ k" using d(2,5,6) by auto
  then show "MLen ?s ?s \<le> MCap ?s"
    by (auto simp: MLen_def Let_def word_le_nat_alt unat_sub wd(7))
  show "snd (crun (batch_fuel limit) ?s (MDequeueBatch limit ?s)) = CDone (take limit (drop (length (ms_out m)) ?L))"
    if q: "\<forall>p. \<exists>n. ms_pc m p = Returned n" and c: "ms_con m = CDone acc"
  proof (cases "limit = 0")
    case True then show ?thesis by (simp add: MDequeueBatch_def batch_fuel_def)
  next
    case False
    have no: "owns (ms_pc m p) = {}" for p using spec[OF q, of p] by auto
    have "seq_at ?s r = r + 1" if "?T \<le> r" "r < length ?L" for r
      using d(8)[of r] that no c by auto
    with inv have "snd (crun (batch_fuel limit) ?s (CScan limit [] (mq_tail ?s))) = CDone ([] @ take (limit - length ([]::'a list)) (drop ?T ?L))"
      by (intro crun_scan) (auto simp: c batch_fuel_def)
    moreover have "length (ms_out m) = ?T" using out d(5) c by simp
    ultimately show ?thesis using False by (simp add: MDequeueBatch_def)
  qed
qed


text \<open>A producer that runs alone, and what it claims.\<close>

fun prun :: "nat \<Rightarrow> 'a mring \<Rightarrow> 'a ppc \<Rightarrow> 'a mring \<times> 'a ppc" where
  "prun 0 s pc = (s, pc)"
| "prun (Suc fuel) s pc = (let (s, pc) = pstep s pc in prun fuel s pc)"

fun run_claims :: "nat \<Rightarrow> 'a mring \<Rightarrow> 'a ppc \<Rightarrow> 'a list" where
  "run_claims 0 s pc = []"
| "run_claims (Suc fuel) s pc = claims s pc @ (let (s, pc) = pstep s pc in run_claims fuel s pc)"

definition alone :: "nat \<Rightarrow> 'a mring \<Rightarrow> 'a ppc \<Rightarrow> 'a list \<Rightarrow> 'a msys \<Rightarrow> 'a msys" where
  "alone p s pc cl m = m\<lparr>ms_ring := s, ms_pc := (ms_pc m)(p := pc), ms_in := ms_in m @ cl, ms_acc := (ms_acc m)(p := ms_acc m p @ cl)\<rparr>"

lemma reach_alone:
  assumes "ring_reach c m" "prun n (ms_ring m) (ms_pc m p) = (s, pc)" "run_claims n (ms_ring m) (ms_pc m p) = cl"
    "length (ms_in m @ cl) < 2 ^ 63"
  shows "ring_reach c (alone p s pc cl m)"
  using assms
proof (induction n arbitrary: m cl)
  case 0
  then have "alone p s pc cl m = m" by (cases m) (auto simp: alone_def)
  then show ?case using 0 by simp
next
  case (Suc n)
  obtain s1 pc1 where st: "pstep (ms_ring m) (ms_pc m p) = (s1, pc1)" by force
  let ?now = "claims (ms_ring m) (ms_pc m p)"
  let ?mid = "alone p s1 pc1 ?now m"
  have "ring_step m ?mid" unfolding alone_def using st by (rule ring_step.producer)
  moreover have "counters_fit ?mid" using Suc.prems(3,4) by (auto simp: counters_fit_def alone_def)
  ultimately have r: "ring_reach c ?mid" by (rule ring_reach.step[OF Suc.prems(1)])
  have "ring_reach c (alone p s pc (run_claims n s1 pc1) ?mid)"
    by (rule Suc.IH[OF r]) (use Suc.prems st in \<open>auto simp: alone_def\<close>)
  moreover have "alone p s pc (run_claims n s1 pc1) ?mid = alone p s pc cl m"
    using Suc.prems(3) st by (auto simp: alone_def)
  ultimately show ?case by simp
qed

definition called :: "'a::zero list \<Rightarrow> 'a msys" where
  "called xs = (let m = ring_start 2 in
     m\<lparr>ms_pc := (ms_pc m)(0 := MEnqueueBatch xs), ms_req := (ms_req m)(0 := xs), ms_acc := (ms_acc m)(0 := [])\<rparr>)"

lemma reach_called: "ring_reach 2 (called xs)"
  unfolding called_def Let_def
  by (rule ring_reach.step[OF ring_reach.start], rule ring_step.call[where n = 0])
    (auto simp: ring_start_def counters_fit_def)


text \<open>
  With a capacity of one, which \<open>NewMPSCQueue(1)\<close> gives, the sequence number of a filled
  slot is that of a free one: a second item overwrites the first, both calls report success,
  and the consumer finds nothing.
\<close>

lemma mpsc_ring_capacity_one:
  "let (s1, r1) = prun 8 (NewMPSCQueue 1) (MEnqueue (5 :: int));
       (s2, r2) = prun 8 s1 (MEnqueue 6)
   in r1 = Returned 1 \<and> r2 = Returned 1 \<and> MLen s2 s2 = 2 \<and> MCap s2 = 1 \<and> snd (crun 8 s2 (MDequeue s2)) = CDone []"
  by code_simp

text \<open>
  \<open>Len\<close> reads the tail before the head, so what it reports counts items that were removed in
  between: with two slots it can report three items when there is one.
\<close>

lemma mpsc_ring_len_over_capacity:
  "let (s1, r1) = prun 20 (NewMPSCQueue 2) (MEnqueueBatch [5, 6 :: int]);
       (s2, c) = crun 20 s1 (MDequeueBatch 2 s1);
       (s3, r2) = prun 20 s2 (MEnqueue 7)
   in MLen s1 s3 = 3 \<and> MLen s3 s3 = 1 \<and> MCap s3 = 2"
  by code_simp

text \<open>
  The padded layout: with \<open>cap * slotsPerLogical\<close> physical slots, every logical slot is a
  whole physical slot inside the array, and neighbours are a cache line apart.
\<close>

lemma padded_layout_fits:
  assumes "0 < slotSize" "i < cap" and l: "padded_layout slotSize = (stride, n)"
  shows "slot_offset stride i + slotSize \<le> cap * n * slotSize" "slotSize dvd slot_offset stride i" "cacheLineSize \<le> stride"
proof -
  let ?st = "(slotSize + cacheLineSize - 1) div cacheLineSize * cacheLineSize"
  have st: "stride = n * slotSize \<and> cacheLineSize \<le> stride"
  proof (cases "slotSize \<ge> cacheLineSize")
    case True then show ?thesis using l by (simp add: padded_layout_def)
  next
    case False
    have "(slotSize + cacheLineSize - 1) div cacheLineSize = 1"
      by (rule div_nat_eqI) (use False assms(1) in \<open>auto simp: cacheLineSize_def\<close>)
    then have c: "?st = cacheLineSize" by simp
    have d: "cacheLineSize div slotSize * slotSize + cacheLineSize mod slotSize = cacheLineSize" by simp
    have e: "padded_layout slotSize = (if cacheLineSize mod slotSize \<noteq> 0
        then ((cacheLineSize div slotSize + 1) * slotSize, cacheLineSize div slotSize + 1)
        else (cacheLineSize, cacheLineSize div slotSize))"
      using False by (simp only: padded_layout_def c Let_def if_False)
    have "cacheLineSize mod slotSize < slotSize" using assms(1) by simp
    then have up: "cacheLineSize \<le> (cacheLineSize div slotSize + 1) * slotSize"
      using d unfolding distrib_right by linarith
    show ?thesis
    proof (cases "cacheLineSize mod slotSize = 0")
      case True then show ?thesis using l d unfolding e by auto
    next
      case False then show ?thesis using l up unfolding e by auto
    qed
  qed
  then have "stride = n * slotSize" by blast
  moreover have "slotSize \<le> stride"
  proof (cases "slotSize \<ge> cacheLineSize")
    case True then show ?thesis using l by (simp add: padded_layout_def)
  next
    case False then show ?thesis using st by linarith
  qed
  moreover have "stride * (i + 1) \<le> stride * cap" using assms(2) by (intro mult_left_mono) auto
  moreover have "stride * cap = cap * n * slotSize" using st by simp
  moreover have "stride * (i + 1) = slot_offset stride i + stride" by (simp add: slot_offset_def)
  ultimately show "slot_offset stride i + slotSize \<le> cap * n * slotSize" by linarith
  show "slotSize dvd slot_offset stride i" using st by (simp add: slot_offset_def)
  show "cacheLineSize \<le> stride" using st by blast
qed

end
