(* ===== verification/Ring_Buffer.thy ===== *)
theory Ring_Buffer
  imports Base_Prelude
begin

text \<open>
  \<^verbatim>\<open>znet/ringbuffer.go\<close>: the growable byte ring every connection reads into, with its
  64-bit counters, masks and slice bounds as the code has them. The configuration it is
  sized from (\<^verbatim>\<open>znet/common.go\<close>) is here too. Byte slices are values: aliasing between a
  returned slice and the ring is not modelled. A result \<^term>\<open>None\<close> is a call that does
  not return normally: an index or slice panic, or a doubling loop that does not end.
\<close>

section \<open>Configuration\<close>

record socket_config =
  MaxHeaderLength :: int
  MaxDataLength :: int
  MaxMsgId :: int
  ProtocolVersion :: byte

definition DefaultMaxHeaderLength :: int where "DefaultMaxHeaderLength = 10 * 1024"
definition DefaultMaxDataLength :: int where "DefaultMaxDataLength = 1024 * 1024"
definition DefaultMaxMsgId :: int where "DefaultMaxMsgId = 2 ^ 31 - 1"

definition DefaultSocketConfig :: socket_config where
  "DefaultSocketConfig = \<lparr>MaxHeaderLength = DefaultMaxHeaderLength, MaxDataLength = DefaultMaxDataLength,
     MaxMsgId = DefaultMaxMsgId, ProtocolVersion = 0\<rparr>"

definition headerSizeV0 :: int where "headerSizeV0 = 12"
definition headerSizeV1 :: int where "headerSizeV1 = 13"

definition RingBufferMaxSizeForSocket :: "socket_config \<Rightarrow> int" where
  "RingBufferMaxSizeForSocket cfg =
     (let maxData = (if MaxDataLength cfg \<le> 0 then DefaultMaxDataLength else MaxDataLength cfg);
          hdr = (if ProtocolVersion cfg \<ge> 1 then headerSizeV1 else headerSizeV0)
      in i64 (maxData + hdr))"

section \<open>State and construction\<close>

datatype io_error = ErrBufferFull | ErrBufferEmpty | ErrInsufficientData | EOF | ErrShortWrite
  | OtherError nat

record ring_buffer =
  rb_buf :: "byte list"
  rb_size :: u64
  rb_mask :: u64
  rb_read :: u64
  rb_write :: u64
  rb_totalRead :: u64
  rb_totalWrite :: u64
  rb_maxSize :: u64

definition nextPowerOfTwo64 :: "u64 \<Rightarrow> u64" where
  "nextPowerOfTwo64 n = (if n \<le> 1 then 1 else smear64 (n - 1) + 1)"

definition normalizeRingBufferMaxSize :: "int \<Rightarrow> u64" where
  "normalizeRingBufferMaxSize mx = (if mx \<le> 0 then 0 else nextPowerOfTwo64 (word_of_int mx))"

definition NewRingBuffer :: "int \<Rightarrow> int \<Rightarrow> ring_buffer" where
  "NewRingBuffer cfgSize cfgMaxSize =
     (let sz = nextPowerOfTwo64 (word_of_int cfgSize);
          maxSize = (if cfgMaxSize > 0 then nextPowerOfTwo64 (word_of_int cfgMaxSize) else 0)
      in \<lparr>rb_buf = replicate (unat sz) 0, rb_size = sz, rb_mask = sz - 1, rb_read = 0, rb_write = 0,
          rb_totalRead = 0, rb_totalWrite = 0, rb_maxSize = maxSize\<rparr>)"

definition RLen :: "ring_buffer \<Rightarrow> int" where "RLen rb = sint (rb_write rb - rb_read rb)"

definition RCap :: "ring_buffer \<Rightarrow> int" where "RCap rb = sint (rb_size rb)"

definition RFree :: "ring_buffer \<Rightarrow> int" where "RFree rb = i64 (sint (rb_size rb) - RLen rb)"

definition IsEmpty :: "ring_buffer \<Rightarrow> bool" where "IsEmpty rb \<longleftrightarrow> rb_read rb = rb_write rb"

definition IsFull :: "ring_buffer \<Rightarrow> bool" where "IsFull rb \<longleftrightarrow> RLen rb = sint (rb_size rb)"

definition RReset :: "ring_buffer \<Rightarrow> ring_buffer" where
  "RReset rb = rb\<lparr>rb_read := 0, rb_write := 0,
     rb_buf := (if length (rb_buf rb) > 0 then go_clear (rb_buf rb) 0 (length (rb_buf rb)) else rb_buf rb),
     rb_totalRead := 0, rb_totalWrite := 0\<rparr>"

definition SetMaxSize :: "int \<Rightarrow> ring_buffer \<Rightarrow> ring_buffer" where
  "SetMaxSize mx rb = rb\<lparr>rb_maxSize := normalizeRingBufferMaxSize mx\<rparr>"

definition MaxSizeCap :: "ring_buffer \<Rightarrow> int" where "MaxSizeCap rb = sint (rb_maxSize rb)"

subsection \<open>Pooling\<close>

text \<open>
  \<open>pooledMax\<close> is the global \<open>pooledRingMaxSize\<close> (0 for "not set"). The buffer that
  \<open>ringBufferPool.Get()\<close> hands out is an argument; \<open>PutRingBuffer\<close> returns what is put
  back into the pool, if anything.
\<close>

definition defaultRingBufferSize :: int where "defaultRingBufferSize = 4 * 1024"

definition SetRingBufferPoolMaxSize :: "int \<Rightarrow> u64" where
  "SetRingBufferPoolMaxSize mx = (if mx \<le> 0 then 0 else word_of_int mx)"

definition GetRingBufferPoolMaxSize :: "u64 \<Rightarrow> int" where
  "GetRingBufferPoolMaxSize pooledMax =
     (if pooledMax > 0 then sint pooledMax else RingBufferMaxSizeForSocket DefaultSocketConfig)"

definition effectivePooledRingMaxSize :: "u64 \<Rightarrow> u64" where
  "effectivePooledRingMaxSize pooledMax =
     (if pooledMax > 0 then normalizeRingBufferMaxSize (sint pooledMax)
      else normalizeRingBufferMaxSize (RingBufferMaxSizeForSocket DefaultSocketConfig))"

definition GetRingBuffer :: "u64 \<Rightarrow> ring_buffer \<Rightarrow> ring_buffer" where
  "GetRingBuffer pooledMax fromPool =
     (RReset fromPool)\<lparr>rb_maxSize := effectivePooledRingMaxSize pooledMax\<rparr>"

definition GetRingBufferForSocket :: "socket_config \<Rightarrow> u64 \<Rightarrow> ring_buffer \<Rightarrow> ring_buffer" where
  "GetRingBufferForSocket cfg pooledMax fromPool =
     SetMaxSize (RingBufferMaxSizeForSocket cfg) (GetRingBuffer pooledMax fromPool)"

definition PutRingBuffer :: "ring_buffer option \<Rightarrow> ring_buffer option" where
  "PutRingBuffer rbo = (case rbo of None \<Rightarrow> None
     | Some rb \<Rightarrow> if rb_size rb = word_of_int defaultRingBufferSize then Some (RReset rb) else None)"

section \<open>Looking without consuming\<close>

text \<open>A Go slice that may be \<open>nil\<close> is an option; \<open>go_index\<close> is an indexing that may panic.\<close>

definition go_index :: "byte list \<Rightarrow> u64 \<Rightarrow> byte option" where
  "go_index bs i = (if unat i < length bs then Some (bs ! unat i) else None)"

definition Peek :: "int \<Rightarrow> ring_buffer \<Rightarrow> (byte list option \<times> io_error option) option" where
  "Peek n rb =
     (if IsEmpty rb then Some (None, Some ErrBufferEmpty)
      else let n = (if n > RLen rb then RLen rb else n);
               readPos = rb_read rb AND rb_mask rb;
               endPos = readPos + word_of_int n
           in if endPos \<le> rb_size rb
              then do { s \<leftarrow> go_slice (rb_buf rb) (uint readPos) (uint endPos); Some (Some s, None) }
              else do { s \<leftarrow> go_slice (rb_buf rb) (uint readPos) (uint (rb_size rb)); Some (Some s, None) })"

definition PeekAll :: "ring_buffer \<Rightarrow> (byte list option \<times> byte list option) option" where
  "PeekAll rb =
     (if IsEmpty rb then Some (None, None)
      else let readPos = rb_read rb AND rb_mask rb;
               writePos = rb_write rb AND rb_mask rb
           in if writePos > readPos
              then do { s \<leftarrow> go_slice (rb_buf rb) (uint readPos) (uint writePos); Some (Some s, None) }
              else do {
                first \<leftarrow> go_slice (rb_buf rb) (uint readPos) (int (length (rb_buf rb)));
                second \<leftarrow> go_slice (rb_buf rb) 0 (uint writePos);
                Some (Some first, Some second) })"

definition PeekTwoSlices ::
  "int \<Rightarrow> int \<Rightarrow> ring_buffer \<Rightarrow> (byte list option \<times> byte list option \<times> io_error option) option" where
  "PeekTwoSlices offset len rb =
     (if RLen rb < i64 (offset + len) then Some (None, None, Some ErrInsufficientData)
      else let pos = (rb_read rb + word_of_int offset) AND rb_mask rb;
               endPos = pos + word_of_int len
           in if endPos \<le> rb_size rb
              then do { s \<leftarrow> go_slice (rb_buf rb) (uint pos) (uint endPos); Some (Some s, None, None) }
              else let firstLen = sint (rb_size rb - pos)
                   in do {
                     first \<leftarrow> go_slice (rb_buf rb) (uint pos) (uint (rb_size rb));
                     second \<leftarrow> go_slice (rb_buf rb) 0 (i64 (len - firstLen));
                     Some (Some first, Some second, None) })"

definition PeekBytes :: "int \<Rightarrow> int \<Rightarrow> ring_buffer \<Rightarrow> (byte list option \<times> io_error option) option" where
  "PeekBytes offset len rb =
     (if RLen rb < i64 (offset + len) then Some (None, Some ErrInsufficientData)
      else let pos = (rb_read rb + word_of_int offset) AND rb_mask rb;
               endPos = pos + word_of_int len
           in if endPos \<le> rb_size rb
              then do { s \<leftarrow> go_slice (rb_buf rb) (uint pos) (uint endPos); Some (Some s, None) }
              else let result = replicate (nat len) 0;
                       firstPart = sint (rb_size rb - pos)
                   in do {
                     head \<leftarrow> go_slice (rb_buf rb) (uint pos) (uint (rb_size rb));
                     dst1 \<leftarrow> go_slice result 0 firstPart;
                     tail \<leftarrow> go_slice (rb_buf rb) 0 (i64 (len - firstPart));
                     dst2 \<leftarrow> go_slice result firstPart len;
                     Some (Some (go_copy (go_copy result 0 (take (length dst1) head))
                                         (nat firstPart) (take (length dst2) tail)), None) })"

definition PeekByte :: "int \<Rightarrow> ring_buffer \<Rightarrow> (byte \<times> io_error option) option" where
  "PeekByte offset rb =
     (if RLen rb < i64 (offset + 1) then Some (0, Some ErrInsufficientData)
      else do {
        b \<leftarrow> go_index (rb_buf rb) ((rb_read rb + word_of_int offset) AND rb_mask rb);
        Some (b, None) })"

text \<open>The byte-wise loop that assembles a big-endian word across the wrap-around.\<close>

fun be_loop :: "ring_buffer \<Rightarrow> u64 \<Rightarrow> nat \<Rightarrow> nat \<Rightarrow> u32 \<Rightarrow> u32 option" where
  "be_loop rb pos i 0 v = Some v"
| "be_loop rb pos i (Suc n) v = do {
     b \<leftarrow> go_index (rb_buf rb) ((pos + of_nat i) AND rb_mask rb);
     be_loop rb pos (Suc i) n (push_bit 8 v OR ucast b) }"

definition be_or :: "byte \<Rightarrow> byte \<Rightarrow> byte \<Rightarrow> byte \<Rightarrow> u32" where
  "be_or b0 b1 b2 b3 =
     push_bit 24 (ucast b0) OR push_bit 16 (ucast b1) OR push_bit 8 (ucast b2) OR ucast b3"

definition be_direct :: "byte list \<Rightarrow> u64 \<Rightarrow> u32 option" where
  "be_direct bs pos = do {
     b0 \<leftarrow> go_index bs pos; b1 \<leftarrow> go_index bs (pos + 1);
     b2 \<leftarrow> go_index bs (pos + 2); b3 \<leftarrow> go_index bs (pos + 3);
     Some (be_or b0 b1 b2 b3) }"

definition PeekUint32BE :: "int \<Rightarrow> ring_buffer \<Rightarrow> (u32 \<times> io_error option) option" where
  "PeekUint32BE offset rb =
     (if RLen rb < i64 (offset + 4) then Some (0, Some ErrInsufficientData)
      else let pos = (rb_read rb + word_of_int offset) AND rb_mask rb
           in do {
             v \<leftarrow> (if pos + 4 \<le> rb_size rb then be_direct (rb_buf rb) pos else be_loop rb pos 0 4 0);
             Some (v, None) })"

definition PeekHeader12 :: "int \<Rightarrow> ring_buffer \<Rightarrow> (u32 \<times> u32 \<times> u32) option" where
  "PeekHeader12 offset rb =
     (let pos = (rb_read rb + word_of_int offset) AND rb_mask rb
      in if pos + 12 \<le> rb_size rb
         then do {
           bs \<leftarrow> go_slice (rb_buf rb) (uint pos) (int (length (rb_buf rb)));
           a \<leftarrow> be_direct bs 0; b \<leftarrow> be_direct bs 4; c \<leftarrow> be_direct bs 8;
           Some (a, b, c) }
         else do {
           a \<leftarrow> be_loop rb pos 0 4 0; b \<leftarrow> be_loop rb pos 4 4 0; c \<leftarrow> be_loop rb pos 8 4 0;
           Some (a, b, c) })"

definition PeekHeader12Checked :: "int \<Rightarrow> ring_buffer \<Rightarrow> (u32 \<times> u32 \<times> u32 \<times> io_error option) option" where
  "PeekHeader12Checked offset rb =
     (if RLen rb < i64 (offset + 12) then Some (0, 0, 0, Some ErrInsufficientData)
      else do { (a, b, c) \<leftarrow> PeekHeader12 offset rb; Some (a, b, c, None) })"

section \<open>Consuming\<close>

definition advance_read :: "u64 \<Rightarrow> ring_buffer \<Rightarrow> ring_buffer" where
  "advance_read n rb = rb\<lparr>rb_read := rb_read rb + n, rb_totalRead := rb_totalRead rb + n\<rparr>"

definition Discard :: "int \<Rightarrow> ring_buffer \<Rightarrow> io_error option \<times> ring_buffer" where
  "Discard n rb =
     (if n > RLen rb then (Some ErrInsufficientData, rb)
      else (None, advance_read (word_of_int n) rb))"

text \<open>
  \<open>copy_out\<close> is the copy of \<open>n\<close> bytes into \<open>p[:n]\<close> shared by \<open>Read\<close> and \<open>ReadFull\<close>: the
  bytes copied, in one piece or in two.
\<close>

definition copy_out :: "nat \<Rightarrow> ring_buffer \<Rightarrow> byte list option" where
  "copy_out n rb =
     (let readPos = rb_read rb AND rb_mask rb; endPos = readPos + of_nat n
      in if endPos \<le> rb_size rb then go_slice (rb_buf rb) (uint readPos) (uint endPos)
         else let firstPart = sint (rb_size rb - readPos)
              in do {
                a \<leftarrow> go_slice (rb_buf rb) (uint readPos) (uint (rb_size rb));
                b \<leftarrow> go_slice (rb_buf rb) 0 (int n - firstPart);
                Some (a @ b) })"

text \<open>\<open>Read(p)\<close> and \<open>ReadFull(p)\<close> with \<open>len(p) = lenp\<close>: the bytes stored at the front of \<open>p\<close>.\<close>

definition RRead :: "nat \<Rightarrow> ring_buffer \<Rightarrow> ((byte list \<times> io_error option) \<times> ring_buffer) option" where
  "RRead lenp rb =
     (if IsEmpty rb then Some (([], Some EOF), rb)
      else let n = (if int lenp > RLen rb then nat (RLen rb) else lenp)
           in do { bs \<leftarrow> copy_out n rb; Some ((bs, None), advance_read (of_nat n) rb) })"

definition ReadFull :: "nat \<Rightarrow> ring_buffer \<Rightarrow> ((byte list \<times> io_error option) \<times> ring_buffer) option" where
  "ReadFull lenp rb =
     (if RLen rb < int lenp then Some (([], Some ErrInsufficientData), rb)
      else do { bs \<leftarrow> copy_out lenp rb; Some ((bs, None), advance_read (of_nat lenp) rb) })"

definition RReadByte :: "ring_buffer \<Rightarrow> ((byte \<times> io_error option) \<times> ring_buffer) option" where
  "RReadByte rb =
     (if IsEmpty rb then Some ((0, Some ErrBufferEmpty), rb)
      else do {
        b \<leftarrow> go_index (rb_buf rb) (rb_read rb AND rb_mask rb);
        Some ((b, None), advance_read 1 rb) })"

definition ReadUint32BE :: "ring_buffer \<Rightarrow> ((u32 \<times> io_error option) \<times> ring_buffer) option" where
  "ReadUint32BE rb =
     (if RLen rb < 4 then Some ((0, Some ErrInsufficientData), rb)
      else let readPos = rb_read rb AND rb_mask rb
           in do {
             v \<leftarrow> (if readPos + 4 \<le> rb_size rb then be_direct (rb_buf rb) readPos
                  else be_loop rb readPos 0 4 0);
             Some ((v, None), advance_read 4 rb) })"

section \<open>Growing and writing\<close>

partial_function (option) grow_loop :: "u64 \<Rightarrow> u64 \<Rightarrow> u64 option" where
  "grow_loop needed newSize = (if newSize < needed then grow_loop needed (newSize * 2) else Some newSize)"

definition grow_to :: "u64 \<Rightarrow> ring_buffer \<Rightarrow> (bool \<times> ring_buffer) option" where
  "grow_to newSize rb =
     (if newSize \<le> rb_size rb then Some (False, rb)
      else let newBuf = replicate (unat newSize) 0; dataLen = RLen rb
           in do {
             copied \<leftarrow> (if dataLen > 0 then do {
                 (first, second) \<leftarrow> PeekAll rb;
                 let f = (case first of None \<Rightarrow> [] | Some x \<Rightarrow> x);
                 let s = (case second of None \<Rightarrow> [] | Some x \<Rightarrow> x);
                 if length s > 0 then
                   (if length f \<le> length newBuf then Some (go_copy (go_copy newBuf 0 f) (length f) s) else None)
                 else Some (go_copy newBuf 0 f) }
               else Some newBuf);
             Some (True, rb\<lparr>rb_buf := copied, rb_size := newSize, rb_mask := newSize - 1,
                            rb_read := 0, rb_write := word_of_int dataLen\<rparr>) })"

definition Grow :: "int \<Rightarrow> ring_buffer \<Rightarrow> (bool \<times> ring_buffer) option" where
  "Grow n rb =
     (if RFree rb \<ge> n then Some (True, rb)
      else do {
        newSize \<leftarrow> grow_loop (word_of_int (i64 (RLen rb + n))) (rb_size rb * 2);
        if rb_maxSize rb > 0 \<and> newSize > rb_maxSize rb then
          (if rb_maxSize rb > rb_size rb then grow_to (rb_maxSize rb) rb else Some (False, rb))
        else grow_to newSize rb })"

definition put_bytes :: "byte list \<Rightarrow> ring_buffer \<Rightarrow> ring_buffer option" where
  "put_bytes p rb =
     (let writePos = rb_write rb AND rb_mask rb; endPos = writePos + of_nat (length p)
      in do {
        buf' \<leftarrow> (if endPos \<le> rb_size rb then
                   (if unat writePos \<le> length (rb_buf rb) then Some (go_copy (rb_buf rb) (unat writePos) p) else None)
                 else let firstPart = sint (rb_size rb - writePos)
                      in do {
                        p1 \<leftarrow> go_slice p 0 firstPart;
                        p2 \<leftarrow> go_slice p firstPart (int (length p));
                        if unat writePos \<le> length (rb_buf rb)
                        then Some (go_copy (go_copy (rb_buf rb) (unat writePos) p1) 0 p2) else None });
        Some (rb\<lparr>rb_buf := buf', rb_write := rb_write rb + of_nat (length p),
                 rb_totalWrite := rb_totalWrite rb + of_nat (length p)\<rparr>) })"

definition RWrite :: "byte list \<Rightarrow> ring_buffer \<Rightarrow> ((nat \<times> io_error option) \<times> ring_buffer) option" where
  "RWrite p rb =
     (if length p = 0 then Some ((0, None), rb)
      else let want = length p in
        if RFree rb < int want then do {
          (ok, rb1) \<leftarrow> Grow (int want) rb;
          if \<not> ok \<and> RFree rb1 = 0 then Some ((0, Some ErrBufferFull), rb1)
          else do {
            p1 \<leftarrow> (if \<not> ok then go_slice p 0 (RFree rb1) else Some p);
            rb2 \<leftarrow> put_bytes p1 rb1;
            Some (if length p1 < want then ((length p1, Some ErrShortWrite), rb2)
                  else ((length p1, None), rb2)) } }
        else do { rb2 \<leftarrow> put_bytes p rb; Some ((length p, None), rb2) })"

text \<open>
  \<open>io.Reader\<close> is a parameter: \<open>rd r n\<close> is one \<open>Read\<close> into a slice of \<open>n\<close> bytes, giving
  the bytes it stored, its error and the reader's next state. The documented contract
  (at most \<open>n\<close> bytes) is the hypothesis \<open>reader_ok\<close>.
\<close>

type_synonym 'r reader = "'r \<Rightarrow> nat \<Rightarrow> (byte list \<times> io_error option) \<times> 'r"

definition reader_ok :: "'r reader \<Rightarrow> bool" where
  "reader_ok rd \<longleftrightarrow> (\<forall>r n. length (fst (fst (rd r n))) \<le> n)"

definition read_into :: "'r reader \<Rightarrow> int \<Rightarrow> 'r \<Rightarrow> ring_buffer \<Rightarrow> ((byte list \<times> byte list \<times> io_error option) \<times> 'r) option" where
  "read_into rd free r rb =
     (let writePos = rb_write rb AND rb_mask rb; endPos = writePos + word_of_int free
      in if endPos \<le> rb_size rb then do {
           dst \<leftarrow> go_slice (rb_buf rb) (uint writePos) (uint (writePos + word_of_int free));
           let ((bs, err), r1) = rd r (length dst);
           Some ((bs, go_copy (rb_buf rb) (unat writePos) bs, err), r1) }
         else let firstPart = sint (rb_size rb - writePos)
              in do {
                dst \<leftarrow> go_slice (rb_buf rb) (uint writePos) (uint (rb_size rb));
                let ((bs1, err1), r1) = rd r (length dst);
                let buf1 = go_copy (rb_buf rb) (unat writePos) bs1;
                if int (length bs1) = firstPart \<and> free > firstPart \<and> err1 = None then do {
                  dst2 \<leftarrow> go_slice buf1 0 (i64 (free - firstPart));
                  let ((bs2, err2), r2) = rd r1 (length dst2);
                  Some ((bs1 @ bs2, go_copy buf1 0 bs2, err2), r2) }
                else Some ((bs1, buf1, err1), r1) })"

definition WriteFromReader ::
  "'r reader \<Rightarrow> int \<Rightarrow> 'r \<Rightarrow> ring_buffer \<Rightarrow> ((nat \<times> io_error option) \<times> 'r \<times> ring_buffer) option" where
  "WriteFromReader rd maxRead r rb = do {
     (ok, rb1) \<leftarrow> (if IsFull rb then Grow 4096 rb else Some (True, rb));
     if \<not> ok then Some ((0, Some ErrBufferFull), r, rb1)
     else do {
       let free = (if maxRead > 0 \<and> maxRead < RFree rb1 then maxRead else RFree rb1);
       ((bs, buf', err), r') \<leftarrow> read_into rd free r rb1;
       let n = length bs;
       let rb2 = rb1\<lparr>rb_buf := buf'\<rparr>;
       let rb3 = (if n > 0 then rb2\<lparr>rb_write := rb_write rb2 + of_nat n,
                                    rb_totalWrite := rb_totalWrite rb2 + of_nat n\<rparr> else rb2);
       Some ((n, (if n > 0 \<and> err = Some EOF then None else err)), r', rb3) } }"

definition Stats :: "ring_buffer \<Rightarrow> int \<times> int" where
  "Stats rb = (sint (rb_totalRead rb), sint (rb_totalWrite rb))"

section \<open>Invariant and abstraction\<close>

text \<open>
  The representation invariant: a power-of-two backing array of the recorded size, its
  mask, at most \<open>size\<close> readable bytes between the (wrapping) counters, and a limit that
  is 0 or a power of two. The abstract contents are the bytes between the counters.
\<close>

definition rb_used :: "ring_buffer \<Rightarrow> nat" where
  "rb_used rb = unat (rb_write rb - rb_read rb)"

definition rb_inv :: "ring_buffer \<Rightarrow> bool" where
  "rb_inv rb \<longleftrightarrow> (\<exists>k\<le>62. rb_size rb = 2 ^ k) \<and> length (rb_buf rb) = unat (rb_size rb)
     \<and> rb_mask rb = rb_size rb - 1 \<and> rb_used rb \<le> length (rb_buf rb)
     \<and> (rb_maxSize rb = 0 \<or> (\<exists>k\<le>63. rb_maxSize rb = 2 ^ k))"

definition rb_contents :: "ring_buffer \<Rightarrow> byte list" where
  "rb_contents rb = ring_view (rb_buf rb) (unat (rb_read rb)) (rb_used rb)"

lemma length_rb_contents [simp]: "length (rb_contents rb) = rb_used rb"
  by (simp add: rb_contents_def)

lemma unat_2p: "k \<le> 63 \<Longrightarrow> unat (2 ^ k :: u64) = 2 ^ k"
proof -
  assume "k \<le> 63"
  then have "(2::nat) ^ k < 2 ^ 64" by (intro power_strict_increasing) auto
  moreover have "unat (of_nat (2 ^ k) :: u64) = 2 ^ k mod 2 ^ 64" unfolding unat_of_nat by simp
  ultimately have "unat (of_nat (2 ^ k) :: u64) = 2 ^ k" by (simp only: mod_less)
  then show ?thesis by simp
qed

lemma pow2_le_62: "k \<le> 62 \<Longrightarrow> (2::nat) ^ k \<le> 2 ^ 62"
  by (rule power_increasing) auto

lemma rb_invE:
  assumes "rb_inv rb"
  obtains k where "k \<le> 62" "rb_size rb = 2 ^ k" "rb_mask rb = 2 ^ k - 1" "length (rb_buf rb) = 2 ^ k"
    "unat (rb_size rb) = 2 ^ k" "rb_used rb \<le> 2 ^ k"
  using assms unfolding rb_inv_def by (auto simp: unat_2p)

lemma rb_len_bounds:
  assumes "rb_inv rb"
  shows "0 < length (rb_buf rb)" "length (rb_buf rb) \<le> 2 ^ 62" "rb_used rb \<le> length (rb_buf rb)" "rb_used rb \<le> 2 ^ 62"
    "unat (rb_size rb) = length (rb_buf rb)" "rb_buf rb \<noteq> []"
proof -
  obtain k where k: "k \<le> 62" "length (rb_buf rb) = 2 ^ k" "unat (rb_size rb) = 2 ^ k" "rb_used rb \<le> 2 ^ k"
    using assms by (rule rb_invE)
  show "0 < length (rb_buf rb)" "length (rb_buf rb) \<le> 2 ^ 62" "rb_used rb \<le> length (rb_buf rb)" "rb_used rb \<le> 2 ^ 62"
    "unat (rb_size rb) = length (rb_buf rb)" "rb_buf rb \<noteq> []"
    using k pow2_le_62[OF k(1)] by auto
qed

lemma RLen_eq:
  assumes "rb_inv rb" shows "RLen rb = int (rb_used rb)"
  using rb_len_bounds(4)[OF assms] unfolding RLen_def rb_used_def by (intro sint_small) simp

lemma RCap_eq: "rb_inv rb \<Longrightarrow> sint (rb_size rb) = int (length (rb_buf rb))"
  using rb_len_bounds(2,5)[of rb] by (subst sint_small) auto

lemma RFree_eq: "rb_inv rb \<Longrightarrow> RFree rb = int (length (rb_buf rb)) - int (rb_used rb)"
  using rb_len_bounds(2,3)[of rb] by (simp add: RFree_def RLen_eq RCap_eq)

lemma IsEmpty_eq: "IsEmpty rb \<longleftrightarrow> rb_used rb = 0"
  by (simp add: IsEmpty_def rb_used_def unat_eq_0) (metis right_minus_eq)

lemma IsFull_eq: "rb_inv rb \<Longrightarrow> IsFull rb \<longleftrightarrow> rb_used rb = length (rb_buf rb)"
  by (simp add: IsFull_def RLen_eq RCap_eq)

text \<open>Masked counters are indices; adding before masking is adding before the modulus.\<close>

lemma unat_masked: "rb_inv rb \<Longrightarrow> unat (w AND rb_mask rb) = unat w mod length (rb_buf rb)"
  by (erule rb_invE) (simp add: unat_and_mask)

lemma unat_masked_add:
  assumes "rb_inv rb"
  shows "unat ((a + of_nat n) AND rb_mask rb) = (unat a + n) mod length (rb_buf rb)"
proof -
  obtain k where k: "k \<le> 62" "length (rb_buf rb) = 2 ^ k" using assms by (rule rb_invE)
  have "unat (a + of_nat n) mod 2 ^ k = (unat a mod 2 ^ k + unat (of_nat n :: u64) mod 2 ^ k) mod 2 ^ k"
    using k by (simp add: unat_add_mod mod_add_eq)
  also have "\<dots> = (unat a + n) mod 2 ^ k" using k by (simp add: unat_of_nat_mod mod_add_eq)
  finally show ?thesis using assms by (simp add: unat_masked k(2))
qed

lemma unat_masked_write:
  assumes "rb_inv rb"
  shows "unat (rb_write rb AND rb_mask rb) = (unat (rb_read rb) + rb_used rb) mod length (rb_buf rb)"
proof -
  have "rb_write rb = rb_read rb + of_nat (rb_used rb)" by (simp add: rb_used_def)
  then show ?thesis using unat_masked_add[OF assms, of "rb_read rb" "rb_used rb"] by simp
qed

lemma masked_lt: "rb_inv rb \<Longrightarrow> unat (w AND rb_mask rb) < length (rb_buf rb)"
  using rb_len_bounds(1)[of rb] by (simp add: unat_masked)

lemma masked_plus:
  assumes "rb_inv rb" "n \<le> 2 ^ 62"
  shows "unat ((w AND rb_mask rb) + of_nat n) = unat (w AND rb_mask rb) + n"
  using masked_lt[OF assms(1), of w] rb_len_bounds(2)[OF assms(1)] assms(2) by (intro unat_plus_small) simp

lemma masked_rest:
  assumes "rb_inv rb"
  shows "unat (rb_size rb - (w AND rb_mask rb)) = length (rb_buf rb) - unat (w AND rb_mask rb)"
    "sint (rb_size rb - (w AND rb_mask rb)) = int (length (rb_buf rb) - unat (w AND rb_mask rb))"
proof -
  have le: "(w AND rb_mask rb) \<le> rb_size rb"
    using masked_lt[OF assms, of w] rb_len_bounds(5)[OF assms] by (simp add: word_le_nat_alt)
  show u: "unat (rb_size rb - (w AND rb_mask rb)) = length (rb_buf rb) - unat (w AND rb_mask rb)"
    using rb_len_bounds(5)[OF assms] by (simp add: unat_sub[OF le])
  show "sint (rb_size rb - (w AND rb_mask rb)) = int (length (rb_buf rb) - unat (w AND rb_mask rb))"
    using rb_len_bounds(2)[OF assms] u by (subst sint_small) auto
qed

section \<open>Reading a window of the contents\<close>

lemma go_slice_word:
  assumes "unat a \<le> unat b" "unat b \<le> length xs"
  shows "go_slice xs (uint (a :: u64)) (uint b) = Some (take (unat b - unat a) (drop (unat a) xs))"
  using go_slice_nat[OF assms] by simp

lemma go_slice_word_end:
  assumes "unat a \<le> length xs"
  shows "go_slice xs (uint (a :: u64)) (int (length xs)) = Some (drop (unat a) xs)"
  using go_slice_nat[OF assms order_refl] by simp

lemma go_slice_word_prefix:
  assumes "unat b \<le> length xs"
  shows "go_slice xs 0 (uint (b :: u64)) = Some (take (unat b) xs)"
  using go_slice_nat[of 0 "unat b" xs] assms by simp

lemma go_slice_prefix: "n \<le> length xs \<Longrightarrow> go_slice xs 0 (int n) = Some (take n xs)"
  using go_slice_nat[of 0 n xs] by simp

lemma window_view:
  assumes "off + l \<le> rb_used rb"
  shows "take l (drop off (rb_contents rb)) = ring_view (rb_buf rb) (unat (rb_read rb) + off) l"
proof -
  have "min l (rb_used rb - off) = l" using assms by linarith
  then show ?thesis by (simp add: rb_contents_def drop_ring_view take_ring_view)
qed

text \<open>
  The window of \<open>l\<close> bytes at offset \<open>off\<close>: one slice when it does not reach the end of the
  array, two otherwise. Every reading operation is an instance.
\<close>

lemma window_flat:
  assumes inv: "rb_inv rb" and le: "off + l \<le> rb_used rb"
    and p: "p = unat ((rb_read rb + of_nat off) AND rb_mask rb)" and f: "p + l \<le> length (rb_buf rb)"
  shows "(rb_read rb + of_nat off AND rb_mask rb) + of_nat l \<le> rb_size rb"
    and "go_slice (rb_buf rb) (uint (rb_read rb + of_nat off AND rb_mask rb))
           (uint ((rb_read rb + of_nat off AND rb_mask rb) + of_nat l)) = Some (take l (drop off (rb_contents rb)))"
    and "take l (drop p (rb_buf rb)) = take l (drop off (rb_contents rb))"
proof -
  let ?pos = "rb_read rb + of_nat off AND rb_mask rb"
  have l: "l \<le> 2 ^ 62" using le rb_len_bounds(4)[OF inv] by linarith
  have e: "unat (?pos + of_nat l) = p + l" using masked_plus[OF inv l] p by simp
  then show "?pos + of_nat l \<le> rb_size rb"
    using f rb_len_bounds(5)[OF inv] by (simp add: word_le_nat_alt)
  have pm: "p = (unat (rb_read rb) + off) mod length (rb_buf rb)" using p unat_masked_add[OF inv] by simp
  have v: "ring_view (rb_buf rb) (unat (rb_read rb) + off) l = take l (drop p (rb_buf rb))"
    using f unfolding pm by (metis ring_view_flat ring_view_start_mod)
  then show "take l (drop p (rb_buf rb)) = take l (drop off (rb_contents rb))"
    using window_view[OF le] by simp
  then show "go_slice (rb_buf rb) (uint ?pos) (uint (?pos + of_nat l)) = Some (take l (drop off (rb_contents rb)))"
    using e p f by (subst go_slice_word) auto
qed

lemma window_split:
  assumes inv: "rb_inv rb" and le: "off + l \<le> rb_used rb"
    and p: "p = unat ((rb_read rb + of_nat off) AND rb_mask rb)" and f: "\<not> p + l \<le> length (rb_buf rb)"
  shows "\<not> (rb_read rb + of_nat off AND rb_mask rb) + of_nat l \<le> rb_size rb"
    and "go_slice (rb_buf rb) (uint (rb_read rb + of_nat off AND rb_mask rb)) (uint (rb_size rb))
           = Some (drop p (rb_buf rb))"
    and "go_slice (rb_buf rb) 0 (int (l - (length (rb_buf rb) - p))) = Some (take (l - (length (rb_buf rb) - p)) (rb_buf rb))"
    and "drop p (rb_buf rb) @ take (l - (length (rb_buf rb) - p)) (rb_buf rb) = take l (drop off (rb_contents rb))"
    and "p < length (rb_buf rb)" "length (rb_buf rb) - p < l"
proof -
  let ?pos = "rb_read rb + of_nat off AND rb_mask rb" and ?c = "length (rb_buf rb)"
  have l: "l \<le> 2 ^ 62" "l \<le> ?c" using le rb_len_bounds(3,4)[OF inv] by linarith+
  have e: "unat (?pos + of_nat l) = p + l" using masked_plus[OF inv l(1)] p by simp
  then show "\<not> ?pos + of_nat l \<le> rb_size rb"
    using f rb_len_bounds(5)[OF inv] by (simp add: word_le_nat_alt)
  show pc: "p < ?c" using masked_lt[OF inv] p by simp
  show "?c - p < l" using f pc by linarith
  show "go_slice (rb_buf rb) (uint ?pos) (uint (rb_size rb)) = Some (drop p (rb_buf rb))"
    using p pc rb_len_bounds(5)[OF inv] by (subst go_slice_word) auto
  show "go_slice (rb_buf rb) 0 (int (l - (?c - p))) = Some (take (l - (?c - p)) (rb_buf rb))"
    using l pc by (intro go_slice_prefix) linarith
  have pm: "p = (unat (rb_read rb) + off) mod ?c" using p unat_masked_add[OF inv] by simp
  have "ring_view (rb_buf rb) (unat (rb_read rb) + off) l = ring_view (rb_buf rb) p l"
    unfolding pm by simp
  also have "\<dots> = drop p (rb_buf rb) @ take (l - (?c - p)) (rb_buf rb)"
    using pc f l(2) by (intro ring_view_wrap) auto
  finally show "drop p (rb_buf rb) @ take (l - (?c - p)) (rb_buf rb) = take l (drop off (rb_contents rb))"
    using window_view[OF le] by simp
qed

text \<open>Nothing is read past the readable bytes, and everything up to them is.\<close>

definition joined :: "byte list option \<Rightarrow> byte list option \<Rightarrow> byte list" where
  "joined a b = (case a of None \<Rightarrow> [] | Some x \<Rightarrow> x) @ (case b of None \<Rightarrow> [] | Some x \<Rightarrow> x)"

lemma PeekTwoSlices_facts:
  assumes inv: "rb_inv rb" and r: "int off + int l < 2 ^ 63"
  shows "off + l \<le> rb_used rb \<Longrightarrow> \<exists>a b. PeekTwoSlices (int off) (int l) rb = Some (Some a, b, None)
           \<and> joined (Some a) b = take l (drop off (rb_contents rb)) \<and> b \<noteq> Some []"
    and "rb_used rb < off + l \<Longrightarrow> PeekTwoSlices (int off) (int l) rb = Some (None, None, Some ErrInsufficientData)"
proof -
  have i: "i64 (int off + int l) = int off + int l" using r by simp
  show "rb_used rb < off + l \<Longrightarrow> PeekTwoSlices (int off) (int l) rb = Some (None, None, Some ErrInsufficientData)"
    by (simp add: PeekTwoSlices_def RLen_eq[OF inv] i)
  assume le: "off + l \<le> rb_used rb"
  define p where "p = unat ((rb_read rb + of_nat off) AND rb_mask rb)"
  show "\<exists>a b. PeekTwoSlices (int off) (int l) rb = Some (Some a, b, None)
           \<and> joined (Some a) b = take l (drop off (rb_contents rb)) \<and> b \<noteq> Some []"
  proof (cases "p + l \<le> length (rb_buf rb)")
    case True
    note w = window_flat[OF inv le p_def True]
    show ?thesis using w(1,2) le by (simp add: PeekTwoSlices_def RLen_eq[OF inv] i Let_def joined_def)
  next
    case False
    note w = window_split[OF inv le p_def False]
    have "i64 (int l - sint (rb_size rb - (rb_read rb + of_nat off AND rb_mask rb))) = int (l - (length (rb_buf rb) - p))"
      using masked_rest(2)[OF inv, of "rb_read rb + of_nat off"] w(6) r unfolding p_def by simp
    then have "PeekTwoSlices (int off) (int l) rb =
        Some (Some (drop p (rb_buf rb)), Some (take (l - (length (rb_buf rb) - p)) (rb_buf rb)), None)"
      using w(1,2,3) le by (simp add: PeekTwoSlices_def RLen_eq[OF inv] i Let_def)
    moreover have "take (l - (length (rb_buf rb) - p)) (rb_buf rb) \<noteq> []" using w(5,6) by auto
    ultimately show ?thesis using w(4) by (auto simp: joined_def)
  qed
qed

lemma copy_out_facts:
  assumes inv: "rb_inv rb" and le: "n \<le> rb_used rb"
  shows "copy_out n rb = Some (take n (rb_contents rb))"
proof -
  define p where "p = unat (rb_read rb AND rb_mask rb)"
  have p0: "p = unat ((rb_read rb + of_nat 0) AND rb_mask rb)" by (simp add: p_def)
  have le0: "0 + n \<le> rb_used rb" using le by simp
  show ?thesis
  proof (cases "p + n \<le> length (rb_buf rb)")
    case True
    show ?thesis using window_flat(1,2)[OF inv le0 p0 True] by (simp add: copy_out_def Let_def)
  next
    case False
    note w = window_split[OF inv le0 p0 False]
    have "int n - sint (rb_size rb - (rb_read rb AND rb_mask rb)) = int (n - (length (rb_buf rb) - p))"
      using masked_rest(2)[OF inv, of "rb_read rb"] w(6) unfolding p_def by simp
    then show ?thesis using w(1-4) by (simp add: copy_out_def Let_def)
  qed
qed

lemma go_index_contents:
  assumes inv: "rb_inv rb" and le: "off < rb_used rb"
  shows "go_index (rb_buf rb) ((rb_read rb + of_nat off) AND rb_mask rb) = Some (rb_contents rb ! off)"
proof -
  have "unat ((rb_read rb + of_nat off) AND rb_mask rb) < length (rb_buf rb)" using masked_lt[OF inv] .
  then show ?thesis using le by (simp add: go_index_def unat_masked_add[OF inv] rb_contents_def)
qed

text \<open>Both ways of assembling a big-endian word give the same value.\<close>

definition be32 :: "byte list \<Rightarrow> u32" where
  "be32 bs = foldl (\<lambda>v b. push_bit 8 v OR ucast b) 0 bs"

lemma be_or_be32: "be_or b0 b1 b2 b3 = be32 [b0, b1, b2, b3]"
  by (simp add: be_or_def be32_def push_bit_or or.assoc)

lemma masked_absorb:
  assumes "rb_inv rb"
  shows "((a AND rb_mask rb) + of_nat n) AND rb_mask rb = (a + of_nat n) AND rb_mask rb"
proof -
  have "unat (((a AND rb_mask rb) + of_nat n) AND rb_mask rb) = (unat (a AND rb_mask rb) + n) mod length (rb_buf rb)"
    by (rule unat_masked_add[OF assms])
  also have "\<dots> = (unat a + n) mod length (rb_buf rb)"
    by (simp only: unat_masked[OF assms] mod_add_left_eq)
  also have "\<dots> = unat ((a + of_nat n) AND rb_mask rb)"
    by (rule unat_masked_add[OF assms, symmetric])
  finally show ?thesis by (simp only: word_unat_eq_iff)
qed

lemma be_loop_facts:
  assumes inv: "rb_inv rb" and le: "off + i + n \<le> rb_used rb"
  shows "be_loop rb ((rb_read rb + of_nat off) AND rb_mask rb) i n v =
         Some (foldl (\<lambda>v b. push_bit 8 v OR ucast b) v (take n (drop (off + i) (rb_contents rb))))"
  using le
proof (induction n arbitrary: i v)
  case 0
  then show ?case by simp
next
  case (Suc n)
  have "(rb_read rb + of_nat off AND rb_mask rb) + of_nat i AND rb_mask rb
      = rb_read rb + of_nat (off + i) AND rb_mask rb"
    using masked_absorb[OF inv] by (simp add: add.assoc)
  then have x: "go_index (rb_buf rb) ((rb_read rb + of_nat off AND rb_mask rb) + of_nat i AND rb_mask rb)
      = Some (rb_contents rb ! (off + i))"
    using go_index_contents[OF inv, of "off + i"] Suc.prems by simp
  have t: "take (Suc n) (drop (off + i) (rb_contents rb))
      = rb_contents rb ! (off + i) # take n (drop (off + Suc i) (rb_contents rb))"
    using Suc.prems by (simp add: Cons_nth_drop_Suc[symmetric])
  show ?case using Suc.IH[of "Suc i"] Suc.prems by (simp add: x t)
qed

lemma be_loop_be32:
  assumes "rb_inv rb" "off + i + n \<le> rb_used rb"
  shows "be_loop rb ((rb_read rb + of_nat off) AND rb_mask rb) i n 0 = Some (be32 (take n (drop (off + i) (rb_contents rb))))"
  using be_loop_facts[OF assms] by (simp add: be32_def)

lemma take4: "4 \<le> length xs \<Longrightarrow> take 4 xs = [xs ! 0, xs ! 1, xs ! 2, xs ! 3]"
  by (cases xs; cases "tl xs"; cases "tl (tl xs)"; cases "tl (tl (tl xs))") (auto simp: numeral_eq_Suc)

lemma be_direct_be32:
  assumes "unat pos + 4 \<le> length bs" "length bs \<le> 2 ^ 62"
  shows "be_direct bs pos = Some (be32 (take 4 (drop (unat pos) bs)))"
proof -
  have s: "unat (pos + of_nat k) = unat pos + k" if "k \<le> 4" for k
    using assms that by (intro unat_plus_small) simp
  have "unat (pos + 1) = unat pos + 1" "unat (pos + 2) = unat pos + 2" "unat (pos + 3) = unat pos + 3"
    using s[of 1] s[of 2] s[of 3] by simp_all
  then show ?thesis
    using assms by (simp add: be_direct_def go_index_def be_or_be32 take4)
qed

lemma PeekUint32BE_facts:
  assumes inv: "rb_inv rb" and r: "int off + 4 < 2 ^ 63"
  shows "PeekUint32BE (int off) rb =
    (if rb_used rb < off + 4 then Some (0, Some ErrInsufficientData)
     else Some (be32 (take 4 (drop off (rb_contents rb))), None))"
proof -
  have i: "i64 (int off + 4) = int off + 4" using r by simp
  have lt: "int (rb_used rb) < int off + 4 \<longleftrightarrow> rb_used rb < off + 4" by linarith
  define p where "p = unat ((rb_read rb + of_nat off) AND rb_mask rb)"
  show ?thesis
  proof (cases "rb_used rb < off + 4")
    case True
    then show ?thesis by (simp add: PeekUint32BE_def RLen_eq[OF inv] i lt)
  next
    case False
    then have le: "off + 4 \<le> rb_used rb" by simp
    show ?thesis
    proof (cases "p + 4 \<le> length (rb_buf rb)")
      case True
      note w = window_flat[OF inv le p_def True]
      have "be_direct (rb_buf rb) (rb_read rb + of_nat off AND rb_mask rb) = Some (be32 (take 4 (drop p (rb_buf rb))))"
        using True rb_len_bounds(2)[OF inv] unfolding p_def by (rule be_direct_be32)
      then show ?thesis using w(1,3) False by (simp add: PeekUint32BE_def RLen_eq[OF inv] i lt Let_def)
    next
      case f: False
      note w = window_split[OF inv le p_def f]
      show ?thesis using w(1) False be_loop_be32[OF inv, of off 0 4] le
        by (simp add: PeekUint32BE_def RLen_eq[OF inv] i lt Let_def)
    qed
  qed
qed

lemma PeekHeader12_facts:
  assumes inv: "rb_inv rb" and le: "off + 12 \<le> rb_used rb"
  shows "PeekHeader12 (int off) rb =
    Some (be32 (take 4 (drop off (rb_contents rb))), be32 (take 4 (drop (off + 4) (rb_contents rb))),
          be32 (take 4 (drop (off + 8) (rb_contents rb))))"
proof -
  define p where "p = unat ((rb_read rb + of_nat off) AND rb_mask rb)"
  show ?thesis
  proof (cases "p + 12 \<le> length (rb_buf rb)")
    case True
    note w = window_flat[OF inv le p_def True]
    let ?bs = "drop p (rb_buf rb)"
    have l: "length ?bs \<le> 2 ^ 62" "12 \<le> length ?bs" using rb_len_bounds(2)[OF inv] True by auto
    have d: "be_direct ?bs 0 = Some (be32 (take 4 ?bs))" "be_direct ?bs 4 = Some (be32 (take 4 (drop 4 ?bs)))"
      "be_direct ?bs 8 = Some (be32 (take 4 (drop 8 ?bs)))"
      using be_direct_be32[of 0 ?bs] be_direct_be32[of 4 ?bs] be_direct_be32[of 8 ?bs] l by auto
    have sl: "go_slice (rb_buf rb) (uint (rb_read rb + of_nat off AND rb_mask rb)) (int (length (rb_buf rb))) = Some ?bs"
      using masked_lt[OF inv, of "rb_read rb + of_nat off"] unfolding p_def by (intro go_slice_word_end) simp
    have t: "take 4 (drop j ?bs) = take 4 (drop j (drop off (rb_contents rb)))" if "j \<le> 8" for j
    proof -
      have "min 4 (12 - j) = 4" using that by linarith
      then show ?thesis using arg_cong[OF w(3), of "\<lambda>x. take 4 (drop j x)"] by (simp add: drop_take)
    qed
    show ?thesis using w(1) sl d t[of 0] t[of 4] t[of 8]
      by (simp add: PeekHeader12_def Let_def add.commute)
  next
    case False
    note w = window_split[OF inv le p_def False]
    show ?thesis
      using w(1) be_loop_be32[OF inv, of off 0 4] be_loop_be32[OF inv, of off 4 4] be_loop_be32[OF inv, of off 8 4] le
      by (simp add: PeekHeader12_def Let_def)
  qed
qed

lemma PeekBytes_facts:
  assumes inv: "rb_inv rb" and r: "int off + int l < 2 ^ 63"
  shows "PeekBytes (int off) (int l) rb =
    (if rb_used rb < off + l then Some (None, Some ErrInsufficientData)
     else Some (Some (take l (drop off (rb_contents rb))), None))"
proof -
  have i: "i64 (int off + int l) = int off + int l" using r by simp
  have lt: "int (rb_used rb) < int off + int l \<longleftrightarrow> rb_used rb < off + l" by linarith
  define p where "p = unat ((rb_read rb + of_nat off) AND rb_mask rb)"
  show ?thesis
  proof (cases "rb_used rb < off + l")
    case True
    then show ?thesis by (simp add: PeekBytes_def RLen_eq[OF inv] i lt)
  next
    case False
    then have le: "off + l \<le> rb_used rb" by simp
    show ?thesis
    proof (cases "p + l \<le> length (rb_buf rb)")
      case True
      show ?thesis using window_flat(1,2)[OF inv le p_def True] False
        by (simp add: PeekBytes_def RLen_eq[OF inv] i lt Let_def)
    next
      case f: False
      note w = window_split[OF inv le p_def f]
      let ?d = "length (rb_buf rb) - p"
      have fp: "sint (rb_size rb - (rb_read rb + of_nat off AND rb_mask rb)) = int ?d"
        using masked_rest(2)[OF inv, of "rb_read rb + of_nat off"] unfolding p_def by simp
      have ix: "i64 (int l - int ?d) = int (l - ?d)" using w(6) r by simp
      have g1: "go_slice (replicate l (0::byte)) 0 (int ?d) = Some (replicate ?d 0)"
        using w(6) by (subst go_slice_prefix) auto
      have g2: "go_slice (replicate l (0::byte)) (int ?d) (int l) = Some (replicate (l - ?d) 0)"
        using w(6) by (subst go_slice_nat) auto
      have "go_copy (go_copy (replicate l 0) 0 (drop p (rb_buf rb))) ?d (take (l - ?d) (rb_buf rb))
          = drop p (rb_buf rb) @ take (l - ?d) (rb_buf rb)"
        using w(5,6) le rb_len_bounds(3)[OF inv] by (simp add: go_copy_def min_def)
      then show ?thesis
        using w(1-4) False fp ix g1 g2
        by (simp add: PeekBytes_def RLen_eq[OF inv] i lt Let_def)
    qed
  qed
qed

lemma Peek_facts:
  assumes inv: "rb_inv rb"
  shows "Peek (int n) rb =
    (if rb_contents rb = [] then Some (None, Some ErrBufferEmpty)
     else Some (Some (take (min n (length (rb_buf rb) - unat (rb_read rb) mod length (rb_buf rb))) (rb_contents rb)), None))"
proof (cases "rb_used rb = 0")
  case True
  then have "rb_contents rb = []" by (metis length_0_conv length_rb_contents)
  with True show ?thesis by (simp add: Peek_def IsEmpty_eq)
next
  case ne: False
  define m where "m = min n (rb_used rb)"
  define p where "p = unat (rb_read rb AND rb_mask rb)"
  have p0: "p = unat ((rb_read rb + of_nat 0) AND rb_mask rb)" by (simp add: p_def)
  have le: "0 + m \<le> rb_used rb" by (simp add: m_def)
  have nm: "(if int n > RLen rb then RLen rb else int n) = int m" by (simp add: RLen_eq[OF inv] m_def)
  have pm: "p = unat (rb_read rb) mod length (rb_buf rb)" by (simp add: p_def unat_masked[OF inv])
  have c: "rb_contents rb \<noteq> []" using ne by (metis length_rb_contents list.size(3))
  have tk: "take (min n d) (rb_contents rb) = take (min m d) (rb_contents rb)" for d
    by (rule nth_equalityI) (auto simp: m_def)
  show ?thesis
  proof (cases "p + m \<le> length (rb_buf rb)")
    case True
    have "min m (length (rb_buf rb) - p) = m" using True by simp
    then show ?thesis
      using window_flat(1,2)[OF inv le p0 True] ne c tk[of "length (rb_buf rb) - p"]
      unfolding Peek_def Let_def nm pm[symmetric] by (simp add: IsEmpty_eq)
  next
    case False
    note w = window_split[OF inv le p0 False]
    have mn: "min m (length (rb_buf rb) - p) = length (rb_buf rb) - p" using w(6) by simp
    have "take (length (rb_buf rb) - p) (rb_contents rb) = take (length (rb_buf rb) - p) (take m (rb_contents rb))"
      using w(6) by (simp add: min_def)
    also have "\<dots> = drop p (rb_buf rb)" using w(4) by (metis append_eq_conv_conj drop0 length_drop)
    finally have "take (min n (length (rb_buf rb) - p)) (rb_contents rb) = drop p (rb_buf rb)" using tk mn by simp
    then show ?thesis
      using w(1,2) ne c unfolding Peek_def Let_def nm pm[symmetric] by (simp add: IsEmpty_eq)
  qed
qed

section \<open>Consuming\<close>

lemma rb_used_advance:
  assumes inv: "rb_inv rb" and le: "n \<le> rb_used rb"
  shows "rb_used (advance_read (of_nat n) rb) = rb_used rb - n"
proof -
  have n: "unat (of_nat n :: u64) = n"
    using le rb_len_bounds(4)[OF inv] by (simp add: unat_of_nat)
  have "of_nat n \<le> rb_write rb - rb_read rb"
    using le n by (simp add: rb_used_def word_le_nat_alt)
  then have "unat ((rb_write rb - rb_read rb) - of_nat n) = rb_used rb - n"
    by (simp only: unat_sub n rb_used_def)
  moreover have "rb_write rb - (rb_read rb + of_nat n) = (rb_write rb - rb_read rb) - of_nat n" by simp
  ultimately have "unat (rb_write rb - (rb_read rb + of_nat n)) = rb_used rb - n" by (simp only:)
  then show ?thesis by (simp add: advance_read_def rb_used_def)
qed

lemma unat_add_view:
  assumes "rb_inv rb"
  shows "ring_view (rb_buf rb) (unat ((w :: u64) + of_nat n)) m = ring_view (rb_buf rb) (unat w + n) m"
  using unat_masked_add[OF assms, of w n] unat_masked[OF assms, of "w + of_nat n"]
  by (intro ring_view_start_cong) simp

lemma advance_read_facts:
  assumes inv: "rb_inv rb" and le: "n \<le> rb_used rb"
  shows "rb_inv (advance_read (of_nat n) rb)"
    "rb_contents (advance_read (of_nat n) rb) = drop n (rb_contents rb)"
proof -
  have u: "rb_used (advance_read (of_nat n) rb) = rb_used rb - n" by (rule rb_used_advance[OF inv le])
  have f: "rb_buf (advance_read (of_nat n) rb) = rb_buf rb" "rb_size (advance_read (of_nat n) rb) = rb_size rb"
    "rb_mask (advance_read (of_nat n) rb) = rb_mask rb" "rb_maxSize (advance_read (of_nat n) rb) = rb_maxSize rb"
    "rb_read (advance_read (of_nat n) rb) = rb_read rb + of_nat n"
    by (simp_all add: advance_read_def)
  show "rb_inv (advance_read (of_nat n) rb)" using inv unfolding rb_inv_def u f by auto
  show "rb_contents (advance_read (of_nat n) rb) = drop n (rb_contents rb)"
    unfolding rb_contents_def u f by (simp add: unat_add_view[OF inv] drop_ring_view)
qed

lemma Discard_facts:
  assumes inv: "rb_inv rb"
  shows "rb_used rb < n \<Longrightarrow> Discard (int n) rb = (Some ErrInsufficientData, rb)"
    and "n \<le> rb_used rb \<Longrightarrow> Discard (int n) rb = (None, advance_read (of_nat n) rb)"
  by (simp_all add: Discard_def RLen_eq[OF inv])

lemma RRead_facts:
  assumes inv: "rb_inv rb"
  shows "\<exists>rb'. RRead n rb = Some ((take n (rb_contents rb), if rb_contents rb = [] then Some EOF else None), rb')
    \<and> rb_inv rb' \<and> rb_contents rb' = drop n (rb_contents rb)"
proof (cases "rb_used rb = 0")
  case True
  then have "rb_contents rb = []" by (metis length_0_conv length_rb_contents)
  with True inv show ?thesis by (simp add: RRead_def IsEmpty_eq)
next
  case False
  define m where "m = min n (rb_used rb)"
  have "(if int n > RLen rb then nat (RLen rb) else n) = m" by (simp add: RLen_eq[OF inv] m_def)
  then have "RRead n rb = Some ((take m (rb_contents rb), None), advance_read (of_nat m) rb)"
    using False copy_out_facts[OF inv, of m] by (simp add: RRead_def IsEmpty_eq m_def Let_def)
  moreover have "take m (rb_contents rb) = take n (rb_contents rb)" "drop m (rb_contents rb) = drop n (rb_contents rb)"
    by (simp_all add: m_def min_def)
  moreover have "rb_contents rb \<noteq> []" using False by (metis length_rb_contents list.size(3))
  ultimately show ?thesis using advance_read_facts[OF inv, of m] by (simp add: m_def)
qed

lemma ReadFull_facts:
  assumes inv: "rb_inv rb"
  shows "ReadFull n rb =
    (if rb_used rb < n then Some (([], Some ErrInsufficientData), rb)
     else Some ((take n (rb_contents rb), None), advance_read (of_nat n) rb))"
  using copy_out_facts[OF inv, of n] by (simp add: ReadFull_def RLen_eq[OF inv])

lemma ReadUint32BE_facts:
  assumes inv: "rb_inv rb"
  shows "ReadUint32BE rb =
    (if rb_used rb < 4 then Some ((0, Some ErrInsufficientData), rb)
     else Some ((be32 (take 4 (rb_contents rb)), None), advance_read 4 rb))"
proof -
  have "PeekUint32BE (int 0) rb = (if rb_used rb < 0 + 4 then Some (0, Some ErrInsufficientData)
     else Some (be32 (take 4 (drop 0 (rb_contents rb))), None))"
    by (rule PeekUint32BE_facts[OF inv]) simp
  then show ?thesis
    by (auto simp: PeekUint32BE_def ReadUint32BE_def RLen_eq[OF inv] Let_def bind_eq_Some_conv split: if_splits)
qed

lemma RReadByte_facts:
  assumes inv: "rb_inv rb"
  shows "RReadByte rb = (case rb_contents rb of [] \<Rightarrow> Some ((0, Some ErrBufferEmpty), rb)
     | b # _ \<Rightarrow> Some ((b, None), advance_read 1 rb))"
proof (cases "rb_contents rb")
  case Nil
  then have "rb_used rb = 0" by (metis length_rb_contents list.size(3))
  with Nil show ?thesis by (simp add: RReadByte_def IsEmpty_eq)
next
  case (Cons b bs)
  then have "0 < rb_used rb" by (metis length_greater_0_conv length_rb_contents list.discI)
  with Cons go_index_contents[OF inv, of 0] show ?thesis by (simp add: RReadByte_def IsEmpty_eq)
qed

section \<open>Growing\<close>

text \<open>The doubling loop returns for every requirement up to \<open>2^63\<close>, with a power of two.\<close>

lemma unat_2p_double: "k < 63 \<Longrightarrow> (2 ^ k :: u64) * 2 = 2 ^ Suc k"
  by simp

lemma grow_loop_total:
  "a \<le> 63 \<Longrightarrow> unat needed \<le> 2 ^ 63 \<Longrightarrow>
     \<exists>b. a \<le> b \<and> b \<le> 63 \<and> grow_loop needed (2 ^ a) = Some (2 ^ b)
         \<and> unat needed \<le> 2 ^ b \<and> (b = a \<or> 2 ^ (b - 1) < unat needed)"
proof (induction "63 - a" arbitrary: a rule: less_induct)
  case less
  show ?case
  proof (cases "(2 ^ a :: u64) < needed")
    case False
    then have "unat needed \<le> 2 ^ a" using less.prems by (simp add: word_less_nat_alt unat_2p)
    moreover have "grow_loop needed (2 ^ a) = Some (2 ^ a)" using False by (subst grow_loop.simps) simp
    ultimately show ?thesis using less.prems by blast
  next
    case True
    then have lt: "2 ^ a < unat needed" using less.prems by (simp add: word_less_nat_alt unat_2p)
    then have "a < 63"
      using less.prems by (metis le_neq_implies_less less_le_not_le)
    then have "63 - Suc a < 63 - a" "Suc a \<le> 63" by auto
    from less.hyps[OF this less.prems(2)] obtain b where b: "Suc a \<le> b" "b \<le> 63"
      "grow_loop needed (2 ^ Suc a) = Some (2 ^ b)" "unat needed \<le> 2 ^ b" "b = Suc a \<or> 2 ^ (b - 1) < unat needed"
      by blast
    have "grow_loop needed (2 ^ a) = grow_loop needed (2 ^ Suc a)"
      using True by (subst grow_loop.simps) (simp add: mult.commute)
    then show ?thesis using b lt by (intro exI[of _ b]) auto
  qed
qed

lemma PeekAll_facts:
  assumes inv: "rb_inv rb" and ne: "0 < rb_used rb"
  shows "\<exists>a b. PeekAll rb = Some (Some a, b) \<and> joined (Some a) b = rb_contents rb"
proof -
  let ?c = "length (rb_buf rb)"
  define r where "r = unat (rb_read rb AND rb_mask rb)"
  define w where "w = unat (rb_write rb AND rb_mask rb)"
  have rc: "r < ?c" "r = unat (rb_read rb) mod ?c"
    using masked_lt[OF inv] unat_masked[OF inv] by (auto simp: r_def)
  have wm: "w = (r + rb_used rb) mod ?c"
    using unat_masked_write[OF inv] rc(2) by (simp add: w_def mod_add_left_eq)
  have u: "rb_used rb \<le> ?c" using rb_len_bounds(3)[OF inv] .
  have cv: "rb_contents rb = ring_view (rb_buf rb) r (rb_used rb)"
    unfolding rb_contents_def rc(2) by simp
  have gt: "rb_write rb AND rb_mask rb > rb_read rb AND rb_mask rb \<longleftrightarrow> w > r"
    by (simp add: word_less_nat_alt r_def w_def)
  show ?thesis
  proof (cases "r + rb_used rb < ?c")
    case True
    then have w: "w = r + rb_used rb" using wm by simp
    have "go_slice (rb_buf rb) (uint (rb_read rb AND rb_mask rb)) (uint (rb_write rb AND rb_mask rb))
        = Some (rb_contents rb)"
      using True w by (subst go_slice_word) (auto simp flip: r_def w_def simp: cv ring_view_flat)
    moreover have "w > r" using w ne by simp
    ultimately show ?thesis using ne gt by (simp add: PeekAll_def IsEmpty_eq Let_def joined_def)
  next
    case False
    have w: "w = r + rb_used rb - ?c"
      using wm False rc u by (simp add: le_mod_geq)
    then have "\<not> w > r" "w \<le> ?c" using u rc by auto
    moreover have "go_slice (rb_buf rb) (uint (rb_read rb AND rb_mask rb)) (int ?c) = Some (drop r (rb_buf rb))"
      using rc by (subst go_slice_word_end) (auto simp flip: r_def)
    moreover have "go_slice (rb_buf rb) 0 (uint (rb_write rb AND rb_mask rb)) = Some (take w (rb_buf rb))"
      using calculation by (subst go_slice_word_prefix) (auto simp flip: w_def)
    moreover have "rb_contents rb = drop r (rb_buf rb) @ take w (rb_buf rb)"
    proof -
      have "rb_used rb - (?c - r) = w" using w False rc(1) u by linarith
      then show ?thesis using ring_view_wrap[of r "rb_buf rb" "rb_used rb"] False rc(1) u by (simp only: cv)
    qed
    ultimately show ?thesis using ne gt by (simp add: PeekAll_def IsEmpty_eq Let_def joined_def)
  qed
qed

text \<open>Moving to a larger array keeps the contents, now unwrapped at the front.\<close>

lemma grow_to_facts:
  assumes inv: "rb_inv rb" and k: "k \<le> 62" "length (rb_buf rb) < 2 ^ k"
  shows "\<exists>rb'. grow_to (2 ^ k) rb = Some (True, rb') \<and> rb_inv rb' \<and> rb_contents rb' = rb_contents rb
     \<and> length (rb_buf rb') = 2 ^ k \<and> rb_maxSize rb' = rb_maxSize rb"
proof -
  let ?n = "2 ^ k :: nat"
  have un: "unat (2 ^ k :: u64) = ?n" using k by (simp add: unat_2p)
  have gt: "\<not> (2 ^ k :: u64) \<le> rb_size rb"
    using k(2) rb_len_bounds(5)[OF inv] by (simp add: word_le_nat_alt un)
  have u: "rb_used rb \<le> length (rb_buf rb)" "rb_used rb \<le> 2 ^ 62" using rb_len_bounds[OF inv] by auto
  define copied where "copied = go_copy (replicate ?n 0) 0 (rb_contents rb)"
  have cl: "length copied = ?n" by (simp add: copied_def)
  define rb' where "rb' = rb\<lparr>rb_buf := copied, rb_size := 2 ^ k, rb_mask := 2 ^ k - 1,
      rb_read := 0, rb_write := of_nat (rb_used rb)\<rparr>"
  have "grow_to (2 ^ k) rb = Some (True, rb')"
  proof (cases "rb_used rb = 0")
    case True
    then have "rb_contents rb = []" by (metis length_0_conv length_rb_contents)
    then have "copied = replicate ?n 0" by (simp add: copied_def go_copy_def)
    then show ?thesis using True gt by (simp add: grow_to_def RLen_eq[OF inv] rb'_def un Let_def)
  next
    case False
    then obtain a b where ab: "PeekAll rb = Some (Some a, b)" "joined (Some a) b = rb_contents rb"
      using PeekAll_facts[OF inv] by auto
    have la: "length a \<le> ?n" using arg_cong[OF ab(2), of length] u k(2) by (simp add: joined_def)
    have "(if length (case b of None \<Rightarrow> [] | Some x \<Rightarrow> x) > 0
        then go_copy (go_copy (replicate ?n 0) 0 a) (length a) (case b of None \<Rightarrow> [] | Some x \<Rightarrow> x)
        else go_copy (replicate ?n 0) 0 a) = copied"
      unfolding copied_def ab(2)[symmetric] using la
      by (auto simp: joined_def go_copy_def min_def split: option.splits)
    then show ?thesis using False gt ab(1) la
      by (auto simp: grow_to_def RLen_eq[OF inv] rb'_def un Let_def split: if_splits)
  qed
  moreover have used: "rb_used rb' = rb_used rb" using u by (simp add: rb'_def rb_used_def unat_of_nat)
  moreover have "rb_inv rb'"
    using inv k u used unfolding rb_inv_def by (auto simp: rb'_def cl un)
  moreover have "rb_contents rb' = rb_contents rb"
    using u k(2) unfolding rb_contents_def used
    by (intro nth_equalityI) (auto simp: rb'_def cl copied_def nth_go_copy rb_contents_def)
  ultimately show ?thesis by (auto simp: rb'_def cl)
qed

text \<open>
  The outcome of \<open>Grow\<close>: it succeeds when the space is there or the ring may grow; when
  the configured maximum cuts the growth short it still reports success.
\<close>

definition grow_capped :: "nat \<Rightarrow> ring_buffer \<Rightarrow> bool" where
  "grow_capped n rb \<longleftrightarrow> rb_maxSize rb > 0 \<and> length (rb_buf rb) < unat (rb_maxSize rb)
     \<and> unat (rb_maxSize rb) < rb_used rb + n"

lemma Grow_facts:
  assumes inv: "rb_inv rb" and le: "rb_used rb + n \<le> 2 ^ 62"
  shows "\<exists>ok rb'. Grow (int n) rb = Some (ok, rb') \<and> rb_inv rb' \<and> rb_contents rb' = rb_contents rb
     \<and> rb_maxSize rb' = rb_maxSize rb \<and> length (rb_buf rb) \<le> length (rb_buf rb')
     \<and> (ok \<longleftrightarrow> rb_used rb + n \<le> length (rb_buf rb) \<or> rb_maxSize rb = 0 \<or> length (rb_buf rb) < unat (rb_maxSize rb))
     \<and> (\<not> ok \<longrightarrow> rb' = rb)
     \<and> (ok \<and> \<not> grow_capped n rb \<longrightarrow> rb_used rb + n \<le> length (rb_buf rb'))
     \<and> (grow_capped n rb \<longrightarrow> length (rb_buf rb') = unat (rb_maxSize rb))
     \<and> (rb_maxSize rb = 0 \<or> rb' = rb \<or> length (rb_buf rb') \<le> unat (rb_maxSize rb))"
proof (cases "rb_used rb + n \<le> length (rb_buf rb)")
  case True
  then have "RFree rb \<ge> int n" by (simp add: RFree_eq[OF inv])
  then have "Grow (int n) rb = Some (True, rb)" by (simp add: Grow_def)
  then show ?thesis using True inv by (auto simp: grow_capped_def)
next
  case False
  obtain k where k: "k \<le> 62" "rb_size rb = 2 ^ k" "length (rb_buf rb) = 2 ^ k"
    using inv by (rule rb_invE)
  have "(2::nat) ^ k < 2 ^ 62" using False le k(3) by linarith
  then have k61: "k < 62" by (rule power_less_imp_less_exp[rotated]) simp
  let ?need = "word_of_int (i64 (RLen rb + int n)) :: u64"
  have need: "unat ?need = rb_used rb + n"
  proof -
    have "i64 (RLen rb + int n) = int (rb_used rb + n)" using le by (simp add: RLen_eq[OF inv])
    then have "?need = of_nat (rb_used rb + n)" by (simp only: of_int_of_nat_eq)
    moreover have "(rb_used rb + n) mod 2 ^ 64 = rb_used rb + n" using le by (intro mod_less) simp
    ultimately show ?thesis by (simp only: unat_of_nat) simp
  qed
  obtain b where b: "Suc k \<le> b" "b \<le> 63" "grow_loop ?need (2 ^ Suc k) = Some (2 ^ b)"
    "unat ?need \<le> 2 ^ b" "b = Suc k \<or> 2 ^ (b - 1) < unat ?need"
    using grow_loop_total[of "Suc k" ?need] k61 need le by auto
  have b62: "b \<le> 62"
  proof (rule ccontr)
    assume "\<not> b \<le> 62"
    then have "b = 63" using b(2) by simp
    then show False using b(5) need le k61 by simp
  qed
  have gl: "grow_loop ?need (rb_size rb * 2) = Some (2 ^ b)" using b(3) by (simp add: k(2) mult.commute)
  have nf: "\<not> RFree rb \<ge> int n" using False by (simp add: RFree_eq[OF inv])
  have bl: "length (rb_buf rb) < 2 ^ b" using b(1) unfolding k(3) by (intro power_strict_increasing) auto
  consider (free) "rb_maxSize rb = 0 \<or> 2 ^ b \<le> unat (rb_maxSize rb)"
    | (cap) "rb_maxSize rb > 0" "unat (rb_maxSize rb) < 2 ^ b" "length (rb_buf rb) < unat (rb_maxSize rb)"
    | (full) "rb_maxSize rb > 0" "unat (rb_maxSize rb) < 2 ^ b" "unat (rb_maxSize rb) \<le> length (rb_buf rb)"
    by (metis linorder_not_less word_gt_0)
  then show ?thesis
  proof cases
    case free
    have c: "\<not> (rb_maxSize rb > 0 \<and> (2 ^ b :: u64) > rb_maxSize rb)"
      using free b62 by (auto simp: word_less_nat_alt unat_2p)
    obtain rb' where g: "grow_to (2 ^ b) rb = Some (True, rb')" "rb_inv rb'" "rb_contents rb' = rb_contents rb"
      "length (rb_buf rb') = 2 ^ b" "rb_maxSize rb' = rb_maxSize rb"
      using grow_to_facts[OF inv b62 bl] by blast
    have "Grow (int n) rb = Some (True, rb')" using nf gl c g(1) by (auto simp: Grow_def)
    moreover have "\<not> grow_capped n rb" using free b(4) need by (auto simp: grow_capped_def)
    ultimately show ?thesis using g bl b(4) need free by auto
  next
    case cap
    have c: "rb_maxSize rb > 0 \<and> (2 ^ b :: u64) > rb_maxSize rb" "rb_maxSize rb > rb_size rb"
      using cap b62 rb_len_bounds(5)[OF inv] by (auto simp: word_less_nat_alt unat_2p)
    obtain m where m: "rb_maxSize rb = 2 ^ m" "m \<le> 63" using inv cap(1) by (auto simp: rb_inv_def)
    have um: "unat (rb_maxSize rb) = 2 ^ m" using m by (simp add: unat_2p)
    have "(2::nat) ^ m < 2 ^ b" using cap(2) um by simp
    then have mb: "m < b" by (rule power_less_imp_less_exp[rotated]) simp
    then have m62: "m \<le> 62" using b62 by simp
    obtain rb' where g: "grow_to (2 ^ m) rb = Some (True, rb')" "rb_inv rb'" "rb_contents rb' = rb_contents rb"
      "length (rb_buf rb') = 2 ^ m" "rb_maxSize rb' = rb_maxSize rb"
      using grow_to_facts[OF inv m62] cap(3) um by auto
    have "Grow (int n) rb = Some (True, rb')" using nf gl c g(1) m(1) by (simp add: Grow_def)
    moreover have "\<not> grow_capped n rb \<longrightarrow> rb_used rb + n \<le> length (rb_buf rb')"
      using cap g(4) um by (auto simp: grow_capped_def)
    ultimately show ?thesis using g cap um by auto
  next
    case full
    have c: "rb_maxSize rb > 0 \<and> (2 ^ b :: u64) > rb_maxSize rb" "\<not> rb_maxSize rb > rb_size rb"
      using full b62 rb_len_bounds(5)[OF inv] by (auto simp: word_less_nat_alt unat_2p)
    have "Grow (int n) rb = Some (False, rb)" using nf gl c by (simp add: Grow_def)
    then show ?thesis using full inv False by (auto simp: grow_capped_def)
  qed
qed

section \<open>Writing\<close>

definition rb_put :: "byte list \<Rightarrow> ring_buffer \<Rightarrow> ring_buffer" where
  "rb_put p rb = rb\<lparr>rb_buf := ring_put (rb_buf rb) (unat (rb_write rb AND rb_mask rb)) p,
     rb_write := rb_write rb + of_nat (length p), rb_totalWrite := rb_totalWrite rb + of_nat (length p)\<rparr>"

text \<open>The copy of \<open>Write\<close> never panics, even for more bytes than fit.\<close>

lemma put_bytes_put:
  assumes inv: "rb_inv rb" and l: "length p \<le> 2 ^ 62"
  shows "put_bytes p rb = Some (rb_put p rb)"
proof -
  define w where "w = unat (rb_write rb AND rb_mask rb)"
  let ?c = "length (rb_buf rb)"
  have wc: "w < ?c" unfolding w_def by (rule masked_lt[OF inv])
  have e: "unat ((rb_write rb AND rb_mask rb) + of_nat (length p)) = w + length p"
    unfolding w_def by (rule masked_plus[OF inv l])
  have f: "sint (rb_size rb - (rb_write rb AND rb_mask rb)) = int (?c - w)"
    unfolding w_def by (rule masked_rest(2)[OF inv])
  have le: "(rb_write rb AND rb_mask rb) + of_nat (length p) \<le> rb_size rb \<longleftrightarrow> w + length p \<le> ?c"
    using e rb_len_bounds(5)[OF inv] by (simp add: word_le_nat_alt)
  have c: "length p \<le> ?c - w \<longleftrightarrow> w + length p \<le> ?c" using wc by linarith
  show ?thesis
  proof (cases "w + length p \<le> ?c")
    case True
    then have "ring_put (rb_buf rb) w p = go_copy (rb_buf rb) w p" by (simp only: ring_put_def c if_True)
    then show ?thesis using True wc le
      by (simp add: put_bytes_def rb_put_def Let_def flip: w_def)
  next
    case False
    then have "ring_put (rb_buf rb) w p = go_copy (go_copy (rb_buf rb) w (take (?c - w) p)) 0 (drop (?c - w) p)"
      by (simp only: ring_put_def c if_False)
    moreover have "go_slice p 0 (int (?c - w)) = Some (take (?c - w) p)"
      using False wc by (intro go_slice_prefix) linarith
    moreover have "go_slice p (int (?c - w)) (int (length p)) = Some (drop (?c - w) p)"
      using False wc by (subst go_slice_nat) auto
    ultimately show ?thesis using False wc le f
      by (simp add: put_bytes_def rb_put_def Let_def flip: w_def)
  qed
qed

lemma rb_put_fields:
  assumes inv: "rb_inv rb" and l: "rb_used rb + length p \<le> 2 ^ 62"
  shows "rb_used (rb_put p rb) = rb_used rb + length p" "length (rb_buf (rb_put p rb)) = length (rb_buf rb)"
    "rb_size (rb_put p rb) = rb_size rb" "rb_mask (rb_put p rb) = rb_mask rb"
    "rb_maxSize (rb_put p rb) = rb_maxSize rb" "rb_read (rb_put p rb) = rb_read rb"
proof -
  have e: "rb_write rb + of_nat (length p) - rb_read rb = (rb_write rb - rb_read rb) + of_nat (length p)" by simp
  have "unat ((rb_write rb - rb_read rb) + of_nat (length p)) = rb_used rb + length p"
    using l unfolding rb_used_def by (intro unat_plus_small) simp
  then show "rb_used (rb_put p rb) = rb_used rb + length p"
    unfolding rb_used_def[of "rb_put p rb"] by (simp add: rb_put_def e)
  show "length (rb_buf (rb_put p rb)) = length (rb_buf rb)"
    using masked_lt[OF inv, of "rb_write rb"] by (simp add: rb_put_def)
qed (simp_all add: rb_put_def)

lemma rb_put_facts:
  assumes inv: "rb_inv rb" and l: "rb_used rb + length p \<le> length (rb_buf rb)"
  shows "rb_inv (rb_put p rb)" "rb_contents (rb_put p rb) = rb_contents rb @ p"
proof -
  have l62: "rb_used rb + length p \<le> 2 ^ 62" using l rb_len_bounds(2)[OF inv] by linarith
  note f = rb_put_fields[OF inv l62]
  show "rb_inv (rb_put p rb)" using inv l unfolding rb_inv_def f by simp
  have b: "rb_buf (rb_put p rb) = ring_put (rb_buf rb) ((unat (rb_read rb) + rb_used rb) mod length (rb_buf rb)) p"
    using unat_masked_write[OF inv] by (simp add: rb_put_def)
  show "rb_contents (rb_put p rb) = rb_contents rb @ p"
    using l rb_len_bounds(1)[OF inv] unfolding rb_contents_def f(1,6) b by (intro ring_view_put)
qed

lemma i64_int_free: "rb_inv rb \<Longrightarrow> RFree rb = int (length (rb_buf rb) - rb_used rb)"
  using rb_len_bounds(3)[of rb] by (simp add: RFree_eq)

text \<open>\<open>RWrite\<close> without the capped growth: the accepted prefix is appended.\<close>

lemma RWrite_facts:
  assumes inv: "rb_inv rb" and l: "rb_used rb + length p \<le> 2 ^ 62" and nc: "\<not> grow_capped (length p) rb"
  shows "\<exists>k rb'. RWrite p rb = Some ((k, if k = length p then None
             else if k = 0 then Some ErrBufferFull else Some ErrShortWrite), rb')
     \<and> k \<le> length p \<and> rb_inv rb' \<and> rb_contents rb' = rb_contents rb @ take k p
     \<and> rb_maxSize rb' = rb_maxSize rb \<and> length (rb_buf rb) \<le> length (rb_buf rb')
     \<and> (k < length p \<longrightarrow> rb_used rb' = length (rb_buf rb') \<and> rb_maxSize rb > 0
           \<and> unat (rb_maxSize rb) \<le> length (rb_buf rb'))"
proof -
  have ln: "length p \<le> 2 ^ 62" using l by linarith
  consider (nil) "p = []" | (fits) "p \<noteq> []" "rb_used rb + length p \<le> length (rb_buf rb)"
    | (grow) "p \<noteq> []" "length (rb_buf rb) < rb_used rb + length p" by linarith
  then show ?thesis
  proof cases
    case nil
    then show ?thesis using inv by (auto simp: RWrite_def)
  next
    case fits
    then have "\<not> RFree rb < int (length p)" by (simp add: RFree_eq[OF inv])
    then have "RWrite p rb = Some ((length p, None), rb_put p rb)"
      using fits put_bytes_put[OF inv ln] by (simp add: RWrite_def)
    then show ?thesis using rb_put_facts[OF inv fits(2)] rb_put_fields[OF inv l] by auto
  next
    case grow
    have free: "RFree rb < int (length p)" using grow by (simp add: RFree_eq[OF inv])
    obtain ok rb1 where g: "Grow (int (length p)) rb = Some (ok, rb1)" "rb_inv rb1"
      "rb_contents rb1 = rb_contents rb" "rb_maxSize rb1 = rb_maxSize rb"
      "ok \<longleftrightarrow> rb_used rb + length p \<le> length (rb_buf rb) \<or> rb_maxSize rb = 0 \<or> length (rb_buf rb) < unat (rb_maxSize rb)"
      "\<not> ok \<longrightarrow> rb1 = rb" "ok \<longrightarrow> rb_used rb + length p \<le> length (rb_buf rb1)" "length (rb_buf rb) \<le> length (rb_buf rb1)"
      using Grow_facts[OF inv l] nc by auto
    have used: "rb_used rb1 = rb_used rb" using arg_cong[OF g(3), of length] by simp
    show ?thesis
    proof (cases ok)
      case True
      then have "RWrite p rb = Some ((length p, None), rb_put p rb1)"
        using grow free g(1) put_bytes_put[OF g(2) ln] by (simp add: RWrite_def)
      moreover have "rb_used rb1 + length p \<le> length (rb_buf rb1)" using True g(7) used by simp
      note p = rb_put_facts[OF g(2) this]
      ultimately show ?thesis using g(3,4,8) p rb_put_fields[OF g(2)] l used by auto
    next
      case False
      then have r: "rb1 = rb" "rb_maxSize rb > 0" "unat (rb_maxSize rb) \<le> length (rb_buf rb)"
        using g(5,6) by (auto simp: word_gt_0)
      define k where "k = length (rb_buf rb) - rb_used rb"
      have kf: "RFree rb = int k" unfolding k_def by (rule i64_int_free[OF inv])
      have kp: "k < length p" "rb_used rb + k = length (rb_buf rb)"
        using grow rb_len_bounds(3)[OF inv] by (auto simp: k_def)
      show ?thesis
      proof (cases "k = 0")
        case True
        have "RWrite p rb = Some ((0, Some ErrBufferFull), rb)"
          using grow free g(1) False r(1) True kf by (simp add: RWrite_def)
        then show ?thesis using True grow inv r kp by auto
      next
        case k0: False
        have lt: "length (take k p) \<le> 2 ^ 62" using ln by simp
        have "go_slice p 0 (RFree rb) = Some (take k p)" using kf kp by (simp add: go_slice_prefix)
        then have "RWrite p rb = Some ((k, Some ErrShortWrite), rb_put (take k p) rb)"
          using grow free g(1) False r(1) k0 kf kp put_bytes_put[OF inv lt] by (simp add: RWrite_def)
        moreover have "rb_used rb + length (take k p) \<le> length (rb_buf rb)" using kp by simp
        note p = rb_put_facts[OF inv this]
        moreover have "rb_used rb + length (take k p) \<le> 2 ^ 62" using l kp by simp
        note rb_put_fields[OF inv this]
        ultimately show ?thesis using k0 kp r(2,3) by auto
      qed
    qed
  qed
qed

text \<open>With the capped growth, everything is written over a ring that cannot hold it.\<close>

lemma RWrite_capped:
  assumes inv: "rb_inv rb" and l: "rb_used rb + length p \<le> 2 ^ 62" and c: "grow_capped (length p) rb"
  shows "\<exists>rb'. RWrite p rb = Some ((length p, None), rb') \<and> rb_used rb' = rb_used rb + length p
     \<and> rb_size rb' = rb_maxSize rb \<and> length (rb_buf rb') = unat (rb_maxSize rb)
     \<and> length (rb_buf rb') < rb_used rb' \<and> \<not> rb_inv rb'"
proof -
  have ln: "length p \<le> 2 ^ 62" using l by linarith
  have grow: "p \<noteq> []" "length (rb_buf rb) < rb_used rb + length p"
    using c rb_len_bounds(3)[OF inv] by (auto simp: grow_capped_def)
  have free: "RFree rb < int (length p)" using grow by (simp add: RFree_eq[OF inv])
  obtain rb1 where g: "Grow (int (length p)) rb = Some (True, rb1)" "rb_inv rb1"
    "rb_contents rb1 = rb_contents rb" "length (rb_buf rb1) = unat (rb_maxSize rb)"
    using Grow_facts[OF inv l] c by (auto simp: grow_capped_def)
  have used: "rb_used rb1 = rb_used rb" using arg_cong[OF g(3), of length] by simp
  have "RWrite p rb = Some ((length p, None), rb_put p rb1)"
    using grow free g(1) put_bytes_put[OF g(2) ln] by (simp add: RWrite_def)
  moreover have "rb_used rb1 + length p \<le> 2 ^ 62" using l used by simp
  note f = rb_put_fields[OF g(2) this]
  have big: "length (rb_buf (rb_put p rb1)) < rb_used (rb_put p rb1)"
    using c f(1,2) g(4) used by (simp add: grow_capped_def)
  moreover have "rb_size rb1 = rb_maxSize rb"
    using rb_len_bounds(5)[OF g(2)] g(4) by (simp add: word_unat_eq_iff)
  ultimately show ?thesis using f(1,2,3) g(4) used by (auto simp: rb_inv_def)
qed

section \<open>Reading from a connection into the ring\<close>

text \<open>
  The documented contract of \<open>io.Reader\<close> with the bytes it still has to deliver
  (\<open>rest\<close>) made explicit: a read stores a prefix of them, at most as many as asked for.
\<close>

definition reader_stream :: "'r reader \<Rightarrow> ('r \<Rightarrow> byte list) \<Rightarrow> bool" where
  "reader_stream rd rest \<longleftrightarrow> (\<forall>r n bs err r'. rd r n = ((bs, err), r') \<longrightarrow>
     length bs \<le> n \<and> rest r = bs @ rest r')"

lemma read_into_facts:
  assumes inv: "rb_inv rb" and rd: "reader_stream rd rest" and fr: "rb_used rb + free \<le> length (rb_buf rb)"
  shows "\<exists>bs err r'. read_into rd (int free) r rb =
       Some ((bs, ring_put (rb_buf rb) (unat (rb_write rb AND rb_mask rb)) bs, err), r')
     \<and> length bs \<le> free \<and> rest r = bs @ rest r'"
proof -
  define w where "w = unat (rb_write rb AND rb_mask rb)"
  let ?c = "length (rb_buf rb)"
  have wc: "w < ?c" unfolding w_def by (rule masked_lt[OF inv])
  have l: "free \<le> 2 ^ 62" using fr rb_len_bounds(2)[OF inv] by linarith
  have e: "unat ((rb_write rb AND rb_mask rb) + of_nat free) = w + free"
    unfolding w_def by (rule masked_plus[OF inv l])
  have f: "sint (rb_size rb - (rb_write rb AND rb_mask rb)) = int (?c - w)"
    unfolding w_def by (rule masked_rest(2)[OF inv])
  have le: "(rb_write rb AND rb_mask rb) + of_nat free \<le> rb_size rb \<longleftrightarrow> w + free \<le> ?c"
    using e rb_len_bounds(5)[OF inv] by (simp add: word_le_nat_alt)
  have rdD: "rd s n = ((bs, err), s') \<Longrightarrow> length bs \<le> n \<and> rest s = bs @ rest s'" for s n bs err s'
    using rd unfolding reader_stream_def by blast
  show ?thesis
  proof (cases "w + free \<le> ?c")
    case True
    obtain bs err r' where r: "rd r free = ((bs, err), r')" by (metis surj_pair)
    have sl: "go_slice (rb_buf rb) (uint (rb_write rb AND rb_mask rb)) (uint ((rb_write rb AND rb_mask rb) + of_nat free))
        = Some (take free (drop w (rb_buf rb)))"
      using True e by (subst go_slice_word) (auto simp flip: w_def)
    have len: "length (take free (drop w (rb_buf rb))) = free" using True by simp
    have "length bs \<le> ?c - w" using True rdD[OF r] by linarith
    then have "ring_put (rb_buf rb) w bs = go_copy (rb_buf rb) w bs" by (simp add: ring_put_def)
    then show ?thesis using True sl le rdD[OF r] r len
      by (simp add: read_into_def Let_def flip: w_def)
  next
    case False
    let ?d = "?c - w"
    obtain b1 e1 r1 where r1: "rd r ?d = ((b1, e1), r1)" by (metis surj_pair)
    note d1 = rdD[OF r1]
    have sl: "go_slice (rb_buf rb) (uint (rb_write rb AND rb_mask rb)) (uint (rb_size rb)) = Some (drop w (rb_buf rb))"
      using wc rb_len_bounds(5)[OF inv] by (subst go_slice_word) (auto simp flip: w_def)
    have p1: "ring_put (rb_buf rb) w b1 = go_copy (rb_buf rb) w b1"
      using d1 unfolding ring_put_def by simp
    show ?thesis
    proof (cases "length b1 = ?d \<and> e1 = None")
      case no: False
      then show ?thesis using False sl le f r1 d1 p1
        by (auto simp: read_into_def Let_def simp flip: w_def)
    next
      case full: True
      obtain b2 e2 r2 where r2: "rd r1 (free - ?d) = ((b2, e2), r2)" by (metis surj_pair)
      note d2 = rdD[OF r2]
      have ix: "i64 (int free - int ?d) = int (free - ?d)" using False wc l by simp
      have sl2: "go_slice (go_copy (rb_buf rb) w b1) 0 (int (free - ?d)) = Some (take (free - ?d) (go_copy (rb_buf rb) w b1))"
        using wc fr by (intro go_slice_prefix) simp
      have len: "length (take (free - ?d) (go_copy (rb_buf rb) w b1)) = free - ?d"
        using wc fr by simp
      have "ring_put (rb_buf rb) w (b1 @ b2) = go_copy (go_copy (rb_buf rb) w b1) 0 b2"
        using full by (cases b2) (auto simp: ring_put_def go_copy_def)
      moreover have "int ?d < int free" using False wc by simp
      moreover have "length (b1 @ b2) \<le> free" using full d2 False wc unfolding length_append by linarith
      ultimately show ?thesis using False full sl le r1 d1 r2 d2 sl2 len wc
        by (simp add: read_into_def Let_def f ix del: of_nat_diff flip: w_def)
    qed
  qed
qed

text \<open>Whatever the outcome, the ring followed by what the connection still holds is unchanged.\<close>

lemma WriteFromReader_facts:
  assumes inv: "rb_inv rb" and rd: "reader_stream rd rest" and l: "rb_used rb + 4096 \<le> 2 ^ 62"
  shows "\<exists>n err r' rb'. WriteFromReader rd mx r rb = Some ((n, err), r', rb') \<and> rb_inv rb'
     \<and> rb_contents rb' @ rest r' = rb_contents rb @ rest r \<and> rb_used rb' = rb_used rb + n
     \<and> (mx > 0 \<longrightarrow> int n \<le> mx) \<and> rb_maxSize rb' = rb_maxSize rb \<and> (n > 0 \<longrightarrow> err \<noteq> Some EOF)"
proof -
  have "\<exists>ok rb1. (if IsFull rb then Grow 4096 rb else Some (True, rb)) = Some (ok, rb1) \<and> rb_inv rb1
     \<and> rb_contents rb1 = rb_contents rb \<and> rb_maxSize rb1 = rb_maxSize rb"
    using Grow_facts[OF inv l] inv by auto
  then obtain ok rb1 where g: "(if IsFull rb then Grow 4096 rb else Some (True, rb)) = Some (ok, rb1)" "rb_inv rb1"
     "rb_contents rb1 = rb_contents rb" "rb_maxSize rb1 = rb_maxSize rb" by blast
  have used: "rb_used rb1 = rb_used rb" using arg_cong[OF g(3), of length] by simp
  show ?thesis
  proof (cases ok)
    case False
    then show ?thesis using g used by (simp add: WriteFromReader_def)
  next
    case True
    define free where "free = nat (if mx > 0 \<and> mx < RFree rb1 then mx else RFree rb1)"
    have fi: "(if mx > 0 \<and> mx < RFree rb1 then mx else RFree rb1) = int free"
      using rb_len_bounds(3)[OF g(2)] by (auto simp: free_def i64_int_free[OF g(2)])
    have fr: "rb_used rb1 + free \<le> length (rb_buf rb1)"
      using rb_len_bounds(3)[OF g(2)] by (auto simp: free_def i64_int_free[OF g(2)])
    have fm: "mx > 0 \<Longrightarrow> int free \<le> mx" by (auto simp: free_def)
    obtain bs err r' where r: "read_into rd (int free) r rb1 =
        Some ((bs, ring_put (rb_buf rb1) (unat (rb_write rb1 AND rb_mask rb1)) bs, err), r')"
      "length bs \<le> free" "rest r = bs @ rest r'" using read_into_facts[OF g(2) rd fr] by blast
    define rb' where "rb' = (if length bs > 0
       then rb1\<lparr>rb_buf := ring_put (rb_buf rb1) (unat (rb_write rb1 AND rb_mask rb1)) bs,
                rb_write := rb_write rb1 + of_nat (length bs),
                rb_totalWrite := rb_totalWrite rb1 + of_nat (length bs)\<rparr>
       else rb1\<lparr>rb_buf := ring_put (rb_buf rb1) (unat (rb_write rb1 AND rb_mask rb1)) bs\<rparr>)"
    have put: "rb' = rb_put bs rb1" by (auto simp: rb'_def rb_put_def)
    have W: "WriteFromReader rd mx r rb = Some ((length bs, if length bs > 0 \<and> err = Some EOF then None else err), r', rb')"
      using True g(1) r(1) fi by (simp add: WriteFromReader_def Let_def rb'_def)
    have fit: "rb_used rb1 + length bs \<le> length (rb_buf rb1)" using fr r(2) by linarith
    have "rb_used rb1 + length bs \<le> 2 ^ 62" using fit rb_len_bounds(2)[OF g(2)] by linarith
    from rb_put_facts[OF g(2) fit] rb_put_fields[OF g(2) this] show ?thesis
      using W r(2,3) g(3,4) used fm unfolding put by auto
  qed
qed

section \<open>Construction, limits and the pool\<close>

lemma nextPowerOfTwo64_facts:
  assumes "n \<le> 2 ^ 63"
  shows "\<exists>k\<le>63. nextPowerOfTwo64 (of_nat n) = 2 ^ k \<and> is_ceil_pow2 n (2 ^ k)"
proof -
  have un: "unat (of_nat n :: u64) = n" using assms by (simp add: unat_of_nat)
  show ?thesis
  proof (cases "n \<le> 1")
    case True
    then have "nextPowerOfTwo64 (of_nat n) = 2 ^ 0" by (simp add: nextPowerOfTwo64_def word_le_nat_alt un)
    then show ?thesis using is_ceil_pow2_1[OF True] by (intro exI[of _ 0]) simp
  next
    case False
    then have c: "is_ceil_pow2 n (smear64 (n - 1) + 1)" using assms by (intro smear64_ceil_pow2) auto
    then obtain k where k: "smear64 (n - 1) + 1 = (2::nat) ^ k" by (auto simp: is_ceil_pow2_def)
    have "(2::nat) ^ k \<le> 2 ^ 63" using is_ceil_pow2_le[OF c assms] k by simp
    then have k63: "k \<le> 63" by (rule power_le_imp_le_exp[rotated]) simp
    have "unat (of_nat n - 1 :: u64) = n - 1" using False un by (subst unat_sub) (auto simp: word_le_nat_alt)
    then have s: "unat (smear64 (of_nat n - 1 :: u64)) = smear64 (n - 1)" by (simp only: unat_smear64)
    have "unat (smear64 (of_nat n - 1 :: u64)) + 1 = 2 ^ k" using s k by simp
    then have "unat (smear64 (of_nat n - 1 :: u64) + 1) = 2 ^ k"
      using k63 unat_plus_small[of "smear64 (of_nat n - 1 :: u64)" 1] power_increasing[of k 63 "2::nat"] by simp
    then have "smear64 (of_nat n - 1 :: u64) + 1 = 2 ^ k" using k63 by (simp add: word_unat_eq_iff unat_2p)
    then have "nextPowerOfTwo64 (of_nat n) = 2 ^ k"
      using False by (simp add: nextPowerOfTwo64_def word_le_nat_alt un)
    then show ?thesis using c k k63 by auto
  qed
qed

lemma normalizeRingBufferMaxSize_facts:
  assumes "mx \<le> 2 ^ 63"
  shows "if mx \<le> 0 then normalizeRingBufferMaxSize mx = 0
    else \<exists>k\<le>63. normalizeRingBufferMaxSize mx = 2 ^ k \<and> is_ceil_pow2 (nat mx) (2 ^ k)"
proof (cases "mx \<le> 0")
  case False
  then have "nat mx \<le> 2 ^ 63" "word_of_int mx = (of_nat (nat mx) :: u64)" using assms by auto
  then show ?thesis using False nextPowerOfTwo64_facts[of "nat mx"] by (simp add: normalizeRingBufferMaxSize_def)
qed (simp add: normalizeRingBufferMaxSize_def)

lemma is_ceil_pow2_le_62: "is_ceil_pow2 n (2 ^ k) \<Longrightarrow> n \<le> 2 ^ 62 \<Longrightarrow> k \<le> 62"
  using is_ceil_pow2_le[of n "2 ^ k" 62] power_le_imp_le_exp[of "2::nat" k 62] by simp

lemma SetMaxSize_facts:
  assumes "rb_inv rb" "mx \<le> 2 ^ 63"
  shows "rb_inv (SetMaxSize mx rb)" "rb_contents (SetMaxSize mx rb) = rb_contents rb"
    "rb_buf (SetMaxSize mx rb) = rb_buf rb" "rb_used (SetMaxSize mx rb) = rb_used rb"
proof -
  show "rb_used (SetMaxSize mx rb) = rb_used rb" by (simp add: SetMaxSize_def rb_used_def)
  then show "rb_inv (SetMaxSize mx rb)" "rb_contents (SetMaxSize mx rb) = rb_contents rb"
    using assms normalizeRingBufferMaxSize_facts[OF assms(2)]
    unfolding rb_inv_def rb_contents_def by (auto simp: SetMaxSize_def split: if_splits)
qed (simp add: SetMaxSize_def)

lemma NewRingBuffer_facts:
  assumes "0 \<le> cfgSize" "cfgSize \<le> 2 ^ 62" "cfgMax \<le> 2 ^ 63"
  shows "rb_inv (NewRingBuffer cfgSize cfgMax)" "rb_contents (NewRingBuffer cfgSize cfgMax) = []"
    "is_ceil_pow2 (nat cfgSize) (length (rb_buf (NewRingBuffer cfgSize cfgMax)))"
    "rb_maxSize (NewRingBuffer cfgSize cfgMax) = normalizeRingBufferMaxSize cfgMax"
proof -
  have n: "nat cfgSize \<le> 2 ^ 62" "word_of_int cfgSize = (of_nat (nat cfgSize) :: u64)" using assms by auto
  obtain k where k: "nextPowerOfTwo64 (of_nat (nat cfgSize)) = 2 ^ k" "is_ceil_pow2 (nat cfgSize) (2 ^ k)"
    using nextPowerOfTwo64_facts[of "nat cfgSize"] n by auto
  have k62: "k \<le> 62" using is_ceil_pow2_le_62[OF k(2) n(1)] .
  show m: "rb_maxSize (NewRingBuffer cfgSize cfgMax) = normalizeRingBufferMaxSize cfgMax"
    by (simp add: NewRingBuffer_def normalizeRingBufferMaxSize_def Let_def)
  have u: "rb_used (NewRingBuffer cfgSize cfgMax) = 0" by (simp add: NewRingBuffer_def rb_used_def Let_def)
  show "rb_contents (NewRingBuffer cfgSize cfgMax) = []" by (simp add: rb_contents_def u)
  have f: "rb_size (NewRingBuffer cfgSize cfgMax) = 2 ^ k" "rb_mask (NewRingBuffer cfgSize cfgMax) = 2 ^ k - 1"
    "length (rb_buf (NewRingBuffer cfgSize cfgMax)) = 2 ^ k"
    using k k62 n by (simp_all add: NewRingBuffer_def Let_def unat_2p)
  show "is_ceil_pow2 (nat cfgSize) (length (rb_buf (NewRingBuffer cfgSize cfgMax)))" using k f by simp
  show "rb_inv (NewRingBuffer cfgSize cfgMax)"
    using normalizeRingBufferMaxSize_facts[OF assms(3)] k62 unfolding rb_inv_def u f m
    by (auto simp: unat_2p split: if_splits)
qed

lemma RReset_facts:
  assumes "rb_inv rb"
  shows "rb_inv (RReset rb)" "rb_contents (RReset rb) = []" "rb_buf (RReset rb) = replicate (length (rb_buf rb)) 0"
    "rb_size (RReset rb) = rb_size rb" "rb_maxSize (RReset rb) = rb_maxSize rb"
proof -
  have u: "rb_used (RReset rb) = 0" by (simp add: RReset_def rb_used_def)
  show b: "rb_buf (RReset rb) = replicate (length (rb_buf rb)) 0" by (simp add: RReset_def go_clear_def)
  show s: "rb_size (RReset rb) = rb_size rb" "rb_maxSize (RReset rb) = rb_maxSize rb" by (simp_all add: RReset_def)
  have m: "rb_mask (RReset rb) = rb_mask rb" by (simp add: RReset_def)
  show "rb_inv (RReset rb)" using assms unfolding rb_inv_def u b s m by simp
  show "rb_contents (RReset rb) = []" by (simp add: rb_contents_def u)
qed

lemma RingBufferMaxSizeForSocket_range:
  assumes "MaxDataLength cfg < 2 ^ 62"
  shows "0 < RingBufferMaxSizeForSocket cfg" "RingBufferMaxSizeForSocket cfg \<le> 2 ^ 63"
  using assms
  by (auto simp: RingBufferMaxSizeForSocket_def Let_def headerSizeV0_def headerSizeV1_def DefaultMaxDataLength_def)

lemma effectivePooledRingMaxSize_facts:
  "effectivePooledRingMaxSize m = 0 \<or> (\<exists>k\<le>63. effectivePooledRingMaxSize m = 2 ^ k)"
proof -
  have "sint m \<le> 2 ^ 63" using sint_lt[of m] by simp
  moreover have "RingBufferMaxSizeForSocket DefaultSocketConfig \<le> 2 ^ 63"
    by (simp add: RingBufferMaxSizeForSocket_def DefaultSocketConfig_def DefaultMaxDataLength_def headerSizeV0_def)
  ultimately show ?thesis
    using normalizeRingBufferMaxSize_facts[of "sint m"]
      normalizeRingBufferMaxSize_facts[of "RingBufferMaxSizeForSocket DefaultSocketConfig"]
    unfolding effectivePooledRingMaxSize_def by (auto split: if_splits)
qed

lemma GetRingBuffer_facts:
  assumes "rb_inv rb"
  shows "rb_inv (GetRingBuffer m rb)" "rb_contents (GetRingBuffer m rb) = []" "rb_buf (GetRingBuffer m rb) = replicate (length (rb_buf rb)) 0"
proof -
  have e: "rb_inv (r\<lparr>rb_maxSize := x\<rparr>) = (rb_inv r \<and> (x = 0 \<or> (\<exists>k\<le>63. x = 2 ^ k)))"
    if "rb_inv r" for r x using that unfolding rb_inv_def by (auto simp: rb_used_def)
  show "rb_inv (GetRingBuffer m rb)"
    using e[OF RReset_facts(1)[OF assms]] effectivePooledRingMaxSize_facts[of m] RReset_facts(1)[OF assms]
    by (simp add: GetRingBuffer_def)
  show "rb_contents (GetRingBuffer m rb) = []"
    using RReset_facts(2)[OF assms] by (simp add: GetRingBuffer_def rb_contents_def rb_used_def)
  show "rb_buf (GetRingBuffer m rb) = replicate (length (rb_buf rb)) 0"
    using RReset_facts(3)[OF assms] by (simp add: GetRingBuffer_def)
qed

lemma GetRingBufferForSocket_facts:
  assumes "rb_inv rb" "MaxDataLength cfg < 2 ^ 62"
  shows "rb_inv (GetRingBufferForSocket cfg m rb)" "rb_contents (GetRingBufferForSocket cfg m rb) = []"
    "is_ceil_pow2 (nat (RingBufferMaxSizeForSocket cfg)) (unat (rb_maxSize (GetRingBufferForSocket cfg m rb)))"
proof -
  note r = RingBufferMaxSizeForSocket_range[OF assms(2)]
  note s = SetMaxSize_facts[OF GetRingBuffer_facts(1)[OF assms(1)] r(2)]
  show "rb_inv (GetRingBufferForSocket cfg m rb)" "rb_contents (GetRingBufferForSocket cfg m rb) = []"
    using s GetRingBuffer_facts(2)[OF assms(1)] by (simp_all add: GetRingBufferForSocket_def)
  show "is_ceil_pow2 (nat (RingBufferMaxSizeForSocket cfg)) (unat (rb_maxSize (GetRingBufferForSocket cfg m rb)))"
    using normalizeRingBufferMaxSize_facts[OF r(2)] r(1)
    by (auto simp: GetRingBufferForSocket_def SetMaxSize_def unat_2p)
qed

text \<open>A ring returned to the pool is empty, zeroed and of the pool's size.\<close>

lemma PutRingBuffer_facts:
  assumes "\<And>rb. rbo = Some rb \<Longrightarrow> rb_inv rb" "PutRingBuffer rbo = Some rb'"
  shows "rb_inv rb'" "rb_contents rb' = []" "rb_buf rb' = replicate 4096 0"
proof -
  obtain rb where rb: "rbo = Some rb" "rb_size rb = 4096" "rb' = RReset rb"
    using assms(2) by (auto simp: PutRingBuffer_def defaultRingBufferSize_def split: option.splits if_splits)
  note inv = assms(1)[OF rb(1)]
  have "length (rb_buf rb) = 4096" using rb_len_bounds(5)[OF inv] rb(2) by simp
  then show "rb_inv rb'" "rb_contents rb' = []" "rb_buf rb' = replicate 4096 0"
    using RReset_facts[OF inv] rb(3) by auto
qed

section \<open>Checked peeks\<close>

lemma PeekByte_facts:
  assumes inv: "rb_inv rb" and r: "int off + 1 < 2 ^ 63"
  shows "PeekByte (int off) rb =
    (if rb_used rb < off + 1 then Some (0, Some ErrInsufficientData) else Some (rb_contents rb ! off, None))"
proof -
  have "int (rb_used rb) < int off + 1 \<longleftrightarrow> rb_used rb < off + 1" by linarith
  then show ?thesis using r go_index_contents[OF inv, of off] by (simp add: PeekByte_def RLen_eq[OF inv])
qed

lemma PeekHeader12Checked_facts:
  assumes inv: "rb_inv rb" and r: "int off + 12 < 2 ^ 63"
  shows "PeekHeader12Checked (int off) rb =
    (if rb_used rb < off + 12 then Some (0, 0, 0, Some ErrInsufficientData)
     else Some (be32 (take 4 (drop off (rb_contents rb))), be32 (take 4 (drop (off + 4) (rb_contents rb))),
          be32 (take 4 (drop (off + 8) (rb_contents rb))), None))"
proof -
  have "int (rb_used rb) < int off + 12 \<longleftrightarrow> rb_used rb < off + 12" by linarith
  then show ?thesis using r PeekHeader12_facts[OF inv, of off] by (simp add: PeekHeader12Checked_def RLen_eq[OF inv])
qed

section \<open>Sequences of calls\<close>

text \<open>
  The calls a connection makes on its ring, with the bytes each accepted and the bytes
  each delivered. \<open>TakeOp n\<close> is the parser's \<open>PeekBytes(0, n)\<close> followed by \<open>Discard(n)\<close>.
\<close>

datatype ring_op = WriteOp "byte list" | ReadOp nat | ReadFullOp nat | ReadByteOp | TakeOp nat

fun ring_step :: "ring_op \<Rightarrow> ring_buffer \<Rightarrow> (byte list \<times> byte list \<times> ring_buffer) option" where
  "ring_step (WriteOp p) rb = do { ((k, _), rb') \<leftarrow> RWrite p rb; Some (take k p, [], rb') }"
| "ring_step (ReadOp n) rb = do { ((bs, _), rb') \<leftarrow> RRead n rb; Some ([], bs, rb') }"
| "ring_step (ReadFullOp n) rb = do { ((bs, _), rb') \<leftarrow> ReadFull n rb; Some ([], bs, rb') }"
| "ring_step ReadByteOp rb = do {
     ((b, err), rb') \<leftarrow> RReadByte rb; Some ([], if err = None then [b] else [], rb') }"
| "ring_step (TakeOp n) rb = do {
     (bs, err) \<leftarrow> PeekBytes 0 (int n) rb;
     case bs of None \<Rightarrow> Some ([], [], rb) | Some xs \<Rightarrow> Some ([], xs, snd (Discard (int n) rb)) }"

fun ring_run :: "ring_op list \<Rightarrow> ring_buffer \<Rightarrow> (byte list \<times> byte list \<times> ring_buffer) option" where
  "ring_run [] rb = Some ([], [], rb)"
| "ring_run (op # ops) rb = do {
     (a, d, rb1) \<leftarrow> ring_step op rb; (a', d', rb2) \<leftarrow> ring_run ops rb1; Some (a @ a', d @ d', rb2) }"

fun op_bytes :: "ring_op \<Rightarrow> nat" where
  "op_bytes (WriteOp p) = length p"
| "op_bytes (ReadOp n) = 0"
| "op_bytes (ReadFullOp n) = 0"
| "op_bytes ReadByteOp = 0"
| "op_bytes (TakeOp n) = 0"

fun op_arg_ok :: "ring_op \<Rightarrow> bool" where
  "op_arg_ok (TakeOp n) = (n < 2 ^ 63)"
| "op_arg_ok _ = True"

text \<open>No write of the sequence can be cut short by the limit after a growth.\<close>

definition ring_roomy :: "nat \<Rightarrow> ring_buffer \<Rightarrow> bool" where
  "ring_roomy tot rb \<longleftrightarrow> rb_maxSize rb = 0 \<or> unat (rb_maxSize rb) \<le> length (rb_buf rb)
     \<or> rb_used rb + tot \<le> unat (rb_maxSize rb)"

lemma rb_used_contents: "rb_used rb = length (rb_contents rb)" by simp

lemma advance_read_same [simp]:
  "rb_buf (advance_read n rb) = rb_buf rb" "rb_maxSize (advance_read n rb) = rb_maxSize rb"
  by (simp_all add: advance_read_def)

lemma RRead_same: "RRead n rb = Some (r, rb') \<Longrightarrow> rb_buf rb' = rb_buf rb \<and> rb_maxSize rb' = rb_maxSize rb"
  by (auto simp: RRead_def Let_def bind_eq_Some_conv split: if_splits)

lemma Grow_grows: "Grow n rb = Some (ok, rb') \<Longrightarrow> rb_inv rb \<Longrightarrow> rb_inv rb' \<Longrightarrow> length (rb_buf rb) \<le> length (rb_buf rb')"
  using rb_len_bounds(5)[of rb] rb_len_bounds(5)[of rb']
  by (auto simp: Grow_def grow_to_def Let_def bind_eq_Some_conv word_le_nat_alt split: if_splits)

lemma ring_step_law:
  assumes inv: "rb_inv rb" and tot: "rb_used rb + op_bytes op + rest \<le> 2 ^ 62"
    and roomy: "ring_roomy (op_bytes op + rest) rb" and ok: "op_arg_ok op"
  shows "\<exists>a d rb'. ring_step op rb = Some (a, d, rb') \<and> rb_inv rb' \<and> rb_contents rb @ a = d @ rb_contents rb'
    \<and> length a \<le> op_bytes op \<and> ring_roomy rest rb'"
proof (cases op)
  case (WriteOp p)
  have l: "rb_used rb + length p \<le> 2 ^ 62" and nc: "\<not> grow_capped (length p) rb"
    using tot roomy WriteOp by (auto simp: ring_roomy_def grow_capped_def)
  obtain k err rb' where w: "RWrite p rb = Some ((k, err), rb')" "k \<le> length p" "rb_inv rb'"
    "rb_contents rb' = rb_contents rb @ take k p" "rb_maxSize rb' = rb_maxSize rb"
    "length (rb_buf rb) \<le> length (rb_buf rb')"
    using RWrite_facts[OF inv l nc] by blast
  have "rb_used rb' = rb_used rb + k" using arg_cong[OF w(4), of length] w(2) by simp
  then have "ring_roomy rest rb'" using roomy w(2,5,6) WriteOp by (auto simp: ring_roomy_def)
  then show ?thesis using w WriteOp by auto
next
  case (ReadOp n)
  obtain e rb' where r: "RRead n rb = Some ((take n (rb_contents rb), e), rb')" "rb_inv rb'"
    "rb_contents rb' = drop n (rb_contents rb)" using RRead_facts[OF inv] by blast
  have "rb_used rb' \<le> rb_used rb" unfolding rb_used_contents r(3) by simp
  then have "ring_roomy rest rb'" using RRead_same[OF r(1)] roomy by (auto simp: ring_roomy_def)
  then show ?thesis using r ReadOp by auto
next
  case (ReadFullOp n)
  then show ?thesis using ReadFull_facts[OF inv, of n] advance_read_facts[OF inv, of n]
      rb_used_advance[OF inv, of n] roomy inv
    by (cases "rb_used rb < n") (auto simp: ring_roomy_def)
next
  case ReadByteOp
  show ?thesis
  proof (cases "rb_contents rb")
    case Nil
    then show ?thesis using RReadByte_facts[OF inv] ReadByteOp inv roomy by (auto simp: ring_roomy_def)
  next
    case (Cons b bs)
    then have "1 \<le> rb_used rb" unfolding rb_used_contents by simp
    then show ?thesis using Cons RReadByte_facts[OF inv] ReadByteOp roomy advance_read_facts[OF inv, of 1]
      rb_used_advance[OF inv, of 1] by (auto simp: ring_roomy_def)
  qed
next
  case (TakeOp n)
  then have n: "int 0 + int n < 2 ^ 63" using ok by simp
  show ?thesis
  proof (cases "rb_used rb < n")
    case True
    then show ?thesis using PeekBytes_facts[OF inv n] TakeOp inv roomy by (auto simp: ring_roomy_def)
  next
    case False
    then show ?thesis using PeekBytes_facts[OF inv n] TakeOp Discard_facts(2)[OF inv, of n]
      advance_read_facts[OF inv, of n] rb_used_advance[OF inv, of n] roomy
      by (auto simp: ring_roomy_def)
  qed
qed

lemma ring_run_law:
  "rb_inv rb \<Longrightarrow> rb_used rb + sum_list (map op_bytes ops) \<le> 2 ^ 62 \<Longrightarrow>
   ring_roomy (sum_list (map op_bytes ops)) rb \<Longrightarrow> list_all op_arg_ok ops \<Longrightarrow>
   \<exists>acc out rb'. ring_run ops rb = Some (acc, out, rb') \<and> rb_inv rb' \<and> rb_contents rb @ acc = out @ rb_contents rb'"
proof (induction ops arbitrary: rb)
  case Nil
  then show ?case by simp
next
  case (Cons op ops)
  have ok: "op_arg_ok op" "rb_used rb + op_bytes op + sum_list (map op_bytes ops) \<le> 2 ^ 62"
    "ring_roomy (op_bytes op + sum_list (map op_bytes ops)) rb" using Cons.prems by (auto simp: add.assoc)
  obtain a d rb1 where s: "ring_step op rb = Some (a, d, rb1)" "rb_inv rb1"
    "rb_contents rb @ a = d @ rb_contents rb1" "length a \<le> op_bytes op"
    "ring_roomy (sum_list (map op_bytes ops)) rb1"
    using ring_step_law[OF Cons.prems(1) ok(2,3,1)] by blast
  have "rb_used rb1 \<le> rb_used rb + op_bytes op" using arg_cong[OF s(3), of length] s(4) by simp
  then have "rb_used rb1 + sum_list (map op_bytes ops) \<le> 2 ^ 62" using ok(2) by linarith
  from Cons.IH[OF s(2) this s(5)] Cons.prems(4) obtain acc out rb' where
    "ring_run ops rb1 = Some (acc, out, rb')" "rb_inv rb'" "rb_contents rb1 @ acc = out @ rb_contents rb'" by auto
  then show ?case using s(1,3) by (auto simp flip: append_assoc) (simp add: append_assoc)
qed

section \<open>Properties\<close>

lemma ring_4_8:
  "rb_inv (NewRingBuffer 4 8)" "rb_contents (NewRingBuffer 4 8) = []" "rb_used (NewRingBuffer 4 8) = 0"
  "length (rb_buf (NewRingBuffer 4 8)) = 4" "rb_maxSize (NewRingBuffer 4 8) = 8"
proof -
  show "rb_inv (NewRingBuffer 4 8)" "rb_contents (NewRingBuffer 4 8) = []"
    by (rule NewRingBuffer_facts; simp)+
  show "rb_used (NewRingBuffer 4 8) = 0" by (simp add: NewRingBuffer_def rb_used_def Let_def)
  have "nextPowerOfTwo64 4 = 4" "nextPowerOfTwo64 8 = 8" by code_simp+
  then show "length (rb_buf (NewRingBuffer 4 8)) = 4" "rb_maxSize (NewRingBuffer 4 8) = 8"
    by (simp_all add: NewRingBuffer_def Let_def)
qed



text \<open>
  C13: What \<open>Write\<close> does when growth is not cut short by the limit: it appends a prefix of
  its argument and reports exactly that length; a short write happens only when the ring
  is full at its limit, is reported as \<open>ErrShortWrite\<close>, or as \<open>ErrBufferFull\<close> when nothing
  was written, and the ring never loses what it held.
\<close>

theorem ring_write_appends_prefix:
  assumes "rb_inv rb" "rb_used rb + length p \<le> 2 ^ 62" "\<not> grow_capped (length p) rb"
  shows "\<exists>k rb'. RWrite p rb = Some ((k, if k = length p then None
             else if k = 0 then Some ErrBufferFull else Some ErrShortWrite), rb')
     \<and> k \<le> length p \<and> rb_inv rb' \<and> rb_contents rb' = rb_contents rb @ take k p
     \<and> (k < length p \<longrightarrow> rb_used rb' = length (rb_buf rb') \<and> rb_maxSize rb > 0
           \<and> unat (rb_maxSize rb) \<le> length (rb_buf rb'))"
  using RWrite_facts[OF assms] by blast

theorem ring_write_appends_prefix_witness:
  "\<exists>k rb'. fst (the (RWrite [1, 2, 3, 4, 5, 6] (NewRingBuffer 4 8))) = (k, None)
     \<and> rb_contents rb' = [1, 2, 3, 4, 5, 6] \<and> RWrite [1, 2, 3, 4, 5, 6] (NewRingBuffer 4 8) = Some ((k, None), rb')"
proof -
  let ?p = "[1, 2, 3, 4, 5, 6] :: byte list"
  have "rb_used (NewRingBuffer 4 8) + length ?p \<le> 2 ^ 62" "\<not> grow_capped (length ?p) (NewRingBuffer 4 8)"
    by (simp_all add: ring_4_8 grow_capped_def)
  from ring_write_appends_prefix[OF ring_4_8(1) this] obtain k rb' where
    w: "RWrite ?p (NewRingBuffer 4 8) = Some ((k, if k = length ?p then None
             else if k = 0 then Some ErrBufferFull else Some ErrShortWrite), rb')"
    "k \<le> length ?p" "rb_inv rb'" "rb_contents rb' = rb_contents (NewRingBuffer 4 8) @ take k ?p"
    "k < length ?p \<longrightarrow> rb_used rb' = length (rb_buf rb') \<and> rb_maxSize (NewRingBuffer 4 8) > 0
           \<and> unat (rb_maxSize (NewRingBuffer 4 8)) \<le> length (rb_buf rb')" by blast
  have "\<not> k < length ?p"
  proof
    assume k: "k < length ?p"
    then have "rb_used rb' = k" using arg_cong[OF w(4), of length] by (simp add: ring_4_8)
    with k w(5) show False by (simp add: ring_4_8)
  qed
  then have "k = length ?p" using w(2) by simp
  then show ?thesis using w(1,4) by (auto simp: ring_4_8)
qed

text \<open>
  C14: The case the previous property excludes is a defect of \<open>Grow\<close> and \<open>Write\<close>: when the
  limit cuts growth short of what was asked, \<open>Grow\<close> still answers true, so \<open>Write\<close> reports
  every byte written without an error although the ring then claims to hold more than its
  capacity: unread bytes have been overwritten and the invariant is broken.
\<close>

theorem ring_write_overrun:
  assumes "rb_inv rb" "rb_used rb + length p < 2 ^ 62" "grow_capped (length p) rb"
  shows "\<exists>rb'. RWrite p rb = Some ((length p, None), rb') \<and> RLen rb' > RCap rb' \<and> \<not> rb_inv rb'"
proof -
  have le: "rb_used rb + length p \<le> 2 ^ 62" using assms(2) by simp
  obtain rb' where r: "RWrite p rb = Some ((length p, None), rb')" "rb_used rb' = rb_used rb + length p"
    "rb_size rb' = rb_maxSize rb" "unat (rb_maxSize rb) < rb_used rb'" "\<not> rb_inv rb'"
    using RWrite_capped[OF assms(1) le assms(3)] by auto
  have "RLen rb' = int (rb_used rb')" using assms(2) r(2) unfolding RLen_def rb_used_def by (intro sint_small) simp
  moreover have "RCap rb' = int (unat (rb_maxSize rb))"
    using r(2,3,4) assms(2) unfolding RCap_def r(3) by (intro sint_small) simp
  moreover have "int (unat (rb_maxSize rb)) < int (rb_used rb')" using r(4) by (simp only: of_nat_less_iff)
  ultimately have "RLen rb' > RCap rb'" by (simp only:)
  then show ?thesis using r(1,5) by blast
qed

theorem ring_write_overrun_witness:
  "\<exists>rb'. RWrite [1, 2, 3, 4, 5, 6, 7, 8, 9, 10] (NewRingBuffer 4 8) = Some ((10, None), rb') \<and> RLen rb' > RCap rb'"
proof -
  let ?p = "[1, 2, 3, 4, 5, 6, 7, 8, 9, 10] :: byte list"
  have "rb_used (NewRingBuffer 4 8) + length ?p < 2 ^ 62" "grow_capped (length ?p) (NewRingBuffer 4 8)"
    by (simp_all add: ring_4_8 grow_capped_def)
  from ring_write_overrun[OF ring_4_8(1) this] show ?thesis by auto
qed

text \<open>
  C15: Reading from the connection into the ring (\<open>WriteFromReader\<close>) is lossless for every
  reader that keeps the \<open>io.Reader\<close> contract: whatever it returns (short reads, errors, end
  of file, a full ring), the ring's contents followed by the bytes the connection still has
  to deliver are unchanged, the byte count is exact, the limit on the read is kept, and data
  is never reported together with \<open>EOF\<close>.
\<close>

theorem ring_fill_lossless:
  assumes "rb_inv rb" "reader_stream rd rest" "rb_used rb + 4096 \<le> 2 ^ 62"
  shows "\<exists>n err r' rb'. WriteFromReader rd mx r rb = Some ((n, err), r', rb') \<and> rb_inv rb'
     \<and> rb_contents rb' @ rest r' = rb_contents rb @ rest r \<and> rb_used rb' = rb_used rb + n
     \<and> (mx > 0 \<longrightarrow> int n \<le> mx) \<and> (n > 0 \<longrightarrow> err \<noteq> Some EOF)"
  using WriteFromReader_facts[OF assms] by blast

definition list_reader :: "byte list reader" where
  "list_reader r n = ((take n r, if r = [] then Some EOF else None), drop n r)"

lemma list_reader_stream: "reader_stream list_reader (\<lambda>r. r)"
  by (auto simp: reader_stream_def list_reader_def)

theorem ring_fill_lossless_witness:
  "\<exists>n err r' rb'. WriteFromReader list_reader 0 [1, 2, 3, 4, 5, 6] (NewRingBuffer 4 8) = Some ((n, err), r', rb')
     \<and> rb_contents rb' @ r' = [1, 2, 3, 4, 5, 6]"
proof -
  have "rb_used (NewRingBuffer 4 8) + 4096 \<le> 2 ^ 62" by (simp add: ring_4_8)
  from ring_fill_lossless[OF ring_4_8(1) list_reader_stream this, of 0 "[1, 2, 3, 4, 5, 6]"]
  show ?thesis by (auto simp: ring_4_8)
qed

text \<open>
  C16: The peeks that frame parsing relies on read the contents and change nothing:
  \<open>PeekHeader12Checked\<close> and \<open>PeekUint32BE\<close> give the big-endian words at an offset, by direct
  indexing or byte by byte across the wrap-around alike, and report insufficient data
  exactly when the words are not all there.
\<close>

theorem ring_peek_header_exact:
  assumes "rb_inv rb" "int off + 12 < 2 ^ 63"
  shows "PeekHeader12Checked (int off) rb =
      (if rb_used rb < off + 12 then Some (0, 0, 0, Some ErrInsufficientData)
       else Some (be32 (take 4 (drop off (rb_contents rb))), be32 (take 4 (drop (off + 4) (rb_contents rb))),
            be32 (take 4 (drop (off + 8) (rb_contents rb))), None))
    \<and> PeekUint32BE (int off) rb =
      (if rb_used rb < off + 4 then Some (0, Some ErrInsufficientData)
       else Some (be32 (take 4 (drop off (rb_contents rb))), None))"
  using PeekHeader12Checked_facts[OF assms] PeekUint32BE_facts[OF assms(1), of off] assms(2) by simp

theorem ring_peek_header_exact_witness:
  "\<exists>rb. rb_contents rb = [9, 0, 0, 0, 1, 0, 0, 1, 2, 0, 0, 0, 3]
     \<and> PeekHeader12Checked (int 1) rb = Some (1, 258, 3, None)"
proof -
  let ?p = "[9, 0, 0, 0, 1, 0, 0, 1, 2, 0, 0, 0, 3] :: byte list"
  let ?rb = "rb_put ?p (NewRingBuffer 16 0)"
  have n: "rb_inv (NewRingBuffer 16 0)" "rb_contents (NewRingBuffer 16 0) = []"
    by (rule NewRingBuffer_facts; simp)+
  have "nextPowerOfTwo64 16 = 16" by code_simp
  then have "length (rb_buf (NewRingBuffer 16 0)) = 16" by (simp add: NewRingBuffer_def Let_def)
  moreover have "rb_used (NewRingBuffer 16 0) = 0" by (simp add: NewRingBuffer_def rb_used_def Let_def)
  ultimately have fit: "rb_used (NewRingBuffer 16 0) + length ?p \<le> length (rb_buf (NewRingBuffer 16 0))" by simp
  have c: "rb_contents ?rb = ?p" using rb_put_facts(2)[OF n(1) fit] n(2) by simp
  have l: "rb_used ?rb = 13" unfolding rb_used_contents c by simp
  have b: "be32 [0, 0, 0, 1] = 1" "be32 [0, 0, 1, 2] = 258" "be32 [0, 0, 0, 3] = 3"
    by code_simp+
  show ?thesis
    using ring_peek_header_exact[OF rb_put_facts(1)[OF n(1) fit], of 1] c
    by (intro exI[of _ ?rb]) (simp add: l b)
qed

end
