(* ===== verification/Framing.thy ===== *)
theory Framing
  imports Main
begin

text \<open>
  Framing as an interface: a decoder that looks at the front of a byte stream and says
  "need more", "bad", or "one message, this many bytes". The locale states what makes such
  a decoder usable on a stream that arrives in pieces: an answer other than "need more"
  does not depend on what follows. The lemmas are what the read loop of a connection
  relies on.
\<close>

datatype ('m, 'e) frame_result = NeedMore | Bad 'e | Frame 'm nat

text \<open>
  Draining a stream, as the parse loop does: all messages at the front, the bytes left
  over, and the error that stopped it, if any. A decoder that claims an empty or an
  over-long frame stops the loop.
\<close>

function drain :: "('b list \<Rightarrow> ('m, 'e) frame_result) \<Rightarrow> 'b list \<Rightarrow> 'm list \<times> 'b list \<times> 'e option" where
  "drain decode bs = (case decode bs of
       NeedMore \<Rightarrow> ([], bs, None)
     | Bad e \<Rightarrow> ([], bs, Some e)
     | Frame m n \<Rightarrow> if 0 < n \<and> n \<le> length bs
         then let (ms, rest, e) = drain decode (drop n bs) in (m # ms, rest, e)
         else ([], bs, None))"
  by pat_completeness auto

termination by (relation "measure (\<lambda>(_, bs). length bs)") auto

declare drain.simps [simp del]

text \<open>Draining chunk by chunk: each chunk is appended to what the last drain left over.\<close>

fun drain_chunks :: "('b list \<Rightarrow> ('m, 'e) frame_result) \<Rightarrow> 'b list \<Rightarrow> 'b list list \<Rightarrow> 'm list \<times> 'b list \<times> 'e option" where
  "drain_chunks decode left [] = ([], left, None)"
| "drain_chunks decode left (c # cs) =
     (let (ms, rest, e) = drain decode (left @ c)
      in case e of Some _ \<Rightarrow> (ms, rest @ concat cs, e)
         | None \<Rightarrow> let (ms', rest', e') = drain_chunks decode rest cs in (ms @ ms', rest', e'))"

locale framing =
  fixes decode :: "'b list \<Rightarrow> ('m, 'e) frame_result"
  assumes frame_size: "decode xs = Frame m n \<Longrightarrow> 0 < n \<and> n \<le> length xs"
    and prefix_stable: "decode xs \<noteq> NeedMore \<Longrightarrow> decode (xs @ ys) = decode xs"
begin

lemma drain_append:
  "drain decode xs = (ms, rest, e) \<Longrightarrow> drain decode (xs @ ys) =
     (case e of Some e \<Rightarrow> (ms, rest @ ys, Some e)
      | None \<Rightarrow> let (ms', rest', e') = drain decode (rest @ ys) in (ms @ ms', rest', e'))"
proof (induction xs arbitrary: ms rest e rule: length_induct)
  case (1 xs)
  show ?case
  proof (cases "decode xs")
    case NeedMore
    then have "ms = []" "rest = xs" "e = None" using "1.prems" by (simp_all add: drain.simps[of decode xs])
    then show ?thesis by (simp split: prod.splits)
  next
    case (Bad x)
    then have "decode (xs @ ys) = Bad x" using prefix_stable by simp
    then have "drain decode (xs @ ys) = ([], xs @ ys, Some x)" by (subst drain.simps) simp
    moreover have "drain decode xs = ([], xs, Some x)" using Bad by (subst drain.simps) simp
    ultimately show ?thesis using "1.prems" by auto
  next
    case (Frame m n)
    then have n: "0 < n" "n \<le> length xs" and d: "decode (xs @ ys) = Frame m n"
      using frame_size prefix_stable by auto
    obtain ms1 where r: "drain decode (drop n xs) = (ms1, rest, e)" "ms = m # ms1"
      using "1.prems" Frame n by (auto simp: drain.simps[of decode xs] split: prod.splits)
    have "length (drop n xs) < length xs" using n by simp
    with "1.IH" r(1) have i: "drain decode (drop n xs @ ys) =
       (case e of Some e \<Rightarrow> (ms1, rest @ ys, Some e)
        | None \<Rightarrow> let (ms', rest', e') = drain decode (rest @ ys) in (ms1 @ ms', rest', e'))" by blast
    have "drain decode (xs @ ys) = (let (ms, rest, e) = drain decode (drop n xs @ ys) in (m # ms, rest, e))"
      using d n by (subst drain.simps) simp
    then show ?thesis using i r(2) by (auto split: option.splits prod.splits)
  qed
qed

lemma drain_left_over:
  "drain decode xs = (ms, rest, None) \<Longrightarrow> decode rest = NeedMore"
proof (induction xs arbitrary: ms rest rule: length_induct)
  case (1 xs)
  show ?case
  proof (cases "decode xs")
    case NeedMore
    then show ?thesis using "1.prems" by (simp add: drain.simps[of decode xs])
  next
    case (Bad x)
    then show ?thesis using "1.prems" by (simp add: drain.simps[of decode xs])
  next
    case (Frame m n)
    then have n: "0 < n" "n \<le> length xs" using frame_size by auto
    then obtain ms1 where "drain decode (drop n xs) = (ms1, rest, None)"
      using "1.prems" Frame by (auto simp: drain.simps[of decode xs] split: prod.splits)
    moreover have "length (drop n xs) < length xs" using n by simp
    ultimately show ?thesis using "1.IH" by blast
  qed
qed

lemma drain_need_more: "decode xs = NeedMore \<Longrightarrow> drain decode xs = ([], xs, None)"
  by (simp add: drain.simps[of decode xs])

text \<open>However the stream is cut into chunks, the same messages come out of it.\<close>

lemma drain_chunks_eq:
  "decode left = NeedMore \<Longrightarrow> drain_chunks decode left cs = drain decode (left @ concat cs)"
proof (induction cs arbitrary: left)
  case Nil
  then show ?case by (simp add: drain_need_more)
next
  case (Cons c cs)
  obtain ms rest e where d: "drain decode (left @ c) = (ms, rest, e)" by (metis prod_cases3)
  have a: "drain decode (left @ concat (c # cs)) = (case e of Some e \<Rightarrow> (ms, rest @ concat cs, Some e)
      | None \<Rightarrow> let (ms', rest', e') = drain decode (rest @ concat cs) in (ms @ ms', rest', e'))"
    using drain_append[OF d, of "concat cs"] by simp
  show ?case
  proof (cases e)
    case None
    then have "decode rest = NeedMore" using d drain_left_over by blast
    from Cons.IH[OF this] show ?thesis using d a None by simp
  next
    case (Some x)
    then show ?thesis using d a by simp
  qed
qed

text \<open>Frames that the decoder accepts, one after the other, come out one after the other.\<close>

lemma drain_frames:
  assumes "\<And>m rest. m \<in> set ms \<Longrightarrow> decode (enc m @ rest) = Frame m (length (enc m))"
  shows "drain decode (concat (map enc ms) @ tail) = (let (ms', r, e) = drain decode tail in (ms @ ms', r, e))"
  using assms
proof (induction ms)
  case Nil
  then show ?case by (simp split: prod.splits)
next
  case (Cons m ms)
  have d: "decode (enc m @ (concat (map enc ms) @ tail)) = Frame m (length (enc m))"
    by (rule Cons.prems) simp
  have n: "0 < length (enc m)" using frame_size[OF d] by simp
  have "drain decode (concat (map enc (m # ms)) @ tail) =
      (let (ms', r, e) = drain decode (concat (map enc ms) @ tail) in (m # ms', r, e))"
    using d n by (subst drain.simps) simp
  also have "drain decode (concat (map enc ms) @ tail) = (let (ms', r, e) = drain decode tail in (ms @ ms', r, e))"
    using Cons by simp
  finally show ?case by (simp split: prod.splits)
qed

end

end
