(* ===== verification/Socket.thy ===== *)
theory Socket
  imports Ring_Buffer Framing
begin

text \<open>
  \<^verbatim>\<open>znet/socket.go\<close> and \<^verbatim>\<open>znet/netmsg.go\<close>: the wire protocol (12-byte v0 and 13-byte v1
  headers), its three parsers (from the ring buffer, from the buffer of a
  \<^verbatim>\<open>bufio.Reader\<close>, and blocking from a \<^verbatim>\<open>bufio.Reader\<close>), the packet builder, and the message
  and parse-result containers with the buffers they own. The abstract codec \<open>decode_frame\<close>/\<open>encode_frame\<close>
  is what the parsers and the packet builder are proved to implement.
\<close>

section \<open>Messages\<close>

text \<open>
  A slice is a byte list, \<open>nil\<close> the empty one. A pooled \<^verbatim>\<open>zpool.Buffer\<close> is its bytes;
  operations that give buffers back return the buffers given back.
\<close>

record net_message =
  nm_MsgId :: "32 word"
  nm_SeqId :: u32
  nm_Data :: "byte list"
  nm_pooled :: bool
  nm_ownedBuf :: "byte list option"

definition empty_message :: net_message where
  "empty_message = \<lparr>nm_MsgId = 0, nm_SeqId = 0, nm_Data = [], nm_pooled = False, nm_ownedBuf = None\<rparr>"

text \<open>
  A pooled buffer of \<open>n\<close> bytes: whatever \<open>stale\<close> bytes its previous user left in it.
\<close>

definition GetBytesBuffer :: "byte list \<Rightarrow> nat \<Rightarrow> byte list" where
  "GetBytesBuffer stale n = take n (stale @ replicate n 0)"

lemma length_GetBytesBuffer [simp]: "length (GetBytesBuffer stale n) = n"
  by (simp add: GetBytesBuffer_def)

definition SetDataCopy :: "byte list \<Rightarrow> byte list \<Rightarrow> net_message \<Rightarrow> byte list option \<times> net_message" where
  "SetDataCopy stale data b =
     (if length data = 0 then (None, b\<lparr>nm_Data := []\<rparr>)
      else let released = nm_ownedBuf b; buf = go_copy (GetBytesBuffer stale (length data)) 0 data
           in (released, b\<lparr>nm_ownedBuf := Some buf, nm_Data := buf\<rparr>))"

definition MReset :: "net_message \<Rightarrow> byte list option \<times> net_message" where
  "MReset b = (nm_ownedBuf b, b\<lparr>nm_MsgId := 0, nm_SeqId := 0, nm_Data := [], nm_ownedBuf := None\<rparr>)"

text \<open>\<open>Release\<close>: the buffer given back, and the message put back into the pool, if any.\<close>

definition MRelease :: "net_message \<Rightarrow> byte list option \<times> net_message option \<times> net_message" where
  "MRelease b =
     (let released = nm_ownedBuf b; b1 = b\<lparr>nm_ownedBuf := None\<rparr>
      in if nm_pooled b1
         then let b2 = snd (MReset (b1\<lparr>nm_pooled := False\<rparr>)) in (released, Some b2, b2)
         else (released, None, b1))"

definition MClone :: "net_message \<Rightarrow> net_message" where
  "MClone b =
     (if length (nm_Data b) = 0 then empty_message\<lparr>nm_MsgId := nm_MsgId b, nm_SeqId := nm_SeqId b\<rparr>
      else let buf = go_copy (replicate (length (nm_Data b)) 0) 0 (nm_Data b)
           in empty_message\<lparr>nm_MsgId := nm_MsgId b, nm_Data := buf, nm_SeqId := nm_SeqId b\<rparr>)"

definition GetNetMessage :: "net_message \<Rightarrow> net_message" where
  "GetNetMessage fromPool = (snd (MReset fromPool))\<lparr>nm_pooled := True\<rparr>"

datatype parse_error = VersionMismatch | InvalidMsgId | InvalidDataLength | IOError io_error
  | UnexpectedEOF

record parse_data =
  pd_Message :: net_message
  pd_Error :: "parse_error option"
  pd_OwnedBuffers :: "byte list list"

text \<open>\<open>ResetForReuse\<close>, with the buffers it gives back (the owned ones, then the message's).\<close>

definition ResetForReuse :: "parse_data \<Rightarrow> byte list list \<times> parse_data" where
  "ResetForReuse p =
     (let (mb, m) = MReset (pd_Message p)
      in (pd_OwnedBuffers p @ (case mb of None \<Rightarrow> [] | Some b \<Rightarrow> [b]),
          \<lparr>pd_Message = m, pd_Error = None, pd_OwnedBuffers = []\<rparr>))"

definition set_header :: "u32 \<Rightarrow> u32 \<Rightarrow> parse_data \<Rightarrow> parse_data" where
  "set_header msgId seqId p = p\<lparr>pd_Message := (pd_Message p)\<lparr>nm_MsgId := msgId, nm_SeqId := seqId\<rparr>\<rparr>"

definition set_data :: "byte list \<Rightarrow> parse_data \<Rightarrow> parse_data" where
  "set_data d p = p\<lparr>pd_Message := (pd_Message p)\<lparr>nm_Data := d\<rparr>\<rparr>"

section \<open>Header layout and validation\<close>

definition NewBaseSocket :: "socket_config option \<Rightarrow> socket_config" where
  "NewBaseSocket config = (case config of None \<Rightarrow> DefaultSocketConfig | Some c \<Rightarrow> c)"

definition HeaderLen :: "socket_config \<Rightarrow> nat" where
  "HeaderLen cfg = (if ProtocolVersion cfg \<ge> 1 then 13 else 12)"

text \<open>
  The validation every parser repeats: the message id within \<open>[-MaxMsgId, MaxMsgId]\<close>,
  the length at most \<open>MaxDataLength\<close>.
\<close>

definition check_header :: "socket_config \<Rightarrow> u32 \<Rightarrow> u32 \<Rightarrow> parse_error option" where
  "check_header cfg msgId dataLen =
     (if sint msgId < i64 (- MaxMsgId cfg) \<or> sint msgId > MaxMsgId cfg then Some InvalidMsgId
      else if int (unat dataLen) > MaxDataLength cfg then Some InvalidDataLength else None)"

section \<open>Parsing from the ring buffer\<close>

definition parse_body :: "socket_config \<Rightarrow> byte list \<Rightarrow> u32 \<Rightarrow> u32 \<Rightarrow> nat \<Rightarrow> ring_buffer \<Rightarrow> parse_data
    \<Rightarrow> ((bool \<times> parse_error option) \<times> ring_buffer \<times> parse_data) option" where
  "parse_body cfg stale msgId seqId dataLength rb pd =
     (let hLen = HeaderLen cfg; totalLen = hLen + dataLength; pd1 = set_header msgId seqId pd
      in if dataLength = 0 then Some ((True, None), snd (Discard (int totalLen) rb), set_data [] pd1)
         else do {
           (first, second, err) \<leftarrow> PeekTwoSlices (int hLen) (int dataLength) rb;
           case err of Some e \<Rightarrow> Some ((False, Some (IOError e)), rb, pd1)
           | None \<Rightarrow>
             (let fs = (case first of None \<Rightarrow> [] | Some x \<Rightarrow> x)
              in case second of
                None \<Rightarrow> Some ((True, None), snd (Discard (int totalLen) rb), set_data fs pd1)
              | Some ss \<Rightarrow>
                 (let buf = GetBytesBuffer stale dataLength
                  in if length fs \<le> length buf
                     then let filled = go_copy (go_copy buf 0 fs) (length fs) ss
                          in Some ((True, None), snd (Discard (int totalLen) rb),
                               set_data filled (pd1\<lparr>pd_OwnedBuffers := pd_OwnedBuffers pd1 @ [filled]\<rparr>))
                     else None)) })"

definition ParseFromRingBuffer :: "socket_config \<Rightarrow> byte list \<Rightarrow> ring_buffer \<Rightarrow> parse_data
    \<Rightarrow> ((bool \<times> parse_error option) \<times> ring_buffer \<times> parse_data) option" where
  "ParseFromRingBuffer cfg stale rb pd =
     (if RLen rb < int (HeaderLen cfg) then Some ((False, None), rb, pd)
      else do {
        (verErr, off) \<leftarrow>
          (if ProtocolVersion cfg \<ge> 1 then do {
             (ver, e) \<leftarrow> PeekByte 0 rb;
             Some (case e of Some e \<Rightarrow> Some (IOError e)
                   | None \<Rightarrow> (if ver \<noteq> ProtocolVersion cfg then Some VersionMismatch else None), 1) }
           else Some (None, 0));
        case verErr of Some e \<Rightarrow> Some ((False, Some e), rb, pd)
        | None \<Rightarrow> do {
            (msgId, seqId, dataLen) \<leftarrow> PeekHeader12 off rb;
            case check_header cfg msgId dataLen of Some e \<Rightarrow> Some ((False, Some e), rb, pd)
            | None \<Rightarrow>
                if RLen rb < int (HeaderLen cfg + unat dataLen) then Some ((False, None), rb, pd)
                else parse_body cfg stale msgId seqId (unat dataLen) rb pd } })"

section \<open>Parsing from a bufio.Reader\<close>

text \<open>
  \<^verbatim>\<open>bufio.Reader\<close> and \<^verbatim>\<open>io.ReadFull\<close> of the standard library: the bytes still to come,
  how many of them are buffered, and the error the source ends with. The bytes count as
  buffered only as far as the caller can see them with \<open>Buffered()\<close>.
\<close>

record bufio_reader =
  br_bytes :: "byte list"
  br_buffered :: nat
  br_err :: io_error

definition br_consume :: "nat \<Rightarrow> bufio_reader \<Rightarrow> bufio_reader" where
  "br_consume n r = r\<lparr>br_bytes := drop n (br_bytes r), br_buffered := br_buffered r - n\<rparr>"

definition io_ReadFull :: "nat \<Rightarrow> bufio_reader \<Rightarrow> (byte list \<times> parse_error option) \<times> bufio_reader" where
  "io_ReadFull n r =
     (if n \<le> length (br_bytes r) then ((take n (br_bytes r), None), br_consume n r)
      else ((br_bytes r,
             Some (if br_bytes r \<noteq> [] \<and> br_err r = EOF then UnexpectedEOF else IOError (br_err r))),
            br_consume (length (br_bytes r)) r))"

definition be_u32 :: "byte list \<Rightarrow> nat \<Rightarrow> u32" where
  "be_u32 bs off = be_or (bs ! off) (bs ! (off + 1)) (bs ! (off + 2)) (bs ! (off + 3))"

definition ParseFromBufio :: "socket_config \<Rightarrow> bufio_reader \<Rightarrow> parse_data
    \<Rightarrow> (bool \<times> parse_error option) \<times> bufio_reader \<times> parse_data" where
  "ParseFromBufio cfg r pd =
     (let hLen = HeaderLen cfg
      in if br_buffered r < hLen then ((False, None), r, pd)
         else let peeked = take hLen (br_bytes r); off = (if ProtocolVersion cfg \<ge> 1 then 1 else 0)
         in if ProtocolVersion cfg \<ge> 1 \<and> peeked ! 0 \<noteq> ProtocolVersion cfg
            then ((False, Some VersionMismatch), r, pd)
            else let msgId = be_u32 peeked off; seqId = be_u32 peeked (off + 4); dataLen = be_u32 peeked (off + 8)
            in case check_header cfg msgId dataLen of Some e \<Rightarrow> ((False, Some e), r, pd)
               | None \<Rightarrow>
                 let dataLength = unat dataLen; totalLen = hLen + dataLength
                 in if br_buffered r < totalLen then ((False, None), r, pd)
                    else let pd1 = set_header msgId seqId pd;
                             pd2 = (if dataLength = 0 then set_data [] pd1
                                    else set_data (drop hLen (take totalLen (br_bytes r))) pd1)
                         in ((True, None), br_consume totalLen r, pd2))"

text \<open>
  \<open>ReadOneFromBufio\<close> keeps what it has read of a message in a 13-byte array and a pooled
  buffer. On a failed body read the buffer is given back and the header stays set.
\<close>

definition ReadOneFromBufio :: "socket_config \<Rightarrow> byte list \<Rightarrow> bufio_reader \<Rightarrow> parse_data
    \<Rightarrow> (bool \<times> parse_error option) \<times> bufio_reader \<times> parse_data" where
  "ReadOneFromBufio cfg stale r pd =
     (let hLen = HeaderLen cfg; ((hbs, e), r1) = io_ReadFull hLen r; header = go_copy (replicate 13 0) 0 hbs
      in case e of
        Some err \<Rightarrow> (if err = IOError EOF then ((False, None), r1, pd) else ((False, Some err), r1, pd))
      | None \<Rightarrow>
        let off = (if ProtocolVersion cfg \<ge> 1 then 1 else 0)
        in if ProtocolVersion cfg \<ge> 1 \<and> header ! 0 \<noteq> ProtocolVersion cfg
           then ((False, Some VersionMismatch), r1, pd)
           else let msgId = be_u32 header off; seqId = be_u32 header (off + 4); dataLen = be_u32 header (off + 8)
           in case check_header cfg msgId dataLen of Some err \<Rightarrow> ((False, Some err), r1, pd)
              | None \<Rightarrow>
                let dataLength = unat dataLen; pd1 = set_header msgId seqId pd
                in if dataLength = 0 then ((True, None), r1, set_data [] pd1)
                   else let ((bbs, e2), r2) = io_ReadFull dataLength r1;
                            buf = go_copy (GetBytesBuffer stale dataLength) 0 bbs
                        in case e2 of
                             Some err \<Rightarrow> ((False, Some err), r2, pd1)
                           | None \<Rightarrow> ((True, None), r2,
                               set_data buf (pd1\<lparr>pd_OwnedBuffers := pd_OwnedBuffers pd1 @ [buf]\<rparr>)))"

section \<open>Building a packet\<close>

definition be_bytes :: "u32 \<Rightarrow> byte list" where
  "be_bytes v = [ucast (drop_bit 24 v), ucast (drop_bit 16 v), ucast (drop_bit 8 v), ucast v]"

text \<open>\<open>PreparePacketFromWire\<close> writes into a header array of at least \<open>HeaderLen\<close> bytes.\<close>

definition PreparePacketFromWire :: "socket_config \<Rightarrow> net_message \<Rightarrow> byte list \<Rightarrow> (nat \<times> byte list) \<times> byte list" where
  "PreparePacketFromWire cfg msg headerBuf =
     (let body = nm_Data msg;
          (h0, off) = (if ProtocolVersion cfg \<ge> 1 then (headerBuf[0 := ProtocolVersion cfg], 1) else (headerBuf, 0));
          h1 = go_copy h0 off (be_bytes (nm_MsgId msg));
          h2 = go_copy h1 (off + 4) (be_bytes (nm_SeqId msg));
          h3 = go_copy h2 (off + 8) (be_bytes (of_nat (length body)))
      in ((HeaderLen cfg, body), h3))"

definition PreparePacket :: "socket_config \<Rightarrow> net_message \<Rightarrow> byte list \<Rightarrow> (nat \<times> byte list) \<times> byte list" where
  "PreparePacket cfg msg headerBuf = PreparePacketFromWire cfg msg headerBuf"

text \<open>The bytes that reach the wire: the header prefix followed by the body.\<close>

definition packet_bytes :: "socket_config \<Rightarrow> net_message \<Rightarrow> byte list \<Rightarrow> byte list" where
  "packet_bytes cfg msg headerBuf =
     (let ((hdrLen, body), h) = PreparePacket cfg msg headerBuf in take hdrLen h @ body)"

section \<open>The abstract codec\<close>

type_synonym wire_message = "u32 \<times> u32 \<times> byte list"

text \<open>Decoding the front of a byte stream: the message and the length of its frame.\<close>

definition decode_frame :: "socket_config \<Rightarrow> byte list \<Rightarrow> (wire_message, parse_error) frame_result" where
  "decode_frame cfg bs =
     (let h = HeaderLen cfg; off = h - 12
      in if length bs < h then NeedMore
         else if off = 1 \<and> bs ! 0 \<noteq> ProtocolVersion cfg then Bad VersionMismatch
         else let msgId = be32 (take 4 (drop off bs)); seqId = be32 (take 4 (drop (off + 4) bs));
                  dataLen = be32 (take 4 (drop (off + 8) bs))
              in case check_header cfg msgId dataLen of Some e \<Rightarrow> Bad e
                 | None \<Rightarrow> if length bs < h + unat dataLen then NeedMore
                           else Frame (msgId, seqId, take (unat dataLen) (drop h bs)) (h + unat dataLen))"

definition encode_frame :: "socket_config \<Rightarrow> wire_message \<Rightarrow> byte list" where
  "encode_frame cfg m = (case m of (msgId, seqId, data) \<Rightarrow>
     (if ProtocolVersion cfg \<ge> 1 then [ProtocolVersion cfg] else [])
       @ be_bytes msgId @ be_bytes seqId @ be_bytes (of_nat (length data)) @ data)"

text \<open>The messages a configuration accepts.\<close>

definition wire_ok :: "socket_config \<Rightarrow> wire_message \<Rightarrow> bool" where
  "wire_ok cfg m = (case m of (msgId, seqId, data) \<Rightarrow>
     i64 (- MaxMsgId cfg) \<le> sint msgId \<and> sint msgId \<le> MaxMsgId cfg
       \<and> int (length data) \<le> MaxDataLength cfg \<and> length data < 2 ^ 32)"

definition wire_of :: "net_message \<Rightarrow> wire_message" where
  "wire_of m = (nm_MsgId m, nm_SeqId m, nm_Data m)"

section \<open>Big-endian words\<close>

lemma be32_be_or: "be32 [a, b, c, d] = be_or a b c d"
  by (simp add: be_or_be32)

lemma no_bit: "8 \<le> n \<Longrightarrow> \<not> bit (b :: byte) n"
  using bit_imp_le_length[of b n] by auto

lemma byte_of_bit: "n < 32 \<Longrightarrow> (n::nat) < 8 \<or> (\<exists>k<8. n = 8 + k) \<or> (\<exists>k<8. n = 16 + k) \<or> (\<exists>k<8. n = 24 + k)"
  by presburger

lemma be32_be_bytes [simp]: "be32 (be_bytes v) = v"
  unfolding be_bytes_def be32_be_or be_or_def
proof (rule bit_word_eqI)
  fix n assume "n < LENGTH(32)"
  then have "n < 32" by simp
  note b = byte_of_bit[OF this]
  show "bit ((push_bit 24 (ucast (ucast (drop_bit 24 v) :: byte)) :: u32) OR push_bit 16 (ucast (ucast (drop_bit 16 v) :: byte))
     OR push_bit 8 (ucast (ucast (drop_bit 8 v) :: byte)) OR ucast (ucast v :: byte)) n = bit v n"
    using b by (elim disjE exE conjE) (simp_all add: bit_simps no_bit)
qed

lemma be_bytes_be32 [simp]: "be_bytes (be32 [a, b, c, d]) = [a, b, c, d]"
  unfolding be_bytes_def be32_be_or be_or_def
  by (auto intro!: bit_word_eqI simp: bit_simps no_bit)

lemma length_be_bytes [simp]: "length (be_bytes v) = 4"
  by (simp add: be_bytes_def)

lemma be_bytes_take:
  assumes "off + 4 \<le> length bs"
  shows "be_bytes (be32 (take 4 (drop off bs))) = take 4 (drop off bs)"
  using take4[of "drop off bs"] assms by simp

lemma be_u32_be32:
  assumes "off + 4 \<le> length bs"
  shows "be_u32 bs off = be32 (take 4 (drop off bs))"
  using take4[of "drop off bs"] assms by (simp add: be_u32_def be_or_be32)

section \<open>The codec\<close>

lemma HeaderLen_cases: "HeaderLen cfg = 12 \<and> \<not> ProtocolVersion cfg \<ge> 1 \<or> HeaderLen cfg = 13 \<and> ProtocolVersion cfg \<ge> 1"
  by (auto simp: HeaderLen_def)

lemma check_header_None_iff:
  "check_header cfg i l = None \<longleftrightarrow>
     i64 (- MaxMsgId cfg) \<le> sint i \<and> sint i \<le> MaxMsgId cfg \<and> int (unat l) \<le> MaxDataLength cfg"
  by (auto simp: check_header_def)

text \<open>What is decoded does not depend on what follows.\<close>

lemma unat_lt32: "unat (l :: u32) < 2 ^ 32"
proof -
  have "unat l < 2 ^ LENGTH(32)" by (rule unsigned_less)
  then show ?thesis by simp
qed

lemma take_drop_prefix: "off + k \<le> length xs \<Longrightarrow> take k (drop off (xs @ ys)) = take k (drop off xs)"
  by simp

lemma decode_frame_prefix:
  assumes "decode_frame cfg xs \<noteq> NeedMore"
  shows "decode_frame cfg (xs @ ys) = decode_frame cfg xs"
proof -
  define h where "h = HeaderLen cfg"
  have hc: "12 \<le> h" "h \<le> 13" using HeaderLen_cases[of cfg] by (auto simp: h_def)
  have l: "h \<le> length xs" using assms by (auto simp: decode_frame_def Let_def h_def split: if_splits)
  have t: "take 4 (drop (h - 12 + j) (xs @ ys)) = take 4 (drop (h - 12 + j) xs)" if "j \<le> 8" for j
    using l that hc by (intro take_drop_prefix) linarith
  have hd: "(xs @ ys) ! 0 = xs ! 0" using l hc by (cases xs) auto
  note d = decode_frame_def[of cfg, unfolded Let_def h_def[symmetric]]
  show ?thesis
  proof (cases "h - 12 = 1 \<and> xs ! 0 \<noteq> ProtocolVersion cfg")
    case True
    then show ?thesis using l hd unfolding d by simp
  next
    case ver: False
    have e: "decode_frame cfg zs = (case check_header cfg (be32 a) (be32 c) of Some e \<Rightarrow> Bad e
        | None \<Rightarrow> if length zs < h + unat (be32 c) then NeedMore
            else Frame (be32 a, be32 b, take (unat (be32 c)) (drop h zs)) (h + unat (be32 c)))"
      if "\<not> length zs < h" "\<not> (h - 12 = 1 \<and> zs ! 0 \<noteq> ProtocolVersion cfg)" "take 4 (drop (h - 12) zs) = a"
        "take 4 (drop (h - 12 + 4) zs) = b" "take 4 (drop (h - 12 + 8) zs) = c" for zs a b c
      unfolding d by (simp only: that if_False)
    have l': "\<not> length xs < h" "\<not> length (xs @ ys) < h" using l by auto
    have t0: "take 4 (drop (h - 12) (xs @ ys)) = take 4 (drop (h - 12) xs)" using t[of 0] by (simp only: add_0_right)
    have t48: "take 4 (drop (h - 12 + 4) (xs @ ys)) = take 4 (drop (h - 12 + 4) xs)"
      "take 4 (drop (h - 12 + 8) (xs @ ys)) = take 4 (drop (h - 12 + 8) xs)" by (intro t; simp)+
    have ver': "\<not> (h - 12 = 1 \<and> (xs @ ys) ! 0 \<noteq> ProtocolVersion cfg)" using ver unfolding hd .
    note x = e[OF l'(1) ver refl refl refl] and y = e[OF l'(2) ver' t0 t48]
    show ?thesis
      using assms unfolding x y by (auto split: option.splits if_splits)
  qed
qed

lemma decode_frame_length: "decode_frame cfg xs = Frame m n \<Longrightarrow> 12 \<le> n \<and> n \<le> length xs"
  using HeaderLen_cases[of cfg]
  by (auto simp: decode_frame_def Let_def split: option.splits if_splits)

lemma length_encode_frame: "length (encode_frame cfg (i, s, d)) = HeaderLen cfg + length d"
  by (auto simp: encode_frame_def HeaderLen_def)

lemma decode_encode:
  assumes "wire_ok cfg m"
  shows "decode_frame cfg (encode_frame cfg m @ rest) = Frame m (length (encode_frame cfg m))"
proof -
  obtain i s d where m: "m = (i, s, d)" by (cases m)
  have d: "unat (of_nat (length d) :: u32) = length d" using assms m by (simp add: wire_ok_def unat_of_nat)
  have c: "check_header cfg i (of_nat (length d)) = None"
    using assms m by (simp add: wire_ok_def check_header_None_iff d del: of_nat_unat)
  from HeaderLen_cases[of cfg] show ?thesis
  proof
    assume "HeaderLen cfg = 12 \<and> \<not> ProtocolVersion cfg \<ge> 1"
    then show ?thesis using c d unfolding m by (simp add: decode_frame_def encode_frame_def Let_def)
  next
    assume "HeaderLen cfg = 13 \<and> ProtocolVersion cfg \<ge> 1"
    then show ?thesis using c d unfolding m by (simp add: decode_frame_def encode_frame_def Let_def)
  qed
qed

lemma encode_decode:
  assumes "decode_frame cfg xs = Frame m n"
  shows "encode_frame cfg m = take n xs" "wire_ok cfg m"
proof -
  define h where "h = HeaderLen cfg"
  define off where "off = h - 12"
  obtain i s d where m: "m = (i, s, d)" by (cases m)
  have hc: "h = 12 \<and> \<not> ProtocolVersion cfg \<ge> 1 \<or> h = 13 \<and> ProtocolVersion cfg \<ge> 1"
    using HeaderLen_cases[of cfg] by (simp add: h_def)
  define l where "l = be32 (take 4 (drop (off + 8) xs))"
  have x: "h + unat l \<le> length xs" "n = h + unat l" "i = be32 (take 4 (drop off xs))"
    "s = be32 (take 4 (drop (off + 4) xs))" "d = take (unat l) (drop h xs)"
    "check_header cfg i l = None" "off = 1 \<Longrightarrow> xs ! 0 = ProtocolVersion cfg"
    using assms unfolding m decode_frame_def Let_def h_def[symmetric] off_def[symmetric]
    by (auto simp: l_def split: option.splits if_splits)
  have ld: "length d = unat l" using x(1,5) by simp
  have ol: "(of_nat (length d) :: u32) = l" by (simp add: ld)
  have b: "be_bytes i = take 4 (drop off xs)" "be_bytes s = take 4 (drop (off + 4) xs)"
    "be_bytes l = take 4 (drop (off + 8) xs)"
    using hc x(1) unfolding x(3,4) l_def by (auto intro!: be_bytes_take simp: off_def)
  have sp: "take (off + 12 + k) xs = take off xs @ take 4 (drop off xs) @ take 4 (drop (off + 4) xs)
      @ take 4 (drop (off + 8) xs) @ take k (drop (off + 12) xs)" for k
  proof -
    have "take (off + 12 + k) xs = take (off + (4 + (4 + (4 + k)))) xs" by (simp add: add.assoc)
    also have "\<dots> = take off xs @ take 4 (drop off xs) @ take 4 (drop (off + 4) xs)
      @ take 4 (drop (off + 8) xs) @ take k (drop (off + 12) xs)"
      unfolding take_add by (simp add: add.commute)
    finally show ?thesis .
  qed
  have hd: "(if ProtocolVersion cfg \<ge> 1 then [ProtocolVersion cfg] else []) = take off xs"
    using hc x(1,7) by (cases xs) (auto simp: off_def)
  have h12: "off + 12 = h" using hc by (auto simp: off_def)
  show "encode_frame cfg m = take n xs"
    unfolding m encode_frame_def prod.case ol b hd x(2) h12[symmetric] sp
    using x(5) h12 by simp
  show "wire_ok cfg m"
    using x(6) unat_lt32[of l] unfolding m wire_ok_def prod.case check_header_None_iff ld by simp
qed

section \<open>The parsers implement the codec\<close>

text \<open>
  \<open>decode_frame\<close> with its layout spelled out, for a stream that holds a whole header.
\<close>

lemma decode_frame_header:
  assumes "h = HeaderLen cfg" "off = h - 12" "h \<le> length bs"
    and "l = be32 (take 4 (drop (off + 8) bs))"
  shows "decode_frame cfg bs =
    (if off = 1 \<and> bs ! 0 \<noteq> ProtocolVersion cfg then Bad VersionMismatch
     else case check_header cfg (be32 (take 4 (drop off bs))) l of Some e \<Rightarrow> Bad e
        | None \<Rightarrow> if length bs < h + unat l then NeedMore
            else Frame (be32 (take 4 (drop off bs)), be32 (take 4 (drop (off + 4) bs)), take (unat l) (drop h bs))
                   (h + unat l))"
  using assms(3) unfolding decode_frame_def Let_def assms(1)[symmetric] assms(2)[symmetric] assms(4)[symmetric]
  by simp

lemma wire_of_set [simp]: "wire_of (pd_Message (set_data d (set_header i s pd))) = (i, s, d)"
  by (simp add: wire_of_def set_data_def set_header_def)

lemma set_data_owned [simp]: "pd_Message (set_data d (pd\<lparr>pd_OwnedBuffers := bs\<rparr>)) = pd_Message (set_data d pd)"
  by (simp add: set_data_def)

lemma parse_body_facts:
  assumes inv: "rb_inv rb" and le: "HeaderLen cfg + l \<le> rb_used rb" and l: "l < 2 ^ 32"
  shows "\<exists>pd'. parse_body cfg stale i s l rb pd = Some ((True, None), advance_read (of_nat (HeaderLen cfg + l)) rb, pd')
    \<and> wire_of (pd_Message pd') = (i, s, take l (drop (HeaderLen cfg) (rb_contents rb)))"
proof -
  have dis: "snd (Discard (int (HeaderLen cfg + l)) rb) = advance_read (of_nat (HeaderLen cfg + l)) rb"
    using Discard_facts(2)[OF inv le] by (simp only: snd_conv)
  show ?thesis
  proof (cases "l = 0")
    case True
    then show ?thesis using dis by (simp add: parse_body_def Let_def)
  next
    case False
    have r: "int (HeaderLen cfg) + int l < 2 ^ 63" using l HeaderLen_cases[of cfg] by auto
    obtain a b where ab: "PeekTwoSlices (int (HeaderLen cfg)) (int l) rb = Some (Some a, b, None)"
      "joined (Some a) b = take l (drop (HeaderLen cfg) (rb_contents rb))" "b \<noteq> Some []"
      using PeekTwoSlices_facts(1)[OF inv r le] by blast
    show ?thesis
    proof (cases b)
      case None
      then show ?thesis using False ab dis
        by (simp add: parse_body_def Let_def joined_def del: of_nat_add)
    next
      case (Some ss)
      have len: "length a + length ss = l"
        using arg_cong[OF ab(2), of length] le Some by (simp add: joined_def)
      have "go_copy (go_copy (GetBytesBuffer stale l) 0 a) (length a) ss = a @ ss"
        using len by (simp add: go_copy_def)
      then show ?thesis using False ab dis Some len
        by (simp add: parse_body_def Let_def joined_def del: of_nat_add)
    qed
  qed
qed

theorem ParseFromRingBuffer_facts:
  assumes inv: "rb_inv rb"
  shows "case decode_frame cfg (rb_contents rb) of
      NeedMore \<Rightarrow> ParseFromRingBuffer cfg stale rb pd = Some ((False, None), rb, pd)
    | Bad e \<Rightarrow> ParseFromRingBuffer cfg stale rb pd = Some ((False, Some e), rb, pd)
    | Frame m n \<Rightarrow> n \<le> rb_used rb \<and> (\<exists>pd'. ParseFromRingBuffer cfg stale rb pd
          = Some ((True, None), advance_read (of_nat n) rb, pd') \<and> wire_of (pd_Message pd') = m)"
proof -
  define h where "h = HeaderLen cfg"
  define off where "off = h - 12"
  have hc: "h = 12 \<and> \<not> ProtocolVersion cfg \<ge> 1 \<and> off = 0 \<or> h = 13 \<and> ProtocolVersion cfg \<ge> 1 \<and> off = 1"
    using HeaderLen_cases[of cfg] by (auto simp: h_def off_def)
  show ?thesis
  proof (cases "rb_used rb < h")
    case True
    then show ?thesis by (simp add: ParseFromRingBuffer_def RLen_eq[OF inv] decode_frame_def flip: h_def)
  next
    case False
    then have hl: "h \<le> length (rb_contents rb)" and o12: "off + 12 \<le> rb_used rb" using hc by auto
    define l where "l = be32 (take 4 (drop (off + 8) (rb_contents rb)))"
    define i where "i = be32 (take 4 (drop off (rb_contents rb)))"
    define s where "s = be32 (take 4 (drop (off + 4) (rb_contents rb)))"
    note d = decode_frame_header[OF h_def off_def hl l_def, folded i_def s_def]
    have ph: "PeekHeader12 (int off) rb = Some (i, s, l)"
      unfolding i_def s_def l_def by (rule PeekHeader12_facts[OF inv o12])
    have pb: "off = 1 \<Longrightarrow> PeekByte 0 rb = Some (rb_contents rb ! 0, None)"
      using PeekByte_facts[OF inv, of 0] o12 by simp
    define rest where "rest = (case check_header cfg i l of Some e \<Rightarrow> Some ((False, Some e), rb, pd)
            | None \<Rightarrow>
                if RLen rb < int (h + unat l) then Some ((False, None), rb, pd)
                else parse_body cfg stale i s (unat l) rb pd)"
    have p: "ParseFromRingBuffer cfg stale rb pd =
      (if off = 1 \<and> rb_contents rb ! 0 \<noteq> ProtocolVersion cfg then Some ((False, Some VersionMismatch), rb, pd) else rest)"
      using False hc ph pb unfolding ParseFromRingBuffer_def h_def[symmetric]
      by (auto simp: RLen_eq[OF inv] rest_def)
    show ?thesis
    proof (cases "off = 1 \<and> rb_contents rb ! 0 \<noteq> ProtocolVersion cfg")
      case True
      then show ?thesis unfolding d p by simp
    next
      case ver: False
      show ?thesis
      proof (cases "check_header cfg i l")
        case (Some e)
        then show ?thesis using ver unfolding d p rest_def by auto
      next
        case None
        have c: "RLen rb < int (h + unat l) \<longleftrightarrow> rb_used rb < h + unat l"
          unfolding RLen_eq[OF inv] by (rule of_nat_less_iff)
        show ?thesis
        proof (cases "rb_used rb < h + unat l")
          case True
          then show ?thesis using None ver unfolding d p rest_def c by auto
        next
          case F: False
          have "unat l < 2 ^ 32" by (rule unat_lt32)
          from parse_body_facts[OF inv _ this, of cfg stale i s pd] F
          obtain pd' where b: "parse_body cfg stale i s (unat l) rb pd =
              Some ((True, None), advance_read (of_nat (h + unat l)) rb, pd')"
            "wire_of (pd_Message pd') = (i, s, take (unat l) (drop h (rb_contents rb)))"
            unfolding h_def by auto
          show ?thesis using None ver F b unfolding d p rest_def c by auto
        qed
      qed
    qed
  qed
qed

text \<open>The parser over a \<^verbatim>\<open>bufio.Reader\<close> sees only what is buffered.\<close>

definition br_ok :: "bufio_reader \<Rightarrow> bool" where
  "br_ok r \<longleftrightarrow> br_buffered r \<le> length (br_bytes r)"

definition br_visible :: "bufio_reader \<Rightarrow> byte list" where
  "br_visible r = take (br_buffered r) (br_bytes r)"

lemma header_words:
  assumes "h = 12 \<and> off = 0 \<or> h = 13 \<and> off = 1" "h \<le> length bs" "j \<le> 8"
  shows "be_u32 (take h bs) (off + j) = be32 (take 4 (drop (off + j) bs))"
proof -
  have le: "off + j + 4 \<le> length (take h bs)" using assms by auto
  have "be_u32 (take h bs) (off + j) = be32 (take 4 (drop (off + j) (take h bs)))"
    by (rule be_u32_be32[OF le])
  moreover have "take 4 (drop (off + j) (take h bs)) = take 4 (drop (off + j) bs)"
  proof -
    have "4 \<le> h - (off + j)" using assms by auto
    then have "min 4 (h - (off + j)) = 4" by simp
    then show ?thesis by (simp only: drop_take take_take)
  qed
  ultimately show ?thesis by simp
qed

theorem ParseFromBufio_facts:
  assumes ok: "br_ok r"
  shows "case decode_frame cfg (br_visible r) of
      NeedMore \<Rightarrow> ParseFromBufio cfg r pd = ((False, None), r, pd)
    | Bad e \<Rightarrow> ParseFromBufio cfg r pd = ((False, Some e), r, pd)
    | Frame m n \<Rightarrow> n \<le> br_buffered r \<and> (\<exists>pd'. ParseFromBufio cfg r pd
          = ((True, None), br_consume n r, pd') \<and> wire_of (pd_Message pd') = m)"
proof -
  define h where "h = HeaderLen cfg"
  define off where "off = h - 12"
  define bs where "bs = br_visible r"
  have hc: "h = 12 \<and> \<not> ProtocolVersion cfg \<ge> 1 \<and> off = 0 \<or> h = 13 \<and> ProtocolVersion cfg \<ge> 1 \<and> off = 1"
    using HeaderLen_cases[of cfg] by (auto simp: h_def off_def)
  have lb: "length bs = br_buffered r" using ok by (simp add: bs_def br_visible_def br_ok_def)
  show ?thesis
  proof (cases "length bs < h")
    case True
    then show ?thesis using lb by (simp add: ParseFromBufio_def decode_frame_def flip: h_def bs_def)
  next
    case False
    then have hl: "h \<le> length bs" by simp
    define l where "l = be32 (take 4 (drop (off + 8) bs))"
    define i where "i = be32 (take 4 (drop off bs))"
    define s where "s = be32 (take 4 (drop (off + 4) bs))"
    note d = decode_frame_header[OF h_def off_def hl l_def, folded i_def s_def]
    have tk: "take k (br_bytes r) = take k bs" if "k \<le> length bs" for k
      using that lb by (simp add: bs_def br_visible_def min_def)
    have hc': "h = 12 \<and> off = 0 \<or> h = 13 \<and> off = 1" using hc by auto
    have w: "be_u32 (take h bs) off = i" "be_u32 (take h bs) (off + 4) = s" "be_u32 (take h bs) (off + 8) = l"
      using header_words[OF hc' hl, of 0] header_words[OF hc' hl, of 4] header_words[OF hc' hl, of 8]
      by (simp_all add: i_def s_def l_def)
    have off: "(if ProtocolVersion cfg \<ge> 1 then 1 else 0) = off" using hc by auto
    have z: "take h bs ! 0 = bs ! 0" using hc' by auto
    have pv: "ProtocolVersion cfg \<ge> 1 \<longleftrightarrow> off = 1" using hc by auto
    have p: "ParseFromBufio cfg r pd =
      (if off = 1 \<and> bs ! 0 \<noteq> ProtocolVersion cfg then ((False, Some VersionMismatch), r, pd)
       else case check_header cfg i l of Some e \<Rightarrow> ((False, Some e), r, pd)
          | None \<Rightarrow> if length bs < h + unat l then ((False, None), r, pd)
             else ((True, None), br_consume (h + unat l) r,
               set_data (if unat l = 0 then [] else drop h (take (h + unat l) (br_bytes r))) (set_header i s pd)))"
      unfolding ParseFromBufio_def h_def[symmetric] Let_def unfolding off lb[symmetric] unfolding tk[OF hl] w z pv
      using False by (simp split: option.splits)
    show ?thesis
    proof (cases "off = 1 \<and> bs ! 0 \<noteq> ProtocolVersion cfg")
      case True
      then show ?thesis unfolding bs_def[symmetric] d p by simp
    next
      case ver: False
      have dt: "h + unat l \<le> length bs \<Longrightarrow> drop h (take (h + unat l) (br_bytes r)) = take (unat l) (drop h bs)"
        by (simp add: tk take_drop add.commute)
      show ?thesis
        using ver lb dt unfolding bs_def[symmetric] d p
        by (cases "check_header cfg i l") (auto simp: not_less)
    qed
  qed
qed

text \<open>The blocking parser reads the same frames; it reports a clean end only between frames.\<close>

lemma br_consume_twice: "br_consume l (br_consume h r) = br_consume (h + l) r"
  by (simp add: br_consume_def add.commute)

theorem ReadOneFromBufio_facts:
  "case decode_frame cfg (br_bytes r) of
      NeedMore \<Rightarrow> (\<exists>e r' pd'. ReadOneFromBufio cfg stale r pd = ((False, e), r', pd')
        \<and> (e = None \<longleftrightarrow> br_bytes r = [] \<and> br_err r = EOF) \<and> br_bytes r' = [])
    | Bad e \<Rightarrow> ReadOneFromBufio cfg stale r pd = ((False, Some e), br_consume (HeaderLen cfg) r, pd)
    | Frame m n \<Rightarrow> n \<le> length (br_bytes r) \<and> (\<exists>pd'. ReadOneFromBufio cfg stale r pd
          = ((True, None), br_consume n r, pd') \<and> wire_of (pd_Message pd') = m)"
proof -
  define h where "h = HeaderLen cfg"
  define off where "off = h - 12"
  define bs where "bs = br_bytes r"
  have hc: "h = 12 \<and> \<not> ProtocolVersion cfg \<ge> 1 \<and> off = 0 \<or> h = 13 \<and> ProtocolVersion cfg \<ge> 1 \<and> off = 1"
    using HeaderLen_cases[of cfg] by (auto simp: h_def off_def)
  have h0: "0 < h" "h \<le> 13" using hc by auto
  show ?thesis
  proof (cases "length bs < h")
    case True
    then show ?thesis
      by (auto simp: ReadOneFromBufio_def decode_frame_def io_ReadFull_def br_consume_def Let_def
            simp flip: h_def bs_def)
  next
    case False
    then have hl: "h \<le> length bs" by simp
    define l where "l = be32 (take 4 (drop (off + 8) bs))"
    define i where "i = be32 (take 4 (drop off bs))"
    define s where "s = be32 (take 4 (drop (off + 4) bs))"
    note d = decode_frame_header[OF h_def off_def hl l_def, folded i_def s_def]
    define hdr where "hdr = go_copy (replicate 13 0) 0 (take h bs)"
    have hc': "h = 12 \<and> off = 0 \<or> h = 13 \<and> off = 1" using hc by auto
    have hx: "hdr = take h bs @ replicate (13 - h) 0" using hl h0 by (simp add: hdr_def go_copy_def min_def)
    have w: "be_u32 hdr (off + j) = be32 (take 4 (drop (off + j) bs))" if "j \<le> 8" for j
    proof -
      have lt: "off + j + k < h" if "k < 4" for k using hc' that \<open>j \<le> 8\<close> by auto
      have "be_u32 hdr (off + j) = be_u32 (take h bs) (off + j)"
        using lt[of 0] lt[of 1] lt[of 2] lt[of 3] hl unfolding be_u32_def hx by (simp add: nth_append)
      then show ?thesis using header_words[OF hc' hl that] by simp
    qed
    have w3: "be_u32 hdr off = i" "be_u32 hdr (off + 4) = s" "be_u32 hdr (off + 8) = l"
      using w[of 0] w[of 4] w[of 8] by (simp_all add: i_def s_def l_def)
    have off: "(if ProtocolVersion cfg \<ge> 1 then 1 else 0) = off" using hc by auto
    have z: "hdr ! 0 = bs ! 0" using h0 hl by (simp add: hx nth_append)
    have pv: "ProtocolVersion cfg \<ge> 1 \<longleftrightarrow> off = 1" using hc by auto
    have rf: "io_ReadFull h r = ((take h bs, None), br_consume h r)" using hl by (simp add: io_ReadFull_def bs_def)
    define rest where "rest = (let dataLength = unat l; pd1 = set_header i s pd
                in if dataLength = 0 then ((True, None), br_consume h r, set_data [] pd1)
                   else let ((bbs, e2), r2) = io_ReadFull dataLength (br_consume h r);
                            buf = go_copy (GetBytesBuffer stale dataLength) 0 bbs
                        in case e2 of
                             Some err \<Rightarrow> ((False, Some err), r2, pd1)
                           | None \<Rightarrow> ((True, None), r2,
                               set_data buf (pd1\<lparr>pd_OwnedBuffers := pd_OwnedBuffers pd1 @ [buf]\<rparr>)))"
    have p: "ReadOneFromBufio cfg stale r pd =
      (if off = 1 \<and> bs ! 0 \<noteq> ProtocolVersion cfg then ((False, Some VersionMismatch), br_consume h r, pd)
       else case check_header cfg i l of Some e \<Rightarrow> ((False, Some e), br_consume h r, pd) | None \<Rightarrow> rest)"
      unfolding ReadOneFromBufio_def h_def[symmetric] rf Let_def prod.case option.case
      unfolding off hdr_def[symmetric] unfolding w3 z pv rest_def Let_def by (rule refl)
    show ?thesis
    proof (cases "off = 1 \<and> bs ! 0 \<noteq> ProtocolVersion cfg")
      case True
      then show ?thesis unfolding bs_def[symmetric] h_def[symmetric] d p by simp
    next
      case ver: False
      show ?thesis
      proof (cases "check_header cfg i l")
        case (Some e)
        then show ?thesis using ver unfolding bs_def[symmetric] h_def[symmetric] d p by auto
      next
        case None
        have b: "br_bytes (br_consume h r) = drop h bs" by (simp add: br_consume_def bs_def)
        show ?thesis
        proof (cases "length bs < h + unat l")
          case True
          then have "unat l \<noteq> 0" "\<not> unat l \<le> length (drop h bs)" "bs \<noteq> []" using hl h0 by auto
          then have "\<exists>e r' pd'. rest = ((False, Some e), r', pd') \<and> br_bytes r' = []"
            by (auto simp: rest_def Let_def io_ReadFull_def b) (auto simp: br_consume_def bs_def)
          then show ?thesis using ver None True \<open>bs \<noteq> []\<close>
            unfolding bs_def[symmetric] h_def[symmetric] d p by auto
        next
          case F: False
          then have le: "unat l \<le> length (drop h bs)" by simp
          have "go_copy (GetBytesBuffer stale (unat l)) 0 (take (unat l) (drop h bs)) = take (unat l) (drop h bs)"
            using le by (simp add: go_copy_def)
          then have "\<exists>pd'. rest = ((True, None), br_consume (h + unat l) r, pd')
              \<and> wire_of (pd_Message pd') = (i, s, take (unat l) (drop h bs))"
            using le by (cases "unat l = 0") (auto simp: rest_def Let_def io_ReadFull_def b br_consume_twice)
          then show ?thesis using ver None F
            unfolding bs_def[symmetric] h_def[symmetric] d p by auto
        qed
      qed
    qed
  qed
qed

section \<open>Packets\<close>

lemma go_copy_at:
  assumes "length pre = off" "length b \<le> length suf"
  shows "go_copy (pre @ suf) off b = (pre @ b) @ drop (length b) suf"
  using assms by (simp add: go_copy_def)

lemma packet_bytes_eq:
  assumes "HeaderLen cfg \<le> length headerBuf"
  shows "packet_bytes cfg msg headerBuf = encode_frame cfg (wire_of msg)"
proof -
  let ?i = "be_bytes (nm_MsgId msg)" and ?s = "be_bytes (nm_SeqId msg)"
  let ?l = "be_bytes (of_nat (length (nm_Data msg)))"
  have three: "go_copy (go_copy (go_copy (pre @ suf) off ?i) (off + 4) ?s) (off + 8) ?l
      = pre @ ?i @ ?s @ ?l @ drop 12 suf" if "length pre = off" "12 \<le> length suf" for pre suf off
  proof -
    have "go_copy (pre @ suf) off ?i = (pre @ ?i) @ drop 4 suf"
      using go_copy_at[of pre off ?i suf] that by simp
    moreover have "go_copy ((pre @ ?i) @ drop 4 suf) (off + 4) ?s = (pre @ ?i @ ?s) @ drop 8 suf"
      using go_copy_at[of "pre @ ?i" "off + 4" ?s "drop 4 suf"] that by simp
    moreover have "go_copy ((pre @ ?i @ ?s) @ drop 8 suf) (off + 8) ?l = (pre @ ?i @ ?s @ ?l) @ drop 12 suf"
      using go_copy_at[of "pre @ ?i @ ?s" "off + 8" ?l "drop 8 suf"] that by simp
    ultimately show ?thesis by simp
  qed
  from HeaderLen_cases[of cfg] show ?thesis
  proof
    assume v: "HeaderLen cfg = 12 \<and> \<not> ProtocolVersion cfg \<ge> 1"
    then show ?thesis using three[of "[]" 0 headerBuf] assms
      by (simp add: packet_bytes_def PreparePacket_def PreparePacketFromWire_def encode_frame_def wire_of_def Let_def)
  next
    assume v: "HeaderLen cfg = 13 \<and> ProtocolVersion cfg \<ge> 1"
    then obtain x xs where h: "headerBuf = x # xs" "12 \<le> length xs" using assms by (cases headerBuf) auto
    then show ?thesis using three[of "[ProtocolVersion cfg]" 1 xs] v
      by (simp add: packet_bytes_def PreparePacket_def PreparePacketFromWire_def encode_frame_def wire_of_def Let_def)
  qed
qed

section \<open>The codec as a framing\<close>

interpretation fr: framing "decode_frame cfg" for cfg
proof
  fix xs :: "byte list" and m n
  assume "decode_frame cfg xs = Frame m n"
  then show "0 < n \<and> n \<le> length xs" using decode_frame_length[of cfg xs m n] by simp
next
  fix xs ys :: "byte list"
  assume "decode_frame cfg xs \<noteq> NeedMore"
  then show "decode_frame cfg (xs @ ys) = decode_frame cfg xs" by (rule decode_frame_prefix)
qed

lemma decode_Nil: "decode_frame cfg [] = NeedMore"
  using HeaderLen_cases[of cfg] by (auto simp: decode_frame_def Let_def)

text \<open>An incomplete frame is shorter than the largest frame of the configuration.\<close>

lemma need_more_short:
  assumes "decode_frame cfg xs = NeedMore" "0 \<le> MaxDataLength cfg" "MaxDataLength cfg < 2 ^ 62"
  shows "int (length xs) < RingBufferMaxSizeForSocket cfg"
proof -
  define h where "h = HeaderLen cfg"
  have hr: "RingBufferMaxSizeForSocket cfg =
      (if MaxDataLength cfg \<le> 0 then DefaultMaxDataLength else MaxDataLength cfg) + int h"
    using assms HeaderLen_cases[of cfg]
    by (auto simp: RingBufferMaxSizeForSocket_def Let_def headerSizeV0_def headerSizeV1_def DefaultMaxDataLength_def h_def)
  show ?thesis
  proof (cases "length xs < h")
    case True
    then show ?thesis using assms unfolding hr by (simp add: DefaultMaxDataLength_def)
  next
    case False
    define l where "l = be32 (take 4 (drop (h - 12 + 8) xs))"
    have "check_header cfg (be32 (take 4 (drop (h - 12) xs))) l = None \<and> length xs < h + unat l"
      using assms(1) False unfolding decode_frame_def Let_def h_def[symmetric] l_def[symmetric]
      by (auto split: if_splits option.splits)
    then have "int (unat l) \<le> MaxDataLength cfg" "int (length xs) < int h + int (unat l)"
      unfolding check_header_None_iff by linarith+
    then show ?thesis unfolding hr by (auto simp: DefaultMaxDataLength_def)
  qed
qed

section \<open>Properties\<close>

text \<open>A ring of 64 bytes that holds some bytes, for the concrete instances below.\<close>

definition ring_of :: "byte list \<Rightarrow> ring_buffer" where
  "ring_of bs = rb_put bs (NewRingBuffer 64 0)"

lemma ring_of_facts:
  assumes "length bs \<le> 64"
  shows "rb_inv (ring_of bs)" "rb_contents (ring_of bs) = bs" "rb_used (ring_of bs) = length bs"
proof -
  have n: "rb_inv (NewRingBuffer 64 0)" "rb_contents (NewRingBuffer 64 0) = []"
    by (rule NewRingBuffer_facts; simp)+
  have "nextPowerOfTwo64 64 = 64" by code_simp
  then have "length (rb_buf (NewRingBuffer 64 0)) = 64" by (simp add: NewRingBuffer_def Let_def)
  then have fit: "rb_used (NewRingBuffer 64 0) + length bs \<le> length (rb_buf (NewRingBuffer 64 0))"
    using assms arg_cong[OF n(2), of length] by simp
  show "rb_inv (ring_of bs)" "rb_contents (ring_of bs) = bs"
    using rb_put_facts[OF n(1) fit] n(2) by (simp_all add: ring_of_def)
  then show "rb_used (ring_of bs) = length bs" unfolding rb_used_contents by simp
qed

definition sample_pd :: parse_data where
  "sample_pd = \<lparr>pd_Message = empty_message, pd_Error = None, pd_OwnedBuffers = []\<rparr>"

lemma sample_wire_ok: "wire_ok DefaultSocketConfig (7, 1, [65, 66, 67])"
  by (simp add: wire_ok_def DefaultSocketConfig_def DefaultMaxMsgId_def DefaultMaxDataLength_def)

text \<open>
  C12: \<open>ParseFromRingBuffer\<close> implements the codec on the contents of any well-formed ring,
  wrapped or not and whatever the pooled buffers hold: it never panics; on an incomplete
  frame and on a protocol error it consumes nothing and leaves the message alone; on a
  complete frame it delivers exactly the decoded message and consumes exactly its frame.
\<close>

theorem parse_ring_refines_codec:
  assumes "rb_inv rb"
  shows "case decode_frame cfg (rb_contents rb) of
      NeedMore \<Rightarrow> ParseFromRingBuffer cfg stale rb pd = Some ((False, None), rb, pd)
    | Bad e \<Rightarrow> ParseFromRingBuffer cfg stale rb pd = Some ((False, Some e), rb, pd)
    | Frame m n \<Rightarrow> \<exists>rb' pd'. ParseFromRingBuffer cfg stale rb pd = Some ((True, None), rb', pd')
        \<and> rb_inv rb' \<and> rb_contents rb' = drop n (rb_contents rb) \<and> wire_of (pd_Message pd') = m"
  using ParseFromRingBuffer_facts[OF assms, of cfg stale pd] advance_read_facts[OF assms]
  by (auto split: frame_result.splits)

theorem parse_ring_refines_codec_witness:
  "\<exists>rb' pd'. ParseFromRingBuffer DefaultSocketConfig [] (ring_of (encode_frame DefaultSocketConfig (7, 1, [65, 66, 67]) @ [0, 0]))
      sample_pd = Some ((True, None), rb', pd') \<and> rb_contents rb' = [0, 0]
     \<and> wire_of (pd_Message pd') = (7, 1, [65, 66, 67])"
proof -
  let ?bs = "encode_frame DefaultSocketConfig (7, 1, [65, 66, 67])"
  have l: "length ?bs = 15" by (simp add: encode_frame_def DefaultSocketConfig_def)
  then have r: "rb_inv (ring_of (?bs @ [0, 0]))" "rb_contents (ring_of (?bs @ [0, 0])) = ?bs @ [0, 0]"
    by (intro ring_of_facts; simp)+
  note d = decode_encode[OF sample_wire_ok, of "[0, 0]"]
  show ?thesis
    using parse_ring_refines_codec[OF r(1), of DefaultSocketConfig "[]" sample_pd] unfolding r(2) d
    by (auto simp: l)
qed

text \<open>
  C21: The three parsers agree. Given the same bytes, \<open>ParseFromRingBuffer\<close> and
  \<open>ParseFromBufio\<close> return the same flag, the same error and, when they parse, the same
  message and the same number of bytes left; where they parse, so does the blocking
  \<open>ReadOneFromBufio\<close>, with the same message.
\<close>

theorem parsers_agree:
  assumes "rb_inv rb" "br_ok r" "rb_contents rb = br_visible r"
  shows "\<exists>res rb' r' pd1 pd2. ParseFromRingBuffer cfg stale rb pd = Some (res, rb', pd1)
     \<and> ParseFromBufio cfg r pd = (res, r', pd2)
     \<and> rb_contents rb' = br_visible r' \<and> wire_of (pd_Message pd1) = wire_of (pd_Message pd2)
     \<and> (fst res \<longrightarrow> (\<exists>r3 pd3. ReadOneFromBufio cfg stale3 r pd = (res, r3, pd3)
          \<and> wire_of (pd_Message pd3) = wire_of (pd_Message pd1) \<and> br_bytes r3 = br_bytes r'))"
proof (cases "decode_frame cfg (br_visible r)")
  case NeedMore
  then show ?thesis using ParseFromRingBuffer_facts[OF assms(1), of cfg stale pd] ParseFromBufio_facts[OF assms(2), of cfg pd]
    assms(3) by simp
next
  case (Bad e)
  then show ?thesis using ParseFromRingBuffer_facts[OF assms(1), of cfg stale pd] ParseFromBufio_facts[OF assms(2), of cfg pd]
    assms(3) by simp
next
  case (Frame m n)
  have "br_bytes r = br_visible r @ drop (br_buffered r) (br_bytes r)" by (simp add: br_visible_def)
  then have f: "decode_frame cfg (br_bytes r) = Frame m n"
    using decode_frame_prefix[of cfg "br_visible r" "drop (br_buffered r) (br_bytes r)"] Frame by simp
  have v: "n \<le> br_buffered r \<Longrightarrow> br_visible (br_consume n r) = drop n (br_visible r)"
    by (simp add: br_visible_def br_consume_def drop_take)
  show ?thesis using Frame f ParseFromRingBuffer_facts[OF assms(1), of cfg stale pd] ParseFromBufio_facts[OF assms(2), of cfg pd]
    ReadOneFromBufio_facts[where cfg=cfg and r=r and stale=stale3 and pd=pd] advance_read_facts(2)[OF assms(1), of n] assms(3) v by auto
qed

theorem parsers_agree_witness:
  "\<exists>res rb' pd1. ParseFromRingBuffer DefaultSocketConfig [] (ring_of [0, 0, 0]) sample_pd = Some (res, rb', pd1)
     \<and> (\<exists>r' pd2. ParseFromBufio DefaultSocketConfig \<lparr>br_bytes = [0, 0, 0], br_buffered = 3, br_err = EOF\<rparr> sample_pd = (res, r', pd2))"
proof -
  have r: "rb_inv (ring_of [0, 0, 0])" "rb_contents (ring_of [0, 0, 0]) = [0, 0, 0]" by (intro ring_of_facts; simp)+
  show ?thesis
    using parsers_agree[OF r(1), of "\<lparr>br_bytes = [0, 0, 0], br_buffered = 3, br_err = EOF\<rparr>" DefaultSocketConfig "[]" sample_pd "[]"]
    unfolding r(2) by (auto simp: br_ok_def br_visible_def)
qed

text \<open>
  C22: The wire codec is exact. What \<open>PreparePacketFromWire\<close> puts on the wire is the encoding
  of its message; every acceptable message survives the round trip, whatever follows it on
  the stream; and a frame is only ever decoded from the one encoding of its message, so
  the header is canonical and the limits are enforced.
\<close>

theorem wire_codec_exact:
  assumes "HeaderLen cfg \<le> length headerBuf"
  shows "packet_bytes cfg msg headerBuf = encode_frame cfg (wire_of msg)
     \<and> (decode_frame cfg xs = Frame m n \<longleftrightarrow>
         wire_ok cfg m \<and> n = length (encode_frame cfg m) \<and> n \<le> length xs \<and> take n xs = encode_frame cfg m)"
proof
  show "packet_bytes cfg msg headerBuf = encode_frame cfg (wire_of msg)" using assms by (rule packet_bytes_eq)
  show "decode_frame cfg xs = Frame m n \<longleftrightarrow>
         wire_ok cfg m \<and> n = length (encode_frame cfg m) \<and> n \<le> length xs \<and> take n xs = encode_frame cfg m"
  proof
    assume d: "decode_frame cfg xs = Frame m n"
    then have "n \<le> length xs" using decode_frame_length by blast
    then show "wire_ok cfg m \<and> n = length (encode_frame cfg m) \<and> n \<le> length xs \<and> take n xs = encode_frame cfg m"
      using encode_decode[OF d] by simp
  next
    assume a: "wire_ok cfg m \<and> n = length (encode_frame cfg m) \<and> n \<le> length xs \<and> take n xs = encode_frame cfg m"
    then have "xs = encode_frame cfg m @ drop n xs" by (metis append_take_drop_id)
    then show "decode_frame cfg xs = Frame m n" using decode_encode[of cfg m "drop n xs"] a by simp
  qed
qed

theorem wire_codec_exact_witness:
  "packet_bytes DefaultSocketConfig (empty_message\<lparr>nm_MsgId := 7, nm_SeqId := 1, nm_Data := [65]\<rparr>) (replicate 13 0)
     = [0, 0, 0, 7, 0, 0, 0, 1, 0, 0, 0, 1, 65]"
proof -
  have h: "HeaderLen DefaultSocketConfig \<le> length (replicate 13 (0 :: byte))"
    by (simp add: HeaderLen_def DefaultSocketConfig_def)
  have b: "be_bytes 7 = [0, 0, 0, 7]" "be_bytes 1 = [0, 0, 0, 1]" by code_simp+
  show ?thesis
    using wire_codec_exact[OF h, of "empty_message\<lparr>nm_MsgId := 7, nm_SeqId := 1, nm_Data := [65]\<rparr>"]
    by (simp add: encode_frame_def wire_of_def DefaultSocketConfig_def b)
qed



text \<open>
  C24: A connection cannot get stuck on a full ring: the ring that \<open>GetRingBufferForSocket\<close>
  sizes for a configuration always has room to grow while it holds an incomplete frame
  that the configuration could still accept.
\<close>

theorem incomplete_frame_has_room:
  assumes "rb_inv fromPool" "0 \<le> MaxDataLength cfg" "MaxDataLength cfg < 2 ^ 62"
    and "decode_frame cfg (rb_contents rb) = NeedMore"
    and "rb_maxSize rb = rb_maxSize (GetRingBufferForSocket cfg pooledMax fromPool)"
  shows "rb_used rb < unat (rb_maxSize rb)"
proof -
  have "is_ceil_pow2 (nat (RingBufferMaxSizeForSocket cfg)) (unat (rb_maxSize rb))"
    using GetRingBufferForSocket_facts(3)[OF assms(1,3)] assms(5) by simp
  then have "nat (RingBufferMaxSizeForSocket cfg) \<le> unat (rb_maxSize rb)" by (rule is_ceil_pow2_bounds(1))
  moreover have "int (rb_used rb) < RingBufferMaxSizeForSocket cfg"
    using need_more_short[OF assms(4,2,3)] by simp
  ultimately show ?thesis by linarith
qed

theorem incomplete_frame_has_room_witness:
  "rb_used (GetRingBufferForSocket DefaultSocketConfig 0 (ring_of []))
     < unat (rb_maxSize (GetRingBufferForSocket DefaultSocketConfig 0 (ring_of [])))"
proof -
  have r: "rb_inv (ring_of [])" by (intro ring_of_facts) simp
  have m: "0 \<le> MaxDataLength DefaultSocketConfig" "MaxDataLength DefaultSocketConfig < 2 ^ 62"
    by (simp_all add: DefaultSocketConfig_def DefaultMaxDataLength_def)
  have d: "decode_frame DefaultSocketConfig (rb_contents (GetRingBufferForSocket DefaultSocketConfig 0 (ring_of []))) = NeedMore"
    using GetRingBufferForSocket_facts(2)[OF r m(2)] by (simp add: decode_Nil)
  show ?thesis by (rule incomplete_frame_has_room[OF r m d refl])
qed

end
