(* ===== verification/Unbounded_MPSC.thy ===== *)
theory Unbounded_MPSC
  imports Base_Prelude Fifo_Spec
begin

text \<open>
  \<^verbatim>\<open>zqueue/unboundedmpsc.go\<close>: the unbounded lock-free queue behind every connection's send
  path, on an explicit store of list nodes. First the operations as the code runs them
  when nothing interleaves, then the same atomic accesses as a step relation in which any
  number of producers interleave with the one consumer.
\<close>

section \<open>The node store\<close>

text \<open>
  A node is an address; \<open>us_next\<close> and \<open>us_val\<close> are its fields (\<open>None\<close> is the nil pointer).
  \<open>us_pool\<close> holds the nodes in \<open>nodePool\<close>, \<open>us_fresh\<close> the next address never handed out.
  The pool hands out any of its nodes, or a new one; the number \<open>k\<close> given to \<open>pool_get\<close>
  selects which.
\<close>

record 'a umpsc =
  us_next :: "nat \<Rightarrow> nat option"
  us_val :: "nat \<Rightarrow> 'a"
  us_head :: nat
  us_tail :: nat
  us_pool :: "nat list"
  us_fresh :: nat
  us_recycle :: "nat list"
  us_recycleCap :: nat
  us_stopped :: bool

definition pool_get :: "nat \<Rightarrow> 'a umpsc \<Rightarrow> nat \<times> 'a umpsc" where
  "pool_get k s =
     (if k < length (us_pool s)
      then (us_pool s ! k, s\<lparr>us_pool := take k (us_pool s) @ drop (Suc k) (us_pool s)\<rparr>)
      else (us_fresh s, s\<lparr>us_fresh := us_fresh s + 1\<rparr>))"

definition pool_put :: "nat list \<Rightarrow> 'a umpsc \<Rightarrow> 'a umpsc" where
  "pool_put ns s = s\<lparr>us_pool := us_pool s @ ns\<rparr>"

definition set_next :: "nat \<Rightarrow> nat option \<Rightarrow> 'a umpsc \<Rightarrow> 'a umpsc" where
  "set_next n x s = s\<lparr>us_next := (us_next s)(n := x)\<rparr>"

definition set_val :: "nat \<Rightarrow> 'a \<Rightarrow> 'a umpsc \<Rightarrow> 'a umpsc" where
  "set_val n v s = s\<lparr>us_val := (us_val s)(n := v)\<rparr>"

definition swap_head :: "nat \<Rightarrow> 'a umpsc \<Rightarrow> nat \<times> 'a umpsc" where
  "swap_head n s = (us_head s, s\<lparr>us_head := n\<rparr>)"

definition NewUnboundedMPSC :: "'a::zero umpsc" where
  "NewUnboundedMPSC = \<lparr>us_next = (\<lambda>_. None), us_val = (\<lambda>_. 0), us_head = 0, us_tail = 0, us_pool = [],
     us_fresh = 1, us_recycle = [], us_recycleCap = 256, us_stopped = False\<rparr>"

section \<open>Producer operations\<close>

definition StopEnqueue :: "'a umpsc \<Rightarrow> 'a umpsc" where "StopEnqueue s = s\<lparr>us_stopped := True\<rparr>"

definition TryEnqueueM :: "'a::zero \<Rightarrow> 'a umpsc \<Rightarrow> bool \<times> 'a umpsc" where
  "TryEnqueueM v s =
     (if us_stopped s then (False, s)
      else let (n, s1) = pool_get 0 s; s2 = set_next n None (set_val n v s1)
           in if us_stopped s2 then (False, pool_put [n] (set_val n 0 s2))
              else let (prev, s3) = swap_head n s2 in (True, set_next prev (Some n) s3))"

definition EnqueueM :: "'a::zero \<Rightarrow> 'a umpsc \<Rightarrow> 'a umpsc" where
  "EnqueueM v s = snd (TryEnqueueM v s)"

text \<open>
  The batch: nodes are taken and chained one by one; \<open>build_chain\<close> returns the last node.
  A stop seen after that gives the chain back node by node, following the links.
\<close>

fun build_chain :: "nat \<Rightarrow> 'a list \<Rightarrow> 'a umpsc \<Rightarrow> nat \<times> 'a umpsc" where
  "build_chain cur [] s = (cur, s)"
| "build_chain cur (x # xs) s =
     (let (n, s1) = pool_get 0 s in build_chain n xs (set_next cur (Some n) (set_val n x s1)))"

fun give_back :: "nat \<Rightarrow> nat option \<Rightarrow> 'a::zero umpsc \<Rightarrow> 'a umpsc" where
  "give_back 0 node s = s"
| "give_back (Suc fuel) node s = (case node of None \<Rightarrow> s
     | Some n \<Rightarrow> give_back fuel (us_next s n) (pool_put [n] (set_val n 0 s)))"

definition EnqueueBatchM :: "'a::zero list \<Rightarrow> 'a umpsc \<Rightarrow> 'a umpsc" where
  "EnqueueBatchM elements s =
     (case elements of [] \<Rightarrow> s | x # xs \<Rightarrow>
       if us_stopped s then s
       else let (first, s1) = pool_get 0 s; (lst, s2) = build_chain first xs (set_val first x s1);
                s3 = set_next lst None s2
            in if us_stopped s3 then give_back (length elements) (Some first) s3
               else let (prev, s4) = swap_head lst s3 in set_next prev (Some first) s4)"

section \<open>Consumer operations\<close>

definition recycle :: "nat \<Rightarrow> 'a umpsc \<Rightarrow> 'a umpsc" where
  "recycle n s =
     (if length (us_recycle s) < us_recycleCap s then s\<lparr>us_recycle := us_recycle s @ [n]\<rparr>
      else (pool_put (us_recycle s) s)\<lparr>us_recycle := [n]\<rparr>)"

definition DequeueM :: "'a::zero umpsc \<Rightarrow> ('a \<times> bool) \<times> 'a umpsc" where
  "DequeueM s =
     (let tail = us_tail s
      in case us_next s tail of None \<Rightarrow> ((0, False), s)
         | Some nxt \<Rightarrow>
             let v = us_val s nxt; s1 = (set_val nxt 0 s)\<lparr>us_tail := nxt\<rparr>;
                 s2 = set_val tail 0 (set_next tail None s1)
             in ((v, True), recycle tail s2))"

fun dequeue_loop :: "nat \<Rightarrow> 'a::zero umpsc \<Rightarrow> 'a list \<times> 'a umpsc" where
  "dequeue_loop 0 s = ([], s)"
| "dequeue_loop (Suc room) s =
     (let ((v, ok), s1) = DequeueM s
      in if ok then let (vs, s2) = dequeue_loop room s1 in (v # vs, s2) else ([], s))"

text \<open>\<open>DequeueBatch(buffer)\<close> with \<open>len(buffer) = lim\<close>: the elements stored at its front.\<close>

definition DequeueBatchM :: "nat \<Rightarrow> 'a::zero umpsc \<Rightarrow> 'a list \<times> 'a umpsc" where
  "DequeueBatchM lim s = (if lim = 0 then ([], s) else dequeue_loop lim s)"

definition EmptyM :: "'a umpsc \<Rightarrow> bool" where "EmptyM s \<longleftrightarrow> us_next s (us_tail s) = None"

definition Shrink :: "'a umpsc \<Rightarrow> 'a umpsc" where
  "Shrink s = (pool_put (us_recycle s) s)\<lparr>us_recycle := []\<rparr>"

definition CloseM :: "'a umpsc \<Rightarrow> 'a umpsc" where
  "CloseM s = (let s1 = StopEnqueue s in (pool_put (us_recycle s1) s1)\<lparr>us_recycle := []\<rparr>)"

section \<open>Interleaving\<close>

text \<open>
  Where a producer is inside \<open>TryEnqueue\<close> or \<open>EnqueueBatch\<close>: about to take nodes for the
  values still to come (\<open>Building\<close>), done with its private chain and about to look at the
  stop flag again (\<open>Ready\<close>), about to swap itself in (\<open>Swapping\<close>), or about to store the
  link from the previous head (\<open>Linking\<close>). A \<open>TryEnqueue\<close> is a batch of one. The state
  also logs the values in the order of the swaps and in the order of the removals.
\<close>

datatype 'a prod_pc = Idle | Building "nat list" "'a list" | Ready "nat list" | Swapping "nat list"
  | Linking nat nat

record 'a mpsc_sys =
  sys_q :: "'a umpsc"
  sys_pc :: "nat \<Rightarrow> 'a prod_pc"
  sys_in :: "'a list"
  sys_out :: "'a list"

definition chain_node :: "nat list \<Rightarrow> nat \<Rightarrow> 'a \<Rightarrow> 'a umpsc \<Rightarrow> 'a umpsc" where
  "chain_node ns n x s =
     (let s1 = set_val n x s in if ns = [] then s1 else set_next (last ns) (Some n) s1)"

fun clear_vals :: "nat list \<Rightarrow> 'a::zero umpsc \<Rightarrow> 'a umpsc" where
  "clear_vals [] s = s"
| "clear_vals (n # ns) s = clear_vals ns (set_val n 0 s)"

inductive mpsc_step :: "'a::zero mpsc_sys \<Rightarrow> 'a mpsc_sys \<Rightarrow> bool" where
  start: "sys_pc m p = Idle \<Longrightarrow> xs \<noteq> [] \<Longrightarrow> \<not> us_stopped (sys_q m) \<Longrightarrow>
    mpsc_step m (m\<lparr>sys_pc := (sys_pc m)(p := Building [] xs)\<rparr>)"
| build: "sys_pc m p = Building ns (x # xs) \<Longrightarrow> pool_get k (sys_q m) = (n, q1) \<Longrightarrow>
    mpsc_step m (m\<lparr>sys_q := chain_node ns n x q1, sys_pc := (sys_pc m)(p := Building (ns @ [n]) xs)\<rparr>)"
| built: "sys_pc m p = Building ns [] \<Longrightarrow>
    mpsc_step m (m\<lparr>sys_q := set_next (last ns) None (sys_q m), sys_pc := (sys_pc m)(p := Ready ns)\<rparr>)"
| refuse: "sys_pc m p = Ready ns \<Longrightarrow> us_stopped (sys_q m) \<Longrightarrow>
    mpsc_step m (m\<lparr>sys_q := pool_put ns (clear_vals ns (sys_q m)), sys_pc := (sys_pc m)(p := Idle)\<rparr>)"
| recheck: "sys_pc m p = Ready ns \<Longrightarrow> \<not> us_stopped (sys_q m) \<Longrightarrow>
    mpsc_step m (m\<lparr>sys_pc := (sys_pc m)(p := Swapping ns)\<rparr>)"
| swap: "sys_pc m p = Swapping ns \<Longrightarrow> swap_head (last ns) (sys_q m) = (prev, q1) \<Longrightarrow>
    mpsc_step m (m\<lparr>sys_q := q1, sys_pc := (sys_pc m)(p := Linking prev (hd ns)),
                   sys_in := sys_in m @ map (us_val (sys_q m)) ns\<rparr>)"
| link: "sys_pc m p = Linking prev n \<Longrightarrow>
    mpsc_step m (m\<lparr>sys_q := set_next prev (Some n) (sys_q m), sys_pc := (sys_pc m)(p := Idle)\<rparr>)"
| dequeue: "DequeueM (sys_q m) = ((v, ok), q1) \<Longrightarrow>
    mpsc_step m (m\<lparr>sys_q := q1, sys_out := sys_out m @ (if ok then [v] else [])\<rparr>)"
| shrink: "mpsc_step m (m\<lparr>sys_q := Shrink (sys_q m)\<rparr>)"
| stop: "mpsc_step m (m\<lparr>sys_q := StopEnqueue (sys_q m)\<rparr>)"

definition mpsc_init :: "'a::zero mpsc_sys" where
  "mpsc_init = \<lparr>sys_q = NewUnboundedMPSC, sys_pc = (\<lambda>_. Idle), sys_in = [], sys_out = []\<rparr>"

inductive mpsc_reach :: "'a::zero mpsc_sys \<Rightarrow> bool" where
  init: "mpsc_reach mpsc_init"
| step: "mpsc_reach m \<Longrightarrow> mpsc_step m m' \<Longrightarrow> mpsc_reach m'"

inductive_cases mpsc_stepE: "mpsc_step m m'"

section \<open>Invariant\<close>

text \<open>
  The chain is the list of nodes from the consumer's sentinel to the last node swapped in.
  Each link of it is stored or about to be stored by exactly one producer; every other
  node is in the pool, in the consumer's cache or private to one producer.
\<close>

fun owned :: "'a prod_pc \<Rightarrow> nat list" where
  "owned Idle = []"
| "owned (Building ns xs) = ns"
| "owned (Ready ns) = ns"
| "owned (Swapping ns) = ns"
| "owned (Linking a b) = []"

definition links :: "(nat \<Rightarrow> nat option) \<Rightarrow> nat list \<Rightarrow> bool" where
  "links nx ns \<longleftrightarrow> (\<forall>i. Suc i < length ns \<longrightarrow> nx (ns ! i) = Some (ns ! Suc i))"

definition consec :: "nat list \<Rightarrow> nat \<Rightarrow> nat \<Rightarrow> bool" where
  "consec ns a b \<longleftrightarrow> (\<exists>i. Suc i < length ns \<and> ns ! i = a \<and> ns ! Suc i = b)"

fun pc_ok :: "(nat \<Rightarrow> nat option) \<Rightarrow> nat list \<Rightarrow> 'a prod_pc \<Rightarrow> bool" where
  "pc_ok nx chain Idle = True"
| "pc_ok nx chain (Building ns xs) = (links nx ns \<and> (ns = [] \<longrightarrow> xs \<noteq> []))"
| "pc_ok nx chain (Ready ns) = (ns \<noteq> [] \<and> links nx ns \<and> nx (last ns) = None)"
| "pc_ok nx chain (Swapping ns) = (ns \<noteq> [] \<and> links nx ns \<and> nx (last ns) = None)"
| "pc_ok nx chain (Linking a b) = (nx a = None \<and> consec chain a b)"

definition node_ok :: "'a umpsc \<Rightarrow> (nat \<Rightarrow> 'a prod_pc) \<Rightarrow> nat list \<Rightarrow> bool" where
  "node_ok q pcs chain \<longleftrightarrow>
     distinct (chain @ us_pool q @ us_recycle q)
     \<and> (\<forall>n \<in> set (chain @ us_pool q @ us_recycle q). n < us_fresh q)
     \<and> (\<forall>p. distinct (owned (pcs p)))
     \<and> (\<forall>p. \<forall>n \<in> set (owned (pcs p)). n < us_fresh q \<and> n \<notin> set (chain @ us_pool q @ us_recycle q))
     \<and> (\<forall>p r. p \<noteq> r \<longrightarrow> set (owned (pcs p)) \<inter> set (owned (pcs r)) = {})"

definition chain_ok :: "'a umpsc \<Rightarrow> (nat \<Rightarrow> 'a prod_pc) \<Rightarrow> nat list \<Rightarrow> bool" where
  "chain_ok q pcs chain \<longleftrightarrow>
     chain \<noteq> [] \<and> hd chain = us_tail q \<and> last chain = us_head q \<and> us_next q (last chain) = None
     \<and> (\<forall>a b. consec chain a b \<longrightarrow> us_next q a = Some b \<or> (us_next q a = None \<and> (\<exists>p. pcs p = Linking a b)))
     \<and> (\<forall>p r a b c. pcs p = Linking a b \<longrightarrow> pcs r = Linking a c \<longrightarrow> p = r)"

definition umpsc_inv :: "'a umpsc \<Rightarrow> (nat \<Rightarrow> 'a prod_pc) \<Rightarrow> nat list \<Rightarrow> bool" where
  "umpsc_inv q pcs chain \<longleftrightarrow> node_ok q pcs chain \<and> chain_ok q pcs chain
     \<and> (\<forall>p. pc_ok (us_next q) chain (pcs p))"

definition mpsc_inv :: "'a mpsc_sys \<Rightarrow> nat list \<Rightarrow> bool" where
  "mpsc_inv m chain \<longleftrightarrow> umpsc_inv (sys_q m) (sys_pc m) chain
     \<and> sys_in m = sys_out m @ map (us_val (sys_q m)) (tl chain)"

lemma node_okD:
  assumes "node_ok q pcs chain"
  shows "distinct chain" "distinct (us_pool q)" "distinct (us_recycle q)"
    "n \<in> set chain \<Longrightarrow> n \<notin> set (us_pool q) \<and> n \<notin> set (us_recycle q) \<and> n < us_fresh q"
    "n \<in> set (us_pool q) \<Longrightarrow> n \<notin> set (us_recycle q) \<and> n < us_fresh q"
    "n \<in> set (us_recycle q) \<Longrightarrow> n < us_fresh q"
    "n \<in> set (owned (pcs p)) \<Longrightarrow> n < us_fresh q \<and> n \<notin> set chain \<and> n \<notin> set (us_pool q) \<and> n \<notin> set (us_recycle q)"
    "distinct (owned (pcs p))"
    "n \<in> set (owned (pcs p)) \<Longrightarrow> n \<in> set (owned (pcs r)) \<Longrightarrow> p = r"
  using assms unfolding node_ok_def by auto blast

lemma node_okI:
  assumes "distinct chain" "distinct (us_pool q)" "distinct (us_recycle q)"
    "\<And>n. n \<in> set chain \<Longrightarrow> n \<notin> set (us_pool q) \<and> n \<notin> set (us_recycle q) \<and> n < us_fresh q"
    "\<And>n. n \<in> set (us_pool q) \<Longrightarrow> n \<notin> set (us_recycle q) \<and> n < us_fresh q"
    "\<And>n. n \<in> set (us_recycle q) \<Longrightarrow> n < us_fresh q"
    "\<And>n p. n \<in> set (owned (pcs p)) \<Longrightarrow> n < us_fresh q \<and> n \<notin> set chain \<and> n \<notin> set (us_pool q) \<and> n \<notin> set (us_recycle q)"
    "\<And>p. distinct (owned (pcs p))"
    "\<And>n p r. n \<in> set (owned (pcs p)) \<Longrightarrow> n \<in> set (owned (pcs r)) \<Longrightarrow> p = r"
  shows "node_ok q pcs chain"
  using assms unfolding node_ok_def by auto

lemma consecD: "consec ns a b \<Longrightarrow> a \<in> set ns \<and> b \<in> set ns"
  by (auto simp: consec_def)

lemma consec_fun: "distinct ns \<Longrightarrow> consec ns a b \<Longrightarrow> consec ns a c \<Longrightarrow> b = c"
  by (auto simp: consec_def nth_eq_iff_index_eq)

lemma consec_not_last:
  assumes "distinct ns" "consec ns a b" shows "a \<noteq> last ns"
proof
  assume "a = last ns"
  obtain i where i: "Suc i < length ns" "ns ! i = a" using assms(2) by (auto simp: consec_def)
  then have "ns ! i = ns ! (length ns - 1)" using \<open>a = last ns\<close> by (metis last_conv_nth list.size(3) not_less_zero)
  then have "i = length ns - 1" using assms(1) i by (subst (asm) nth_eq_iff_index_eq) auto
  then show False using i by simp
qed

lemma consec_append:
  assumes "xs \<noteq> []" "ys \<noteq> []"
  shows "consec (xs @ ys) a b \<longleftrightarrow> consec xs a b \<or> consec ys a b \<or> (a = last xs \<and> b = hd ys)"
proof
  assume "consec (xs @ ys) a b"
  then obtain i where i: "Suc i < length (xs @ ys)" "(xs @ ys) ! i = a" "(xs @ ys) ! Suc i = b"
    by (auto simp: consec_def)
  consider "Suc i < length xs" | "Suc i = length xs" | "length xs \<le> i" by linarith
  then show "consec xs a b \<or> consec ys a b \<or> (a = last xs \<and> b = hd ys)"
  proof cases
    case 1 then show ?thesis using i by (auto simp: consec_def nth_append)
  next
    case 2
    then have "i = length xs - 1" by simp
    then show ?thesis using 2 i assms by (simp add: nth_append last_conv_nth hd_conv_nth)
  next
    case 3
    then have "Suc (i - length xs) < length ys" "ys ! (i - length xs) = a" "ys ! Suc (i - length xs) = b"
      using i by (auto simp: nth_append Suc_diff_le)
    then show ?thesis by (auto simp: consec_def)
  qed
next
  assume "consec xs a b \<or> consec ys a b \<or> (a = last xs \<and> b = hd ys)"
  then show "consec (xs @ ys) a b"
  proof (elim disjE)
    assume "consec xs a b"
    then show ?thesis by (fastforce simp: consec_def nth_append)
  next
    assume "consec ys a b"
    then obtain i where "Suc i < length ys" "ys ! i = a" "ys ! Suc i = b" by (auto simp: consec_def)
    then show ?thesis unfolding consec_def by (intro exI[of _ "length xs + i"]) (auto simp: nth_append)
  next
    assume "a = last xs \<and> b = hd ys"
    then show ?thesis using assms unfolding consec_def
      by (intro exI[of _ "length xs - 1"]) (auto simp: nth_append last_conv_nth hd_conv_nth)
  qed
qed

lemma consec_single [simp]: "\<not> consec [x] a b" and consec_Nil [simp]: "\<not> consec [] a b"
  by (auto simp: consec_def)

lemma consec_Cons: "ys \<noteq> [] \<Longrightarrow> consec (x # ys) a b \<longleftrightarrow> consec ys a b \<or> (a = x \<and> b = hd ys)"
  using consec_append[of "[x]" ys a b] by auto

lemma links_consec: "links nx ns \<longleftrightarrow> (\<forall>a b. consec ns a b \<longrightarrow> nx a = Some b)"
  by (auto simp: links_def consec_def)

lemma links_snoc: "ns \<noteq> [] \<Longrightarrow> links nx (ns @ [n]) \<longleftrightarrow> links nx ns \<and> nx (last ns) = Some n"
  by (auto simp: links_consec consec_append)

lemma links_update:
  assumes "links nx ns" "distinct ns" "x \<notin> set (butlast ns)"
  shows "links (nx(x := y)) ns"
proof -
  have "a \<noteq> x" if c: "consec ns a b" for a b
  proof -
    obtain i where "Suc i < length ns" "ns ! i = a" using c by (auto simp: consec_def)
    then have "a \<in> set (butlast ns)" by (metis Suc_lessD in_set_conv_nth length_butlast less_diff_conv nth_butlast Suc_eq_plus1)
    then show ?thesis using assms(3) by auto
  qed
  then show ?thesis using assms(1) by (auto simp: links_consec)
qed

lemma butlast_not_last: "distinct ns \<Longrightarrow> ns \<noteq> [] \<Longrightarrow> last ns \<notin> set (butlast ns)"
  by (cases ns rule: rev_cases) auto

text \<open>A producer that only touches nodes of its own leaves everyone else's facts alone.\<close>

lemma pc_ok_frame:
  assumes "pc_ok nx chain pc" "x \<notin> set (owned pc)" "x \<notin> set chain"
  shows "pc_ok (nx(x := y)) chain pc"
proof (cases pc)
  case (Building ns xs)
  then show ?thesis using assms by (auto simp: links_consec dest: consecD)
next
  case (Ready ns)
  then show ?thesis using assms last_in_set[of ns] by (auto simp: links_consec dest: consecD)
next
  case (Swapping ns)
  then show ?thesis using assms last_in_set[of ns] by (auto simp: links_consec dest: consecD)
next
  case (Linking a b)
  then show ?thesis using assms by (auto dest: consecD)
qed auto

lemma chain_ok_frame:
  assumes "chain_ok q pcs chain" "us_tail q' = us_tail q" "us_head q' = us_head q"
    "\<And>n. n \<in> set chain \<Longrightarrow> us_next q' n = us_next q n"
    "\<And>r a b. pcs' r = Linking a b \<longleftrightarrow> pcs r = Linking a b"
  shows "chain_ok q' pcs' chain"
proof -
  have n: "us_next q' (last chain) = us_next q (last chain)" if "chain \<noteq> []" using assms(4) that by simp
  have c: "consec chain a b \<Longrightarrow> us_next q' a = us_next q a" for a b using assms(4) consecD by blast
  show ?thesis using assms(1) n c unfolding chain_ok_def assms(2,3,5) by fastforce
qed


lemma umpsc_invD:
  assumes "umpsc_inv q pcs chain"
  shows "node_ok q pcs chain" "chain_ok q pcs chain" "pc_ok (us_next q) chain (pcs p)"
  using assms by (auto simp: umpsc_inv_def)

text \<open>The pool hands out a node that nobody else can reach.\<close>

lemma pool_get_facts:
  assumes "pool_get k q = (n, q1)" "node_ok q pcs chain"
  shows "node_ok q1 pcs chain" "n < us_fresh q1"
    "n \<notin> set chain" "n \<notin> set (us_pool q1)" "n \<notin> set (us_recycle q1)" "n \<notin> set (owned (pcs p))"
    "us_next q1 = us_next q" "us_val q1 = us_val q" "us_head q1 = us_head q" "us_tail q1 = us_tail q"
    "us_stopped q1 = us_stopped q" "us_recycle q1 = us_recycle q"
proof -
  note d = node_okD[OF assms(2)]
  have fields: "us_next q1 = us_next q" "us_val q1 = us_val q" "us_head q1 = us_head q" "us_tail q1 = us_tail q"
    "us_stopped q1 = us_stopped q" "us_recycle q1 = us_recycle q" "us_fresh q \<le> us_fresh q1"
    using assms(1) by (auto simp: pool_get_def split: if_splits)
  have p: "(n \<in> set (us_pool q) \<or> n = us_fresh q) \<and> n < us_fresh q1 \<and> n \<notin> set (us_pool q1)
      \<and> distinct (us_pool q1) \<and> set (us_pool q1) \<subseteq> set (us_pool q)"
  proof (cases "k < length (us_pool q)")
    case True
    then have n: "n = us_pool q ! k" "us_pool q1 = take k (us_pool q) @ drop (Suc k) (us_pool q)" "us_fresh q1 = us_fresh q"
      using assms(1) by (auto simp: pool_get_def)
    have sp: "us_pool q = take k (us_pool q) @ n # drop (Suc k) (us_pool q)"
      using True n(1) by (simp add: id_take_nth_drop)
    have "distinct (take k (us_pool q) @ n # drop (Suc k) (us_pool q))" using d(2) sp by simp
    moreover have "set (us_pool q1) \<subseteq> set (us_pool q)"
      using n(2) by (auto dest: in_set_takeD in_set_dropD)
    ultimately show ?thesis using n True d(5)[of n] by auto
  next
    case False
    then have "n = us_fresh q" "us_pool q1 = us_pool q" "us_fresh q1 = us_fresh q + 1"
      using assms(1) by (auto simp: pool_get_def)
    then show ?thesis using d(2,5) by auto
  qed
  show "us_next q1 = us_next q" "us_val q1 = us_val q" "us_head q1 = us_head q" "us_tail q1 = us_tail q"
    "us_stopped q1 = us_stopped q" "us_recycle q1 = us_recycle q" by (fact fields)+
  show "n < us_fresh q1" "n \<notin> set (us_pool q1)" using p by auto
  show "n \<notin> set chain" using p d(4)[of n] by auto
  show "n \<notin> set (us_recycle q1)" using p d(5)[of n] d(6)[of n] fields(6) by auto
  show "n \<notin> set (owned (pcs p))" using p d(7)[of n p] by auto
  show "node_ok q1 pcs chain"
  proof (rule node_okI)
    fix x assume "x \<in> set chain"
    then show "x \<notin> set (us_pool q1) \<and> x \<notin> set (us_recycle q1) \<and> x < us_fresh q1" using p d(4)[of x] fields by auto
  next
    fix x assume "x \<in> set (us_pool q1)"
    then show "x \<notin> set (us_recycle q1) \<and> x < us_fresh q1" using p d(5)[of x] fields by auto
  next
    fix x assume "x \<in> set (us_recycle q1)"
    then show "x < us_fresh q1" using d(6)[of x] fields by auto
  next
    fix x r assume "x \<in> set (owned (pcs r))"
    then show "x < us_fresh q1 \<and> x \<notin> set chain \<and> x \<notin> set (us_pool q1) \<and> x \<notin> set (us_recycle q1)"
      using p d(7)[of x r] fields by auto
  qed (use d p fields in auto)
qed

lemma node_ok_cong:
  assumes "node_ok q pcs chain" "us_pool q' = us_pool q" "us_recycle q' = us_recycle q" "us_fresh q' = us_fresh q"
    "\<And>r. owned (pcs' r) = owned (pcs r)"
  shows "node_ok q' pcs' chain"
  using assms unfolding node_ok_def by simp

lemma chain_node_facts [simp]:
  "us_pool (chain_node ns n x q) = us_pool q" "us_recycle (chain_node ns n x q) = us_recycle q"
  "us_fresh (chain_node ns n x q) = us_fresh q" "us_head (chain_node ns n x q) = us_head q"
  "us_tail (chain_node ns n x q) = us_tail q" "us_val (chain_node ns n x q) = (us_val q)(n := x)"
  "us_next (chain_node ns n x q) = (if ns = [] then us_next q else (us_next q)(last ns := Some n))"
  by (auto simp: chain_node_def set_val_def set_next_def Let_def)

lemma map_fun_upd_notin: "n \<notin> set xs \<Longrightarrow> map (f(n := v)) xs = map f xs"
  by (induction xs) auto

lemma in_tl: "x \<in> set (tl xs) \<Longrightarrow> x \<in> set xs"
  by (cases xs) auto

lemma inv_start:
  assumes "mpsc_inv m chain" "sys_pc m p = Idle" "xs \<noteq> []"
  shows "mpsc_inv (m\<lparr>sys_pc := (sys_pc m)(p := Building [] xs)\<rparr>) chain"
proof -
  have i: "umpsc_inv (sys_q m) (sys_pc m) chain" using assms(1) by (simp add: mpsc_inv_def)
  let ?pcs = "(sys_pc m)(p := Building [] xs)"
  have "node_ok (sys_q m) ?pcs chain" by (rule node_ok_cong[OF umpsc_invD(1)[OF i]]) (auto simp: assms(2))
  moreover have "chain_ok (sys_q m) ?pcs chain" by (rule chain_ok_frame[OF umpsc_invD(2)[OF i]]) (auto simp: assms(2))
  moreover have "pc_ok (us_next (sys_q m)) chain (?pcs r)" for r
    using umpsc_invD(3)[OF i, of r] assms(3) by (simp add: links_def)
  ultimately show ?thesis using assms(1) by (simp add: mpsc_inv_def umpsc_inv_def)
qed

lemma inv_build:
  assumes "mpsc_inv m chain" "sys_pc m p = Building ns (x # xs)" "pool_get k (sys_q m) = (n, q1)"
  shows "mpsc_inv (m\<lparr>sys_q := chain_node ns n x q1, sys_pc := (sys_pc m)(p := Building (ns @ [n]) xs)\<rparr>) chain"
proof -
  have i: "umpsc_inv (sys_q m) (sys_pc m) chain" using assms(1) by (simp add: mpsc_inv_def)
  note nd = umpsc_invD(1)[OF i]
  note g = pool_get_facts[OF assms(3) nd]
  note d = node_okD[OF g(1)]
  let ?q = "chain_node ns n x q1" and ?pcs = "(sys_pc m)(p := Building (ns @ [n]) xs)"
  have ow: "owned (sys_pc m p) = ns" by (simp add: assms(2))
  have nns: "n \<notin> set ns" using g(6)[of p] ow by simp
  have ns: "y \<in> set ns \<Longrightarrow> y \<notin> set chain" for y using d(7)[of y p] ow by auto
  have "node_ok ?q ?pcs chain"
  proof (rule node_okI)
    fix y r assume "y \<in> set (owned (?pcs r))"
    then show "y < us_fresh ?q \<and> y \<notin> set chain \<and> y \<notin> set (us_pool ?q) \<and> y \<notin> set (us_recycle ?q)"
      using d(7)[of y r] d(7)[of y p] ow g(2-5) by (auto split: if_splits)
  next
    fix r show "distinct (owned (?pcs r))" using d(8)[of r] d(8)[of p] ow nns by auto
  next
    fix y r t assume "y \<in> set (owned (?pcs r))" "y \<in> set (owned (?pcs t))"
    then show "r = t" using d(9)[of y r t] d(9)[of y p t] d(9)[of y r p] ow g(6)[of t] g(6)[of r]
      by (cases "r = p"; cases "t = p") auto
  qed (use d(1-6) in auto)
  moreover have "chain_ok ?q ?pcs chain"
    by (rule chain_ok_frame[OF umpsc_invD(2)[OF i]]) (use ns g in \<open>auto simp: assms(2)\<close>)
  moreover have "pc_ok (us_next ?q) chain (?pcs r)" for r
  proof (cases "r = p")
    case True
    have l: "links (us_next (sys_q m)) ns" using umpsc_invD(3)[OF i, of p] assms(2) by simp
    have "distinct ns" using d(8)[of p] ow by simp
    then have "links ((us_next (sys_q m))(last ns := Some n)) (ns @ [n])" if "ns \<noteq> []"
      using that l links_update[OF l] butlast_not_last[of ns] by (simp add: links_snoc)
    then show ?thesis using True g(7) by (auto simp: links_def)
  next
    case False
    have "last ns \<notin> set (owned (sys_pc m r))" if "ns \<noteq> []"
      using that d(9)[of "last ns" p r] ow False by auto
    then show ?thesis using False umpsc_invD(3)[OF i, of r] pc_ok_frame[of "us_next (sys_q m)" chain "sys_pc m r" "last ns"]
      ns[of "last ns"] g(7) by auto
  qed
  moreover have "map ((us_val (sys_q m))(n := x)) (tl chain) = map (us_val (sys_q m)) (tl chain)"
    using g(3) by (intro map_fun_upd_notin) (auto dest: in_tl)
  ultimately show ?thesis using assms(1) g(8) by (simp add: mpsc_inv_def umpsc_inv_def)
qed

lemma set_next_facts [simp]:
  "us_pool (set_next n x q) = us_pool q" "us_recycle (set_next n x q) = us_recycle q"
  "us_fresh (set_next n x q) = us_fresh q" "us_head (set_next n x q) = us_head q"
  "us_tail (set_next n x q) = us_tail q" "us_val (set_next n x q) = us_val q"
  "us_next (set_next n x q) = (us_next q)(n := x)" "us_stopped (set_next n x q) = us_stopped q"
  by (auto simp: set_next_def)

lemma inv_built:
  assumes "mpsc_inv m chain" "sys_pc m p = Building ns []"
  shows "mpsc_inv (m\<lparr>sys_q := set_next (last ns) None (sys_q m), sys_pc := (sys_pc m)(p := Ready ns)\<rparr>) chain"
proof -
  have i: "umpsc_inv (sys_q m) (sys_pc m) chain" using assms(1) by (simp add: mpsc_inv_def)
  note d = node_okD[OF umpsc_invD(1)[OF i]]
  let ?q = "set_next (last ns) None (sys_q m)" and ?pcs = "(sys_pc m)(p := Ready ns)"
  have l: "links (us_next (sys_q m)) ns" "ns \<noteq> []" using umpsc_invD(3)[OF i, of p] assms(2) by auto
  have ow: "owned (sys_pc m p) = ns" by (simp add: assms(2))
  have lc: "last ns \<notin> set chain" using d(7)[of "last ns" p] ow l(2) by simp
  have dn: "distinct ns" using d(8)[of p] ow by simp
  have "node_ok ?q ?pcs chain"
    by (rule node_ok_cong[OF umpsc_invD(1)[OF i]]) (auto simp: assms(2))
  moreover have "chain_ok ?q ?pcs chain"
    by (rule chain_ok_frame[OF umpsc_invD(2)[OF i]]) (use lc in \<open>auto simp: assms(2)\<close>)
  moreover have "pc_ok (us_next ?q) chain (?pcs r)" for r
  proof (cases "r = p")
    case True
    then show ?thesis using l links_update[OF l(1) dn butlast_not_last[OF dn l(2)]] by simp
  next
    case False
    have "last ns \<notin> set (owned (sys_pc m r))" using d(9)[of "last ns" p r] ow l(2) False by auto
    then show ?thesis using False pc_ok_frame[OF umpsc_invD(3)[OF i, of r] _ lc] by simp
  qed
  ultimately show ?thesis using assms(1) by (simp add: mpsc_inv_def umpsc_inv_def)
qed

lemma clear_vals_facts [simp]:
  "us_pool (clear_vals ns q) = us_pool q" "us_recycle (clear_vals ns q) = us_recycle q"
  "us_fresh (clear_vals ns q) = us_fresh q" "us_head (clear_vals ns q) = us_head q"
  "us_tail (clear_vals ns q) = us_tail q" "us_next (clear_vals ns q) = us_next q"
  by (induction ns arbitrary: q) (auto simp: set_val_def)

lemma clear_vals_val: "n \<notin> set ns \<Longrightarrow> us_val (clear_vals ns q) n = us_val q n"
  by (induction ns arbitrary: q) (auto simp: set_val_def)

lemma pool_put_facts [simp]:
  "us_pool (pool_put ns q) = us_pool q @ ns" "us_recycle (pool_put ns q) = us_recycle q"
  "us_fresh (pool_put ns q) = us_fresh q" "us_head (pool_put ns q) = us_head q"
  "us_tail (pool_put ns q) = us_tail q" "us_next (pool_put ns q) = us_next q" "us_val (pool_put ns q) = us_val q"
  by (auto simp: pool_put_def)

lemma inv_refuse:
  assumes "mpsc_inv m chain" "sys_pc m p = Ready ns"
  shows "mpsc_inv (m\<lparr>sys_q := pool_put ns (clear_vals ns (sys_q m)), sys_pc := (sys_pc m)(p := Idle)\<rparr>) chain"
proof -
  have i: "umpsc_inv (sys_q m) (sys_pc m) chain" using assms(1) by (simp add: mpsc_inv_def)
  note d = node_okD[OF umpsc_invD(1)[OF i]]
  let ?q = "pool_put ns (clear_vals ns (sys_q m))" and ?pcs = "(sys_pc m)(p := Idle)"
  have ow: "owned (sys_pc m p) = ns" by (simp add: assms(2))
  have ns: "y \<in> set ns \<Longrightarrow> y < us_fresh (sys_q m) \<and> y \<notin> set chain \<and> y \<notin> set (us_pool (sys_q m)) \<and> y \<notin> set (us_recycle (sys_q m))"
    for y using d(7)[of y p] ow by auto
  have "node_ok ?q ?pcs chain"
  proof (rule node_okI)
    show "distinct (us_pool ?q)" using d(2) d(8)[of p] ow ns by auto
  next
    fix y assume "y \<in> set chain"
    then show "y \<notin> set (us_pool ?q) \<and> y \<notin> set (us_recycle ?q) \<and> y < us_fresh ?q" using d(4)[of y] ns by auto
  next
    fix y assume "y \<in> set (us_pool ?q)"
    then show "y \<notin> set (us_recycle ?q) \<and> y < us_fresh ?q" using d(5)[of y] ns[of y] by auto
  next
    fix y r assume "y \<in> set (owned (?pcs r))"
    then have "r \<noteq> p" "y \<in> set (owned (sys_pc m r))" by (auto split: if_splits)
    then show "y < us_fresh ?q \<and> y \<notin> set chain \<and> y \<notin> set (us_pool ?q) \<and> y \<notin> set (us_recycle ?q)"
      using d(7)[of y r] d(9)[of y p r] ow by auto
  next
    fix r show "distinct (owned (?pcs r))" using d(8)[of r] by simp
  next
    fix y r t assume "y \<in> set (owned (?pcs r))" "y \<in> set (owned (?pcs t))"
    then show "r = t" using d(9)[of y r t] by (cases "r = p"; cases "t = p") auto
  qed (use d(1-6) in auto)
  moreover have "chain_ok ?q ?pcs chain"
    by (rule chain_ok_frame[OF umpsc_invD(2)[OF i]]) (auto simp: assms(2))
  moreover have "pc_ok (us_next ?q) chain (?pcs r)" for r using umpsc_invD(3)[OF i, of r] by simp
  moreover have "map (us_val (clear_vals ns (sys_q m))) (tl chain) = map (us_val (sys_q m)) (tl chain)"
    using ns by (intro map_cong) (auto intro!: clear_vals_val dest: in_tl)
  ultimately show ?thesis using assms(1) by (simp add: mpsc_inv_def umpsc_inv_def)
qed

lemma inv_recheck:
  assumes "mpsc_inv m chain" "sys_pc m p = Ready ns"
  shows "mpsc_inv (m\<lparr>sys_pc := (sys_pc m)(p := Swapping ns)\<rparr>) chain"
proof -
  have i: "umpsc_inv (sys_q m) (sys_pc m) chain" using assms(1) by (simp add: mpsc_inv_def)
  let ?pcs = "(sys_pc m)(p := Swapping ns)"
  have "node_ok (sys_q m) ?pcs chain" by (rule node_ok_cong[OF umpsc_invD(1)[OF i]]) (auto simp: assms(2))
  moreover have "chain_ok (sys_q m) ?pcs chain" by (rule chain_ok_frame[OF umpsc_invD(2)[OF i]]) (auto simp: assms(2))
  moreover have "pc_ok (us_next (sys_q m)) chain (?pcs r)" for r
    using umpsc_invD(3)[OF i, of r] umpsc_invD(3)[OF i, of p] assms(2) by simp
  ultimately show ?thesis using assms(1) by (simp add: mpsc_inv_def umpsc_inv_def)
qed

lemma inv_swap:
  assumes "mpsc_inv m chain" "sys_pc m p = Swapping ns" "swap_head (last ns) (sys_q m) = (prev, q1)"
  shows "mpsc_inv (m\<lparr>sys_q := q1, sys_pc := (sys_pc m)(p := Linking prev (hd ns)),
                   sys_in := sys_in m @ map (us_val (sys_q m)) ns\<rparr>) (chain @ ns)"
proof -
  have i: "umpsc_inv (sys_q m) (sys_pc m) chain" using assms(1) by (simp add: mpsc_inv_def)
  note d = node_okD[OF umpsc_invD(1)[OF i]]
  let ?pcs = "(sys_pc m)(p := Linking prev (hd ns))"
  have q1: "q1 = (sys_q m)\<lparr>us_head := last ns\<rparr>" "prev = us_head (sys_q m)"
    using assms(3) by (auto simp: swap_head_def)
  have ow: "owned (sys_pc m p) = ns" by (simp add: assms(2))
  have l: "ns \<noteq> []" "links (us_next (sys_q m)) ns" "us_next (sys_q m) (last ns) = None"
    using umpsc_invD(3)[OF i, of p] assms(2) by auto
  have c: "chain \<noteq> []" "hd chain = us_tail (sys_q m)" "last chain = us_head (sys_q m)" "us_next (sys_q m) (last chain) = None"
    "\<And>a b. consec chain a b \<Longrightarrow> us_next (sys_q m) a = Some b \<or> (us_next (sys_q m) a = None \<and> (\<exists>p. sys_pc m p = Linking a b))"
    "\<And>p r a b c. sys_pc m p = Linking a b \<Longrightarrow> sys_pc m r = Linking a c \<Longrightarrow> p = r"
    using umpsc_invD(2)[OF i] unfolding chain_ok_def by blast+
  have prev: "prev = last chain" using q1(2) c(3) by simp
  have nl: "a \<noteq> last chain" if "sys_pc m r = Linking a b" for r a b
  proof -
    have "consec chain a b" using umpsc_invD(3)[OF i, of r] that by simp
    then show ?thesis by (rule consec_not_last[OF d(1)])
  qed
  have ns: "y \<in> set ns \<Longrightarrow> y < us_fresh (sys_q m) \<and> y \<notin> set chain \<and> y \<notin> set (us_pool (sys_q m)) \<and> y \<notin> set (us_recycle (sys_q m))"
    for y using d(7)[of y p] ow by auto
  have "node_ok q1 ?pcs (chain @ ns)"
  proof (rule node_okI)
    show "distinct (chain @ ns)" using d(1) d(8)[of p] ow ns by auto
  next
    fix y assume "y \<in> set (chain @ ns)"
    then show "y \<notin> set (us_pool q1) \<and> y \<notin> set (us_recycle q1) \<and> y < us_fresh q1"
      using d(4)[of y] ns[of y] by (auto simp: q1(1))
  next
    fix y r assume "y \<in> set (owned (?pcs r))"
    then have "r \<noteq> p" "y \<in> set (owned (sys_pc m r))" by (auto split: if_splits)
    then show "y < us_fresh q1 \<and> y \<notin> set (chain @ ns) \<and> y \<notin> set (us_pool q1) \<and> y \<notin> set (us_recycle q1)"
      using d(7)[of y r] d(9)[of y p r] ow by (auto simp: q1(1))
  next
    fix r show "distinct (owned (?pcs r))" using d(8)[of r] by simp
  next
    fix y r t assume "y \<in> set (owned (?pcs r))" "y \<in> set (owned (?pcs t))"
    then show "r = t" using d(9)[of y r t] by (cases "r = p"; cases "t = p") auto
  qed (use d(1-6) in \<open>auto simp: q1(1)\<close>)
  moreover have "chain_ok q1 ?pcs (chain @ ns)"
    unfolding chain_ok_def
  proof (intro conjI allI impI)
    fix a b assume "consec (chain @ ns) a b"
    then consider "consec chain a b" | "consec ns a b" | "a = last chain" "b = hd ns"
      using consec_append[OF c(1) l(1)] by blast
    then show "us_next q1 a = Some b \<or> us_next q1 a = None \<and> (\<exists>r. ?pcs r = Linking a b)"
    proof cases
      case 1
      show ?thesis
      proof (cases "us_next (sys_q m) a = Some b")
        case False
        then obtain r where "us_next (sys_q m) a = None" "sys_pc m r = Linking a b" using c(5)[OF 1] by blast
        then show ?thesis using assms(2) by (auto simp: q1(1) intro!: exI[of _ r])
      qed (simp add: q1(1))
    next
      case 2
      then show ?thesis using l(2) by (auto simp: links_consec q1(1))
    next
      case 3
      then show ?thesis using c(4) prev by (auto simp: q1(1))
    qed
  next
    fix r t a b b' assume "?pcs r = Linking a b" "?pcs t = Linking a b'"
    then show "r = t" using c(6)[of r a b t b'] nl[of r a b] nl[of t a b'] prev by (auto split: if_splits)
  qed (use c(1,2) l in \<open>auto simp: q1(1)\<close>)
  moreover have "pc_ok (us_next q1) (chain @ ns) (?pcs r)" for r
  proof (cases "r = p")
    case True
    then show ?thesis using c(4) prev consec_append[OF c(1) l(1), of prev "hd ns"] by (simp add: q1(1))
  next
    case False
    have "consec (chain @ ns) a b" if "consec chain a b" for a b using consec_append[OF c(1) l(1)] that by blast
    then show ?thesis using False umpsc_invD(3)[OF i, of r] by (cases "sys_pc m r") (auto simp: q1(1))
  qed
  ultimately show ?thesis using assms(1) c(1) by (simp add: mpsc_inv_def umpsc_inv_def q1(1))
qed

lemma inv_link:
  assumes "mpsc_inv m chain" "sys_pc m p = Linking prev n"
  shows "mpsc_inv (m\<lparr>sys_q := set_next prev (Some n) (sys_q m), sys_pc := (sys_pc m)(p := Idle)\<rparr>) chain"
proof -
  have i: "umpsc_inv (sys_q m) (sys_pc m) chain" using assms(1) by (simp add: mpsc_inv_def)
  note d = node_okD[OF umpsc_invD(1)[OF i]]
  let ?q = "set_next prev (Some n) (sys_q m)" and ?pcs = "(sys_pc m)(p := Idle)"
  have l: "us_next (sys_q m) prev = None" "consec chain prev n" using umpsc_invD(3)[OF i, of p] assms(2) by auto
  have c: "chain \<noteq> []" "hd chain = us_tail (sys_q m)" "last chain = us_head (sys_q m)" "us_next (sys_q m) (last chain) = None"
    "\<And>a b. consec chain a b \<Longrightarrow> us_next (sys_q m) a = Some b \<or> (us_next (sys_q m) a = None \<and> (\<exists>p. sys_pc m p = Linking a b))"
    "\<And>p r a b c. sys_pc m p = Linking a b \<Longrightarrow> sys_pc m r = Linking a c \<Longrightarrow> p = r"
    using umpsc_invD(2)[OF i] unfolding chain_ok_def by blast+
  have pc: "prev \<in> set chain" "prev \<noteq> last chain" using l(2) consecD consec_not_last[OF d(1)] by auto
  have "node_ok ?q ?pcs chain"
    by (rule node_ok_cong[OF umpsc_invD(1)[OF i]]) (auto simp: assms(2))
  moreover have "chain_ok ?q ?pcs chain"
    unfolding chain_ok_def
  proof (intro conjI allI impI)
    fix a b assume ab: "consec chain a b"
    show "us_next ?q a = Some b \<or> us_next ?q a = None \<and> (\<exists>r. ?pcs r = Linking a b)"
    proof (cases "a = prev")
      case True
      then show ?thesis using consec_fun[OF d(1) ab] l(2) by auto
    next
      case False
      then show ?thesis using c(5)[OF ab] assms(2) by auto (metis prod_pc.inject(4))
    qed
  next
    fix r t a b b' assume "?pcs r = Linking a b" "?pcs t = Linking a b'"
    then show "r = t" using c(6)[of r a b t b'] by (auto split: if_splits)
  qed (use c(1-4) pc in auto)
  moreover have "pc_ok (us_next ?q) chain (?pcs r)" for r
  proof (cases "r = p")
    case False
    show ?thesis
    proof (cases "sys_pc m r")
      case (Linking a b)
      then have "a \<noteq> prev" using c(6)[of r a b p n] assms(2) False by auto
      then show ?thesis using False Linking umpsc_invD(3)[OF i, of r] by simp
    next
      case (Building ns xs)
      then have "prev \<notin> set ns" using d(7)[of prev r] pc by auto
      then show ?thesis using False Building umpsc_invD(3)[OF i, of r] by (auto simp: links_consec dest: consecD)
    next
      case (Ready ns)
      then have "prev \<notin> set ns" using d(7)[of prev r] pc by auto
      then show ?thesis using False Ready umpsc_invD(3)[OF i, of r] last_in_set[of ns] by (auto simp: links_consec dest: consecD)
    next
      case (Swapping ns)
      then have "prev \<notin> set ns" using d(7)[of prev r] pc by auto
      then show ?thesis using False Swapping umpsc_invD(3)[OF i, of r] last_in_set[of ns] by (auto simp: links_consec dest: consecD)
    qed (use False in simp)
  qed simp
  ultimately show ?thesis using assms(1) by (simp add: mpsc_inv_def umpsc_inv_def)
qed

lemma recycle_facts [simp]:
  "us_fresh (recycle n q) = us_fresh q" "us_head (recycle n q) = us_head q" "us_tail (recycle n q) = us_tail q"
  "us_next (recycle n q) = us_next q" "us_val (recycle n q) = us_val q" "us_stopped (recycle n q) = us_stopped q"
  by (auto simp: recycle_def pool_put_def)

lemma recycle_sets:
  "set (us_pool (recycle n q)) \<union> set (us_recycle (recycle n q)) = insert n (set (us_pool q) \<union> set (us_recycle q))"
  by (auto simp: recycle_def pool_put_def)

lemma recycle_distinct:
  assumes "distinct (us_pool q @ us_recycle q)" "n \<notin> set (us_pool q)" "n \<notin> set (us_recycle q)"
  shows "distinct (us_pool (recycle n q) @ us_recycle (recycle n q))"
  using assms by (auto simp: recycle_def pool_put_def)

lemma node_ok_alt:
  "node_ok q pcs chain \<longleftrightarrow> distinct chain \<and> distinct (us_pool q @ us_recycle q)
     \<and> set chain \<inter> (set (us_pool q) \<union> set (us_recycle q)) = {}
     \<and> (\<forall>n \<in> set chain \<union> (set (us_pool q) \<union> set (us_recycle q)). n < us_fresh q)
     \<and> (\<forall>p. distinct (owned (pcs p)))
     \<and> (\<forall>p. \<forall>n \<in> set (owned (pcs p)). n < us_fresh q \<and> n \<notin> set chain \<union> (set (us_pool q) \<union> set (us_recycle q)))
     \<and> (\<forall>p r. p \<noteq> r \<longrightarrow> set (owned (pcs p)) \<inter> set (owned (pcs r)) = {})"
  unfolding node_ok_def by auto

lemma DequeueM_None: "us_next q (us_tail q) = None \<Longrightarrow> DequeueM q = ((0, False), q)"
  by (simp add: DequeueM_def)

text \<open>A removal that finds a link moves the sentinel one node along the chain.\<close>

lemma DequeueM_Some:
  assumes i: "umpsc_inv q pcs chain" and nx: "us_next q (us_tail q) = Some n"
  shows "\<exists>rest q1. chain = us_tail q # n # rest \<and> DequeueM q = ((us_val q n, True), q1)
     \<and> umpsc_inv q1 pcs (n # rest) \<and> map (us_val q1) rest = map (us_val q) rest
     \<and> us_stopped q1 = us_stopped q"
proof -
  note d = node_okD[OF umpsc_invD(1)[OF i]]
  have c: "chain \<noteq> []" "hd chain = us_tail q" "last chain = us_head q" "us_next q (last chain) = None"
    "\<And>a b. consec chain a b \<Longrightarrow> us_next q a = Some b \<or> (us_next q a = None \<and> (\<exists>p. pcs p = Linking a b))"
    "\<And>p r a b c. pcs p = Linking a b \<Longrightarrow> pcs r = Linking a c \<Longrightarrow> p = r"
    using umpsc_invD(2)[OF i] unfolding chain_ok_def by blast+
  obtain rest0 where ch: "chain = us_tail q # rest0" using c(1,2) by (cases chain) auto
  have "rest0 \<noteq> []" using c(4) nx ch by auto
  then obtain b rest where r: "rest0 = b # rest" by (cases rest0) auto
  have cc: "consec chain (us_tail q) b" unfolding ch r by (simp add: consec_Cons)
  then have "b = n" using c(5)[OF cc] nx by auto
  then have chain: "chain = us_tail q # n # rest" using ch r by simp
  define t where "t = us_tail q"
  have t: "t \<noteq> n" "t \<notin> set rest" "n \<notin> set rest" "distinct rest" using d(1) unfolding chain t_def by auto
  define q0 where "q0 = set_val t 0 (set_next t None ((set_val n 0 q)\<lparr>us_tail := n\<rparr>))"
  have q0: "us_next q0 = (us_next q)(t := None)" "us_val q0 = (us_val q)(n := 0, t := 0)" "us_tail q0 = n"
    "us_head q0 = us_head q" "us_pool q0 = us_pool q" "us_recycle q0 = us_recycle q" "us_fresh q0 = us_fresh q"
    "us_stopped q0 = us_stopped q"
    by (auto simp: q0_def set_val_def set_next_def)
  define q1 where "q1 = recycle t q0"
  have dq: "DequeueM q = ((us_val q n, True), q1)"
    using nx by (simp add: DequeueM_def Let_def q1_def q0_def t_def)
  have "node_ok q1 pcs (n # rest)"
  proof -
    have "distinct (us_pool q1 @ us_recycle q1)"
      using d(2,3,5) d(4)[of t] unfolding q1_def by (intro recycle_distinct) (auto simp: q0 chain t_def)
    moreover have s: "set (us_pool q1) \<union> set (us_recycle q1) = insert t (set (us_pool q) \<union> set (us_recycle q))"
      unfolding q1_def recycle_sets by (simp add: q0)
    moreover have f: "us_fresh q1 = us_fresh q" by (simp add: q1_def q0)
    ultimately show ?thesis
      using umpsc_invD(1)[OF i] t unfolding node_ok_alt chain t_def[symmetric] by auto
  qed
  moreover have "chain_ok q1 pcs (n # rest)"
    unfolding chain_ok_def
  proof (intro conjI allI impI)
    fix a b assume ab: "consec (n # rest) a b"
    then have "a \<noteq> t" using t consecD by fastforce
    moreover have "consec chain a b" using ab unfolding chain by (subst consec_Cons) auto
    ultimately show "us_next q1 a = Some b \<or> us_next q1 a = None \<and> (\<exists>p. pcs p = Linking a b)"
      using c(5) by (auto simp: q1_def q0)
  next
    fix r s a b b' assume "pcs r = Linking a b" "pcs s = Linking a b'"
    then show "r = s" by (rule c(6))
  next
    have "last (n # rest) = last chain" unfolding chain by simp
    then show "last (n # rest) = us_head q1" "us_next q1 (last (n # rest)) = None"
      using c(3,4) by (auto simp: q1_def q0)
  qed (auto simp: q1_def q0)
  moreover have "pc_ok (us_next q1) (n # rest) (pcs p)" for p
  proof (cases "pcs p")
    case (Linking a b)
    then have ab: "us_next q a = None" "consec chain a b" using umpsc_invD(3)[OF i, of p] by auto
    then have "a \<noteq> t" using nx t_def by auto
    then have "consec (n # rest) a b" using ab(2) unfolding chain t_def by (subst (asm) consec_Cons) auto
    then show ?thesis using Linking ab(1) by (simp add: q1_def q0)
  next
    case (Building ns xs)
    then have "t \<notin> set ns" using d(7)[of t p] chain t_def by auto
    then show ?thesis using Building umpsc_invD(3)[OF i, of p] by (auto simp: links_consec q1_def q0 dest: consecD)
  next
    case (Ready ns)
    then have "t \<notin> set ns" using d(7)[of t p] chain t_def by auto
    then show ?thesis using Ready umpsc_invD(3)[OF i, of p] last_in_set[of ns]
      by (auto simp: links_consec q1_def q0 dest: consecD)
  next
    case (Swapping ns)
    then have "t \<notin> set ns" using d(7)[of t p] chain t_def by auto
    then show ?thesis using Swapping umpsc_invD(3)[OF i, of p] last_in_set[of ns]
      by (auto simp: links_consec q1_def q0 dest: consecD)
  qed auto
  moreover have "map (us_val q1) rest = map (us_val q) rest" using t by (auto simp: q1_def q0)
  ultimately show ?thesis using chain dq by (auto simp: umpsc_inv_def q1_def q0)
qed

lemma inv_dequeue:
  assumes "mpsc_inv m chain" "DequeueM (sys_q m) = ((v, ok), q1)"
  shows "\<exists>chain'. mpsc_inv (m\<lparr>sys_q := q1, sys_out := sys_out m @ (if ok then [v] else [])\<rparr>) chain'"
proof -
  have i: "umpsc_inv (sys_q m) (sys_pc m) chain" using assms(1) by (simp add: mpsc_inv_def)
  show ?thesis
  proof (cases "us_next (sys_q m) (us_tail (sys_q m))")
    case None
    then show ?thesis using assms DequeueM_None[OF None] by (intro exI[of _ chain]) (simp add: mpsc_inv_def)
  next
    case (Some n)
    obtain rest q' where r: "chain = us_tail (sys_q m) # n # rest" "DequeueM (sys_q m) = ((us_val (sys_q m) n, True), q')"
      "umpsc_inv q' (sys_pc m) (n # rest)" "map (us_val q') rest = map (us_val (sys_q m)) rest"
      using DequeueM_Some[OF i Some] by blast
    then show ?thesis using assms by (intro exI[of _ "n # rest"]) (simp add: mpsc_inv_def)
  qed
qed

lemma umpsc_inv_shrink:
  assumes "umpsc_inv q pcs chain" "q' = (pool_put (us_recycle q) q)\<lparr>us_recycle := [], us_stopped := b\<rparr>"
  shows "umpsc_inv q' pcs chain"
proof -
  have "node_ok q' pcs chain" using umpsc_invD(1)[OF assms(1)] unfolding node_ok_alt assms(2)
    by (auto simp: pool_put_def)
  moreover have "chain_ok q' pcs chain" by (rule chain_ok_frame[OF umpsc_invD(2)[OF assms(1)]]) (auto simp: assms(2) pool_put_def)
  moreover have "us_next q' = us_next q" by (simp add: assms(2) pool_put_def)
  ultimately show ?thesis using umpsc_invD(3)[OF assms(1)] by (simp add: umpsc_inv_def)
qed

lemma Shrink_eq: "Shrink q = (pool_put (us_recycle q) q)\<lparr>us_recycle := [], us_stopped := us_stopped q\<rparr>"
  by (cases q) (simp add: Shrink_def pool_put_def)

lemma umpsc_inv_stop:
  assumes "umpsc_inv q pcs chain" shows "umpsc_inv (StopEnqueue q) pcs chain"
proof -
  have "node_ok (StopEnqueue q) pcs chain" by (rule node_ok_cong[OF umpsc_invD(1)[OF assms]]) (auto simp: StopEnqueue_def)
  moreover have "chain_ok (StopEnqueue q) pcs chain"
    by (rule chain_ok_frame[OF umpsc_invD(2)[OF assms]]) (auto simp: StopEnqueue_def)
  ultimately show ?thesis using umpsc_invD(3)[OF assms] by (simp add: umpsc_inv_def StopEnqueue_def)
qed

lemma mpsc_step_inv:
  assumes "mpsc_step m m'" "mpsc_inv m chain"
  shows "\<exists>chain'. mpsc_inv m' chain'"
  using assms(1)
proof (cases rule: mpsc_step.cases)
  case start then show ?thesis using inv_start[OF assms(2)] by blast
next
  case build then show ?thesis using inv_build[OF assms(2)] by blast
next
  case built then show ?thesis using inv_built[OF assms(2)] by blast
next
  case refuse then show ?thesis using inv_refuse[OF assms(2)] by blast
next
  case recheck then show ?thesis using inv_recheck[OF assms(2)] by blast
next
  case swap then show ?thesis using inv_swap[OF assms(2)] by blast
next
  case link then show ?thesis using inv_link[OF assms(2)] by blast
next
  case dequeue then show ?thesis using inv_dequeue[OF assms(2)] by blast
next
  case shrink
  have "umpsc_inv (sys_q m) (sys_pc m) chain" using assms(2) by (simp only: mpsc_inv_def)
  from umpsc_inv_shrink[OF this Shrink_eq] have "umpsc_inv (Shrink (sys_q m)) (sys_pc m) chain" .
  moreover have "us_val (Shrink (sys_q m)) = us_val (sys_q m)" by (simp add: Shrink_def)
  ultimately have "mpsc_inv (m\<lparr>sys_q := Shrink (sys_q m)\<rparr>) chain" using assms(2) by (simp add: mpsc_inv_def)
  then show ?thesis using shrink by blast
next
  case stop
  then show ?thesis using assms(2) umpsc_inv_stop[of "sys_q m" "sys_pc m" chain]
    by (intro exI[of _ chain]) (simp add: mpsc_inv_def StopEnqueue_def)
qed

lemma umpsc_inv_new: "umpsc_inv NewUnboundedMPSC (\<lambda>_. Idle) [0]"
  by (simp add: umpsc_inv_def node_ok_def chain_ok_def NewUnboundedMPSC_def)

lemma mpsc_reach_inv: "mpsc_reach m \<Longrightarrow> \<exists>chain. mpsc_inv m chain"
proof (induction rule: mpsc_reach.induct)
  case init
  then show ?case using umpsc_inv_new by (intro exI[of _ "[0]"]) (simp add: mpsc_inv_def mpsc_init_def)
next
  case (step m m')
  then show ?case using mpsc_step_inv by blast
qed

section \<open>The operations without interleaving\<close>

text \<open>The queued values, read off by following the links from the sentinel.\<close>

fun um_list :: "nat \<Rightarrow> 'a umpsc \<Rightarrow> nat \<Rightarrow> 'a list" where
  "um_list 0 q a = []"
| "um_list (Suc fuel) q a = (case us_next q a of None \<Rightarrow> [] | Some n \<Rightarrow> us_val q n # um_list fuel q n)"

definition um_contents :: "'a umpsc \<Rightarrow> 'a list" where
  "um_contents q = um_list (us_fresh q) q (us_tail q)"

definition quiet :: "nat \<Rightarrow> 'a prod_pc" where "quiet = (\<lambda>_. Idle)"

definition um_inv :: "'a umpsc \<Rightarrow> bool" where
  "um_inv q \<longleftrightarrow> (\<exists>chain. umpsc_inv q quiet chain)"

lemma um_list_chain:
  assumes "links (us_next q) chain" "chain \<noteq> []" "us_next q (last chain) = None" "length chain \<le> fuel"
  shows "um_list fuel q (hd chain) = map (us_val q) (tl chain)"
  using assms
proof (induction fuel arbitrary: chain)
  case 0
  then show ?case by simp
next
  case (Suc fuel)
  obtain a rest where c: "chain = a # rest" using Suc.prems(2) by (cases chain) auto
  show ?case
  proof (cases rest)
    case Nil
    then show ?thesis using c Suc.prems by simp
  next
    case (Cons b more)
    have "us_next q a = Some b" "links (us_next q) rest"
      using Suc.prems(1) unfolding c Cons by (auto simp: links_consec consec_Cons)
    then show ?thesis using Suc.IH[of rest] Suc.prems c Cons by simp
  qed
qed

lemma quiet_links:
  assumes "umpsc_inv q quiet chain"
  shows "links (us_next q) chain" "chain \<noteq> []" "us_next q (last chain) = None" "length chain \<le> us_fresh q" "hd chain = us_tail q"
proof -
  show "links (us_next q) chain" "chain \<noteq> []" "us_next q (last chain) = None" "hd chain = us_tail q"
    using umpsc_invD(2)[OF assms] unfolding chain_ok_def links_consec quiet_def by auto
  note d = node_okD[OF umpsc_invD(1)[OF assms]]
  have "set chain \<subseteq> {..<us_fresh q}" using d(4) by auto
  then have "card (set chain) \<le> us_fresh q" by (metis card_lessThan card_mono finite_lessThan)
  then show "length chain \<le> us_fresh q" using distinct_card[OF d(1)] by simp
qed

lemma um_contents_eq: "umpsc_inv q quiet chain \<Longrightarrow> um_contents q = map (us_val q) (tl chain)"
  unfolding um_contents_def using um_list_chain quiet_links by metis

text \<open>The producer's steps on the store alone; a run of them is one uninterrupted insertion.\<close>

definition at_rest :: "'a umpsc \<Rightarrow> (nat \<Rightarrow> 'a prod_pc) \<Rightarrow> nat list \<Rightarrow> 'a mpsc_sys" where
  "at_rest q pcs chain = \<lparr>sys_q = q, sys_pc = pcs, sys_in = map (us_val q) (tl chain), sys_out = []\<rparr>"

lemma at_rest_inv: "mpsc_inv (at_rest q pcs chain) chain \<longleftrightarrow> umpsc_inv q pcs chain"
  by (simp add: mpsc_inv_def at_rest_def)

lemma u_start: "umpsc_inv q pcs chain \<Longrightarrow> pcs p = Idle \<Longrightarrow> xs \<noteq> [] \<Longrightarrow> umpsc_inv q (pcs(p := Building [] xs)) chain"
  using inv_start[of "at_rest q pcs chain" chain p xs] by (simp add: mpsc_inv_def at_rest_def)

lemma u_build:
  assumes "umpsc_inv q pcs chain" "pcs p = Building ns (x # xs)" "pool_get k q = (n, q1)"
  shows "umpsc_inv (chain_node ns n x q1) (pcs(p := Building (ns @ [n]) xs)) chain"
    "map (us_val (chain_node ns n x q1)) (tl chain) = map (us_val q) (tl chain)"
    "map (us_val (chain_node ns n x q1)) (ns @ [n]) = map (us_val q) ns @ [x]"
    "us_stopped (chain_node ns n x q1) = us_stopped q"
proof -
  note g = pool_get_facts[OF assms(3) umpsc_invD(1)[OF assms(1)]]
  have "n \<notin> set ns" using g(6)[of p] assms(2) by simp
  then show "map (us_val (chain_node ns n x q1)) (ns @ [n]) = map (us_val q) ns @ [x]" using g(8) by auto
  show "us_stopped (chain_node ns n x q1) = us_stopped q"
    using g(11) by (simp add: chain_node_def set_val_def set_next_def Let_def)
  have "mpsc_inv (at_rest q pcs chain) chain" using assms(1) by (simp only: at_rest_inv)
  then have "mpsc_inv ((at_rest q pcs chain)\<lparr>sys_q := chain_node ns n x q1, sys_pc := pcs(p := Building (ns @ [n]) xs)\<rparr>) chain"
    using inv_build[of "at_rest q pcs chain" chain p ns x xs k n q1] assms(2,3) by (simp add: at_rest_def)
  then show "umpsc_inv (chain_node ns n x q1) (pcs(p := Building (ns @ [n]) xs)) chain"
    "map (us_val (chain_node ns n x q1)) (tl chain) = map (us_val q) (tl chain)"
    by (simp_all add: mpsc_inv_def at_rest_def)
qed

lemma u_built:
  "umpsc_inv q pcs chain \<Longrightarrow> pcs p = Building ns [] \<Longrightarrow> umpsc_inv (set_next (last ns) None q) (pcs(p := Ready ns)) chain"
  using inv_built[of "at_rest q pcs chain" chain p ns] by (simp add: mpsc_inv_def at_rest_def)

lemma u_recheck: "umpsc_inv q pcs chain \<Longrightarrow> pcs p = Ready ns \<Longrightarrow> umpsc_inv q (pcs(p := Swapping ns)) chain"
  using inv_recheck[of "at_rest q pcs chain" chain p ns] by (simp add: mpsc_inv_def at_rest_def)

lemma u_swap:
  "umpsc_inv q pcs chain \<Longrightarrow> pcs p = Swapping ns \<Longrightarrow> swap_head (last ns) q = (prev, q1) \<Longrightarrow>
     umpsc_inv q1 (pcs(p := Linking prev (hd ns))) (chain @ ns)"
  using inv_swap[of "at_rest q pcs chain" chain p ns prev q1] by (simp add: mpsc_inv_def at_rest_def)

lemma u_link:
  "umpsc_inv q pcs chain \<Longrightarrow> pcs p = Linking prev n \<Longrightarrow> umpsc_inv (set_next prev (Some n) q) (pcs(p := Idle)) chain"
  using inv_link[of "at_rest q pcs chain" chain p prev n] by (simp add: mpsc_inv_def at_rest_def)

lemma quiet_upd: "(quiet(p := x))(p := Idle) = quiet"
  by (auto simp: quiet_def)

text \<open>From a private chain to the queue: second look at the stop flag, swap, link.\<close>

lemma publish:
  assumes "umpsc_inv q (quiet(p := Building ns [])) chain" "swap_head (last ns) (set_next (last ns) None q) = (prev, q1)"
  shows "umpsc_inv (set_next prev (Some (hd ns)) q1) quiet (chain @ ns)"
    "us_val (set_next prev (Some (hd ns)) q1) = us_val q" "us_stopped (set_next prev (Some (hd ns)) q1) = us_stopped q"
proof -
  have "umpsc_inv (set_next (last ns) None q) (quiet(p := Ready ns)) chain" using u_built[OF assms(1) fun_upd_same] by (simp only: fun_upd_upd)
  from u_recheck[OF this fun_upd_same]
  have "umpsc_inv (set_next (last ns) None q) (quiet(p := Swapping ns)) chain" by (simp only: fun_upd_upd)
  from u_swap[OF this fun_upd_same assms(2)]
  have "umpsc_inv q1 (quiet(p := Linking prev (hd ns))) (chain @ ns)" by (simp only: fun_upd_upd)
  from u_link[OF this fun_upd_same] show "umpsc_inv (set_next prev (Some (hd ns)) q1) quiet (chain @ ns)"
    by (simp only: quiet_upd)
  show "us_val (set_next prev (Some (hd ns)) q1) = us_val q" "us_stopped (set_next prev (Some (hd ns)) q1) = us_stopped q"
    using assms(2) by (auto simp: swap_head_def)
qed

lemma build_chain_facts:
  assumes "umpsc_inv q (quiet(p := Building ns xs)) chain" "ns \<noteq> []" "build_chain (last ns) xs q = (lst, q')"
  shows "\<exists>ms. lst = last (ns @ ms) \<and> umpsc_inv q' (quiet(p := Building (ns @ ms) [])) chain
     \<and> map (us_val q') (ns @ ms) = map (us_val q) ns @ xs \<and> map (us_val q') (tl chain) = map (us_val q) (tl chain)
     \<and> us_stopped q' = us_stopped q"
  using assms
proof (induction xs arbitrary: q ns)
  case Nil
  then show ?case by (intro exI[of _ "[]"]) simp
next
  case (Cons x xs)
  obtain n q1 where g: "pool_get 0 q = (n, q1)" by fastforce
  let ?q = "chain_node ns n x q1"
  have q: "?q = set_next (last ns) (Some n) (set_val n x q1)" using Cons.prems(2) by (simp add: chain_node_def)
  have bc: "build_chain (last (ns @ [n])) xs ?q = (lst, q')" using Cons.prems(3) g by (simp add: q)
  have "umpsc_inv ?q (quiet(p := Building (ns @ [n]) xs)) chain" using u_build(1)[OF Cons.prems(1) fun_upd_same g] by (simp only: fun_upd_upd)
  have ne: "ns @ [n] \<noteq> []" by simp
  from Cons.IH[OF \<open>umpsc_inv ?q (quiet(p := Building (ns @ [n]) xs)) chain\<close> ne bc] obtain ms where ms: "lst = last ((ns @ [n]) @ ms)"
    "umpsc_inv q' (quiet(p := Building ((ns @ [n]) @ ms) [])) chain"
    "map (us_val q') ((ns @ [n]) @ ms) = map (us_val ?q) (ns @ [n]) @ xs"
    "map (us_val q') (tl chain) = map (us_val ?q) (tl chain)" "us_stopped q' = us_stopped ?q" by blast
  have v: "map (us_val ?q) (ns @ [n]) = map (us_val q) ns @ [x]" "us_stopped ?q = us_stopped q"
    "map (us_val ?q) (tl chain) = map (us_val q) (tl chain)"
    using u_build(2-4)[OF Cons.prems(1) _ g, of p ns x xs] by simp_all
  have a: "(ns @ [n]) @ ms = ns @ (n # ms)" by simp
  have "map (us_val q') (ns @ (n # ms)) = (map (us_val q) ns @ [x]) @ xs" using ms(3) unfolding a v(1) .
  then have r: "map (us_val q') (ns @ (n # ms)) = map (us_val q) ns @ x # xs" by simp
  show ?case using ms(1,2)[unfolded a] r ms(4)[unfolded v(3)] ms(5)[unfolded v(2)] by blast
qed

lemma EnqueueBatchM_facts:
  assumes "um_inv q"
  shows "um_inv (EnqueueBatchM xs q)"
    "um_contents (EnqueueBatchM xs q) = um_contents q @ (if us_stopped q then [] else xs)"
    "us_stopped (EnqueueBatchM xs q) = us_stopped q"
proof -
  obtain chain where i: "umpsc_inv q quiet chain" using assms by (auto simp: um_inv_def)
  have "um_inv (EnqueueBatchM xs q) \<and> um_contents (EnqueueBatchM xs q) = um_contents q @ (if us_stopped q then [] else xs)
      \<and> us_stopped (EnqueueBatchM xs q) = us_stopped q"
  proof (cases "xs = [] \<or> us_stopped q")
    case True
    then show ?thesis using assms by (auto simp: EnqueueBatchM_def split: list.splits)
  next
    case False
    then obtain x ys where xs: "xs = x # ys" and st: "\<not> us_stopped q" by (cases xs) auto
    obtain n q1 where g: "pool_get 0 q = (n, q1)" by fastforce
    have s: "umpsc_inv q (quiet(0 := Building [] (x # ys))) chain" by (rule u_start[OF i]) (auto simp: quiet_def)
    let ?q1 = "chain_node [] n x q1"
    have q1: "?q1 = set_val n x q1" by (simp add: chain_node_def Let_def)
    have b: "umpsc_inv ?q1 (quiet(0 := Building [n] ys)) chain"
      using u_build(1)[OF s fun_upd_same g] by (simp only: fun_upd_upd append_Nil)
    have v: "us_val ?q1 n = x" "us_stopped ?q1 = us_stopped q" "map (us_val ?q1) (tl chain) = map (us_val q) (tl chain)"
      using u_build(2-4)[OF s _ g, of 0 "[]" x ys] by simp_all
    obtain lst q2 where bc: "build_chain n ys ?q1 = (lst, q2)" by fastforce
    obtain ms where ms: "lst = last ([n] @ ms)" "umpsc_inv q2 (quiet(0 := Building ([n] @ ms) [])) chain"
      "map (us_val q2) ([n] @ ms) = map (us_val ?q1) [n] @ ys" "map (us_val q2) (tl chain) = map (us_val ?q1) (tl chain)"
      "us_stopped q2 = us_stopped ?q1"
      using build_chain_facts[OF b, of lst q2] bc by auto
    obtain prev q3 where sw: "swap_head lst (set_next lst None q2) = (prev, q3)" by fastforce
    note p = publish[OF ms(2) sw[unfolded ms(1)]]
    have e: "EnqueueBatchM xs q = set_next prev (Some n) q3"
      using st g bc sw ms(5) v(2) by (simp add: EnqueueBatchM_def xs q1)
    have "chain \<noteq> []" using quiet_links(2)[OF i] .
    then have "um_contents (EnqueueBatchM xs q) = um_contents q @ xs"
      unfolding e using um_contents_eq[OF p(1)] um_contents_eq[OF i] ms(3,4) v p(2) xs by simp
    then show ?thesis using p(1,3) ms(5) v(2) st e by (auto simp: um_inv_def)
  qed
  then show "um_inv (EnqueueBatchM xs q)"
    "um_contents (EnqueueBatchM xs q) = um_contents q @ (if us_stopped q then [] else xs)"
    "us_stopped (EnqueueBatchM xs q) = us_stopped q" by auto
qed

text \<open>\<open>TryEnqueue\<close> is a batch of one that reports whether it was accepted.\<close>

lemma TryEnqueueM_batch:
  assumes "um_inv q"
  shows "TryEnqueueM v q = (\<not> us_stopped q, EnqueueBatchM [v] q)"
proof -
  obtain n q1 where g: "pool_get 0 q = (n, q1)" by fastforce
  obtain chain where "umpsc_inv q quiet chain" using assms by (auto simp: um_inv_def)
  from pool_get_facts[OF g umpsc_invD(1)[OF this]] have st: "us_stopped q1 = us_stopped q" by blast
  show ?thesis
    using g st by (simp add: TryEnqueueM_def EnqueueBatchM_def Let_def swap_head_def set_val_def set_next_def)
qed

lemma TryEnqueueM_facts:
  assumes "um_inv q" "TryEnqueueM v q = (ok, q')"
  shows "um_inv q'" "ok \<longleftrightarrow> \<not> us_stopped q" "um_contents q' = um_contents q @ (if ok then [v] else [])"
    "us_stopped q' = us_stopped q"
  using TryEnqueueM_batch[OF assms(1), of v] EnqueueBatchM_facts[OF assms(1), of "[v]"] assms(2) by auto

lemma DequeueM_facts:
  assumes "um_inv q"
  shows "\<exists>q'. DequeueM q = (case um_contents q of [] \<Rightarrow> ((0, False), q) | v # vs \<Rightarrow> ((v, True), q'))
     \<and> (um_contents q \<noteq> [] \<longrightarrow> um_inv q' \<and> um_contents q' = tl (um_contents q) \<and> us_stopped q' = us_stopped q)"
proof -
  obtain chain where i: "umpsc_inv q quiet chain" using assms by (auto simp: um_inv_def)
  note c = um_contents_eq[OF i]
  show ?thesis
  proof (cases "us_next q (us_tail q)")
    case None
    have "tl chain = []"
    proof (rule ccontr)
      assume "tl chain \<noteq> []"
      then obtain a b r where ch: "chain = a # b # r" by (cases chain; cases "tl chain") auto
      then have "us_next q a = Some b" using quiet_links(1)[OF i] by (auto simp: links_consec consec_Cons)
      then show False using None quiet_links(5)[OF i] ch by simp
    qed
    then show ?thesis using c DequeueM_None[OF None] by simp
  next
    case (Some n)
    from DequeueM_Some[OF i Some] obtain rest q1 where r: "chain = us_tail q # n # rest"
      "DequeueM q = ((us_val q n, True), q1)" "umpsc_inv q1 quiet (n # rest)" "map (us_val q1) rest = map (us_val q) rest"
      "us_stopped q1 = us_stopped q" by blast
    have "um_contents q1 = tl (um_contents q)" using um_contents_eq[OF r(3)] c r(1,4) by simp
    then show ?thesis using r c by (intro exI[of _ q1]) (auto simp: um_inv_def)
  qed
qed

lemma dequeue_loop_facts:
  "um_inv q \<Longrightarrow> dequeue_loop n q = (vs, q') \<Longrightarrow>
     um_inv q' \<and> vs = take n (um_contents q) \<and> um_contents q' = drop n (um_contents q) \<and> us_stopped q' = us_stopped q"
proof (induction n arbitrary: q vs q')
  case 0
  then show ?case by simp
next
  case (Suc n)
  obtain q1 where d: "DequeueM q = (case um_contents q of [] \<Rightarrow> ((0, False), q) | v # vs \<Rightarrow> ((v, True), q1))"
    "um_contents q \<noteq> [] \<longrightarrow> um_inv q1 \<and> um_contents q1 = tl (um_contents q) \<and> us_stopped q1 = us_stopped q"
    using DequeueM_facts[OF Suc.prems(1)] by blast
  show ?case
  proof (cases "um_contents q")
    case Nil
    then show ?thesis using d Suc.prems by simp
  next
    case (Cons v more)
    obtain vs1 q2 where l: "dequeue_loop n q1 = (vs1, q2)" by fastforce
    have "vs = v # vs1" "q' = q2" using Suc.prems(2) d(1) Cons l by auto
    then show ?thesis using Suc.IH[OF _ l] d(2) Cons by simp
  qed
qed

lemma DequeueBatchM_facts:
  assumes "um_inv q" "DequeueBatchM n q = (vs, q')"
  shows "um_inv q'" "vs = take n (um_contents q)" "um_contents q' = drop n (um_contents q)" "us_stopped q' = us_stopped q"
  using assms dequeue_loop_facts[OF assms(1), of n vs q'] by (auto simp: DequeueBatchM_def split: if_splits)

lemma um_list_cong:
  assumes "us_next q' = us_next q" "us_val q' = us_val q" shows "um_list f q' a = um_list f q a"
  using assms by (induction f arbitrary: a) (auto split: option.splits)

lemma EmptyM_iff: "um_inv (q :: 'a::zero umpsc) \<Longrightarrow> EmptyM q \<longleftrightarrow> um_contents q = []"
  using DequeueM_facts[of q] by (cases "um_contents q") (auto simp: EmptyM_def DequeueM_def Let_def split: option.splits)

lemma StopEnqueue_facts:
  assumes "um_inv q"
  shows "um_inv (StopEnqueue q)" "um_contents (StopEnqueue q) = um_contents q" "us_stopped (StopEnqueue q)"
  using assms umpsc_inv_stop unfolding um_inv_def um_contents_def
  by (auto simp: StopEnqueue_def intro: um_list_cong)

lemma CloseM_facts:
  assumes "um_inv q"
  shows "um_inv (CloseM q)" "um_contents (CloseM q) = um_contents q" "us_stopped (CloseM q)"
proof -
  have e: "CloseM q = (pool_put (us_recycle q) q)\<lparr>us_recycle := [], us_stopped := True\<rparr>"
    by (simp add: CloseM_def StopEnqueue_def pool_put_def)
  show "um_inv (CloseM q)" using assms umpsc_inv_shrink[OF _ e] unfolding um_inv_def by blast
  show "um_contents (CloseM q) = um_contents q" unfolding e um_contents_def by (simp, intro um_list_cong) simp_all
  show "us_stopped (CloseM q)" by (simp add: e)
qed

lemma NewUnboundedMPSC_facts: "um_inv NewUnboundedMPSC" "um_contents NewUnboundedMPSC = []" "\<not> us_stopped NewUnboundedMPSC"
  using umpsc_inv_new by (auto simp: um_inv_def quiet_def um_contents_def NewUnboundedMPSC_def)

definition um_enq :: "'a::zero umpsc \<Rightarrow> 'a \<Rightarrow> bool \<times> 'a umpsc" where "um_enq q v = TryEnqueueM v q"

definition um_enqb :: "'a::zero umpsc \<Rightarrow> 'a list \<Rightarrow> nat \<times> 'a umpsc" where
  "um_enqb q xs = (if us_stopped q then 0 else length xs, EnqueueBatchM xs q)"

definition um_deqb :: "'a::zero umpsc \<Rightarrow> nat \<Rightarrow> 'a list \<times> 'a umpsc" where "um_deqb q n = DequeueBatchM n q"

interpretation um: mailbox um_enq um_enqb DequeueM um_deqb um_contents um_inv StopEnqueue us_stopped
proof
  fix q q' :: "'a::zero umpsc" and x ok
  assume "um_inv q" "um_enq q x = (ok, q')"
  then show "um_inv q' \<and> um_contents q' = um_contents q @ (if ok then [x] else [])"
    and "(ok \<longleftrightarrow> \<not> us_stopped q) \<and> us_stopped q' = us_stopped q"
    using TryEnqueueM_facts[of q x ok q'] by (simp_all add: um_enq_def)
next
  fix q q' :: "'a::zero umpsc" and xs k
  assume "um_inv q" "um_enqb q xs = (k, q')"
  then show "um_inv q' \<and> um_contents q' = um_contents q @ take k xs"
    using EnqueueBatchM_facts[of q xs] by (auto simp: um_enqb_def split: if_splits)
next
  fix q q' :: "'a::zero umpsc" and x ok
  assume "um_inv q" "DequeueM q = ((x, ok), q')"
  then show "um_inv q' \<and> (if ok then um_contents q = x # um_contents q'
      else um_contents q = [] \<and> um_contents q' = [] \<and> x = 0)"
    using DequeueM_facts[of q] by (cases "um_contents q") auto
next
  fix q q' :: "'a::zero umpsc" and xs n
  assume a: "um_inv q" "um_deqb q n = (xs, q')"
  then show "um_inv q' \<and> um_contents q = xs @ um_contents q' \<and> length xs \<le> n"
    and "xs = take n (um_contents q) \<and> us_stopped q' = us_stopped q"
    using DequeueBatchM_facts[of q n xs q'] by (simp_all add: um_deqb_def)
next
  fix q :: "'a::zero umpsc"
  assume "um_inv q"
  then show "um_inv (StopEnqueue q) \<and> um_contents (StopEnqueue q) = um_contents q \<and> us_stopped (StopEnqueue q)"
    using StopEnqueue_facts[of q] by simp
qed

definition given_back :: "'a umpsc \<Rightarrow> nat set" where
  "given_back q = set (us_pool q) \<union> set (us_recycle q)"

section \<open>Properties\<close>

text \<open>A short run of two producers, used for the concrete instances below.\<close>

lemma run_one:
  fixes v :: int
  shows "\<exists>m. mpsc_reach m \<and> sys_pc m 0 = Swapping [1] \<and> us_val (sys_q m) 1 = v \<and> sys_in m = [] \<and> sys_out m = []
    \<and> \<not> us_stopped (sys_q m) \<and> us_head (sys_q m) = 0 \<and> us_tail (sys_q m) = 0 \<and> us_next (sys_q m) 0 = None \<and> (\<forall>p. p \<noteq> 0 \<longrightarrow> sys_pc m p = Idle)"
proof -
  let ?m0 = "mpsc_init :: int mpsc_sys"
  let ?m1 = "?m0\<lparr>sys_pc := (sys_pc ?m0)(0 := Building [] [v])\<rparr>"
  have r1: "mpsc_reach ?m1"
    by (rule mpsc_reach.step[OF mpsc_reach.init mpsc_step.start]) (simp_all add: mpsc_init_def NewUnboundedMPSC_def)
  let ?q = "snd (pool_get 0 (sys_q ?m1))"
  let ?m2 = "?m1\<lparr>sys_q := chain_node [] 1 v ?q, sys_pc := (sys_pc ?m1)(0 := Building ([] @ [1]) [])\<rparr>"
  have r2: "mpsc_reach ?m2"
    by (rule mpsc_reach.step[OF r1 mpsc_step.build[where k = 0]]) (simp_all add: mpsc_init_def NewUnboundedMPSC_def pool_get_def)
  let ?m3 = "?m2\<lparr>sys_q := set_next (last [1]) None (sys_q ?m2), sys_pc := (sys_pc ?m2)(0 := Ready [1])\<rparr>"
  have r3: "mpsc_reach ?m3" by (rule mpsc_reach.step[OF r2 mpsc_step.built]) simp
  let ?m4 = "?m3\<lparr>sys_pc := (sys_pc ?m3)(0 := Swapping [1])\<rparr>"
  have r4: "mpsc_reach ?m4"
    by (rule mpsc_reach.step[OF r3 mpsc_step.recheck])
      (simp_all add: mpsc_init_def NewUnboundedMPSC_def pool_get_def chain_node_def set_val_def)
  show ?thesis
    by (intro exI[of _ ?m4] conjI r4)
      (simp_all add: mpsc_init_def NewUnboundedMPSC_def pool_get_def chain_node_def set_val_def)
qed



text \<open>
  C33: No node is used after it is given back. Whenever a producer is about to store a link,
  the node it writes to is still on the chain and its link is still empty, so neither the
  consumer nor another producer can be reading, recycling or overwriting it; and the
  consumer's sentinel and the head are never in the pool or in the recycle cache.
\<close>

theorem mpsc_no_use_after_recycle:
  assumes "mpsc_reach m"
  shows "us_tail (sys_q m) \<notin> given_back (sys_q m) \<and> us_head (sys_q m) \<notin> given_back (sys_q m)
     \<and> (sys_pc m p = Linking prev n \<longrightarrow> us_next (sys_q m) prev = None
         \<and> prev \<notin> given_back (sys_q m) \<and> n \<notin> given_back (sys_q m)
         \<and> (\<forall>r n'. sys_pc m r = Linking prev n' \<longrightarrow> r = p))"
proof -
  obtain chain where "mpsc_inv m chain" using mpsc_reach_inv[OF assms] by blast
  then have i: "umpsc_inv (sys_q m) (sys_pc m) chain" by (simp add: mpsc_inv_def)
  have d: "x \<notin> given_back (sys_q m)" if "x \<in> set chain" for x
    using node_okD(4)[OF umpsc_invD(1)[OF i] that] by (simp add: given_back_def)
  have c: "chain \<noteq> []" "hd chain = us_tail (sys_q m)" "last chain = us_head (sys_q m)"
    "\<And>p r a b c. sys_pc m p = Linking a b \<Longrightarrow> sys_pc m r = Linking a c \<Longrightarrow> p = r"
    using umpsc_invD(2)[OF i] unfolding chain_ok_def by blast+
  have t: "us_tail (sys_q m) \<in> set chain" "us_head (sys_q m) \<in> set chain"
    using c(1-3) hd_in_set[of chain] last_in_set[of chain] by auto
  have l: "us_next (sys_q m) prev = None \<and> consec chain prev n" if "sys_pc m p = Linking prev n"
    using umpsc_invD(3)[OF i, of p] that by simp
  show ?thesis using d t l consecD[of chain prev n] c(4)[of p prev n] by blast
qed

theorem mpsc_no_use_after_recycle_witness:
  "\<exists>m :: int mpsc_sys. mpsc_reach m \<and> sys_pc m 0 = Linking 0 1 \<and> us_next (sys_q m) 0 = None
     \<and> us_tail (sys_q m) \<notin> given_back (sys_q m)"
proof -
  obtain m :: "int mpsc_sys" where m: "mpsc_reach m" "sys_pc m 0 = Swapping [1]" "us_head (sys_q m) = 0"
    using run_one[of 7] by blast
  obtain q1 where sw: "swap_head (last [1]) (sys_q m) = (0, q1)" using m(3) by (simp add: swap_head_def)
  let ?m = "m\<lparr>sys_q := q1, sys_pc := (sys_pc m)(0 := Linking 0 (hd [1])), sys_in := sys_in m @ map (us_val (sys_q m)) [1]\<rparr>"
  have r: "mpsc_reach ?m" by (rule mpsc_reach.step[OF m(1) mpsc_step.swap[OF m(2) sw]])
  have l: "sys_pc ?m 0 = Linking 0 1" by simp
  show ?thesis using mpsc_no_use_after_recycle[OF r, of 0 0 1] r l by blast
qed

text \<open>
  Stopping does not close the window completely: a producer that looked at the stop
  flag the second time just before it was set still swaps its value in afterwards, and its
  \<open>TryEnqueue\<close> then returns true.
\<close>

theorem mpsc_accepts_after_stop:
  "\<exists>m m' :: int mpsc_sys. mpsc_reach m \<and> us_stopped (sys_q m) \<and> mpsc_step m m' \<and> sys_in m' = sys_in m @ [7]"
proof -
  obtain m :: "int mpsc_sys" where m: "mpsc_reach m" "sys_pc m 0 = Swapping [1]" "us_val (sys_q m) 1 = 7"
    using run_one[of 7] by blast
  let ?m = "m\<lparr>sys_q := StopEnqueue (sys_q m)\<rparr>"
  have r: "mpsc_reach ?m" by (rule mpsc_reach.step[OF m(1) mpsc_step.stop])
  have p: "sys_pc ?m 0 = Swapping [1]" using m(2) by simp
  obtain prev q1 where sw: "swap_head (last [1]) (sys_q ?m) = (prev, q1)" by fastforce
  from mpsc_step.swap[OF p sw] show ?thesis using r m(3) by (intro exI conjI) (auto simp: StopEnqueue_def)
qed

end
