(* ===== verification/Channel.thy ===== *)
theory Channel
  imports Socket Unbounded_MPSC
begin

text \<open>
  \<^verbatim>\<open>znet/channel.go\<close>, the state of a connection and its receiving half: filling the read
  ring from the connection or from a reactor, parsing it, decrypting and dispatching.
  The connection (\<^verbatim>\<open>net.Conn\<close>), the cipher (\<open>IEncrypt\<close>), the classification of errors and the
  tuning values are parameters in \<open>chan_env\<close>. The server's \<open>HandleRead\<close> is modelled by the
  log of what it is called with; read deadlines and log lines are left out. \<^term>\<open>None\<close>
  is a panic or a loop that does not end.
\<close>

section \<open>State\<close>

datatype overflow_action = OverflowDropMessage | OverflowCloseChannel

record 'c chan_env =
  ce_cfg :: socket_config
  ce_encrypt :: "byte list \<Rightarrow> byte list option"
  ce_decrypt :: "byte list \<Rightarrow> byte list option"
  ce_disconnectOnDecryptError :: bool
  ce_reader :: "'c reader"
  ce_writev :: "byte list list \<Rightarrow> 'c \<Rightarrow> (int \<times> io_error option) \<times> 'c"
  ce_isTimeout :: "io_error \<Rightarrow> bool"
  ce_isNormalClose :: "io_error \<Rightarrow> bool"
  ce_stale :: "byte list"
  ce_message :: "nat \<Rightarrow> net_message"
  ce_maxQueued :: int
  ce_overflowHook :: "(int \<Rightarrow> int \<Rightarrow> overflow_action) option"
  ce_flushQuota :: int

text \<open>
  Messages handed to \<open>Send\<close> are references, 0 being nil; \<open>ce_message\<close> gives what they refer
  to. Logs: \<open>ch_dispatched\<close> (calls of \<open>HandleRead\<close>), \<open>ch_released\<close> (calls of \<open>Release\<close>),
  \<open>ch_hooked\<close> (calls of the shared-send hook), \<open>ch_closeCalls\<close> (calls of the close callback),
  \<open>ch_freedRings\<close> (rings given to \<open>PutRingBuffer\<close>). \<open>ch_sharedSendCloseAck\<close> is the channel
  of capacity one, \<^term>\<open>None\<close> for nil.
\<close>

record 'c channel =
  ch_channelId :: u64
  ch_rpcId :: u64
  ch_authId :: u64
  ch_lastRecTime :: int
  ch_heartbeatTimeout :: int
  ch_conn :: 'c
  ch_connClosed :: bool
  ch_state :: bool
  ch_isClose :: bool
  ch_removed :: bool
  ch_closeChan :: bool
  ch_closeOnce :: bool
  ch_finalizeOnce :: bool
  ch_mailBoxQueue :: "nat umpsc option"
  ch_readBuffer :: "ring_buffer option"
  ch_parseData :: parse_data
  ch_headersBuf :: "byte list"
  ch_sharedSendHook :: bool
  ch_sharedSendPending :: bool
  ch_sharedSendCloseAck :: "bool option"
  ch_sharedSendCloseDone :: bool
  ch_closeReactorAsync :: bool
  ch_reactorReadDepth :: int
  ch_readCallbackDepth :: int
  ch_deferReadBufferRelease :: bool
  ch_acceptConnSlotReserved :: bool
  ch_queuedMsgs :: int
  ch_hasMetrics :: bool
  ch_bytesRec :: int
  ch_bytesSent :: int
  ch_connErrors :: nat
  ch_heartbeatTimeouts :: nat
  ch_dispatched :: "wire_message list"
  ch_released :: "nat list"
  ch_hooked :: nat
  ch_closeCalls :: nat
  ch_freedRings :: "ring_buffer list"

text \<open>Session accessors.\<close>

definition IsOpen :: "'c channel \<Rightarrow> bool" where "IsOpen c \<longleftrightarrow> ch_state c"

definition GetRpcId :: "'c channel \<Rightarrow> u64 \<times> 'c channel" where
  "GetRpcId c = (ch_rpcId c + 1, c\<lparr>ch_rpcId := ch_rpcId c + 1\<rparr>)"

definition SetAuthIdC :: "u64 \<Rightarrow> 'c channel \<Rightarrow> 'c channel" where "SetAuthIdC a c = c\<lparr>ch_authId := a\<rparr>"

definition UpdateLastRecTime :: "int \<Rightarrow> 'c channel \<Rightarrow> 'c channel" where
  "UpdateLastRecTime now c = c\<lparr>ch_lastRecTime := now\<rparr>"

definition CheckC :: "int \<Rightarrow> 'c channel \<Rightarrow> bool" where
  "CheckC now c \<longleftrightarrow> (if ch_heartbeatTimeout c \<le> 0 then True else i64 (now - ch_lastRecTime c) \<le> ch_heartbeatTimeout c)"

definition MarkAcceptConnSlotReserved :: "'c channel \<Rightarrow> 'c channel" where
  "MarkAcceptConnSlotReserved c = c\<lparr>ch_acceptConnSlotReserved := True\<rparr>"

definition TakeAcceptConnSlot :: "'c channel \<Rightarrow> bool \<times> 'c channel" where
  "TakeAcceptConnSlot c = (ch_acceptConnSlotReserved c, c\<lparr>ch_acceptConnSlotReserved := False\<rparr>)"

definition GetReadBufferStats :: "'c channel \<Rightarrow> int \<times> int \<times> int \<times> int" where
  "GetReadBufferStats c = (case ch_readBuffer c of None \<Rightarrow> (0, 0, 0, 0)
     | Some rb \<Rightarrow> (RLen rb, RCap rb, fst (Stats rb), snd (Stats rb)))"

definition connErrorsInc :: "'c channel \<Rightarrow> 'c channel" where
  "connErrorsInc c = (if ch_hasMetrics c then c\<lparr>ch_connErrors := ch_connErrors c + 1\<rparr> else c)"

definition bytesRecAdd :: "int \<Rightarrow> 'c channel \<Rightarrow> 'c channel" where
  "bytesRecAdd n c = (if n > 0 \<and> ch_hasMetrics c then c\<lparr>ch_bytesRec := ch_bytesRec c + n\<rparr> else c)"

text \<open>
  \<open>NewBaseChannel\<close>: \<open>fromPool\<close> is the ring the pool hands out, \<open>batchMax\<close> the tuning value
  that sizes the header buffer; in sync mode there is no send queue.
\<close>

definition NewBaseChannel ::
  "socket_config \<Rightarrow> bool \<Rightarrow> int \<Rightarrow> u64 \<Rightarrow> ring_buffer \<Rightarrow> u64 \<Rightarrow> 'c \<Rightarrow> int \<Rightarrow> 'c channel" where
  "NewBaseChannel cfg syncMode batchMax pooledMax fromPool channelId conn now =
     \<lparr>ch_channelId = channelId, ch_rpcId = 0, ch_authId = 0, ch_lastRecTime = now, ch_heartbeatTimeout = 30000,
      ch_conn = conn, ch_connClosed = False, ch_state = True, ch_isClose = False, ch_removed = False,
      ch_closeChan = False, ch_closeOnce = False, ch_finalizeOnce = False,
      ch_mailBoxQueue = (if \<not> syncMode then Some NewUnboundedMPSC else None),
      ch_readBuffer = Some (GetRingBufferForSocket cfg pooledMax fromPool),
      ch_parseData = \<lparr>pd_Message = empty_message, pd_Error = None, pd_OwnedBuffers = []\<rparr>,
      ch_headersBuf = (if batchMax > 0 \<and> HeaderLen cfg > 0 then replicate (nat batchMax * HeaderLen cfg) 0 else []),
      ch_sharedSendHook = False, ch_sharedSendPending = False, ch_sharedSendCloseAck = None,
      ch_sharedSendCloseDone = False, ch_closeReactorAsync = False, ch_reactorReadDepth = 0,
      ch_readCallbackDepth = 0, ch_deferReadBufferRelease = False, ch_acceptConnSlotReserved = False,
      ch_queuedMsgs = 0, ch_hasMetrics = False, ch_bytesRec = 0, ch_bytesSent = 0, ch_connErrors = 0,
      ch_heartbeatTimeouts = 0, ch_dispatched = [], ch_released = [], ch_hooked = 0, ch_closeCalls = 0,
      ch_freedRings = []\<rparr>"

section \<open>Dispatch\<close>

text \<open>
  \<open>handleParsedMessage\<close>: decrypt a non-empty body, then hand the message to the server.
  The callback depth is raised only for the duration of the call.
\<close>

definition handleParsedMessage :: "'c chan_env \<Rightarrow> 'c channel \<Rightarrow> bool \<times> 'c channel" where
  "handleParsedMessage env c =
     (let netMsg = pd_Message (ch_parseData c); encryptedData = nm_Data netMsg
      in if length encryptedData > 0 then
           (case ce_decrypt env encryptedData of
              None \<Rightarrow> if ce_disconnectOnDecryptError env then (True, connErrorsInc c) else (False, c)
            | Some d \<Rightarrow>
                let m = netMsg\<lparr>nm_Data := d\<rparr>
                in (False, c\<lparr>ch_parseData := (ch_parseData c)\<lparr>pd_Message := m\<rparr>,
                             ch_dispatched := ch_dispatched c @ [wire_of m]\<rparr>))
         else (False, c\<lparr>ch_dispatched := ch_dispatched c @ [wire_of netMsg]\<rparr>))"

definition readRingGrowStepBytes :: int where "readRingGrowStepBytes = 64 * 1024"

text \<open>One parse on the channel's ring: the buffers of the previous message are given back first.\<close>

definition parse_one :: "'c chan_env \<Rightarrow> 'c channel \<Rightarrow> ((bool \<times> parse_error option) \<times> 'c channel) option" where
  "parse_one env c =
     (case ch_readBuffer c of None \<Rightarrow> None
      | Some rb \<Rightarrow> do {
          (res, rb', pd) \<leftarrow> ParseFromRingBuffer (ce_cfg env) (ce_stale env) rb (snd (ResetForReuse (ch_parseData c)));
          Some (res, c\<lparr>ch_readBuffer := Some rb', ch_parseData := pd\<rparr>) })"

definition grow_read :: "'c channel \<Rightarrow> (bool \<times> 'c channel) option" where
  "grow_read c =
     (case ch_readBuffer c of None \<Rightarrow> None
      | Some rb \<Rightarrow> do { (ok, rb') \<leftarrow> Grow readRingGrowStepBytes rb; Some (ok, c\<lparr>ch_readBuffer := Some rb'\<rparr>) })"

definition ring_full :: "'c channel \<Rightarrow> bool" where
  "ring_full c = (case ch_readBuffer c of None \<Rightarrow> False | Some rb \<Rightarrow> IsFull rb)"

text \<open>The loop of \<open>ParseAndDispatch\<close>: after a successful growth it parses again.\<close>

partial_function (option) dispatch_loop :: "'c chan_env \<Rightarrow> 'c channel \<Rightarrow> (bool \<times> 'c channel) option" where
  "dispatch_loop env c =
     Option.bind (parse_one env c) (\<lambda>r.
       (if snd (fst r) \<noteq> None then Some (True, connErrorsInc (snd r))
        else if \<not> fst (fst r) then
          (if ring_full (snd r) then
             Option.bind (grow_read (snd r)) (\<lambda>g.
               if \<not> fst g then Some (True, snd g) else dispatch_loop env (snd g))
           else Some (False, snd r))
        else (if fst (handleParsedMessage env (snd r)) then Some (True, snd (handleParsedMessage env (snd r)))
              else dispatch_loop env (snd (handleParsedMessage env (snd r))))))"

definition ParseAndDispatch :: "'c chan_env \<Rightarrow> 'c channel \<Rightarrow> (bool \<times> 'c channel) option" where
  "ParseAndDispatch env c = (if ch_isClose c then Some (True, c) else dispatch_loop env c)"

section \<open>Filling the ring\<close>

text \<open>
  \<open>WriteToReadBuffer\<close> (reactor path): the loop over \<open>p[written:]\<close>. The result is the
  number of bytes written and the error, \<open>Some EOF\<close> for a closed channel.
\<close>

partial_function (option) write_loop ::
  "int \<Rightarrow> byte list \<Rightarrow> nat \<Rightarrow> 'c channel \<Rightarrow> ((nat \<times> io_error option) \<times> 'c channel) option" where
  "write_loop now p written c =
     (if \<not> written < length p then Some ((written, None), c)
      else case ch_readBuffer c of None \<Rightarrow> None
      | Some rb \<Rightarrow> Option.bind (RWrite (drop written p) rb) (\<lambda>r.
          (let wn = fst (fst r); e = snd (fst r); c1 = c\<lparr>ch_readBuffer := Some (snd r)\<rparr>;
               c2 = (if wn > 0 then UpdateLastRecTime now (bytesRecAdd (int wn) c1) else c1);
               written' = written + wn
           in if written' \<ge> length p then Some ((written', None), c2)
              else if e = None then write_loop now p written' c2
              else if e = Some ErrBufferFull then
                Option.bind (grow_read c2) (\<lambda>g.
                  if fst g then write_loop now p written' (snd g) else Some ((written', e), snd g))
              else if e = Some ErrShortWrite then write_loop now p written' c2
              else Some ((written', e), c2))))"

definition WriteToReadBuffer :: "int \<Rightarrow> byte list \<Rightarrow> 'c channel \<Rightarrow> ((nat \<times> io_error option) \<times> 'c channel) option" where
  "WriteToReadBuffer now p c = (if ch_isClose c then Some ((0, Some EOF), c) else write_loop now p 0 c)"

text \<open>
  \<open>read\<close> (goroutine path): fill from the connection, grow and retry once when the ring is
  full, classify the error, then parse what is there. Its parse loop stops after a growth.
\<close>

definition fill_once :: "'c chan_env \<Rightarrow> 'c channel \<Rightarrow> ((nat \<times> io_error option) \<times> 'c channel) option" where
  "fill_once env c =
     (case ch_readBuffer c of None \<Rightarrow> None
      | Some rb \<Rightarrow> do {
          ((n, err), conn, rb') \<leftarrow> WriteFromReader (ce_reader env) 0 (ch_conn c) rb;
          Some ((n, err), bytesRecAdd (int n) (c\<lparr>ch_readBuffer := Some rb', ch_conn := conn\<rparr>)) })"

definition fill_read :: "'c chan_env \<Rightarrow> 'c channel \<Rightarrow> (io_error option \<times> 'c channel) option" where
  "fill_read env c = do {
     ((n, err), c1) \<leftarrow> fill_once env c;
     if err = Some ErrBufferFull then do {
       (ok, c2) \<leftarrow> grow_read c1;
       if ok then do {
         ((n2, err2), c3) \<leftarrow> fill_once env c2;
         Some (if err2 \<noteq> None \<and> err2 \<noteq> Some ErrBufferFull then err2 else None, c3) }
       else Some (None, c2) }
     else Some (err, c1) }"

definition note_read_error :: "'c chan_env \<Rightarrow> io_error \<Rightarrow> 'c channel \<Rightarrow> 'c channel" where
  "note_read_error env err c =
     (if err = EOF then c
      else if ce_isTimeout env err then
        (if ch_hasMetrics c then c\<lparr>ch_heartbeatTimeouts := ch_heartbeatTimeouts c + 1\<rparr> else c)
      else if \<not> ce_isNormalClose env err then connErrorsInc c else c)"

partial_function (option) read_loop :: "'c chan_env \<Rightarrow> 'c channel \<Rightarrow> (bool \<times> 'c channel) option" where
  "read_loop env c =
     Option.bind (parse_one env c) (\<lambda>r.
       (if snd (fst r) \<noteq> None then Some (True, connErrorsInc (snd r))
        else if \<not> fst (fst r) then
          (if ring_full (snd r) then Option.bind (grow_read (snd r)) (\<lambda>g. Some (\<not> fst g, snd g))
           else Some (False, snd r))
        else (if fst (handleParsedMessage env (snd r)) then Some (True, snd (handleParsedMessage env (snd r)))
              else read_loop env (snd (handleParsedMessage env (snd r))))))"

definition read_step :: "'c chan_env \<Rightarrow> 'c channel \<Rightarrow> (bool \<times> 'c channel) option" where
  "read_step env c = do {
     (err, c1) \<leftarrow> fill_read env c;
     case err of Some e \<Rightarrow> Some (True, note_read_error env e c1) | None \<Rightarrow> read_loop env c1 }"

section \<open>What dispatch delivers\<close>

text \<open>
  The messages handed to the server for a list of received ones, and whether a body that
  does not decrypt ends the connection.
\<close>

fun deliver :: "'c chan_env \<Rightarrow> wire_message list \<Rightarrow> wire_message list \<times> bool" where
  "deliver env [] = ([], False)"
| "deliver env ((i, s, d) # ms) =
     (if d = [] then ((i, s, d) # fst (deliver env ms), snd (deliver env ms))
      else case ce_decrypt env d of
        None \<Rightarrow> if ce_disconnectOnDecryptError env then ([], True) else deliver env ms
      | Some d' \<Rightarrow> ((i, s, d') # fst (deliver env ms), snd (deliver env ms)))"

text \<open>The ring can hold the largest frame of the configuration, as \<open>NewBaseChannel\<close> sizes it.\<close>

definition ring_sized :: "socket_config \<Rightarrow> ring_buffer \<Rightarrow> bool" where
  "ring_sized cfg rb \<longleftrightarrow> 0 \<le> MaxDataLength cfg \<and> MaxDataLength cfg < 2 ^ 60
     \<and> (rb_maxSize rb = 0 \<or> RingBufferMaxSizeForSocket cfg \<le> int (unat (rb_maxSize rb)))"

lemma parse_one_eq:
  assumes "ch_readBuffer c = Some rb" "rb_inv rb"
  shows "case decode_frame (ce_cfg env) (rb_contents rb) of
      NeedMore \<Rightarrow> \<exists>pd. parse_one env c = Some ((False, None), c\<lparr>ch_readBuffer := Some rb, ch_parseData := pd\<rparr>)
    | Bad e \<Rightarrow> \<exists>pd. parse_one env c = Some ((False, Some e), c\<lparr>ch_readBuffer := Some rb, ch_parseData := pd\<rparr>)
    | Frame m n \<Rightarrow> \<exists>pd rb1. parse_one env c = Some ((True, None), c\<lparr>ch_readBuffer := Some rb1, ch_parseData := pd\<rparr>)
        \<and> rb_inv rb1 \<and> rb_contents rb1 = drop n (rb_contents rb) \<and> rb_maxSize rb1 = rb_maxSize rb
        \<and> rb_buf rb1 = rb_buf rb \<and> wire_of (pd_Message pd) = m"
proof -
  let ?pd = "snd (ResetForReuse (ch_parseData c))"
  note f = ParseFromRingBuffer_facts[OF assms(2), of "ce_cfg env" "ce_stale env" ?pd]
  show ?thesis
  proof (cases "decode_frame (ce_cfg env) (rb_contents rb)")
    case NeedMore
    then show ?thesis using f assms(1) by (simp add: parse_one_def) (rule exI, rule refl)
  next
    case (Bad e)
    then show ?thesis using f assms(1) by (simp add: parse_one_def) (rule exI, rule refl)
  next
    case (Frame m n)
    then obtain pd where p: "n \<le> rb_used rb" "ParseFromRingBuffer (ce_cfg env) (ce_stale env) rb ?pd
          = Some ((True, None), advance_read (of_nat n) rb, pd)" "wire_of (pd_Message pd) = m" using f by auto
    then have "parse_one env c = Some ((True, None), c\<lparr>ch_readBuffer := Some (advance_read (of_nat n) rb), ch_parseData := pd\<rparr>)"
      using assms(1) by (simp add: parse_one_def)
    then show ?thesis using Frame p(3) advance_read_facts[OF assms(2) p(1)]
      by (auto intro!: exI[of _ pd] exI[of _ "advance_read (of_nat n) rb"])
  qed
qed

lemma handle_facts:
  assumes "wire_of (pd_Message (ch_parseData c)) = (i, s, d)"
  shows "d = [] \<Longrightarrow> \<exists>c'. handleParsedMessage env c = (False, c') \<and> ch_readBuffer c' = ch_readBuffer c
           \<and> ch_dispatched c' = ch_dispatched c @ [(i, s, [])] \<and> ch_conn c' = ch_conn c"
    and "d \<noteq> [] \<Longrightarrow> ce_decrypt env d = Some d' \<Longrightarrow> \<exists>c'. handleParsedMessage env c = (False, c')
           \<and> ch_readBuffer c' = ch_readBuffer c \<and> ch_dispatched c' = ch_dispatched c @ [(i, s, d')] \<and> ch_conn c' = ch_conn c"
    and "d \<noteq> [] \<Longrightarrow> ce_decrypt env d = None \<Longrightarrow> \<exists>c'. handleParsedMessage env c = (ce_disconnectOnDecryptError env, c')
           \<and> ch_readBuffer c' = ch_readBuffer c \<and> ch_dispatched c' = ch_dispatched c \<and> ch_conn c' = ch_conn c"
  using assms by (auto simp: handleParsedMessage_def wire_of_def connErrorsInc_def Let_def)

text \<open>A successful growth of a full ring makes room.\<close>

lemma grow_read_full:
  assumes rb: "ch_readBuffer c = Some rb" "rb_inv rb" "rb_used rb = length (rb_buf rb)"
    and le: "rb_used rb + 65536 \<le> 2 ^ 62" and room: "rb_maxSize rb = 0 \<or> rb_used rb < unat (rb_maxSize rb)"
  shows "\<exists>rb1. grow_read c = Some (True, c\<lparr>ch_readBuffer := Some rb1\<rparr>) \<and> rb_inv rb1
     \<and> rb_contents rb1 = rb_contents rb \<and> rb_maxSize rb1 = rb_maxSize rb \<and> rb_used rb1 < length (rb_buf rb1)
     \<and> length (rb_buf rb) \<le> length (rb_buf rb1)"
proof -
  obtain ok rb1 where g: "Grow (int 65536) rb = Some (ok, rb1)" "rb_inv rb1" "rb_contents rb1 = rb_contents rb"
    "rb_maxSize rb1 = rb_maxSize rb"
    "ok \<longleftrightarrow> rb_used rb + 65536 \<le> length (rb_buf rb) \<or> rb_maxSize rb = 0 \<or> length (rb_buf rb) < unat (rb_maxSize rb)"
    "ok \<and> \<not> grow_capped 65536 rb \<longrightarrow> rb_used rb + 65536 \<le> length (rb_buf rb1)"
    "grow_capped 65536 rb \<longrightarrow> length (rb_buf rb1) = unat (rb_maxSize rb)" "length (rb_buf rb) \<le> length (rb_buf rb1)"
    using Grow_facts[OF rb(2) le] by blast
  have ok: ok using g(5) room rb(3) by auto
  have "rb_used rb1 = rb_used rb" unfolding rb_used_contents g(3) ..
  then have "rb_used rb1 < length (rb_buf rb1)" using g(6,7) ok room rb(3) by (cases "grow_capped 65536 rb") (auto simp: grow_capped_def)
  then show ?thesis using g(1-4,8) ok rb(1) by (intro exI[of _ rb1]) (simp add: grow_read_def readRingGrowStepBytes_def)
qed

lemma need_more_room:
  assumes "ring_sized (ce_cfg env) rb" "decode_frame (ce_cfg env) (rb_contents rb) = NeedMore"
  shows "rb_maxSize rb = 0 \<or> rb_used rb < unat (rb_maxSize rb)" "rb_used rb + 65536 \<le> 2 ^ 62"
proof -
  have r: "int (length (rb_contents rb)) < RingBufferMaxSizeForSocket (ce_cfg env)"
    using assms by (intro need_more_short) (auto simp: ring_sized_def)
  have "RingBufferMaxSizeForSocket (ce_cfg env) \<le> 2 ^ 60 + 2 ^ 21"
    using assms(1) by (auto simp: ring_sized_def RingBufferMaxSizeForSocket_def Let_def DefaultMaxDataLength_def
        headerSizeV0_def headerSizeV1_def)
  then show "rb_used rb + 65536 \<le> 2 ^ 62" using r by simp
  have "rb_maxSize rb = 0 \<or> RingBufferMaxSizeForSocket (ce_cfg env) \<le> int (unat (rb_maxSize rb))"
    using assms(1) by (simp only: ring_sized_def)
  then show "rb_maxSize rb = 0 \<or> rb_used rb < unat (rb_maxSize rb)"
    using r unfolding length_rb_contents by linarith
qed

lemma drain_Frame:
  "decode_frame cfg xs = Frame m n \<Longrightarrow> drain (decode_frame cfg) xs =
     (m # fst (drain (decode_frame cfg) (drop n xs)), snd (drain (decode_frame cfg) (drop n xs)))"
  using decode_frame_length[of cfg xs m n] by (subst drain.simps) (simp add: case_prod_beta)

text \<open>
  Both parse loops of the code have this shape; they differ in what they do when the bytes
  left are not a whole message (\<open>K\<close>).
\<close>

lemma parse_loop_facts:
  assumes eq: "\<And>c. L c = Option.bind (parse_one env c) (\<lambda>r.
       (if snd (fst r) \<noteq> None then Some (True, connErrorsInc (snd r))
        else if \<not> fst (fst r) then K (snd r)
        else (if fst (handleParsedMessage env (snd r)) then Some (True, snd (handleParsedMessage env (snd r)))
              else L (snd (handleParsedMessage env (snd r))))))"
    and K: "\<And>c rb. ch_readBuffer c = Some rb \<Longrightarrow> rb_inv rb \<Longrightarrow> ring_sized (ce_cfg env) rb \<Longrightarrow>
        decode_frame (ce_cfg env) (rb_contents rb) = NeedMore \<Longrightarrow>
        \<exists>c' rb'. K c = Some (False, c') \<and> ch_readBuffer c' = Some rb' \<and> rb_inv rb' \<and> rb_contents rb' = rb_contents rb
          \<and> rb_maxSize rb' = rb_maxSize rb \<and> rb_used rb' < length (rb_buf rb') \<and> ch_dispatched c' = ch_dispatched c
          \<and> ch_conn c' = ch_conn c \<and> length (rb_buf rb) \<le> length (rb_buf rb')"
    and "ch_readBuffer c = Some rb" "rb_inv rb" "ring_sized (ce_cfg env) rb"
    and "drain (decode_frame (ce_cfg env)) (rb_contents rb) = (ms, rest, e)" "deliver env ms = (out, stopped)"
  shows "\<exists>c' rb'. L c = Some (stopped \<or> e \<noteq> None, c') \<and> ch_readBuffer c' = Some rb' \<and> rb_inv rb'
     \<and> ch_dispatched c' = ch_dispatched c @ out \<and> ch_conn c' = ch_conn c \<and> rb_maxSize rb' = rb_maxSize rb
     \<and> (\<not> stopped \<longrightarrow> rb_contents rb' = rest) \<and> (e = None \<and> \<not> stopped \<longrightarrow> rb_used rb' < length (rb_buf rb'))
     \<and> length (rb_buf rb) \<le> length (rb_buf rb')"
  using assms(3-)
proof (induction "rb_used rb" arbitrary: c rb ms out stopped rule: less_induct)
  case less
  note rb = less.prems(1,2)
  show ?case
  proof (cases "decode_frame (ce_cfg env) (rb_contents rb)")
    case NeedMore
    have d: "ms = []" "rest = rb_contents rb" "e = None" "out = []" "\<not> stopped"
      using less.prems(4,5) fr.drain_need_more[OF NeedMore] by auto
    obtain pd where p: "parse_one env c = Some ((False, None), c\<lparr>ch_readBuffer := Some rb, ch_parseData := pd\<rparr>)"
      using parse_one_eq[OF rb, of env] NeedMore by auto
    let ?c = "c\<lparr>ch_readBuffer := Some rb, ch_parseData := pd\<rparr>"
    have "ch_readBuffer ?c = Some rb" by simp
    from K[OF this rb(2) less.prems(3) NeedMore] p d show ?thesis by (subst eq) auto
  next
    case (Bad x)
    obtain pd where p: "parse_one env c = Some ((False, Some x), c\<lparr>ch_readBuffer := Some rb, ch_parseData := pd\<rparr>)"
      using parse_one_eq[OF rb, of env] Bad by auto
    have "drain (decode_frame (ce_cfg env)) (rb_contents rb) = ([], rb_contents rb, Some x)"
      using Bad by (subst drain.simps) simp
    then have "ms = []" "rest = rb_contents rb" "e = Some x" "out = []" "\<not> stopped" using less.prems(4,5) by auto
    then show ?thesis using p rb by (subst eq) (auto simp: connErrorsInc_def)
  next
    case (Frame m n)
    obtain pd rb1 where p: "parse_one env c = Some ((True, None), c\<lparr>ch_readBuffer := Some rb1, ch_parseData := pd\<rparr>)"
      "rb_inv rb1" "rb_contents rb1 = drop n (rb_contents rb)" "rb_maxSize rb1 = rb_maxSize rb" "wire_of (pd_Message pd) = m" "rb_buf rb1 = rb_buf rb"
      using parse_one_eq[OF rb, of env] Frame by auto
    let ?c = "c\<lparr>ch_readBuffer := Some rb1, ch_parseData := pd\<rparr>"
    obtain ms1 where ms: "ms = m # ms1" "drain (decode_frame (ce_cfg env)) (rb_contents rb1) = (ms1, rest, e)"
      using less.prems(4) drain_Frame[OF Frame] p(3) by (metis prod.collapse prod.inject)
    have lt: "rb_used rb1 < rb_used rb" using decode_frame_length[OF Frame] unfolding rb_used_contents p(3) by simp
    have sz: "ring_sized (ce_cfg env) rb1" using less.prems(3) p(4) by (simp add: ring_sized_def)
    obtain i s d where m: "m = (i, s, d)" by (cases m)
    have w: "wire_of (pd_Message (ch_parseData ?c)) = (i, s, d)" using p(5) m by simp
    obtain out1 st1 where o: "deliver env ms1 = (out1, st1)" by fastforce
    have step: "L c = (if fst (handleParsedMessage env ?c) then Some (True, snd (handleParsedMessage env ?c))
        else L (snd (handleParsedMessage env ?c)))"
      using p(1) by (subst eq) simp
    have go: ?thesis
      if h: "handleParsedMessage env ?c = (False, c2)" "ch_readBuffer c2 = ch_readBuffer ?c"
        "ch_dispatched c2 = ch_dispatched c @ dd" "ch_conn c2 = ch_conn c" "out = dd @ out1" "stopped = st1" for c2 dd
    proof -
      have "ch_readBuffer c2 = Some rb1" using h(2) by simp
      from less.hyps[OF lt this p(2) sz ms(2) o] obtain c' rb' where
        "L c2 = Some (st1 \<or> e \<noteq> None, c')" "ch_readBuffer c' = Some rb'" "rb_inv rb'"
        "ch_dispatched c' = ch_dispatched c2 @ out1" "ch_conn c' = ch_conn c2" "rb_maxSize rb' = rb_maxSize rb1" "\<not> st1 \<longrightarrow> rb_contents rb' = rest"
        "e = None \<and> \<not> st1 \<longrightarrow> rb_used rb' < length (rb_buf rb')" "length (rb_buf rb1) \<le> length (rb_buf rb')" by blast
      then show ?thesis using step h p(4,6) by auto
    qed
    show ?thesis
    proof (cases "d = []")
      case True
      obtain c2 where "handleParsedMessage env ?c = (False, c2)" "ch_readBuffer c2 = ch_readBuffer ?c"
        "ch_dispatched c2 = ch_dispatched ?c @ [(i, s, [])]" "ch_conn c2 = ch_conn ?c" using handle_facts(1)[OF w True, of env] by blast
      then show ?thesis using go[of c2 "[(i, s, [])]"] less.prems(5) o True ms(1) m by auto
    next
      case ne: False
      show ?thesis
      proof (cases "ce_decrypt env d")
        case (Some d')
        obtain c2 where "handleParsedMessage env ?c = (False, c2)" "ch_readBuffer c2 = ch_readBuffer ?c"
          "ch_dispatched c2 = ch_dispatched ?c @ [(i, s, d')]" "ch_conn c2 = ch_conn ?c" using handle_facts(2)[OF w ne Some] by blast
        then show ?thesis using go[of c2 "[(i, s, d')]"] less.prems(5) o ne Some ms(1) m by auto
      next
        case None
        obtain c2 where h: "handleParsedMessage env ?c = (ce_disconnectOnDecryptError env, c2)"
          "ch_readBuffer c2 = ch_readBuffer ?c" "ch_dispatched c2 = ch_dispatched ?c" "ch_conn c2 = ch_conn ?c"
          using handle_facts(3)[OF w ne None] by blast
        show ?thesis
        proof (cases "ce_disconnectOnDecryptError env")
          case True
          then have "out = []" "stopped" using less.prems(5) ne None ms(1) m by auto
          then show ?thesis using step h True p(2,4,6) by auto
        next
          case False
          then show ?thesis using go[of c2 "[]"] h less.prems(5) o ne None ms(1) m by auto
        qed
      qed
    qed
  qed
qed

lemma full_iff: "ch_readBuffer c = Some rb \<Longrightarrow> rb_inv rb \<Longrightarrow> ring_full c \<longleftrightarrow> rb_used rb = length (rb_buf rb)"
  by (simp add: ring_full_def IsFull_eq)

lemma grow_need_more:
  assumes "ch_readBuffer c = Some rb" "rb_inv rb" "ring_sized (ce_cfg env) rb" "ring_full c"
    "decode_frame (ce_cfg env) (rb_contents rb) = NeedMore"
  shows "\<exists>rb1. grow_read c = Some (True, c\<lparr>ch_readBuffer := Some rb1\<rparr>) \<and> rb_inv rb1
     \<and> rb_contents rb1 = rb_contents rb \<and> rb_maxSize rb1 = rb_maxSize rb \<and> rb_used rb1 < length (rb_buf rb1)
     \<and> length (rb_buf rb) \<le> length (rb_buf rb1)"
  using grow_read_full[OF assms(1,2)] full_iff[OF assms(1,2)] need_more_room[OF assms(3,5)] assms(4) by blast

lemma not_full_lt: "ch_readBuffer c = Some rb \<Longrightarrow> rb_inv rb \<Longrightarrow> \<not> ring_full c \<Longrightarrow> rb_used rb < length (rb_buf rb)"
  using full_iff[of c rb] rb_len_bounds(3)[of rb] by simp

lemma dispatch_need_more:
  assumes rb: "ch_readBuffer c = Some rb" "rb_inv rb" and nm: "decode_frame (ce_cfg env) (rb_contents rb) = NeedMore"
    and nf: "rb_used rb < length (rb_buf rb)"
  shows "\<exists>pd. dispatch_loop env c = Some (False, c\<lparr>ch_readBuffer := Some rb, ch_parseData := pd\<rparr>)"
proof -
  obtain pd where "parse_one env c = Some ((False, None), c\<lparr>ch_readBuffer := Some rb, ch_parseData := pd\<rparr>)"
    using parse_one_eq[OF rb, of env] nm by auto
  then show ?thesis using nf by (subst dispatch_loop.simps) (intro exI[of _ pd], simp add: ring_full_def IsFull_eq[OF rb(2)])
qed

lemmas dispatch_loop_facts = parse_loop_facts[where L = "dispatch_loop env" for env, OF dispatch_loop.simps]
lemmas read_loop_facts = parse_loop_facts[where L = "read_loop env" for env, OF read_loop.simps]

lemma dispatch_K:
  assumes "ch_readBuffer c = Some rb" "rb_inv rb" "ring_sized (ce_cfg env) rb" "decode_frame (ce_cfg env) (rb_contents rb) = NeedMore"
  shows "\<exists>c' rb'. (if ring_full c then Option.bind (grow_read c) (\<lambda>g. if \<not> fst g then Some (True, snd g) else dispatch_loop env (snd g))
           else Some (False, c)) = Some (False, c') \<and> ch_readBuffer c' = Some rb' \<and> rb_inv rb' \<and> rb_contents rb' = rb_contents rb
          \<and> rb_maxSize rb' = rb_maxSize rb \<and> rb_used rb' < length (rb_buf rb') \<and> ch_dispatched c' = ch_dispatched c
          \<and> ch_conn c' = ch_conn c \<and> length (rb_buf rb) \<le> length (rb_buf rb')"
proof (cases "ring_full c")
  case True
  obtain rb1 where g: "grow_read c = Some (True, c\<lparr>ch_readBuffer := Some rb1\<rparr>)" "rb_inv rb1"
     "rb_contents rb1 = rb_contents rb" "rb_maxSize rb1 = rb_maxSize rb" "rb_used rb1 < length (rb_buf rb1)"
     "length (rb_buf rb) \<le> length (rb_buf rb1)"
    using grow_need_more[OF assms(1-3) True assms(4)] by blast
  obtain pd where "dispatch_loop env (c\<lparr>ch_readBuffer := Some rb1\<rparr>) =
      Some (False, c\<lparr>ch_readBuffer := Some rb1\<rparr>\<lparr>ch_readBuffer := Some rb1, ch_parseData := pd\<rparr>)"
    using dispatch_need_more[of "c\<lparr>ch_readBuffer := Some rb1\<rparr>" rb1 env] g assms(4) by auto
  then show ?thesis using True g by auto
next
  case False
  then show ?thesis using assms(1,2) not_full_lt[OF assms(1,2)] by auto
qed

lemma read_K:
  assumes "ch_readBuffer c = Some rb" "rb_inv rb" "ring_sized (ce_cfg env) rb" "decode_frame (ce_cfg env) (rb_contents rb) = NeedMore"
  shows "\<exists>c' rb'. (if ring_full c then Option.bind (grow_read c) (\<lambda>g. Some (\<not> fst g, snd g)) else Some (False, c)) = Some (False, c')
          \<and> ch_readBuffer c' = Some rb' \<and> rb_inv rb' \<and> rb_contents rb' = rb_contents rb
          \<and> rb_maxSize rb' = rb_maxSize rb \<and> rb_used rb' < length (rb_buf rb') \<and> ch_dispatched c' = ch_dispatched c
          \<and> ch_conn c' = ch_conn c \<and> length (rb_buf rb) \<le> length (rb_buf rb')"
proof (cases "ring_full c")
  case True
  then show ?thesis using grow_need_more[OF assms(1-3) True assms(4)] by auto
next
  case False
  then show ?thesis using assms(1,2) not_full_lt[OF assms(1,2)] by auto
qed

lemma dispatch_facts:
  assumes "ch_readBuffer c = Some rb" "rb_inv rb" "ring_sized (ce_cfg env) rb"
    and "drain (decode_frame (ce_cfg env)) (rb_contents rb) = (ms, rest, e)" "deliver env ms = (out, stopped)"
  shows "\<exists>c' rb'. dispatch_loop env c = Some (stopped \<or> e \<noteq> None, c') \<and> ch_readBuffer c' = Some rb' \<and> rb_inv rb'
     \<and> ch_dispatched c' = ch_dispatched c @ out \<and> ch_conn c' = ch_conn c \<and> rb_maxSize rb' = rb_maxSize rb
     \<and> (\<not> stopped \<longrightarrow> rb_contents rb' = rest) \<and> (e = None \<and> \<not> stopped \<longrightarrow> rb_used rb' < length (rb_buf rb'))
     \<and> length (rb_buf rb) \<le> length (rb_buf rb')"
  by (rule dispatch_loop_facts[OF dispatch_K]; (assumption | rule assms))

lemma read_facts:
  assumes "ch_readBuffer c = Some rb" "rb_inv rb" "ring_sized (ce_cfg env) rb"
    and "drain (decode_frame (ce_cfg env)) (rb_contents rb) = (ms, rest, e)" "deliver env ms = (out, stopped)"
  shows "\<exists>c' rb'. read_loop env c = Some (stopped \<or> e \<noteq> None, c') \<and> ch_readBuffer c' = Some rb' \<and> rb_inv rb'
     \<and> ch_dispatched c' = ch_dispatched c @ out \<and> ch_conn c' = ch_conn c \<and> rb_maxSize rb' = rb_maxSize rb
     \<and> (\<not> stopped \<longrightarrow> rb_contents rb' = rest) \<and> (e = None \<and> \<not> stopped \<longrightarrow> rb_used rb' < length (rb_buf rb'))
     \<and> length (rb_buf rb) \<le> length (rb_buf rb')"
  by (rule read_loop_facts[OF read_K]; (assumption | rule assms))

section \<open>Ingest\<close>

text \<open>A ring that is full at its limit takes nothing, and does not grow.\<close>

lemma ring_at_limit:
  assumes inv: "rb_inv rb" and full: "rb_used rb = length (rb_buf rb)" and mx: "0 < rb_maxSize rb" "unat (rb_maxSize rb) \<le> length (rb_buf rb)"
    and n: "0 < n" "rb_used rb + n \<le> 2 ^ 62"
  shows "Grow (int n) rb = Some (False, rb)" "length p = n \<Longrightarrow> RWrite p rb = Some ((0, Some ErrBufferFull), rb)"
proof -
  obtain ok rb' where g: "Grow (int n) rb = Some (ok, rb')"
    "ok \<longleftrightarrow> rb_used rb + n \<le> length (rb_buf rb) \<or> rb_maxSize rb = 0 \<or> length (rb_buf rb) < unat (rb_maxSize rb)"
    "\<not> ok \<longrightarrow> rb' = rb" using Grow_facts[OF inv n(2)] by blast
  then show gr: "Grow (int n) rb = Some (False, rb)" using full mx n by auto
  have "RFree rb = 0" by (simp add: RFree_eq[OF inv] full)
  then show "length p = n \<Longrightarrow> RWrite p rb = Some ((0, Some ErrBufferFull), rb)" using gr n by (auto simp: RWrite_def)
qed

lemma write_loop_done: "\<not> w < length p \<Longrightarrow> write_loop now p w c = Some ((w, None), c)"
  by (subst write_loop.simps) simp

lemma write_loop_at_limit:
  assumes "ch_readBuffer c = Some rb" "rb_inv rb" "rb_used rb = length (rb_buf rb)" "0 < rb_maxSize rb"
    "unat (rb_maxSize rb) \<le> length (rb_buf rb)" "w < length p" "rb_used rb + length p + 65536 \<le> 2 ^ 62"
  shows "\<exists>c'. write_loop now p w c = Some ((w, Some ErrBufferFull), c') \<and> ch_readBuffer c' = Some rb
     \<and> ch_dispatched c' = ch_dispatched c"
proof -
  have "RWrite (drop w p) rb = Some ((0, Some ErrBufferFull), rb)"
    using ring_at_limit(2)[OF assms(2-5), of "length (drop w p)" "drop w p"] assms(6,7) by simp
  moreover have "Grow 65536 rb = Some (False, rb)"
    using ring_at_limit(1)[OF assms(2-5), of 65536] assms(7) by simp
  ultimately show ?thesis using assms(1,6)
    by (subst write_loop.simps) (auto simp: Let_def grow_read_def readRingGrowStepBytes_def)
qed

lemma WriteToReadBuffer_facts:
  assumes rb: "ch_readBuffer c = Some rb" "rb_inv rb" "rb_used rb + length p + 65536 \<le> 2 ^ 61"
    and nc: "\<not> grow_capped (length p) rb" and op: "\<not> ch_isClose c"
  shows "\<exists>k c' rb'. WriteToReadBuffer now p c = Some ((k, if k = length p then None else Some ErrBufferFull), c')
     \<and> k \<le> length p \<and> ch_readBuffer c' = Some rb' \<and> rb_inv rb' \<and> rb_contents rb' = rb_contents rb @ take k p
     \<and> rb_maxSize rb' = rb_maxSize rb \<and> ch_dispatched c' = ch_dispatched c \<and> ch_isClose c' = ch_isClose c
     \<and> length (rb_buf rb) \<le> length (rb_buf rb')
     \<and> (k < length p \<longrightarrow> rb_used rb' = length (rb_buf rb') \<and> 0 < rb_maxSize rb \<and> unat (rb_maxSize rb) \<le> length (rb_buf rb'))"
proof (cases "p = []")
  case True
  then show ?thesis using rb op write_loop_done[of 0 p now c] by (simp add: WriteToReadBuffer_def)
next
  case ne: False
  have l: "rb_used rb + length p \<le> 2 ^ 62" using rb(3) by simp
  obtain k rb' where w: "RWrite p rb = Some ((k, if k = length p then None
             else if k = 0 then Some ErrBufferFull else Some ErrShortWrite), rb')"
     "k \<le> length p" "rb_inv rb'" "rb_contents rb' = rb_contents rb @ take k p" "rb_maxSize rb' = rb_maxSize rb"
     "k < length p \<longrightarrow> rb_used rb' = length (rb_buf rb') \<and> rb_maxSize rb > 0 \<and> unat (rb_maxSize rb) \<le> length (rb_buf rb')"
     "length (rb_buf rb) \<le> length (rb_buf rb')"
    using RWrite_facts[OF rb(2) l nc] by blast
  define c1 where "c1 = (if k > 0 then UpdateLastRecTime now (bytesRecAdd (int k) (c\<lparr>ch_readBuffer := Some rb'\<rparr>))
      else c\<lparr>ch_readBuffer := Some rb'\<rparr>)"
  have c1: "ch_readBuffer c1 = Some rb'" "ch_dispatched c1 = ch_dispatched c" "ch_isClose c1 = ch_isClose c"
    by (auto simp: c1_def UpdateLastRecTime_def bytesRecAdd_def)
  have used: "rb_used rb' = rb_used rb + k" using arg_cong[OF w(4), of length] w(2) by simp
  have lp: "0 < length p" using ne by simp
  have W: "WriteToReadBuffer now p c = write_loop now p 0 c" using op by (simp add: WriteToReadBuffer_def)
  consider "k = length p" | "k = 0" "k < length p" | "0 < k" "k < length p" using w(2) by linarith
  then show ?thesis
  proof cases
    case 1
    then have "write_loop now p 0 c = Some ((k, None), c1)"
      using rb(1) lp w(1) by (subst write_loop.simps) (simp add: Let_def c1_def)
    then show ?thesis using W 1 w c1 by auto
  next
    case 2
    have lim: "rb_used rb' = length (rb_buf rb')" "0 < rb_maxSize rb'" "unat (rb_maxSize rb') \<le> length (rb_buf rb')"
      using w(5,6) 2 by auto
    have "Grow 65536 rb' = Some (False, rb')"
      using ring_at_limit(1)[OF w(3) lim, of 65536] used 2 rb(3) by simp
    then have "write_loop now p 0 c = Some ((0, Some ErrBufferFull), c1\<lparr>ch_readBuffer := Some rb'\<rparr>)"
      using rb(1) lp w(1) 2 c1 by (subst write_loop.simps) (simp add: Let_def c1_def grow_read_def readRingGrowStepBytes_def)
    then show ?thesis using W 2 w c1 lim ne by auto
  next
    case 3
    have lim: "rb_used rb' = length (rb_buf rb')" "0 < rb_maxSize rb'" "unat (rb_maxSize rb') \<le> length (rb_buf rb')"
      using w(5,6) 3 by auto
    have b: "rb_used rb' + length p + 65536 \<le> 2 ^ 62" using used 3 rb(3) by simp
    have "write_loop now p 0 c = write_loop now p k c1"
      using rb(1) lp w(1) 3 by (subst write_loop.simps) (simp add: Let_def c1_def)
    moreover obtain c' where "write_loop now p k c1 = Some ((k, Some ErrBufferFull), c')" "ch_readBuffer c' = Some rb'"
      "ch_dispatched c' = ch_dispatched c1" "ch_isClose c' = ch_isClose c1"
    proof -
      have "RWrite (drop k p) rb' = Some ((0, Some ErrBufferFull), rb')"
        using ring_at_limit(2)[OF w(3) lim, of "length (drop k p)" "drop k p"] 3 b by simp
      moreover have "Grow 65536 rb' = Some (False, rb')" using ring_at_limit(1)[OF w(3) lim, of 65536] b by simp
      ultimately have "write_loop now p k c1 = Some ((k, Some ErrBufferFull), c1\<lparr>ch_readBuffer := Some rb'\<rparr>)"
        using c1(1) 3 by (subst write_loop.simps) (auto simp: Let_def grow_read_def readRingGrowStepBytes_def)
      then show thesis using that by auto
    qed
    ultimately show ?thesis using W 3 w c1 lim by auto
  qed
qed

section \<open>The stream as the server sees it\<close>

text \<open>
  \<open>rx_state env S c\<close>: so far the bytes \<open>S\<close> have arrived; the messages they contain have been
  decrypted and handed to the server, and the ring holds exactly the incomplete rest.
\<close>

definition rx_state :: "'c chan_env \<Rightarrow> byte list \<Rightarrow> 'c channel \<Rightarrow> bool" where
  "rx_state env S c \<longleftrightarrow> (\<exists>rb ms. ch_readBuffer c = Some rb \<and> rb_inv rb \<and> ring_sized (ce_cfg env) rb
     \<and> rb_used rb < length (rb_buf rb) \<and> drain (decode_frame (ce_cfg env)) S = (ms, rb_contents rb, None)
     \<and> deliver env ms = (ch_dispatched c, False))"

text \<open>What the server must have been handed once the bytes \<open>S\<close> have been parsed.\<close>

definition delivered_of :: "'c chan_env \<Rightarrow> byte list \<Rightarrow> wire_message list" where
  "delivered_of env S = fst (deliver env (fst (drain (decode_frame (ce_cfg env)) S)))"

lemma deliver_append:
  "deliver env xs = (out, False) \<Longrightarrow> deliver env (xs @ ys) = (out @ fst (deliver env ys), snd (deliver env ys))"
proof (induction xs arbitrary: out)
  case (Cons m xs)
  obtain i s d where m: "m = (i, s, d)" by (cases m)
  obtain o1 st where o: "deliver env xs = (o1, st)" by fastforce
  show ?case using Cons o unfolding m by (auto split: option.splits if_splits)
qed simp

lemma rx_append:
  assumes "drain (decode_frame (ce_cfg env)) S = (ms, rest, None)" "deliver env ms = (out, False)"
    and "drain (decode_frame (ce_cfg env)) (rest @ X) = (ms', rest', e)"
  shows "drain (decode_frame (ce_cfg env)) (S @ X) = (ms @ ms', rest', e)"
    "deliver env (ms @ ms') = (out @ fst (deliver env ms'), snd (deliver env ms'))"
    "delivered_of env (S @ X) = out @ fst (deliver env ms')"
  using fr.drain_append[OF assms(1), of X] assms(3) deliver_append[OF assms(2)]
  by (auto simp: delivered_of_def)

text \<open>Parsing after \<open>X\<close> has been appended to the ring, for either parse loop.\<close>

lemma rx_parse:
  assumes "drain (decode_frame (ce_cfg env)) S = (ms, left, None)" "deliver env ms = (ch_dispatched c, False)"
    and "ch_readBuffer c = Some rb" "rb_inv rb" "ring_sized (ce_cfg env) rb" "rb_contents rb = left @ X"
    and loop: "\<And>ms rest e out stopped. drain (decode_frame (ce_cfg env)) (rb_contents rb) = (ms, rest, e) \<Longrightarrow>
        deliver env ms = (out, stopped) \<Longrightarrow>
        \<exists>c' rb'. L c = Some (stopped \<or> e \<noteq> None, c') \<and> ch_readBuffer c' = Some rb' \<and> rb_inv rb'
     \<and> ch_dispatched c' = ch_dispatched c @ out \<and> ch_conn c' = ch_conn c \<and> rb_maxSize rb' = rb_maxSize rb
     \<and> (\<not> stopped \<longrightarrow> rb_contents rb' = rest) \<and> (e = None \<and> \<not> stopped \<longrightarrow> rb_used rb' < length (rb_buf rb'))
     \<and> length (rb_buf rb) \<le> length (rb_buf rb')"
  shows "\<exists>close c'. L c = Some (close, c') \<and> ch_dispatched c' = delivered_of env (S @ X) \<and> ch_conn c' = ch_conn c
     \<and> (\<not> close \<longrightarrow> rx_state env (S @ X) c')"
proof -
  obtain ms' rest' e where d: "drain (decode_frame (ce_cfg env)) (rb_contents rb) = (ms', rest', e)" by (metis prod_cases3)
  obtain out stopped where o: "deliver env ms' = (out, stopped)" by fastforce
  note a = rx_append[OF assms(1,2) d[unfolded assms(6)]]
  obtain c' rb' where l: "L c = Some (stopped \<or> e \<noteq> None, c')" "ch_readBuffer c' = Some rb'" "rb_inv rb'"
    "ch_dispatched c' = ch_dispatched c @ out" "ch_conn c' = ch_conn c" "rb_maxSize rb' = rb_maxSize rb"
    "\<not> stopped \<longrightarrow> rb_contents rb' = rest'" "e = None \<and> \<not> stopped \<longrightarrow> rb_used rb' < length (rb_buf rb')"
    using loop[OF d o] by blast
  have "rx_state env (S @ X) c'" if "\<not> (stopped \<or> e \<noteq> None)"
    unfolding rx_state_def using that l a o assms(5) by (intro exI[of _ rb'] exI[of _ "ms @ ms'"]) (auto simp: ring_sized_def)
  then show ?thesis using l a(3) o by auto
qed

lemma rx_bound:
  assumes "ring_sized (ce_cfg env) rb" "drain (decode_frame (ce_cfg env)) S = (ms, rb_contents rb, None)"
  shows "rb_used rb + 65536 \<le> 2 ^ 62"
  using need_more_room(2)[OF assms(1)] fr.drain_left_over[OF assms(2)] by blast

text \<open>
  One reactor turn, as far as one write goes: \<open>WriteToReadBuffer\<close> returns, and so does \<open>ParseAndDispatch\<close>
  after it; the server has been handed exactly the messages of the bytes taken.
\<close>

lemma reactor_stream_delivery:
  assumes rx: "rx_state env S c" and op: "\<not> ch_isClose c" and lx: "length X + 2 ^ 22 \<le> 2 ^ 60"
    and nc: "\<forall>rb. ch_readBuffer c = Some rb \<longrightarrow> \<not> grow_capped (length X) rb"
  shows "\<exists>k e c1 close c'. WriteToReadBuffer now X c = Some ((k, e), c1) \<and> k \<le> length X \<and> (e = None \<longleftrightarrow> k = length X)
     \<and> ParseAndDispatch env c1 = Some (close, c') \<and> ch_dispatched c' = delivered_of env (S @ take k X)
     \<and> (\<not> close \<longrightarrow> rx_state env (S @ take k X) c')"
proof -
  obtain rb ms where r: "ch_readBuffer c = Some rb" "rb_inv rb" "ring_sized (ce_cfg env) rb"
    "drain (decode_frame (ce_cfg env)) S = (ms, rb_contents rb, None)" "deliver env ms = (ch_dispatched c, False)"
    using rx unfolding rx_state_def by blast
  have "int (length (rb_contents rb)) < RingBufferMaxSizeForSocket (ce_cfg env)"
    using fr.drain_left_over[OF r(4)] r(3) by (intro need_more_short) (auto simp: ring_sized_def)
  moreover have "RingBufferMaxSizeForSocket (ce_cfg env) \<le> 2 ^ 60 + 2 ^ 21"
    using r(3) by (auto simp: ring_sized_def RingBufferMaxSizeForSocket_def Let_def DefaultMaxDataLength_def
        headerSizeV0_def headerSizeV1_def)
  ultimately have b: "rb_used rb + length X + 65536 \<le> 2 ^ 61" using lx by simp
  obtain k c1 rb1 where w: "WriteToReadBuffer now X c = Some ((k, if k = length X then None else Some ErrBufferFull), c1)"
     "k \<le> length X" "ch_readBuffer c1 = Some rb1" "rb_inv rb1" "rb_contents rb1 = rb_contents rb @ take k X"
     "rb_maxSize rb1 = rb_maxSize rb" "ch_dispatched c1 = ch_dispatched c" "ch_isClose c1 = ch_isClose c"
    using WriteToReadBuffer_facts[OF r(1,2) b nc[rule_format, OF r(1)] op] by blast
  have sz: "ring_sized (ce_cfg env) rb1" using r(3) w(6) by (simp add: ring_sized_def)
  obtain close c' where p: "dispatch_loop env c1 = Some (close, c')" "ch_dispatched c' = delivered_of env (S @ take k X)"
    "\<not> close \<longrightarrow> rx_state env (S @ take k X) c'"
    using rx_parse[where L = "dispatch_loop env" and rb = rb1, OF r(4) _ w(3,4) sz w(5)] dispatch_facts[OF w(3,4) sz] r(5) w(7)
    by metis
  then show ?thesis using w(1,2,8) op
    by (intro exI[of _ k] exI[of _ "if k = length X then None else Some ErrBufferFull"] exI[of _ c1] exI[of _ close] exI[of _ c'])
      (auto simp: ParseAndDispatch_def)
qed

text \<open>One turn of the goroutine path: fill from the connection, then parse.\<close>

definition reader_honest :: "'r reader \<Rightarrow> bool" where
  "reader_honest rd \<longleftrightarrow> (\<forall>r n. snd (fst (rd r n)) \<noteq> Some ErrBufferFull)"

lemma read_into_err:
  assumes "reader_honest rd" "read_into rd free r rb = Some ((bs, b', err), r')"
  shows "err \<noteq> Some ErrBufferFull"
proof -
  have h: "snd (fst (rd x n)) \<noteq> Some ErrBufferFull" for x n using assms(1) by (simp add: reader_honest_def)
  show ?thesis using assms(2) h
    by (auto simp: read_into_def Let_def case_prod_beta bind_eq_Some_conv split: if_splits)
qed

lemma WriteFromReader_not_full:
  assumes "reader_honest rd" "\<not> Ring_Buffer.IsFull rb" "WriteFromReader rd mx r rb = Some ((n, err), r', rb')"
  shows "err \<noteq> Some ErrBufferFull"
proof -
  let ?free = "if mx > 0 \<and> mx < RFree rb then mx else RFree rb"
  obtain x where x: "read_into rd ?free r rb = Some x"
    "err = (if length (fst (fst x)) > 0 \<and> snd (snd (fst x)) = Some EOF then None else snd (snd (fst x)))"
    using assms(2,3) by (auto simp: WriteFromReader_def Let_def case_prod_beta bind_eq_Some_conv)
  have "snd (snd (fst x)) \<noteq> Some ErrBufferFull"
    using read_into_err[OF assms(1), of ?free r rb "fst (fst x)" "fst (snd (fst x))" "snd (snd (fst x))" "snd x"] x(1) by simp
  then show ?thesis using x(2) by auto
qed

lemma read_turn:
  assumes rx: "rx_state env S c" and rd: "reader_stream (ce_reader env) rest" "reader_honest (ce_reader env)"
  shows "\<exists>close c' X. read_step env c = Some (close, c') \<and> rest (ch_conn c) = X @ rest (ch_conn c')
     \<and> (ch_dispatched c' = delivered_of env (S @ X) \<or> close \<and> ch_dispatched c' = ch_dispatched c)
     \<and> (\<not> close \<longrightarrow> rx_state env (S @ X) c')"
proof -
  obtain rb ms where r: "ch_readBuffer c = Some rb" "rb_inv rb" "ring_sized (ce_cfg env) rb"
    "rb_used rb < length (rb_buf rb)" "drain (decode_frame (ce_cfg env)) S = (ms, rb_contents rb, None)"
    "deliver env ms = (ch_dispatched c, False)"
    using rx unfolding rx_state_def by blast
  have b: "rb_used rb + 4096 \<le> 2 ^ 62" using rx_bound[OF r(3,5)] by simp
  obtain n err conn rb1 where w: "WriteFromReader (ce_reader env) 0 (ch_conn c) rb = Some ((n, err), conn, rb1)"
    "rb_inv rb1" "rb_contents rb1 @ rest conn = rb_contents rb @ rest (ch_conn c)" "rb_used rb1 = rb_used rb + n"
    "rb_maxSize rb1 = rb_maxSize rb"
    using WriteFromReader_facts[OF r(2) rd(1) b, of 0 "ch_conn c"] by blast
  have e: "err \<noteq> Some ErrBufferFull"
    using WriteFromReader_not_full[OF rd(2) _ w(1)] r(4) by (simp add: IsFull_eq[OF r(2)])
  define c1 where "c1 = bytesRecAdd (int n) (c\<lparr>ch_readBuffer := Some rb1, ch_conn := conn\<rparr>)"
  have c1: "ch_readBuffer c1 = Some rb1" "ch_conn c1 = conn" "ch_dispatched c1 = ch_dispatched c"
    by (auto simp: c1_def bytesRecAdd_def)
  have f: "fill_read env c = Some (err, c1)" using w(1) r(1) e by (simp add: fill_read_def fill_once_def c1_def)
  define X where "X = drop (rb_used rb) (rb_contents rb1)"
  have len: "length (rb_contents rb) \<le> length (rb_contents rb1)" using w(4) by simp
  have "take (rb_used rb) (rb_contents rb1) = rb_contents rb"
    using arg_cong[OF w(3), of "take (rb_used rb)"] len by simp
  then have cx: "rb_contents rb1 = rb_contents rb @ X" unfolding X_def by (metis append_take_drop_id)
  have X: "rest (ch_conn c) = X @ rest conn" using w(3) cx by simp
  show ?thesis
  proof (cases err)
    case (Some x)
    have "ch_dispatched (note_read_error env x c1) = ch_dispatched c" "ch_conn (note_read_error env x c1) = conn"
      using c1 by (auto simp: note_read_error_def connErrorsInc_def)
    then show ?thesis using f Some X
      by (intro exI[of _ True] exI[of _ "note_read_error env x c1"] exI[of _ X]) (simp add: read_step_def)
  next
    case None
    have sz: "ring_sized (ce_cfg env) rb1" using r(3) w(5) by (simp add: ring_sized_def)
    have r6: "deliver env ms = (ch_dispatched c1, False)" using r(6) c1(3) by simp
    obtain close c' where p: "read_loop env c1 = Some (close, c')" "ch_dispatched c' = delivered_of env (S @ X)"
      "ch_conn c' = ch_conn c1" "\<not> close \<longrightarrow> rx_state env (S @ X) c'"
      using rx_parse[where L = "read_loop env" and rb = rb1, OF r(5) r6 c1(1) w(2) sz cx] read_facts[OF c1(1) w(2) sz]
      by metis
    then show ?thesis using f None X c1(2)
      by (intro exI[of _ close] exI[of _ c'] exI[of _ X]) (simp add: read_step_def)
  qed
qed

section \<open>Properties\<close>

lemma new_channel_rx:
  assumes "rb_inv fromPool" "0 \<le> MaxDataLength cfg" "MaxDataLength cfg < 2 ^ 60" "ce_cfg env = cfg"
  shows "rx_state env [] (NewBaseChannel cfg syncMode batchMax pooledMax fromPool cid conn now)"
proof -
  let ?rb = "GetRingBufferForSocket cfg pooledMax fromPool"
  have m: "MaxDataLength cfg < 2 ^ 62" using assms(3) by simp
  note g = GetRingBufferForSocket_facts[OF assms(1) m]
  have u: "rb_used ?rb = 0" using g(2) unfolding rb_used_contents by simp
  have "nat (RingBufferMaxSizeForSocket cfg) \<le> unat (rb_maxSize ?rb)" by (rule is_ceil_pow2_bounds(1)[OF g(3)])
  then have sz: "ring_sized cfg ?rb" using assms(2,3) unfolding ring_sized_def by linarith
  show ?thesis
    unfolding rx_state_def using g(1,2) sz assms(4) rb_len_bounds(1)[OF g(1)] fr.drain_need_more[OF decode_Nil] u
    by (simp add: NewBaseChannel_def)
qed

definition sample_env :: "byte list chan_env" where
  "sample_env = \<lparr>ce_cfg = DefaultSocketConfig, ce_encrypt = Some, ce_decrypt = Some, ce_disconnectOnDecryptError = True,
     ce_reader = list_reader, ce_writev = (\<lambda>bufs c. ((int (length (concat bufs)), None), c)), ce_isTimeout = (\<lambda>_. False),
     ce_isNormalClose = (\<lambda>_. False), ce_stale = [], ce_message = (\<lambda>_. empty_message), ce_maxQueued = 0,
     ce_overflowHook = None, ce_flushQuota = 8\<rparr>"

definition sample_channel :: "byte list \<Rightarrow> byte list channel" where
  "sample_channel conn = NewBaseChannel DefaultSocketConfig False 8 0 (ring_of []) 1 conn 0"

lemma sample_rx: "rx_state sample_env [] (sample_channel conn)"
  unfolding sample_channel_def
  by (rule new_channel_rx) (auto simp: ring_of_facts sample_env_def DefaultSocketConfig_def DefaultMaxDataLength_def)

lemma sample_frame: "decode_frame DefaultSocketConfig [0, 0, 0, 7, 0, 0, 0, 1, 0, 0, 0, 1, 65] = Frame (7, 1, [65]) 13"
proof -
  have b: "be_bytes 7 = [0, 0, 0, 7]" "be_bytes 1 = [0, 0, 0, 1]" by code_simp+
  have e: "encode_frame DefaultSocketConfig (7, 1, [65]) = [0, 0, 0, 7, 0, 0, 0, 1, 0, 0, 0, 1, 65]"
    by (simp add: encode_frame_def DefaultSocketConfig_def b)
  have w: "wire_ok DefaultSocketConfig (7, 1, [65])"
    by (simp add: wire_ok_def DefaultSocketConfig_def DefaultMaxMsgId_def DefaultMaxDataLength_def)
  from decode_encode[OF w, of "[]"] show ?thesis by (simp add: e)
qed

lemma sample_delivered: "delivered_of sample_env [0, 0, 0, 7, 0, 0, 0, 1, 0, 0, 0, 1, 65] = [(7, 1, [65])]"
  using drain_Frame[OF sample_frame] fr.drain_need_more[OF decode_Nil, of DefaultSocketConfig]
  by (simp add: delivered_of_def sample_env_def)

text \<open>A fresh ring of the default configuration takes a small read without being cut short.\<close>

lemma sample_not_capped:
  assumes "n \<le> 65536" "ch_readBuffer (sample_channel conn) = Some rb"
  shows "\<not> grow_capped n rb"
proof -
  have rb: "rb = GetRingBufferForSocket DefaultSocketConfig 0 (ring_of [])"
    using assms(2) by (simp add: sample_channel_def NewBaseChannel_def)
  have m: "MaxDataLength DefaultSocketConfig < 2 ^ 62" by (simp add: DefaultSocketConfig_def DefaultMaxDataLength_def)
  have r0: "rb_inv (ring_of [])" by (rule ring_of_facts) simp
  have "nat (RingBufferMaxSizeForSocket DefaultSocketConfig) \<le> unat (rb_maxSize rb)"
    unfolding rb by (rule is_ceil_pow2_bounds(1)[OF GetRingBufferForSocket_facts(3)[OF r0 m]])
  moreover have "RingBufferMaxSizeForSocket DefaultSocketConfig > 65536"
    by (simp add: RingBufferMaxSizeForSocket_def DefaultSocketConfig_def DefaultMaxDataLength_def headerSizeV0_def)
  moreover have "rb_used rb = 0"
    using GetRingBufferForSocket_facts(2)[OF r0 m] unfolding rb rb_used_contents by simp
  ultimately have "\<not> unat (rb_maxSize rb) < rb_used rb + n" using assms(1) by linarith
  then show ?thesis unfolding grow_capped_def by blast
qed



end
