(* ===== verification/Channel_Send.thy ===== *)
theory Channel_Send
  imports Channel
begin

text \<open>
  The sending half of \<^verbatim>\<open>znet/channel.go\<close> and the worker turn of
  \<^verbatim>\<open>znet/shared_send_workers.go\<close>: \<open>Send\<close>, the batch writer, closing, and the reactor's shared
  send worker, each as one uninterrupted call. The points where the code waits for other
  goroutines (\<open>sendDone\<close>, \<open>readWg\<close>, the close acknowledgement) only delay and are not
  states here; the goroutine that \<open>closeBody\<close> spawns is the definition
  \<open>waitReadLoopAndFinalizeClose\<close>. The worker's recovery from a panic is left out.
\<close>

section \<open>Writing\<close>

definition release :: "nat list \<Rightarrow> 'c channel \<Rightarrow> 'c channel" where
  "release ms c = c\<lparr>ch_released := ch_released c @ ms\<rparr>"

definition writeBuffers :: "'c chan_env \<Rightarrow> byte list list \<Rightarrow> 'c channel \<Rightarrow> bool \<times> 'c channel" where
  "writeBuffers env bufs c =
     (if \<not> IsOpen c then (False, c)
      else let ((nWritten, err), conn) = ce_writev env bufs (ch_conn c); c1 = c\<lparr>ch_conn := conn\<rparr>;
               c2 = (if nWritten > 0 \<and> ch_hasMetrics c1 then c1\<lparr>ch_bytesSent := ch_bytesSent c1 + nWritten\<rparr> else c1)
           in (err = None, c2))"

text \<open>
  The header buffer is its backing array; a slot too many makes a new one, at least twice as
  long, that keeps the headers already written.
\<close>

definition ensure_headers :: "nat \<Rightarrow> nat \<Rightarrow> byte list \<Rightarrow> byte list" where
  "ensure_headers sent hdrLen hb =
     (let needHeaders = (sent + 1) * hdrLen
      in if length hb < needHeaders then
           let grow = (if length hb > 0 then (if length hb * 2 < needHeaders then needHeaders else length hb * 2)
                       else needHeaders)
           in go_copy (replicate grow 0) 0 (take (sent * hdrLen) hb)
         else hb)"

fun prepare_all :: "'c chan_env \<Rightarrow> nat list \<Rightarrow> nat \<Rightarrow> byte list \<Rightarrow> byte list list \<Rightarrow> nat \<times> byte list \<times> byte list list" where
  "prepare_all env [] sent hb bufs = (sent, hb, bufs)"
| "prepare_all env (m # ms) sent hb bufs =
     (let msg = ce_message env m
      in case ce_encrypt env (nm_Data msg) of None \<Rightarrow> prepare_all env ms sent hb bufs
         | Some data \<Rightarrow>
             let wrapper = empty_message\<lparr>nm_MsgId := nm_MsgId msg, nm_SeqId := nm_SeqId msg, nm_Data := data\<rparr>;
                 hdrLen = HeaderLen (ce_cfg env); hb1 = ensure_headers sent hdrLen hb; offset = sent * hdrLen;
                 ((headerLen, body), h) = PreparePacket (ce_cfg env) wrapper (take hdrLen (drop offset hb1))
             in prepare_all env ms (sent + 1) (go_copy hb1 offset h)
                  (bufs @ [take headerLen h] @ (if length body > 0 then [body] else [])))"

definition SendBatchMsg :: "'c chan_env \<Rightarrow> nat list \<Rightarrow> 'c channel \<Rightarrow> 'c channel" where
  "SendBatchMsg env messages c =
     (if messages = [] then c
      else if \<not> IsOpen c then c
      else let (sent, hb, bufs) = prepare_all env messages 0 (ch_headersBuf c) []; c1 = c\<lparr>ch_headersBuf := hb\<rparr>
           in if sent = 0 then c1 else snd (writeBuffers env bufs c1))"

definition WriteImmediate :: "'c chan_env \<Rightarrow> net_message \<Rightarrow> 'c channel \<Rightarrow> bool \<times> 'c channel" where
  "WriteImmediate env msg c =
     (if \<not> IsOpen c then (False, c)
      else let ((hdrLen, body), header) = PreparePacketFromWire (ce_cfg env) msg (replicate 13 0)
           in writeBuffers env (if length body > 0 then [take hdrLen header, body] else [take hdrLen header]) c)"

definition SharedSendProcessBatch :: "'c chan_env \<Rightarrow> nat list \<Rightarrow> 'c channel \<Rightarrow> 'c channel" where
  "SharedSendProcessBatch env msgs c =
     (if msgs = [] then c
      else let c1 = release msgs (SendBatchMsg env msgs c)
           in c1\<lparr>ch_queuedMsgs := ch_queuedMsgs c1 - int (length msgs)\<rparr>)"

section \<open>Closing\<close>

definition with_mailbox :: "(nat umpsc \<Rightarrow> nat umpsc) \<Rightarrow> 'c channel \<Rightarrow> 'c channel" where
  "with_mailbox f c = c\<lparr>ch_mailBoxQueue := map_option f (ch_mailBoxQueue c)\<rparr>"

definition releaseReadBuffer :: "'c channel \<Rightarrow> 'c channel" where
  "releaseReadBuffer c = (case ch_readBuffer c of None \<Rightarrow> c
     | Some rb \<Rightarrow> c\<lparr>ch_freedRings := ch_freedRings c @ [rb], ch_readBuffer := None\<rparr>)"

definition enqueueSharedSendClose :: "'c channel \<Rightarrow> 'c channel" where
  "enqueueSharedSendClose c =
     (if \<not> ch_sharedSendHook c then c
      else if \<not> ch_sharedSendPending c then c\<lparr>ch_sharedSendPending := True, ch_hooked := ch_hooked c + 1\<rparr> else c)"

definition signalSharedSendCloseAck :: "'c channel \<Rightarrow> 'c channel" where
  "signalSharedSendCloseAck c = c\<lparr>ch_sharedSendCloseAck := map_option (\<lambda>_. True) (ch_sharedSendCloseAck c)\<rparr>"

definition drainStaleSharedSendCloseAck :: "'c channel \<Rightarrow> 'c channel" where
  "drainStaleSharedSendCloseAck c = c\<lparr>ch_sharedSendCloseAck := map_option (\<lambda>_. False) (ch_sharedSendCloseAck c)\<rparr>"

definition finalizeSharedSendClose :: "'c channel \<Rightarrow> 'c channel" where
  "finalizeSharedSendClose c =
     (if ch_sharedSendCloseDone c then c
      else if ch_closeReactorAsync c then enqueueSharedSendClose c
      else enqueueSharedSendClose (drainStaleSharedSendCloseAck c))"

definition finalizeCloseTail :: "'c channel \<Rightarrow> 'c channel" where
  "finalizeCloseTail c =
     (let c1 = c\<lparr>ch_closeCalls := ch_closeCalls c + 1\<rparr>;
          c2 = (if ch_mailBoxQueue c1 \<noteq> None then
                  (if ch_sharedSendHook c1 then finalizeSharedSendClose c1 else with_mailbox CloseM c1)
                else c1)
      in if \<not> ch_deferReadBufferRelease c2 then releaseReadBuffer c2 else c2)"

definition finalize_once :: "'c channel \<Rightarrow> 'c channel" where
  "finalize_once c = (if ch_finalizeOnce c then c else finalizeCloseTail (c\<lparr>ch_finalizeOnce := True\<rparr>))"

definition closeBody :: "'c channel \<Rightarrow> 'c channel" where
  "closeBody c =
     (let c1 = with_mailbox StopEnqueue (c\<lparr>ch_isClose := True, ch_removed := True\<rparr>);
          c2 = c1\<lparr>ch_state := False, ch_closeChan := True, ch_connClosed := True\<rparr>
      in if ch_sharedSendHook c2 then
           finalize_once (if ch_reactorReadDepth c2 > 0 then c2\<lparr>ch_deferReadBufferRelease := True\<rparr> else c2)
         else if ch_readCallbackDepth c2 > 0 then c2\<lparr>ch_deferReadBufferRelease := True\<rparr>
         else finalize_once c2)"

definition waitReadLoopAndFinalizeClose :: "'c channel \<Rightarrow> 'c channel" where
  "waitReadLoopAndFinalizeClose c = finalize_once c"

definition doClose :: "'c channel \<Rightarrow> 'c channel" where
  "doClose c =
     (if ch_isClose c then c
      else let c1 = (if ch_sharedSendHook c \<and> ch_reactorReadDepth c > 0 then c\<lparr>ch_closeReactorAsync := True\<rparr> else c)
           in if ch_closeOnce c1 then c1 else closeBody (c1\<lparr>ch_closeOnce := True\<rparr>))"

definition CloseC :: "'c channel \<Rightarrow> 'c channel" where "CloseC c = doClose c"

definition CloseFromReactor :: "'c channel \<Rightarrow> 'c channel" where
  "CloseFromReactor c =
     (if ch_isClose c then c
      else let c1 = c\<lparr>ch_closeReactorAsync := True\<rparr>;
               c2 = (if ch_reactorReadDepth c1 > 0 then c1\<lparr>ch_deferReadBufferRelease := True\<rparr> else c1)
           in doClose c2)"

definition closeFromSharedSendPath :: "'c channel \<Rightarrow> 'c channel" where
  "closeFromSharedSendPath c = (if ch_sharedSendHook c then CloseFromReactor c else CloseC c)"

definition BeginReactorRead :: "'c channel \<Rightarrow> 'c channel" where
  "BeginReactorRead c = (if ch_sharedSendHook c then c\<lparr>ch_reactorReadDepth := ch_reactorReadDepth c + 1\<rparr> else c)"

definition EndReactorRead :: "'c channel \<Rightarrow> 'c channel" where
  "EndReactorRead c =
     (if \<not> ch_sharedSendHook c then c
      else let c1 = c\<lparr>ch_reactorReadDepth := ch_reactorReadDepth c - 1\<rparr>
           in if ch_reactorReadDepth c1 \<noteq> 0 then c1
              else if ch_deferReadBufferRelease c1 then releaseReadBuffer (c1\<lparr>ch_deferReadBufferRelease := False\<rparr>)
              else c1)"

text \<open>The end of the \<open>Start\<close> read loop gives the ring back if a close asked for that.\<close>

definition start_exit :: "'c channel \<Rightarrow> 'c channel" where
  "start_exit c = (if ch_deferReadBufferRelease c then releaseReadBuffer (c\<lparr>ch_deferReadBufferRelease := False\<rparr>) else c)"

section \<open>Send\<close>

definition onSendQueueOverflow :: "'c chan_env \<Rightarrow> int \<Rightarrow> int \<Rightarrow> 'c channel \<Rightarrow> 'c channel" where
  "onSendQueueOverflow env queued limit c =
     (case ce_overflowHook env of None \<Rightarrow> c
      | Some h \<Rightarrow> if h queued limit = OverflowCloseChannel then closeFromSharedSendPath c else c)"

definition SendC :: "'c chan_env \<Rightarrow> nat \<Rightarrow> 'c channel \<Rightarrow> 'c channel" where
  "SendC env msg c =
     (if ch_isClose c then release [msg] c
      else if \<not> IsOpen c then release [msg] c
      else case ch_mailBoxQueue c of None \<Rightarrow> release [msg] c
      | Some q \<Rightarrow>
          let (ok, q') = TryEnqueueM msg q; c1 = c\<lparr>ch_mailBoxQueue := Some q'\<rparr>
          in if \<not> ok then release [msg] c1
             else let queued = ch_queuedMsgs c1 + 1; c2 = c1\<lparr>ch_queuedMsgs := queued\<rparr>;
                      c3 = (if ch_sharedSendHook c2 \<and> ce_maxQueued env > 0 \<and> queued > ce_maxQueued env
                            then onSendQueueOverflow env queued (ce_maxQueued env) c2 else c2)
                  in if ch_sharedSendHook c3 \<and> \<not> ch_sharedSendPending c3
                     then c3\<lparr>ch_sharedSendPending := True, ch_hooked := ch_hooked c3 + 1\<rparr> else c3)"

definition SetSharedSendHook :: "bool \<Rightarrow> 'c channel \<Rightarrow> 'c channel" where
  "SetSharedSendHook h c = (if h then c\<lparr>ch_sharedSendHook := True, ch_sharedSendCloseAck := Some False\<rparr>
     else c\<lparr>ch_sharedSendHook := False\<rparr>)"

section \<open>The shared send worker\<close>

definition MaxBatchLimit :: nat where "MaxBatchLimit = 200"

definition SharedSendDequeueBatch :: "nat \<Rightarrow> 'c channel \<Rightarrow> nat list \<times> 'c channel" where
  "SharedSendDequeueBatch lendst c =
     (case ch_mailBoxQueue c of None \<Rightarrow> ([], c)
      | Some q \<Rightarrow> if lendst = 0 then ([], c)
                  else let (ms, q') = DequeueBatchM lendst q in (ms, c\<lparr>ch_mailBoxQueue := Some q'\<rparr>))"

definition SharedSendClearPending :: "'c channel \<Rightarrow> 'c channel" where
  "SharedSendClearPending c = c\<lparr>ch_sharedSendPending := False\<rparr>"

definition SharedSendSetPending :: "'c channel \<Rightarrow> 'c channel" where
  "SharedSendSetPending c = c\<lparr>ch_sharedSendPending := True\<rparr>"

partial_function (option) drain_mailbox :: "nat \<Rightarrow> nat umpsc \<Rightarrow> 'c channel \<Rightarrow> (nat umpsc \<times> 'c channel) option" where
  "drain_mailbox lenb q c =
     (if fst (DequeueBatchM lenb q) = [] then Some (snd (DequeueBatchM lenb q), c)
      else drain_mailbox lenb (snd (DequeueBatchM lenb q))
        ((release (filter (\<lambda>m. m \<noteq> 0) (fst (DequeueBatchM lenb q))) c)
           \<lparr>ch_queuedMsgs := ch_queuedMsgs c - int (length (fst (DequeueBatchM lenb q)))\<rparr>))"

definition sharedSendDrainAndCloseMailbox :: "nat \<Rightarrow> 'c channel \<Rightarrow> 'c channel option" where
  "sharedSendDrainAndCloseMailbox lenb c =
     (case ch_mailBoxQueue c of None \<Rightarrow> Some (signalSharedSendCloseAck c)
      | Some q \<Rightarrow> do {
          (q1, c1) \<leftarrow> drain_mailbox lenb q c;
          Some (signalSharedSendCloseAck (c1\<lparr>ch_mailBoxQueue := Some (CloseM q1)\<rparr>)) })"

text \<open>
  The loop of \<open>flushChannel\<close>: the flag of the result says that the worker put the channel
  back into its own queue because the quota of this turn is used up.
\<close>

partial_function (option) flush_loop :: "'c chan_env \<Rightarrow> int \<Rightarrow> int \<Rightarrow> 'c channel \<Rightarrow> (bool \<times> 'c channel) option" where
  "flush_loop env quota processed c =
     (if ch_isClose c then
        Option.bind (sharedSendDrainAndCloseMailbox MaxBatchLimit c) (\<lambda>c1. Some (False, SharedSendClearPending c1))
      else let r = SharedSendDequeueBatch MaxBatchLimit c
           in if fst r \<noteq> [] then
                (let c1 = SharedSendProcessBatch env (fst r) (snd r)
                 in if processed + 1 \<ge> quota then Some (True, c1) else flush_loop env quota (processed + 1) c1)
              else let r2 = SharedSendDequeueBatch 1 (SharedSendClearPending (snd r))
                   in if fst r2 \<noteq> [] then
                        (let c2 = SharedSendProcessBatch env (fst r2) (SharedSendSetPending (snd r2))
                         in if processed + 1 \<ge> quota then Some (True, c2) else flush_loop env quota (processed + 1) c2)
                      else Some (False, snd r2))"

definition flushChannel :: "'c chan_env \<Rightarrow> 'c channel \<Rightarrow> (bool \<times> 'c channel) option" where
  "flushChannel env c =
     (if ch_isClose c then do {
        c1 \<leftarrow> sharedSendDrainAndCloseMailbox MaxBatchLimit c; Some (False, SharedSendClearPending c1) }
      else flush_loop env (if ce_flushQuota env \<le> 0 then 8 else ce_flushQuota env) 0 c)"

section \<open>What the batch writer puts on the wire\<close>

definition wire_out :: "'c chan_env \<Rightarrow> nat \<Rightarrow> byte list" where
  "wire_out env m = (case ce_encrypt env (nm_Data (ce_message env m)) of None \<Rightarrow> []
     | Some d \<Rightarrow> encode_frame (ce_cfg env) (nm_MsgId (ce_message env m), nm_SeqId (ce_message env m), d))"

lemma length_ensure_headers: "(sent + 1) * hdrLen \<le> length (ensure_headers sent hdrLen hb)"
  by (auto simp: ensure_headers_def Let_def)

lemma prepare_all_facts:
  "prepare_all env ms sent hb bufs = (sent', hb', bufs') \<Longrightarrow>
     concat bufs' = concat bufs @ concat (map (wire_out env) ms) \<and> sent \<le> sent'
     \<and> (sent' = sent \<longrightarrow> bufs' = bufs \<and> concat (map (wire_out env) ms) = [])"
proof (induction ms arbitrary: sent hb bufs)
  case Nil
  then show ?case by simp
next
  case (Cons m ms)
  let ?msg = "ce_message env m" and ?h = "HeaderLen (ce_cfg env)"
  show ?case
  proof (cases "ce_encrypt env (nm_Data ?msg)")
    case None
    then have "wire_out env m = []" by (simp add: wire_out_def)
    then show ?thesis using Cons.IH[of sent hb bufs] Cons.prems None by simp
  next
    case (Some d)
    define w where "w = empty_message\<lparr>nm_MsgId := nm_MsgId ?msg, nm_SeqId := nm_SeqId ?msg, nm_Data := d\<rparr>"
    define hb1 where "hb1 = ensure_headers sent ?h hb"
    define region where "region = take ?h (drop (sent * ?h) hb1)"
    have rl: "?h \<le> length region"
      using length_ensure_headers[of sent ?h hb] by (simp add: region_def hb1_def add.commute le_diff_conv2)
    obtain hl body h where p: "PreparePacket (ce_cfg env) w region = ((hl, body), h)" by (metis surj_pair)
    have pk: "take hl h @ body = wire_out env m"
      using packet_bytes_eq[OF rl, of w] p Some by (simp add: packet_bytes_def wire_out_def wire_of_def w_def)
    have r: "prepare_all env ms (sent + 1) (go_copy hb1 (sent * ?h) h)
        (bufs @ [take hl h] @ (if length body > 0 then [body] else [])) = (sent', hb', bufs')"
      using Cons.prems Some p by (simp add: Let_def hb1_def[symmetric] region_def[symmetric] w_def[symmetric])
    have "concat (bufs @ [take hl h] @ (if length body > 0 then [body] else [])) = concat bufs @ wire_out env m"
      using pk by auto
    then show ?thesis using Cons.IH[OF r] by auto
  qed
qed

text \<open>The documented contract of \<^verbatim>\<open>net.Buffers.WriteTo\<close> on a healthy connection.\<close>

definition writes_all :: "'c chan_env \<Rightarrow> ('c \<Rightarrow> byte list) \<Rightarrow> bool" where
  "writes_all env out \<longleftrightarrow> (\<forall>bufs c n e c'. ce_writev env bufs c = ((n, e), c') \<longrightarrow> out c' = out c @ concat bufs)"

lemma writeBuffers_facts:
  assumes "writes_all env out" "IsOpen c"
  shows "out (ch_conn (snd (writeBuffers env bufs c))) = out (ch_conn c) @ concat bufs"
  using assms by (auto simp: writeBuffers_def writes_all_def Let_def split: prod.splits)

text \<open>
  What the writer may change: the connection, the byte counter and the header buffer.
\<close>

lemma writeBuffers_frame:
  "ch_mailBoxQueue (snd (writeBuffers env bufs c)) = ch_mailBoxQueue c"
  "ch_released (snd (writeBuffers env bufs c)) = ch_released c" "ch_isClose (snd (writeBuffers env bufs c)) = ch_isClose c"
  "ch_state (snd (writeBuffers env bufs c)) = ch_state c" "ch_sharedSendPending (snd (writeBuffers env bufs c)) = ch_sharedSendPending c"
  "ch_queuedMsgs (snd (writeBuffers env bufs c)) = ch_queuedMsgs c" "ch_readBuffer (snd (writeBuffers env bufs c)) = ch_readBuffer c"
  "ch_freedRings (snd (writeBuffers env bufs c)) = ch_freedRings c" "ch_sharedSendHook (snd (writeBuffers env bufs c)) = ch_sharedSendHook c"
  "ch_reactorReadDepth (snd (writeBuffers env bufs c)) = ch_reactorReadDepth c"
  "ch_deferReadBufferRelease (snd (writeBuffers env bufs c)) = ch_deferReadBufferRelease c"
  "ch_closeOnce (snd (writeBuffers env bufs c)) = ch_closeOnce c" "ch_finalizeOnce (snd (writeBuffers env bufs c)) = ch_finalizeOnce c"
  by (auto simp: writeBuffers_def Let_def split: prod.splits)

lemma SendBatchMsg_frame [simp]:
  "ch_mailBoxQueue (SendBatchMsg env ms c) = ch_mailBoxQueue c"
  "ch_released (SendBatchMsg env ms c) = ch_released c" "ch_isClose (SendBatchMsg env ms c) = ch_isClose c"
  "ch_state (SendBatchMsg env ms c) = ch_state c" "ch_sharedSendPending (SendBatchMsg env ms c) = ch_sharedSendPending c"
  "ch_queuedMsgs (SendBatchMsg env ms c) = ch_queuedMsgs c" "ch_readBuffer (SendBatchMsg env ms c) = ch_readBuffer c"
  "ch_freedRings (SendBatchMsg env ms c) = ch_freedRings c" "ch_sharedSendHook (SendBatchMsg env ms c) = ch_sharedSendHook c"
  "ch_reactorReadDepth (SendBatchMsg env ms c) = ch_reactorReadDepth c"
  "ch_deferReadBufferRelease (SendBatchMsg env ms c) = ch_deferReadBufferRelease c"
  "ch_closeOnce (SendBatchMsg env ms c) = ch_closeOnce c" "ch_finalizeOnce (SendBatchMsg env ms c) = ch_finalizeOnce c"
  by (auto simp: SendBatchMsg_def Let_def writeBuffers_frame split: prod.splits)

lemma SendBatchMsg_wire:
  assumes "writes_all env out" "IsOpen c"
  shows "out (ch_conn (SendBatchMsg env ms c)) = out (ch_conn c) @ concat (map (wire_out env) ms)"
proof -
  obtain sent hb bufs where p: "prepare_all env ms 0 (ch_headersBuf c) [] = (sent, hb, bufs)" by (metis prod_cases3)
  note f = prepare_all_facts[OF p]
  have "IsOpen (c\<lparr>ch_headersBuf := hb\<rparr>)" using assms(2) by (simp add: IsOpen_def)
  from writeBuffers_facts[OF assms(1) this, of bufs] show ?thesis using p f assms(2)
    by (cases "ms = []") (auto simp: SendBatchMsg_def Let_def)
qed

lemma SharedSendProcessBatch_facts:
  "ch_mailBoxQueue (SharedSendProcessBatch env ms c) = ch_mailBoxQueue c"
  "ch_released (SharedSendProcessBatch env ms c) = ch_released c @ ms"
  "ch_queuedMsgs (SharedSendProcessBatch env ms c) = ch_queuedMsgs c - int (length ms)"
  "ch_isClose (SharedSendProcessBatch env ms c) = ch_isClose c" "ch_state (SharedSendProcessBatch env ms c) = ch_state c"
  "ch_sharedSendPending (SharedSendProcessBatch env ms c) = ch_sharedSendPending c"
  "ch_readBuffer (SharedSendProcessBatch env ms c) = ch_readBuffer c"
  "ch_freedRings (SharedSendProcessBatch env ms c) = ch_freedRings c"
  "ch_sharedSendHook (SharedSendProcessBatch env ms c) = ch_sharedSendHook c"
  "ch_reactorReadDepth (SharedSendProcessBatch env ms c) = ch_reactorReadDepth c"
  "ch_deferReadBufferRelease (SharedSendProcessBatch env ms c) = ch_deferReadBufferRelease c"
  "ch_closeOnce (SharedSendProcessBatch env ms c) = ch_closeOnce c"
  "ch_finalizeOnce (SharedSendProcessBatch env ms c) = ch_finalizeOnce c"
  by (auto simp: SharedSendProcessBatch_def release_def Let_def)

lemma SharedSendProcessBatch_wire:
  "writes_all env out \<Longrightarrow> IsOpen c \<Longrightarrow>
     out (ch_conn (SharedSendProcessBatch env ms c)) = out (ch_conn c) @ concat (map (wire_out env) ms)"
  using SendBatchMsg_wire[of env out c ms] by (auto simp: SharedSendProcessBatch_def release_def Let_def)

section \<open>The queue of a channel\<close>

definition mail :: "'c channel \<Rightarrow> nat list" where
  "mail c = (case ch_mailBoxQueue c of None \<Rightarrow> [] | Some q \<Rightarrow> um_contents q)"

definition mail_ok :: "'c channel \<Rightarrow> bool" where
  "mail_ok c \<longleftrightarrow> (case ch_mailBoxQueue c of None \<Rightarrow> True | Some q \<Rightarrow> um_inv q)"

lemma SharedSendDequeueBatch_facts:
  assumes "mail_ok c" "SharedSendDequeueBatch n c = (ms, c')"
  shows "ms = take n (mail c)" "mail c' = drop n (mail c)" "mail_ok c'" "c' = c\<lparr>ch_mailBoxQueue := ch_mailBoxQueue c'\<rparr>"
    "ch_mailBoxQueue c' = None \<longleftrightarrow> ch_mailBoxQueue c = None"
proof -
  have "ms = take n (mail c) \<and> mail c' = drop n (mail c) \<and> mail_ok c' \<and> c' = c\<lparr>ch_mailBoxQueue := ch_mailBoxQueue c'\<rparr>
      \<and> (ch_mailBoxQueue c' = None \<longleftrightarrow> ch_mailBoxQueue c = None)"
  proof (cases "ch_mailBoxQueue c")
    case None
    then show ?thesis using assms by (auto simp: SharedSendDequeueBatch_def mail_def mail_ok_def)
  next
    case (Some q)
    then have q: "um_inv q" using assms(1) by (simp add: mail_ok_def)
    obtain xs q' where d: "DequeueBatchM n q = (xs, q')" by fastforce
    then have d': "um_deqb q n = (xs, q')" by (simp add: um_deqb_def)
    show ?thesis
    proof (cases "n = 0")
      case True
      then show ?thesis using assms Some by (auto simp: SharedSendDequeueBatch_def mail_def mail_ok_def)
    next
      case False
      then show ?thesis using assms(2) Some d um.deqb_take[OF q d'] um.deqb_rest[OF q d']
        by (auto simp: SharedSendDequeueBatch_def mail_def mail_ok_def)
    qed
  qed
  then show "ms = take n (mail c)" "mail c' = drop n (mail c)" "mail_ok c'" "c' = c\<lparr>ch_mailBoxQueue := ch_mailBoxQueue c'\<rparr>"
    "ch_mailBoxQueue c' = None \<longleftrightarrow> ch_mailBoxQueue c = None" by blast+
qed

section \<open>The worker's turn\<close>

lemma MaxBatchLimit_pos: "0 < MaxBatchLimit" by (simp add: MaxBatchLimit_def)

lemma drain_mailbox_facts:
  assumes "um_inv q"
  shows "\<exists>q' c'. drain_mailbox MaxBatchLimit q c = Some (q', c') \<and> um_inv q' \<and> um_contents q' = [] \<and> us_stopped q' = us_stopped q
     \<and> ch_queuedMsgs c' = ch_queuedMsgs c - int (length (um_contents q))
     \<and> c' = (release (filter (\<lambda>m. m \<noteq> 0) (um_contents q)) c)\<lparr>ch_queuedMsgs := ch_queuedMsgs c'\<rparr>"
  using assms
proof (induction "length (um_contents q)" arbitrary: q c rule: less_induct)
  case less
  obtain ms q1 where d: "DequeueBatchM MaxBatchLimit q = (ms, q1)" by fastforce
  note f = DequeueBatchM_facts[OF less.prems d]
  show ?case
  proof (cases "ms = []")
    case True
    then have "um_contents q = []" using f(2) MaxBatchLimit_pos by auto
    then show ?thesis using True d f by (subst drain_mailbox.simps) (simp add: release_def)
  next
    case False
    then have lt: "length (um_contents q1) < length (um_contents q)" using f(2,3) MaxBatchLimit_pos by auto
    define c1 where "c1 = (release (filter (\<lambda>m. m \<noteq> 0) ms) c)\<lparr>ch_queuedMsgs := ch_queuedMsgs c - int (length ms)\<rparr>"
    obtain q' c' where r: "drain_mailbox MaxBatchLimit q1 c1 = Some (q', c')" "um_inv q'" "um_contents q' = []"
      "us_stopped q' = us_stopped q1" "ch_queuedMsgs c' = ch_queuedMsgs c1 - int (length (um_contents q1))"
      "c' = (release (filter (\<lambda>m. m \<noteq> 0) (um_contents q1)) c1)\<lparr>ch_queuedMsgs := ch_queuedMsgs c'\<rparr>"
      using less.hyps[OF lt f(1), of c1] by blast
    have s: "um_contents q = ms @ um_contents q1" using f(2,3) by simp
    have e: "drain_mailbox MaxBatchLimit q c = Some (q', c')"
      using False d r(1) by (subst drain_mailbox.simps) (simp add: c1_def)
    have qm: "ch_queuedMsgs c' = ch_queuedMsgs c - int (length (um_contents q))" using r(5) s by (simp add: c1_def)
    have "c' = (release (filter (\<lambda>m. m \<noteq> 0) (um_contents q)) c)\<lparr>ch_queuedMsgs := ch_queuedMsgs c'\<rparr>"
      using r(6) unfolding s c1_def release_def by simp
    with e r(2-4) f(4) qm show ?thesis by simp
  qed
qed

lemma drain_close_facts:
  assumes "mail_ok c"
  shows "\<exists>c'. sharedSendDrainAndCloseMailbox MaxBatchLimit c = Some c' \<and> mail_ok c' \<and> mail c' = []
     \<and> ch_released c' = ch_released c @ filter (\<lambda>m. m \<noteq> 0) (mail c) \<and> ch_queuedMsgs c' = ch_queuedMsgs c - int (length (mail c))
     \<and> (\<forall>q. ch_mailBoxQueue c' = Some q \<longrightarrow> us_stopped q)
     \<and> ch_sharedSendCloseAck c' = map_option (\<lambda>_. True) (ch_sharedSendCloseAck c)
     \<and> c' = c\<lparr>ch_mailBoxQueue := ch_mailBoxQueue c', ch_released := ch_released c', ch_queuedMsgs := ch_queuedMsgs c',
               ch_sharedSendCloseAck := ch_sharedSendCloseAck c'\<rparr>"
proof (cases "ch_mailBoxQueue c")
  case None
  then show ?thesis
    by (simp add: sharedSendDrainAndCloseMailbox_def signalSharedSendCloseAck_def mail_def mail_ok_def)
next
  case (Some q)
  then have "um_inv q" using assms by (simp add: mail_ok_def)
  from drain_mailbox_facts[OF this, of c] obtain q' c0 where d0: "drain_mailbox MaxBatchLimit q c = Some (q', c0)" "um_inv q'"
    "um_contents q' = []" "ch_queuedMsgs c0 = ch_queuedMsgs c - int (length (um_contents q))"
    "c0 = (release (filter (\<lambda>m. m \<noteq> 0) (um_contents q)) c)\<lparr>ch_queuedMsgs := ch_queuedMsgs c0\<rparr>" by blast
  define c1 where "c1 = (release (filter (\<lambda>m. m \<noteq> 0) (um_contents q)) c)
      \<lparr>ch_queuedMsgs := ch_queuedMsgs c - int (length (um_contents q))\<rparr>"
  have "c0 = c1" using d0(4,5) by (simp add: c1_def)
  with d0(1) have d: "drain_mailbox MaxBatchLimit q c = Some (q', c1)" by simp
  define c' where "c' = signalSharedSendCloseAck (c1\<lparr>ch_mailBoxQueue := Some (CloseM q')\<rparr>)"
  have e: "sharedSendDrainAndCloseMailbox MaxBatchLimit c = Some c'"
    using Some d by (simp add: sharedSendDrainAndCloseMailbox_def c'_def)
  have "c' = c\<lparr>ch_mailBoxQueue := ch_mailBoxQueue c', ch_released := ch_released c', ch_queuedMsgs := ch_queuedMsgs c',
               ch_sharedSendCloseAck := ch_sharedSendCloseAck c'\<rparr>"
    by (simp add: c'_def c1_def signalSharedSendCloseAck_def release_def)
  then show ?thesis using e CloseM_facts[OF d0(2)] d0(3) Some
    by (auto simp: c'_def c1_def release_def signalSharedSendCloseAck_def mail_def mail_ok_def)
qed

end
