(* ===== verification/Channel_Life.thy ===== *)
theory Channel_Life
  imports Channel_Send "HOL-Library.Multiset"
begin

text \<open>
  Correctness of the sending half of a channel: what one worker turn delivers, that no message
  handed to \<open>Send\<close> is lost or released twice, and that the receive ring goes back to its pool
  once. The calls of the event loop thread are the steps of \<open>chan_life\<close>.
\<close>

text \<open>The fields of the ring and of the close protocol, left alone by the other operations.\<close>

definition same_ring :: "'c channel \<Rightarrow> 'c channel \<Rightarrow> bool" where
  "same_ring c c' \<longleftrightarrow> ch_readBuffer c' = ch_readBuffer c \<and> ch_freedRings c' = ch_freedRings c \<and> ch_isClose c' = ch_isClose c
     \<and> ch_closeOnce c' = ch_closeOnce c \<and> ch_finalizeOnce c' = ch_finalizeOnce c
     \<and> ch_deferReadBufferRelease c' = ch_deferReadBufferRelease c \<and> ch_reactorReadDepth c' = ch_reactorReadDepth c"

text \<open>
  One turn of the worker on an open channel: it hands out the front of the queue in order,
  writes exactly those frames, gives each message back to its pool, and leaves the rest.
\<close>

definition served :: "'c chan_env \<Rightarrow> nat list \<Rightarrow> 'c channel \<Rightarrow> 'c channel \<Rightarrow> bool" where
  "served env ms c c' \<longleftrightarrow> mail c = ms @ mail c' \<and> ch_released c' = ch_released c @ ms \<and> mail_ok c'
     \<and> ch_queuedMsgs c' = ch_queuedMsgs c - int (length ms) \<and> ch_isClose c' = ch_isClose c \<and> ch_state c' = ch_state c
     \<and> same_ring c c' \<and> ch_sharedSendHook c' = ch_sharedSendHook c
     \<and> (\<forall>out. writes_all env out \<longrightarrow> ch_state c \<longrightarrow>
          out (ch_conn c') = out (ch_conn c) @ concat (map (wire_out env) ms))"

lemma served_refl: "mail_ok c \<Longrightarrow> served env [] c c" by (simp add: served_def same_ring_def)

lemma served_trans: "served env xs a b \<Longrightarrow> served env ys b c \<Longrightarrow> served env (xs @ ys) a c"
  by (auto simp: served_def same_ring_def)

lemma served_clear: "served env ms c (SharedSendClearPending c') \<longleftrightarrow> served env ms c c'"
  by (simp add: served_def same_ring_def SharedSendClearPending_def mail_def mail_ok_def)

lemma served_set: "served env ms (SharedSendSetPending c) c' \<longleftrightarrow> served env ms c c'"
  by (simp add: served_def same_ring_def SharedSendSetPending_def mail_def mail_ok_def)

lemma served_clear_left: "served env ms (SharedSendClearPending c) c' \<longleftrightarrow> served env ms c c'"
  by (simp add: served_def same_ring_def SharedSendClearPending_def mail_def mail_ok_def)

lemma served_set_right: "served env ms c (SharedSendSetPending c') \<longleftrightarrow> served env ms c c'"
  by (simp add: served_def same_ring_def SharedSendSetPending_def mail_def mail_ok_def)

lemma mailbox_update_frame:
  assumes "c' = c\<lparr>ch_mailBoxQueue := x\<rparr>"
  shows "ch_released c' = ch_released c" "ch_queuedMsgs c' = ch_queuedMsgs c" "ch_isClose c' = ch_isClose c"
    "ch_state c' = ch_state c" "same_ring c c'"
    "ch_sharedSendHook c' = ch_sharedSendHook c" "ch_conn c' = ch_conn c" "ch_sharedSendPending c' = ch_sharedSendPending c"
  by (simp_all add: assms same_ring_def)

lemma dequeue_empty_served:
  assumes "mail_ok c" "SharedSendDequeueBatch n c = ([], c')" "0 < n"
  shows "served env [] c c' \<and> mail c = [] \<and> ch_sharedSendPending c' = ch_sharedSendPending c"
proof -
  note f = SharedSendDequeueBatch_facts[OF assms(1,2)]
  show ?thesis using f(1-3) assms(3) mailbox_update_frame[OF f(4)] by (auto simp: served_def)
qed

lemma dequeue_process_served:
  assumes "mail_ok c" "SharedSendDequeueBatch n c = (ms, c')"
  shows "served env ms c (SharedSendProcessBatch env ms c')"
proof -
  note f = SharedSendDequeueBatch_facts[OF assms]
  note u = mailbox_update_frame[OF f(4)] and b = SharedSendProcessBatch_facts[of env ms c']
  have m: "mail (SharedSendProcessBatch env ms c') = mail c'" "mail_ok (SharedSendProcessBatch env ms c')"
    using b(1) f(3) by (simp_all add: mail_def mail_ok_def)
  have w: "writes_all env out \<Longrightarrow> ch_state c \<Longrightarrow>
      out (ch_conn (SharedSendProcessBatch env ms c')) = out (ch_conn c) @ concat (map (wire_out env) ms)" for out
    using SharedSendProcessBatch_wire[of env out c' ms] u by (simp add: IsOpen_def)
  have "same_ring c (SharedSendProcessBatch env ms c')" using u(5) b by (simp add: same_ring_def)
  then show ?thesis unfolding served_def using f(1,2) m u b w by simp
qed

lemma flush_loop_open:
  assumes "mail_ok c" "\<not> ch_isClose c"
  shows "\<exists>b c' ms. flush_loop env quota processed c = Some (b, c') \<and> served env ms c c'
     \<and> (\<not> b \<longrightarrow> mail c' = [] \<and> \<not> ch_sharedSendPending c') \<and> (b \<longrightarrow> ms \<noteq> [] \<and> quota \<le> processed + int (length ms))"
  using assms
proof (induction "length (mail c)" arbitrary: c processed rule: less_induct)
  case less
  have step: ?case
    if s: "served env ms c c1" "ms \<noteq> []"
      and e: "flush_loop env quota processed c
        = (if processed + 1 \<ge> quota then Some (True, c1) else flush_loop env quota (processed + 1) c1)" for ms c1
  proof -
    have lt: "length (mail c1) < length (mail c)" and ok: "mail_ok c1" "\<not> ch_isClose c1"
      using s less.prems by (auto simp: served_def)
    have "1 \<le> int (length ms)" using s(2) by (cases ms) auto
    show ?thesis
    proof (cases "processed + 1 \<ge> quota")
      case True
      then have "flush_loop env quota processed c = Some (True, c1)" using e by simp
      moreover have "quota \<le> processed + int (length ms)" using True \<open>1 \<le> int (length ms)\<close> by linarith
      ultimately show ?thesis using s by blast
    next
      case False
      obtain b c' ms' where r: "flush_loop env quota (processed + 1) c1 = Some (b, c')" "served env ms' c1 c'"
        "\<not> b \<longrightarrow> mail c' = [] \<and> \<not> ch_sharedSendPending c'" "b \<longrightarrow> ms' \<noteq> [] \<and> quota \<le> (processed + 1) + int (length ms')"
        using less.hyps[OF lt ok, of "processed + 1"] by blast
      have "served env (ms @ ms') c c'" by (rule served_trans[OF s(1) r(2)])
      moreover have "flush_loop env quota processed c = Some (b, c')" using e False r(1) by simp
      moreover have "b \<longrightarrow> ms @ ms' \<noteq> [] \<and> quota \<le> processed + int (length (ms @ ms'))"
        using r(4) s(2) \<open>1 \<le> int (length ms)\<close> by auto
      ultimately show ?thesis using r(3) by blast
    qed
  qed
  obtain ms c1 where d: "SharedSendDequeueBatch MaxBatchLimit c = (ms, c1)" by fastforce
  show ?case
  proof (cases "ms = []")
    case False
    show ?thesis
      by (rule step[OF dequeue_process_served[OF less.prems(1) d] False], subst flush_loop.simps)
        (use False d less.prems(2) in \<open>simp add: Let_def\<close>)
  next
    case True
    define c2 where "c2 = SharedSendClearPending c1"
    have e1: "served env [] c c1" "mail c = []" using dequeue_empty_served[OF less.prems(1) d[unfolded True] MaxBatchLimit_pos] by auto
    then have s2: "served env [] c c2" by (simp add: c2_def served_clear)
    then have ok2: "mail_ok c2" by (simp add: served_def)
    obtain ms3 c3 where d3: "SharedSendDequeueBatch 1 c2 = (ms3, c3)" by fastforce
    have "mail c2 = []" using s2 e1(2) by (simp add: served_def)
    then have "ms3 = []" using SharedSendDequeueBatch_facts(1)[OF ok2 d3] by simp
    then have e3: "served env [] c2 c3 \<and> mail c2 = [] \<and> ch_sharedSendPending c3 = ch_sharedSendPending c2"
      using dequeue_empty_served[OF ok2, of 1 c3] d3 by simp
    have fl: "flush_loop env quota processed c = Some (False, c3)"
      by (subst flush_loop.simps) (use True d less.prems(2) d3 \<open>ms3 = []\<close> in \<open>simp add: c2_def\<close>)
    have "served env [] c c3" using served_trans[OF s2, of "[]" c3] e3 by simp
    moreover have "mail c3 = []" using e3 by (auto simp: served_def)
    moreover have "\<not> ch_sharedSendPending c3" using e3 by (simp add: c2_def SharedSendClearPending_def)
    ultimately show ?thesis using fl by blast
  qed
qed

section \<open>Nothing is lost\<close>

text \<open>Every reference handed to \<open>Send\<close> is in the queue or has been released.\<close>

definition ledger :: "'c channel \<Rightarrow> nat multiset" where
  "ledger c = mset (mail c) + mset (ch_released c)"

text \<open>A close step neither consumes nor releases messages, and keeps the queue well formed.\<close>

definition keeps_mail :: "'c channel \<Rightarrow> 'c channel \<Rightarrow> bool" where
  "keeps_mail c c' \<longleftrightarrow> (mail_ok c \<longrightarrow> mail_ok c' \<and> mail c' = mail c) \<and> ch_released c' = ch_released c
     \<and> ch_queuedMsgs c' = ch_queuedMsgs c \<and> ch_sharedSendHook c' = ch_sharedSendHook c
     \<and> (ch_mailBoxQueue c' = None \<longleftrightarrow> ch_mailBoxQueue c = None)"

lemma keeps_mail_refl [simp]: "keeps_mail c c" by (simp add: keeps_mail_def)

lemma keeps_mail_trans [trans]: "keeps_mail a b \<Longrightarrow> keeps_mail b c \<Longrightarrow> keeps_mail a c" by (auto simp: keeps_mail_def)

lemma with_mailbox_keeps:
  "f = StopEnqueue \<or> f = CloseM \<Longrightarrow> keeps_mail c (with_mailbox f c)"
  by (auto simp: keeps_mail_def with_mailbox_def mail_def mail_ok_def StopEnqueue_facts CloseM_facts split: option.splits)

lemma keeps_mail_same:
  assumes "ch_mailBoxQueue c' = ch_mailBoxQueue c" "ch_released c' = ch_released c" "ch_queuedMsgs c' = ch_queuedMsgs c"
    "ch_sharedSendHook c' = ch_sharedSendHook c"
  shows "keeps_mail c c'"
  using assms by (simp add: keeps_mail_def mail_def mail_ok_def)

lemma finalizeSharedSendClose_keeps: "keeps_mail c (finalizeSharedSendClose c)"
  by (rule keeps_mail_same) (auto simp: finalizeSharedSendClose_def enqueueSharedSendClose_def drainStaleSharedSendCloseAck_def)

lemma releaseReadBuffer_keeps: "keeps_mail c (releaseReadBuffer c)"
  by (rule keeps_mail_same) (auto simp: releaseReadBuffer_def split: option.splits)

lemma finalizeCloseTail_keeps: "keeps_mail c (finalizeCloseTail c)"
proof -
  define c1 where "c1 = c\<lparr>ch_closeCalls := ch_closeCalls c + 1\<rparr>"
  define c2 where "c2 = (if ch_mailBoxQueue c1 \<noteq> None then
                  (if ch_sharedSendHook c1 then finalizeSharedSendClose c1 else with_mailbox CloseM c1)
                else c1)"
  have "keeps_mail c c1" by (rule keeps_mail_same) (simp_all add: c1_def)
  also have "keeps_mail c1 c2" using finalizeSharedSendClose_keeps with_mailbox_keeps[of CloseM c1] by (auto simp: c2_def)
  also have "keeps_mail c2 (finalizeCloseTail c)"
    unfolding finalizeCloseTail_def Let_def c1_def[symmetric] c2_def[symmetric] by (simp add: releaseReadBuffer_keeps)
  finally show ?thesis .
qed

lemma finalize_once_keeps: "keeps_mail c (finalize_once c)"
proof -
  have "keeps_mail c (c\<lparr>ch_finalizeOnce := True\<rparr>)" by (rule keeps_mail_same) simp_all
  then show ?thesis using keeps_mail_trans finalizeCloseTail_keeps by (auto simp: finalize_once_def)
qed

lemma closeBody_keeps: "keeps_mail c (closeBody c)"
proof -
  define c1 where "c1 = with_mailbox StopEnqueue (c\<lparr>ch_isClose := True, ch_removed := True\<rparr>)"
  define c2 where "c2 = c1\<lparr>ch_state := False, ch_closeChan := True, ch_connClosed := True\<rparr>"
  define c3 where "c3 = c2\<lparr>ch_deferReadBufferRelease := True\<rparr>"
  have "keeps_mail c (c\<lparr>ch_isClose := True, ch_removed := True\<rparr>)" by (rule keeps_mail_same) simp_all
  also have "keeps_mail \<dots> c1" unfolding c1_def by (rule with_mailbox_keeps) simp
  also have "keeps_mail c1 c2" by (rule keeps_mail_same) (simp_all add: c2_def)
  finally have 2: "keeps_mail c c2" .
  have 3: "keeps_mail c2 c3" by (rule keeps_mail_same) (simp_all add: c3_def)
  have "closeBody c = (if ch_sharedSendHook c2 then finalize_once (if ch_reactorReadDepth c2 > 0 then c3 else c2)
      else if ch_readCallbackDepth c2 > 0 then c3 else finalize_once c2)"
    by (simp add: closeBody_def c1_def c2_def c3_def Let_def)
  then show ?thesis using 2 3 finalize_once_keeps keeps_mail_trans by (smt (verit))
qed

lemma doClose_keeps: "keeps_mail c (doClose c)"
proof -
  have a: "keeps_mail c (c\<lparr>ch_closeReactorAsync := True\<rparr>)" "keeps_mail c (c\<lparr>ch_closeOnce := True\<rparr>)"
    "keeps_mail (c\<lparr>ch_closeReactorAsync := True\<rparr>) (c\<lparr>ch_closeReactorAsync := True, ch_closeOnce := True\<rparr>)"
    by (rule keeps_mail_same; simp)+
  show ?thesis using a(1) keeps_mail_trans[OF a(2) closeBody_keeps]
      keeps_mail_trans[OF keeps_mail_trans[OF a(1) a(3)] closeBody_keeps]
    by (auto simp: doClose_def Let_def)
qed

lemma CloseFromReactor_keeps: "keeps_mail c (CloseFromReactor c)"
proof -
  have a: "keeps_mail c (c\<lparr>ch_closeReactorAsync := True\<rparr>)"
    "keeps_mail c (c\<lparr>ch_closeReactorAsync := True, ch_deferReadBufferRelease := True\<rparr>)"
    by (rule keeps_mail_same; simp)+
  then show ?thesis using keeps_mail_trans[OF a(1) doClose_keeps] keeps_mail_trans[OF a(2) doClose_keeps]
    by (auto simp: CloseFromReactor_def Let_def)
qed

lemmas close_keeps = doClose_keeps CloseFromReactor_keeps finalize_once_keeps

lemma closeFromSharedSendPath_keeps: "keeps_mail c (closeFromSharedSendPath c)"
  by (simp add: closeFromSharedSendPath_def CloseC_def close_keeps)

lemma onSendQueueOverflow_keeps: "keeps_mail c (onSendQueueOverflow env queued limit c)"
  by (auto simp: onSendQueueOverflow_def closeFromSharedSendPath_keeps split: option.splits)

text \<open>The channel takes messages: what \<open>Send\<close> looks at before it enqueues.\<close>

definition accepts :: "'c channel \<Rightarrow> bool" where
  "accepts c \<longleftrightarrow> \<not> ch_isClose c \<and> ch_state c \<and> (case ch_mailBoxQueue c of None \<Rightarrow> False | Some q \<Rightarrow> \<not> us_stopped q)"

lemma SendC_facts:
  assumes "mail_ok c"
  shows "mail_ok (SendC env m c)
     \<and> (if accepts c then mail (SendC env m c) = mail c @ [m] \<and> ch_released (SendC env m c) = ch_released c
          \<and> ch_queuedMsgs (SendC env m c) = ch_queuedMsgs c + 1
          \<and> (ch_sharedSendHook c \<longrightarrow> ch_sharedSendPending (SendC env m c))
        else mail (SendC env m c) = mail c \<and> ch_released (SendC env m c) = ch_released c @ [m]
          \<and> ch_queuedMsgs (SendC env m c) = ch_queuedMsgs c)"
proof (cases "\<not> ch_isClose c \<and> ch_state c \<and> ch_mailBoxQueue c \<noteq> None")
  case False
  then have "SendC env m c = release [m] c" by (auto simp: SendC_def IsOpen_def split: option.splits)
  moreover have "\<not> accepts c" using False by (auto simp: accepts_def split: option.splits)
  ultimately show ?thesis using assms by (simp add: release_def mail_def mail_ok_def)
next
  case True
  then obtain q where q: "ch_mailBoxQueue c = Some q" by auto
  then have i: "um_inv q" using assms by (simp add: mail_ok_def)
  obtain ok q' where e: "TryEnqueueM m q = (ok, q')" by fastforce
  note f = TryEnqueueM_facts[OF i e]
  have acc: "accepts c \<longleftrightarrow> ok" using True q f(2) by (simp add: accepts_def)
  show ?thesis
  proof (cases ok)
    case False
    have "SendC env m c = release [m] (c\<lparr>ch_mailBoxQueue := Some q'\<rparr>)"
      using True q e False by (simp add: SendC_def IsOpen_def)
    then show ?thesis using acc False f q by (simp add: release_def mail_def mail_ok_def)
  next
    case True': True
    define c2 where "c2 = c\<lparr>ch_mailBoxQueue := Some q', ch_queuedMsgs := ch_queuedMsgs c + 1\<rparr>"
    define c3 where "c3 = (if ch_sharedSendHook c2 \<and> ce_maxQueued env > 0 \<and> ch_queuedMsgs c + 1 > ce_maxQueued env
      then onSendQueueOverflow env (ch_queuedMsgs c + 1) (ce_maxQueued env) c2 else c2)"
    have s: "SendC env m c = (if ch_sharedSendHook c3 \<and> \<not> ch_sharedSendPending c3
        then c3\<lparr>ch_sharedSendPending := True, ch_hooked := ch_hooked c3 + 1\<rparr> else c3)"
      unfolding SendC_def IsOpen_def c3_def c2_def using True q e True' by (simp add: Let_def)
    have k: "keeps_mail c2 c3" by (simp add: c3_def onSendQueueOverflow_keeps)
    have "keeps_mail c3 (SendC env m c)" unfolding s by (rule keeps_mail_same) simp_all
    with k have k': "keeps_mail c2 (SendC env m c)" by (rule keeps_mail_trans)
    have "ch_sharedSendHook c3 = ch_sharedSendHook c" using k by (simp add: keeps_mail_def c2_def)
    then have "ch_sharedSendHook c \<longrightarrow> ch_sharedSendPending (SendC env m c)" by (auto simp: s)
    moreover have "mail_ok c2" "mail c2 = mail c @ [m]" "ch_released c2 = ch_released c" "ch_queuedMsgs c2 = ch_queuedMsgs c + 1"
      using f True' q by (simp_all add: c2_def mail_ok_def mail_def)
    ultimately show ?thesis using k' acc True' by (auto simp: keeps_mail_def)
  qed
qed

section \<open>The life of a channel of the shared send path\<close>

text \<open>
  The calls made on a channel by the event loop thread and by senders, each running to its
  end, with the messages sent so far. \<open>HandleRead\<close> may send and close between the begin and the
  end of a reactor read; begins and ends come in pairs, and nil is never sent.
\<close>

inductive chan_life :: "'c chan_env \<Rightarrow> nat list \<times> 'c channel \<Rightarrow> nat list \<times> 'c channel \<Rightarrow> bool" for env where
  life_send: "m \<noteq> 0 \<Longrightarrow> chan_life env (ms, c) (ms @ [m], SendC env m c)"
| life_flush: "flushChannel env c = Some (b, c') \<Longrightarrow> chan_life env (ms, c) (ms, c')"
| life_close: "chan_life env (ms, c) (ms, CloseC c)"
| life_close_reactor: "chan_life env (ms, c) (ms, CloseFromReactor c)"
| life_begin: "chan_life env (ms, c) (ms, BeginReactorRead c)"
| life_end: "0 < ch_reactorReadDepth c \<Longrightarrow> chan_life env (ms, c) (ms, EndReactorRead c)"

definition held :: "'c channel \<Rightarrow> nat" where "held c = (if ch_readBuffer c = None then 0 else 1)"

text \<open>
  The ring: held by the channel or given back, and never both; an open channel holds it and owes
  nothing; a closed one still holds it only inside a reactor read that will give it back.
\<close>

definition ring_owned :: "'c channel \<Rightarrow> bool" where
  "ring_owned c \<longleftrightarrow> 0 \<le> ch_reactorReadDepth c \<and> length (ch_freedRings c) + held c = 1
     \<and> (\<not> ch_isClose c \<longrightarrow> held c = 1 \<and> \<not> ch_deferReadBufferRelease c \<and> \<not> ch_closeOnce c \<and> \<not> ch_finalizeOnce c)
     \<and> (ch_isClose c \<longrightarrow> ch_closeOnce c \<and> ch_finalizeOnce c
          \<and> (if held c = 1 then ch_deferReadBufferRelease c \<and> 0 < ch_reactorReadDepth c else \<not> ch_deferReadBufferRelease c))"

lemma release_ring_facts:
  "ch_readBuffer (releaseReadBuffer c) = None"
  "ch_freedRings (releaseReadBuffer c) = ch_freedRings c @ (case ch_readBuffer c of None \<Rightarrow> [] | Some r \<Rightarrow> [r])"
  "ch_isClose (releaseReadBuffer c) = ch_isClose c" "ch_closeOnce (releaseReadBuffer c) = ch_closeOnce c"
  "ch_finalizeOnce (releaseReadBuffer c) = ch_finalizeOnce c"
  "ch_deferReadBufferRelease (releaseReadBuffer c) = ch_deferReadBufferRelease c"
  "ch_reactorReadDepth (releaseReadBuffer c) = ch_reactorReadDepth c"
  by (auto simp: releaseReadBuffer_def split: option.splits)

lemma same_ring_owned: "same_ring c c' \<Longrightarrow> ring_owned c \<Longrightarrow> ring_owned c'"
  by (simp add: same_ring_def ring_owned_def held_def)

lemma finalizeSharedSendClose_same: "same_ring c (finalizeSharedSendClose c)"
  by (auto simp: same_ring_def finalizeSharedSendClose_def enqueueSharedSendClose_def drainStaleSharedSendCloseAck_def)

lemma finalizeCloseTail_ring:
  assumes "ch_sharedSendHook c"
  shows "ch_isClose (finalizeCloseTail c) = ch_isClose c \<and> ch_closeOnce (finalizeCloseTail c) = ch_closeOnce c
    \<and> ch_finalizeOnce (finalizeCloseTail c) = ch_finalizeOnce c \<and> ch_reactorReadDepth (finalizeCloseTail c) = ch_reactorReadDepth c
    \<and> ch_deferReadBufferRelease (finalizeCloseTail c) = ch_deferReadBufferRelease c
    \<and> (if ch_deferReadBufferRelease c
       then ch_readBuffer (finalizeCloseTail c) = ch_readBuffer c \<and> ch_freedRings (finalizeCloseTail c) = ch_freedRings c
       else ch_readBuffer (finalizeCloseTail c) = None
         \<and> ch_freedRings (finalizeCloseTail c) = ch_freedRings c @ (case ch_readBuffer c of None \<Rightarrow> [] | Some r \<Rightarrow> [r]))"
proof -
  define c1 where "c1 = c\<lparr>ch_closeCalls := ch_closeCalls c + 1\<rparr>"
  define c2 where "c2 = (if ch_mailBoxQueue c1 \<noteq> None then
                  (if ch_sharedSendHook c1 then finalizeSharedSendClose c1 else with_mailbox CloseM c1)
                else c1)"
  have "same_ring c c2" using finalizeSharedSendClose_same[of c1] assms by (auto simp: c2_def c1_def same_ring_def)
  then show ?thesis
    unfolding finalizeCloseTail_def Let_def c1_def[symmetric] c2_def[symmetric]
    by (simp add: same_ring_def release_ring_facts)
qed

lemma closeBody_owned:
  assumes "ch_sharedSendHook c" "ring_owned (c\<lparr>ch_closeOnce := False, ch_deferReadBufferRelease := False\<rparr>)" "\<not> ch_isClose c"
    "ch_closeOnce c" "ch_deferReadBufferRelease c \<longrightarrow> 0 < ch_reactorReadDepth c"
  shows "ring_owned (closeBody c) \<and> ch_isClose (closeBody c)
    \<and> (0 < ch_reactorReadDepth c \<longrightarrow> ch_freedRings (closeBody c) = ch_freedRings c)"
proof -
  define c1 where "c1 = with_mailbox StopEnqueue (c\<lparr>ch_isClose := True, ch_removed := True\<rparr>)"
  define c2 where "c2 = c1\<lparr>ch_state := False, ch_closeChan := True, ch_connClosed := True\<rparr>"
  define c3 where "c3 = (if ch_reactorReadDepth c2 > 0 then c2\<lparr>ch_deferReadBufferRelease := True\<rparr> else c2)"
  have h: "ch_sharedSendHook c2" using assms(1) by (simp add: c2_def c1_def with_mailbox_def)
  then have e: "closeBody c = finalize_once c3"
    unfolding closeBody_def Let_def c1_def[symmetric] c2_def[symmetric] c3_def by (simp only: if_True)
  have f: "ch_finalizeOnce c3 = ch_finalizeOnce c" "ch_sharedSendHook c3" "ch_isClose c3" "ch_closeOnce c3 = ch_closeOnce c"
    "ch_readBuffer c3 = ch_readBuffer c" "ch_freedRings c3 = ch_freedRings c" "ch_reactorReadDepth c3 = ch_reactorReadDepth c"
    "ch_deferReadBufferRelease c3 = (ch_deferReadBufferRelease c \<or> 0 < ch_reactorReadDepth c)"
    using assms(1) by (simp_all add: c3_def c2_def c1_def with_mailbox_def)
  have n: "\<not> ch_finalizeOnce c" using assms(2,3) by (simp add: ring_owned_def)
  have e': "closeBody c = finalizeCloseTail (c3\<lparr>ch_finalizeOnce := True\<rparr>)" using e f(1) n by (simp add: finalize_once_def)
  show ?thesis using finalizeCloseTail_ring[of "c3\<lparr>ch_finalizeOnce := True\<rparr>"] f assms
    unfolding e' by (auto simp: ring_owned_def held_def split: if_splits option.splits)
qed

lemma doClose_owned:
  assumes "ch_sharedSendHook c" "ring_owned (c\<lparr>ch_deferReadBufferRelease := False\<rparr>)" "\<not> ch_isClose c"
    "ch_deferReadBufferRelease c \<longrightarrow> 0 < ch_reactorReadDepth c"
  shows "ring_owned (doClose c) \<and> ch_isClose (doClose c)
    \<and> (0 < ch_reactorReadDepth c \<longrightarrow> ch_freedRings (doClose c) = ch_freedRings c)"
proof -
  define c1 where "c1 = (if ch_sharedSendHook c \<and> ch_reactorReadDepth c > 0 then c\<lparr>ch_closeReactorAsync := True\<rparr> else c)"
  have n: "\<not> ch_closeOnce c1" using assms(2,3) by (auto simp: c1_def ring_owned_def)
  have e: "doClose c = closeBody (c1\<lparr>ch_closeOnce := True\<rparr>)"
    unfolding doClose_def Let_def c1_def[symmetric] using assms(3) n by simp
  show ?thesis unfolding e
    using closeBody_owned[of "c1\<lparr>ch_closeOnce := True\<rparr>"] assms by (auto simp: c1_def ring_owned_def held_def)
qed

lemma ring_owned_undefer: "ring_owned c \<Longrightarrow> \<not> ch_isClose c \<Longrightarrow> ring_owned (c\<lparr>ch_deferReadBufferRelease := False\<rparr>)"
  by (auto simp: ring_owned_def held_def split: if_splits)

lemma CloseC_owned:
  assumes "ch_sharedSendHook c" "ring_owned c"
  shows "ring_owned (CloseC c) \<and> ch_isClose (CloseC c) \<and> (0 < ch_reactorReadDepth c \<longrightarrow> ch_freedRings (CloseC c) = ch_freedRings c)"
proof (cases "ch_isClose c")
  case True
  then show ?thesis using assms by (simp add: CloseC_def doClose_def)
next
  case False
  then show ?thesis using doClose_owned[OF assms(1) ring_owned_undefer] assms(2) by (auto simp: CloseC_def ring_owned_def)
qed

lemma CloseFromReactor_owned:
  assumes "ch_sharedSendHook c" "ring_owned c"
  shows "ring_owned (CloseFromReactor c) \<and> ch_isClose (CloseFromReactor c)
    \<and> (0 < ch_reactorReadDepth c \<longrightarrow> ch_freedRings (CloseFromReactor c) = ch_freedRings c)"
proof (cases "ch_isClose c")
  case True
  then show ?thesis using assms by (simp add: CloseFromReactor_def)
next
  case False
  define c2 where "c2 = (if ch_reactorReadDepth c > 0
    then c\<lparr>ch_closeReactorAsync := True, ch_deferReadBufferRelease := True\<rparr> else c\<lparr>ch_closeReactorAsync := True\<rparr>)"
  have e: "CloseFromReactor c = doClose c2" using False by (simp add: CloseFromReactor_def c2_def Let_def)
  show ?thesis unfolding e using doClose_owned[of c2] assms False by (auto simp: c2_def ring_owned_def held_def)
qed

lemma SendC_owned:
  assumes "ch_sharedSendHook c" "ring_owned c"
  shows "ring_owned (SendC env m c) \<and> (0 < ch_reactorReadDepth c \<longrightarrow> ch_freedRings (SendC env m c) = ch_freedRings c)
    \<and> ch_sharedSendHook (SendC env m c)"
proof -
  have ov: "ring_owned (onSendQueueOverflow env n l d) \<and> (0 < ch_reactorReadDepth d \<longrightarrow> ch_freedRings (onSendQueueOverflow env n l d) = ch_freedRings d)"
    if "ch_sharedSendHook d" "ring_owned d" for n l d
    using CloseFromReactor_owned[OF that] that by (auto simp: onSendQueueOverflow_def closeFromSharedSendPath_def split: option.splits)
  have up: "ring_owned (d\<lparr>ch_mailBoxQueue := x, ch_queuedMsgs := y\<rparr>) = ring_owned d" "ring_owned (release xs d) = ring_owned d"
    "ring_owned (d\<lparr>ch_sharedSendPending := b, ch_hooked := k\<rparr>) = ring_owned d" for d x y b k xs
    by (simp_all add: ring_owned_def held_def release_def)
  show ?thesis
  proof (cases "\<not> ch_isClose c \<and> ch_state c \<and> ch_mailBoxQueue c \<noteq> None")
    case False
    then have "SendC env m c = release [m] c" by (auto simp: SendC_def IsOpen_def split: option.splits)
    then show ?thesis using assms by (simp add: up) (simp add: release_def)
  next
    case True
    then obtain q where q: "ch_mailBoxQueue c = Some q" by auto
    obtain ok q' where e: "TryEnqueueM m q = (ok, q')" by fastforce
    define c2 where "c2 = c\<lparr>ch_mailBoxQueue := Some q', ch_queuedMsgs := ch_queuedMsgs c + 1\<rparr>"
    define c3 where "c3 = (if ch_sharedSendHook c2 \<and> ce_maxQueued env > 0 \<and> ch_queuedMsgs c + 1 > ce_maxQueued env
      then onSendQueueOverflow env (ch_queuedMsgs c + 1) (ce_maxQueued env) c2 else c2)"
    have s: "SendC env m c = (if \<not> ok then release [m] (c\<lparr>ch_mailBoxQueue := Some q'\<rparr>)
       else if ch_sharedSendHook c3 \<and> \<not> ch_sharedSendPending c3
        then c3\<lparr>ch_sharedSendPending := True, ch_hooked := ch_hooked c3 + 1\<rparr> else c3)"
      unfolding SendC_def IsOpen_def c3_def c2_def using True q e by (simp add: Let_def)
    have c2: "ring_owned c2" "ch_sharedSendHook c2" "ch_reactorReadDepth c2 = ch_reactorReadDepth c" "ch_freedRings c2 = ch_freedRings c"
      using assms by (simp_all add: c2_def up)
    have c3: "ring_owned c3 \<and> (0 < ch_reactorReadDepth c \<longrightarrow> ch_freedRings c3 = ch_freedRings c)"
      using ov[OF c2(2,1)] c2 by (simp add: c3_def)
    have rel: "ring_owned (release [m] (c\<lparr>ch_mailBoxQueue := Some q'\<rparr>))" using assms(2) by (simp add: ring_owned_def held_def release_def)
    have "ch_sharedSendHook c3" using onSendQueueOverflow_keeps[of c2] c2(2) by (auto simp: c3_def keeps_mail_def)
    then show ?thesis unfolding s using c3 up(3) rel assms(1) by (auto simp: release_def)
  qed
qed

lemma flushChannel_closed:
  assumes "mail_ok c" "ch_isClose c"
  shows "\<exists>c'. flushChannel env c = Some (False, c') \<and> mail_ok c' \<and> mail c' = [] \<and> \<not> ch_sharedSendPending c'
     \<and> ch_released c' = ch_released c @ filter (\<lambda>m. m \<noteq> 0) (mail c) \<and> ch_queuedMsgs c' = ch_queuedMsgs c - int (length (mail c))
     \<and> (\<forall>q. ch_mailBoxQueue c' = Some q \<longrightarrow> us_stopped q)
     \<and> ch_sharedSendCloseAck c' = map_option (\<lambda>_. True) (ch_sharedSendCloseAck c)
     \<and> same_ring c c' \<and> ch_sharedSendHook c' = ch_sharedSendHook c"
proof -
  from drain_close_facts[OF assms(1)] obtain c1 where d: "sharedSendDrainAndCloseMailbox MaxBatchLimit c = Some c1"
    "mail_ok c1" "mail c1 = []" "ch_released c1 = ch_released c @ filter (\<lambda>m. m \<noteq> 0) (mail c)"
    "ch_queuedMsgs c1 = ch_queuedMsgs c - int (length (mail c))" "\<forall>q. ch_mailBoxQueue c1 = Some q \<longrightarrow> us_stopped q"
    "ch_sharedSendCloseAck c1 = map_option (\<lambda>_. True) (ch_sharedSendCloseAck c)"
    and u: "c1 = c\<lparr>ch_mailBoxQueue := ch_mailBoxQueue c1, ch_released := ch_released c1, ch_queuedMsgs := ch_queuedMsgs c1,
               ch_sharedSendCloseAck := ch_sharedSendCloseAck c1\<rparr>" by blast
  have "same_ring c c1 \<and> ch_sharedSendHook c1 = ch_sharedSendHook c"
    by (subst u) (subst u, simp add: same_ring_def)
  then show ?thesis using d assms(2)
    by (simp add: flushChannel_def SharedSendClearPending_def mail_def mail_ok_def same_ring_def)
qed

lemma flushChannel_open:
  assumes "mail_ok c" "\<not> ch_isClose c"
  shows "\<exists>b c' ms. flushChannel env c = Some (b, c') \<and> served env ms c c'
     \<and> (\<not> b \<longrightarrow> mail c' = [] \<and> \<not> ch_sharedSendPending c') \<and> (b \<longrightarrow> ms \<noteq> [])"
  using flush_loop_open[OF assms, of env "if ce_flushQuota env \<le> 0 then 8 else ce_flushQuota env" 0]
  unfolding flushChannel_def if_not_P[OF assms(2)] by blast

lemma filter_nonzero: "0 \<notin> set xs \<Longrightarrow> filter (\<lambda>m. m \<noteq> 0) xs = xs" for xs :: "nat list"
  by (induction xs) auto

definition life_inv :: "nat list \<times> 'c channel \<Rightarrow> bool" where
  "life_inv s \<longleftrightarrow> (let (ms, c) = s in ch_sharedSendHook c \<and> mail_ok c \<and> ring_owned c \<and> 0 \<notin> set (mail c) \<and> mset ms = ledger c
     \<and> ch_queuedMsgs c = int (length (mail c)))"

lemma flushChannel_life:
  assumes "mail_ok c" "0 \<notin> set (mail c)" "flushChannel env c = Some (b, c')"
  shows "mail_ok c' \<and> same_ring c c' \<and> ch_sharedSendHook c' = ch_sharedSendHook c \<and> ledger c' = ledger c
     \<and> set (mail c') \<subseteq> set (mail c) \<and> ch_queuedMsgs c' - int (length (mail c')) = ch_queuedMsgs c - int (length (mail c))"
proof (cases "ch_isClose c")
  case True
  note filter_nonzero[OF assms(2)]
  moreover obtain d where "flushChannel env c = Some (False, d)" "mail_ok d" "mail d = []" "same_ring c d"
    "ch_released d = ch_released c @ filter (\<lambda>m. m \<noteq> 0) (mail c)" "ch_queuedMsgs d = ch_queuedMsgs c - int (length (mail c))"
    "ch_sharedSendHook d = ch_sharedSendHook c"
    using flushChannel_closed[OF assms(1) True, of env] by blast
  ultimately show ?thesis using assms(3) by (simp add: ledger_def)
next
  case False
  obtain b' d ms where "flushChannel env c = Some (b', d)" "served env ms c d"
    using flushChannel_open[OF assms(1) False, of env] by blast
  then show ?thesis using assms(3) by (simp add: served_def ledger_def)
qed

lemma BeginReactorRead_same:
  "ch_mailBoxQueue (BeginReactorRead c) = ch_mailBoxQueue c" "ch_released (BeginReactorRead c) = ch_released c"
  "ch_sharedSendHook (BeginReactorRead c) = ch_sharedSendHook c" "ch_queuedMsgs (BeginReactorRead c) = ch_queuedMsgs c"
  "ch_freedRings (BeginReactorRead c) = ch_freedRings c"
  by (simp_all add: BeginReactorRead_def)

lemma EndReactorRead_same:
  "ch_mailBoxQueue (EndReactorRead c) = ch_mailBoxQueue c" "ch_released (EndReactorRead c) = ch_released c"
  "ch_sharedSendHook (EndReactorRead c) = ch_sharedSendHook c" "ch_queuedMsgs (EndReactorRead c) = ch_queuedMsgs c"
  by (auto simp: EndReactorRead_def releaseReadBuffer_def Let_def split: option.splits)

lemma EndReactorRead_owned:
  assumes "ring_owned c" "0 < ch_reactorReadDepth c" "ch_sharedSendHook c"
  shows "ring_owned (EndReactorRead c) \<and> (1 < ch_reactorReadDepth c \<longrightarrow> ch_freedRings (EndReactorRead c) = ch_freedRings c)"
  using assms by (auto simp: EndReactorRead_def Let_def ring_owned_def held_def release_ring_facts split: if_splits option.splits)

lemma keeps_mail_life:
  "life_inv (ms, c) \<Longrightarrow> keeps_mail c c' \<Longrightarrow> ring_owned c' \<Longrightarrow> life_inv (ms, c')"
  by (auto simp: life_inv_def keeps_mail_def ledger_def)

lemma life_inv_step: "chan_life env s s' \<Longrightarrow> life_inv s \<Longrightarrow> life_inv s'"
proof (induction rule: chan_life.induct)
  case (life_send m ms c)
  then have i: "ch_sharedSendHook c" "mail_ok c" "ring_owned c" "0 \<notin> set (mail c)" "mset ms = ledger c"
    "ch_queuedMsgs c = int (length (mail c))" by (simp_all add: life_inv_def)
  show ?case using SendC_facts[OF i(2), of env m] SendC_owned[OF i(1,3), of env m] i(4-6) life_send(1)
    by (auto simp: life_inv_def ledger_def split: if_splits)
next
  case (life_flush c b c' ms)
  then show ?case using flushChannel_life[of c env b c'] same_ring_owned[of c c'] by (auto simp: life_inv_def)
next
  case (life_close ms c)
  then show ?case using keeps_mail_life[OF life_close] CloseC_owned[of c] doClose_keeps[of c]
    by (simp add: life_inv_def CloseC_def)
next
  case (life_close_reactor ms c)
  then show ?case using keeps_mail_life[OF life_close_reactor CloseFromReactor_keeps] CloseFromReactor_owned[of c]
    by (simp add: life_inv_def)
next
  case (life_begin ms c)
  have "ring_owned (BeginReactorRead c)" using life_begin by (auto simp: life_inv_def ring_owned_def held_def BeginReactorRead_def)
  moreover have "keeps_mail c (BeginReactorRead c)" by (rule keeps_mail_same) (simp_all add: BeginReactorRead_same)
  ultimately show ?case using keeps_mail_life[OF life_begin] by blast
next
  case (life_end c ms)
  then have "ring_owned (EndReactorRead c)" using EndReactorRead_owned[of c] by (simp add: life_inv_def)
  moreover have "keeps_mail c (EndReactorRead c)" by (rule keeps_mail_same) (simp_all add: EndReactorRead_same)
  ultimately show ?case using keeps_mail_life[OF life_end(2)] by blast
qed

lemma life_inv_reach: "(chan_life env)\<^sup>*\<^sup>* s s' \<Longrightarrow> life_inv s \<Longrightarrow> life_inv s'"
  by (induction rule: rtranclp_induct) (auto intro: life_inv_step)

lemma life_inv_new:
  "life_inv ([], SetSharedSendHook True (NewBaseChannel cfg sync bmax pmax rb cid conn now))"
  by (auto simp: life_inv_def SetSharedSendHook_def NewBaseChannel_def mail_ok_def mail_def NewUnboundedMPSC_facts ledger_def
      ring_owned_def held_def)



section \<open>Properties\<close>

definition sample_send_env :: "byte list chan_env" where
  "sample_send_env = sample_env\<lparr>ce_writev := (\<lambda>bufs c. ((int (length (concat bufs)), None), c @ concat bufs))\<rparr>"

definition sample_shared :: "byte list channel" where
  "sample_shared = SetSharedSendHook True (NewBaseChannel (ce_cfg sample_send_env) False 4 0 (NewRingBuffer 16 64) 1 [] 0)"

lemma sample_life: "(chan_life sample_send_env)\<^sup>*\<^sup>* ([], sample_shared) ([7], CloseC (SendC sample_send_env 7 sample_shared))"
proof -
  have "chan_life sample_send_env ([], sample_shared) ([7], SendC sample_send_env 7 sample_shared)"
    using life_send[of 7 sample_send_env "[]" sample_shared] by simp
  moreover note life_close[of sample_send_env "[7]" "SendC sample_send_env 7 sample_shared"]
  ultimately show ?thesis by (meson converse_rtranclp_into_rtranclp r_into_rtranclp)
qed

lemma sample_closed: "ch_isClose (CloseC (SendC sample_send_env 7 sample_shared))"
  by code_simp



text \<open>C18: A worker turn on an open channel serves the front of the queue, in the order sent:
  it returns, writes exactly the frames of those messages in that order, releases each once,
  and either empties the queue and clears the pending flag or has used its quota.\<close>

theorem flush_turn_in_order:
  assumes "mail_ok c" "\<not> ch_isClose c" "ch_state c" "writes_all env out"
  shows "\<exists>requeue c' ms. flushChannel env c = Some (requeue, c') \<and> mail c = ms @ mail c' \<and> ch_released c' = ch_released c @ ms
     \<and> out (ch_conn c') = out (ch_conn c) @ concat (map (wire_out env) ms)
     \<and> ch_queuedMsgs c' = ch_queuedMsgs c - int (length ms)
     \<and> (if requeue then ms \<noteq> [] else mail c' = [] \<and> \<not> ch_sharedSendPending c')"
proof -
  obtain b c' ms where f: "flushChannel env c = Some (b, c')" "served env ms c c'"
     "\<not> b \<longrightarrow> mail c' = [] \<and> \<not> ch_sharedSendPending c'" "b \<longrightarrow> ms \<noteq> []"
    using flushChannel_open[OF assms(1,2), of env] by blast
  then show ?thesis using assms(3,4) by (intro exI[of _ b] exI[of _ c'] exI[of _ ms]) (simp add: served_def)
qed

theorem flush_turn_in_order_witness:
  "\<exists>requeue c' ms. flushChannel sample_send_env (SendC sample_send_env 7 sample_shared) = Some (requeue, c')
     \<and> mail (SendC sample_send_env 7 sample_shared) = ms @ mail c' \<and> ch_released c' = ms
     \<and> ch_conn c' = concat (map (wire_out sample_send_env) ms)"
proof -
  let ?c = "SendC sample_send_env 7 sample_shared"
  have 1: "mail_ok ?c" using SendC_facts[of sample_shared sample_send_env 7]
    by (simp add: sample_shared_def SetSharedSendHook_def NewBaseChannel_def mail_ok_def NewUnboundedMPSC_facts)
  have 2: "\<not> ch_isClose ?c \<and> ch_state ?c \<and> ch_conn ?c = [] \<and> ch_released ?c = []" by code_simp
  have 3: "writes_all sample_send_env (\<lambda>c. c)" by (auto simp: writes_all_def sample_send_env_def)
  show ?thesis using flush_turn_in_order[OF 1 _ _ 3] 2 by fastforce
qed

text \<open>What \<open>Send\<close> does with a message. A channel that accepts puts it at the end of the queue,
  counts it and makes sure a worker will come; any other channel releases it at once. No
  overflow policy drops a message that was queued.\<close>

theorem send_queues_or_releases:
  assumes "mail_ok c"
  shows "if \<not> ch_isClose c \<and> ch_state c \<and> (\<exists>q. ch_mailBoxQueue c = Some q \<and> \<not> us_stopped q)
     then mail (SendC env m c) = mail c @ [m] \<and> ch_released (SendC env m c) = ch_released c
       \<and> ch_queuedMsgs (SendC env m c) = ch_queuedMsgs c + 1
       \<and> (ch_sharedSendHook c \<longrightarrow> ch_sharedSendPending (SendC env m c))
     else mail (SendC env m c) = mail c \<and> ch_released (SendC env m c) = ch_released c @ [m]
       \<and> ch_queuedMsgs (SendC env m c) = ch_queuedMsgs c"
proof -
  have "accepts c \<longleftrightarrow> \<not> ch_isClose c \<and> ch_state c \<and> (\<exists>q. ch_mailBoxQueue c = Some q \<and> \<not> us_stopped q)"
    by (auto simp: accepts_def split: option.splits)
  then show ?thesis using SendC_facts[OF assms, of env m] by simp
qed

theorem send_queues_or_releases_witness:
  "mail (SendC sample_send_env 7 sample_shared) = [7] \<and> ch_released (SendC sample_send_env 7 (CloseC sample_shared)) = [7]"
proof -
  have ok: "mail_ok sample_shared"
    by (simp add: sample_shared_def SetSharedSendHook_def NewBaseChannel_def mail_ok_def NewUnboundedMPSC_facts)
  have m: "mail sample_shared = []"
    by (simp add: sample_shared_def SetSharedSendHook_def NewBaseChannel_def mail_def NewUnboundedMPSC_facts)
  have a: "\<not> ch_isClose sample_shared \<and> ch_state sample_shared \<and> (\<exists>q. ch_mailBoxQueue sample_shared = Some q \<and> \<not> us_stopped q)"
    by (simp add: sample_shared_def SetSharedSendHook_def NewBaseChannel_def NewUnboundedMPSC_facts)
  have k: "mail_ok (CloseC sample_shared)" using doClose_keeps[of sample_shared] ok by (simp add: CloseC_def keeps_mail_def)
  have c: "ch_isClose (CloseC sample_shared)" "ch_released (CloseC sample_shared) = []" by code_simp+
  show ?thesis using send_queues_or_releases[OF ok, of sample_send_env 7] send_queues_or_releases[OF k, of sample_send_env 7] a c m by simp
qed

end
