(* ===== verification/Double_Queue.thy ===== *)
theory Double_Queue
  imports Base_Prelude
begin

text \<open>
  \<^verbatim>\<open>zqueue/swap.go\<close>: the double-buffered queue. Its two slices share backing arrays with the batches that
  \<open>Pop\<close> hands out, so arrays live in an explicit store and a slice is an address with a length and a capacity. What
  happens under the mutex is one step; the first look at \<open>closed\<close>, the counter and the signal are steps of their own.
\<close>

section \<open>State\<close>

record slice =
  sl_arr :: nat
  sl_len :: nat
  sl_cap :: nat

record 'a dqueue =
  dq_store :: "nat \<Rightarrow> 'a list"
  dq_fresh :: nat
  dq_write :: slice
  dq_read :: slice
  dq_signal :: bool
  dq_closed :: bool
  dq_initCap :: nat
  dq_maxCap :: int
  dq_count :: u64
  dq_outstanding :: nat
  dq_isNotify :: bool

definition contents_of :: "'a dqueue \<Rightarrow> slice \<Rightarrow> 'a list" where
  "contents_of q s = take (sl_len s) (dq_store q (sl_arr s))"

text \<open>\<open>make([]T, 0, c)\<close>, and \<open>append\<close>: in place while the capacity lasts, otherwise into a new array of a size that the
  runtime chooses.\<close>

definition make_slice :: "nat \<Rightarrow> 'a::zero dqueue \<Rightarrow> slice \<times> 'a dqueue" where
  "make_slice c q =
     (\<lparr>sl_arr = dq_fresh q, sl_len = 0, sl_cap = c\<rparr>,
      q\<lparr>dq_store := (dq_store q)(dq_fresh q := replicate c 0), dq_fresh := dq_fresh q + 1\<rparr>)"

definition append_slice :: "(nat \<Rightarrow> nat \<Rightarrow> nat) \<Rightarrow> slice \<Rightarrow> 'a list \<Rightarrow> 'a::zero dqueue \<Rightarrow> slice \<times> 'a dqueue" where
  "append_slice grow s items q =
     (let n = sl_len s + length items
      in if n \<le> sl_cap s then
           (s\<lparr>sl_len := n\<rparr>, q\<lparr>dq_store := (dq_store q)(sl_arr s := go_copy (dq_store q (sl_arr s)) (sl_len s) items)\<rparr>)
         else
           (\<lparr>sl_arr = dq_fresh q, sl_len = n, sl_cap = grow (sl_cap s) n\<rparr>,
            q\<lparr>dq_store := (dq_store q)(dq_fresh q := contents_of q s @ items @ replicate (grow (sl_cap s) n - n) 0),
              dq_fresh := dq_fresh q + 1\<rparr>))"

definition NewSmartDoubleQueue :: "int \<Rightarrow> int \<Rightarrow> bool \<Rightarrow> 'a::zero dqueue" where
  "NewSmartDoubleQueue initCap maxCap isNotify =
     (let initCap = (if initCap < 64 then 64 else nat initCap)
      in \<lparr>dq_store = (\<lambda>_. replicate initCap 0), dq_fresh = 2, dq_write = \<lparr>sl_arr = 0, sl_len = 0, sl_cap = initCap\<rparr>,
          dq_read = \<lparr>sl_arr = 1, sl_len = 0, sl_cap = initCap\<rparr>, dq_signal = False, dq_closed = False, dq_initCap = initCap,
          dq_maxCap = maxCap, dq_count = 0, dq_outstanding = 0, dq_isNotify = isNotify\<rparr>)"

section \<open>The critical sections\<close>

text \<open>\<open>Enqueue\<close> under the lock: whether it accepts, and whether it will notify.\<close>

definition enqueue_locked :: "(nat \<Rightarrow> nat \<Rightarrow> nat) \<Rightarrow> 'a list \<Rightarrow> 'a::zero dqueue \<Rightarrow> (bool \<times> bool) \<times> 'a dqueue" where
  "enqueue_locked grow items q =
     (if dq_closed q then ((False, False), q)
      else if dq_maxCap q > 0 \<and> int (sl_len (dq_write q) + sl_len (dq_read q) + dq_outstanding q + length items) > dq_maxCap q then ((False, False), q)
      else let (w, q) = append_slice grow (dq_write q) items q
           in ((True, dq_isNotify q \<and> \<not> dq_closed q), q\<lparr>dq_write := w\<rparr>))"

text \<open>
  \<open>Pop\<close> under the lock: the batch, and \<open>False\<close> for a queue that is closed and empty. A buffer that has grown
  beyond 32 times its first capacity is replaced.
\<close>

definition renew_read :: "'a::zero dqueue \<Rightarrow> 'a dqueue" where
  "renew_read q =
     (if dq_maxCap q > 0 \<and> sl_cap (dq_read q) > dq_initCap q * 32 \<and> sl_len (dq_read q) = 0
      then let (r, q) = make_slice (dq_initCap q) q in q\<lparr>dq_read := r\<rparr> else q)"

definition renew_write :: "'a::zero dqueue \<Rightarrow> 'a dqueue" where
  "renew_write q =
     (if sl_cap (dq_write q) > dq_initCap q * 32 then let (w, q) = make_slice (dq_initCap q) q in q\<lparr>dq_write := w\<rparr>
      else q\<lparr>dq_write := (dq_write q)\<lparr>sl_len := 0\<rparr>\<rparr>)"

definition swap_buffers :: "'a dqueue \<Rightarrow> slice \<times> 'a dqueue" where
  "swap_buffers q =
     (let q = q\<lparr>dq_read := dq_write q, dq_write := dq_read q\<rparr>; batch = dq_read q
      in (batch, q\<lparr>dq_read := (dq_read q)\<lparr>sl_len := 0\<rparr>\<rparr>))"

definition pop_locked :: "'a::zero dqueue \<Rightarrow> (slice option \<times> bool) \<times> 'a dqueue" where
  "pop_locked q =
     (if sl_len (dq_write q) = 0 then ((None, \<not> dq_closed q), q)
      else
        let (batch, q) = swap_buffers (renew_read q); q = renew_write q
        in ((Some batch, True), if dq_maxCap q > 0 then q\<lparr>dq_outstanding := dq_outstanding q + sl_len batch\<rparr> else q))"

definition ReleaseBatch :: "'a dqueue \<Rightarrow> nat \<times> 'a dqueue" where
  "ReleaseBatch q = (dq_outstanding q, q\<lparr>dq_outstanding := 0\<rparr>)"

definition CloseD :: "'a dqueue \<Rightarrow> 'a dqueue" where
  "CloseD q = (if dq_closed q then q else let q = q\<lparr>dq_closed := True\<rparr> in if dq_isNotify q then q\<lparr>dq_signal := True\<rparr> else q)"

definition LenD :: "'a dqueue \<Rightarrow> u64" where "LenD q = dq_count q"

section \<open>Interleaved calls\<close>

text \<open>
  Where a producer is in \<open>Enqueue\<close>: before the lock, before the counter, before the second look at \<open>closed\<close>, before the
  signal. The consumer is idle or about to take \<open>n\<close> off the counter.
\<close>

datatype 'a dprod = DIdle | DLock "'a list" | DAdd nat bool | DLook | DSend

definition prod_start :: "'a list \<Rightarrow> 'a dqueue \<Rightarrow> 'a dprod" where
  "prod_start items q = (if items = [] \<or> dq_closed q then DIdle else DLock items)"

fun prod_step :: "(nat \<Rightarrow> nat \<Rightarrow> nat) \<Rightarrow> 'a dprod \<Rightarrow> 'a::zero dqueue \<Rightarrow> 'a dprod \<times> 'a dqueue" where
  "prod_step grow DIdle q = (DIdle, q)"
| "prod_step grow (DLock items) q =
     (let ((ok, notify), q) = enqueue_locked grow items q in (if ok then DAdd (length items) notify else DIdle, q))"
| "prod_step grow (DAdd n notify) q = (if notify then DLook else DIdle, q\<lparr>dq_count := dq_count q + of_nat n\<rparr>)"
| "prod_step grow DLook q = (if dq_closed q then DIdle else DSend, q)"
| "prod_step grow DSend q = (DIdle, q\<lparr>dq_signal := True\<rparr>)"

text \<open>
  The system: the queue, the producers, what the consumer still takes off the counter, whether it has received from
  \<open>Signal\<close> and not called \<open>Pop\<close> since, the batch of its last successful \<open>Pop\<close> with its contents then, and the
  histories of what was accepted and handed out.
\<close>

record 'a dsys =
  ds_q :: "'a dqueue"
  ds_prods :: "'a dprod list"
  ds_take :: nat
  ds_woken :: bool
  ds_batch :: "(slice \<times> 'a list) option"
  ds_in :: "'a list"
  ds_out :: "'a list"

definition dsys_start :: "'a dqueue \<Rightarrow> nat \<Rightarrow> 'a dsys" where
  "dsys_start q n = \<lparr>ds_q = q, ds_prods = replicate n DIdle, ds_take = 0, ds_woken = False, ds_batch = None, ds_in = [], ds_out = []\<rparr>"

text \<open>The part of a call that enters the history: the items of a producer that gets through the lock.\<close>

definition accepts :: "'a dprod \<Rightarrow> 'a dprod \<Rightarrow> 'a list" where
  "accepts p p' = (case (p, p') of (DLock items, DAdd _ _) \<Rightarrow> items | _ \<Rightarrow> [])"

definition consumer_pop :: "'a::zero dsys \<Rightarrow> 'a dsys" where
  "consumer_pop s =
     (let q = ds_q s; ((batch, _), q') = pop_locked q; s = s\<lparr>ds_q := q', ds_woken := False\<rparr>
      in case batch of None \<Rightarrow> s
         | Some b \<Rightarrow> s\<lparr>ds_take := (if dq_maxCap q = 0 then sl_len b else 0), ds_batch := Some (b, contents_of q' b), ds_out := ds_out s @ contents_of q' b\<rparr>)"

inductive dq_step :: "(nat \<Rightarrow> nat \<Rightarrow> nat) \<Rightarrow> 'a::zero dsys \<Rightarrow> 'a dsys \<Rightarrow> bool" for grow where
  call: "i < length (ds_prods s) \<Longrightarrow> ds_prods s ! i = DIdle \<Longrightarrow>
    dq_step grow s (s\<lparr>ds_prods := (ds_prods s)[i := prod_start items (ds_q s)]\<rparr>)"
| produce: "i < length (ds_prods s) \<Longrightarrow> prod_step grow (ds_prods s ! i) (ds_q s) = (p', q') \<Longrightarrow>
    dq_step grow s (s\<lparr>ds_q := q', ds_prods := (ds_prods s)[i := p'], ds_in := ds_in s @ accepts (ds_prods s ! i) p'\<rparr>)"
| wake: "dq_signal (ds_q s) \<Longrightarrow> ds_take s = 0 \<Longrightarrow> dq_step grow s (s\<lparr>ds_q := (ds_q s)\<lparr>dq_signal := False\<rparr>, ds_woken := True\<rparr>)"
| pop: "ds_take s = 0 \<Longrightarrow> dq_step grow s (consumer_pop s)"
| release: "ds_take s = 0 \<Longrightarrow> ReleaseBatch (ds_q s) = (n, q') \<Longrightarrow> dq_step grow s (s\<lparr>ds_q := q', ds_take := n\<rparr>)"
| taken: "dq_step grow s (s\<lparr>ds_q := (ds_q s)\<lparr>dq_count := dq_count (ds_q s) - of_nat (ds_take s)\<rparr>, ds_take := 0\<rparr>)"
| close: "dq_step grow s (s\<lparr>ds_q := CloseD (ds_q s)\<rparr>)"

inductive dq_reach :: "(nat \<Rightarrow> nat \<Rightarrow> nat) \<Rightarrow> 'a::zero dsys \<Rightarrow> 'a dsys \<Rightarrow> bool" for grow s0 where
  start: "dq_reach grow s0 s0"
| step: "dq_reach grow s0 s \<Longrightarrow> dq_step grow s s' \<Longrightarrow> dq_reach grow s0 s'"

section \<open>Slices\<close>

definition slice_ok :: "'a dqueue \<Rightarrow> slice \<Rightarrow> bool" where
  "slice_ok q s \<longleftrightarrow> sl_arr s < dq_fresh q \<and> length (dq_store q (sl_arr s)) = sl_cap s \<and> sl_len s \<le> sl_cap s"

text \<open>\<open>q'\<close> is \<open>q\<close> with other array contents; the other arrays below \<open>dq_fresh q\<close> than \<open>a\<close> are as they were.\<close>

definition only_writes :: "nat \<Rightarrow> 'a dqueue \<Rightarrow> 'a dqueue \<Rightarrow> bool" where
  "only_writes a q q' \<longleftrightarrow> (\<exists>st f. q' = q\<lparr>dq_store := st, dq_fresh := f\<rparr> \<and> dq_fresh q \<le> f \<and> (\<forall>b<dq_fresh q. b \<noteq> a \<longrightarrow> st b = dq_store q b))"

lemma go_copy_append:
  "n \<le> length xs \<Longrightarrow> n + length ys \<le> length xs \<Longrightarrow> take (n + length ys) (go_copy xs n ys) = take n xs @ ys"
  by (simp add: go_copy_def)

lemma append_slice_facts:
  assumes "slice_ok q s" "append_slice grow s items q = (s', q')" "\<forall>c n. n \<le> grow c n"
  shows "only_writes (sl_arr s) q q' \<and> slice_ok q' s' \<and> contents_of q' s' = contents_of q s @ items \<and> sl_len s' = sl_len s + length items
    \<and> (sl_arr s' = sl_arr s \<or> dq_fresh q \<le> sl_arr s')"
proof (cases "sl_len s + length items \<le> sl_cap s")
  case True
  then show ?thesis using assms go_copy_append[of "sl_len s" "dq_store q (sl_arr s)" items]
    by (auto simp: append_slice_def only_writes_def slice_ok_def contents_of_def Let_def intro!: exI[of _ "dq_fresh q"])
next
  case False
  moreover have "sl_len s + length items \<le> grow (sl_cap s) (sl_len s + length items)" using assms(3) by blast
  ultimately show ?thesis using assms(1,2)
    by (auto simp: append_slice_def only_writes_def slice_ok_def contents_of_def Let_def intro!: exI[of _ "dq_fresh q + 1"])
qed

lemma make_slice_facts:
  assumes "make_slice c q = (s, q')"
  shows "only_writes (dq_fresh q) q q' \<and> slice_ok q' s \<and> sl_len s = 0 \<and> sl_arr s = dq_fresh q \<and> dq_fresh q' = dq_fresh q + 1"
  using assms by (auto simp: make_slice_def only_writes_def slice_ok_def intro!: exI[of _ "dq_fresh q + 1"])

lemma only_writes_slice:
  assumes "only_writes a q q'" "slice_ok q s" "sl_arr s \<noteq> a"
  shows "slice_ok q' s \<and> contents_of q' s = contents_of q s"
  using assms by (auto simp: only_writes_def slice_ok_def contents_of_def)

section \<open>The invariant\<close>

definition owed :: "'a dprod \<Rightarrow> nat" where
  "owed p = (case p of DAdd n _ \<Rightarrow> n | _ \<Rightarrow> 0)"

definition notifies :: "'a dprod \<Rightarrow> bool" where
  "notifies p \<longleftrightarrow> (case p of DAdd n b \<Rightarrow> b | DLook \<Rightarrow> True | DSend \<Rightarrow> True | _ \<Rightarrow> False)"

text \<open>The two buffers are ok, apart, and the read buffer is empty.\<close>

definition buffers_ok :: "'a dqueue \<Rightarrow> bool" where
  "buffers_ok q \<longleftrightarrow> slice_ok q (dq_write q) \<and> slice_ok q (dq_read q) \<and> sl_arr (dq_write q) \<noteq> sl_arr (dq_read q) \<and> sl_len (dq_read q) = 0"

definition quota_ok :: "'a dqueue \<Rightarrow> bool" where
  "quota_ok q \<longleftrightarrow> (if dq_maxCap q > 0 then int (sl_len (dq_write q) + dq_outstanding q) \<le> dq_maxCap q else dq_outstanding q = 0)"

text \<open>The last batch still is what it was, in the array that is now the read buffer.\<close>

definition batch_ok :: "'a dqueue \<Rightarrow> (slice \<times> 'a list) option \<Rightarrow> bool" where
  "batch_ok q batch \<longleftrightarrow> (\<forall>b c. batch = Some (b, c) \<longrightarrow> sl_arr b = sl_arr (dq_read q) \<and> contents_of q b = c)"

text \<open>\<open>n\<close> items are accepted and not counted, and \<open>k\<close> are gone and still counted.\<close>

definition counted :: "'a dqueue \<Rightarrow> u64 \<Rightarrow> nat \<Rightarrow> bool" where
  "counted q n k \<longleftrightarrow> dq_count q + n = of_nat (sl_len (dq_write q) + dq_outstanding q + k)"

text \<open>With items in the buffer the consumer has been woken, or is going to be.\<close>

definition noticed :: "'a dqueue \<Rightarrow> bool \<Rightarrow> bool \<Rightarrow> bool" where
  "noticed q woken notifier \<longleftrightarrow> (dq_isNotify q \<and> sl_len (dq_write q) \<noteq> 0 \<longrightarrow> dq_signal q \<or> woken \<or> (\<not> dq_closed q \<and> notifier))"

definition owed_all :: "'a dprod list \<Rightarrow> u64" where
  "owed_all ps = of_nat (sum_list (map owed ps))"

definition some_notifies :: "'a dprod list \<Rightarrow> bool" where
  "some_notifies ps \<longleftrightarrow> (\<exists>p\<in>set ps. notifies p)"

definition dsys_inv :: "'a dsys \<Rightarrow> bool" where
  "dsys_inv s \<longleftrightarrow> buffers_ok (ds_q s) \<and> quota_ok (ds_q s) \<and> ds_in s = ds_out s @ contents_of (ds_q s) (dq_write (ds_q s))
     \<and> batch_ok (ds_q s) (ds_batch s) \<and> (dq_maxCap (ds_q s) \<ge> 0 \<longrightarrow> counted (ds_q s) (owed_all (ds_prods s)) (ds_take s))
     \<and> noticed (ds_q s) (ds_woken s) (some_notifies (ds_prods s))"

lemma enqueue_locked_facts:
  assumes "buffers_ok q" "quota_ok q" "enqueue_locked grow items q = ((ok, notify), q')" "\<forall>c n. n \<le> grow c n"
  shows "buffers_ok q' \<and> quota_ok q' \<and> contents_of q' (dq_write q') = contents_of q (dq_write q) @ (if ok then items else [])
    \<and> sl_len (dq_write q') = sl_len (dq_write q) + (if ok then length items else 0)
    \<and> dq_read q' = dq_read q \<and> dq_outstanding q' = dq_outstanding q \<and> dq_count q' = dq_count q \<and> dq_maxCap q' = dq_maxCap q
    \<and> dq_isNotify q' = dq_isNotify q \<and> dq_signal q' = dq_signal q \<and> dq_closed q' = dq_closed q
    \<and> (ok \<longrightarrow> \<not> dq_closed q \<and> notify = dq_isNotify q) \<and> (\<forall>b. sl_arr b = sl_arr (dq_read q) \<longrightarrow> contents_of q' b = contents_of q b)"
proof (cases ok)
  case False
  then have "q' = q" using assms(3) by (auto simp: enqueue_locked_def split: if_splits prod.splits)
  then show ?thesis using False assms(1,2) by simp
next
  case True
  obtain w q1 where a: "append_slice grow (dq_write q) items q = (w, q1)" by (cases "append_slice grow (dq_write q) items q")
  have q': "q' = q1\<lparr>dq_write := w\<rparr>" "notify = (dq_isNotify q1 \<and> \<not> dq_closed q1)" "\<not> dq_closed q"
    "dq_maxCap q > 0 \<Longrightarrow> int (sl_len (dq_write q) + dq_outstanding q + length items) \<le> dq_maxCap q"
    using assms(1,3) True a by (auto simp: enqueue_locked_def buffers_ok_def split: if_splits)
  have b: "slice_ok q (dq_write q)" "slice_ok q (dq_read q)" "sl_arr (dq_write q) \<noteq> sl_arr (dq_read q)" "sl_len (dq_read q) = 0"
    using assms(1) by (simp_all add: buffers_ok_def)
  note f = append_slice_facts[OF b(1) a assms(4)]
  from f obtain st k where q1: "q1 = q\<lparr>dq_store := st, dq_fresh := k\<rparr>" "\<forall>b<dq_fresh q. b \<noteq> sl_arr (dq_write q) \<longrightarrow> st b = dq_store q b"
    "dq_fresh q \<le> k" unfolding only_writes_def by blast
  have w: "slice_ok q1 w" "contents_of q1 w = contents_of q (dq_write q) @ items" "sl_len w = sl_len (dq_write q) + length items"
    "sl_arr w = sl_arr (dq_write q) \<or> dq_fresh q \<le> sl_arr w" using f by blast+
  have r: "sl_arr (dq_read q) < dq_fresh q" using b(2) by (simp add: slice_ok_def)
  have "buffers_ok q'" using w(1,4) b r q1(2,3) by (auto simp: q' q1(1) buffers_ok_def slice_ok_def)
  moreover have "contents_of q' b = contents_of q b" if "sl_arr b = sl_arr (dq_read q)" for b
    using that q1(2) r b(3) by (auto simp: q' q1(1) contents_of_def)
  moreover have "quota_ok q'" using assms(2) q'(4) w(3) by (auto simp: quota_ok_def q' q1(1))
  ultimately show ?thesis using True w q'(2,3) by (auto simp: q'(1) q1(1) contents_of_def)
qed

lemma pop_locked_empty: "sl_len (dq_write q) = 0 \<Longrightarrow> pop_locked q = ((None, \<not> dq_closed q), q)"
  by (simp add: pop_locked_def)

text \<open>Replacing a buffer by a new empty one, or leaving it, keeps what is said about the buffers.\<close>

lemma fresh_read:
  assumes "buffers_ok q" "q' = renew_read q"
  shows "buffers_ok q' \<and> contents_of q' (dq_write q) = contents_of q (dq_write q) \<and> dq_write q' = dq_write q
    \<and> (\<exists>st f r. q' = q\<lparr>dq_store := st, dq_fresh := f, dq_read := r\<rparr>)"
proof (cases "dq_maxCap q > 0 \<and> sl_cap (dq_read q) > dq_initCap q * 32 \<and> sl_len (dq_read q) = 0")
  case True
  then show ?thesis using assms by (auto simp: renew_read_def make_slice_def buffers_ok_def slice_ok_def contents_of_def intro!: exI)
next
  case False
  then show ?thesis using assms by (auto simp: renew_read_def intro!: exI[of _ "dq_store q"] exI[of _ "dq_fresh q"] exI[of _ "dq_read q"])
qed

lemma fresh_write:
  assumes "slice_ok q (dq_write q)" "slice_ok q (dq_read q)" "sl_arr (dq_write q) \<noteq> sl_arr (dq_read q)" "sl_len (dq_read q) = 0"
    "q' = renew_write q"
  shows "buffers_ok q' \<and> sl_len (dq_write q') = 0 \<and> (\<forall>b. sl_arr b = sl_arr (dq_read q) \<longrightarrow> contents_of q' b = contents_of q b)
    \<and> (\<exists>st f w. q' = q\<lparr>dq_store := st, dq_fresh := f, dq_write := w\<rparr>)"
proof (cases "sl_cap (dq_write q) > dq_initCap q * 32")
  case True
  then show ?thesis using assms by (auto simp: renew_write_def make_slice_def buffers_ok_def slice_ok_def contents_of_def intro!: exI)
next
  case False
  then show ?thesis using assms
    by (auto simp: renew_write_def buffers_ok_def slice_ok_def contents_of_def intro!: exI[of _ "dq_store q"] exI[of _ "dq_fresh q"] exI[of _ "(dq_write q)\<lparr>sl_len := 0\<rparr>"])
qed

lemma pop_locked_facts:
  assumes "buffers_ok q" "quota_ok q" "sl_len (dq_write q) \<noteq> 0"
  obtains b q' where "pop_locked q = ((Some b, True), q')" "buffers_ok q'" "quota_ok q'" "contents_of q' b = contents_of q (dq_write q)"
    "sl_len b = sl_len (dq_write q)" "sl_arr b = sl_arr (dq_read q')" "sl_len (dq_write q') = 0"
    "dq_outstanding q' = dq_outstanding q + (if dq_maxCap q > 0 then sl_len b else 0)" "dq_count q' = dq_count q" "dq_maxCap q' = dq_maxCap q"
    "dq_isNotify q' = dq_isNotify q" "dq_signal q' = dq_signal q" "dq_closed q' = dq_closed q"
proof -
  define q1 where "q1 = renew_read q"
  define b where "b = dq_write q"
  define q2 where "q2 = q1\<lparr>dq_read := b\<lparr>sl_len := 0\<rparr>, dq_write := dq_read q1\<rparr>"
  define q3 where "q3 = renew_write q2"
  define q4 where "q4 = (if dq_maxCap q3 > 0 then q3\<lparr>dq_outstanding := dq_outstanding q3 + sl_len b\<rparr> else q3)"
  note f1 = fresh_read[OF assms(1) q1_def]
  then obtain st f r where q1: "q1 = q\<lparr>dq_store := st, dq_fresh := f, dq_read := r\<rparr>" by blast
  have o: "slice_ok q2 (dq_write q2)" "slice_ok q2 (dq_read q2)" "sl_arr (dq_write q2) \<noteq> sl_arr (dq_read q2)" "sl_len (dq_write q2) = 0" "sl_len (dq_read q2) = 0"
    using f1 by (auto simp: q2_def b_def buffers_ok_def slice_ok_def)
  note f3 = fresh_write[OF o(1-3,5) q3_def]
  then obtain st' f' w where q3: "q3 = q2\<lparr>dq_store := st', dq_fresh := f', dq_write := w\<rparr>" by blast
  have sw: "swap_buffers q1 = (b, q2)" using f1 by (simp add: swap_buffers_def q2_def b_def)
  have p: "pop_locked q = ((Some b, True), q4)"
    unfolding pop_locked_def if_not_P[OF assms(3)] q1_def[symmetric] sw prod.case Let_def q3_def[symmetric] q4_def ..
  have "contents_of q4 b = contents_of q3 b" by (simp add: q4_def contents_of_def)
  also have "\<dots> = contents_of q2 b" using f3 by (simp add: q2_def)
  also have "\<dots> = contents_of q (dq_write q)" using f1 by (simp add: q2_def b_def contents_of_def)
  finally have c: "contents_of q4 b = contents_of q (dq_write q)" .
  have b3: "buffers_ok q3" "sl_len (dq_write q3) = 0" using f3 by blast+
  have b4: "buffers_ok q4" "sl_len (dq_write q4) = 0" using b3 by (simp_all add: q4_def buffers_ok_def slice_ok_def)
  have e: "dq_maxCap q3 = dq_maxCap q" "dq_outstanding q3 = dq_outstanding q" "dq_count q3 = dq_count q" "dq_isNotify q3 = dq_isNotify q"
    "dq_signal q3 = dq_signal q" "dq_closed q3 = dq_closed q" "sl_arr (dq_read q3) = sl_arr b"
    using f1 by (simp_all add: q3 q2_def q1 b_def)
  have e4: "dq_maxCap q4 = dq_maxCap q" "dq_outstanding q4 = dq_outstanding q + (if dq_maxCap q > 0 then sl_len b else 0)" "dq_count q4 = dq_count q"
    "dq_isNotify q4 = dq_isNotify q" "dq_signal q4 = dq_signal q" "dq_closed q4 = dq_closed q" "sl_arr (dq_read q4) = sl_arr b"
    using e by (simp_all add: q4_def)
  have "quota_ok q4" using assms(2) e4(1,2) b4(2) by (simp add: quota_ok_def b_def split: if_splits)
  then show thesis by (rule that[OF p b4(1) _ c _ e4(7)[symmetric] b4(2) e4(2,3,1,4,5,6)]) (simp add: b_def)
qed

section \<open>Every step keeps the invariant\<close>

lemma owed_put: "i < length ps \<Longrightarrow> owed_all (ps[i := p]) = owed_all ps - of_nat (owed (ps ! i)) + of_nat (owed p)"
  unfolding owed_all_def
proof (induction ps arbitrary: i)
  case (Cons y ys)
  then show ?case by (cases i) simp_all
qed simp

lemma notifies_put:
  assumes "some_notifies ps" "i < length ps" "\<not> notifies (ps ! i) \<or> notifies p"
  shows "some_notifies (ps[i := p])"
  using assms unfolding some_notifies_def by (metis in_set_conv_nth length_list_update nth_list_update_eq nth_list_update_neq)

lemma notifies_new: "i < length ps \<Longrightarrow> notifies p \<Longrightarrow> some_notifies (ps[i := p])"
  using set_update_memI unfolding some_notifies_def by fast

lemma noticed_more: "noticed q w b \<Longrightarrow> (b \<Longrightarrow> b') \<Longrightarrow> noticed q w b'"
  by (auto simp: noticed_def)

lemma batch_ok_keep:
  assumes "batch_ok q batch" "dq_read q' = dq_read q" "\<forall>b. sl_arr b = sl_arr (dq_read q) \<longrightarrow> contents_of q' b = contents_of q b"
  shows "batch_ok q' batch"
  using assms unfolding batch_ok_def by metis

lemma dsys_invD:
  assumes "dsys_inv s"
  shows "buffers_ok (ds_q s)" "quota_ok (ds_q s)" "ds_in s = ds_out s @ contents_of (ds_q s) (dq_write (ds_q s))" "batch_ok (ds_q s) (ds_batch s)"
    "dq_maxCap (ds_q s) \<ge> 0 \<Longrightarrow> counted (ds_q s) (owed_all (ds_prods s)) (ds_take s)" "noticed (ds_q s) (ds_woken s) (some_notifies (ds_prods s))"
  using assms by (simp_all add: dsys_inv_def)

lemma call_inv:
  assumes "dsys_inv s" "i < length (ds_prods s)" "ds_prods s ! i = DIdle"
  shows "dsys_inv (s\<lparr>ds_prods := (ds_prods s)[i := prod_start items (ds_q s)]\<rparr>)"
proof -
  have "owed (prod_start items (ds_q s)) = 0" "owed (ds_prods s ! i) = 0" "\<not> notifies (ds_prods s ! i)"
    using assms(3) by (simp_all add: prod_start_def owed_def notifies_def)
  then have "owed_all ((ds_prods s)[i := prod_start items (ds_q s)]) = owed_all (ds_prods s)"
    "some_notifies (ds_prods s) \<Longrightarrow> some_notifies ((ds_prods s)[i := prod_start items (ds_q s)])"
    using assms(2) by (auto simp: owed_put intro: notifies_put)
  then show ?thesis using dsys_invD[OF assms(1)] noticed_more[OF dsys_invD(6)[OF assms(1)]] by (simp add: dsys_inv_def)
qed

lemma lock_inv:
  assumes "dsys_inv s" "i < length (ds_prods s)" "ds_prods s ! i = DLock items" "\<forall>c n. n \<le> grow c n"
    "prod_step grow (DLock items) (ds_q s) = (p', q')"
  shows "dsys_inv (s\<lparr>ds_q := q', ds_prods := (ds_prods s)[i := p'], ds_in := ds_in s @ accepts (ds_prods s ! i) p'\<rparr>)"
proof -
  obtain ok notify q1 where e: "enqueue_locked grow items (ds_q s) = ((ok, notify), q1)" by (metis prod.collapse)
  have p: "q' = q1" "p' = (if ok then DAdd (length items) notify else DIdle)" using assms(5) e by auto
  note I = dsys_invD[OF assms(1)]
  have f: "buffers_ok q1" "quota_ok q1" "contents_of q1 (dq_write q1) = contents_of (ds_q s) (dq_write (ds_q s)) @ (if ok then items else [])"
    "sl_len (dq_write q1) = sl_len (dq_write (ds_q s)) + (if ok then length items else 0)" "dq_outstanding q1 = dq_outstanding (ds_q s)"
    "dq_count q1 = dq_count (ds_q s)" "dq_maxCap q1 = dq_maxCap (ds_q s)" "dq_isNotify q1 = dq_isNotify (ds_q s)" "dq_signal q1 = dq_signal (ds_q s)"
    "dq_closed q1 = dq_closed (ds_q s)" "ok \<Longrightarrow> \<not> dq_closed (ds_q s) \<and> notify = dq_isNotify (ds_q s)"
    and r: "dq_read q1 = dq_read (ds_q s)" "\<forall>b. sl_arr b = sl_arr (dq_read (ds_q s)) \<longrightarrow> contents_of q1 b = contents_of (ds_q s) b"
    using enqueue_locked_facts[OF I(1,2) e assms(4)] by blast+
  have o: "owed p' = (if ok then length items else 0)" "owed (ds_prods s ! i) = 0" "\<not> notifies (ds_prods s ! i)"
    "accepts (ds_prods s ! i) p' = (if ok then items else [])"
    unfolding p(2) assms(3) by (cases ok; simp add: owed_def notifies_def accepts_def)+
  have "batch_ok q' (ds_batch s)" unfolding p(1) by (rule batch_ok_keep[OF I(4) r])
  moreover have "counted q' (owed_all ((ds_prods s)[i := p'])) (ds_take s)" if "dq_maxCap q' \<ge> 0"
    using that I(5) by (simp add: f counted_def p(1) owed_put[OF assms(2)] o(1,2) algebra_simps)
  moreover have "noticed q' (ds_woken s) (some_notifies ((ds_prods s)[i := p']))"
  proof (cases "ok \<and> dq_isNotify (ds_q s)")
    case True
    then have "some_notifies ((ds_prods s)[i := p'])" using f(11) by (intro notifies_new[OF assms(2)]) (simp add: p notifies_def)
    then show ?thesis using True f(10,11) by (simp add: noticed_def p(1))
  next
    case False
    then have "noticed q' (ds_woken s) (some_notifies (ds_prods s))" using I(6) by (auto simp: noticed_def p(1) f(4,8-10))
    then show ?thesis using notifies_put[OF _ assms(2)] o(3) noticed_more by blast
  qed
  ultimately show ?thesis using f(1,2) I(3) by (simp add: dsys_inv_def p(1) o(4) f(3))
qed

text \<open>The steps of a producer after the lock only touch the counter and the signal.\<close>

definition same_buffers :: "'a dqueue \<Rightarrow> 'a dqueue \<Rightarrow> bool" where
  "same_buffers q q' \<longleftrightarrow> q' = q\<lparr>dq_count := dq_count q', dq_signal := dq_signal q'\<rparr>"

lemma same_buffers_keep:
  assumes "same_buffers q q'"
  shows "buffers_ok q' = buffers_ok q" "quota_ok q' = quota_ok q" "contents_of q' b = contents_of q b" "dq_write q' = dq_write q"
    "batch_ok q' batch = batch_ok q batch" "dq_maxCap q' = dq_maxCap q" "dq_isNotify q' = dq_isNotify q" "dq_closed q' = dq_closed q"
    "dq_outstanding q' = dq_outstanding q"
proof -
  obtain c b where q': "q' = q\<lparr>dq_count := c, dq_signal := b\<rparr>" using assms unfolding same_buffers_def by blast
  show "buffers_ok q' = buffers_ok q" "quota_ok q' = quota_ok q" "contents_of q' b' = contents_of q b'" "dq_write q' = dq_write q"
    "batch_ok q' batch = batch_ok q batch" "dq_maxCap q' = dq_maxCap q" "dq_isNotify q' = dq_isNotify q" "dq_closed q' = dq_closed q"
    "dq_outstanding q' = dq_outstanding q" for b'
    by (simp_all add: q' buffers_ok_def slice_ok_def quota_ok_def contents_of_def batch_ok_def)
qed

lemma later_inv:
  assumes "dsys_inv s" "i < length (ds_prods s)" "\<And>items. ds_prods s ! i \<noteq> DLock items" "prod_step grow (ds_prods s ! i) (ds_q s) = (p', q')"
  shows "dsys_inv (s\<lparr>ds_q := q', ds_prods := (ds_prods s)[i := p'], ds_in := ds_in s @ accepts (ds_prods s ! i) p'\<rparr>)"
proof -
  note I = dsys_invD[OF assms(1)]
  have k: "same_buffers (ds_q s) q'" using assms(3,4)
    by (cases "ds_prods s ! i") (auto simp: same_buffers_def)
  have a: "accepts (ds_prods s ! i) p' = []" using assms(3,4) by (cases "ds_prods s ! i") (auto simp: accepts_def)
  have c: "dq_count q' - of_nat (owed (ds_prods s ! i)) + of_nat (owed p') = dq_count (ds_q s)"
    using assms(3,4) by (cases "ds_prods s ! i") (auto simp: owed_def split: if_splits)
  have n: "(dq_signal q' \<longleftrightarrow> dq_signal (ds_q s)) \<and> (notifies (ds_prods s ! i) \<longrightarrow> notifies p' \<or> dq_closed (ds_q s)) \<or> dq_signal q'"
    using assms(3,4) by (cases "ds_prods s ! i") (auto simp: notifies_def split: if_splits)
  have "counted q' (owed_all ((ds_prods s)[i := p'])) (ds_take s)" if "dq_maxCap q' \<ge> 0"
  proof -
    have "dq_count (ds_q s) + owed_all (ds_prods s) = dq_count q' + owed_all ((ds_prods s)[i := p'])"
      unfolding owed_put[OF assms(2)] c[symmetric] by simp
    then show ?thesis using I(5) that by (simp add: counted_def same_buffers_keep[OF k])
  qed
  moreover have "noticed q' (ds_woken s) (some_notifies ((ds_prods s)[i := p']))"
  proof (cases "dq_signal q' \<or> dq_closed (ds_q s)")
    case True
    then show ?thesis using n I(6) by (auto simp: noticed_def same_buffers_keep[OF k])
  next
    case False
    then have "noticed q' (ds_woken s) (some_notifies (ds_prods s))" using n I(6) by (auto simp: noticed_def same_buffers_keep[OF k])
    then show ?thesis using notifies_put[OF _ assms(2)] n False noticed_more by blast
  qed
  ultimately show ?thesis using I(1-4) by (simp add: dsys_inv_def a same_buffers_keep[OF k])
qed

lemma pop_inv:
  assumes "dsys_inv s" "ds_take s = 0"
  shows "dsys_inv (consumer_pop s)"
proof (cases "sl_len (dq_write (ds_q s)) = 0")
  case True
  then have "noticed (ds_q s) False (some_notifies (ds_prods s))" by (simp add: noticed_def)
  then show ?thesis using dsys_invD[OF assms(1)] True by (simp add: consumer_pop_def Let_def pop_locked_empty dsys_inv_def)
next
  case False
  note I = dsys_invD[OF assms(1)]
  obtain b q' where p: "pop_locked (ds_q s) = ((Some b, True), q')" "buffers_ok q'" "quota_ok q'" "contents_of q' b = contents_of (ds_q s) (dq_write (ds_q s))"
    "sl_len b = sl_len (dq_write (ds_q s))" "sl_arr b = sl_arr (dq_read q')" "sl_len (dq_write q') = 0"
    "dq_outstanding q' = dq_outstanding (ds_q s) + (if dq_maxCap (ds_q s) > 0 then sl_len b else 0)" "dq_count q' = dq_count (ds_q s)" "dq_maxCap q' = dq_maxCap (ds_q s)"
    by (rule pop_locked_facts[OF I(1,2) False]) blast
  have "contents_of q' (dq_write q') = []" using p(7) by (simp add: contents_of_def)
  moreover have "counted q' (owed_all (ds_prods s)) (if dq_maxCap (ds_q s) = 0 then sl_len b else 0)" if "dq_maxCap q' \<ge> 0"
    using that I(5) by (auto simp: counted_def p(5,7-10) assms(2))
  moreover have "batch_ok q' (Some (b, contents_of q' b))" using p(6) by (simp add: batch_ok_def)
  moreover have "noticed q' False (some_notifies (ds_prods s))" using p(7) by (simp add: noticed_def)
  ultimately show ?thesis using I(3) p(2-4) by (simp add: consumer_pop_def p(1) dsys_inv_def assms(2) Let_def)
qed

lemma frame:
  "buffers_ok (q\<lparr>dq_signal := b\<rparr>) = buffers_ok q" "buffers_ok (q\<lparr>dq_closed := b\<rparr>) = buffers_ok q"
  "buffers_ok (q\<lparr>dq_count := c\<rparr>) = buffers_ok q" "buffers_ok (q\<lparr>dq_outstanding := n\<rparr>) = buffers_ok q"
  "contents_of (q\<lparr>dq_signal := b\<rparr>) x = contents_of q x" "contents_of (q\<lparr>dq_closed := b\<rparr>) x = contents_of q x"
  "contents_of (q\<lparr>dq_count := c\<rparr>) x = contents_of q x" "contents_of (q\<lparr>dq_outstanding := n\<rparr>) x = contents_of q x"
  "batch_ok (q\<lparr>dq_signal := b\<rparr>) y = batch_ok q y" "batch_ok (q\<lparr>dq_closed := b\<rparr>) y = batch_ok q y"
  "batch_ok (q\<lparr>dq_count := c\<rparr>) y = batch_ok q y" "batch_ok (q\<lparr>dq_outstanding := n\<rparr>) y = batch_ok q y"
  "quota_ok (q\<lparr>dq_signal := b\<rparr>) = quota_ok q" "quota_ok (q\<lparr>dq_closed := b\<rparr>) = quota_ok q" "quota_ok (q\<lparr>dq_count := c\<rparr>) = quota_ok q"
  "counted (q\<lparr>dq_signal := b\<rparr>) k m = counted q k m" "counted (q\<lparr>dq_closed := b\<rparr>) k m = counted q k m"
  "quota_ok q \<Longrightarrow> quota_ok (q\<lparr>dq_outstanding := 0\<rparr>)"
  by (simp_all add: buffers_ok_def slice_ok_def quota_ok_def contents_of_def batch_ok_def counted_def split: if_splits)

lemma wake_inv: "dsys_inv s \<Longrightarrow> dsys_inv (s\<lparr>ds_q := (ds_q s)\<lparr>dq_signal := False\<rparr>, ds_woken := True\<rparr>)"
  by (simp add: dsys_inv_def frame) (simp add: noticed_def)

lemma release_inv: "dsys_inv s \<Longrightarrow> ds_take s = 0 \<Longrightarrow> ReleaseBatch (ds_q s) = (n, q') \<Longrightarrow> dsys_inv (s\<lparr>ds_q := q', ds_take := n\<rparr>)"
  by (auto simp: dsys_inv_def ReleaseBatch_def frame) (simp_all add: noticed_def counted_def)

lemma taken_inv: "dsys_inv s \<Longrightarrow> dsys_inv (s\<lparr>ds_q := (ds_q s)\<lparr>dq_count := dq_count (ds_q s) - of_nat (ds_take s)\<rparr>, ds_take := 0\<rparr>)"
  by (simp add: dsys_inv_def frame) (simp add: noticed_def counted_def algebra_simps)

lemma close_inv: "dsys_inv s \<Longrightarrow> dsys_inv (s\<lparr>ds_q := CloseD (ds_q s)\<rparr>)"
  by (simp add: dsys_inv_def CloseD_def Let_def frame) (simp add: noticed_def)

lemma dq_step_inv:
  assumes "dq_step grow s s'" "dsys_inv s" "\<forall>c n. n \<le> grow c n"
  shows "dsys_inv s'"
  using assms(1)
proof cases
  case (call i items)
  then show ?thesis using call_inv[OF assms(2)] by simp
next
  case (produce i p' q')
  show ?thesis
  proof (cases "\<exists>items. ds_prods s ! i = DLock items")
    case True
    then show ?thesis using lock_inv[OF assms(2) produce(2) _ assms(3)] produce by metis
  next
    case False
    then show ?thesis using later_inv[OF assms(2) produce(2) _ produce(3)] produce(1) by simp
  qed
next
  case wake
  then show ?thesis using wake_inv[OF assms(2)] by simp
next
  case pop
  then show ?thesis using pop_inv[OF assms(2)] by simp
next
  case (release n q')
  then show ?thesis using release_inv[OF assms(2)] by simp
next
  case taken
  then show ?thesis using taken_inv[OF assms(2)] by simp
next
  case close
  then show ?thesis using close_inv[OF assms(2)] by simp
qed

text \<open>The limit and the kind of the queue never change.\<close>

definition same_setup :: "'a dqueue \<Rightarrow> 'a dqueue \<Rightarrow> bool" where
  "same_setup q q' \<longleftrightarrow> dq_maxCap q' = dq_maxCap q \<and> dq_isNotify q' = dq_isNotify q"

lemma pop_setup: "same_setup q (snd (pop_locked q))"
  by (simp add: pop_locked_def same_setup_def renew_read_def renew_write_def swap_buffers_def make_slice_def Let_def)

lemma prod_setup: "same_setup q (snd (prod_step grow p q))"
  by (cases p) (simp_all add: same_setup_def enqueue_locked_def append_slice_def Let_def)

lemma dq_step_setup: "dq_step grow s s' \<Longrightarrow> same_setup (ds_q s) (ds_q s')"
proof (induction rule: dq_step.induct)
  case (produce i s p' q')
  then show ?case using prod_setup[of "ds_q s" grow "ds_prods s ! i"] by simp
next
  case (pop s)
  then show ?case using pop_setup[of "ds_q s"] 
    by (cases "pop_locked (ds_q s)"; cases "fst (fst (pop_locked (ds_q s)))") (auto simp: consumer_pop_def Let_def split: prod.split)
qed (auto simp: same_setup_def ReleaseBatch_def CloseD_def Let_def)

lemma dsys_inv_start: "dsys_inv (dsys_start (NewSmartDoubleQueue initCap maxCap isNotify :: 'a::zero dqueue) n)"
proof -
  have "owed_all (replicate n (DIdle :: 'a dprod)) = 0" unfolding owed_all_def by (induction n) (simp_all add: owed_def)
  then show ?thesis
    by (simp add: dsys_inv_def dsys_start_def NewSmartDoubleQueue_def Let_def buffers_ok_def slice_ok_def quota_ok_def contents_of_def batch_ok_def
        counted_def noticed_def)
qed

lemma dq_reach_inv:
  assumes "dq_reach grow s0 s" "dsys_inv s0" "\<forall>c n. n \<le> grow c n"
  shows "dsys_inv s \<and> same_setup (ds_q s0) (ds_q s)"
  using assms(1)
proof induction
  case start
  then show ?case using assms(2) by (simp add: same_setup_def)
next
  case (step s s')
  then show ?case using dq_step_inv[OF step(2) _ assms(3)] dq_step_setup[OF step(2)] by (simp add: same_setup_def)
qed

definition all_idle :: "'a dsys \<Rightarrow> bool" where
  "all_idle s \<longleftrightarrow> (\<forall>p\<in>set (ds_prods s). p = DIdle) \<and> ds_take s = 0"

lemma idle_facts: "all_idle s \<Longrightarrow> owed_all (ds_prods s) = 0 \<and> \<not> some_notifies (ds_prods s)"
proof -
  assume a: "all_idle s"
  have "sum_list (map owed ps) = 0" if "\<forall>p\<in>set ps. p = DIdle" for ps :: "'a dprod list"
    using that by (induction ps) (auto simp: owed_def)
  from this[of "ds_prods s"] have "owed_all (ds_prods s) = 0" using a by (simp add: all_idle_def owed_all_def del: sum_list_eq_0_iff)
  then show ?thesis using a by (auto simp: all_idle_def some_notifies_def notifies_def)
qed

text \<open>
  C37: The double-buffered queue, under every interleaving of any number of producers with the consumer, \<open>ReleaseBatch\<close> and
  \<open>Close\<close>. What \<open>Pop\<close> handed out and the write buffer together are exactly the accepted items, in the order in which they got
  through the lock. The batch of the last successful \<open>Pop\<close> still holds what it held, although the queue shares its array. With a
  limit, the buffered items and the batches not yet released never exceed it. When no call is in flight, \<open>Len\<close> is their exact
  number; and no wake-up is lost: with notification on, a queue that holds items has a signal in its channel, or the consumer has
  received one and not called \<open>Pop\<close> since.
\<close>
theorem double_queue_correct:
  assumes "\<forall>c n. n \<le> grow c n" "dq_reach grow (dsys_start (NewSmartDoubleQueue initCap maxCap isNotify) n) s" "0 \<le> maxCap"
  shows "ds_in s = ds_out s @ contents_of (ds_q s) (dq_write (ds_q s))
    \<and> (\<forall>b c. ds_batch s = Some (b, c) \<longrightarrow> contents_of (ds_q s) b = c)
    \<and> (0 < maxCap \<longrightarrow> int (sl_len (dq_write (ds_q s)) + dq_outstanding (ds_q s)) \<le> maxCap)
    \<and> (all_idle s \<longrightarrow> LenD (ds_q s) = of_nat (sl_len (dq_write (ds_q s)) + dq_outstanding (ds_q s))
         \<and> (isNotify \<and> sl_len (dq_write (ds_q s)) \<noteq> 0 \<longrightarrow> dq_signal (ds_q s) \<or> ds_woken s))"
proof -
  have r: "dsys_inv s" "same_setup (NewSmartDoubleQueue initCap maxCap isNotify :: 'a dqueue) (ds_q s)"
    using dq_reach_inv[OF assms(2) dsys_inv_start assms(1)] by (simp_all add: dsys_start_def)
  then have k: "dq_maxCap (ds_q s) = maxCap" "dq_isNotify (ds_q s) = isNotify"
    by (simp_all add: same_setup_def NewSmartDoubleQueue_def Let_def)
  note I = dsys_invD[OF r(1)]
  have "LenD (ds_q s) = of_nat (sl_len (dq_write (ds_q s)) + dq_outstanding (ds_q s))
         \<and> (isNotify \<and> sl_len (dq_write (ds_q s)) \<noteq> 0 \<longrightarrow> dq_signal (ds_q s) \<or> ds_woken s)" if "all_idle s"
    using I(5,6) assms(3) idle_facts[OF that] that by (auto simp: k counted_def noticed_def LenD_def all_idle_def)
  moreover have "0 < maxCap \<longrightarrow> int (sl_len (dq_write (ds_q s)) + dq_outstanding (ds_q s)) \<le> maxCap" using I(2) by (simp add: quota_ok_def k(1) split: if_splits)
  ultimately show ?thesis using I(3,4) unfolding batch_ok_def by blast
qed

text \<open>A run: a batch of two goes through \<open>Enqueue\<close>, the consumer is woken and pops it, and one more item is enqueued.\<close>

definition produced :: "(nat \<Rightarrow> nat \<Rightarrow> nat) \<Rightarrow> 'a::zero dsys \<Rightarrow> 'a dsys" where
  "produced grow s = (case prod_step grow (ds_prods s ! 0) (ds_q s) of (p', q') \<Rightarrow>
     s\<lparr>ds_q := q', ds_prods := (ds_prods s)[0 := p'], ds_in := ds_in s @ accepts (ds_prods s ! 0) p'\<rparr>)"

definition called :: "'a list \<Rightarrow> 'a::zero dsys \<Rightarrow> 'a dsys" where
  "called items s = s\<lparr>ds_prods := (ds_prods s)[0 := prod_start items (ds_q s)]\<rparr>"

definition woken :: "'a dsys \<Rightarrow> 'a dsys" where
  "woken s = s\<lparr>ds_q := (ds_q s)\<lparr>dq_signal := False\<rparr>, ds_woken := True\<rparr>"

lemma dq_runs:
  "dq_reach grow s0 s \<Longrightarrow> 0 < length (ds_prods s) \<Longrightarrow> dq_reach grow s0 (produced grow s)"
  "dq_reach grow s0 s \<Longrightarrow> 0 < length (ds_prods s) \<Longrightarrow> ds_prods s ! 0 = DIdle \<Longrightarrow> dq_reach grow s0 (called items s)"
  "dq_reach grow s0 s \<Longrightarrow> dq_signal (ds_q s) \<Longrightarrow> ds_take s = 0 \<Longrightarrow> dq_reach grow s0 (woken s)"
  "dq_reach grow s0 s \<Longrightarrow> ds_take s = 0 \<Longrightarrow> dq_reach grow s0 (consumer_pop s)"
  by (auto simp: produced_def called_def woken_def intro: dq_reach.step dq_step.intros split: prod.split)

definition sample_run :: "nat dsys" where
  "sample_run =
     (let g = (\<lambda>c n. c + n); s = called [5, 6] (dsys_start (NewSmartDoubleQueue 0 3 True) 1);
          s = consumer_pop (woken (produced g (produced g (produced g (produced g s)))))
      in produced g (produced g (produced g (produced g (called [7] s)))))"

theorem double_queue_correct_witness:
  "ds_in sample_run = [5, 6] @ contents_of (ds_q sample_run) (dq_write (ds_q sample_run)) \<and> LenD (ds_q sample_run) = 3 \<and> dq_signal (ds_q sample_run)"
proof -
  have r: "dq_reach (\<lambda>c n. c + n) (dsys_start (NewSmartDoubleQueue 0 3 True) 1) sample_run"
    unfolding sample_run_def Let_def by (intro dq_runs dq_reach.start) code_simp+
  have e: "all_idle sample_run" "ds_out sample_run = [5, 6]" "sl_len (dq_write (ds_q sample_run)) = 1" "dq_outstanding (ds_q sample_run) = 2"
    "\<not> ds_woken sample_run" by code_simp+
  from double_queue_correct[OF _ r] e show ?thesis by simp
qed

end
