(* ===== verification/Priority_Queue.thy ===== *)
theory Priority_Queue
  imports Base_Prelude "HOL-Library.Multiset"
begin

text \<open>
  The priority queue of \<^verbatim>\<open>zqueue/priority.go\<close>: a binary max-heap in a slice. The locale
  \<open>max_queue\<close> is what a user of a priority queue relies on; the heap is an interpretation.
\<close>

section \<open>The interface\<close>

locale max_queue =
  fixes enq :: "'q \<Rightarrow> 'a \<Rightarrow> int \<Rightarrow> 'q" and deq :: "'q \<Rightarrow> ('a \<times> bool) \<times> 'q"
    and contents :: "'q \<Rightarrow> ('a \<times> int) multiset" and inv :: "'q \<Rightarrow> bool"
  assumes enq_inv: "inv q \<Longrightarrow> inv (enq q v p)"
    and enq_contents: "inv q \<Longrightarrow> contents (enq q v p) = contents q + {#(v, p)#}"
    and deq_empty: "inv q \<Longrightarrow> contents q = {#} \<Longrightarrow> snd (fst (deq q)) = False \<and> snd (deq q) = q"
    and deq_max: "inv q \<Longrightarrow> contents q \<noteq> {#} \<Longrightarrow>
      \<exists>v p q'. deq q = ((v, True), q') \<and> (v, p) \<in># contents q \<and> (\<forall>x \<in># contents q. snd x \<le> p)
        \<and> contents q' = contents q - {#(v, p)#} \<and> inv q'"
begin

text \<open>Taking elements out \<open>n\<close> times.\<close>

fun deq_many :: "nat \<Rightarrow> 'q \<Rightarrow> 'a list \<times> 'q" where
  "deq_many 0 q = ([], q)"
| "deq_many (Suc n) q = (case deq q of ((v, True), q') \<Rightarrow> let (vs, q'') = deq_many n q' in (v # vs, q'') | (_, q') \<Rightarrow> ([], q'))"

lemma deq_many_sorted:
  assumes "inv q" "n \<le> size (contents q)"
  shows "\<exists>xs q'. deq_many n q = (map fst xs, q') \<and> contents q = mset xs + contents q' \<and> inv q' \<and> length xs = n
    \<and> sorted_wrt (\<lambda>x y. snd x \<ge> snd y) xs \<and> (\<forall>x\<in>set xs. \<forall>y\<in>#contents q'. snd y \<le> snd x)"
  using assms
proof (induction n arbitrary: q)
  case 0
  then show ?case by auto
next
  case (Suc n)
  then have "contents q \<noteq> {#}" by auto
  then obtain v p q1 where d: "deq q = ((v, True), q1)" "(v, p) \<in># contents q" "\<forall>x \<in># contents q. snd x \<le> p"
    "contents q1 = contents q - {#(v, p)#}" "inv q1" using deq_max[OF Suc.prems(1)] by blast
  have c: "contents q = add_mset (v, p) (contents q1)" using d(2,4) by simp
  then have "n \<le> size (contents q1)" using Suc.prems(2) by simp
  from Suc.IH[OF d(5) this] obtain xs q' where r: "deq_many n q1 = (map fst xs, q')" "contents q1 = mset xs + contents q'" "inv q'"
    "length xs = n" "sorted_wrt (\<lambda>x y. snd x \<ge> snd y) xs" "\<forall>x\<in>set xs. \<forall>y\<in>#contents q'. snd y \<le> snd x" by blast
  have "\<forall>x\<in>set xs. snd x \<le> p" "\<forall>y\<in>#contents q'. snd y \<le> p" using d(3) c r(2) by auto
  then show ?case using d(1) r c by (intro exI[of _ "(v, p) # xs"] exI[of _ q']) auto
qed

end

section \<open>The heap\<close>

type_synonym 'a pqueue = "('a \<times> int) list"

definition swap_at :: "nat \<Rightarrow> nat \<Rightarrow> 'a list \<Rightarrow> 'a list" where
  "swap_at i j xs = xs[i := xs ! j, j := xs ! i]"

function pq_up :: "nat \<Rightarrow> 'a pqueue \<Rightarrow> 'a pqueue" where
  "pq_up j xs =
     (if j > 0 then
        (let i = (j - 1) div 2
         in if snd (xs ! j) \<le> snd (xs ! i) then xs else pq_up i (swap_at i j xs))
      else xs)"
  by auto
termination by (relation "measure fst") auto

function pq_down :: "nat \<Rightarrow> nat \<Rightarrow> 'a pqueue \<Rightarrow> 'a pqueue" where
  "pq_down i n xs =
     (let j1 = 2 * i + 1
      in if j1 \<ge> n then xs
         else let j2 = j1 + 1; j = (if j2 < n \<and> snd (xs ! j2) > snd (xs ! j1) then j2 else j1)
         in if snd (xs ! j) \<le> snd (xs ! i) then xs else pq_down j n (swap_at i j xs))"
  by auto
termination by (relation "measure (\<lambda>(i, n, xs). n - i)") (auto simp: Let_def split: if_splits)

declare pq_up.simps [simp del] pq_down.simps [simp del]

definition pq_Enqueue :: "'a pqueue \<Rightarrow> 'a \<Rightarrow> int \<Rightarrow> 'a pqueue" where
  "pq_Enqueue q v priority = (let items = q @ [(v, priority)] in pq_up (length items - 1) items)"

definition pq_Dequeue :: "'a::zero pqueue \<Rightarrow> ('a \<times> bool) \<times> 'a pqueue" where
  "pq_Dequeue q =
     (let n = length q
      in if n = 0 then ((0, False), q)
         else let res = fst (q ! 0); items = take (n - 1) (q[0 := q ! (n - 1)])
              in ((res, True), pq_down 0 (n - 1) items))"

definition pq_Len :: "'a pqueue \<Rightarrow> nat" where "pq_Len q = length q"

section \<open>Heap order\<close>

definition parent :: "nat \<Rightarrow> nat" where "parent k = (k - 1) div 2"

definition heap_ok :: "'a pqueue \<Rightarrow> bool" where
  "heap_ok xs \<longleftrightarrow> (\<forall>k. 0 < k \<and> k < length xs \<longrightarrow> snd (xs ! k) \<le> snd (xs ! parent k))"

text \<open>The order holds but for the edge above \<open>j\<close>, or but for the edges below \<open>i\<close>.\<close>

definition heap_above :: "nat \<Rightarrow> 'a pqueue \<Rightarrow> bool" where
  "heap_above j xs \<longleftrightarrow> (\<forall>k. 0 < k \<and> k < length xs \<and> k \<noteq> j \<longrightarrow> snd (xs ! k) \<le> snd (xs ! parent k))
     \<and> (\<forall>k. 0 < k \<and> k < length xs \<and> parent k = j \<and> 0 < j \<longrightarrow> snd (xs ! k) \<le> snd (xs ! parent j))"

definition heap_below :: "nat \<Rightarrow> 'a pqueue \<Rightarrow> bool" where
  "heap_below i xs \<longleftrightarrow> (\<forall>k. 0 < k \<and> k < length xs \<and> parent k \<noteq> i \<longrightarrow> snd (xs ! k) \<le> snd (xs ! parent k))
     \<and> (\<forall>k. 0 < k \<and> k < length xs \<and> parent k = i \<and> 0 < i \<longrightarrow> snd (xs ! k) \<le> snd (xs ! parent i))"

lemma parent_less: "0 < k \<Longrightarrow> parent k < k" by (simp add: parent_def)

lemma parent_eq: "0 < k \<Longrightarrow> parent k = i \<longleftrightarrow> k = 2 * i + 1 \<or> k = 2 * i + 2" by (auto simp: parent_def)

lemma length_swap_at [simp]: "length (swap_at i j xs) = length xs" by (simp add: swap_at_def)

lemma nth_swap_at: "i < length xs \<Longrightarrow> j < length xs \<Longrightarrow> swap_at i j xs ! k = (if k = j then xs ! i else if k = i then xs ! j else xs ! k)"
  by (simp add: swap_at_def nth_list_update)

lemma mset_swap_at: "i < length xs \<Longrightarrow> j < length xs \<Longrightarrow> mset (swap_at i j xs) = mset xs"
  using mset_swap[of j xs i] by (simp add: swap_at_def list_update_swap)

lemma pq_up_facts:
  assumes "j < length xs" "heap_above j xs"
  shows "heap_ok (pq_up j xs) \<and> mset (pq_up j xs) = mset xs"
  using assms
proof (induction j xs rule: pq_up.induct)
  case (1 j xs)
  show ?case
  proof (cases "j > 0")
    case False
    then show ?thesis using 1(3) by (subst (1 2) pq_up.simps) (auto simp: heap_above_def heap_ok_def)
  next
    case j: True
    show ?thesis
    proof (cases "snd (xs ! j) \<le> snd (xs ! parent j)")
      case True
      then have "heap_ok xs" using 1(3) by (auto simp: heap_above_def heap_ok_def)
      then show ?thesis using j True by (subst (1 2) pq_up.simps) (simp add: parent_def Let_def)
    next
      case False
      let ?i = "parent j" and ?ys = "swap_at (parent j) j xs"
      have il: "?i < length xs" "?i \<noteq> j" "?i < j" using parent_less[OF j] 1(2) by auto
      note n = nth_swap_at[OF il(1) 1(2)]
      have "heap_above ?i ?ys"
        unfolding heap_above_def
      proof (intro conjI allI impI)
        fix k assume k: "0 < k \<and> k < length ?ys \<and> k \<noteq> ?i"
        have pk: "parent k < k" using parent_less k by blast
        show "snd (?ys ! k) \<le> snd (?ys ! parent k)"
        proof (cases "k = j")
          case True
          then show ?thesis using False n il by auto
        next
          case kj: False
          have a: "snd (xs ! k) \<le> snd (xs ! parent k)" using 1(3) k kj by (simp add: heap_above_def)
          show ?thesis
          proof (cases "parent k = j")
            case True
            then have "snd (xs ! k) \<le> snd (xs ! ?i)" using 1(3) k j by (simp add: heap_above_def)
            then show ?thesis using True kj k n by auto
          next
            case pj: False
            show ?thesis using a kj k pj False n by auto
          qed
        qed
      next
        fix k assume k: "0 < k \<and> k < length ?ys \<and> parent k = ?i \<and> 0 < ?i"
        have up: "snd (xs ! ?i) \<le> snd (xs ! parent ?i)" using 1(3) k il by (simp add: heap_above_def)
        have ki: "k \<noteq> ?i" "parent ?i \<noteq> j" "parent ?i \<noteq> ?i" using parent_less[of k] parent_less[of ?i] k il by auto
        show "snd (?ys ! k) \<le> snd (?ys ! parent ?i)"
        proof (cases "k = j")
          case True
          then show ?thesis using up ki n by auto
        next
          case False
          then have "snd (xs ! k) \<le> snd (xs ! parent k)" using 1(3) k unfolding heap_above_def by auto
          then have "snd (xs ! k) \<le> snd (xs ! ?i)" using k by simp
          then show ?thesis using up ki False n by auto
        qed
      qed
      then have "heap_ok (pq_up ?i ?ys) \<and> mset (pq_up ?i ?ys) = mset ?ys"
        using 1(1)[OF j refl] False il by (simp add: parent_def)
      moreover have "pq_up j xs = pq_up ?i ?ys" using j False by (subst pq_up.simps) (simp add: parent_def Let_def)
      ultimately show ?thesis using mset_swap_at[OF il(1) 1(2)] by simp
    qed
  qed
qed

lemma pq_down_facts:
  assumes "n = length xs" "heap_below i xs"
  shows "heap_ok (pq_down i n xs) \<and> mset (pq_down i n xs) = mset xs"
  using assms
proof (induction i n xs rule: pq_down.induct)
  case (1 i n xs)
  let ?j1 = "2 * i + 1" and ?j2 = "2 * i + 1 + 1"
  have edge: "heap_ok xs" if "\<forall>k. 0 < k \<and> k < length xs \<and> parent k = i \<longrightarrow> snd (xs ! k) \<le> snd (xs ! i)"
    using 1(3) that by (auto simp: heap_below_def heap_ok_def)
  show ?case
  proof (cases "?j1 \<ge> n")
    case True
    have "\<not> (0 < k \<and> k < length xs \<and> parent k = i)" for k
      using True 1(2) parent_eq[of k i] by auto
    then have "heap_ok xs" by (intro edge) blast
    then show ?thesis using True by (subst (1 2) pq_down.simps) simp
  next
    case False
    define j where "j = (if ?j2 < n \<and> snd (xs ! ?j2) > snd (xs ! ?j1) then ?j2 else ?j1)"
    have j: "j < length xs" "parent j = i" "0 < j" "i < length xs" "i < j" using False 1(2) by (auto simp: j_def parent_def)
    have jmax: "snd (xs ! k) \<le> snd (xs ! j)" if "0 < k" "k < length xs" "parent k = i" for k
      using that 1(2) by (auto simp: j_def parent_eq)
    have e: "pq_down i n xs = (if snd (xs ! j) \<le> snd (xs ! i) then xs else pq_down j n (swap_at i j xs))"
      using False by (subst pq_down.simps) (simp add: j_def Let_def)
    show ?thesis
    proof (cases "snd (xs ! j) \<le> snd (xs ! i)")
      case True
      have "heap_ok xs"
      proof (rule edge, intro allI impI)
        fix k assume "0 < k \<and> k < length xs \<and> parent k = i"
        then have "snd (xs ! k) \<le> snd (xs ! j)" using jmax by simp
        then show "snd (xs ! k) \<le> snd (xs ! i)" using True by linarith
      qed
      then show ?thesis using e True by simp
    next
      case gt: False
      let ?ys = "swap_at i j xs"
      note nth = nth_swap_at[OF j(4,1)]
      have "heap_below j ?ys"
        unfolding heap_below_def
      proof (intro conjI allI impI)
        fix k assume k: "0 < k \<and> k < length ?ys \<and> parent k \<noteq> j"
        have pk: "parent k < k" using parent_less k by blast
        show "snd (?ys ! k) \<le> snd (?ys ! parent k)"
        proof (cases "parent k = i")
          case True
          then show ?thesis using jmax[of k] k gt nth pk by auto
        next
          case False
          have a: "snd (xs ! k) \<le> snd (xs ! parent k)" using 1(3) k False by (simp add: heap_below_def)
          show ?thesis
          proof (cases "k = i")
            case True
            have "0 < i" using k True by simp
            then have "snd (xs ! j) \<le> snd (xs ! parent i)" using 1(3) j by (simp add: heap_below_def)
            then show ?thesis using True k False nth j by auto
          next
            case ki: False
            have "k \<noteq> j" using False j(2) by auto
            then show ?thesis using a ki False k nth by auto
          qed
        qed
      next
        fix k assume k: "0 < k \<and> k < length ?ys \<and> parent k = j \<and> 0 < j"
        have "parent k < k" using parent_less k by blast
        have "parent k \<noteq> i" using k j(5) by auto
        moreover have "0 < k \<and> k < length xs" "parent k = j" using k by auto
        ultimately have "snd (xs ! k) \<le> snd (xs ! j)" using 1(3) unfolding heap_below_def by metis
        moreover have "k \<noteq> i" "k \<noteq> j" using \<open>parent k < k\<close> k j by auto
        ultimately show "snd (?ys ! k) \<le> snd (?ys ! parent j)" using nth j by auto
      qed
      then have "heap_ok (pq_down j n ?ys) \<and> mset (pq_down j n ?ys) = mset ?ys"
        using 1(1)[OF refl False refl j_def gt] 1(2) by simp
      then show ?thesis using e gt mset_swap_at[OF j(4,1)] by simp
    qed
  qed
qed

lemma heap_max: "heap_ok xs \<Longrightarrow> k < length xs \<Longrightarrow> snd (xs ! k) \<le> snd (xs ! 0)"
proof (induction k rule: less_induct)
  case (less k)
  show ?case
  proof (cases "k = 0")
    case False
    then have "parent k < k" using parent_less by simp
    then show ?thesis using less False unfolding heap_ok_def by (meson order_less_trans order_trans not_gr_zero)
  qed simp
qed

lemma pq_Enqueue_facts:
  assumes "heap_ok q"
  shows "heap_ok (pq_Enqueue q v p)" "mset (pq_Enqueue q v p) = mset q + {#(v, p)#}"
proof -
  have "heap_above (length q) (q @ [(v, p)])"
    using assms parent_less by (auto simp: heap_above_def heap_ok_def nth_append parent_eq less_Suc_eq) (metis order_less_trans)+
  then show "heap_ok (pq_Enqueue q v p)" "mset (pq_Enqueue q v p) = mset q + {#(v, p)#}"
    using pq_up_facts[of "length q" "q @ [(v, p)]"] by (simp_all add: pq_Enqueue_def)
qed

lemma pq_Dequeue_facts:
  assumes "heap_ok q" "q \<noteq> []"
  shows "\<exists>q'. pq_Dequeue q = ((fst (q ! 0), True), q') \<and> heap_ok q' \<and> mset q' = mset q - {#q ! 0#}"
proof -
  define n where "n = length q"
  define ys where "ys = take (n - 1) (q[0 := q ! (n - 1)])"
  have n: "0 < n" using assms(2) by (simp add: n_def)
  have ly: "length ys = n - 1" by (simp add: ys_def n_def)
  have nth: "ys ! k = (if k = 0 then q ! (n - 1) else q ! k)" if "k < n - 1" for k
    using that n by (cases k) (simp_all add: ys_def n_def)
  have "heap_below 0 ys"
    using assms(1) by (auto simp: heap_below_def heap_ok_def ly nth n_def parent_def)
  then have h: "heap_ok (pq_down 0 (n - 1) ys)" "mset (pq_down 0 (n - 1) ys) = mset ys"
    using pq_down_facts[of "n - 1" ys 0] ly by auto
  have "mset ys = mset q - {#q ! 0#}"
  proof (cases q rule: rev_cases)
    case (snoc zs z)
    then show ?thesis
      by (cases zs) (auto simp: ys_def n_def nth_append)
  qed (use assms(2) in simp)
  moreover have "pq_Dequeue q = ((fst (q ! 0), True), pq_down 0 (n - 1) ys)"
    using n unfolding pq_Dequeue_def Let_def n_def[symmetric] ys_def[symmetric] by simp
  ultimately show ?thesis using h by simp
qed

interpretation pq: max_queue pq_Enqueue "pq_Dequeue :: 'a::zero pqueue \<Rightarrow> _" mset heap_ok
proof unfold_locales
  fix q :: "'a pqueue" and v p
  show "heap_ok (pq_Enqueue q v p)" "mset (pq_Enqueue q v p) = mset q + {#(v, p)#}" if "heap_ok q"
    by (rule pq_Enqueue_facts[OF that])+
  show "snd (fst (pq_Dequeue q)) = False \<and> snd (pq_Dequeue q) = q" if "mset q = {#}"
    using that by (simp add: pq_Dequeue_def)
  show "\<exists>v p q'. pq_Dequeue q = ((v, True), q') \<and> (v, p) \<in># mset q \<and> (\<forall>x\<in>#mset q. snd x \<le> p) \<and> mset q' = mset q - {#(v, p)#} \<and> heap_ok q'"
    if h: "heap_ok q" and ne: "mset q \<noteq> {#}"
  proof -
    have q: "q \<noteq> []" using ne by auto
    obtain q' where d: "pq_Dequeue q = ((fst (q ! 0), True), q')" "heap_ok q'" "mset q' = mset q - {#q ! 0#}"
      using pq_Dequeue_facts[OF h q] by blast
    have top: "\<forall>x\<in>#mset q. snd x \<le> snd (q ! 0)"
    proof
      fix x assume "x \<in># mset q"
      then obtain i where "i < length q" "x = q ! i" by (metis in_set_conv_nth set_mset_mset)
      then show "snd x \<le> snd (q ! 0)" using heap_max[OF h] by blast
    qed
    have "q ! 0 \<in># mset q" using nth_mem[of 0 q] q by simp
    then show ?thesis using d top
      by (intro exI[of _ "fst (q ! 0)"] exI[of _ "snd (q ! 0)"] exI[of _ q']) simp
  qed
qed

text \<open>A queue that calls have built.\<close>

inductive pq_reach :: "('a::zero \<times> int) multiset \<Rightarrow> 'a pqueue \<Rightarrow> bool" where
  pq_new: "pq_reach {#} []"
| pq_enqueue: "pq_reach M q \<Longrightarrow> pq_reach (M + {#(v, p)#}) (pq_Enqueue q v p)"
| pq_dequeue: "pq_reach M q \<Longrightarrow> pq_Dequeue q = ((v, True), q') \<Longrightarrow> (v, p) \<in># M \<Longrightarrow> mset q' = M - {#(v, p)#} \<Longrightarrow> pq_reach (mset q') q'"

lemma pq_reach_inv: "pq_reach M q \<Longrightarrow> heap_ok q \<and> mset q = M"
proof (induction rule: pq_reach.induct)
  case (pq_dequeue M q v q' p)
  then have "q \<noteq> []" by (auto simp: pq_Dequeue_def)
  then show ?case using pq_Dequeue_facts[of q] pq_dequeue by auto
next
  case pq_new
  then show ?case by (simp add: heap_ok_def)
next
  case (pq_enqueue M q v p)
  then show ?case using pq_Enqueue_facts[of q v p] by simp
qed

text \<open>C35: The highest priority first. Whatever calls have been made, taking out \<open>n\<close> elements of a
  priority queue succeeds \<open>n\<close> times if there are so many; they come in descending priority, each
  stored element at most once, and none left behind has a higher priority than one taken out.\<close>

theorem priority_queue_serves_max:
  assumes "pq_reach M q" "n \<le> size M"
  shows "\<exists>xs q'. pq.deq_many n q = (map fst xs, q') \<and> M = mset xs + mset q' \<and> length xs = n
    \<and> sorted_wrt (\<lambda>x y. snd x \<ge> snd y) xs \<and> (\<forall>x\<in>set xs. \<forall>y\<in>#mset q'. snd y \<le> snd x)"
  using pq.deq_many_sorted[of q n] pq_reach_inv[OF assms(1)] assms(2) by blast

theorem priority_queue_serves_max_witness:
  "\<exists>xs q'. pq.deq_many 2 (pq_Enqueue (pq_Enqueue (pq_Enqueue [] 5 1) 6 9) (7 :: nat) 4) = (map fst xs, q')
     \<and> {#(5, 1), (6, 9), (7, 4)#} = mset xs + mset q' \<and> length xs = 2"
proof -
  have "pq_reach {#(5, 1), (6, 9), (7 :: nat, 4)#} (pq_Enqueue (pq_Enqueue (pq_Enqueue [] 5 1) 6 9) 7 4)"
    using pq_enqueue[OF pq_enqueue[OF pq_enqueue[OF pq_new]], of 5 1 6 9 "7 :: nat" 4] by (simp add: add_mset_commute)
  from priority_queue_serves_max[OF this, of 2] show ?thesis by auto
qed

end
