(* ===== verification/Reactor.thy ===== *)
theory Reactor
  imports Channel_Send "HOL-Library.AList"
begin

text \<open>
  Package \<^verbatim>\<open>zreactor\<close> (\<^verbatim>\<open>reactor_linux.go\<close>, \<^verbatim>\<open>reactor_lifecycle.go\<close>, \<^verbatim>\<open>sharded_fdmap.go\<close>,
  \<^verbatim>\<open>types.go\<close>, \<^verbatim>\<open>heartbeat.go\<close>): one goroutine that serves all connections. The kernel is a
  parameter: the polls it returns are a list, what \<open>accept4\<close> and the accept function answer
  comes with a listener event, and \<open>kn_read\<close> answers the reads from a state of its own. A
  connection entry refers to its channel in \<open>re_chan\<close>; the read buffers of two entries are
  different arrays, so an entry keeps only the size of its buffer. Log lines are left out.
\<close>

section \<open>Errors and configuration\<close>

datatype errno = EAGAIN | EBADF | ECONNRESET | ECONNREFUSED | ECONNABORTED | ETIMEDOUT | EPIPE | ENOTCONN
  | ENETUNREACH | EHOSTUNREACH | OtherErrno nat

datatype read_err_kind = ReadErrKindUnknown | ReadErrKindTimeout | ReadErrKindReset | ReadErrKindClosed | ReadErrKindOther

fun kind_string :: "read_err_kind \<Rightarrow> string" where
  "kind_string ReadErrKindTimeout = ''timeout''"
| "kind_string ReadErrKindReset = ''reset''"
| "kind_string ReadErrKindClosed = ''closed''"
| "kind_string ReadErrKindOther = ''other''"
| "kind_string ReadErrKindUnknown = ''unknown''"

definition classifyReadErr :: "errno option \<Rightarrow> read_err_kind" where
  "classifyReadErr err = (case err of None \<Rightarrow> ReadErrKindUnknown
     | Some e \<Rightarrow> if e = ECONNRESET \<or> e = ECONNREFUSED \<or> e = ECONNABORTED then ReadErrKindReset
         else if e = ETIMEDOUT \<or> e = EAGAIN then ReadErrKindTimeout
         else if e = EPIPE \<or> e = ENOTCONN then ReadErrKindClosed
         else ReadErrKindOther)"

record serve_config =
  ReadBufSize :: int
  MinEvents :: int
  BatchRead :: bool
  EnableWriteEvent :: bool
  MaxConns :: int
  HeartbeatPollMs :: int

definition defaultReadBufSize :: int where "defaultReadBufSize = 4096"
definition defaultMinEventsNum :: int where "defaultMinEventsNum = 256"
definition defaultHeartbeatPollMs :: int where "defaultHeartbeatPollMs = 1000"

definition defaultServeConfig :: serve_config where
  "defaultServeConfig = \<lparr>ReadBufSize = defaultReadBufSize, MinEvents = defaultMinEventsNum, BatchRead = False,
     EnableWriteEvent = False, MaxConns = 0, HeartbeatPollMs = defaultHeartbeatPollMs\<rparr>"

definition applyServeConfig :: "serve_config option \<Rightarrow> serve_config" where
  "applyServeConfig c = (case c of None \<Rightarrow> defaultServeConfig
     | Some out \<Rightarrow>
         let out = (if ReadBufSize out \<le> 0 then out\<lparr>ReadBufSize := defaultReadBufSize\<rparr> else out)
         in if MinEvents out \<le> 0 then out\<lparr>MinEvents := defaultMinEventsNum\<rparr> else out)"

definition heartbeatPollMs :: "serve_config option \<Rightarrow> int" where
  "heartbeatPollMs cfg = (case cfg of None \<Rightarrow> defaultHeartbeatPollMs
     | Some c \<Rightarrow> if HeartbeatPollMs c < 0 then - 1 else if HeartbeatPollMs c = 0 then defaultHeartbeatPollMs
         else HeartbeatPollMs c)"

definition connEventsForAdd :: "bool \<Rightarrow> bool \<times> bool" where
  "connEventsForAdd enableWrite = (True, enableWrite)"

section \<open>The connection table\<close>

text \<open>
  256 shards, each a Go map. A map is an association list without duplicate keys; the order
  of a list is one of the orders in which Go may visit the map.
\<close>

definition numShards :: nat where "numShards = 256"

type_synonym 'e shards = "nat \<Rightarrow> (int \<times> 'e) list"

definition newShardedFDMap :: "'e shards" where "newShardedFDMap = (\<lambda>_. [])"

definition shardIndex :: "int \<Rightarrow> nat" where
  "shardIndex fd = unat ((word_of_int fd :: 32 word) * 0x9e3779b1 mod word_of_nat numShards)"

definition FGet :: "int \<Rightarrow> 'e shards \<Rightarrow> 'e option" where
  "FGet fd m = map_of (m (shardIndex fd)) fd"

definition FSet :: "int \<Rightarrow> 'e \<Rightarrow> 'e shards \<Rightarrow> 'e shards" where
  "FSet fd e m = m(shardIndex fd := AList.update fd e (m (shardIndex fd)))"

definition FDelete :: "int \<Rightarrow> 'e shards \<Rightarrow> 'e shards" where
  "FDelete fd m = m(shardIndex fd := AList.delete fd (m (shardIndex fd)))"

definition FLen :: "'e shards \<Rightarrow> nat" where
  "FLen m = sum_list (map (\<lambda>i. length (m i)) [0..<numShards])"

text \<open>The loop of \<open>forEachEntry\<close> with its early end, and the entries \<open>eachShardEntries\<close> visits.\<close>

fun visit :: "(int \<Rightarrow> 'e \<Rightarrow> 's \<Rightarrow> bool \<times> 's) \<Rightarrow> (int \<times> 'e) list \<Rightarrow> 's \<Rightarrow> bool \<times> 's" where
  "visit fn [] s = (True, s)"
| "visit fn ((fd, e) # es) s = (case fn fd e s of (go, s') \<Rightarrow> if go then visit fn es s' else (False, s'))"

fun forEachShard :: "(int \<Rightarrow> 'e \<Rightarrow> 's \<Rightarrow> bool \<times> 's) \<Rightarrow> (int \<times> 'e) list list \<Rightarrow> 's \<Rightarrow> 's" where
  "forEachShard fn [] s = s"
| "forEachShard fn (sh # shs) s = (case visit fn sh s of (go, s') \<Rightarrow> if go then forEachShard fn shs s' else s')"

definition forEachEntry :: "(int \<Rightarrow> 'e \<Rightarrow> 's \<Rightarrow> bool \<times> 's) \<Rightarrow> 'e shards \<Rightarrow> 's \<Rightarrow> 's" where
  "forEachEntry fn m s = forEachShard fn (map m [0..<numShards]) s"

definition eachShardEntries :: "'e shards \<Rightarrow> (int \<times> 'e) list" where
  "eachShardEntries m = concat (map m [0..<numShards])"

section \<open>What the reactor asks of a channel\<close>

text \<open>
  The interface \<open>ReactorChannel\<close> with its optional extensions; an operation that a channel
  does not offer is the identity, a missing \<open>Check\<close> is true and a missing \<open>CloseFromReactor\<close>
  is \<open>Close\<close>. Writing answers the bytes taken and whether there was an error; \<open>None\<close> is a panic,
  which leaves the channel behind as it is then.
\<close>

record 'ch channel_ops =
  op_write :: "byte list \<Rightarrow> 'ch \<Rightarrow> (nat \<times> bool) option \<times> 'ch"
  op_parse :: "'ch \<Rightarrow> bool option \<times> 'ch"
  op_begin :: "'ch \<Rightarrow> 'ch"
  op_end :: "'ch \<Rightarrow> 'ch"
  op_close :: "'ch \<Rightarrow> 'ch"
  op_Close :: "'ch \<Rightarrow> 'ch"
  op_check :: "'ch \<Rightarrow> bool"
  op_ingestError :: "'ch \<Rightarrow> 'ch"

text \<open>The loop of \<open>writeConnBytes\<close>: after a write that took nothing it parses once, then gives up.\<close>

function write_conn_loop :: "'ch channel_ops \<Rightarrow> byte list \<Rightarrow> nat \<Rightarrow> bool \<Rightarrow> 'ch \<Rightarrow> bool option \<times> 'ch" where
  "write_conn_loop ops p off drained c =
     (if \<not> off < length p then (Some False, c)
      else case op_write ops (drop off p) c of (None, c) \<Rightarrow> (None, c)
      | (Some (n, failed), c) \<Rightarrow>
          if off + n \<ge> length p then (Some False, c)
          else if n > 0 then write_conn_loop ops p (off + n) False c
          else if \<not> drained then
            (case op_parse ops c of (None, c) \<Rightarrow> (None, c)
             | (Some True, c) \<Rightarrow> (Some True, c)
             | (Some False, c) \<Rightarrow> write_conn_loop ops p off True c)
          else (Some True, op_ingestError ops c))"
  by pat_completeness auto
termination
  by (relation "measure (\<lambda>(ops, p, off, drained, c). 2 * (length p - off) + (if drained then 0 else 1))") auto

declare write_conn_loop.simps [simp del]

definition writeConnBytes :: "'ch channel_ops \<Rightarrow> byte list \<Rightarrow> 'ch \<Rightarrow> bool option \<times> 'ch" where
  "writeConnBytes ops p c = (if p = [] then (Some False, c) else write_conn_loop ops p 0 False c)"

definition ingestConnReadAndDispatch :: "'ch channel_ops \<Rightarrow> byte list \<Rightarrow> 'ch \<Rightarrow> bool \<times> 'ch" where
  "ingestConnReadAndDispatch ops p c =
     (case writeConnBytes ops p c of
        (None, c) \<Rightarrow> (True, c)
      | (Some True, c) \<Rightarrow> (True, c)
      | (Some False, c) \<Rightarrow> (case op_parse ops c of (None, c) \<Rightarrow> (True, c) | (Some close, c) \<Rightarrow> (close, c)))"

section \<open>The reactor\<close>

record conn_entry =
  en_ch :: nat
  en_readBufSize :: nat

text \<open>
  \<open>re_polled\<close> are the connections registered with epoll. Logs: the calls of the metrics callbacks,
  and \<open>re_closed\<close>, the channels the reactor has closed. \<open>re_reused\<close> notes that the kernel gave out
  a descriptor whose entry was still in the table.
\<close>

record 'ch reactor =
  re_fds :: "conn_entry shards"
  re_chan :: "nat \<Rightarrow> 'ch"
  re_next :: nat
  re_polled :: "int list"
  re_accepts :: nat
  re_closes :: nat
  re_acceptErrs :: nat
  re_readBytes :: "(int \<times> nat) list"
  re_readErrs :: "(int \<times> errno \<times> read_err_kind) list"
  re_closed :: "nat list"
  re_reused :: bool

definition new_reactor :: "(nat \<Rightarrow> 'ch) \<Rightarrow> 'ch reactor" where
  "new_reactor chans = \<lparr>re_fds = newShardedFDMap, re_chan = chans, re_next = 0, re_polled = [], re_accepts = 0,
     re_closes = 0, re_acceptErrs = 0, re_readBytes = [], re_readErrs = [], re_closed = [], re_reused = False\<rparr>"

definition on_chan :: "nat \<Rightarrow> ('ch \<Rightarrow> 'ch) \<Rightarrow> 'ch reactor \<Rightarrow> 'ch reactor" where
  "on_chan r f s = s\<lparr>re_chan := (re_chan s)(r := f (re_chan s r))\<rparr>"

text \<open>\<open>Poller.Remove\<close>; the errors of a descriptor that is not registered are ignored.\<close>

definition poller_Remove :: "int \<Rightarrow> 'ch reactor \<Rightarrow> 'ch reactor" where
  "poller_Remove fd s = s\<lparr>re_polled := removeAll fd (re_polled s)\<rparr>"

definition reportReadBytes :: "int \<Rightarrow> nat \<Rightarrow> 'ch reactor \<Rightarrow> 'ch reactor" where
  "reportReadBytes fd n s = s\<lparr>re_readBytes := re_readBytes s @ [(fd, n)]\<rparr>"

definition reportReadErr :: "int \<Rightarrow> errno \<Rightarrow> 'ch reactor \<Rightarrow> 'ch reactor" where
  "reportReadErr fd err s = s\<lparr>re_readErrs := re_readErrs s @ [(fd, err, classifyReadErr (Some err))]\<rparr>"

definition closeConn :: "'ch channel_ops \<Rightarrow> int \<Rightarrow> conn_entry \<Rightarrow> 'ch reactor \<Rightarrow> 'ch reactor" where
  "closeConn ops fd e s =
     (let s1 = on_chan (en_ch e) (op_close ops) (poller_Remove fd s)
      in s1\<lparr>re_closed := re_closed s1 @ [en_ch e], re_fds := FDelete fd (re_fds s1), re_closes := re_closes s1 + 1\<rparr>)"

text \<open>What a successful or failed \<open>accept4\<close> leads to, up to the answer of the accept function and of epoll.\<close>

datatype 'ch accept_outcome = AcceptInterrupted | AcceptDrained | ListenerClosed | AcceptFailed
  | SetupFailed | Refused | AddFailed 'ch | Taken int 'ch

definition maxAcceptPerTurn :: nat where "maxAcceptPerTurn = 64"

definition new_channel :: "'ch \<Rightarrow> 'ch reactor \<Rightarrow> nat \<times> 'ch reactor" where
  "new_channel ch s = (re_next s, s\<lparr>re_chan := (re_chan s)(re_next s := ch), re_next := re_next s + 1\<rparr>)"

definition add_conn :: "serve_config \<Rightarrow> int \<Rightarrow> nat \<Rightarrow> 'ch reactor \<Rightarrow> 'ch reactor" where
  "add_conn cfg fd r s =
     s\<lparr>re_polled := re_polled s @ [fd], re_reused := re_reused s \<or> FGet fd (re_fds s) \<noteq> None,
       re_fds := FSet fd \<lparr>en_ch = r, en_readBufSize = nat (ReadBufSize cfg)\<rparr> (re_fds s), re_accepts := re_accepts s + 1\<rparr>"

text \<open>The loop of \<open>acceptConn\<close>; the result tells whether the listener is closed.\<close>

fun acceptConn :: "'ch channel_ops \<Rightarrow> serve_config \<Rightarrow> nat \<Rightarrow> 'ch accept_outcome list \<Rightarrow> 'ch reactor \<Rightarrow> bool \<times> 'ch reactor" where
  "acceptConn ops cfg accepted [] s = (False, s)"
| "acceptConn ops cfg accepted (a # as) s =
     (if MaxConns cfg > 0 \<and> int (FLen (re_fds s)) \<ge> MaxConns cfg then (False, s)
      else if accepted \<ge> maxAcceptPerTurn then (False, s)
      else case a of
        AcceptInterrupted \<Rightarrow> acceptConn ops cfg accepted as s
      | AcceptDrained \<Rightarrow> (False, s)
      | ListenerClosed \<Rightarrow> (True, s)
      | AcceptFailed \<Rightarrow> (False, s\<lparr>re_acceptErrs := re_acceptErrs s + 1\<rparr>)
      | SetupFailed \<Rightarrow> acceptConn ops cfg (accepted + 1) as s
      | Refused \<Rightarrow> acceptConn ops cfg (accepted + 1) as s
      | AddFailed ch \<Rightarrow>
          (let (r, s1) = new_channel ch s; s2 = on_chan r (op_Close ops) s1
           in acceptConn ops cfg (accepted + 1) as (s2\<lparr>re_closed := re_closed s2 @ [r]\<rparr>))
      | Taken fd ch \<Rightarrow>
          (let (r, s1) = new_channel ch s in acceptConn ops cfg (accepted + 1) as (add_conn cfg fd r s1)))"

section \<open>Reading\<close>

type_synonym 'k kernel = "int \<Rightarrow> nat \<Rightarrow> 'k \<Rightarrow> (byte list \<times> errno option) \<times> 'k"

text \<open>What follows a read that returned: \<open>inner\<close> ends the reading before or after a close.\<close>

definition ingest_conn :: "'ch channel_ops \<Rightarrow> int \<Rightarrow> conn_entry \<Rightarrow> byte list \<Rightarrow> 'ch reactor \<Rightarrow> bool \<times> 'ch reactor" where
  "ingest_conn ops fd e bs s =
     (let s1 = reportReadBytes fd (length bs) s; (close, ch) = ingestConnReadAndDispatch ops bs (re_chan s1 (en_ch e))
      in (close, s1\<lparr>re_chan := (re_chan s1)(en_ch e := ch)\<rparr>))"

definition handleConnRead :: "'ch channel_ops \<Rightarrow> 'k kernel \<Rightarrow> int \<Rightarrow> 'ch reactor \<times> 'k \<Rightarrow> 'ch reactor \<times> 'k" where
  "handleConnRead ops kn fd sk =
     (let (s, k) = sk in
      case FGet fd (re_fds s) of None \<Rightarrow> (poller_Remove fd s, k)
      | Some e \<Rightarrow>
          (let s1 = on_chan (en_ch e) (op_begin ops) s;
               ((bs, err), k1) = kn fd (en_readBufSize e) k;
               s2 = (if bs \<noteq> [] then
                       (let (close, s2) = ingest_conn ops fd e bs s1
                        in if close then closeConn ops fd e s2
                           else case err of None \<Rightarrow> s2
                             | Some x \<Rightarrow> if x \<noteq> EAGAIN then closeConn ops fd e (reportReadErr fd x s2) else s2)
                     else case err of
                       Some x \<Rightarrow> if x = EAGAIN then s1 else closeConn ops fd e (reportReadErr fd x s1)
                     | None \<Rightarrow> closeConn ops fd e s1)
           in (on_chan (en_ch e) (op_end ops) s2, k1)))"

text \<open>\<open>batchReadAndParse\<close>: first every read, then every result.\<close>

fun batch_reads :: "'k kernel \<Rightarrow> conn_entry shards \<Rightarrow> int list \<Rightarrow> 'k \<Rightarrow>
    (int \<times> (conn_entry \<times> byte list \<times> errno option) option) list \<times> 'k" where
  "batch_reads kn fds [] k = ([], k)"
| "batch_reads kn fds (fd # rest) k =
     (case FGet fd fds of
        None \<Rightarrow> (let (rs, k1) = batch_reads kn fds rest k in ((fd, None) # rs, k1))
      | Some e \<Rightarrow> (let ((bs, err), k1) = kn fd (en_readBufSize e) k; (rs, k2) = batch_reads kn fds rest k1
                   in ((fd, Some (e, bs, err)) # rs, k2)))"

definition batch_result :: "'ch channel_ops \<Rightarrow> int \<times> (conn_entry \<times> byte list \<times> errno option) option \<Rightarrow> 'ch reactor \<Rightarrow> 'ch reactor" where
  "batch_result ops x s =
     (case x of
        (fd, None) \<Rightarrow> poller_Remove fd s
      | (fd, Some (e, bs, err)) \<Rightarrow>
          if bs \<noteq> [] then
            (let (close, s1) = ingest_conn ops fd e bs (on_chan (en_ch e) (op_begin ops) s);
                 s2 = on_chan (en_ch e) (op_end ops) s1
             in if close then closeConn ops fd e s2
                else case err of None \<Rightarrow> s2
                  | Some x \<Rightarrow> if x \<noteq> EAGAIN then closeConn ops fd e (reportReadErr fd x s2) else s2)
          else case err of
            Some x \<Rightarrow> if x = EAGAIN then s else closeConn ops fd e (reportReadErr fd x s)
          | None \<Rightarrow> closeConn ops fd e s)"

definition batchReadAndParse :: "'ch channel_ops \<Rightarrow> 'k kernel \<Rightarrow> int list \<Rightarrow> 'ch reactor \<times> 'k \<Rightarrow> 'ch reactor \<times> 'k" where
  "batchReadAndParse ops kn fds sk =
     (let (rs, k1) = batch_reads kn (re_fds (fst sk)) fds (snd sk) in (fold (batch_result ops) rs (fst sk), k1))"

section \<open>Heartbeats and the loop\<close>

definition checkHeartbeats :: "'ch channel_ops \<Rightarrow> 'ch reactor \<Rightarrow> 'ch reactor" where
  "checkHeartbeats ops s =
     fold (\<lambda>(fd, e). closeConn ops fd e)
       (filter (\<lambda>(fd, e). \<not> op_check ops (re_chan s (en_ch e))) (eachShardEntries (re_fds s))) s"

text \<open>A ready descriptor, whether epoll reports a hang-up or an error, and what accepting on it answers.\<close>

type_synonym 'ch ready_event = "int \<times> bool \<times> 'ch accept_outcome list"

datatype serve_end = CtxDone | AcceptError | WaitError

fun serve_events :: "'ch channel_ops \<Rightarrow> 'k kernel \<Rightarrow> serve_config \<Rightarrow> int \<Rightarrow> int \<Rightarrow> 'ch ready_event list \<Rightarrow> int list \<Rightarrow>
    'ch reactor \<times> 'k \<Rightarrow> serve_end option \<times> int list \<times> 'ch reactor \<times> 'k" where
  "serve_events ops kn cfg wakeFd listenerFd [] connReady sk = (None, connReady, sk)"
| "serve_events ops kn cfg wakeFd listenerFd ((fd, hup, outcomes) # es) connReady sk =
     (if fd = wakeFd then (Some CtxDone, connReady, sk)
      else if fd = listenerFd then
        (case acceptConn ops cfg 0 outcomes (fst sk) of
           (True, s) \<Rightarrow> (Some AcceptError, connReady, s, snd sk)
         | (False, s) \<Rightarrow> serve_events ops kn cfg wakeFd listenerFd es connReady (s, snd sk))
      else if hup then
        (case FGet fd (re_fds (fst sk)) of
           Some e \<Rightarrow> serve_events ops kn cfg wakeFd listenerFd es connReady (closeConn ops fd e (fst sk), snd sk)
         | None \<Rightarrow> serve_events ops kn cfg wakeFd listenerFd es connReady (poller_Remove fd (fst sk), snd sk))
      else if BatchRead cfg then serve_events ops kn cfg wakeFd listenerFd es (connReady @ [fd]) sk
      else serve_events ops kn cfg wakeFd listenerFd es connReady (handleConnRead ops kn fd sk))"

text \<open>A poll: the time, and the events, \<open>None\<close> for an error of \<open>epoll_wait\<close>.\<close>

type_synonym 'ch poll = "int \<times> 'ch ready_event list option"

fun ServeWithConfig :: "(int \<Rightarrow> 'ch channel_ops) \<Rightarrow> 'k kernel \<Rightarrow> serve_config \<Rightarrow> int \<Rightarrow> int \<Rightarrow> 'ch poll list \<Rightarrow>
    'ch reactor \<times> 'k \<Rightarrow> serve_end option \<times> 'ch reactor \<times> 'k" where
  "ServeWithConfig ops kn cfg wakeFd listenerFd [] sk = (None, sk)"
| "ServeWithConfig ops kn cfg wakeFd listenerFd ((now, None) # ps) sk = (Some WaitError, sk)"
| "ServeWithConfig ops kn cfg wakeFd listenerFd ((now, Some ready) # ps) sk =
     (if ready = [] then
        ServeWithConfig ops kn cfg wakeFd listenerFd ps
          (if heartbeatPollMs (Some cfg) > 0 then (checkHeartbeats (ops now) (fst sk), snd sk) else sk)
      else case serve_events (ops now) kn cfg wakeFd listenerFd ready [] sk of
        (Some x, connReady, sk) \<Rightarrow> (Some x, sk)
      | (None, connReady, sk) \<Rightarrow>
          ServeWithConfig ops kn cfg wakeFd listenerFd ps
            (if BatchRead cfg \<and> connReady \<noteq> [] then batchReadAndParse (ops now) kn connReady sk else sk))"

text \<open>
  The loop checks heartbeats only when a poll brings nothing. At the limit on connections a
  pending one keeps the listener ready, so that no later poll is empty: \<open>acceptConn\<close> leaves
  it in the backlog, and dead connections are never looked at.
\<close>

lemma full_reactor_skips_heartbeats:
  assumes "MaxConns cfg > 0" "int (FLen (re_fds s)) \<ge> MaxConns cfg" "listenerFd \<noteq> wakeFd"
  shows "ServeWithConfig ops kn cfg wakeFd listenerFd (replicate n (now, Some [(listenerFd, False, a # outcomes)])) (s, k) = (None, s, k)"
  using assms by (induction n) auto

section \<open>The connection table is a map\<close>

text \<open>What the reactor needs of a table of connections.\<close>

locale fd_table =
  fixes new :: 't and get :: "int \<Rightarrow> 't \<Rightarrow> 'e option" and put :: "int \<Rightarrow> 'e \<Rightarrow> 't \<Rightarrow> 't" and del :: "int \<Rightarrow> 't \<Rightarrow> 't"
    and len :: "'t \<Rightarrow> nat" and entries :: "'t \<Rightarrow> (int \<times> 'e) list" and ok :: "'t \<Rightarrow> bool"
  assumes new: "ok new" "get fd new = None"
    and put: "ok t \<Longrightarrow> ok (put fd e t)" "ok t \<Longrightarrow> get fd' (put fd e t) = (if fd' = fd then Some e else get fd' t)"
    and del: "ok t \<Longrightarrow> ok (del fd t)" "ok t \<Longrightarrow> get fd' (del fd t) = (if fd' = fd then None else get fd' t)"
    and entries: "ok t \<Longrightarrow> distinct (map fst (entries t))" "ok t \<Longrightarrow> (fd, e) \<in> set (entries t) \<longleftrightarrow> get fd t = Some e"
    and len: "len t = length (entries t)"
begin

lemma dom_entries: "ok t \<Longrightarrow> {fd. get fd t \<noteq> None} = fst ` set (entries t)"
  using entries(2)[of t] by force

lemma len_card: "ok t \<Longrightarrow> finite {fd. get fd t \<noteq> None} \<and> len t = card {fd. get fd t \<noteq> None}"
proof -
  assume t: "ok t"
  show ?thesis unfolding dom_entries[OF t] len using distinct_card[OF entries(1)[OF t]] by simp
qed

lemma len_put: "ok t \<Longrightarrow> len (put fd e t) = (if get fd t = None then len t + 1 else len t)"
proof -
  assume t: "ok t"
  have "{x. get x (put fd e t) \<noteq> None} = insert fd {x. get x t \<noteq> None}" using put(2)[OF t] by auto
  then show ?thesis using len_card[OF t] len_card[OF put(1)[OF t], of fd e] by (auto simp: card_insert_if)
qed

lemma len_del: "ok t \<Longrightarrow> get fd t = Some e \<Longrightarrow> len (del fd t) + 1 = len t"
proof -
  assume t: "ok t" and g: "get fd t = Some e"
  have "{x. get x (del fd t) \<noteq> None} = {x. get x t \<noteq> None} - {fd}" using del(2)[OF t] by auto
  then show ?thesis using len_card[OF t] len_card[OF del(1)[OF t], of fd] g card_Suc_Diff1[of "{x. get x t \<noteq> None}" fd] by simp
qed

lemma map_of_entries: "ok t \<Longrightarrow> map_of (entries t) fd = get fd t"
proof (cases "get fd t")
  case None
  assume "ok t"
  then have "fd \<notin> fst ` set (entries t)" using None dom_entries by blast
  then show ?thesis using None by (simp add: map_of_eq_None_iff)
next
  case (Some e)
  assume "ok t"
  then show ?thesis using Some entries by simp
qed

end

lemma shardIndex_lt: "shardIndex fd < numShards"
proof -
  have "(word_of_int fd :: 32 word) * 0x9e3779b1 mod word_of_nat numShards < word_of_nat numShards"
    by (rule word_mod_less_divisor) (simp add: numShards_def word_less_nat_alt)
  then show ?thesis by (simp add: shardIndex_def word_less_nat_alt numShards_def)
qed

definition shards_ok :: "'e shards \<Rightarrow> bool" where
  "shards_ok m \<longleftrightarrow> (\<forall>i. distinct (map fst (m i)) \<and> (\<forall>fd \<in> fst ` set (m i). shardIndex fd = i))"

lemma shard_entry: "shards_ok m \<Longrightarrow> (fd, e) \<in> set (m i) \<longleftrightarrow> i = shardIndex fd \<and> FGet fd m = Some e"
proof -
  assume m: "shards_ok m"
  have "(fd, e) \<in> set (m i) \<Longrightarrow> shardIndex fd = i" using m by (force simp: shards_ok_def)
  then show ?thesis using m by (auto simp: FGet_def shards_ok_def intro: map_of_SomeD)
qed

lemma distinct_concat_shards:
  "shards_ok m \<Longrightarrow> distinct is \<Longrightarrow> distinct (map fst (concat (map m is)))"
proof (induction "is")
  case (Cons i "is")
  have "fst ` set (m i) \<inter> fst ` set (concat (map m is)) = {}"
  proof -
    have "fd \<notin> fst ` set (concat (map m is))" if "fd \<in> fst ` set (m i)" for fd
    proof
      assume "fd \<in> fst ` set (concat (map m is))"
      then obtain j where "j \<in> set is" "fd \<in> fst ` set (m j)" by auto
      then have "i \<in> set is" using that Cons.prems(1) unfolding shards_ok_def by metis
      then show False using Cons.prems(2) by simp
    qed
    then show ?thesis by blast
  qed
  then show ?case using Cons unfolding shards_ok_def by (simp del: set_concat)
qed simp

interpretation ft: fd_table newShardedFDMap FGet FSet FDelete FLen eachShardEntries shards_ok
proof (unfold_locales, goal_cases)
  case (3 t fd e)
  have "fst ` set (AList.update fd e (t (shardIndex fd))) = insert fd (fst ` set (t (shardIndex fd)))"
    by (simp add: dom_update)
  then have "\<forall>x \<in> fst ` set (AList.update fd e (t (shardIndex fd))). shardIndex x = shardIndex fd"
    using 3 by (auto simp: shards_ok_def)
  then show ?case using 3 by (simp add: shards_ok_def FSet_def distinct_update)
next
  case (5 t fd)
  then show ?case by (auto simp: shards_ok_def FDelete_def AList.delete_eq distinct_map_filter)
next
  case (6 t fd' fd)
  then show ?case by (auto simp: FGet_def FDelete_def delete_conv)
next
  case (7 t)
  then show ?case unfolding eachShardEntries_def by (intro distinct_concat_shards) auto
next
  case (8 t fd e)
  have "(fd, e) \<in> set (eachShardEntries t) \<longleftrightarrow> (\<exists>i<numShards. (fd, e) \<in> set (t i))" by (auto simp: eachShardEntries_def)
  then show ?case using shard_entry[OF 8] shardIndex_lt[of fd] by auto
next
  case (9 t)
  then show ?case by (simp add: FLen_def eachShardEntries_def length_concat o_def)
qed (auto simp: newShardedFDMap_def shards_ok_def FGet_def FSet_def update_conv)

datatype 'e fd_op = SetOp int 'e | DeleteOp int

fun run_shards :: "'e fd_op list \<Rightarrow> 'e shards \<Rightarrow> 'e shards" where
  "run_shards [] m = m"
| "run_shards (SetOp fd e # ops) m = run_shards ops (FSet fd e m)"
| "run_shards (DeleteOp fd # ops) m = run_shards ops (FDelete fd m)"

fun run_map :: "'e fd_op list \<Rightarrow> (int \<rightharpoonup> 'e) \<Rightarrow> (int \<rightharpoonup> 'e)" where
  "run_map [] m = m"
| "run_map (SetOp fd e # ops) m = run_map ops (m(fd \<mapsto> e))"
| "run_map (DeleteOp fd # ops) m = run_map ops (m(fd := None))"

lemma run_shards_map: "shards_ok m \<Longrightarrow> shards_ok (run_shards ops m) \<and> (\<lambda>fd. FGet fd (run_shards ops m)) = run_map ops (\<lambda>fd. FGet fd m)"
proof (induction ops arbitrary: m)
  case (Cons x ops)
  show ?case
  proof (cases x)
    case (SetOp fd e)
    have "(\<lambda>y. FGet y (FSet fd e m)) = (\<lambda>y. FGet y m)(fd \<mapsto> e)" using ft.put(2)[OF Cons.prems] by auto
    then show ?thesis using SetOp Cons.IH[OF ft.put(1)[OF Cons.prems]] by simp
  next
    case (DeleteOp fd)
    have "(\<lambda>y. FGet y (FDelete fd m)) = (\<lambda>y. FGet y m)(fd := None)" using ft.del(2)[OF Cons.prems] by auto
    then show ?thesis using DeleteOp Cons.IH[OF ft.del(1)[OF Cons.prems]] by simp
  qed
qed simp

text \<open>
  C20: the sharded table is well formed after every sequence of insertions and deletions: the
  index of a shard is always in range, so that no access panics; a key is stored in its own
  shard, once; look-ups answer as in one plain map; the length is the number of keys; and the
  scan of the shards visits every entry exactly once.
\<close>

theorem sharded_table_is_map:
  "(\<forall>fd. shardIndex fd < numShards)
   \<and> (\<forall>i. distinct (map fst (run_shards ops newShardedFDMap i)) \<and> fst ` set (run_shards ops newShardedFDMap i) \<subseteq> {fd. shardIndex fd = i})
   \<and> (\<lambda>fd. FGet fd (run_shards ops newShardedFDMap)) = run_map ops Map.empty
   \<and> FLen (run_shards ops newShardedFDMap) = card (dom (run_map ops Map.empty))
   \<and> distinct (map fst (eachShardEntries (run_shards ops newShardedFDMap)))
   \<and> map_of (eachShardEntries (run_shards ops newShardedFDMap)) = run_map ops Map.empty"
proof -
  let ?m = "run_shards ops newShardedFDMap"
  have r: "shards_ok ?m" "(\<lambda>fd. FGet fd ?m) = run_map ops Map.empty"
    using run_shards_map[OF ft.new(1), of ops] by (auto simp: ft.new(2))
  have "dom (run_map ops Map.empty) = {fd. FGet fd ?m \<noteq> None}" unfolding r(2)[symmetric] dom_def ..
  moreover have "map_of (eachShardEntries ?m) = run_map ops Map.empty"
    unfolding r(2)[symmetric] using ft.map_of_entries[OF r(1)] by blast
  ultimately show ?thesis
    using r ft.len_card[OF r(1)] ft.entries(1)[OF r(1)] shardIndex_lt unfolding shards_ok_def by (simp add: subset_eq)
qed

section \<open>Accounts of connections\<close>

definition table_ok :: "'ch reactor \<Rightarrow> bool" where
  "table_ok s \<longleftrightarrow> shards_ok (re_fds s) \<and> distinct (re_closed s) \<and> set (re_closed s) \<subseteq> {..<re_next s}
     \<and> (\<forall>fd e. FGet fd (re_fds s) = Some e \<longrightarrow> en_ch e < re_next s \<and> en_ch e \<notin> set (re_closed s) \<and> fd \<in> set (re_polled s))
     \<and> (\<forall>fd fd' e e'. FGet fd (re_fds s) = Some e \<longrightarrow> FGet fd' (re_fds s) = Some e' \<longrightarrow> en_ch e = en_ch e' \<longrightarrow> fd = fd')"

definition counts_ok :: "'ch reactor \<Rightarrow> bool" where
  "counts_ok s \<longleftrightarrow> re_closes s + FLen (re_fds s) \<le> re_accepts s
     \<and> (\<not> re_reused s \<longrightarrow> re_closes s + FLen (re_fds s) = re_accepts s
          \<and> (\<forall>r<re_next s. r \<in> set (re_closed s) \<or> (\<exists>fd e. FGet fd (re_fds s) = Some e \<and> en_ch e = r)))"

definition reactor_ok :: "serve_config \<Rightarrow> 'ch reactor \<Rightarrow> bool" where
  "reactor_ok cfg s \<longleftrightarrow> table_ok s \<and> counts_ok s \<and> (MaxConns cfg > 0 \<longrightarrow> int (FLen (re_fds s)) \<le> MaxConns cfg)"

text \<open>What the accounts look at.\<close>

definition books :: "'ch reactor \<Rightarrow> conn_entry shards \<times> nat \<times> int list \<times> nat \<times> nat \<times> nat list \<times> bool" where
  "books s = (re_fds s, re_next s, re_polled s, re_accepts s, re_closes s, re_closed s, re_reused s)"

lemma books_simps [simp]:
  "books (on_chan r f s) = books s" "books (reportReadBytes fd n s) = books s" "books (reportReadErr fd err s) = books s"
  "books (snd (ingest_conn ops fd e bs s)) = books s"
  by (auto simp: books_def on_chan_def reportReadBytes_def reportReadErr_def ingest_conn_def Let_def case_prod_beta)

lemma books_fds: "books s = books s' \<Longrightarrow> re_fds s = re_fds s'"
  by (simp add: books_def)

lemma reactor_ok_books: "books s = books s' \<Longrightarrow> reactor_ok cfg s = reactor_ok cfg s'"
  by (simp add: books_def reactor_ok_def table_ok_def counts_ok_def)

lemma poller_Remove_ok: "reactor_ok cfg s \<Longrightarrow> FGet fd (re_fds s) = None \<Longrightarrow> reactor_ok cfg (poller_Remove fd s)"
  by (auto simp: reactor_ok_def table_ok_def counts_ok_def poller_Remove_def)

lemma closeConn_get:
  "shards_ok (re_fds s) \<Longrightarrow> FGet fd' (re_fds (closeConn ops fd e s)) = (if fd' = fd then None else FGet fd' (re_fds s))"
  by (simp add: closeConn_def Let_def on_chan_def poller_Remove_def ft.del(2))

lemma closeConn_ok:
  assumes ok: "reactor_ok cfg s" and g: "FGet fd (re_fds s) = Some e"
  shows "reactor_ok cfg (closeConn ops fd e s)"
proof -
  let ?s = "closeConn ops fd e s"
  have sh: "shards_ok (re_fds s)" using ok by (simp add: reactor_ok_def table_ok_def)
  have f: "re_fds ?s = FDelete fd (re_fds s)" "re_closed ?s = re_closed s @ [en_ch e]" "re_closes ?s = re_closes s + 1"
    "re_next ?s = re_next s" "re_polled ?s = removeAll fd (re_polled s)" "re_accepts ?s = re_accepts s" "re_reused ?s = re_reused s"
    by (auto simp: closeConn_def Let_def on_chan_def poller_Remove_def)
  have l: "FLen (FDelete fd (re_fds s)) + 1 = FLen (re_fds s)" by (rule ft.len_del[OF sh g])
  have t: "table_ok ?s"
    using ok g ft.del[OF sh] unfolding table_ok_def reactor_ok_def f by (auto split: if_splits)
  have "r \<in> set (re_closed ?s) \<or> (\<exists>fd' e'. FGet fd' (re_fds ?s) = Some e' \<and> en_ch e' = r)"
    if "\<not> re_reused s" "r < re_next s" for r
  proof (cases "r = en_ch e")
    case False
    then have "r \<in> set (re_closed s) \<or> (\<exists>fd' e'. FGet fd' (re_fds s) = Some e' \<and> en_ch e' = r)"
      using ok that by (auto simp: reactor_ok_def counts_ok_def)
    then show ?thesis using False g closeConn_get[OF sh, of _ ops fd e] f(2) by (metis Un_iff option.inject set_append)
  qed (simp add: f)
  then have "counts_ok ?s" using ok l unfolding counts_ok_def reactor_ok_def f(3,4,6,7) by (auto simp: f(1))
  then show ?thesis using t ok l unfolding reactor_ok_def f(1) by auto
qed

lemma close_reports_ok:
  assumes "reactor_ok cfg s" "FGet fd (re_fds s) = Some e" "books s' = books s"
  shows "reactor_ok cfg (closeConn ops fd e s')" "reactor_ok cfg s'"
    "FGet fd' (re_fds (closeConn ops fd e s')) = (if fd' = fd then None else FGet fd' (re_fds s))" "re_fds s' = re_fds s"
proof -
  have f: "re_fds s' = re_fds s" using assms(3) by (rule books_fds)
  show s': "reactor_ok cfg s'" using reactor_ok_books[OF assms(3)] assms(1) by blast
  show "reactor_ok cfg (closeConn ops fd e s')" using closeConn_ok[OF s'] assms(2) f by simp
  show "FGet fd' (re_fds (closeConn ops fd e s')) = (if fd' = fd then None else FGet fd' (re_fds s))"
    using assms(1) f by (subst closeConn_get) (auto simp: reactor_ok_def table_ok_def)
  show "re_fds s' = re_fds s" by (rule f)
qed

lemma batch_result_ok:
  assumes ok: "reactor_ok cfg s" and x: "case x of (fd, None) \<Rightarrow> FGet fd (re_fds s) = None | (fd, Some (e, r)) \<Rightarrow> FGet fd (re_fds s) = Some e"
  shows "reactor_ok cfg (batch_result ops x s)
    \<and> (\<forall>fd'. fd' \<noteq> fst x \<longrightarrow> FGet fd' (re_fds (batch_result ops x s)) = FGet fd' (re_fds s))"
proof (cases x)
  case (Pair fd y)
  show ?thesis
  proof (cases y)
    case None
    then show ?thesis using ok x Pair poller_Remove_ok by (auto simp: batch_result_def poller_Remove_def)
  next
    case (Some z)
    obtain e bs err where z: "z = (e, bs, err)" by (cases z)
    have g: "FGet fd (re_fds s) = Some e" using x Pair Some z by simp
    let ?s1 = "snd (ingest_conn ops fd e bs (on_chan (en_ch e) (op_begin ops) s))"
    have b: "books (on_chan (en_ch e) (op_end ops) ?s1) = books s" "\<And>er. books (reportReadErr fd er (on_chan (en_ch e) (op_end ops) ?s1)) = books s"
      "\<And>er. books (reportReadErr fd er s) = books s" by auto
    note c = close_reports_ok(1,3)[where ops = ops, OF ok g b(1)] close_reports_ok(1,3)[where ops = ops, OF ok g b(2)]
      close_reports_ok(1,3)[where ops = ops, OF ok g b(3)] close_reports_ok(1,3)[where ops = ops, OF ok g refl]
      close_reports_ok(2,4)[OF ok g b(1)]
    show ?thesis
      using c ok unfolding Pair Some z batch_result_def
      by (auto simp: Let_def case_prod_beta split: option.splits)
  qed
qed

lemma batch_reads_entries:
  "batch_reads kn fds ws k = (rs, k') \<Longrightarrow> map fst rs = ws \<and> (\<forall>x \<in> set rs. case x of (fd, None) \<Rightarrow> FGet fd fds = None
     | (fd, Some (e, r)) \<Rightarrow> FGet fd fds = Some e)"
proof (induction ws arbitrary: k rs)
  case (Cons fd ws)
  then show ?case
    by (cases "FGet fd fds"; cases "batch_reads kn fds ws k"; cases "kn fd (en_readBufSize (the (FGet fd fds))) k")
      (force simp: Let_def case_prod_beta split: prod.splits)+
qed simp

lemma fold_batch_ok:
  "reactor_ok cfg s \<Longrightarrow> distinct (map fst rs) \<Longrightarrow>
   \<forall>x \<in> set rs. case x of (fd, None) \<Rightarrow> FGet fd (re_fds s) = None | (fd, Some (e, r)) \<Rightarrow> FGet fd (re_fds s) = Some e \<Longrightarrow>
   reactor_ok cfg (fold (batch_result ops) rs s)"
proof (induction rs arbitrary: s)
  case (Cons x rs)
  have b: "reactor_ok cfg (batch_result ops x s)" "\<And>fd'. fd' \<noteq> fst x \<Longrightarrow> FGet fd' (re_fds (batch_result ops x s)) = FGet fd' (re_fds s)"
    using batch_result_ok[of cfg s x ops] Cons.prems by auto
  have "case y of (fd, None) \<Rightarrow> FGet fd (re_fds (batch_result ops x s)) = None
     | (fd, Some (e, r)) \<Rightarrow> FGet fd (re_fds (batch_result ops x s)) = Some e" if "y \<in> set rs" for y
  proof -
    have "fst y \<in> fst ` set rs" using that by (rule imageI)
    moreover have "fst x \<notin> fst ` set rs" using Cons.prems(2) by simp
    ultimately have "fst y \<noteq> fst x" by metis
    then have eq: "FGet (fst y) (re_fds (batch_result ops x s)) = FGet (fst y) (re_fds s)" by (rule b(2))
    have "case y of (fd, None) \<Rightarrow> FGet fd (re_fds s) = None | (fd, Some (e, r)) \<Rightarrow> FGet fd (re_fds s) = Some e"
      using Cons.prems(3) that by simp
    then show ?thesis using eq by (cases y; cases "snd y") auto
  qed
  then show ?case using Cons b(1) by auto
qed simp

lemma batchReadAndParse_ok:
  "reactor_ok cfg (fst sk) \<Longrightarrow> distinct fds \<Longrightarrow> reactor_ok cfg (fst (batchReadAndParse ops kn fds sk))"
  using batch_reads_entries[of kn "re_fds (fst sk)" fds "snd sk" "fst (batch_reads kn (re_fds (fst sk)) fds (snd sk))", OF prod.collapse[symmetric]]
  by (simp add: batchReadAndParse_def Let_def case_prod_beta fold_batch_ok)

lemma handleConnRead_ok:
  assumes "reactor_ok cfg (fst sk)"
  shows "reactor_ok cfg (fst (handleConnRead ops kn fd sk))"
proof (cases "FGet fd (re_fds (fst sk))")
  case None
  then show ?thesis using assms poller_Remove_ok by (simp add: handleConnRead_def case_prod_beta Let_def)
next
  case (Some e)
  obtain bs err k1 where k: "kn fd (en_readBufSize e) (snd sk) = ((bs, err), k1)" by (metis prod.collapse)
  let ?s0 = "on_chan (en_ch e) (op_begin ops) (fst sk)"
  let ?s1 = "snd (ingest_conn ops fd e bs ?s0)"
  have b: "books ?s1 = books (fst sk)" "\<And>er. books (reportReadErr fd er ?s1) = books (fst sk)"
      "\<And>er. books (reportReadErr fd er ?s0) = books (fst sk)" "books ?s0 = books (fst sk)" by auto
  have e: "reactor_ok cfg (on_chan (en_ch e) (op_end ops) s') = reactor_ok cfg s'" for s' by (rule reactor_ok_books) simp
  note c = close_reports_ok(1,2)[OF assms Some b(1)] close_reports_ok(1,2)[OF assms Some b(2)]
    close_reports_ok(1,2)[OF assms Some b(3)] close_reports_ok(1,2)[OF assms Some b(4)]
  show ?thesis
    using c by (auto simp: handleConnRead_def Let_def case_prod_beta Some k e split: option.splits)
qed

lemma acceptConn_ok: "reactor_ok cfg s \<Longrightarrow> reactor_ok cfg (snd (acceptConn ops cfg n as s))"
proof (induction ops cfg n as s rule: acceptConn.induct)
  case (2 ops cfg n a as s)
  show ?case
  proof (cases "MaxConns cfg > 0 \<and> int (FLen (re_fds s)) \<ge> MaxConns cfg \<or> n \<ge> maxAcceptPerTurn")
    case True
    then show ?thesis using 2 by auto
  next
    case go: False
    note IH = 2(1-5)
    have sh: "shards_ok (re_fds s)" using 2 by (simp add: reactor_ok_def table_ok_def)
    have fresh: "en_ch e \<noteq> re_next s" if "FGet x (re_fds s) = Some e" for x e
    proof -
      have "en_ch e < re_next s" using 2(6) that unfolding reactor_ok_def table_ok_def by blast
      then show ?thesis by simp
    qed
    have unclosed: "re_next s \<notin> set (re_closed s)" using 2(6) by (auto simp: reactor_ok_def table_ok_def)
    show ?thesis
    proof (cases a)
      case (AddFailed ch)
      let ?s = "snd (new_channel ch s)"
      let ?s2 = "on_chan (re_next s) (op_Close ops) ?s"
      have "reactor_ok cfg (?s2\<lparr>re_closed := re_closed ?s2 @ [re_next s]\<rparr>)"
        using 2(6) fresh unclosed
        by (auto simp: reactor_ok_def table_ok_def counts_ok_def new_channel_def on_chan_def less_Suc_eq)
      then show ?thesis using go AddFailed 2(4) by (auto simp: new_channel_def Let_def)
    next
      case (Taken fd ch)
      let ?s = "add_conn cfg fd (re_next s) (snd (new_channel ch s))"
      let ?e = "\<lparr>en_ch = re_next s, en_readBufSize = nat (ReadBufSize cfg)\<rparr>"
      have f: "re_fds ?s = FSet fd ?e (re_fds s)" "re_closed ?s = re_closed s" "re_closes ?s = re_closes s"
        "re_next ?s = re_next s + 1" "re_polled ?s = re_polled s @ [fd]" "re_accepts ?s = re_accepts s + 1"
        "re_reused ?s \<longleftrightarrow> re_reused s \<or> FGet fd (re_fds s) \<noteq> None"
        by (auto simp: add_conn_def new_channel_def)
      have l: "FLen (FSet fd ?e (re_fds s)) = (if FGet fd (re_fds s) = None then FLen (re_fds s) + 1 else FLen (re_fds s))"
        by (rule ft.len_put[OF sh])
      have get: "FGet x (re_fds ?s) = (if x = fd then Some ?e else FGet x (re_fds s))" for x
        unfolding f(1) by (rule ft.put(2)[OF sh])
      have t: "table_ok ?s"
        using 2(6) ft.put(1)[OF sh] unfolding table_ok_def reactor_ok_def get f(2,4,5)
        by (auto simp: f(1) less_Suc_eq dest: fresh fresh[THEN not_sym])
      have "r \<in> set (re_closed s) \<or> (\<exists>x e. FGet x (re_fds ?s) = Some e \<and> en_ch e = r)"
        if r: "\<not> re_reused ?s" "r < re_next s + 1" for r
      proof (cases "r = re_next s")
        case True
        then show ?thesis using get[of fd] by (intro disjI2 exI[of _ fd] exI[of _ ?e]) simp
      next
        case False
        then have "r \<in> set (re_closed s) \<or> (\<exists>x e. FGet x (re_fds s) = Some e \<and> en_ch e = r)"
          using 2(6) r f(7) by (auto simp: reactor_ok_def counts_ok_def)
        then show ?thesis using get r(1) f(7) by (metis option.distinct(1))
      qed
      then have "counts_ok ?s" using 2(6) l unfolding counts_ok_def reactor_ok_def f(2-4,6) by (auto simp: f(1,7))
      moreover have "MaxConns cfg > 0 \<longrightarrow> int (FLen (re_fds ?s)) \<le> MaxConns cfg" using go l 2(6) by (auto simp: f(1) reactor_ok_def)
      ultimately have "reactor_ok cfg ?s" using t by (simp add: reactor_ok_def)
      then show ?thesis using go Taken 2(5) by (auto simp: new_channel_def Let_def)
    next
      case AcceptFailed
      have "books (s\<lparr>re_acceptErrs := re_acceptErrs s + 1\<rparr>) = books s" by (simp add: books_def)
      from reactor_ok_books[OF this] show ?thesis using go AcceptFailed 2(6) by simp
    qed (use 2(1-3,6) go in simp_all)
  qed
qed simp

lemma checkHeartbeats_ok: "reactor_ok cfg s \<Longrightarrow> reactor_ok cfg (checkHeartbeats ops s)"
proof -
  have fold: "reactor_ok cfg s \<Longrightarrow> distinct (map fst xs) \<Longrightarrow> \<forall>(fd, e) \<in> set xs. FGet fd (re_fds s) = Some e \<Longrightarrow>
    reactor_ok cfg (fold (\<lambda>(fd, e). closeConn ops fd e) xs s)" for xs and s :: "'a reactor"
  proof (induction xs arbitrary: s)
    case (Cons x xs)
    obtain fd e where x: "x = (fd, e)" by (cases x)
    have sh: "shards_ok (re_fds s)" using Cons.prems(1) by (simp add: reactor_ok_def table_ok_def)
    have ok: "reactor_ok cfg (closeConn ops fd e s)" using Cons.prems x by (auto intro: closeConn_ok)
    have g: "FGet fd' (re_fds (closeConn ops fd e s)) = Some e'" if "(fd', e') \<in> set xs" for fd' e'
    proof -
      have "fd' \<noteq> fd" using that Cons.prems(2) x by force
      then show ?thesis using that Cons.prems(3) by (auto simp: closeConn_get[OF sh])
    qed
    have "\<forall>(fd', e') \<in> set xs. FGet fd' (re_fds (closeConn ops fd e s)) = Some e'" using g by blast
    from Cons.IH[OF ok _ this] show ?case using Cons.prems(2) x by simp
  qed simp
  assume ok: "reactor_ok cfg s"
  then have sh: "shards_ok (re_fds s)" by (simp add: reactor_ok_def table_ok_def)
  show ?thesis
    unfolding checkHeartbeats_def
    by (rule fold[OF ok]) (auto simp: ft.entries(2)[OF sh] intro: distinct_map_filter ft.entries(1)[OF sh])
qed

lemma serve_events_ok:
  "reactor_ok cfg (fst sk) \<Longrightarrow> distinct (conn @ map fst es) \<Longrightarrow> serve_events ops kn cfg w l es conn sk = (x, conn', sk') \<Longrightarrow>
     reactor_ok cfg (fst sk') \<and> distinct conn'"
proof (induction ops kn cfg w l es conn sk rule: serve_events.induct)
  case (2 ops kn cfg w l fd hup outcomes es conn sk)
  show ?case
  proof (cases "fd = w \<or> fd = l")
    case True
    obtain b s where a: "acceptConn ops cfg 0 outcomes (fst sk) = (b, s)" by fastforce
    have "reactor_ok cfg s" using acceptConn_ok[OF 2(6), of ops 0 outcomes] a by simp
    then show ?thesis using True 2(1)[OF _ _ a[symmetric]] 2(6,7,8) a by (cases "fd = w"; cases b) auto
  next
    case other: False
    show ?thesis
    proof (cases hup)
      case True
      have d: "distinct (conn @ map fst es)" using 2(7) by auto
      show ?thesis
      proof (cases "FGet fd (re_fds (fst sk))")
        case None
        show ?thesis by (rule 2(2)[OF _ _ True None]) (use other True None 2(6,8) d in \<open>simp_all add: poller_Remove_ok\<close>)
      next
        case (Some e)
        show ?thesis by (rule 2(3)[OF _ _ True Some]) (use other True Some 2(6,8) d in \<open>simp_all add: closeConn_ok\<close>)
      qed
    next
      case False
      have "distinct ((conn @ [fd]) @ map fst es)" "distinct (conn @ map fst es)" using 2(7) by auto
      then show ?thesis using 2(4,5)[OF _ _ False] 2(6,8) other False handleConnRead_ok[OF 2(6), of ops kn fd]
        by (cases "BatchRead cfg") simp_all
    qed
  qed
qed auto

lemma ServeWithConfig_ok:
  "reactor_ok cfg (fst sk) \<Longrightarrow> \<forall>(now, es) \<in> set ps. distinct (map fst (case es of None \<Rightarrow> [] | Some es \<Rightarrow> es)) \<Longrightarrow>
     ServeWithConfig ops kn cfg w l ps sk = (x, sk') \<Longrightarrow> reactor_ok cfg (fst sk')"
proof (induction ops kn cfg w l ps sk rule: ServeWithConfig.induct)
  case (3 ops kn cfg w l now ready ps sk)
  show ?case
  proof (cases "ready = []")
    case True
    then show ?thesis using 3(1)[OF True] 3(3-) by (auto simp: checkHeartbeats_ok split: if_splits)
  next
    case False
    obtain y conn sk1 where e: "serve_events (ops now) kn cfg w l ready [] sk = (y, conn, sk1)" by (metis prod_cases3)
    have ok: "reactor_ok cfg (fst sk1)" "distinct conn"
      using serve_events_ok[OF 3(3) _ e] 3(4) by auto
    show ?thesis
    proof (cases y)
      case None
      show ?thesis
        using 3(2)[OF False e[symmetric] None refl] 3(4,5) False e None ok batchReadAndParse_ok[OF ok, of "ops now" kn] by simp
    qed (use 3(5) False e ok in auto)
  qed
qed auto

lemma new_reactor_ok: "reactor_ok cfg (new_reactor chans)"
proof -
  have "FLen newShardedFDMap = 0" by (simp add: FLen_def newShardedFDMap_def)
  then show ?thesis using ft.new by (auto simp: reactor_ok_def table_ok_def counts_ok_def new_reactor_def)
qed


text \<open>Channels that only count: parsing closes the connection after the second byte.\<close>

definition tiny_ops :: "int \<Rightarrow> byte list channel_ops" where
  "tiny_ops now = \<lparr>op_write = (\<lambda>p c. (Some (length p, False), c @ p)), op_parse = (\<lambda>c. (Some (length c \<ge> 2), c)),
     op_begin = id, op_end = id, op_close = id, op_Close = id, op_check = (\<lambda>c. c \<noteq> []), op_ingestError = id\<rparr>"

definition tiny_kernel :: "unit kernel" where "tiny_kernel fd n k = (([7], None), k)"

definition tiny_config :: serve_config where
  "tiny_config = (applyServeConfig None)\<lparr>MaxConns := 2, BatchRead := True\<rparr>"


end
