(* ===== verification/Reactor_Channel.thy ===== *)
theory Reactor_Channel
  imports Reactor
begin

text \<open>
  The reactor over the connections of \<^verbatim>\<open>znet\<close>: \<open>base_ops\<close> is what a \<open>BaseChannel\<close> offers it
  (\<^verbatim>\<open>ztcp\<close> embeds one). First the bytes of a read, written into the ring, parsed in between when
  the ring is full and parsed at the end; then the two ways of reading, one descriptor after
  the other and in batches.
\<close>

definition base_ops :: "'c chan_env \<Rightarrow> int \<Rightarrow> 'c channel channel_ops" where
  "base_ops env now = \<lparr>
     op_write = (\<lambda>p c. case WriteToReadBuffer now p c of None \<Rightarrow> (None, c) | Some ((k, e), c') \<Rightarrow> (Some (k, e \<noteq> None), c')),
     op_parse = (\<lambda>c. case ParseAndDispatch env c of None \<Rightarrow> (None, c) | Some (b, c') \<Rightarrow> (Some b, c')),
     op_begin = BeginReactorRead, op_end = EndReactorRead, op_close = CloseFromReactor, op_Close = CloseC,
     op_check = CheckC now, op_ingestError = connErrorsInc\<rparr>"

section \<open>What a read leaves alone\<close>

definition life :: "'c channel \<Rightarrow> bool \<times> bool \<times> int \<times> bool \<times> bool \<times> bool" where
  "life c = (ch_isClose c, ch_sharedSendHook c, ch_reactorReadDepth c, ch_deferReadBufferRelease c, ch_closeOnce c, ch_finalizeOnce c)"

lemma life_simps [simp]:
  "life (connErrorsInc c) = life c" "life (c\<lparr>ch_readBuffer := x\<rparr>) = life c" "life (c\<lparr>ch_parseData := y\<rparr>) = life c"
  "life (UpdateLastRecTime now c) = life c" "life (bytesRecAdd n c) = life c" "life (snd (handleParsedMessage env c)) = life c"
  by (auto simp: life_def connErrorsInc_def UpdateLastRecTime_def bytesRecAdd_def handleParsedMessage_def Let_def split: option.splits)

lemma parse_one_life: "parse_one env c = Some r \<Longrightarrow> life (snd r) = life c"
  by (auto simp: parse_one_def bind_eq_Some_conv split: option.splits prod.splits)

lemma grow_read_life: "grow_read c = Some g \<Longrightarrow> life (snd g) = life c"
  by (auto simp: grow_read_def bind_eq_Some_conv split: option.splits prod.splits)

lemma dispatch_loop_life:
  assumes "dispatch_loop env c = Some r"
  shows "life (snd r) = life c"
proof (rule dispatch_loop.raw_induct[where P = "\<lambda>env c r. life (snd r) = life c", OF _ assms])
  fix loop :: "'a chan_env \<Rightarrow> 'a channel \<Rightarrow> (bool \<times> 'a channel) option" and env c r
  assume IH: "\<And>e c r. loop e c = Some r \<Longrightarrow> life (snd r) = life c"
    and "Option.bind (parse_one env c) (\<lambda>r.
       (if snd (fst r) \<noteq> None then Some (True, connErrorsInc (snd r))
        else if \<not> fst (fst r) then
          (if ring_full (snd r) then
             Option.bind (grow_read (snd r)) (\<lambda>g. if \<not> fst g then Some (True, snd g) else loop env (snd g))
           else Some (False, snd r))
        else (if fst (handleParsedMessage env (snd r)) then Some (True, snd (handleParsedMessage env (snd r)))
              else loop env (snd (handleParsedMessage env (snd r)))))) = Some r"
  then show "life (snd r) = life c"
    by (auto simp: bind_eq_Some_conv split: if_splits dest!: parse_one_life grow_read_life IH)
qed

lemma write_loop_life:
  assumes "write_loop now p w c = Some r"
  shows "life (snd r) = life c"
proof (rule write_loop.raw_induct[where P = "\<lambda>now p w c r. life (snd r) = life c", OF _ assms], goal_cases)
  case (1 loop now p w c r)
  then show ?case
    by (auto simp: bind_eq_Some_conv Let_def split: if_splits option.splits dest!: grow_read_life 1(1))
qed

lemma base_ops_life:
  "life (snd (op_write (base_ops env now) p c)) = life c" "life (snd (op_parse (base_ops env now) c)) = life c"
  "life (op_ingestError (base_ops env now) c) = life c"
  by (auto simp: base_ops_def WriteToReadBuffer_def ParseAndDispatch_def split: option.splits prod.splits
      dest: write_loop_life dispatch_loop_life)

section \<open>Failing streams\<close>

text \<open>The stream contains a malformed frame, or a body that does not decrypt and ends the connection.\<close>

definition stream_fails :: "'c chan_env \<Rightarrow> byte list \<Rightarrow> bool" where
  "stream_fails env S \<longleftrightarrow> (let (ms, rest, e) = drain (decode_frame (ce_cfg env)) S in snd (deliver env ms) \<or> e \<noteq> None)"

lemma deliver_stopped: "snd (deliver env xs) \<Longrightarrow> deliver env (xs @ ys) = deliver env xs"
  by (induction xs) (auto split: if_splits option.splits)

lemma stream_fails_append:
  assumes "stream_fails env S"
  shows "stream_fails env (S @ X) \<and> delivered_of env (S @ X) = delivered_of env S"
proof -
  obtain ms rest e where d: "drain (decode_frame (ce_cfg env)) S = (ms, rest, e)" by (metis prod_cases3)
  obtain ms' rest' e' where d': "drain (decode_frame (ce_cfg env)) (rest @ X) = (ms', rest', e')" by (metis prod_cases3)
  show ?thesis
  proof (cases e)
    case None
    then have "snd (deliver env ms)" using assms d by (simp add: stream_fails_def)
    then show ?thesis using fr.drain_append[OF d, of X] None d d' deliver_stopped[of env ms ms']
      by (simp add: stream_fails_def delivered_of_def)
  next
    case (Some x)
    then show ?thesis using fr.drain_append[OF d, of X] d assms by (simp add: stream_fails_def delivered_of_def)
  qed
qed

section \<open>From the bytes of a read to the server\<close>

text \<open>\<open>pending env S Y c\<close>: the bytes \<open>S\<close> are parsed, and \<open>Y\<close> stands behind their rest in the ring.\<close>

definition pending :: "'c chan_env \<Rightarrow> byte list \<Rightarrow> byte list \<Rightarrow> 'c channel \<Rightarrow> ring_buffer \<Rightarrow> bool" where
  "pending env S Y c rb \<longleftrightarrow> (\<exists>ms left. ch_readBuffer c = Some rb \<and> rb_inv rb \<and> ring_sized (ce_cfg env) rb
     \<and> drain (decode_frame (ce_cfg env)) S = (ms, left, None) \<and> rb_contents rb = left @ Y
     \<and> deliver env ms = (ch_dispatched c, False) \<and> \<not> ch_isClose c)"

lemma pending_rx: "pending env S [] c rb \<and> rb_used rb < length (rb_buf rb) \<longleftrightarrow>
    rx_state env S c \<and> ch_readBuffer c = Some rb \<and> \<not> ch_isClose c"
  by (auto simp: pending_def rx_state_def)

lemma parse_pending:
  assumes "pending env S Y c rb"
  shows "\<exists>c'. op_parse (base_ops env now) c = (Some (stream_fails env (S @ Y)), c') \<and> ch_dispatched c' = delivered_of env (S @ Y)
     \<and> (\<not> stream_fails env (S @ Y) \<longrightarrow> (\<exists>rb'. pending env (S @ Y) [] c' rb' \<and> rb_used rb' < length (rb_buf rb')
           \<and> length (rb_buf rb) \<le> length (rb_buf rb') \<and> rb_maxSize rb' = rb_maxSize rb))"
proof -
  obtain ms left where p: "ch_readBuffer c = Some rb" "rb_inv rb" "ring_sized (ce_cfg env) rb"
     "drain (decode_frame (ce_cfg env)) S = (ms, left, None)" "rb_contents rb = left @ Y"
     "deliver env ms = (ch_dispatched c, False)" "\<not> ch_isClose c"
    using assms unfolding pending_def by blast
  obtain ms' rest' e where d: "drain (decode_frame (ce_cfg env)) (left @ Y) = (ms', rest', e)" by (metis prod_cases3)
  obtain out stopped where o: "deliver env ms' = (out, stopped)" by fastforce
  note a = rx_append[OF p(4,6) d]
  obtain c' rb' where l: "dispatch_loop env c = Some (stopped \<or> e \<noteq> None, c')" "ch_readBuffer c' = Some rb'" "rb_inv rb'"
    "ch_dispatched c' = ch_dispatched c @ out" "rb_maxSize rb' = rb_maxSize rb"
    "\<not> stopped \<longrightarrow> rb_contents rb' = rest'" "e = None \<and> \<not> stopped \<longrightarrow> rb_used rb' < length (rb_buf rb')"
    "length (rb_buf rb) \<le> length (rb_buf rb')"
    using dispatch_facts[OF p(1-3) d[folded p(5)] o] by blast
  have f: "stream_fails env (S @ Y) \<longleftrightarrow> stopped \<or> e \<noteq> None" using a(1,2) o by (simp add: stream_fails_def)
  have cl: "\<not> ch_isClose c'" using dispatch_loop_life[OF l(1)] p(7) by (simp add: life_def)
  have "pending env (S @ Y) [] c' rb'" if "\<not> (stopped \<or> e \<noteq> None)"
    unfolding pending_def using that l(2-6) a(1,2) o p(3) cl by (auto simp: ring_sized_def)
  then show ?thesis using l p(7) f a(3) o by (auto simp: base_ops_def ParseAndDispatch_def)
qed

lemma pending_bound:
  assumes "pending env S [] c rb" "n + 2 ^ 22 \<le> 2 ^ 60"
  shows "rb_used rb + n + 65536 \<le> 2 ^ 61"
proof -
  obtain ms where p: "ring_sized (ce_cfg env) rb" "drain (decode_frame (ce_cfg env)) S = (ms, rb_contents rb, None)"
    using assms unfolding pending_def by auto
  have "int (length (rb_contents rb)) < RingBufferMaxSizeForSocket (ce_cfg env)"
    using fr.drain_left_over[OF p(2)] p(1) by (intro need_more_short) (auto simp: ring_sized_def)
  moreover have "RingBufferMaxSizeForSocket (ce_cfg env) \<le> 2 ^ 60 + 2 ^ 21"
    using p(1) by (auto simp: ring_sized_def RingBufferMaxSizeForSocket_def Let_def DefaultMaxDataLength_def
        headerSizeV0_def headerSizeV1_def)
  ultimately show ?thesis using assms(2) by simp
qed

text \<open>A write into a ring that has room takes something; what it does not take waits behind a ring at its limit.\<close>

lemma write_pending:
  assumes p: "pending env S [] c rb" and room: "rb_used rb < length (rb_buf rb)" and X: "X \<noteq> []"
    and l: "length X + 2 ^ 22 \<le> 2 ^ 60" and nc: "\<not> grow_capped (length X) rb"
  shows "\<exists>k c1 rb1. op_write (base_ops env now) X c = (Some (k, k \<noteq> length X), c1) \<and> 0 < k \<and> k \<le> length X
     \<and> pending env S (take k X) c1 rb1 \<and> rb_used rb1 + (length X - k) + 65536 \<le> 2 ^ 61
     \<and> (k < length X \<longrightarrow> rb_used rb1 = length (rb_buf rb1) \<and> 0 < rb_maxSize rb1 \<and> unat (rb_maxSize rb1) \<le> length (rb_buf rb1))"
proof -
  obtain ms where q: "ch_readBuffer c = Some rb" "rb_inv rb" "ring_sized (ce_cfg env) rb"
     "drain (decode_frame (ce_cfg env)) S = (ms, rb_contents rb, None)" "deliver env ms = (ch_dispatched c, False)" "\<not> ch_isClose c"
    using p unfolding pending_def by auto
  note b = pending_bound[OF p l]
  obtain k c1 rb1 where w: "WriteToReadBuffer now X c = Some ((k, if k = length X then None else Some ErrBufferFull), c1)"
     "k \<le> length X" "ch_readBuffer c1 = Some rb1" "rb_inv rb1" "rb_contents rb1 = rb_contents rb @ take k X"
     "rb_maxSize rb1 = rb_maxSize rb" "ch_dispatched c1 = ch_dispatched c" "ch_isClose c1 = ch_isClose c"
     "length (rb_buf rb) \<le> length (rb_buf rb1)"
     "k < length X \<longrightarrow> rb_used rb1 = length (rb_buf rb1) \<and> 0 < rb_maxSize rb \<and> unat (rb_maxSize rb) \<le> length (rb_buf rb1)"
    using WriteToReadBuffer_facts[OF q(1,2) b nc q(6)] by blast
  have u: "rb_used rb1 = rb_used rb + k" unfolding rb_used_contents w(5) using w(2) by simp
  have "0 < k"
  proof (rule ccontr)
    assume "\<not> 0 < k"
    then show False using u w(9,10) room X by simp
  qed
  moreover have "pending env S (take k X) c1 rb1"
    unfolding pending_def using w(3-8) q by (auto simp: ring_sized_def)
  moreover have "rb_used rb1 + (length X - k) + 65536 \<le> 2 ^ 61" using u w(2) b by simp
  ultimately show ?thesis using w by (auto simp: base_ops_def)
qed

text \<open>The loop of \<open>writeConnBytes\<close>: it puts everything into the ring, or it ends the connection for a reason.\<close>

lemma write_conn_loop_facts:
  "pending env S [] c rb \<Longrightarrow> rb_used rb < length (rb_buf rb) \<Longrightarrow> off < length p \<Longrightarrow> length p + 2 ^ 22 \<le> 2 ^ 60 \<Longrightarrow>
   \<not> grow_capped (length p - off) rb \<Longrightarrow>
   (\<exists>c1 S' Y rb1. write_conn_loop (base_ops env now) p off drained c = (Some False, c1)
      \<and> S' @ Y = S @ drop off p \<and> pending env S' Y c1 rb1)
   \<or> (\<exists>c1. write_conn_loop (base_ops env now) p off drained c = (Some True, c1)
      \<and> stream_fails env (S @ drop off p) \<and> ch_dispatched c1 = delivered_of env (S @ drop off p))"
proof (induction "length p - off" arbitrary: S c rb off drained rule: less_induct)
  case less
  let ?X = "drop off p" and ?ops = "base_ops env now"
  have X: "?X \<noteq> []" "length ?X + 2 ^ 22 \<le> 2 ^ 60" "\<not> grow_capped (length ?X) rb" using less.prems by auto
  obtain k c1 rb1 where w: "op_write ?ops ?X c = (Some (k, k \<noteq> length ?X), c1)" "0 < k" "k \<le> length ?X"
     "pending env S (take k ?X) c1 rb1" "rb_used rb1 + (length ?X - k) + 65536 \<le> 2 ^ 61"
     "k < length ?X \<longrightarrow> rb_used rb1 = length (rb_buf rb1) \<and> 0 < rb_maxSize rb1 \<and> unat (rb_maxSize rb1) \<le> length (rb_buf rb1)"
    using write_pending[OF less.prems(1,2) X, of now] by blast
  show ?case
  proof (cases "k = length ?X")
    case True
    then have "write_conn_loop ?ops p off drained c = (Some False, c1)"
      using w(1) less.prems(3) by (subst write_conn_loop.simps) simp
    then show ?thesis using w(4) True by (intro disjI1 exI[of _ c1] exI[of _ S] exI[of _ ?X] exI[of _ rb1]) simp
  next
    case False
    let ?Y = "take k ?X" and ?Z = "drop (off + k) p"
    have kl: "off + k < length p" using w(3) False by simp
    have XZ: "S @ ?X = (S @ ?Y) @ ?Z"
      using append_take_drop_id[of k ?X] by (simp add: drop_drop add.commute)
    have lim: "rb_used rb1 = length (rb_buf rb1)" "0 < rb_maxSize rb1" "unat (rb_maxSize rb1) \<le> length (rb_buf rb1)"
      using w(3,6) False by auto
    have q: "ch_readBuffer c1 = Some rb1" "rb_inv rb1" "\<not> ch_isClose c1" using w(4) by (auto simp: pending_def)
    have "0 < length ?Z" "rb_used rb1 + length ?Z + 65536 \<le> 2 ^ 62" using kl w(5) by auto
    then obtain c2 where c2: "write_loop now ?Z 0 c1 = Some ((0, Some ErrBufferFull), c2)" "ch_readBuffer c2 = Some rb1"
      "ch_dispatched c2 = ch_dispatched c1"
      using write_loop_at_limit[OF q(1,2) lim, of 0 ?Z now] by auto
    have op2: "op_write ?ops ?Z c1 = (Some (0, True), c2)" using c2(1) q(3) by (simp add: base_ops_def WriteToReadBuffer_def)
    have "ch_isClose c2 = ch_isClose c1" using write_loop_life[OF c2(1)] by (simp add: life_def)
    then have p2: "pending env S ?Y c2 rb1" using w(4) c2 by (auto simp: pending_def)
    obtain c3 where c3: "op_parse ?ops c2 = (Some (stream_fails env (S @ ?Y)), c3)" "ch_dispatched c3 = delivered_of env (S @ ?Y)"
      "\<not> stream_fails env (S @ ?Y) \<longrightarrow> (\<exists>rb'. pending env (S @ ?Y) [] c3 rb' \<and> rb_used rb' < length (rb_buf rb')
           \<and> length (rb_buf rb1) \<le> length (rb_buf rb') \<and> rb_maxSize rb' = rb_maxSize rb1)"
      using parse_pending[OF p2, of now] by blast
    have step: "write_conn_loop ?ops p off drained c =
        (if stream_fails env (S @ ?Y) then (Some True, c3) else write_conn_loop ?ops p (off + k) True c3)"
    proof -
      have "write_conn_loop ?ops p off drained c = write_conn_loop ?ops p (off + k) False c1"
        using w(1,2) kl less.prems(3) by (subst write_conn_loop.simps) simp
      also have "\<dots> = (if stream_fails env (S @ ?Y) then (Some True, c3) else write_conn_loop ?ops p (off + k) True c3)"
        using op2 c3(1) kl by (subst write_conn_loop.simps) (simp split: bool.splits)
      finally show ?thesis .
    qed
    show ?thesis
    proof (cases "stream_fails env (S @ ?Y)")
      case True
      show ?thesis unfolding XZ step using True c3(2) stream_fails_append[OF True, of ?Z]
        by (intro disjI2 exI[of _ c3]) simp
    next
      case nf: False
      then obtain rb' where r: "pending env (S @ ?Y) [] c3 rb'" "rb_used rb' < length (rb_buf rb')"
           "length (rb_buf rb1) \<le> length (rb_buf rb')" "rb_maxSize rb' = rb_maxSize rb1" using c3(3) by blast
      have nc: "\<not> grow_capped (length p - (off + k)) rb'" using r(3,4) lim(3) by (simp add: grow_capped_def)
      have lt: "length p - (off + k) < length p - off" using w(2) kl by simp
      from less.hyps[OF lt r(1,2) kl less.prems(4) nc, of True] show ?thesis
        unfolding XZ step using nf by (simp only: if_False)
    qed
  qed
qed

text \<open>
  C5: End to end, from the descriptor to the server. Let the bytes \<open>S\<close> of a connection have been
  parsed. When the reactor has read the bytes \<open>X\<close>, it returns (it neither panics nor loops)
  with the server handed exactly the decrypted messages of \<open>S @ X\<close>, in order and each once,
  also when the ring is too small for \<open>X\<close> and has to be parsed in between. It asks for the close of
  the connection exactly when the stream has a malformed frame or a body that may not pass; if not, all
  of \<open>X\<close> is consumed and the next read starts from the same state. A ring limit that cuts growth
  short is excluded (see the overrun of \<open>Write\<close>).
\<close>

theorem reactor_ingest_delivers:
  assumes "rx_state env S c" "\<not> ch_isClose c" "length X + 2 ^ 22 \<le> 2 ^ 60"
    and "\<forall>rb. ch_readBuffer c = Some rb \<longrightarrow> \<not> grow_capped (length X) rb"
  shows "\<exists>c'. ingestConnReadAndDispatch (base_ops env now) X c = (stream_fails env (S @ X), c')
     \<and> ch_dispatched c' = delivered_of env (S @ X)
     \<and> (\<not> stream_fails env (S @ X) \<longrightarrow> rx_state env (S @ X) c' \<and> \<not> ch_isClose c')"
proof -
  let ?ops = "base_ops env now"
  obtain rb where rb: "pending env S [] c rb" "rb_used rb < length (rb_buf rb)" "ch_readBuffer c = Some rb"
    using assms(1,2) pending_rx[of env S c] by (metis rx_state_def)
  have finish: ?thesis if w: "writeConnBytes ?ops X c = (Some False, c1)" and e: "S' @ Y = S @ X" and p: "pending env S' Y c1 rb1"
    for c1 S' Y rb1
  proof -
    obtain c' where c': "op_parse ?ops c1 = (Some (stream_fails env (S @ X)), c')" "ch_dispatched c' = delivered_of env (S @ X)"
      "\<not> stream_fails env (S @ X) \<longrightarrow> (\<exists>rb'. pending env (S @ X) [] c' rb' \<and> rb_used rb' < length (rb_buf rb'))"
      using parse_pending[OF p, of now] unfolding e by blast
    then have "\<not> stream_fails env (S @ X) \<longrightarrow> rx_state env (S @ X) c' \<and> \<not> ch_isClose c'"
      using pending_rx[of env "S @ X" c'] by blast
    then show ?thesis using w c' by (simp add: ingestConnReadAndDispatch_def)
  qed
  show ?thesis
  proof (cases "X = []")
    case True
    then show ?thesis using finish[of c S "[]" rb] rb(1) by (simp add: writeConnBytes_def)
  next
    case False
    then have W: "writeConnBytes ?ops X c = write_conn_loop ?ops X 0 False c" "0 < length X" by (auto simp: writeConnBytes_def)
    have nc: "\<not> grow_capped (length X - 0) rb" using assms(4) rb(3) by simp
    from write_conn_loop_facts[OF rb(1,2) W(2) assms(3) nc, of now False]
    consider c1 S' Y rb1 where "writeConnBytes ?ops X c = (Some False, c1)" "S' @ Y = S @ X" "pending env S' Y c1 rb1"
      | c1 where "writeConnBytes ?ops X c = (Some True, c1)" "stream_fails env (S @ X)" "ch_dispatched c1 = delivered_of env (S @ X)"
      unfolding W(1) by auto
    then show ?thesis
    proof cases
      case 1
      then show ?thesis by (rule finish)
    next
      case 2
      then show ?thesis by (simp add: ingestConnReadAndDispatch_def)
    qed
  qed
qed

section \<open>Batches\<close>

text \<open>
  What the read marks of a channel owe the reactor: between \<open>BeginReactorRead\<close> and
  \<open>EndReactorRead\<close> a close may be moved behind the end, and an empty read leaves no trace.
\<close>

locale reactor_channel =
  fixes ops :: "'ch channel_ops" and outside inside :: "'ch \<Rightarrow> bool"
  assumes begin_inside: "outside c \<Longrightarrow> inside (op_begin ops c)"
    and end_begin: "outside c \<Longrightarrow> op_end ops (op_begin ops c) = c"
    and write_inside: "inside c \<Longrightarrow> inside (snd (op_write ops p c))"
    and parse_inside: "inside c \<Longrightarrow> inside (snd (op_parse ops c))"
    and error_inside: "inside c \<Longrightarrow> inside (op_ingestError ops c)"
    and close_end: "inside c \<Longrightarrow> op_end ops (op_close ops c) = op_close ops (op_end ops c)"
    and end_outside: "inside c \<Longrightarrow> outside (op_end ops c)"
begin

lemma write_conn_loop_inside: "inside c \<Longrightarrow> inside (snd (write_conn_loop ops p off drained c))"
proof (induction "2 * (length p - off) + (if drained then 0 else 1 :: nat)" arbitrary: off drained c rule: less_induct)
  case less
  obtain w c1 where w: "op_write ops (drop off p) c = (w, c1)" by fastforce
  obtain b c2 where b: "op_parse ops c1 = (b, c2)" by fastforce
  have i: "inside c1" "inside c2"
    using write_inside[OF less.prems, of "drop off p"] parse_inside[of c1] w b by auto
  have go: "inside (snd (write_conn_loop ops p (off + n) False c1))" if "0 < n" "off < length p" for n
    using less.hyps[of "off + n" False c1] that i(1) by (auto split: if_splits)
  have again: "inside (snd (write_conn_loop ops p off True c2))" if "\<not> drained"
    using less.hyps[of off True c2] that i(2) by auto
  show ?case
    using less.prems i go again error_inside[OF i(1)]
    by (subst write_conn_loop.simps) (auto simp: w b split: option.splits bool.splits)
qed

lemma ingest_inside: "inside c \<Longrightarrow> inside (snd (ingestConnReadAndDispatch ops p c))"
proof -
  assume c: "inside c"
  obtain b c1 where w: "writeConnBytes ops p c = (b, c1)" by fastforce
  have "inside c1" using c write_conn_loop_inside[OF c, of p 0 False] w by (auto simp: writeConnBytes_def split: if_splits)
  then show ?thesis using parse_inside[of c1] by (cases "op_parse ops c1") (auto simp: ingestConnReadAndDispatch_def w split: option.splits bool.splits)
qed

lemma close_outside: "outside c \<Longrightarrow> op_end ops (op_close ops (op_begin ops c)) = op_close ops c"
  using close_end[OF begin_inside] end_begin by simp

lemma on_chan_on_chan: "on_chan r f (on_chan r g s) = on_chan r (\<lambda>c. f (g c)) s"
  by (simp add: on_chan_def)

lemma on_chan_report: "on_chan r f (reportReadErr fd er s) = reportReadErr fd er (on_chan r f s)"
  by (simp add: on_chan_def reportReadErr_def)

lemma close_then_end:
  "inside (re_chan s (en_ch e)) \<Longrightarrow>
     on_chan (en_ch e) (op_end ops) (closeConn ops fd e s) = closeConn ops fd e (on_chan (en_ch e) (op_end ops) s)"
  by (simp add: closeConn_def Let_def on_chan_def poller_Remove_def close_end)

lemma close_report_then_end:
  "inside (re_chan s (en_ch e)) \<Longrightarrow> on_chan (en_ch e) (op_end ops) (closeConn ops fd e (reportReadErr fd x s))
     = closeConn ops fd e (reportReadErr fd x (on_chan (en_ch e) (op_end ops) s))"
  using close_then_end[of "reportReadErr fd x s" e fd] by (simp add: on_chan_report) (simp add: reportReadErr_def)

lemma begin_end: "outside (re_chan s r) \<Longrightarrow> on_chan r (op_end ops) (on_chan r (op_begin ops) s) = s"
  by (simp add: on_chan_def end_begin)

lemma handle_as_batch:
  assumes out: "\<And>e. FGet fd (re_fds s) = Some e \<Longrightarrow> outside (re_chan s (en_ch e))"
  shows "handleConnRead ops kn fd (s, k) = batchReadAndParse ops kn [fd] (s, k)"
proof (cases "FGet fd (re_fds s)")
  case None
  then show ?thesis by (simp add: handleConnRead_def batchReadAndParse_def batch_result_def)
next
  case (Some e)
  obtain bs err k1 where k: "kn fd (en_readBufSize e) k = ((bs, err), k1)" by (metis prod.collapse)
  let ?s0 = "on_chan (en_ch e) (op_begin ops) s"
  obtain close s1 where i: "ingest_conn ops fd e bs ?s0 = (close, s1)" by fastforce
  have o: "outside (re_chan s (en_ch e))" using out Some by blast
  have i0: "inside (re_chan ?s0 (en_ch e))" using begin_inside[OF o] by (simp add: on_chan_def)
  have "inside (re_chan s1 (en_ch e))"
    using ingest_inside[OF begin_inside[OF o], of bs] i
    by (auto simp: ingest_conn_def reportReadBytes_def on_chan_def Let_def case_prod_beta)
  then have c1: "on_chan (en_ch e) (op_end ops) (closeConn ops fd e s1) = closeConn ops fd e (on_chan (en_ch e) (op_end ops) s1)"
    "on_chan (en_ch e) (op_end ops) (closeConn ops fd e (reportReadErr fd x s1))
      = closeConn ops fd e (reportReadErr fd x (on_chan (en_ch e) (op_end ops) s1))" for x
    by (simp_all add: close_then_end close_report_then_end)
  have c0: "on_chan (en_ch e) (op_end ops) (closeConn ops fd e ?s0) = closeConn ops fd e s"
    "on_chan (en_ch e) (op_end ops) (closeConn ops fd e (reportReadErr fd x ?s0)) = closeConn ops fd e (reportReadErr fd x s)" for x
    using i0 begin_end[of s "en_ch e"] o by (simp_all add: close_then_end close_report_then_end)
  show ?thesis
    using c0 c1 begin_end[of s "en_ch e"] o
    by (cases "bs = []"; cases err; cases close)
      (simp_all add: handleConnRead_def batchReadAndParse_def batch_result_def Some k i Let_def)
qed


lemma batch_result_chan:
  "r \<noteq> (case snd x of None \<Rightarrow> r + 1 | Some (e, y) \<Rightarrow> en_ch e) \<Longrightarrow> re_chan (batch_result ops x s) r = re_chan s r"
  by (auto simp: batch_result_def Let_def case_prod_beta closeConn_def on_chan_def poller_Remove_def reportReadErr_def
      ingest_conn_def reportReadBytes_def split: option.splits prod.splits)

lemma batch_reads_cong:
  "(\<And>fd. fd \<in> set fds \<Longrightarrow> FGet fd m = FGet fd m') \<Longrightarrow> batch_reads kn m fds k = batch_reads kn m' fds k"
  by (induction fds arbitrary: k) (auto split: option.splits)

lemma batch_Cons:
  "batchReadAndParse ops kn (fd # fds) (s, k) =
     (let (rs, k1) = batch_reads kn (re_fds s) [fd] k; (rs', k2) = batch_reads kn (re_fds s) fds k1
      in (fold (batch_result ops) rs' (fold (batch_result ops) rs s), k2))"
  by (cases "FGet fd (re_fds s)") (auto simp: batchReadAndParse_def Let_def case_prod_beta)

lemma batch_as_single:
  assumes "reactor_ok cfg s" "distinct fds"
    and "\<And>fd e. fd \<in> set fds \<Longrightarrow> FGet fd (re_fds s) = Some e \<Longrightarrow> outside (re_chan s (en_ch e))"
  shows "batchReadAndParse ops kn fds (s, k) = fold (handleConnRead ops kn) fds (s, k)"
  using assms
proof (induction fds arbitrary: s k)
  case (Cons fd fds)
  obtain rs k1 where r: "batch_reads kn (re_fds s) [fd] k = (rs, k1)" by fastforce
  have m: "map fst rs = [fd]" and en: "\<forall>x \<in> set rs. case x of (fd, None) \<Rightarrow> FGet fd (re_fds s) = None
     | (fd, Some (e, r)) \<Rightarrow> FGet fd (re_fds s) = Some e"
    using batch_reads_entries[OF r] by blast+
  obtain y where y: "rs = [(fd, y)]" using m by (cases rs; cases "hd rs") auto
  have rs: "rs = [(fd, y)]" "case (fd, y) of (fd, None) \<Rightarrow> FGet fd (re_fds s) = None
     | (fd, Some (e, r)) \<Rightarrow> FGet fd (re_fds s) = Some e"
    using en unfolding y by auto
  define s1 where "s1 = batch_result ops (fd, y) s"
  have h: "handleConnRead ops kn fd (s, k) = (s1, k1)"
  proof -
    have "outside (re_chan s (en_ch e))" if "FGet fd (re_fds s) = Some e" for e using that by (rule Cons.prems(3)[rotated]) simp
    from handle_as_batch[where kn = kn and k = k, OF this] show ?thesis using r rs(1) by (simp add: batchReadAndParse_def s1_def)
  qed
  have ok: "reactor_ok cfg s1" "\<And>fd'. fd' \<noteq> fd \<Longrightarrow> FGet fd' (re_fds s1) = FGet fd' (re_fds s)"
    using batch_result_ok[OF Cons.prems(1) rs(2), of ops] by (auto simp: s1_def)
  have out: "outside (re_chan s1 (en_ch e))" if "fd' \<in> set fds" "FGet fd' (re_fds s1) = Some e" for fd' e
  proof -
    have ne: "fd' \<noteq> fd" using that(1) Cons.prems(2) by auto
    have f: "fd' \<noteq> fd" "FGet fd' (re_fds s) = Some e" using ne ok(2)[OF ne] that(2) by auto
    have "en_ch e \<noteq> en_ch e'" if "y = Some (e', z)" for e' z
      using Cons.prems(1) rs(2) f that unfolding reactor_ok_def table_ok_def by auto
    then have "re_chan s1 (en_ch e) = re_chan s (en_ch e)"
      unfolding s1_def by (intro batch_result_chan) (auto split: option.splits)
    then show ?thesis using Cons.prems(3)[OF _ f(2)] that(1) by simp
  qed
  have d: "distinct fds" "fd \<notin> set fds" using Cons.prems(2) by auto
  have "batch_reads kn (re_fds s) fds k1 = batch_reads kn (re_fds s1) fds k1"
    by (rule batch_reads_cong) (use d ok(2) in metis)
  then have "batchReadAndParse ops kn (fd # fds) (s, k) = batchReadAndParse ops kn fds (s1, k1)"
    unfolding batch_Cons using r rs(1) by (simp add: s1_def batchReadAndParse_def case_prod_beta Let_def)
  then show ?case using Cons.IH[OF ok(1) d(1) out] h by simp
qed (simp add: batchReadAndParse_def)

end

text \<open>A channel outside and inside a read of the reactor.\<close>

definition not_reading :: "'c channel \<Rightarrow> bool" where
  "not_reading c \<longleftrightarrow> ch_reactorReadDepth c = 0 \<and> \<not> ch_deferReadBufferRelease c \<and> (ch_closeOnce c \<longrightarrow> ch_isClose c)
     \<and> (ch_finalizeOnce c \<longrightarrow> ch_isClose c)"

definition reading :: "'c channel \<Rightarrow> bool" where
  "reading c \<longleftrightarrow> ch_reactorReadDepth c = (if ch_sharedSendHook c then 1 else 0) \<and> \<not> ch_deferReadBufferRelease c
     \<and> (ch_closeOnce c \<longrightarrow> ch_isClose c) \<and> (ch_finalizeOnce c \<longrightarrow> ch_isClose c)"

lemma reading_life: "life c = life c' \<Longrightarrow> reading c = reading c'"
  by (simp add: life_def reading_def)

lemma EndReactorRead_close: "reading c \<Longrightarrow> EndReactorRead (CloseFromReactor c) = CloseFromReactor (EndReactorRead c)"
  by (cases "ch_isClose c"; cases "ch_sharedSendHook c"; cases "ch_mailBoxQueue c"; cases "ch_readBuffer c"; cases "ch_sharedSendCloseDone c"; cases "ch_sharedSendPending c")
    (auto simp: reading_def EndReactorRead_def CloseFromReactor_def doClose_def closeBody_def finalize_once_def finalizeCloseTail_def
      finalizeSharedSendClose_def enqueueSharedSendClose_def releaseReadBuffer_def with_mailbox_def Let_def)

interpretation bc: reactor_channel "base_ops env now" not_reading reading for env now
proof (unfold_locales, goal_cases)
  case (3 c p)
  then show ?case using reading_life[OF base_ops_life(1)[of env now p c]] by simp
next
  case (4 c)
  then show ?case using reading_life[OF base_ops_life(2)[of env now c]] by simp
next
  case (5 c)
  then show ?case using reading_life[OF base_ops_life(3)[of env now c]] by simp
next
  case (6 c)
  then show ?case by (simp add: base_ops_def EndReactorRead_close)
qed (auto simp: base_ops_def BeginReactorRead_def EndReactorRead_def not_reading_def reading_def Let_def)

text \<open>
  C19: reading in batches changes nothing. In a state with its accounts in order and
  none of its channels inside a read, for descriptors that are reported once, reading them all first and then parsing what came gives exactly the
  state, the kernel's included, that handling them one after the other gives: the same
  messages, closed connections, returned rings, errors and counters, for every kernel.
\<close>

theorem batch_read_as_single:
  assumes "reactor_ok cfg s" "distinct fds"
    and "\<forall>fd e. FGet fd (re_fds s) = Some e \<longrightarrow> not_reading (re_chan s (en_ch e))"
  shows "batchReadAndParse (base_ops env now) kn fds (s, k) = fold (handleConnRead (base_ops env now) kn) fds (s, k)"
  using assms by (intro bc.batch_as_single) auto

text \<open>Two fresh connections, and a kernel that answers a read with a complete frame.\<close>

definition sample_reactor :: "byte list channel reactor" where
  "sample_reactor = snd (acceptConn (base_ops sample_env 0) defaultServeConfig 0
     [Taken 9 (sample_channel []), Taken 8 (sample_channel [])] (new_reactor (\<lambda>_. sample_channel [])))"

lemma sample_reactor_facts: "reactor_ok defaultServeConfig sample_reactor" "re_chan sample_reactor r = sample_channel []" "re_accepts sample_reactor = 2"
proof -
  show "reactor_ok defaultServeConfig sample_reactor" unfolding sample_reactor_def by (intro acceptConn_ok new_reactor_ok)
  show "re_chan sample_reactor r = sample_channel []" "re_accepts sample_reactor = 2"
    by (simp_all add: sample_reactor_def new_reactor_def new_channel_def add_conn_def defaultServeConfig_def maxAcceptPerTurn_def)
qed

theorem batch_read_as_single_witness:
  "batchReadAndParse (base_ops sample_env 5) (\<lambda>fd n k. (([0, 0, 0, 7, 0, 0, 0, 1, 0, 0, 0, 1, 65], None), k)) [9, 8] (sample_reactor, ())
     = fold (handleConnRead (base_ops sample_env 5) (\<lambda>fd n k. (([0, 0, 0, 7, 0, 0, 0, 1, 0, 0, 0, 1, 65], None), k))) [9, 8] (sample_reactor, ())
   \<and> re_accepts sample_reactor = 2"
proof -
  have "not_reading (sample_channel [])" by (simp add: not_reading_def sample_channel_def NewBaseChannel_def)
  then show ?thesis
    using sample_reactor_facts by (intro conjI batch_read_as_single[where cfg = defaultServeConfig]) auto
qed

theorem reactor_ingest_delivers_witness:
  "\<exists>c'. ingestConnReadAndDispatch (base_ops sample_env 5) [0, 0, 0, 7, 0, 0, 0, 1, 0, 0, 0, 1, 65] (sample_channel [])
       = (stream_fails sample_env [0, 0, 0, 7, 0, 0, 0, 1, 0, 0, 0, 1, 65], c')
     \<and> ch_dispatched c' = [(7, 1, [65])]"
proof -
  let ?X = "[0, 0, 0, 7, 0, 0, 0, 1, 0, 0, 0, 1, 65] :: byte list"
  have op: "\<not> ch_isClose (sample_channel [])" by (simp add: sample_channel_def NewBaseChannel_def)
  have l: "length ?X + 2 ^ 22 \<le> 2 ^ 60" by simp
  have nc: "\<forall>rb. ch_readBuffer (sample_channel []) = Some rb \<longrightarrow> \<not> grow_capped (length ?X) rb"
    using sample_not_capped[of "length ?X"] by simp
  from reactor_ingest_delivers[OF sample_rx op l nc, of 5] show ?thesis
    unfolding append_Nil sample_delivered by blast
qed

end
