(* ===== verification/SPSC_Ring.thy ===== *)
theory SPSC_Ring
  imports Bounded_Queue
begin

text \<open>
  \<^verbatim>\<open>zqueue/spsc.go\<close>: the bounded ring between one producer and one consumer, with each
  side's cached copy of the other's counter. As for the queue with many producers, a step
  is one atomic access of the code; the copy into the ring, the copy out of it and the
  clearing of what was read are a step each. The back-off between two turns of a waiting
  loop has no effect on the state.
\<close>

section \<open>State and construction\<close>

record 'a sring =
  sp_head :: u64
  sp_tailCache :: u64
  sp_tail :: u64
  sp_headCache :: u64
  sp_closed :: bool
  sp_mask :: u64
  sp_buffer :: "'a list"

definition maxCapacity :: int where "maxCapacity = 2 ^ 30"

definition isPowerOfTwo :: "int \<Rightarrow> bool" where "isPowerOfTwo x \<longleftrightarrow> x AND (x - 1) = 0"

definition spsc_capacity :: "int \<Rightarrow> int" where
  "spsc_capacity capacity =
     (let capacity = (if capacity < 2 then 2 else capacity);
          capacity = (if capacity > maxCapacity then maxCapacity else capacity)
      in if \<not> isPowerOfTwo capacity then nextPowerOfTwo capacity else capacity)"

definition NewSPSCQueue :: "int \<Rightarrow> 'a::zero sring" where
  "NewSPSCQueue capacity =
     (let capacity = spsc_capacity capacity
      in \<lparr>sp_head = 0, sp_tailCache = 0, sp_tail = 0, sp_headCache = 0, sp_closed = False,
          sp_mask = word_of_int (capacity - 1), sp_buffer = replicate (nat capacity) 0\<rparr>)"

definition SClose :: "'a sring \<Rightarrow> 'a sring" where "SClose q = q\<lparr>sp_closed := True\<rparr>"

definition SIsClosed :: "'a sring \<Rightarrow> bool" where "SIsClosed q = sp_closed q"

text \<open>\<open>Len\<close> reads the tail and then the head.\<close>

definition SLen :: "'a sring \<Rightarrow> 'a sring \<Rightarrow> int" where
  "SLen at_tail at_head = sint (sp_head at_head - sp_tail at_tail)"

section \<open>The producer\<close>

text \<open>
  \<open>single\<close> tells \<open>Enqueue\<close> and \<open>TryEnqueue\<close> (one item) from the batch calls, \<open>once\<close> the
  Try calls from those that wait.
\<close>

definition no_room :: "bool \<Rightarrow> 'a list \<Rightarrow> u64 \<Rightarrow> 'a sring \<Rightarrow> bool" where
  "no_room single xs known_tail q =
     (let capacity = sp_mask q + 1; tailLimit = known_tail + capacity
      in if single then sp_head q \<ge> tailLimit else sp_head q + of_nat (length xs) > tailLimit)"

definition copy_in :: "bool \<Rightarrow> 'a list \<Rightarrow> 'a sring \<Rightarrow> 'a sring" where
  "copy_in single xs q =
     (let offset = sp_head q AND sp_mask q in
      if single then q\<lparr>sp_buffer := (sp_buffer q)[unat offset := hd xs]\<rparr>
      else let count = length xs; toEnd = unat (sp_mask q + 1 - offset)
           in if count \<le> toEnd then q\<lparr>sp_buffer := go_copy (sp_buffer q) (unat offset) xs\<rparr>
              else q\<lparr>sp_buffer := go_copy (go_copy (sp_buffer q) (unat offset) (take toEnd xs)) 0 (drop toEnd xs)\<rparr>)"

datatype 'a spc = SReturned bool
  | SStart bool bool "'a list" | SCheck bool bool "'a list" | SLoad bool bool "'a list"
  | SSpin bool "'a list" | SSpinTail bool "'a list" | SCopy bool "'a list" | SStore "'a list"

definition SEnqueue :: "'a \<Rightarrow> 'a spc" where "SEnqueue x = SStart True False [x]"
definition STryEnqueue :: "'a \<Rightarrow> 'a spc" where "STryEnqueue x = SStart True True [x]"
definition SEnqueueBatch :: "'a list \<Rightarrow> 'a spc" where "SEnqueueBatch xs = SStart False False xs"
definition STryEnqueueBatch :: "'a list \<Rightarrow> 'a spc" where "STryEnqueueBatch xs = SStart False True xs"

fun sprod :: "'a sring \<Rightarrow> 'a spc \<Rightarrow> 'a sring \<times> 'a spc" where
  "sprod q (SStart single once xs) = (if sp_closed q then (q, SReturned False) else (q, SCheck single once xs))"
| "sprod q (SCheck single once xs) =
     (if \<not> single \<and> xs = [] then (q, SReturned True)
      else if no_room single xs (sp_tailCache q) q then (q, SLoad single once xs)
      else (q, SCopy single xs))"
| "sprod q (SLoad single once xs) =
     (let realTail = sp_tail q in
      if no_room single xs realTail q
      then (if once then (q, SReturned False) else (q, SSpin single xs))
      else (q\<lparr>sp_tailCache := realTail\<rparr>, SCopy single xs))"
| "sprod q (SSpin single xs) = (if sp_closed q then (q, SReturned False) else (q, SSpinTail single xs))"
| "sprod q (SSpinTail single xs) =
     (let realTail = sp_tail q in
      if \<not> no_room single xs realTail q then (q\<lparr>sp_tailCache := realTail\<rparr>, SCopy single xs)
      else (q, SSpin single xs))"
| "sprod q (SCopy single xs) = (copy_in single xs q, SStore xs)"
| "sprod q (SStore xs) = (q\<lparr>sp_head := sp_head q + of_nat (length xs)\<rparr>, SReturned True)"
| "sprod q (SReturned ok) = (q, SReturned ok)"

section \<open>The consumer\<close>

definition copy_out :: "nat \<Rightarrow> 'a sring \<Rightarrow> 'a list" where
  "copy_out batchSize q =
     (let offset = unat (sp_tail q AND sp_mask q); toEnd = unat (sp_mask q + 1) - offset
      in if batchSize \<le> toEnd then take batchSize (drop offset (sp_buffer q))
         else drop offset (sp_buffer q) @ take (batchSize - toEnd) (sp_buffer q))"

definition clear_out :: "nat \<Rightarrow> 'a::zero sring \<Rightarrow> 'a sring" where
  "clear_out batchSize q =
     (let offset = unat (sp_tail q AND sp_mask q); toEnd = unat (sp_mask q + 1) - offset
      in if batchSize \<le> toEnd then q\<lparr>sp_buffer := go_clear (sp_buffer q) offset (offset + batchSize)\<rparr>
         else q\<lparr>sp_buffer := go_clear (go_clear (sp_buffer q) offset (offset + toEnd)) 0 (batchSize - toEnd)\<rparr>)"

text \<open>
  \<open>KDone xs ok\<close> is the end of a call that returned the items \<open>xs\<close>. \<open>Dequeue\<close> is the waiting
  removal of one item: it makes the same accesses as a batch of one, and the slice
  expressions of the batch are then the one index it reads and clears.
\<close>

datatype 'a scc = KDone "'a list" bool
  | KLoad bool nat | KTryClosed | KSpin nat | KSpinClosed nat | KSpinHead nat
  | KRead nat | KClear "'a list" | KStore "'a list"

definition take_count :: "u64 \<Rightarrow> 'a sring \<Rightarrow> nat \<Rightarrow> nat" where
  "take_count known_head q limit = min (unat (known_head - sp_tail q)) limit"

definition scall :: "bool \<Rightarrow> nat \<Rightarrow> 'a sring \<Rightarrow> 'a scc" where
  "scall once limit q =
     (if limit = 0 then KDone [] True
      else if sp_tail q < sp_headCache q then KRead (take_count (sp_headCache q) q limit)
      else KLoad once limit)"

definition SDequeueBatch :: "nat \<Rightarrow> 'a sring \<Rightarrow> 'a scc" where "SDequeueBatch limit q = scall False limit q"
definition STryDequeueBatch :: "nat \<Rightarrow> 'a sring \<Rightarrow> 'a scc" where "STryDequeueBatch limit q = scall True limit q"
definition SDequeue :: "'a sring \<Rightarrow> 'a scc" where "SDequeue q = scall False 1 q"

definition take_head :: "nat \<Rightarrow> 'a sring \<Rightarrow> 'a sring \<times> 'a scc" where
  "take_head limit q = (q\<lparr>sp_headCache := sp_head q\<rparr>, KRead (take_count (sp_head q) q limit))"

fun scons :: "'a::zero sring \<Rightarrow> 'a scc \<Rightarrow> 'a sring \<times> 'a scc" where
  "scons q (KLoad once limit) =
     (let realHead = sp_head q in
      if sp_tail q \<ge> realHead then (if once then (q, KTryClosed) else (q, KSpin limit))
      else take_head limit q)"
| "scons q KTryClosed = (if sp_closed q then (q, KDone [] False) else (q, KDone [] True))"
| "scons q (KSpin limit) =
     (let realHead = sp_head q in if sp_tail q < realHead then take_head limit q else (q, KSpinClosed limit))"
| "scons q (KSpinClosed limit) = (if sp_closed q then (q, KSpinHead limit) else (q, KSpin limit))"
| "scons q (KSpinHead limit) = (if sp_head q \<le> sp_tail q then (q, KDone [] False) else (q, KSpin limit))"
| "scons q (KRead n) = (if n = 0 then (q, KDone [] True) else (q, KClear (copy_out n q)))"
| "scons q (KClear xs) = (clear_out (length xs) q, KStore xs)"
| "scons q (KStore xs) = (q\<lparr>sp_tail := sp_tail q + of_nat (length xs)\<rparr>, KDone xs True)"
| "scons q (KDone xs ok) = (q, KDone xs ok)"

section \<open>Interleaving\<close>

text \<open>
  The log \<open>ss_in\<close> holds the items whose insertion was made visible, \<open>ss_out\<close> those that were
  read, \<open>ss_req\<close> the items of the producer's current call.
\<close>

record 'a ssys =
  ss_ring :: "'a sring"
  ss_prod :: "'a spc"
  ss_cons :: "'a scc"
  ss_in :: "'a list"
  ss_out :: "'a list"
  ss_req :: "'a list"

fun s_stored :: "'a spc \<Rightarrow> 'a list" where
  "s_stored (SStore xs) = xs"
| "s_stored pc = []"

fun s_taken :: "'a sring \<Rightarrow> 'a scc \<Rightarrow> 'a list" where
  "s_taken q (KRead n) = (if n = 0 then [] else copy_out n q)"
| "s_taken q c = []"

inductive spsc_step :: "'a::zero ssys \<Rightarrow> 'a ssys \<Rightarrow> bool" where
  put: "ss_prod m = SReturned ok \<Longrightarrow> single \<longrightarrow> length xs = 1 \<Longrightarrow>
    spsc_step m (m\<lparr>ss_prod := SStart single once xs, ss_req := xs\<rparr>)"
| producer: "sprod (ss_ring m) (ss_prod m) = (q, pc) \<Longrightarrow>
    spsc_step m (m\<lparr>ss_ring := q, ss_prod := pc, ss_in := ss_in m @ s_stored (ss_prod m)\<rparr>)"
| close: "spsc_step m (m\<lparr>ss_ring := SClose (ss_ring m)\<rparr>)"
| get: "ss_cons m = KDone xs ok \<Longrightarrow> spsc_step m (m\<lparr>ss_cons := scall once limit (ss_ring m)\<rparr>)"
| consumer: "scons (ss_ring m) (ss_cons m) = (q, c) \<Longrightarrow>
    spsc_step m (m\<lparr>ss_ring := q, ss_cons := c, ss_out := ss_out m @ s_taken (ss_ring m) (ss_cons m)\<rparr>)"

definition spsc_start :: "int \<Rightarrow> 'a::zero ssys" where
  "spsc_start capacity = \<lparr>ss_ring = NewSPSCQueue capacity, ss_prod = SReturned True, ss_cons = KDone [] True,
     ss_in = [], ss_out = [], ss_req = []\<rparr>"

text \<open>
  The runs considered insert fewer than \<open>2 ^ 63\<close> items, and no single batch is longer
  than that, so that no counter has gone round.
\<close>

definition spsc_fits :: "'a ssys \<Rightarrow> bool" where
  "spsc_fits m \<longleftrightarrow> length (ss_in m) < 2 ^ 63 \<and> length (ss_req m) < 2 ^ 63"

inductive spsc_reach :: "int \<Rightarrow> 'a::zero ssys \<Rightarrow> bool" for capacity where
  start: "spsc_reach capacity (spsc_start capacity)"
| step: "spsc_reach capacity m \<Longrightarrow> spsc_step m m' \<Longrightarrow> spsc_fits m' \<Longrightarrow> spsc_reach capacity m'"

inductive_cases spsc_stepE: "spsc_step m m'"

lemmas spsc_step_cases = spsc_stepE[consumes 1, case_names put producer close get consumer]

section \<open>The invariant\<close>

text \<open>
  Positions are counted from the start of the run; \<open>C\<close> is the first that is not yet read.
  The producer writes only beyond the head, the consumer clears only before \<open>C\<close>.
\<close>

definition sring_wf :: "nat \<Rightarrow> 'a sring \<Rightarrow> bool" where
  "sring_wf k q \<longleftrightarrow> 1 \<le> k \<and> k \<le> 62 \<and> sp_mask q = 2 ^ k - 1 \<and> length (sp_buffer q) = 2 ^ k"

definition item_at :: "'a sring \<Rightarrow> nat \<Rightarrow> 'a" where
  "item_at q p = sp_buffer q ! (p mod length (sp_buffer q))"

lemma sring_counters [simp]:
  "item_at (q\<lparr>sp_tailCache := x\<rparr>) = item_at q" "item_at (q\<lparr>sp_headCache := x\<rparr>) = item_at q"
  "item_at (q\<lparr>sp_tail := x\<rparr>) = item_at q" "item_at (q\<lparr>sp_head := x\<rparr>) = item_at q"
  "item_at (q\<lparr>sp_closed := b\<rparr>) = item_at q"
  "sring_wf k (q\<lparr>sp_tailCache := x\<rparr>) = sring_wf k q" "sring_wf k (q\<lparr>sp_headCache := x\<rparr>) = sring_wf k q"
  "sring_wf k (q\<lparr>sp_tail := x\<rparr>) = sring_wf k q" "sring_wf k (q\<lparr>sp_head := x\<rparr>) = sring_wf k q"
  "sring_wf k (q\<lparr>sp_closed := b\<rparr>) = sring_wf k q"
  by (auto simp: item_at_def sring_wf_def fun_eq_iff)

definition sring_inv :: "nat \<Rightarrow> 'a sring \<Rightarrow> nat \<Rightarrow> 'a list \<Rightarrow> bool" where
  "sring_inv k q C L \<longleftrightarrow>
     sring_wf k q \<and> unat (sp_head q) = length L \<and> length L < 2 ^ 63
     \<and> unat (sp_tail q) \<le> C \<and> C \<le> length L \<and> length L \<le> unat (sp_tail q) + 2 ^ k
     \<and> unat (sp_tailCache q) \<le> unat (sp_tail q) \<and> unat (sp_headCache q) \<le> length L
     \<and> (\<forall>p. C \<le> p \<and> p < length L \<longrightarrow> item_at q p = L ! p)"

text \<open>What the producer's program point knows: it has room for the items it is about to copy.\<close>

fun prod_sees :: "nat \<Rightarrow> 'a sring \<Rightarrow> nat \<Rightarrow> 'a spc \<Rightarrow> bool" where
  "prod_sees k q H (SStart single once xs) = (single \<longrightarrow> length xs = 1)"
| "prod_sees k q H (SCheck single once xs) = (single \<longrightarrow> length xs = 1)"
| "prod_sees k q H (SLoad single once xs) = (xs \<noteq> [] \<and> (single \<longrightarrow> length xs = 1))"
| "prod_sees k q H (SSpin single xs) = (xs \<noteq> [] \<and> (single \<longrightarrow> length xs = 1))"
| "prod_sees k q H (SSpinTail single xs) = (xs \<noteq> [] \<and> (single \<longrightarrow> length xs = 1))"
| "prod_sees k q H (SCopy single xs) = (xs \<noteq> [] \<and> (single \<longrightarrow> length xs = 1) \<and> H + length xs \<le> unat (sp_tail q) + 2 ^ k)"
| "prod_sees k q H (SStore xs) = (H + length xs \<le> unat (sp_tail q) + 2 ^ k \<and> (\<forall>j<length xs. item_at q (H + j) = xs ! j))"
| "prod_sees k q H (SReturned ok) = True"

fun s_consumed :: "nat \<Rightarrow> 'a scc \<Rightarrow> nat" where
  "s_consumed T (KClear xs) = T + length xs"
| "s_consumed T (KStore xs) = T + length xs"
| "s_consumed T c = T"

fun cons_sees :: "'a sring \<Rightarrow> nat \<Rightarrow> 'a scc \<Rightarrow> bool" where
  "cons_sees q H (KRead n) = (0 < n \<and> unat (sp_tail q) + n \<le> H)"
| "cons_sees q H (KLoad once limit) = (0 < limit)"
| "cons_sees q H (KSpin limit) = (0 < limit)"
| "cons_sees q H (KSpinClosed limit) = (0 < limit)"
| "cons_sees q H (KSpinHead limit) = (0 < limit)"
| "cons_sees q H c = True"

text \<open>The items a call is about; a call that reported success had no more of them than fit the ring.\<close>

fun s_call_ok :: "nat \<Rightarrow> 'a list \<Rightarrow> 'a spc \<Rightarrow> bool" where
  "s_call_ok k req (SReturned ok) = (ok \<longrightarrow> length req \<le> 2 ^ k)"
| "s_call_ok k req (SStart single once xs) = (xs = req)"
| "s_call_ok k req (SCheck single once xs) = (xs = req)"
| "s_call_ok k req (SLoad single once xs) = (xs = req)"
| "s_call_ok k req (SSpin single xs) = (xs = req)"
| "s_call_ok k req (SSpinTail single xs) = (xs = req)"
| "s_call_ok k req (SCopy single xs) = (xs = req)"
| "s_call_ok k req (SStore xs) = (xs = req)"

definition ssys_inv :: "nat \<Rightarrow> 'a ssys \<Rightarrow> bool" where
  "ssys_inv k m \<longleftrightarrow>
     (let q = ss_ring m; C = s_consumed (unat (sp_tail q)) (ss_cons m) in
      sring_inv k q C (ss_in m) \<and> prod_sees k q (length (ss_in m)) (ss_prod m)
      \<and> cons_sees q (length (ss_in m)) (ss_cons m) \<and> ss_out m = take C (ss_in m)
      \<and> s_call_ok k (ss_req m) (ss_prod m))"

lemma sring_invD:
  assumes "sring_inv k q C L"
  shows "sring_wf k q" "unat (sp_head q) = length L" "length L < 2 ^ 63" "unat (sp_tail q) \<le> C" "C \<le> length L"
    "length L \<le> unat (sp_tail q) + 2 ^ k" "unat (sp_tailCache q) \<le> unat (sp_tail q)" "unat (sp_headCache q) \<le> length L"
    "C \<le> p \<Longrightarrow> p < length L \<Longrightarrow> item_at q p = L ! p"
  using assms unfolding sring_inv_def by blast+

lemma sring_wfD:
  assumes "sring_wf k q"
  shows "unat (h AND sp_mask q) = unat h mod 2 ^ k" "length (sp_buffer q) = 2 ^ k" "k \<le> 62" "1 \<le> k"
    "unat (sp_mask q + 1) = 2 ^ k" "(2::nat) ^ k \<le> 4611686018427387904"
proof -
  show "unat (h AND sp_mask q) = unat h mod 2 ^ k" using assms by (simp add: sring_wf_def unat_and_mask)
  show l: "length (sp_buffer q) = 2 ^ k" "k \<le> 62" "1 \<le> k" using assms by (auto simp: sring_wf_def)
  have "(2::nat) ^ k \<le> 2 ^ 62" using l(2) by (intro power_increasing) auto
  then show b: "(2::nat) ^ k \<le> 4611686018427387904" by simp
  have "sp_mask q + 1 = of_nat (2 ^ k)" using assms by (simp add: sring_wf_def)
  moreover have "unat (of_nat (2 ^ k) :: u64) = 2 ^ k"
    by (subst unat_of_nat) (use b in simp)
  ultimately show "unat (sp_mask q + 1) = 2 ^ k" by simp
qed

text \<open>The room test on counters that fit is the test on positions.\<close>

lemma no_room_iff:
  assumes inv: "sring_inv k q C L" and t: "unat t \<le> unat (sp_tail q)"
    and xs: "single \<longrightarrow> length xs = 1" "length xs < 2 ^ 63"
  shows "no_room single xs t q \<longleftrightarrow> unat t + 2 ^ k < length L + length xs"
proof -
  note d = sring_invD[OF inv] and wd = sring_wfD[OF sring_invD(1)[OF inv]]
  have "t + (sp_mask q + 1) = t + of_nat (2 ^ k)" using d(1) by (simp add: sring_wf_def)
  then have u: "unat (t + (sp_mask q + 1)) = unat t + 2 ^ k"
    using unat_plus_small[of t "2 ^ k"] t d(3-5) wd(6) by simp
  have h: "unat (sp_head q + of_nat (length xs)) = length L + length xs"
    using unat_plus_small[of "sp_head q" "length xs"] d(2,3) xs(2) by simp
  show ?thesis
    using xs(1) u h d(2) by (auto simp: no_room_def Let_def word_le_nat_alt word_less_nat_alt)
qed

lemma isPowerOfTwo_pow2:
  assumes "isPowerOfTwo (int x)" "0 < x"
  obtains j where "x = 2 ^ j"
proof -
  obtain j where j: "2 ^ j \<le> x" "x < 2 ^ Suc j" using exists_pow2_window[OF assms(2)] by blast
  have "x = 2 ^ j"
  proof (rule ccontr)
    assume "x \<noteq> 2 ^ j"
    then have "2 ^ j \<le> x - 1" "x - 1 < 2 ^ Suc j" using j by auto
    then have "bit (x - 1) j" "bit x j" using smear64_nat_window(1) j by blast+
    then have "bit (x AND (x - 1)) j" by (simp add: bit_and_iff)
    moreover have "int x - 1 = int (x - 1)" using assms(2) by (simp add: of_nat_diff)
    then have "int (x AND (x - 1)) = 0" using assms(1) by (simp only: isPowerOfTwo_def of_nat_and_eq)
    then have "x AND (x - 1) = 0" by linarith
    ultimately show False by simp
  qed
  then show ?thesis by (rule that)
qed

lemma spsc_capacity_pow2: "\<exists>k. spsc_capacity capacity = 2 ^ k \<and> 1 \<le> k \<and> k \<le> 30"
proof -
  define c where "c = min (max 2 capacity) maxCapacity"
  have c: "2 \<le> c" "c \<le> 2 ^ 30" by (auto simp: c_def maxCapacity_def)
  have e: "spsc_capacity capacity = (if isPowerOfTwo c then c else nextPowerOfTwo c)"
    by (auto simp: c_def spsc_capacity_def Let_def maxCapacity_def min_def max_def)
  have exp: "1 \<le> j \<and> j \<le> 30" if "(2::nat) \<le> 2 ^ j" "(2::nat) ^ j \<le> 2 ^ 30" for j
    using that(1) power_le_imp_le_exp[OF _ that(2)] by (cases j) auto
  show ?thesis
  proof (cases "isPowerOfTwo c")
    case True
    have x: "c = int (nat c)" "0 < nat c" using c by auto
    then obtain j where j: "nat c = 2 ^ j" using isPowerOfTwo_pow2[of "nat c"] True by auto
    have cj: "c = 2 ^ j" using x(1) j by simp
    have "2 \<le> nat c" "nat c \<le> 2 ^ 30" using c by (simp_all add: nat_le_iff le_nat_iff)
    then have "(2::nat) \<le> 2 ^ j" "(2::nat) ^ j \<le> 2 ^ 30" unfolding j .
    then show ?thesis using True e cj exp by metis
  next
    case False
    have "0 < c" "c \<le> 2 ^ 62" using c by auto
    then obtain p where p: "nextPowerOfTwo c = int p" "is_ceil_pow2 (nat c) p" by (rule nextPowerOfTwo_ceil)
    obtain k where k: "p = 2 ^ k" using p(2) by (auto simp: is_ceil_pow2_def)
    have "nat c \<le> 2 ^ 30" "nat c \<le> 2 ^ k" "2 \<le> nat c"
      using is_ceil_pow2_bounds(1)[OF p(2)] c k by (auto simp: nat_le_iff)
    then have "(2::nat) \<le> 2 ^ k" "(2::nat) ^ k \<le> 2 ^ 30" using is_ceil_pow2_le[OF p(2), of 30] k by linarith+
    then show ?thesis using False e p(1) k exp by auto
  qed
qed

subsection \<open>The copies into and out of the ring\<close>

lemma to_end:
  assumes "sring_wf k q"
  shows "unat (sp_mask q + 1 - (h AND sp_mask q)) = 2 ^ k - unat h mod 2 ^ k"
proof -
  note wd = sring_wfD[OF assms]
  have "unat (h AND sp_mask q) \<le> unat (sp_mask q + 1)" unfolding wd(1,5) by (simp add: less_imp_le)
  then have "h AND sp_mask q \<le> sp_mask q + 1" by (simp only: word_le_nat_alt)
  then show ?thesis by (simp only: unat_sub wd(1,5))
qed

lemma copy_in_buffer:
  assumes "sring_wf k q" "single \<longrightarrow> length xs = 1"
  shows "sp_buffer (copy_in single xs q) = ring_put (sp_buffer q) (unat (sp_head q) mod 2 ^ k) xs"
proof (cases single)
  case True
  then obtain x where x: "xs = [x]" using assms(2) by (cases xs) auto
  note wd = sring_wfD[OF assms(1)]
  have lt: "unat (sp_head q) mod 2 ^ k < length (sp_buffer q)" by (simp add: wd(2))
  then have "ring_put (sp_buffer q) (unat (sp_head q) mod 2 ^ k) [x] = (sp_buffer q)[unat (sp_head q) mod 2 ^ k := x]"
    by (simp add: ring_put_def go_copy_def upd_conv_take_nth_drop)
  then show ?thesis using True x by (simp add: copy_in_def wd(1))
next
  case False
  note wd = sring_wfD[OF assms(1)]
  show ?thesis using False
    by (simp add: copy_in_def ring_put_def Let_def to_end[OF assms(1)] wd(1,2))
qed

lemma copy_in_facts [simp]:
  "sp_head (copy_in single xs q) = sp_head q" "sp_tail (copy_in single xs q) = sp_tail q"
  "sp_headCache (copy_in single xs q) = sp_headCache q" "sp_tailCache (copy_in single xs q) = sp_tailCache q"
  "sp_mask (copy_in single xs q) = sp_mask q" "sp_closed (copy_in single xs q) = sp_closed q"
  "sp_head (clear_out n q') = sp_head q'" "sp_tail (clear_out n q') = sp_tail q'"
  "sp_headCache (clear_out n q') = sp_headCache q'" "sp_tailCache (clear_out n q') = sp_tailCache q'"
  "sp_mask (clear_out n q') = sp_mask q'" "sp_closed (clear_out n q') = sp_closed q'"
  by (auto simp: copy_in_def clear_out_def Let_def)

lemma item_at_copy_in:
  assumes wf: "sring_wf k q" and xs: "single \<longrightarrow> length xs = 1" and H: "unat (sp_head q) = H"
    and room: "T \<le> H" "H + length xs \<le> T + 2 ^ k" and p: "T \<le> p" "p < T + 2 ^ k"
  shows "item_at (copy_in single xs q) p = (if H \<le> p \<and> p < H + length xs then xs ! (p - H) else item_at q p)"
proof -
  note wd = sring_wfD[OF wf]
  have h: "H = T + (H - T)" and pp: "p = T + (p - T)" using room p by auto
  have l: "length (ring_put (sp_buffer q) (H mod 2 ^ k) xs) = 2 ^ k"
    by (subst length_ring_put) (auto simp: wd(2) less_imp_le)
  have "ring_put (sp_buffer q) ((T + (H - T)) mod length (sp_buffer q)) xs ! ((T + (p - T)) mod length (sp_buffer q)) =
      (if H - T \<le> p - T \<and> p - T < H - T + length xs then xs ! (p - T - (H - T))
       else sp_buffer q ! ((T + (p - T)) mod length (sp_buffer q)))"
    by (rule nth_ring_put_at) (use wd(2) room p in auto)
  moreover have "H - T \<le> p - T \<and> p - T < H - T + length xs \<longleftrightarrow> H \<le> p \<and> p < H + length xs" "p - T - (H - T) = p - H"
    using room p by auto
  ultimately show ?thesis
    using h pp by (simp only: item_at_def copy_in_buffer[OF wf xs] H wd(2) l)
qed

lemma sring_wf_copies [simp]:
  "sring_wf k q \<Longrightarrow> single \<longrightarrow> length xs = 1 \<Longrightarrow> sring_wf k (copy_in single xs q)"
proof -
  assume wf: "sring_wf k q" and xs: "single \<longrightarrow> length xs = 1"
  note wd = sring_wfD[OF wf]
  have "length (sp_buffer (copy_in single xs q)) = 2 ^ k"
    unfolding copy_in_buffer[OF wf xs] by (subst length_ring_put) (auto simp: wd(2) less_imp_le)
  then show ?thesis using wf by (simp add: sring_wf_def)
qed

lemma copy_out_view:
  assumes "sring_wf k q" "n \<le> 2 ^ k"
  shows "copy_out n q = map (item_at q) [unat (sp_tail q) ..< unat (sp_tail q) + n]"
proof -
  note wd = sring_wfD[OF assms(1)]
  let ?o = "unat (sp_tail q) mod length (sp_buffer q)"
  have o: "?o < length (sp_buffer q)" by (simp add: wd(2))
  have "copy_out n q = ring_view (sp_buffer q) ?o n"
  proof (cases "n \<le> length (sp_buffer q) - ?o")
    case True
    then have "?o + n \<le> length (sp_buffer q)" using o by linarith
    then show ?thesis using True ring_view_flat[of ?o n "sp_buffer q"]
      by (simp add: copy_out_def Let_def wd(1,2,5) del: ring_view_start_mod)
  next
    case False
    then show ?thesis using o ring_view_wrap[of ?o "sp_buffer q" n] assms(2)
      by (simp add: copy_out_def Let_def wd(1,2,5) del: ring_view_start_mod)
  qed
  also have "\<dots> = map (item_at q) [unat (sp_tail q) ..< unat (sp_tail q) + n]"
    by (rule nth_equalityI) (auto simp: item_at_def)
  finally show ?thesis .
qed

lemma clear_out_buffer:
  assumes "sring_wf k q"
  shows "sp_buffer (clear_out n q) = ring_clear (sp_buffer q) (unat (sp_tail q) mod 2 ^ k) n"
proof -
  note wd = sring_wfD[OF assms]
  have "unat (sp_tail q) mod 2 ^ k + (2 ^ k - unat (sp_tail q) mod 2 ^ k) = 2 ^ k"
    by (simp add: less_imp_le)
  then show ?thesis by (simp add: clear_out_def ring_clear_def Let_def wd(1,2,5))
qed

lemma item_at_clear_out:
  assumes wf: "sring_wf k q" and n: "n \<le> 2 ^ k" and p: "unat (sp_tail q) + n \<le> p" "p < unat (sp_tail q) + 2 ^ k"
  shows "item_at (clear_out n q) p = item_at q p"
proof -
  note wd = sring_wfD[OF wf]
  let ?T = "unat (sp_tail q)"
  have l: "length (ring_clear (sp_buffer q) (?T mod 2 ^ k) n) = 2 ^ k"
    by (subst length_ring_clear) (use n in \<open>auto simp: wd(2) less_imp_le\<close>)
  have "ring_clear (sp_buffer q) (?T mod 2 ^ k) n ! ((?T mod 2 ^ k + (p - ?T)) mod length (sp_buffer q)) =
     (if p - ?T < n then 0 else sp_buffer q ! ((?T mod 2 ^ k + (p - ?T)) mod length (sp_buffer q)))"
    by (rule nth_ring_clear) (use n p wd(2) in auto)
  moreover have "(?T mod 2 ^ k + (p - ?T)) mod 2 ^ k = p mod 2 ^ k"
    using mod_add_left_eq[of ?T "2 ^ k" "p - ?T"] p by simp
  ultimately show ?thesis using p by (simp add: item_at_def clear_out_buffer[OF wf] l wd(2) split: if_splits)
qed

lemma sring_wf_clear [simp]: "sring_wf k q \<Longrightarrow> n \<le> 2 ^ k \<Longrightarrow> sring_wf k (clear_out n q)"
proof -
  assume wf: "sring_wf k q" and n: "n \<le> 2 ^ k"
  note wd = sring_wfD[OF wf]
  have "length (sp_buffer (clear_out n q)) = 2 ^ k"
    unfolding clear_out_buffer[OF wf] by (subst length_ring_clear) (use n in \<open>auto simp: wd(2) less_imp_le\<close>)
  then show ?thesis using wf by (simp add: sring_wf_def)
qed

subsection \<open>Every step keeps the invariant\<close>

text \<open>The producer's room only grows while it is at a point, since only the consumer moves the tail.\<close>

lemma prod_sees_frame:
  assumes "prod_sees k q H pc" "unat (sp_tail q) \<le> unat (sp_tail q')"
    "\<And>p. H \<le> p \<Longrightarrow> p < unat (sp_tail q) + 2 ^ k \<Longrightarrow> item_at q' p = item_at q p"
  shows "prod_sees k q' H pc"
  using assms by (cases pc) auto

lemma cons_sees_frame: "cons_sees q H c \<Longrightarrow> sp_tail q' = sp_tail q \<Longrightarrow> H \<le> H' \<Longrightarrow> cons_sees q' H' c"
  by (cases c) auto

lemma sprod_tail [simp]: "sp_tail (fst (sprod q pc)) = sp_tail q"
  by (cases pc) (auto simp: Let_def)

lemma sprod_inv:
  assumes inv: "sring_inv k q C L" and sees: "prod_sees k q (length L) pc"
    and fit: "length (L @ s_stored pc) < 2 ^ 63"
    and len: "\<And>single once xs. pc = SCheck single once xs \<or> pc = SLoad single once xs \<or> pc = SSpinTail single xs \<Longrightarrow> length xs < 2 ^ 63"
  shows "sring_inv k (fst (sprod q pc)) C (L @ s_stored pc)
    \<and> prod_sees k (fst (sprod q pc)) (length (L @ s_stored pc)) (snd (sprod q pc))"
proof -
  note d = sring_invD[OF inv] and wd = sring_wfD[OF sring_invD(1)[OF inv]]
  have cache: "sring_inv k (q\<lparr>sp_tailCache := sp_tail q\<rparr>) C L"
    using inv by (simp add: sring_inv_def)
  show ?thesis
  proof (cases pc)
    case (SCheck single once xs)
    have "length L + length xs \<le> unat (sp_tail q) + 2 ^ k" if "\<not> no_room single xs (sp_tailCache q) q"
      using that no_room_iff[OF inv d(7), of single xs] sees len[of single once xs] d(7) SCheck by auto
    moreover have "xs \<noteq> []" if "\<not> (\<not> single \<and> xs = [])" using that sees SCheck by auto
    ultimately show ?thesis using SCheck inv sees by auto
  next
    case (SLoad single once xs)
    have "length L + length xs \<le> unat (sp_tail q) + 2 ^ k" if "\<not> no_room single xs (sp_tail q) q"
      using that no_room_iff[OF inv order_refl, of single xs] sees len[of single once xs] SLoad by auto
    then show ?thesis using SLoad inv sees cache by (auto simp: Let_def)
  next
    case (SSpinTail single xs)
    have "length L + length xs \<le> unat (sp_tail q) + 2 ^ k" if "\<not> no_room single xs (sp_tail q) q"
      using that no_room_iff[OF inv order_refl, of single xs] sees len[of single undefined xs] SSpinTail by auto
    then show ?thesis using SSpinTail inv sees cache by (auto simp: Let_def)
  next
    case (SCopy single xs)
    have xs: "single \<longrightarrow> length xs = 1" and room: "length L + length xs \<le> unat (sp_tail q) + 2 ^ k"
      using sees SCopy by auto
    have at: "item_at (copy_in single xs q) p =
        (if length L \<le> p \<and> p < length L + length xs then xs ! (p - length L) else item_at q p)"
      if "unat (sp_tail q) \<le> p" "p < unat (sp_tail q) + 2 ^ k" for p
      by (rule item_at_copy_in[OF d(1) xs d(2) _ room that]) (use d(4,5) in linarith)
    have "sring_inv k (copy_in single xs q) C L"
      unfolding sring_inv_def using d at xs by (auto simp: Let_def)
    moreover have "item_at (copy_in single xs q) (length L + j) = xs ! j" if "j < length xs" for j
      using at[of "length L + j"] d(4,5) room that by simp
    ultimately show ?thesis using SCopy room by simp
  next
    case (SStore xs)
    have room: "length L + length xs \<le> unat (sp_tail q) + 2 ^ k"
      and items: "\<And>j. j < length xs \<Longrightarrow> item_at q (length L + j) = xs ! j" using sees SStore by auto
    have h: "unat (sp_head q + of_nat (length xs)) = length L + length xs"
      using unat_plus_small[of "sp_head q" "length xs"] d(2) fit SStore by simp
    have "item_at q p = (L @ xs) ! p" if "C \<le> p" "p < length L + length xs" for p
      using that d(9)[of p] items[of "p - length L"] by (cases "p < length L") (auto simp: nth_append)
    then have "sring_inv k (q\<lparr>sp_head := sp_head q + of_nat (length xs)\<rparr>) C (L @ xs)"
      using d h room fit SStore unfolding sring_inv_def by auto
    then show ?thesis using SStore by simp
  qed (use inv sees in auto)
qed

lemma take_count_facts:
  assumes inv: "sring_inv k q (unat (sp_tail q)) L" and l: "0 < limit" and t: "sp_tail q < h" "unat h \<le> length L"
  shows "0 < take_count h q limit" "unat (sp_tail q) + take_count h q limit \<le> length L"
proof -
  have "unat (h - sp_tail q) = unat h - unat (sp_tail q)" using t(1) by (simp add: unat_sub less_imp_le)
  then show "0 < take_count h q limit" "unat (sp_tail q) + take_count h q limit \<le> length L"
    using l t by (auto simp: take_count_def word_less_nat_alt)
qed

lemma scall_inv:
  assumes inv: "sring_inv k q (unat (sp_tail q)) L"
  shows "cons_sees q (length L) (scall once limit q)" "s_consumed T (scall once limit q) = T"
  using take_count_facts[OF inv, of limit "sp_headCache q"] sring_invD(8)[OF inv] by (auto simp: scall_def)

lemma copy_out_items:
  assumes inv: "sring_inv k q (unat (sp_tail q)) L" and n: "unat (sp_tail q) + n \<le> length L"
  shows "copy_out n q = take n (drop (unat (sp_tail q)) L)" "n \<le> 2 ^ k"
proof -
  note d = sring_invD[OF inv]
  show n2: "n \<le> 2 ^ k" using n d(6) by linarith
  show "copy_out n q = take n (drop (unat (sp_tail q)) L)"
    unfolding copy_out_view[OF d(1) n2] by (rule nth_equalityI) (use n d(9) in auto)
qed

lemma scons_inv:
  assumes inv: "sring_inv k q (s_consumed (unat (sp_tail q)) c) L" and sees: "cons_sees q (length L) c"
    and prod: "prod_sees k q (length L) pc" and out: "out = take (s_consumed (unat (sp_tail q)) c) L"
    and q': "q' = fst (scons q c)" and c': "c' = snd (scons q c)"
  shows "sring_inv k q' (s_consumed (unat (sp_tail q')) c') L \<and> cons_sees q' (length L) c'
    \<and> prod_sees k q' (length L) pc \<and> out @ s_taken q c = take (s_consumed (unat (sp_tail q')) c') L"
proof -
  note d = sring_invD[OF inv]
  have head: ?thesis if "0 < limit" "sp_tail q < sp_head q" "s_consumed (unat (sp_tail q)) c = unat (sp_tail q)"
    "s_taken q c = []" "scons q c = take_head limit q" for limit
  proof -
    have i: "sring_inv k q (unat (sp_tail q)) L" using inv that(3) by simp
    have "sring_inv k (q\<lparr>sp_headCache := sp_head q\<rparr>) (unat (sp_tail q)) L"
      using i by (simp add: sring_inv_def)
    moreover have "prod_sees k (q\<lparr>sp_headCache := sp_head q\<rparr>) (length L) pc"
      by (rule prod_sees_frame[OF prod]) auto
    moreover note take_count_facts[OF i that(1,2)]
    ultimately show ?thesis using that out d(2) by (simp add: q' c' take_head_def)
  qed
  show ?thesis
  proof (cases c)
    case (KLoad once limit)
    then show ?thesis using head[of limit] inv sees prod out by (cases "sp_tail q < sp_head q") (auto simp: q' c' not_less Let_def)
  next
    case (KSpin limit)
    then show ?thesis using head[of limit] inv sees prod out by (cases "sp_tail q < sp_head q") (auto simp: q' c' not_less Let_def)
  next
    case (KRead n)
    have i: "sring_inv k q (unat (sp_tail q)) L" and n: "0 < n" "unat (sp_tail q) + n \<le> length L" using inv sees KRead by auto
    have out': "copy_out n q = take n (drop (unat (sp_tail q)) L)" by (rule copy_out_items(1)[OF i n(2)])
    then have l: "length (copy_out n q) = n" using n(2) by simp
    have "sring_inv k q (unat (sp_tail q) + n) L" using i n(2) by (auto simp: sring_inv_def)
    then show ?thesis using KRead n prod out l out' by (simp add: q' c' take_add)
  next
    case (KClear xs)
    have n: "length xs \<le> 2 ^ k" using d(5,6) KClear by simp
    have at: "item_at (clear_out (length xs) q) p = item_at q p"
      if "unat (sp_tail q) + length xs \<le> p" "p < unat (sp_tail q) + 2 ^ k" for p
      by (rule item_at_clear_out[OF d(1) n that])
    have "sring_inv k (clear_out (length xs) q) (unat (sp_tail q) + length xs) L"
      using inv at d(6) n KClear unfolding sring_inv_def by auto
    moreover have "prod_sees k (clear_out (length xs) q) (length L) pc"
      by (rule prod_sees_frame[OF prod]) (use at d(5) KClear in auto)
    ultimately show ?thesis using KClear out by (simp add: q' c')
  next
    case (KStore xs)
    have t: "unat (sp_tail q + of_nat (length xs)) = unat (sp_tail q) + length xs"
      using unat_plus_small[of "sp_tail q" "length xs"] d(3,5) KStore by simp
    let ?q = "q\<lparr>sp_tail := sp_tail q + of_nat (length xs)\<rparr>"
    have "sring_inv k ?q (unat (sp_tail q) + length xs) L"
      using inv KStore unfolding sring_inv_def by (auto simp: t)
    moreover have "prod_sees k ?q (length L) pc"
      by (rule prod_sees_frame[OF prod]) (auto simp: t)
    ultimately show ?thesis using KStore out by (simp add: q' c' t)
  qed (use inv sees prod out in \<open>auto simp: q' c'\<close>)
qed

lemma sprod_call_ok:
  assumes "s_call_ok k req pc" "sring_inv k q C L" "prod_sees k q (length L) pc"
  shows "s_call_ok k req (snd (sprod q pc))"
  using assms sring_invD(4,5)[OF assms(2)] by (cases pc) (auto simp: Let_def)

lemma ssys_invD:
  assumes "ssys_inv k m"
  shows "sring_inv k (ss_ring m) (s_consumed (unat (sp_tail (ss_ring m))) (ss_cons m)) (ss_in m)"
    "prod_sees k (ss_ring m) (length (ss_in m)) (ss_prod m)" "cons_sees (ss_ring m) (length (ss_in m)) (ss_cons m)"
    "ss_out m = take (s_consumed (unat (sp_tail (ss_ring m))) (ss_cons m)) (ss_in m)" "s_call_ok k (ss_req m) (ss_prod m)"
  using assms by (auto simp: ssys_inv_def Let_def)

lemma spsc_step_inv:
  assumes st: "spsc_step m m'" and inv: "ssys_inv k m" and fit: "spsc_fits m'" "spsc_fits m"
  shows "ssys_inv k m'"
  using st
proof (cases rule: spsc_step_cases)
  case (put ok single xs once)
  then show ?thesis using inv by (auto simp: ssys_inv_def Let_def)
next
  case (producer q pc)
  note d = ssys_invD[OF inv]
  have q: "q = fst (sprod (ss_ring m) (ss_prod m))" "pc = snd (sprod (ss_ring m) (ss_prod m))"
    using producer(2) by simp_all
  have "length (ss_in m @ s_stored (ss_prod m)) < 2 ^ 63" "length (ss_req m) < 2 ^ 63"
    using fit producer(1) by (auto simp: spsc_fits_def)
  then have "sring_inv k q (s_consumed (unat (sp_tail (ss_ring m))) (ss_cons m)) (ss_in m @ s_stored (ss_prod m))
    \<and> prod_sees k q (length (ss_in m @ s_stored (ss_prod m))) pc"
    unfolding q by (intro sprod_inv[OF d(1,2)]) (use d(5) in auto)
  moreover have "sp_tail q = sp_tail (ss_ring m)" by (simp add: q)
  moreover from this have "cons_sees q (length (ss_in m @ s_stored (ss_prod m))) (ss_cons m)"
    by (rule cons_sees_frame[OF d(3)]) simp
  moreover have "s_call_ok k (ss_req m) pc" unfolding q by (rule sprod_call_ok[OF d(5,1,2)])
  ultimately show ?thesis using d(4) sring_invD(5)[OF d(1)] producer(1) by (simp add: ssys_inv_def Let_def)
next
  case close
  have "prod_sees k (SClose q) H pc = prod_sees k q H pc" for q :: "'a sring" and H pc
    by (cases pc) (simp_all add: SClose_def)
  moreover have "cons_sees (SClose q) H c = cons_sees q H c" for q :: "'a sring" and H c
    by (cases c) (simp_all add: SClose_def)
  moreover have "sring_inv k (SClose q) C L = sring_inv k q C L" "sp_tail (SClose q) = sp_tail q" for q :: "'a sring" and C L
    by (simp_all add: SClose_def sring_inv_def)
  ultimately show ?thesis using close inv by (simp add: ssys_inv_def Let_def)
next
  case (get xs ok once limit)
  then show ?thesis using inv scall_inv[of k "ss_ring m" "ss_in m"]
    by (simp add: ssys_inv_def Let_def)
next
  case (consumer q c)
  note d = ssys_invD[OF inv]
  have q: "q = fst (scons (ss_ring m) (ss_cons m))" "c = snd (scons (ss_ring m) (ss_cons m))"
    using consumer(2) by simp_all
  show ?thesis using scons_inv[OF d(1,3,2,4) q] d(5) consumer(1) by (simp add: ssys_inv_def Let_def)
qed

lemma spsc_reach_fits: "spsc_reach capacity m \<Longrightarrow> spsc_fits m"
  by (induction rule: spsc_reach.induct) (auto simp: spsc_fits_def spsc_start_def)

lemma spsc_reach_inv: "spsc_reach capacity m \<Longrightarrow> \<exists>k. spsc_capacity capacity = 2 ^ k \<and> k \<le> 30 \<and> ssys_inv k m"
proof (induction rule: spsc_reach.induct)
  case start
  obtain k where "spsc_capacity capacity = 2 ^ k" "1 \<le> k" "k \<le> 30" using spsc_capacity_pow2 by blast
  then show ?case by (intro exI[of _ k])
      (simp add: ssys_inv_def spsc_start_def NewSPSCQueue_def Let_def sring_inv_def sring_wf_def nat_power_eq)
next
  case (step m m')
  then show ?case using spsc_step_inv spsc_reach_fits by blast
qed

section \<open>Properties\<close>

text \<open>A call of the consumer, or of the producer, run without interruption.\<close>

fun scrun :: "nat \<Rightarrow> 'a::zero sring \<Rightarrow> 'a scc \<Rightarrow> 'a sring \<times> 'a scc" where
  "scrun 0 q c = (q, c)"
| "scrun (Suc fuel) q c = (let (q, c) = scons q c in scrun fuel q c)"

fun sprun :: "nat \<Rightarrow> 'a sring \<Rightarrow> 'a spc \<Rightarrow> 'a sring \<times> 'a spc" where
  "sprun 0 q pc = (q, pc)"
| "sprun (Suc fuel) q pc = (let (q, pc) = sprod q pc in sprun fuel q pc)"

lemma scrun_read:
  assumes "0 < n"
  shows "snd (scrun 3 q (KRead n)) = KDone (copy_out n q) True"
  using assms by (simp add: eval_nat_numeral)

lemma try_takes_front:
  assumes inv: "sring_inv k q (unat (sp_tail q)) L" and l: "0 < limit"
  obtains ys ok where "snd (scrun 4 q (STryDequeueBatch limit q)) = KDone ys ok"
    "ys = take (length ys) (drop (unat (sp_tail q)) L)" "length ys \<le> limit" "ys = [] \<longleftrightarrow> unat (sp_tail q) = length L"
proof -
  note d = sring_invD[OF inv] and result = that
  have read: thesis if h: "sp_tail q < h" "unat h \<le> length L" and q': "sp_tail q' = sp_tail q" "sring_inv k q' (unat (sp_tail q')) L"
    and r: "snd (scrun 4 q (STryDequeueBatch limit q)) = KDone (copy_out (take_count h q limit) q') True" for h q'
  proof (rule result[OF r])
    note tc = take_count_facts[OF inv l h]
    have e: "copy_out (take_count h q limit) q' = take (take_count h q limit) (drop (unat (sp_tail q)) L)"
      using copy_out_items(1)[OF q'(2), of "take_count h q limit"] tc(2) q'(1) by simp
    then show "copy_out (take_count h q limit) q' = take (length (copy_out (take_count h q limit) q')) (drop (unat (sp_tail q)) L)"
      using tc(2) by simp
    show "length (copy_out (take_count h q limit) q') \<le> limit" unfolding e by (simp add: take_count_def)
    show "copy_out (take_count h q limit) q' = [] \<longleftrightarrow> unat (sp_tail q) = length L"
      unfolding e using tc h by (auto simp: word_less_nat_alt)
  qed
  show thesis
  proof (cases "sp_tail q < sp_headCache q")
    case True
    note tc = take_count_facts[OF inv l True d(8)]
    have "snd (scrun 4 q (STryDequeueBatch limit q)) = KDone (copy_out (take_count (sp_headCache q) q limit) q) True"
      using True l tc(1) by (simp add: STryDequeueBatch_def scall_def eval_nat_numeral)
    then show thesis by (rule read[OF True d(8) refl inv])
  next
    case False
    show thesis
    proof (cases "sp_tail q < sp_head q")
      case lt: True
      have h: "unat (sp_head q) \<le> length L" using d(2) by simp
      note tc = take_count_facts[OF inv l lt h]
      have nl: "\<not> sp_head q \<le> sp_tail q" using lt by simp
      let ?q = "q\<lparr>sp_headCache := sp_head q\<rparr>"
      have "snd (scrun 4 q (STryDequeueBatch limit q)) = KDone (copy_out (take_count (sp_head q) q limit) ?q) True"
        using False nl l tc(1) by (simp add: STryDequeueBatch_def scall_def eval_nat_numeral take_head_def)
      moreover have "sring_inv k ?q (unat (sp_tail ?q)) L" using inv h by (simp add: sring_inv_def)
      ultimately show thesis by (intro read[OF lt h, of ?q]) auto
    next
      case ge: False
      then have "unat (sp_tail q) = length L" using d(2,4,5) by (simp add: not_less word_le_nat_alt)
      moreover have "\<exists>ok. snd (scrun 4 q (STryDequeueBatch limit q)) = KDone [] ok"
        using False ge l by (auto simp: STryDequeueBatch_def scall_def eval_nat_numeral not_less)
      ultimately show thesis using result[of "[]"] by auto
    qed
  qed
qed

text \<open>
  C39: the ring between one producer and one consumer is a bounded FIFO under every
  interleaving of their accesses, single and batch calls, waiting and not. What was read is a
  prefix of what was inserted, in order; never more than the capacity is between them, so no
  slot is written before it was read, and \<open>Len\<close> lies between 0 and the capacity, a power of
  two between 2 and \<open>2 ^ 30\<close>. A batch is inserted whole, and a call that reported success
  never had more items than the ring. A removal that does not wait returns items from the
  front, at most as many as asked for, and none only when there are none; a waiting removal
  reports the end only when everything inserted so far has been read.
\<close>

theorem spsc_ring_fifo:
  assumes "spsc_reach capacity m"
  shows "(\<exists>pending. ss_in m = ss_out m @ pending \<and> int (length pending) \<le> spsc_capacity capacity)
    \<and> 0 \<le> SLen (ss_ring m) (ss_ring m) \<and> SLen (ss_ring m) (ss_ring m) \<le> spsc_capacity capacity
    \<and> spsc_capacity capacity \<le> 2 ^ 30
    \<and> (ss_prod m = SReturned True \<longrightarrow> int (length (ss_req m)) \<le> max 1 (spsc_capacity capacity))
    \<and> (ss_cons m = KDone xs ok \<longrightarrow> 0 < limit \<longrightarrow>
        (\<exists>ys ok'. snd (scrun 4 (ss_ring m) (STryDequeueBatch limit (ss_ring m))) = KDone ys ok'
          \<and> ys = take (length ys) (drop (length (ss_out m)) (ss_in m)) \<and> length ys \<le> limit
          \<and> (ys = [] \<longleftrightarrow> ss_out m = ss_in m)))
    \<and> (ss_cons m = KSpinHead limit \<longrightarrow> snd (scons (ss_ring m) (ss_cons m)) = KDone [] False \<longrightarrow> ss_out m = ss_in m)"
proof -
  let ?q = "ss_ring m" and ?L = "ss_in m"
  let ?T = "unat (sp_tail ?q)" and ?C = "s_consumed (unat (sp_tail ?q)) (ss_cons m)"
  obtain k where k: "spsc_capacity capacity = 2 ^ k" "k \<le> 30" and inv: "ssys_inv k m"
    using spsc_reach_inv[OF assms] by blast
  note i = ssys_invD[OF inv]
  note d = sring_invD[OF i(1)]
  have out: "length (ss_out m) = ?C" using i(4) d(5) by simp
  have pend: "?L = ss_out m @ drop ?C ?L \<and> length (drop ?C ?L) \<le> 2 ^ k" using i(4) d(4-6) by simp
  then have pend': "\<exists>pending. ?L = ss_out m @ pending \<and> int (length pending) \<le> spsc_capacity capacity"
    unfolding k(1) by (metis of_nat_le_iff of_nat_numeral of_nat_power)
  have u: "unat (sp_head ?q - sp_tail ?q) = length ?L - ?T"
    using d(2,4,5) by (simp add: unat_sub word_le_nat_alt)
  then have "SLen ?q ?q = int (length ?L - ?T)"
    unfolding SLen_def using d(3) by (subst sint_small) auto
  moreover have "length ?L - ?T \<le> 2 ^ k" using d(6) by simp
  then have "int (length ?L - ?T) \<le> spsc_capacity capacity" unfolding k(1) by (metis of_nat_le_iff of_nat_numeral of_nat_power)
  moreover have "spsc_capacity capacity \<le> 2 ^ 30" unfolding k(1) using k(2) by (intro power_increasing) auto
  moreover have "int (length (ss_req m)) \<le> max 1 (spsc_capacity capacity)" if "ss_prod m = SReturned True"
    using i(5) that unfolding k(1) by (auto simp: le_max_iff_disj)
  moreover have "\<exists>ys ok'. snd (scrun 4 ?q (STryDequeueBatch limit ?q)) = KDone ys ok'
      \<and> ys = take (length ys) (drop (length (ss_out m)) ?L) \<and> length ys \<le> limit \<and> (ys = [] \<longleftrightarrow> ss_out m = ?L)"
    if c: "ss_cons m = KDone xs ok" "0 < limit"
  proof -
    have inv': "sring_inv k ?q ?T ?L" using i(1) c(1) by simp
    have "ss_out m = ?L \<longleftrightarrow> ?T = length ?L" using i(4) c(1) d(5) by auto
    then show ?thesis using try_takes_front[OF inv' c(2)] out c(1) by (metis s_consumed.simps(3))
  qed
  moreover have "ss_out m = ?L" if "ss_cons m = KSpinHead limit" "snd (scons ?q (ss_cons m)) = KDone [] False"
    using that i(4) d(2,5) by (auto simp: word_le_nat_alt split: if_splits)
  ultimately show ?thesis using pend' by simp
qed

text \<open>A producer that runs alone, for the witness.\<close>

fun run_stored :: "nat \<Rightarrow> 'a sring \<Rightarrow> 'a spc \<Rightarrow> 'a list" where
  "run_stored 0 q pc = []"
| "run_stored (Suc fuel) q pc = s_stored pc @ (let (q, pc) = sprod q pc in run_stored fuel q pc)"

definition s_alone :: "'a sring \<Rightarrow> 'a spc \<Rightarrow> 'a list \<Rightarrow> 'a ssys \<Rightarrow> 'a ssys" where
  "s_alone q pc xs m = m\<lparr>ss_ring := q, ss_prod := pc, ss_in := ss_in m @ xs\<rparr>"

lemma reach_s_alone:
  assumes "spsc_reach c m" "sprun n (ss_ring m) (ss_prod m) = (q, pc)" "run_stored n (ss_ring m) (ss_prod m) = xs"
    "length (ss_in m @ xs) < 2 ^ 63"
  shows "spsc_reach c (s_alone q pc xs m)"
  using assms
proof (induction n arbitrary: m xs)
  case 0
  then have "s_alone q pc xs m = m" by (cases m) (auto simp: s_alone_def)
  then show ?case using 0 by simp
next
  case (Suc n)
  obtain q' pc' where st: "sprod (ss_ring m) (ss_prod m) = (q', pc')" by force
  let ?now = "s_stored (ss_prod m)"
  let ?mid = "s_alone q' pc' ?now m"
  have "spsc_step m ?mid" unfolding s_alone_def using st by (rule spsc_step.producer)
  moreover have "spsc_fits ?mid" using Suc.prems(3,4) spsc_reach_fits[OF Suc.prems(1)]
    by (auto simp: spsc_fits_def s_alone_def)
  ultimately have r: "spsc_reach c ?mid" by (rule spsc_reach.step[OF Suc.prems(1)])
  have "spsc_reach c (s_alone q pc (run_stored n q' pc') ?mid)"
    by (rule Suc.IH[OF r]) (use Suc.prems st in \<open>auto simp: s_alone_def\<close>)
  moreover have "s_alone q pc (run_stored n q' pc') ?mid = s_alone q pc xs m"
    using Suc.prems(3) st by (auto simp: s_alone_def)
  ultimately show ?case by simp
qed

definition s_called :: "'a::zero list \<Rightarrow> 'a ssys" where
  "s_called xs = (spsc_start 3)\<lparr>ss_prod := SStart False False xs, ss_req := xs\<rparr>"

lemma reach_s_called: "length xs < 2 ^ 63 \<Longrightarrow> spsc_reach 3 (s_called xs)"
  unfolding s_called_def
  by (rule spsc_reach.step[OF spsc_reach.start], rule spsc_step.put[where ok = True])
    (auto simp: spsc_start_def spsc_fits_def)

theorem spsc_ring_fifo_witness:
  "\<exists>m :: int ssys. spsc_reach 3 m \<and> ss_in m = [5, 6, 7] \<and> ss_out m = []
     \<and> (\<exists>ys ok. snd (scrun 4 (ss_ring m) (STryDequeueBatch 2 (ss_ring m))) = KDone ys ok \<and> ys \<noteq> []
          \<and> ys = take (length ys) [5, 6, 7] \<and> length ys \<le> 2)"
proof -
  let ?ini = "s_called [5, 6, 7 :: int]"
  let ?q = "\<lparr>sp_head = 3, sp_tailCache = 0, sp_tail = 0, sp_headCache = 0, sp_closed = False, sp_mask = 3, sp_buffer = [5, 6, 7, 0 :: int]\<rparr>"
  let ?fin = "s_alone ?q (SReturned True) [5, 6, 7] ?ini"
  have ini: "ss_ring ?ini = NewSPSCQueue 3" "ss_prod ?ini = SStart False False [5, 6, 7]" "ss_in ?ini = []" "ss_out ?ini = []"
    "ss_cons ?ini = KDone [] True"
    by (auto simp: s_called_def spsc_start_def)
  have r: "sprun 4 (NewSPSCQueue 3) (SStart False False [5, 6, 7]) = (?q, SReturned True)"
    "run_stored 4 (NewSPSCQueue 3) (SStart False False [5, 6, 7 :: int]) = [5, 6, 7]"
    by code_simp+
  have m: "spsc_reach 3 ?fin"
    by (rule reach_s_alone[where n = 4]) (use reach_s_called[of "[5, 6, 7]"] r ini in auto)
  have eqs: "ss_cons ?fin = KDone [] True" "ss_in ?fin = [5, 6, 7]" "ss_out ?fin = []"
    using ini by (auto simp: s_alone_def)
  have "\<exists>ys ok. snd (scrun 4 (ss_ring ?fin) (STryDequeueBatch 2 (ss_ring ?fin))) = KDone ys ok
      \<and> ys = take (length ys) (drop (length (ss_out ?fin)) (ss_in ?fin)) \<and> length ys \<le> 2 \<and> (ys = [] \<longleftrightarrow> ss_out ?fin = ss_in ?fin)"
    using spsc_ring_fifo[OF m, of "[]" True 2] eqs(1) by simp
  then show ?thesis using m unfolding eqs by (intro exI[of _ ?fin]) (auto simp: eqs)
qed

text \<open>
  \<open>TryDequeueBatch\<close> looks at the head and then at \<open>closed\<close>, and does not look at the head
  again: when the producer inserts its last item and closes the queue in between, the
  consumer is told that the queue is closed and empty while the item is in it.
\<close>

lemma spsc_try_reports_end_too_early:
  "let q0 = NewSPSCQueue 2;
       (q1, c) = scons q0 (STryDequeueBatch 1 q0);
       (q2, r) = sprun 5 q1 (SEnqueue (7 :: int));
       q3 = SClose q2
   in r = SReturned True \<and> snd (scons q3 c) = KDone [] False \<and> SLen q3 q3 = 1"
  by code_simp

text \<open>A waiting batch that is longer than the ring waits for good, until the queue is closed.\<close>

lemma spsc_long_batch_waits:
  assumes "sring_inv k q C L" "2 ^ k < length xs" "length xs < 2 ^ 63" "\<not> sp_closed q"
    "pc \<in> {SSpin False xs, SSpinTail False xs}"
  shows "fst (sprun n q pc) = q \<and> snd (sprun n q pc) \<in> {SSpin False xs, SSpinTail False xs}"
  using assms(5)
proof (induction n arbitrary: pc)
  case (Suc n)
  have "no_room False xs (sp_tail q) q"
    using no_room_iff[OF assms(1) order_refl, of False xs] assms(2,3) sring_invD(4,5)[OF assms(1)] by simp
  then have "\<exists>pc' \<in> {SSpin False xs, SSpinTail False xs}. sprod q pc = (q, pc')"
    using Suc.prems assms(4) by (auto simp: Let_def)
  then obtain pc' where "pc' \<in> {SSpin False xs, SSpinTail False xs}" "sprod q pc = (q, pc')" by blast
  then show ?case using Suc.IH[of pc'] by simp
qed simp

end
