(* ===== verification/Server.thy ===== *)
theory Server
  imports Base_Prelude
begin

text \<open>
  \<^verbatim>\<open>znet/server.go\<close>: the connection tables of a server, its connection count and limit, and
  the binding of connections to authenticated ids, used from any number of goroutines. Each
  access to a concurrent map, a counter or a field of a connection is a step; \<open>srv_step\<close>
  runs one access of a call from the point it has reached, and \<open>server_step\<close> interleaves
  the calls. A connection (\<open>ziface.IChannel\<close>) is known here by the fields the server uses;
  its \<open>Close\<close> is the part that concerns the server: it runs once and calls \<open>RemoveChannel\<close>.
  Whether \<open>OnAccept\<close> takes a connection is an argument of the call.
\<close>

section \<open>State\<close>

record srv_chan =
  sc_channelId :: u64
  sc_authId :: u64
  sc_acceptConnSlot :: bool
  sc_isClose :: bool
  sc_heartbeatTimeout :: int
  sc_channelMetrics :: bool

text \<open>
  Connections are references into \<open>sv_chan\<close>; \<open>sv_created\<close> counts them. The three counters
  at the end are the calls of the metrics interface.
\<close>

record server =
  sv_idGen :: u64
  sv_channels :: "u64 \<rightharpoonup> nat"
  sv_authChannels :: "u64 \<rightharpoonup> nat"
  sv_connCount :: int
  sv_maxConn :: int
  sv_heartbeatTimeout :: int
  sv_hasChannelMetrics :: bool
  sv_chan :: "nat \<Rightarrow> srv_chan"
  sv_created :: nat
  sv_connInc :: nat
  sv_connDec :: nat
  sv_connRejected :: nat

definition upd_chan :: "nat \<Rightarrow> (srv_chan \<Rightarrow> srv_chan) \<Rightarrow> server \<Rightarrow> server" where
  "upd_chan r f s = s\<lparr>sv_chan := (sv_chan s)(r := f (sv_chan s r))\<rparr>"

definition new_chan :: "u64 \<Rightarrow> srv_chan" where
  "new_chan channelId = \<lparr>sc_channelId = channelId, sc_authId = 0, sc_acceptConnSlot = False, sc_isClose = False,
     sc_heartbeatTimeout = 30000, sc_channelMetrics = False\<rparr>"

definition NewBaseServer :: "int \<Rightarrow> server" where
  "NewBaseServer maxConn = \<lparr>sv_idGen = 0, sv_channels = Map.empty, sv_authChannels = Map.empty, sv_connCount = 0,
     sv_maxConn = maxConn, sv_heartbeatTimeout = 30000, sv_hasChannelMetrics = False, sv_chan = (\<lambda>_. new_chan 0),
     sv_created = 0, sv_connInc = 0, sv_connDec = 0, sv_connRejected = 0\<rparr>"

definition AcceptAllowed :: "server \<Rightarrow> bool" where
  "AcceptAllowed s \<longleftrightarrow> (if sv_maxConn s \<le> 0 then True else sv_connCount s < sv_maxConn s)"

definition GetChannel :: "u64 \<Rightarrow> server \<Rightarrow> nat option" where
  "GetChannel channelId s = sv_channels s channelId"

definition GetChannelByAuthId :: "u64 \<Rightarrow> server \<Rightarrow> nat option" where
  "GetChannelByAuthId authId s = sv_authChannels s authId"

section \<open>Calls\<close>

text \<open>
  The points of a call. Of a new connection: \<open>Accepting\<close> (the id), \<open>Gate\<close>, \<open>AskAccept\<close> and \<open>MarkSlot\<close>
  (\<open>HandleAccept\<close>), \<open>AddCount\<close> to \<open>AddMetric\<close> (\<open>AddChannel\<close>), \<open>Undo\<close> and \<open>Refuse\<close> (its early end).
  Of a \<open>Close\<close>: \<open>Closing\<close>, then \<open>Remove\<close> to \<open>UnmapAuth\<close> (\<open>RemoveChannel\<close>); the list holds the keys a
  \<open>BaseClose\<close> still has to visit (\<open>CloseKeys\<close>). Of \<open>SetChannelAuth\<close>: \<open>Bind\<close> to \<open>StoreAuth\<close> for an id,
  \<open>ReadAuth\<close> to \<open>CheckAuth\<close> for the clearing.
\<close>

datatype srv_pc = Idle
  | Accepting bool | Gate nat bool | AskAccept nat bool | MarkSlot nat
  | AddCount nat | Undo nat | Refuse nat | Configure nat | StoreChan nat | AddMetric
  | Closing nat "u64 list" | Remove u64 "u64 list" | Uncount nat u64 "u64 list" | DecMetric nat u64 "u64 list"
  | ReadAuth nat u64 "u64 list" | CheckAuth u64 u64 "u64 list" | UnmapAuth u64 "u64 list" | CloseKeys "u64 list"
  | Bind u64 u64 | LoadPrev nat u64 u64 | ClearPrev nat nat u64 | SetAuth nat u64 | StoreAuth nat u64
  | ReadOwn nat u64 | ClearOwn nat u64 u64

fun accept_step :: "server \<Rightarrow> srv_pc \<Rightarrow> server \<times> srv_pc" where
  "accept_step s (Accepting ok) =
     (let i = sv_idGen s + 1; r = sv_created s
      in (s\<lparr>sv_idGen := i, sv_created := r + 1, sv_chan := (sv_chan s)(r := new_chan i)\<rparr>, Gate r ok))"
| "accept_step s (Gate r ok) =
     (if sv_maxConn s > 0 \<and> sv_connCount s \<ge> sv_maxConn s
      then (s\<lparr>sv_connRejected := sv_connRejected s + 1\<rparr>, Closing r [])
      else (s, AskAccept r ok))"
| "accept_step s (AskAccept r ok) =
     (if \<not> ok then (s\<lparr>sv_connRejected := sv_connRejected s + 1\<rparr>, Closing r [])
      else if sv_maxConn s > 0 then (s, MarkSlot r) else (s, AddCount r))"
| "accept_step s (MarkSlot r) = (upd_chan r (\<lambda>c. c\<lparr>sc_acceptConnSlot := True\<rparr>) s, AddCount r)"
| "accept_step s pc = (s, pc)"

fun add_step :: "server \<Rightarrow> srv_pc \<Rightarrow> server \<times> srv_pc" where
  "add_step s (AddCount r) =
     (if sv_maxConn s > 0
      then let s = upd_chan r (\<lambda>c. c\<lparr>sc_acceptConnSlot := False\<rparr>) s; n = sv_connCount s + 1
           in if n > sv_maxConn s then (s\<lparr>sv_connCount := n\<rparr>, Undo r) else (s\<lparr>sv_connCount := n\<rparr>, Configure r)
      else (s\<lparr>sv_connCount := sv_connCount s + 1\<rparr>, Configure r))"
| "add_step s (Undo r) = (s\<lparr>sv_connCount := sv_connCount s - 1\<rparr>, Refuse r)"
| "add_step s (Refuse r) = (s\<lparr>sv_connRejected := sv_connRejected s + 1\<rparr>, Closing r [])"
| "add_step s (Configure r) =
     (upd_chan r (\<lambda>c. c\<lparr>sc_heartbeatTimeout := sv_heartbeatTimeout s,
        sc_channelMetrics := sc_channelMetrics c \<or> sv_hasChannelMetrics s\<rparr>) s, StoreChan r)"
| "add_step s (StoreChan r) = (s\<lparr>sv_channels := (sv_channels s)(sc_channelId (sv_chan s r) \<mapsto> r)\<rparr>, AddMetric)"
| "add_step s AddMetric = (s\<lparr>sv_connInc := sv_connInc s + 1\<rparr>, Idle)"
| "add_step s pc = (s, pc)"

fun remove_step :: "server \<Rightarrow> srv_pc \<Rightarrow> server \<times> srv_pc" where
  "remove_step s (Closing r ks) =
     (if sc_isClose (sv_chan s r) then (s, CloseKeys ks)
      else (upd_chan r (\<lambda>c. c\<lparr>sc_isClose := True\<rparr>) s, Remove (sc_channelId (sv_chan s r)) ks))"
| "remove_step s (Remove i ks) =
     (case sv_channels s i of None \<Rightarrow> (s, CloseKeys ks)
      | Some r \<Rightarrow> (s\<lparr>sv_channels := (sv_channels s)(i := None)\<rparr>, Uncount r i ks))"
| "remove_step s (Uncount r i ks) = (s\<lparr>sv_connCount := sv_connCount s - 1\<rparr>, DecMetric r i ks)"
| "remove_step s (DecMetric r i ks) = (s\<lparr>sv_connDec := sv_connDec s + 1\<rparr>, ReadAuth r i ks)"
| "remove_step s (ReadAuth r i ks) =
     (let authId = sc_authId (sv_chan s r) in if authId > 0 then (s, CheckAuth authId i ks) else (s, CloseKeys ks))"
| "remove_step s (CheckAuth a i ks) =
     (case sv_authChannels s a of None \<Rightarrow> (s, CloseKeys ks)
      | Some r \<Rightarrow> if sc_channelId (sv_chan s r) = i then (s, UnmapAuth a ks) else (s, CloseKeys ks))"
| "remove_step s (UnmapAuth a ks) = (s\<lparr>sv_authChannels := (sv_authChannels s)(a := None)\<rparr>, CloseKeys ks)"
| "remove_step s (CloseKeys []) = (s, Idle)"
| "remove_step s (CloseKeys (k # ks)) =
     (case sv_channels s k of None \<Rightarrow> (s, CloseKeys ks) | Some r \<Rightarrow> (s, Closing r ks))"
| "remove_step s pc = (s, pc)"

fun auth_step :: "server \<Rightarrow> srv_pc \<Rightarrow> server \<times> srv_pc" where
  "auth_step s (Bind i a) =
     (case GetChannel i s of None \<Rightarrow> (s, Idle)
      | Some r \<Rightarrow> if a > 0 then (s, LoadPrev r i a) else (s, ReadOwn r i))"
| "auth_step s (LoadPrev r i a) =
     (case sv_authChannels s a of None \<Rightarrow> (s, SetAuth r a)
      | Some p \<Rightarrow> if sc_channelId (sv_chan s p) \<noteq> i then (s, ClearPrev p r a) else (s, SetAuth r a))"
| "auth_step s (ClearPrev p r a) = (upd_chan p (\<lambda>c. c\<lparr>sc_authId := 0\<rparr>) s, SetAuth r a)"
| "auth_step s (SetAuth r a) = (upd_chan r (\<lambda>c. c\<lparr>sc_authId := a\<rparr>) s, StoreAuth r a)"
| "auth_step s (StoreAuth r a) = (s\<lparr>sv_authChannels := (sv_authChannels s)(a \<mapsto> r)\<rparr>, Idle)"
| "auth_step s (ReadOwn r i) = (s, ClearOwn r i (sc_authId (sv_chan s r)))"
| "auth_step s (ClearOwn r i prevAuth) =
     (upd_chan r (\<lambda>c. c\<lparr>sc_authId := 0\<rparr>) s, if prevAuth > 0 then CheckAuth prevAuth i [] else Idle)"
| "auth_step s pc = (s, pc)"

definition is_accept :: "srv_pc \<Rightarrow> bool" where
  "is_accept pc = (case pc of Accepting b \<Rightarrow> True | Gate r b \<Rightarrow> True | AskAccept r b \<Rightarrow> True | MarkSlot r \<Rightarrow> True | _ \<Rightarrow> False)"

definition is_add :: "srv_pc \<Rightarrow> bool" where
  "is_add pc = (case pc of AddCount r \<Rightarrow> True | Undo r \<Rightarrow> True | Refuse r \<Rightarrow> True | Configure r \<Rightarrow> True
     | StoreChan r \<Rightarrow> True | AddMetric \<Rightarrow> True | _ \<Rightarrow> False)"

definition is_auth :: "srv_pc \<Rightarrow> bool" where
  "is_auth pc = (case pc of Bind i a \<Rightarrow> True | LoadPrev r i a \<Rightarrow> True | ClearPrev p r a \<Rightarrow> True | SetAuth r a \<Rightarrow> True
     | StoreAuth r a \<Rightarrow> True | ReadOwn r i \<Rightarrow> True | ClearOwn r i a \<Rightarrow> True | _ \<Rightarrow> False)"

definition srv_step :: "server \<Rightarrow> srv_pc \<Rightarrow> server \<times> srv_pc" where
  "srv_step s pc = (if is_accept pc then accept_step s pc else if is_add pc then add_step s pc
     else if is_auth pc then auth_step s pc else remove_step s pc)"

section \<open>Interleaving\<close>

text \<open>
  A server with the goroutines \<open>0, \<dots>, n - 1\<close>. An idle goroutine starts a call: the handling
  of a new connection (\<open>NextId\<close>, \<open>HandleAccept\<close> and, when it is taken, \<open>AddChannel\<close>), a \<open>Close\<close>
  of a connection that exists, a \<open>BaseClose\<close> that visits the given keys, or a \<open>SetChannelAuth\<close>.
\<close>

record srv_sys =
  sy_srv :: server
  sy_pc :: "nat \<Rightarrow> srv_pc"

definition is_start :: "server \<Rightarrow> srv_pc \<Rightarrow> bool" where
  "is_start s pc = (case pc of Accepting ok \<Rightarrow> True | Closing r ks \<Rightarrow> r < sv_created s \<and> ks = []
     | CloseKeys ks \<Rightarrow> True | Bind i a \<Rightarrow> True | _ \<Rightarrow> False)"

inductive server_step :: "nat \<Rightarrow> srv_sys \<Rightarrow> srv_sys \<Rightarrow> bool" for n where
  call: "t < n \<Longrightarrow> sy_pc m t = Idle \<Longrightarrow> is_start (sy_srv m) pc \<Longrightarrow>
    server_step n m (m\<lparr>sy_pc := (sy_pc m)(t := pc)\<rparr>)"
| run: "t < n \<Longrightarrow> srv_step (sy_srv m) (sy_pc m t) = (s, pc) \<Longrightarrow>
    server_step n m (m\<lparr>sy_srv := s, sy_pc := (sy_pc m)(t := pc)\<rparr>)"

definition server_start :: "int \<Rightarrow> srv_sys" where
  "server_start maxConn = \<lparr>sy_srv = NewBaseServer maxConn, sy_pc = (\<lambda>_. Idle)\<rparr>"

text \<open>Connection ids are 64-bit; a run creates fewer than \<open>2 ^ 64\<close> connections, so that none comes twice.\<close>

inductive server_reach :: "nat \<Rightarrow> int \<Rightarrow> srv_sys \<Rightarrow> bool" for n maxConn where
  start: "server_reach n maxConn (server_start maxConn)"
| step: "server_reach n maxConn m \<Longrightarrow> server_step n m m' \<Longrightarrow> sv_created (sy_srv m') < 2 ^ 64 \<Longrightarrow>
    server_reach n maxConn m'"

inductive_cases server_stepE: "server_step n m m'"

lemmas server_step_cases = server_stepE[consumes 1, case_names call run]

section \<open>Configuration and the start of a connection\<close>

text \<open>
  What is set before the server runs, and the shared send workers, which the first
  connection that needs them starts: \<open>cf_workers\<close> is their generation, \<open>cf_cancel\<close> that they
  can still be cancelled. A bound connection hands its messages to the workers of the
  generation it was bound to. Sending goroutine and reading loop of a connection are the
  actions \<open>RunChannel\<close> takes.
\<close>

record srv_config =
  cf_addr :: string
  cf_listenerAddr :: "string option"
  cf_syncMode :: bool
  cf_sharedSendWorkerMode :: bool
  cf_workers :: "nat option"
  cf_cancel :: bool
  cf_disconnectOnDecryptErr :: bool

datatype run_action = BoundTo nat | StartSend | StartRead

definition new_config :: "string \<Rightarrow> bool \<Rightarrow> srv_config" where
  "new_config addr syncMode = \<lparr>cf_addr = addr, cf_listenerAddr = None, cf_syncMode = syncMode, cf_sharedSendWorkerMode = False,
     cf_workers = None, cf_cancel = False, cf_disconnectOnDecryptErr = True\<rparr>"

definition GetAddr :: "srv_config \<Rightarrow> string" where
  "GetAddr c = (case cf_listenerAddr c of None \<Rightarrow> cf_addr c | Some a \<Rightarrow> a)"

definition ensureSharedSendWorkers :: "nat \<Rightarrow> srv_config \<Rightarrow> nat \<times> srv_config" where
  "ensureSharedSendWorkers fresh c =
     (case cf_workers c of None \<Rightarrow> (fresh, c\<lparr>cf_workers := Some fresh, cf_cancel := True\<rparr>) | Some w \<Rightarrow> (w, c))"

definition stopSharedSendWorkers :: "srv_config \<Rightarrow> srv_config" where
  "stopSharedSendWorkers c = (if cf_cancel c then c\<lparr>cf_cancel := False\<rparr> else c)"

text \<open>\<open>settable\<close> tells whether the connection has the method \<open>SetSharedSendHook\<close>.\<close>

definition BindSharedSendHook :: "nat \<Rightarrow> bool \<Rightarrow> srv_config \<Rightarrow> nat option \<times> srv_config" where
  "BindSharedSendHook fresh settable c =
     (if \<not> cf_sharedSendWorkerMode c then (None, c)
      else if \<not> settable then (None, c)
      else let (w, c) = ensureSharedSendWorkers fresh c in (Some w, c))"

definition RunChannel :: "nat \<Rightarrow> bool \<Rightarrow> srv_config \<Rightarrow> run_action list \<times> srv_config" where
  "RunChannel fresh settable c =
     (if \<not> cf_syncMode c
      then (case BindSharedSendHook fresh settable c of
          (None, c) \<Rightarrow> ([StartSend, StartRead], c)
        | (Some w, c) \<Rightarrow> ([BoundTo w, StartRead], c))
      else ([StartRead], c))"

text \<open>A connection has a sending goroutine or is bound to the workers, never both; without a mode that sends, neither.\<close>

lemma RunChannel_one_sender:
  "filter (\<lambda>a. a \<noteq> StartRead) (fst (RunChannel fresh settable c)) =
     (if cf_syncMode c then [] else if cf_sharedSendWorkerMode c \<and> settable
      then [BoundTo (case cf_workers c of None \<Rightarrow> fresh | Some w \<Rightarrow> w)] else [StartSend])"
  by (auto simp: RunChannel_def BindSharedSendHook_def ensureSharedSendWorkers_def split: option.splits)

text \<open>\<open>AggregateChannelSessionStats\<close> over the connections in the order \<open>Range\<close> visits them; \<open>None\<close> has no statistics.\<close>

fun AggregateChannelSessionStats :: "(int \<times> int \<times> int \<times> int) option list \<Rightarrow> int \<times> int \<times> int \<times> int \<times> int" where
  "AggregateChannelSessionStats [] = (0, 0, 0, 0, 0)"
| "AggregateChannelSessionStats (st # sts) =
     (case st of None \<Rightarrow> AggregateChannelSessionStats sts
      | Some (sc, rc, sb, rb) \<Rightarrow>
          (case AggregateChannelSessionStats sts of (n, a, b, c, d) \<Rightarrow> (n + 1, i64 (sc + a), i64 (rc + b), i64 (sb + c), i64 (rb + d))))"

section \<open>The invariant\<close>

text \<open>How a call in flight stands in the accounts: counted, admitted, stored without its metric, removed without it.\<close>

fun counted :: "srv_pc \<Rightarrow> nat" where
  "counted (Undo r) = 1" | "counted (Configure r) = 1" | "counted (StoreChan r) = 1" | "counted (Uncount r i ks) = 1"
| "counted pc = 0"

fun admitted :: "srv_pc \<Rightarrow> nat" where
  "admitted (Configure r) = 1" | "admitted (StoreChan r) = 1" | "admitted pc = 0"

fun inc_due :: "srv_pc \<Rightarrow> nat" where
  "inc_due AddMetric = 1" | "inc_due pc = 0"

fun dec_due :: "srv_pc \<Rightarrow> nat" where
  "dec_due (Uncount r i ks) = 1" | "dec_due (DecMetric r i ks) = 1" | "dec_due pc = 0"

text \<open>The connection that a goroutine is bringing in, and the connections that a point refers to.\<close>

fun bringing :: "srv_pc \<Rightarrow> nat option" where
  "bringing (Gate r ok) = Some r" | "bringing (AskAccept r ok) = Some r" | "bringing (MarkSlot r) = Some r"
| "bringing (AddCount r) = Some r" | "bringing (Undo r) = Some r" | "bringing (Refuse r) = Some r"
| "bringing (Configure r) = Some r" | "bringing (StoreChan r) = Some r"
| "bringing pc = None"

fun refers :: "srv_pc \<Rightarrow> nat set" where
  "refers (Closing r ks) = {r}" | "refers (Uncount r i ks) = {r}" | "refers (DecMetric r i ks) = {r}"
| "refers (ReadAuth r i ks) = {r}" | "refers (LoadPrev r i a) = {r}" | "refers (ClearPrev p r a) = {p, r}"
| "refers (SetAuth r a) = {r}" | "refers (StoreAuth r a) = {r}" | "refers (ReadOwn r i) = {r}"
| "refers (ClearOwn r i a) = {r}"
| "refers pc = set_option (bringing pc)"

definition tally :: "nat \<Rightarrow> (srv_pc \<Rightarrow> nat) \<Rightarrow> (nat \<Rightarrow> srv_pc) \<Rightarrow> nat" where
  "tally n f pcs = (\<Sum>t<n. f (pcs t))"

text \<open>The tables are well typed: keys are the ids of the connections under them, ids are distinct.\<close>

definition tables_ok :: "server \<Rightarrow> bool" where
  "tables_ok s \<longleftrightarrow> unat (sv_idGen s) = sv_created s
     \<and> (\<forall>r < sv_created s. unat (sc_channelId (sv_chan s r)) = r + 1)
     \<and> (\<forall>i r. sv_channels s i = Some r \<longrightarrow> r < sv_created s \<and> sc_channelId (sv_chan s r) = i)
     \<and> (\<forall>a r. sv_authChannels s a = Some r \<longrightarrow> r < sv_created s)"

definition pcs_ok :: "nat \<Rightarrow> server \<Rightarrow> (nat \<Rightarrow> srv_pc) \<Rightarrow> bool" where
  "pcs_ok n s pcs \<longleftrightarrow>
     (\<forall>t<n. \<forall>r\<in>refers (pcs t). r < sv_created s)
     \<and> (\<forall>t<n. \<forall>r. bringing (pcs t) = Some r \<longrightarrow> sv_channels s (sc_channelId (sv_chan s r)) = None)
     \<and> (\<forall>t<n. \<forall>u<n. \<forall>r. bringing (pcs t) = Some r \<longrightarrow> bringing (pcs u) = Some r \<longrightarrow> t = u)"

definition accounts_ok :: "nat \<Rightarrow> server \<Rightarrow> (nat \<Rightarrow> srv_pc) \<Rightarrow> bool" where
  "accounts_ok n s pcs \<longleftrightarrow> finite (dom (sv_channels s))
     \<and> sv_connCount s = int (card (dom (sv_channels s)) + tally n counted pcs)
     \<and> (0 < sv_maxConn s \<longrightarrow> int (card (dom (sv_channels s)) + tally n admitted pcs) \<le> sv_maxConn s)
     \<and> sv_connInc s + tally n inc_due pcs = sv_connDec s + tally n dec_due pcs + card (dom (sv_channels s))"

lemma tally_upd:
  assumes "t < n"
  shows "tally n f (pcs(t := pc)) + f (pcs t) = tally n f pcs + f pc"
proof -
  have "(\<Sum>u<n. f ((pcs(t := pc)) u)) = f pc + (\<Sum>u\<in>{..<n} - {t}. f (pcs u))"
    using assms by (subst sum.remove[of _ t]) (auto intro!: sum.cong)
  moreover have "(\<Sum>u<n. f (pcs u)) = f (pcs t) + (\<Sum>u\<in>{..<n} - {t}. f (pcs u))"
    using assms by (subst sum.remove[of _ t]) auto
  ultimately show ?thesis by (simp add: tally_def)
qed

lemma tally_same: "t < n \<Longrightarrow> f pc = f (pcs t) \<Longrightarrow> tally n f (pcs(t := pc)) = tally n f pcs"
  using tally_upd[of t n f pcs pc] by simp

lemma tally_ge: "t < n \<Longrightarrow> f (pcs t) \<le> tally n f pcs"
  unfolding tally_def by (rule member_le_sum) auto

lemma upd_chan_facts [simp]:
  "sv_idGen (upd_chan r f s) = sv_idGen s" "sv_channels (upd_chan r f s) = sv_channels s"
  "sv_authChannels (upd_chan r f s) = sv_authChannels s" "sv_connCount (upd_chan r f s) = sv_connCount s"
  "sv_maxConn (upd_chan r f s) = sv_maxConn s" "sv_created (upd_chan r f s) = sv_created s"
  "sv_connInc (upd_chan r f s) = sv_connInc s" "sv_connDec (upd_chan r f s) = sv_connDec s"
  "sv_chan (upd_chan r f s) = (sv_chan s)(r := f (sv_chan s r))"
  by (auto simp: upd_chan_def)

lemma tables_ok_cong:
  assumes "tables_ok s" "sv_idGen s' = sv_idGen s" "sv_created s' = sv_created s"
    "\<And>r. sc_channelId (sv_chan s' r) = sc_channelId (sv_chan s r)"
    "\<And>i r. sv_channels s' i = Some r \<Longrightarrow> sv_channels s i = Some r \<or> (r < sv_created s \<and> sc_channelId (sv_chan s r) = i)"
    "\<And>a r. sv_authChannels s' a = Some r \<Longrightarrow> sv_authChannels s a = Some r \<or> r < sv_created s"
  shows "tables_ok s'"
  using assms unfolding tables_ok_def by metis

lemma pcs_ok_upd:
  assumes "pcs_ok n s pcs" "t < n" "sv_created s \<le> sv_created s'"
    "\<And>r. r < sv_created s \<Longrightarrow> sc_channelId (sv_chan s' r) = sc_channelId (sv_chan s r)"
    "\<And>r. r \<in> refers pc \<Longrightarrow> r < sv_created s'"
    "\<And>r u. u < n \<Longrightarrow> u \<noteq> t \<Longrightarrow> bringing (pcs u) = Some r \<Longrightarrow> r < sv_created s \<Longrightarrow> sv_channels s (sc_channelId (sv_chan s r)) = None
       \<Longrightarrow> sv_channels s' (sc_channelId (sv_chan s r)) = None \<and> bringing pc \<noteq> Some r"
    "\<And>r. bringing pc = Some r \<Longrightarrow> sv_channels s' (sc_channelId (sv_chan s' r)) = None"
  shows "pcs_ok n s' (pcs(t := pc))"
proof -
  have ref: "r < sv_created s" if "u < n" "r \<in> refers (pcs u)" for u r using assms(1) that by (auto simp: pcs_ok_def)
  have br: "r \<in> refers x" if "bringing x = Some r" for x r using that by (cases x) auto
  have no: "sv_channels s (sc_channelId (sv_chan s r)) = None" if "u < n" "bringing (pcs u) = Some r" for u r
    using assms(1) that by (auto simp: pcs_ok_def)
  show ?thesis unfolding pcs_ok_def
  proof (intro conjI allI impI ballI)
    fix u r assume "u < n" "r \<in> refers ((pcs(t := pc)) u)"
    then show "r < sv_created s'" using ref[of u r] assms(3,5) by (cases "u = t") fastforce+
  next
    fix u r assume u: "u < n" "bringing ((pcs(t := pc)) u) = Some r"
    show "sv_channels s' (sc_channelId (sv_chan s' r)) = None"
    proof (cases "u = t")
      case True then show ?thesis using assms(7) u by simp
    next
      case False
      then have b: "bringing (pcs u) = Some r" using u by simp
      then have "r < sv_created s" using ref[OF u(1)] br by blast
      then show ?thesis using assms(4)[of r] assms(6)[OF u(1) False b _ no[OF u(1) b]] by simp
    qed
  next
    fix u v r assume u: "u < n" "v < n" "bringing ((pcs(t := pc)) u) = Some r" "bringing ((pcs(t := pc)) v) = Some r"
    have x: False if "w < n" "w \<noteq> t" "bringing (pcs w) = Some r" "bringing pc = Some r" for w
      using assms(6)[OF that(1-3) ref[OF that(1) br[OF that(3)]] no[OF that(1,3)]] that(4) by simp
    show "u = v"
      using u x[of u] x[of v] assms(1) unfolding pcs_ok_def by (cases "u = t"; cases "v = t") auto
  qed
qed

definition srv_inv :: "nat \<Rightarrow> int \<Rightarrow> server \<Rightarrow> (nat \<Rightarrow> srv_pc) \<Rightarrow> bool" where
  "srv_inv n maxConn s pcs \<longleftrightarrow> tables_ok s \<and> pcs_ok n s pcs \<and> accounts_ok n s pcs \<and> sv_maxConn s = maxConn"

lemma refers_created: "pcs_ok n s pcs \<Longrightarrow> t < n \<Longrightarrow> r \<in> refers (pcs t) \<Longrightarrow> r < sv_created s"
  by (auto simp: pcs_ok_def)

text \<open>A step that leaves the tables of connections and the accounts alone.\<close>

lemma srv_inv_quiet:
  assumes inv: "srv_inv n maxConn s pcs" and t: "t < n"
    and same: "sv_idGen s' = sv_idGen s" "sv_created s' = sv_created s" "sv_channels s' = sv_channels s"
      "sv_connCount s' = sv_connCount s" "sv_maxConn s' = sv_maxConn s" "sv_connInc s' = sv_connInc s"
      "sv_connDec s' = sv_connDec s" "\<And>r. sc_channelId (sv_chan s' r) = sc_channelId (sv_chan s r)"
    and auth: "\<And>a r. sv_authChannels s' a = Some r \<Longrightarrow> sv_authChannels s a = Some r \<or> r < sv_created s"
    and pc: "counted pc = counted (pcs t)" "admitted pc = admitted (pcs t)" "inc_due pc = inc_due (pcs t)"
      "dec_due pc = dec_due (pcs t)" "bringing pc = bringing (pcs t) \<or> bringing pc = None"
    and refs: "\<And>r. r \<in> refers pc \<Longrightarrow> r < sv_created s"
  shows "srv_inv n maxConn s' (pcs(t := pc))"
proof -
  have i: "tables_ok s" "pcs_ok n s pcs" "accounts_ok n s pcs" "sv_maxConn s = maxConn"
    using inv by (auto simp: srv_inv_def)
  have "tables_ok s'" by (rule tables_ok_cong[OF i(1)]) (use same auth in auto)
  moreover have "pcs_ok n s' (pcs(t := pc))"
    by (rule pcs_ok_upd[OF i(2) t]) (use same refs pc(5) i(2) t in \<open>auto simp: pcs_ok_def\<close>)
  moreover have "accounts_ok n s' (pcs(t := pc))"
    using i(3) t pc(1-4) by (simp add: accounts_ok_def same tally_same)
  ultimately show ?thesis using i(4) same(5) by (simp add: srv_inv_def)
qed

lemma card_dom_upd: "finite (dom m) \<Longrightarrow> m i = None \<Longrightarrow> card (dom (m(i \<mapsto> r))) = card (dom m) + 1"
  by (simp add: domIff)

lemma card_dom_del: "finite (dom m) \<Longrightarrow> m i = Some r \<Longrightarrow> card (dom (m(i := None))) + 1 = card (dom m)"
proof -
  assume f: "finite (dom m)" and i: "m i = Some r"
  then have "dom m = insert i (dom (m(i := None)))" by auto
  moreover have "i \<notin> dom (m(i := None))" by simp
  ultimately show ?thesis using f by (metis Suc_eq_plus1 card_insert_disjoint finite_insert)
qed

text \<open>The steps that move the accounts.\<close>

lemma srv_inv_move:
  assumes inv: "srv_inv n maxConn s pcs" and t: "t < n"
    and same: "sv_idGen s' = sv_idGen s" "sv_created s' = sv_created s" "sv_maxConn s' = sv_maxConn s"
      "\<And>r. sc_channelId (sv_chan s' r) = sc_channelId (sv_chan s r)" "sv_authChannels s' = sv_authChannels s"
    and chans: "\<And>i r. sv_channels s' i = Some r \<Longrightarrow> sv_channels s i = Some r \<or> (bringing (pcs t) = Some r \<and> sc_channelId (sv_chan s r) = i)"
    and fin: "finite (dom (sv_channels s')) "
    and acc: "sv_connCount s' + int (counted (pcs t)) + int (card (dom (sv_channels s)))
        = sv_connCount s + int (counted pc) + int (card (dom (sv_channels s')))"
      "0 < maxConn \<Longrightarrow> card (dom (sv_channels s')) + admitted pc \<le> card (dom (sv_channels s)) + admitted (pcs t)
        \<or> sv_connCount s' \<le> maxConn \<and> admitted pc = counted pc"
      "sv_connInc s' + inc_due pc + sv_connDec s + dec_due (pcs t) + card (dom (sv_channels s))
        = sv_connInc s + inc_due (pcs t) + sv_connDec s' + dec_due pc + card (dom (sv_channels s'))"
    and pc: "bringing pc = bringing (pcs t) \<and> sv_channels s' = sv_channels s \<or> bringing pc = None"
    and refs: "\<And>r. r \<in> refers pc \<Longrightarrow> r < sv_created s"
  shows "srv_inv n maxConn s' (pcs(t := pc))"
proof -
  have i: "tables_ok s" "pcs_ok n s pcs" "accounts_ok n s pcs" "sv_maxConn s = maxConn"
    using inv by (auto simp: srv_inv_def)
  have br: "r < sv_created s" if "bringing (pcs t) = Some r" for r
    using refers_created[OF i(2) t, of r] that by (cases "pcs t") auto
  have "tables_ok s'" by (rule tables_ok_cong[OF i(1)]) (use same chans br in auto)
  moreover have "pcs_ok n s' (pcs(t := pc))"
  proof (rule pcs_ok_upd[OF i(2) t])
    fix r u assume u: "u < n" "u \<noteq> t" "bringing (pcs u) = Some r" "r < sv_created s"
      and no: "sv_channels s (sc_channelId (sv_chan s r)) = None"
    have ne: "bringing (pcs t) \<noteq> Some r" using i(2) u t by (auto simp: pcs_ok_def)
    have "sv_channels s' (sc_channelId (sv_chan s r)) = None"
    proof (rule ccontr)
      assume "sv_channels s' (sc_channelId (sv_chan s r)) \<noteq> None"
      then obtain q where q: "sv_channels s' (sc_channelId (sv_chan s r)) = Some q" by blast
      then have b: "bringing (pcs t) = Some q" "sc_channelId (sv_chan s q) = sc_channelId (sv_chan s r)"
        using chans[OF q] no by auto
      then have "q + 1 = r + 1" using i(1) br[OF b(1)] u(4) unfolding tables_ok_def by metis
      then show False using b(1) ne by simp
    qed
    then show "sv_channels s' (sc_channelId (sv_chan s r)) = None \<and> bringing pc \<noteq> Some r" using pc ne by auto
  next
    fix r assume "bringing pc = Some r"
    then show "sv_channels s' (sc_channelId (sv_chan s' r)) = None" using pc i(2) t same(4) by (auto simp: pcs_ok_def)
  qed (use same refs in auto)
  moreover have "accounts_ok n s' (pcs(t := pc))"
  proof -
    note u = tally_upd[OF t, of counted pcs pc] tally_upd[OF t, of admitted pcs pc]
      tally_upd[OF t, of inc_due pcs pc] tally_upd[OF t, of dec_due pcs pc]
    have le: "tally n admitted (pcs(t := pc)) \<le> tally n counted (pcs(t := pc))"
    proof -
      have "admitted x \<le> counted x" for x by (cases x) auto
      then show ?thesis unfolding tally_def by (intro sum_mono) auto
    qed
    have cnt: "sv_connCount s' = int (card (dom (sv_channels s')) + tally n counted (pcs(t := pc)))"
      using i(3) acc(1) u(1) unfolding accounts_ok_def by linarith
    have "int (card (dom (sv_channels s')) + tally n admitted (pcs(t := pc))) \<le> maxConn" if m: "0 < maxConn"
    proof (cases "sv_connCount s' \<le> maxConn \<and> admitted pc = counted pc")
      case True then show ?thesis using cnt le by linarith
    next
      case False
      then have "card (dom (sv_channels s')) + admitted pc \<le> card (dom (sv_channels s)) + admitted (pcs t)" using acc(2) m by blast
      moreover have "int (card (dom (sv_channels s)) + tally n admitted pcs) \<le> maxConn"
        using i(3,4) m by (auto simp: accounts_ok_def)
      ultimately show ?thesis using u(2) by linarith
    qed
    moreover have "sv_connInc s' + tally n inc_due (pcs(t := pc)) = sv_connDec s' + tally n dec_due (pcs(t := pc)) + card (dom (sv_channels s'))"
      using i(3) acc(3) u(3,4) unfolding accounts_ok_def by linarith
    ultimately show ?thesis using cnt fin i(4) same(3) by (simp add: accounts_ok_def)
  qed
  ultimately show ?thesis using i(4) same(3) by (simp add: srv_inv_def)
qed

lemma srv_inv_create:
  assumes inv: "srv_inv n maxConn s pcs" and t: "t < n" and at: "pcs t = Accepting ok"
    and lt: "sv_created s + 1 < 2 ^ 64"
  shows "srv_inv n maxConn (fst (accept_step s (Accepting ok))) (pcs(t := Gate (sv_created s) ok))"
proof -
  have i: "tables_ok s" "pcs_ok n s pcs" "accounts_ok n s pcs" "sv_maxConn s = maxConn"
    using inv by (auto simp: srv_inv_def)
  let ?r = "sv_created s" and ?s = "fst (accept_step s (Accepting ok))"
  have u: "unat (sv_idGen s + 1) = ?r + 1"
    using unat_plus_small[of "sv_idGen s" 1] i(1) lt by (simp add: tables_ok_def)
  have new: "sv_channels s (sv_idGen s + 1) = None"
  proof (rule ccontr)
    assume "sv_channels s (sv_idGen s + 1) \<noteq> None"
    then obtain q where "q < ?r" "sc_channelId (sv_chan s q) = sv_idGen s + 1" using i(1) by (auto simp: tables_ok_def)
    then show False using i(1) u by (auto simp: tables_ok_def)
  qed
  have "tables_ok ?s" using i(1) u by (auto simp: tables_ok_def Let_def new_chan_def less_Suc_eq)
  moreover have "pcs_ok n ?s (pcs(t := Gate ?r ok))"
    by (rule pcs_ok_upd[OF i(2) t]) (use new in \<open>auto simp: Let_def new_chan_def\<close>)
  moreover have "accounts_ok n ?s (pcs(t := Gate ?r ok))"
    using i(3) t at by (simp add: accounts_ok_def Let_def tally_same)
  ultimately show ?thesis using i(4) by (simp add: srv_inv_def Let_def)
qed

lemma srv_step_inv:
  assumes inv: "srv_inv n maxConn s pcs" and t: "t < n" and lt: "sv_created (fst (srv_step s (pcs t))) < 2 ^ 64"
  shows "srv_inv n maxConn (fst (srv_step s (pcs t))) (pcs(t := snd (srv_step s (pcs t))))"
proof -
  have i: "tables_ok s" "pcs_ok n s pcs" "accounts_ok n s pcs" "sv_maxConn s = maxConn"
    using inv by (auto simp: srv_inv_def)
  have fin: "finite (dom (sv_channels s))" using i(3) by (simp add: accounts_ok_def)
  note ref = refers_created[OF i(2) t]
  note q = srv_inv_quiet[OF inv t] and mv = srv_inv_move[OF inv t]
  note st = srv_step_def is_accept_def is_add_def is_auth_def
  have none: "sv_channels s (sc_channelId (sv_chan s r)) = None" if "bringing (pcs t) = Some r" for r
    using i(2) t that by (auto simp: pcs_ok_def)
  show ?thesis
  proof (cases "pcs t")
    case Idle
    then show ?thesis by (intro q) (auto simp: st)
  next
    case (Accepting ok)
    then show ?thesis using srv_inv_create[OF inv t Accepting] lt by (simp add: st Let_def)
  next
    case (AddCount r)
    show ?thesis
    proof (cases "0 < sv_maxConn s \<and> sv_connCount s + 1 > sv_maxConn s")
      case True
      then show ?thesis using AddCount ref[of r] fin by (intro mv) (auto simp: st Let_def)
    next
      case False
      then have "sv_connCount s < maxConn" if "0 < maxConn" using i(4) that by linarith
      then show ?thesis using False AddCount ref[of r] fin i(4)
        by (cases "0 < sv_maxConn s") (intro mv; auto simp: st Let_def)+
    qed
  next
    case (Undo r)
    then show ?thesis using ref[of r] fin by (intro mv) (auto simp: st)
  next
    case (StoreChan r)
    then show ?thesis using ref[of r] fin none[of r] by (intro mv) (auto simp: st domIff split: if_splits)
  next
    case AddMetric
    then show ?thesis using fin by (intro mv) (auto simp: st)
  next
    case (Remove j ks)
    show ?thesis
    proof (cases "sv_channels s j")
      case None then show ?thesis using Remove by (intro q) (auto simp: st)
    next
      case (Some r)
      then have "r < sv_created s" using i(1) by (auto simp: tables_ok_def)
      then show ?thesis using Remove Some fin card_dom_del[OF fin Some] by (intro mv) (auto simp: st split: if_splits)
    qed
  next
    case (Uncount r j ks)
    then show ?thesis using ref[of r] fin by (intro mv) (auto simp: st)
  next
    case (DecMetric r j ks)
    then show ?thesis using ref[of r] fin by (intro mv) (auto simp: st)
  next
    case (CloseKeys ks)
    then show ?thesis using i(1) by (cases ks) (intro q, auto simp: st tables_ok_def split: option.splits)+
  next
    case (LoadPrev r j a)
    then show ?thesis using ref[of r] i(1) by (intro q) (auto simp: st tables_ok_def split: option.splits if_splits)
  qed ((intro q; use ref i(1) in \<open>auto simp: st Let_def tables_ok_def GetChannel_def split: option.splits if_splits\<close>)+)
qed

lemma server_reach_inv: "server_reach n maxConn m \<Longrightarrow> srv_inv n maxConn (sy_srv m) (sy_pc m)"
proof (induction rule: server_reach.induct)
  case start
  show ?case
    by (simp add: srv_inv_def server_start_def NewBaseServer_def tables_ok_def pcs_ok_def accounts_ok_def tally_def)
next
  case (step m m')
  from step.hyps(2) show ?case
  proof (cases rule: server_step_cases)
    case (call t pc)
    have tabs: "tables_ok (sy_srv m)" using step.IH by (simp add: srv_inv_def)
    have "srv_inv n maxConn (sy_srv m) ((sy_pc m)(t := pc))"
      by (rule srv_inv_quiet[OF step.IH call(2)])
        (use call(3,4) tabs in \<open>auto simp: is_start_def tables_ok_def split: srv_pc.splits\<close>)
    then show ?thesis using call(1) by (simp add: fun_upd_def)
  next
    case (run t s pc)
    have "s = fst (srv_step (sy_srv m) (sy_pc m t))" "pc = snd (srv_step (sy_srv m) (sy_pc m t))" using run(3) by simp_all
    then show ?thesis using srv_step_inv[OF step.IH run(2)] run(1) step.hyps(3) by (simp add: fun_upd_def)
  qed
qed

section \<open>Properties\<close>

lemma tally_zero: "\<forall>t<n. pcs t = Idle \<Longrightarrow> f Idle = 0 \<Longrightarrow> tally n f pcs = 0"
  by (simp add: tally_def)

text \<open>
  C40: however many goroutines accept, add, bind, remove and close connections, and however
  their accesses interleave: with a limit, the server never manages more connections than
  the limit allows; the connection count is never below the number of managed connections,
  and exact when no call is in flight, as is the difference of the two metrics; every key of
  the table is the id of the connection under it, and no two connections have the same id.
\<close>

theorem connection_limit_kept:
  assumes "server_reach n maxConn m"
  shows "finite (dom (sv_channels (sy_srv m)))
    \<and> (0 < maxConn \<longrightarrow> int (card (dom (sv_channels (sy_srv m)))) \<le> maxConn)
    \<and> int (card (dom (sv_channels (sy_srv m)))) \<le> sv_connCount (sy_srv m)
    \<and> ((\<forall>t<n. sy_pc m t = Idle) \<longrightarrow>
        sv_connCount (sy_srv m) = int (card (dom (sv_channels (sy_srv m))))
        \<and> sv_connInc (sy_srv m) = sv_connDec (sy_srv m) + card (dom (sv_channels (sy_srv m))))
    \<and> (\<forall>i r. GetChannel i (sy_srv m) = Some r \<longrightarrow> sc_channelId (sv_chan (sy_srv m) r) = i)
    \<and> inj_on (\<lambda>r. sc_channelId (sv_chan (sy_srv m) r)) {..<sv_created (sy_srv m)}"
proof -
  let ?s = "sy_srv m"
  have inv: "tables_ok ?s" "accounts_ok n ?s (sy_pc m)" "sv_maxConn ?s = maxConn"
    using server_reach_inv[OF assms] by (auto simp: srv_inv_def)
  have "inj_on (\<lambda>r. sc_channelId (sv_chan ?s r)) {..<sv_created ?s}"
    using inv(1) unfolding tables_ok_def inj_on_def by (metis add_right_cancel lessThan_iff)
  moreover have "sc_channelId (sv_chan ?s r) = i" if "GetChannel i ?s = Some r" for i r
    using inv(1) that by (simp add: tables_ok_def GetChannel_def)
  moreover have "int (card (dom (sv_channels ?s))) \<le> maxConn" if "0 < maxConn"
    using inv(2,3) that unfolding accounts_ok_def by linarith
  moreover have "sv_connCount ?s = int (card (dom (sv_channels ?s)))
      \<and> sv_connInc ?s = sv_connDec ?s + card (dom (sv_channels ?s))" if "\<forall>t<n. sy_pc m t = Idle"
    using inv(2) tally_zero[OF that] by (simp add: accounts_ok_def)
  ultimately show ?thesis using inv(2) by (simp add: accounts_ok_def)
qed

text \<open>Runs given as a list: \<open>Call t pc\<close> starts a call in goroutine \<open>t\<close>, \<open>Run t k\<close> makes \<open>k\<close> steps of it.\<close>

datatype srv_event = Call nat srv_pc | Run nat nat

definition srv_turn :: "nat \<Rightarrow> srv_sys \<Rightarrow> srv_sys" where
  "srv_turn t m = (let (s, pc) = srv_step (sy_srv m) (sy_pc m t) in m\<lparr>sy_srv := s, sy_pc := (sy_pc m)(t := pc)\<rparr>)"

fun srv_turns :: "nat \<Rightarrow> nat \<Rightarrow> srv_sys \<Rightarrow> srv_sys" where
  "srv_turns 0 t m = m" | "srv_turns (Suc k) t m = srv_turns k t (srv_turn t m)"

fun srv_run :: "nat \<Rightarrow> srv_event list \<Rightarrow> srv_sys \<Rightarrow> srv_sys option" where
  "srv_run n [] m = Some m"
| "srv_run n (Call t pc # es) m =
     (if t < n \<and> sy_pc m t = Idle \<and> is_start (sy_srv m) pc then srv_run n es (m\<lparr>sy_pc := (sy_pc m)(t := pc)\<rparr>) else None)"
| "srv_run n (Run t k # es) m = (if t < n then srv_run n es (srv_turns k t m) else None)"

fun srv_steps :: "srv_event list \<Rightarrow> nat" where
  "srv_steps [] = 0" | "srv_steps (Call t pc # es) = srv_steps es" | "srv_steps (Run t k # es) = k + srv_steps es"

lemma created_step: "sv_created (fst (srv_step s pc)) \<le> sv_created s + 1"
proof (cases pc)
  case (CloseKeys ks)
  then show ?thesis by (cases ks) (auto simp: srv_step_def is_accept_def is_add_def is_auth_def split: option.splits)
qed (auto simp: srv_step_def is_accept_def is_add_def is_auth_def Let_def split: option.splits)

lemma reach_turns:
  "server_reach n mx m \<Longrightarrow> t < n \<Longrightarrow> sv_created (sy_srv m) + k < 2 ^ 64 \<Longrightarrow>
     server_reach n mx (srv_turns k t m) \<and> sv_created (sy_srv (srv_turns k t m)) \<le> sv_created (sy_srv m) + k"
proof (induction k arbitrary: m)
  case (Suc k)
  let ?m = "srv_turn t m"
  have c: "sv_created (sy_srv ?m) \<le> sv_created (sy_srv m) + 1"
    using created_step[of "sy_srv m" "sy_pc m t"] by (simp add: srv_turn_def case_prod_unfold Let_def)
  have "server_step n m ?m"
    unfolding srv_turn_def by (cases "srv_step (sy_srv m) (sy_pc m t)") (auto intro!: server_step.run Suc.prems(2))
  then have "server_reach n mx ?m" using Suc.prems c by (intro server_reach.step[OF Suc.prems(1)]) auto
  then show ?case using Suc.IH[of ?m] Suc.prems c by auto
qed simp

lemma reach_run:
  "srv_run n es m = Some m' \<Longrightarrow> server_reach n mx m \<Longrightarrow> sv_created (sy_srv m) + srv_steps es < 2 ^ 64 \<Longrightarrow> server_reach n mx m'"
proof (induction n es m rule: srv_run.induct)
  case (2 n t pc es m)
  then have v: "t < n" "sy_pc m t = Idle" "is_start (sy_srv m) pc" by (auto split: if_splits)
  then have "server_reach n mx (m\<lparr>sy_pc := (sy_pc m)(t := pc)\<rparr>)"
    using 2 by (intro server_reach.step[OF _ server_step.call]) auto
  then show ?case using 2 v by auto
next
  case (3 n t k es m)
  then have t: "t < n" by (auto split: if_splits)
  have "server_reach n mx (srv_turns k t m) \<and> sv_created (sy_srv (srv_turns k t m)) \<le> sv_created (sy_srv m) + k"
    using 3 t by (intro reach_turns) auto
  then show ?case using 3 t by auto
qed simp

theorem connection_limit_kept_witness:
  "\<exists>m. server_reach 2 1 m \<and> card (dom (sv_channels (sy_srv m))) \<le> 1 \<and> GetChannel 1 (sy_srv m) = Some 0
     \<and> sc_channelId (sv_chan (sy_srv m) 0) = 1 \<and> sv_connRejected (sy_srv m) = 1"
proof -
  let ?es = "[Call 0 (Accepting True), Run 0 3, Call 1 (Accepting True), Run 1 3, Run 0 6, Run 1 10]"
  have g: "map_option (\<lambda>m. (GetChannel 1 (sy_srv m), sv_connRejected (sy_srv m))) (srv_run 2 ?es (server_start 1)) = Some (Some 0, 1)"
    by code_simp
  then obtain m where m: "srv_run 2 ?es (server_start 1) = Some m" by blast
  have r: "server_reach 2 1 m"
    by (rule reach_run[OF m server_reach.start]) (simp add: server_start_def NewBaseServer_def)
  then show ?thesis using connection_limit_kept[OF r] g m by auto
qed

text \<open>
  \<open>RemoveChannel\<close> and \<open>SetChannelAuth\<close> look an authenticated id up, compare, and then delete or
  store. When a connection that held an id is removed while another one is bound to it, the
  deletion takes away the new binding: the new connection is managed and carries the id, and
  is not found by it.
\<close>

lemma auth_binding_lost:
  "map_option (\<lambda>m. (sy_pc m 0, sy_pc m 1, GetChannel 2 (sy_srv m), sc_authId (sv_chan (sy_srv m) 1), GetChannelByAuthId 5 (sy_srv m)))
     (srv_run 2 [Call 0 (Accepting True), Run 0 7, Call 0 (Accepting True), Run 0 7, Call 0 (Bind 1 5), Run 0 4,
        Call 0 (Closing 0 []), Run 0 6, Call 1 (Bind 2 5), Run 1 5, Run 0 2] (server_start 0))
   = Some (Idle, Idle, Some 1, 5, None)"
  by code_simp

text \<open>Binding a connection to a second id leaves the first one mapped to it, also when it is closed and removed.\<close>

lemma stale_auth_binding:
  "map_option (\<lambda>m. (sy_pc m 0, GetChannelByAuthId 5 (sy_srv m), sc_isClose (sv_chan (sy_srv m) 0), GetChannel 1 (sy_srv m)))
     (srv_run 1 [Call 0 (Accepting True), Run 0 7, Call 0 (Bind 1 5), Run 0 4, Call 0 (Bind 1 7), Run 0 4,
        Call 0 (Closing 0 []), Run 0 8] (server_start 0))
   = Some (Idle, Some 0, True, None)"
  by code_simp

text \<open>
  A connection that is closed while \<open>OnAccept\<close> runs, and accepted, is added to the table and
  counted for good: its \<open>Close\<close> has already removed nothing and does not run again.
\<close>

lemma closed_connection_added:
  "map_option (\<lambda>m. (sy_pc m 0, GetChannel 1 (sy_srv m), sc_isClose (sv_chan (sy_srv m) 0), sv_connCount (sy_srv m)))
     (srv_run 2 [Call 0 (Accepting True), Run 0 2, Call 1 (Closing 0 []), Run 1 3, Run 0 7, Call 0 (Closing 0 []), Run 0 2] (server_start 5))
   = Some (Idle, Some 0, True, 1)"
  by code_simp

end
