(* ===== verification/Tls_Codec.thy ===== *)
theory Tls_Codec
  imports Base_Prelude
begin

text \<open>
  Reading and writing the byte fields of \<^verbatim>\<open>zgmtls/handshake_messages.go\<close>: results that tell
  a rejected input from an index panic, big-endian integers, vectors of length-prefixed items
  and the extension loop that both hello messages share.
\<close>

named_theorems codec_simps \<open>evaluation of readers on written bytes\<close>

type_synonym u16 = "16 word"

section \<open>Results of a parser\<close>

text \<open>
  \<open>unmarshal\<close> returns a bool and fills its receiver: \<open>Accept\<close> carries the filled message,
  \<open>Reject\<close> is \<open>false\<close> (the caller then drops the message), and \<open>Panic\<close> is an index or slice out
  of range.
\<close>

datatype 'a parse = Panic | Reject | Accept 'a

definition on_accept :: "'a parse \<Rightarrow> ('a \<Rightarrow> 'b parse) \<Rightarrow> 'b parse" where
  "on_accept p k = (case p of Panic \<Rightarrow> Panic | Reject \<Rightarrow> Reject | Accept x \<Rightarrow> k x)"

lemma on_accept_simps [simp]:
  "on_accept Panic k = Panic" "on_accept Reject k = Reject" "on_accept (Accept x) k = k x"
  by (simp_all add: on_accept_def)

lemma on_accept_eq_Panic [simp]:
  "on_accept p k = Panic \<longleftrightarrow> p = Panic \<or> (\<exists>x. p = Accept x \<and> k x = Panic)"
  by (cases p) simp_all

section \<open>Bytes of an integer\<close>

text \<open>\<open>byte(n)\<close>, \<open>byte(n >> 8)\<close>, \<open>byte(n >> 16)\<close>, \<open>byte(n >> 24)\<close>.\<close>

definition b0 :: "nat \<Rightarrow> byte" where "b0 n = of_nat n"
definition b1 :: "nat \<Rightarrow> byte" where "b1 n = of_nat (n div 2 ^ 8)"
definition b2 :: "nat \<Rightarrow> byte" where "b2 n = of_nat (n div 2 ^ 16)"
definition b3 :: "nat \<Rightarrow> byte" where "b3 n = of_nat (n div 2 ^ 24)"

definition be16 :: "nat \<Rightarrow> byte list" where "be16 n = [b1 n, b0 n]"
definition be24 :: "nat \<Rightarrow> byte list" where "be24 n = [b2 n, b1 n, b0 n]"
definition be32 :: "nat \<Rightarrow> byte list" where "be32 n = [b3 n, b2 n, b1 n, b0 n]"

definition get16 :: "byte \<Rightarrow> byte \<Rightarrow> nat" where "get16 a b = unat a * 2 ^ 8 + unat b"
definition get24 :: "byte \<Rightarrow> byte \<Rightarrow> byte \<Rightarrow> nat" where "get24 a b c = unat a * 2 ^ 16 + unat b * 2 ^ 8 + unat c"
definition get32 :: "byte \<Rightarrow> byte \<Rightarrow> byte \<Rightarrow> byte \<Rightarrow> nat" where
  "get32 a b c d = unat a * 2 ^ 24 + unat b * 2 ^ 16 + unat c * 2 ^ 8 + unat d"

lemma unat_b: "unat (b0 n) = n mod 2 ^ 8" "unat (b1 n) = n div 2 ^ 8 mod 2 ^ 8"
  "unat (b2 n) = n div 2 ^ 16 mod 2 ^ 8" "unat (b3 n) = n div 2 ^ 24 mod 2 ^ 8"
  by (simp_all add: b0_def b1_def b2_def b3_def unat_of_nat)

lemma b0_small [codec_simps]: "n < 256 \<Longrightarrow> unat (b0 n) = n"
  by (simp add: unat_b)

lemma mod_split8: "n mod 2 ^ 16 = (n div 2 ^ 8 mod 2 ^ 8) * 2 ^ 8 + n mod 2 ^ 8" for n :: nat
  using mod_mult2_eq[of n "2 ^ 8" "2 ^ 8"] by simp

lemma mod_split16: "n mod 2 ^ 24 = (n div 2 ^ 16 mod 2 ^ 8) * 2 ^ 16 + n mod 2 ^ 16" for n :: nat
  using mod_mult2_eq[of n "2 ^ 16" "2 ^ 8"] by simp

lemma mod_split24: "n mod 2 ^ 32 = (n div 2 ^ 24 mod 2 ^ 8) * 2 ^ 24 + n mod 2 ^ 24" for n :: nat
  using mod_mult2_eq[of n "2 ^ 24" "2 ^ 8"] by simp

lemma get16_be [codec_simps]: "n < 65536 \<Longrightarrow> get16 (b1 n) (b0 n) = n"
  unfolding get16_def unat_b mod_split8[symmetric] by simp

lemma get24_mod: "get24 (b2 n) (b1 n) (b0 n) = n mod 2 ^ 24"
  unfolding get24_def unat_b mod_split16[of n] mod_split8[of n] by (simp only: add.assoc)

lemma get32_mod: "get32 (b3 n) (b2 n) (b1 n) (b0 n) = n mod 2 ^ 32"
  unfolding get32_def unat_b mod_split24[of n] mod_split16[of n] mod_split8[of n] by (simp only: add.assoc)

lemma get24_be [codec_simps]: "n < 16777216 \<Longrightarrow> get24 (b2 n) (b1 n) (b0 n) = n"
  by (simp add: get24_mod)

lemma get32_be [codec_simps]: "n < 4294967296 \<Longrightarrow> get32 (b3 n) (b2 n) (b1 n) (b0 n) = n"
  by (simp add: get32_mod)

lemma byte_less: "unat (a :: byte) < 256"
  using unsigned_less[of a] by simp

lemma get16_less: "get16 a b < 65536"
  using byte_less[of a] byte_less[of b] by (simp add: get16_def)

lemma get24_less: "get24 a b c < 16777216"
  using byte_less[of a] byte_less[of b] byte_less[of c] by (simp add: get24_def)

definition w16 :: "u16 \<Rightarrow> byte list" where "w16 w = be16 (unat w)"

lemma unat16_less: "unat (w :: u16) < 65536"
  using unsigned_less[of w] by simp

lemma get16_w16 [codec_simps]: "get16 (b1 (unat w)) (b0 (unat w)) = unat (w :: u16)"
  by (rule get16_be[OF unat16_less])

section \<open>Reading with index checks\<close>

definition at :: "byte list \<Rightarrow> nat \<Rightarrow> (byte \<Rightarrow> 'b parse) \<Rightarrow> 'b parse" where
  "at d i k = (if i < length d then k (d ! i) else Panic)"

definition rd8 :: "byte list \<Rightarrow> nat \<Rightarrow> (nat \<Rightarrow> 'b parse) \<Rightarrow> 'b parse" where
  "rd8 d i k = at d i (\<lambda>a. k (unat a))"

definition rd16 :: "byte list \<Rightarrow> nat \<Rightarrow> (nat \<Rightarrow> 'b parse) \<Rightarrow> 'b parse" where
  "rd16 d i k = at d i (\<lambda>a. at d (i + 1) (\<lambda>b. k (get16 a b)))"

definition rd24 :: "byte list \<Rightarrow> nat \<Rightarrow> (nat \<Rightarrow> 'b parse) \<Rightarrow> 'b parse" where
  "rd24 d i k = at d i (\<lambda>a. at d (i + 1) (\<lambda>b. at d (i + 2) (\<lambda>c. k (get24 a b c))))"

definition sub :: "byte list \<Rightarrow> nat \<Rightarrow> nat \<Rightarrow> (byte list \<Rightarrow> 'b parse) \<Rightarrow> 'b parse" where
  "sub d i j k = (if i \<le> j \<and> j \<le> length d then k (take (j - i) (drop i d)) else Panic)"

definition from_at :: "byte list \<Rightarrow> nat \<Rightarrow> (byte list \<Rightarrow> 'b parse) \<Rightarrow> 'b parse" where
  "from_at d i k = (if i \<le> length d then k (drop i d) else Panic)"

lemma at_Cons [codec_simps]: "at (x # d) 0 k = k x" "at (x # d) (Suc i) k = at d i k"
  by (simp_all add: at_def)

lemma rd8_Cons [codec_simps]: "rd8 (x # d) 0 k = k (unat x)" "rd8 (x # d) (Suc i) k = rd8 d i k"
  by (simp_all add: rd8_def at_Cons)

lemma rd16_Cons [codec_simps]: "rd16 (x # y # d) 0 k = k (get16 x y)" "rd16 (x # d) (Suc i) k = rd16 d i k"
  by (simp_all add: rd16_def at_def)

lemma rd24_Cons [codec_simps]:
  "rd24 (x # y # z # d) 0 k = k (get24 x y z)" "rd24 (x # d) (Suc i) k = rd24 d i k"
  by (simp_all add: rd24_def at_def)

lemma length_be [simp]: "length (be16 n) = 2" "length (be24 n) = 3" "length (be32 n) = 4" "length (w16 w) = 2"
  by (simp_all add: be16_def be24_def be32_def w16_def)

text \<open>Skipping what lies in front.\<close>

lemma seek [codec_simps]:
  "length xs \<le> i \<Longrightarrow> at (xs @ ys) i k1 = at ys (i - length xs) k1"
  "length xs \<le> i \<Longrightarrow> rd8 (xs @ ys) i k2 = rd8 ys (i - length xs) k2"
  "length xs \<le> i \<Longrightarrow> rd16 (xs @ ys) i k3 = rd16 ys (i - length xs) k3"
  "length xs \<le> i \<Longrightarrow> rd24 (xs @ ys) i k4 = rd24 ys (i - length xs) k4"
  "length xs \<le> i \<Longrightarrow> i \<le> j \<Longrightarrow> sub (xs @ ys) i j k5 = sub ys (i - length xs) (j - length xs) k5"
  "length xs \<le> i \<Longrightarrow> from_at (xs @ ys) i k6 = from_at ys (i - length xs) k6"
  by (auto simp: at_def rd8_def rd16_def rd24_def sub_def from_at_def nth_append Suc_diff_le)

lemma rd_fields [codec_simps]:
  "rd16 (w16 v @ r) 0 k = k (unat v)" "rd16 (w16 v) 0 k = k (unat v)"
  "n < 65536 \<Longrightarrow> rd16 (be16 n @ r) 0 k = k n" "n < 65536 \<Longrightarrow> rd16 (be16 n) 0 k = k n"
  "n < 16777216 \<Longrightarrow> rd24 (be24 n @ r) 0 k = k n" "n < 16777216 \<Longrightarrow> rd24 (be24 n) 0 k = k n"
  by (simp_all add: w16_def be16_def be24_def codec_simps)

lemma sub_append [codec_simps]: "length xs = n \<Longrightarrow> sub (xs @ ys) 0 n k = k xs"
  by (auto simp add: sub_def)

lemma sub_all [codec_simps]: "sub xs 0 (length xs) k = k xs"
  by (simp add: sub_def)

lemma sub_Cons [codec_simps]: "sub (x # d) (Suc i) (Suc j) k = sub d i j k"
  by (simp add: sub_def)

lemma from_append [codec_simps]: "from_at (xs @ ys) (length xs) k = k ys"
  by (simp add: from_at_def)

lemma from_Cons [codec_simps]: "from_at (x # d) (Suc i) k = from_at d i k" "from_at d 0 k = k d"
  by (simp_all add: from_at_def)

text \<open>A guarded read does not panic.\<close>

lemma no_panic_at: "i < length d \<Longrightarrow> (\<And>b. k b \<noteq> Panic) \<Longrightarrow> at d i k \<noteq> Panic"
  by (simp add: at_def)

lemma no_panic_rd8: "i < length d \<Longrightarrow> (\<And>n. n < 256 \<Longrightarrow> k n \<noteq> Panic) \<Longrightarrow> rd8 d i k \<noteq> Panic"
  using byte_less by (simp add: at_def rd8_def)

lemma no_panic_rd16: "i + 1 < length d \<Longrightarrow> (\<And>n. n < 65536 \<Longrightarrow> k n \<noteq> Panic) \<Longrightarrow> rd16 d i k \<noteq> Panic"
  using get16_less by (simp add: at_def rd16_def)

lemma no_panic_rd24: "i + 2 < length d \<Longrightarrow> (\<And>n. n < 16777216 \<Longrightarrow> k n \<noteq> Panic) \<Longrightarrow> rd24 d i k \<noteq> Panic"
  using get24_less by (simp add: at_def rd24_def)

lemma no_panic_sub:
  "i \<le> j \<Longrightarrow> j \<le> length d \<Longrightarrow> (\<And>x. length x = j - i \<Longrightarrow> k x \<noteq> Panic) \<Longrightarrow> sub d i j k \<noteq> Panic"
  by (simp add: sub_def)

lemma no_panic_from: "i \<le> length d \<Longrightarrow> (\<And>x. length x = length d - i \<Longrightarrow> k x \<noteq> Panic) \<Longrightarrow> from_at d i k \<noteq> Panic"
  by (simp add: from_at_def)

lemma no_panic_if: "(b \<Longrightarrow> p \<noteq> Panic) \<Longrightarrow> (\<not> b \<Longrightarrow> q \<noteq> Panic) \<Longrightarrow> (if b then p else q) \<noteq> Panic"
  by simp

lemma no_panic_on_accept: "p \<noteq> Panic \<Longrightarrow> (\<And>x. p = Accept x \<Longrightarrow> k x \<noteq> Panic) \<Longrightarrow> on_accept p k \<noteq> Panic"
  by (cases p) simp_all

lemmas no_panic = no_panic_if no_panic_at no_panic_rd8 no_panic_rd16 no_panic_rd24 no_panic_sub no_panic_from no_panic_on_accept
  parse.distinct(1,2)[symmetric]

section \<open>Vectors\<close>

text \<open>
  Two-byte numbers (\<open>n\<close> of them, each read at the front of the rest), items with a one-byte
  length that must not be zero, items with a two-byte length.
\<close>

fun u16s :: "nat \<Rightarrow> byte list \<Rightarrow> u16 list parse" where
  "u16s 0 d = Accept []"
| "u16s (Suc n) (a # b # d) = on_accept (u16s n d) (\<lambda>ws. Accept (of_nat (get16 a b) # ws))"
| "u16s (Suc n) d = Panic"

fun items8 :: "byte list \<Rightarrow> byte list list parse" where
  "items8 [] = Accept []"
| "items8 (l # d) =
     (if unat l = 0 \<or> unat l > length d then Reject
      else on_accept (items8 (drop (unat l) d)) (\<lambda>xs. Accept (take (unat l) d # xs)))"

fun items16 :: "bool \<Rightarrow> byte list \<Rightarrow> byte list list parse" where
  "items16 nonempty (a # b # d) =
     (if nonempty \<and> get16 a b = 0 \<or> length d < get16 a b then Reject
      else on_accept (items16 nonempty (drop (get16 a b) d)) (\<lambda>xs. Accept (take (get16 a b) d # xs)))"
| "items16 nonempty [] = Accept []"
| "items16 nonempty [a] = Reject"

lemma u16s_no_panic: "2 * n \<le> length d \<Longrightarrow> u16s n d \<noteq> Panic"
  by (induction n d rule: u16s.induct) auto

lemma u16s_half_no_panic: "n \<le> length d \<Longrightarrow> u16s (n div 2) d \<noteq> Panic"
  by (rule u16s_no_panic) simp

lemma items8_no_panic: "items8 d \<noteq> Panic"
  by (induction d rule: items8.induct) auto

lemma items16_no_panic: "items16 b d \<noteq> Panic"
  by (induction b d rule: items16.induct) auto

lemma u16s_encoded [codec_simps]: "u16s (length ws) (concat (map w16 ws) @ rest) = Accept ws"
  by (induction ws) (simp_all add: w16_def be16_def get16_w16)

lemma u16s_encoded_all [codec_simps]: "u16s (length ws) (concat (map w16 ws)) = Accept ws"
  using u16s_encoded[of ws "[]"] by simp

lemma length_w16s [simp]: "length (concat (map w16 ws)) = 2 * length ws"
  by (induction ws) (simp_all add: w16_def be16_def)

definition pack8 :: "byte list list \<Rightarrow> byte list" where
  "pack8 xs = concat (map (\<lambda>s. b0 (length s) # s) xs)"

definition pack16 :: "byte list list \<Rightarrow> byte list" where
  "pack16 xs = concat (map (\<lambda>s. be16 (length s) @ s) xs)"

lemma items8_pack8 [codec_simps]:
  "\<forall>s\<in>set xs. 0 < length s \<and> length s < 256 \<Longrightarrow> items8 (pack8 xs) = Accept xs"
  by (induction xs) (simp_all add: pack8_def b0_small)

lemma items16_pack16 [codec_simps]:
  "\<forall>s\<in>set xs. length s < 65536 \<and> (b \<longrightarrow> s \<noteq> []) \<Longrightarrow> items16 b (pack16 xs) = Accept xs"
  by (induction xs) (auto simp add: pack16_def be16_def get16_be)

lemma length_pack8: "length (pack8 xs) = sum_list (map (\<lambda>s. 1 + length s) xs)"
  by (induction xs) (simp_all add: pack8_def)

lemma length_pack16: "length (pack16 xs) = sum_list (map (\<lambda>s. 2 + length s) xs)"
  by (induction xs) (simp_all add: pack16_def be16_def)

section \<open>Extensions\<close>

text \<open>
  The loop over the extensions of a hello message. The handler is the \<open>switch\<close>: it gets the
  type, the length and all of the remaining data, as the code's branches do.
\<close>

fun ext_loop :: "(nat \<Rightarrow> nat \<Rightarrow> byte list \<Rightarrow> 'm \<Rightarrow> 'm parse) \<Rightarrow> byte list \<Rightarrow> 'm \<Rightarrow> 'm parse" where
  "ext_loop h (a # b # c # e # data) m =
     (if length data < get16 c e then Reject
      else on_accept (h (get16 a b) (get16 c e) data m) (\<lambda>m'. ext_loop h (drop (get16 c e) data) m'))"
| "ext_loop h [] m = Accept m"
| "ext_loop h [a] m = Reject"
| "ext_loop h [a, b] m = Reject"
| "ext_loop h [a, b, c] m = Reject"

text \<open>The optional extension data that ends a hello message, with its length in front.\<close>

definition read_extensions :: "(nat \<Rightarrow> nat \<Rightarrow> byte list \<Rightarrow> 'm \<Rightarrow> 'm parse) \<Rightarrow> byte list \<Rightarrow> 'm \<Rightarrow> 'm parse" where
  "read_extensions h d m =
     (if length d = 0 then Accept m
      else if length d < 2 then Reject
      else rd16 d 0 (\<lambda>extensionsLength. from_at d 2 (\<lambda>d'.
        if extensionsLength \<noteq> length d' then Reject else ext_loop h d' m)))"

definition ext_block :: "nat \<Rightarrow> byte list \<Rightarrow> byte list" where
  "ext_block typ body = be16 typ @ be16 (length body) @ body"

lemma ext_loop_no_panic:
  assumes "\<And>typ n d m. n \<le> length d \<Longrightarrow> h typ n d m \<noteq> Panic"
  shows "ext_loop h d m \<noteq> Panic"
  using assms by (induction h d m rule: ext_loop.induct) auto

lemma read_extensions_no_panic:
  assumes "\<And>typ n d m. n \<le> length d \<Longrightarrow> h typ n d m \<noteq> Panic"
  shows "read_extensions h d m \<noteq> Panic"
  unfolding read_extensions_def by (intro no_panic ext_loop_no_panic assms; simp)

lemma read_extensions_encoded:
  assumes "\<not> b \<Longrightarrow> ex = []" "length ex = n" "n < 65536"
  shows "read_extensions h ((if b then be16 n else []) @ ex) m = ext_loop h ex m"
  using assms by (cases b) (auto simp: read_extensions_def codec_simps be16_def from_at_def)

lemma ext_loop_block:
  assumes "typ < 65536" "length body < 65536"
  shows "ext_loop h (ext_block typ body @ rest) m
    = on_accept (h typ (length body) (body @ rest) m) (\<lambda>m'. ext_loop h rest m')"
  using assms by (simp add: ext_block_def be16_def get16_be)

lemma length_ext_block [simp]: "length (ext_block typ body) = 4 + length body"
  by (simp add: ext_block_def be16_def)

end
