(* ===== verification/Tls_Record.thy ===== *)
theory Tls_Record
  imports Tls_Codec
begin

text \<open>
  The record protection of \<^verbatim>\<open>zgmtls/conn.go\<close> (\<open>halfConn\<close>) with the MAC and AEAD wrappers of
  \<^verbatim>\<open>zgmtls/cipher_suites.go\<close>. Block functions, key streams, hashes and the inner AEADs are
  parameters, stored in the cipher values that the code builds from keys; the chaining of CBC is
  the documented one of \<^verbatim>\<open>crypto/cipher\<close>. A slice that the code reslices out of range and the
  panic of \<open>incSeq\<close> are \<^term>\<open>None\<close>. The free list of blocks and the reuse of digest buffers are
  memory management without effect on the bytes and are left out.
\<close>

section \<open>Constants\<close>

type_synonym alert = byte

definition alertLevelWarning :: byte where "alertLevelWarning = 1"
definition alertLevelError :: byte where "alertLevelError = 2"
definition alertCloseNotify :: alert where "alertCloseNotify = 0"
definition alertUnexpectedMessage :: alert where "alertUnexpectedMessage = 10"
definition alertBadRecordMAC :: alert where "alertBadRecordMAC = 20"
definition alertRecordOverflow :: alert where "alertRecordOverflow = 22"
definition alertProtocolVersion :: alert where "alertProtocolVersion = 70"
definition alertInternalError :: alert where "alertInternalError = 80"
definition alertNoRenegotiation :: alert where "alertNoRenegotiation = 100"

definition VersionSSL30 :: u16 where "VersionSSL30 = 0x0300"
definition VersionTLS10 :: u16 where "VersionTLS10 = 0x0301"
definition VersionTLS11 :: u16 where "VersionTLS11 = 0x0302"
definition VersionTLS12 :: u16 where "VersionTLS12 = 0x0303"
definition VersionGMSSL :: u16 where "VersionGMSSL = 0x0101"

definition recordHeaderLen :: nat where "recordHeaderLen = 5"
definition maxPlaintext :: nat where "maxPlaintext = 16384"
definition maxCiphertext :: nat where "maxCiphertext = 16384 + 2048"

section \<open>MACs\<close>

text \<open>A hash by its digest size and the digest of all that was written since the last reset.\<close>

datatype mac =
  tls10MAC nat "byte list \<Rightarrow> byte list"
| ssl30MAC nat "byte list \<Rightarrow> byte list" "byte list"

fun mac_Size :: "mac \<Rightarrow> nat" where
  "mac_Size (tls10MAC n hash) = n"
| "mac_Size (ssl30MAC n hash key) = n"

definition ssl30Pad1 :: "byte list" where "ssl30Pad1 = replicate 48 0x36"
definition ssl30Pad2 :: "byte list" where "ssl30Pad2 = replicate 48 0x5c"

definition tls10MAC_MAC :: "(byte list \<Rightarrow> byte list) \<Rightarrow> byte list \<Rightarrow> byte list \<Rightarrow> byte list \<Rightarrow> byte list" where
  "tls10MAC_MAC hash seq header data = hash (seq @ header @ data)"

definition ssl30MAC_MAC ::
  "nat \<Rightarrow> (byte list \<Rightarrow> byte list) \<Rightarrow> byte list \<Rightarrow> byte list \<Rightarrow> byte list \<Rightarrow> byte list \<Rightarrow> byte list" where
  "ssl30MAC_MAC n hash key seq header data =
     (let padLength = (if n = 20 then 40 else 48);
          digest = hash (key @ take padLength ssl30Pad1 @ seq @ take 1 header @ take 2 (drop 3 header) @ data)
      in hash (key @ take padLength ssl30Pad2 @ digest))"

fun mac_MAC :: "mac \<Rightarrow> byte list \<Rightarrow> byte list \<Rightarrow> byte list \<Rightarrow> byte list" where
  "mac_MAC (tls10MAC n hash) seq header data = tls10MAC_MAC hash seq header data"
| "mac_MAC (ssl30MAC n hash key) seq header data = ssl30MAC_MAC n hash key seq header data"

section \<open>Ciphers\<close>

record aead_prim =
  ap_overhead :: nat
  ap_seal :: "byte list \<Rightarrow> byte list \<Rightarrow> byte list \<Rightarrow> byte list"
  ap_open :: "byte list \<Rightarrow> byte list \<Rightarrow> byte list \<Rightarrow> byte list option"

text \<open>
  A stream cipher is its key stream and position; a CBC mode its block function, block size and
  chaining value; \<open>fixedNonceAEAD\<close> and \<open>xorNonceAEAD\<close> hold twelve nonce bytes.
\<close>

datatype cipher =
  Stream_Cipher "nat \<Rightarrow> byte" nat
| CBC_Encrypter "byte list \<Rightarrow> byte list" nat "byte list"
| CBC_Decrypter "byte list \<Rightarrow> byte list" nat "byte list"
| fixedNonceAEAD "byte list" aead_prim
| xorNonceAEAD "byte list" aead_prim

definition xor_bytes :: "byte list \<Rightarrow> byte list \<Rightarrow> byte list" where
  "xor_bytes xs ys = map2 (XOR) xs ys"

definition XORKeyStream :: "(nat \<Rightarrow> byte) \<Rightarrow> nat \<Rightarrow> byte list \<Rightarrow> byte list" where
  "XORKeyStream ks pos xs = xor_bytes xs (map ks [pos..<pos + length xs])"

fun cbc_encrypt :: "(byte list \<Rightarrow> byte list) \<Rightarrow> nat \<Rightarrow> nat \<Rightarrow> byte list \<Rightarrow> byte list \<Rightarrow> byte list \<times> byte list" where
  "cbc_encrypt f bs 0 iv xs = ([], iv)"
| "cbc_encrypt f bs (Suc n) iv xs =
     (let c = f (xor_bytes (take bs xs) iv); (r, iv') = cbc_encrypt f bs n c (drop bs xs) in (c @ r, iv'))"

fun cbc_decrypt :: "(byte list \<Rightarrow> byte list) \<Rightarrow> nat \<Rightarrow> nat \<Rightarrow> byte list \<Rightarrow> byte list \<Rightarrow> byte list \<times> byte list" where
  "cbc_decrypt g bs 0 iv xs = ([], iv)"
| "cbc_decrypt g bs (Suc n) iv xs =
     (let c = take bs xs; (r, iv') = cbc_decrypt g bs n c (drop bs xs) in (xor_bytes (g c) iv @ r, iv'))"

text \<open>\<open>CryptBlocks\<close> panics on input that is not a number of full blocks, \<open>SetIV\<close> on a wrong length.\<close>

fun CryptBlocks :: "cipher \<Rightarrow> byte list \<Rightarrow> (byte list \<times> cipher) option" where
  "CryptBlocks (CBC_Encrypter f bs iv) xs =
     (if length xs mod bs \<noteq> 0 then None
      else let (ys, iv') = cbc_encrypt f bs (length xs div bs) iv xs in Some (ys, CBC_Encrypter f bs iv'))"
| "CryptBlocks (CBC_Decrypter g bs iv) xs =
     (if length xs mod bs \<noteq> 0 then None
      else let (ys, iv') = cbc_decrypt g bs (length xs div bs) iv xs in Some (ys, CBC_Decrypter g bs iv'))"
| "CryptBlocks c xs = None"

fun SetIV :: "byte list \<Rightarrow> cipher \<Rightarrow> cipher option" where
  "SetIV v (CBC_Encrypter f bs iv) = (if length v = bs then Some (CBC_Encrypter f bs v) else None)"
| "SetIV v (CBC_Decrypter f bs iv) = (if length v = bs then Some (CBC_Decrypter f bs v) else None)"
| "SetIV v c = None"

fun explicitNonceLen :: "cipher \<Rightarrow> nat" where
  "explicitNonceLen (fixedNonceAEAD _ _) = 8"
| "explicitNonceLen _ = 0"

fun Overhead :: "cipher \<Rightarrow> nat" where
  "Overhead (fixedNonceAEAD _ a) = ap_overhead a"
| "Overhead (xorNonceAEAD _ a) = ap_overhead a"
| "Overhead _ = 0"

text \<open>\<open>xor_into m nonce\<close> is the loop \<open>f.nonceMask[4+i] ^= b\<close>, run before and after each call.\<close>

definition xor_into :: "byte list \<Rightarrow> byte list \<Rightarrow> byte list" where
  "xor_into m nonce = go_copy m 4 (xor_bytes (drop 4 m) nonce)"

fun aead_Seal :: "cipher \<Rightarrow> byte list \<Rightarrow> byte list \<Rightarrow> byte list \<Rightarrow> (byte list \<times> cipher) option" where
  "aead_Seal (fixedNonceAEAD fixed a) nonce plaintext ad =
     (let nc = go_copy fixed 4 nonce in Some (ap_seal a nc plaintext ad, fixedNonceAEAD nc a))"
| "aead_Seal (xorNonceAEAD nm a) nonce plaintext ad =
     (let m = xor_into nm nonce in Some (ap_seal a m plaintext ad, xorNonceAEAD (xor_into m nonce) a))"
| "aead_Seal _ _ _ _ = None"

fun aead_Open :: "cipher \<Rightarrow> byte list \<Rightarrow> byte list \<Rightarrow> byte list \<Rightarrow> (byte list option \<times> cipher) option" where
  "aead_Open (fixedNonceAEAD fixed a) nonce ciphertext ad =
     (let nc = go_copy fixed 4 nonce in Some (ap_open a nc ciphertext ad, fixedNonceAEAD nc a))"
| "aead_Open (xorNonceAEAD nm a) nonce ciphertext ad =
     (let m = xor_into nm nonce in Some (ap_open a m ciphertext ad, xorNonceAEAD (xor_into m nonce) a))"
| "aead_Open _ _ _ _ = None"

section \<open>A direction of a connection\<close>

text \<open>Errors, and the \<open>net.Error\<close> values of the transport with their \<open>Temporary()\<close>.\<close>

datatype tls_err =
  Alert_Error alert
| Local_Error alert
| Remote_Error alert
| Tls_EOF
| Tls_UnexpectedEOF
| Transport_Error bool nat
| Record_Header_Error "byte list"
| Too_Many_Warnings
| Wrong_Phase
| Unknown_Record_Wanted
| Message_Too_Long
| No_Progress
| Conn_Closed
| Protocol_Shutdown
| Early_CloseWrite
| Other_Error nat
| Text_Error string

record half_conn =
  hc_err :: "tls_err option"
  hc_version :: u16
  hc_cipher :: "cipher option"
  hc_mac :: "mac option"
  hc_seq :: "byte list"
  hc_nextCipher :: "cipher option"
  hc_nextMac :: "mac option"

definition prepareCipherSpec :: "u16 \<Rightarrow> cipher option \<Rightarrow> mac option \<Rightarrow> half_conn \<Rightarrow> half_conn" where
  "prepareCipherSpec version c m hc = hc\<lparr>hc_version := version, hc_nextCipher := c, hc_nextMac := m\<rparr>"

definition changeCipherSpec :: "half_conn \<Rightarrow> alert option \<times> half_conn" where
  "changeCipherSpec hc =
     (if hc_nextCipher hc = None then (Some alertInternalError, hc)
      else (None, hc\<lparr>hc_cipher := hc_nextCipher hc, hc_mac := hc_nextMac hc, hc_nextCipher := None, hc_nextMac := None,
                     hc_seq := replicate 8 0\<rparr>))"

text \<open>\<open>incSeq\<close>, counting from the last byte down.\<close>

fun incSeq_loop :: "nat \<Rightarrow> byte list \<Rightarrow> byte list option" where
  "incSeq_loop 0 s = None"
| "incSeq_loop (Suc i) s =
     (let s' = s[i := s ! i + 1] in if s' ! i \<noteq> 0 then Some s' else incSeq_loop i s')"

definition incSeq :: "half_conn \<Rightarrow> half_conn option" where
  "incSeq hc = map_option (\<lambda>s. hc\<lparr>hc_seq := s\<rparr>) (incSeq_loop 8 (hc_seq hc))"

section \<open>Padding\<close>

text \<open>\<open>byte(int32(^t) >> 31)\<close>.\<close>

definition sign_mask :: "u64 \<Rightarrow> byte" where
  "sign_mask t = ucast (signed_drop_bit 31 (ucast (NOT t) :: u32))"

definition pad_check :: "byte list \<Rightarrow> byte \<Rightarrow> nat \<Rightarrow> byte \<Rightarrow> byte" where
  "pad_check payload paddingLen i good =
     (let t = ucast paddingLen - of_nat i; msk = sign_mask t; b = payload ! (length payload - 1 - i)
      in good AND NOT ((msk AND paddingLen) XOR (msk AND b)))"

definition replicate_good :: "byte \<Rightarrow> byte" where
  "replicate_good g =
     (let g = g AND push_bit 4 g; g = g AND push_bit 2 g; g = g AND push_bit 1 g in signed_drop_bit 7 g)"

definition extractPadding :: "byte list \<Rightarrow> nat \<times> byte" where
  "extractPadding payload =
     (if length payload < 1 then (0, 0)
      else let paddingLen = payload ! (length payload - 1);
               t = of_nat (length payload - 1) - ucast paddingLen;
               good = sign_mask t;
               toCheck = (if 256 > length payload then length payload else 256);
               good = fold (pad_check payload paddingLen) [0..<toCheck] good
           in (unat paddingLen + 1, replicate_good good))"

definition extractPaddingSSL30 :: "byte list \<Rightarrow> nat \<times> byte" where
  "extractPaddingSSL30 payload =
     (if length payload < 1 then (0, 0)
      else let paddingLen = unat (payload ! (length payload - 1)) + 1
           in if paddingLen > length payload then (0, 0) else (paddingLen, 255))"

definition roundUp :: "nat \<Rightarrow> nat \<Rightarrow> nat" where
  "roundUp a b = a + (b - a mod b) mod b"

definition padToBlockSize :: "byte list \<Rightarrow> nat \<Rightarrow> byte list \<times> byte list" where
  "padToBlockSize payload blockSize =
     (let overrun = length payload mod blockSize; paddingLen = blockSize - overrun
      in (take (length payload - overrun) payload,
          drop (length payload - overrun) payload @ replicate (blockSize - overrun) (b0 (paddingLen - 1))))"

section \<open>Opening and sealing a record\<close>

text \<open>A block of \<open>n\<close> bytes has the length \<open>n\<close> of its payload in bytes 3 and 4.\<close>

definition set_length :: "int \<Rightarrow> byte list \<Rightarrow> byte list" where
  "set_length n data = data[3 := word_of_int (n div 2 ^ 8), 4 := word_of_int n]"

record opened =
  od_payload :: "byte list"
  od_data :: "byte list"
  od_explicitIVLen :: nat
  od_paddingLen :: nat
  od_paddingGood :: byte

text \<open>The additional data of an AEAD: sequence number, type and version, length.\<close>

definition additional_data :: "byte list \<Rightarrow> byte list \<Rightarrow> int \<Rightarrow> byte list" where
  "additional_data seq data n = seq @ take 3 data @ [word_of_int (n div 2 ^ 8), word_of_int n]"

definition mac_len :: "half_conn \<Rightarrow> nat" where
  "mac_len hc = (case hc_mac hc of None \<Rightarrow> 0 | Some m \<Rightarrow> mac_Size m)"

definition open_aead :: "half_conn \<Rightarrow> cipher \<Rightarrow> byte list \<Rightarrow> byte list \<Rightarrow> (half_conn + opened \<times> half_conn) option" where
  "open_aead hc c data payload =
     (let e = explicitNonceLen c
      in if length payload < e then Some (Inl hc)
         else let nonce = take e payload; payload = drop e payload;
                  nonce = (if length nonce = 0 then hc_seq hc else nonce);
                  n = int (length payload) - int (Overhead c)
              in case aead_Open c nonce payload (additional_data (hc_seq hc) data n) of
                   None \<Rightarrow> None
                 | Some (None, c') \<Rightarrow> Some (Inl (hc\<lparr>hc_cipher := Some c'\<rparr>))
                 | Some (Some p, c') \<Rightarrow>
                     Some (Inr (\<lparr>od_payload = p, od_data = take (recordHeaderLen + e) data @ p, od_explicitIVLen = e,
                                 od_paddingLen = 0, od_paddingGood = 255\<rparr>, hc\<lparr>hc_cipher := Some c'\<rparr>)))"

definition open_cbc :: "half_conn \<Rightarrow> cipher \<Rightarrow> nat \<Rightarrow> byte list \<Rightarrow> byte list \<Rightarrow> (half_conn + opened \<times> half_conn) option" where
  "open_cbc hc c blockSize data payload =
     (let e = (if hc_version hc \<ge> VersionTLS11 \<or> hc_version hc = VersionGMSSL then blockSize else 0)
      in if length payload mod blockSize \<noteq> 0 \<or> length payload < roundUp (e + mac_len hc + 1) blockSize then Some (Inl hc)
         else do {
           c1 \<leftarrow> (if e > 0 then SetIV (take e payload) c else Some c);
           (p, c2) \<leftarrow> CryptBlocks c1 (drop e payload);
           let (pl, good) = (if hc_version hc = VersionSSL30 then extractPaddingSSL30 p else extractPadding p);
           Some (Inr (\<lparr>od_payload = p, od_data = take (recordHeaderLen + e) data @ p, od_explicitIVLen = e,
                       od_paddingLen = pl, od_paddingGood = good\<rparr>, hc\<lparr>hc_cipher := Some c2\<rparr>)) })"

definition open_payload :: "half_conn \<Rightarrow> byte list \<Rightarrow> (half_conn + opened \<times> half_conn) option" where
  "open_payload hc data =
     (let payload = drop recordHeaderLen data
      in case hc_cipher hc of
        None \<Rightarrow> Some (Inr (\<lparr>od_payload = payload, od_data = data, od_explicitIVLen = 0, od_paddingLen = 0, od_paddingGood = 255\<rparr>, hc))
      | Some (Stream_Cipher ks pos) \<Rightarrow>
          let p = XORKeyStream ks pos payload
          in Some (Inr (\<lparr>od_payload = p, od_data = take recordHeaderLen data @ p, od_explicitIVLen = 0, od_paddingLen = 0,
                         od_paddingGood = 255\<rparr>, hc\<lparr>hc_cipher := Some (Stream_Cipher ks (pos + length payload))\<rparr>))
      | Some (fixedNonceAEAD x a) \<Rightarrow> open_aead hc (fixedNonceAEAD x a) data payload
      | Some (xorNonceAEAD x a) \<Rightarrow> open_aead hc (xorNonceAEAD x a) data payload
      | Some (CBC_Encrypter f bs iv) \<Rightarrow> open_cbc hc (CBC_Encrypter f bs iv) bs data payload
      | Some (CBC_Decrypter f bs iv) \<Rightarrow> open_cbc hc (CBC_Decrypter f bs iv) bs data payload)"

text \<open>Checking and stripping the MAC: \<^term>\<open>Inl ()\<close> is a bad record.\<close>

definition strip_mac :: "half_conn \<Rightarrow> opened \<Rightarrow> (unit + byte list) option" where
  "strip_mac hc oo =
     (case hc_mac hc of None \<Rightarrow> Some (Inr (od_data oo))
      | Some m \<Rightarrow>
          if length (od_payload oo) < mac_Size m then Some (Inl ())
          else do {
            let n = int (length (od_payload oo)) - int (mac_Size m) - int (od_paddingLen oo);
            let n = (if bit (word_of_int n :: u32) 31 then 0 else n);
            let data = set_length n (od_data oo);
            remoteMAC \<leftarrow> go_slice (od_payload oo) n (n + int (mac_Size m));
            signed \<leftarrow> go_slice (od_payload oo) 0 n;
            let localMAC = mac_MAC m (hc_seq hc) (take recordHeaderLen data) signed;
            if localMAC \<noteq> remoteMAC \<or> od_paddingGood oo \<noteq> 255 then Some (Inl ())
            else Some (Inr (take (recordHeaderLen + od_explicitIVLen oo + nat n) data)) })"

text \<open>The result \<open>(ok, prefixLen, alertValue)\<close>, the block and the new state.\<close>

definition decrypt :: "half_conn \<Rightarrow> byte list \<Rightarrow> ((bool \<times> nat \<times> alert) \<times> byte list \<times> half_conn) option" where
  "decrypt hc data =
     (if length data < recordHeaderLen then None
      else case open_payload hc data of
        None \<Rightarrow> None
      | Some (Inl hc1) \<Rightarrow> Some ((False, 0, alertBadRecordMAC), data, hc1)
      | Some (Inr (oo, hc1)) \<Rightarrow>
          (case strip_mac hc1 oo of
             None \<Rightarrow> None
           | Some (Inl _) \<Rightarrow> Some ((False, 0, alertBadRecordMAC), od_data oo, hc1)
           | Some (Inr data') \<Rightarrow> map_option (\<lambda>hc2. ((True, recordHeaderLen + od_explicitIVLen oo, 0), data', hc2)) (incSeq hc1)))"

definition seal_aead :: "half_conn \<Rightarrow> cipher \<Rightarrow> nat \<Rightarrow> byte list \<Rightarrow> (byte list \<times> half_conn) option" where
  "seal_aead hc c e data = do {
     let payloadLen = length data - recordHeaderLen - e;
     let nonce = take e (drop recordHeaderLen data);
     let nonce = (if length nonce = 0 then hc_seq hc else nonce);
     (sealed, c') \<leftarrow> aead_Seal c nonce (drop (recordHeaderLen + e) data) (additional_data (hc_seq hc) data (int payloadLen));
     Some (take (recordHeaderLen + e) data @ sealed, hc\<lparr>hc_cipher := Some c'\<rparr>) }"

definition seal_cbc :: "half_conn \<Rightarrow> cipher \<Rightarrow> nat \<Rightarrow> nat \<Rightarrow> byte list \<Rightarrow> (byte list \<times> half_conn) option" where
  "seal_cbc hc c blockSize e data = do {
     let payload = drop recordHeaderLen data;
     c1 \<leftarrow> (if e > 0 then SetIV (take e payload) c else Some c);
     let (prefix, finalBlock) = padToBlockSize (drop e payload) blockSize;
     (p, c2) \<leftarrow> CryptBlocks c1 prefix;
     (q, c3) \<leftarrow> CryptBlocks c2 finalBlock;
     Some (take (recordHeaderLen + e) data @ p @ q, hc\<lparr>hc_cipher := Some c3\<rparr>) }"

definition seal_payload :: "half_conn \<Rightarrow> nat \<Rightarrow> byte list \<Rightarrow> (byte list \<times> half_conn) option" where
  "seal_payload hc e data =
     (let payload = drop recordHeaderLen data
      in case hc_cipher hc of
        None \<Rightarrow> Some (data, hc)
      | Some (Stream_Cipher ks pos) \<Rightarrow>
          Some (take recordHeaderLen data @ XORKeyStream ks pos payload, hc\<lparr>hc_cipher := Some (Stream_Cipher ks (pos + length payload))\<rparr>)
      | Some (fixedNonceAEAD x a) \<Rightarrow> seal_aead hc (fixedNonceAEAD x a) e data
      | Some (xorNonceAEAD x a) \<Rightarrow> seal_aead hc (xorNonceAEAD x a) e data
      | Some (CBC_Encrypter f bs iv) \<Rightarrow> seal_cbc hc (CBC_Encrypter f bs iv) bs e data
      | Some (CBC_Decrypter f bs iv) \<Rightarrow> seal_cbc hc (CBC_Decrypter f bs iv) bs e data)"

definition encrypt :: "half_conn \<Rightarrow> nat \<Rightarrow> byte list \<Rightarrow> (byte list \<times> half_conn) option" where
  "encrypt hc e data0 =
     (if length data0 < recordHeaderLen + e then None
      else do {
        let data = data0 @ (case hc_mac hc of None \<Rightarrow> []
                     | Some m \<Rightarrow> mac_MAC m (hc_seq hc) (take recordHeaderLen data0) (drop (recordHeaderLen + e) data0));
        (data, hc) \<leftarrow> seal_payload hc e data;
        hc \<leftarrow> incSeq hc;
        Some (set_length (int (length data) - int recordHeaderLen) data, hc) })"

text \<open>
  The length of the explicit initial vector or nonce that \<open>writeRecordLocked\<close> puts in front of the
  payload, and whether it is the sequence number.
\<close>

definition explicit_iv :: "half_conn \<Rightarrow> nat \<times> bool" where
  "explicit_iv hc =
     (case hc_cipher hc of
        Some (CBC_Encrypter f bs iv) \<Rightarrow> (if hc_version hc \<ge> VersionTLS11 \<or> hc_version hc = VersionGMSSL then bs else 0, False)
      | Some (CBC_Decrypter f bs iv) \<Rightarrow> (if hc_version hc \<ge> VersionTLS11 \<or> hc_version hc = VersionGMSSL then bs else 0, False)
      | Some c \<Rightarrow> (explicitNonceLen c, explicitNonceLen c > 0)
      | None \<Rightarrow> (0, False))"

end
