(* ===== verification/Tls_Hello.thy ===== *)
theory Tls_Hello
  imports Tls_Codec
begin

text \<open>
  The two hello messages of \<^verbatim>\<open>zgmtls/handshake_messages.go\<close>. A Go string is its bytes, the
  cached encoding \<open>raw\<close> is \<^term>\<open>None\<close> for nil, and \<open>marshal\<close> returns the bytes with the message
  that now caches them; its \<^term>\<open>None\<close> is a panic. The code writes into a zeroed buffer of the
  computed length, which is \<open>go_fill\<close>.
\<close>

definition go_fill :: "nat \<Rightarrow> byte list \<Rightarrow> byte list option" where
  "go_fill n bs = (if length bs \<le> n then Some (bs @ replicate (n - length bs) 0) else None)"

definition fit :: "nat \<Rightarrow> byte list \<Rightarrow> byte list" where
  "fit n bs = take n (bs @ replicate n 0)"

lemma length_fit [simp]: "length (fit n bs) = n" by (simp add: fit_def)

lemma fit_id [simp]: "length bs = n \<Longrightarrow> fit n bs = bs" by (simp add: fit_def)

lemma go_fill_exact [simp]: "length bs = n \<Longrightarrow> go_fill n bs = Some bs" by (simp add: go_fill_def)

section \<open>Numbers of the protocol\<close>

definition typeClientHello :: byte where "typeClientHello = 1"
definition typeServerHello :: byte where "typeServerHello = 2"

definition extensionServerName :: nat where "extensionServerName = 0"
definition extensionStatusRequest :: nat where "extensionStatusRequest = 5"
definition extensionSupportedCurves :: nat where "extensionSupportedCurves = 10"
definition extensionSupportedPoints :: nat where "extensionSupportedPoints = 11"
definition extensionSignatureAlgorithms :: nat where "extensionSignatureAlgorithms = 13"
definition extensionALPN :: nat where "extensionALPN = 16"
definition extensionSCT :: nat where "extensionSCT = 18"
definition extensionSessionTicket :: nat where "extensionSessionTicket = 35"
definition extensionNextProtoNeg :: nat where "extensionNextProtoNeg = 13172"
definition extensionRenegotiationInfo :: nat where "extensionRenegotiationInfo = 0xff01"
definition scsvRenegotiation :: u16 where "scsvRenegotiation = 0xff"
definition statusTypeOCSP :: byte where "statusTypeOCSP = 1"

lemmas ext_types = extensionServerName_def extensionStatusRequest_def extensionSupportedCurves_def
  extensionSupportedPoints_def extensionSignatureAlgorithms_def extensionALPN_def extensionSCT_def
  extensionSessionTicket_def extensionNextProtoNeg_def extensionRenegotiationInfo_def

section \<open>ClientHello\<close>

record client_hello =
  cl_raw :: "byte list option"
  cl_vers :: u16
  cl_random :: "byte list"
  cl_sessionId :: "byte list"
  cl_cipherSuites :: "u16 list"
  cl_compressionMethods :: "byte list"
  cl_nextProtoNeg :: bool
  cl_serverName :: "byte list"
  cl_ocspStapling :: bool
  cl_scts :: bool
  cl_supportedCurves :: "u16 list"
  cl_supportedPoints :: "byte list"
  cl_ticketSupported :: bool
  cl_sessionTicket :: "byte list"
  cl_supportedSignatureAlgorithms :: "u16 list"
  cl_secureRenegotiation :: "byte list"
  cl_secureRenegotiationSupported :: bool
  cl_alpnProtocols :: "byte list list"

definition empty_client_hello :: client_hello where
  "empty_client_hello =
     \<lparr>cl_raw = None, cl_vers = 0, cl_random = [], cl_sessionId = [], cl_cipherSuites = [], cl_compressionMethods = [],
      cl_nextProtoNeg = False, cl_serverName = [], cl_ocspStapling = False, cl_scts = False, cl_supportedCurves = [],
      cl_supportedPoints = [], cl_ticketSupported = False, cl_sessionTicket = [], cl_supportedSignatureAlgorithms = [],
      cl_secureRenegotiation = [], cl_secureRenegotiationSupported = False, cl_alpnProtocols = []\<rparr>"

definition cl_numExtensions :: "client_hello \<Rightarrow> nat" where
  "cl_numExtensions m =
     (if cl_nextProtoNeg m then 1 else 0) + (if cl_ocspStapling m then 1 else 0)
     + (if length (cl_serverName m) > 0 then 1 else 0) + (if length (cl_supportedCurves m) > 0 then 1 else 0)
     + (if length (cl_supportedPoints m) > 0 then 1 else 0) + (if cl_ticketSupported m then 1 else 0)
     + (if length (cl_supportedSignatureAlgorithms m) > 0 then 1 else 0)
     + (if cl_secureRenegotiationSupported m then 1 else 0) + (if length (cl_alpnProtocols m) > 0 then 1 else 0)
     + (if cl_scts m then 1 else 0)"

definition cl_extensionsLength :: "client_hello \<Rightarrow> nat" where
  "cl_extensionsLength m =
     (if cl_ocspStapling m then 1 + 2 + 2 else 0)
     + (if length (cl_serverName m) > 0 then 5 + length (cl_serverName m) else 0)
     + (if length (cl_supportedCurves m) > 0 then 2 + 2 * length (cl_supportedCurves m) else 0)
     + (if length (cl_supportedPoints m) > 0 then 1 + length (cl_supportedPoints m) else 0)
     + (if cl_ticketSupported m then length (cl_sessionTicket m) else 0)
     + (if length (cl_supportedSignatureAlgorithms m) > 0 then 2 + 2 * length (cl_supportedSignatureAlgorithms m) else 0)
     + (if cl_secureRenegotiationSupported m then 1 + length (cl_secureRenegotiation m) else 0)
     + (if length (cl_alpnProtocols m) > 0 then 2 + sum_list (map (\<lambda>s. 1 + length s) (cl_alpnProtocols m)) else 0)
     + 4 * cl_numExtensions m"

text \<open>
  The renegotiation extension has a one-byte length behind a zero byte, in both messages.
\<close>

definition reneg_block :: "byte list \<Rightarrow> byte list" where
  "reneg_block info = be16 extensionRenegotiationInfo @ [0, b0 (length info + 1), b0 (length info)] @ info"

definition cl_extensions :: "client_hello \<Rightarrow> byte list" where
  "cl_extensions m =
     (if cl_nextProtoNeg m then ext_block extensionNextProtoNeg [] else [])
     @ (if length (cl_serverName m) > 0
        then ext_block extensionServerName (be16 (length (cl_serverName m) + 3) @ [0] @ be16 (length (cl_serverName m)) @ cl_serverName m)
        else [])
     @ (if cl_ocspStapling m then ext_block extensionStatusRequest [1, 0, 0, 0, 0] else [])
     @ (if length (cl_supportedCurves m) > 0
        then ext_block extensionSupportedCurves (be16 (2 * length (cl_supportedCurves m)) @ concat (map w16 (cl_supportedCurves m)))
        else [])
     @ (if length (cl_supportedPoints m) > 0
        then ext_block extensionSupportedPoints (b0 (length (cl_supportedPoints m)) # cl_supportedPoints m) else [])
     @ (if cl_ticketSupported m then ext_block extensionSessionTicket (cl_sessionTicket m) else [])
     @ (if length (cl_supportedSignatureAlgorithms m) > 0
        then ext_block extensionSignatureAlgorithms
          (be16 (2 * length (cl_supportedSignatureAlgorithms m)) @ concat (map w16 (cl_supportedSignatureAlgorithms m)))
        else [])
     @ (if cl_secureRenegotiationSupported m then reneg_block (cl_secureRenegotiation m) else [])
     @ (if length (cl_alpnProtocols m) > 0
        then ext_block extensionALPN
          (be16 (sum_list (map (\<lambda>s. 1 + length s) (cl_alpnProtocols m))) @ pack8 (cl_alpnProtocols m))
        else [])
     @ (if cl_scts m then ext_block extensionSCT [] else [])"

text \<open>
  The two bytes before the cipher suites are \<open>uint8(n >> 7)\<close> and \<open>uint8(n << 1)\<close>, the bytes of
  \<open>2 n\<close>.
\<close>

definition clientHello_marshal :: "client_hello \<Rightarrow> (byte list \<times> client_hello) option" where
  "clientHello_marshal m =
     (case cl_raw m of Some r \<Rightarrow> Some (r, m)
      | None \<Rightarrow>
        let len0 = 2 + 32 + 1 + length (cl_sessionId m) + 2 + length (cl_cipherSuites m) * 2 + 1
              + length (cl_compressionMethods m);
            len = (if cl_numExtensions m > 0 then len0 + (2 + cl_extensionsLength m) else len0)
        in if \<exists>s\<in>set (cl_alpnProtocols m). length s = 0 \<or> length s > 255 then None
           else do {
             x \<leftarrow> go_fill (4 + len)
               ([typeClientHello] @ be24 len @ w16 (cl_vers m) @ fit 32 (cl_random m)
                @ [b0 (length (cl_sessionId m))] @ cl_sessionId m
                @ be16 (2 * length (cl_cipherSuites m)) @ concat (map w16 (cl_cipherSuites m))
                @ [b0 (length (cl_compressionMethods m))] @ cl_compressionMethods m
                @ (if cl_numExtensions m > 0 then be16 (cl_extensionsLength m) else [])
                @ cl_extensions m);
             Some (x, m\<lparr>cl_raw := Some x\<rparr>) })"

text \<open>The host names of the server name extension: the first of type 0 is taken.\<close>

fun server_names :: "byte list \<Rightarrow> byte list \<Rightarrow> byte list parse" where
  "server_names (t # a # b # d) name =
     (if length d < get16 a b then Reject
      else if t = 0 then Accept (take (get16 a b) d) else server_names (drop (get16 a b) d) name)"
| "server_names [] name = Accept name"
| "server_names [a] name = Reject"
| "server_names [a, b] name = Reject"

definition cl_ext :: "nat \<Rightarrow> nat \<Rightarrow> byte list \<Rightarrow> client_hello \<Rightarrow> client_hello parse" where
  "cl_ext extension len data m =
     (if extension = extensionServerName then
        sub data 0 len (\<lambda>d. if length d < 2 then Reject
          else rd16 d 0 (\<lambda>namesLen. from_at d 2 (\<lambda>d. if length d \<noteq> namesLen then Reject
            else on_accept (server_names d (cl_serverName m)) (\<lambda>name. Accept (m\<lparr>cl_serverName := name\<rparr>)))))
      else if extension = extensionNextProtoNeg then
        (if len > 0 then Reject else Accept (m\<lparr>cl_nextProtoNeg := True\<rparr>))
      else if extension = extensionStatusRequest then
        (if len > 0 then at data 0 (\<lambda>t. Accept (m\<lparr>cl_ocspStapling := (t = statusTypeOCSP)\<rparr>))
         else Accept (m\<lparr>cl_ocspStapling := False\<rparr>))
      else if extension = extensionSupportedCurves then
        (if len < 2 then Reject
         else rd16 data 0 (\<lambda>l. if l mod 2 = 1 \<or> len \<noteq> l + 2 then Reject
           else from_at data 2 (\<lambda>d. on_accept (u16s (l div 2) d) (\<lambda>ws. Accept (m\<lparr>cl_supportedCurves := ws\<rparr>)))))
      else if extension = extensionSupportedPoints then
        (if len < 1 then Reject
         else rd8 data 0 (\<lambda>l. if len \<noteq> l + 1 then Reject
           else from_at data 1 (\<lambda>d. Accept (m\<lparr>cl_supportedPoints := take l d\<rparr>))))
      else if extension = extensionSessionTicket then
        sub data 0 len (\<lambda>d. Accept (m\<lparr>cl_ticketSupported := True, cl_sessionTicket := d\<rparr>))
      else if extension = extensionSignatureAlgorithms then
        (if len < 2 \<or> len mod 2 \<noteq> 0 then Reject
         else rd16 data 0 (\<lambda>l. if l \<noteq> len - 2 then Reject
           else from_at data 2 (\<lambda>d. on_accept (u16s (l div 2) d) (\<lambda>ws. Accept (m\<lparr>cl_supportedSignatureAlgorithms := ws\<rparr>)))))
      else if extension = extensionRenegotiationInfo then
        (if len = 0 then Reject
         else sub data 0 len (\<lambda>d. rd8 d 0 (\<lambda>l. from_at d 1 (\<lambda>d. if l \<noteq> length d then Reject
           else Accept (m\<lparr>cl_secureRenegotiation := d, cl_secureRenegotiationSupported := True\<rparr>)))))
      else if extension = extensionALPN then
        (if len < 2 then Reject
         else rd16 data 0 (\<lambda>l. if l \<noteq> len - 2 then Reject
           else sub data 2 len (\<lambda>d. on_accept (items8 d)
             (\<lambda>xs. Accept (m\<lparr>cl_alpnProtocols := cl_alpnProtocols m @ xs\<rparr>)))))
      else if extension = extensionSCT then
        (if len \<noteq> 0 then Reject else Accept (m\<lparr>cl_scts := True\<rparr>))
      else Accept m)"

definition clientHello_unmarshal :: "client_hello \<Rightarrow> byte list \<Rightarrow> client_hello parse" where
  "clientHello_unmarshal m data =
     (if length data < 42 then Reject
      else rd16 data 4 (\<lambda>vers. sub data 6 38 (\<lambda>random. rd8 data 38 (\<lambda>sessionIdLen.
        if sessionIdLen > 32 \<or> length data < 39 + sessionIdLen then Reject
        else sub data 39 (39 + sessionIdLen) (\<lambda>sessionId. from_at data (39 + sessionIdLen) (\<lambda>d1.
          if length d1 < 2 then Reject
          else rd16 d1 0 (\<lambda>cipherSuiteLen.
            if cipherSuiteLen mod 2 = 1 \<or> length d1 < 2 + cipherSuiteLen then Reject
            else from_at d1 2 (\<lambda>ds. on_accept (u16s (cipherSuiteLen div 2) ds) (\<lambda>suites. from_at d1 (2 + cipherSuiteLen) (\<lambda>d2.
              if length d2 < 1 then Reject
              else rd8 d2 0 (\<lambda>compressionMethodsLen.
                if length d2 < 1 + compressionMethodsLen then Reject
                else sub d2 1 (1 + compressionMethodsLen) (\<lambda>methods. from_at d2 (1 + compressionMethodsLen) (\<lambda>d3.
                  let m1 = m\<lparr>cl_raw := Some data, cl_vers := of_nat vers, cl_random := random, cl_sessionId := sessionId,
                        cl_cipherSuites := suites,
                        cl_secureRenegotiationSupported := (cl_secureRenegotiationSupported m \<or> scsvRenegotiation \<in> set suites),
                        cl_compressionMethods := methods, cl_nextProtoNeg := False, cl_serverName := [],
                        cl_ocspStapling := False, cl_ticketSupported := False, cl_sessionTicket := [],
                        cl_supportedSignatureAlgorithms := [], cl_alpnProtocols := [], cl_scts := False\<rparr>
                  in read_extensions cl_ext d3 m1)))))))))))))"

lemma server_names_no_panic: "server_names d name \<noteq> Panic"
  by (induction d name rule: server_names.induct) auto

lemma cl_ext_no_panic: "n \<le> length d \<Longrightarrow> cl_ext typ n d m \<noteq> Panic"
  unfolding cl_ext_def
  by (intro no_panic server_names_no_panic u16s_half_no_panic items8_no_panic; (simp; fail | force))

lemma clientHello_unmarshal_no_panic: "clientHello_unmarshal m data \<noteq> Panic"
  unfolding clientHello_unmarshal_def Let_def
  by (intro no_panic u16s_half_no_panic read_extensions_no_panic cl_ext_no_panic; (simp; fail | force))

lemma reneg_block_eq: "length info < 255 \<Longrightarrow> reneg_block info = ext_block extensionRenegotiationInfo (b0 (length info) # info)"
  by (simp add: reneg_block_def ext_block_def be16_def b1_def b0_def)

lemma length_reneg_block [simp]: "length (reneg_block info) = 5 + length info"
  by (simp add: reneg_block_def be16_def)

lemma cl_extensions_length: "length (cl_extensions m) = cl_extensionsLength m"
  by (simp add: cl_extensions_def cl_extensionsLength_def cl_numExtensions_def length_pack8)

lemma cl_extensions_none: "cl_numExtensions m = 0 \<Longrightarrow> cl_extensions m = []"
  by (simp add: cl_extensions_def cl_numExtensions_def split: if_splits)

text \<open>A client hello that the format can carry.\<close>

definition client_hello_ok :: "client_hello \<Rightarrow> bool" where
  "client_hello_ok m \<longleftrightarrow> cl_raw m = None \<and> length (cl_random m) = 32 \<and> length (cl_sessionId m) \<le> 32
     \<and> 2 * length (cl_cipherSuites m) < 65536 \<and> length (cl_compressionMethods m) < 256
     \<and> length (cl_serverName m) + 5 < 65536
     \<and> 2 * length (cl_supportedCurves m) + 2 < 65536 \<and> length (cl_supportedPoints m) < 256
     \<and> length (cl_sessionTicket m) < 65536 \<and> (\<not> cl_ticketSupported m \<longrightarrow> cl_sessionTicket m = [])
     \<and> 2 * length (cl_supportedSignatureAlgorithms m) + 2 < 65536
     \<and> length (cl_secureRenegotiation m) < 255 \<and> (\<not> cl_secureRenegotiationSupported m \<longrightarrow> cl_secureRenegotiation m = [])
     \<and> (scsvRenegotiation \<in> set (cl_cipherSuites m) \<longrightarrow> cl_secureRenegotiationSupported m)
     \<and> (\<forall>s\<in>set (cl_alpnProtocols m). 0 < length s \<and> length s < 256)
     \<and> sum_list (map (\<lambda>s. 1 + length s) (cl_alpnProtocols m)) + 2 < 65536
     \<and> cl_extensionsLength m < 65536"

lemma cl_ext_steps:
  "ext_loop cl_ext ((if b then ext_block extensionNextProtoNeg [] else []) @ r) m
     = ext_loop cl_ext r (m\<lparr>cl_nextProtoNeg := b \<or> cl_nextProtoNeg m\<rparr>)"
  "length name + 5 < 65536 \<Longrightarrow>
     ext_loop cl_ext ((if b then ext_block extensionServerName (be16 (length name + 3) @ [0] @ be16 (length name) @ name) else []) @ r) m
     = ext_loop cl_ext r (m\<lparr>cl_serverName := (if b then name else cl_serverName m)\<rparr>)"
  "ext_loop cl_ext ((if b then ext_block extensionStatusRequest [1, 0, 0, 0, 0] else []) @ r) m
     = ext_loop cl_ext r (m\<lparr>cl_ocspStapling := b \<or> cl_ocspStapling m\<rparr>)"
  "2 * length ws + 2 < 65536 \<Longrightarrow>
     ext_loop cl_ext ((if b then ext_block extensionSupportedCurves (be16 (2 * length ws) @ concat (map w16 ws)) else []) @ r) m
     = ext_loop cl_ext r (m\<lparr>cl_supportedCurves := (if b then ws else cl_supportedCurves m)\<rparr>)"
  "length ps < 256 \<Longrightarrow>
     ext_loop cl_ext ((if b then ext_block extensionSupportedPoints (b0 (length ps) # ps) else []) @ r) m
     = ext_loop cl_ext r (m\<lparr>cl_supportedPoints := (if b then ps else cl_supportedPoints m)\<rparr>)"
  "length t < 65536 \<Longrightarrow> ext_loop cl_ext ((if b then ext_block extensionSessionTicket t else []) @ r) m
     = ext_loop cl_ext r (m\<lparr>cl_ticketSupported := b \<or> cl_ticketSupported m, cl_sessionTicket := (if b then t else cl_sessionTicket m)\<rparr>)"
  "2 * length ws + 2 < 65536 \<Longrightarrow>
     ext_loop cl_ext ((if b then ext_block extensionSignatureAlgorithms (be16 (2 * length ws) @ concat (map w16 ws)) else []) @ r) m
     = ext_loop cl_ext r (m\<lparr>cl_supportedSignatureAlgorithms := (if b then ws else cl_supportedSignatureAlgorithms m)\<rparr>)"
  "length i < 255 \<Longrightarrow> ext_loop cl_ext ((if b then reneg_block i else []) @ r) m
     = ext_loop cl_ext r (m\<lparr>cl_secureRenegotiation := (if b then i else cl_secureRenegotiation m),
         cl_secureRenegotiationSupported := b \<or> cl_secureRenegotiationSupported m\<rparr>)"
  "\<forall>s\<in>set xs. 0 < length s \<and> length s < 256 \<Longrightarrow> sum_list (map (\<lambda>s. 1 + length s) xs) + 2 < 65536 \<Longrightarrow>
     ext_loop cl_ext ((if b then ext_block extensionALPN (be16 (sum_list (map (\<lambda>s. 1 + length s) xs)) @ pack8 xs) else []) @ r) m
     = ext_loop cl_ext r (m\<lparr>cl_alpnProtocols := (if b then cl_alpnProtocols m @ xs else cl_alpnProtocols m)\<rparr>)"
  "ext_loop cl_ext ((if b then ext_block extensionSCT [] else []) @ r) m = ext_loop cl_ext r (m\<lparr>cl_scts := b \<or> cl_scts m\<rparr>)"
  by (cases b; simp add: ext_loop_block reneg_block_eq ext_types be16_def cl_ext_def codec_simps statusTypeOCSP_def sub_def from_at_def
      length_pack8)+

definition cl_fixed :: "client_hello \<Rightarrow> client_hello" where
  "cl_fixed m = m\<lparr>cl_nextProtoNeg := False, cl_serverName := [], cl_ocspStapling := False, cl_scts := False,
     cl_supportedCurves := [], cl_supportedPoints := [], cl_ticketSupported := False, cl_sessionTicket := [],
     cl_supportedSignatureAlgorithms := [], cl_secureRenegotiation := [],
     cl_secureRenegotiationSupported := (scsvRenegotiation \<in> set (cl_cipherSuites m)), cl_alpnProtocols := []\<rparr>"

lemma ext_loop_cl_extensions:
  assumes "client_hello_ok m"
  shows "ext_loop cl_ext (cl_extensions m) ((cl_fixed m)\<lparr>cl_raw := r\<rparr>) = Accept (m\<lparr>cl_raw := r\<rparr>)"
proof -
  have ok: "length (cl_serverName m) + 5 < 65536" "2 * length (cl_supportedCurves m) + 2 < 65536"
    "length (cl_supportedPoints m) < 256" "length (cl_sessionTicket m) < 65536"
    "2 * length (cl_supportedSignatureAlgorithms m) + 2 < 65536" "length (cl_secureRenegotiation m) < 255"
    "\<forall>s\<in>set (cl_alpnProtocols m). 0 < length s \<and> length s < 256"
    "sum_list (map (\<lambda>s. 1 + length s) (cl_alpnProtocols m)) + 2 < 65536"
    using assms unfolding client_hello_ok_def by blast+
  have fl: "\<not> cl_ticketSupported m \<longrightarrow> cl_sessionTicket m = []"
    "\<not> cl_secureRenegotiationSupported m \<longrightarrow> cl_secureRenegotiation m = []"
    "scsvRenegotiation \<in> set (cl_cipherSuites m) \<longrightarrow> cl_secureRenegotiationSupported m"
    using assms unfolding client_hello_ok_def by blast+
  have "ext_loop cl_ext (cl_extensions m @ []) ((cl_fixed m)\<lparr>cl_raw := r\<rparr>) = Accept (m\<lparr>cl_raw := r\<rparr>)"
    unfolding cl_extensions_def append_assoc cl_ext_steps(1,3,10) cl_ext_steps(2)[OF ok(1)] cl_ext_steps(4)[OF ok(2)]
      cl_ext_steps(5)[OF ok(3)] cl_ext_steps(6)[OF ok(4)] cl_ext_steps(7)[OF ok(5)] cl_ext_steps(8)[OF ok(6)]
      cl_ext_steps(9)[OF ok(7,8)] ext_loop.simps parse.inject
    by (rule client_hello.equality) (use fl in \<open>auto simp: cl_fixed_def\<close>)
  then show ?thesis by simp
qed

text \<open>The encoding of a client hello that fits the format.\<close>

definition cl_bytes :: "client_hello \<Rightarrow> nat \<Rightarrow> byte list" where
  "cl_bytes m n = [typeClientHello] @ be24 n @ w16 (cl_vers m) @ fit 32 (cl_random m)
                @ [b0 (length (cl_sessionId m))] @ cl_sessionId m
                @ be16 (2 * length (cl_cipherSuites m)) @ concat (map w16 (cl_cipherSuites m))
                @ [b0 (length (cl_compressionMethods m))] @ cl_compressionMethods m
                @ (if cl_numExtensions m > 0 then be16 (cl_extensionsLength m) else []) @ cl_extensions m"

lemma clientHello_marshal_exact:
  assumes "cl_raw m = None" "\<forall>s\<in>set (cl_alpnProtocols m). 0 < length s \<and> length s < 256"
  shows "\<exists>n. clientHello_marshal m = Some (cl_bytes m n, m\<lparr>cl_raw := Some (cl_bytes m n)\<rparr>) \<and> length (cl_bytes m n) = 4 + n"
proof -
  have a: "\<not> (\<exists>s\<in>set (cl_alpnProtocols m). length s = 0 \<or> length s > 255)" using assms(2) by force
  define len where "len = (let len0 = 2 + 32 + 1 + length (cl_sessionId m) + 2 + length (cl_cipherSuites m) * 2 + 1
              + length (cl_compressionMethods m)
    in if cl_numExtensions m > 0 then len0 + (2 + cl_extensionsLength m) else len0)"
  have l: "length (cl_bytes m len) = 4 + len"
    using cl_extensions_none[of m] cl_extensions_length[of m] by (auto simp: cl_bytes_def len_def Let_def)
  have "clientHello_marshal m = (case go_fill (4 + len) (cl_bytes m len) of None \<Rightarrow> None
      | Some x \<Rightarrow> Some (x, m\<lparr>cl_raw := Some x\<rparr>))"
    unfolding clientHello_marshal_def Let_def if_not_P[OF a] assms(1) option.case len_def cl_bytes_def
    by (simp split: option.splits)
  then show ?thesis using l by (intro exI[of _ len]) simp
qed

lemma clientHello_unmarshal_fixed:
  fixes v :: u16 and R :: "byte list"
  assumes "length P = 4" "length random = 32" "length sid \<le> 32" "2 * length cs < 65536" "length cm < 256"
  defines "data \<equiv> P @ w16 v @ random @ [b0 (length sid)] @ sid @ be16 (2 * length cs) @ concat (map w16 cs) @ [b0 (length cm)] @ cm @ R"
  shows "clientHello_unmarshal m data =
    (let m1 = m\<lparr>cl_raw := Some data, cl_vers := v, cl_random := random, cl_sessionId := sid,
                        cl_cipherSuites := cs,
                        cl_secureRenegotiationSupported := (cl_secureRenegotiationSupported m \<or> scsvRenegotiation \<in> set cs),
                        cl_compressionMethods := cm, cl_nextProtoNeg := False, cl_serverName := [],
                        cl_ocspStapling := False, cl_ticketSupported := False, cl_sessionTicket := [],
                        cl_supportedSignatureAlgorithms := [], cl_alpnProtocols := [], cl_scts := False\<rparr>
     in read_extensions cl_ext R m1)"
  using assms(1-5) unfolding data_def clientHello_unmarshal_def
  by (simp add: codec_simps Let_def cong: if_cong)

lemma clientHello_roundtrip:
  assumes ok: "client_hello_ok m"
  shows "\<exists>x. clientHello_marshal m = Some (x, m\<lparr>cl_raw := Some x\<rparr>)
     \<and> clientHello_unmarshal empty_client_hello x = Accept (m\<lparr>cl_raw := Some x\<rparr>)"
proof -
  have o: "cl_raw m = None" "length (cl_random m) = 32" "length (cl_sessionId m) \<le> 32"
    "2 * length (cl_cipherSuites m) < 65536" "length (cl_compressionMethods m) < 256" "cl_extensionsLength m < 65536"
    and al: "\<forall>s\<in>set (cl_alpnProtocols m). 0 < length s \<and> length s < 256"
    using ok unfolding client_hello_ok_def by blast+
  obtain n where x: "clientHello_marshal m = Some (cl_bytes m n, m\<lparr>cl_raw := Some (cl_bytes m n)\<rparr>)"
    using clientHello_marshal_exact[OF o(1) al] by blast
  define x where "x = cl_bytes m n"
  define R where "R = (if cl_numExtensions m > 0 then be16 (cl_extensionsLength m) else []) @ cl_extensions m"
  define m1 where "m1 = (cl_fixed m)\<lparr>cl_raw := Some x\<rparr>"
  have xe: "x = ([typeClientHello] @ be24 n) @ w16 (cl_vers m) @ cl_random m @ [b0 (length (cl_sessionId m))] @ cl_sessionId m
      @ be16 (2 * length (cl_cipherSuites m)) @ concat (map w16 (cl_cipherSuites m))
      @ [b0 (length (cl_compressionMethods m))] @ cl_compressionMethods m @ R"
    using o by (simp add: x_def cl_bytes_def R_def)
  have fx: "empty_client_hello\<lparr>cl_raw := Some x, cl_vers := cl_vers m, cl_random := cl_random m, cl_sessionId := cl_sessionId m,
                        cl_cipherSuites := cl_cipherSuites m,
                        cl_secureRenegotiationSupported := (cl_secureRenegotiationSupported empty_client_hello \<or> scsvRenegotiation \<in> set (cl_cipherSuites m)),
                        cl_compressionMethods := cl_compressionMethods m, cl_nextProtoNeg := False, cl_serverName := [],
                        cl_ocspStapling := False, cl_ticketSupported := False, cl_sessionTicket := [],
                        cl_supportedSignatureAlgorithms := [], cl_alpnProtocols := [], cl_scts := False\<rparr> = m1"
    by (rule client_hello.equality) (simp_all add: m1_def cl_fixed_def empty_client_hello_def)
  have "clientHello_unmarshal empty_client_hello x =
    read_extensions cl_ext R m1"
    unfolding fx[symmetric] unfolding xe
    by (rule clientHello_unmarshal_fixed[unfolded Let_def]) (use o in simp_all)
  also have "\<dots> = ext_loop cl_ext (cl_extensions m) m1"
    unfolding R_def by (rule read_extensions_encoded) (use cl_extensions_none[of m] o in \<open>auto simp: cl_extensions_length\<close>)
  also have "\<dots> = Accept (m\<lparr>cl_raw := Some x\<rparr>)" unfolding m1_def by (rule ext_loop_cl_extensions[OF ok])
  finally show ?thesis using x by (auto simp: x_def)
qed

end
