(* ===== verification/Tls_Server_Hello.thy ===== *)
theory Tls_Server_Hello
  imports Tls_Hello
begin

text \<open>
  The server hello of \<^verbatim>\<open>zgmtls/handshake_messages.go\<close> and its round trip.
\<close>

section \<open>ServerHello\<close>

record server_hello =
  sv_raw :: "byte list option"
  sv_vers :: u16
  sv_random :: "byte list"
  sv_sessionId :: "byte list"
  sv_cipherSuite :: u16
  sv_compressionMethod :: byte
  sv_nextProtoNeg :: bool
  sv_nextProtos :: "byte list list"
  sv_ocspStapling :: bool
  sv_scts :: "byte list list"
  sv_ticketSupported :: bool
  sv_secureRenegotiation :: "byte list"
  sv_secureRenegotiationSupported :: bool
  sv_alpnProtocol :: "byte list"

definition empty_server_hello :: server_hello where
  "empty_server_hello =
     \<lparr>sv_raw = None, sv_vers = 0, sv_random = [], sv_sessionId = [], sv_cipherSuite = 0, sv_compressionMethod = 0,
      sv_nextProtoNeg = False, sv_nextProtos = [], sv_ocspStapling = False, sv_scts = [], sv_ticketSupported = False,
      sv_secureRenegotiation = [], sv_secureRenegotiationSupported = False, sv_alpnProtocol = []\<rparr>"

definition sv_nextProtoLen :: "server_hello \<Rightarrow> nat" where
  "sv_nextProtoLen m = (if sv_nextProtoNeg m then sum_list (map length (sv_nextProtos m)) + length (sv_nextProtos m) else 0)"

definition sv_sctLen :: "server_hello \<Rightarrow> nat" where
  "sv_sctLen m = (if length (sv_scts m) > 0 then sum_list (map (\<lambda>s. length s + 2) (sv_scts m)) else 0)"

definition sv_numExtensions :: "server_hello \<Rightarrow> nat" where
  "sv_numExtensions m =
     (if sv_nextProtoNeg m then 1 else 0) + (if sv_ocspStapling m then 1 else 0) + (if sv_ticketSupported m then 1 else 0)
     + (if sv_secureRenegotiationSupported m then 1 else 0) + (if length (sv_alpnProtocol m) > 0 then 1 else 0)
     + (if length (sv_scts m) > 0 then 1 else 0)"

definition sv_extensionsLength :: "server_hello \<Rightarrow> nat" where
  "sv_extensionsLength m =
     sv_nextProtoLen m + (if sv_secureRenegotiationSupported m then 1 + length (sv_secureRenegotiation m) else 0)
     + (if length (sv_alpnProtocol m) > 0 then 2 + 1 + length (sv_alpnProtocol m) else 0)
     + (if length (sv_scts m) > 0 then 2 + sv_sctLen m else 0) + 4 * sv_numExtensions m"

text \<open>
  A next protocol is cut at 255 bytes when it is written, but counted in full: the buffer
  then ends in zeros.
\<close>

definition sv_extensions :: "server_hello \<Rightarrow> byte list" where
  "sv_extensions m =
     (if sv_nextProtoNeg m then be16 extensionNextProtoNeg @ be16 (sv_nextProtoLen m) @ pack8 (map (take 255) (sv_nextProtos m)) else [])
     @ (if sv_ocspStapling m then ext_block extensionStatusRequest [] else [])
     @ (if sv_ticketSupported m then ext_block extensionSessionTicket [] else [])
     @ (if sv_secureRenegotiationSupported m then reneg_block (sv_secureRenegotiation m) else [])
     @ (if length (sv_alpnProtocol m) > 0
        then ext_block extensionALPN (be16 (1 + length (sv_alpnProtocol m)) @ [b0 (length (sv_alpnProtocol m))] @ sv_alpnProtocol m)
        else [])
     @ (if sv_sctLen m > 0 then ext_block extensionSCT (be16 (sv_sctLen m) @ pack16 (sv_scts m)) else [])"

definition serverHello_marshal :: "server_hello \<Rightarrow> (byte list \<times> server_hello) option" where
  "serverHello_marshal m =
     (case sv_raw m of Some r \<Rightarrow> Some (r, m)
      | None \<Rightarrow>
        let len = (if sv_numExtensions m > 0 then 38 + length (sv_sessionId m) + (2 + sv_extensionsLength m)
                   else 38 + length (sv_sessionId m))
        in if length (sv_alpnProtocol m) \<ge> 256 then None
           else do {
             x \<leftarrow> go_fill (4 + len)
               ([typeServerHello] @ be24 len @ w16 (sv_vers m) @ fit 32 (sv_random m)
                @ [b0 (length (sv_sessionId m))] @ sv_sessionId m @ w16 (sv_cipherSuite m) @ [sv_compressionMethod m]
                @ (if sv_numExtensions m > 0 then be16 (sv_extensionsLength m) else []) @ sv_extensions m);
             Some (x, m\<lparr>sv_raw := Some x\<rparr>) })"

definition sv_ext :: "nat \<Rightarrow> nat \<Rightarrow> byte list \<Rightarrow> server_hello \<Rightarrow> server_hello parse" where
  "sv_ext extension len data m =
     (if extension = extensionNextProtoNeg then
        sub data 0 len (\<lambda>d. on_accept (items8 d)
          (\<lambda>xs. Accept (m\<lparr>sv_nextProtoNeg := True, sv_nextProtos := sv_nextProtos m @ xs\<rparr>)))
      else if extension = extensionStatusRequest then
        (if len > 0 then Reject else Accept (m\<lparr>sv_ocspStapling := True\<rparr>))
      else if extension = extensionSessionTicket then
        (if len > 0 then Reject else Accept (m\<lparr>sv_ticketSupported := True\<rparr>))
      else if extension = extensionRenegotiationInfo then
        (if len = 0 then Reject
         else sub data 0 len (\<lambda>d. rd8 d 0 (\<lambda>l. from_at d 1 (\<lambda>d. if l \<noteq> length d then Reject
           else Accept (m\<lparr>sv_secureRenegotiation := d, sv_secureRenegotiationSupported := True\<rparr>)))))
      else if extension = extensionALPN then
        sub data 0 len (\<lambda>d. if length d < 3 then Reject
          else rd16 d 0 (\<lambda>l. if l \<noteq> length d - 2 then Reject
            else from_at d 2 (\<lambda>d. rd8 d 0 (\<lambda>l. if l \<noteq> length d - 1 then Reject
              else from_at d 1 (\<lambda>d. if length d = 0 then Reject else Accept (m\<lparr>sv_alpnProtocol := d\<rparr>))))))
      else if extension = extensionSCT then
        sub data 0 len (\<lambda>d. if length d < 2 then Reject
          else rd16 d 0 (\<lambda>l. from_at d 2 (\<lambda>d. if length d \<noteq> l \<or> l = 0 then Reject
            else on_accept (items16 True d) (\<lambda>xs. Accept (m\<lparr>sv_scts := xs\<rparr>)))))
      else Accept m)"

definition serverHello_unmarshal :: "server_hello \<Rightarrow> byte list \<Rightarrow> server_hello parse" where
  "serverHello_unmarshal m data =
     (if length data < 42 then Reject
      else rd16 data 4 (\<lambda>vers. sub data 6 38 (\<lambda>random. rd8 data 38 (\<lambda>sessionIdLen.
        if sessionIdLen > 32 \<or> length data < 39 + sessionIdLen then Reject
        else sub data 39 (39 + sessionIdLen) (\<lambda>sessionId. from_at data (39 + sessionIdLen) (\<lambda>d1.
          if length d1 < 3 then Reject
          else rd16 d1 0 (\<lambda>cipherSuite. at d1 2 (\<lambda>compressionMethod. from_at d1 3 (\<lambda>d2.
            let m1 = m\<lparr>sv_raw := Some data, sv_vers := of_nat vers, sv_random := random, sv_sessionId := sessionId,
                  sv_cipherSuite := of_nat cipherSuite, sv_compressionMethod := compressionMethod,
                  sv_nextProtoNeg := False, sv_nextProtos := [], sv_ocspStapling := False, sv_scts := [],
                  sv_ticketSupported := False, sv_alpnProtocol := []\<rparr>
            in read_extensions sv_ext d2 m1)))))))))"

lemma sv_ext_no_panic: "n \<le> length d \<Longrightarrow> sv_ext typ n d m \<noteq> Panic"
  unfolding sv_ext_def
  by (intro no_panic items8_no_panic items16_no_panic; (simp; fail | force))

lemma serverHello_unmarshal_no_panic: "serverHello_unmarshal m data \<noteq> Panic"
  unfolding serverHello_unmarshal_def Let_def
  by (intro no_panic read_extensions_no_panic sv_ext_no_panic; (simp; fail | force))

definition server_hello_ok :: "server_hello \<Rightarrow> bool" where
  "server_hello_ok m \<longleftrightarrow> sv_raw m = None \<and> length (sv_random m) = 32 \<and> length (sv_sessionId m) \<le> 32
     \<and> (\<forall>s\<in>set (sv_nextProtos m). 0 < length s \<and> length s < 256) \<and> (\<not> sv_nextProtoNeg m \<longrightarrow> sv_nextProtos m = [])
     \<and> length (sv_secureRenegotiation m) < 255 \<and> (\<not> sv_secureRenegotiationSupported m \<longrightarrow> sv_secureRenegotiation m = [])
     \<and> length (sv_alpnProtocol m) < 256 \<and> (\<forall>s\<in>set (sv_scts m). s \<noteq> [] \<and> length s < 65536)
     \<and> sv_extensionsLength m < 65536"

lemma nextProtoLen_pack8:
  "\<forall>s\<in>set xs. length s < 256 \<Longrightarrow> map (take 255) xs = xs \<and> length (pack8 xs) = sum_list (map length xs) + length xs"
  by (induction xs) (auto simp: pack8_def)

lemma sctLen_pack16: "sv_sctLen m = length (pack16 (sv_scts m))"
  by (simp add: sv_sctLen_def length_pack16 add.commute)

lemma sv_extensions_eq:
  assumes "\<forall>s\<in>set (sv_nextProtos m). length s < 256"
  shows "sv_extensions m =
     (if sv_nextProtoNeg m then ext_block extensionNextProtoNeg (pack8 (sv_nextProtos m)) else [])
     @ (if sv_ocspStapling m then ext_block extensionStatusRequest [] else [])
     @ (if sv_ticketSupported m then ext_block extensionSessionTicket [] else [])
     @ (if sv_secureRenegotiationSupported m then reneg_block (sv_secureRenegotiation m) else [])
     @ (if length (sv_alpnProtocol m) > 0
        then ext_block extensionALPN (be16 (1 + length (sv_alpnProtocol m)) @ [b0 (length (sv_alpnProtocol m))] @ sv_alpnProtocol m)
        else [])
     @ (if length (sv_scts m) > 0 then ext_block extensionSCT (be16 (length (pack16 (sv_scts m))) @ pack16 (sv_scts m)) else [])"
proof -
  have "sv_sctLen m > 0 \<longleftrightarrow> length (sv_scts m) > 0" by (cases "sv_scts m") (simp_all add: sv_sctLen_def)
  then show ?thesis using nextProtoLen_pack8[OF assms] by (simp add: sv_extensions_def sv_nextProtoLen_def ext_block_def sctLen_pack16)
qed

lemma sv_extensions_length:
  assumes "\<forall>s\<in>set (sv_nextProtos m). length s < 256"
  shows "length (sv_extensions m) = sv_extensionsLength m"
  unfolding sv_extensions_eq[OF assms] sv_extensionsLength_def sv_numExtensions_def
  using nextProtoLen_pack8[OF assms] by (simp add: sv_nextProtoLen_def sctLen_pack16)

lemma sv_extensions_none: "sv_numExtensions m = 0 \<Longrightarrow> sv_extensions m = []"
  by (simp add: sv_extensions_def sv_numExtensions_def sv_sctLen_def split: if_splits)

lemma sv_ext_steps:
  "\<forall>s\<in>set xs. 0 < length s \<and> length s < 256 \<Longrightarrow> length (pack8 xs) < 65536 \<Longrightarrow>
     ext_loop sv_ext ((if b then ext_block extensionNextProtoNeg (pack8 xs) else []) @ r) m
     = ext_loop sv_ext r (m\<lparr>sv_nextProtoNeg := b \<or> sv_nextProtoNeg m, sv_nextProtos := (if b then sv_nextProtos m @ xs else sv_nextProtos m)\<rparr>)"
  "ext_loop sv_ext ((if b then ext_block extensionStatusRequest [] else []) @ r) m
     = ext_loop sv_ext r (m\<lparr>sv_ocspStapling := b \<or> sv_ocspStapling m\<rparr>)"
  "ext_loop sv_ext ((if b then ext_block extensionSessionTicket [] else []) @ r) m
     = ext_loop sv_ext r (m\<lparr>sv_ticketSupported := b \<or> sv_ticketSupported m\<rparr>)"
  "length i < 255 \<Longrightarrow> ext_loop sv_ext ((if b then reneg_block i else []) @ r) m
     = ext_loop sv_ext r (m\<lparr>sv_secureRenegotiation := (if b then i else sv_secureRenegotiation m),
         sv_secureRenegotiationSupported := b \<or> sv_secureRenegotiationSupported m\<rparr>)"
  by (cases b; simp add: ext_loop_block reneg_block_eq ext_types be16_def sv_ext_def codec_simps sub_def from_at_def)+

lemma sv_ext_alpn:
  "length p < 256 \<Longrightarrow>
     ext_loop sv_ext ((if length p > 0 then ext_block extensionALPN (be16 (1 + length p) @ [b0 (length p)] @ p) else []) @ r) m
     = ext_loop sv_ext r (m\<lparr>sv_alpnProtocol := (if length p > 0 then p else sv_alpnProtocol m)\<rparr>)"
  by (cases "p = []"; simp add: ext_loop_block ext_types be16_def sv_ext_def codec_simps sub_def from_at_def)

lemma sv_ext_sct:
  "\<forall>s\<in>set xs. s \<noteq> [] \<and> length s < 65536 \<Longrightarrow> length (pack16 xs) + 2 < 65536 \<Longrightarrow>
     ext_loop sv_ext ((if length xs > 0 then ext_block extensionSCT (be16 (length (pack16 xs)) @ pack16 xs) else []) @ r) m
     = ext_loop sv_ext r (m\<lparr>sv_scts := (if length xs > 0 then xs else sv_scts m)\<rparr>)"
proof (cases "xs = []")
  case False
  then have "pack16 xs \<noteq> []" by (cases xs) (simp_all add: pack16_def be16_def)
  then show "\<forall>s\<in>set xs. s \<noteq> [] \<and> length s < 65536 \<Longrightarrow> length (pack16 xs) + 2 < 65536 \<Longrightarrow> ?thesis" using False
    by (simp add: ext_loop_block ext_types be16_def sv_ext_def codec_simps sub_def from_at_def)
qed simp

definition sv_fixed :: "server_hello \<Rightarrow> server_hello" where
  "sv_fixed m = m\<lparr>sv_nextProtoNeg := False, sv_nextProtos := [], sv_ocspStapling := False, sv_scts := [],
     sv_ticketSupported := False, sv_secureRenegotiation := [], sv_secureRenegotiationSupported := False, sv_alpnProtocol := []\<rparr>"

lemma ext_loop_sv_extensions:
  assumes "server_hello_ok m"
  shows "ext_loop sv_ext (sv_extensions m) ((sv_fixed m)\<lparr>sv_raw := r\<rparr>) = Accept (m\<lparr>sv_raw := r\<rparr>)"
proof -
  have ok: "\<forall>s\<in>set (sv_nextProtos m). 0 < length s \<and> length s < 256" "\<forall>s\<in>set (sv_nextProtos m). length s < 256"
    "length (sv_secureRenegotiation m) < 255" "length (sv_alpnProtocol m) < 256"
    "\<forall>s\<in>set (sv_scts m). s \<noteq> [] \<and> length s < 65536" "sv_extensionsLength m < 65536"
    using assms unfolding server_hello_ok_def by blast+
  have fl: "\<not> sv_nextProtoNeg m \<longrightarrow> sv_nextProtos m = []" "\<not> sv_secureRenegotiationSupported m \<longrightarrow> sv_secureRenegotiation m = []"
    using assms unfolding server_hello_ok_def by blast+
  have l: "length (pack8 (sv_nextProtos m)) < 65536" "length (pack16 (sv_scts m)) + 2 < 65536"
    using ok(6) fl(1) nextProtoLen_pack8[OF ok(2)]
    by (auto simp: sv_extensionsLength_def sv_nextProtoLen_def sctLen_pack16 pack8_def pack16_def split: if_splits)
  have "ext_loop sv_ext (sv_extensions m @ []) ((sv_fixed m)\<lparr>sv_raw := r\<rparr>) = Accept (m\<lparr>sv_raw := r\<rparr>)"
    unfolding sv_extensions_eq[OF ok(2)] append_assoc sv_ext_steps(2,3) sv_ext_steps(1)[OF ok(1) l(1)] sv_ext_steps(4)[OF ok(3)]
      sv_ext_alpn[OF ok(4)] sv_ext_sct[OF ok(5) l(2)] ext_loop.simps parse.inject
    by (rule server_hello.equality) (use fl in \<open>auto simp: sv_fixed_def\<close>)
  then show ?thesis by simp
qed

definition sv_bytes :: "server_hello \<Rightarrow> nat \<Rightarrow> byte list" where
  "sv_bytes m n = [typeServerHello] @ be24 n @ w16 (sv_vers m) @ fit 32 (sv_random m)
                @ [b0 (length (sv_sessionId m))] @ sv_sessionId m @ w16 (sv_cipherSuite m) @ [sv_compressionMethod m]
                @ (if sv_numExtensions m > 0 then be16 (sv_extensionsLength m) else []) @ sv_extensions m"

lemma serverHello_marshal_exact:
  assumes "sv_raw m = None" "\<forall>s\<in>set (sv_nextProtos m). length s < 256" "length (sv_alpnProtocol m) < 256"
  shows "\<exists>n. serverHello_marshal m = Some (sv_bytes m n, m\<lparr>sv_raw := Some (sv_bytes m n)\<rparr>) \<and> length (sv_bytes m n) = 4 + n"
proof -
  define len where "len = (if sv_numExtensions m > 0 then 38 + length (sv_sessionId m) + (2 + sv_extensionsLength m)
                   else 38 + length (sv_sessionId m))"
  have a: "\<not> length (sv_alpnProtocol m) \<ge> 256" using assms(3) by simp
  have l: "length (sv_bytes m len) = 4 + len"
    using sv_extensions_none[of m] sv_extensions_length[OF assms(2)] by (auto simp: sv_bytes_def len_def)
  have "serverHello_marshal m = (case go_fill (4 + len) (sv_bytes m len) of None \<Rightarrow> None
      | Some x \<Rightarrow> Some (x, m\<lparr>sv_raw := Some x\<rparr>))"
    unfolding serverHello_marshal_def Let_def if_not_P[OF a] assms(1) option.case len_def sv_bytes_def
    by (simp split: option.splits)
  then show ?thesis using l by (intro exI[of _ len]) simp
qed

lemma serverHello_unmarshal_fixed:
  fixes v suite :: u16 and R :: "byte list" and cm :: byte
  assumes "length P = 4" "length random = 32" "length sid \<le> 32"
  defines "data \<equiv> P @ w16 v @ random @ [b0 (length sid)] @ sid @ w16 suite @ [cm] @ R"
  shows "serverHello_unmarshal m data =
    read_extensions sv_ext R (m\<lparr>sv_raw := Some data, sv_vers := v, sv_random := random, sv_sessionId := sid,
                  sv_cipherSuite := suite, sv_compressionMethod := cm,
                  sv_nextProtoNeg := False, sv_nextProtos := [], sv_ocspStapling := False, sv_scts := [],
                  sv_ticketSupported := False, sv_alpnProtocol := []\<rparr>)"
  using assms(1-3) unfolding data_def serverHello_unmarshal_def
  by (simp add: codec_simps Let_def cong: if_cong)

lemma serverHello_roundtrip:
  assumes ok: "server_hello_ok m"
  shows "\<exists>x. serverHello_marshal m = Some (x, m\<lparr>sv_raw := Some x\<rparr>)
     \<and> serverHello_unmarshal empty_server_hello x = Accept (m\<lparr>sv_raw := Some x\<rparr>)"
proof -
  have o: "sv_raw m = None" "length (sv_random m) = 32" "length (sv_sessionId m) \<le> 32"
    "\<forall>s\<in>set (sv_nextProtos m). length s < 256" "length (sv_alpnProtocol m) < 256" "sv_extensionsLength m < 65536"
    using ok unfolding server_hello_ok_def by blast+
  obtain n where x: "serverHello_marshal m = Some (sv_bytes m n, m\<lparr>sv_raw := Some (sv_bytes m n)\<rparr>)"
    using serverHello_marshal_exact[OF o(1,4,5)] by blast
  define x where "x = sv_bytes m n"
  define R where "R = (if sv_numExtensions m > 0 then be16 (sv_extensionsLength m) else []) @ sv_extensions m"
  define m1 where "m1 = (sv_fixed m)\<lparr>sv_raw := Some x\<rparr>"
  have xe: "x = ([typeServerHello] @ be24 n) @ w16 (sv_vers m) @ sv_random m @ [b0 (length (sv_sessionId m))] @ sv_sessionId m
      @ w16 (sv_cipherSuite m) @ [sv_compressionMethod m] @ R"
    using o by (simp add: x_def sv_bytes_def R_def)
  have fx: "empty_server_hello\<lparr>sv_raw := Some x, sv_vers := sv_vers m, sv_random := sv_random m, sv_sessionId := sv_sessionId m,
                  sv_cipherSuite := sv_cipherSuite m, sv_compressionMethod := sv_compressionMethod m,
                  sv_nextProtoNeg := False, sv_nextProtos := [], sv_ocspStapling := False, sv_scts := [],
                  sv_ticketSupported := False, sv_alpnProtocol := []\<rparr> = m1"
    by (rule server_hello.equality) (simp_all add: m1_def sv_fixed_def empty_server_hello_def)
  have "serverHello_unmarshal empty_server_hello x = read_extensions sv_ext R m1"
    unfolding fx[symmetric] unfolding xe by (rule serverHello_unmarshal_fixed) (use o in simp_all)
  also have "\<dots> = ext_loop sv_ext (sv_extensions m) m1"
    unfolding R_def by (rule read_extensions_encoded) (use sv_extensions_none[of m] o in \<open>auto simp: sv_extensions_length\<close>)
  also have "\<dots> = Accept (m\<lparr>sv_raw := Some x\<rparr>)" unfolding m1_def by (rule ext_loop_sv_extensions[OF ok])
  finally show ?thesis using x by (auto simp: x_def)
qed

end
