(* ===== verification/Tls_Messages.thy ===== *)
theory Tls_Messages
  imports Tls_Server_Hello
begin

text \<open>
  The other handshake messages of \<^verbatim>\<open>zgmtls/handshake_messages.go\<close> and the certificate request
  of \<^verbatim>\<open>zgmtls/gm_handshake_messages.go\<close>. The receiver's \<open>raw\<close> is a field of each message as
  in the hello messages.
\<close>

section \<open>Numbers of the protocol\<close>

definition typeHelloRequest :: byte where "typeHelloRequest = 0"
definition typeNewSessionTicket :: byte where "typeNewSessionTicket = 4"
definition typeCertificate :: byte where "typeCertificate = 11"
definition typeServerKeyExchange :: byte where "typeServerKeyExchange = 12"
definition typeCertificateRequest :: byte where "typeCertificateRequest = 13"
definition typeServerHelloDone :: byte where "typeServerHelloDone = 14"
definition typeCertificateVerify :: byte where "typeCertificateVerify = 15"
definition typeClientKeyExchange :: byte where "typeClientKeyExchange = 16"
definition typeFinished :: byte where "typeFinished = 20"
definition typeCertificateStatus :: byte where "typeCertificateStatus = 22"
definition typeNextProtocol :: byte where "typeNextProtocol = 67"

section \<open>Certificate\<close>

record certificate_msg =
  cert_raw :: "byte list option"
  cert_certificates :: "byte list list"

definition pack24 :: "byte list list \<Rightarrow> byte list" where
  "pack24 xs = concat (map (\<lambda>s. be24 (length s) @ s) xs)"

definition certificate_marshal :: "certificate_msg \<Rightarrow> (byte list \<times> certificate_msg) option" where
  "certificate_marshal m =
     (case cert_raw m of Some r \<Rightarrow> Some (r, m)
      | None \<Rightarrow>
        let i = sum_list (map length (cert_certificates m));
            len = 3 + 3 * length (cert_certificates m) + i;
            certificateOctets = len - 3
        in do { x \<leftarrow> go_fill (4 + len) ([typeCertificate] @ be24 len @ be24 certificateOctets @ pack24 (cert_certificates m));
                Some (x, m\<lparr>cert_raw := Some x\<rparr>) })"

text \<open>
  The lengths are \<open>uint32\<close> and wrap. The first loop counts the certificates, the second takes
  them out.
\<close>

function count_certs :: "u32 \<Rightarrow> byte list \<Rightarrow> nat option" where
  "count_certs certsLen d =
     (if certsLen > 0 then
        (case d of a # b # c # e # d' \<Rightarrow>
           if (of_nat (length d) :: u32) < 3 + of_nat (get24 a b c) then None
           else map_option Suc (count_certs (certsLen - (3 + of_nat (get24 a b c))) (drop (3 + get24 a b c) d))
         | _ \<Rightarrow> None)
      else Some 0)"
  by auto
termination by (relation "measure (\<lambda>(n, d). length d)") auto

fun take_certs :: "nat \<Rightarrow> byte list \<Rightarrow> byte list list parse" where
  "take_certs 0 d = Accept []"
| "take_certs (Suc n) d = rd24 d 0 (\<lambda>certLen. sub d 3 (3 + certLen) (\<lambda>c. from_at d (3 + certLen) (\<lambda>d'.
     on_accept (take_certs n (drop (3 + certLen) d)) (\<lambda>cs. Accept (c # cs)))))"

definition certificate_unmarshal :: "certificate_msg \<Rightarrow> byte list \<Rightarrow> certificate_msg parse" where
  "certificate_unmarshal m data =
     (if length data < 7 then Reject
      else rd24 data 4 (\<lambda>certsLen.
        if (of_nat (length data) :: u32) \<noteq> of_nat certsLen + 7 then Reject
        else from_at data 7 (\<lambda>d. case count_certs (of_nat certsLen) d of None \<Rightarrow> Reject
          | Some numCerts \<Rightarrow> on_accept (take_certs numCerts d)
              (\<lambda>cs. Accept (m\<lparr>cert_raw := Some data, cert_certificates := cs\<rparr>)))))"

section \<open>Key exchange, status, done, finished\<close>

text \<open>\<open>serverKeyExchangeMsg\<close>, \<open>clientKeyExchangeMsg\<close> and \<open>finishedMsg\<close> carry one opaque field.\<close>

record opaque_msg =
  op_raw :: "byte list option"
  op_data :: "byte list"

definition serverKeyExchange_marshal :: "opaque_msg \<Rightarrow> (byte list \<times> opaque_msg) option" where
  "serverKeyExchange_marshal m =
     (case op_raw m of Some r \<Rightarrow> Some (r, m)
      | None \<Rightarrow> let len = length (op_data m) in do {
          x \<leftarrow> go_fill (len + 4) ([typeServerKeyExchange] @ be24 len @ op_data m); Some (x, m\<lparr>op_raw := Some x\<rparr>) })"

definition serverKeyExchange_unmarshal :: "opaque_msg \<Rightarrow> byte list \<Rightarrow> opaque_msg parse" where
  "serverKeyExchange_unmarshal m data =
     (if length data < 4 then Reject
      else from_at data 4 (\<lambda>d. Accept (m\<lparr>op_raw := Some data, op_data := d\<rparr>)))"

definition clientKeyExchange_marshal :: "opaque_msg \<Rightarrow> (byte list \<times> opaque_msg) option" where
  "clientKeyExchange_marshal m =
     (case op_raw m of Some r \<Rightarrow> Some (r, m)
      | None \<Rightarrow> let len = length (op_data m) in do {
          x \<leftarrow> go_fill (len + 4) ([typeClientKeyExchange] @ be24 len @ op_data m); Some (x, m\<lparr>op_raw := Some x\<rparr>) })"

definition clientKeyExchange_unmarshal :: "opaque_msg \<Rightarrow> byte list \<Rightarrow> opaque_msg parse" where
  "clientKeyExchange_unmarshal m data =
     (if length data < 4 then Reject
      else rd24 data 1 (\<lambda>l. if l \<noteq> length data - 4 then Reject
        else from_at data 4 (\<lambda>d. Accept (m\<lparr>op_raw := Some data, op_data := d\<rparr>))))"

text \<open>Only the lowest byte of the length of \<open>finishedMsg\<close> is written.\<close>

definition finished_marshal :: "opaque_msg \<Rightarrow> (byte list \<times> opaque_msg) option" where
  "finished_marshal m =
     (case op_raw m of Some r \<Rightarrow> Some (r, m)
      | None \<Rightarrow> do {
          x \<leftarrow> go_fill (4 + length (op_data m)) ([typeFinished, 0, 0, b0 (length (op_data m))] @ op_data m);
          Some (x, m\<lparr>op_raw := Some x\<rparr>) })"

definition finished_unmarshal :: "opaque_msg \<Rightarrow> byte list \<Rightarrow> opaque_msg parse" where
  "finished_unmarshal m data =
     (if length data < 4 then Reject
      else from_at data 4 (\<lambda>d. Accept (m\<lparr>op_raw := Some data, op_data := d\<rparr>)))"

record certificate_status_msg =
  cst_raw :: "byte list option"
  cst_statusType :: byte
  cst_response :: "byte list"

definition certificateStatus_marshal :: "certificate_status_msg \<Rightarrow> (byte list \<times> certificate_status_msg) option" where
  "certificateStatus_marshal m =
     (case cst_raw m of Some r \<Rightarrow> Some (r, m)
      | None \<Rightarrow> do {
          x \<leftarrow> (if cst_statusType m = statusTypeOCSP
               then go_fill (4 + 4 + length (cst_response m))
                 ([typeCertificateStatus] @ be24 (length (cst_response m) + 4) @ [statusTypeOCSP]
                  @ be24 (length (cst_response m)) @ cst_response m)
               else Some [typeCertificateStatus, 0, 0, 1, cst_statusType m]);
          Some (x, m\<lparr>cst_raw := Some x\<rparr>) })"

definition certificateStatus_unmarshal :: "certificate_status_msg \<Rightarrow> byte list \<Rightarrow> certificate_status_msg parse" where
  "certificateStatus_unmarshal m data =
     (if length data < 5 then Reject
      else at data 4 (\<lambda>statusType. let m1 = m\<lparr>cst_raw := Some data, cst_statusType := statusType, cst_response := []\<rparr>
        in if statusType = statusTypeOCSP then
             (if length data < 8 then Reject
              else rd24 data 5 (\<lambda>respLen. if (of_nat (length data) :: u32) \<noteq> 4 + 4 + of_nat respLen then Reject
                else from_at data 8 (\<lambda>d. Accept (m1\<lparr>cst_response := d\<rparr>))))
           else Accept m1))"

text \<open>\<open>serverHelloDoneMsg\<close> and \<open>helloRequestMsg\<close> have no body: accepted or not.\<close>

definition serverHelloDone_marshal :: "byte list" where "serverHelloDone_marshal = typeServerHelloDone # replicate 3 0"

definition serverHelloDone_unmarshal :: "byte list \<Rightarrow> bool" where "serverHelloDone_unmarshal data \<longleftrightarrow> length data = 4"

definition helloRequest_marshal :: "byte list" where "helloRequest_marshal = [typeHelloRequest, 0, 0, 0]"

definition helloRequest_unmarshal :: "byte list \<Rightarrow> bool" where "helloRequest_unmarshal data \<longleftrightarrow> length data = 4"

section \<open>Next protocol\<close>

record next_proto_msg =
  np_raw :: "byte list option"
  np_proto :: "byte list"

definition nextProto_marshal :: "next_proto_msg \<Rightarrow> (byte list \<times> next_proto_msg) option" where
  "nextProto_marshal m =
     (case np_raw m of Some r \<Rightarrow> Some (r, m)
      | None \<Rightarrow>
        let l = (if length (np_proto m) > 255 then 255 else length (np_proto m));
            padding = 32 - (l + 2) mod 32;
            len = l + padding + 2
        in do { x \<leftarrow> go_fill (len + 4) ([typeNextProtocol] @ be24 len @ [b0 l] @ take l (np_proto m) @ [b0 padding]);
                Some (x, m\<lparr>np_raw := Some x\<rparr>) })"

definition nextProto_unmarshal :: "next_proto_msg \<Rightarrow> byte list \<Rightarrow> next_proto_msg parse" where
  "nextProto_unmarshal m data =
     (if length data < 5 then Reject
      else from_at data 4 (\<lambda>d. rd8 d 0 (\<lambda>protoLen. from_at d 1 (\<lambda>d.
        if length d < protoLen then Reject
        else sub d 0 protoLen (\<lambda>proto. from_at d protoLen (\<lambda>d.
          if length d < 1 then Reject
          else rd8 d 0 (\<lambda>paddingLen. from_at d 1 (\<lambda>d. if length d \<noteq> paddingLen then Reject
            else Accept (m\<lparr>np_raw := Some data, np_proto := proto\<rparr>)))))))))"

section \<open>Certificate request, certificate verify, session ticket\<close>

record certificate_request_msg =
  cr_raw :: "byte list option"
  cr_hasSignatureAndHash :: bool
  cr_certificateTypes :: "byte list"
  cr_supportedSignatureAlgorithms :: "u16 list"
  cr_certificateAuthorities :: "byte list list"

definition certificateRequest_marshal :: "certificate_request_msg \<Rightarrow> (byte list \<times> certificate_request_msg) option" where
  "certificateRequest_marshal m =
     (case cr_raw m of Some r \<Rightarrow> Some (r, m)
      | None \<Rightarrow>
        let casLength = sum_list (map (\<lambda>ca. 2 + length ca) (cr_certificateAuthorities m));
            n = length (cr_supportedSignatureAlgorithms m) * 2;
            len = 1 + length (cr_certificateTypes m) + 2 + casLength
              + (if cr_hasSignatureAndHash m then 2 + 2 * length (cr_supportedSignatureAlgorithms m) else 0)
        in do { x \<leftarrow> go_fill (4 + len)
                  ([typeCertificateRequest] @ be24 len @ [b0 (length (cr_certificateTypes m))] @ cr_certificateTypes m
                   @ (if cr_hasSignatureAndHash m then be16 n @ concat (map w16 (cr_supportedSignatureAlgorithms m)) else [])
                   @ be16 casLength @ pack16 (cr_certificateAuthorities m));
                Some (x, m\<lparr>cr_raw := Some x\<rparr>) })"

definition certificateRequest_unmarshal :: "certificate_request_msg \<Rightarrow> byte list \<Rightarrow> certificate_request_msg parse" where
  "certificateRequest_unmarshal m data =
     (if length data < 5 then Reject
      else rd24 data 1 (\<lambda>len. if (of_nat (length data) :: u32) - 4 \<noteq> of_nat len then Reject
        else rd8 data 4 (\<lambda>numCertTypes. from_at data 5 (\<lambda>d.
          if numCertTypes = 0 \<or> length d \<le> numCertTypes then Reject
          else sub d 0 numCertTypes (\<lambda>types. from_at d numCertTypes (\<lambda>d.
            on_accept
              (if cr_hasSignatureAndHash m then
                 (if length d < 2 then Reject
                  else rd16 d 0 (\<lambda>sigAndHashLen. from_at d 2 (\<lambda>d.
                    if sigAndHashLen mod 2 \<noteq> 0 then Reject
                    else if length d < sigAndHashLen then Reject
                    else on_accept (u16s (sigAndHashLen div 2) d) (\<lambda>ws. from_at d (2 * (sigAndHashLen div 2)) (\<lambda>d.
                      Accept (ws, d))))))
               else Accept (cr_supportedSignatureAlgorithms m, d))
              (\<lambda>(algs, d).
                if length d < 2 then Reject
                else rd16 d 0 (\<lambda>casLength. from_at d 2 (\<lambda>d.
                  if length d < casLength then Reject
                  else sub d 0 casLength (\<lambda>cas. from_at d casLength (\<lambda>d.
                    on_accept (items16 False cas) (\<lambda>authorities.
                      if length d = 0 then
                        Accept (m\<lparr>cr_raw := Some data, cr_certificateTypes := types,
                          cr_supportedSignatureAlgorithms := algs, cr_certificateAuthorities := authorities\<rparr>)
                      else Reject))))))))))))"

text \<open>The GM variant never has the list of algorithms.\<close>

record certificate_request_gm =
  cg_raw :: "byte list option"
  cg_certificateTypes :: "byte list"
  cg_certificateAuthorities :: "byte list list"

definition certificateRequestGM_marshal :: "certificate_request_gm \<Rightarrow> (byte list \<times> certificate_request_gm) option" where
  "certificateRequestGM_marshal m =
     (case cg_raw m of Some r \<Rightarrow> Some (r, m)
      | None \<Rightarrow>
        let casLength = sum_list (map (\<lambda>ca. 2 + length ca) (cg_certificateAuthorities m));
            len = 1 + length (cg_certificateTypes m) + 2 + casLength
        in do { x \<leftarrow> go_fill (4 + len)
                  ([typeCertificateRequest] @ be24 len @ [b0 (length (cg_certificateTypes m))] @ cg_certificateTypes m
                   @ be16 casLength @ pack16 (cg_certificateAuthorities m));
                Some (x, m\<lparr>cg_raw := Some x\<rparr>) })"

definition certificateRequestGM_unmarshal :: "certificate_request_gm \<Rightarrow> byte list \<Rightarrow> certificate_request_gm parse" where
  "certificateRequestGM_unmarshal m data =
     (if length data < 5 then Reject
      else rd24 data 1 (\<lambda>len. if (of_nat (length data) :: u32) - 4 \<noteq> of_nat len then Reject
        else rd8 data 4 (\<lambda>numCertTypes. from_at data 5 (\<lambda>d.
          if numCertTypes = 0 \<or> length d \<le> numCertTypes then Reject
          else sub d 0 numCertTypes (\<lambda>types. from_at d numCertTypes (\<lambda>d.
            if length d < 2 then Reject
            else rd16 d 0 (\<lambda>casLength. from_at d 2 (\<lambda>d.
              if length d < casLength then Reject
              else sub d 0 casLength (\<lambda>cas. from_at d casLength (\<lambda>d.
                on_accept (items16 False cas) (\<lambda>authorities.
                  if length d = 0 then
                    Accept (m\<lparr>cg_raw := Some data, cg_certificateTypes := types, cg_certificateAuthorities := authorities\<rparr>)
                  else Reject)))))))))))"

record certificate_verify_msg =
  cv_raw :: "byte list option"
  cv_hasSignatureAndHash :: bool
  cv_signatureAlgorithm :: u16
  cv_signature :: "byte list"

definition certificateVerify_marshal :: "certificate_verify_msg \<Rightarrow> (byte list \<times> certificate_verify_msg) option" where
  "certificateVerify_marshal m =
     (case cv_raw m of Some r \<Rightarrow> Some (r, m)
      | None \<Rightarrow>
        let siglength = length (cv_signature m); len = 2 + siglength + (if cv_hasSignatureAndHash m then 2 else 0)
        in do { x \<leftarrow> go_fill (4 + len)
                  ([typeCertificateVerify] @ be24 len @ (if cv_hasSignatureAndHash m then w16 (cv_signatureAlgorithm m) else [])
                   @ be16 siglength @ cv_signature m);
                Some (x, m\<lparr>cv_raw := Some x\<rparr>) })"

definition certificateVerify_unmarshal :: "certificate_verify_msg \<Rightarrow> byte list \<Rightarrow> certificate_verify_msg parse" where
  "certificateVerify_unmarshal m data =
     (if length data < 6 then Reject
      else rd24 data 1 (\<lambda>len. if (of_nat (length data) :: u32) - 4 \<noteq> of_nat len then Reject
        else from_at data 4 (\<lambda>d. on_accept
          (if cv_hasSignatureAndHash m then rd16 d 0 (\<lambda>alg. from_at d 2 (\<lambda>d. Accept (of_nat alg, d)))
           else Accept (cv_signatureAlgorithm m, d))
          (\<lambda>(alg, d). if length d < 2 then Reject
            else rd16 d 0 (\<lambda>siglength. from_at d 2 (\<lambda>d. if length d \<noteq> siglength then Reject
              else Accept (m\<lparr>cv_raw := Some data, cv_signatureAlgorithm := alg, cv_signature := d\<rparr>)))))))"

record new_session_ticket_msg =
  st_raw :: "byte list option"
  st_ticket :: "byte list"

definition newSessionTicket_marshal :: "new_session_ticket_msg \<Rightarrow> (byte list \<times> new_session_ticket_msg) option" where
  "newSessionTicket_marshal m =
     (case st_raw m of Some r \<Rightarrow> Some (r, m)
      | None \<Rightarrow>
        let ticketLen = length (st_ticket m); len = 2 + 4 + ticketLen
        in do { x \<leftarrow> go_fill (4 + len) ([typeNewSessionTicket] @ be24 len @ [0, 0, 0, 0] @ be16 ticketLen @ st_ticket m);
                Some (x, m\<lparr>st_raw := Some x\<rparr>) })"

definition newSessionTicket_unmarshal :: "new_session_ticket_msg \<Rightarrow> byte list \<Rightarrow> new_session_ticket_msg parse" where
  "newSessionTicket_unmarshal m data =
     (if length data < 10 then Reject
      else rd24 data 1 (\<lambda>len. if (of_nat (length data) :: u32) - 4 \<noteq> of_nat len then Reject
        else rd16 data 8 (\<lambda>ticketLen. if length data - 10 \<noteq> ticketLen then Reject
          else from_at data 10 (\<lambda>d. Accept (m\<lparr>st_raw := Some data, st_ticket := d\<rparr>)))))"

end
