(* ===== verification/Tls_Conn.thy ===== *)
theory Tls_Conn
  imports Tls_Record Tls_Hello Tls_Server_Hello Tls_Messages
begin

text \<open>
  A secured connection, \<^verbatim>\<open>Conn\<close> of \<^verbatim>\<open>zgmtls/conn.go\<close>: records in and out, alerts, assembling
  handshake messages, \<open>Read\<close>, \<open>Write\<close>, \<open>Close\<close>. The transport, the random source and the
  handshakes proper are the environment \<open>tls_env\<close>. How much one read of the transport stores is
  bounded in the code by the capacity of a recycled block; here it is left to the environment.
  Deadlines and the getters of \<open>ConnectionState\<close> are left out, and so are the mutexes: each
  definition is the body of a method that holds them. \<^term>\<open>None\<close> is a panic or no return.
\<close>

section \<open>State\<close>

definition recordTypeChangeCipherSpec :: byte where "recordTypeChangeCipherSpec = 20"
definition recordTypeAlert :: byte where "recordTypeAlert = 21"
definition recordTypeHandshake :: byte where "recordTypeHandshake = 22"
definition recordTypeApplicationData :: byte where "recordTypeApplicationData = 23"

lemmas record_types = recordTypeChangeCipherSpec_def recordTypeAlert_def recordTypeHandshake_def recordTypeApplicationData_def

definition maxHandshake :: nat where "maxHandshake = 65536"
definition maxWarnAlertCount :: int where "maxWarnAlertCount = 5"
definition tcpMSSEstimate :: int where "tcpMSSEstimate = 1208"
definition recordSizeBoostThreshold :: int where "recordSizeBoostThreshold = 128 * 1024"

datatype renegotiation = RenegotiateNever | RenegotiateOnceAsClient | RenegotiateFreelyAsClient | Renegotiate_Unknown

text \<open>\<open>co_GMSupport\<close> is \<open>config.GMSupport\<close> with its \<open>IsAutoSwitchMode()\<close>.\<close>

record 'n tls_conn =
  co_net :: 'n
  co_isClient :: bool
  co_handshakeStatus :: bool
  co_handshakeErr :: "tls_err option"
  co_vers :: u16
  co_haveVers :: bool
  co_handshakes :: nat
  co_closeNotifyErr :: "tls_err option"
  co_closeNotifySent :: bool
  co_in :: half_conn
  co_out :: half_conn
  co_rawInput :: "byte list option"
  co_input :: "(byte list \<times> nat) option"
  co_hand :: "byte list"
  co_buffering :: bool
  co_sendBuf :: "byte list"
  co_bytesSent :: int
  co_packetsSent :: int
  co_warnCount :: int
  co_activeCall :: int
  co_DynamicRecordSizingDisabled :: bool
  co_Renegotiation :: renegotiation
  co_GMSupport :: "bool option"

datatype handshake_kind = Client_Handshake | Server_Handshake | Server_Handshake_Auto_Switch | Server_Handshake_GM

record 'n tls_env =
  te_read :: "'n \<Rightarrow> (byte list \<times> tls_err option) \<times> 'n"
  te_write :: "byte list \<Rightarrow> 'n \<Rightarrow> (nat \<times> tls_err option) \<times> 'n"
  te_rand :: "nat \<Rightarrow> 'n \<Rightarrow> (byte list + tls_err) \<times> 'n"
  te_close :: "'n \<Rightarrow> tls_err option \<times> 'n"
  te_handshake :: "handshake_kind \<Rightarrow> 'n tls_conn \<Rightarrow> (tls_err option \<times> 'n tls_conn) option"

definition set_in_err :: "tls_err option \<Rightarrow> 'n tls_conn \<Rightarrow> 'n tls_conn" where
  "set_in_err e c = c\<lparr>co_in := (co_in c)\<lparr>hc_err := e\<rparr>\<rparr>"

definition set_out_err :: "tls_err option \<Rightarrow> 'n tls_conn \<Rightarrow> 'n tls_conn" where
  "set_out_err e c = c\<lparr>co_out := (co_out c)\<lparr>hc_err := e\<rparr>\<rparr>"

fun is_temporary :: "tls_err \<Rightarrow> bool" where
  "is_temporary (Transport_Error t _) = t"
| "is_temporary _ = False"

section \<open>Writing records\<close>

definition maxPayloadSizeForWrite :: "byte \<Rightarrow> nat \<Rightarrow> 'n tls_conn \<Rightarrow> int \<times> 'n tls_conn" where
  "maxPayloadSizeForWrite typ e c =
     (if co_DynamicRecordSizingDisabled c \<or> typ \<noteq> recordTypeApplicationData then (int maxPlaintext, c)
      else if co_bytesSent c \<ge> recordSizeBoostThreshold then (int maxPlaintext, c)
      else let macSize = int (mac_len (co_out c));
               payloadBytes = tcpMSSEstimate - int recordHeaderLen - int e;
               payloadBytes = (case hc_cipher (co_out c) of
                   None \<Rightarrow> payloadBytes
                 | Some (Stream_Cipher ks pos) \<Rightarrow> payloadBytes - macSize
                 | Some (fixedNonceAEAD x a) \<Rightarrow> payloadBytes - int (ap_overhead a)
                 | Some (xorNonceAEAD x a) \<Rightarrow> payloadBytes - int (ap_overhead a)
                 | Some (CBC_Encrypter f bs iv) \<Rightarrow> (payloadBytes AND NOT (int bs - 1)) - 1 - macSize
                 | Some (CBC_Decrypter f bs iv) \<Rightarrow> (payloadBytes AND NOT (int bs - 1)) - 1 - macSize);
               pkt = co_packetsSent c;
               c = c\<lparr>co_packetsSent := i64 (pkt + 1)\<rparr>
           in if pkt > 1000 then (int maxPlaintext, c)
              else let n = payloadBytes * (pkt + 1) in (if n > int maxPlaintext then int maxPlaintext else n, c))"

definition conn_write :: "'n tls_env \<Rightarrow> byte list \<Rightarrow> 'n tls_conn \<Rightarrow> (nat \<times> tls_err option) \<times> 'n tls_conn" where
  "conn_write E data c =
     (if co_buffering c then ((length data, None), c\<lparr>co_sendBuf := co_sendBuf c @ data\<rparr>)
      else let ((n, err), st) = te_write E data (co_net c)
           in ((n, err), c\<lparr>co_net := st, co_bytesSent := i64 (co_bytesSent c + int n)\<rparr>))"

definition conn_flush :: "'n tls_env \<Rightarrow> 'n tls_conn \<Rightarrow> (nat \<times> tls_err option) \<times> 'n tls_conn" where
  "conn_flush E c =
     (if length (co_sendBuf c) = 0 then ((0, None), c)
      else let ((n, err), st) = te_write E (co_sendBuf c) (co_net c)
           in ((n, err), c\<lparr>co_net := st, co_bytesSent := i64 (co_bytesSent c + int n), co_sendBuf := [], co_buffering := False\<rparr>))"

text \<open>The explicit initial vector: the sequence number, or random bytes.\<close>

definition make_iv :: "'n tls_env \<Rightarrow> nat \<Rightarrow> bool \<Rightarrow> 'n tls_conn \<Rightarrow> (byte list + tls_err) \<times> 'n tls_conn" where
  "make_iv E e isSeq c =
     (if e = 0 then (Inl [], c)
      else if isSeq then (Inl (take e (hc_seq (co_out c))), c)
      else let (r, st) = te_rand E e (co_net c) in (r, c\<lparr>co_net := st\<rparr>))"

text \<open>
  The loop of \<open>writeRecordLocked\<close>. With no room for payload it would slice out of range or spin:
  \<^term>\<open>None\<close>.
\<close>

function write_records :: "'n tls_env \<Rightarrow> byte \<Rightarrow> byte list \<Rightarrow> nat \<Rightarrow> 'n tls_conn \<Rightarrow> ((nat \<times> tls_err option) \<times> 'n tls_conn) option" where
  "write_records E typ data n c =
     (if data = [] then Some ((n, None), c)
      else let (e, isSeq) = explicit_iv (co_out c);
               (maxPayload, c1) = maxPayloadSizeForWrite typ e c;
               m = (if int (length data) > maxPayload then maxPayload else int (length data))
           in if m \<le> 0 then None
              else let m = nat m;
                       vers = (if co_vers c1 = 0 then VersionTLS10 else co_vers c1);
                       header = typ # w16 vers @ be16 m
                   in case make_iv E e isSeq c1 of
                        (Inr err, c2) \<Rightarrow> Some ((n, Some err), c2)
                      | (Inl iv, c2) \<Rightarrow>
                          (case encrypt (co_out c2) e (header @ iv @ take m data) of
                             None \<Rightarrow> None
                           | Some (rec, out) \<Rightarrow>
                               (case conn_write E rec (c2\<lparr>co_out := out\<rparr>) of
                                  ((_, Some err), c3) \<Rightarrow> Some ((n, Some err), c3)
                                | ((_, None), c3) \<Rightarrow> write_records E typ (drop m data) (n + m) c3)))"
  by pat_completeness auto
termination by (relation "measure (\<lambda>(E, typ, data, n, c). length data)") auto

declare write_records.simps [simp del]

definition sendAlertLocked :: "'n tls_env \<Rightarrow> alert \<Rightarrow> 'n tls_conn \<Rightarrow> (tls_err option \<times> 'n tls_conn) option" where
  "sendAlertLocked E err c = do {
     let level = (if err = alertNoRenegotiation \<or> err = alertCloseNotify then alertLevelWarning else alertLevelError);
     ((_, writeErr), c) \<leftarrow> write_records E recordTypeAlert [level, err] 0 c;
     if err = alertCloseNotify then Some (writeErr, c)
     else Some (Some (Local_Error err), set_out_err (Some (Local_Error err)) c) }"

definition writeRecordLocked :: "'n tls_env \<Rightarrow> byte \<Rightarrow> byte list \<Rightarrow> 'n tls_conn \<Rightarrow> ((nat \<times> tls_err option) \<times> 'n tls_conn) option" where
  "writeRecordLocked E typ data c = do {
     ((n, err), c) \<leftarrow> write_records E typ data 0 c;
     if err \<noteq> None then Some ((n, err), c)
     else if typ = recordTypeChangeCipherSpec then
       (case changeCipherSpec (co_out c) of
          (None, out) \<Rightarrow> Some ((n, None), c\<lparr>co_out := out\<rparr>)
        | (Some al, out) \<Rightarrow> map_option (\<lambda>(e, c). ((n, e), c)) (sendAlertLocked E al (c\<lparr>co_out := out\<rparr>)))
     else Some ((n, None), c) }"

section \<open>Reading records\<close>

partial_function (option) readFromUntil :: "'n tls_env \<Rightarrow> nat \<Rightarrow> byte list \<Rightarrow> 'n \<Rightarrow> (tls_err option \<times> byte list \<times> 'n) option" where
  "readFromUntil E n data st =
     (if length data \<ge> n then Some (None, data, st)
      else case te_read E st of ((m, err), st') \<Rightarrow>
        (let data' = data @ m
         in if length data' \<ge> n then Some (if err = Some Tls_EOF then None else err, data', st')
            else if err \<noteq> None then Some (err, data', st')
            else readFromUntil E n data' st'))"

text \<open>Sending an alert and keeping an error of its own, or the result of sending it.\<close>

definition refuse :: "'n tls_env \<Rightarrow> alert \<Rightarrow> tls_err \<Rightarrow> 'n tls_conn \<Rightarrow> (tls_err option \<times> 'n tls_conn) option" where
  "refuse E al e c = do { (_, c) \<leftarrow> sendAlertLocked E al c; Some (Some e, set_in_err (Some e) c) }"

definition alert_in :: "'n tls_env \<Rightarrow> alert \<Rightarrow> 'n tls_conn \<Rightarrow> (tls_err option \<times> 'n tls_conn) option" where
  "alert_in E al c = do { (e, c) \<leftarrow> sendAlertLocked E al c; Some (e, set_in_err e c) }"

text \<open>The checks on the five header bytes: the alert to send, if any.\<close>

definition check_record_header :: "byte \<Rightarrow> 'n tls_conn \<Rightarrow> byte list \<Rightarrow> alert option" where
  "check_record_header want c data =
     (let typ = data ! 0; vers = of_nat (get16 (data ! 1) (data ! 2)) :: u16; n = get16 (data ! 3) (data ! 4)
      in if want = recordTypeHandshake \<and> typ = 0x80 then Some alertProtocolVersion
         else if co_haveVers c \<and> vers \<noteq> co_vers c then Some alertProtocolVersion
         else if n > maxCiphertext then Some alertRecordOverflow
         else if \<not> co_haveVers c \<and> ((typ \<noteq> recordTypeAlert \<and> typ \<noteq> want) \<or> vers \<ge> 0x1000) then Some alertUnexpectedMessage
         else None)"

definition keep_error :: "tls_err \<Rightarrow> 'n tls_conn \<Rightarrow> 'n tls_conn" where
  "keep_error e c = (if is_temporary e then c else set_in_err (Some e) c)"

text \<open>The branches of the record types; the result says whether to read \<open>Again\<close>.\<close>

definition process_alert :: "'n tls_env \<Rightarrow> byte list \<Rightarrow> 'n tls_conn \<Rightarrow> ((bool \<times> tls_err option) \<times> 'n tls_conn) option" where
  "process_alert E data c =
     (let finish = (\<lambda>c. Some ((False, hc_err (co_in c)), c))
      in if length data \<noteq> 2 then do { (_, c) \<leftarrow> alert_in E alertUnexpectedMessage c; finish c }
         else if data ! 1 = alertCloseNotify then finish (set_in_err (Some Tls_EOF) c)
         else if data ! 0 = alertLevelWarning then
           (let c = c\<lparr>co_warnCount := co_warnCount c + 1\<rparr>
            in if co_warnCount c > maxWarnAlertCount
               then do { (e, c) \<leftarrow> refuse E alertUnexpectedMessage Too_Many_Warnings c; Some ((False, e), c) }
               else Some ((True, None), c))
         else if data ! 0 = alertLevelError then finish (set_in_err (Some (Remote_Error (data ! 1))) c)
         else do { (_, c) \<leftarrow> alert_in E alertUnexpectedMessage c; finish c })"

definition process_record ::
  "'n tls_env \<Rightarrow> byte \<Rightarrow> byte \<Rightarrow> byte list \<Rightarrow> nat \<Rightarrow> 'n tls_conn \<Rightarrow> ((bool \<times> tls_err option) \<times> 'n tls_conn) option" where
  "process_record E want typ b off c =
     (let data = drop off b; finish = (\<lambda>c. Some ((False, hc_err (co_in c)), c))
      in if typ = recordTypeAlert then process_alert E data c
         else if typ = recordTypeChangeCipherSpec then
           (if typ \<noteq> want \<or> length data \<noteq> 1 \<or> data ! 0 \<noteq> 1 \<or> length (co_hand c) > 0
            then do { (_, c) \<leftarrow> alert_in E alertUnexpectedMessage c; finish c }
            else case changeCipherSpec (co_in c) of
                (None, hc) \<Rightarrow> finish (c\<lparr>co_in := hc\<rparr>)
              | (Some al, hc) \<Rightarrow> do { (_, c) \<leftarrow> alert_in E al (c\<lparr>co_in := hc\<rparr>); finish c })
         else if typ = recordTypeApplicationData then
           (if typ \<noteq> want then do { (_, c) \<leftarrow> alert_in E alertUnexpectedMessage c; finish c }
            else finish (c\<lparr>co_input := Some (b, off)\<rparr>))
         else if typ = recordTypeHandshake then
           (if typ \<noteq> want \<and> \<not> (co_isClient c \<and> co_Renegotiation c \<noteq> RenegotiateNever)
            then do { (e, c) \<leftarrow> alert_in E alertNoRenegotiation c; Some ((False, e), c) }
            else finish (c\<lparr>co_hand := co_hand c @ data\<rparr>))
         else do { (_, c) \<leftarrow> alert_in E alertUnexpectedMessage c; finish c })"

definition read_body :: "'n tls_env \<Rightarrow> byte \<Rightarrow> byte list \<Rightarrow> 'n tls_conn \<Rightarrow> ((bool \<times> tls_err option) \<times> 'n tls_conn) option" where
  "read_body E want raw c = do {
     let typ = raw ! 0;
     let n = get16 (raw ! 3) (raw ! 4);
     (err, raw, st) \<leftarrow> readFromUntil E (recordHeaderLen + n) raw (co_net c);
     let c = c\<lparr>co_net := st, co_rawInput := Some raw\<rparr>;
     case err of
       Some e \<Rightarrow> let e = (if e = Tls_EOF then Tls_UnexpectedEOF else e) in Some ((False, Some e), keep_error e c)
     | None \<Rightarrow> do {
         let c = c\<lparr>co_rawInput := (if length raw \<le> recordHeaderLen + n then None else Some (drop (recordHeaderLen + n) raw))\<rparr>;
         ((ok, off, al), b, hc) \<leftarrow> decrypt (co_in c) (take (recordHeaderLen + n) raw);
         let c = c\<lparr>co_in := hc\<rparr>;
         if \<not> ok then do { (e, c) \<leftarrow> alert_in E al c; Some ((False, e), c) }
         else if length (drop off b) > maxPlaintext then do { (e, c) \<leftarrow> alert_in E alertRecordOverflow c; Some ((False, e), c) }
         else process_record E want typ b off
                (if typ \<noteq> recordTypeAlert \<and> length (drop off b) > 0 then c\<lparr>co_warnCount := 0\<rparr> else c) } }"

definition read_record_once :: "'n tls_env \<Rightarrow> byte \<Rightarrow> 'n tls_conn \<Rightarrow> ((bool \<times> tls_err option) \<times> 'n tls_conn) option" where
  "read_record_once E want c = do {
     (err, raw, st) \<leftarrow> readFromUntil E recordHeaderLen (case co_rawInput c of None \<Rightarrow> [] | Some d \<Rightarrow> d) (co_net c);
     let c = c\<lparr>co_net := st, co_rawInput := Some raw\<rparr>;
     case err of
       Some e \<Rightarrow> Some ((False, Some e), keep_error e c)
     | None \<Rightarrow> (case check_record_header want c raw of
         Some al \<Rightarrow> do { (e, c) \<leftarrow> refuse E al (Record_Header_Error (take recordHeaderLen raw)) c; Some ((False, e), c) }
       | None \<Rightarrow> read_body E want raw c) }"

partial_function (option) read_again :: "'n tls_env \<Rightarrow> byte \<Rightarrow> 'n tls_conn \<Rightarrow> (tls_err option \<times> 'n tls_conn) option" where
  "read_again E want c = do {
     ((again, err), c') \<leftarrow> read_record_once E want c;
     if again then read_again E want c' else Some (err, c') }"

definition readRecord :: "'n tls_env \<Rightarrow> byte \<Rightarrow> 'n tls_conn \<Rightarrow> (tls_err option \<times> 'n tls_conn) option" where
  "readRecord E want c =
     (if want = recordTypeHandshake \<or> want = recordTypeChangeCipherSpec then
        (if co_handshakeStatus c then refuse E alertInternalError Wrong_Phase c else read_again E want c)
      else if want = recordTypeApplicationData then
        (if \<not> co_handshakeStatus c then refuse E alertInternalError Wrong_Phase c else read_again E want c)
      else refuse E alertInternalError Unknown_Record_Wanted c)"

section \<open>Handshake messages\<close>

datatype handshake_msg =
  Hello_Request
| Client_Hello client_hello
| Server_Hello server_hello
| New_Session_Ticket new_session_ticket_msg
| Certificate_Msg certificate_msg
| Certificate_Request certificate_request_msg
| Certificate_Request_GM certificate_request_gm
| Certificate_Status certificate_status_msg
| Server_Key_Exchange opaque_msg
| Server_Hello_Done
| Client_Key_Exchange opaque_msg
| Certificate_Verify certificate_verify_msg
| Next_Protocol next_proto_msg
| Finished opaque_msg

definition as_msg :: "('m \<Rightarrow> handshake_msg) \<Rightarrow> 'm parse \<Rightarrow> handshake_msg parse" where
  "as_msg f p = on_accept p (\<lambda>m. Accept (f m))"

text \<open>The \<open>switch\<close> on the message type with the call of \<open>unmarshal\<close>; an unknown type is refused alike.\<close>

definition parse_handshake :: "bool \<Rightarrow> u16 \<Rightarrow> byte list \<Rightarrow> handshake_msg parse" where
  "parse_handshake gm vers data =
     (let t = data ! 0
      in if t = typeHelloRequest then (if helloRequest_unmarshal data then Accept Hello_Request else Reject)
         else if t = typeClientHello then as_msg Client_Hello (clientHello_unmarshal empty_client_hello data)
         else if t = typeServerHello then as_msg Server_Hello (serverHello_unmarshal empty_server_hello data)
         else if t = typeNewSessionTicket then as_msg New_Session_Ticket (newSessionTicket_unmarshal \<lparr>st_raw = None, st_ticket = []\<rparr> data)
         else if t = typeCertificate then as_msg Certificate_Msg (certificate_unmarshal \<lparr>cert_raw = None, cert_certificates = []\<rparr> data)
         else if t = typeCertificateRequest then
           (if gm then as_msg Certificate_Request_GM (certificateRequestGM_unmarshal
                \<lparr>cg_raw = None, cg_certificateTypes = [], cg_certificateAuthorities = []\<rparr> data)
            else as_msg Certificate_Request (certificateRequest_unmarshal
                \<lparr>cr_raw = None, cr_hasSignatureAndHash = (vers \<ge> VersionTLS12), cr_certificateTypes = [],
                 cr_supportedSignatureAlgorithms = [], cr_certificateAuthorities = []\<rparr> data))
         else if t = typeCertificateStatus then as_msg Certificate_Status
           (certificateStatus_unmarshal \<lparr>cst_raw = None, cst_statusType = 0, cst_response = []\<rparr> data)
         else if t = typeServerKeyExchange then as_msg Server_Key_Exchange (serverKeyExchange_unmarshal \<lparr>op_raw = None, op_data = []\<rparr> data)
         else if t = typeServerHelloDone then (if serverHelloDone_unmarshal data then Accept Server_Hello_Done else Reject)
         else if t = typeClientKeyExchange then as_msg Client_Key_Exchange (clientKeyExchange_unmarshal \<lparr>op_raw = None, op_data = []\<rparr> data)
         else if t = typeCertificateVerify then as_msg Certificate_Verify (certificateVerify_unmarshal
             \<lparr>cv_raw = None, cv_hasSignatureAndHash = (vers \<ge> VersionTLS12), cv_signatureAlgorithm = 0, cv_signature = []\<rparr> data)
         else if t = typeNextProtocol then as_msg Next_Protocol (nextProto_unmarshal \<lparr>np_raw = None, np_proto = []\<rparr> data)
         else if t = typeFinished then as_msg Finished (finished_unmarshal \<lparr>op_raw = None, op_data = []\<rparr> data)
         else Reject)"

partial_function (option) fill_hand :: "'n tls_env \<Rightarrow> nat \<Rightarrow> 'n tls_conn \<Rightarrow> (tls_err option \<times> 'n tls_conn) option" where
  "fill_hand E n c =
     (if length (co_hand c) \<ge> n then Some (None, c)
      else case hc_err (co_in c) of
        Some e \<Rightarrow> Some (Some e, c)
      | None \<Rightarrow> do {
          (err, c') \<leftarrow> readRecord E recordTypeHandshake c;
          if err \<noteq> None then Some (err, c') else fill_hand E n c' })"

definition readHandshake :: "'n tls_env \<Rightarrow> 'n tls_conn \<Rightarrow> ((handshake_msg + tls_err option) \<times> 'n tls_conn) option" where
  "readHandshake E c = do {
     (err, c) \<leftarrow> fill_hand E 4 c;
     if err \<noteq> None then Some (Inr err, c)
     else do {
       let n = get24 (co_hand c ! 1) (co_hand c ! 2) (co_hand c ! 3);
       if n > maxHandshake then do { (e, c) \<leftarrow> refuse E alertInternalError Message_Too_Long c; Some (Inr e, c) }
       else do {
         (err, c) \<leftarrow> fill_hand E (4 + n) c;
         if err \<noteq> None then Some (Inr err, c)
         else do {
           let data = take (4 + n) (co_hand c);
           let c = c\<lparr>co_hand := drop (4 + n) (co_hand c)\<rparr>;
           case parse_handshake (co_GMSupport c \<noteq> None) (co_vers c) data of
             Panic \<Rightarrow> None
           | Accept m \<Rightarrow> Some (Inl m, c)
           | Reject \<Rightarrow> do { (e, c) \<leftarrow> alert_in E alertUnexpectedMessage c; Some (Inr e, c) } } } } }"

section \<open>The connection\<close>

definition Handshake :: "'n tls_env \<Rightarrow> 'n tls_conn \<Rightarrow> (tls_err option \<times> 'n tls_conn) option" where
  "Handshake E c =
     (if co_handshakeErr c \<noteq> None then Some (co_handshakeErr c, c)
      else if co_handshakeStatus c then Some (None, c)
      else do {
        let kind = (if co_isClient c then Client_Handshake
                    else case co_GMSupport c of None \<Rightarrow> Server_Handshake
                    | Some auto \<Rightarrow> if auto then Server_Handshake_Auto_Switch else Server_Handshake_GM);
        (err, c) \<leftarrow> te_handshake E kind c;
        let c = c\<lparr>co_handshakeErr := err\<rparr>;
        let c = (if err = None then c\<lparr>co_handshakes := co_handshakes c + 1\<rparr> else snd (conn_flush E c));
        if err = None \<and> \<not> co_handshakeStatus c then None else Some (err, c) })"

definition closeNotify :: "'n tls_env \<Rightarrow> 'n tls_conn \<Rightarrow> (tls_err option \<times> 'n tls_conn) option" where
  "closeNotify E c =
     (if co_closeNotifySent c then Some (co_closeNotifyErr c, c)
      else do {
        (e, c) \<leftarrow> sendAlertLocked E alertCloseNotify c;
        Some (e, c\<lparr>co_closeNotifyErr := e, co_closeNotifySent := True\<rparr>) })"

definition CloseWrite :: "'n tls_env \<Rightarrow> 'n tls_conn \<Rightarrow> (tls_err option \<times> 'n tls_conn) option" where
  "CloseWrite E c = (if \<not> co_handshakeStatus c then Some (Some Early_CloseWrite, c) else closeNotify E c)"

text \<open>Bit 0 of \<open>activeCall\<close> says that \<open>Close\<close> was called, the rest counts the writes in flight.\<close>

definition conn_Close :: "'n tls_env \<Rightarrow> 'n tls_conn \<Rightarrow> (tls_err option \<times> 'n tls_conn) option" where
  "conn_Close E c =
     (let x = co_activeCall c; close = (\<lambda>c. let (e, st) = te_close E (co_net c) in (e, c\<lparr>co_net := st\<rparr>))
      in if odd x then Some (Some Conn_Closed, c)
         else let c = c\<lparr>co_activeCall := x + 1\<rparr>
              in if x \<noteq> 0 then Some (close c)
                 else do {
                   (alertErr, c) \<leftarrow> (if co_handshakeStatus c then closeNotify E c else Some (None, c));
                   case close c of (Some e, c) \<Rightarrow> Some (Some e, c) | (None, c) \<Rightarrow> Some (alertErr, c) })"

definition is_block_mode :: "cipher option \<Rightarrow> bool" where
  "is_block_mode co = (case co of Some (CBC_Encrypter _ _ _) \<Rightarrow> True | Some (CBC_Decrypter _ _ _) \<Rightarrow> True | _ \<Rightarrow> False)"

definition write_locked :: "'n tls_env \<Rightarrow> byte list \<Rightarrow> 'n tls_conn \<Rightarrow> ((nat \<times> tls_err option) \<times> 'n tls_conn) option" where
  "write_locked E b c =
     (if hc_err (co_out c) \<noteq> None then Some ((0, hc_err (co_out c)), c)
      else if \<not> co_handshakeStatus c then Some ((0, Some (Alert_Error alertInternalError)), c)
      else if co_closeNotifySent c then Some ((0, Some Protocol_Shutdown), c)
      else do {
        ((m, err, b), c) \<leftarrow> (if length b > 1 \<and> co_vers c \<le> VersionTLS10 \<and> is_block_mode (hc_cipher (co_out c))
           then do { ((n, err), c) \<leftarrow> writeRecordLocked E recordTypeApplicationData (take 1 b) c;
                     Some (if err \<noteq> None then (n, err, b) else (1, None, drop 1 b), c) }
           else Some ((0, None, b), c));
        if err \<noteq> None then Some ((m, err), set_out_err err c)
        else do {
          ((n, err), c) \<leftarrow> writeRecordLocked E recordTypeApplicationData b c;
          Some ((n + m, err), set_out_err err c) } })"

definition conn_Write :: "'n tls_env \<Rightarrow> byte list \<Rightarrow> 'n tls_conn \<Rightarrow> ((nat \<times> tls_err option) \<times> 'n tls_conn) option" where
  "conn_Write E b c =
     (let x = co_activeCall c
      in if odd x then Some ((0, Some Conn_Closed), c)
         else do {
           (herr, c) \<leftarrow> Handshake E (c\<lparr>co_activeCall := x + 2\<rparr>);
           (r, c) \<leftarrow> (if herr \<noteq> None then Some ((0, herr), c) else write_locked E b c);
           Some (r, c\<lparr>co_activeCall := co_activeCall c - 2\<rparr>) })"

definition handleRenegotiation :: "'n tls_env \<Rightarrow> 'n tls_conn \<Rightarrow> (tls_err option \<times> 'n tls_conn) option" where
  "handleRenegotiation E c = do {
     (r, c) \<leftarrow> readHandshake E c;
     case r of
       Inr e \<Rightarrow> Some (e, c)
     | Inl msg \<Rightarrow>
         if msg \<noteq> Hello_Request then do { (_, c) \<leftarrow> sendAlertLocked E alertUnexpectedMessage c; Some (Some (Alert_Error alertUnexpectedMessage), c) }
         else if \<not> co_isClient c then sendAlertLocked E alertNoRenegotiation c
         else if co_Renegotiation c = RenegotiateNever \<or> (co_Renegotiation c = RenegotiateOnceAsClient \<and> co_handshakes c > 1)
           then sendAlertLocked E alertNoRenegotiation c
         else if co_Renegotiation c = Renegotiate_Unknown
           then do { (_, c) \<leftarrow> sendAlertLocked E alertInternalError c; Some (Some (Other_Error 0), c) }
         else do {
           (err, c) \<leftarrow> te_handshake E Client_Handshake (c\<lparr>co_handshakeStatus := False\<rparr>);
           Some (err, c\<lparr>co_handshakeErr := err, co_handshakes := (if err = None then co_handshakes c + 1 else co_handshakes c)\<rparr>) } }"

text \<open>Reading until there is application data or a lasting error.\<close>

partial_function (option) fill_input :: "'n tls_env \<Rightarrow> 'n tls_conn \<Rightarrow> (tls_err option \<times> 'n tls_conn) option" where
  "fill_input E c =
     (if co_input c = None \<and> hc_err (co_in c) = None then do {
        (err, c') \<leftarrow> readRecord E recordTypeApplicationData c;
        if err \<noteq> None then Some (err, c')
        else if length (co_hand c') > 0 then do {
          (err, c'') \<leftarrow> handleRenegotiation E c';
          if err \<noteq> None then Some (err, c'') else fill_input E c'' }
        else fill_input E c' }
      else Some (None, c))"

text \<open>Copying out of the current record, and looking at once at a close-notify that already waits behind it.\<close>

definition take_input :: "nat \<Rightarrow> 'n tls_conn \<Rightarrow> (byte list \<times> 'n tls_conn) option" where
  "take_input len c =
     (case co_input c of
        None \<Rightarrow> None
      | Some (data, off) \<Rightarrow>
          let bs = take len (drop off data); off = off + length bs
          in Some (bs, c\<lparr>co_input := (if off \<ge> length data then None else Some (data, off))\<rparr>))"

definition read_waiting_alert :: "'n tls_env \<Rightarrow> byte list \<Rightarrow> 'n tls_conn \<Rightarrow> (tls_err option \<times> 'n tls_conn) option" where
  "read_waiting_alert E bs c =
     (case co_rawInput c of
        Some ri \<Rightarrow> (if bs \<noteq> [] \<and> co_input c = None \<and> length ri > 0 \<and> ri ! 0 = recordTypeAlert
                    then readRecord E recordTypeApplicationData c else Some (None, c))
      | None \<Rightarrow> Some (None, c))"

text \<open>The loop in \<open>Read\<close>; \<open>k\<close> passes are left.\<close>

fun read_turns :: "'n tls_env \<Rightarrow> nat \<Rightarrow> nat \<Rightarrow> 'n tls_conn \<Rightarrow> ((byte list \<times> tls_err option) \<times> 'n tls_conn) option" where
  "read_turns E len 0 c = Some (([], Some No_Progress), c)"
| "read_turns E len (Suc k) c = do {
     (err, c) \<leftarrow> fill_input E c;
     if err \<noteq> None then Some (([], err), c)
     else if hc_err (co_in c) \<noteq> None then Some (([], hc_err (co_in c)), c)
     else do {
       (bs, c) \<leftarrow> take_input len c;
       (err, c) \<leftarrow> read_waiting_alert E bs c;
       if bs \<noteq> [] \<or> err \<noteq> None then Some ((bs, err), c) else read_turns E len k c } }"

definition conn_Read :: "'n tls_env \<Rightarrow> nat \<Rightarrow> 'n tls_conn \<Rightarrow> ((byte list \<times> tls_err option) \<times> 'n tls_conn) option" where
  "conn_Read E len c = do {
     (herr, c) \<leftarrow> Handshake E c;
     if herr \<noteq> None then Some (([], herr), c)
     else if len = 0 then Some (([], None), c)
     else read_turns E len 101 c }"

end
