(* ===== verification/Tls_Program.thy ===== *)
theory Tls_Program
  imports Tls_Conn
begin

text \<open>
  A handshake as a program: the calls it makes on its connection (\<^verbatim>\<open>zgmtls/conn.go\<close>) and on its
  random source, each with a continuation that takes the answer. \<open>replay\<close> is a program against
  any environment, as the list of its calls with their answers; \<open>run_program\<close> runs it on the
  connection of \<open>Tls_Conn\<close>, and every such run is a replay (\<open>run_program_replays\<close>).
\<close>

section \<open>Programs\<close>

text \<open>
  \<open>Read_Handshake\<close> answers a message, which may be nil, or an error. \<open>Read_Record\<close> answers the error
  that \<open>readRecord\<close> returns and the error that the receiving half holds afterwards. \<open>Coins\<close> are the
  random bytes that a library function draws by itself. \<open>Crash\<close> is a panic.
\<close>

datatype 'r program =
  Return 'r
| Crash
| Write_Record byte "byte list" "tls_err option \<Rightarrow> 'r program"
| Read_Handshake "handshake_msg option + tls_err \<Rightarrow> 'r program"
| Read_Record byte "tls_err option \<times> tls_err option \<Rightarrow> 'r program"
| Send_Alert alert "'r program"
| Flush "tls_err option \<Rightarrow> 'r program"
| Set_Buffering "'r program"
| Read_Rand nat "byte list + tls_err \<Rightarrow> 'r program"
| Coins "byte list \<Rightarrow> 'r program"
| Set_Version u16 bool "'r program"
| Prepare_Spec bool u16 cipher "mac option" "'r program"
| Set_Complete "'r program"

primrec bind_program :: "'a program \<Rightarrow> ('a \<Rightarrow> 'b program) \<Rightarrow> 'b program" where
  "bind_program (Return r) f = f r"
| "bind_program Crash f = Crash"
| "bind_program (Write_Record t d k) f = Write_Record t d (\<lambda>x. bind_program (k x) f)"
| "bind_program (Read_Handshake k) f = Read_Handshake (\<lambda>x. bind_program (k x) f)"
| "bind_program (Read_Record t k) f = Read_Record t (\<lambda>x. bind_program (k x) f)"
| "bind_program (Send_Alert a k) f = Send_Alert a (bind_program k f)"
| "bind_program (Flush k) f = Flush (\<lambda>x. bind_program (k x) f)"
| "bind_program (Set_Buffering k) f = Set_Buffering (bind_program k f)"
| "bind_program (Read_Rand n k) f = Read_Rand n (\<lambda>x. bind_program (k x) f)"
| "bind_program (Coins k) f = Coins (\<lambda>x. bind_program (k x) f)"
| "bind_program (Set_Version v h k) f = Set_Version v h (bind_program k f)"
| "bind_program (Prepare_Spec i v c m k) f = Prepare_Spec i v c m (bind_program k f)"
| "bind_program (Set_Complete k) f = Set_Complete (bind_program k f)"

lemma bind_Return [simp]: "bind_program p Return = p"
  by (induction p) auto

lemma bind_assoc: "bind_program (bind_program p f) g = bind_program p (\<lambda>x. bind_program (f x) g)"
  by (induction p) auto

text \<open>
  A call that returns an error ends its caller: \<open>p\<close>, then \<open>k\<close> on its result. \<open>panics_if_none\<close> runs a
  partial operation.
\<close>

definition and_then :: "('a + tls_err) program \<Rightarrow> ('a \<Rightarrow> ('b + tls_err) program) \<Rightarrow> ('b + tls_err) program" where
  "and_then p k = bind_program p (\<lambda>r. case r of Inl x \<Rightarrow> k x | Inr e \<Rightarrow> Return (Inr e))"

definition panics_if_none :: "'a option \<Rightarrow> ('a \<Rightarrow> 'b program) \<Rightarrow> 'b program" where
  "panics_if_none x k = (case x of None \<Rightarrow> Crash | Some y \<Rightarrow> k y)"

definition ok :: "'a \<Rightarrow> ('a + tls_err) program" where "ok x = Return (Inl x)"

definition fails :: "string \<Rightarrow> ('a + tls_err) program" where "fails s = Return (Inr (Text_Error s))"

text \<open>\<open>c.sendAlert(al)\<close>, whose result every handshake drops, and the return of an error.\<close>

definition alert_fails :: "alert \<Rightarrow> tls_err \<Rightarrow> ('a + tls_err) program" where
  "alert_fails al e = Send_Alert al (Return (Inr e))"

definition or_error :: "tls_err option \<Rightarrow> (unit + tls_err) program" where
  "or_error e = (case e of None \<Rightarrow> ok () | Some e \<Rightarrow> Return (Inr e))"

definition write_record :: "byte \<Rightarrow> byte list \<Rightarrow> (unit + tls_err) program" where
  "write_record t d = Write_Record t d or_error"

definition read_handshake :: "(handshake_msg option + tls_err) program" where
  "read_handshake = Read_Handshake Return"

definition flush :: "(unit + tls_err) program" where "flush = Flush or_error"

definition read_rand :: "nat \<Rightarrow> (byte list + tls_err) program" where "read_rand n = Read_Rand n Return"

lemmas program_simps = and_then_def panics_if_none_def ok_def fails_def alert_fails_def or_error_def write_record_def
  read_handshake_def flush_def read_rand_def

lemma and_then_simps [simp]:
  "and_then (Return (Inl x)) k = k x" "and_then (Return (Inr e)) k = Return (Inr e)" "and_then Crash k = Crash"
  "and_then (ok x) k = k x" "and_then (fails s) k = fails s" "and_then (alert_fails a e) k = alert_fails a e"
  by (simp_all add: program_simps)

lemma and_then_assoc: "and_then (and_then p f) g = and_then p (\<lambda>x. and_then (f x) g)"
  by (simp add: and_then_def bind_assoc) (rule arg_cong[of _ _ "bind_program p"], rule ext, simp split: sum.splits)

section \<open>A program and its environment\<close>

datatype event =
  Wrote byte "byte list" "tls_err option"
| Got "handshake_msg option + tls_err"
| Got_Record byte "tls_err option" "tls_err option"
| Alerted alert
| Flushed "tls_err option"
| Buffered
| Rand nat "byte list + tls_err"
| Coin "byte list"
| Versioned u16 bool
| Prepared bool u16 cipher "mac option"
| Completed

text \<open>\<open>replay es p = Some r\<close>: the program makes exactly the calls \<open>es\<close>, gets the answers in them and returns \<open>r\<close>.\<close>

definition step :: "event \<Rightarrow> 'r program \<Rightarrow> 'r program option" where
  "step e p =
     (case p of
        Write_Record t d k \<Rightarrow> (case e of Wrote t' d' r \<Rightarrow> if t = t' \<and> d = d' then Some (k r) else None | _ \<Rightarrow> None)
      | Read_Handshake k \<Rightarrow> (case e of Got m \<Rightarrow> Some (k m) | _ \<Rightarrow> None)
      | Read_Record t k \<Rightarrow> (case e of Got_Record t' r s \<Rightarrow> if t = t' then Some (k (r, s)) else None | _ \<Rightarrow> None)
      | Send_Alert a k \<Rightarrow> (case e of Alerted a' \<Rightarrow> if a = a' then Some k else None | _ \<Rightarrow> None)
      | Flush k \<Rightarrow> (case e of Flushed r \<Rightarrow> Some (k r) | _ \<Rightarrow> None)
      | Set_Buffering k \<Rightarrow> (case e of Buffered \<Rightarrow> Some k | _ \<Rightarrow> None)
      | Read_Rand n k \<Rightarrow> (case e of Rand n' r \<Rightarrow> if n = n' then Some (k r) else None | _ \<Rightarrow> None)
      | Coins k \<Rightarrow> (case e of Coin c \<Rightarrow> Some (k c) | _ \<Rightarrow> None)
      | Set_Version v h k \<Rightarrow> (case e of Versioned v' h' \<Rightarrow> if v = v' \<and> h = h' then Some k else None | _ \<Rightarrow> None)
      | Prepare_Spec i v c m k \<Rightarrow>
          (case e of Prepared i' v' c' m' \<Rightarrow> if i = i' \<and> v = v' \<and> c = c' \<and> m = m' then Some k else None | _ \<Rightarrow> None)
      | Set_Complete k \<Rightarrow> (case e of Completed \<Rightarrow> Some k | _ \<Rightarrow> None)
      | _ \<Rightarrow> None)"

fun replay :: "event list \<Rightarrow> 'r program \<Rightarrow> 'r option" where
  "replay [] (Return r) = Some r"
| "replay [] p = None"
| "replay (e # es) p = (case step e p of None \<Rightarrow> None | Some p' \<Rightarrow> replay es p')"

text \<open>The program makes the calls \<open>es\<close> and then panics.\<close>

fun replay_crash :: "event list \<Rightarrow> 'r program \<Rightarrow> bool" where
  "replay_crash [] p \<longleftrightarrow> (case p of Crash \<Rightarrow> True | _ \<Rightarrow> False)"
| "replay_crash (e # es) p \<longleftrightarrow> (case step e p of None \<Rightarrow> False | Some p' \<Rightarrow> replay_crash es p')"

lemma replay_Return [simp]: "replay es (Return r) = Some x \<longleftrightarrow> es = [] \<and> x = r"
  by (cases es) (auto simp: step_def)

lemma replay_Crash [simp]: "replay es Crash = None"
  by (cases es) (auto simp: step_def)

lemma replay_Nil_iff [simp]: "replay [] p = Some x \<longleftrightarrow> p = Return x"
  by (cases p) auto

lemma replay_step:
  "replay es (Write_Record t d k) = Some x \<longleftrightarrow> (\<exists>e es'. es = Wrote t d e # es' \<and> replay es' (k e) = Some x)"
  "replay es (Read_Handshake k') = Some x \<longleftrightarrow> (\<exists>m es'. es = Got m # es' \<and> replay es' (k' m) = Some x)"
  "replay es (Read_Record t k2) = Some x \<longleftrightarrow> (\<exists>e f es'. es = Got_Record t e f # es' \<and> replay es' (k2 (e, f)) = Some x)"
  "replay es (Send_Alert a p) = Some x \<longleftrightarrow> (\<exists>es'. es = Alerted a # es' \<and> replay es' p = Some x)"
  "replay es (Flush k) = Some x \<longleftrightarrow> (\<exists>e es'. es = Flushed e # es' \<and> replay es' (k e) = Some x)"
  "replay es (Set_Buffering p) = Some x \<longleftrightarrow> (\<exists>es'. es = Buffered # es' \<and> replay es' p = Some x)"
  "replay es (Read_Rand n k3) = Some x \<longleftrightarrow> (\<exists>r es'. es = Rand n r # es' \<and> replay es' (k3 r) = Some x)"
  "replay es (Coins k4) = Some x \<longleftrightarrow> (\<exists>c es'. es = Coin c # es' \<and> replay es' (k4 c) = Some x)"
  "replay es (Set_Version v h p) = Some x \<longleftrightarrow> (\<exists>es'. es = Versioned v h # es' \<and> replay es' p = Some x)"
  "replay es (Prepare_Spec i v c m p) = Some x \<longleftrightarrow> (\<exists>es'. es = Prepared i v c m # es' \<and> replay es' p = Some x)"
  "replay es (Set_Complete p) = Some x \<longleftrightarrow> (\<exists>es'. es = Completed # es' \<and> replay es' p = Some x)"
  by (cases es; simp add: step_def split: event.split; blast)+

lemma step_Return [simp]: "step e (Return r) = None" and step_Crash [simp]: "step e Crash = None"
  by (simp_all add: step_def)

lemma step_bind:
  "\<nexists>r. p = Return r \<Longrightarrow> step e (bind_program p f) = map_option (\<lambda>p'. bind_program p' f) (step e p)"
  by (cases p) (simp_all add: step_def split: event.split)

lemma bind_is_Return: "bind_program p f = Return x \<longleftrightarrow> (\<exists>r. p = Return r \<and> f r = Return x)"
  by (cases p) auto

text \<open>A replay of a sequence splits into one of the first program and one of the rest.\<close>

lemma replay_bind:
  "replay es (bind_program p f) = Some x \<longleftrightarrow> (\<exists>es1 es2 y. es = es1 @ es2 \<and> replay es1 p = Some y \<and> replay es2 (f y) = Some x)"
proof (induction es arbitrary: p)
  case Nil
  then show ?case by (auto simp: bind_is_Return)
next
  case (Cons e es)
  show ?case
  proof (cases "\<exists>r. p = Return r")
    case True
    then show ?thesis by auto
  next
    case False
    then have "step e (bind_program p f) = map_option (\<lambda>p'. bind_program p' f) (step e p)" by (rule step_bind)
    then have l: "replay (e # es) (bind_program p f) = Some x \<longleftrightarrow>
        (\<exists>p'. step e p = Some p' \<and> replay es (bind_program p' f) = Some x)"
      by (simp split: option.splits)
    have r: "(\<exists>es1 es2 y. e # es = es1 @ es2 \<and> replay es1 p = Some y \<and> replay es2 (f y) = Some x) \<longleftrightarrow>
        (\<exists>es1 es2 y p'. es = es1 @ es2 \<and> step e p = Some p' \<and> replay es1 p' = Some y \<and> replay es2 (f y) = Some x)"
      (is "?A \<longleftrightarrow> ?B")
    proof
      assume ?A
      then obtain es1 es2 y where h: "e # es = es1 @ es2" "replay es1 p = Some y" "replay es2 (f y) = Some x" by blast
      then obtain es1' where "es1 = e # es1'" using False by (cases es1) auto
      then show ?B using h by (auto split: option.splits)
    next
      assume ?B
      then obtain es1 es2 y p' where "es = es1 @ es2" "step e p = Some p'" "replay es1 p' = Some y" "replay es2 (f y) = Some x" by blast
      then show ?A by (intro exI[of _ "e # es1"] exI[of _ es2] exI[of _ y]) simp
    qed
    show ?thesis unfolding l r using Cons.IH by blast
  qed
qed

lemma replay_and_then:
  "replay es (and_then p k) = Some (Inl x) \<longleftrightarrow>
     (\<exists>es1 es2 y. es = es1 @ es2 \<and> replay es1 p = Some (Inl y) \<and> replay es2 (k y) = Some (Inl x))"
proof -
  have "replay es2 (case y of Inl x \<Rightarrow> k x | Inr e \<Rightarrow> Return (Inr e)) = Some (Inl x)
     \<longleftrightarrow> (\<exists>z. y = Inl z \<and> replay es2 (k z) = Some (Inl x))" for y es2
    by (cases y) auto
  then show ?thesis by (simp add: and_then_def replay_bind) (metis (no_types))
qed

section \<open>Running a program on a connection\<close>

text \<open>\<open>coins\<close> is the part of the environment that library functions draw their own random bytes from.\<close>

primrec run_program ::
  "'r program \<Rightarrow> ('n \<Rightarrow> byte list \<times> 'n) \<Rightarrow> 'n tls_env \<Rightarrow> 'n tls_conn \<Rightarrow> ('r \<times> 'n tls_conn) option" where
  "run_program (Return r) coins E c = Some (r, c)"
| "run_program Crash coins E c = None"
| "run_program (Write_Record t d k) coins E c = do {
     ((n, err), c) \<leftarrow> writeRecordLocked E t d c;
     run_program (k err) coins E c }"
| "run_program (Read_Handshake k) coins E c = do {
     (r, c) \<leftarrow> readHandshake E c;
     run_program (k (case r of Inl m \<Rightarrow> Inl (Some m) | Inr None \<Rightarrow> Inl None | Inr (Some e) \<Rightarrow> Inr e)) coins E c }"
| "run_program (Read_Record t k) coins E c = do {
     (err, c) \<leftarrow> readRecord E t c;
     run_program (k (err, hc_err (co_in c))) coins E c }"
| "run_program (Send_Alert a k) coins E c = do {
     (_, c) \<leftarrow> sendAlertLocked E a c;
     run_program k coins E c }"
| "run_program (Flush k) coins E c = (let ((n, err), c) = conn_flush E c in run_program (k err) coins E c)"
| "run_program (Set_Buffering k) coins E c = run_program k coins E (c\<lparr>co_buffering := True\<rparr>)"
| "run_program (Read_Rand n k) coins E c = (let (r, st) = te_rand E n (co_net c) in run_program (k r) coins E (c\<lparr>co_net := st\<rparr>))"
| "run_program (Coins k) coins E c = (let (r, st) = coins (co_net c) in run_program (k r) coins E (c\<lparr>co_net := st\<rparr>))"
| "run_program (Set_Version v h k) coins E c = run_program k coins E (c\<lparr>co_vers := v, co_haveVers := h\<rparr>)"
| "run_program (Prepare_Spec isIn v cp m k) coins E c =
     run_program k coins E
       (if isIn then c\<lparr>co_in := prepareCipherSpec v (Some cp) m (co_in c)\<rparr>
        else c\<lparr>co_out := prepareCipherSpec v (Some cp) m (co_out c)\<rparr>)"
| "run_program (Set_Complete k) coins E c = run_program k coins E (c\<lparr>co_handshakeStatus := True\<rparr>)"

lemma run_program_replays:
  "run_program p coins E c = Some (r, c') \<Longrightarrow> \<exists>es. replay es p = Some r"
proof (induction p arbitrary: c)
  case (Return x)
  then show ?case by auto
next
  case Crash
  then show ?case by simp
next
  case (Write_Record t d k)
  then obtain x c1 where "run_program (k x) coins E c1 = Some (r, c')" by (auto split: bind_splits prod.splits)
  from Write_Record.IH[OF rangeI this] show ?case unfolding replay_step by blast
next
  case (Read_Handshake k)
  then obtain x c1 where "run_program (k x) coins E c1 = Some (r, c')" by (auto split: bind_splits prod.splits)
  from Read_Handshake.IH[OF rangeI this] show ?case unfolding replay_step by blast
next
  case (Read_Record t k)
  then obtain x y c1 where "run_program (k (x, y)) coins E c1 = Some (r, c')" by (auto split: bind_splits prod.splits)
  from Read_Record.IH[OF rangeI this] show ?case unfolding replay_step by blast
next
  case (Flush k)
  then obtain x c1 where "run_program (k x) coins E c1 = Some (r, c')" by (auto split: bind_splits prod.splits)
  from Flush.IH[OF rangeI this] show ?case unfolding replay_step by blast
next
  case (Read_Rand n k)
  then obtain x c1 where "run_program (k x) coins E c1 = Some (r, c')" by (auto split: bind_splits prod.splits)
  from Read_Rand.IH[OF rangeI this] show ?case unfolding replay_step by blast
next
  case (Coins k)
  then obtain x c1 where "run_program (k x) coins E c1 = Some (r, c')" by (auto split: bind_splits prod.splits)
  from Coins.IH[OF rangeI this] show ?case unfolding replay_step by blast
next
  case (Send_Alert a p)
  then obtain c1 where "run_program p coins E c1 = Some (r, c')" by (auto split: bind_splits if_splits)
  then show ?case using Send_Alert.IH unfolding replay_step by blast
next
  case (Set_Buffering p)
  then obtain c1 where "run_program p coins E c1 = Some (r, c')" by (auto split: bind_splits if_splits)
  then show ?case using Set_Buffering.IH unfolding replay_step by blast
next
  case (Set_Version v h p)
  then obtain c1 where "run_program p coins E c1 = Some (r, c')" by (auto split: bind_splits if_splits)
  then show ?case using Set_Version.IH unfolding replay_step by blast
next
  case (Prepare_Spec i v cp m p)
  then obtain c1 where "run_program p coins E c1 = Some (r, c')" by (auto split: bind_splits if_splits)
  then show ?case using Prepare_Spec.IH unfolding replay_step by blast
next
  case (Set_Complete p)
  then obtain c1 where "run_program p coins E c1 = Some (r, c')" by (auto split: bind_splits if_splits)
  then show ?case using Set_Complete.IH unfolding replay_step by blast
qed

end
