(* ===== verification/Tls_Suites.thy ===== *)
theory Tls_Suites
  imports Tls_Record
begin

text \<open>
  The cipher suites of \<^verbatim>\<open>zgmtls/cipher_suites.go\<close> and \<^verbatim>\<open>zgmtls/gm_support.go\<close>: what key lengths,
  ciphers and MACs each identifier stands for, and how the two sides look one up. Hashes, block
  functions, key streams and AEADs of the cryptographic libraries are parameters (\<open>hashes\<close>,
  \<open>primitives\<close>); HMAC is the construction that \<^verbatim>\<open>crypto/hmac\<close> documents over such a hash.
\<close>

section \<open>Hashes\<close>

record hash_fn =
  hf_size :: nat
  hf_block :: nat
  hf_sum :: "byte list \<Rightarrow> byte list"

text \<open>What every hash guarantees: digests of a fixed size that is not zero and fits in a block.\<close>

definition hash_ok :: "hash_fn \<Rightarrow> bool" where
  "hash_ok h \<longleftrightarrow> 0 < hf_size h \<and> hf_size h \<le> hf_block h \<and> (\<forall>x. length (hf_sum h x) = hf_size h)"

definition hmac_pad :: "hash_fn \<Rightarrow> byte \<Rightarrow> byte list \<Rightarrow> byte list" where
  "hmac_pad h p key =
     (let k = (if length key > hf_block h then hf_sum h key else key)
      in map (\<lambda>b. b XOR p) (k @ replicate (hf_block h - length k) 0))"

definition hmac :: "hash_fn \<Rightarrow> byte list \<Rightarrow> byte list \<Rightarrow> byte list" where
  "hmac h key msg = hf_sum h (hmac_pad h 0x5c key @ hf_sum h (hmac_pad h 0x36 key @ msg))"

lemma length_hmac [simp]: "hash_ok h \<Longrightarrow> length (hmac h key msg) = hf_size h"
  by (simp add: hash_ok_def hmac_def)

record hashes =
  h_md5 :: hash_fn
  h_sha1 :: hash_fn
  h_sha256 :: hash_fn
  h_sha384 :: hash_fn
  h_sha512 :: hash_fn
  h_sm3 :: hash_fn

definition hashes_ok :: "hashes \<Rightarrow> bool" where
  "hashes_ok H \<longleftrightarrow> hash_ok (h_md5 H) \<and> hash_ok (h_sha1 H) \<and> hash_ok (h_sha256 H) \<and> hash_ok (h_sha384 H)
     \<and> hash_ok (h_sha512 H) \<and> hash_ok (h_sm3 H)"

text \<open>The values of \<^verbatim>\<open>crypto.Hash\<close> in use; \<open>New\<close> panics for those without an implementation.\<close>

datatype hash_id = No_Hash | MD5SHA1 | SHA1 | SHA256 | SHA384 | SHA512

fun hash_New :: "hashes \<Rightarrow> hash_id \<Rightarrow> hash_fn option" where
  "hash_New H SHA1 = Some (h_sha1 H)"
| "hash_New H SHA256 = Some (h_sha256 H)"
| "hash_New H SHA384 = Some (h_sha384 H)"
| "hash_New H SHA512 = Some (h_sha512 H)"
| "hash_New H No_Hash = None"
| "hash_New H MD5SHA1 = None"

section \<open>Ciphers and MACs\<close>

record primitives =
  pr_rc4 :: "byte list \<Rightarrow> nat \<Rightarrow> byte"
  pr_3des_enc :: "byte list \<Rightarrow> byte list \<Rightarrow> byte list"
  pr_3des_dec :: "byte list \<Rightarrow> byte list \<Rightarrow> byte list"
  pr_aes_enc :: "byte list \<Rightarrow> byte list \<Rightarrow> byte list"
  pr_aes_dec :: "byte list \<Rightarrow> byte list \<Rightarrow> byte list"
  pr_sm4_enc :: "byte list \<Rightarrow> byte list \<Rightarrow> byte list"
  pr_sm4_dec :: "byte list \<Rightarrow> byte list \<Rightarrow> byte list"
  pr_gcm :: "byte list \<Rightarrow> aead_prim"
  pr_chacha :: "byte list \<Rightarrow> aead_prim"

text \<open>\<open>NewCBCEncrypter\<close> and \<open>NewCBCDecrypter\<close> panic on an initial vector that is not one block.\<close>

definition newCBC :: "(byte list \<Rightarrow> byte list) \<Rightarrow> (byte list \<Rightarrow> byte list) \<Rightarrow> nat \<Rightarrow> byte list \<Rightarrow> bool \<Rightarrow> cipher option" where
  "newCBC enc dec bs iv isRead =
     (if length iv \<noteq> bs then None else Some (if isRead then CBC_Decrypter dec bs iv else CBC_Encrypter enc bs iv))"

definition cipherRC4 :: "primitives \<Rightarrow> byte list \<Rightarrow> byte list \<Rightarrow> bool \<Rightarrow> cipher option" where
  "cipherRC4 P key iv isRead = Some (Stream_Cipher (pr_rc4 P key) 0)"

definition cipher3DES :: "primitives \<Rightarrow> byte list \<Rightarrow> byte list \<Rightarrow> bool \<Rightarrow> cipher option" where
  "cipher3DES P key iv isRead = newCBC (pr_3des_enc P key) (pr_3des_dec P key) 8 iv isRead"

definition cipherAES :: "primitives \<Rightarrow> byte list \<Rightarrow> byte list \<Rightarrow> bool \<Rightarrow> cipher option" where
  "cipherAES P key iv isRead = newCBC (pr_aes_enc P key) (pr_aes_dec P key) 16 iv isRead"

definition cipherSM4 :: "primitives \<Rightarrow> byte list \<Rightarrow> byte list \<Rightarrow> bool \<Rightarrow> cipher option" where
  "cipherSM4 P key iv isRead = newCBC (pr_sm4_enc P key) (pr_sm4_dec P key) 16 iv isRead"

definition macSHA1 :: "hashes \<Rightarrow> u16 \<Rightarrow> byte list \<Rightarrow> mac" where
  "macSHA1 H version key =
     (if version = VersionSSL30 then ssl30MAC (hf_size (h_sha1 H)) (hf_sum (h_sha1 H)) key
      else tls10MAC (hf_size (h_sha1 H)) (hmac (h_sha1 H) key))"

definition macSHA256 :: "hashes \<Rightarrow> u16 \<Rightarrow> byte list \<Rightarrow> mac" where
  "macSHA256 H version key = tls10MAC (hf_size (h_sha256 H)) (hmac (h_sha256 H) key)"

definition macSM3 :: "hashes \<Rightarrow> u16 \<Rightarrow> byte list \<Rightarrow> mac" where
  "macSM3 H version key = tls10MAC (hf_size (h_sm3 H)) (hmac (h_sm3 H) key)"

text \<open>The nonce and the mask are arrays of twelve bytes, at first zero.\<close>

definition aeadAESGCM :: "primitives \<Rightarrow> byte list \<Rightarrow> byte list \<Rightarrow> cipher option" where
  "aeadAESGCM P key fixedNonce = Some (fixedNonceAEAD (go_copy (replicate 12 0) 0 fixedNonce) (pr_gcm P key))"

definition aeadChaCha20Poly1305 :: "primitives \<Rightarrow> byte list \<Rightarrow> byte list \<Rightarrow> cipher option" where
  "aeadChaCha20Poly1305 P key fixedNonce = Some (xorNonceAEAD (go_copy (replicate 12 0) 0 fixedNonce) (pr_chacha P key))"

section \<open>Suites\<close>

datatype key_agreement = rsaKA | ecdheRSAKA | ecdheECDSAKA | eccGMKA | ecdheGMKA

definition suiteECDHE :: u16 where "suiteECDHE = 1"
definition suiteECDSA :: u16 where "suiteECDSA = 2"
definition suiteTLS12 :: u16 where "suiteTLS12 = 4"
definition suiteSHA384 :: u16 where "suiteSHA384 = 8"
definition suiteDefaultOff :: u16 where "suiteDefaultOff = 16"

lemmas suite_flags = suiteECDHE_def suiteECDSA_def suiteTLS12_def suiteSHA384_def suiteDefaultOff_def

text \<open>A function field that is \<open>nil\<close> is \<^term>\<open>None\<close>.\<close>

record cipher_suite =
  cs_id :: u16
  cs_keyLen :: nat
  cs_macLen :: nat
  cs_ivLen :: nat
  cs_ka :: key_agreement
  cs_flags :: u16
  cs_cipher :: "(byte list \<Rightarrow> byte list \<Rightarrow> bool \<Rightarrow> cipher option) option"
  cs_mac :: "(u16 \<Rightarrow> byte list \<Rightarrow> mac) option"
  cs_aead :: "(byte list \<Rightarrow> byte list \<Rightarrow> cipher option) option"

definition suite ::
  "u16 \<Rightarrow> nat \<Rightarrow> nat \<Rightarrow> nat \<Rightarrow> key_agreement \<Rightarrow> u16 \<Rightarrow> (byte list \<Rightarrow> byte list \<Rightarrow> bool \<Rightarrow> cipher option) option
   \<Rightarrow> (u16 \<Rightarrow> byte list \<Rightarrow> mac) option \<Rightarrow> (byte list \<Rightarrow> byte list \<Rightarrow> cipher option) option \<Rightarrow> cipher_suite" where
  "suite i k m v ka f c mc a =
     \<lparr>cs_id = i, cs_keyLen = k, cs_macLen = m, cs_ivLen = v, cs_ka = ka, cs_flags = f, cs_cipher = c, cs_mac = mc, cs_aead = a\<rparr>"

definition TLS_RSA_WITH_RC4_128_SHA :: u16 where "TLS_RSA_WITH_RC4_128_SHA = 0x0005"
definition TLS_RSA_WITH_3DES_EDE_CBC_SHA :: u16 where "TLS_RSA_WITH_3DES_EDE_CBC_SHA = 0x000a"
definition TLS_RSA_WITH_AES_128_CBC_SHA :: u16 where "TLS_RSA_WITH_AES_128_CBC_SHA = 0x002f"
definition TLS_RSA_WITH_AES_256_CBC_SHA :: u16 where "TLS_RSA_WITH_AES_256_CBC_SHA = 0x0035"
definition TLS_RSA_WITH_AES_128_CBC_SHA256 :: u16 where "TLS_RSA_WITH_AES_128_CBC_SHA256 = 0x003c"
definition TLS_RSA_WITH_AES_128_GCM_SHA256 :: u16 where "TLS_RSA_WITH_AES_128_GCM_SHA256 = 0x009c"
definition TLS_RSA_WITH_AES_256_GCM_SHA384 :: u16 where "TLS_RSA_WITH_AES_256_GCM_SHA384 = 0x009d"
definition TLS_ECDHE_ECDSA_WITH_RC4_128_SHA :: u16 where "TLS_ECDHE_ECDSA_WITH_RC4_128_SHA = 0xc007"
definition TLS_ECDHE_ECDSA_WITH_AES_128_CBC_SHA :: u16 where "TLS_ECDHE_ECDSA_WITH_AES_128_CBC_SHA = 0xc009"
definition TLS_ECDHE_ECDSA_WITH_AES_256_CBC_SHA :: u16 where "TLS_ECDHE_ECDSA_WITH_AES_256_CBC_SHA = 0xc00a"
definition TLS_ECDHE_RSA_WITH_RC4_128_SHA :: u16 where "TLS_ECDHE_RSA_WITH_RC4_128_SHA = 0xc011"
definition TLS_ECDHE_RSA_WITH_3DES_EDE_CBC_SHA :: u16 where "TLS_ECDHE_RSA_WITH_3DES_EDE_CBC_SHA = 0xc012"
definition TLS_ECDHE_RSA_WITH_AES_256_CBC_SHA :: u16 where "TLS_ECDHE_RSA_WITH_AES_256_CBC_SHA = 0xc014"
definition TLS_ECDHE_ECDSA_WITH_AES_128_CBC_SHA256 :: u16 where "TLS_ECDHE_ECDSA_WITH_AES_128_CBC_SHA256 = 0xc023"
definition TLS_ECDHE_RSA_WITH_AES_128_GCM_SHA256 :: u16 where "TLS_ECDHE_RSA_WITH_AES_128_GCM_SHA256 = 0xc02f"
definition TLS_ECDHE_ECDSA_WITH_AES_128_GCM_SHA256 :: u16 where "TLS_ECDHE_ECDSA_WITH_AES_128_GCM_SHA256 = 0xc02b"
definition TLS_ECDHE_RSA_WITH_AES_256_GCM_SHA384 :: u16 where "TLS_ECDHE_RSA_WITH_AES_256_GCM_SHA384 = 0xc030"
definition TLS_ECDHE_ECDSA_WITH_AES_256_GCM_SHA384 :: u16 where "TLS_ECDHE_ECDSA_WITH_AES_256_GCM_SHA384 = 0xc02c"
definition TLS_ECDHE_RSA_WITH_CHACHA20_POLY1305 :: u16 where "TLS_ECDHE_RSA_WITH_CHACHA20_POLY1305 = 0xcca8"
definition TLS_ECDHE_ECDSA_WITH_CHACHA20_POLY1305 :: u16 where "TLS_ECDHE_ECDSA_WITH_CHACHA20_POLY1305 = 0xcca9"
definition TLS_FALLBACK_SCSV :: u16 where "TLS_FALLBACK_SCSV = 0x5600"
definition GMTLS_ECDHE_SM2_WITH_SM4_SM3 :: u16 where "GMTLS_ECDHE_SM2_WITH_SM4_SM3 = 0xe011"
definition GMTLS_SM2_WITH_SM4_SM3 :: u16 where "GMTLS_SM2_WITH_SM4_SM3 = 0xe013"

lemmas suite_ids =
  TLS_RSA_WITH_RC4_128_SHA_def TLS_RSA_WITH_3DES_EDE_CBC_SHA_def TLS_RSA_WITH_AES_128_CBC_SHA_def
  TLS_RSA_WITH_AES_256_CBC_SHA_def TLS_RSA_WITH_AES_128_CBC_SHA256_def TLS_RSA_WITH_AES_128_GCM_SHA256_def
  TLS_RSA_WITH_AES_256_GCM_SHA384_def TLS_ECDHE_ECDSA_WITH_RC4_128_SHA_def TLS_ECDHE_ECDSA_WITH_AES_128_CBC_SHA_def
  TLS_ECDHE_ECDSA_WITH_AES_256_CBC_SHA_def TLS_ECDHE_RSA_WITH_RC4_128_SHA_def TLS_ECDHE_RSA_WITH_3DES_EDE_CBC_SHA_def
  TLS_ECDHE_RSA_WITH_AES_256_CBC_SHA_def TLS_ECDHE_ECDSA_WITH_AES_128_CBC_SHA256_def
  TLS_ECDHE_RSA_WITH_AES_128_GCM_SHA256_def TLS_ECDHE_ECDSA_WITH_AES_128_GCM_SHA256_def
  TLS_ECDHE_RSA_WITH_AES_256_GCM_SHA384_def TLS_ECDHE_ECDSA_WITH_AES_256_GCM_SHA384_def
  TLS_ECDHE_RSA_WITH_CHACHA20_POLY1305_def TLS_ECDHE_ECDSA_WITH_CHACHA20_POLY1305_def TLS_FALLBACK_SCSV_def
  GMTLS_ECDHE_SM2_WITH_SM4_SM3_def GMTLS_SM2_WITH_SM4_SM3_def

definition cipherSuites :: "hashes \<Rightarrow> primitives \<Rightarrow> cipher_suite list" where
  "cipherSuites H P =
   [suite TLS_ECDHE_RSA_WITH_CHACHA20_POLY1305 32 0 12 ecdheRSAKA (suiteECDHE OR suiteTLS12) None None (Some (aeadChaCha20Poly1305 P)),
    suite TLS_ECDHE_ECDSA_WITH_CHACHA20_POLY1305 32 0 12 ecdheECDSAKA (suiteECDHE OR suiteECDSA OR suiteTLS12) None None (Some (aeadChaCha20Poly1305 P)),
    suite TLS_ECDHE_RSA_WITH_AES_128_GCM_SHA256 16 0 4 ecdheRSAKA (suiteECDHE OR suiteTLS12) None None (Some (aeadAESGCM P)),
    suite TLS_ECDHE_ECDSA_WITH_AES_128_GCM_SHA256 16 0 4 ecdheECDSAKA (suiteECDHE OR suiteECDSA OR suiteTLS12) None None (Some (aeadAESGCM P)),
    suite TLS_ECDHE_RSA_WITH_AES_256_GCM_SHA384 32 0 4 ecdheRSAKA (suiteECDHE OR suiteTLS12 OR suiteSHA384) None None (Some (aeadAESGCM P)),
    suite TLS_ECDHE_ECDSA_WITH_AES_256_GCM_SHA384 32 0 4 ecdheECDSAKA (suiteECDHE OR suiteECDSA OR suiteTLS12 OR suiteSHA384) None None (Some (aeadAESGCM P)),
    suite TLS_ECDHE_ECDSA_WITH_AES_128_CBC_SHA256 16 32 16 ecdheECDSAKA (suiteECDHE OR suiteECDSA OR suiteTLS12 OR suiteDefaultOff) (Some (cipherAES P)) (Some (macSHA256 H)) None,
    suite TLS_ECDHE_ECDSA_WITH_AES_128_CBC_SHA 16 20 16 ecdheECDSAKA (suiteECDHE OR suiteECDSA) (Some (cipherAES P)) (Some (macSHA1 H)) None,
    suite TLS_ECDHE_RSA_WITH_AES_256_CBC_SHA 32 20 16 ecdheRSAKA suiteECDHE (Some (cipherAES P)) (Some (macSHA1 H)) None,
    suite TLS_ECDHE_ECDSA_WITH_AES_256_CBC_SHA 32 20 16 ecdheECDSAKA (suiteECDHE OR suiteECDSA) (Some (cipherAES P)) (Some (macSHA1 H)) None,
    suite TLS_RSA_WITH_AES_128_GCM_SHA256 16 0 4 rsaKA suiteTLS12 None None (Some (aeadAESGCM P)),
    suite TLS_RSA_WITH_AES_256_GCM_SHA384 32 0 4 rsaKA (suiteTLS12 OR suiteSHA384) None None (Some (aeadAESGCM P)),
    suite TLS_RSA_WITH_AES_128_CBC_SHA256 16 32 16 rsaKA (suiteTLS12 OR suiteDefaultOff) (Some (cipherAES P)) (Some (macSHA256 H)) None,
    suite TLS_RSA_WITH_AES_128_CBC_SHA 16 20 16 rsaKA 0 (Some (cipherAES P)) (Some (macSHA1 H)) None,
    suite TLS_RSA_WITH_AES_256_CBC_SHA 32 20 16 rsaKA 0 (Some (cipherAES P)) (Some (macSHA1 H)) None,
    suite TLS_ECDHE_RSA_WITH_3DES_EDE_CBC_SHA 24 20 8 ecdheRSAKA suiteECDHE (Some (cipher3DES P)) (Some (macSHA1 H)) None,
    suite TLS_RSA_WITH_3DES_EDE_CBC_SHA 24 20 8 rsaKA 0 (Some (cipher3DES P)) (Some (macSHA1 H)) None,
    suite TLS_RSA_WITH_RC4_128_SHA 16 20 0 rsaKA suiteDefaultOff (Some (cipherRC4 P)) (Some (macSHA1 H)) None,
    suite TLS_ECDHE_RSA_WITH_RC4_128_SHA 16 20 0 ecdheRSAKA (suiteECDHE OR suiteDefaultOff) (Some (cipherRC4 P)) (Some (macSHA1 H)) None,
    suite TLS_ECDHE_ECDSA_WITH_RC4_128_SHA 16 20 0 ecdheECDSAKA (suiteECDHE OR suiteECDSA OR suiteDefaultOff) (Some (cipherRC4 P)) (Some (macSHA1 H)) None]"

definition gmCipherSuites :: "hashes \<Rightarrow> primitives \<Rightarrow> cipher_suite list" where
  "gmCipherSuites H P =
   [suite GMTLS_SM2_WITH_SM4_SM3 16 32 16 eccGMKA suiteECDSA (Some (cipherSM4 P)) (Some (macSM3 H)) None,
    suite GMTLS_ECDHE_SM2_WITH_SM4_SM3 16 32 16 ecdheGMKA (suiteECDHE OR suiteECDSA) (Some (cipherSM4 P)) (Some (macSM3 H)) None]"

text \<open>The loops that look for an identifier: first in the list of the peer, then in the table.\<close>

definition mutualCipherSuite :: "hashes \<Rightarrow> primitives \<Rightarrow> u16 list \<Rightarrow> u16 \<Rightarrow> cipher_suite option" where
  "mutualCipherSuite H P have_ids want =
     (if want \<in> set have_ids then find (\<lambda>s. cs_id s = want) (cipherSuites H P) else None)"

definition mutualCipherSuiteGM :: "hashes \<Rightarrow> primitives \<Rightarrow> u16 list \<Rightarrow> u16 \<Rightarrow> cipher_suite option" where
  "mutualCipherSuiteGM H P have_ids want =
     (if want \<in> set have_ids then find (\<lambda>s. cs_id s = want) (gmCipherSuites H P) else None)"

text \<open>\<open>initDefaultCipherSuites\<close>: six suites in front, then the rest of the table that is not off by default.\<close>

definition topCipherSuites :: "u16 list" where
  "topCipherSuites =
     [TLS_ECDHE_RSA_WITH_CHACHA20_POLY1305, TLS_ECDHE_ECDSA_WITH_CHACHA20_POLY1305, TLS_ECDHE_RSA_WITH_AES_128_GCM_SHA256,
      TLS_ECDHE_RSA_WITH_AES_256_GCM_SHA384, TLS_ECDHE_ECDSA_WITH_AES_128_GCM_SHA256, TLS_ECDHE_ECDSA_WITH_AES_256_GCM_SHA384]"

fun add_defaults :: "u16 list \<Rightarrow> cipher_suite list \<Rightarrow> u16 list" where
  "add_defaults ids [] = ids"
| "add_defaults ids (s # ss) =
     (if cs_flags s AND suiteDefaultOff \<noteq> 0 then add_defaults ids ss
      else if cs_id s \<in> set ids then add_defaults ids ss
      else add_defaults (ids @ [cs_id s]) ss)"

definition defaultCipherSuites :: "hashes \<Rightarrow> primitives \<Rightarrow> u16 list" where
  "defaultCipherSuites H P = add_defaults topCipherSuites (cipherSuites H P)"

text \<open>The suites of the default list, whatever the primitives; none is a GM suite.\<close>

lemma defaultCipherSuites_ids:
  "defaultCipherSuites H P =
     [0xcca8, 0xcca9, 0xc02f, 0xc030, 0xc02b, 0xc02c, 0xc009, 0xc014, 0xc00a, 0x9c, 0x9d, 0x2f, 0x35, 0xc012, 0x0a]"
  by (simp add: defaultCipherSuites_def cipherSuites_def topCipherSuites_def suite_def suite_ids suite_flags)

lemma gm_not_default: "\<forall>s \<in> set (gmCipherSuites H P). cs_id s \<notin> set (defaultCipherSuites H P)"
  by (simp add: defaultCipherSuites_ids gmCipherSuites_def suite_def suite_ids)

lemma mutualCipherSuiteGM_id:
  "mutualCipherSuiteGM H P ids want = Some s \<Longrightarrow> cs_id s = want \<and> want \<in> set ids \<and> s \<in> set (gmCipherSuites H P)"
  by (auto simp: mutualCipherSuiteGM_def find_Some_iff split: if_splits)

end
