(* ===== verification/Tls_Prf.thy ===== *)
theory Tls_Prf
  imports Tls_Suites
begin

text \<open>
  \<^verbatim>\<open>zgmtls/prf.go\<close>: the pseudo-random functions of the protocol versions, the derivation of the
  master secret and of the connection keys, and the running hash of a handshake with its Finished
  values. A \<open>hash.Hash\<close> value is the list of bytes written to it since the last reset. \<^term>\<open>None\<close>
  is a panic, or a loop that does not end.
\<close>

section \<open>Pseudo-random functions\<close>

definition splitPreMasterSecret :: "byte list \<Rightarrow> byte list \<times> byte list" where
  "splitPreMasterSecret secret = (take ((length secret + 1) div 2) secret, drop (length secret div 2) secret)"

text \<open>\<open>pHash_loop h secret seed a n\<close> fills the last \<open>n\<close> bytes of the result; \<open>a\<close> is the running value \<open>A(i)\<close>.\<close>

partial_function (option) pHash_loop :: "hash_fn \<Rightarrow> byte list \<Rightarrow> byte list \<Rightarrow> byte list \<Rightarrow> nat \<Rightarrow> byte list option" where
  "pHash_loop h secret seed a n =
     (if n = 0 then Some []
      else let b = hmac h secret (a @ seed); todo = (if length b > n then n else length b)
           in do { r \<leftarrow> pHash_loop h secret seed (hmac h secret a) (n - todo); Some (take todo b @ r) })"

lemmas pHash_loop_code [code] = pHash_loop.simps

definition pHash :: "nat \<Rightarrow> byte list \<Rightarrow> byte list \<Rightarrow> hash_fn \<Rightarrow> byte list option" where
  "pHash n secret seed h = pHash_loop h secret seed (hmac h secret seed) n"

definition prf10 :: "hashes \<Rightarrow> nat \<Rightarrow> byte list \<Rightarrow> byte list \<Rightarrow> byte list \<Rightarrow> byte list option" where
  "prf10 H n secret label seed = do {
     let (s1, s2) = splitPreMasterSecret secret;
     r1 \<leftarrow> pHash n s1 (label @ seed) (h_md5 H);
     r2 \<leftarrow> pHash n s2 (label @ seed) (h_sha1 H);
     Some (map2 (XOR) r1 r2) }"

definition prf12 :: "hash_fn \<Rightarrow> nat \<Rightarrow> byte list \<Rightarrow> byte list \<Rightarrow> byte list \<Rightarrow> byte list option" where
  "prf12 h n secret label seed = pHash n secret (label @ seed) h"

text \<open>
  The loop of \<open>prf30\<close>: pass \<open>i\<close> hashes \<open>i + 1\<close> times the letter \<open>'A' + i\<close>; the buffer of eleven bytes
  makes pass 11 panic.
\<close>

function prf30_loop :: "hashes \<Rightarrow> byte list \<Rightarrow> byte list \<Rightarrow> nat \<Rightarrow> nat \<Rightarrow> byte list option" where
  "prf30_loop H secret seed n i =
     (if n = 0 then Some []
      else if i \<ge> 11 then None
      else let digest = hf_sum (h_sha1 H) (replicate (i + 1) (0x41 + of_nat i) @ secret @ seed);
               out = take n (hf_sum (h_md5 H) (secret @ digest))
           in do { r \<leftarrow> prf30_loop H secret seed (n - length out) (i + 1); Some (out @ r) })"
  by pat_completeness auto
termination by (relation "measure (\<lambda>(H, secret, seed, n, i). 11 - i)") auto

declare prf30_loop.simps [simp del]

definition prf30 :: "hashes \<Rightarrow> nat \<Rightarrow> byte list \<Rightarrow> byte list \<Rightarrow> byte list \<Rightarrow> byte list option" where
  "prf30 H n secret label seed = prf30_loop H secret seed n 0"

datatype prf_fn = PRF30 | PRF10 | PRF12 hash_fn

fun run_prf :: "hashes \<Rightarrow> prf_fn \<Rightarrow> nat \<Rightarrow> byte list \<Rightarrow> byte list \<Rightarrow> byte list \<Rightarrow> byte list option" where
  "run_prf H PRF30 n secret label seed = prf30 H n secret label seed"
| "run_prf H PRF10 n secret label seed = prf10 H n secret label seed"
| "run_prf H (PRF12 h) n secret label seed = prf12 h n secret label seed"

definition prfAndHashForGM :: "hashes \<Rightarrow> prf_fn" where
  "prfAndHashForGM H = PRF12 (h_sm3 H)"

definition prfAndHashForVersion :: "hashes \<Rightarrow> u16 \<Rightarrow> cipher_suite \<Rightarrow> (prf_fn \<times> hash_id) option" where
  "prfAndHashForVersion H version s =
     (if version = VersionSSL30 then Some (PRF30, No_Hash)
      else if version = VersionTLS10 \<or> version = VersionTLS11 then Some (PRF10, No_Hash)
      else if version = VersionTLS12 then
        (if cs_flags s AND suiteSHA384 \<noteq> 0 then Some (PRF12 (h_sha384 H), SHA384) else Some (PRF12 (h_sha256 H), SHA256))
      else None)"

definition prfForVersion :: "hashes \<Rightarrow> u16 \<Rightarrow> cipher_suite \<Rightarrow> prf_fn option" where
  "prfForVersion H version s =
     (if version = VersionGMSSL then Some (prfAndHashForGM H) else map_option fst (prfAndHashForVersion H version s))"

section \<open>Secrets and keys\<close>

definition masterSecretLength :: nat where "masterSecretLength = 48"
definition finishedVerifyLength :: nat where "finishedVerifyLength = 12"

text \<open>The labels are the ASCII bytes of their names.\<close>

definition ascii :: "string \<Rightarrow> byte list" where "ascii s = map (\<lambda>c. of_nat (of_char c)) s"

definition masterSecretLabel :: "byte list" where "masterSecretLabel = ascii ''master secret''"
definition keyExpansionLabel :: "byte list" where "keyExpansionLabel = ascii ''key expansion''"
definition clientFinishedLabel :: "byte list" where "clientFinishedLabel = ascii ''client finished''"
definition serverFinishedLabel :: "byte list" where "serverFinishedLabel = ascii ''server finished''"

definition masterFromPreMasterSecret ::
  "hashes \<Rightarrow> u16 \<Rightarrow> cipher_suite \<Rightarrow> byte list \<Rightarrow> byte list \<Rightarrow> byte list \<Rightarrow> byte list option" where
  "masterFromPreMasterSecret H version s preMasterSecret clientRandom serverRandom = do {
     f \<leftarrow> prfForVersion H version s;
     run_prf H f masterSecretLength preMasterSecret masterSecretLabel (clientRandom @ serverRandom) }"

record key_block =
  kb_clientMAC :: "byte list"
  kb_serverMAC :: "byte list"
  kb_clientKey :: "byte list"
  kb_serverKey :: "byte list"
  kb_clientIV :: "byte list"
  kb_serverIV :: "byte list"

definition keysFromMasterSecret ::
  "hashes \<Rightarrow> u16 \<Rightarrow> cipher_suite \<Rightarrow> byte list \<Rightarrow> byte list \<Rightarrow> byte list \<Rightarrow> nat \<Rightarrow> nat \<Rightarrow> nat \<Rightarrow> key_block option" where
  "keysFromMasterSecret H version s masterSecret clientRandom serverRandom macLen keyLen ivLen = do {
     let n = 2 * macLen + 2 * keyLen + 2 * ivLen;
     f \<leftarrow> prfForVersion H version s;
     km \<leftarrow> run_prf H f n masterSecret keyExpansionLabel (serverRandom @ clientRandom);
     let clientMAC = take macLen km;
     let km = drop macLen km;
     let serverMAC = take macLen km;
     let km = drop macLen km;
     let clientKey = take keyLen km;
     let km = drop keyLen km;
     let serverKey = take keyLen km;
     let km = drop keyLen km;
     let clientIV = take ivLen km;
     let km = drop ivLen km;
     let serverIV = take ivLen km;
     Some \<lparr>kb_clientMAC = clientMAC, kb_serverMAC = serverMAC, kb_clientKey = clientKey, kb_serverKey = serverKey,
           kb_clientIV = clientIV, kb_serverIV = serverIV\<rparr> }"

section \<open>The running hash of a handshake\<close>

datatype run_hash = Nil_Hash | Hash_Of hash_fn "byte list" | Nil_MD5_Hash

text \<open>A call on a nil interface panics; \<open>nilMD5Hash\<close> ignores what is written and sums to nothing.\<close>

fun rh_Write :: "byte list \<Rightarrow> run_hash \<Rightarrow> run_hash option" where
  "rh_Write msg Nil_Hash = None"
| "rh_Write msg (Hash_Of h data) = Some (Hash_Of h (data @ msg))"
| "rh_Write msg Nil_MD5_Hash = Some Nil_MD5_Hash"

fun rh_Sum :: "run_hash \<Rightarrow> byte list option" where
  "rh_Sum Nil_Hash = None"
| "rh_Sum (Hash_Of h data) = Some (hf_sum h data)"
| "rh_Sum Nil_MD5_Hash = Some []"

fun rh_Reset :: "run_hash \<Rightarrow> run_hash option" where
  "rh_Reset Nil_Hash = None"
| "rh_Reset (Hash_Of h data) = Some (Hash_Of h [])"
| "rh_Reset Nil_MD5_Hash = Some Nil_MD5_Hash"

record finished_hash =
  fh_client :: run_hash
  fh_server :: run_hash
  fh_clientMD5 :: run_hash
  fh_serverMD5 :: run_hash
  fh_buffer :: "byte list option"
  fh_version :: u16
  fh_prf :: prf_fn

definition new_hash :: "hash_fn \<Rightarrow> run_hash" where "new_hash h = Hash_Of h []"

definition newFinishedHash :: "hashes \<Rightarrow> u16 \<Rightarrow> cipher_suite \<Rightarrow> finished_hash option" where
  "newFinishedHash H version s =
     (let buffer = (if version = VersionSSL30 \<or> version \<ge> VersionTLS12 then Some [] else None)
      in if version = VersionGMSSL then
           Some \<lparr>fh_client = new_hash (h_sm3 H), fh_server = new_hash (h_sm3 H), fh_clientMD5 = Nil_Hash, fh_serverMD5 = Nil_Hash,
                 fh_buffer = buffer, fh_version = version, fh_prf = prfAndHashForGM H\<rparr>
         else do {
           (f, hid) \<leftarrow> prfAndHashForVersion H version s;
           if hid \<noteq> No_Hash then do {
             h \<leftarrow> hash_New H hid;
             Some \<lparr>fh_client = new_hash h, fh_server = new_hash h, fh_clientMD5 = Nil_Hash, fh_serverMD5 = Nil_Hash,
                   fh_buffer = buffer, fh_version = version, fh_prf = f\<rparr> }
           else Some \<lparr>fh_client = new_hash (h_sha1 H), fh_server = new_hash (h_sha1 H),
                      fh_clientMD5 = new_hash (h_md5 H), fh_serverMD5 = new_hash (h_md5 H),
                      fh_buffer = buffer, fh_version = version, fh_prf = f\<rparr> })"

definition newFinishedHashGM :: "hashes \<Rightarrow> finished_hash" where
  "newFinishedHashGM H =
     \<lparr>fh_client = new_hash (h_sm3 H), fh_server = new_hash (h_sm3 H), fh_clientMD5 = Nil_MD5_Hash, fh_serverMD5 = Nil_MD5_Hash,
      fh_buffer = Some [], fh_version = VersionGMSSL, fh_prf = PRF12 (h_sm3 H)\<rparr>"

definition fh_Write :: "byte list \<Rightarrow> finished_hash \<Rightarrow> finished_hash option" where
  "fh_Write msg h = do {
     c \<leftarrow> rh_Write msg (fh_client h);
     s \<leftarrow> rh_Write msg (fh_server h);
     let h = h\<lparr>fh_client := c, fh_server := s\<rparr>;
     h \<leftarrow> (if fh_version h < VersionTLS12 then do {
             c5 \<leftarrow> rh_Write msg (fh_clientMD5 h);
             s5 \<leftarrow> rh_Write msg (fh_serverMD5 h);
             Some (h\<lparr>fh_clientMD5 := c5, fh_serverMD5 := s5\<rparr>) }
           else Some h);
     Some (h\<lparr>fh_buffer := map_option (\<lambda>b. b @ msg) (fh_buffer h)\<rparr>) }"

definition fh_Sum :: "finished_hash \<Rightarrow> byte list option" where
  "fh_Sum h =
     (if fh_version h \<ge> VersionTLS12 \<or> fh_version h = VersionGMSSL then rh_Sum (fh_client h)
      else do { a \<leftarrow> rh_Sum (fh_clientMD5 h); b \<leftarrow> rh_Sum (fh_client h); Some (a @ b) })"

text \<open>\<open>finishedSum30\<close> works on the hash objects themselves; the state it leaves them in
  is not modelled, since each pair is read for one Finished value only.\<close>

definition finishedSum30 :: "run_hash \<Rightarrow> run_hash \<Rightarrow> byte list \<Rightarrow> byte list \<Rightarrow> byte list option" where
  "finishedSum30 md5 sha1 masterSecret magic = do {
     m \<leftarrow> rh_Write (magic @ masterSecret @ ssl30Pad1) md5;
     d \<leftarrow> rh_Sum m;
     m \<leftarrow> rh_Reset m;
     m \<leftarrow> rh_Write (masterSecret @ ssl30Pad2 @ d) m;
     md5Digest \<leftarrow> rh_Sum m;
     s \<leftarrow> rh_Write (magic @ masterSecret @ take 40 ssl30Pad1) sha1;
     e \<leftarrow> rh_Sum s;
     s \<leftarrow> rh_Reset s;
     s \<leftarrow> rh_Write (masterSecret @ take 40 ssl30Pad2 @ e) s;
     sha1Digest \<leftarrow> rh_Sum s;
     Some (md5Digest @ sha1Digest) }"

definition ssl3ClientFinishedMagic :: "byte list" where "ssl3ClientFinishedMagic = [0x43, 0x4c, 0x4e, 0x54]"
definition ssl3ServerFinishedMagic :: "byte list" where "ssl3ServerFinishedMagic = [0x53, 0x52, 0x56, 0x52]"

definition clientSum :: "hashes \<Rightarrow> finished_hash \<Rightarrow> byte list \<Rightarrow> byte list option" where
  "clientSum H h masterSecret =
     (if fh_version h = VersionSSL30 then finishedSum30 (fh_clientMD5 h) (fh_client h) masterSecret ssl3ClientFinishedMagic
      else do { seed \<leftarrow> fh_Sum h; run_prf H (fh_prf h) finishedVerifyLength masterSecret clientFinishedLabel seed })"

definition serverSum :: "hashes \<Rightarrow> finished_hash \<Rightarrow> byte list \<Rightarrow> byte list option" where
  "serverSum H h masterSecret =
     (if fh_version h = VersionSSL30 then finishedSum30 (fh_serverMD5 h) (fh_server h) masterSecret ssl3ServerFinishedMagic
      else do { seed \<leftarrow> fh_Sum h; run_prf H (fh_prf h) finishedVerifyLength masterSecret serverFinishedLabel seed })"

definition discardHandshakeBuffer :: "finished_hash \<Rightarrow> finished_hash" where
  "discardHandshakeBuffer h = h\<lparr>fh_buffer := None\<rparr>"

definition signaturePKCS1v15 :: byte where "signaturePKCS1v15 = 16"
definition signatureECDSA :: byte where "signatureECDSA = 17"
definition signatureRSAPSS :: byte where "signatureRSAPSS = 18"
definition signatureSM2 :: byte where "signatureSM2 = 19"

text \<open>The digest a client certificate signs; \<^term>\<open>Inr\<close> is the returned error.\<close>

definition hashForClientCertificate ::
  "hashes \<Rightarrow> finished_hash \<Rightarrow> byte \<Rightarrow> hash_id \<Rightarrow> byte list \<Rightarrow> (byte list + tls_err) option" where
  "hashForClientCertificate H h sigType hashAlg masterSecret =
     (if (fh_version h = VersionSSL30 \<or> fh_version h \<ge> VersionTLS12) \<and> fh_buffer h = None then None
      else if fh_version h = VersionSSL30 then
        (if sigType \<noteq> signaturePKCS1v15 then Some (Inr (Text_Error ''tls: unsupported signature type for client certificate''))
         else do {
           buf \<leftarrow> fh_buffer h;
           d \<leftarrow> finishedSum30 (Hash_Of (h_md5 H) buf) (Hash_Of (h_sha1 H) buf) masterSecret [];
           Some (Inl d) })
      else if fh_version h \<ge> VersionTLS12 then do { hh \<leftarrow> hash_New H hashAlg; buf \<leftarrow> fh_buffer h; Some (Inl (hf_sum hh buf)) }
      else if sigType = signatureECDSA then map_option Inl (rh_Sum (fh_server h))
      else map_option Inl (fh_Sum h))"

text \<open>Exported keying material (RFC 5705); a nil context is \<^term>\<open>None\<close>.\<close>

definition ekmFromMasterSecret ::
  "hashes \<Rightarrow> u16 \<Rightarrow> cipher_suite \<Rightarrow> byte list \<Rightarrow> byte list \<Rightarrow> byte list \<Rightarrow> byte list \<Rightarrow> byte list option \<Rightarrow> nat
   \<Rightarrow> (byte list + tls_err) option" where
  "ekmFromMasterSecret H version s masterSecret clientRandom serverRandom label context len =
     (if label \<in> {clientFinishedLabel, serverFinishedLabel, masterSecretLabel, keyExpansionLabel}
      then Some (Inr (Text_Error ''crypto/tls: reserved ExportKeyingMaterial label''))
      else case context of
        Some c \<Rightarrow>
          (if length c \<ge> 65536 then Some (Inr (Text_Error ''crypto/tls: ExportKeyingMaterial context too long''))
           else do {
             f \<leftarrow> prfForVersion H version s;
             map_option Inl (run_prf H f len masterSecret label (clientRandom @ serverRandom @ be16 (length c) @ c)) })
      | None \<Rightarrow> do {
             f \<leftarrow> prfForVersion H version s;
             map_option Inl (run_prf H f len masterSecret label (clientRandom @ serverRandom)) })"

section \<open>What the loops compute\<close>

text \<open>
  \<open>P_hash\<close> of RFC 5246, section 5: \<open>A(0) = seed\<close>, \<open>A(i) = HMAC(secret, A(i-1))\<close>, and the output is the
  front of \<open>HMAC(secret, A(1) @ seed) @ HMAC(secret, A(2) @ seed) @ ...\<close>.
\<close>

definition P_A :: "hash_fn \<Rightarrow> byte list \<Rightarrow> byte list \<Rightarrow> nat \<Rightarrow> byte list" where
  "P_A h secret seed i = (hmac h secret ^^ i) seed"

definition P_block :: "hash_fn \<Rightarrow> byte list \<Rightarrow> byte list \<Rightarrow> nat \<Rightarrow> byte list" where
  "P_block h secret seed i = hmac h secret (P_A h secret seed (Suc i) @ seed)"

definition P_hash :: "hash_fn \<Rightarrow> byte list \<Rightarrow> byte list \<Rightarrow> nat \<Rightarrow> byte list" where
  "P_hash h secret seed n = take n (concat (map (P_block h secret seed) [0..<n]))"

lemma length_P_block: "hash_ok h \<Longrightarrow> length (P_block h secret seed i) = hf_size h"
  by (simp add: P_block_def)

lemma length_blocks: "hash_ok h \<Longrightarrow> length (concat (map (P_block h secret seed) [a..<b])) = (b - a) * hf_size h"
  by (simp add: length_concat comp_def length_P_block sum_list_triv)

lemma blocks_le:
  assumes "hash_ok h" "b \<le> b'" "n \<le> b - a"
  shows "take n (concat (map (P_block h secret seed) [a..<b'])) = take n (concat (map (P_block h secret seed) [a..<b]))"
proof (cases "a \<le> b")
  case True
  then have "[a..<b'] = [a..<b] @ [b..<b']" using assms(2) upt_add_eq_append[of a b "b' - b"] by simp
  moreover have "n \<le> (b - a) * hf_size h" using assms(1,3) by (cases "hf_size h") (auto simp: hash_ok_def)
  ultimately show ?thesis using length_blocks[OF assms(1), of secret seed a b] by (simp only: map_append concat_append take_append) simp
qed (use assms(3) in simp)

lemma pHash_loop_blocks:
  assumes "hash_ok h"
  shows "pHash_loop h secret seed (P_A h secret seed (Suc k)) n
           = Some (take n (concat (map (P_block h secret seed) [k..<k + n])))"
proof (induction n arbitrary: k rule: less_induct)
  case (less n)
  let ?b = "hmac h secret (P_A h secret seed (Suc k) @ seed)"
  have b: "?b = P_block h secret seed k" "length ?b = hf_size h" "0 < hf_size h"
    using assms by (simp_all add: P_block_def hash_ok_def)
  have A: "hmac h secret (P_A h secret seed (Suc k)) = P_A h secret seed (Suc (Suc k))" by (simp add: P_A_def)
  show ?case
  proof (cases n)
    case 0
    then show ?thesis by (subst pHash_loop.simps) simp
  next
    case (Suc m)
    then have upt: "[k..<k + n] = k # [Suc k..<k + n]" by (simp add: upt_conv_Cons)
    show ?thesis
    proof (cases "hf_size h > n")
      case True
      moreover have "pHash_loop h secret seed a 0 = Some []" for a by (subst pHash_loop.simps) simp
      ultimately show ?thesis using Suc b(1,2) unfolding upt
        by (subst pHash_loop.simps) (simp add: A)
    next
      case False
      have "pHash_loop h secret seed (P_A h secret seed (Suc (Suc k))) (n - hf_size h)
              = Some (take (n - hf_size h) (concat (map (P_block h secret seed) [Suc k..<Suc k + (n - hf_size h)])))"
        by (rule less.IH) (use Suc b(3) in simp)
      also have "take (n - hf_size h) (concat (map (P_block h secret seed) [Suc k..<Suc k + (n - hf_size h)]))
              = take (n - hf_size h) (concat (map (P_block h secret seed) [Suc k..<k + n]))"
        by (rule blocks_le[OF assms, symmetric]) (use False b(3) Suc in auto)
      finally show ?thesis using False Suc b(1,2) unfolding upt
        by (subst pHash_loop.simps) (simp add: A)
    qed
  qed
qed

lemma pHash_exact: "hash_ok h \<Longrightarrow> pHash n secret seed h = Some (P_hash h secret seed n)"
  using pHash_loop_blocks[of h secret seed 0 n] by (simp add: pHash_def P_hash_def P_A_def)

lemma length_P_hash [simp]: "hash_ok h \<Longrightarrow> length (P_hash h secret seed n) = n"
  by (cases "hf_size h") (auto simp: P_hash_def length_blocks hash_ok_def)

text \<open>Every version except SSL 3.0 gives as many bytes as asked for.\<close>

lemma run_prf_total:
  assumes "hashes_ok H" "f = PRF10 \<or> (\<exists>h. f = PRF12 h \<and> hash_ok h)"
  obtains r where "run_prf H f n secret label seed = Some r" "length r = n"
  using assms by (auto simp: hashes_ok_def prf10_def prf12_def pHash_exact splitPreMasterSecret_def)

lemma prfForVersion_total:
  assumes "hashes_ok H" "version \<in> {VersionGMSSL, VersionTLS10, VersionTLS11, VersionTLS12}"
  obtains f where "prfForVersion H version s = Some f" "f = PRF10 \<or> (\<exists>h. f = PRF12 h \<and> hash_ok h)"
proof -
  have "\<exists>f. prfForVersion H version s = Some f \<and> (f = PRF10 \<or> (\<exists>h. f = PRF12 h \<and> hash_ok h))"
    using assms by (auto simp: prfForVersion_def prfAndHashForVersion_def prfAndHashForGM_def hashes_ok_def VersionSSL30_def
        VersionTLS10_def VersionTLS11_def VersionTLS12_def VersionGMSSL_def)
  then show thesis using that by blast
qed

text \<open>SSL 3.0 gives at most eleven MD5 digests.\<close>

lemma prf30_loop_total:
  assumes "hash_ok (h_md5 H)" "n \<le> (11 - i) * hf_size (h_md5 H)" "i \<le> 11"
  shows "\<exists>r. prf30_loop H secret seed n i = Some r \<and> length r = n"
  using assms(2,3)
proof (induction "11 - i" arbitrary: i n)
  case 0
  then show ?case by (subst prf30_loop.simps) simp
next
  case (Suc d)
  define out where "out = take n (hf_sum (h_md5 H) (secret @ hf_sum (h_sha1 H) (replicate (i + 1) (0x41 + of_nat i) @ secret @ seed)))"
  have out: "length out = min n (hf_size (h_md5 H))" using assms(1) by (simp add: out_def hash_ok_def min.commute)
  have i: "11 - i = Suc (11 - Suc i)" "\<not> 11 \<le> i" using Suc.hyps(2) by auto
  obtain r where r: "prf30_loop H secret seed (n - length out) (i + 1) = Some r" "length r = n - length out"
    using Suc.hyps(1)[of "i + 1" "n - length out"] Suc.hyps(2) Suc.prems(1) i unfolding out by force
  show ?case
  proof (cases "n = 0")
    case True then show ?thesis by (subst prf30_loop.simps) simp
  next
    case False then show ?thesis using r i(2) out assms(1) by (subst prf30_loop.simps) (auto simp: Let_def hash_ok_def min.commute)
  qed
qed

lemma key_block_fields:
  assumes "keysFromMasterSecret H version s ms cr sr macLen keyLen ivLen = Some kb"
  obtains f km where "prfForVersion H version s = Some f"
    "run_prf H f (2 * macLen + 2 * keyLen + 2 * ivLen) ms keyExpansionLabel (sr @ cr) = Some km"
    "kb = \<lparr>kb_clientMAC = take macLen km, kb_serverMAC = take macLen (drop macLen km),
           kb_clientKey = take keyLen (drop (2 * macLen) km), kb_serverKey = take keyLen (drop (2 * macLen + keyLen) km),
           kb_clientIV = take ivLen (drop (2 * macLen + 2 * keyLen) km),
           kb_serverIV = take ivLen (drop (2 * macLen + 2 * keyLen + ivLen) km)\<rparr>"
  using assms by (auto simp: keysFromMasterSecret_def Let_def split: bind_splits) (auto simp: add.commute add.left_commute mult_2)


definition toy_hash :: "nat \<Rightarrow> hash_fn" where
  "toy_hash n = \<lparr>hf_size = n, hf_block = 64, hf_sum = (\<lambda>x. replicate n (sum_list x))\<rparr>"

definition toy_hashes :: hashes where
  "toy_hashes = \<lparr>h_md5 = toy_hash 16, h_sha1 = toy_hash 20, h_sha256 = toy_hash 32, h_sha384 = toy_hash 48, h_sha512 = toy_hash 64,
                 h_sm3 = toy_hash 32\<rparr>"

lemma toy_hashes_ok: "hashes_ok toy_hashes"
  by (simp add: hashes_ok_def toy_hashes_def hash_ok_def toy_hash_def)


text \<open>A version between the GM one and SSL 3.0 has no pseudo-random function: the switch panics.\<close>

lemma unknown_version_panics:
  assumes "VersionGMSSL < version" "version < VersionSSL30"
  shows "prfForVersion H version s = None" "newFinishedHash H version s = None"
    "masterFromPreMasterSecret H version s pre cr sr = None"
  using assms by (auto simp: prfForVersion_def prfAndHashForVersion_def newFinishedHash_def masterFromPreMasterSecret_def
      VersionSSL30_def VersionGMSSL_def VersionTLS10_def VersionTLS11_def VersionTLS12_def)

text \<open>The hash that \<open>newFinishedHash\<close> makes for the GM version panics on the first message written to it.\<close>

lemma plain_finished_hash_panics:
  assumes "newFinishedHash H VersionGMSSL s = Some h"
  shows "fh_Write msg (discardHandshakeBuffer h) = None" "fh_Write msg h = None"
  using assms by (auto simp: newFinishedHash_def fh_Write_def discardHandshakeBuffer_def new_hash_def VersionGMSSL_def VersionTLS12_def)

end
