(* ===== verification/Tls_Ticket.thy ===== *)
theory Tls_Ticket
  imports Tls_Codec
begin

text \<open>
  Session tickets, \<^verbatim>\<open>zgmtls/ticket.go\<close>: the serialised session state and its sealing under the
  server's ticket keys. AES in counter mode, HMAC-SHA256 and the random source are parameters;
  what the code relies on from their documentation is named in \<open>ticket_crypto_ok\<close>.
\<close>

section \<open>Session state\<close>

record session_state =
  ss_vers :: u16
  ss_cipherSuite :: u16
  ss_masterSecret :: "byte list"
  ss_certificates :: "byte list list"
  ss_usedOldKey :: bool

definition pack32 :: "byte list list \<Rightarrow> byte list" where
  "pack32 xs = concat (map (\<lambda>s. be32 (length s) @ s) xs)"

definition sessionState_marshal :: "session_state \<Rightarrow> byte list" where
  "sessionState_marshal s =
     w16 (ss_vers s) @ w16 (ss_cipherSuite s) @ be16 (length (ss_masterSecret s)) @ ss_masterSecret s
     @ be16 (length (ss_certificates s)) @ pack32 (ss_certificates s)"

fun take_items32 :: "nat \<Rightarrow> byte list \<Rightarrow> (byte list list \<times> byte list) parse" where
  "take_items32 0 d = Accept ([], d)"
| "take_items32 (Suc n) (a # b # c # e # d) =
     (if length d < get32 a b c e then Reject
      else on_accept (take_items32 n (drop (get32 a b c e) d)) (\<lambda>(xs, r). Accept (take (get32 a b c e) d # xs, r)))"
| "take_items32 (Suc n) d = Reject"

definition sessionState_unmarshal :: "session_state \<Rightarrow> byte list \<Rightarrow> session_state parse" where
  "sessionState_unmarshal s data =
     (if length data < 8 then Reject
      else rd16 data 0 (\<lambda>vers. rd16 data 2 (\<lambda>cipherSuite. rd16 data 4 (\<lambda>masterSecretLen. from_at data 6 (\<lambda>d.
        if length d < masterSecretLen then Reject
        else sub d 0 masterSecretLen (\<lambda>masterSecret. from_at d masterSecretLen (\<lambda>d.
          if length d < 2 then Reject
          else rd16 d 0 (\<lambda>numCerts. from_at d 2 (\<lambda>d. on_accept (take_items32 numCerts d) (\<lambda>(certs, rest).
            if length rest = 0 then
              Accept (s\<lparr>ss_vers := of_nat vers, ss_cipherSuite := of_nat cipherSuite, ss_masterSecret := masterSecret,
                       ss_certificates := certs\<rparr>)
            else Reject))))))))))"

section \<open>Sealing\<close>

record ticket_key =
  tk_keyName :: "byte list"
  tk_aesKey :: "byte list"
  tk_hmacKey :: "byte list"

text \<open>
  \<open>tc_ctr key iv src\<close> is \<open>NewCTR(NewCipher(key), iv).XORKeyStream(_, src)\<close> (a ticket key always
  has a legal AES length), \<open>tc_hmac key msg\<close> the HMAC-SHA256 of the message, \<open>tc_sha512\<close> the
  hash that expands a key.
\<close>

record ticket_crypto =
  tc_ctr :: "byte list \<Rightarrow> byte list \<Rightarrow> byte list \<Rightarrow> byte list"
  tc_hmac :: "byte list \<Rightarrow> byte list \<Rightarrow> byte list"
  tc_sha512 :: "byte list \<Rightarrow> byte list"

definition ticketKeyNameLen :: nat where "ticketKeyNameLen = 16"
definition aesBlockSize :: nat where "aesBlockSize = 16"
definition sha256Size :: nat where "sha256Size = 32"

lemmas ticket_sizes = ticketKeyNameLen_def aesBlockSize_def sha256Size_def

definition ticket_crypto_ok :: "ticket_crypto \<Rightarrow> bool" where
  "ticket_crypto_ok C \<longleftrightarrow> (\<forall>k iv x. length (tc_ctr C k iv x) = length x \<and> tc_ctr C k iv (tc_ctr C k iv x) = x)
     \<and> (\<forall>k x. length (tc_hmac C k x) = sha256Size) \<and> (\<forall>x. length (tc_sha512 C x) = 64)"

definition ticketKeyFromBytes :: "ticket_crypto \<Rightarrow> byte list \<Rightarrow> ticket_key" where
  "ticketKeyFromBytes C b =
     (let hashed = tc_sha512 C b
      in \<lparr>tk_keyName = take ticketKeyNameLen hashed, tk_aesKey = take 16 (drop ticketKeyNameLen hashed),
          tk_hmacKey = take 16 (drop (ticketKeyNameLen + 16) hashed)\<rparr>)"

text \<open>The part of the server configuration that tickets depend on.\<close>

record ticket_config =
  tcf_SessionTicketsDisabled :: bool
  tcf_SessionTicketKey :: "byte list"
  tcf_sessionTicketKeys :: "ticket_key list"

text \<open>\<open>SetSessionTicketKeys\<close> panics on an empty list.\<close>

definition SetSessionTicketKeys :: "ticket_crypto \<Rightarrow> byte list list \<Rightarrow> ticket_config \<Rightarrow> ticket_config option" where
  "SetSessionTicketKeys C keys c =
     (if keys = [] then None else Some (c\<lparr>tcf_sessionTicketKeys := map (ticketKeyFromBytes C) keys\<rparr>))"

text \<open>\<open>serverInit\<close>: \<open>rand\<close> is what \<open>io.ReadFull(c.rand(), _)\<close> delivers, \<^term>\<open>None\<close> on error.\<close>

definition serverInit :: "ticket_crypto \<Rightarrow> ticket_config option \<Rightarrow> byte list option \<Rightarrow> ticket_config \<Rightarrow> ticket_config" where
  "serverInit C originalConfig rand c =
     (if tcf_SessionTicketsDisabled c \<or> tcf_sessionTicketKeys c \<noteq> [] then c
      else let finish = (\<lambda>c. case originalConfig of
                 Some oc \<Rightarrow> c\<lparr>tcf_sessionTicketKeys := tcf_sessionTicketKeys oc\<rparr>
               | None \<Rightarrow> c\<lparr>tcf_sessionTicketKeys := [ticketKeyFromBytes C (tcf_SessionTicketKey c)]\<rparr>)
      in if \<exists>b\<in>set (tcf_SessionTicketKey c). b \<noteq> 0 then finish c
         else case originalConfig of
             Some oc \<Rightarrow> finish (c\<lparr>tcf_SessionTicketKey := tcf_SessionTicketKey oc\<rparr>)
           | None \<Rightarrow> (case rand of
               Some k \<Rightarrow> finish (c\<lparr>tcf_SessionTicketKey := k\<rparr>)
             | None \<Rightarrow> c\<lparr>tcf_SessionTicketsDisabled := True\<rparr>))"

text \<open>
  \<open>encryptTicket\<close>: \<open>rand\<close> fills the initial vector, an error is \<^term>\<open>Reject\<close>, and reading the
  first of no keys panics.
\<close>

definition encryptTicket :: "ticket_crypto \<Rightarrow> ticket_config \<Rightarrow> byte list option \<Rightarrow> session_state \<Rightarrow> byte list parse" where
  "encryptTicket C cfg rand state =
     (let serialized = sessionState_marshal state
      in case rand of None \<Rightarrow> Reject
      | Some iv \<Rightarrow> (case tcf_sessionTicketKeys cfg of [] \<Rightarrow> Panic
        | key # _ \<Rightarrow>
            let sealed = take ticketKeyNameLen (tk_keyName key) @ iv @ tc_ctr C (tk_aesKey key) iv serialized
            in Accept (sealed @ tc_hmac C (tk_hmacKey key) sealed)))"

text \<open>The index of the first key with this name, from \<open>i\<close> on.\<close>

fun find_key :: "byte list \<Rightarrow> nat \<Rightarrow> ticket_key list \<Rightarrow> (nat \<times> ticket_key) option" where
  "find_key name i [] = None"
| "find_key name i (k # ks) = (if name = tk_keyName k then Some (i, k) else find_key name (i + 1) ks)"

definition decryptTicket :: "ticket_crypto \<Rightarrow> ticket_config \<Rightarrow> byte list \<Rightarrow> session_state parse" where
  "decryptTicket C cfg encrypted =
     (if tcf_SessionTicketsDisabled cfg \<or> length encrypted < ticketKeyNameLen + aesBlockSize + sha256Size then Reject
      else sub encrypted 0 ticketKeyNameLen (\<lambda>keyName. sub encrypted ticketKeyNameLen (ticketKeyNameLen + aesBlockSize) (\<lambda>iv.
        from_at encrypted (length encrypted - sha256Size) (\<lambda>macBytes.
          case find_key keyName 0 (tcf_sessionTicketKeys cfg) of None \<Rightarrow> Reject
          | Some (keyIndex, key) \<Rightarrow>
              sub encrypted 0 (length encrypted - sha256Size) (\<lambda>sealed.
                if macBytes \<noteq> tc_hmac C (tk_hmacKey key) sealed then Reject
                else sub encrypted (ticketKeyNameLen + aesBlockSize) (length encrypted - sha256Size) (\<lambda>ciphertext.
                  sessionState_unmarshal
                    \<lparr>ss_vers = 0, ss_cipherSuite = 0, ss_masterSecret = [], ss_certificates = [], ss_usedOldKey = (keyIndex > 0)\<rparr>
                    (tc_ctr C (tk_aesKey key) iv ciphertext)))))))"

section \<open>Round trip of the session state\<close>

definition session_state_ok :: "session_state \<Rightarrow> bool" where
  "session_state_ok s \<longleftrightarrow> length (ss_masterSecret s) < 65536 \<and> length (ss_certificates s) < 65536
     \<and> (\<forall>c\<in>set (ss_certificates s). length c < 4294967296)"

lemma take_items32_pack32: "\<forall>s\<in>set xs. length s < 4294967296 \<Longrightarrow> take_items32 (length xs) (pack32 xs) = Accept (xs, [])"
  by (induction xs) (simp_all add: pack32_def be32_def get32_be)

lemma take_items32_no_panic: "take_items32 n d \<noteq> Panic"
  by (induction n d rule: take_items32.induct) (auto split: prod.splits)

lemma sessionState_unmarshal_no_panic: "sessionState_unmarshal s data \<noteq> Panic"
  unfolding sessionState_unmarshal_def case_prod_beta
  by (intro no_panic take_items32_no_panic; (simp; fail | force))

lemma sessionState_roundtrip:
  assumes "session_state_ok s"
  shows "sessionState_unmarshal s0 (sessionState_marshal s) = Accept (s\<lparr>ss_usedOldKey := ss_usedOldKey s0\<rparr>)"
proof -
  have o: "length (ss_masterSecret s) < 65536" "length (ss_certificates s) < 65536"
    "take_items32 (length (ss_certificates s)) (pack32 (ss_certificates s)) = Accept (ss_certificates s, [])"
    using assms take_items32_pack32[of "ss_certificates s"] unfolding session_state_ok_def by auto
  show ?thesis using o
    by (simp add: sessionState_unmarshal_def sessionState_marshal_def codec_simps)
qed

section \<open>Sealing\<close>

definition key_ok :: "ticket_key \<Rightarrow> bool" where "key_ok k \<longleftrightarrow> length (tk_keyName k) = ticketKeyNameLen"

lemma find_key_some: "find_key name i ks = Some (j, k) \<Longrightarrow> k \<in> set ks \<and> name = tk_keyName k"
  by (induction ks arbitrary: i) (auto split: if_splits)

lemma find_key_append: "find_key name i (ks @ ls) = (case find_key name i ks of Some r \<Rightarrow> Some r | None \<Rightarrow> find_key name (i + length ks) ls)"
  by (induction ks arbitrary: i) (auto split: option.split)

lemma find_key_none: "(\<forall>k\<in>set ks. name \<noteq> tk_keyName k) \<Longrightarrow> find_key name i ks = None"
  by (induction ks arbitrary: i) auto

lemma decrypt_sealed:
  assumes C: "ticket_crypto_ok C" and s: "session_state_ok s" and k: "key_ok key" and iv: "length iv = aesBlockSize"
    and en: "\<not> tcf_SessionTicketsDisabled cfg"
    and f: "find_key (tk_keyName key) 0 (tcf_sessionTicketKeys cfg) = Some (j, key)"
  defines "sealed \<equiv> tk_keyName key @ iv @ tc_ctr C (tk_aesKey key) iv (sessionState_marshal s)"
  shows "decryptTicket C cfg (sealed @ tc_hmac C (tk_hmacKey key) sealed) = Accept (s\<lparr>ss_usedOldKey := (j > 0)\<rparr>)"
proof -
  define ct where "ct = tc_ctr C (tk_aesKey key) iv (sessionState_marshal s)"
  define mac where "mac = tc_hmac C (tk_hmacKey key) sealed"
  have dec: "tc_ctr C (tk_aesKey key) iv ct = sessionState_marshal s" using C by (simp add: ticket_crypto_ok_def ct_def)
  have lm: "length mac = 32" using C by (simp add: ticket_crypto_ok_def mac_def sha256Size_def)
  have lk: "length (tk_keyName key) = 16" "length iv = 16" using k iv by (simp_all add: key_ok_def ticket_sizes)
  have e: "sealed = tk_keyName key @ iv @ ct" by (simp add: sealed_def ct_def)
  define x where "x = sealed @ mac"
  have lx: "length x = 32 + length ct + 32" using lk lm by (simp add: x_def e)
  have r: "sub x 0 16 k1 = k1 (tk_keyName key)" "sub x 16 32 k1 = k1 iv" "from_at x (32 + length ct) k1 = k1 mac"
    "sub x 0 (32 + length ct) k1 = k1 sealed" "sub x 32 (32 + length ct) k1 = k1 ct" for k1 :: "byte list \<Rightarrow> session_state parse"
    using lk lm by (simp_all add: sub_def from_at_def lx) (simp_all add: x_def e)
  have "decryptTicket C cfg x = sessionState_unmarshal
      \<lparr>ss_vers = 0, ss_cipherSuite = 0, ss_masterSecret = [], ss_certificates = [], ss_usedOldKey = (j > 0)\<rparr> (sessionState_marshal s)"
    using en lx f dec unfolding decryptTicket_def ticket_sizes by (simp add: r mac_def cong: if_cong)
  also have "\<dots> = Accept (s\<lparr>ss_usedOldKey := (j > 0)\<rparr>)" by (simp add: sessionState_roundtrip[OF s])
  finally show ?thesis by (simp add: x_def mac_def)
qed

text \<open>C32: Tickets survive key rotation. A ticket sealed under the first key of a server opens
  to the same session state under any later key list that still holds the key: at the front it
  is current, further back it is marked as sealed under an old key.\<close>

theorem ticket_roundtrip:
  assumes "ticket_crypto_ok C" "session_state_ok s" "length iv = aesBlockSize"
    and "tcf_sessionTicketKeys cfg = key # keys" "length (tk_keyName key) = ticketKeyNameLen"
    and "tcf_sessionTicketKeys cfg' = newer @ key # older" "\<forall>k\<in>set newer. tk_keyName k \<noteq> tk_keyName key"
    and "\<not> tcf_SessionTicketsDisabled cfg'"
  shows "\<exists>t. encryptTicket C cfg (Some iv) s = Accept t \<and> decryptTicket C cfg' t = Accept (s\<lparr>ss_usedOldKey := (newer \<noteq> [])\<rparr>)"
proof -
  define sealed where "sealed = tk_keyName key @ iv @ tc_ctr C (tk_aesKey key) iv (sessionState_marshal s)"
  have e: "encryptTicket C cfg (Some iv) s = Accept (sealed @ tc_hmac C (tk_hmacKey key) sealed)"
    using assms(4,5) by (simp add: encryptTicket_def sealed_def Let_def)
  have "find_key (tk_keyName key) 0 newer = None" by (rule find_key_none) (use assms(7) in metis)
  then have "find_key (tk_keyName key) 0 (tcf_sessionTicketKeys cfg') = Some (length newer, key)"
    using assms(6) by (simp add: find_key_append)
  from decrypt_sealed[OF assms(1,2) _ assms(3) assms(8) this] assms(5)
  have "decryptTicket C cfg' (sealed @ tc_hmac C (tk_hmacKey key) sealed) = Accept (s\<lparr>ss_usedOldKey := (newer \<noteq> [])\<rparr>)"
    by (simp add: sealed_def key_ok_def)
  with e show ?thesis by blast
qed

definition sample_crypto :: ticket_crypto where
  "sample_crypto = \<lparr>tc_ctr = (\<lambda>k iv x. map (\<lambda>b. b XOR 85) x), tc_hmac = (\<lambda>k x. replicate 32 (of_nat (length x))),
     tc_sha512 = (\<lambda>x. replicate 64 (of_nat (length x)))\<rparr>"

definition sample_key :: "byte \<Rightarrow> ticket_key" where
  "sample_key b = \<lparr>tk_keyName = replicate 16 b, tk_aesKey = replicate 16 1, tk_hmacKey = replicate 16 2\<rparr>"

definition sample_cfg :: "ticket_key list \<Rightarrow> ticket_config" where
  "sample_cfg ks = \<lparr>tcf_SessionTicketsDisabled = False, tcf_SessionTicketKey = [], tcf_sessionTicketKeys = ks\<rparr>"

definition sample_session :: session_state where
  "sample_session = \<lparr>ss_vers = 0x101, ss_cipherSuite = 0xe013, ss_masterSecret = [1, 2, 3], ss_certificates = [[4, 5]], ss_usedOldKey = False\<rparr>"

lemma sample_crypto_ok: "ticket_crypto_ok sample_crypto"
  by (simp add: ticket_crypto_ok_def sample_crypto_def sha256Size_def comp_def xor.assoc)

theorem ticket_roundtrip_witness:
  "\<exists>t. encryptTicket sample_crypto (sample_cfg [sample_key 7]) (Some (replicate 16 9)) sample_session = Accept t
     \<and> decryptTicket sample_crypto (sample_cfg [sample_key 8, sample_key 7]) t = Accept (sample_session\<lparr>ss_usedOldKey := True\<rparr>)"
  using ticket_roundtrip[OF sample_crypto_ok, of sample_session "replicate 16 9" "sample_cfg [sample_key 7]" "sample_key 7" "[]"
      "sample_cfg [sample_key 8, sample_key 7]" "[sample_key 8]" "[]"]
  by (simp add: session_state_ok_def sample_session_def aesBlockSize_def ticketKeyNameLen_def sample_cfg_def sample_key_def)

text \<open>C30: Only authenticated tickets open. Opening a ticket never panics, whatever its bytes;
  when it succeeds tickets are enabled, the last 32 bytes are the MAC of everything before them
  under one of the server's keys, and that key is the one the ticket names.\<close>

theorem ticket_authenticated:
  "decryptTicket C cfg t \<noteq> Panic
     \<and> (decryptTicket C cfg t = Accept s \<longrightarrow> \<not> tcf_SessionTicketsDisabled cfg
          \<and> (\<exists>key\<in>set (tcf_sessionTicketKeys cfg). tk_keyName key = take 16 t
               \<and> drop (length t - 32) t = tc_hmac C (tk_hmacKey key) (take (length t - 32) t)))"
proof -
  define key where "key = find_key (take 16 t) 0 (tcf_sessionTicketKeys cfg)"
  define n where "n = length t - 32"
  show ?thesis
  proof (cases "tcf_SessionTicketsDisabled cfg \<or> length t < 64")
    case True
    then show ?thesis by (auto simp: decryptTicket_def ticket_sizes)
  next
    case False
    then have l: "32 \<le> n" "n \<le> length t" by (auto simp: n_def)
    have d: "decryptTicket C cfg t = (case key of None \<Rightarrow> Reject
      | Some (i, k) \<Rightarrow> if drop n t \<noteq> tc_hmac C (tk_hmacKey k) (take n t) then Reject
         else sessionState_unmarshal
                    \<lparr>ss_vers = 0, ss_cipherSuite = 0, ss_masterSecret = [], ss_certificates = [], ss_usedOldKey = (i > 0)\<rparr>
                    (tc_ctr C (tk_aesKey k) (take 16 (drop 16 t)) (take (n - 32) (drop 32 t))))"
      using False l unfolding decryptTicket_def ticket_sizes n_def[symmetric] key_def by (simp add: sub_def from_at_def split: option.split)
    show ?thesis
    proof (cases key)
      case None
      then show ?thesis by (simp add: d)
    next
      case (Some a)
      obtain i k where a: "a = (i, k)" by fastforce
      with Some have "k \<in> set (tcf_sessionTicketKeys cfg) \<and> take 16 t = tk_keyName k" unfolding key_def by (auto dest: find_key_some)
      then show ?thesis using False sessionState_unmarshal_no_panic by (auto simp: d Some a n_def[symmetric])
    qed
  qed
qed

theorem ticket_authenticated_witness:
  "\<exists>t s. decryptTicket sample_crypto (sample_cfg [sample_key 7]) t = Accept s
     \<and> (\<exists>key\<in>set (tcf_sessionTicketKeys (sample_cfg [sample_key 7])). tk_keyName key = take 16 t)"
proof -
  have k: "key_ok (sample_key 7)" "length (replicate 16 (9 :: byte)) = aesBlockSize" "session_state_ok sample_session"
    by (simp_all add: key_ok_def sample_key_def ticketKeyNameLen_def aesBlockSize_def session_state_ok_def sample_session_def)
  have f: "\<not> tcf_SessionTicketsDisabled (sample_cfg [sample_key 7])"
    "find_key (tk_keyName (sample_key 7)) 0 (tcf_sessionTicketKeys (sample_cfg [sample_key 7])) = Some (0, sample_key 7)"
    by (simp_all add: sample_cfg_def)
  obtain t where "decryptTicket sample_crypto (sample_cfg [sample_key 7]) t = Accept (sample_session\<lparr>ss_usedOldKey := False\<rparr>)"
    using decrypt_sealed[OF sample_crypto_ok k(3,1,2) f] by auto
  then show ?thesis using ticket_authenticated by blast
qed

end
