(* ===== verification/Tls_Config.thy ===== *)
theory Tls_Config
  imports Tls_Program Tls_Prf Tls_Ticket
begin

text \<open>
  What both sides of a handshake are configured with, \<^verbatim>\<open>zgmtls/common.go\<close>, and the choice and check of
  signatures, \<^verbatim>\<open>zgmtls/auth.go\<close>. Keys, certificates and the operations of the cryptographic and
  X.509 libraries on them are parameters (\<open>pki\<close>); a callback of the configuration is a function.
\<close>

section \<open>Keys and certificates\<close>

text \<open>A public key by its Go type; the flag of an elliptic-curve key says that its curve is SM2's.\<close>

datatype public_key = EC_Key bool nat | RSA_Key nat | Other_Key

record x509 =
  xc_Raw :: "byte list"
  xc_RawIssuer :: "byte list"
  xc_PublicKey :: public_key
  xc_KeyUsage :: u32
  xc_algECDSA :: bool

datatype signer_opts = Nil_Opts | Hash_Opts hash_id | PSS_Opts hash_id

text \<open>
  A private key by the interfaces it implements: \<open>crypto.Signer\<close> (the arguments are the random bytes
  it draws, the digest and the options) and \<open>crypto.Decrypter\<close> (the flag asks for a session key of 48 bytes).
\<close>

record private_key =
  sk_Public :: public_key
  sk_Sign :: "(byte list \<Rightarrow> byte list \<Rightarrow> signer_opts \<Rightarrow> byte list + tls_err) option"
  sk_Decrypt :: "(byte list \<Rightarrow> byte list \<Rightarrow> bool \<Rightarrow> byte list + tls_err) option"

record tls_certificate =
  tc_Certificate :: "byte list list"
  tc_PrivateKey :: private_key
  tc_OCSPStaple :: "byte list"
  tc_SignedCertificateTimestamps :: "byte list list"
  tc_Leaf :: "x509 option"

definition no_private_key :: private_key where
  "no_private_key = \<lparr>sk_Public = Other_Key, sk_Sign = None, sk_Decrypt = None\<rparr>"

definition empty_certificate :: tls_certificate where
  "empty_certificate = \<lparr>tc_Certificate = [], tc_PrivateKey = no_private_key, tc_OCSPStaple = [],
     tc_SignedCertificateTimestamps = [], tc_Leaf = None\<rparr>"

record verify_opts =
  vo_Roots :: "x509 list option"
  vo_Intermediates :: "x509 list"
  vo_DNSName :: "byte list"
  vo_ClientAuth :: bool
  vo_Time :: nat

datatype curve = Curve_SM2 | Curve_P256 | Curve_P384 | Curve_P521

fun curve_bits :: "curve \<Rightarrow> nat" where
  "curve_bits Curve_SM2 = 256"
| "curve_bits Curve_P256 = 256"
| "curve_bits Curve_P384 = 384"
| "curve_bits Curve_P521 = 521"

text \<open>
  The library operations. A public key is its number; a point is its two coordinates.
  \<open>pk_asn1_sig\<close> and \<open>pk_asn1_uncipher\<close> are \<open>asn1.Unmarshal\<close> into the two structures of the code, \<open>pk_generate\<close> is
  \<open>elliptic.GenerateKey\<close> with \<open>elliptic.Marshal\<close> of its point, \<open>pk_mult\<close> the first coordinate of \<open>ScalarMult\<close>.
\<close>

record pki =
  pk_sm2_verify :: "nat \<Rightarrow> byte list \<Rightarrow> byte list \<Rightarrow> bool"
  pk_ecdsa_verify :: "nat \<Rightarrow> byte list \<Rightarrow> int \<Rightarrow> int \<Rightarrow> bool"
  pk_rsa_verify :: "nat \<Rightarrow> signer_opts \<Rightarrow> byte list \<Rightarrow> byte list \<Rightarrow> tls_err option"
  pk_asn1_sig :: "byte list \<Rightarrow> ((int \<times> int) \<times> byte list) + tls_err"
  pk_asn1_cipher :: "nat \<times> nat \<times> byte list \<times> byte list \<Rightarrow> byte list + tls_err"
  pk_asn1_uncipher :: "byte list \<Rightarrow> (int \<times> int \<times> byte list \<times> byte list) + tls_err"
  pk_sm2_encrypt :: "byte list \<Rightarrow> bool \<Rightarrow> nat \<Rightarrow> byte list \<Rightarrow> byte list + tls_err"
  pk_rsa_encrypt :: "byte list \<Rightarrow> nat \<Rightarrow> byte list \<Rightarrow> byte list + tls_err"
  pk_generate :: "curve \<Rightarrow> byte list \<Rightarrow> (byte list \<times> byte list) + tls_err"
  pk_unmarshal :: "curve \<Rightarrow> byte list \<Rightarrow> (nat \<times> nat) option"
  pk_mult :: "curve \<Rightarrow> nat \<times> nat \<Rightarrow> byte list \<Rightarrow> nat"
  pk_x25519_base :: "byte list \<Rightarrow> byte list"
  pk_x25519 :: "byte list \<Rightarrow> byte list \<Rightarrow> byte list"
  pk_parse :: "byte list \<Rightarrow> x509 + tls_err"
  pk_verify :: "verify_opts \<Rightarrow> x509 \<Rightarrow> x509 list list + tls_err"

section \<open>Configuration\<close>

definition NoClientCert :: nat where "NoClientCert = 0"
definition RequestClientCert :: nat where "RequestClientCert = 1"
definition RequireAnyClientCert :: nat where "RequireAnyClientCert = 2"
definition VerifyClientCertIfGiven :: nat where "VerifyClientCertIfGiven = 3"
definition RequireAndVerifyClientCert :: nat where "RequireAndVerifyClientCert = 4"

lemmas client_auth = NoClientCert_def RequestClientCert_def RequireAnyClientCert_def VerifyClientCertIfGiven_def
  RequireAndVerifyClientCert_def

record client_session =
  cse_sessionTicket :: "byte list"
  cse_vers :: u16
  cse_cipherSuite :: u16
  cse_masterSecret :: "byte list"
  cse_serverCertificates :: "x509 list"
  cse_verifiedChains :: "x509 list list"

text \<open>
  The fields that the handshakes read. \<open>cf_ClientCAs\<close> is the pool with its subjects; \<open>cf_SessionCache\<close> is the
  lookup of the session cache, \<open>cf_KeyLog\<close> the result of writing a line with these two secrets.
\<close>

record tls_config =
  cf_GMSupport :: bool
  cf_Certificates :: "tls_certificate list"
  cf_NameToCertificate :: "(byte list \<Rightarrow> tls_certificate option) option"
  cf_GetCertificate :: "(client_hello \<Rightarrow> tls_certificate option + tls_err) option"
  cf_GetKECertificate :: "(client_hello \<Rightarrow> tls_certificate option + tls_err) option"
  cf_GetClientCertificate :: "(byte list list \<Rightarrow> u16 list \<Rightarrow> tls_certificate + tls_err) option"
  cf_VerifyPeerCertificate :: "(byte list list \<Rightarrow> x509 list list \<Rightarrow> tls_err option) option"
  cf_RootCAs :: "x509 list option"
  cf_NextProtos :: "byte list list"
  cf_ServerName :: "byte list"
  cf_ClientAuth :: nat
  cf_ClientCAs :: "(x509 list \<times> byte list list) option"
  cf_InsecureSkipVerify :: bool
  cf_CipherSuites :: "u16 list option"
  cf_PreferServerCipherSuites :: bool
  cf_SessionCache :: "(byte list \<Rightarrow> client_session option) option"
  cf_MinVersion :: u16
  cf_MaxVersion :: u16
  cf_CurvePreferences :: "u16 list"
  cf_KeyLog :: "(byte list \<Rightarrow> byte list \<Rightarrow> tls_err option) option"
  cf_time :: nat
  cf_tickets :: ticket_config

definition minVersion :: u16 where "minVersion = VersionGMSSL"
definition maxVersion :: u16 where "maxVersion = VersionTLS12"

definition CurveP256 :: u16 where "CurveP256 = 23"
definition CurveP384 :: u16 where "CurveP384 = 24"
definition CurveP521 :: u16 where "CurveP521 = 25"
definition X25519 :: u16 where "X25519 = 29"

definition config_cipherSuites :: "hashes \<Rightarrow> primitives \<Rightarrow> tls_config \<Rightarrow> u16 list" where
  "config_cipherSuites H P c = (case cf_CipherSuites c of None \<Rightarrow> defaultCipherSuites H P | Some s \<Rightarrow> s)"

definition getCipherSuites :: "tls_config \<Rightarrow> u16 list" where
  "getCipherSuites c =
     (case cf_CipherSuites c of None \<Rightarrow> [GMTLS_ECDHE_SM2_WITH_SM4_SM3, GMTLS_SM2_WITH_SM4_SM3] | Some s \<Rightarrow> s)"

definition config_minVersion :: "tls_config \<Rightarrow> u16" where
  "config_minVersion c = (if cf_MinVersion c = 0 then minVersion else cf_MinVersion c)"

definition config_maxVersion :: "tls_config \<Rightarrow> u16" where
  "config_maxVersion c = (if cf_MaxVersion c = 0 then maxVersion else cf_MaxVersion c)"

definition defaultCurvePreferences :: "u16 list" where
  "defaultCurvePreferences = [X25519, CurveP256, CurveP384, CurveP521]"

definition curvePreferences :: "tls_config \<Rightarrow> u16 list" where
  "curvePreferences c = (if cf_CurvePreferences c = [] then defaultCurvePreferences else cf_CurvePreferences c)"

definition mutualVersion :: "tls_config \<Rightarrow> u16 \<Rightarrow> u16 option" where
  "mutualVersion c vers =
     (if vers < config_minVersion c then None
      else if vers > config_maxVersion c then Some (config_maxVersion c) else Some vers)"

text \<open>ASCII lower case (\<open>strings.ToLower\<close> on host names), trailing dots, and labels between dots.\<close>

definition to_lower :: "byte list \<Rightarrow> byte list" where
  "to_lower s = map (\<lambda>b. if 0x41 \<le> b \<and> b \<le> 0x5a then b + 0x20 else b) s"

definition strip_dots :: "byte list \<Rightarrow> byte list" where
  "strip_dots s = rev (dropWhile (\<lambda>b. b = 0x2e) (rev s))"

fun split_dots :: "byte list \<Rightarrow> byte list list" where
  "split_dots [] = [[]]"
| "split_dots (b # s) =
     (if b = 0x2e then [] # split_dots s
      else case split_dots s of [] \<Rightarrow> [[b]] | l # ls \<Rightarrow> (b # l) # ls)"

fun join_dots :: "byte list list \<Rightarrow> byte list" where
  "join_dots [] = []"
| "join_dots [l] = l"
| "join_dots (l # ls) = l @ [0x2e] @ join_dots ls"

text \<open>Replacing labels by wildcards from the left, until the map knows the name.\<close>

fun wildcards :: "(byte list \<Rightarrow> 'a option) \<Rightarrow> byte list list \<Rightarrow> nat \<Rightarrow> nat \<Rightarrow> 'a option" where
  "wildcards m labels i 0 = None"
| "wildcards m labels i (Suc k) =
     (let labels = labels[i := [0x2a]]
      in case m (join_dots labels) of Some c \<Rightarrow> Some c | None \<Rightarrow> wildcards m labels (i + 1) k)"

definition getCertificate :: "tls_config \<Rightarrow> client_hello \<Rightarrow> tls_certificate + tls_err" where
  "getCertificate c info =
     (let fallback = (if cf_Certificates c = [] then Inr (Text_Error ''tls: no certificates configured'')
            else if length (cf_Certificates c) = 1 then Inl (cf_Certificates c ! 0)
            else case cf_NameToCertificate c of None \<Rightarrow> Inl (cf_Certificates c ! 0)
            | Some m \<Rightarrow>
                let name = strip_dots (to_lower (cl_serverName info)); labels = split_dots name
                in case m name of Some cert \<Rightarrow> Inl cert
                | None \<Rightarrow> (case wildcards m labels 0 (length labels) of Some cert \<Rightarrow> Inl cert
                    | None \<Rightarrow> Inl (cf_Certificates c ! 0)))
      in case cf_GetCertificate c of
           Some f \<Rightarrow> (if cf_Certificates c = [] \<or> length (cl_serverName info) > 0 then
                        (case f info of Inl (Some cert) \<Rightarrow> Inl cert | Inr e \<Rightarrow> Inr e | Inl None \<Rightarrow> fallback)
                      else fallback)
         | None \<Rightarrow> fallback)"

definition getEKCertificate :: "tls_config \<Rightarrow> client_hello \<Rightarrow> tls_certificate + tls_err" where
  "getEKCertificate c info =
     (let fallback = (if length (cf_Certificates c) \<ge> 2 then Inl (cf_Certificates c ! 1)
            else Inr (Text_Error ''tls: no key exchange (encrypt) certificate configured''))
      in case cf_GetKECertificate c of
           Some f \<Rightarrow> (if length (cf_Certificates c) < 2 then
                        (case f info of Inl (Some cert) \<Rightarrow> Inl cert | Inr e \<Rightarrow> Inr e | Inl None \<Rightarrow> fallback)
                      else fallback)
         | None \<Rightarrow> fallback)"

definition writeKeyLog :: "tls_config \<Rightarrow> byte list \<Rightarrow> byte list \<Rightarrow> tls_err option" where
  "writeKeyLog c clientRandom masterSecret =
     (case cf_KeyLog c of None \<Rightarrow> None | Some w \<Rightarrow> w clientRandom masterSecret)"

text \<open>\<open>mutualProtocol\<close>: the first of the preferred protocols that is offered, or else the first offered, as a fallback.\<close>

definition mutualProtocol :: "byte list list \<Rightarrow> byte list list \<Rightarrow> (byte list \<times> bool) option" where
  "mutualProtocol protos preferenceProtos =
     (case find (\<lambda>s. s \<in> set protos) preferenceProtos of
        Some s \<Rightarrow> Some (s, False)
      | None \<Rightarrow> (case protos of [] \<Rightarrow> None | p # _ \<Rightarrow> Some (p, True)))"

section \<open>Signatures\<close>

definition PKCS1WithSHA1 :: u16 where "PKCS1WithSHA1 = 0x0201"
definition PKCS1WithSHA256 :: u16 where "PKCS1WithSHA256 = 0x0401"
definition PKCS1WithSHA384 :: u16 where "PKCS1WithSHA384 = 0x0501"
definition PKCS1WithSHA512 :: u16 where "PKCS1WithSHA512 = 0x0601"
definition PSSWithSHA256 :: u16 where "PSSWithSHA256 = 0x0804"
definition PSSWithSHA384 :: u16 where "PSSWithSHA384 = 0x0805"
definition PSSWithSHA512 :: u16 where "PSSWithSHA512 = 0x0806"
definition ECDSAWithP256AndSHA256 :: u16 where "ECDSAWithP256AndSHA256 = 0x0403"
definition ECDSAWithP384AndSHA384 :: u16 where "ECDSAWithP384AndSHA384 = 0x0503"
definition ECDSAWithP521AndSHA512 :: u16 where "ECDSAWithP521AndSHA512 = 0x0603"
definition ECDSAWithSHA1 :: u16 where "ECDSAWithSHA1 = 0x0203"
definition SM2WITHSM3 :: u16 where "SM2WITHSM3 = 0x0204"

lemmas schemes = PKCS1WithSHA1_def PKCS1WithSHA256_def PKCS1WithSHA384_def PKCS1WithSHA512_def PSSWithSHA256_def
  PSSWithSHA384_def PSSWithSHA512_def ECDSAWithP256AndSHA256_def ECDSAWithP384AndSHA384_def ECDSAWithP521AndSHA512_def
  ECDSAWithSHA1_def SM2WITHSM3_def

lemmas signature_types = signaturePKCS1v15_def signatureECDSA_def signatureRSAPSS_def signatureSM2_def

definition supportedSignatureAlgorithms :: "u16 list" where
  "supportedSignatureAlgorithms =
     [PKCS1WithSHA256, ECDSAWithP256AndSHA256, PKCS1WithSHA384, ECDSAWithP384AndSHA384, PKCS1WithSHA512, ECDSAWithP521AndSHA512,
      PKCS1WithSHA1, ECDSAWithSHA1]"

definition lookupTLSHash :: "u16 \<Rightarrow> hash_id option" where
  "lookupTLSHash a =
     (if a \<in> {PKCS1WithSHA1, ECDSAWithSHA1} then Some SHA1
      else if a \<in> {PKCS1WithSHA256, PSSWithSHA256, ECDSAWithP256AndSHA256} then Some SHA256
      else if a \<in> {PKCS1WithSHA384, PSSWithSHA384, ECDSAWithP384AndSHA384} then Some SHA384
      else if a \<in> {PKCS1WithSHA512, PSSWithSHA512, ECDSAWithP521AndSHA512} then Some SHA512
      else None)"

definition isSupportedSignatureAlgorithm :: "u16 \<Rightarrow> u16 list \<Rightarrow> bool" where
  "isSupportedSignatureAlgorithm a supported \<longleftrightarrow> a \<in> set supported"

definition signatureFromSignatureScheme :: "u16 \<Rightarrow> byte" where
  "signatureFromSignatureScheme a =
     (if a \<in> {PKCS1WithSHA1, PKCS1WithSHA256, PKCS1WithSHA384, PKCS1WithSHA512} then signaturePKCS1v15
      else if a \<in> {PSSWithSHA256, PSSWithSHA384, PSSWithSHA512} then signatureRSAPSS
      else if a \<in> {ECDSAWithSHA1, ECDSAWithP256AndSHA256, ECDSAWithP384AndSHA384, ECDSAWithP521AndSHA512} then signatureECDSA
      else 0)"

text \<open>The loop over the peer's algorithms; a supported one without a hash panics.\<close>

fun pick_among :: "public_key \<Rightarrow> u16 list \<Rightarrow> u16 list \<Rightarrow> ((u16 \<times> byte \<times> hash_id) + tls_err) option" where
  "pick_among pub [] ours = Some (Inr (Text_Error ''tls: peer doesn't support any common signature algorithms''))"
| "pick_among pub (a # as) ours =
     (if \<not> isSupportedSignatureAlgorithm a ours then pick_among pub as ours
      else case lookupTLSHash a of None \<Rightarrow> None
      | Some h \<Rightarrow>
          let sigType = signatureFromSignatureScheme a
          in case pub of
               RSA_Key _ \<Rightarrow> (if sigType = signaturePKCS1v15 \<or> sigType = signatureRSAPSS then Some (Inl (a, sigType, h))
                            else pick_among pub as ours)
             | EC_Key _ _ \<Rightarrow> (if sigType = signatureECDSA then Some (Inl (a, sigType, h)) else pick_among pub as ours)
             | Other_Key \<Rightarrow> Some (Inr (Text_Error ''tls: unsupported public key'')))"

definition pickSignatureAlgorithm :: "public_key \<Rightarrow> u16 list \<Rightarrow> u16 list \<Rightarrow> u16 \<Rightarrow> ((u16 \<times> byte \<times> hash_id) + tls_err) option" where
  "pickSignatureAlgorithm pub peerSigAlgs ourSigAlgs tlsVersion =
     (if tlsVersion < VersionTLS12 \<or> peerSigAlgs = [] then
        Some (case pub of
          RSA_Key _ \<Rightarrow> (if tlsVersion < VersionTLS12 then Inl (0, signaturePKCS1v15, MD5SHA1)
                       else Inl (PKCS1WithSHA1, signaturePKCS1v15, SHA1))
        | EC_Key isSM2 _ \<Rightarrow> (if isSM2 then Inl (SM2WITHSM3, signatureSM2, SHA1) else Inl (ECDSAWithSHA1, signatureECDSA, SHA1))
        | Other_Key \<Rightarrow> Inr (Text_Error ''tls: unsupported public key''))
      else pick_among pub peerSigAlgs ourSigAlgs)"

definition verifyHandshakeSignature :: "pki \<Rightarrow> byte \<Rightarrow> public_key \<Rightarrow> hash_id \<Rightarrow> byte list \<Rightarrow> byte list \<Rightarrow> tls_err option" where
  "verifyHandshakeSignature K sigType pub hashFunc digest sig =
     (if sigType = signatureECDSA then
        (case pub of EC_Key isSM2 n \<Rightarrow>
           (case pk_asn1_sig K sig of Inr e \<Rightarrow> Some e
            | Inl ((r, s), _) \<Rightarrow>
                if r \<le> 0 \<or> s \<le> 0 then Some (Text_Error ''tls: ECDSA signature contained zero or negative values'')
                else if isSM2 then (if pk_sm2_verify K n digest sig then None else Some (Text_Error ''tls: SM2 verification failure''))
                else if pk_ecdsa_verify K n digest r s then None else Some (Text_Error ''tls: ECDSA verification failure''))
         | _ \<Rightarrow> Some (Text_Error ''tls: ECDSA signing requires a ECDSA public key''))
      else if sigType = signaturePKCS1v15 then
        (case pub of RSA_Key n \<Rightarrow> pk_rsa_verify K n (Hash_Opts hashFunc) digest sig
         | _ \<Rightarrow> Some (Text_Error ''tls: RSA signing requires a RSA public key''))
      else if sigType = signatureRSAPSS then
        (case pub of RSA_Key n \<Rightarrow> pk_rsa_verify K n (PSS_Opts hashFunc) digest sig
         | _ \<Rightarrow> Some (Text_Error ''tls: RSA signing requires a RSA public key''))
      else if sigType = signatureSM2 then
        (case pub of EC_Key isSM2 n \<Rightarrow>
           (if \<not> isSM2 then Some (Text_Error ''tls: SM2 signing requires an SM2 public key'')
            else if pk_sm2_verify K n digest sig then None else Some (Text_Error ''verify sm2 signature error''))
         | _ \<Rightarrow> Some (Text_Error ''tls: SM2 signing requires an SM2 public key''))
      else Some (Text_Error ''tls: unknown signature algorithm''))"

text \<open>Every algorithm on the list of the code has a hash, so choosing among them does not panic.\<close>

lemma supported_have_hash: "a \<in> set supportedSignatureAlgorithms \<Longrightarrow> lookupTLSHash a \<noteq> None"
  by (auto simp: supportedSignatureAlgorithms_def lookupTLSHash_def)

lemma pick_among_total:
  assumes "set ours \<subseteq> set supportedSignatureAlgorithms"
  shows "pick_among pub peer ours \<noteq> None"
proof (induction peer)
  case (Cons a as)
  have "a \<in> set ours \<Longrightarrow> lookupTLSHash a \<noteq> None" using assms supported_have_hash by blast
  then show ?case using Cons
    by (cases pub; cases "lookupTLSHash a") (auto simp: isSupportedSignatureAlgorithm_def Let_def)
qed simp

lemma pickSignatureAlgorithm_total: "pickSignatureAlgorithm pub peer supportedSignatureAlgorithms v \<noteq> None"
  using pick_among_total[of supportedSignatureAlgorithms pub peer] by (simp add: pickSignatureAlgorithm_def)

text \<open>Below TLS 1.2 an SM2 key always signs with SM2.\<close>

lemma pickSignatureAlgorithm_sm2 [simp]:
  "v < VersionTLS12 \<Longrightarrow> pickSignatureAlgorithm (EC_Key True n) peer ours v = Some (Inl (SM2WITHSM3, signatureSM2, SHA1))"
  by (simp add: pickSignatureAlgorithm_def)

text \<open>A version that the configuration accepts lies between its bounds.\<close>

lemma mutualVersion_range:
  "mutualVersion c v = Some w \<Longrightarrow> config_minVersion c \<le> config_maxVersion c \<Longrightarrow> config_minVersion c \<le> w \<and> w \<le> config_maxVersion c \<and> w \<le> v"
  by (auto simp: mutualVersion_def split: if_splits)

end
