(* ===== verification/Tls_Keys.thy ===== *)
theory Tls_Keys
  imports Tls_Config
begin

text \<open>
  The key agreements of \<^verbatim>\<open>zgmtls/key_agreement.go\<close> and \<^verbatim>\<open>zgmtls/gm_key_agreement.go\<close>, and the wire
  form of SM2 ciphertexts, \<^verbatim>\<open>zgmtls/sm2_gmtls_wire.go\<close>. A method is a program, since it may read
  randomness; it returns the changed agreement with its result.
\<close>

section \<open>Numbers as bytes\<close>

text \<open>\<open>big.Int.SetBytes\<close> and \<open>big.Int.Bytes\<close>: big-endian, without leading zeros.\<close>

definition bytes_nat :: "byte list \<Rightarrow> nat" where
  "bytes_nat bs = foldl (\<lambda>n b. n * 256 + unat b) 0 bs"

fun nat_bytes :: "nat \<Rightarrow> byte list" where
  "nat_bytes n = (if n = 0 then [] else nat_bytes (n div 256) @ [of_nat n])"

declare nat_bytes.simps [simp del]

lemma nat_bytes_0 [simp]: "nat_bytes 0 = []" by (simp add: nat_bytes.simps)

lemma bytes_nat_simps [simp]: "bytes_nat [] = 0" "bytes_nat (bs @ [b]) = bytes_nat bs * 256 + unat b"
  by (simp_all add: bytes_nat_def)

text \<open>Padding to the left with zeros gives a fixed-width number back.\<close>

lemma nat_bytes_pad:
  "length (nat_bytes (bytes_nat bs)) \<le> length bs
   \<and> replicate (length bs - length (nat_bytes (bytes_nat bs))) 0 @ nat_bytes (bytes_nat bs) = bs"
proof (induction bs rule: rev_induct)
  case (snoc b bs)
  have d: "(bytes_nat bs * 256 + unat b) div 256 = bytes_nat bs" using byte_less[of b] by simp
  have z: "(256 :: byte) = 0" by simp
  have m: "(of_nat (bytes_nat bs * 256 + unat b) :: byte) = b" by (simp add: z)
  show ?case
  proof (cases "bytes_nat (bs @ [b]) = 0")
    case True
    then have b: "b = 0" "bytes_nat bs = 0" by (auto simp: unat_eq_0)
    then have "replicate (length bs) 0 = bs" using snoc by simp
    then show ?thesis using b True by simp (metis replicate_append_same)
  next
    case False
    then have "nat_bytes (bytes_nat (bs @ [b])) = nat_bytes (bytes_nat bs) @ [b]"
      by (subst nat_bytes.simps) (simp add: d m z)
    then show ?thesis using snoc by simp
  qed
qed simp

section \<open>SM2 ciphertexts on the wire\<close>

definition cipherMarshalSM2Plain :: "pki \<Rightarrow> byte list \<Rightarrow> byte list + tls_err" where
  "cipherMarshalSM2Plain K data =
     (if length data < 1 + 32 + 32 + 32 then Inr (Text_Error ''sm2: ciphertext too short for GMTLS marshal'')
      else if data ! 0 \<noteq> 0x04 then Inr (Text_Error ''sm2: expected uncompressed point prefix 0x04'')
      else let data = drop 1 data; x = bytes_nat (take 32 data); y = bytes_nat (take 32 (drop 32 data));
               hash = take 32 (drop 64 data); cipherText = drop 96 data
           in pk_asn1_cipher K (x, y, hash, cipherText))"

definition pad32 :: "byte list \<Rightarrow> byte list" where "pad32 b = replicate (32 - length b) 0 @ b"

text \<open>The coordinates are signed numbers in ASN.1; \<open>Bytes\<close> drops the sign.\<close>

definition cipherUnmarshalSM2ToPlain :: "pki \<Rightarrow> byte list \<Rightarrow> byte list + tls_err" where
  "cipherUnmarshalSM2ToPlain K data =
     (case pk_asn1_uncipher K data of Inr e \<Rightarrow> Inr e
      | Inl (x, y, hash, cipherText) \<Rightarrow>
          Inl ([0x04] @ pad32 (nat_bytes (nat \<bar>x\<bar>)) @ pad32 (nat_bytes (nat \<bar>y\<bar>)) @ hash @ cipherText))"

lemma list_four: "take 32 xs @ take 32 (drop 32 xs) @ take 32 (drop 64 xs) @ drop 96 xs = xs" for xs :: "'a list"
proof -
  have "take 32 (drop 64 xs) @ drop 96 xs = drop 64 xs" using append_take_drop_id[of 32 "drop 64 xs"] by simp
  moreover have "take 32 (drop 32 xs) @ drop 64 xs = drop 32 xs" using append_take_drop_id[of 32 "drop 32 xs"] by simp
  ultimately show ?thesis by simp
qed

text \<open>What \<^verbatim>\<open>encoding/asn1\<close> guarantees for the structure.\<close>

definition asn1_inverse :: "pki \<Rightarrow> bool" where
  "asn1_inverse K \<longleftrightarrow> (\<forall>x y h c d. pk_asn1_cipher K (x, y, h, c) = Inl d \<longrightarrow> pk_asn1_uncipher K d = Inl (int x, int y, h, c))"

lemma sm2_wire_exact:
  assumes "asn1_inverse K" "cipherMarshalSM2Plain K data = Inl d"
  shows "cipherUnmarshalSM2ToPlain K d = Inl data"
proof -
  have l: "97 \<le> length data" "data ! 0 = 0x04" using assms(2) by (auto simp: cipherMarshalSM2Plain_def split: if_splits)
  let ?t = "drop 1 data"
  let ?x = "take 32 ?t" and ?y = "take 32 (drop 32 ?t)"
  have e: "pk_asn1_cipher K (bytes_nat ?x, bytes_nat ?y, take 32 (drop 64 ?t), drop 96 ?t) = Inl d"
    using assms(2) l by (simp add: cipherMarshalSM2Plain_def Let_def)
  have u: "pk_asn1_uncipher K d = Inl (int (bytes_nat ?x), int (bytes_nat ?y), take 32 (drop 64 ?t), drop 96 ?t)"
    using assms(1) e unfolding asn1_inverse_def by blast
  have p: "pad32 (nat_bytes (bytes_nat ?x)) = ?x" "pad32 (nat_bytes (bytes_nat ?y)) = ?y"
    using nat_bytes_pad[of ?x] nat_bytes_pad[of ?y] l(1) by (simp_all add: pad32_def)
  have s: "?x @ ?y @ take 32 (drop 64 ?t) @ drop 96 ?t = ?t"
    by (rule list_four)
  have "data = 0x04 # ?t" using l by (cases data) auto
  then show ?thesis unfolding cipherUnmarshalSM2ToPlain_def u using p s by simp
qed

section \<open>Hashes of key exchanges\<close>

definition sha1Hash :: "hashes \<Rightarrow> byte list list \<Rightarrow> byte list" where
  "sha1Hash H slices = hf_sum (h_sha1 H) (concat slices)"

definition md5SHA1Hash :: "hashes \<Rightarrow> byte list list \<Rightarrow> byte list" where
  "md5SHA1Hash H slices = go_copy (go_copy (replicate 36 0) 0 (hf_sum (h_md5 H) (concat slices))) 16 (sha1Hash H slices)"

definition hashForServerKeyExchange :: "hashes \<Rightarrow> byte \<Rightarrow> hash_id \<Rightarrow> u16 \<Rightarrow> byte list list \<Rightarrow> byte list option" where
  "hashForServerKeyExchange H sigType hashFunc version slices =
     (if version = VersionGMSSL \<and> sigType = signatureSM2 then Some (hf_sum (h_sm3 H) (concat slices))
      else if version \<ge> VersionTLS12 then do { h \<leftarrow> hash_New H hashFunc; Some (hf_sum h (concat slices)) }
      else if sigType = signatureECDSA then Some (sha1Hash H slices)
      else Some (md5SHA1Hash H slices))"

text \<open>The method of the same name of \<open>eccKeyAgreementGM\<close>: the third slice has its length in front, and nothing is hashed.\<close>

fun ecc_hash_from :: "nat \<Rightarrow> byte list list \<Rightarrow> byte list" where
  "ecc_hash_from i [] = []"
| "ecc_hash_from i (s # ss) = (if i = 2 then be24 (length s) else []) @ s @ ecc_hash_from (i + 1) ss"

definition ecc_hashForServerKeyExchange :: "byte list list \<Rightarrow> byte list" where
  "ecc_hashForServerKeyExchange slices = ecc_hash_from 0 slices"

section \<open>Agreements\<close>

definition curveForCurveID :: "u16 \<Rightarrow> curve option" where
  "curveForCurveID i =
     (if i = CurveP256 then Some Curve_P256 else if i = CurveP384 then Some Curve_P384 else if i = CurveP521 then Some Curve_P521
      else None)"

record ecdhe =
  ec_version :: u16
  ec_isRSA :: bool
  ec_privateKey :: "byte list"
  ec_curveid :: u16
  ec_publicKey :: "byte list"
  ec_point :: "(nat \<times> nat) option"

definition new_ecdhe :: "u16 \<Rightarrow> bool \<Rightarrow> ecdhe" where
  "new_ecdhe v rsa = \<lparr>ec_version = v, ec_isRSA = rsa, ec_privateKey = [], ec_curveid = 0, ec_publicKey = [], ec_point = None\<rparr>"

datatype agreement =
  RSA_Agreement
| ECDHE_Agreement ecdhe
| ECC_GM u16 "x509 option"
| ECDHE_GM ecdhe

fun suite_ka :: "key_agreement \<Rightarrow> u16 \<Rightarrow> agreement" where
  "suite_ka rsaKA v = RSA_Agreement"
| "suite_ka ecdheRSAKA v = ECDHE_Agreement (new_ecdhe v True)"
| "suite_ka ecdheECDSAKA v = ECDHE_Agreement (new_ecdhe v False)"
| "suite_ka eccGMKA v = ECC_GM v None"
| "suite_ka ecdheGMKA v = ECDHE_GM (new_ecdhe v False)"

definition errClientKeyExchange :: tls_err where
  "errClientKeyExchange = Text_Error ''tls: invalid ClientKeyExchange message''"
definition errServerKeyExchange :: tls_err where
  "errServerKeyExchange = Text_Error ''tls: invalid ServerKeyExchange message''"

text \<open>The first coordinate of the shared point, right-aligned in as many bytes as the curve has.\<close>

definition shared_secret :: "pki \<Rightarrow> curve \<Rightarrow> nat \<times> nat \<Rightarrow> byte list \<Rightarrow> byte list option" where
  "shared_secret K cv pt priv =
     (let size = (curve_bits cv + 7) div 8; xBytes = nat_bytes (pk_mult K cv pt priv)
      in if length xBytes > size then None else Some (go_copy (replicate size 0) (size - length xBytes) xBytes))"

definition return_err :: "'a + tls_err \<Rightarrow> ('a \<Rightarrow> ('b + tls_err) program) \<Rightarrow> ('b + tls_err) program" where
  "return_err r k = (case r of Inl x \<Rightarrow> k x | Inr e \<Rightarrow> Return (Inr e))"

lemma return_err_simps [simp]: "return_err (Inl x) k = k x" "return_err (Inr e) k = Return (Inr e)"
  by (simp_all add: return_err_def)

definition ecdh_params :: "u16 \<Rightarrow> byte list \<Rightarrow> byte list" where
  "ecdh_params curveid public = [3] @ w16 curveid @ [b0 (length public)] @ public"

text \<open>The signature over the parameters, with its algorithm from TLS 1.2 on.\<close>

definition signed_params :: "u16 \<Rightarrow> u16 \<Rightarrow> byte list \<Rightarrow> byte list \<Rightarrow> opaque_msg" where
  "signed_params version signatureAlgorithm params sig =
     \<lparr>op_raw = None, op_data = params @ (if version \<ge> VersionTLS12 then w16 signatureAlgorithm else []) @ be16 (length sig) @ sig\<rparr>"

fun first_common_curve :: "u16 list \<Rightarrow> u16 list \<Rightarrow> u16" where
  "first_common_curve [] offered = 0"
| "first_common_curve (c # cs) offered = (if c \<in> set offered then c else first_common_curve cs offered)"

definition ecdhe_sign ::
  "hashes \<Rightarrow> tls_certificate \<Rightarrow> client_hello \<Rightarrow> server_hello \<Rightarrow> (byte \<Rightarrow> bool) \<Rightarrow> string \<Rightarrow> bool \<Rightarrow> ecdhe \<Rightarrow> byte list
   \<Rightarrow> (opaque_msg + tls_err) program" where
  "ecdhe_sign H signCert clientHello hello acceptable refusal opts ka params =
     (case sk_Sign (tc_PrivateKey signCert) of
        None \<Rightarrow> fails ''tls: certificate private key does not implement crypto.Signer''
      | Some sign \<Rightarrow>
          panics_if_none (pickSignatureAlgorithm (sk_Public (tc_PrivateKey signCert)) (cl_supportedSignatureAlgorithms clientHello)
              supportedSignatureAlgorithms (ec_version ka)) (\<lambda>picked. return_err picked (\<lambda>(signatureAlgorithm, sigType, hashFunc).
            if \<not> acceptable sigType then fails refusal
            else panics_if_none (hashForServerKeyExchange H sigType hashFunc (ec_version ka)
                  [cl_random clientHello, sv_random hello, params]) (\<lambda>digest.
              let signOpts = (if \<not> opts then Nil_Opts else if sigType = signatureRSAPSS then PSS_Opts hashFunc else Hash_Opts hashFunc)
              in Coins (\<lambda>coins. return_err (sign coins digest signOpts) (\<lambda>sig.
                   ok (signed_params (ec_version ka) signatureAlgorithm params sig)))))))"

definition is_rsa_type :: "byte \<Rightarrow> bool" where
  "is_rsa_type t \<longleftrightarrow> t = signaturePKCS1v15 \<or> t = signatureRSAPSS"

definition ecdhe_generateServerKeyExchange ::
  "hashes \<Rightarrow> pki \<Rightarrow> tls_config \<Rightarrow> tls_certificate \<Rightarrow> client_hello \<Rightarrow> server_hello \<Rightarrow> ecdhe \<Rightarrow> ((opaque_msg \<times> ecdhe) + tls_err) program" where
  "ecdhe_generateServerKeyExchange H K config signCert clientHello hello ka =
     (let ka = ka\<lparr>ec_curveid := first_common_curve (curvePreferences config) (cl_supportedCurves clientHello)\<rparr>;
          sign = (\<lambda>ka public. and_then (ecdhe_sign H signCert clientHello hello (\<lambda>t. is_rsa_type t = ec_isRSA ka)
                    ''tls: certificate cannot be used with the selected cipher suite'' True ka (ecdh_params (ec_curveid ka) public))
                    (\<lambda>skx. ok (skx, ka)))
      in if ec_curveid ka = 0 then fails ''tls: no supported elliptic curves offered''
         else if ec_curveid ka = X25519 then
           and_then (read_rand 32) (\<lambda>scalar. sign (ka\<lparr>ec_privateKey := scalar\<rparr>) (pk_x25519_base K scalar))
         else case curveForCurveID (ec_curveid ka) of
             None \<Rightarrow> fails ''tls: preferredCurves includes unsupported curve''
           | Some cv \<Rightarrow> Coins (\<lambda>coins. return_err (pk_generate K cv coins) (\<lambda>(priv, public). sign (ka\<lparr>ec_privateKey := priv\<rparr>) public)))"

definition ecdhe_gm_generateServerKeyExchange ::
  "hashes \<Rightarrow> pki \<Rightarrow> tls_certificate \<Rightarrow> client_hello \<Rightarrow> server_hello \<Rightarrow> ecdhe \<Rightarrow> ((opaque_msg \<times> ecdhe) + tls_err) program" where
  "ecdhe_gm_generateServerKeyExchange H K signCert clientHello hello ka =
     Coins (\<lambda>coins. return_err (pk_generate K Curve_SM2 coins) (\<lambda>(priv, public).
       let ka = ka\<lparr>ec_curveid := CurveP256, ec_privateKey := priv\<rparr>
       in and_then (ecdhe_sign H signCert clientHello hello (\<lambda>t. t = signatureSM2)
            ''tls: GM ECDHE requires SM2 signing certificate'' False ka (ecdh_params (ec_curveid ka) public))
            (\<lambda>skx. ok (skx, ka))))"

text \<open>The chain of the encryption certificate may be empty, and reading its first certificate panics then.\<close>

definition ecc_gm_generateServerKeyExchange ::
  "tls_certificate \<Rightarrow> tls_certificate \<Rightarrow> client_hello \<Rightarrow> server_hello \<Rightarrow> (opaque_msg + tls_err) program" where
  "ecc_gm_generateServerKeyExchange signCert cipherCert clientHello hello =
     (case tc_Certificate cipherCert of [] \<Rightarrow> Crash
      | enc # _ \<Rightarrow>
          let digest = ecc_hashForServerKeyExchange [cl_random clientHello, sv_random hello, enc]
          in case sk_Sign (tc_PrivateKey signCert) of
               None \<Rightarrow> fails ''tls: certificate private key does not implement crypto.Signer''
             | Some sign \<Rightarrow> Coins (\<lambda>coins. return_err (sign coins digest Nil_Opts) (\<lambda>sig.
                 ok \<lparr>op_raw = None, op_data = be16 (length sig) @ sig\<rparr>)))"

fun generateServerKeyExchange ::
  "hashes \<Rightarrow> pki \<Rightarrow> tls_config \<Rightarrow> tls_certificate \<Rightarrow> tls_certificate \<Rightarrow> client_hello \<Rightarrow> server_hello \<Rightarrow> agreement
   \<Rightarrow> ((opaque_msg option \<times> agreement) + tls_err) program" where
  "generateServerKeyExchange H K config signCert cipherCert clientHello hello RSA_Agreement = ok (None, RSA_Agreement)"
| "generateServerKeyExchange H K config signCert cipherCert clientHello hello (ECDHE_Agreement ka) =
     and_then (ecdhe_generateServerKeyExchange H K config signCert clientHello hello ka) (\<lambda>(skx, ka). ok (Some skx, ECDHE_Agreement ka))"
| "generateServerKeyExchange H K config signCert cipherCert clientHello hello (ECC_GM v e) =
     and_then (ecc_gm_generateServerKeyExchange signCert cipherCert clientHello hello) (\<lambda>skx. ok (Some skx, ECC_GM v e))"
| "generateServerKeyExchange H K config signCert cipherCert clientHello hello (ECDHE_GM ka) =
     and_then (ecdhe_gm_generateServerKeyExchange H K signCert clientHello hello ka) (\<lambda>(skx, ka). ok (Some skx, ECDHE_GM ka))"

definition rsa_processClientKeyExchange :: "tls_certificate \<Rightarrow> opaque_msg \<Rightarrow> u16 \<Rightarrow> (byte list + tls_err) program" where
  "rsa_processClientKeyExchange cert ckx version =
     (let c = op_data ckx
      in if length c < 2 then Return (Inr errClientKeyExchange)
         else if version \<noteq> VersionSSL30 \<and> get16 (c ! 0) (c ! 1) \<noteq> length c - 2 then Return (Inr errClientKeyExchange)
         else let ciphertext = (if version \<noteq> VersionSSL30 then drop 2 c else c)
              in case sk_Decrypt (tc_PrivateKey cert) of
                   None \<Rightarrow> fails ''tls: certificate private key does not implement crypto.Decrypter''
                 | Some dec \<Rightarrow> Coins (\<lambda>coins. Return (dec coins ciphertext True)))"

text \<open>The curve that \<open>processClientKeyExchange\<close> computes on: the chosen one, or always SM2's.\<close>

definition ecdhe_processClientKeyExchange ::
  "pki \<Rightarrow> (u16 \<Rightarrow> curve option) \<Rightarrow> ecdhe \<Rightarrow> opaque_msg \<Rightarrow> (byte list + tls_err) program" where
  "ecdhe_processClientKeyExchange K curve_of ka ckx =
     (let c = op_data ckx
      in if length c = 0 then Return (Inr errClientKeyExchange)
         else if unat (c ! 0) \<noteq> length c - 1 then Return (Inr errClientKeyExchange)
         else if ec_curveid ka = X25519 then
           (if length c \<noteq> 1 + 32 then Return (Inr errClientKeyExchange)
            else ok (pk_x25519 K (fit 32 (ec_privateKey ka)) (fit 32 (drop 1 c))))
         else case curve_of (ec_curveid ka) of None \<Rightarrow> Crash
         | Some cv \<Rightarrow>
             (case pk_unmarshal K cv (drop 1 c) of None \<Rightarrow> Return (Inr errClientKeyExchange)
              | Some pt \<Rightarrow> panics_if_none (shared_secret K cv pt (ec_privateKey ka)) ok))"

text \<open>A message of a single byte has no second length byte, and reading it panics.\<close>

definition ecc_gm_processClientKeyExchange :: "pki \<Rightarrow> tls_certificate \<Rightarrow> opaque_msg \<Rightarrow> (byte list + tls_err) program" where
  "ecc_gm_processClientKeyExchange K cert ckx =
     (case op_data ckx of
        [] \<Rightarrow> Return (Inr errClientKeyExchange)
      | [a] \<Rightarrow> Crash
      | a # b # cipherDER \<Rightarrow>
          if get16 a b \<noteq> length cipherDER then Return (Inr errClientKeyExchange)
          else case sk_Decrypt (tc_PrivateKey cert) of
            None \<Rightarrow> fails ''tls: certificate private key does not implement crypto.Decrypter''
          | Some dec \<Rightarrow> return_err (cipherUnmarshalSM2ToPlain K cipherDER) (\<lambda>plainCipher.
              Coins (\<lambda>coins. return_err (dec coins plainCipher False) (\<lambda>plain.
                if length plain \<noteq> 48 then Return (Inr errClientKeyExchange) else ok plain))))"

fun processClientKeyExchange ::
  "pki \<Rightarrow> tls_certificate \<Rightarrow> opaque_msg \<Rightarrow> u16 \<Rightarrow> agreement \<Rightarrow> (byte list + tls_err) program" where
  "processClientKeyExchange K cert ckx version RSA_Agreement = rsa_processClientKeyExchange cert ckx version"
| "processClientKeyExchange K cert ckx version (ECDHE_Agreement ka) = ecdhe_processClientKeyExchange K curveForCurveID ka ckx"
| "processClientKeyExchange K cert ckx version (ECC_GM v e) = ecc_gm_processClientKeyExchange K cert ckx"
| "processClientKeyExchange K cert ckx version (ECDHE_GM ka) = ecdhe_processClientKeyExchange K (\<lambda>_. Some Curve_SM2) ka ckx"

definition verify_signed_params ::
  "hashes \<Rightarrow> pki \<Rightarrow> public_key \<Rightarrow> client_hello \<Rightarrow> server_hello \<Rightarrow> (u16 \<times> byte \<times> hash_id) \<Rightarrow> u16 \<Rightarrow> byte list \<Rightarrow> byte list
   \<Rightarrow> (unit + tls_err) program" where
  "verify_signed_params H K pub clientHello serverHello picked version params sig =
     (case picked of (_, sigType, hashFunc) \<Rightarrow>
        if get16 (sig ! 0) (sig ! 1) + 2 \<noteq> length sig then Return (Inr errServerKeyExchange)
        else panics_if_none (hashForServerKeyExchange H sigType hashFunc version [cl_random clientHello, sv_random serverHello, params])
          (\<lambda>digest. or_error (verifyHandshakeSignature K sigType pub hashFunc digest (drop 2 sig))))"

definition ecdhe_processServerKeyExchange ::
  "hashes \<Rightarrow> pki \<Rightarrow> client_hello \<Rightarrow> server_hello \<Rightarrow> x509 \<Rightarrow> opaque_msg \<Rightarrow> ecdhe \<Rightarrow> (ecdhe + tls_err) program" where
  "ecdhe_processServerKeyExchange H K clientHello serverHello cert skx ka =
     (let key = op_data skx
      in if length key < 4 then Return (Inr errServerKeyExchange)
         else if key ! 0 \<noteq> 3 then fails ''tls: server selected unsupported curve''
         else
           let ka = ka\<lparr>ec_curveid := of_nat (get16 (key ! 1) (key ! 2))\<rparr>; publicLen = unat (key ! 3)
           in if publicLen + 4 > length key then Return (Inr errServerKeyExchange)
              else
                let params = take (4 + publicLen) key; publicKey = drop 4 params; sig = drop (4 + publicLen) key;
                    finish = (\<lambda>ka sig sigAlg.
                      panics_if_none (pickSignatureAlgorithm (xc_PublicKey cert) [sigAlg] (cl_supportedSignatureAlgorithms clientHello)
                          (ec_version ka)) (\<lambda>r. return_err r (\<lambda>picked.
                        if is_rsa_type (fst (snd picked)) \<noteq> ec_isRSA ka then Return (Inr errServerKeyExchange)
                        else and_then (verify_signed_params H K (xc_PublicKey cert) clientHello serverHello picked (ec_version ka) params sig)
                          (\<lambda>_. ok ka))));
                    check = (\<lambda>ka.
                      if ec_version ka \<ge> VersionTLS12 then
                        (if length (drop 2 sig) < 2 then Return (Inr errServerKeyExchange)
                         else finish ka (drop 2 sig) (of_nat (get16 (sig ! 0) (sig ! 1))))
                      else finish ka sig 0)
                in if length sig < 2 then Return (Inr errServerKeyExchange)
                   else if ec_curveid ka = X25519 then
                     (if length publicKey \<noteq> 32 then fails ''tls: bad X25519 public value''
                      else check (ka\<lparr>ec_publicKey := publicKey\<rparr>))
                   else case curveForCurveID (ec_curveid ka) of
                       None \<Rightarrow> fails ''tls: server selected unsupported curve''
                     | Some cv \<Rightarrow>
                         (case pk_unmarshal K cv publicKey of None \<Rightarrow> Return (Inr errServerKeyExchange)
                          | Some pt \<Rightarrow> check (ka\<lparr>ec_point := Some pt\<rparr>)))"

definition ecdhe_gm_processServerKeyExchange ::
  "hashes \<Rightarrow> pki \<Rightarrow> client_hello \<Rightarrow> server_hello \<Rightarrow> x509 \<Rightarrow> opaque_msg \<Rightarrow> ecdhe \<Rightarrow> (ecdhe + tls_err) program" where
  "ecdhe_gm_processServerKeyExchange H K clientHello serverHello cert skx ka =
     (let key = op_data skx
      in if length key < 4 then Return (Inr errServerKeyExchange)
         else if key ! 0 \<noteq> 3 then fails ''tls: server selected unsupported curve''
         else
           let ka = ka\<lparr>ec_curveid := of_nat (get16 (key ! 1) (key ! 2))\<rparr>; publicLen = unat (key ! 3)
           in if publicLen + 4 > length key then Return (Inr errServerKeyExchange)
              else
                let params = take (4 + publicLen) key; publicKey = drop 4 params; sig = drop (4 + publicLen) key
                in if length sig < 2 then Return (Inr errServerKeyExchange)
                   else case pk_unmarshal K Curve_SM2 publicKey of None \<Rightarrow> Return (Inr errServerKeyExchange)
                   | Some pt \<Rightarrow>
                       let ka = ka\<lparr>ec_point := Some pt\<rparr>
                       in panics_if_none (pickSignatureAlgorithm (xc_PublicKey cert) (cl_supportedSignatureAlgorithms clientHello)
                            supportedSignatureAlgorithms (ec_version ka)) (\<lambda>r. return_err r (\<lambda>picked.
                          and_then (verify_signed_params H K (xc_PublicKey cert) clientHello serverHello picked (ec_version ka) params sig)
                            (\<lambda>_. ok ka))))"

text \<open>The encryption certificate and an elliptic-curve key are taken for granted: a nil pointer panics.\<close>

definition ecc_gm_processServerKeyExchange ::
  "pki \<Rightarrow> client_hello \<Rightarrow> server_hello \<Rightarrow> x509 \<Rightarrow> opaque_msg \<Rightarrow> x509 option \<Rightarrow> (unit + tls_err) program" where
  "ecc_gm_processServerKeyExchange K clientHello serverHello cert skx encipherCert =
     (let key = op_data skx
      in if length key \<le> 2 then Return (Inr errServerKeyExchange)
         else if get16 (key ! 0) (key ! 1) + 2 \<noteq> length key then Return (Inr errServerKeyExchange)
         else case encipherCert of None \<Rightarrow> Crash
         | Some enc \<Rightarrow>
             let sig = drop 2 key;
                 digest = ecc_hashForServerKeyExchange [cl_random clientHello, sv_random serverHello, xc_Raw enc]
             in case xc_PublicKey cert of
                  EC_Key isSM2 n \<Rightarrow>
                    if \<not> isSM2 then fails ''tls: sm2 signing requires a sm2 public key''
                    else return_err (pk_asn1_sig K sig) (\<lambda>((r, s), rest).
                      if length rest \<noteq> 0 then fails ''tls:processServerKeyExchange: sm2 get signature failed''
                      else if r \<le> 0 \<or> s \<le> 0 then fails ''tls: processServerKeyExchange: sm2 signature contained zero or negative values''
                      else if \<not> pk_sm2_verify K n digest sig then fails ''tls: processServerKeyExchange: sm2 verification failure''
                      else ok ())
                | _ \<Rightarrow> Crash)"

fun processServerKeyExchange ::
  "hashes \<Rightarrow> pki \<Rightarrow> client_hello \<Rightarrow> server_hello \<Rightarrow> x509 \<Rightarrow> opaque_msg \<Rightarrow> agreement \<Rightarrow> (agreement + tls_err) program" where
  "processServerKeyExchange H K clientHello serverHello cert skx RSA_Agreement = fails ''tls: unexpected ServerKeyExchange''"
| "processServerKeyExchange H K clientHello serverHello cert skx (ECDHE_Agreement ka) =
     and_then (ecdhe_processServerKeyExchange H K clientHello serverHello cert skx ka) (\<lambda>ka. ok (ECDHE_Agreement ka))"
| "processServerKeyExchange H K clientHello serverHello cert skx (ECC_GM v e) =
     and_then (ecc_gm_processServerKeyExchange K clientHello serverHello cert skx e) (\<lambda>_. ok (ECC_GM v e))"
| "processServerKeyExchange H K clientHello serverHello cert skx (ECDHE_GM ka) =
     and_then (ecdhe_gm_processServerKeyExchange H K clientHello serverHello cert skx ka) (\<lambda>ka. ok (ECDHE_GM ka))"

definition rsa_generateClientKeyExchange :: "pki \<Rightarrow> client_hello \<Rightarrow> x509 \<Rightarrow> ((byte list \<times> opaque_msg) + tls_err) program" where
  "rsa_generateClientKeyExchange K clientHello cert =
     and_then (read_rand 46) (\<lambda>r.
       let preMasterSecret = w16 (cl_vers clientHello) @ r
       in case xc_PublicKey cert of
            RSA_Key n \<Rightarrow> Coins (\<lambda>coins. return_err (pk_rsa_encrypt K coins n preMasterSecret) (\<lambda>encrypted.
              ok (preMasterSecret, \<lparr>op_raw = None, op_data = be16 (length encrypted) @ encrypted\<rparr>)))
          | _ \<Rightarrow> Crash)"

text \<open>With an unset point of the peer \<open>ScalarMult\<close> panics.\<close>

definition ecdhe_generateClientKeyExchange ::
  "pki \<Rightarrow> (u16 \<Rightarrow> curve option) \<Rightarrow> ecdhe \<Rightarrow> ((byte list \<times> opaque_msg) + tls_err) program" where
  "ecdhe_generateClientKeyExchange K curve_of ka =
     (let msg = (\<lambda>serialized. \<lparr>op_raw = None, op_data = b0 (length serialized) # serialized\<rparr>)
      in if ec_curveid ka = 0 then fails ''tls: missing ServerKeyExchange message''
         else if ec_curveid ka = X25519 then
           and_then (read_rand 32) (\<lambda>scalar.
             ok (pk_x25519 K scalar (fit 32 (ec_publicKey ka)), msg (pk_x25519_base K scalar)))
         else case curve_of (ec_curveid ka) of None \<Rightarrow> Crash
         | Some cv \<Rightarrow> Coins (\<lambda>coins. return_err (pk_generate K cv coins) (\<lambda>(priv, public).
             panics_if_none (ec_point ka) (\<lambda>pt. panics_if_none (shared_secret K cv pt priv) (\<lambda>preMasterSecret.
               ok (preMasterSecret, msg public))))))"

definition ecc_gm_generateClientKeyExchange ::
  "pki \<Rightarrow> client_hello \<Rightarrow> x509 option \<Rightarrow> ((byte list \<times> opaque_msg) + tls_err) program" where
  "ecc_gm_generateClientKeyExchange K clientHello encipherCert =
     and_then (read_rand 46) (\<lambda>r.
       let preMasterSecret = w16 (cl_vers clientHello) @ r
       in panics_if_none encipherCert (\<lambda>enc. case xc_PublicKey enc of
            EC_Key isSM2 n \<Rightarrow> Coins (\<lambda>coins. return_err (pk_sm2_encrypt K coins isSM2 n preMasterSecret) (\<lambda>encrypted.
              return_err (cipherMarshalSM2Plain K encrypted) (\<lambda>encrypted.
                if length encrypted > 2 ^ 20 then fails ''tls: encrypted premaster ciphertext too large''
                else ok (preMasterSecret, \<lparr>op_raw = None, op_data = be16 (length encrypted) @ encrypted\<rparr>))))
          | _ \<Rightarrow> Crash))"

fun generateClientKeyExchange ::
  "pki \<Rightarrow> client_hello \<Rightarrow> x509 \<Rightarrow> agreement \<Rightarrow> ((byte list \<times> opaque_msg) + tls_err) program" where
  "generateClientKeyExchange K clientHello cert RSA_Agreement = rsa_generateClientKeyExchange K clientHello cert"
| "generateClientKeyExchange K clientHello cert (ECDHE_Agreement ka) = ecdhe_generateClientKeyExchange K curveForCurveID ka"
| "generateClientKeyExchange K clientHello cert (ECC_GM v e) = ecc_gm_generateClientKeyExchange K clientHello e"
| "generateClientKeyExchange K clientHello cert (ECDHE_GM ka) = ecdhe_generateClientKeyExchange K (\<lambda>_. Some Curve_SM2) ka"

end
