(* ===== verification/Tls_Gm_Client.thy ===== *)
theory Tls_Gm_Client
  imports Tls_Keys
begin

text \<open>
  The client side of a GM handshake, \<^verbatim>\<open>zgmtls/gm_handshake_client_double.go\<close> with its caller
  \<open>clientHandshake\<close> in \<^verbatim>\<open>zgmtls/handshake_client.go\<close>, as the default build compiles it. One
  definition per method, in the order of the code; \<open>doFullHandshake\<close> is cut where it reads from
  the peer. Of the fields of \<open>Conn\<close> those that a handshake sets are \<open>peer_state\<close>; what it leaves in them
  when it fails is dropped, since the connection keeps the error and is not used again.
\<close>

section \<open>State\<close>

record peer_state =
  pc_handshakes :: nat
  pc_peerCertificates :: "x509 list"
  pc_verifiedChains :: "x509 list list"
  pc_clientFinished :: "byte list"
  pc_serverFinished :: "byte list"
  pc_clientFinishedIsFirst :: bool
  pc_secureRenegotiation :: bool
  pc_clientProtocol :: "byte list"
  pc_clientProtocolFallback :: bool
  pc_ocspResponse :: "byte list"
  pc_scts :: "byte list list"
  pc_serverName :: "byte list"
  pc_cipherSuite :: u16
  pc_didResume :: bool
  pc_ekm :: "(byte list \<Rightarrow> byte list option \<Rightarrow> nat \<Rightarrow> (byte list + tls_err) option) option"

record client_hs =
  ch_conn :: peer_state
  ch_vers :: u16
  ch_serverHello :: server_hello
  ch_hello :: client_hello
  ch_suite :: cipher_suite
  ch_finishedHash :: finished_hash
  ch_masterSecret :: "byte list"
  ch_session :: "client_session option"

definition alertHandshakeFailure :: alert where "alertHandshakeFailure = 40"
definition alertBadCertificate :: alert where "alertBadCertificate = 42"
definition alertUnsupportedCertificate :: alert where "alertUnsupportedCertificate = 43"
definition alertIllegalParameter :: alert where "alertIllegalParameter = 47"
definition alertInsufficientSecurity :: alert where "alertInsufficientSecurity = 71"
definition alertInappropriateFallback :: alert where "alertInappropriateFallback = 86"

definition compressionNone :: byte where "compressionNone = 0"

definition unexpectedMessageError :: tls_err where
  "unexpectedMessageError = Text_Error ''tls: received unexpected handshake message''"

definition unexpected_message :: "('a + tls_err) program" where
  "unexpected_message = alert_fails alertUnexpectedMessage unexpectedMessageError"

text \<open>Hashing a message, and sending it; \<open>marshalled\<close> is the call of a \<open>marshal\<close> whose bytes are used.\<close>

definition hash_msg :: "byte list \<Rightarrow> client_hs \<Rightarrow> (client_hs \<Rightarrow> ('a + tls_err) program) \<Rightarrow> ('a + tls_err) program" where
  "hash_msg bytes hs k = panics_if_none (fh_Write bytes (ch_finishedHash hs)) (\<lambda>h. k (hs\<lparr>ch_finishedHash := h\<rparr>))"

definition marshalled :: "(byte list \<times> 'm) option \<Rightarrow> (byte list \<Rightarrow> 'a program) \<Rightarrow> 'a program" where
  "marshalled r k = panics_if_none r (\<lambda>(bytes, _). k bytes)"

definition send_msg :: "byte list \<Rightarrow> client_hs \<Rightarrow> (client_hs + tls_err) program" where
  "send_msg bytes hs = hash_msg bytes hs (\<lambda>hs. and_then (write_record recordTypeHandshake bytes) (\<lambda>_. ok hs))"

section \<open>The client hello\<close>

definition known_gm :: "hashes \<Rightarrow> primitives \<Rightarrow> u16 \<Rightarrow> bool" where
  "known_gm H P i \<longleftrightarrow> i \<in> cs_id ` set (gmCipherSuites H P)"

definition read_hello_rand :: "nat \<Rightarrow> (byte list + tls_err) program" where
  "read_hello_rand n = Read_Rand n (\<lambda>r. case r of Inl b \<Rightarrow> ok b | Inr _ \<Rightarrow> fails ''tls: short read from Rand'')"

definition makeClientHelloGM :: "hashes \<Rightarrow> primitives \<Rightarrow> tls_config \<Rightarrow> (client_hello + tls_err) program" where
  "makeClientHelloGM H P config =
     (if length (cf_ServerName config) = 0 \<and> \<not> cf_InsecureSkipVerify config
      then fails ''tls: either ServerName or InsecureSkipVerify must be specified in the tls.Config''
      else
        let suites = filter (known_gm H P) (getCipherSuites config)
        in and_then (read_hello_rand 32) (\<lambda>r.
             ok (empty_client_hello\<lparr>cl_vers := VersionGMSSL, cl_compressionMethods := [compressionNone], cl_random := r,
                   cl_cipherSuites := suites,
                   cl_supportedCurves := (if GMTLS_ECDHE_SM2_WITH_SM4_SM3 \<in> set suites then [CurveP256] else [])\<rparr>)))"

section \<open>The server hello\<close>

definition pickCipherSuite :: "hashes \<Rightarrow> primitives \<Rightarrow> client_hs \<Rightarrow> (client_hs + tls_err) program" where
  "pickCipherSuite H P hs =
     (case mutualCipherSuiteGM H P (cl_cipherSuites (ch_hello hs)) (sv_cipherSuite (ch_serverHello hs)) of
        None \<Rightarrow> alert_fails alertHandshakeFailure (Text_Error ''tls: server chose an unconfigured cipher suite'')
      | Some s \<Rightarrow> ok (hs\<lparr>ch_suite := s, ch_conn := (ch_conn hs)\<lparr>pc_cipherSuite := cs_id s\<rparr>\<rparr>))"

text \<open>A session id of length 0 is nil in the hello that \<open>clientHandshake\<close> makes.\<close>

definition serverResumedSession :: "client_hs \<Rightarrow> bool" where
  "serverResumedSession hs \<longleftrightarrow> ch_session hs \<noteq> None \<and> cl_sessionId (ch_hello hs) \<noteq> []
     \<and> sv_sessionId (ch_serverHello hs) = cl_sessionId (ch_hello hs)"

definition note_renegotiation :: "server_hello \<Rightarrow> peer_state \<Rightarrow> peer_state" where
  "note_renegotiation sh c =
     (if pc_handshakes c = 0 \<and> sv_secureRenegotiationSupported sh then c\<lparr>pc_secureRenegotiation := True\<rparr> else c)"

definition note_protocol :: "server_hello \<Rightarrow> peer_state \<Rightarrow> peer_state" where
  "note_protocol sh c =
     (if length (sv_alpnProtocol sh) > 0 then c\<lparr>pc_clientProtocol := sv_alpnProtocol sh, pc_clientProtocolFallback := False\<rparr>
      else c)\<lparr>pc_scts := sv_scts sh\<rparr>"

definition resume_session :: "client_hs \<Rightarrow> ((bool \<times> client_hs) + tls_err) program" where
  "resume_session hs =
     (case ch_session hs of
        None \<Rightarrow> ok (False, hs)
      | Some s \<Rightarrow>
          if \<not> serverResumedSession hs then ok (False, hs)
          else if cse_vers s \<noteq> ch_vers hs then
            alert_fails alertHandshakeFailure (Text_Error ''tls: server resumed a session with a different version'')
          else if cse_cipherSuite s \<noteq> cs_id (ch_suite hs) then
            alert_fails alertHandshakeFailure (Text_Error ''tls: server resumed a session with a different cipher suite'')
          else ok (True, hs\<lparr>ch_masterSecret := cse_masterSecret s,
                 ch_conn := (ch_conn hs)\<lparr>pc_peerCertificates := cse_serverCertificates s,
                                        pc_verifiedChains := cse_verifiedChains s\<rparr>\<rparr>))"

definition processServerHello :: "client_hs \<Rightarrow> ((bool \<times> client_hs) + tls_err) program" where
  "processServerHello hs =
     (let sh = ch_serverHello hs; ch = ch_hello hs; c = note_renegotiation sh (ch_conn hs)
      in if sv_compressionMethod sh \<noteq> compressionNone then
           alert_fails alertUnexpectedMessage (Text_Error ''tls: server selected unsupported compression format'')
         else if pc_handshakes (ch_conn hs) = 0 \<and> sv_secureRenegotiationSupported sh \<and> length (sv_secureRenegotiation sh) \<noteq> 0 then
           alert_fails alertHandshakeFailure (Text_Error ''tls: initial handshake had non-empty renegotiation extension'')
         else if pc_handshakes c > 0 \<and> pc_secureRenegotiation c
              \<and> sv_secureRenegotiation sh \<noteq> fit 12 (pc_clientFinished c) @ fit 12 (pc_serverFinished c) then
           alert_fails alertHandshakeFailure (Text_Error ''tls: incorrect renegotiation extension contents'')
         else if \<not> cl_nextProtoNeg ch \<and> sv_nextProtoNeg sh then
           alert_fails alertHandshakeFailure (Text_Error ''tls: server advertised unrequested NPN extension'')
         else if cl_alpnProtocols ch = [] \<and> length (sv_alpnProtocol sh) > 0 then
           alert_fails alertHandshakeFailure (Text_Error ''tls: server advertised unrequested ALPN extension'')
         else if sv_nextProtoNeg sh \<and> length (sv_alpnProtocol sh) > 0 then
           alert_fails alertHandshakeFailure (Text_Error ''tls: server advertised both NPN and ALPN extensions'')
         else resume_session (hs\<lparr>ch_conn := note_protocol sh c\<rparr>))"

section \<open>The certificates of the server\<close>

definition KeyUsageDigitalSignature :: u32 where "KeyUsageDigitalSignature = 1"
definition KeyUsageContentCommitment :: u32 where "KeyUsageContentCommitment = 2"
definition KeyUsageKeyEncipherment :: u32 where "KeyUsageKeyEncipherment = 4"
definition KeyUsageDataEncipherment :: u32 where "KeyUsageDataEncipherment = 8"
definition KeyUsageKeyAgreement :: u32 where "KeyUsageKeyAgreement = 16"

lemmas key_usages = KeyUsageDigitalSignature_def KeyUsageContentCommitment_def KeyUsageKeyEncipherment_def
  KeyUsageDataEncipherment_def KeyUsageKeyAgreement_def

definition usage_signs :: "u32 \<Rightarrow> bool" where
  "usage_signs u \<longleftrightarrow> u \<noteq> 0 \<and> u AND (KeyUsageDigitalSignature OR (u AND KeyUsageContentCommitment)) \<noteq> 0"

definition usage_enciphers :: "u32 \<Rightarrow> bool" where
  "usage_enciphers u \<longleftrightarrow> u \<noteq> 0 \<and> u AND (KeyUsageDataEncipherment OR KeyUsageKeyEncipherment OR KeyUsageKeyAgreement) \<noteq> 0"

text \<open>A key that is not an elliptic-curve one is a nil pointer here, and reading its curve panics.\<close>

fun parse_gm_certs :: "pki \<Rightarrow> nat \<Rightarrow> byte list list \<Rightarrow> (x509 list + tls_err) program" where
  "parse_gm_certs K i [] = ok []"
| "parse_gm_certs K i (asn1Data # ds) =
     (case pk_parse K asn1Data of
        Inr e \<Rightarrow> alert_fails alertBadCertificate (Text_Error ''tls: failed to parse certificate from server'')
      | Inl cert \<Rightarrow>
          (case xc_PublicKey cert of
             EC_Key isSM2 n \<Rightarrow>
               if \<not> isSM2 then alert_fails alertUnsupportedCertificate (Text_Error ''tls: pubkey type of cert is error, expect sm2.publicKey'')
               else if i = 0 \<and> \<not> usage_signs (xc_KeyUsage cert) then
                 alert_fails alertInsufficientSecurity (Text_Error ''tls: the keyusage of cert[0] does not exist or is not for KeyUsageDigitalSignature/KeyUsageContentCommitment'')
               else if i = 1 \<and> \<not> usage_enciphers (xc_KeyUsage cert) then
                 alert_fails alertInsufficientSecurity (Text_Error ''tls: the keyusage of cert[1] does not exist or is not for KeyUsageDataEncipherment/KeyUsageKeyEncipherment/KeyUsageKeyAgreement'')
               else and_then (parse_gm_certs K (i + 1) ds) (\<lambda>cs. ok (cert # cs))
           | _ \<Rightarrow> Crash))"

text \<open>From the third certificate on, each verified one joins the pool of intermediates.\<close>

fun verify_gm_certs :: "pki \<Rightarrow> verify_opts \<Rightarrow> nat \<Rightarrow> x509 list \<Rightarrow> x509 list list \<Rightarrow> (x509 list list + tls_err) program" where
  "verify_gm_certs K opts i [] vchains = ok vchains"
| "verify_gm_certs K opts i (cert # certs) vchains =
     (case pk_verify K opts cert of
        Inr e \<Rightarrow> alert_fails alertBadCertificate e
      | Inl vchains \<Rightarrow>
          verify_gm_certs K (if i = 0 \<or> i = 1 then opts else opts\<lparr>vo_Intermediates := vo_Intermediates opts @ [cert]\<rparr>)
            (i + 1) certs vchains)"

definition client_verify_opts :: "tls_config \<Rightarrow> verify_opts" where
  "client_verify_opts config =
     \<lparr>vo_Roots = Some (case cf_RootCAs config of None \<Rightarrow> [] | Some r \<Rightarrow> r), vo_Intermediates = [],
      vo_DNSName = cf_ServerName config, vo_ClientAuth = False, vo_Time = cf_time config\<rparr>"

definition first_certificates :: "pki \<Rightarrow> tls_config \<Rightarrow> byte list list \<Rightarrow> client_hs \<Rightarrow> (client_hs + tls_err) program" where
  "first_certificates K config raws hs =
     and_then (parse_gm_certs K 0 raws) (\<lambda>certs.
     and_then (if cf_InsecureSkipVerify config then ok (pc_verifiedChains (ch_conn hs))
               else verify_gm_certs K (client_verify_opts config) 0 certs (pc_verifiedChains (ch_conn hs))) (\<lambda>vchains.
       let finish = (case xc_PublicKey (certs ! 0) of
             Other_Key \<Rightarrow> alert_fails alertUnsupportedCertificate (Text_Error ''tls: server's certificate contains an unsupported type of public key'')
           | _ \<Rightarrow> ok (hs\<lparr>ch_conn := (ch_conn hs)\<lparr>pc_verifiedChains := vchains, pc_peerCertificates := certs\<rparr>\<rparr>))
       in case cf_VerifyPeerCertificate config of
            None \<Rightarrow> finish
          | Some f \<Rightarrow> (case f raws vchains of Some e \<Rightarrow> alert_fails alertBadCertificate e | None \<Rightarrow> finish)))"

definition client_certificates :: "pki \<Rightarrow> tls_config \<Rightarrow> client_hs \<Rightarrow> (client_hs + tls_err) program" where
  "client_certificates K config hs =
     and_then read_handshake (\<lambda>msg.
     case msg of
       Some (Certificate_Msg certMsg) \<Rightarrow>
         let raws = cert_certificates certMsg
         in if raws = [] then unexpected_message
            else if length raws < 2 then
              alert_fails alertInsufficientSecurity (Text_Error ''tls: length of certificates in GMT0024 must great than 2'')
            else marshalled (certificate_marshal certMsg) (\<lambda>bytes. hash_msg bytes hs (\<lambda>hs.
              if pc_handshakes (ch_conn hs) = 0 then first_certificates K config raws hs
              else case pc_peerCertificates (ch_conn hs) of
                [] \<Rightarrow> Crash
              | cert # _ \<Rightarrow>
                  if xc_Raw cert \<noteq> hd raws
                  then alert_fails alertBadCertificate (Text_Error ''tls: server's identity changed during renegotiation'')
                  else ok hs))
     | _ \<Rightarrow> unexpected_message)"

section \<open>Key exchange and the answer of the client\<close>

definition or_alert :: "alert \<Rightarrow> ('a + tls_err) program \<Rightarrow> ('a + tls_err) program" where
  "or_alert al p = bind_program p (\<lambda>r. case r of Inl x \<Rightarrow> ok x | Inr e \<Rightarrow> alert_fails al e)"

text \<open>The agreement of the suite; the one without ephemeral keys is given the encryption certificate.\<close>

definition client_agreement :: "client_hs \<Rightarrow> (agreement \<Rightarrow> 'a program) \<Rightarrow> 'a program" where
  "client_agreement hs k =
     (case suite_ka (cs_ka (ch_suite hs)) (ch_vers hs) of
        ECC_GM v _ \<Rightarrow>
          (case pc_peerCertificates (ch_conn hs) of _ # enc # _ \<Rightarrow> k (ECC_GM v (Some enc)) | _ \<Rightarrow> Crash)
      | ka \<Rightarrow> k ka)"

definition client_key_exchange ::
  "hashes \<Rightarrow> pki \<Rightarrow> client_hs \<Rightarrow> ((handshake_msg option \<times> agreement \<times> client_hs) + tls_err) program" where
  "client_key_exchange H K hs =
     and_then read_handshake (\<lambda>msg. client_agreement hs (\<lambda>ka.
       case msg of
         Some (Server_Key_Exchange skx) \<Rightarrow>
           marshalled (serverKeyExchange_marshal skx) (\<lambda>bytes. hash_msg bytes hs (\<lambda>hs.
             case pc_peerCertificates (ch_conn hs) of [] \<Rightarrow> Crash
             | cert # _ \<Rightarrow>
                 and_then (or_alert alertUnexpectedMessage
                     (processServerKeyExchange H K (ch_hello hs) (ch_serverHello hs) cert skx ka)) (\<lambda>ka.
                 and_then read_handshake (\<lambda>msg. ok (msg, ka, hs)))))
       | _ \<Rightarrow> ok (msg, ka, hs)))"

definition is_gm_cert :: "x509 \<Rightarrow> bool" where
  "is_gm_cert x \<longleftrightarrow> xc_algECDSA x \<and> (case xc_PublicKey x of EC_Key isSM2 n \<Rightarrow> isSM2 | _ \<Rightarrow> False)"

text \<open>One chain of the client: the parsed leaf may be at hand; a certificate that is not GM's ends the search in the chain.\<close>

fun chain_acceptable :: "pki \<Rightarrow> byte list list \<Rightarrow> x509 option \<Rightarrow> byte list list \<Rightarrow> (bool + tls_err) program" where
  "chain_acceptable K cas leaf [] = ok False"
| "chain_acceptable K cas leaf (cert # certs) =
     and_then (case leaf of Some x \<Rightarrow> ok x
               | None \<Rightarrow> (case pk_parse K cert of Inl x \<Rightarrow> ok x
                   | Inr e \<Rightarrow> alert_fails alertInternalError (Text_Error ''tls: failed to parse client certificate'')))
       (\<lambda>x. if \<not> is_gm_cert x then ok False
            else if cas = [] \<or> xc_RawIssuer x \<in> set cas then ok True
            else chain_acceptable K cas None certs)"

fun find_client_chain :: "pki \<Rightarrow> byte list list \<Rightarrow> tls_certificate list \<Rightarrow> (tls_certificate + tls_err) program" where
  "find_client_chain K cas [] = ok empty_certificate"
| "find_client_chain K cas (chain # rest) =
     and_then (chain_acceptable K cas (tc_Leaf chain) (tc_Certificate chain))
       (\<lambda>b. if b then ok chain else find_client_chain K cas rest)"

definition client_getCertificate :: "pki \<Rightarrow> tls_config \<Rightarrow> certificate_request_gm \<Rightarrow> (tls_certificate + tls_err) program" where
  "client_getCertificate K config certReq =
     (case cf_GetClientCertificate config of
        Some f \<Rightarrow> Return (f (cg_certificateAuthorities certReq) [])
      | None \<Rightarrow> find_client_chain K (cg_certificateAuthorities certReq) (cf_Certificates config))"

definition client_certificate_request ::
  "pki \<Rightarrow> tls_config \<Rightarrow> handshake_msg option \<Rightarrow> client_hs
   \<Rightarrow> ((handshake_msg option \<times> tls_certificate option \<times> client_hs) + tls_err) program" where
  "client_certificate_request K config msg hs =
     (case msg of
        Some (Certificate_Request_GM certReq) \<Rightarrow>
          marshalled (certificateRequestGM_marshal certReq) (\<lambda>bytes. hash_msg bytes hs (\<lambda>hs.
            and_then (or_alert alertInternalError (client_getCertificate K config certReq)) (\<lambda>chainToSend.
            and_then read_handshake (\<lambda>msg. ok (msg, Some chainToSend, hs)))))
      | _ \<Rightarrow> ok (msg, None, hs))"

definition send_certificate :: "tls_certificate option \<Rightarrow> client_hs \<Rightarrow> (client_hs + tls_err) program" where
  "send_certificate chainToSend hs =
     (case chainToSend of None \<Rightarrow> ok hs
      | Some c \<Rightarrow> marshalled (certificate_marshal \<lparr>cert_raw = None, cert_certificates = tc_Certificate c\<rparr>) (\<lambda>bytes. send_msg bytes hs))"

text \<open>The signature over the hash of all messages so far.\<close>

definition send_certificate_verify :: "tls_certificate option \<Rightarrow> client_hs \<Rightarrow> (client_hs + tls_err) program" where
  "send_certificate_verify chainToSend hs =
     (case chainToSend of None \<Rightarrow> ok hs
      | Some c \<Rightarrow>
          if tc_Certificate c = [] then ok hs
          else case sk_Sign (tc_PrivateKey c) of
            None \<Rightarrow> alert_fails alertInternalError (Text_Error ''tls: client certificate private key does not implement crypto.Signer'')
          | Some sign \<Rightarrow>
              panics_if_none (rh_Sum (fh_client (ch_finishedHash hs))) (\<lambda>digest.
              Coins (\<lambda>coins. and_then (or_alert alertInternalError (Return (sign coins digest Nil_Opts))) (\<lambda>sig.
                marshalled (certificateVerify_marshal \<lparr>cv_raw = None, cv_hasSignatureAndHash = False, cv_signatureAlgorithm = 0,
                    cv_signature = sig\<rparr>) (\<lambda>bytes. send_msg bytes hs)))))"

definition client_answer ::
  "hashes \<Rightarrow> pki \<Rightarrow> tls_config \<Rightarrow> tls_certificate option \<Rightarrow> agreement \<Rightarrow> client_hs \<Rightarrow> (client_hs + tls_err) program" where
  "client_answer H K config chainToSend ka hs =
     and_then (send_certificate chainToSend hs) (\<lambda>hs.
     case pc_peerCertificates (ch_conn hs) of
       _ # enc # _ \<Rightarrow>
         and_then (or_alert alertInternalError (generateClientKeyExchange K (ch_hello hs) enc ka)) (\<lambda>(preMasterSecret, ckx).
         marshalled (clientKeyExchange_marshal ckx) (\<lambda>bytes.
         and_then (send_msg bytes hs) (\<lambda>hs.
         and_then (send_certificate_verify chainToSend hs) (\<lambda>hs.
         panics_if_none (masterFromPreMasterSecret H (ch_vers hs) (ch_suite hs) preMasterSecret (cl_random (ch_hello hs))
             (sv_random (ch_serverHello hs))) (\<lambda>ms.
           case writeKeyLog config (cl_random (ch_hello hs)) ms of
             Some e \<Rightarrow> alert_fails alertInternalError (Text_Error ''tls: failed to write to key log'')
           | None \<Rightarrow> ok (hs\<lparr>ch_masterSecret := ms, ch_finishedHash := discardHandshakeBuffer (ch_finishedHash hs)\<rparr>))))))
     | _ \<Rightarrow> Crash)"

definition client_doFullHandshake :: "hashes \<Rightarrow> pki \<Rightarrow> tls_config \<Rightarrow> client_hs \<Rightarrow> (client_hs + tls_err) program" where
  "client_doFullHandshake H K config hs =
     and_then (client_certificates K config hs) (\<lambda>hs.
     and_then (client_key_exchange H K hs) (\<lambda>(msg, ka, hs).
     and_then (client_certificate_request K config msg hs) (\<lambda>(msg, chainToSend, hs).
       case msg of
         Some Server_Hello_Done \<Rightarrow> hash_msg serverHelloDone_marshal hs (client_answer H K config chainToSend ka)
       | _ \<Rightarrow> unexpected_message)))"

section \<open>Keys, tickets and Finished\<close>

text \<open>The ciphers of a suite: \<open>own\<close> to write with, \<open>peer\<close> to read with.\<close>

definition prepare_specs ::
  "u16 \<Rightarrow> cipher_suite \<Rightarrow> byte list \<times> byte list \<times> byte list \<Rightarrow> byte list \<times> byte list \<times> byte list \<Rightarrow> (unit + tls_err) program" where
  "prepare_specs vers s own peer =
     (case own of (ownMAC, ownKey, ownIV) \<Rightarrow> case peer of (peerMAC, peerKey, peerIV) \<Rightarrow>
      case cs_cipher s of
        Some f \<Rightarrow>
          panics_if_none (f ownKey ownIV False) (\<lambda>oc. panics_if_none (f peerKey peerIV True) (\<lambda>pc. panics_if_none (cs_mac s) (\<lambda>m.
            Prepare_Spec True vers pc (Some (m vers peerMAC)) (Prepare_Spec False vers oc (Some (m vers ownMAC)) (ok ())))))
      | None \<Rightarrow>
          panics_if_none (cs_aead s) (\<lambda>a. panics_if_none (a ownKey ownIV) (\<lambda>oc. panics_if_none (a peerKey peerIV) (\<lambda>pc.
            Prepare_Spec True vers pc None (Prepare_Spec False vers oc None (ok ()))))))"

definition client_establishKeys :: "hashes \<Rightarrow> client_hs \<Rightarrow> (unit + tls_err) program" where
  "client_establishKeys H hs =
     (let s = ch_suite hs
      in panics_if_none (keysFromMasterSecret H (ch_vers hs) s (ch_masterSecret hs) (cl_random (ch_hello hs))
           (sv_random (ch_serverHello hs)) (cs_macLen s) (cs_keyLen s) (cs_ivLen s)) (\<lambda>kb.
           prepare_specs (ch_vers hs) s (kb_clientMAC kb, kb_clientKey kb, kb_clientIV kb) (kb_serverMAC kb, kb_serverKey kb, kb_serverIV kb)))"

definition readSessionTicket :: "client_hs \<Rightarrow> (client_hs + tls_err) program" where
  "readSessionTicket hs =
     (if \<not> sv_ticketSupported (ch_serverHello hs) then ok hs
      else and_then read_handshake (\<lambda>msg.
        case msg of
          Some (New_Session_Ticket t) \<Rightarrow>
            marshalled (newSessionTicket_marshal t) (\<lambda>bytes. hash_msg bytes hs (\<lambda>hs.
              ok (hs\<lparr>ch_session := Some \<lparr>cse_sessionTicket = st_ticket t, cse_vers = ch_vers hs, cse_cipherSuite = cs_id (ch_suite hs),
                   cse_masterSecret = ch_masterSecret hs, cse_serverCertificates = pc_peerCertificates (ch_conn hs),
                   cse_verifiedChains = pc_verifiedChains (ch_conn hs)\<rparr>\<rparr>)))
        | _ \<Rightarrow> unexpected_message))"

text \<open>The result of \<open>readRecord\<close> is dropped; the error of the receiving half decides.\<close>

definition client_readFinished :: "hashes \<Rightarrow> client_hs \<Rightarrow> (client_hs + tls_err) program" where
  "client_readFinished H hs =
     Read_Record recordTypeChangeCipherSpec (\<lambda>(_, inErr).
       case inErr of Some e \<Rightarrow> Return (Inr e)
       | None \<Rightarrow>
           and_then read_handshake (\<lambda>msg.
           case msg of
             Some (Finished fin) \<Rightarrow>
               panics_if_none (serverSum H (ch_finishedHash hs) (ch_masterSecret hs)) (\<lambda>verify.
                 if verify \<noteq> op_data fin then alert_fails alertHandshakeFailure (Text_Error ''tls: server's Finished message was incorrect'')
                 else marshalled (finished_marshal fin) (\<lambda>bytes. hash_msg bytes hs (\<lambda>hs.
                   ok (hs\<lparr>ch_conn := (ch_conn hs)\<lparr>pc_serverFinished := go_copy (pc_serverFinished (ch_conn hs)) 0 verify\<rparr>\<rparr>))))
           | _ \<Rightarrow> unexpected_message))"

definition client_send_next_proto :: "tls_config \<Rightarrow> client_hs \<Rightarrow> (client_hs + tls_err) program" where
  "client_send_next_proto config hs =
     (if \<not> sv_nextProtoNeg (ch_serverHello hs) then ok hs
      else panics_if_none (mutualProtocol (cf_NextProtos config) (sv_nextProtos (ch_serverHello hs))) (\<lambda>(proto, fallback).
        let hs = hs\<lparr>ch_conn := (ch_conn hs)\<lparr>pc_clientProtocol := proto, pc_clientProtocolFallback := fallback\<rparr>\<rparr>
        in marshalled (nextProto_marshal \<lparr>np_raw = None, np_proto = proto\<rparr>) (\<lambda>bytes. send_msg bytes hs)))"

definition client_sendFinished :: "hashes \<Rightarrow> tls_config \<Rightarrow> client_hs \<Rightarrow> (client_hs + tls_err) program" where
  "client_sendFinished H config hs =
     and_then (write_record recordTypeChangeCipherSpec [1]) (\<lambda>_.
     and_then (client_send_next_proto config hs) (\<lambda>hs.
     panics_if_none (clientSum H (ch_finishedHash hs) (ch_masterSecret hs)) (\<lambda>verifyData.
     marshalled (finished_marshal \<lparr>op_raw = None, op_data = verifyData\<rparr>) (\<lambda>bytes.
     and_then (send_msg bytes hs) (\<lambda>hs.
       ok (hs\<lparr>ch_conn := (ch_conn hs)\<lparr>pc_clientFinished := go_copy (pc_clientFinished (ch_conn hs)) 0 verifyData\<rparr>\<rparr>))))))"

section \<open>The handshake\<close>

definition client_hello_exchange :: "hashes \<Rightarrow> primitives \<Rightarrow> client_hs \<Rightarrow> ((bool \<times> client_hs) + tls_err) program" where
  "client_hello_exchange H P hs =
     marshalled (clientHello_marshal (ch_hello hs)) (\<lambda>bytes.
     and_then (write_record recordTypeHandshake bytes) (\<lambda>_.
     and_then read_handshake (\<lambda>msg.
     case msg of
       Some (Server_Hello sh) \<Rightarrow>
         if sv_vers sh \<noteq> VersionGMSSL
         then alert_fails alertProtocolVersion (Text_Error ''tls: server selected unsupported protocol version'')
         else and_then (pickCipherSuite H P (hs\<lparr>ch_serverHello := sh\<rparr>)) processServerHello
     | _ \<Rightarrow> unexpected_message)))"

definition client_start_hash :: "hashes \<Rightarrow> tls_config \<Rightarrow> bool \<Rightarrow> client_hs \<Rightarrow> (client_hs \<Rightarrow> ('a + tls_err) program) \<Rightarrow> ('a + tls_err) program" where
  "client_start_hash H config isResume hs k =
     (let fh = newFinishedHashGM H;
          fh = (if isResume \<or> (cf_Certificates config = [] \<and> cf_GetClientCertificate config = None) then discardHandshakeBuffer fh else fh)
      in marshalled (clientHello_marshal (ch_hello hs)) (\<lambda>chb. hash_msg chb (hs\<lparr>ch_finishedHash := fh\<rparr>) (\<lambda>hs.
         marshalled (serverHello_marshal (ch_serverHello hs)) (\<lambda>shb. hash_msg shb hs k))))"

definition set_first :: "bool \<Rightarrow> client_hs \<Rightarrow> client_hs" where
  "set_first b hs = hs\<lparr>ch_conn := (ch_conn hs)\<lparr>pc_clientFinishedIsFirst := b\<rparr>\<rparr>"

definition client_resume :: "hashes \<Rightarrow> tls_config \<Rightarrow> client_hs \<Rightarrow> (client_hs + tls_err) program" where
  "client_resume H config hs =
     and_then (client_establishKeys H hs) (\<lambda>_.
     and_then (readSessionTicket hs) (\<lambda>hs.
     and_then (client_readFinished H hs) (\<lambda>hs.
     and_then (client_sendFinished H config (set_first False hs)) (\<lambda>hs.
     and_then flush (\<lambda>_. ok hs)))))"

definition client_full :: "hashes \<Rightarrow> pki \<Rightarrow> tls_config \<Rightarrow> client_hs \<Rightarrow> (client_hs + tls_err) program" where
  "client_full H K config hs =
     and_then (client_doFullHandshake H K config hs) (\<lambda>hs.
     and_then (client_establishKeys H hs) (\<lambda>_.
     and_then (client_sendFinished H config hs) (\<lambda>hs.
     and_then flush (\<lambda>_.
     and_then (readSessionTicket (set_first True hs)) (client_readFinished H)))))"

definition client_finish :: "hashes \<Rightarrow> bool \<Rightarrow> client_hs \<Rightarrow> (client_hs + tls_err) program" where
  "client_finish H b hs =
     (let c = (ch_conn hs)\<lparr>pc_ekm := Some (ekmFromMasterSecret H (ch_vers hs) (ch_suite hs) (ch_masterSecret hs)
                 (cl_random (ch_hello hs)) (sv_random (ch_serverHello hs))), pc_didResume := b\<rparr>
      in Set_Complete (ok (hs\<lparr>ch_conn := c\<rparr>)))"

definition client_handshake_gm :: "hashes \<Rightarrow> primitives \<Rightarrow> pki \<Rightarrow> tls_config \<Rightarrow> client_hs \<Rightarrow> (client_hs + tls_err) program" where
  "client_handshake_gm H P K config hs =
     and_then (client_hello_exchange H P hs) (\<lambda>(isResume, hs).
     client_start_hash H config isResume hs (\<lambda>hs.
     Set_Buffering (and_then (if isResume then client_resume H config hs else client_full H K config hs) (client_finish H isResume))))"

text \<open>The session that \<open>clientHandshake\<close> offers, and the one it stores afterwards: a ticket is new when one was read.\<close>

definition candidate_session :: "tls_config \<Rightarrow> peer_state \<Rightarrow> byte list \<Rightarrow> client_hello \<Rightarrow> client_session option" where
  "candidate_session config c cacheKey hello =
     (if tcf_SessionTicketsDisabled (cf_tickets config) \<or> pc_handshakes c > 0 then None
      else case cf_SessionCache config of None \<Rightarrow> None
      | Some get \<Rightarrow> (case get cacheKey of None \<Rightarrow> None
          | Some s \<Rightarrow>
              if cse_cipherSuite s \<in> set (cl_cipherSuites hello) \<and> config_minVersion config \<le> cse_vers s
                 \<and> cse_vers s \<le> config_maxVersion config then Some s else None))"

definition clientSessionCacheKey :: "byte list \<Rightarrow> tls_config \<Rightarrow> byte list" where
  "clientSessionCacheKey serverAddr config = (if length (cf_ServerName config) > 0 then cf_ServerName config else serverAddr)"

definition uses_session_cache :: "tls_config \<Rightarrow> bool" where
  "uses_session_cache config \<longleftrightarrow> \<not> tcf_SessionTicketsDisabled (cf_tickets config) \<and> cf_SessionCache config \<noteq> None"

text \<open>The key is computed where a session may be resumed, and stays empty otherwise.\<close>

definition cache_key :: "tls_config \<Rightarrow> byte list \<Rightarrow> peer_state \<Rightarrow> byte list" where
  "cache_key config serverAddr c = (if uses_session_cache config \<and> pc_handshakes c = 0 then clientSessionCacheKey serverAddr config else [])"

definition offer_session :: "client_session option \<Rightarrow> client_hello \<Rightarrow> (client_hello + tls_err) program" where
  "offer_session session hello =
     (case session of None \<Rightarrow> ok hello
      | Some s \<Rightarrow> and_then (read_hello_rand 16) (\<lambda>sid. ok (hello\<lparr>cl_sessionTicket := cse_sessionTicket s, cl_sessionId := sid\<rparr>)))"

definition client_start :: "hashes \<Rightarrow> peer_state \<Rightarrow> client_hello \<Rightarrow> client_session option \<Rightarrow> client_hs" where
  "client_start H c hello session =
     \<lparr>ch_conn = c, ch_vers = VersionGMSSL, ch_serverHello = empty_server_hello, ch_hello = hello,
      ch_suite = suite 0 0 0 0 rsaKA 0 None None None, ch_finishedHash = newFinishedHashGM H, ch_masterSecret = [], ch_session = session\<rparr>"

definition complete_hello :: "tls_config \<Rightarrow> peer_state \<Rightarrow> client_hello \<Rightarrow> client_hello" where
  "complete_hello config c hello =
     hello\<lparr>cl_secureRenegotiation := (if pc_handshakes c > 0 then fit 12 (pc_clientFinished c) else []),
           cl_ticketSupported := uses_session_cache config\<rparr>"

definition stored_session :: "tls_config \<Rightarrow> byte list \<Rightarrow> client_hs \<Rightarrow> (byte list \<times> client_session) option" where
  "stored_session config cacheKey hs =
     (if uses_session_cache config \<and> sv_ticketSupported (ch_serverHello hs) then map_option (\<lambda>s. (cacheKey, s)) (ch_session hs) else None)"

definition clientHandshake_gm ::
  "hashes \<Rightarrow> primitives \<Rightarrow> pki \<Rightarrow> tls_config \<Rightarrow> byte list \<Rightarrow> peer_state
   \<Rightarrow> ((peer_state \<times> (byte list \<times> client_session) option) + tls_err) program" where
  "clientHandshake_gm H P K config serverAddr c =
     (let c = c\<lparr>pc_didResume := False\<rparr>; cacheKey = cache_key config serverAddr c
      in Set_Version VersionGMSSL False (
         and_then (makeClientHelloGM H P config) (\<lambda>hello.
           let session = candidate_session config c cacheKey (complete_hello config c hello)
           in and_then (offer_session session (complete_hello config c hello)) (\<lambda>hello.
              and_then (client_handshake_gm H P K config (client_start H c hello session)) (\<lambda>hs.
                ok (ch_conn hs, stored_session config cacheKey hs))))))"

end
