(* ===== verification/Tls_Gm_Server.thy ===== *)
theory Tls_Gm_Server
  imports Tls_Gm_Client
begin

text \<open>
  The server side of a GM handshake, \<^verbatim>\<open>zgmtls/gm_handshake_server_double.go\<close> as the default build
  compiles it: one definition per method, in the order of the code, with \<open>doFullHandshake\<close> cut where it
  reads from the peer. \<open>getConfig\<close> is the callback \<open>GetConfigForClient\<close>; the call of \<open>getCertificate\<close> in
  \<open>readClientHello\<close>, whose result the code drops, is left out. Tickets are those of \<open>Tls_Ticket\<close>.
\<close>

section \<open>State\<close>

record server_hs =
  sh_conn :: peer_state
  sh_vers :: u16
  sh_config :: tls_config
  sh_clientHello :: client_hello
  sh_hello :: server_hello
  sh_suite :: "cipher_suite option"
  sh_sessionState :: "session_state option"
  sh_finishedHash :: finished_hash
  sh_masterSecret :: "byte list"
  sh_certsFromClient :: "byte list list"
  sh_cert :: "tls_certificate list"

definition server_hash :: "byte list \<Rightarrow> server_hs \<Rightarrow> (server_hs \<Rightarrow> ('a + tls_err) program) \<Rightarrow> ('a + tls_err) program" where
  "server_hash bytes hs k = panics_if_none (fh_Write bytes (sh_finishedHash hs)) (\<lambda>h. k (hs\<lparr>sh_finishedHash := h\<rparr>))"

definition server_send :: "byte list \<Rightarrow> server_hs \<Rightarrow> (server_hs + tls_err) program" where
  "server_send bytes hs = server_hash bytes hs (\<lambda>hs. and_then (write_record recordTypeHandshake bytes) (\<lambda>_. ok hs))"

text \<open>The suite, which is a nil pointer before it is chosen.\<close>

definition the_suite :: "server_hs \<Rightarrow> (cipher_suite \<Rightarrow> 'a program) \<Rightarrow> 'a program" where
  "the_suite hs k = panics_if_none (sh_suite hs) k"

section \<open>The client hello\<close>

definition setCipherSuite :: "hashes \<Rightarrow> primitives \<Rightarrow> u16 \<Rightarrow> u16 list \<Rightarrow> u16 \<Rightarrow> cipher_suite option" where
  "setCipherSuite H P i supported version =
     (if i \<notin> set supported then None
      else case find (\<lambda>s. cs_id s = i) (gmCipherSuites H P) of
        None \<Rightarrow> None
      | Some s \<Rightarrow> if version < VersionTLS12 \<and> cs_flags s AND suiteTLS12 \<noteq> 0 then None else Some s)"

fun first_suite :: "hashes \<Rightarrow> primitives \<Rightarrow> u16 list \<Rightarrow> u16 list \<Rightarrow> u16 \<Rightarrow> cipher_suite option" where
  "first_suite H P [] supported version = None"
| "first_suite H P (i # is) supported version =
     (case setCipherSuite H P i supported version of Some s \<Rightarrow> Some s | None \<Rightarrow> first_suite H P is supported version)"

text \<open>
  \<open>checkForResumption\<close>: the suite that it sets stays set when a later check fails; \<^term>\<open>None\<close> is a panic
  in reading the ticket.
\<close>

definition checkForResumption :: "hashes \<Rightarrow> primitives \<Rightarrow> ticket_crypto \<Rightarrow> server_hs \<Rightarrow> (bool \<times> server_hs) option" where
  "checkForResumption H P TC hs =
     (let config = sh_config hs
      in if tcf_SessionTicketsDisabled (cf_tickets config) then Some (False, hs)
         else case decryptTicket TC (cf_tickets config) (cl_sessionTicket (sh_clientHello hs)) of
           Panic \<Rightarrow> None
         | Reject \<Rightarrow> Some (False, hs)
         | Accept st \<Rightarrow>
             let hs = hs\<lparr>sh_sessionState := Some st\<rparr>
             in if sh_vers hs \<noteq> ss_vers st then Some (False, hs)
                else if ss_cipherSuite st \<notin> set (cl_cipherSuites (sh_clientHello hs)) then Some (False, hs)
                else case setCipherSuite H P (ss_cipherSuite st) (config_cipherSuites H P config) (ss_vers st) of
                  None \<Rightarrow> Some (False, hs)
                | Some s \<Rightarrow>
                    let hs = hs\<lparr>sh_suite := Some s\<rparr>; sessionHasClientCerts = (ss_certificates st \<noteq> []);
                        needClientCerts = (cf_ClientAuth config = RequireAnyClientCert \<or> cf_ClientAuth config = RequireAndVerifyClientCert)
                    in if needClientCerts \<and> \<not> sessionHasClientCerts then Some (False, hs)
                       else if sessionHasClientCerts \<and> cf_ClientAuth config = NoClientCert then Some (False, hs)
                       else Some (True, hs))"

definition init_tickets :: "ticket_crypto \<Rightarrow> tls_config \<Rightarrow> (tls_config + tls_err) program" where
  "init_tickets TC config =
     (let t = cf_tickets config
      in if tcf_SessionTicketsDisabled t \<or> tcf_sessionTicketKeys t \<noteq> [] \<or> (\<exists>b\<in>set (tcf_SessionTicketKey t). b \<noteq> 0)
         then ok (config\<lparr>cf_tickets := serverInit TC None None t\<rparr>)
         else Read_Rand 32 (\<lambda>r.
           ok (config\<lparr>cf_tickets := serverInit TC None (case r of Inl k \<Rightarrow> Some k | Inr _ \<Rightarrow> None) t\<rparr>)))"

definition choose_config ::
  "ticket_crypto \<Rightarrow> (client_hello \<Rightarrow> tls_config option + tls_err) option \<Rightarrow> tls_config \<Rightarrow> client_hello \<Rightarrow> (tls_config + tls_err) program" where
  "choose_config TC getConfig config hello =
     (case getConfig of None \<Rightarrow> ok config
      | Some f \<Rightarrow> (case f hello of
          Inr e \<Rightarrow> alert_fails alertInternalError e
        | Inl None \<Rightarrow> ok config
        | Inl (Some new) \<Rightarrow> ok (new\<lparr>cf_tickets := serverInit TC (Some (cf_tickets config)) None (cf_tickets new)\<rparr>)))"

text \<open>The extensions of the server hello that answer those of the client.\<close>

definition answer_extensions :: "server_hs \<Rightarrow> (server_hs \<Rightarrow> 'a program) \<Rightarrow> 'a program" where
  "answer_extensions hs k =
     (let ch = sh_clientHello hs; config = sh_config hs; c = sh_conn hs;
          c = (if length (cl_serverName ch) > 0 then c\<lparr>pc_serverName := cl_serverName ch\<rparr> else c);
          hello = (sh_hello hs)\<lparr>sv_secureRenegotiationSupported := cl_secureRenegotiationSupported ch, sv_compressionMethod := compressionNone\<rparr>
      in if cl_alpnProtocols ch \<noteq> [] then
           panics_if_none (mutualProtocol (cl_alpnProtocols ch) (cf_NextProtos config)) (\<lambda>(proto, fallback).
             if fallback then k (hs\<lparr>sh_conn := c, sh_hello := hello\<rparr>)
             else k (hs\<lparr>sh_conn := c\<lparr>pc_clientProtocol := proto\<rparr>, sh_hello := hello\<lparr>sv_alpnProtocol := proto\<rparr>\<rparr>))
         else if cl_nextProtoNeg ch \<and> cf_NextProtos config \<noteq> [] then
           k (hs\<lparr>sh_conn := c, sh_hello := hello\<lparr>sv_nextProtoNeg := True, sv_nextProtos := cf_NextProtos config\<rparr>\<rparr>)
         else k (hs\<lparr>sh_conn := c, sh_hello := hello\<rparr>))"

definition choose_suite :: "hashes \<Rightarrow> primitives \<Rightarrow> server_hs \<Rightarrow> ((bool \<times> server_hs) + tls_err) program" where
  "choose_suite H P hs =
     (let config = sh_config hs; offered = cl_cipherSuites (sh_clientHello hs); ours = getCipherSuites config;
          chosen = (if cf_PreferServerCipherSuites config then first_suite H P ours offered (sh_vers hs)
                    else first_suite H P offered ours (sh_vers hs));
          hs = hs\<lparr>sh_suite := (case chosen of Some s \<Rightarrow> Some s | None \<Rightarrow> sh_suite hs)\<rparr>
      in if sh_suite hs = None then
           alert_fails alertHandshakeFailure (Text_Error ''tls: no cipher suite supported by both client and server'')
         else if TLS_FALLBACK_SCSV \<in> set offered \<and> cl_vers (sh_clientHello hs) < config_maxVersion config then
           alert_fails alertInappropriateFallback (Text_Error ''tls: client using inappropriate protocol fallback'')
         else ok (False, hs))"

definition readClientHello ::
  "hashes \<Rightarrow> primitives \<Rightarrow> ticket_crypto \<Rightarrow> (client_hello \<Rightarrow> tls_config option + tls_err) option \<Rightarrow> server_hs
   \<Rightarrow> ((bool \<times> server_hs) + tls_err) program" where
  "readClientHello H P TC getConfig hs =
     and_then read_handshake (\<lambda>msg.
     case msg of
       Some (Client_Hello ch) \<Rightarrow>
         and_then (choose_config TC getConfig (sh_config hs) ch) (\<lambda>config.
         case mutualVersion config (cl_vers ch) of
           None \<Rightarrow> alert_fails alertProtocolVersion (Text_Error ''tls: client offered an unsupported, maximum protocol version'')
         | Some vers \<Rightarrow>
             Set_Version vers True (
             if compressionNone \<notin> set (cl_compressionMethods ch) then
               alert_fails alertHandshakeFailure (Text_Error ''tls: client does not support uncompressed connections'')
             else and_then (or_alert alertInternalError (read_rand 32)) (\<lambda>random.
               if length (cl_secureRenegotiation ch) \<noteq> 0 then
                 alert_fails alertHandshakeFailure (Text_Error ''tls: initial handshake had non-empty renegotiation extension'')
               else answer_extensions (hs\<lparr>sh_vers := vers, sh_config := config, sh_clientHello := ch,
                      sh_hello := empty_server_hello\<lparr>sv_vers := vers, sv_random := random\<rparr>, sh_cert := cf_Certificates config\<rparr>) (\<lambda>hs.
                 case sh_cert hs of
                   signCert # _ # _ \<Rightarrow>
                     let hs = (if cl_scts ch then hs\<lparr>sh_hello := (sh_hello hs)\<lparr>sv_scts := tc_SignedCertificateTimestamps signCert\<rparr>\<rparr> else hs)
                     in panics_if_none (checkForResumption H P TC hs) (\<lambda>(resume, hs).
                          if resume then ok (True, hs) else choose_suite H P hs)
                 | _ \<Rightarrow> alert_fails alertInternalError (Text_Error ''tls: amount of server certificates must be greater than 2, which will sign and encipher respectively'')))))
     | _ \<Rightarrow> unexpected_message)"

section \<open>Certificates of the client\<close>

fun parse_client_certs :: "pki \<Rightarrow> byte list list \<Rightarrow> (x509 list + tls_err) program" where
  "parse_client_certs K [] = ok []"
| "parse_client_certs K (asn1Data # ds) =
     (case pk_parse K asn1Data of
        Inr e \<Rightarrow> alert_fails alertBadCertificate (Text_Error ''tls: failed to parse client certificate'')
      | Inl cert \<Rightarrow> and_then (parse_client_certs K ds) (\<lambda>cs. ok (cert # cs)))"

definition server_verify_opts :: "tls_config \<Rightarrow> x509 list \<Rightarrow> verify_opts" where
  "server_verify_opts config others =
     \<lparr>vo_Roots = map_option fst (cf_ClientCAs config), vo_Intermediates = others, vo_DNSName = [], vo_ClientAuth = True,
      vo_Time = cf_time config\<rparr>"

text \<open>The chains of a verified client, and the answer of the callback.\<close>

definition verify_client_certs :: "pki \<Rightarrow> tls_config \<Rightarrow> byte list list \<Rightarrow> x509 list \<Rightarrow> x509 list list \<Rightarrow> (x509 list list + tls_err) program" where
  "verify_client_certs K config certificates certs before =
     and_then (case certs of
         cert # others \<Rightarrow>
           if cf_ClientAuth config \<ge> VerifyClientCertIfGiven then
             (case pk_verify K (server_verify_opts config others) cert of
                Inr e \<Rightarrow> alert_fails alertBadCertificate (Text_Error ''tls: failed to verify client's certificate'')
              | Inl vchains \<Rightarrow> ok vchains)
           else ok before
       | [] \<Rightarrow> ok before) (\<lambda>vchains.
     case cf_VerifyPeerCertificate config of
       None \<Rightarrow> ok vchains
     | Some f \<Rightarrow> (case f certificates vchains of Some e \<Rightarrow> alert_fails alertBadCertificate e | None \<Rightarrow> ok vchains))"

definition processCertsFromClient :: "pki \<Rightarrow> byte list list \<Rightarrow> server_hs \<Rightarrow> ((public_key option \<times> server_hs) + tls_err) program" where
  "processCertsFromClient K certificates hs =
     and_then (parse_client_certs K certificates) (\<lambda>certs.
     and_then (verify_client_certs K (sh_config hs) certificates certs (pc_verifiedChains (sh_conn hs))) (\<lambda>vchains.
       let hs = hs\<lparr>sh_certsFromClient := certificates, sh_conn := (sh_conn hs)\<lparr>pc_verifiedChains := vchains\<rparr>\<rparr>
       in case certs of
            [] \<Rightarrow> ok (None, hs)
          | cert # _ \<Rightarrow>
              if xc_PublicKey cert = Other_Key then
                alert_fails alertUnsupportedCertificate (Text_Error ''tls: client's certificate contains an unsupported public key'')
              else ok (Some (xc_PublicKey cert), hs\<lparr>sh_conn := (sh_conn hs)\<lparr>pc_peerCertificates := certs\<rparr>\<rparr>)))"

section \<open>The flight of the server\<close>

definition certTypeRSASign :: byte where "certTypeRSASign = 1"
definition certTypeECDSASign :: byte where "certTypeECDSASign = 64"

definition send_hello :: "hashes \<Rightarrow> server_hs \<Rightarrow> (server_hs + tls_err) program" where
  "send_hello H hs =
     the_suite hs (\<lambda>s.
       let hello = (sh_hello hs)\<lparr>sv_ocspStapling := cl_ocspStapling (sh_clientHello hs) \<and> length (tc_OCSPStaple (sh_cert hs ! 0)) > 0,
             sv_ticketSupported := cl_ticketSupported (sh_clientHello hs) \<and> \<not> tcf_SessionTicketsDisabled (cf_tickets (sh_config hs)),
             sv_cipherSuite := cs_id s\<rparr>;
           fh = newFinishedHashGM H;
           fh = (if cf_ClientAuth (sh_config hs) = NoClientCert then discardHandshakeBuffer fh else fh)
       in marshalled (clientHello_marshal (sh_clientHello hs)) (\<lambda>chb.
          server_hash chb (hs\<lparr>sh_hello := hello, sh_finishedHash := fh\<rparr>) (\<lambda>hs.
          marshalled (serverHello_marshal hello) (\<lambda>shb. server_send shb hs))))"

definition send_server_certificates :: "server_hs \<Rightarrow> (server_hs + tls_err) program" where
  "send_server_certificates hs =
     marshalled (certificate_marshal \<lparr>cert_raw = None, cert_certificates = concat (map tc_Certificate (sh_cert hs))\<rparr>) (\<lambda>bytes.
     and_then (server_send bytes hs) (\<lambda>hs.
       if sv_ocspStapling (sh_hello hs) then
         marshalled (certificateStatus_marshal \<lparr>cst_raw = None, cst_statusType = statusTypeOCSP,
             cst_response = tc_OCSPStaple (sh_cert hs ! 0)\<rparr>) (\<lambda>bytes. server_send bytes hs)
       else ok hs))"

definition send_key_exchange :: "hashes \<Rightarrow> pki \<Rightarrow> server_hs \<Rightarrow> ((agreement \<times> server_hs) + tls_err) program" where
  "send_key_exchange H K hs =
     the_suite hs (\<lambda>s.
     and_then (or_alert alertHandshakeFailure
         (generateServerKeyExchange H K (sh_config hs) (sh_cert hs ! 0) (sh_cert hs ! 1) (sh_clientHello hs) (sh_hello hs)
            (suite_ka (cs_ka s) (sh_vers hs)))) (\<lambda>(skx, ka).
     case skx of
       None \<Rightarrow> ok (ka, hs)
     | Some skx \<Rightarrow> marshalled (serverKeyExchange_marshal skx) (\<lambda>bytes. and_then (server_send bytes hs) (\<lambda>hs. ok (ka, hs)))))"

definition send_certificate_request :: "server_hs \<Rightarrow> (server_hs + tls_err) program" where
  "send_certificate_request hs =
     (if cf_ClientAuth (sh_config hs) \<ge> RequestClientCert then
        marshalled (certificateRequestGM_marshal \<lparr>cg_raw = None, cg_certificateTypes = [certTypeRSASign, certTypeECDSASign],
            cg_certificateAuthorities = (case cf_ClientCAs (sh_config hs) of None \<Rightarrow> [] | Some (_, subjects) \<Rightarrow> subjects)\<rparr>)
          (\<lambda>bytes. server_send bytes hs)
      else ok hs)"

definition server_flight :: "hashes \<Rightarrow> pki \<Rightarrow> server_hs \<Rightarrow> ((agreement \<times> server_hs) + tls_err) program" where
  "server_flight H K hs =
     and_then (send_hello H hs) (\<lambda>hs.
     and_then (send_server_certificates hs) (\<lambda>hs.
     and_then (send_key_exchange H K hs) (\<lambda>(ka, hs).
     and_then (send_certificate_request hs) (\<lambda>hs.
     and_then (server_send serverHelloDone_marshal hs) (\<lambda>hs.
     and_then flush (\<lambda>_. ok (ka, hs)))))))"

section \<open>The flight of the client\<close>

definition read_client_certificate :: "pki \<Rightarrow> server_hs \<Rightarrow> ((handshake_msg option \<times> public_key option \<times> server_hs) + tls_err) program" where
  "read_client_certificate K hs =
     and_then read_handshake (\<lambda>msg.
     if cf_ClientAuth (sh_config hs) \<ge> RequestClientCert then
       (case msg of
          Some (Certificate_Msg certMsg) \<Rightarrow>
            marshalled (certificate_marshal certMsg) (\<lambda>bytes. server_hash bytes hs (\<lambda>hs.
              if cert_certificates certMsg = [] \<and> (cf_ClientAuth (sh_config hs) = RequireAnyClientCert
                    \<or> cf_ClientAuth (sh_config hs) = RequireAndVerifyClientCert) then
                alert_fails alertBadCertificate (Text_Error ''tls: client didn't provide a certificate'')
              else and_then (processCertsFromClient K (cert_certificates certMsg) hs) (\<lambda>(pub, hs).
                and_then read_handshake (\<lambda>msg. ok (msg, pub, hs)))))
        | _ \<Rightarrow> unexpected_message)
     else ok (msg, None, hs))"

definition read_client_key_exchange :: "hashes \<Rightarrow> pki \<Rightarrow> agreement \<Rightarrow> handshake_msg option \<Rightarrow> server_hs \<Rightarrow> (server_hs + tls_err) program" where
  "read_client_key_exchange H K ka msg hs =
     (case msg of
        Some (Client_Key_Exchange ckx) \<Rightarrow>
          marshalled (clientKeyExchange_marshal ckx) (\<lambda>bytes. server_hash bytes hs (\<lambda>hs.
          and_then (or_alert alertHandshakeFailure (processClientKeyExchange K (sh_cert hs ! 1) ckx (sh_vers hs) ka)) (\<lambda>preMasterSecret.
          the_suite hs (\<lambda>s.
          panics_if_none (masterFromPreMasterSecret H (sh_vers hs) s preMasterSecret (cl_random (sh_clientHello hs))
              (sv_random (sh_hello hs))) (\<lambda>ms.
            case writeKeyLog (sh_config hs) (cl_random (sh_clientHello hs)) ms of
              Some e \<Rightarrow> alert_fails alertInternalError e
            | None \<Rightarrow> ok (hs\<lparr>sh_masterSecret := ms\<rparr>))))))
      | _ \<Rightarrow> unexpected_message)"

text \<open>The signature type and the digest that \<open>CertificateVerify\<close> must match; a nil key has no type.\<close>

definition check_client_signature ::
  "hashes \<Rightarrow> pki \<Rightarrow> public_key option \<Rightarrow> certificate_verify_msg \<Rightarrow> server_hs \<Rightarrow> (unit + tls_err) program" where
  "check_client_signature H K pub cv hs =
     (let key = (case pub of None \<Rightarrow> Other_Key | Some k \<Rightarrow> k)
      in panics_if_none (pickSignatureAlgorithm key [cv_signatureAlgorithm cv] supportedSignatureAlgorithms (sh_vers hs)) (\<lambda>picked.
         and_then (or_alert alertIllegalParameter (Return picked)) (\<lambda>(_, sigType, hashFunc).
         panics_if_none (hashForClientCertificate H (sh_finishedHash hs) sigType hashFunc (sh_masterSecret hs)) (\<lambda>digest.
           case (case digest of Inr e \<Rightarrow> Some e | Inl d \<Rightarrow> verifyHandshakeSignature K sigType key hashFunc d (cv_signature cv)) of
             Some e \<Rightarrow> alert_fails alertBadCertificate (Text_Error ''tls: could not validate signature of connection nonces'')
           | None \<Rightarrow> ok ()))))"

definition read_certificate_verify :: "hashes \<Rightarrow> pki \<Rightarrow> public_key option \<Rightarrow> server_hs \<Rightarrow> (server_hs + tls_err) program" where
  "read_certificate_verify H K pub hs =
     (if pc_peerCertificates (sh_conn hs) = [] then ok hs
      else and_then read_handshake (\<lambda>msg.
        case msg of
          Some (Certificate_Verify cv) \<Rightarrow>
            and_then (check_client_signature H K pub cv hs) (\<lambda>_.
            marshalled (certificateVerify_marshal cv) (\<lambda>bytes. server_hash bytes hs ok))
        | _ \<Rightarrow> unexpected_message))"

definition server_doFullHandshake :: "hashes \<Rightarrow> pki \<Rightarrow> server_hs \<Rightarrow> (server_hs + tls_err) program" where
  "server_doFullHandshake H K hs =
     and_then (server_flight H K hs) (\<lambda>(ka, hs).
     and_then (read_client_certificate K hs) (\<lambda>(msg, pub, hs).
     and_then (read_client_key_exchange H K ka msg hs) (\<lambda>hs.
     and_then (read_certificate_verify H K pub hs) (\<lambda>hs.
       ok (hs\<lparr>sh_finishedHash := discardHandshakeBuffer (sh_finishedHash hs)\<rparr>)))))"

text \<open>
  \<open>doResumeHandshake\<close> takes the hash of \<open>newFinishedHash\<close>, not that of \<open>newFinishedHashGM\<close>.
\<close>

definition doResumeHandshake :: "hashes \<Rightarrow> pki \<Rightarrow> server_hs \<Rightarrow> (server_hs + tls_err) program" where
  "doResumeHandshake H K hs =
     the_suite hs (\<lambda>s. panics_if_none (sh_sessionState hs) (\<lambda>st.
       let hello = (sh_hello hs)\<lparr>sv_cipherSuite := cs_id s, sv_sessionId := cl_sessionId (sh_clientHello hs),
                      sv_ticketSupported := ss_usedOldKey st\<rparr>
       in panics_if_none (newFinishedHash H (sh_vers hs) s) (\<lambda>fh.
          marshalled (clientHello_marshal (sh_clientHello hs)) (\<lambda>chb.
          server_hash chb (hs\<lparr>sh_hello := hello, sh_finishedHash := discardHandshakeBuffer fh\<rparr>) (\<lambda>hs.
          marshalled (serverHello_marshal hello) (\<lambda>shb.
          and_then (server_send shb hs) (\<lambda>hs.
          and_then (if ss_certificates st = [] then ok hs
                    else and_then (processCertsFromClient K (ss_certificates st) hs) (\<lambda>(_, hs). ok hs)) (\<lambda>hs.
            ok (hs\<lparr>sh_masterSecret := ss_masterSecret st\<rparr>)))))))))"

section \<open>Keys, tickets and Finished\<close>

definition server_prepare_specs ::
  "u16 \<Rightarrow> cipher_suite \<Rightarrow> byte list \<times> byte list \<times> byte list \<Rightarrow> byte list \<times> byte list \<times> byte list \<Rightarrow> (unit + tls_err) program" where
  "server_prepare_specs vers s client server =
     (case client of (clientMAC, clientKey, clientIV) \<Rightarrow> case server of (serverMAC, serverKey, serverIV) \<Rightarrow>
      case cs_aead s of
        None \<Rightarrow>
          panics_if_none (cs_cipher s) (\<lambda>f. panics_if_none (f clientKey clientIV True) (\<lambda>cc. panics_if_none (f serverKey serverIV False) (\<lambda>sc.
          panics_if_none (cs_mac s) (\<lambda>m.
            Prepare_Spec True vers cc (Some (m vers clientMAC)) (Prepare_Spec False vers sc (Some (m vers serverMAC)) (ok ()))))))
      | Some a \<Rightarrow>
          panics_if_none (a clientKey clientIV) (\<lambda>cc. panics_if_none (a serverKey serverIV) (\<lambda>sc.
            Prepare_Spec True vers cc None (Prepare_Spec False vers sc None (ok ())))))"

definition server_establishKeys :: "hashes \<Rightarrow> server_hs \<Rightarrow> (unit + tls_err) program" where
  "server_establishKeys H hs =
     the_suite hs (\<lambda>s.
     panics_if_none (keysFromMasterSecret H (sh_vers hs) s (sh_masterSecret hs) (cl_random (sh_clientHello hs))
         (sv_random (sh_hello hs)) (cs_macLen s) (cs_keyLen s) (cs_ivLen s)) (\<lambda>kb.
       server_prepare_specs (sh_vers hs) s (kb_clientMAC kb, kb_clientKey kb, kb_clientIV kb) (kb_serverMAC kb, kb_serverKey kb, kb_serverIV kb)))"

definition server_read_next_proto :: "server_hs \<Rightarrow> (server_hs + tls_err) program" where
  "server_read_next_proto hs =
     (if \<not> sv_nextProtoNeg (sh_hello hs) then ok hs
      else and_then read_handshake (\<lambda>msg.
        case msg of
          Some (Next_Protocol np) \<Rightarrow>
            marshalled (nextProto_marshal np) (\<lambda>bytes. server_hash bytes hs (\<lambda>hs.
              ok (hs\<lparr>sh_conn := (sh_conn hs)\<lparr>pc_clientProtocol := np_proto np\<rparr>\<rparr>)))
        | _ \<Rightarrow> unexpected_message))"

text \<open>\<open>keep\<close>: the verified value is copied into \<open>clientFinished\<close> of the connection, or to nowhere.\<close>

definition server_readFinished :: "hashes \<Rightarrow> bool \<Rightarrow> server_hs \<Rightarrow> (server_hs + tls_err) program" where
  "server_readFinished H keep hs =
     Read_Record recordTypeChangeCipherSpec (\<lambda>(err, _).
     and_then (or_error err) (\<lambda>_.
     and_then (server_read_next_proto hs) (\<lambda>hs.
     and_then read_handshake (\<lambda>msg.
     case msg of
       Some (Finished fin) \<Rightarrow>
         panics_if_none (clientSum H (sh_finishedHash hs) (sh_masterSecret hs)) (\<lambda>verify.
           if verify \<noteq> op_data fin then alert_fails alertHandshakeFailure (Text_Error ''tls: client's Finished message is incorrect'')
           else marshalled (finished_marshal fin) (\<lambda>bytes. server_hash bytes hs (\<lambda>hs.
             ok (if keep then hs\<lparr>sh_conn := (sh_conn hs)\<lparr>pc_clientFinished := go_copy (pc_clientFinished (sh_conn hs)) 0 verify\<rparr>\<rparr> else hs))))
     | _ \<Rightarrow> unexpected_message))))"

definition sendSessionTicket :: "ticket_crypto \<Rightarrow> server_hs \<Rightarrow> (server_hs + tls_err) program" where
  "sendSessionTicket TC hs =
     (if \<not> sv_ticketSupported (sh_hello hs) then ok hs
      else the_suite hs (\<lambda>s.
        let st = \<lparr>ss_vers = sh_vers hs, ss_cipherSuite = cs_id s, ss_masterSecret = sh_masterSecret hs,
                  ss_certificates = sh_certsFromClient hs, ss_usedOldKey = False\<rparr>
        in and_then (read_rand 16) (\<lambda>iv.
           case encryptTicket TC (cf_tickets (sh_config hs)) (Some iv) st of
             Panic \<Rightarrow> Crash
           | Reject \<Rightarrow> fails ''tls: ticket''
           | Accept ticket \<Rightarrow>
               marshalled (newSessionTicket_marshal \<lparr>st_raw = None, st_ticket = ticket\<rparr>) (\<lambda>bytes. server_send bytes hs))))"

definition server_sendFinished :: "hashes \<Rightarrow> bool \<Rightarrow> server_hs \<Rightarrow> (server_hs + tls_err) program" where
  "server_sendFinished H keep hs =
     and_then (write_record recordTypeChangeCipherSpec [1]) (\<lambda>_.
     panics_if_none (serverSum H (sh_finishedHash hs) (sh_masterSecret hs)) (\<lambda>verifyData.
     marshalled (finished_marshal \<lparr>op_raw = None, op_data = verifyData\<rparr>) (\<lambda>bytes.
     and_then (server_send bytes hs) (\<lambda>hs.
     the_suite hs (\<lambda>s.
       let c = (sh_conn hs)\<lparr>pc_cipherSuite := cs_id s\<rparr>
       in ok (hs\<lparr>sh_conn := (if keep then c\<lparr>pc_serverFinished := go_copy (pc_serverFinished c) 0 verifyData\<rparr> else c)\<rparr>))))))"

section \<open>The handshake\<close>

definition server_first :: "bool \<Rightarrow> server_hs \<Rightarrow> server_hs" where
  "server_first b hs = hs\<lparr>sh_conn := (sh_conn hs)\<lparr>pc_clientFinishedIsFirst := b\<rparr>\<rparr>"

definition server_resume :: "hashes \<Rightarrow> pki \<Rightarrow> ticket_crypto \<Rightarrow> server_hs \<Rightarrow> (server_hs + tls_err) program" where
  "server_resume H K TC hs =
     and_then (doResumeHandshake H K hs) (\<lambda>hs.
     and_then (server_establishKeys H hs) (\<lambda>_.
     and_then (sendSessionTicket TC hs) (\<lambda>hs.
     and_then (server_sendFinished H True hs) (\<lambda>hs.
     and_then flush (\<lambda>_.
     and_then (server_readFinished H False (server_first False hs)) (\<lambda>hs.
       ok (hs\<lparr>sh_conn := (sh_conn hs)\<lparr>pc_didResume := True\<rparr>\<rparr>)))))))"

definition server_full :: "hashes \<Rightarrow> pki \<Rightarrow> ticket_crypto \<Rightarrow> server_hs \<Rightarrow> (server_hs + tls_err) program" where
  "server_full H K TC hs =
     and_then (server_doFullHandshake H K hs) (\<lambda>hs.
     and_then (server_establishKeys H hs) (\<lambda>_.
     and_then (server_readFinished H True hs) (\<lambda>hs.
     Set_Buffering (
     and_then (sendSessionTicket TC (server_first True hs)) (\<lambda>hs.
     and_then (server_sendFinished H False hs) (\<lambda>hs.
     and_then flush (\<lambda>_. ok hs)))))))"

definition serverHandshakeGM ::
  "hashes \<Rightarrow> primitives \<Rightarrow> pki \<Rightarrow> ticket_crypto \<Rightarrow> (client_hello \<Rightarrow> tls_config option + tls_err) option \<Rightarrow> tls_config \<Rightarrow> peer_state
   \<Rightarrow> (server_hs + tls_err) program" where
  "serverHandshakeGM H P K TC getConfig config c =
     and_then (init_tickets TC config) (\<lambda>config.
     and_then (readClientHello H P TC getConfig
         \<lparr>sh_conn = c, sh_vers = 0, sh_config = config, sh_clientHello = empty_client_hello, sh_hello = empty_server_hello, sh_suite = None,
          sh_sessionState = None, sh_finishedHash = newFinishedHashGM H, sh_masterSecret = [], sh_certsFromClient = [], sh_cert = []\<rparr>)
       (\<lambda>(isResume, hs).
     Set_Buffering (
     and_then (if isResume then server_resume H K TC hs else server_full H K TC hs) (\<lambda>hs.
     the_suite hs (\<lambda>s.
       Set_Complete (ok (hs\<lparr>sh_conn := (sh_conn hs)\<lparr>pc_ekm := Some (ekmFromMasterSecret H (sh_vers hs) s (sh_masterSecret hs)
         (cl_random (sh_clientHello hs)) (sv_random (sh_hello hs)))\<rparr>\<rparr>)))))))"

end
