(* ===== verification/Tls_Transcript.thy ===== *)
theory Tls_Transcript
  imports Tls_Gm_Server
begin

text \<open>
  What a run of a handshake program looks like from outside: the rules (\<open>runs\<close>) that take a
  successful replay apart, and the transcript of its handshake messages, which the running hash of
  both sides follows (\<open>tracks\<close>). \<open>quiet\<close> programs send and receive no message.
\<close>

section \<open>Taking runs apart\<close>

named_theorems runs

lemma replay_ok [runs]: "replay es (ok x) = Some (Inl y) \<longleftrightarrow> es = [] \<and> x = y"
  by (auto simp: ok_def)

lemma replay_fails [runs]: "replay es (fails s) \<noteq> Some (Inl y)"
  by (auto simp: fails_def)

lemma replay_alert_fails [runs]: "replay es (alert_fails a e) \<noteq> Some (Inl y)"
  by (auto simp: alert_fails_def replay_step)

lemma replay_unexpected [runs]: "replay es unexpected_message \<noteq> Some (Inl y)"
  by (simp add: unexpected_message_def runs)

lemma replay_Return_Inr [runs]: "replay es (Return (Inr e)) \<noteq> Some (Inl y)"
  by simp

lemma replay_panics_if_none [runs]: "replay es (panics_if_none r k) = Some x \<longleftrightarrow> (\<exists>y. r = Some y \<and> replay es (k y) = Some x)"
  by (cases r) (auto simp: panics_if_none_def)

lemma replay_marshalled [runs]: "replay es (marshalled r k) = Some x \<longleftrightarrow> (\<exists>b m. r = Some (b, m) \<and> replay es (k b) = Some x)"
  by (auto simp: marshalled_def runs)

lemma replay_the_suite [runs]: "replay es (the_suite hs k) = Some x \<longleftrightarrow> (\<exists>s. sh_suite hs = Some s \<and> replay es (k s) = Some x)"
  by (simp add: the_suite_def runs)

lemma replay_or_error [runs]: "replay es (or_error e) = Some (Inl u) \<longleftrightarrow> es = [] \<and> e = None"
  by (cases e) (auto simp: or_error_def runs)

lemma replay_write_record [runs]: "replay es (write_record t d) = Some (Inl u) \<longleftrightarrow> es = [Wrote t d None]"
  by (auto simp: write_record_def replay_step runs)

lemma replay_read_handshake [runs]: "replay es read_handshake = Some r \<longleftrightarrow> es = [Got r]"
  by (auto simp: read_handshake_def replay_step)

lemma replay_flush [runs]: "replay es flush = Some (Inl u) \<longleftrightarrow> es = [Flushed None]"
  by (auto simp: flush_def replay_step runs)

lemma replay_read_rand [runs]: "replay es (read_rand n) = Some r \<longleftrightarrow> es = [Rand n r]"
  by (auto simp: read_rand_def replay_step)

lemma replay_return_err [runs]:
  "replay es (return_err r k) = Some (Inl x) \<longleftrightarrow> (\<exists>y. r = Inl y \<and> replay es (k y) = Some (Inl x))"
  by (cases r) auto

lemma replay_or_alert [runs]: "replay es (or_alert al p) = Some (Inl x) \<longleftrightarrow> replay es p = Some (Inl x)"
proof
  assume "replay es (or_alert al p) = Some (Inl x)"
  then obtain es1 es2 y where "es = es1 @ es2" "replay es1 p = Some y"
    "replay es2 (case y of Inl x \<Rightarrow> ok x | Inr e \<Rightarrow> alert_fails al e) = Some (Inl x)"
    unfolding or_alert_def replay_bind by blast
  then show "replay es p = Some (Inl x)" by (cases y) (simp_all add: runs)
next
  assume "replay es p = Some (Inl x)"
  then show "replay es (or_alert al p) = Some (Inl x)" unfolding or_alert_def replay_bind
    by (intro exI[of _ es] exI[of _ "[]"] exI[of _ "Inl x"]) (simp add: runs)
qed

declare replay_step [runs]

lemma replay_guard [runs]:
  "replay es (if g then alert_fails a e else q) = Some (Inl x) \<longleftrightarrow> \<not> g \<and> replay es q = Some (Inl x)"
  "replay es (if g then fails s else q) = Some (Inl x) \<longleftrightarrow> \<not> g \<and> replay es q = Some (Inl x)"
  "replay es (if g then unexpected_message else q) = Some (Inl x) \<longleftrightarrow> \<not> g \<and> replay es q = Some (Inl x)"
  "replay es (if g then Return (Inr e) else q) = Some (Inl x) \<longleftrightarrow> \<not> g \<and> replay es q = Some (Inl x)"
  "replay es (if g then Crash else p) = Some y \<longleftrightarrow> \<not> g \<and> replay es p = Some y"
  by (auto simp: runs)

lemma replay_refusals [runs]:
  "replay es (case r of Some e \<Rightarrow> alert_fails a (f e) | None \<Rightarrow> q) = Some (Inl x) \<longleftrightarrow> r = None \<and> replay es q = Some (Inl x)"
  "replay es (case r of Some e \<Rightarrow> Return (Inr (g e)) | None \<Rightarrow> q) = Some (Inl x) \<longleftrightarrow> r = None \<and> replay es q = Some (Inl x)"
  "replay es (case l of [] \<Rightarrow> Crash | y # ys \<Rightarrow> k y ys) = Some (Inl x) \<longleftrightarrow> (\<exists>y ys. l = y # ys \<and> replay es (k y ys) = Some (Inl x))"
  "replay es (case l of y # z # ys \<Rightarrow> h y z ys | _ \<Rightarrow> Crash) = Some (Inl x)
     \<longleftrightarrow> (\<exists>y z ys. l = y # z # ys \<and> replay es (h y z ys) = Some (Inl x))"
  by (auto simp: runs split: option.split list.split)

text \<open>Waiting for one kind of message.\<close>

lemma replay_want_Server_Hello [runs]:
  "replay es (case msg of Some (Server_Hello m) \<Rightarrow> f m | _ \<Rightarrow> unexpected_message) = Some (Inl x)
     \<longleftrightarrow> (\<exists>m. msg = Some (Server_Hello m) \<and> replay es (f m) = Some (Inl x))"
  by (auto simp: runs split: option.split handshake_msg.split)

lemma replay_want_Certificate_Msg [runs]:
  "replay es (case msg of Some (Certificate_Msg m) \<Rightarrow> f m | _ \<Rightarrow> unexpected_message) = Some (Inl x)
     \<longleftrightarrow> (\<exists>m. msg = Some (Certificate_Msg m) \<and> replay es (f m) = Some (Inl x))"
  by (auto simp: runs split: option.split handshake_msg.split)

lemma replay_want_New_Session_Ticket [runs]:
  "replay es (case msg of Some (New_Session_Ticket m) \<Rightarrow> f m | _ \<Rightarrow> unexpected_message) = Some (Inl x)
     \<longleftrightarrow> (\<exists>m. msg = Some (New_Session_Ticket m) \<and> replay es (f m) = Some (Inl x))"
  by (auto simp: runs split: option.split handshake_msg.split)

lemma replay_want_Finished [runs]:
  "replay es (case msg of Some (Finished m) \<Rightarrow> f m | _ \<Rightarrow> unexpected_message) = Some (Inl x)
     \<longleftrightarrow> (\<exists>m. msg = Some (Finished m) \<and> replay es (f m) = Some (Inl x))"
  by (auto simp: runs split: option.split handshake_msg.split)

lemma replay_want_Client_Hello [runs]:
  "replay es (case msg of Some (Client_Hello m) \<Rightarrow> f m | _ \<Rightarrow> unexpected_message) = Some (Inl x)
     \<longleftrightarrow> (\<exists>m. msg = Some (Client_Hello m) \<and> replay es (f m) = Some (Inl x))"
  by (auto simp: runs split: option.split handshake_msg.split)

lemma replay_want_Client_Key_Exchange [runs]:
  "replay es (case msg of Some (Client_Key_Exchange m) \<Rightarrow> f m | _ \<Rightarrow> unexpected_message) = Some (Inl x)
     \<longleftrightarrow> (\<exists>m. msg = Some (Client_Key_Exchange m) \<and> replay es (f m) = Some (Inl x))"
  by (auto simp: runs split: option.split handshake_msg.split)

lemma replay_want_Certificate_Verify [runs]:
  "replay es (case msg of Some (Certificate_Verify m) \<Rightarrow> f m | _ \<Rightarrow> unexpected_message) = Some (Inl x)
     \<longleftrightarrow> (\<exists>m. msg = Some (Certificate_Verify m) \<and> replay es (f m) = Some (Inl x))"
  by (auto simp: runs split: option.split handshake_msg.split)

lemma replay_want_Next_Protocol [runs]:
  "replay es (case msg of Some (Next_Protocol m) \<Rightarrow> f m | _ \<Rightarrow> unexpected_message) = Some (Inl x)
     \<longleftrightarrow> (\<exists>m. msg = Some (Next_Protocol m) \<and> replay es (f m) = Some (Inl x))"
  by (auto simp: runs split: option.split handshake_msg.split)

lemma replay_want_Done [runs]:
  "replay es (case msg of Some Server_Hello_Done \<Rightarrow> p | _ \<Rightarrow> unexpected_message) = Some (Inl x)
     \<longleftrightarrow> msg = Some Server_Hello_Done \<and> replay es p = Some (Inl x)"
  by (auto simp: runs split: option.split handshake_msg.split)

section \<open>Transcripts\<close>

text \<open>The bytes of a message as its \<open>marshal\<close> gives them; a message that was received keeps the bytes it came in.\<close>

definition first_bytes :: "(byte list \<times> 'm) option \<Rightarrow> byte list" where
  "first_bytes r = (case r of Some (b, _) \<Rightarrow> b | None \<Rightarrow> [])"

fun msg_bytes :: "handshake_msg \<Rightarrow> byte list" where
  "msg_bytes Hello_Request = helloRequest_marshal"
| "msg_bytes (Client_Hello m) = first_bytes (clientHello_marshal m)"
| "msg_bytes (Server_Hello m) = first_bytes (serverHello_marshal m)"
| "msg_bytes (New_Session_Ticket m) = first_bytes (newSessionTicket_marshal m)"
| "msg_bytes (Certificate_Msg m) = first_bytes (certificate_marshal m)"
| "msg_bytes (Certificate_Request m) = first_bytes (certificateRequest_marshal m)"
| "msg_bytes (Certificate_Request_GM m) = first_bytes (certificateRequestGM_marshal m)"
| "msg_bytes (Certificate_Status m) = first_bytes (certificateStatus_marshal m)"
| "msg_bytes (Server_Key_Exchange m) = first_bytes (serverKeyExchange_marshal m)"
| "msg_bytes Server_Hello_Done = serverHelloDone_marshal"
| "msg_bytes (Client_Key_Exchange m) = first_bytes (clientKeyExchange_marshal m)"
| "msg_bytes (Certificate_Verify m) = first_bytes (certificateVerify_marshal m)"
| "msg_bytes (Next_Protocol m) = first_bytes (nextProto_marshal m)"
| "msg_bytes (Finished m) = first_bytes (finished_marshal m)"

lemma first_bytes_Some [simp]: "first_bytes (Some (b, m)) = b"
  by (simp add: first_bytes_def)

fun event_bytes :: "event \<Rightarrow> byte list" where
  "event_bytes (Wrote t d e) = (if t = recordTypeHandshake then d else [])"
| "event_bytes (Got (Inl (Some m))) = msg_bytes m"
| "event_bytes _ = []"

definition transcript :: "event list \<Rightarrow> byte list" where
  "transcript es = concat (map event_bytes es)"

lemma transcript_simps [simp]: "transcript [] = []" "transcript (e # es) = event_bytes e @ transcript es"
  "transcript (es @ fs) = transcript es @ transcript fs"
  by (simp_all add: transcript_def)

text \<open>The bytes of a message that was read, of which there are none for a nil message.\<close>

definition pending :: "handshake_msg option \<Rightarrow> byte list" where
  "pending msg = (case msg of None \<Rightarrow> [] | Some m \<Rightarrow> msg_bytes m)"

lemma event_bytes_Got [simp]: "event_bytes (Got (Inl msg)) = pending msg"
  by (cases msg) (simp_all add: pending_def)

lemma ccs_not_handshake [simp]: "recordTypeChangeCipherSpec \<noteq> recordTypeHandshake"
  by (simp add: record_types)

text \<open>The GM running hash has seen exactly these bytes.\<close>

definition tracks :: "hashes \<Rightarrow> byte list \<Rightarrow> finished_hash \<Rightarrow> bool" where
  "tracks H t h \<longleftrightarrow> fh_client h = Hash_Of (h_sm3 H) t \<and> fh_server h = Hash_Of (h_sm3 H) t \<and> fh_clientMD5 h = Nil_MD5_Hash
     \<and> fh_serverMD5 h = Nil_MD5_Hash \<and> fh_version h = VersionGMSSL \<and> fh_prf h = PRF12 (h_sm3 H)"

lemma tracks_new [simp]: "tracks H [] (newFinishedHashGM H)"
  by (simp add: tracks_def newFinishedHashGM_def new_hash_def)

lemma tracks_discard [simp]: "tracks H t (discardHandshakeBuffer h) = tracks H t h"
  by (simp add: tracks_def discardHandshakeBuffer_def)

lemma gm_below_12 [simp]: "VersionGMSSL < VersionTLS12" "VersionGMSSL \<noteq> VersionSSL30" "\<not> VersionTLS12 \<le> VersionGMSSL"
  by (simp_all add: VersionGMSSL_def VersionTLS12_def VersionSSL30_def)

lemma tracks_Write: "tracks H t h \<Longrightarrow> fh_Write b h = Some h' \<Longrightarrow> tracks H (t @ b) h'"
  by (auto simp: tracks_def fh_Write_def)

lemma tracks_can_Write: "tracks H t h \<Longrightarrow> \<exists>h'. fh_Write b h = Some h' \<and> tracks H (t @ b) h'"
  by (auto simp: tracks_def fh_Write_def)

lemma replay_hash_msg [runs]:
  "replay es (hash_msg b hs k) = Some x \<longleftrightarrow> (\<exists>h. fh_Write b (ch_finishedHash hs) = Some h \<and> replay es (k (hs\<lparr>ch_finishedHash := h\<rparr>)) = Some x)"
  by (simp add: hash_msg_def runs)

lemma replay_server_hash [runs]:
  "replay es (server_hash b hs k) = Some x \<longleftrightarrow> (\<exists>h. fh_Write b (sh_finishedHash hs) = Some h \<and> replay es (k (hs\<lparr>sh_finishedHash := h\<rparr>)) = Some x)"
  by (simp add: server_hash_def runs)

lemma replay_send_msg [runs]:
  "replay es (send_msg b hs) = Some (Inl hs') \<longleftrightarrow> (\<exists>h. fh_Write b (ch_finishedHash hs) = Some h \<and> es = [Wrote recordTypeHandshake b None]
     \<and> hs' = hs\<lparr>ch_finishedHash := h\<rparr>)"
  by (auto simp: send_msg_def runs replay_and_then)

lemma replay_server_send [runs]:
  "replay es (server_send b hs) = Some (Inl hs') \<longleftrightarrow> (\<exists>h. fh_Write b (sh_finishedHash hs) = Some h \<and> es = [Wrote recordTypeHandshake b None]
     \<and> hs' = hs\<lparr>sh_finishedHash := h\<rparr>)"
  by (auto simp: server_send_def runs replay_and_then)

text \<open>The two Finished values over a transcript.\<close>

definition gm_finished :: "hashes \<Rightarrow> byte list \<Rightarrow> byte list \<Rightarrow> byte list \<Rightarrow> byte list" where
  "gm_finished H label ms t = P_hash (h_sm3 H) ms (label @ hf_sum (h_sm3 H) t) 12"

lemma tracks_sums:
  assumes "tracks H t h" "hash_ok (h_sm3 H)"
  shows "clientSum H h ms = Some (gm_finished H clientFinishedLabel ms t)" "serverSum H h ms = Some (gm_finished H serverFinishedLabel ms t)"
  using assms by (simp_all add: tracks_def clientSum_def serverSum_def fh_Sum_def prf12_def pHash_exact gm_finished_def finishedVerifyLength_def)

section \<open>Quiet programs\<close>

definition quiet :: "'r program \<Rightarrow> bool" where
  "quiet p \<longleftrightarrow> (\<forall>es r. replay es p = Some r \<longrightarrow> transcript es = [])"

lemma quietD: "quiet p \<Longrightarrow> replay es p = Some r \<Longrightarrow> transcript es = []"
  by (simp add: quiet_def)

named_theorems quiets

lemma quiet_basic [quiets]:
  "quiet (Return r)" "quiet Crash" "quiet (ok x)" "quiet (fails s)" "quiet (alert_fails a e)" "quiet (or_error eo)" "quiet (read_rand n)"
  by (auto simp: quiet_def ok_def fails_def alert_fails_def or_error_def read_rand_def replay_step split: option.split)

lemma quiet_Coins [quiets]: "(\<And>c. quiet (k c)) \<Longrightarrow> quiet (Coins k)"
  unfolding quiet_def replay_step by force

lemma quiet_panics [quiets]: "(\<And>y. r = Some y \<Longrightarrow> quiet (k y)) \<Longrightarrow> quiet (panics_if_none r k)"
  by (cases r) (simp_all add: panics_if_none_def quiet_basic)

lemma quiet_return_err [quiets]: "(\<And>y. r = Inl y \<Longrightarrow> quiet (k y)) \<Longrightarrow> quiet (return_err r k)"
  by (cases r) (simp_all add: quiet_basic)

lemma quiet_bind: "quiet p \<Longrightarrow> (\<And>x. quiet (k x)) \<Longrightarrow> quiet (bind_program p k)"
  unfolding quiet_def replay_bind by fastforce

lemma quiet_and_then [quiets]: "quiet p \<Longrightarrow> (\<And>x. quiet (k x)) \<Longrightarrow> quiet (and_then p k)"
  unfolding and_then_def by (rule quiet_bind) (auto split: sum.split simp: quiets)

lemma quiet_or_alert [quiets]: "quiet p \<Longrightarrow> quiet (or_alert al p)"
  unfolding or_alert_def by (rule quiet_bind) (auto split: sum.split simp: quiets)

text \<open>Key agreements, certificate checks and key set-up exchange no message.\<close>

lemma quiet_generateClientKeyExchange [quiets]: "quiet (generateClientKeyExchange K ch cert ka)"
  by (cases ka) (auto simp: rsa_generateClientKeyExchange_def ecdhe_generateClientKeyExchange_def ecc_gm_generateClientKeyExchange_def Let_def
      intro!: quiets split: public_key.split option.split)

lemma quiet_verify_signed [quiets]: "quiet (verify_signed_params H K pub ch sh picked v params sig)"
  by (auto simp: verify_signed_params_def intro!: quiets split: prod.split)

lemma quiet_processServerKeyExchange [quiets]: "quiet (processServerKeyExchange H K ch sh cert skx ka)"
  by (cases ka) (auto simp: ecdhe_processServerKeyExchange_def ecdhe_gm_processServerKeyExchange_def ecc_gm_processServerKeyExchange_def Let_def
      intro!: quiets split: public_key.split option.split)

lemma quiet_processClientKeyExchange [quiets]: "quiet (processClientKeyExchange K cert ckx v ka)"
  by (cases ka) (auto simp: rsa_processClientKeyExchange_def ecdhe_processClientKeyExchange_def ecc_gm_processClientKeyExchange_def Let_def
      intro!: quiets split: option.split list.split)

lemma quiet_ecdhe_sign [quiets]: "quiet (ecdhe_sign H c ch sh acc refusal opts ka params)"
  by (auto simp: ecdhe_sign_def Let_def intro!: quiets split: option.split)

lemma quiet_generateServerKeyExchange [quiets]: "quiet (generateServerKeyExchange H K cfg sc cc ch sh ka)"
  by (cases ka) (auto simp: ecdhe_generateServerKeyExchange_def ecdhe_gm_generateServerKeyExchange_def ecc_gm_generateServerKeyExchange_def Let_def
      intro!: quiets split: option.split list.split)

lemma quiet_parse_gm_certs [quiets]: "quiet (parse_gm_certs K i ds)"
  by (induction K i ds rule: parse_gm_certs.induct) (auto intro!: quiets split: sum.split public_key.split)

lemma quiet_verify_gm_certs [quiets]: "quiet (verify_gm_certs K opts i certs vchains)"
  by (induction K opts i certs vchains rule: verify_gm_certs.induct) (auto intro!: quiets split: sum.split)

lemma quiet_first_certificates [quiets]: "quiet (first_certificates K config raws hs)"
  by (auto simp: first_certificates_def Let_def intro!: quiets split: public_key.split option.split)

lemma quiet_chain_acceptable [quiets]: "quiet (chain_acceptable K cas leaf certs)"
  by (induction K cas leaf certs rule: chain_acceptable.induct) (auto intro!: quiets split: sum.split option.split)

lemma quiet_find_client_chain [quiets]: "quiet (find_client_chain K cas cs)"
  by (induction K cas cs rule: find_client_chain.induct) (auto intro!: quiets)

lemma quiet_client_getCertificate [quiets]: "quiet (client_getCertificate K config r)"
  by (auto simp: client_getCertificate_def intro!: quiets split: option.split)

lemma quiet_Prepare [quiets]: "quiet p \<Longrightarrow> quiet (Prepare_Spec i v c m p)"
  unfolding quiet_def replay_step by force

lemma quiet_prepare [quiets]: "quiet (prepare_specs v s x y)" "quiet (server_prepare_specs v s x y)"
  by (auto simp: prepare_specs_def server_prepare_specs_def intro!: quiets split: prod.split option.split)

lemma quiet_establish [quiets]: "quiet (client_establishKeys H hs)" "quiet (server_establishKeys H hs')"
  by (auto simp: client_establishKeys_def server_establishKeys_def the_suite_def Let_def intro!: quiets)

lemma quiet_parse_client_certs [quiets]: "quiet (parse_client_certs K ds)"
  by (induction K ds rule: parse_client_certs.induct) (auto intro!: quiets split: sum.split)

lemma quiet_processCertsFromClient [quiets]: "quiet (processCertsFromClient K certs hs)"
  by (auto simp: processCertsFromClient_def verify_client_certs_def Let_def intro!: quiets split: list.split sum.split option.split)

lemma quiet_check_client_signature [quiets]: "quiet (check_client_signature H K pub cv hs)"
  by (auto simp: check_client_signature_def Let_def intro!: quiets split: option.split sum.split prod.split)

end
