(* ===== verification/Tls_Roundtrip.thy ===== *)
theory Tls_Roundtrip
  imports Tls_Messages
begin

text \<open>
  What the handshake codec guarantees: no parser panics on any input, and every message that
  fits the format is read back exactly as it was written.
\<close>

section \<open>No input makes a parser panic\<close>

lemma of_nat32_le: "\<not> (of_nat n :: u32) < 3 + of_nat k \<Longrightarrow> k < 16777216 \<Longrightarrow> 3 + k \<le> n"
proof -
  assume a: "\<not> (of_nat n :: u32) < 3 + of_nat k" "k < 16777216"
  have "(3 + of_nat k :: u32) = of_nat (3 + k)" by simp
  then have "unat (3 + of_nat k :: u32) = 3 + k" using a(2) by (simp only: unat_of_nat) simp
  moreover have "unat (of_nat n :: u32) \<le> n" by (simp add: unat_of_nat)
  ultimately show ?thesis using a(1) by (simp add: word_less_nat_alt)
qed

lemma count_take_certs:
  "count_certs w d = Some n \<Longrightarrow> take_certs n d \<noteq> Panic"
proof (induction w d arbitrary: n rule: count_certs.induct)
  case (1 w d)
  show ?case
  proof (cases "w > 0")
    case False
    then show ?thesis using 1(2) by (subst (asm) count_certs.simps) simp
  next
    case True
    from 1(2) True obtain a b c e d' where d: "d = a # b # c # e # d'"
      by (subst (asm) count_certs.simps) (auto split: list.splits)
    let ?k = "get24 a b c"
    obtain n' where n: "n = Suc n'" "\<not> (of_nat (length d) :: u32) < 3 + of_nat ?k"
      "count_certs (w - (3 + of_nat ?k)) (drop (3 + ?k) d) = Some n'"
      using 1(2) True unfolding d by (subst (asm) count_certs.simps) (auto split: if_splits)
    have le: "3 + ?k \<le> length d" by (rule of_nat32_le[OF n(2) get24_less])
    have r: "rd24 d 0 k = k ?k" for k :: "nat \<Rightarrow> byte list list parse" unfolding d by (simp add: codec_simps)
    have "take_certs n' (drop (3 + ?k) d) \<noteq> Panic"
      by (rule 1(1)[OF True, of a "b # c # e # d'" b "c # e # d'" c "e # d'" e d']) (use d n in simp_all)
    then show ?thesis unfolding n(1) using le by (auto simp: r sub_def from_at_def)
  qed
qed

lemma certificate_unmarshal_no_panic: "certificate_unmarshal m data \<noteq> Panic"
proof -
  have "(case count_certs w d of None \<Rightarrow> Reject
          | Some n \<Rightarrow> on_accept (take_certs n d) (\<lambda>cs. Accept (f cs))) \<noteq> Panic" for w d and f :: "_ \<Rightarrow> certificate_msg"
    using count_take_certs[of w d] by (auto split: option.splits)
  then show ?thesis unfolding certificate_unmarshal_def by (intro no_panic; (simp; fail)?)
qed

lemma message_parsers_no_panic:
  "serverKeyExchange_unmarshal m1 data \<noteq> Panic" "clientKeyExchange_unmarshal m1 data \<noteq> Panic"
  "finished_unmarshal m1 data \<noteq> Panic" "certificateStatus_unmarshal m2 data \<noteq> Panic"
  "nextProto_unmarshal m3 data \<noteq> Panic" "certificateVerify_unmarshal m4 data \<noteq> Panic"
  "newSessionTicket_unmarshal m5 data \<noteq> Panic" "certificateRequest_unmarshal m6 data \<noteq> Panic"
  "certificateRequestGM_unmarshal m7 data \<noteq> Panic"
  unfolding serverKeyExchange_unmarshal_def clientKeyExchange_unmarshal_def finished_unmarshal_def certificateStatus_unmarshal_def
    nextProto_unmarshal_def certificateVerify_unmarshal_def newSessionTicket_unmarshal_def certificateRequest_unmarshal_def
    certificateRequestGM_unmarshal_def Let_def case_prod_beta
  by (intro no_panic u16s_half_no_panic items16_no_panic; (simp; fail | force | auto))+

section \<open>Round trips\<close>

lemma seek_Cons [codec_simps]:
  "0 < i \<Longrightarrow> at (x # xs) i k1 = at xs (i - 1) k1" "0 < i \<Longrightarrow> rd8 (x # xs) i k2 = rd8 xs (i - 1) k2"
  "0 < i \<Longrightarrow> rd16 (x # xs) i k3 = rd16 xs (i - 1) k3" "0 < i \<Longrightarrow> rd24 (x # xs) i k4 = rd24 xs (i - 1) k4"
  "0 < i \<Longrightarrow> i \<le> j \<Longrightarrow> sub (x # xs) i j k5 = sub xs (i - 1) (j - 1) k5" "0 < i \<Longrightarrow> from_at (x # xs) i k6 = from_at xs (i - 1) k6"
  by (cases i; simp add: at_def rd8_def rd16_def rd24_def sub_def from_at_def; cases j; simp)+

lemma length_pack24: "length (pack24 xs) = sum_list (map (\<lambda>s. 3 + length s) xs)"
  by (induction xs) (simp_all add: pack24_def)

lemma sum3: "sum_list (map (\<lambda>s. 3 + length s) xs) = 3 * length xs + sum_list (map length xs)"
  by (induction xs) simp_all

lemma drop3: "drop (3 + length x) (a # b # c # (x @ r)) = r"
  by (simp add: numeral_3_eq_3)

lemma pack24_member: "s \<in> set xs \<Longrightarrow> length s \<le> length (pack24 xs)"
  by (induction xs) (auto simp: pack24_def)

lemma of_nat_u32_less: "a < 2 ^ 32 \<Longrightarrow> b < 2 ^ 32 \<Longrightarrow> ((of_nat a :: u32) < of_nat b) = (a < b)"
  by (simp add: word_less_nat_alt unat_of_nat)

lemma of_nat_u32_pos: "a < 2 ^ 32 \<Longrightarrow> (0 < (of_nat a :: u32)) = (0 < a)"
  using of_nat_u32_less[of 0 a] by simp

lemma count_certs_pack24:
  assumes "length (pack24 xs) < 2 ^ 24" "xs \<noteq> [] \<longrightarrow> last xs \<noteq> []"
  shows "count_certs (of_nat (length (pack24 xs))) (pack24 xs) = Some (length xs)"
  using assms
proof (induction xs)
  case Nil
  then show ?case by (subst count_certs.simps) (simp add: pack24_def)
next
  case (Cons x xs)
  have p: "pack24 (x # xs) = b2 (length x) # b1 (length x) # b0 (length x) # (x @ pack24 xs)"
    by (simp add: pack24_def be24_def)
  have lx: "length x < 16777216" and lr: "length (pack24 xs) < 2 ^ 24" using Cons.prems(1) unfolding p by simp_all
  have ne: "x @ pack24 xs \<noteq> []" using Cons.prems(2) by (cases "xs = []") (auto simp: pack24_def be24_def split: if_splits)
  then obtain e d' where ed: "x @ pack24 xs = e # d'" by (cases "x @ pack24 xs") auto
  have pos: "0 < (of_nat (length (pack24 (x # xs))) :: u32)" using Cons.prems(1) by (subst of_nat_u32_pos) (simp_all add: p)
  have g: "get24 (b2 (length x)) (b1 (length x)) (b0 (length x)) = length x" using lx by (simp add: codec_simps)
  have nl: "\<not> (of_nat (length (pack24 (x # xs))) :: u32) < 3 + of_nat (length x)"
    using of_nat_u32_less[of "length (pack24 (x # xs))" "3 + length x"] Cons.prems(1) lx by (simp add: p)
  have sb: "(of_nat (length (pack24 (x # xs))) :: u32) - (3 + of_nat (length x)) = of_nat (length (pack24 xs))"
    by (simp add: p)
  have dr: "drop (3 + length x) (pack24 (x # xs)) = pack24 xs" unfolding p by (rule drop3)
  have "xs \<noteq> [] \<longrightarrow> last xs \<noteq> []" using Cons.prems(2) by auto
  note IH = Cons.IH[OF lr this]
  have "count_certs (of_nat (length (pack24 (x # xs)))) (pack24 (x # xs)) = map_option Suc (count_certs (of_nat (length (pack24 xs))) (pack24 xs))"
  proof (subst count_certs.simps, subst if_P[OF pos])
    have s: "pack24 (x # xs) = b2 (length x) # b1 (length x) # b0 (length x) # e # d'" unfolding p ed ..
    show "(case pack24 (x # xs) of a # b # c # ea # d'a \<Rightarrow>
           if (of_nat (length (pack24 (x # xs))) :: u32) < 3 + of_nat (get24 a b c) then None
           else map_option Suc (count_certs (of_nat (length (pack24 (x # xs))) - (3 + of_nat (get24 a b c))) (drop (3 + get24 a b c) (pack24 (x # xs))))
         | _ \<Rightarrow> None) = map_option Suc (count_certs (of_nat (length (pack24 xs))) (pack24 xs))"
      by (subst (1) s) (simp only: list.case g if_not_P[OF nl] sb dr)
  qed
  then show ?case using IH by simp
qed

lemma take_certs_pack24: "\<forall>s\<in>set xs. length s < 16777216 \<Longrightarrow> take_certs (length xs) (pack24 xs) = Accept xs"
proof (induction xs)
  case (Cons x xs)
  have p: "pack24 (x # xs) = b2 (length x) # b1 (length x) # b0 (length x) # (x @ pack24 xs)"
    by (simp add: pack24_def be24_def)
  show ?case using Cons unfolding p by (simp add: codec_simps sub_def from_at_def drop3)
qed simp

definition certificate_ok :: "certificate_msg \<Rightarrow> bool" where
  "certificate_ok m \<longleftrightarrow> cert_raw m = None \<and> 3 + 3 * length (cert_certificates m) + sum_list (map length (cert_certificates m)) < 2 ^ 24
     \<and> (cert_certificates m \<noteq> [] \<longrightarrow> last (cert_certificates m) \<noteq> [])"

lemma certificate_roundtrip:
  assumes "certificate_ok m"
  shows "\<exists>x. certificate_marshal m = Some (x, m\<lparr>cert_raw := Some x\<rparr>) \<and> certificate_unmarshal m0 x = Accept (m\<lparr>cert_raw := Some x\<rparr>)"
proof -
  let ?xs = "cert_certificates m"
  define n where "n = length (pack24 ?xs)"
  have n: "n < 2 ^ 24" "n + 3 < 2 ^ 24" "n = 3 * length ?xs + sum_list (map length ?xs)"
    using assms unfolding certificate_ok_def n_def length_pack24 sum3 by simp_all
  have l: "?xs \<noteq> [] \<longrightarrow> last ?xs \<noteq> []" "cert_raw m = None" using assms unfolding certificate_ok_def by auto
  define x where "x = [typeCertificate] @ be24 (3 + n) @ be24 n @ pack24 ?xs"
  have mx: "certificate_marshal m = Some (x, m\<lparr>cert_raw := Some x\<rparr>)"
    using l(2) n(3) by (simp add: certificate_marshal_def x_def n_def[symmetric] Let_def add.assoc)
  have e: "take_certs (length ?xs) (pack24 ?xs) = Accept ?xs"
    by (rule take_certs_pack24) (use pack24_member n(1) in \<open>fastforce simp: n_def\<close>)
  have lx: "length x = 7 + n" by (simp add: x_def n_def)
  have "(of_nat (length x) :: u32) = of_nat n + 7" unfolding lx by simp
  moreover have "count_certs (of_nat n) (pack24 ?xs) = Some (length ?xs)"
    using count_certs_pack24[OF _ l(1)] n(1) unfolding n_def by blast
  moreover have "rd24 x 4 k = k n" "from_at x 7 k' = k' (pack24 ?xs)" for k :: "nat \<Rightarrow> certificate_msg parse" and k' :: "byte list \<Rightarrow> certificate_msg parse"
    using n(1) by (simp_all add: x_def codec_simps)
  ultimately have "certificate_unmarshal m0 x = Accept (m\<lparr>cert_raw := Some x\<rparr>)"
    using e lx by (simp add: certificate_unmarshal_def)
  with mx show ?thesis by blast
qed

lemma opaque_roundtrip:
  assumes "op_raw m = None" "length (op_data m) < 2 ^ 24"
  shows "\<exists>x. serverKeyExchange_marshal m = Some (x, m\<lparr>op_raw := Some x\<rparr>) \<and> serverKeyExchange_unmarshal m0 x = Accept (m\<lparr>op_raw := Some x\<rparr>)"
    "\<exists>x. clientKeyExchange_marshal m = Some (x, m\<lparr>op_raw := Some x\<rparr>) \<and> clientKeyExchange_unmarshal m0 x = Accept (m\<lparr>op_raw := Some x\<rparr>)"
    "\<exists>x. finished_marshal m = Some (x, m\<lparr>op_raw := Some x\<rparr>) \<and> finished_unmarshal m0 x = Accept (m\<lparr>op_raw := Some x\<rparr>)"
  using assms
  by (simp_all add: serverKeyExchange_marshal_def clientKeyExchange_marshal_def finished_marshal_def Let_def codec_simps
      serverKeyExchange_unmarshal_def clientKeyExchange_unmarshal_def finished_unmarshal_def from_at_def)

lemma certificateStatus_roundtrip:
  assumes "cst_raw m = None" "length (cst_response m) + 8 < 2 ^ 24" "cst_statusType m \<noteq> statusTypeOCSP \<longrightarrow> cst_response m = []"
  shows "\<exists>x. certificateStatus_marshal m = Some (x, m\<lparr>cst_raw := Some x\<rparr>) \<and> certificateStatus_unmarshal m0 x = Accept (m\<lparr>cst_raw := Some x\<rparr>)"
  using assms
  by (cases "cst_statusType m = statusTypeOCSP")
    (simp_all add: certificateStatus_marshal_def certificateStatus_unmarshal_def Let_def codec_simps add.commute)

lemma nextProto_roundtrip:
  assumes "np_raw m = None" "length (np_proto m) < 256"
  shows "\<exists>x. nextProto_marshal m = Some (x, m\<lparr>np_raw := Some x\<rparr>) \<and> (nextProto_unmarshal m0 x = Accept (m\<lparr>np_raw := Some x\<rparr>))"
proof -
  define l where "l = length (np_proto m)"
  define pad where "pad = 32 - (l + 2) mod 32"
  have p: "0 < pad" "pad < 256" by (simp_all add: pad_def)
  have l: "(if length (np_proto m) > 255 then 255 else length (np_proto m)) = l" using assms(2) by (simp add: l_def)
  define x where "x = ([typeNextProtocol] @ be24 (l + pad + 2)) @ [b0 l] @ np_proto m @ [b0 pad] @ replicate pad 0"
  have "go_fill (l + pad + 2 + 4) ([typeNextProtocol] @ be24 (l + pad + 2) @ [b0 l] @ take l (np_proto m) @ [b0 pad]) = Some x"
    by (simp add: go_fill_def x_def l_def)
  then have m: "nextProto_marshal m = Some (x, m\<lparr>np_raw := Some x\<rparr>)"
    using assms(1) l unfolding nextProto_marshal_def Let_def pad_def by simp
  have "from_at x 4 k = k ([b0 l] @ np_proto m @ [b0 pad] @ replicate pad 0)" for k :: "byte list \<Rightarrow> next_proto_msg parse"
    unfolding x_def by (simp add: codec_simps)
  then have "nextProto_unmarshal m0 x = Accept (m\<lparr>np_raw := Some x\<rparr>)"
    using assms p by (simp add: nextProto_unmarshal_def codec_simps l_def[symmetric]) (simp add: x_def l_def codec_simps)
  with m show ?thesis by blast
qed

lemma certificateVerify_roundtrip:
  assumes "cv_raw m = None" "length (cv_signature m) < 65536" "cv_hasSignatureAndHash m0 = cv_hasSignatureAndHash m"
    "\<not> cv_hasSignatureAndHash m \<longrightarrow> cv_signatureAlgorithm m = cv_signatureAlgorithm m0"
  shows "\<exists>x. certificateVerify_marshal m = Some (x, m\<lparr>cv_raw := Some x\<rparr>) \<and> certificateVerify_unmarshal m0 x = Accept (m\<lparr>cv_raw := Some x\<rparr>)"
  using assms
  by (cases "cv_hasSignatureAndHash m")
    (simp_all add: certificateVerify_marshal_def certificateVerify_unmarshal_def Let_def codec_simps add.commute)

lemma newSessionTicket_roundtrip:
  assumes "st_raw m = None" "length (st_ticket m) < 65536"
  shows "\<exists>x. newSessionTicket_marshal m = Some (x, m\<lparr>st_raw := Some x\<rparr>) \<and> newSessionTicket_unmarshal m0 x = Accept (m\<lparr>st_raw := Some x\<rparr>)"
  using assms
  by (simp add: newSessionTicket_marshal_def newSessionTicket_unmarshal_def Let_def codec_simps)

lemma of_nat_u32_sub4: "(of_nat (4 + n) :: u32) - 4 = of_nat n"
  by simp

definition certificate_request_ok :: "certificate_request_msg \<Rightarrow> bool" where
  "certificate_request_ok m \<longleftrightarrow> cr_raw m = None \<and> 0 < length (cr_certificateTypes m) \<and> length (cr_certificateTypes m) < 256
     \<and> 2 * length (cr_supportedSignatureAlgorithms m) < 65536
     \<and> (\<not> cr_hasSignatureAndHash m \<longrightarrow> cr_supportedSignatureAlgorithms m = [])
     \<and> length (pack16 (cr_certificateAuthorities m)) < 65536"

lemma pack16_member: "s \<in> set xs \<Longrightarrow> length s \<le> length (pack16 xs)"
  by (induction xs) (auto simp: pack16_def)

lemma certificateRequest_roundtrip:
  assumes "certificate_request_ok m"
    and m0: "cr_hasSignatureAndHash m0 = cr_hasSignatureAndHash m" "cr_supportedSignatureAlgorithms m0 = []"
  shows "\<exists>x. certificateRequest_marshal m = Some (x, m\<lparr>cr_raw := Some x\<rparr>)
    \<and> certificateRequest_unmarshal m0 x = Accept (m\<lparr>cr_raw := Some x\<rparr>)"
proof -
  let ?T = "cr_certificateTypes m" and ?A = "cr_supportedSignatureAlgorithms m" and ?C = "pack16 (cr_certificateAuthorities m)"
  have o: "cr_raw m = None" "0 < length ?T" "length ?T < 256" "2 * length ?A < 65536" "length ?C < 65536"
    "\<not> cr_hasSignatureAndHash m \<longrightarrow> ?A = []" using assms(1) unfolding certificate_request_ok_def by auto
  have cas: "sum_list (map (\<lambda>ca. 2 + length ca) (cr_certificateAuthorities m)) = length ?C" by (simp add: length_pack16)
  have it: "items16 False ?C = Accept (cr_certificateAuthorities m)"
    by (rule items16_pack16) (use pack16_member o(5) in fastforce)
  define S where "S = (if cr_hasSignatureAndHash m then be16 (2 * length ?A) @ concat (map w16 ?A) else [])"
  define n where "n = 1 + length ?T + 2 + length ?C + (if cr_hasSignatureAndHash m then 2 + 2 * length ?A else 0)"
  define x where "x = [typeCertificateRequest] @ be24 n @ [b0 (length ?T)] @ ?T @ S @ be16 (length ?C) @ ?C"
  have n: "n < 16777216" using o(3-5) by (simp add: n_def)
  have lx: "length x = 4 + n" by (simp add: x_def n_def S_def)
  have "certificateRequest_marshal m = Some (x, m\<lparr>cr_raw := Some x\<rparr>)"
    unfolding certificateRequest_marshal_def o(1) option.case Let_def cas n_def[symmetric] mult.commute[of _ 2] S_def[symmetric]
      x_def[symmetric] by (simp add: lx)
  moreover have "certificateRequest_unmarshal m0 x = Accept (m\<lparr>cr_raw := Some x\<rparr>)"
  proof -
    have r: "rd24 x 1 k1 = k1 n" "rd8 x 4 k2 = k2 (length ?T)" "from_at x 5 k3 = k3 (?T @ S @ be16 (length ?C) @ ?C)"
      for k1 k2 :: "nat \<Rightarrow> certificate_request_msg parse" and k3
      using n o(3) by (simp_all add: x_def codec_simps)
    have tk: "sub (?T @ S @ be16 (length ?C) @ ?C) 0 (length ?T) k = k ?T"
      "from_at (?T @ S @ be16 (length ?C) @ ?C) (length ?T) k = k (S @ be16 (length ?C) @ ?C)"
      for k :: "byte list \<Rightarrow> certificate_request_msg parse"
      by (simp_all add: codec_simps)
    have l5: "\<not> length x < 5" "\<not> ((of_nat (length x) :: u32) - 4 \<noteq> of_nat n)" using n_def by (simp_all add: lx)
    have l6: "\<not> (length ?T = 0 \<or> length (?T @ S @ be16 (length ?C) @ ?C) \<le> length ?T)" using o(2) by simp
    have s: "(if cr_hasSignatureAndHash m0 then
                 (if length (S @ be16 (length ?C) @ ?C) < 2 then Reject
                  else rd16 (S @ be16 (length ?C) @ ?C) 0 (\<lambda>sigAndHashLen. from_at (S @ be16 (length ?C) @ ?C) 2 (\<lambda>d.
                    if sigAndHashLen mod 2 \<noteq> 0 then Reject
                    else if length d < sigAndHashLen then Reject
                    else on_accept (u16s (sigAndHashLen div 2) d) (\<lambda>ws. from_at d (2 * (sigAndHashLen div 2)) (\<lambda>d.
                      Accept (ws, d))))))
               else Accept (cr_supportedSignatureAlgorithms m0, S @ be16 (length ?C) @ ?C)) = Accept (?A, be16 (length ?C) @ ?C)"
      using o(4,6) m0 by (cases "cr_hasSignatureAndHash m") (simp_all add: S_def codec_simps)
    have c: "rd16 (be16 (length ?C) @ ?C) 0 k1 = k1 (length ?C)" "from_at (be16 (length ?C) @ ?C) 2 k2 = k2 ?C"
      "sub ?C 0 (length ?C) k2 = k2 ?C" "from_at ?C (length ?C) k2 = k2 []"
      for k1 :: "nat \<Rightarrow> certificate_request_msg parse" and k2 :: "byte list \<Rightarrow> certificate_request_msg parse"
      using o(5) by (simp_all add: codec_simps) (simp add: from_at_def)
    show ?thesis
      unfolding certificateRequest_unmarshal_def if_not_P[OF l5(1)] r if_not_P[OF l5(2)] if_not_P[OF l6] tk s on_accept_simps prod.case c
      using m0 by (simp add: it)
  qed
  ultimately show ?thesis by blast
qed

text \<open>The GM message is the plain one without algorithms.\<close>

definition cr_of_gm :: "certificate_request_gm \<Rightarrow> certificate_request_msg" where
  "cr_of_gm m = \<lparr>cr_raw = cg_raw m, cr_hasSignatureAndHash = False, cr_certificateTypes = cg_certificateTypes m,
     cr_supportedSignatureAlgorithms = [], cr_certificateAuthorities = cg_certificateAuthorities m\<rparr>"

lemma map_parse_push:
  "map_parse f (if b then p else q) = (if b then map_parse f p else map_parse f q)"
  "map_parse f (rd8 d i k1) = rd8 d i (\<lambda>n. map_parse f (k1 n))" "map_parse f (rd16 d i k2) = rd16 d i (\<lambda>n. map_parse f (k2 n))"
  "map_parse f (rd24 d i k3) = rd24 d i (\<lambda>n. map_parse f (k3 n))" "map_parse f (sub d i j k4) = sub d i j (\<lambda>x. map_parse f (k4 x))"
  "map_parse f (from_at d i k5) = from_at d i (\<lambda>x. map_parse f (k5 x))"
  "map_parse f (on_accept r k6) = on_accept r (\<lambda>x. map_parse f (k6 x))"
  by (simp_all add: rd8_def rd16_def rd24_def sub_def from_at_def at_def) (cases r; simp)

lemma gm_request_marshal:
  "certificateRequest_marshal (cr_of_gm m) = map_option (\<lambda>(x, m'). (x, cr_of_gm m')) (certificateRequestGM_marshal m)"
  by (auto simp: certificateRequest_marshal_def certificateRequestGM_marshal_def cr_of_gm_def Let_def split: option.splits bind_splits)

lemma gm_request_unmarshal:
  "certificateRequest_unmarshal (cr_of_gm m) data = map_parse cr_of_gm (certificateRequestGM_unmarshal m data)"
  by (simp add: certificateRequest_unmarshal_def certificateRequestGM_unmarshal_def map_parse_push cr_of_gm_def cong: if_cong)

section \<open>Properties\<close>

text \<open>C25: No handshake message can crash a peer. Whatever bytes arrive and whatever the receiver
  holds, each of the eleven parsers with a body returns true or false; no index and no slice
  expression of theirs is ever out of range.\<close>

theorem handshake_parsers_never_panic:
  "clientHello_unmarshal ch data \<noteq> Panic \<and> serverHello_unmarshal sh data \<noteq> Panic \<and> certificate_unmarshal ce data \<noteq> Panic
   \<and> serverKeyExchange_unmarshal ke data \<noteq> Panic \<and> clientKeyExchange_unmarshal ke data \<noteq> Panic
   \<and> certificateStatus_unmarshal cs data \<noteq> Panic \<and> finished_unmarshal ke data \<noteq> Panic \<and> nextProto_unmarshal np data \<noteq> Panic
   \<and> certificateRequest_unmarshal cr data \<noteq> Panic \<and> certificateRequestGM_unmarshal cg data \<noteq> Panic
   \<and> certificateVerify_unmarshal cv data \<noteq> Panic \<and> newSessionTicket_unmarshal st data \<noteq> Panic"
  by (simp add: clientHello_unmarshal_no_panic serverHello_unmarshal_no_panic certificate_unmarshal_no_panic message_parsers_no_panic)

text \<open>C26: Client hello round trip. A client hello whose fields fit the format, with any of the ten
  extensions present or absent, marshals without a panic, and parsing the bytes into a fresh
  message gives every field back.\<close>

theorem client_hello_roundtrip:
  assumes "client_hello_ok m"
  shows "\<exists>x. clientHello_marshal m = Some (x, m\<lparr>cl_raw := Some x\<rparr>)
     \<and> clientHello_unmarshal empty_client_hello x = Accept (m\<lparr>cl_raw := Some x\<rparr>)"
  by (rule clientHello_roundtrip[OF assms])

definition sample_client_hello :: client_hello where
  "sample_client_hello = empty_client_hello\<lparr>cl_vers := 0x303, cl_random := replicate 32 7, cl_sessionId := [1, 2],
     cl_cipherSuites := [0xff, 0xe013], cl_compressionMethods := [0], cl_serverName := [104, 105], cl_ocspStapling := True,
     cl_supportedCurves := [29, 23], cl_secureRenegotiationSupported := True, cl_alpnProtocols := [[104, 50], [104]], cl_scts := True\<rparr>"

theorem client_hello_roundtrip_witness:
  "\<exists>x. clientHello_marshal sample_client_hello = Some (x, sample_client_hello\<lparr>cl_raw := Some x\<rparr>)
     \<and> clientHello_unmarshal empty_client_hello x = Accept (sample_client_hello\<lparr>cl_raw := Some x\<rparr>)"
  by (rule client_hello_roundtrip)
    (simp add: client_hello_ok_def sample_client_hello_def empty_client_hello_def cl_extensionsLength_def cl_numExtensions_def)

text \<open>C27: Server hello round trip: the same for the six extensions of the server's answer.\<close>

theorem server_hello_roundtrip:
  assumes "server_hello_ok m"
  shows "\<exists>x. serverHello_marshal m = Some (x, m\<lparr>sv_raw := Some x\<rparr>)
     \<and> serverHello_unmarshal empty_server_hello x = Accept (m\<lparr>sv_raw := Some x\<rparr>)"
  by (rule serverHello_roundtrip[OF assms])

definition sample_server_hello :: server_hello where
  "sample_server_hello = empty_server_hello\<lparr>sv_vers := 0x303, sv_random := replicate 32 7, sv_cipherSuite := 0xe013,
     sv_nextProtoNeg := True, sv_nextProtos := [[104, 50]], sv_alpnProtocol := [104, 50], sv_scts := [[1, 2, 3]]\<rparr>"

theorem server_hello_roundtrip_witness:
  "\<exists>x. serverHello_marshal sample_server_hello = Some (x, sample_server_hello\<lparr>sv_raw := Some x\<rparr>)
     \<and> serverHello_unmarshal empty_server_hello x = Accept (sample_server_hello\<lparr>sv_raw := Some x\<rparr>)"
  by (rule server_hello_roundtrip)
    (simp add: server_hello_ok_def sample_server_hello_def empty_server_hello_def sv_extensionsLength_def sv_numExtensions_def
      sv_nextProtoLen_def sv_sctLen_def)

text \<open>Round trip of the certificate messages. A certificate chain (whose last certificate is not
  empty), a certificate request with or without signature algorithms and its GM variant are read
  back exactly as they were marshalled.\<close>

theorem certificate_messages_roundtrip:
  assumes "certificate_ok m" "certificate_request_ok r" "cr_hasSignatureAndHash r0 = cr_hasSignatureAndHash r"
    "cr_supportedSignatureAlgorithms r0 = []" "certificate_request_ok (cr_of_gm g)"
  shows "(\<exists>x. certificate_marshal m = Some (x, m\<lparr>cert_raw := Some x\<rparr>) \<and> certificate_unmarshal m0 x = Accept (m\<lparr>cert_raw := Some x\<rparr>))
    \<and> (\<exists>x. certificateRequest_marshal r = Some (x, r\<lparr>cr_raw := Some x\<rparr>)
         \<and> certificateRequest_unmarshal r0 x = Accept (r\<lparr>cr_raw := Some x\<rparr>))
    \<and> (\<exists>x. certificateRequestGM_marshal g = Some (x, g\<lparr>cg_raw := Some x\<rparr>)
         \<and> certificateRequestGM_unmarshal g0 x = Accept (g\<lparr>cg_raw := Some x\<rparr>))"
proof -
  obtain x where x: "certificateRequest_marshal (cr_of_gm g) = Some (x, (cr_of_gm g)\<lparr>cr_raw := Some x\<rparr>)"
    "certificateRequest_unmarshal (cr_of_gm g0) x = Accept ((cr_of_gm g)\<lparr>cr_raw := Some x\<rparr>)"
    using certificateRequest_roundtrip[OF assms(5), of "cr_of_gm g0"] by (auto simp: cr_of_gm_def)
  have inj: "cr_of_gm a = cr_of_gm b \<Longrightarrow> a = b" for a b by (cases a; cases b) (simp add: cr_of_gm_def)
  have up: "(cr_of_gm g)\<lparr>cr_raw := Some x\<rparr> = cr_of_gm (g\<lparr>cg_raw := Some x\<rparr>)" by (simp add: cr_of_gm_def)
  obtain g1 where g1: "certificateRequestGM_marshal g = Some (x, g1)" "cr_of_gm g1 = cr_of_gm (g\<lparr>cg_raw := Some x\<rparr>)"
    using x(1) unfolding gm_request_marshal up by auto
  moreover have "certificateRequestGM_unmarshal g0 x = Accept (g\<lparr>cg_raw := Some x\<rparr>)"
    using x(2) unfolding gm_request_unmarshal up by (cases "certificateRequestGM_unmarshal g0 x") (auto dest: inj)
  ultimately show ?thesis
    using certificate_roundtrip[OF assms(1), of m0] certificateRequest_roundtrip[OF assms(2-4)] inj[OF g1(2)] by blast
qed

theorem certificate_messages_roundtrip_witness:
  "\<exists>x. certificate_marshal \<lparr>cert_raw = None, cert_certificates = [[], [1, 2]]\<rparr>
       = Some (x, \<lparr>cert_raw = Some x, cert_certificates = [[], [1, 2]]\<rparr>)
     \<and> certificate_unmarshal \<lparr>cert_raw = None, cert_certificates = []\<rparr> x = Accept \<lparr>cert_raw = Some x, cert_certificates = [[], [1, 2]]\<rparr>"
  using certificate_messages_roundtrip[of "\<lparr>cert_raw = None, cert_certificates = [[], [1, 2]]\<rparr>"
      "\<lparr>cr_raw = None, cr_hasSignatureAndHash = True, cr_certificateTypes = [1], cr_supportedSignatureAlgorithms = [0x401],
        cr_certificateAuthorities = [[5]]\<rparr>"
      "\<lparr>cr_raw = None, cr_hasSignatureAndHash = True, cr_certificateTypes = [], cr_supportedSignatureAlgorithms = [],
        cr_certificateAuthorities = []\<rparr>"
      "\<lparr>cg_raw = None, cg_certificateTypes = [1], cg_certificateAuthorities = []\<rparr>"
      "\<lparr>cert_raw = None, cert_certificates = []\<rparr>"]
  by (simp add: certificate_ok_def certificate_request_ok_def cr_of_gm_def pack16_def)

text \<open>Round trip of the remaining messages: key exchanges, certificate status, next protocol,
  certificate verify, session ticket and finished.\<close>

theorem plain_messages_roundtrip:
  assumes "op_raw k = None" "length (op_data k) < 2 ^ 24"
    and "cst_raw s = None" "length (cst_response s) + 8 < 2 ^ 24" "cst_statusType s \<noteq> statusTypeOCSP \<longrightarrow> cst_response s = []"
    and "np_raw p = None" "length (np_proto p) < 256"
    and "cv_raw v = None" "length (cv_signature v) < 65536" "cv_hasSignatureAndHash v0 = cv_hasSignatureAndHash v"
      "\<not> cv_hasSignatureAndHash v \<longrightarrow> cv_signatureAlgorithm v = cv_signatureAlgorithm v0"
    and "st_raw t = None" "length (st_ticket t) < 65536"
  shows "(\<exists>x. serverKeyExchange_marshal k = Some (x, k\<lparr>op_raw := Some x\<rparr>) \<and> serverKeyExchange_unmarshal k0 x = Accept (k\<lparr>op_raw := Some x\<rparr>))
    \<and> (\<exists>x. clientKeyExchange_marshal k = Some (x, k\<lparr>op_raw := Some x\<rparr>) \<and> clientKeyExchange_unmarshal k0 x = Accept (k\<lparr>op_raw := Some x\<rparr>))
    \<and> (\<exists>x. finished_marshal k = Some (x, k\<lparr>op_raw := Some x\<rparr>) \<and> finished_unmarshal k0 x = Accept (k\<lparr>op_raw := Some x\<rparr>))
    \<and> (\<exists>x. certificateStatus_marshal s = Some (x, s\<lparr>cst_raw := Some x\<rparr>) \<and> certificateStatus_unmarshal s0 x = Accept (s\<lparr>cst_raw := Some x\<rparr>))
    \<and> (\<exists>x. nextProto_marshal p = Some (x, p\<lparr>np_raw := Some x\<rparr>) \<and> nextProto_unmarshal p0 x = Accept (p\<lparr>np_raw := Some x\<rparr>))
    \<and> (\<exists>x. certificateVerify_marshal v = Some (x, v\<lparr>cv_raw := Some x\<rparr>) \<and> certificateVerify_unmarshal v0 x = Accept (v\<lparr>cv_raw := Some x\<rparr>))
    \<and> (\<exists>x. newSessionTicket_marshal t = Some (x, t\<lparr>st_raw := Some x\<rparr>) \<and> newSessionTicket_unmarshal t0 x = Accept (t\<lparr>st_raw := Some x\<rparr>))"
  using opaque_roundtrip[OF assms(1,2)] certificateStatus_roundtrip[OF assms(3-5)] nextProto_roundtrip[OF assms(6,7)]
    certificateVerify_roundtrip[OF assms(8-11)] newSessionTicket_roundtrip[OF assms(12,13)] by blast

theorem plain_messages_roundtrip_witness:
  "\<exists>x. nextProto_marshal \<lparr>np_raw = None, np_proto = [104, 50]\<rparr> = Some (x, \<lparr>np_raw = Some x, np_proto = [104, 50]\<rparr>)
     \<and> nextProto_unmarshal \<lparr>np_raw = None, np_proto = []\<rparr> x = Accept \<lparr>np_raw = Some x, np_proto = [104, 50]\<rparr>"
  using plain_messages_roundtrip[of "\<lparr>op_raw = None, op_data = [1]\<rparr>" "\<lparr>cst_raw = None, cst_statusType = 1, cst_response = [9]\<rparr>"
      "\<lparr>np_raw = None, np_proto = [104, 50]\<rparr>" "\<lparr>cv_raw = None, cv_hasSignatureAndHash = True, cv_signatureAlgorithm = 5, cv_signature = [1]\<rparr>"
      "\<lparr>cv_raw = None, cv_hasSignatureAndHash = True, cv_signatureAlgorithm = 0, cv_signature = []\<rparr>"
      "\<lparr>st_raw = None, st_ticket = [3]\<rparr>" "\<lparr>op_raw = None, op_data = []\<rparr>" "\<lparr>cst_raw = None, cst_statusType = 0, cst_response = []\<rparr>"
      "\<lparr>np_raw = None, np_proto = []\<rparr>" "\<lparr>st_raw = None, st_ticket = []\<rparr>"]
  by (simp add: statusTypeOCSP_def)

text \<open>A next protocol of more than 255 bytes makes an unreadable server hello: it is counted in
  full but written cut, so the extension ends in zero bytes, which the peer's parser rejects.\<close>

theorem long_next_proto_unreadable:
  assumes "255 < length p" "length p < 60000" "length random = 32"
  defines "m \<equiv> empty_server_hello\<lparr>sv_random := random, sv_nextProtoNeg := True, sv_nextProtos := [p]\<rparr>"
  shows "\<exists>x m'. serverHello_marshal m = Some (x, m') \<and> serverHello_unmarshal empty_server_hello x = Reject"
proof -
  define k where "k = length p - 255"
  define n where "n = 38 + (2 + (length p + 1 + 4))"
  define d where "d = pack8 [take 255 p] @ replicate k 0"
  define x where "x = ([typeServerHello] @ be24 n) @ w16 0 @ random @ [b0 (length ([] :: byte list))] @ [] @ w16 0 @ [0]
     @ be16 (length p + 1 + 4) @ ext_block extensionNextProtoNeg d"
  have ld: "length d = length p + 1" using assms(1) by (simp add: d_def pack8_def k_def)
  have "serverHello_marshal m = Some (x, m\<lparr>sv_raw := Some x\<rparr>)"
    using assms(1,3) ld unfolding serverHello_marshal_def
    by (simp add: m_def empty_server_hello_def sv_numExtensions_def sv_extensionsLength_def sv_nextProtoLen_def Let_def sv_extensions_def
        sv_sctLen_def go_fill_def x_def n_def ext_block_def d_def k_def pack8_def b0_def)
  moreover have "serverHello_unmarshal empty_server_hello x = Reject"
  proof -
    have it: "items8 d = Reject"
      using assms(1) by (cases k) (simp_all add: d_def pack8_def k_def b0_small)
    have "sv_ext extensionNextProtoNeg (length d) (d @ []) m1 = Reject" for m1
      by (simp add: sv_ext_def it sub_def)
    then have "ext_loop sv_ext (ext_block extensionNextProtoNeg d @ []) m1 = Reject" for m1
      using ld assms(2) by (subst ext_loop_block) (simp_all add: ext_types)
    then have "read_extensions sv_ext (be16 (length p + 1 + 4) @ ext_block extensionNextProtoNeg d) m1 = Reject" for m1
      using read_extensions_encoded[of True "ext_block extensionNextProtoNeg d" "length p + 1 + 4" sv_ext m1] ld assms(2) by simp
    then show ?thesis unfolding x_def
      by (subst serverHello_unmarshal_fixed) (use assms(3) in simp_all)
  qed
  ultimately show ?thesis by blast
qed

theorem long_next_proto_unreadable_witness:
  "\<exists>x m'. serverHello_marshal (empty_server_hello\<lparr>sv_random := replicate 32 1, sv_nextProtoNeg := True, sv_nextProtos := [replicate 300 104]\<rparr>)
        = Some (x, m') \<and> serverHello_unmarshal empty_server_hello x = Reject"
  by (rule long_next_proto_unreadable) simp_all

end
