(* ===== verification/Tls_Peaceful.thy ===== *)
theory Tls_Peaceful
  imports Tls_Transcript Tls_Roundtrip
begin

text \<open>
  Runs in which the network, the random source and the disk do their work: \<open>play\<close> gives a program the
  messages that it waits for. The rules \<open>plays\<close> evaluate such a run from the outside in, so that a
  continuation is looked at only when its argument is known. The toy libraries make runs concrete.
\<close>

section \<open>Playing a program\<close>

text \<open>The calls that are made, the messages that are left, and the result when the run does not stop for want of a message.\<close>

primrec play :: "'r program \<Rightarrow> handshake_msg list \<Rightarrow> event list \<times> handshake_msg list \<times> 'r option" where
  "play (Return r) ms = ([], ms, Some r)"
| "play Crash ms = ([], ms, None)"
| "play (Write_Record t d k) ms = apfst ((#) (Wrote t d None)) (play (k None) ms)"
| "play (Read_Handshake k) ms =
     (case ms of [] \<Rightarrow> ([], [], None) | m # ms \<Rightarrow> apfst ((#) (Got (Inl (Some m)))) (play (k (Inl (Some m))) ms))"
| "play (Read_Record t k) ms = apfst ((#) (Got_Record t None None)) (play (k (None, None)) ms)"
| "play (Send_Alert a k) ms = apfst ((#) (Alerted a)) (play k ms)"
| "play (Flush k) ms = apfst ((#) (Flushed None)) (play (k None) ms)"
| "play (Set_Buffering k) ms = apfst ((#) Buffered) (play k ms)"
| "play (Read_Rand n k) ms = apfst ((#) (Rand n (Inl (replicate n 0)))) (play (k (Inl (replicate n 0))) ms)"
| "play (Coins k) ms = apfst ((#) (Coin [])) (play (k []) ms)"
| "play (Set_Version v h k) ms = apfst ((#) (Versioned v h)) (play k ms)"
| "play (Prepare_Spec i v c m k) ms = apfst ((#) (Prepared i v c m)) (play k ms)"
| "play (Set_Complete k) ms = apfst ((#) Completed) (play k ms)"

lemma apfst_eq_iff: "apfst ((#) e) p = (es, r) \<longleftrightarrow> (\<exists>es'. p = (es', r) \<and> es = e # es')"
  by (cases p) auto

lemma play_replays: "play p ms = (es, ms', Some r) \<Longrightarrow> replay es p = Some r"
  by (induction p arbitrary: ms es) (auto simp: step_def apfst_eq_iff split: list.splits)

definition then_play :: "event list \<times> handshake_msg list \<times> ('a + tls_err) option \<Rightarrow> ('a \<Rightarrow> ('b + tls_err) program)
    \<Rightarrow> event list \<times> handshake_msg list \<times> ('b + tls_err) option" where
  "then_play p k =
     (case p of (es, ms, None) \<Rightarrow> (es, ms, None)
      | (es, ms, Some (Inr e)) \<Rightarrow> (es, ms, Some (Inr e))
      | (es, ms, Some (Inl x)) \<Rightarrow> apfst ((@) es) (play (k x) ms))"

lemma then_play_simps [simp]: "then_play (es, ms, Some (Inl x)) k = apfst ((@) es) (play (k x) ms)"
  by (simp add: then_play_def)

lemma then_play_apfst: "then_play (apfst f p) k = (case p of (es, ms, r) \<Rightarrow> then_play (f es, ms, r) k)"
  by (cases p) simp

lemma play_bind: "play (bind_program p k) ms =
  (case play p ms of (es, ms', None) \<Rightarrow> (es, ms', None) | (es, ms', Some x) \<Rightarrow> apfst ((@) es) (play (k x) ms'))"
proof (induction p arbitrary: ms)
  case (Read_Handshake f)
  then show ?case by (cases ms) (auto simp: apfst_def map_prod_def split: prod.splits option.splits)
qed (auto simp: apfst_def map_prod_def split: prod.splits option.splits)

named_theorems plays

lemma play_weak: "ms = ms' \<Longrightarrow> play p ms = play p ms'"
  by simp

lemma then_play_weak: "r = r' \<Longrightarrow> then_play r k = then_play r' k"
  by simp

lemma play_and_then [plays]: "play (and_then p k) ms = then_play (play p ms) k"
  by (auto simp: and_then_def play_bind then_play_def split: prod.splits option.splits sum.splits)

lemma play_or_alert [plays]:
  "play (or_alert al p) ms = (case play p ms of (es, ms', None) \<Rightarrow> (es, ms', None) | (es, ms', Some x) \<Rightarrow>
     apfst ((@) es) (play (case x of Inl x \<Rightarrow> ok x | Inr e \<Rightarrow> alert_fails al e) ms'))"
  by (simp add: or_alert_def play_bind)

lemma play_eq: "p = q \<Longrightarrow> play p ms = play q ms"
  by simp

text \<open>The cases of a program, once the value is known or while it has to be computed.\<close>

lemma play_panics [plays]: "play (panics_if_none r k) ms = (case r of None \<Rightarrow> ([], ms, None) | Some x \<Rightarrow> play (k x) ms)"
  by (cases r) (simp_all add: panics_if_none_def)

lemma play_if [plays]: "play (if b then p else q) ms = (if b then play p ms else play q ms)"
  by simp

lemma play_Let [plays]: "play (Let x f) ms = play (f x) ms"
  by simp

lemma play_cases [plays]:
  "play (case o1 of None \<Rightarrow> p | Some x \<Rightarrow> q x) ms = (case o1 of None \<Rightarrow> play p ms | Some x \<Rightarrow> play (q x) ms)"
  "play (case s1 of Inl x \<Rightarrow> f x | Inr e \<Rightarrow> g e) ms = (case s1 of Inl x \<Rightarrow> play (f x) ms | Inr e \<Rightarrow> play (g e) ms)"
  "play (case xs of [] \<Rightarrow> p1 | y # ys \<Rightarrow> h y ys) ms = (case xs of [] \<Rightarrow> play p1 ms | y # ys \<Rightarrow> play (h y ys) ms)"
  "play (case pk of RSA_Key n \<Rightarrow> a1 n | EC_Key s n2 \<Rightarrow> a2 s n2 | Other_Key \<Rightarrow> a3) ms =
     (case pk of RSA_Key n \<Rightarrow> play (a1 n) ms | EC_Key s n2 \<Rightarrow> play (a2 s n2) ms | Other_Key \<Rightarrow> play a3 ms)"
  "play (case pr of (x, y) \<Rightarrow> c x y) ms = (case pr of (x, y) \<Rightarrow> play (c x y) ms)"
  by (simp_all split: option.split sum.split list.split public_key.split prod.split)

lemmas play_congs = play_weak then_play_weak

lemma play_agreement [plays]:
  "play (case ka of RSA_Agreement \<Rightarrow> a | ECDHE_Agreement e \<Rightarrow> b e | ECC_GM v c \<Rightarrow> f v c | ECDHE_GM e \<Rightarrow> g e) ms =
     (case ka of RSA_Agreement \<Rightarrow> play a ms | ECDHE_Agreement e \<Rightarrow> play (b e) ms | ECC_GM v c \<Rightarrow> play (f v c) ms | ECDHE_GM e \<Rightarrow> play (g e) ms)"
  by (simp split: agreement.split)

lemma play_pair_applied [plays]: "play ((case pr of (r, s) \<Rightarrow> f r s) y) ms = play (f (fst pr) (snd pr) y) ms"
  by (simp add: case_prod_beta)

text \<open>Recursion over a list that has to be computed first.\<close>

lemma play_parse [plays]:
  "raws = [] \<Longrightarrow> play (parse_gm_certs K i raws) ms = play (parse_gm_certs K i []) ms"
  "raws = d # ds \<Longrightarrow> play (parse_gm_certs K i raws) ms = play (parse_gm_certs K i (d # ds)) ms"
  "certs = [] \<Longrightarrow> play (verify_gm_certs K opts i certs v) ms = play (verify_gm_certs K opts i [] v) ms"
  "certs = c # cs \<Longrightarrow> play (verify_gm_certs K opts i certs v) ms = play (verify_gm_certs K opts i (c # cs) v) ms"
  by simp_all
text \<open>Known constructors, and the calls.\<close>

lemmas play_known [plays] = handshake_msg.case[THEN play_eq] option.case[THEN play_eq] sum.case[THEN play_eq] list.case[THEN play_eq]
  prod.case[THEN play_eq] agreement.case[THEN play_eq]

lemmas play_calls [plays] = read_handshake_def[THEN play_eq] read_rand_def[THEN play_eq] write_record_def[THEN play_eq]
  flush_def[THEN play_eq] or_error_def[THEN play_eq] ok_def[THEN play_eq] fails_def[THEN play_eq] alert_fails_def[THEN play_eq]
  unexpected_message_def[THEN play_eq] return_err_def[THEN play_eq] marshalled_def[THEN play_eq]

lemmas play_client [plays] = hash_msg_def[THEN play_eq] send_msg_def[THEN play_eq] clientHandshake_gm_def[THEN play_eq] offer_session_def[THEN play_eq]
  read_hello_rand_def[THEN play_eq] makeClientHelloGM_def[THEN play_eq] client_handshake_gm_def[THEN play_eq]
  client_hello_exchange_def[THEN play_eq] pickCipherSuite_def[THEN play_eq] processServerHello_def[THEN play_eq]
  resume_session_def[THEN play_eq] client_start_hash_def[THEN play_eq] client_full_def[THEN play_eq] client_resume_def[THEN play_eq]
  client_finish_def[THEN play_eq] client_doFullHandshake_def[THEN play_eq] client_certificates_def[THEN play_eq]
  first_certificates_def[THEN play_eq] parse_gm_certs.simps[THEN play_eq] verify_gm_certs.simps[THEN play_eq]
  client_key_exchange_def[THEN play_eq] client_agreement_def[THEN play_eq] processServerKeyExchange.simps[THEN play_eq]
  ecc_gm_processServerKeyExchange_def[THEN play_eq] client_certificate_request_def[THEN play_eq] client_getCertificate_def[THEN play_eq]
  find_client_chain.simps[THEN play_eq] chain_acceptable.simps[THEN play_eq] client_answer_def[THEN play_eq]
  send_certificate_def[THEN play_eq] send_certificate_verify_def[THEN play_eq] generateClientKeyExchange.simps[THEN play_eq]
  ecc_gm_generateClientKeyExchange_def[THEN play_eq] client_establishKeys_def[THEN play_eq] prepare_specs_def[THEN play_eq]
  client_sendFinished_def[THEN play_eq] client_send_next_proto_def[THEN play_eq] readSessionTicket_def[THEN play_eq]
  client_readFinished_def[THEN play_eq]

section \<open>Toy libraries\<close>

text \<open>A hash that is always zero: every value that is derived with it is zero.\<close>

definition zero_hash :: "nat \<Rightarrow> hash_fn" where
  "zero_hash n = \<lparr>hf_size = n, hf_block = 64, hf_sum = (\<lambda>x. replicate n 0)\<rparr>"

definition zero_hashes :: hashes where
  "zero_hashes = \<lparr>h_md5 = zero_hash 16, h_sha1 = zero_hash 20, h_sha256 = zero_hash 32, h_sha384 = zero_hash 48, h_sha512 = zero_hash 64,
                  h_sm3 = zero_hash 32\<rparr>"

lemma zero_hashes_ok: "hashes_ok zero_hashes"
  by (simp add: hashes_ok_def zero_hashes_def hash_ok_def zero_hash_def)

lemma concat_zeros: "concat (replicate k (replicate m z)) = replicate (k * m) z"
  by (induction k) (simp_all add: replicate_add)

lemma zero_P_hash: "P_hash (h_sm3 zero_hashes) s seed n = replicate n 0"
proof -
  have "P_block (h_sm3 zero_hashes) s seed = (\<lambda>_. replicate 32 0)"
    by (rule ext) (simp add: P_block_def hmac_def zero_hashes_def zero_hash_def)
  then show ?thesis by (simp add: P_hash_def map_replicate_const concat_zeros)
qed

lemma zero_prf: "prf12 (h_sm3 zero_hashes) n s label seed = Some (replicate n 0)"
  using zero_hashes_ok by (simp add: prf12_def pHash_exact hashes_ok_def zero_P_hash)

definition toy_pki :: pki where
  "toy_pki = \<lparr>pk_sm2_verify = (\<lambda>n d s. s = [1]), pk_ecdsa_verify = (\<lambda>n d r s. True), pk_rsa_verify = (\<lambda>n opts d s. None),
     pk_asn1_sig = (\<lambda>b. Inl ((1, 1), [])), pk_asn1_cipher = (\<lambda>(x, y, h, c). Inl c), pk_asn1_uncipher = (\<lambda>b. Inl (0, 0, [], b)),
     pk_sm2_encrypt = (\<lambda>coins b n d. Inl ([4] @ replicate 96 0 @ d)), pk_rsa_encrypt = (\<lambda>coins n d. Inl d), pk_generate = (\<lambda>c coins. Inl ([1], [4, 1, 1])),
     pk_unmarshal = (\<lambda>c b. Some (1, 1)), pk_mult = (\<lambda>c p k. 1), pk_x25519_base = (\<lambda>k. k), pk_x25519 = (\<lambda>k p. k),
     pk_parse = (\<lambda>b. Inl \<lparr>xc_Raw = b, xc_RawIssuer = [], xc_PublicKey = EC_Key True 1, xc_KeyUsage = 0xff, xc_algECDSA = True\<rparr>),
     pk_verify = (\<lambda>opts x. Inl [[x]])\<rparr>"

definition toy_config :: tls_config where
  "toy_config = \<lparr>cf_GMSupport = True, cf_Certificates = [], cf_NameToCertificate = None, cf_GetCertificate = None, cf_GetKECertificate = None,
     cf_GetClientCertificate = None, cf_VerifyPeerCertificate = None, cf_RootCAs = None, cf_NextProtos = [], cf_ServerName = [0x61],
     cf_ClientAuth = NoClientCert, cf_ClientCAs = None, cf_InsecureSkipVerify = False, cf_CipherSuites = None,
     cf_PreferServerCipherSuites = False, cf_SessionCache = None, cf_MinVersion = 0, cf_MaxVersion = 0, cf_CurvePreferences = [],
     cf_KeyLog = None, cf_time = 0, cf_tickets = \<lparr>tcf_SessionTicketsDisabled = True, tcf_SessionTicketKey = [], tcf_sessionTicketKeys = []\<rparr>\<rparr>"

definition toy_primitives :: primitives where
  "toy_primitives =
     (let a = \<lparr>ap_overhead = 0, ap_seal = (\<lambda>n p d. p), ap_open = (\<lambda>n c d. Some c)\<rparr>
      in \<lparr>pr_rc4 = (\<lambda>k n. 0), pr_3des_enc = (\<lambda>k b. b), pr_3des_dec = (\<lambda>k b. b), pr_aes_enc = (\<lambda>k b. b), pr_aes_dec = (\<lambda>k b. b),
          pr_sm4_enc = (\<lambda>k b. b), pr_sm4_dec = (\<lambda>k b. b), pr_gcm = (\<lambda>k. a), pr_chacha = (\<lambda>k. a)\<rparr>)"

definition new_peer :: peer_state where
  "new_peer = \<lparr>pc_handshakes = 0, pc_peerCertificates = [], pc_verifiedChains = [], pc_clientFinished = replicate 12 0,
     pc_serverFinished = replicate 12 0, pc_clientFinishedIsFirst = False, pc_secureRenegotiation = False, pc_clientProtocol = [],
     pc_clientProtocolFallback = False, pc_ocspResponse = [], pc_scts = [], pc_serverName = [], pc_cipherSuite = 0,
     pc_didResume = False, pc_ekm = None\<rparr>"

lemma toy_usage: "usage_signs 255" "usage_enciphers 255"
  by code_simp+

lemma zero_keys:
  "masterFromPreMasterSecret zero_hashes VersionGMSSL s pre cr sr = Some (replicate 48 0)"
  "keysFromMasterSecret zero_hashes VersionGMSSL s ms cr sr m k i = Some \<lparr>kb_clientMAC = replicate m 0, kb_serverMAC = replicate m 0,
     kb_clientKey = replicate k 0, kb_serverKey = replicate k 0, kb_clientIV = replicate i 0, kb_serverIV = replicate i 0\<rparr>"
  by (simp_all add: masterFromPreMasterSecret_def keysFromMasterSecret_def prfForVersion_def prfAndHashForGM_def zero_prf
      masterSecretLength_def min_def)

lemma zero_sums:
  assumes "fh_version h = VersionGMSSL" "fh_prf h = PRF12 (h_sm3 zero_hashes)" "fh_client h = Hash_Of g b"
  shows "clientSum zero_hashes h ms = Some (replicate 12 0)" "serverSum zero_hashes h ms = Some (replicate 12 0)"
  using assms by (simp_all add: clientSum_def serverSum_def fh_Sum_def zero_prf finishedVerifyLength_def)

lemma toy_pki_sel:
  "pk_sm2_verify toy_pki n d s \<longleftrightarrow> s = [1]" "pk_asn1_sig toy_pki b = Inl ((1, 1), [])"
  "pk_sm2_encrypt toy_pki coins t n d = Inl ([4] @ replicate 96 0 @ d)"
  "pk_parse toy_pki b = Inl \<lparr>xc_Raw = b, xc_RawIssuer = [], xc_PublicKey = EC_Key True 1, xc_KeyUsage = 0xff, xc_algECDSA = True\<rparr>"
  "pk_verify toy_pki opts x = Inl [[x]]"
  by (simp_all add: toy_pki_def)

lemma toy_length: "get16 0 1 = 1"
  by code_simp

lemma toy_cipher: "cipherMarshalSM2Plain toy_pki (4 # replicate 96 0 @ d) = (if d = [] then cipherMarshalSM2Plain toy_pki (4 # replicate 96 0) else Inl d)"
  by (simp add: cipherMarshalSM2Plain_def toy_pki_def Let_def)

definition toy_server_hello :: server_hello where
  "toy_server_hello = empty_server_hello\<lparr>sv_raw := Some [typeServerHello], sv_vers := VersionGMSSL, sv_random := replicate 32 1,
     sv_cipherSuite := GMTLS_SM2_WITH_SM4_SM3\<rparr>"

text \<open>What a server sends to a client that knows the suite without ephemeral keys; received messages carry their bytes.\<close>

definition toy_messages :: "handshake_msg list" where
  "toy_messages = [Server_Hello toy_server_hello, Certificate_Msg \<lparr>cert_raw = Some [typeCertificate], cert_certificates = [[1], [2]]\<rparr>,
     Server_Key_Exchange \<lparr>op_raw = Some [typeServerKeyExchange], op_data = [0, 1, 1]\<rparr>, Server_Hello_Done,
     Finished \<lparr>op_raw = Some [typeFinished], op_data = replicate 12 0\<rparr>]"

definition toy_client_hello :: client_hello where
  "toy_client_hello = \<lparr>cl_raw = None, cl_vers = VersionGMSSL, cl_random = replicate 32 0, cl_sessionId = [], cl_cipherSuites = [57361, 57363],
      cl_compressionMethods = [compressionNone], cl_nextProtoNeg = False, cl_serverName = [], cl_ocspStapling = False, cl_scts = False,
      cl_supportedCurves = [CurveP256], cl_supportedPoints = [], cl_ticketSupported = False, cl_sessionTicket = [],
      cl_supportedSignatureAlgorithms = [], cl_secureRenegotiation = [], cl_secureRenegotiationSupported = False, cl_alpnProtocols = []\<rparr>"

lemmas toy_evals = toy_length toy_cipher toy_usage zero_keys zero_sums toy_primitives_def cipherSM4_def newCBC_def
  getCipherSuites_def known_gm_def gmCipherSuites_def suite_def suite_ids uses_session_cache_def candidate_session_def
  new_peer_def toy_config_def mutualCipherSuiteGM_def empty_client_hello_def toy_server_hello_def compressionNone_def note_renegotiation_def note_protocol_def
  serverHello_marshal_def certificate_marshal_def serverKeyExchange_marshal_def clientKeyExchange_marshal_def finished_marshal_def Let_def codec_simps
  empty_server_hello_def newFinishedHashGM_def fh_Write_def discardHandshakeBuffer_def new_hash_def toy_pki_sel w16_def writeKeyLog_def set_first_def
  complete_hello_def client_start_def

end
