(* ===== verification/Tls_Gm_Auth.thy ===== *)
theory Tls_Gm_Auth
  imports Tls_Peaceful
begin

text \<open>
  What a finished GM handshake proves to each side, whatever the other side and the network did:
  certificates verified, the key exchange signed, and Finished values over the whole transcript.
\<close>

section \<open>The client, piece by piece\<close>

text \<open>\<open>hs'\<close> has gone on from \<open>hs\<close> by the events \<open>es\<close>: its hash has followed, and the negotiation is the same.\<close>

definition goes_on :: "hashes \<Rightarrow> byte list \<Rightarrow> client_hs \<Rightarrow> event list \<Rightarrow> client_hs \<Rightarrow> bool" where
  "goes_on H t hs es hs' \<longleftrightarrow> tracks H (t @ transcript es) (ch_finishedHash hs') \<and> ch_vers hs' = ch_vers hs
     \<and> ch_hello hs' = ch_hello hs \<and> ch_serverHello hs' = ch_serverHello hs \<and> ch_suite hs' = ch_suite hs"

lemma goes_on_trans: "goes_on H t hs es hs' \<Longrightarrow> goes_on H (t @ transcript es) hs' es' hs'' \<Longrightarrow> goes_on H t hs (es @ es') hs''"
  by (simp add: goes_on_def)

lemma goes_on_tracks: "goes_on H t hs es hs' \<Longrightarrow> tracks H (t @ transcript es) (ch_finishedHash hs')"
  by (simp add: goes_on_def)

lemma processServerHello_run:
  assumes "replay es (processServerHello hs) = Some (Inl (b, hs'))"
  shows "es = [] \<and> ch_hello hs' = ch_hello hs \<and> ch_serverHello hs' = ch_serverHello hs \<and> ch_suite hs' = ch_suite hs
    \<and> ch_vers hs' = ch_vers hs \<and> ch_finishedHash hs' = ch_finishedHash hs \<and> pc_handshakes (ch_conn hs') = pc_handshakes (ch_conn hs)"
proof -
  let ?c = "note_protocol (ch_serverHello hs) (note_renegotiation (ch_serverHello hs) (ch_conn hs))"
  have "replay es (resume_session (hs\<lparr>ch_conn := ?c\<rparr>)) = Some (Inl (b, hs'))"
    using assms by (simp add: processServerHello_def Let_def runs)
  moreover have "pc_handshakes ?c = pc_handshakes (ch_conn hs)" by (simp add: note_protocol_def note_renegotiation_def)
  ultimately show ?thesis by (auto simp: resume_session_def runs split: option.splits if_splits)
qed

lemma client_hello_exchange_run:
  assumes "replay es (client_hello_exchange H P hs) = Some (Inl (b, hs'))"
  obtains bytes m sh where "clientHello_marshal (ch_hello hs) = Some (bytes, m)"
    "es = [Wrote recordTypeHandshake bytes None, Got (Inl (Some (Server_Hello sh)))]"
    "sv_vers sh = VersionGMSSL" "mutualCipherSuiteGM H P (cl_cipherSuites (ch_hello hs)) (sv_cipherSuite sh) = Some (ch_suite hs')"
    "ch_serverHello hs' = sh" "ch_hello hs' = ch_hello hs" "ch_vers hs' = ch_vers hs"
    "pc_handshakes (ch_conn hs') = pc_handshakes (ch_conn hs)"
proof -
  obtain bytes m sh es2 where m: "clientHello_marshal (ch_hello hs) = Some (bytes, m)" "sv_vers sh = VersionGMSSL"
    and es: "es = Wrote recordTypeHandshake bytes None # Got (Inl (Some (Server_Hello sh))) # es2"
    and p: "replay es2 (and_then (pickCipherSuite H P (hs\<lparr>ch_serverHello := sh\<rparr>)) processServerHello) = Some (Inl (b, hs'))"
    using assms unfolding client_hello_exchange_def by (auto simp: runs replay_and_then[of es] replay_and_then[of _ read_handshake]
        replay_and_then[of _ "write_record t d" for t d])
  from p obtain s where s: "mutualCipherSuiteGM H P (cl_cipherSuites (ch_hello hs)) (sv_cipherSuite sh) = Some s"
    and q: "replay es2 (processServerHello (hs\<lparr>ch_serverHello := sh, ch_suite := s, ch_conn := (ch_conn hs)\<lparr>pc_cipherSuite := cs_id s\<rparr>\<rparr>)) = Some (Inl (b, hs'))"
    unfolding replay_and_then pickCipherSuite_def by (auto simp: runs split: option.splits)
  from processServerHello_run[OF q] show thesis using m es s by (intro that[of bytes m sh]) simp_all
qed

lemma client_start_hash_run:
  assumes "replay es (client_start_hash H config r hs k) = Some x"
    "clientHello_marshal (ch_hello hs) = Some (chb, m)"
  obtains h shb m' where "serverHello_marshal (ch_serverHello hs) = Some (shb, m')" "tracks H (chb @ shb) h"
    "replay es (k (hs\<lparr>ch_finishedHash := h\<rparr>)) = Some x"
proof -
  let ?fh = "if r \<or> cf_Certificates config = [] \<and> cf_GetClientCertificate config = None
      then discardHandshakeBuffer (newFinishedHashGM H) else newFinishedHashGM H"
  have t: "tracks H [] ?fh" by simp
  from assms obtain h1 h2 shb m' where h: "fh_Write chb ?fh = Some h1" "serverHello_marshal (ch_serverHello hs) = Some (shb, m')"
    "fh_Write shb h1 = Some h2" "replay es (k (hs\<lparr>ch_finishedHash := h2\<rparr>)) = Some x"
    unfolding client_start_hash_def Let_def by (auto simp: runs)
  have "tracks H (chb @ shb) h2" using tracks_Write[OF tracks_Write[OF t h(1)] h(3)] by simp
  then show thesis using h(2,4) that by blast
qed

text \<open>Certificates.\<close>

lemma parse_gm_certs_run:
  assumes "replay es (parse_gm_certs K i raws) = Some (Inl certs)"
  shows "map (pk_parse K) raws = map Inl certs \<and> (\<forall>x \<in> set certs. \<exists>n. xc_PublicKey x = EC_Key True n)
    \<and> (i = 0 \<longrightarrow> certs \<noteq> [] \<longrightarrow> usage_signs (xc_KeyUsage (certs ! 0)))
    \<and> (i \<le> 1 \<longrightarrow> 1 < i + length certs \<longrightarrow> usage_enciphers (xc_KeyUsage (certs ! (1 - i))))"
  using assms
proof (induction K i raws arbitrary: es certs rule: parse_gm_certs.induct)
  case (1 K i)
  then show ?case by (simp add: runs)
next
  case (2 K i d ds)
  from 2(2) obtain cert n es2 cs where c: "pk_parse K d = Inl cert" "xc_PublicKey cert = EC_Key True n"
    "i = 0 \<longrightarrow> usage_signs (xc_KeyUsage cert)" "i = 1 \<longrightarrow> usage_enciphers (xc_KeyUsage cert)"
    "replay es2 (parse_gm_certs K (i + 1) ds) = Some (Inl cs)" "certs = cert # cs"
    by (auto simp: runs replay_and_then split: sum.splits public_key.splits if_splits)
  have ih: "map (pk_parse K) ds = map Inl cs \<and> (\<forall>x \<in> set cs. \<exists>n. xc_PublicKey x = EC_Key True n)
    \<and> (i + 1 = 0 \<longrightarrow> cs \<noteq> [] \<longrightarrow> usage_signs (xc_KeyUsage (cs ! 0)))
    \<and> (i + 1 \<le> 1 \<longrightarrow> 1 < i + 1 + length cs \<longrightarrow> usage_enciphers (xc_KeyUsage (cs ! (1 - (i + 1)))))"
    by (rule 2(1)[OF c(1,2) _ _ _ c(5)]) (use c in auto)
  consider "i = 0" | "i = 1" | "i > 1" by linarith
  then show ?case using ih c by cases (auto simp: nth_Cons split: nat.splits)
qed

lemma verify_gm_certs_run:
  assumes "replay es (verify_gm_certs K opts i certs before) = Some (Inl vchains)"
  shows "(i = 0 \<longrightarrow> certs \<noteq> [] \<longrightarrow> (\<exists>v. pk_verify K opts (certs ! 0) = Inl v))
    \<and> (i \<le> 1 \<longrightarrow> 1 < i + length certs \<longrightarrow> (\<exists>v. pk_verify K opts (certs ! (1 - i)) = Inl v))"
  using assms
proof (induction K opts i certs before arbitrary: es rule: verify_gm_certs.induct)
  case (1 K opts i before)
  then show ?case by simp
next
  case (2 K opts i cert certs before)
  from 2(2) obtain v where v: "pk_verify K opts cert = Inl v"
    "replay es (verify_gm_certs K (if i = 0 \<or> i = 1 then opts else opts\<lparr>vo_Intermediates := vo_Intermediates opts @ [cert]\<rparr>) (i + 1) certs v)
      = Some (Inl vchains)"
    by (auto simp: runs split: sum.splits)
  from 2(1)[OF v] consider "i = 0" | "i = 1" | "i > 1" by linarith
  then show ?case using 2(1)[OF v] v(1) by cases (auto simp: nth_Cons split: nat.splits)
qed

lemma first_certificates_run:
  assumes "replay es (first_certificates K config raws hs) = Some (Inl hs')" "2 \<le> length raws" "\<not> cf_InsecureSkipVerify config"
  obtains certs vchains sign enc rest where "hs' = hs\<lparr>ch_conn := (ch_conn hs)\<lparr>pc_verifiedChains := vchains, pc_peerCertificates := certs\<rparr>\<rparr>"
    "map (pk_parse K) raws = map Inl certs" "certs = sign # enc # rest"
    "\<exists>n. xc_PublicKey sign = EC_Key True n" "\<exists>n. xc_PublicKey enc = EC_Key True n"
    "usage_signs (xc_KeyUsage sign)" "usage_enciphers (xc_KeyUsage enc)"
    "\<exists>v. pk_verify K (client_verify_opts config) sign = Inl v" "\<exists>v. pk_verify K (client_verify_opts config) enc = Inl v"
proof -
  from assms(1,3) obtain es1 es2 es3 certs vchains where p: "replay es1 (parse_gm_certs K 0 raws) = Some (Inl certs)"
    "replay es2 (verify_gm_certs K (client_verify_opts config) 0 certs (pc_verifiedChains (ch_conn hs))) = Some (Inl vchains)"
    and hs': "hs' = hs\<lparr>ch_conn := (ch_conn hs)\<lparr>pc_verifiedChains := vchains, pc_peerCertificates := certs\<rparr>\<rparr>"
    unfolding first_certificates_def Let_def
    by (auto simp: runs replay_and_then split: option.splits public_key.splits)
  have m: "map (pk_parse K) raws = map Inl certs" using parse_gm_certs_run[OF p(1)] by blast
  then have "length certs = length raws" by (metis length_map)
  then obtain sign enc rest where c: "certs = sign # enc # rest"
    using assms(2) by (cases certs; cases "tl certs") auto
  show thesis
    by (rule that[OF hs' m c]) (use parse_gm_certs_run[OF p(1)] verify_gm_certs_run[OF p(2)] c in auto)
qed

text \<open>The certificates that the client has accepted: \<open>trusted_pair\<close> is what it checked of the first two.\<close>

definition trusted_pair :: "pki \<Rightarrow> tls_config \<Rightarrow> byte list list \<Rightarrow> x509 \<Rightarrow> x509 \<Rightarrow> bool" where
  "trusted_pair K config raws sign enc \<longleftrightarrow> (\<exists>a b more. raws = a # b # more \<and> pk_parse K a = Inl sign \<and> pk_parse K b = Inl enc)
     \<and> (\<exists>n. xc_PublicKey sign = EC_Key True n) \<and> (\<exists>n. xc_PublicKey enc = EC_Key True n)
     \<and> usage_signs (xc_KeyUsage sign) \<and> usage_enciphers (xc_KeyUsage enc)
     \<and> (\<exists>v. pk_verify K (client_verify_opts config) sign = Inl v) \<and> (\<exists>v. pk_verify K (client_verify_opts config) enc = Inl v)"

lemma client_certificates_run:
  assumes "replay es (client_certificates K config hs) = Some (Inl hs')" "tracks H t (ch_finishedHash hs)"
    "pc_handshakes (ch_conn hs) = 0" "\<not> cf_InsecureSkipVerify config"
  obtains m es2 sign enc rest where "es = Got (Inl (Some (Certificate_Msg m))) # es2" "goes_on H t hs es hs'"
    "pc_peerCertificates (ch_conn hs') = sign # enc # rest" "trusted_pair K config (cert_certificates m) sign enc"
proof -
  from assms(1,3) obtain m es2 h b m' where m: "es = Got (Inl (Some (Certificate_Msg m))) # es2" "2 \<le> length (cert_certificates m)"
    "certificate_marshal m = Some (b, m')" "fh_Write b (ch_finishedHash hs) = Some h"
    and f: "replay es2 (first_certificates K config (cert_certificates m) (hs\<lparr>ch_finishedHash := h\<rparr>)) = Some (Inl hs')"
    unfolding client_certificates_def Let_def by (auto simp: runs replay_and_then[of _ read_handshake])
  obtain certs vchains sign enc rest where c: "hs' = hs\<lparr>ch_finishedHash := h, ch_conn := (ch_conn hs)\<lparr>pc_verifiedChains := vchains, pc_peerCertificates := certs\<rparr>\<rparr>"
    "map (pk_parse K) (cert_certificates m) = map Inl certs" "certs = sign # enc # rest"
    "\<exists>n. xc_PublicKey sign = EC_Key True n" "\<exists>n. xc_PublicKey enc = EC_Key True n"
    "usage_signs (xc_KeyUsage sign)" "usage_enciphers (xc_KeyUsage enc)"
    "\<exists>v. pk_verify K (client_verify_opts config) sign = Inl v" "\<exists>v. pk_verify K (client_verify_opts config) enc = Inl v"
    by (rule first_certificates_run[OF f m(2) assms(4)]) simp
  have "transcript es2 = []" by (rule quietD[OF quiet_first_certificates f])
  then have "goes_on H t hs es hs'" using tracks_Write[OF assms(2) m(4)] by (simp add: goes_on_def c(1) m(1,3) pending_def)
  moreover have "trusted_pair K config (cert_certificates m) sign enc"
    using c by (auto simp: trusted_pair_def map_eq_Cons_conv Cons_eq_map_conv)
  ultimately show thesis using that m(1) c by simp
qed

text \<open>
  The server key exchange: the signature that its bytes must carry, by the signing certificate, over both
  randoms and the encryption certificate, or the ephemeral parameters.
\<close>

fun exchange_signed :: "hashes \<Rightarrow> pki \<Rightarrow> byte list \<Rightarrow> byte list \<Rightarrow> x509 \<Rightarrow> x509 \<Rightarrow> key_agreement \<Rightarrow> byte list \<Rightarrow> bool" where
  "exchange_signed H K cr sr sign enc eccGMKA key \<longleftrightarrow>
     (\<exists>n. xc_PublicKey sign = EC_Key True n \<and> pk_sm2_verify K n (cr @ sr @ be24 (length (xc_Raw enc)) @ xc_Raw enc) (drop 2 key))"
| "exchange_signed H K cr sr sign enc ecdheGMKA key \<longleftrightarrow>
     (\<exists>n params sig. xc_PublicKey sign = EC_Key True n \<and> key = params @ sig \<and> length params = 4 + unat (params ! 3)
        \<and> pk_sm2_verify K n (hf_sum (h_sm3 H) (cr @ sr @ params)) (drop 2 sig))"
| "exchange_signed H K cr sr sign enc _ key \<longleftrightarrow> False"

definition gm_ka :: "key_agreement \<Rightarrow> bool" where "gm_ka ka \<longleftrightarrow> ka = eccGMKA \<or> ka = ecdheGMKA"

lemma gm_suite_ka: "mutualCipherSuiteGM H P ids want = Some s \<Longrightarrow> gm_ka (cs_ka s)"
  using mutualCipherSuiteGM_id[of H P ids want s] by (auto simp: gmCipherSuites_def suite_def gm_ka_def)

lemma ecc_exchange_run:
  assumes "replay es (ecc_gm_processServerKeyExchange K ch sh sign skx (Some enc)) = Some (Inl u)"
  shows "exchange_signed H K (cl_random ch) (sv_random sh) sign enc eccGMKA (op_data skx)"
proof -
  from assms obtain n where "xc_PublicKey sign = EC_Key True n" "2 < length (op_data skx)"
    "pk_sm2_verify K n (ecc_hashForServerKeyExchange [cl_random ch, sv_random sh, xc_Raw enc]) (drop 2 (op_data skx))"
    unfolding ecc_gm_processServerKeyExchange_def Let_def by (auto simp: runs split: public_key.splits if_splits)
  then show ?thesis by (simp add: ecc_hashForServerKeyExchange_def)
qed

lemma ecdhe_exchange_run:
  assumes "replay es (ecdhe_gm_processServerKeyExchange H K ch sh sign skx ka) = Some (Inl ka')" "ec_version ka = VersionGMSSL"
    "xc_PublicKey sign = EC_Key True n"
  shows "exchange_signed H K (cl_random ch) (sv_random sh) sign enc ecdheGMKA (op_data skx)"
proof -
  let ?key = "op_data skx"
  let ?p = "take (4 + unat (?key ! 3)) ?key" and ?s = "drop (4 + unat (?key ! 3)) ?key"
  from assms obtain es1 where l: "4 \<le> length ?key" "unat (?key ! 3) + 4 \<le> length ?key"
    and v: "\<exists>u. replay es1 (verify_signed_params H K (xc_PublicKey sign) ch sh (SM2WITHSM3, signatureSM2, SHA1) VersionGMSSL ?p ?s) = Some (Inl u)"
    unfolding ecdhe_gm_processServerKeyExchange_def Let_def by (auto simp: runs replay_and_then split: option.splits)
  from v have "pk_sm2_verify K n (hf_sum (h_sm3 H) (cl_random ch @ sv_random sh @ ?p)) (drop 2 ?s)"
    using assms(3) by (auto simp: verify_signed_params_def runs hashForServerKeyExchange_def verifyHandshakeSignature_def signature_types
        split: if_splits)
  moreover have "length ?p = 4 + unat (?p ! 3)" using l by simp
  ultimately show ?thesis using assms(3) unfolding exchange_signed.simps by (intro exI[of _ n] exI[of _ ?p] exI[of _ ?s]) simp
qed

definition fresh_ka :: "u16 \<Rightarrow> x509 \<Rightarrow> key_agreement \<Rightarrow> agreement" where
  "fresh_ka v enc ka = (if ka = eccGMKA then ECC_GM v (Some enc) else ECDHE_GM (new_ecdhe v False))"

lemma replay_case_exchange [runs]:
  "replay es (case msg of Some (Server_Key_Exchange m) \<Rightarrow> f m | _ \<Rightarrow> ok y) = Some (Inl x)
     \<longleftrightarrow> (\<exists>m. msg = Some (Server_Key_Exchange m) \<and> replay es (f m) = Some (Inl x))
       \<or> (\<forall>m. msg \<noteq> Some (Server_Key_Exchange m)) \<and> es = [] \<and> x = y"
  by (auto simp: runs split: option.split handshake_msg.split)

lemma replay_case_request [runs]:
  "replay es (case msg of Some (Certificate_Request_GM m) \<Rightarrow> f m | _ \<Rightarrow> ok y) = Some (Inl x)
     \<longleftrightarrow> (\<exists>m. msg = Some (Certificate_Request_GM m) \<and> replay es (f m) = Some (Inl x))
       \<or> (\<forall>m. msg \<noteq> Some (Certificate_Request_GM m)) \<and> es = [] \<and> x = y"
  by (auto simp: runs split: option.split handshake_msg.split)

text \<open>The same up to a message that was read and is not hashed yet.\<close>

definition goes_on_to :: "hashes \<Rightarrow> byte list \<Rightarrow> client_hs \<Rightarrow> event list \<Rightarrow> handshake_msg option \<Rightarrow> client_hs \<Rightarrow> bool" where
  "goes_on_to H t hs es msg hs' \<longleftrightarrow> (\<exists>t'. t @ transcript es = t' @ pending msg \<and> tracks H t' (ch_finishedHash hs'))
     \<and> ch_vers hs' = ch_vers hs \<and> ch_hello hs' = ch_hello hs \<and> ch_serverHello hs' = ch_serverHello hs \<and> ch_suite hs' = ch_suite hs
     \<and> ch_conn hs' = ch_conn hs"

lemma client_agreement_run:
  assumes "replay es (client_agreement hs k) = Some x" "gm_ka (cs_ka (ch_suite hs))" "pc_peerCertificates (ch_conn hs) = sign # enc # rest"
  shows "replay es (k (fresh_ka (ch_vers hs) enc (cs_ka (ch_suite hs)))) = Some x"
  using assms by (auto simp: client_agreement_def gm_ka_def fresh_ka_def)

lemma process_exchange_run:
  assumes "replay es (processServerKeyExchange H K ch sh sign skx (fresh_ka VersionGMSSL enc ka)) = Some (Inl ka')" "gm_ka ka"
    "xc_PublicKey sign = EC_Key True n"
  shows "exchange_signed H K (cl_random ch) (sv_random sh) sign enc ka (op_data skx)"
proof (cases "ka = eccGMKA")
  case True
  then show ?thesis using assms(1) ecc_exchange_run by (auto simp: fresh_ka_def replay_and_then)
next
  case False
  then have "ka = ecdheGMKA" using assms(2) by (simp add: gm_ka_def)
  then show ?thesis using assms(1,3) ecdhe_exchange_run[of _ H K ch sh sign skx "new_ecdhe VersionGMSSL False"]
    by (auto simp: fresh_ka_def replay_and_then new_ecdhe_def)
qed

lemma client_key_exchange_run:
  assumes "replay es (client_key_exchange H K hs) = Some (Inl (msg, ka, hs'))" "tracks H t (ch_finishedHash hs)"
    "gm_ka (cs_ka (ch_suite hs))" "ch_vers hs = VersionGMSSL"
    "pc_peerCertificates (ch_conn hs) = sign # enc # rest" "xc_PublicKey sign = EC_Key True n"
  shows "goes_on_to H t hs es msg hs'
    \<and> ((\<exists>skx es2. es = Got (Inl (Some (Server_Key_Exchange skx))) # es2
           \<and> exchange_signed H K (cl_random (ch_hello hs)) (sv_random (ch_serverHello hs)) sign enc (cs_ka (ch_suite hs)) (op_data skx))
       \<or> ka = fresh_ka VersionGMSSL enc (cs_ka (ch_suite hs)))"
proof -
  let ?ka = "fresh_ka VersionGMSSL enc (cs_ka (ch_suite hs))"
  from assms(1) obtain msg0 es2 where e: "es = Got (Inl msg0) # es2" and r: "replay es2 (client_agreement hs (\<lambda>ka.
       case msg0 of
         Some (Server_Key_Exchange skx) \<Rightarrow>
           marshalled (serverKeyExchange_marshal skx) (\<lambda>bytes. hash_msg bytes hs (\<lambda>hs.
             case pc_peerCertificates (ch_conn hs) of [] \<Rightarrow> Crash
             | cert # _ \<Rightarrow>
                 and_then (or_alert alertUnexpectedMessage
                     (processServerKeyExchange H K (ch_hello hs) (ch_serverHello hs) cert skx ka)) (\<lambda>ka.
                 and_then read_handshake (\<lambda>msg. ok (msg, ka, hs)))))
       | _ \<Rightarrow> ok (msg0, ka, hs))) = Some (Inl (msg, ka, hs'))"
    unfolding client_key_exchange_def by (auto simp: runs replay_and_then[of _ read_handshake])
  from client_agreement_run[OF r assms(3,5)] assms(4) consider
      skx h b m' es3 where "msg0 = Some (Server_Key_Exchange skx)" "serverKeyExchange_marshal skx = Some (b, m')"
        "fh_Write b (ch_finishedHash hs) = Some h" "hs' = hs\<lparr>ch_finishedHash := h\<rparr>" "es2 = es3 @ [Got (Inl msg)]"
        "\<exists>ka'. replay es3 (processServerKeyExchange H K (ch_hello hs) (ch_serverHello hs) sign skx ?ka) = Some (Inl ka')"
    | "\<forall>skx. msg0 \<noteq> Some (Server_Key_Exchange skx)" "es2 = []" "msg = msg0" "ka = ?ka" "hs' = hs"
    by (auto simp: runs replay_and_then assms(5))
  then show ?thesis
  proof cases
    case 1
    from 1(6) obtain ka' where p: "replay es3 (processServerKeyExchange H K (ch_hello hs) (ch_serverHello hs) sign skx ?ka) = Some (Inl ka')" by blast
    have "transcript es3 = []" by (rule quietD[OF quiet_processServerKeyExchange p])
    then have "goes_on_to H t hs es msg hs'" using tracks_Write[OF assms(2) 1(3)] 1
      by (auto simp: goes_on_to_def e pending_def)
    then show ?thesis using process_exchange_run[OF p assms(3,6)] e 1(1) by blast
  next
    case 2
    then show ?thesis using assms(2) by (auto simp: goes_on_to_def e)
  qed
qed

lemma client_certificate_request_run:
  assumes "replay es (client_certificate_request K config msg hs) = Some (Inl (msg', chain, hs'))"
    "t' @ pending msg = t" "tracks H t' (ch_finishedHash hs)"
  shows "goes_on_to H t hs es msg' hs'"
proof -
  from assms(1) consider
      m b m' h es2 where "msg = Some (Certificate_Request_GM m)" "certificateRequestGM_marshal m = Some (b, m')"
        "fh_Write b (ch_finishedHash hs) = Some h" "hs' = hs\<lparr>ch_finishedHash := h\<rparr>" "es = es2 @ [Got (Inl msg')]"
        "\<exists>c. replay es2 (client_getCertificate K config m) = Some (Inl c)"
    | "es = []" "msg' = msg" "hs' = hs"
    unfolding client_certificate_request_def by (auto simp: runs replay_and_then)
  then show ?thesis
  proof cases
    case 1
    then have "transcript es2 = []" using quietD[OF quiet_client_getCertificate] by blast
    then show ?thesis using tracks_Write[OF assms(3) 1(3)] 1 assms(2) by (auto simp: goes_on_to_def pending_def)
  next
    case 2
    then show ?thesis using assms by (auto simp: goes_on_to_def)
  qed
qed

text \<open>The answer of the client and what follows it.\<close>

lemma send_certificate_run:
  assumes "replay es (send_certificate chain hs) = Some (Inl hs')" "tracks H t (ch_finishedHash hs)"
  shows "goes_on H t hs es hs' \<and> ch_conn hs' = ch_conn hs"
  using assms tracks_Write[OF assms(2)] by (cases chain) (auto simp: send_certificate_def goes_on_def runs)

lemma send_certificate_verify_run:
  assumes "replay es (send_certificate_verify chain hs) = Some (Inl hs')" "tracks H t (ch_finishedHash hs)"
  shows "goes_on H t hs es hs' \<and> ch_conn hs' = ch_conn hs"
proof (cases "\<exists>c sign. chain = Some c \<and> tc_Certificate c \<noteq> [] \<and> sk_Sign (tc_PrivateKey c) = Some sign")
  case True
  with assms(1) obtain coins b h where "es = [Coin coins, Wrote recordTypeHandshake b None]" "fh_Write b (ch_finishedHash hs) = Some h"
    "hs' = hs\<lparr>ch_finishedHash := h\<rparr>"
    by (auto simp: send_certificate_verify_def runs replay_and_then)
  then show ?thesis using tracks_Write[OF assms(2)] by (auto simp: goes_on_def)
next
  case False
  then have "es = [] \<and> hs' = hs" using assms(1)
    by (auto simp: send_certificate_verify_def runs split: option.splits if_splits)
  then show ?thesis using assms(2) by (simp add: goes_on_def)
qed

lemma fresh_ecdhe_cannot:
  "replay es (generateClientKeyExchange K ch enc (fresh_ka v cert ecdheGMKA)) \<noteq> Some (Inl x)"
  by (simp add: fresh_ka_def new_ecdhe_def ecdhe_generateClientKeyExchange_def Let_def runs)

lemma client_answer_run:
  assumes "replay es (client_answer H K config chain ka hs) = Some (Inl hs')" "tracks H t (ch_finishedHash hs)"
  shows "goes_on H t hs es hs' \<and> ch_conn hs' = ch_conn hs \<and> (\<forall>v cert. ka \<noteq> fresh_ka v cert ecdheGMKA)"
proof -
  from assms(1) obtain es1 hs1 es2 pre ckx es3 es4 b m h hs2 ms enc where
    p1: "replay es1 (send_certificate chain hs) = Some (Inl hs1)"
    and p2: "replay es2 (generateClientKeyExchange K (ch_hello hs1) enc ka) = Some (Inl (pre, ckx))"
    and p3: "clientKeyExchange_marshal ckx = Some (b, m)" "fh_Write b (ch_finishedHash hs1) = Some h"
    and p4: "replay es4 (send_certificate_verify chain (hs1\<lparr>ch_finishedHash := h\<rparr>)) = Some (Inl hs2)"
    and es: "es = es1 @ es2 @ Wrote recordTypeHandshake b None # es4"
    and hs': "hs' = hs2\<lparr>ch_masterSecret := ms, ch_finishedHash := discardHandshakeBuffer (ch_finishedHash hs2)\<rparr>"
    unfolding client_answer_def by (auto simp: runs replay_and_then)
  have g1: "goes_on H t hs es1 hs1" "ch_conn hs1 = ch_conn hs" using send_certificate_run[OF p1 assms(2)] by blast+
  have q: "transcript es2 = []" by (rule quietD[OF quiet_generateClientKeyExchange p2])
  have t: "tracks H (t @ transcript (es1 @ es2 @ [Wrote recordTypeHandshake b None])) h"
    using tracks_Write[OF goes_on_tracks[OF g1(1)] p3(2)] by (simp add: q)
  have "goes_on H (t @ transcript (es1 @ es2 @ [Wrote recordTypeHandshake b None])) (hs1\<lparr>ch_finishedHash := h\<rparr>) es4 hs2
      \<and> ch_conn hs2 = ch_conn hs1"
    using send_certificate_verify_run[OF p4, of H "t @ transcript (es1 @ es2 @ [Wrote recordTypeHandshake b None])"] t by simp
  then show ?thesis using g1 fresh_ecdhe_cannot p2 by (auto simp: goes_on_def es hs')
qed

lemma client_doFullHandshake_run:
  assumes "replay es (client_doFullHandshake H K config hs) = Some (Inl hs')" "tracks H t (ch_finishedHash hs)"
    "gm_ka (cs_ka (ch_suite hs))" "ch_vers hs = VersionGMSSL" "pc_handshakes (ch_conn hs) = 0" "\<not> cf_InsecureSkipVerify config"
  obtains m sign enc rest where "Got (Inl (Some (Certificate_Msg m))) \<in> set es" "goes_on H t hs es hs'"
    "pc_peerCertificates (ch_conn hs') = sign # enc # rest" "trusted_pair K config (cert_certificates m) sign enc"
    "cs_ka (ch_suite hs) = eccGMKA \<or> (\<exists>skx. Got (Inl (Some (Server_Key_Exchange skx))) \<in> set es
       \<and> exchange_signed H K (cl_random (ch_hello hs)) (sv_random (ch_serverHello hs)) sign enc (cs_ka (ch_suite hs)) (op_data skx))"
proof -
  from assms(1) obtain es1 hs1 es2 msg ka hs2 es3 chain hs3 es4 h where
    p1: "replay es1 (client_certificates K config hs) = Some (Inl hs1)"
    and p2: "replay es2 (client_key_exchange H K hs1) = Some (Inl (msg, ka, hs2))"
    and p3: "replay es3 (client_certificate_request K config msg hs2) = Some (Inl (Some Server_Hello_Done, chain, hs3))"
    and p4: "fh_Write serverHelloDone_marshal (ch_finishedHash hs3) = Some h"
      "replay es4 (client_answer H K config chain ka (hs3\<lparr>ch_finishedHash := h\<rparr>)) = Some (Inl hs')"
    and es: "es = es1 @ es2 @ es3 @ es4"
    unfolding client_doFullHandshake_def by (auto simp: runs replay_and_then[of _ "client_certificates K c h" for c h]
        replay_and_then[of _ "client_key_exchange H K h" for h] replay_and_then[of _ "client_certificate_request K c m h" for c m h])
  obtain m es1' sign enc rest where c: "es1 = Got (Inl (Some (Certificate_Msg m))) # es1'" "goes_on H t hs es1 hs1"
    "pc_peerCertificates (ch_conn hs1) = sign # enc # rest" "trusted_pair K config (cert_certificates m) sign enc"
    by (rule client_certificates_run[OF p1 assms(2,5,6)])
  obtain n where n: "xc_PublicKey sign = EC_Key True n" using c(4) by (auto simp: trusted_pair_def)
  have s1: "ch_hello hs1 = ch_hello hs" "ch_serverHello hs1 = ch_serverHello hs" "ch_suite hs1 = ch_suite hs" "ch_vers hs1 = VersionGMSSL"
    using c(2) assms(4) by (simp_all add: goes_on_def)
  have k: "goes_on_to H (t @ transcript es1) hs1 es2 msg hs2" "(\<exists>skx es2'. es2 = Got (Inl (Some (Server_Key_Exchange skx))) # es2'
           \<and> exchange_signed H K (cl_random (ch_hello hs)) (sv_random (ch_serverHello hs)) sign enc (cs_ka (ch_suite hs)) (op_data skx))
       \<or> ka = fresh_ka VersionGMSSL enc (cs_ka (ch_suite hs))"
    using client_key_exchange_run[OF p2 goes_on_tracks[OF c(2)] _ s1(4) c(3) n] assms(3) by (simp_all only: s1)
  obtain t2 where t2: "t2 @ pending msg = (t @ transcript es1) @ transcript es2" "tracks H t2 (ch_finishedHash hs2)"
    using k(1) unfolding goes_on_to_def by (metis (no_types))
  have r: "goes_on_to H ((t @ transcript es1) @ transcript es2) hs2 es3 (Some Server_Hello_Done) hs3"
    by (rule client_certificate_request_run[OF p3 t2])
  then obtain t3 where t3: "t3 @ serverHelloDone_marshal = ((t @ transcript es1) @ transcript es2) @ transcript es3" "tracks H t3 (ch_finishedHash hs3)"
    unfolding goes_on_to_def by (auto simp: pending_def)
  have a: "goes_on H (t3 @ serverHelloDone_marshal) (hs3\<lparr>ch_finishedHash := h\<rparr>) es4 hs'
     \<and> ch_conn hs' = ch_conn (hs3\<lparr>ch_finishedHash := h\<rparr>) \<and> (\<forall>v cert. ka \<noteq> fresh_ka v cert ecdheGMKA)"
    by (rule client_answer_run[OF p4(2)]) (use tracks_Write[OF t3(2) p4(1)] in simp)
  have "goes_on H t hs es hs'" using a c(2) k(1) r unfolding t3(1) by (simp add: goes_on_def goes_on_to_def es)
  moreover have "pc_peerCertificates (ch_conn hs') = sign # enc # rest" using a k(1) r c(3) by (simp add: goes_on_to_def)
  moreover have "cs_ka (ch_suite hs) = eccGMKA \<or> (\<exists>skx. Got (Inl (Some (Server_Key_Exchange skx))) \<in> set es
       \<and> exchange_signed H K (cl_random (ch_hello hs)) (sv_random (ch_serverHello hs)) sign enc (cs_ka (ch_suite hs)) (op_data skx))"
    using k(2)
  proof
    assume "ka = fresh_ka VersionGMSSL enc (cs_ka (ch_suite hs))"
    then have "cs_ka (ch_suite hs) \<noteq> ecdheGMKA" using a by metis
    then show ?thesis using assms(3) unfolding gm_ka_def by blast
  next
    assume "\<exists>skx es2'. es2 = Got (Inl (Some (Server_Key_Exchange skx))) # es2'
           \<and> exchange_signed H K (cl_random (ch_hello hs)) (sv_random (ch_serverHello hs)) sign enc (cs_ka (ch_suite hs)) (op_data skx)"
    then show ?thesis unfolding es by (auto simp del: exchange_signed.simps)
  qed
  ultimately show thesis using that c(1,4) es by auto
qed

lemma client_sendFinished_run:
  assumes "replay es (client_sendFinished H config hs) = Some (Inl hs')" "tracks H t (ch_finishedHash hs)"
  shows "goes_on H t hs es hs' \<and> ch_masterSecret hs' = ch_masterSecret hs
    \<and> pc_peerCertificates (ch_conn hs') = pc_peerCertificates (ch_conn hs)"
proof -
  from assms(1) obtain es2 hs1 v b m h where p: "replay es2 (client_send_next_proto config hs) = Some (Inl hs1)"
    "clientSum H (ch_finishedHash hs1) (ch_masterSecret hs1) = Some v" "fh_Write b (ch_finishedHash hs1) = Some h"
    and es: "es = Wrote recordTypeChangeCipherSpec [1] None # es2 @ [Wrote recordTypeHandshake b None]"
    and hs': "hs' = hs1\<lparr>ch_finishedHash := h, ch_conn := (ch_conn hs1)\<lparr>pc_clientFinished := go_copy (pc_clientFinished (ch_conn hs1)) 0 v\<rparr>\<rparr>"
    unfolding client_sendFinished_def by (auto simp: runs replay_and_then)
  have n: "goes_on H t hs es2 hs1 \<and> ch_masterSecret hs1 = ch_masterSecret hs \<and> pc_peerCertificates (ch_conn hs1) = pc_peerCertificates (ch_conn hs)"
  proof (cases "sv_nextProtoNeg (ch_serverHello hs)")
    case True
    then show ?thesis using p(1) tracks_Write[OF assms(2)]
      by (auto simp: client_send_next_proto_def runs Let_def goes_on_def split: prod.splits)
  next
    case False
    then show ?thesis using p(1) assms(2) by (auto simp: client_send_next_proto_def runs goes_on_def)
  qed
  then show ?thesis using tracks_Write[OF goes_on_tracks p(3)] by (auto simp: goes_on_def es hs')
qed

lemma readSessionTicket_run:
  assumes "replay es (readSessionTicket hs) = Some (Inl hs')" "tracks H t (ch_finishedHash hs)"
  shows "goes_on H t hs es hs' \<and> ch_masterSecret hs' = ch_masterSecret hs \<and> ch_conn hs' = ch_conn hs"
proof (cases "sv_ticketSupported (ch_serverHello hs)")
  case True
  then show ?thesis using assms(1) tracks_Write[OF assms(2)]
    by (auto simp: readSessionTicket_def runs replay_and_then goes_on_def pending_def)
next
  case False
  then show ?thesis using assms by (auto simp: readSessionTicket_def runs goes_on_def)
qed

lemma client_readFinished_run:
  assumes "replay es (client_readFinished H hs) = Some (Inl hs')" "tracks H t (ch_finishedHash hs)" "hash_ok (h_sm3 H)"
  obtains e fin where "es = [Got_Record recordTypeChangeCipherSpec e None, Got (Inl (Some (Finished fin)))]"
    "op_data fin = gm_finished H serverFinishedLabel (ch_masterSecret hs) t" "ch_masterSecret hs' = ch_masterSecret hs"
    "goes_on H t hs es hs'" "pc_peerCertificates (ch_conn hs') = pc_peerCertificates (ch_conn hs)"
proof -
  from assms(1) obtain e fin b m h where f: "es = [Got_Record recordTypeChangeCipherSpec e None, Got (Inl (Some (Finished fin)))]"
    "serverSum H (ch_finishedHash hs) (ch_masterSecret hs) = Some (op_data fin)" "finished_marshal fin = Some (b, m)"
    "fh_Write b (ch_finishedHash hs) = Some h"
    "hs' = hs\<lparr>ch_finishedHash := h, ch_conn := (ch_conn hs)\<lparr>pc_serverFinished := go_copy (pc_serverFinished (ch_conn hs)) 0 (op_data fin)\<rparr>\<rparr>"
    unfolding client_readFinished_def by (auto simp: runs replay_and_then)
  show thesis using tracks_Write[OF assms(2) f(4)] f tracks_sums(2)[OF assms(2,3)]
    by (intro that[of e fin]) (auto simp: goes_on_def pending_def)
qed

section \<open>The client as a whole\<close>

text \<open>The run of a full handshake that succeeded, cut at its three stages.\<close>

lemma client_full_run:
  assumes "replay es (client_full H K config hs) = Some (Inl hs')" "tracks H t (ch_finishedHash hs)" "hashes_ok H"
    "gm_ka (cs_ka (ch_suite hs))" "ch_vers hs = VersionGMSSL" "pc_handshakes (ch_conn hs) = 0" "\<not> cf_InsecureSkipVerify config"
  obtains pre fin m sign enc rest where "es = pre @ [Got (Inl (Some (Finished fin)))]"
    "op_data fin = gm_finished H serverFinishedLabel (ch_masterSecret hs') (t @ transcript pre)"
    "goes_on H t hs es hs'" "Got (Inl (Some (Certificate_Msg m))) \<in> set es"
    "pc_peerCertificates (ch_conn hs') = sign # enc # rest" "trusted_pair K config (cert_certificates m) sign enc"
    "cs_ka (ch_suite hs) = eccGMKA \<or> (\<exists>skx. Got (Inl (Some (Server_Key_Exchange skx))) \<in> set es
       \<and> exchange_signed H K (cl_random (ch_hello hs)) (sv_random (ch_serverHello hs)) sign enc (cs_ka (ch_suite hs)) (op_data skx))"
proof -
  from assms(1) obtain es1 hs1 es2 u es3 hs3 es4 hs4 es5 where
    p1: "replay es1 (client_doFullHandshake H K config hs) = Some (Inl hs1)"
    and p2: "replay es2 (client_establishKeys H hs1) = Some (Inl u)"
    and p3: "replay es3 (client_sendFinished H config hs1) = Some (Inl hs3)"
    and p4: "replay es4 (readSessionTicket (set_first True hs3)) = Some (Inl hs4)"
    and p5: "replay es5 (client_readFinished H hs4) = Some (Inl hs')"
    and es: "es = es1 @ es2 @ es3 @ Flushed None # es4 @ es5"
    unfolding client_full_def by (auto simp: runs replay_and_then)
  obtain m sign enc rest where f: "Got (Inl (Some (Certificate_Msg m))) \<in> set es1" "goes_on H t hs es1 hs1"
    "pc_peerCertificates (ch_conn hs1) = sign # enc # rest" "trusted_pair K config (cert_certificates m) sign enc"
    "cs_ka (ch_suite hs) = eccGMKA \<or> (\<exists>skx. Got (Inl (Some (Server_Key_Exchange skx))) \<in> set es1
       \<and> exchange_signed H K (cl_random (ch_hello hs)) (sv_random (ch_serverHello hs)) sign enc (cs_ka (ch_suite hs)) (op_data skx))"
    by (rule client_doFullHandshake_run[OF p1 assms(2,4,5,6,7)])
  have q: "transcript es2 = []" by (rule quietD[OF quiet_establish(1) p2])
  have g3: "goes_on H (t @ transcript es1) hs1 es3 hs3" "pc_peerCertificates (ch_conn hs3) = sign # enc # rest"
    using client_sendFinished_run[OF p3 goes_on_tracks[OF f(2)]] f(3) by auto
  have t3: "tracks H (t @ transcript (es1 @ es2 @ es3 @ [Flushed None])) (ch_finishedHash (set_first True hs3))"
    using goes_on_tracks[OF g3(1)] by (simp add: q set_first_def)
  have g4: "goes_on H (t @ transcript (es1 @ es2 @ es3 @ [Flushed None])) (set_first True hs3) es4 hs4"
    "ch_conn hs4 = ch_conn (set_first True hs3)"
    using readSessionTicket_run[OF p4 t3] by blast+
  have h: "hash_ok (h_sm3 H)" using assms(3) by (simp add: hashes_ok_def)
  obtain e fin where r: "es5 = [Got_Record recordTypeChangeCipherSpec e None, Got (Inl (Some (Finished fin)))]"
    "op_data fin = gm_finished H serverFinishedLabel (ch_masterSecret hs4) ((t @ transcript (es1 @ es2 @ es3 @ [Flushed None])) @ transcript es4)"
    "ch_masterSecret hs' = ch_masterSecret hs4"
    "goes_on H ((t @ transcript (es1 @ es2 @ es3 @ [Flushed None])) @ transcript es4) hs4 es5 hs'"
    "pc_peerCertificates (ch_conn hs') = pc_peerCertificates (ch_conn hs4)"
    by (rule client_readFinished_run[OF p5 goes_on_tracks[OF g4(1)] h])
  show thesis
  proof (rule that[of "es1 @ es2 @ es3 @ Flushed None # es4 @ [Got_Record recordTypeChangeCipherSpec e None]" fin m sign enc rest])
    show "goes_on H t hs es hs'" using r(4) g4(1) g3(1) f(2) by (simp add: goes_on_def es q set_first_def)
    show "pc_peerCertificates (ch_conn hs') = sign # enc # rest" using r(5) g4(2) g3(2) by (simp add: set_first_def)
    show "cs_ka (ch_suite hs) = eccGMKA \<or> (\<exists>skx. Got (Inl (Some (Server_Key_Exchange skx))) \<in> set es
       \<and> exchange_signed H K (cl_random (ch_hello hs)) (sv_random (ch_serverHello hs)) sign enc (cs_ka (ch_suite hs)) (op_data skx))"
      using f(5) unfolding es by (auto simp del: exchange_signed.simps)
  qed (use r f es q in simp_all)
qed

text \<open>The hello that a client sends, and what stands before it in a run.\<close>

lemma replay_hello_rand: "replay es (read_hello_rand n) = Some (Inl b) \<longleftrightarrow> es = [Rand n (Inl b)]"
proof -
  have "replay es (case r of Inl b \<Rightarrow> ok b | Inr e \<Rightarrow> fails ''tls: short read from Rand'') = Some (Inl b) \<longleftrightarrow> es = [] \<and> r = Inl b"
    for es and r :: "byte list + tls_err"
    by (cases r) (auto simp: runs)
  then show ?thesis by (auto simp: read_hello_rand_def replay_step)
qed

lemma makeClientHelloGM_run:
  assumes "replay es (makeClientHelloGM H P config) = Some (Inl hello)"
  shows "es = [Rand 32 (Inl (cl_random hello))] \<and> cl_vers hello = VersionGMSSL"
  using assms unfolding makeClientHelloGM_def Let_def by (auto simp: replay_guard replay_and_then replay_hello_rand replay_ok)

text \<open>With the session that the cache holds, or without one.\<close>

lemma offer_session_run:
  assumes "replay es (offer_session session hello) = Some (Inl hello')"
  shows "transcript es = [] \<and> cl_random hello' = cl_random hello \<and> cl_vers hello' = cl_vers hello"
proof (cases session)
  case None
  then show ?thesis using assms by (simp add: offer_session_def replay_ok)
next
  case (Some s)
  then show ?thesis using assms by (auto simp: offer_session_def replay_ok replay_and_then replay_hello_rand)
qed

lemma clientHandshake_gm_run:
  assumes "replay es (clientHandshake_gm H P K config addr c) = Some (Inl (c', stored))"
  obtains r es2 es3 hs hs' where "es = Versioned VersionGMSSL False # Rand 32 (Inl r) # es2 @ es3" "transcript es2 = []"
    "cl_random (ch_hello hs) = r" "cl_vers (ch_hello hs) = VersionGMSSL" "ch_vers hs = VersionGMSSL" "pc_handshakes (ch_conn hs) = pc_handshakes c"
    "replay es3 (client_handshake_gm H P K config hs) = Some (Inl hs')" "c' = ch_conn hs'"
proof -
  let ?c = "c\<lparr>pc_didResume := False\<rparr>"
  from assms obtain es0 es1 hello0 es2 hello session es3 hs' where p: "es = Versioned VersionGMSSL False # es0" "es0 = es1 @ es2 @ es3"
    "replay es1 (makeClientHelloGM H P config) = Some (Inl hello0)"
    "replay es2 (offer_session session (complete_hello config ?c hello0)) = Some (Inl hello)"
    and r: "replay es3 (client_handshake_gm H P K config (client_start H ?c hello session)) = Some (Inl hs')" "c' = ch_conn hs'"
    unfolding clientHandshake_gm_def Let_def replay_step replay_and_then replay_ok by auto
  have o: "transcript es2 = []" "cl_random hello = cl_random hello0" "cl_vers hello = cl_vers hello0"
    using offer_session_run[OF p(4)] by (simp_all add: complete_hello_def)
  have h: "es1 = [Rand 32 (Inl (cl_random hello0))]" "cl_vers hello0 = VersionGMSSL" using makeClientHelloGM_run[OF p(3)] by simp_all
  have es: "es = Versioned VersionGMSSL False # Rand 32 (Inl (cl_random hello0)) # es2 @ es3" using p(1,2) h(1) by simp
  show thesis by (rule that[OF es o(1) _ _ _ _ r]) (simp_all add: client_start_def o h)
qed

text \<open>The frame around either kind of handshake.\<close>

lemma client_finish_run:
  assumes "replay es (client_finish H b hs) = Some (Inl hs')"
  shows "es = [Completed] \<and> pc_didResume (ch_conn hs') = b
    \<and> pc_ekm (ch_conn hs') = Some (ekmFromMasterSecret H (ch_vers hs) (ch_suite hs) (ch_masterSecret hs) (cl_random (ch_hello hs)) (sv_random (ch_serverHello hs)))
    \<and> pc_peerCertificates (ch_conn hs') = pc_peerCertificates (ch_conn hs)"
  using assms unfolding client_finish_def Let_def by (auto simp: replay_step replay_ok)

lemma client_handshake_gm_run:
  assumes "replay es (client_handshake_gm H P K config hs) = Some (Inl hs')"
  obtains es4 b hs1 es5 where "es = es4 @ es5" "replay es4 (client_hello_exchange H P hs) = Some (Inl (b, hs1))"
    "replay es5 (client_start_hash H config b hs1 (\<lambda>hs.
       Set_Buffering (and_then (if b then client_resume H config hs else client_full H K config hs) (client_finish H b)))) = Some (Inl hs')"
proof -
  from assms obtain es4 x es5 where x: "es = es4 @ es5" "replay es4 (client_hello_exchange H P hs) = Some (Inl x)"
    "replay es5 (case x of (b, hs1) \<Rightarrow> client_start_hash H config b hs1 (\<lambda>hs.
       Set_Buffering (and_then (if b then client_resume H config hs else client_full H K config hs) (client_finish H b)))) = Some (Inl hs')"
    unfolding client_handshake_gm_def replay_and_then[of _ "client_hello_exchange H P hs"] by blast
  obtain b hs1 where b: "x = (b, hs1)" by (cases x)
  show thesis by (rule that[OF x(1)]) (use x(2,3) in \<open>unfold b prod.case\<close>)
qed


text \<open>A run of the client against the toy server.\<close>

lemma toy_client_run:
  "\<exists>es r. play (clientHandshake_gm zero_hashes toy_primitives toy_pki toy_config [] new_peer) toy_messages = (es, [], Some (Inl r))
     \<and> \<not> pc_didResume (fst r)"
proof -
  obtain b c where "clientHello_marshal toy_client_hello = Some (b, c)"
    using clientHello_marshal_exact[of toy_client_hello] by (auto simp: toy_client_hello_def)
  then show ?thesis
    by (simp add: toy_messages_def plays toy_evals toy_client_hello_def cong: play_congs)
qed


end
