(* ===== verification/Tls_Gm_Server_Auth.thy ===== *)
theory Tls_Gm_Server_Auth
  imports Tls_Peaceful
begin

text \<open>
  What a finished GM handshake proves to the server: the client's Finished value covers every message before it, the suite
  is one that both sides list, and a server that requires client certificates has verified one and a signature with its key.
\<close>

section \<open>The hello\<close>

text \<open>What stays as it is from the hello on.\<close>

definition same_deal :: "server_hs \<Rightarrow> server_hs \<Rightarrow> bool" where
  "same_deal hs hs' \<longleftrightarrow> sh_vers hs' = sh_vers hs \<and> sh_config hs' = sh_config hs \<and> sh_clientHello hs' = sh_clientHello hs
     \<and> sh_suite hs' = sh_suite hs \<and> sh_cert hs' = sh_cert hs"

lemma same_deal_trans: "same_deal a b \<Longrightarrow> same_deal b c \<Longrightarrow> same_deal a c"
  by (simp add: same_deal_def)

lemma answer_extensions_run:
  assumes "replay es (answer_extensions hs k) = Some x"
  obtains hs' where "replay es (k hs') = Some x" "same_deal hs hs'"
  using assms unfolding answer_extensions_def Let_def
  by (auto simp: runs same_deal_def split: if_splits prod.splits)

definition both_offer :: "server_hs \<Rightarrow> bool" where
  "both_offer hs \<longleftrightarrow> (\<exists>s. sh_suite hs = Some s \<and> cs_id s \<in> set (cl_cipherSuites (sh_clientHello hs)) \<and> cs_id s \<in> set (getCipherSuites (sh_config hs)))"

lemma setCipherSuite_id: "setCipherSuite H P i ours v = Some s \<Longrightarrow> cs_id s = i \<and> i \<in> set ours \<and> s \<in> set (gmCipherSuites H P)"
  by (auto simp: setCipherSuite_def find_Some_iff split: if_splits option.splits)

lemma first_suite_id: "first_suite H P is ours v = Some s \<Longrightarrow> cs_id s \<in> set is \<and> cs_id s \<in> set ours"
  by (induction H P "is" ours v rule: first_suite.induct) (auto dest: setCipherSuite_id split: option.splits)

text \<open>A GM suite in the list for resumption comes from an explicit configuration, which is the list for full handshakes too.\<close>

lemma gm_in_config:
  "s \<in> set (gmCipherSuites H P) \<Longrightarrow> cs_id s \<in> set (config_cipherSuites H P c) \<Longrightarrow> cs_id s \<in> set (getCipherSuites c)"
  using gm_not_default[of H P] by (auto simp: config_cipherSuites_def getCipherSuites_def gmCipherSuites_def suite_def split: option.splits)

lemma resumed_suite: "setCipherSuite H P i (config_cipherSuites H P c) v = Some s \<Longrightarrow> cs_id s = i \<and> i \<in> set (getCipherSuites c)"
  using setCipherSuite_id gm_in_config by metis

lemma checkForResumption_run:
  assumes "checkForResumption H P TC hs = Some (b, hs')" "sh_suite hs = None"
  shows "(sh_suite hs' \<noteq> None \<longrightarrow> both_offer hs') \<and> sh_clientHello hs' = sh_clientHello hs \<and> sh_config hs' = sh_config hs
    \<and> (b \<longrightarrow> sh_suite hs' \<noteq> None)"
  using assms by (auto simp: checkForResumption_def Let_def both_offer_def dest!: resumed_suite
      split: if_splits option.splits parse.splits)

lemma choose_suite_run:
  assumes "replay es (choose_suite H P hs) = Some (Inl (b, hs'))" "sh_suite hs \<noteq> None \<longrightarrow> both_offer hs"
  shows "es = [] \<and> both_offer hs' \<and> sh_clientHello hs' = sh_clientHello hs"
  using assms unfolding choose_suite_def Let_def
  by (auto simp: runs both_offer_def dest: first_suite_id split: option.splits if_splits)

lemma choose_config_run:
  assumes "replay es (choose_config TC getConfig config ch) = Some (Inl config')"
  shows "transcript es = []"
  using assms unfolding choose_config_def by (auto simp: runs split: option.splits sum.splits)

lemma init_tickets_run: "replay es (init_tickets TC config) = Some (Inl config') \<Longrightarrow> transcript es = []"
  unfolding init_tickets_def Let_def by (auto simp: runs split: if_splits)

text \<open>The state at the end of \<open>readClientHello\<close>: a suite of both sides, unless a session resumes.\<close>

lemma readClientHello_run:
  assumes "replay es (readClientHello H P TC getConfig hs) = Some (Inl (b, hs'))" "sh_suite hs = None"
  obtains ch where "transcript es = msg_bytes (Client_Hello ch)" "Got (Inl (Some (Client_Hello ch))) \<in> set es"
    "sh_clientHello hs' = ch" "both_offer hs'"
proof -
  from assms(1) obtain ch es1 config vers es2 random es3 hs1 where
    es: "es = Got (Inl (Some (Client_Hello ch))) # es1 @ Versioned vers True # Rand 32 (Inl random) # es3"
    and c: "replay es1 (choose_config TC getConfig (sh_config hs) ch) = Some (Inl config)"
    and k: "replay es3 (answer_extensions (hs\<lparr>sh_vers := vers, sh_config := config, sh_clientHello := ch,
                      sh_hello := empty_server_hello\<lparr>sv_vers := vers, sv_random := random\<rparr>, sh_cert := cf_Certificates config\<rparr>) (\<lambda>hs.
                 case sh_cert hs of
                   signCert # _ # _ \<Rightarrow>
                     let hs = (if cl_scts ch then hs\<lparr>sh_hello := (sh_hello hs)\<lparr>sv_scts := tc_SignedCertificateTimestamps signCert\<rparr>\<rparr> else hs)
                     in panics_if_none (checkForResumption H P TC hs) (\<lambda>(resume, hs).
                          if resume then ok (True, hs) else choose_suite H P hs)
                 | _ \<Rightarrow> alert_fails alertInternalError (Text_Error ''tls: amount of server certificates must be greater than 2, which will sign and encipher respectively''))) = Some (Inl (b, hs'))"
    unfolding readClientHello_def
    by (auto simp: runs replay_and_then[of _ read_handshake] replay_and_then[of _ "choose_config TC g c h" for g c h]
        replay_and_then[of _ "or_alert a r" for a r] split: option.splits)
  obtain hs1 where k1: "same_deal (hs\<lparr>sh_vers := vers, sh_config := config, sh_clientHello := ch,
                      sh_hello := empty_server_hello\<lparr>sv_vers := vers, sv_random := random\<rparr>, sh_cert := cf_Certificates config\<rparr>) hs1"
    and k2: "replay es3 (case sh_cert hs1 of
                   signCert # _ # _ \<Rightarrow>
                     let hs = (if cl_scts ch then hs1\<lparr>sh_hello := (sh_hello hs1)\<lparr>sv_scts := tc_SignedCertificateTimestamps signCert\<rparr>\<rparr> else hs1)
                     in panics_if_none (checkForResumption H P TC hs) (\<lambda>(resume, hs).
                          if resume then ok (True, hs) else choose_suite H P hs)
                 | _ \<Rightarrow> alert_fails alertInternalError (Text_Error ''tls: amount of server certificates must be greater than 2, which will sign and encipher respectively'')) = Some (Inl (b, hs'))"
    by (rule answer_extensions_run[OF k]) blast
  from k2 obtain a1 a2 as where cert: "sh_cert hs1 = a1 # a2 # as"
    by (cases "sh_cert hs1"; cases "tl (sh_cert hs1)") (auto simp: replay_alert_fails)
  define hs2 where "hs2 = (if cl_scts ch then hs1\<lparr>sh_hello := (sh_hello hs1)\<lparr>sv_scts := tc_SignedCertificateTimestamps a1\<rparr>\<rparr> else hs1)"
  have "replay es3 (panics_if_none (checkForResumption H P TC hs2) (\<lambda>(resume, hs).
                          if resume then ok (True, hs) else choose_suite H P hs)) = Some (Inl (b, hs'))"
    using k2 unfolding cert list.case Let_def hs2_def .
  then obtain x where x: "checkForResumption H P TC hs2 = Some x"
    "replay es3 (case x of (resume, hs) \<Rightarrow> if resume then ok (True, hs) else choose_suite H P hs) = Some (Inl (b, hs'))"
    unfolding replay_panics_if_none by blast
  obtain r hs3 where rx: "x = (r, hs3)" by (cases x)
  have r: "same_deal hs1 hs2" "checkForResumption H P TC hs2 = Some (r, hs3)"
    "replay es3 (if r then ok (True, hs3) else choose_suite H P hs3) = Some (Inl (b, hs'))"
    using x by (auto simp: rx hs2_def same_deal_def)
  have d: "sh_clientHello hs2 = ch" "sh_suite hs2 = None" using k1 r(1) assms(2) by (simp_all add: same_deal_def)
  have c3: "sh_suite hs3 \<noteq> None \<longrightarrow> both_offer hs3" "sh_clientHello hs3 = ch" "r \<longrightarrow> sh_suite hs3 \<noteq> None"
    using checkForResumption_run[OF r(2) d(2)] d(1) by auto
  have f: "es3 = [] \<and> both_offer hs' \<and> sh_clientHello hs' = ch"
  proof (cases r)
    case True
    then show ?thesis using r(3) c3 by (simp add: runs)
  next
    case False
    then show ?thesis using r(3) choose_suite_run[OF _ c3(1)] c3(2) by simp
  qed
  show thesis by (rule that[of ch]) (use f es choose_config_run[OF c] in \<open>simp_all add: pending_def\<close>)
qed

section \<open>The flight of the server\<close>

definition serves :: "hashes \<Rightarrow> byte list \<Rightarrow> server_hs \<Rightarrow> event list \<Rightarrow> server_hs \<Rightarrow> bool" where
  "serves H t hs es hs' \<longleftrightarrow> tracks H (t @ transcript es) (sh_finishedHash hs') \<and> same_deal hs hs' \<and> sh_conn hs' = sh_conn hs"

lemma serves_tracks: "serves H t hs es hs' \<Longrightarrow> tracks H (t @ transcript es) (sh_finishedHash hs')"
  by (simp add: serves_def)

lemma serves_trans: "serves H t hs es hs' \<Longrightarrow> serves H (t @ transcript es) hs' es' hs'' \<Longrightarrow> serves H t hs (es @ es') hs''"
  by (simp add: serves_def same_deal_def)

lemma serves_refl: "tracks H t (sh_finishedHash hs) \<Longrightarrow> serves H t hs [] hs"
  by (simp add: serves_def same_deal_def)

lemma server_send_run:
  assumes "replay es (server_send b hs) = Some (Inl hs')" "tracks H t (sh_finishedHash hs)"
  shows "serves H t hs es hs'"
  using assms tracks_Write[OF assms(2)] by (auto simp: runs serves_def same_deal_def)

lemma send_hello_run:
  assumes "replay es (send_hello H hs) = Some (Inl hs')"
  shows "serves H (msg_bytes (Client_Hello (sh_clientHello hs))) hs es hs'"
proof -
  let ?fh = "if cf_ClientAuth (sh_config hs) = NoClientCert then discardHandshakeBuffer (newFinishedHashGM H) else newFinishedHashGM H"
  have t: "tracks H [] ?fh" by simp
  from assms obtain s hello chb m h shb m2 where h: "clientHello_marshal (sh_clientHello hs) = Some (chb, m)" "fh_Write chb ?fh = Some h"
    "replay es (server_send shb (hs\<lparr>sh_hello := hello, sh_finishedHash := h\<rparr>)) = Some (Inl hs')"
    unfolding send_hello_def Let_def
    by (auto simp: replay_the_suite replay_marshalled replay_server_hash)
  have "tracks H chb (sh_finishedHash (hs\<lparr>sh_hello := hello, sh_finishedHash := h\<rparr>))" using tracks_Write[OF t h(2)] by simp
  from server_send_run[OF h(3) this] show ?thesis using h(1) by (simp add: serves_def same_deal_def)
qed

lemma send_server_certificates_run:
  assumes "replay es (send_server_certificates hs) = Some (Inl hs')" "tracks H t (sh_finishedHash hs)"
  shows "serves H t hs es hs'"
proof -
  from assms(1) obtain b es1 hs1 es2 where p: "es = es1 @ es2" "replay es1 (server_send b hs) = Some (Inl hs1)"
    "replay es2 (if sv_ocspStapling (sh_hello hs1) then
         marshalled (certificateStatus_marshal \<lparr>cst_raw = None, cst_statusType = statusTypeOCSP,
             cst_response = tc_OCSPStaple (sh_cert hs1 ! 0)\<rparr>) (\<lambda>bytes. server_send bytes hs1) else ok hs1) = Some (Inl hs')"
    unfolding send_server_certificates_def replay_marshalled replay_and_then by blast
  have s1: "serves H t hs es1 hs1" by (rule server_send_run[OF p(2) assms(2)])
  have "serves H (t @ transcript es1) hs1 es2 hs'"
    using p(3) server_send_run[OF _ serves_tracks[OF s1]] serves_refl[OF serves_tracks[OF s1]]
    by (auto simp: replay_marshalled replay_ok split: if_splits)
  then show ?thesis unfolding p(1) by (rule serves_trans[OF s1])
qed

lemma send_key_exchange_run:
  assumes "replay es (send_key_exchange H K hs) = Some (Inl (ka, hs'))" "tracks H t (sh_finishedHash hs)"
  shows "serves H t hs es hs'"
proof -
  from assms(1) obtain config sign enc ch sh ka0 es1 es2 skx ka1 where p: "es = es1 @ es2"
    "replay es1 (generateServerKeyExchange H K config sign enc ch sh ka0) = Some (Inl (skx, ka1))"
    "replay es2 (case skx of None \<Rightarrow> ok (ka1, hs)
      | Some skx \<Rightarrow> marshalled (serverKeyExchange_marshal skx) (\<lambda>bytes. and_then (server_send bytes hs) (\<lambda>hs. ok (ka1, hs)))) = Some (Inl (ka, hs'))"
    unfolding send_key_exchange_def replay_the_suite replay_and_then[of es] replay_or_alert split_paired_Ex prod.case by blast
  have q: "transcript es1 = []" by (rule quietD[OF quiet_generateServerKeyExchange p(2)])
  have "serves H t hs es2 hs'"
  proof (cases skx)
    case None
    then show ?thesis using p(3) serves_refl[OF assms(2)] by (simp add: replay_ok)
  next
    case (Some m)
    then show ?thesis using p(3) server_send_run[OF _ assms(2)] by (auto simp: replay_ok replay_and_then replay_marshalled)
  qed
  then show ?thesis using q unfolding p(1) by (simp add: serves_def)
qed

lemma send_certificate_request_run:
  assumes "replay es (send_certificate_request hs) = Some (Inl hs')" "tracks H t (sh_finishedHash hs)"
  shows "serves H t hs es hs'"
  using assms server_send_run[OF _ assms(2)] serves_refl[OF assms(2)] unfolding send_certificate_request_def
  by (auto simp: replay_marshalled replay_ok split: if_splits)

lemma server_flight_run:
  assumes "replay es (server_flight H K hs) = Some (Inl (ka, hs'))"
  shows "serves H (msg_bytes (Client_Hello (sh_clientHello hs))) hs es hs'"
proof -
  let ?t = "msg_bytes (Client_Hello (sh_clientHello hs))"
  from assms obtain es1 hs1 es2 hs2 es3 hs3 es4 hs4 es5 where p: "replay es1 (send_hello H hs) = Some (Inl hs1)"
    "replay es2 (send_server_certificates hs1) = Some (Inl hs2)" "replay es3 (send_key_exchange H K hs2) = Some (Inl (ka, hs3))"
    "replay es4 (send_certificate_request hs3) = Some (Inl hs4)" "replay es5 (server_send serverHelloDone_marshal hs4) = Some (Inl hs')"
    and es: "es = es1 @ es2 @ es3 @ es4 @ es5 @ [Flushed None]"
    unfolding server_flight_def by (auto simp: replay_and_then replay_ok replay_flush)
  have s1: "serves H ?t hs es1 hs1" by (rule send_hello_run[OF p(1)])
  have s2: "serves H ?t hs (es1 @ es2) hs2" by (rule serves_trans[OF s1 send_server_certificates_run[OF p(2) serves_tracks[OF s1]]])
  have s3: "serves H ?t hs ((es1 @ es2) @ es3) hs3" by (rule serves_trans[OF s2 send_key_exchange_run[OF p(3) serves_tracks[OF s2]]])
  have s4: "serves H ?t hs (((es1 @ es2) @ es3) @ es4) hs4" by (rule serves_trans[OF s3 send_certificate_request_run[OF p(4) serves_tracks[OF s3]]])
  have s5: "serves H ?t hs ((((es1 @ es2) @ es3) @ es4) @ es5) hs'" by (rule serves_trans[OF s4 server_send_run[OF p(5) serves_tracks[OF s4]]])
  then show ?thesis by (simp add: serves_def es)
qed

section \<open>The flight of the client\<close>

lemma parse_client_certs_run:
  "replay es (parse_client_certs K raws) = Some (Inl certs) \<Longrightarrow> map (pk_parse K) raws = map Inl certs"
proof (induction K raws arbitrary: es certs rule: parse_client_certs.induct)
  case (2 K d ds)
  then show ?case by (auto simp: replay_alert_fails replay_and_then replay_ok split: sum.splits)
qed (simp add: replay_ok)

lemma verify_client_certs_run:
  assumes "replay es (verify_client_certs K config raws (cert # others) before) = Some (Inl v)" "VerifyClientCertIfGiven \<le> cf_ClientAuth config"
  shows "\<exists>chs. pk_verify K (server_verify_opts config others) cert = Inl chs"
  using assms unfolding verify_client_certs_def by (auto simp: replay_and_then replay_alert_fails split: sum.splits)

text \<open>A verified client: the first certificate is trusted and its key is the one that signatures are checked with.\<close>

definition trusted_client :: "pki \<Rightarrow> byte list list \<Rightarrow> public_key option \<Rightarrow> server_hs \<Rightarrow> bool" where
  "trusted_client K raws pub hs \<longleftrightarrow> (\<exists>cert others. map (pk_parse K) raws = map Inl (cert # others) \<and> pc_peerCertificates (sh_conn hs) = cert # others
     \<and> (\<exists>chs. pk_verify K (server_verify_opts (sh_config hs) others) cert = Inl chs) \<and> pub = Some (xc_PublicKey cert))"

lemma processCertsFromClient_run:
  assumes "replay es (processCertsFromClient K raws hs) = Some (Inl (pub, hs'))"
  shows "transcript es = [] \<and> same_deal hs hs' \<and> sh_finishedHash hs' = sh_finishedHash hs
    \<and> (raws \<noteq> [] \<and> VerifyClientCertIfGiven \<le> cf_ClientAuth (sh_config hs) \<longrightarrow> trusted_client K raws pub hs')"
proof -
  have q: "transcript es = []" by (rule quietD[OF quiet_processCertsFromClient assms])
  from assms obtain es1 certs es2 v es3 where p: "replay es1 (parse_client_certs K raws) = Some (Inl certs)"
    "replay es2 (verify_client_certs K (sh_config hs) raws certs (pc_verifiedChains (sh_conn hs))) = Some (Inl v)"
    and r: "replay es3 (let hs = hs\<lparr>sh_certsFromClient := raws, sh_conn := (sh_conn hs)\<lparr>pc_verifiedChains := v\<rparr>\<rparr>
       in case certs of
            [] \<Rightarrow> ok (None, hs)
          | cert # _ \<Rightarrow>
              if xc_PublicKey cert = Other_Key then
                alert_fails alertUnsupportedCertificate (Text_Error ''tls: client's certificate contains an unsupported public key'')
              else ok (Some (xc_PublicKey cert), hs\<lparr>sh_conn := (sh_conn hs)\<lparr>pc_peerCertificates := certs\<rparr>\<rparr>)) = Some (Inl (pub, hs'))"
    unfolding processCertsFromClient_def replay_and_then by blast
  have m: "map (pk_parse K) raws = map Inl certs" by (rule parse_client_certs_run[OF p(1)])
  show ?thesis
  proof (cases certs)
    case Nil
    then show ?thesis using r q m by (auto simp: replay_ok same_deal_def)
  next
    case (Cons cert others)
    have e: "pub = Some (xc_PublicKey cert)" "same_deal hs hs'" "sh_finishedHash hs' = sh_finishedHash hs"
      "pc_peerCertificates (sh_conn hs') = cert # others" "sh_config hs' = sh_config hs"
      using r unfolding Cons by (auto simp: replay_ok replay_guard same_deal_def Let_def)
    then show ?thesis using q m verify_client_certs_run[OF p(2)[unfolded Cons]] unfolding Cons by (auto simp: trusted_client_def)
  qed
qed

definition requires_client :: "server_hs \<Rightarrow> bool" where
  "requires_client hs \<longleftrightarrow> cf_ClientAuth (sh_config hs) = RequireAndVerifyClientCert"

text \<open>The same deal, a transcript that lacks the message read last, and a trusted client where one is required.\<close>

definition serves_to :: "hashes \<Rightarrow> byte list \<Rightarrow> server_hs \<Rightarrow> event list \<Rightarrow> handshake_msg option \<Rightarrow> server_hs \<Rightarrow> bool" where
  "serves_to H t hs es msg hs' \<longleftrightarrow> (\<exists>t'. t @ transcript es = t' @ pending msg \<and> tracks H t' (sh_finishedHash hs')) \<and> same_deal hs hs'"

lemma read_client_certificate_run:
  assumes "replay es (read_client_certificate K hs) = Some (Inl (msg, pub, hs'))" "tracks H t (sh_finishedHash hs)"
  shows "serves_to H t hs es msg hs' \<and> (requires_client hs \<longrightarrow>
     (\<exists>m. Got (Inl (Some (Certificate_Msg m))) \<in> set es \<and> trusted_client K (cert_certificates m) pub hs'))"
proof (cases "RequestClientCert \<le> cf_ClientAuth (sh_config hs)")
  case False
  then show ?thesis using assms
    by (auto simp: read_client_certificate_def replay_and_then replay_read_handshake replay_ok serves_to_def same_deal_def requires_client_def client_auth)
next
  case True
  from assms(1) True obtain msg1 es1 where e1: "es = Got (Inl msg1) # es1"
    and k1: "replay es1 (case msg1 of
          Some (Certificate_Msg certMsg) \<Rightarrow>
            marshalled (certificate_marshal certMsg) (\<lambda>bytes. server_hash bytes hs (\<lambda>hs.
              if cert_certificates certMsg = [] \<and> (cf_ClientAuth (sh_config hs) = RequireAnyClientCert
                    \<or> cf_ClientAuth (sh_config hs) = RequireAndVerifyClientCert) then
                alert_fails alertBadCertificate (Text_Error ''tls: client didn't provide a certificate'')
              else and_then (processCertsFromClient K (cert_certificates certMsg) hs) (\<lambda>(pub, hs).
                and_then read_handshake (\<lambda>msg. ok (msg, pub, hs)))))
        | _ \<Rightarrow> unexpected_message) = Some (Inl (msg, pub, hs'))"
    unfolding read_client_certificate_def replay_and_then[of es] by (auto simp: replay_read_handshake)
  from k1 obtain m b m' h where c: "msg1 = Some (Certificate_Msg m)" "certificate_marshal m = Some (b, m')"
    "fh_Write b (sh_finishedHash hs) = Some h" "\<not> (cert_certificates m = [] \<and> requires_client hs)"
    "replay es1 (and_then (processCertsFromClient K (cert_certificates m) (hs\<lparr>sh_finishedHash := h\<rparr>)) (\<lambda>(pub, hs).
                and_then read_handshake (\<lambda>msg. ok (msg, pub, hs)))) = Some (Inl (msg, pub, hs'))"
    unfolding replay_want_Certificate_Msg replay_marshalled replay_server_hash replay_guard requires_client_def by auto
  from c(5) obtain es2 x es3 where d: "es1 = es2 @ es3" "replay es2 (processCertsFromClient K (cert_certificates m) (hs\<lparr>sh_finishedHash := h\<rparr>)) = Some (Inl x)"
    "replay es3 (case x of (pub, hs) \<Rightarrow> and_then read_handshake (\<lambda>msg. ok (msg, pub, hs))) = Some (Inl (msg, pub, hs'))"
    unfolding replay_and_then[of es1] by blast
  have x: "x = (pub, hs')" "es3 = [Got (Inl msg)]" using d(3) by (auto simp: replay_and_then replay_read_handshake replay_ok split: prod.splits)
  have pr: "transcript es2 = [] \<and> same_deal (hs\<lparr>sh_finishedHash := h\<rparr>) hs' \<and> sh_finishedHash hs' = h
    \<and> (cert_certificates m \<noteq> [] \<and> VerifyClientCertIfGiven \<le> cf_ClientAuth (sh_config hs) \<longrightarrow> trusted_client K (cert_certificates m) pub hs')"
    using processCertsFromClient_run[OF d(2)[unfolded x(1)]] by simp
  have t: "tracks H (t @ b) h" by (rule tracks_Write[OF assms(2) c(3)])
  have "serves_to H t hs es msg hs'"
    using pr t by (simp add: serves_to_def same_deal_def e1 d(1) x(2) c(1,2) pending_def)
  moreover have "requires_client hs \<longrightarrow> trusted_client K (cert_certificates m) pub hs'"
    using pr c(4) by (auto simp: requires_client_def client_auth)
  ultimately show ?thesis by (auto simp: e1 c(1))
qed

lemma read_client_key_exchange_run:
  assumes "replay es (read_client_key_exchange H K ka msg hs) = Some (Inl hs')" "t' @ pending msg = t" "tracks H t' (sh_finishedHash hs)"
  shows "serves H t hs es hs'"
proof -
  from assms(1) obtain m b m' h es2 es3 pre ms where c: "msg = Some (Client_Key_Exchange m)" "clientKeyExchange_marshal m = Some (b, m')"
    "fh_Write b (sh_finishedHash hs) = Some h" "es = es2 @ es3"
    "replay es2 (processClientKeyExchange K (sh_cert hs ! 1) m (sh_vers hs) ka) = Some (Inl pre)"
    "es3 = []" "hs' = hs\<lparr>sh_finishedHash := h, sh_masterSecret := ms\<rparr>"
    unfolding read_client_key_exchange_def replay_want_Client_Key_Exchange replay_marshalled replay_server_hash replay_and_then replay_or_alert
      replay_the_suite replay_panics_if_none
    by (auto simp: replay_alert_fails replay_ok split: option.splits)
  have q: "transcript es2 = []" by (rule quietD[OF quiet_processClientKeyExchange c(5)])
  show ?thesis using tracks_Write[OF assms(3) c(3)] assms(2) q by (simp add: serves_def same_deal_def c(1,2,4,6,7) pending_def)
qed

text \<open>The digest of a GM handshake is the hash of the whole transcript, whatever the type of the signature.\<close>

lemma client_digest:
  "tracks H t h \<Longrightarrow> hashForClientCertificate H h sigType f ms = Some (Inl (hf_sum (h_sm3 H) t))"
  by (auto simp: hashForClientCertificate_def tracks_def fh_Sum_def)

definition client_signed :: "hashes \<Rightarrow> pki \<Rightarrow> u16 \<Rightarrow> public_key \<Rightarrow> certificate_verify_msg \<Rightarrow> byte list \<Rightarrow> bool" where
  "client_signed H K v key cv t \<longleftrightarrow> (\<exists>a sigType f. pickSignatureAlgorithm key [cv_signatureAlgorithm cv] supportedSignatureAlgorithms v = Some (Inl (a, sigType, f))
     \<and> verifyHandshakeSignature K sigType key f (hf_sum (h_sm3 H) t) (cv_signature cv) = None)"

lemma read_certificate_verify_run:
  assumes "replay es (read_certificate_verify H K pub hs) = Some (Inl hs')" "tracks H t (sh_finishedHash hs)"
  shows "serves H t hs es hs' \<and> (pc_peerCertificates (sh_conn hs) \<noteq> [] \<longrightarrow>
    (\<exists>cv es2. es = Got (Inl (Some (Certificate_Verify cv))) # es2
       \<and> client_signed H K (sh_vers hs) (case pub of None \<Rightarrow> Other_Key | Some k \<Rightarrow> k) cv t))"
proof (cases "pc_peerCertificates (sh_conn hs) = []")
  case True
  then show ?thesis using assms serves_refl[OF assms(2)] by (simp add: read_certificate_verify_def replay_ok)
next
  case False
  from assms(1) False obtain cv es2 b m h where e: "es = Got (Inl (Some (Certificate_Verify cv))) # es2"
    and s: "replay es2 (check_client_signature H K pub cv hs) = Some (Inl ())"
    and w: "certificateVerify_marshal cv = Some (b, m)" "fh_Write b (sh_finishedHash hs) = Some h" "hs' = hs\<lparr>sh_finishedHash := h\<rparr>"
    unfolding read_certificate_verify_def
    by (auto simp: replay_and_then replay_read_handshake replay_want_Certificate_Verify replay_marshalled replay_server_hash replay_ok)
  have q: "transcript es2 = []" by (rule quietD[OF quiet_check_client_signature s])
  have c: "client_signed H K (sh_vers hs) (case pub of None \<Rightarrow> Other_Key | Some k \<Rightarrow> k) cv t"
    using s unfolding check_client_signature_def Let_def client_signed_def
    by (auto simp: replay_panics_if_none replay_and_then replay_or_alert client_digest[OF assms(2)] replay_alert_fails replay_ok
        split: option.splits)
  show ?thesis using tracks_Write[OF assms(2) w(2)] c q by (simp add: e serves_def same_deal_def w(1,3) pending_def)
qed

text \<open>What a server that requires certificates has checked at the end, \<open>t\<close> being the transcript before \<open>es\<close>.\<close>

definition client_proved :: "hashes \<Rightarrow> pki \<Rightarrow> byte list \<Rightarrow> event list \<Rightarrow> server_hs \<Rightarrow> bool" where
  "client_proved H K t es hs \<longleftrightarrow> (\<exists>m cert others chs cv es1 es2. es = es1 @ Got (Inl (Some (Certificate_Verify cv))) # es2
     \<and> Got (Inl (Some (Certificate_Msg m))) \<in> set es1 \<and> map (pk_parse K) (cert_certificates m) = map Inl (cert # others)
     \<and> pc_peerCertificates (sh_conn hs) = cert # others \<and> pk_verify K (server_verify_opts (sh_config hs) others) cert = Inl chs
     \<and> client_signed H K (sh_vers hs) (xc_PublicKey cert) cv (t @ transcript es1))"

lemma client_proved_extend: "client_proved H K t es hs \<Longrightarrow> client_proved H K t (es @ fs) hs"
  unfolding client_proved_def by (metis append_Cons append_assoc)

lemma client_proved_front:
  assumes "client_proved H K t es hs" "transcript before = t"
  shows "client_proved H K [] (before @ es) hs"
proof -
  from assms(1) obtain m cert others chs cv es1 es2 where e: "es = es1 @ Got (Inl (Some (Certificate_Verify cv))) # es2"
    "Got (Inl (Some (Certificate_Msg m))) \<in> set es1" "map (pk_parse K) (cert_certificates m) = map Inl (cert # others)"
    "pc_peerCertificates (sh_conn hs) = cert # others" "pk_verify K (server_verify_opts (sh_config hs) others) cert = Inl chs"
    "client_signed H K (sh_vers hs) (xc_PublicKey cert) cv (t @ transcript es1)"
    unfolding client_proved_def by blast
  show ?thesis unfolding client_proved_def
    by (intro exI[of _ m] exI[of _ cert] exI[of _ others] exI[of _ chs] exI[of _ cv] exI[of _ "before @ es1"] exI[of _ es2])
      (use e assms(2) in simp)
qed

lemma client_proved_cong:
  "client_proved H K t es hs \<Longrightarrow> same_deal hs hs' \<Longrightarrow> pc_peerCertificates (sh_conn hs') = pc_peerCertificates (sh_conn hs) \<Longrightarrow> client_proved H K t es hs'"
  by (simp add: client_proved_def same_deal_def)

lemma server_doFullHandshake_run:
  assumes "replay es (server_doFullHandshake H K hs) = Some (Inl hs')"
  shows "tracks H (msg_bytes (Client_Hello (sh_clientHello hs)) @ transcript es) (sh_finishedHash hs') \<and> same_deal hs hs'
    \<and> (requires_client hs \<longrightarrow> client_proved H K (msg_bytes (Client_Hello (sh_clientHello hs))) es hs')"
proof -
  let ?t = "msg_bytes (Client_Hello (sh_clientHello hs))"
  from assms obtain es1 ka hs1 es2 msg pub hs2 es3 hs3 es4 hs4 where p: "replay es1 (server_flight H K hs) = Some (Inl (ka, hs1))"
    "replay es2 (read_client_certificate K hs1) = Some (Inl (msg, pub, hs2))"
    "replay es3 (read_client_key_exchange H K ka msg hs2) = Some (Inl hs3)"
    "replay es4 (read_certificate_verify H K pub hs3) = Some (Inl hs4)"
    and es: "es = es1 @ es2 @ es3 @ es4" and hs': "hs' = hs4\<lparr>sh_finishedHash := discardHandshakeBuffer (sh_finishedHash hs4)\<rparr>"
    unfolding server_doFullHandshake_def by (auto simp: replay_and_then replay_ok split: prod.splits)
  have s1: "serves H ?t hs es1 hs1" by (rule server_flight_run[OF p(1)])
  have s2: "serves_to H (?t @ transcript es1) hs1 es2 msg hs2"
    and c2: "requires_client hs1 \<longrightarrow> (\<exists>m. Got (Inl (Some (Certificate_Msg m))) \<in> set es2 \<and> trusted_client K (cert_certificates m) pub hs2)"
    using read_client_certificate_run[OF p(2) serves_tracks[OF s1]] by blast+
  obtain t' where t': "t' @ pending msg = (?t @ transcript es1) @ transcript es2" "tracks H t' (sh_finishedHash hs2)"
    using s2 unfolding serves_to_def by metis
  have s3: "serves H ((?t @ transcript es1) @ transcript es2) hs2 es3 hs3" by (rule read_client_key_exchange_run[OF p(3) t'])
  have s4: "serves H (((?t @ transcript es1) @ transcript es2) @ transcript es3) hs3 es4 hs4"
    and c4: "pc_peerCertificates (sh_conn hs3) \<noteq> [] \<longrightarrow> (\<exists>cv es5. es4 = Got (Inl (Some (Certificate_Verify cv))) # es5
       \<and> client_signed H K (sh_vers hs3) (case pub of None \<Rightarrow> Other_Key | Some k \<Rightarrow> k) cv (((?t @ transcript es1) @ transcript es2) @ transcript es3))"
    using read_certificate_verify_run[OF p(4) serves_tracks[OF s3]] by blast+
  have d: "same_deal hs hs'" "same_deal hs2 hs'" "same_deal hs3 hs'" "sh_conn hs' = sh_conn hs2" "sh_conn hs3 = sh_conn hs2"
    using s1 s2 s3 s4 by (simp_all add: serves_def serves_to_def same_deal_def hs')
  have "client_proved H K ?t es hs'" if "requires_client hs"
  proof -
    have "requires_client hs1" using that s1 by (simp add: requires_client_def serves_def same_deal_def)
    then obtain m where m: "Got (Inl (Some (Certificate_Msg m))) \<in> set es2" "trusted_client K (cert_certificates m) pub hs2" using c2 by blast
    then obtain cert others chs where c: "map (pk_parse K) (cert_certificates m) = map Inl (cert # others)"
      "pc_peerCertificates (sh_conn hs2) = cert # others" "pk_verify K (server_verify_opts (sh_config hs2) others) cert = Inl chs"
      "pub = Some (xc_PublicKey cert)" unfolding trusted_client_def by blast
    then obtain cv es5 where v: "es4 = Got (Inl (Some (Certificate_Verify cv))) # es5"
      "client_signed H K (sh_vers hs3) (xc_PublicKey cert) cv (((?t @ transcript es1) @ transcript es2) @ transcript es3)"
      using c4 d(5) by auto
    show ?thesis unfolding client_proved_def
      by (intro exI[of _ m] exI[of _ cert] exI[of _ others] exI[of _ chs] exI[of _ cv] exI[of _ "es1 @ es2 @ es3"] exI[of _ es5])
        (use m(1) c v d in \<open>simp add: es same_deal_def\<close>)
  qed
  then show ?thesis using s4 d(1) by (simp add: serves_def es hs')
qed

section \<open>Finished\<close>

lemma server_readFinished_run:
  assumes "replay es (server_readFinished H keep hs) = Some (Inl hs')" "tracks H t (sh_finishedHash hs)" "hash_ok (h_sm3 H)"
  obtains pre fin where "es = pre @ [Got (Inl (Some (Finished fin)))]"
    "op_data fin = gm_finished H clientFinishedLabel (sh_masterSecret hs) (t @ transcript pre)"
    "tracks H (t @ transcript es) (sh_finishedHash hs')" "same_deal hs hs'" "sh_masterSecret hs' = sh_masterSecret hs"
    "pc_peerCertificates (sh_conn hs') = pc_peerCertificates (sh_conn hs)" "pc_didResume (sh_conn hs') = pc_didResume (sh_conn hs)"
proof -
  from assms(1) obtain e es1 es2 hs1 where es: "es = Got_Record recordTypeChangeCipherSpec None e # es1 @ es2"
    and p: "replay es1 (server_read_next_proto hs) = Some (Inl hs1)"
    and r: "replay es2 (and_then read_handshake (\<lambda>msg.
     case msg of
       Some (Finished fin) \<Rightarrow>
         panics_if_none (clientSum H (sh_finishedHash hs1) (sh_masterSecret hs1)) (\<lambda>verify.
           if verify \<noteq> op_data fin then alert_fails alertHandshakeFailure (Text_Error ''tls: client's Finished message is incorrect'')
           else marshalled (finished_marshal fin) (\<lambda>bytes. server_hash bytes hs1 (\<lambda>hs.
             ok (if keep then hs\<lparr>sh_conn := (sh_conn hs)\<lparr>pc_clientFinished := go_copy (pc_clientFinished (sh_conn hs)) 0 verify\<rparr>\<rparr> else hs))))
     | _ \<Rightarrow> unexpected_message)) = Some (Inl hs')"
    unfolding server_readFinished_def replay_step replay_and_then[of _ "or_error e" for e] replay_and_then[of _ "server_read_next_proto hs"] replay_or_error
      prod.case by auto
  have n: "tracks H (t @ transcript es1) (sh_finishedHash hs1) \<and> same_deal hs hs1 \<and> sh_masterSecret hs1 = sh_masterSecret hs
    \<and> pc_peerCertificates (sh_conn hs1) = pc_peerCertificates (sh_conn hs) \<and> pc_didResume (sh_conn hs1) = pc_didResume (sh_conn hs)"
  proof (cases "sv_nextProtoNeg (sh_hello hs)")
    case True
    then show ?thesis using p tracks_Write[OF assms(2)]
      by (auto simp: server_read_next_proto_def replay_and_then replay_read_handshake replay_want_Next_Protocol replay_marshalled replay_server_hash
          replay_ok same_deal_def pending_def)
  next
    case False
    then show ?thesis using p assms(2) by (simp add: server_read_next_proto_def replay_ok same_deal_def)
  qed
  have sum: "clientSum H (sh_finishedHash hs1) (sh_masterSecret hs1) = Some (gm_finished H clientFinishedLabel (sh_masterSecret hs) (t @ transcript es1))"
    using tracks_sums(1)[OF conjunct1[OF n] assms(3)] n by simp
  from r obtain fin b m h where f: "es2 = [Got (Inl (Some (Finished fin)))]"
    "op_data fin = gm_finished H clientFinishedLabel (sh_masterSecret hs) (t @ transcript es1)" "finished_marshal fin = Some (b, m)"
    "fh_Write b (sh_finishedHash hs1) = Some h" "same_deal hs1 hs'" "sh_finishedHash hs' = h" "sh_masterSecret hs' = sh_masterSecret hs1"
    "pc_peerCertificates (sh_conn hs') = pc_peerCertificates (sh_conn hs1)" "pc_didResume (sh_conn hs') = pc_didResume (sh_conn hs1)"
    unfolding replay_and_then replay_read_handshake
    by (auto simp: replay_want_Finished replay_panics_if_none replay_guard replay_marshalled replay_server_hash replay_ok sum same_deal_def)
  show thesis
    by (rule that[of "Got_Record recordTypeChangeCipherSpec None e # es1" fin])
      (use f n tracks_Write[OF conjunct1[OF n] f(4)] in \<open>simp_all add: es same_deal_def pending_def\<close>)
qed

text \<open>What the last steps keep.\<close>

definition settled :: "server_hs \<Rightarrow> server_hs \<Rightarrow> bool" where
  "settled hs hs' \<longleftrightarrow> same_deal hs hs' \<and> sh_masterSecret hs' = sh_masterSecret hs
     \<and> pc_peerCertificates (sh_conn hs') = pc_peerCertificates (sh_conn hs) \<and> pc_didResume (sh_conn hs') = pc_didResume (sh_conn hs)"

lemma settled_trans: "settled a b \<Longrightarrow> settled b c \<Longrightarrow> settled a c"
  by (simp add: settled_def same_deal_def)

lemma sendSessionTicket_run:
  assumes "replay es (sendSessionTicket TC hs) = Some (Inl hs')" "tracks H t (sh_finishedHash hs)"
  shows "tracks H (t @ transcript es) (sh_finishedHash hs') \<and> settled hs hs'"
proof (cases "sv_ticketSupported (sh_hello hs)")
  case True
  with assms(1) obtain es1 es2 iv enc where r: "es = es1 @ es2" "es1 = [Rand 16 (Inl iv)]"
    "replay es2 (case enc of Panic \<Rightarrow> Crash | Reject \<Rightarrow> fails ''tls: ticket''
       | Accept ticket \<Rightarrow> marshalled (newSessionTicket_marshal \<lparr>st_raw = None, st_ticket = ticket\<rparr>) (\<lambda>bytes. server_send bytes hs)) = Some (Inl hs')"
    unfolding sendSessionTicket_def Let_def
    by (auto simp: replay_the_suite replay_and_then replay_read_rand)
  then obtain b h where "es = [Rand 16 (Inl iv), Wrote recordTypeHandshake b None]" "fh_Write b (sh_finishedHash hs) = Some h"
    "hs' = hs\<lparr>sh_finishedHash := h\<rparr>"
    by (cases enc) (auto simp: replay_fails replay_marshalled replay_server_send)
  then show ?thesis using tracks_Write[OF assms(2)] by (simp add: settled_def same_deal_def)
next
  case False
  then show ?thesis using assms by (simp add: sendSessionTicket_def replay_ok settled_def same_deal_def)
qed

lemma server_sendFinished_run:
  assumes "replay es (server_sendFinished H keep hs) = Some (Inl hs')" "tracks H t (sh_finishedHash hs)" "hash_ok (h_sm3 H)"
  obtains b m where "es = [Wrote recordTypeChangeCipherSpec [1] None, Wrote recordTypeHandshake b None]" "settled hs hs'"
    "finished_marshal \<lparr>op_raw = None, op_data = gm_finished H serverFinishedLabel (sh_masterSecret hs) t\<rparr> = Some (b, m)"
  using assms(1) unfolding server_sendFinished_def
  by (auto simp: replay_and_then replay_write_record replay_panics_if_none replay_marshalled replay_server_send replay_the_suite replay_ok
      tracks_sums(2)[OF assms(2,3)] settled_def same_deal_def Let_def)

lemma server_full_run:
  assumes "replay es (server_full H K TC hs) = Some (Inl hs')" "hash_ok (h_sm3 H)"
  obtains pre fin mid b m where "es = pre @ Got (Inl (Some (Finished fin))) # mid @ [Wrote recordTypeHandshake b None, Flushed None]"
    "op_data fin = gm_finished H clientFinishedLabel (sh_masterSecret hs') (msg_bytes (Client_Hello (sh_clientHello hs)) @ transcript pre)"
    "finished_marshal \<lparr>op_raw = None, op_data = gm_finished H serverFinishedLabel (sh_masterSecret hs')
       (msg_bytes (Client_Hello (sh_clientHello hs)) @ transcript pre @ msg_bytes (Finished fin) @ transcript mid)\<rparr> = Some (b, m)"
    "same_deal hs hs'" "requires_client hs \<longrightarrow> client_proved H K (msg_bytes (Client_Hello (sh_clientHello hs))) pre hs'"
proof -
  let ?t = "msg_bytes (Client_Hello (sh_clientHello hs))"
  from assms(1) obtain es1 hs1 es2 es3 hs3 es4 hs4 es5 where p: "replay es1 (server_doFullHandshake H K hs) = Some (Inl hs1)"
    "replay es2 (server_establishKeys H hs1) = Some (Inl ())" "replay es3 (server_readFinished H True hs1) = Some (Inl hs3)"
    "replay es4 (sendSessionTicket TC (server_first True hs3)) = Some (Inl hs4)" "replay es5 (server_sendFinished H False hs4) = Some (Inl hs')"
    and es: "es = es1 @ es2 @ es3 @ Buffered # es4 @ es5 @ [Flushed None]"
    unfolding server_full_def by (auto simp: replay_and_then replay_ok replay_flush replay_step)
  have d: "tracks H (?t @ transcript es1) (sh_finishedHash hs1)" "same_deal hs hs1" "requires_client hs \<longrightarrow> client_proved H K ?t es1 hs1"
    using server_doFullHandshake_run[OF p(1)] by blast+
  have q: "transcript es2 = []" by (rule quietD[OF quiet_establish(2) p(2)])
  obtain pre fin where f: "es3 = pre @ [Got (Inl (Some (Finished fin)))]"
    "op_data fin = gm_finished H clientFinishedLabel (sh_masterSecret hs1) ((?t @ transcript es1) @ transcript pre)"
    "tracks H ((?t @ transcript es1) @ transcript es3) (sh_finishedHash hs3)" "same_deal hs1 hs3" "sh_masterSecret hs3 = sh_masterSecret hs1"
    "pc_peerCertificates (sh_conn hs3) = pc_peerCertificates (sh_conn hs1)" "pc_didResume (sh_conn hs3) = pc_didResume (sh_conn hs1)"
    by (rule server_readFinished_run[OF p(3) d(1) assms(2)])
  have t3: "tracks H ((?t @ transcript es1) @ transcript es3) (sh_finishedHash (server_first True hs3))" using f(3) by (simp add: server_first_def)
  have k: "tracks H (((?t @ transcript es1) @ transcript es3) @ transcript es4) (sh_finishedHash hs4)" "settled (server_first True hs3) hs4"
    using sendSessionTicket_run[OF p(4) t3] by blast+
  obtain b m where w: "es5 = [Wrote recordTypeChangeCipherSpec [1] None, Wrote recordTypeHandshake b None]" "settled hs4 hs'"
    "finished_marshal \<lparr>op_raw = None, op_data = gm_finished H serverFinishedLabel (sh_masterSecret hs4)
       (((?t @ transcript es1) @ transcript es3) @ transcript es4)\<rparr> = Some (b, m)"
    by (rule server_sendFinished_run[OF p(5) k(1) assms(2)])
  have e: "settled hs1 hs'"
    using k(2) w(2) f(4-7) by (simp add: settled_def same_deal_def server_first_def)
  show thesis
  proof (rule that[of "es1 @ es2 @ pre" fin "Buffered # es4 @ [Wrote recordTypeChangeCipherSpec [1] None]" b m])
    show "same_deal hs hs'" using d(2) e by (simp add: settled_def same_deal_def)
    show "requires_client hs \<longrightarrow> client_proved H K ?t (es1 @ es2 @ pre) hs'"
      using d(3) e client_proved_extend client_proved_cong unfolding settled_def by blast
    show "finished_marshal \<lparr>op_raw = None, op_data = gm_finished H serverFinishedLabel (sh_masterSecret hs')
       (?t @ transcript (es1 @ es2 @ pre) @ msg_bytes (Finished fin) @ transcript (Buffered # es4 @ [Wrote recordTypeChangeCipherSpec [1] None]))\<rparr> = Some (b, m)"
      using w(3) e k(2) f(5) q by (simp add: f(1) settled_def server_first_def pending_def)
  qed (use e f(2) q in \<open>simp_all add: es f(1) w(1) settled_def\<close>)
qed

text \<open>
  C2: A server that finishes a full GM handshake, whatever the peer and the network did: the chosen suite
  is one that the client offered and the configuration lists; the client's Finished message carries the pseudo-random function of
  the master secret over every handshake message sent and received before it, and the server's own Finished, its last message, over
  every message up to there, the client's Finished included. A server that requires and verifies client certificates has received
  one that verifies against its roots, and then a signature with the key of that certificate over all messages before the
  signature.
\<close>
theorem gm_server_authenticates:
  assumes "hashes_ok H" "replay es (serverHandshakeGM H P K TC getConfig config c) = Some (Inl hs)" "\<not> pc_didResume (sh_conn hs)"
  shows "\<exists>pre fin mid b m. es = pre @ Got (Inl (Some (Finished fin))) # mid @ [Wrote recordTypeHandshake b None, Flushed None, Completed]
    \<and> op_data fin = gm_finished H clientFinishedLabel (sh_masterSecret hs) (transcript pre)
    \<and> finished_marshal \<lparr>op_raw = None, op_data = gm_finished H serverFinishedLabel (sh_masterSecret hs)
         (transcript (pre @ Got (Inl (Some (Finished fin))) # mid))\<rparr> = Some (b, m)
    \<and> Got (Inl (Some (Client_Hello (sh_clientHello hs)))) \<in> set pre \<and> both_offer hs
    \<and> (requires_client hs \<longrightarrow> client_proved H K [] pre hs)"
proof -
  from assms(2) obtain es0 config1 es1 x es2 hs3 es3 where p: "replay es0 (init_tickets TC config) = Some (Inl config1)"
    "replay es1 (readClientHello H P TC getConfig
         \<lparr>sh_conn = c, sh_vers = 0, sh_config = config1, sh_clientHello = empty_client_hello, sh_hello = empty_server_hello, sh_suite = None,
          sh_sessionState = None, sh_finishedHash = newFinishedHashGM H, sh_masterSecret = [], sh_certsFromClient = [], sh_cert = []\<rparr>) = Some (Inl x)"
    and f: "replay es2 (if fst x then server_resume H K TC (snd x) else server_full H K TC (snd x)) = Some (Inl hs3)"
    and g: "replay es3 (the_suite hs3 (\<lambda>s.
       Set_Complete (ok (hs3\<lparr>sh_conn := (sh_conn hs3)\<lparr>pc_ekm := Some (ekmFromMasterSecret H (sh_vers hs3) s (sh_masterSecret hs3)
         (cl_random (sh_clientHello hs3)) (sv_random (sh_hello hs3)))\<rparr>\<rparr>)))) = Some (Inl hs)"
    and es: "es = es0 @ es1 @ Buffered # es2 @ es3"
    unfolding serverHandshakeGM_def replay_and_then case_prod_beta replay_step by blast
  obtain b0 hs1 where x: "x = (b0, hs1)" by (cases x)
  have g': "es3 = [Completed]" "same_deal hs3 hs" "sh_masterSecret hs = sh_masterSecret hs3" "pc_didResume (sh_conn hs) = pc_didResume (sh_conn hs3)"
    "pc_peerCertificates (sh_conn hs) = pc_peerCertificates (sh_conn hs3)"
    using g by (auto simp: replay_the_suite replay_step replay_ok same_deal_def)
  have "\<not> b0"
  proof
    assume "b0"
    then have "pc_didResume (sh_conn hs3)" using f unfolding x server_resume_def by (auto simp: replay_and_then replay_ok)
    then show False using assms(3) g'(4) by simp
  qed
  then have f': "replay es2 (server_full H K TC hs1) = Some (Inl hs3)" using f by (simp add: x)
  obtain ch where r: "transcript es1 = msg_bytes (Client_Hello ch)" "Got (Inl (Some (Client_Hello ch))) \<in> set es1"
    "sh_clientHello hs1 = ch" "both_offer hs1"
    by (rule readClientHello_run[OF p(2)[unfolded x]]) simp
  have h: "hash_ok (h_sm3 H)" using assms(1) by (simp add: hashes_ok_def)
  obtain pre fin mid b m where w: "es2 = pre @ Got (Inl (Some (Finished fin))) # mid @ [Wrote recordTypeHandshake b None, Flushed None]"
    "op_data fin = gm_finished H clientFinishedLabel (sh_masterSecret hs3) (msg_bytes (Client_Hello ch) @ transcript pre)"
    "finished_marshal \<lparr>op_raw = None, op_data = gm_finished H serverFinishedLabel (sh_masterSecret hs3)
       (msg_bytes (Client_Hello ch) @ transcript pre @ msg_bytes (Finished fin) @ transcript mid)\<rparr> = Some (b, m)"
    "same_deal hs1 hs3" "requires_client hs1 \<longrightarrow> client_proved H K (msg_bytes (Client_Hello ch)) pre hs3"
    by (rule server_full_run[OF f' h, unfolded r(3)])
  let ?pre = "(es0 @ es1 @ [Buffered]) @ pre"
  have t0: "transcript (es0 @ es1 @ [Buffered]) = msg_bytes (Client_Hello ch)" using init_tickets_run[OF p(1)] r(1) by simp
  have d: "same_deal hs1 hs" using w(4) g'(2) by (rule same_deal_trans)
  have v: "requires_client hs \<longrightarrow> client_proved H K [] ?pre hs"
    using w(5) client_proved_front[OF client_proved_cong[OF _ g'(2,5)] t0] d by (simp add: requires_client_def same_deal_def)
  show ?thesis
    by (intro exI[of _ ?pre] exI[of _ fin] exI[of _ mid] exI[of _ b] exI[of _ m] conjI v)
      (use w(1-3) g' r d t0 in \<open>simp_all add: es both_offer_def same_deal_def pending_def\<close>)
qed

section \<open>A run of the server\<close>

lemmas play_server [plays] = serverHandshakeGM_def[THEN play_eq] init_tickets_def[THEN play_eq] readClientHello_def[THEN play_eq]
  choose_config_def[THEN play_eq] answer_extensions_def[THEN play_eq] choose_suite_def[THEN play_eq] server_full_def[THEN play_eq]
  server_resume_def[THEN play_eq] server_doFullHandshake_def[THEN play_eq] server_flight_def[THEN play_eq] send_hello_def[THEN play_eq]
  send_server_certificates_def[THEN play_eq] send_key_exchange_def[THEN play_eq] send_certificate_request_def[THEN play_eq]
  server_send_def[THEN play_eq] server_hash_def[THEN play_eq] the_suite_def[THEN play_eq] read_client_certificate_def[THEN play_eq]
  processCertsFromClient_def[THEN play_eq] verify_client_certs_def[THEN play_eq] read_client_key_exchange_def[THEN play_eq]
  read_certificate_verify_def[THEN play_eq] check_client_signature_def[THEN play_eq] server_establishKeys_def[THEN play_eq]
  server_prepare_specs_def[THEN play_eq] server_readFinished_def[THEN play_eq] server_read_next_proto_def[THEN play_eq]
  sendSessionTicket_def[THEN play_eq] server_sendFinished_def[THEN play_eq] generateServerKeyExchange.simps[THEN play_eq]
  ecc_gm_generateServerKeyExchange_def[THEN play_eq] processClientKeyExchange.simps[THEN play_eq]
  ecc_gm_processClientKeyExchange_def[THEN play_eq]

lemma play_parse_client [plays]:
  "raws = [] \<Longrightarrow> play (parse_client_certs K raws) ms = play (parse_client_certs K []) ms"
  "raws = d # ds \<Longrightarrow> play (parse_client_certs K raws) ms = play (parse_client_certs K (d # ds)) ms"
  by simp_all

text \<open>The key agreement, once the suite is known.\<close>

lemma play_ecc [plays]:
  "ka = ECC_GM v e \<Longrightarrow> play (generateServerKeyExchange H K config sign enc ch sh ka) ms = play (generateServerKeyExchange H K config sign enc ch sh (ECC_GM v e)) ms"
  "ka = ECC_GM v e \<Longrightarrow> play (processClientKeyExchange K enc ckx vers ka) ms = play (processClientKeyExchange K enc ckx vers (ECC_GM v e)) ms"
  by simp_all

lemma toy_uncipher: "pk_asn1_uncipher toy_pki b = Inl (0, 0, [], b)"
  by (simp add: toy_pki_def)

lemmas play_parse_step [plays] = parse_client_certs.simps[THEN play_eq]

definition toy_key :: private_key where
  "toy_key = \<lparr>sk_Public = EC_Key True 1, sk_Sign = Some (\<lambda>coins d opts. Inl [1]), sk_Decrypt = Some (\<lambda>coins c b. Inl (replicate 48 0))\<rparr>"

definition toy_certificate :: tls_certificate where
  "toy_certificate = \<lparr>tc_Certificate = [[1]], tc_PrivateKey = toy_key, tc_OCSPStaple = [], tc_SignedCertificateTimestamps = [], tc_Leaf = None\<rparr>"

definition toy_server_config :: tls_config where
  "toy_server_config = toy_config\<lparr>cf_Certificates := [toy_certificate, toy_certificate], cf_ClientAuth := RequireAndVerifyClientCert\<rparr>"

definition toy_offer :: client_hello where
  "toy_offer = empty_client_hello\<lparr>cl_raw := Some [typeClientHello], cl_vers := VersionGMSSL, cl_random := replicate 32 1,
     cl_cipherSuites := [GMTLS_SM2_WITH_SM4_SM3], cl_compressionMethods := [compressionNone]\<rparr>"

definition toy_client_messages :: "handshake_msg list" where
  "toy_client_messages = [Client_Hello toy_offer, Certificate_Msg \<lparr>cert_raw = Some [typeCertificate], cert_certificates = [[3]]\<rparr>,
     Client_Key_Exchange \<lparr>op_raw = Some [typeClientKeyExchange], op_data = [0, 1, 7]\<rparr>,
     Certificate_Verify \<lparr>cv_raw = Some [typeCertificateVerify], cv_hasSignatureAndHash = False, cv_signatureAlgorithm = 0, cv_signature = [1]\<rparr>,
     Finished \<lparr>op_raw = Some [typeFinished], op_data = replicate 12 0\<rparr>]"

lemma toy_versions: "\<not> VersionTLS12 < VersionGMSSL" "VersionGMSSL < VersionTLS12" "VersionGMSSL \<noteq> VersionTLS12"
  by code_simp+

lemma toy_flags: "suiteECDSA AND suiteTLS12 = 0"
  by code_simp

definition toy_answer :: server_hello where
  "toy_answer = empty_server_hello\<lparr>sv_vers := VersionGMSSL, sv_random := replicate 32 0, sv_cipherSuite := GMTLS_SM2_WITH_SM4_SM3\<rparr>"

lemmas toy_server_evals = server_first_def signature_types toy_uncipher cipherUnmarshalSM2ToPlain_def certificateVerify_marshal_def
  pickSignatureAlgorithm_def hashForClientCertificate_def verifyHandshakeSignature_def fh_Sum_def requires_client_def go_fill_def
  pack24_def pack16_def certificateRequestGM_marshal_def toy_server_config_def toy_offer_def toy_certificate_def toy_key_def
  clientHello_marshal_def client_auth mutualVersion_def config_minVersion_def config_maxVersion_def minVersion_def maxVersion_def
  serverInit_def checkForResumption_def toy_versions setCipherSuite_def TLS_FALLBACK_SCSV_def toy_flags

lemma toy_server_run:
  "\<exists>es hs. play (serverHandshakeGM zero_hashes toy_primitives toy_pki sample_crypto None toy_server_config new_peer) toy_client_messages
       = (es, [], Some (Inl hs)) \<and> \<not> pc_didResume (sh_conn hs) \<and> requires_client hs"
proof -
  obtain b c where b: "serverHello_marshal toy_answer = Some (b, c)"
    using serverHello_marshal_exact[of toy_answer] by (auto simp: toy_answer_def empty_server_hello_def)
  show ?thesis
    by (insert b, simp add: toy_client_messages_def toy_answer_def plays toy_evals toy_server_evals
        del: serverHello_marshal_def cong: play_congs)
qed

theorem gm_server_authenticates_witness:
  "\<exists>es hs pre fin mid b m. replay es (serverHandshakeGM zero_hashes toy_primitives toy_pki sample_crypto None toy_server_config new_peer) = Some (Inl hs)
     \<and> es = pre @ Got (Inl (Some (Finished fin))) # mid @ [Wrote recordTypeHandshake b None, Flushed None, Completed]
     \<and> op_data fin = gm_finished zero_hashes clientFinishedLabel (sh_masterSecret hs) (transcript pre)
     \<and> finished_marshal \<lparr>op_raw = None, op_data = gm_finished zero_hashes serverFinishedLabel (sh_masterSecret hs)
         (transcript (pre @ Got (Inl (Some (Finished fin))) # mid))\<rparr> = Some (b, m)
     \<and> requires_client hs \<and> client_proved zero_hashes toy_pki [] pre hs"
proof -
  obtain es hs where r: "play (serverHandshakeGM zero_hashes toy_primitives toy_pki sample_crypto None toy_server_config new_peer) toy_client_messages
       = (es, [], Some (Inl hs))" "\<not> pc_didResume (sh_conn hs)" "requires_client hs" using toy_server_run by blast
  have "replay es (serverHandshakeGM zero_hashes toy_primitives toy_pki sample_crypto None toy_server_config new_peer) = Some (Inl hs)"
    by (rule play_replays[OF r(1)])
  from gm_server_authenticates[OF zero_hashes_ok this r(2)] this r(3) show ?thesis by blast
qed

end
