(* ===== verification/Tls_Gm_Panics.thy ===== *)
theory Tls_Gm_Panics
  imports Tls_Gm_Server_Auth
begin

text \<open>
  Where the GM server panics: what a peer can send, and the resumption of a session. The first two are runs against a
  server with the toy libraries, whose last message is still unread when the panic happens.
\<close>

lemma play_crashes: "play p ms = (es, m # ms', None) \<Longrightarrow> replay_crash es p"
  by (induction p arbitrary: ms es) (auto simp: step_def apfst_eq_iff split: list.splits)

lemma then_play_None: "then_play (es, ms, None) k = (es, ms, None)"
  by (simp add: then_play_def)

text \<open>A hello with a version between the GM one and SSL 3.0, and a key exchange of one byte.\<close>

definition odd_offer :: client_hello where
  "odd_offer = toy_offer\<lparr>cl_vers := 0x0102\<rparr>"

definition offer_then_key :: "client_hello \<Rightarrow> byte list \<Rightarrow> handshake_msg list" where
  "offer_then_key offer key = [Client_Hello offer, Certificate_Msg \<lparr>cert_raw = Some [typeCertificate], cert_certificates = [[3]]\<rparr>,
     Client_Key_Exchange \<lparr>op_raw = Some [typeClientKeyExchange], op_data = key\<rparr>, Server_Hello_Done]"

lemma odd_versions: "\<not> (258::u16) < VersionGMSSL" "\<not> VersionTLS12 < (258::u16)" "(258::u16) < VersionTLS12"
  by code_simp+

lemma odd_master: "masterFromPreMasterSecret H 258 s pre cr sr = None"
  by (rule unknown_version_panics(3)) code_simp+

lemma short_key_run:
  "\<exists>es. play (serverHandshakeGM zero_hashes toy_primitives toy_pki sample_crypto None toy_server_config new_peer) (offer_then_key toy_offer [0])
       = (es, [Server_Hello_Done], None) \<and> Got (Inl (Some (Client_Key_Exchange \<lparr>op_raw = Some [typeClientKeyExchange], op_data = [0]\<rparr>))) \<in> set es"
proof -
  obtain b c where b: "serverHello_marshal toy_answer = Some (b, c)"
    using serverHello_marshal_exact[of toy_answer] by (auto simp: toy_answer_def empty_server_hello_def)
  show ?thesis
    by (insert b, simp add: offer_then_key_def toy_answer_def plays then_play_None toy_evals toy_server_evals
        del: serverHello_marshal_def cong: play_congs)
qed

lemma odd_version_run:
  "\<exists>es. play (serverHandshakeGM zero_hashes toy_primitives toy_pki sample_crypto None toy_server_config new_peer) (offer_then_key odd_offer [0, 1, 7])
       = (es, [Server_Hello_Done], None) \<and> Got (Inl (Some (Client_Hello odd_offer))) \<in> set es"
proof -
  obtain b c where b: "serverHello_marshal (toy_answer\<lparr>sv_vers := 258\<rparr>) = Some (b, c)"
    using serverHello_marshal_exact[of "toy_answer\<lparr>sv_vers := 258\<rparr>"] by (auto simp: toy_answer_def empty_server_hello_def)
  show ?thesis
    by (insert b, simp add: offer_then_key_def odd_offer_def toy_answer_def plays then_play_None odd_versions odd_master toy_evals toy_server_evals
        del: serverHello_marshal_def cong: play_congs)
qed

lemma resumption_panics:
  "replay_crash [] (server_resume H K TC (hs\<lparr>sh_vers := VersionGMSSL, sh_suite := Some s, sh_sessionState := Some st\<rparr>))"
proof -
  obtain h where h: "newFinishedHash H VersionGMSSL s = Some h"
    by (simp add: newFinishedHash_def prfForVersion_def prfAndHashForGM_def VersionGMSSL_def VersionTLS12_def)
  show ?thesis using h
    by (simp add: server_resume_def doResumeHandshake_def the_suite_def panics_if_none_def marshalled_def server_hash_def Let_def
        plain_finished_hash_panics[OF h] split: option.split)
qed

text \<open>
  C36: The GM server panics, without an alert, in three situations. A session that resumes in the GM version
  always does, whatever the libraries, the configuration and the ticket: \<open>doResumeHandshake\<close> takes the hash of
  \<open>newFinishedHash\<close>, whose members for the version are not set. And it does on what a peer can send: a client
  hello whose version is 0x0102, which lies between the bounds of a default configuration but has no pseudo-random
  function, followed by a certificate and a key exchange; and a key exchange message of one byte.
\<close>
theorem gm_server_panics:
  "replay_crash [] (server_resume H K TC (hs\<lparr>sh_vers := VersionGMSSL, sh_suite := Some s, sh_sessionState := Some st\<rparr>))
   \<and> (\<exists>es. Got (Inl (Some (Client_Hello odd_offer))) \<in> set es
         \<and> replay_crash es (serverHandshakeGM zero_hashes toy_primitives toy_pki sample_crypto None toy_server_config new_peer))
   \<and> (\<exists>es. Got (Inl (Some (Client_Key_Exchange \<lparr>op_raw = Some [typeClientKeyExchange], op_data = [0]\<rparr>))) \<in> set es
         \<and> replay_crash es (serverHandshakeGM zero_hashes toy_primitives toy_pki sample_crypto None toy_server_config new_peer))"
  using resumption_panics play_crashes odd_version_run short_key_run by blast

end
