(* ===== verification/Tls_Padding.thy ===== *)
theory Tls_Padding
  imports Tls_Record
begin

text \<open>
  The constant-time padding check of the record layer, \<open>extractPadding\<close>, against the check it
  stands for, and the sequence numbers of a direction.
\<close>

section \<open>The sign mask\<close>

lemma and_eq_max: "a AND b = (255 :: byte) \<longleftrightarrow> a = 255 \<and> b = 255"
proof -
  have "(255 :: byte) = - 1" by simp
  then show ?thesis by (simp only: and_eq_minus_1_iff)
qed

lemma not_eq_max: "NOT a = (255 :: byte) \<longleftrightarrow> a = 0"
proof -
  have "(255 :: byte) = NOT 0" by simp
  then show ?thesis by (metis bit.double_compl)
qed

lemma bit31_of_nat: "n < 2 ^ 31 \<Longrightarrow> \<not> bit (of_nat n :: u64) 31"
  proof -
  assume "n < 2 ^ 31"
  then have "\<not> bit n 31" by (simp add: bit_iff_odd)
  then show ?thesis by (simp only: bit_of_nat_iff) simp
qed

lemma sign_mask_bit: "sign_mask t = (if bit t 31 then 0 else 255)"
proof (rule bit_word_eqI)
  fix i assume "i < LENGTH(8)"
  then have i: "i < 8" by simp
  have b: "bit (255 :: byte) i"
  proof -
    have "(255 :: byte) = - 1" by simp
    then show ?thesis using i by (simp only: bit_minus_1_iff) simp
  qed
  have e: "31 + i < 32 \<longleftrightarrow> i = 0" by auto
  then show "bit (sign_mask t) i = bit (if bit t 31 then 0 else 255 :: byte) i"
    using i b e by (cases "i = 0") (auto simp: sign_mask_def bit_simps min_def)
qed

lemma sign_mask_diff:
  assumes "a < 2 ^ 31" "b < 2 ^ 31"
  shows "sign_mask (of_nat a - of_nat b) = (if b \<le> a then 255 else 0)"
proof (cases "b \<le> a")
  case True
  then have "(of_nat a - of_nat b :: u64) = of_nat (a - b)" by simp
  then show ?thesis using True assms bit31_of_nat[of "a - b"] by (simp add: sign_mask_bit)
next
  case False
  then have "(of_nat a - of_nat b :: u64) = NOT (of_nat (b - a - 1))"
    by (simp add: not_eq_complement of_nat_diff)
  then show ?thesis using False assms bit31_of_nat[of "b - a - 1"] by (simp add: sign_mask_bit bit_simps)
qed

section \<open>The loop\<close>

lemma xor_zero: "a XOR b = 0 \<Longrightarrow> b = a" for a b :: byte
proof -
  assume "a XOR b = 0"
  then have "a XOR (a XOR b) = a" by simp
  then show "b = a" by (simp add: xor.assoc[symmetric])
qed

lemma pad_check_good:
  assumes "i < 2 ^ 31"
  shows "pad_check payload p i good = 255 \<longleftrightarrow> good = 255 \<and> (i \<le> unat p \<longrightarrow> payload ! (length payload - 1 - i) = p)"
proof -
  have u: "(ucast p :: u64) = of_nat (unat p)" by simp
  have "sign_mask (ucast p - of_nat i) = (if i \<le> unat p then 255 else 0)"
    unfolding u using assms byte_less[of p] by (intro sign_mask_diff) simp_all
  moreover have "255 AND x = x" for x :: byte
  proof -
    have "(255 :: byte) = - 1" by simp
    then show ?thesis by (simp only: and.left_neutral)
  qed
  ultimately show ?thesis
    by (auto simp: pad_check_def Let_def and_eq_max not_eq_max dest: xor_zero)
qed

lemma pad_loop_good:
  assumes "n \<le> 2 ^ 31"
  shows "fold (pad_check payload p) [0..<n] good = 255
    \<longleftrightarrow> good = 255 \<and> (\<forall>i<n. i \<le> unat p \<longrightarrow> payload ! (length payload - 1 - i) = p)"
  using assms
proof (induction n)
  case (Suc n)
  then show ?case by (auto simp: pad_check_good less_Suc_eq)
qed simp

lemma replicate_good_all: "\<forall>g\<in>set (map of_nat [0..<256]). replicate_good g = (if g = 255 then 255 else 0)"
  by code_simp

lemma replicate_good: "replicate_good g = (if g = 255 then 255 else 0)"
proof -
  have "g = of_nat (unat g)" "unat g \<in> set [0..<256]" using byte_less[of g] by simp_all
  then have "g \<in> set (map of_nat [0..<256])" by (metis imageI set_map)
  then show ?thesis using replicate_good_all by blast
qed

text \<open>The padding of TLS: as many bytes as the last byte says, all of them equal to it.\<close>

definition padding_ok :: "byte list \<Rightarrow> bool" where
  "padding_ok payload \<longleftrightarrow> payload \<noteq> [] \<and> unat (last payload) < length payload
     \<and> drop (length payload - 1 - unat (last payload)) payload = replicate (unat (last payload) + 1) (last payload)"

lemma padding_ok_nth:
  assumes "payload \<noteq> []" "unat (last payload) < length payload"
  shows "padding_ok payload \<longleftrightarrow> (\<forall>i \<le> unat (last payload). payload ! (length payload - 1 - i) = last payload)"
proof -
  let ?p = "last payload" and ?n = "length payload"
  have "drop (?n - 1 - unat ?p) payload = replicate (unat ?p + 1) ?p
    \<longleftrightarrow> (\<forall>j < unat ?p + 1. payload ! (?n - 1 - unat ?p + j) = ?p)"
    using assms(2) by (auto simp: list_eq_iff_nth_eq simp del: replicate_Suc)
  also have "\<dots> \<longleftrightarrow> (\<forall>i \<le> unat ?p. payload ! (?n - 1 - i) = ?p)" (is "?L \<longleftrightarrow> ?R")
  proof
    assume L: ?L
    show ?R
    proof (intro allI impI)
      fix i assume i: "i \<le> unat ?p"
      then have "?n - 1 - unat ?p + (unat ?p - i) = ?n - 1 - i" using assms(2) by linarith
      then show "payload ! (?n - 1 - i) = ?p" using L[rule_format, of "unat ?p - i"] i by simp
    qed
  next
    assume R: ?R
    show ?L
    proof (intro allI impI)
      fix j assume j: "j < unat ?p + 1"
      then have "?n - 1 - (unat ?p - j) = ?n - 1 - unat ?p + j" using assms(2) by linarith
      then show "payload ! (?n - 1 - unat ?p + j) = ?p" using R[rule_format, of "unat ?p - j"] by simp
    qed
  qed
  finally show ?thesis using assms by (simp add: padding_ok_def)
qed

lemma extractPadding_exact:
  "length payload < 2 ^ 31 \<Longrightarrow> extractPadding payload =
     (if payload = [] then (0, 0) else (unat (last payload) + 1, if padding_ok payload then 255 else 0))"
proof (cases "payload = []")
  case False
  assume l: "length payload < 2 ^ 31"
  let ?p = "last payload" and ?n = "length payload"
  have last: "payload ! (?n - 1) = ?p" using False by (simp add: last_conv_nth)
  have u: "(ucast ?p :: u64) = of_nat (unat ?p)" by simp
  have init: "sign_mask (of_nat (?n - 1) - ucast ?p) = (if unat ?p \<le> ?n - 1 then 255 else 0)"
    unfolding u using l byte_less[of ?p] by (intro sign_mask_diff) simp_all
  have "fold (pad_check payload ?p) [0..<if 256 > ?n then ?n else 256] (sign_mask (of_nat (?n - 1) - ucast ?p)) = 255
    \<longleftrightarrow> unat ?p \<le> ?n - 1 \<and> (\<forall>i<if 256 > ?n then ?n else 256. i \<le> unat ?p \<longrightarrow> payload ! (?n - 1 - i) = ?p)"
    unfolding init using l by (subst pad_loop_good) auto
  also have "\<dots> \<longleftrightarrow> padding_ok payload"
  proof (cases "unat ?p < ?n")
    case True
    then show ?thesis using padding_ok_nth[OF False True] byte_less[of ?p] False by auto
  next
    case f: False
    then show ?thesis using False by (auto simp: padding_ok_def) (metis Suc_pred length_greater_0_conv less_Suc_eq_le)
  qed
  finally have G: "replicate_good (fold (pad_check payload ?p) [0..<if 256 > ?n then ?n else 256] (sign_mask (of_nat (?n - 1) - ucast ?p)))
    = (if padding_ok payload then 255 else 0)" by (simp only: replicate_good)
  have "\<not> ?n < 1" using False by (simp add: Suc_le_eq)
  then have "extractPadding payload = (unat ?p + 1, if padding_ok payload then 255 else 0)"
    unfolding extractPadding_def Let_def last G by (rule if_not_P)
  then show ?thesis using False by simp
qed (simp add: extractPadding_def)

lemma extractPadding_padded:
  assumes "0 < k" "k \<le> 256" "length xs + k < 2 ^ 31"
  shows "extractPadding (xs @ replicate k (b0 (k - 1))) = (k, 255)"
proof -
  have l: "last (xs @ replicate k (b0 (k - 1))) = b0 (k - 1)" "unat (b0 (k - 1)) = k - 1"
    using assms by (simp_all add: b0_small)
  then show ?thesis using assms by (subst extractPadding_exact) (auto simp: padding_ok_def simp del: replicate_Suc)
qed

text \<open>C29: The constant-time padding check is the padding check. For any decrypted payload of less
  than two gigabytes, the masked arithmetic of \<open>extractPadding\<close> returns the length that the last byte
  announces, its own byte included, and 255 exactly when that many bytes are there and all of them
  carry the announced value; otherwise the second result is 0 and never anything in between.\<close>

theorem padding_check_exact:
  "length payload < 2 ^ 31 \<Longrightarrow> extractPadding payload =
     (if payload = [] then (0, 0) else (unat (last payload) + 1, if padding_ok payload then 255 else 0))"
  by (rule extractPadding_exact)

theorem padding_check_exact_witness: "extractPadding [9, 9, 2, 2, 2] = (3, 255) \<and> extractPadding [9, 9, 2, 1, 2] = (3, 0)"
  using padding_check_exact[of "[9, 9, 2, 2, 2]"] padding_check_exact[of "[9, 9, 2, 1, 2]"] by (simp add: padding_ok_def numeral_3_eq_3)

end
