(* ===== verification/Tls_Protection.thy ===== *)
theory Tls_Protection
  imports Tls_Padding
begin

text \<open>
  What the two ends of a direction owe each other: records that one end seals are opened by the other
  (\<open>ends_in_sync\<close> is kept by every record), and nothing else is accepted under a MAC or an AEAD.
\<close>

section \<open>Sequence numbers\<close>

definition seq_val :: "byte list \<Rightarrow> nat" where
  "seq_val s = foldl (\<lambda>a b. a * 256 + unat b) 0 s"

lemma seq_val_snoc [simp]: "seq_val (s @ [b]) = seq_val s * 256 + unat b" "seq_val [] = 0"
  by (simp_all add: seq_val_def)

lemma unat_inc: "unat (b + 1) = (if b + 1 = 0 then 0 else unat b + 1)" for b :: byte
  using unatSuc[of b] by (simp add: add.commute)

lemma inc_zero: "b + 1 = 0 \<Longrightarrow> unat b = 255" for b :: byte
proof -
  assume "b + 1 = 0"
  then have "b = - 1" by (simp add: add_eq_0_iff2)
  then show ?thesis by (simp add: unsigned_minus_1_eq_mask mask_eq_exp_minus_1)
qed

lemma incSeq_loop_facts:
  assumes "i \<le> length s"
  shows "case incSeq_loop i s of None \<Rightarrow> seq_val (take i s) + 1 = 256 ^ i
    | Some s' \<Rightarrow> seq_val (take i s') = seq_val (take i s) + 1 \<and> drop i s' = drop i s \<and> length s' = length s"
  using assms
proof (induction i arbitrary: s)
  case (Suc i)
  let ?s = "s[i := s ! i + 1]"
  have t: "take (Suc i) s = take i s @ [s ! i]" "take (Suc i) ?s = take i s @ [s ! i + 1]"
    using Suc.prems by (simp_all add: take_Suc_conv_app_nth)
  show ?case
  proof (cases "s ! i + 1 = 0")
    case False
    then show ?thesis using Suc.prems t by (simp add: unat_inc)
  next
    case True
    have n: "incSeq_loop (Suc i) s = incSeq_loop i ?s" using True Suc.prems by simp
    have len: "i \<le> length ?s" using Suc.prems by simp
    show ?thesis
    proof (cases "incSeq_loop i ?s")
      case None
      then have "seq_val (take i s) + 1 = 256 ^ i" using Suc.IH[OF len] by simp
      then show ?thesis using n None t inc_zero[OF True] by simp
    next
      case (Some s')
      then have s': "seq_val (take i s') = seq_val (take i s) + 1" "drop i s' = drop i ?s" "length s' = length s"
        using Suc.IH[OF len] by simp_all
      have "s' ! i = 0"
        using s'(2,3) Suc.prems True by (metis Cons_nth_drop_Suc Suc_le_lessD list.inject nth_list_update_eq length_list_update)
      moreover have "take (Suc i) s' = take i s' @ [s' ! i]" using s'(3) Suc.prems by (simp add: take_Suc_conv_app_nth)
      moreover have "drop (Suc i) s' = drop (Suc i) s"
        using s'(2) Suc.prems by (metis drop_Suc_Cons Cons_nth_drop_Suc Suc_le_lessD drop_update_cancel lessI length_list_update tl_drop drop_Suc)
      ultimately show ?thesis using n Some t s' inc_zero[OF True] by simp
    qed
  qed
qed simp

lemma seq_val_less: "seq_val s < 256 ^ length s"
proof (induction s rule: rev_induct)
  case (snoc b s)
  then have "seq_val s * 256 + unat b < (seq_val s + 1) * 256" using byte_less[of b] by simp
  also have "\<dots> \<le> 256 ^ length s * 256" using snoc by (intro mult_right_mono) simp_all
  finally show ?case by simp
qed simp

lemma incSeq_Some:
  assumes "length (hc_seq hc) = 8" "seq_val (hc_seq hc) + 1 < 256 ^ 8"
  obtains s where "incSeq_loop 8 (hc_seq hc) = Some s" "incSeq hc = Some (hc\<lparr>hc_seq := s\<rparr>)" "length s = 8" "seq_val s = seq_val (hc_seq hc) + 1"
  using incSeq_loop_facts[of 8 "hc_seq hc"] assms that by (auto simp: incSeq_def split: option.splits)

lemma incSeq_iff:
  assumes l: "length (hc_seq hc) = 8"
  shows "incSeq hc = None \<longleftrightarrow> seq_val (hc_seq hc) + 1 = 256 ^ 8"
proof (cases "incSeq_loop 8 (hc_seq hc)")
  case None
  then show ?thesis using incSeq_loop_facts[of 8 "hc_seq hc"] l by (simp add: incSeq_def)
next
  case (Some s)
  then have "seq_val s = seq_val (hc_seq hc) + 1" "length s = 8"
    using incSeq_loop_facts[of 8 "hc_seq hc"] l by auto
  then have "seq_val (hc_seq hc) + 1 < 256 ^ 8" using seq_val_less[of s] by simp
  then show ?thesis using Some by (simp add: incSeq_def)
qed

section \<open>Two ends\<close>

text \<open>
  What the code relies on from the packages it calls: a block function and its inverse on blocks
  (\<^verbatim>\<open>crypto/cipher\<close>), an AEAD that opens what it sealed, a digest of the announced size.
\<close>

definition block_pair :: "(byte list \<Rightarrow> byte list) \<Rightarrow> (byte list \<Rightarrow> byte list) \<Rightarrow> nat \<Rightarrow> bool" where
  "block_pair f g bs \<longleftrightarrow> (\<forall>b. length b = bs \<longrightarrow> length (f b) = bs \<and> g (f b) = b)"

definition aead_ok :: "aead_prim \<Rightarrow> bool" where
  "aead_ok a \<longleftrightarrow> ap_overhead a \<le> 255 \<and> (\<forall>n p ad. length n = 12 \<longrightarrow> ap_open a n (ap_seal a n p ad) ad = Some p
     \<and> length (ap_seal a n p ad) = length p + ap_overhead a)"

definition mac_ok :: "mac option \<Rightarrow> bool" where
  "mac_ok mo \<longleftrightarrow> (\<forall>m. mo = Some m \<longrightarrow> mac_Size m \<le> 64 \<and> (\<forall>s h d. length (mac_MAC m s h d) = mac_Size m))"

fun cipher_ends :: "cipher option \<Rightarrow> cipher option \<Rightarrow> bool" where
  "cipher_ends None None = True"
| "cipher_ends (Some (Stream_Cipher ks pos)) (Some (Stream_Cipher ks' pos')) = (ks = ks' \<and> pos = pos')"
| "cipher_ends (Some (CBC_Encrypter f bs iv)) (Some (CBC_Decrypter g bs' iv')) =
     (bs = bs' \<and> iv = iv' \<and> length iv = bs \<and> 0 < bs \<and> bs \<le> 256 \<and> block_pair f g bs)"
| "cipher_ends (Some (fixedNonceAEAD x a)) (Some (fixedNonceAEAD y b)) =
     (a = b \<and> length x = 12 \<and> length y = 12 \<and> take 4 x = take 4 y \<and> aead_ok a)"
| "cipher_ends (Some (xorNonceAEAD x a)) (Some (xorNonceAEAD y b)) = (a = b \<and> x = y \<and> length x = 12 \<and> aead_ok a)"
| "cipher_ends _ _ = False"

fun is_cbc :: "cipher option \<Rightarrow> bool" where
  "is_cbc (Some (CBC_Encrypter _ _ _)) = True"
| "is_cbc _ = False"

text \<open>A suite in CBC mode has a MAC, as every one in the tables of the code.\<close>

definition ends_in_sync :: "half_conn \<Rightarrow> half_conn \<Rightarrow> bool" where
  "ends_in_sync s r \<longleftrightarrow> hc_version s = hc_version r \<and> hc_mac s = hc_mac r \<and> hc_seq s = hc_seq r \<and> length (hc_seq s) = 8
     \<and> mac_ok (hc_mac s) \<and> cipher_ends (hc_cipher s) (hc_cipher r)
     \<and> (hc_mac s = None \<longrightarrow> \<not> is_cbc (hc_cipher s))"

lemma xor_bytes_cancel [simp]: "length xs \<le> length ys \<Longrightarrow> xor_bytes (xor_bytes xs ys) ys = xs"
  by (auto simp: xor_bytes_def list_eq_iff_nth_eq xor.assoc)

lemma length_xor_bytes [simp]: "length (xor_bytes xs ys) = min (length xs) (length ys)"
  by (simp add: xor_bytes_def)

lemma cbc_round:
  assumes "block_pair f g bs" "length iv = bs" "length xs = n * bs"
  shows "\<exists>ys iv'. cbc_encrypt f bs n iv xs = (ys, iv') \<and> length ys = n * bs \<and> length iv' = bs
    \<and> cbc_decrypt g bs n iv ys = (xs, iv')"
  using assms(2,3)
proof (induction n arbitrary: iv xs)
  case (Suc n)
  let ?c = "f (xor_bytes (take bs xs) iv)"
  have c: "length ?c = bs" "g ?c = xor_bytes (take bs xs) iv"
    using assms(1) Suc.prems by (simp_all add: block_pair_def)
  obtain ys iv' where ih: "cbc_encrypt f bs n ?c (drop bs xs) = (ys, iv')" "length ys = n * bs" "length iv' = bs"
    "cbc_decrypt g bs n ?c ys = (drop bs xs, iv')" using Suc.IH[of ?c "drop bs xs"] c Suc.prems by auto
  have "xor_bytes (g ?c) iv = take bs xs" using c(2) Suc.prems by simp
  then show ?case using ih c(1) by (simp add: Let_def)
qed simp

lemma cbc_encrypt_append:
  assumes "length xs = m * bs"
  shows "cbc_encrypt f bs (m + n) iv (xs @ zs) = (let (a, v) = cbc_encrypt f bs m iv xs; (b, w) = cbc_encrypt f bs n v zs in (a @ b, w))"
  using assms by (induction m arbitrary: iv xs) (simp_all add: Let_def split: prod.splits)

lemma padToBlockSize_facts:
  assumes "0 < bs" "bs \<le> 256"
  obtains k where "0 < k" "k \<le> bs" "fst (padToBlockSize x bs) @ snd (padToBlockSize x bs) = x @ replicate k (b0 (k - 1))"
    "length (fst (padToBlockSize x bs)) mod bs = 0" "length (snd (padToBlockSize x bs)) = bs"
proof -
  define m where "m = length x mod bs"
  have "m < bs" "m \<le> length x" "(length x - m) mod bs = 0"
    using assms by (simp_all add: m_def minus_mod_eq_mult_div)
  then show ?thesis
    by (intro that[of "bs - m"]) (auto simp: padToBlockSize_def Let_def min_def m_def[symmetric])
qed

section \<open>One record\<close>

lemma set_length_nth: "set_length n (a # b # c # d # e # r) = a # b # c # word_of_int (n div 2 ^ 8) # word_of_int n # r"
  by (simp add: set_length_def)

lemma header_cases:
  assumes "length h = 5"
  obtains a b c d e where "h = [a, b, c, d, e]"
  using assms by (auto simp: length_Suc_conv numeral_eq_Suc)

lemma multiple_roundUp:
  assumes "L mod bs = 0" "a \<le> L" "0 < bs"
  shows "roundUp a bs \<le> L"
proof (cases "a mod bs = 0")
  case False
  let ?q = "a div bs"
  have a: "a = ?q * bs + a mod bs" by simp
  then have "?q * bs < L" using False assms(2) by linarith
  moreover have L: "L = (L div bs) * bs" using assms(1) by auto
  ultimately have "?q * bs < (L div bs) * bs" by simp
  then have "?q + 1 \<le> L div bs" by simp
  then have "(?q + 1) * bs \<le> L" using L by (metis mult_le_mono1)
  moreover have "bs - a mod bs < bs" using False assms(3) by simp
  moreover have "a + (bs - a mod bs) = ?q * bs + bs"
    using a mod_less_divisor[OF assms(3), of a] by linarith
  ultimately show ?thesis by (simp add: roundUp_def)
qed (use assms in \<open>simp add: roundUp_def\<close>)

text \<open>What the receiver recovers from a sealed payload \<open>x\<close> behind any header with the same type and version.\<close>

definition opens_to :: "half_conn \<Rightarrow> half_conn \<Rightarrow> byte list \<Rightarrow> byte list \<Rightarrow> byte list \<Rightarrow> byte list \<Rightarrow> cipher option \<Rightarrow> bool" where
  "opens_to s r hdr iv ct x c \<longleftrightarrow>
     (\<forall>hdr'. length hdr' = 5 \<and> take 3 hdr' = take 3 hdr \<longrightarrow>
       (\<exists>pad d. length pad \<le> 256 \<and> (pad = [] \<or> is_cbc (hc_cipher s)) \<and> is_cbc c = is_cbc (hc_cipher s) \<and> cipher_ends c d \<and> open_payload r (hdr' @ iv @ ct) =
          Some (Inr (\<lparr>od_payload = x @ pad, od_data = hdr' @ iv @ x @ pad, od_explicitIVLen = length iv,
                      od_paddingLen = length pad, od_paddingGood = 255\<rparr>, r\<lparr>hc_cipher := d\<rparr>))))"

lemma opens_toI:
  assumes "\<And>hdr'. length hdr' = 5 \<Longrightarrow> take 3 hdr' = take 3 hdr \<Longrightarrow> open_payload r (hdr' @ iv @ ct) =
          Some (Inr (\<lparr>od_payload = x @ pad, od_data = hdr' @ iv @ x @ pad, od_explicitIVLen = length iv,
                      od_paddingLen = length pad, od_paddingGood = 255\<rparr>, r\<lparr>hc_cipher := d\<rparr>))"
    "length pad \<le> 256" "pad = [] \<or> is_cbc (hc_cipher s)" "is_cbc c = is_cbc (hc_cipher s)" "cipher_ends c d"
  shows "opens_to s r hdr iv ct x c"
  using assms unfolding opens_to_def by blast

definition seals_well :: "half_conn \<Rightarrow> half_conn \<Rightarrow> byte list \<Rightarrow> byte list \<Rightarrow> byte list \<Rightarrow> bool" where
  "seals_well s r hdr iv x \<longleftrightarrow> (\<exists>ct c. seal_payload s (length iv) (hdr @ iv @ x) = Some (hdr @ iv @ ct, s\<lparr>hc_cipher := c\<rparr>)
     \<and> length ct \<le> length x + 256 \<and> opens_to s r hdr iv ct x c)"

lemma seal_none:
  assumes "hc_cipher s = None" "hc_cipher r = None" "length hdr = 5"
  shows "seals_well s r hdr [] x"
  unfolding seals_well_def using assms
  by (intro exI[of _ x] exI[of _ "hc_cipher s"] conjI opens_toI[where pad = "[]" and d = "hc_cipher r"])
     (simp_all add: seal_payload_def open_payload_def recordHeaderLen_def)

lemma length_XORKeyStream [simp]: "length (XORKeyStream ks pos x) = length x"
  by (simp add: XORKeyStream_def)

lemma XORKeyStream_cancel [simp]: "XORKeyStream ks pos (XORKeyStream ks pos x) = x"
  by (simp add: XORKeyStream_def)

lemma seal_stream:
  assumes "hc_cipher s = Some (Stream_Cipher ks pos)" "hc_cipher r = Some (Stream_Cipher ks pos)" "length hdr = 5"
  shows "seals_well s r hdr [] x"
  unfolding seals_well_def using assms
  by (intro exI[of _ "XORKeyStream ks pos x"] exI[of _ "Some (Stream_Cipher ks (pos + length x))"] conjI
        opens_toI[where pad = "[]" and d = "Some (Stream_Cipher ks (pos + length x))"])
     (simp_all add: seal_payload_def open_payload_def recordHeaderLen_def Let_def)

text \<open>The nonces of both AEAD wrappers on both ends.\<close>

lemma fixed_nonce: "length x = 12 \<Longrightarrow> length n = 8 \<Longrightarrow> go_copy x 4 n = take 4 x @ n"
  by (simp add: go_copy_def)

lemma xor_into_cancel:
  assumes "length m = 12" "length n = 8"
  shows "length (xor_into m n) = 12" "xor_into (xor_into m n) n = m"
  using assms by (simp_all add: xor_into_def go_copy_def)

lemma additional_data_header: "take 3 h = take 3 h' \<Longrightarrow> length h = 5 \<Longrightarrow> length h' = 5 \<Longrightarrow> additional_data q (h @ u) n = additional_data q (h' @ v) n"
  by (simp add: additional_data_def)

lemma seal_fixed:
  assumes c: "hc_cipher s = Some (fixedNonceAEAD x a)" "hc_cipher r = Some (fixedNonceAEAD y a)"
    "cipher_ends (hc_cipher s) (hc_cipher r)" "hc_seq s = hc_seq r" "length hdr = 5" "length iv = 8"
  shows "seals_well s r hdr iv p"
proof -
  let ?n = "take 4 x @ iv" and ?ad = "\<lambda>h. additional_data (hc_seq s) (h @ iv @ p) (int (length p))"
  let ?ct = "ap_seal a ?n p (?ad hdr)"
  have xy: "length x = 12" "length y = 12" "take 4 x = take 4 y" "aead_ok a" using c by simp_all
  have ct: "length ?ct = length p + ap_overhead a" "ap_open a ?n ?ct (?ad hdr) = Some p" "ap_overhead a \<le> 255"
    using xy c by (simp_all add: aead_ok_def)
  have "open_payload r (hdr' @ iv @ ?ct) =
      Some (Inr (\<lparr>od_payload = p @ [], od_data = hdr' @ iv @ p @ [], od_explicitIVLen = length iv,
                  od_paddingLen = length [], od_paddingGood = 255\<rparr>, r\<lparr>hc_cipher := Some (fixedNonceAEAD (take 4 y @ iv) a)\<rparr>))"
    if h: "length hdr' = 5" "take 3 hdr' = take 3 hdr" for hdr'
  proof -
    have "additional_data (hc_seq r) (hdr' @ iv @ ?ct) (int (length ?ct) - int (ap_overhead a)) = ?ad hdr"
      using additional_data_header[OF h(2,1) c(5)] ct(1) c(4) by simp
    moreover have "iv \<noteq> []" using c by auto
    ultimately show ?thesis using c xy ct h
      by (simp add: open_payload_def open_aead_def recordHeaderLen_def Let_def fixed_nonce)
  qed
  then have "opens_to s r hdr iv ?ct p (Some (fixedNonceAEAD ?n a))"
    using xy c by (intro opens_toI[where pad = "[]" and d = "Some (fixedNonceAEAD (take 4 y @ iv) a)"]) simp_all
  moreover have "seal_payload s (length iv) (hdr @ iv @ p) = Some (hdr @ iv @ ?ct, s\<lparr>hc_cipher := Some (fixedNonceAEAD ?n a)\<rparr>)"
    using c xy by (auto simp: seal_payload_def seal_aead_def recordHeaderLen_def Let_def fixed_nonce)
  ultimately show ?thesis unfolding seals_well_def using ct by (intro exI conjI) simp_all
qed

lemma seal_xor:
  assumes c: "hc_cipher s = Some (xorNonceAEAD x a)" "hc_cipher r = Some (xorNonceAEAD x a)"
    "cipher_ends (hc_cipher s) (hc_cipher r)" "hc_seq s = hc_seq r" "length hdr = 5" "length (hc_seq s) = 8"
  shows "seals_well s r hdr [] p"
proof -
  let ?n = "xor_into x (hc_seq r)" and ?ad = "\<lambda>h. additional_data (hc_seq r) (h @ p) (int (length p))"
  let ?ct = "ap_seal a ?n p (?ad hdr)"
  have xy: "length x = 12" "aead_ok a" using c by simp_all
  then have n: "length ?n = 12" "xor_into ?n (hc_seq r) = x" using xor_into_cancel[of x "hc_seq r"] c by simp_all
  have ne: "hc_seq r \<noteq> []" using c by auto
  have ct: "length ?ct = length p + ap_overhead a" "ap_open a ?n ?ct (?ad hdr) = Some p" "ap_overhead a \<le> 255"
    using xy n by (simp_all add: aead_ok_def)
  have "open_payload r (hdr' @ [] @ ?ct) =
      Some (Inr (\<lparr>od_payload = p @ [], od_data = hdr' @ [] @ p @ [], od_explicitIVLen = length ([] :: byte list),
                  od_paddingLen = length ([] :: byte list), od_paddingGood = 255\<rparr>, r\<lparr>hc_cipher := Some (xorNonceAEAD x a)\<rparr>))"
    if h: "length hdr' = 5" "take 3 hdr' = take 3 hdr" for hdr'
  proof -
    have "additional_data (hc_seq r) (hdr' @ ?ct) (int (length ?ct) - int (ap_overhead a)) = ?ad hdr"
      using additional_data_header[OF h(2,1) c(5)] ct(1) by simp
    then show ?thesis using c xy ct h n ne
      by (simp add: open_payload_def open_aead_def recordHeaderLen_def Let_def)
  qed
  then have "opens_to s r hdr [] ?ct p (Some (xorNonceAEAD x a))"
    using xy c by (intro opens_toI[where pad = "[]" and d = "Some (xorNonceAEAD x a)"]) simp_all
  moreover have "seal_payload s 0 (hdr @ p) = Some (hdr @ ?ct, s\<lparr>hc_cipher := Some (xorNonceAEAD x a)\<rparr>)"
    using c n ne by (simp add: seal_payload_def seal_aead_def recordHeaderLen_def Let_def)
  ultimately show ?thesis unfolding seals_well_def using ct by (intro exI[of _ ?ct] exI conjI) simp_all
qed

text \<open>CBC: one run over prefix and final block, on the chaining value that the explicit vector sets.\<close>

lemma seal_cbc_run:
  assumes b: "block_pair f g bs" "length v = bs" "0 < bs" "bs \<le> 256"
  obtains k ct w where "0 < k" "k \<le> bs" "length ct = length x + k" "length ct mod bs = 0" "length w = bs"
    "(case padToBlockSize x bs of (prefix, final) \<Rightarrow> do {
         (p, c2) \<leftarrow> CryptBlocks (CBC_Encrypter f bs v) prefix; (q, c3) \<leftarrow> CryptBlocks c2 final; Some (p @ q, c3) })
       = Some (ct, CBC_Encrypter f bs w)"
    "CryptBlocks (CBC_Decrypter g bs v) ct = Some (x @ replicate k (b0 (k - 1)), CBC_Decrypter g bs w)"
proof -
  obtain prefix final where pf: "padToBlockSize x bs = (prefix, final)" by fastforce
  obtain k where k: "0 < k" "k \<le> bs" "prefix @ final = x @ replicate k (b0 (k - 1))" "length prefix mod bs = 0" "length final = bs"
    using padToBlockSize_facts[OF b(3,4), of x] pf by auto
  define m where "m = length prefix div bs"
  have m: "length prefix = m * bs" "length (prefix @ final) = (m + 1) * bs" using k(4,5) by (auto simp: m_def)
  obtain ct w where e: "cbc_encrypt f bs (m + 1) v (prefix @ final) = (ct, w)" "length ct = (m + 1) * bs" "length w = bs"
    "cbc_decrypt g bs (m + 1) v ct = (prefix @ final, w)" using cbc_round[OF b(1,2) m(2)] by blast
  obtain p u q w' where pq: "cbc_encrypt f bs m v prefix = (p, u)" "cbc_encrypt f bs 1 u final = (q, w')" by fastforce
  then have ct: "ct = p @ q" "w = w'" using cbc_encrypt_append[OF m(1), of f 1 v final] e(1) by simp_all
  have "length ct = length x + k" using m(2) e(2) k(3) by (metis length_append length_replicate)
  moreover have "CryptBlocks (CBC_Encrypter f bs v) prefix = Some (p, CBC_Encrypter f bs u)"
    using pq m(1) b(3) by simp
  moreover have "CryptBlocks (CBC_Encrypter f bs u) final = Some (q, CBC_Encrypter f bs w')" using pq k(5) b(3) by simp
  moreover have "CryptBlocks (CBC_Decrypter g bs v) ct = Some (prefix @ final, CBC_Decrypter g bs w)" using e b(3) by simp
  ultimately show ?thesis using k e(2,3) ct pf by (intro that[of k ct w]) simp_all
qed

lemma seal_cbc_well:
  assumes c: "hc_cipher s = Some (CBC_Encrypter f bs v)" "hc_cipher r = Some (CBC_Decrypter g bs v)"
    "cipher_ends (hc_cipher s) (hc_cipher r)" "hc_version s = hc_version r" "length hdr = 5" "length iv = fst (explicit_iv s)"
    "mac_len r \<le> length x" "length x < 2 ^ 30"
  shows "seals_well s r hdr iv x"
proof -
  have b: "block_pair f g bs" "length v = bs" "0 < bs" "bs \<le> 256" using c by simp_all
  define e where "e = (if hc_version r \<ge> VersionTLS11 \<or> hc_version r = VersionGMSSL then bs else 0)"
  have iv: "length iv = e" using c by (simp add: explicit_iv_def e_def)
  define u where "u = (if e > 0 then iv else v)"
  have u: "length u = bs" using iv b(2) by (auto simp: u_def e_def)
  have eb: "e = 0 \<or> e = bs" by (simp add: e_def)
  have set: "(if iv \<noteq> [] then SetIV iv (CBC_Encrypter f bs v) else Some (CBC_Encrypter f bs v)) = Some (CBC_Encrypter f bs u)"
    "(if iv \<noteq> [] then SetIV iv (CBC_Decrypter g bs v) else Some (CBC_Decrypter g bs v)) = Some (CBC_Decrypter g bs u)"
    using iv eb by (auto simp: u_def)
  obtain k ct w where k: "0 < k" "k \<le> bs" "length ct = length x + k" "length ct mod bs = 0"
    "length w = bs" "(case padToBlockSize x bs of (prefix, final) \<Rightarrow> do {
         (p, c2) \<leftarrow> CryptBlocks (CBC_Encrypter f bs u) prefix; (q, c3) \<leftarrow> CryptBlocks c2 final; Some (p @ q, c3) })
       = Some (ct, CBC_Encrypter f bs w)"
    "CryptBlocks (CBC_Decrypter g bs u) ct = Some (x @ replicate k (b0 (k - 1)), CBC_Decrypter g bs w)"
    by (rule seal_cbc_run[OF b(1) u b(3,4), of x])
  have seal: "seal_payload s (length iv) (hdr @ iv @ x) = Some (hdr @ iv @ ct, s\<lparr>hc_cipher := Some (CBC_Encrypter f bs w)\<rparr>)"
  proof -
    obtain prefix final where pf: "padToBlockSize x bs = (prefix, final)" by fastforce
    obtain p c2 where p: "CryptBlocks (CBC_Encrypter f bs u) prefix = Some (p, c2)" using k(6) pf by (cases "CryptBlocks (CBC_Encrypter f bs u) prefix") auto
    obtain q c3 where q: "CryptBlocks c2 final = Some (q, c3)" using k(6) pf p by (cases "CryptBlocks c2 final") auto
    have "p @ q = ct" "c3 = CBC_Encrypter f bs w" using k(6) pf p q by simp_all
    then show ?thesis using c(1,5) set(1) pf p q
      by (cases "iv = []") (simp_all add: seal_payload_def seal_cbc_def recordHeaderLen_def del: SetIV.simps CryptBlocks.simps)
  qed
  have lp: "length iv mod bs = 0" using iv by (simp add: e_def)
  have lm: "(length iv + length ct) mod bs = 0"
    using lp k(4) unfolding mod_eq_0_iff_dvd by (rule dvd_add)
  have "roundUp (e + mac_len r + 1) bs \<le> length iv + length ct"
    using k(1,3) c(7) iv by (intro multiple_roundUp[OF lm _ b(3)]) simp
  moreover note lm
  moreover have "extractPadding (x @ replicate k (b0 (k - 1))) = (k, 255)"
    using k b c(8) by (intro extractPadding_padded) simp_all
  moreover have "extractPaddingSSL30 (x @ replicate k (b0 (k - 1))) = (k, 255)"
  proof -
    have "(x @ replicate k (b0 (k - 1))) ! (length x + k - 1) = b0 (k - 1)" using k(1) nth_append_length_plus[of x "replicate k (b0 (k - 1))" "k - 1"] by simp
    moreover have "unat (b0 (k - 1)) = k - 1" using k b by (intro b0_small) simp
    ultimately show ?thesis using k(1) by (simp add: extractPaddingSSL30_def)
  qed
  ultimately have "open_payload r (hdr' @ iv @ ct) = Some (Inr (\<lparr>od_payload = x @ replicate k (b0 (k - 1)),
      od_data = hdr' @ iv @ x @ replicate k (b0 (k - 1)), od_explicitIVLen = length iv, od_paddingLen = length (replicate k (b0 (k - 1))),
      od_paddingGood = 255\<rparr>, r\<lparr>hc_cipher := Some (CBC_Decrypter g bs w)\<rparr>))" if "length hdr' = 5" for hdr'
    using c(2) set(2) k(7) iv[symmetric] that
    by (cases "iv = []") (simp_all add: open_payload_def open_cbc_def recordHeaderLen_def Let_def e_def[symmetric] del: SetIV.simps CryptBlocks.simps)
  then have "opens_to s r hdr iv ct x (Some (CBC_Encrypter f bs w))"
    using k b c by (intro opens_toI[where pad = "replicate k (b0 (k - 1))" and d = "Some (CBC_Decrypter g bs w)"]) simp_all
  then show ?thesis unfolding seals_well_def using seal k b by (intro exI conjI) simp_all
qed

lemma seals_well_all:
  assumes "ends_in_sync s r" "length hdr = 5" "length iv = fst (explicit_iv s)" "mac_len r \<le> length x" "length x < 2 ^ 30"
  shows "seals_well s r hdr iv x"
proof -
  have e: "cipher_ends (hc_cipher s) (hc_cipher r)" "hc_version s = hc_version r" "hc_seq s = hc_seq r" "length (hc_seq s) = 8"
    using assms(1) by (auto simp: ends_in_sync_def)
  from e(1) consider "hc_cipher s = None" "hc_cipher r = None"
    | ks pos where "hc_cipher s = Some (Stream_Cipher ks pos)" "hc_cipher r = Some (Stream_Cipher ks pos)"
    | f g bs v where "hc_cipher s = Some (CBC_Encrypter f bs v)" "hc_cipher r = Some (CBC_Decrypter g bs v)"
    | x y a where "hc_cipher s = Some (fixedNonceAEAD x a)" "hc_cipher r = Some (fixedNonceAEAD y a)"
    | x a where "hc_cipher s = Some (xorNonceAEAD x a)" "hc_cipher r = Some (xorNonceAEAD x a)"
    by (cases "(hc_cipher s, hc_cipher r)" rule: cipher_ends.cases) auto
  then show ?thesis
  proof cases
    case 1
    then show ?thesis using assms seal_none by (simp add: explicit_iv_def)
  next
    case 2
    then show ?thesis using assms seal_stream by (simp add: explicit_iv_def)
  next
    case 3
    then show ?thesis using assms e by (intro seal_cbc_well)
  next
    case 4
    then show ?thesis using assms e by (intro seal_fixed) (simp_all add: explicit_iv_def)
  next
    case 5
    then show ?thesis using assms e seal_xor[OF 5 e(1,3)] by (simp add: explicit_iv_def)
  qed
qed

lemma set_length_be16: "length h = 3 \<Longrightarrow> set_length (int n) (h @ [a, b] @ rest) = h @ be16 n @ rest"
proof -
  assume "length h = 3"
  then obtain x y z where "h = [x, y, z]" by (auto simp: length_Suc_conv numeral_eq_Suc)
  moreover have "word_of_int (int n div 2 ^ 8) = b1 n" 
  proof -
    have "int n div 2 ^ 8 = int (n div 2 ^ 8)" by (simp add: zdiv_int)
    then show ?thesis by (simp only: b1_def of_int_of_nat_eq)
  qed
  ultimately show ?thesis by (simp add: set_length_nth be16_def b0_def)
qed

lemma strip_mac_good:
  assumes m: "hc_mac hc = Some m" "length mm = mac_Size m" "mm = mac_MAC m (hc_seq hc) (h @ be16 (length p)) p"
    and l: "length h = 3" "length p + length mm + length pad < 2 ^ 31"
  shows "strip_mac hc \<lparr>od_payload = p @ mm @ pad, od_data = (h @ [a, b]) @ iv @ p @ mm @ pad, od_explicitIVLen = length iv,
           od_paddingLen = length pad, od_paddingGood = 255\<rparr> = Some (Inr (h @ be16 (length p) @ iv @ p))"
proof -
  have n: "int (length (p @ mm @ pad)) - int (mac_Size m) - int (length pad) = int (length p)" using m by simp
  have "\<not> bit (length p) 31" using l by (simp add: bit_iff_odd)
  then have b: "\<not> bit (word_of_int (int (length p)) :: u32) 31" by (simp add: bit_of_nat_iff)
  have d: "set_length (int (length p)) ((h @ [a, b]) @ iv @ p @ mm @ pad) = h @ be16 (length p) @ iv @ p @ mm @ pad"
    using set_length_be16[OF l(1), of "length p" a b] by simp
  have "go_slice (p @ mm @ pad) (int (length p)) (int (length p) + int (mac_Size m)) = Some mm"
    "go_slice (p @ mm @ pad) 0 (int (length p)) = Some p" using m by (simp_all add: go_slice_def)
  then show ?thesis using m(1,2) l(1) b m(3)[symmetric]
    by (simp add: strip_mac_def Let_def n d[simplified] recordHeaderLen_def del: go_slice_nat)
qed

lemma record_opens:
  assumes sync: "ends_in_sync s r" and seq: "seq_val (hc_seq s) + 1 < 256 ^ 8" and h: "length h = 3"
    and iv: "length iv = fst (explicit_iv s)" and p: "length p \<le> maxPlaintext"
  obtains ct s' d r' where "encrypt s (length iv) (h @ be16 (length p) @ iv @ p) = Some (h @ be16 (length ct) @ ct, s')"
    "length ct \<le> maxCiphertext" "decrypt r (h @ be16 (length ct) @ ct) = Some ((True, recordHeaderLen + length iv, 0), d, r')"
    "drop (recordHeaderLen + length iv) d = p" "ends_in_sync s' r'" "seq_val (hc_seq s') = seq_val (hc_seq s) + 1"
    "s' = s\<lparr>hc_cipher := hc_cipher s', hc_seq := hc_seq s'\<rparr>" "r' = r\<lparr>hc_cipher := hc_cipher r', hc_seq := hc_seq r'\<rparr>"
proof -
  define mm where "mm = (case hc_mac s of None \<Rightarrow> [] | Some m \<Rightarrow> mac_MAC m (hc_seq s) (h @ be16 (length p)) p)"
  have e: "hc_version s = hc_version r" "hc_mac s = hc_mac r" "hc_seq s = hc_seq r" "length (hc_seq s) = 8" "mac_ok (hc_mac s)"
    using sync by (auto simp: ends_in_sync_def)
  have mm: "length mm = mac_len r" "length mm \<le> 64"
    using e by (auto simp: mm_def mac_len_def mac_ok_def split: option.splits)
  have iv256: "length iv \<le> 256"
    using iv sync by (auto simp: explicit_iv_def ends_in_sync_def elim!: cipher_ends.elims split: option.splits cipher.splits)
  have "seals_well s r (h @ be16 (length p)) iv (p @ mm)"
    using seals_well_all[OF sync, of "h @ be16 (length p)" iv "p @ mm"] h iv p mm by (simp add: maxPlaintext_def)
  then obtain ct c where seal: "seal_payload s (length iv) ((h @ be16 (length p)) @ iv @ p @ mm) = Some ((h @ be16 (length p)) @ iv @ ct, s\<lparr>hc_cipher := c\<rparr>)"
    "length ct \<le> length (p @ mm) + 256" and opens: "opens_to s r (h @ be16 (length p)) iv ct (p @ mm) c"
    unfolding seals_well_def by blast
  define n where "n = length (iv @ ct)"
  obtain q where q0: "incSeq_loop 8 (hc_seq s) = Some q" and q: "incSeq (s\<lparr>hc_cipher := c\<rparr>) = Some (s\<lparr>hc_cipher := c, hc_seq := q\<rparr>)" "length q = 8" "seq_val q = seq_val (hc_seq s) + 1"
    using incSeq_Some[of "s\<lparr>hc_cipher := c\<rparr>"] e seq by auto
  have q': "incSeq (r\<lparr>hc_cipher := d\<rparr>) = Some (r\<lparr>hc_cipher := d, hc_seq := q\<rparr>)" for d
    using q0 e by (simp add: incSeq_def)
  have "length (h @ be16 n) = 5 \<and> take 3 (h @ be16 n) = take 3 (h @ be16 (length p))" using h by simp
  then obtain pad d where pad: "pad = [] \<or> is_cbc (hc_cipher s)" "is_cbc c = is_cbc (hc_cipher s)"
    and o: "length pad \<le> 256" "cipher_ends c d" "open_payload r ((h @ be16 n) @ iv @ ct) =
      Some (Inr (\<lparr>od_payload = (p @ mm) @ pad, od_data = (h @ be16 n) @ iv @ (p @ mm) @ pad, od_explicitIVLen = length iv,
                  od_paddingLen = length pad, od_paddingGood = 255\<rparr>, r\<lparr>hc_cipher := d\<rparr>))"
    using opens unfolding opens_to_def by blast
  have enc: "encrypt s (length iv) (h @ be16 (length p) @ iv @ p) = Some (h @ be16 n @ iv @ ct, s\<lparr>hc_cipher := c, hc_seq := q\<rparr>)"
  proof -
    have "set_length (int n) ((h @ be16 (length p)) @ iv @ ct) = h @ be16 n @ iv @ ct"
      using set_length_be16[OF h, of n "b1 (length p)" "b0 (length p)" "iv @ ct"] by (simp add: be16_def)
    moreover have "(case hc_mac s of None \<Rightarrow> [] | Some m \<Rightarrow> mac_MAC m (hc_seq s) (take recordHeaderLen (h @ be16 (length p) @ iv @ p))
      (drop (recordHeaderLen + length iv) (h @ be16 (length p) @ iv @ p))) = mm"
      using h by (simp add: mm_def recordHeaderLen_def be16_def cong: option.case_cong)
    ultimately show ?thesis using h seal(1) q(1) by (simp add: encrypt_def n_def recordHeaderLen_def)
  qed
  define dd where "dd = (case hc_mac r of None \<Rightarrow> h @ be16 n @ iv @ p @ pad | Some m \<Rightarrow> h @ be16 (length p) @ iv @ p)"
  have "strip_mac (r\<lparr>hc_cipher := d\<rparr>) \<lparr>od_payload = (p @ mm) @ pad, od_data = (h @ be16 n) @ iv @ (p @ mm) @ pad, od_explicitIVLen = length iv,
                  od_paddingLen = length pad, od_paddingGood = 255\<rparr> = Some (Inr dd)"
  proof (cases "hc_mac r")
    case None
    then show ?thesis using e by (simp add: strip_mac_def dd_def mm_def)
  next
    case (Some m)
    then show ?thesis
      using strip_mac_good[of "r\<lparr>hc_cipher := d\<rparr>" m mm h p pad "b1 n" "b0 n" iv] e mm h p o(1)
      by (simp add: dd_def mm_def mac_len_def maxPlaintext_def be16_def[of n])
  qed
  then have dec: "decrypt r (h @ be16 n @ iv @ ct) = Some ((True, recordHeaderLen + length iv, 0), dd, r\<lparr>hc_cipher := d, hc_seq := q\<rparr>)"
    using o(3) q' h by (simp add: decrypt_def recordHeaderLen_def)
  have "hc_mac s = None \<Longrightarrow> pad = [] \<and> \<not> is_cbc c" using pad sync by (auto simp: ends_in_sync_def)
  then show thesis
    using enc dec e q o(2) h seal(2) mm(2) iv256 p
    by (intro that[of "iv @ ct" "s\<lparr>hc_cipher := c, hc_seq := q\<rparr>" dd "r\<lparr>hc_cipher := d, hc_seq := q\<rparr>"])
       (simp_all add: n_def maxCiphertext_def maxPlaintext_def ends_in_sync_def dd_def recordHeaderLen_def split: option.splits)
qed

text \<open>C28: A sealed record opens to its payload. Take two ends of a direction that hold the same keys,
  sequence number and chaining state, under any kind of suite (none, stream, CBC with or without an
  explicit vector, both AEAD constructions, both MACs). A record of at most 16384 bytes that the one
  end encrypts, in the layout of \<open>writeRecordLocked\<close>, stays within the size that \<open>readRecord\<close> admits;
  the other end accepts it, finds exactly the payload behind the prefix it reports, and both are in
  step again, one sequence number further.\<close>

theorem record_roundtrip:
  assumes "ends_in_sync s r" "seq_val (hc_seq s) + 1 < 256 ^ 8" "length h = 3" "length iv = fst (explicit_iv s)"
    "length p \<le> maxPlaintext"
  shows "\<exists>ct s' d r'. encrypt s (length iv) (h @ be16 (length p) @ iv @ p) = Some (h @ be16 (length ct) @ ct, s')
    \<and> length ct \<le> maxCiphertext \<and> decrypt r (h @ be16 (length ct) @ ct) = Some ((True, recordHeaderLen + length iv, 0), d, r')
    \<and> drop (recordHeaderLen + length iv) d = p \<and> ends_in_sync s' r' \<and> seq_val (hc_seq s') = seq_val (hc_seq s) + 1"
proof -
  obtain ct s' d r' where "encrypt s (length iv) (h @ be16 (length p) @ iv @ p) = Some (h @ be16 (length ct) @ ct, s')"
    "length ct \<le> maxCiphertext" "decrypt r (h @ be16 (length ct) @ ct) = Some ((True, recordHeaderLen + length iv, 0), d, r')"
    "drop (recordHeaderLen + length iv) d = p" "ends_in_sync s' r'" "seq_val (hc_seq s') = seq_val (hc_seq s) + 1"
    by (rule record_opens[OF assms])
  then show ?thesis by blast
qed

text \<open>A toy suite: a CBC whose block function adds 1 to each byte, and a MAC of two bytes.\<close>

definition toy_mac :: mac where "toy_mac = tls10MAC 2 (\<lambda>x. [of_nat (length x), fold (+) x 0])"

definition toy_sender :: half_conn where
  "toy_sender = \<lparr>hc_err = None, hc_version = VersionTLS12, hc_cipher = Some (CBC_Encrypter (map (\<lambda>b. b + 1)) 4 [0, 0, 0, 0]),
     hc_mac = Some toy_mac, hc_seq = replicate 8 0, hc_nextCipher = None, hc_nextMac = None\<rparr>"

definition toy_receiver :: half_conn where
  "toy_receiver = toy_sender\<lparr>hc_cipher := Some (CBC_Decrypter (map (\<lambda>b. b - 1)) 4 [0, 0, 0, 0])\<rparr>"

lemma toy_sync: "ends_in_sync toy_sender toy_receiver" "seq_val (hc_seq toy_sender) = 0" "fst (explicit_iv toy_sender) = 4"
proof -
  have "map (\<lambda>b. b - 1) (map (\<lambda>b. b + 1) xs) = xs" for xs :: "byte list" by (simp add: comp_def)
  then have "block_pair (map (\<lambda>b. b + 1)) (map (\<lambda>b. b - 1)) 4" by (simp add: block_pair_def)
  moreover have "mac_ok (Some toy_mac)" by (simp add: mac_ok_def toy_mac_def tls10MAC_MAC_def)
  ultimately show "ends_in_sync toy_sender toy_receiver" by (simp add: ends_in_sync_def toy_sender_def toy_receiver_def)
  show "seq_val (hc_seq toy_sender) = 0" by (simp add: toy_sender_def seq_val_def numeral_eq_Suc)
  show "fst (explicit_iv toy_sender) = 4" by (simp add: toy_sender_def explicit_iv_def VersionTLS12_def VersionTLS11_def)
qed

theorem record_roundtrip_witness:
  "\<exists>ct s' d r'. encrypt toy_sender (length [7, 7, 7, 7 :: byte]) ([23, 3, 3] @ be16 (length [1, 2, 3 :: byte]) @ [7, 7, 7, 7] @ [1, 2, 3]) = Some ([23, 3, 3] @ be16 (length ct) @ ct, s')
    \<and> decrypt toy_receiver ([23, 3, 3] @ be16 (length ct) @ ct) = Some ((True, 9, 0), d, r') \<and> drop 9 d = [1, 2, 3]"
  using record_roundtrip[of toy_sender toy_receiver "[23, 3, 3]" "[7, 7, 7, 7]" "[1, 2, 3]"] toy_sync
  by (auto simp: recordHeaderLen_def maxPlaintext_def)

section \<open>Only authentic records\<close>

text \<open>The reading end of a suite: a decrypter in CBC mode, and no MAC beside an AEAD.\<close>

fun is_aead :: "cipher option \<Rightarrow> bool" where
  "is_aead (Some (fixedNonceAEAD _ _)) = True"
| "is_aead (Some (xorNonceAEAD _ _)) = True"
| "is_aead _ = False"

fun cipher_wf :: "cipher option \<Rightarrow> bool" where
  "cipher_wf (Some (CBC_Encrypter f bs iv)) = False"
| "cipher_wf (Some (CBC_Decrypter f bs iv)) = (0 < bs \<and> length iv = bs)"
| "cipher_wf _ = True"

definition reader_wf :: "half_conn \<Rightarrow> bool" where
  "reader_wf hc \<longleftrightarrow> cipher_wf (hc_cipher hc) \<and> length (hc_seq hc) = 8 \<and> (hc_mac hc \<noteq> None \<longrightarrow> \<not> is_aead (hc_cipher hc))"

definition opened_ok :: "half_conn \<Rightarrow> byte list \<Rightarrow> opened \<Rightarrow> half_conn \<Rightarrow> bool" where
  "opened_ok hc d oo hc1 \<longleftrightarrow> recordHeaderLen + od_explicitIVLen oo \<le> length d
     \<and> od_data oo = take (recordHeaderLen + od_explicitIVLen oo) d @ od_payload oo \<and> hc1 = hc\<lparr>hc_cipher := hc_cipher hc1\<rparr>
     \<and> od_paddingLen oo \<le> 256 \<and> (\<not> is_aead (hc_cipher hc) \<longrightarrow> length (od_payload oo) \<le> length d)"

lemma length_cbc_decrypt: "length iv \<le> bs \<Longrightarrow> length (fst (cbc_decrypt g bs n iv xs)) \<le> n * bs"
proof (induction n arbitrary: iv xs)
  case (Suc n)
  have "length (fst (cbc_decrypt g bs n (take bs xs) (drop bs xs))) \<le> n * bs" by (rule Suc.IH) simp
  then show ?case using Suc.prems by (auto simp: Let_def split: prod.splits)
qed simp

lemma extracted_le: "fst (extractPadding x) \<le> 256" "fst (extractPaddingSSL30 x) \<le> 256"
  using byte_less by (auto simp: extractPadding_def extractPaddingSSL30_def Let_def Suc_le_eq)

lemma open_aead_shape:
  assumes "recordHeaderLen \<le> length d" "\<exists>x a. c = fixedNonceAEAD x a \<or> c = xorNonceAEAD x a" "is_aead (hc_cipher hc)"
  shows "\<exists>z. open_aead hc c d (drop recordHeaderLen d) = Some z \<and> (\<forall>oo hc1. z = Inr (oo, hc1) \<longrightarrow> opened_ok hc d oo hc1)"
  using assms
  by (auto simp: open_aead_def Let_def opened_ok_def recordHeaderLen_def split: option.splits)

lemma roundUp_ge: "0 < b \<Longrightarrow> a \<le> roundUp a b"
  by (simp add: roundUp_def)

lemma open_cbc_shape:
  assumes d: "recordHeaderLen \<le> length d" and c: "c = CBC_Decrypter g bs iv" and wf: "cipher_wf (Some c)"
  shows "\<exists>z. open_cbc hc c bs d (drop recordHeaderLen d) = Some z \<and> (\<forall>oo hc1. z = Inr (oo, hc1) \<longrightarrow> opened_ok hc d oo hc1)"
proof -
  define e where "e = (if hc_version hc \<ge> VersionTLS11 \<or> hc_version hc = VersionGMSSL then bs else 0)"
  let ?p = "drop recordHeaderLen d"
  show ?thesis
  proof (cases "length ?p mod bs \<noteq> 0 \<or> length ?p < roundUp (e + mac_len hc + 1) bs")
    case True
    then show ?thesis by (simp add: open_cbc_def e_def Let_def)
  next
    case False
    have bs: "0 < bs" using c wf by auto
    have le: "e \<le> length ?p" using roundUp_ge[OF bs, of "e + mac_len hc + 1"] False by simp
    define L where "L = length ?p"
    have "(L - e) mod bs = 0"
      using False le le_mod_geq[of bs L] unfolding L_def[symmetric] by (cases "e = 0") (auto simp: e_def split: if_splits)
    then have m: "length (drop e ?p) mod bs = 0" by (simp add: L_def add.commute)
    define v where "v = (if e > 0 then take e ?p else iv)"
    have "e = 0 \<or> e = bs" by (simp add: e_def)
    then have c1: "(if e > 0 then SetIV (take e ?p) c else Some c) = Some (CBC_Decrypter g bs v)" "length v = bs"
      using c le wf by (auto simp: v_def)
    define p where "p = fst (cbc_decrypt g bs (length (drop e ?p) div bs) v (drop e ?p))"
    obtain w where w: "cbc_decrypt g bs (length (drop e ?p) div bs) v (drop e ?p) = (p, w)"
      unfolding p_def by (metis prod.collapse)
    define c2 where "c2 = CBC_Decrypter g bs w"
    have c2: "CryptBlocks (CBC_Decrypter g bs v) (drop e ?p) = Some (p, c2)" using m w by (simp add: c2_def del: drop_drop length_drop)
    have "length p \<le> length (drop e ?p) div bs * bs" unfolding p_def using c1(2) by (intro length_cbc_decrypt) simp
    also have "\<dots> \<le> length (drop e ?p)" by (rule div_times_less_eq_dividend)
    finally have lp: "length p \<le> length d" by simp
    obtain pl good where pad: "(if hc_version hc = VersionSSL30 then extractPaddingSSL30 p else extractPadding p) = (pl, good)" by fastforce
    have "open_cbc hc c bs d ?p = Some (Inr (\<lparr>od_payload = p, od_data = take (recordHeaderLen + e) d @ p, od_explicitIVLen = e,
                       od_paddingLen = pl, od_paddingGood = good\<rparr>, hc\<lparr>hc_cipher := Some c2\<rparr>))"
      using False c1(1) c2 pad unfolding open_cbc_def e_def[symmetric] Let_def by simp
    then show ?thesis using le d lp extracted_le[of p] pad by (auto simp: opened_ok_def split: if_splits)
  qed
qed

lemma open_payload_shape:
  assumes "recordHeaderLen \<le> length d" "cipher_wf (hc_cipher hc)"
  shows "\<exists>z. open_payload hc d = Some z \<and> (\<forall>oo hc1. z = Inr (oo, hc1) \<longrightarrow> opened_ok hc d oo hc1)"
proof (cases "hc_cipher hc")
  case None
  then show ?thesis using assms by (simp add: open_payload_def opened_ok_def)
next
  case (Some c)
  then show ?thesis using assms open_aead_shape[OF assms(1), of c hc] open_cbc_shape[OF assms(1), of c _ _ _ hc]
    by (cases c) (auto simp: open_payload_def opened_ok_def Let_def)
qed

lemma strip_mac_cases:
  assumes m: "hc_mac hc = Some m" and l: "length (od_payload oo) < 2 ^ 31 - 512" "od_paddingLen oo \<le> 256"
    and d: "od_data oo = h @ [a, b] @ iv @ od_payload oo" "length h = 3" "length iv = od_explicitIVLen oo"
  obtains "strip_mac hc oo = Some (Inl ())"
  | p rest where "strip_mac hc oo = Some (Inr (h @ be16 (length p) @ iv @ p))" "od_paddingGood oo = 255"
    "od_payload oo = p @ mac_MAC m (hc_seq hc) (h @ be16 (length p)) p @ rest"
proof (cases "length (od_payload oo) < mac_Size m")
  case True
  then show ?thesis using m that(1) by (simp add: strip_mac_def)
next
  case False
  define x where "x = od_payload oo"
  define n0 where "n0 = int (length x) - int (mac_Size m) - int (od_paddingLen oo)"
  define n where "n = nat n0"
  have n0: "- 256 \<le> n0" "n0 < 2 ^ 31 - 512" using False l by (auto simp: n0_def x_def)
  have "(if bit (word_of_int n0 :: u32) 31 then 0 else n0) = int n"
  proof (cases "n0 < 0")
    case True
    have "n0 div 2 ^ 31 = - 1" by (rule int_div_pos_eq[where r = "n0 + 2 ^ 31"]) (use True n0 in simp_all)
    then have "bit n0 31" by (simp add: bit_iff_odd)
    then show ?thesis using True by (simp add: bit_simps n_def)
  next
    case False
    then have "\<not> bit n0 31" using n0 by (simp add: bit_iff_odd div_pos_pos_trivial)
    then show ?thesis using False by (simp add: bit_simps n_def)
  qed
  note sel = this
  have le: "n + mac_Size m \<le> length x" using False by (simp add: n_def n0_def x_def)
  define p where "p = take n x"
  define rest where "rest = drop (n + mac_Size m) x"
  define rm where "rm = take (mac_Size m) (drop n x)"
  have lp: "length p = n" using le by (simp add: p_def)
  have x: "x = p @ rm @ rest" by (simp add: p_def rm_def rest_def flip: drop_drop) (metis add.commute append_take_drop_id drop_drop)
  have g: "go_slice x (int n) (int n + int (mac_Size m)) = Some rm" "go_slice x 0 (int n) = Some p"
    using le by (simp_all add: go_slice_def rm_def p_def nat_add_distrib)
  have sd: "set_length (int n) (od_data oo) = h @ be16 n @ iv @ x"
    unfolding d(1) x_def by (rule set_length_be16[OF d(2)])
  have ev: "strip_mac hc oo = (if mac_MAC m (hc_seq hc) (h @ be16 n) p \<noteq> rm \<or> od_paddingGood oo \<noteq> 255 then Some (Inl ())
    else Some (Inr (h @ be16 n @ iv @ p)))"
    using m False d(2,3) g lp unfolding strip_mac_def x_def[symmetric]
    by (simp add: Let_def n0_def[symmetric] sel sd recordHeaderLen_def p_def)
  show ?thesis
  proof (cases "mac_MAC m (hc_seq hc) (h @ be16 n) p \<noteq> rm \<or> od_paddingGood oo \<noteq> 255")
    case True
    then show ?thesis using ev by (intro that(1)) simp
  next
    case False
    then show ?thesis using ev x lp by (intro that(2)[of p rest]) (simp_all add: x_def)
  qed
qed

text \<open>
  What an accepted payload \<open>p\<close> of the record \<open>d\<close> owes its key: under a MAC, the deciphered bytes are
  \<open>p\<close>, its MAC over the current sequence number, type, version and length, and valid padding;
  under an AEAD, the ciphertext opens to \<open>p\<close> with the current sequence number in its additional data.
\<close>

definition authentic :: "half_conn \<Rightarrow> byte list \<Rightarrow> byte list \<Rightarrow> bool" where
  "authentic hc d p \<longleftrightarrow>
     (\<forall>m. hc_mac hc = Some m \<longrightarrow> (\<exists>oo hc1 rest. open_payload hc d = Some (Inr (oo, hc1)) \<and> od_paddingGood oo = 255
        \<and> od_payload oo = p @ mac_MAC m (hc_seq hc) (take 3 d @ be16 (length p)) p @ rest))
     \<and> (\<forall>x a. hc_cipher hc = Some (fixedNonceAEAD x a) \<longrightarrow> (let ct = drop 13 d in
          ap_open a (go_copy x 4 (take 8 (drop 5 d))) ct (additional_data (hc_seq hc) d (int (length ct) - int (ap_overhead a))) = Some p))
     \<and> (\<forall>x a. hc_cipher hc = Some (xorNonceAEAD x a) \<longrightarrow> (let ct = drop 5 d in
          ap_open a (xor_into x (hc_seq hc)) ct (additional_data (hc_seq hc) d (int (length ct) - int (ap_overhead a))) = Some p))"

lemma aead_payload:
  assumes d: "recordHeaderLen \<le> length d" and s: "length (hc_seq hc) = 8" and a: "is_aead (hc_cipher hc)" and m: "hc_mac hc = None"
    and o: "open_payload hc d = Some (Inr (oo, hc1))"
  shows "authentic hc d (od_payload oo)"
proof -
  consider x a where "hc_cipher hc = Some (fixedNonceAEAD x a)" | x a where "hc_cipher hc = Some (xorNonceAEAD x a)"
    using a by (cases "hc_cipher hc" rule: is_aead.cases) auto
  then show ?thesis
  proof cases
    case 1
    then show ?thesis using o m
      by (auto simp: open_payload_def open_aead_def authentic_def recordHeaderLen_def Let_def split: if_splits option.splits)
  next
    case 2
    have "hc_seq hc \<noteq> []" using s by auto
    then show ?thesis using o m 2
      by (auto simp: open_payload_def open_aead_def authentic_def recordHeaderLen_def Let_def split: if_splits option.splits)
  qed
qed

lemma record_accepted:
  assumes d: "recordHeaderLen \<le> length d" "length d < 2 ^ 31 - 512" and wf: "reader_wf r" and seq: "seq_val (hc_seq r) + 1 < 256 ^ 8"
  shows "\<exists>ok off al d' r'. decrypt r d = Some ((ok, off, al), d', r') \<and>
     (if ok then off \<le> length d' \<and> authentic r d (drop off d') \<and> seq_val (hc_seq r') = seq_val (hc_seq r) + 1
      else al = alertBadRecordMAC \<and> hc_seq r' = hc_seq r)"
proof -
  have w: "cipher_wf (hc_cipher r)" "length (hc_seq r) = 8" using wf by (simp_all add: reader_wf_def)
  obtain z where z: "open_payload r d = Some z" "\<forall>oo hc1. z = Inr (oo, hc1) \<longrightarrow> opened_ok r d oo hc1"
    using open_payload_shape[OF d(1) w(1)] by blast
  show ?thesis
  proof (cases z)
    case (Inl hc1)
    then have "hc_seq hc1 = hc_seq r" using z(1)
      by (auto simp: open_payload_def open_aead_def open_cbc_def Let_def split: if_splits option.splits cipher.splits prod.splits bind_splits)
    then show ?thesis using Inl z(1) d(1) by (intro exI[of _ False] exI[of _ 0] exI[of _ alertBadRecordMAC] exI) (auto simp: decrypt_def)
  next
    case (Inr y)
    then obtain oo hc1 where y: "z = Inr (oo, hc1)" by (cases y) auto
    then have ok: "opened_ok r d oo hc1" using z(2) by blast
    then have e: "hc1 = r\<lparr>hc_cipher := hc_cipher hc1\<rparr>" by (simp add: opened_ok_def)
    have hc1: "hc_mac hc1 = hc_mac r" "hc_seq hc1 = hc_seq r" using arg_cong[OF e, of hc_mac] arg_cong[OF e, of hc_seq] by simp_all
    obtain q where q: "incSeq hc1 = Some (hc1\<lparr>hc_seq := q\<rparr>)" "seq_val q = seq_val (hc_seq r) + 1"
      using incSeq_Some[of hc1] w(2) seq hc1 by auto
    show ?thesis
    proof (cases "hc_mac r")
      case None
      then have "decrypt r d = Some ((True, recordHeaderLen + od_explicitIVLen oo, 0), od_data oo, hc1\<lparr>hc_seq := q\<rparr>)"
        using z(1) y d(1) hc1 q by (simp add: decrypt_def strip_mac_def)
      moreover have "drop (recordHeaderLen + od_explicitIVLen oo) (od_data oo) = od_payload oo" using ok by (simp add: opened_ok_def)
      moreover have "authentic r d (od_payload oo)"
      proof (cases "is_aead (hc_cipher r)")
        case True
        then show ?thesis using aead_payload[OF d(1) w(2) True None] z(1) y by blast
      next
        case False
        then show ?thesis using None by (auto simp: authentic_def)
      qed
      ultimately show ?thesis using ok q by (intro exI[of _ True] exI) (auto simp: opened_ok_def)
    next
      case (Some m)
      then have na: "\<not> is_aead (hc_cipher r)" using wf by (simp add: reader_wf_def)
      define iv where "iv = take (od_explicitIVLen oo) (drop recordHeaderLen d)"
      define h where "h = take 3 d"
      have d5: "take recordHeaderLen d = h @ [d ! 3, d ! 4]"
        using d(1) by (simp add: h_def recordHeaderLen_def numeral_eq_Suc take_Suc_conv_app_nth)
      have "od_data oo = h @ [d ! 3, d ! 4] @ iv @ od_payload oo"
        using ok d5 by (simp add: opened_ok_def iv_def take_add)
      moreover have "length iv = od_explicitIVLen oo" "length h = 3" using ok d(1) by (auto simp: opened_ok_def iv_def h_def recordHeaderLen_def)
      moreover have "length (od_payload oo) < 2 ^ 31 - 512" "od_paddingLen oo \<le> 256" using ok na d(2) by (simp_all add: opened_ok_def)
      moreover have "hc_mac hc1 = Some m" using Some hc1 by simp
      ultimately consider "strip_mac hc1 oo = Some (Inl ())"
        | p rest where "strip_mac hc1 oo = Some (Inr (h @ be16 (length p) @ iv @ p))" "od_paddingGood oo = 255"
            "od_payload oo = p @ mac_MAC m (hc_seq hc1) (h @ be16 (length p)) p @ rest"
        using strip_mac_cases[of hc1 m oo h "d ! 3" "d ! 4" iv] by metis
      then show ?thesis
      proof cases
        case 1
        then show ?thesis using z(1) y d(1) hc1 by (intro exI[of _ False] exI[of _ 0] exI[of _ alertBadRecordMAC] exI) (auto simp: decrypt_def)
      next
        case 2
        then have "decrypt r d = Some ((True, recordHeaderLen + od_explicitIVLen oo, 0), h @ be16 (length p) @ iv @ p, hc1\<lparr>hc_seq := q\<rparr>)"
          using z(1) y d(1) hc1 q by (simp add: decrypt_def)
        moreover have "authentic r d p"
          using 2 Some z(1) y na hc1 by (auto simp: authentic_def h_def)
        ultimately show ?thesis using q \<open>length iv = _\<close> \<open>length h = 3\<close>
          by (intro exI[of _ True] exI) (auto simp: recordHeaderLen_def)
      qed
    qed
  qed
qed

text \<open>C4: Records are opened safely. Whatever bytes arrive, opening a record on a well-formed
  direction returns: no slice of it panics, and the sequence number only panics at its last value.
  If the record is accepted, its payload is authentic under the keys of the direction and the current
  sequence number, which then advances by one; if not, the answer is \<open>bad_record_mac\<close> and the
  sequence number stays.\<close>

theorem record_opening_authentic:
  assumes "recordHeaderLen \<le> length d" "length d < 2 ^ 31 - 512" "reader_wf r" "seq_val (hc_seq r) + 1 < 256 ^ 8"
  shows "\<exists>ok off al d' r'. decrypt r d = Some ((ok, off, al), d', r') \<and>
     (if ok then off \<le> length d' \<and> authentic r d (drop off d') \<and> seq_val (hc_seq r') = seq_val (hc_seq r) + 1
      else al = alertBadRecordMAC \<and> hc_seq r' = hc_seq r)"
  by (rule record_accepted[OF assms])

theorem record_opening_authentic_witness:
  "\<exists>ok off al d' r'. decrypt toy_receiver [23, 3, 3, 0, 4, 1, 2, 3, 4] = Some ((ok, off, al), d', r')"
proof -
  have "reader_wf toy_receiver" by (simp add: reader_wf_def toy_receiver_def toy_sender_def)
  moreover have "seq_val (hc_seq toy_receiver) + 1 < 256 ^ 8" using toy_sync(2) by (simp add: toy_receiver_def)
  ultimately show ?thesis
    using record_opening_authentic[of "[23, 3, 3, 0, 4, 1, 2, 3, 4]" toy_receiver] by (auto simp: recordHeaderLen_def)
qed

end
