(* ===== verification/Tls_Stream.thy ===== *)
theory Tls_Stream
  imports Tls_Conn Tls_Protection
begin

text \<open>
  An established connection is a byte stream: what \<open>Write\<close> puts into records comes out of
  \<open>Read\<close> on the other side, whole and in order, however the transport cuts it.
\<close>

section \<open>Records in flight\<close>

text \<open>\<open>flight v r ws bs r'\<close>: the bytes \<open>ws\<close> are data records that the receiving state \<open>r\<close> opens to \<open>bs\<close>.\<close>

inductive flight :: "u16 \<Rightarrow> half_conn \<Rightarrow> byte list \<Rightarrow> byte list \<Rightarrow> half_conn \<Rightarrow> bool" where
  flight_nil: "flight v r [] [] r"
| flight_rec: "flight v r (recordTypeApplicationData # w16 v @ be16 (length ct) @ ct @ ws) (p @ bs) r2"
  if "decrypt r (recordTypeApplicationData # w16 v @ be16 (length ct) @ ct) = Some ((True, off, al), d, r1)"
    "length ct \<le> maxCiphertext" "drop off d = p" "p \<noteq> []" "length p \<le> maxPlaintext" "hc_err r1 = hc_err r" "flight v r1 ws bs r2"

lemma flight_append: "flight v r ws bs r1 \<Longrightarrow> flight v r1 ws' bs' r2 \<Longrightarrow> flight v r (ws @ ws') (bs @ bs') r2"
proof (induction rule: flight.induct)
  case (flight_rec r v ct off al d r1 p ws bs r2)
  then show ?case using flight.flight_rec[of r v ct off al d r1 p "ws @ ws'" "bs @ bs'"] by simp
qed simp

lemma flight_single:
  assumes "decrypt r (recordTypeApplicationData # w16 v @ be16 (length ct) @ ct) = Some ((True, off, al), d, r1)"
    "length ct \<le> maxCiphertext" "drop off d = p" "p \<noteq> []" "length p \<le> maxPlaintext" "hc_err r1 = hc_err r"
  shows "flight v r (recordTypeApplicationData # w16 v @ be16 (length ct) @ ct) p r1"
  using flight_rec[OF assms flight_nil] by simp

lemma flight_err: "flight v r ws bs r' \<Longrightarrow> hc_err r' = hc_err r"
  by (induction rule: flight.induct) simp_all

section \<open>Writing\<close>

text \<open>A transport that takes all it is given, and a random source that delivers; \<open>sent\<close> is what was taken.\<close>

definition good_sender :: "'n tls_env \<Rightarrow> ('n \<Rightarrow> byte list) \<Rightarrow> bool" where
  "good_sender E sent \<longleftrightarrow> (\<forall>d st. \<exists>st'. te_write E d st = ((length d, None), st') \<and> sent st' = sent st @ d)
     \<and> (\<forall>k st. \<exists>iv st'. te_rand E k st = (Inl iv, st') \<and> length iv = k \<and> sent st' = sent st)"

lemma and_not_ge: "0 \<le> m \<Longrightarrow> x - m \<le> x AND NOT m" for x m :: int
proof -
  assume "0 \<le> m"
  have "x = (x AND m) + (x AND NOT m)"
    by (subst disjunctive_add) (auto simp: bit_eq_iff bit_simps)
  moreover have "x AND m \<le> m" using \<open>0 \<le> m\<close> by (rule AND_upper2)
  ultimately show ?thesis by linarith
qed

lemma explicit_iv_le: "ends_in_sync s r \<Longrightarrow> fst (explicit_iv s) \<le> 256"
  by (auto simp: explicit_iv_def ends_in_sync_def elim!: cipher_ends.elims split: option.splits cipher.splits)

text \<open>There is always room for payload, and never more than a record may hold.\<close>

lemma maxPayload_bounds:
  assumes s: "ends_in_sync (co_out c) r" and p: "0 \<le> co_packetsSent c" "co_packetsSent c + 1 < 2 ^ 63"
    and m: "maxPayloadSizeForWrite typ (fst (explicit_iv (co_out c))) c = (k, c1)"
  shows "0 < k" "k \<le> int maxPlaintext" "c1 = c\<lparr>co_packetsSent := co_packetsSent c1\<rparr>" "0 \<le> co_packetsSent c1"
    "co_packetsSent c1 \<le> co_packetsSent c + 1"
proof -
  let ?e = "fst (explicit_iv (co_out c))"
  define base where "base = tcpMSSEstimate - int recordHeaderLen - int ?e"
  have b: "947 \<le> base" using explicit_iv_le[OF s] by (simp add: base_def tcpMSSEstimate_def recordHeaderLen_def)
  define room where "room = (case hc_cipher (co_out c) of
                   None \<Rightarrow> base
                 | Some (Stream_Cipher ks pos) \<Rightarrow> base - int (mac_len (co_out c))
                 | Some (fixedNonceAEAD x a) \<Rightarrow> base - int (ap_overhead a)
                 | Some (xorNonceAEAD x a) \<Rightarrow> base - int (ap_overhead a)
                 | Some (CBC_Encrypter f bs iv) \<Rightarrow> (base AND NOT (int bs - 1)) - 1 - int (mac_len (co_out c))
                 | Some (CBC_Decrypter f bs iv) \<Rightarrow> (base AND NOT (int bs - 1)) - 1 - int (mac_len (co_out c)))"
  have ml: "mac_len (co_out c) \<le> 64" using s by (auto simp: ends_in_sync_def mac_ok_def mac_len_def split: option.splits)
  have "0 < room"
  proof (cases "hc_cipher (co_out c)")
    case None
    then show ?thesis using b by (simp add: room_def)
  next
    case (Some ci)
    then show ?thesis
    proof (cases ci)
      case (CBC_Encrypter f bs iv)
      then have "0 < bs" "bs \<le> 256" using s Some by (auto simp: ends_in_sync_def elim!: cipher_ends.elims)
      then show ?thesis using and_not_ge[of "int bs - 1" base] b ml Some CBC_Encrypter by (simp add: room_def)
    next
      case (CBC_Decrypter f bs iv)
      then show ?thesis using s Some by (auto simp: ends_in_sync_def)
    next
      case (fixedNonceAEAD x a)
      then have "ap_overhead a \<le> 255" using s Some by (auto simp: ends_in_sync_def aead_ok_def elim!: cipher_ends.elims)
      then show ?thesis using b Some fixedNonceAEAD by (simp add: room_def)
    next
      case (xorNonceAEAD x a)
      then have "ap_overhead a \<le> 255" using s Some by (auto simp: ends_in_sync_def aead_ok_def elim!: cipher_ends.elims)
      then show ?thesis using b Some xorNonceAEAD by (simp add: room_def)
    next
      case (Stream_Cipher ks pos)
      then show ?thesis using b ml Some by (simp add: room_def)
    qed
  qed
  then have "0 < room * (co_packetsSent c + 1)" using p by simp
  moreover have "(k, c1) = (if co_DynamicRecordSizingDisabled c \<or> typ \<noteq> recordTypeApplicationData then (int maxPlaintext, c)
      else if co_bytesSent c \<ge> recordSizeBoostThreshold then (int maxPlaintext, c)
      else let c' = c\<lparr>co_packetsSent := i64 (co_packetsSent c + 1)\<rparr>; n = room * (co_packetsSent c + 1)
           in if co_packetsSent c > 1000 then (int maxPlaintext, c') else (if n > int maxPlaintext then int maxPlaintext else n, c'))"
    unfolding m[symmetric] maxPayloadSizeForWrite_def Let_def base_def[symmetric] room_def[symmetric] by (rule refl)
  ultimately show "0 < k" "k \<le> int maxPlaintext" "c1 = c\<lparr>co_packetsSent := co_packetsSent c1\<rparr>" "0 \<le> co_packetsSent c1"
    "co_packetsSent c1 \<le> co_packetsSent c + 1"
    using p by (auto simp: Let_def maxPlaintext_def split: if_splits)
qed

lemma make_iv_length:
  assumes s: "ends_in_sync (co_out c) r" and E: "good_sender E sent"
  obtains iv st where "make_iv E (fst (explicit_iv (co_out c))) (snd (explicit_iv (co_out c))) c = (Inl iv, c\<lparr>co_net := st\<rparr>)"
    "length iv = fst (explicit_iv (co_out c))" "sent st = sent (co_net c)"
proof -
  let ?e = "fst (explicit_iv (co_out c))"
  have sq: "snd (explicit_iv (co_out c)) \<Longrightarrow> ?e = 8"
    by (auto simp: explicit_iv_def split: option.splits cipher.splits)
  have l8: "length (hc_seq (co_out c)) = 8" using s by (auto simp: ends_in_sync_def)
  have same: "c\<lparr>co_net := co_net c\<rparr> = c" by simp
  show thesis
  proof (cases "?e = 0 \<or> snd (explicit_iv (co_out c))")
    case True
    then show ?thesis using sq l8 that[of "if ?e = 0 then [] else take ?e (hc_seq (co_out c))" "co_net c"] same
      by (auto simp: make_iv_def)
  next
    case False
    obtain iv st where "te_rand E ?e (co_net c) = (Inl iv, st)" "length iv = ?e" "sent st = sent (co_net c)"
      using E unfolding good_sender_def by metis
    then show ?thesis using False that[of iv st] by (simp add: make_iv_def)
  qed
qed

text \<open>What a connection keeps while it writes records.\<close>

definition sender_ok :: "u16 \<Rightarrow> 'n tls_conn \<Rightarrow> half_conn \<Rightarrow> bool" where
  "sender_ok v c r \<longleftrightarrow> ends_in_sync (co_out c) r \<and> co_vers c = v \<and> v \<noteq> 0 \<and> \<not> co_buffering c \<and> 0 \<le> co_packetsSent c"

definition same_conn :: "'n tls_conn \<Rightarrow> 'n tls_conn \<Rightarrow> bool" where
  "same_conn c c' \<longleftrightarrow> co_handshakeStatus c' = co_handshakeStatus c \<and> co_handshakeErr c' = co_handshakeErr c
     \<and> co_closeNotifySent c' = co_closeNotifySent c \<and> co_activeCall c' = co_activeCall c \<and> hc_err (co_out c') = hc_err (co_out c)"

lemma write_records_flight:
  assumes E: "good_sender E sent"
  shows "sender_ok v c r \<Longrightarrow> seq_val (hc_seq (co_out c)) + length data < 256 ^ 8 \<Longrightarrow> co_packetsSent c + int (length data) < 2 ^ 63 \<Longrightarrow>
    \<exists>c' ws r'. write_records E recordTypeApplicationData data n c = Some ((n + length data, None), c') \<and> sent (co_net c') = sent (co_net c) @ ws
      \<and> flight v r ws data r' \<and> sender_ok v c' r' \<and> same_conn c c'
      \<and> seq_val (hc_seq (co_out c')) \<le> seq_val (hc_seq (co_out c)) + length data \<and> co_packetsSent c' \<le> co_packetsSent c + int (length data)"
proof (induction data arbitrary: n c r rule: measure_induct_rule[of length])
  case (less data)
  show ?case
  proof (cases "data = []")
    case True
    then show ?thesis using less.prems
      by (subst write_records.simps) (auto intro!: exI[of _ c] exI[of _ "[]"] exI[of _ r] flight_nil simp: same_conn_def)
  next
    case False
    then have dp: "0 < length data" by simp
    have s: "ends_in_sync (co_out c) r" "co_vers c = v" "v \<noteq> 0" "\<not> co_buffering c" "0 \<le> co_packetsSent c"
      using less.prems(1) by (simp_all add: sender_ok_def)
    obtain k c1 where k: "maxPayloadSizeForWrite recordTypeApplicationData (fst (explicit_iv (co_out c))) c = (k, c1)" by fastforce
    have pk: "co_packetsSent c + 1 < 2 ^ 63" using less.prems(3) dp by linarith
    note kb = maxPayload_bounds[OF s(1,5) pk k]
    define m where "m = nat (if int (length data) > k then k else int (length data))"
    have m: "0 < m" "m \<le> length data" "m \<le> maxPlaintext" using kb(1,2) dp by (auto simp: m_def)
    define hdr where "hdr = recordTypeApplicationData # w16 v"
    have h: "length hdr = 3" by (simp add: hdr_def)
    have out1: "co_out c1 = co_out c" "co_net c1 = co_net c" "co_vers c1 = v" "\<not> co_buffering c1"
      using s arg_cong[OF kb(3), of co_out] arg_cong[OF kb(3), of co_net] arg_cong[OF kb(3), of co_vers] arg_cong[OF kb(3), of co_buffering] by simp_all
    have same1: "same_conn c c1" by (subst kb(3)) (simp add: same_conn_def)
    have s1: "ends_in_sync (co_out c1) r" using s out1 by simp
    obtain iv st where iv: "make_iv E (fst (explicit_iv (co_out c))) (snd (explicit_iv (co_out c))) c1 = (Inl iv, c1\<lparr>co_net := st\<rparr>)"
      "length iv = fst (explicit_iv (co_out c))" "sent st = sent (co_net c)"
      using make_iv_length[OF s1 E] out1 by metis
    define p where "p = take m data"
    have p: "length p = m" "p \<noteq> []" using m by (auto simp: p_def)
    have seq1: "seq_val (hc_seq (co_out c)) + 1 < 256 ^ 8" using less.prems(2) dp by linarith
    obtain ct s' d r1 where rec: "encrypt (co_out c) (length iv) (hdr @ be16 (length p) @ iv @ p) = Some (hdr @ be16 (length ct) @ ct, s')"
      "length ct \<le> maxCiphertext" "decrypt r (hdr @ be16 (length ct) @ ct) = Some ((True, recordHeaderLen + length iv, 0), d, r1)"
      "drop (recordHeaderLen + length iv) d = p" "ends_in_sync s' r1" "seq_val (hc_seq s') = seq_val (hc_seq (co_out c)) + 1"
      "s' = (co_out c)\<lparr>hc_cipher := hc_cipher s', hc_seq := hc_seq s'\<rparr>" "r1 = r\<lparr>hc_cipher := hc_cipher r1, hc_seq := hc_seq r1\<rparr>"
      by (rule record_opens[OF s(1) seq1 h iv(2), of p]) (use m p in auto)
    define w where "w = hdr @ be16 (length ct) @ ct"
    obtain st2 where st2: "te_write E w st = ((length w, None), st2)" "sent st2 = sent st @ w"
      using E unfolding good_sender_def by metis
    define c3 where "c3 = c1\<lparr>co_net := st2, co_out := s', co_bytesSent := i64 (co_bytesSent c1 + int (length w))\<rparr>"
    have err: "hc_err s' = hc_err (co_out c)" "hc_err r1 = hc_err r" using arg_cong[OF rec(7), of hc_err] arg_cong[OF rec(8), of hc_err] by simp_all
    have step: "write_records E recordTypeApplicationData data n c = write_records E recordTypeApplicationData (drop m data) (n + m) c3"
    proof -
      have pos: "\<not> (if int (length data) > k then k else int (length data)) \<le> 0" using m(1) by (simp add: m_def)
      have ex: "explicit_iv (co_out c) = (length iv, snd (explicit_iv (co_out c)))" using iv(2) by simp
      have cw: "conn_write E w (c1\<lparr>co_net := st, co_out := s'\<rparr>) = ((length w, None), c3)"
        using out1 st2 by (simp add: conn_write_def c3_def)
      have w2: "recordTypeApplicationData # w16 v @ be16 (length ct) @ ct = w" by (simp add: w_def hdr_def)
      show ?thesis
        using False pos k iv(1) rec(1) cw out1 s(3) p(1)
        by (subst write_records.simps, subst ex) (simp add: m_def[symmetric] iv(2)[symmetric] Let_def w2 hdr_def p_def[symmetric])
    qed
    have fl: "flight v r w p r1"
      unfolding w_def hdr_def using flight_single[of r v ct "recordHeaderLen + length iv" 0 d r1 p] rec(2,3,4) err p m
      by (simp add: hdr_def)
    have ok3: "sender_ok v c3 r1" using rec(5) s out1 kb(4) by (simp add: sender_ok_def c3_def)
    have same3: "same_conn c c3" using same1 err by (simp add: same_conn_def c3_def)
    have "length (drop m data) < length data" using m by simp
    moreover have "seq_val (hc_seq (co_out c3)) + length (drop m data) < 256 ^ 8" using less.prems(2) rec(6) m by (simp add: c3_def)
    moreover have pk3: "co_packetsSent c3 \<le> co_packetsSent c + 1" using kb(5) by (simp add: c3_def)
    moreover have "co_packetsSent c3 + int (length (drop m data)) < 2 ^ 63" using less.prems(3) pk3 m by simp
    ultimately obtain c' ws r' where ih: "write_records E recordTypeApplicationData (drop m data) (n + m) c3 = Some ((n + m + length (drop m data), None), c')"
      "sent (co_net c') = sent (co_net c3) @ ws" "flight v r1 ws (drop m data) r'" "sender_ok v c' r'" "same_conn c3 c'"
      "seq_val (hc_seq (co_out c')) \<le> seq_val (hc_seq (co_out c3)) + length (drop m data)"
      "co_packetsSent c' \<le> co_packetsSent c3 + int (length (drop m data))"
      using less.IH[of "drop m data" c3 r1 "n + m"] ok3 by auto
    have "flight v r (w @ ws) data r'" using flight_append[OF fl ih(3)] by (simp add: p_def)
    moreover have "sent (co_net c') = sent (co_net c) @ w @ ws" using ih(2) st2(2) iv(3) by (simp add: c3_def)
    moreover have "same_conn c c'" using same3 ih(5) by (simp add: same_conn_def)
    moreover have "seq_val (hc_seq (co_out c')) \<le> seq_val (hc_seq (co_out c)) + length data" using ih(6) rec(6) m by (simp add: c3_def)
    moreover have "co_packetsSent c' \<le> co_packetsSent c + int (length data)" using ih(7) pk3 m by simp
    ultimately show ?thesis using step ih(1,4) m by (intro exI[of _ c'] exI[of _ "w @ ws"] exI[of _ r']) simp
  qed
qed

text \<open>A connection on which \<open>Write\<close> gets as far as its records.\<close>

definition can_write :: "'n tls_conn \<Rightarrow> bool" where
  "can_write c \<longleftrightarrow> co_handshakeStatus c \<and> co_handshakeErr c = None \<and> \<not> co_closeNotifySent c \<and> even (co_activeCall c)
     \<and> hc_err (co_out c) = None"

lemma writeRecord_flight:
  assumes "good_sender E sent" "sender_ok v c r" "seq_val (hc_seq (co_out c)) + length data < 256 ^ 8" "co_packetsSent c + int (length data) < 2 ^ 63"
  obtains c' ws r' where "writeRecordLocked E recordTypeApplicationData data c = Some ((length data, None), c')"
    "sent (co_net c') = sent (co_net c) @ ws" "flight v r ws data r'" "sender_ok v c' r'" "same_conn c c'"
    "seq_val (hc_seq (co_out c')) \<le> seq_val (hc_seq (co_out c)) + length data" "co_packetsSent c' \<le> co_packetsSent c + int (length data)"
  using write_records_flight[OF assms, of 0] that
  by (auto simp: writeRecordLocked_def recordTypeApplicationData_def recordTypeChangeCipherSpec_def)

lemma write_locked_flight:
  assumes E: "good_sender E sent" and c: "sender_ok v c r" "can_write c"
    and n: "seq_val (hc_seq (co_out c)) + length b < 256 ^ 8" "co_packetsSent c + int (length b) < 2 ^ 63"
  obtains c' ws r' where "write_locked E b c = Some ((length b, None), c')"
    "sent (co_net c') = sent (co_net c) @ ws" "flight v r ws b r'" "sender_ok v c' r'" "same_conn c c'"
proof -
  have g: "hc_err (co_out c) = None" "co_handshakeStatus c" "\<not> co_closeNotifySent c" using c(2) by (simp_all add: can_write_def)
  have out: "sender_ok v (set_out_err None c') r'" "same_conn c (set_out_err None c')" "co_net (set_out_err None c') = co_net c'"
    if "sender_ok v c' r'" "same_conn c c'" for c' r'
    using that g by (auto simp: sender_ok_def same_conn_def set_out_err_def ends_in_sync_def)
  show thesis
  proof (cases "length b > 1 \<and> co_vers c \<le> VersionTLS10 \<and> is_block_mode (hc_cipher (co_out c))")
    case False
    obtain c' ws r' where w: "writeRecordLocked E recordTypeApplicationData b c = Some ((length b, None), c')"
      "sent (co_net c') = sent (co_net c) @ ws" "flight v r ws b r'" "sender_ok v c' r'" "same_conn c c'"
      by (rule writeRecord_flight[OF E c(1) n])
    have "write_locked E b c = Some ((length b, None), set_out_err None c')"
      using g False w(1) by (auto simp: write_locked_def)
    then show ?thesis using w out by (intro that[of "set_out_err None c'" ws r']) simp_all
  next
    case True
    then have l1: "length (take 1 b) = 1" by simp
    have n1: "seq_val (hc_seq (co_out c)) + length (take 1 b) < 256 ^ 8" "co_packetsSent c + int (length (take 1 b)) < 2 ^ 63" using n True by simp_all
    obtain c1 ws1 r1 where w1: "writeRecordLocked E recordTypeApplicationData (take 1 b) c = Some ((length (take 1 b), None), c1)"
      "sent (co_net c1) = sent (co_net c) @ ws1" "flight v r ws1 (take 1 b) r1" "sender_ok v c1 r1" "same_conn c c1"
      "seq_val (hc_seq (co_out c1)) \<le> seq_val (hc_seq (co_out c)) + length (take 1 b)" "co_packetsSent c1 \<le> co_packetsSent c + int (length (take 1 b))"
      by (rule writeRecord_flight[OF E c(1) n1])
    have n2: "seq_val (hc_seq (co_out c1)) + length (drop 1 b) < 256 ^ 8" "co_packetsSent c1 + int (length (drop 1 b)) < 2 ^ 63"
      using n w1(6,7) True by simp_all
    obtain c' ws r' where w: "writeRecordLocked E recordTypeApplicationData (drop 1 b) c1 = Some ((length (drop 1 b), None), c')"
      "sent (co_net c') = sent (co_net c1) @ ws" "flight v r1 ws (drop 1 b) r'" "sender_ok v c' r'" "same_conn c1 c'"
      by (rule writeRecord_flight[OF E w1(4) n2])
    have "Suc (length b - Suc 0) = length b" using True by linarith
    then have "write_locked E b c = Some ((length b, None), set_out_err None c')"
      using g True w1(1) w(1) l1 by (simp add: write_locked_def)
    moreover have "flight v r (ws1 @ ws) b r'" using flight_append[OF w1(3) w(3)] by simp
    moreover have "same_conn c c'" using w1(5) w(5) by (simp add: same_conn_def)
    ultimately show ?thesis using w w1(2) out by (intro that[of "set_out_err None c'" "ws1 @ ws" r']) simp_all
  qed
qed

lemma conn_Write_flight:
  assumes E: "good_sender E sent" and c: "sender_ok v c r" "can_write c"
    and n: "seq_val (hc_seq (co_out c)) + length b < 256 ^ 8" "co_packetsSent c + int (length b) < 2 ^ 63"
  obtains c' ws r' where "conn_Write E b c = Some ((length b, None), c')"
    "sent (co_net c') = sent (co_net c) @ ws" "flight v r ws b r'" "sender_ok v c' r'" "can_write c'"
proof -
  let ?c = "c\<lparr>co_activeCall := co_activeCall c + 2\<rparr>"
  have g: "co_handshakeStatus c" "co_handshakeErr c = None" "even (co_activeCall c)" using c(2) by (simp_all add: can_write_def)
  have "sender_ok v ?c r" "can_write ?c" using c by (simp_all add: sender_ok_def can_write_def)
  moreover have "seq_val (hc_seq (co_out ?c)) + length b < 256 ^ 8" "co_packetsSent ?c + int (length b) < 2 ^ 63" using n by simp_all
  ultimately obtain c' ws r' where w: "write_locked E b ?c = Some ((length b, None), c')"
    "sent (co_net c') = sent (co_net ?c) @ ws" "flight v r ws b r'" "sender_ok v c' r'" "same_conn ?c c'"
    by (rule write_locked_flight[OF E])
  have "conn_Write E b c = Some ((length b, None), c'\<lparr>co_activeCall := co_activeCall c' - 2\<rparr>)"
    using g w(1) by (simp add: conn_Write_def Handshake_def)
  moreover have "can_write (c'\<lparr>co_activeCall := co_activeCall c' - 2\<rparr>)"
    using c(2) w(5) by (simp add: can_write_def same_conn_def)
  ultimately show thesis using w by (intro that[of "c'\<lparr>co_activeCall := co_activeCall c' - 2\<rparr>" ws r']) (simp_all add: sender_ok_def)
qed

section \<open>Reading\<close>

text \<open>A transport that yields what is left of its bytes in pieces of any size, without error.\<close>

definition good_receiver :: "'n tls_env \<Rightarrow> ('n \<Rightarrow> byte list) \<Rightarrow> bool" where
  "good_receiver E rest \<longleftrightarrow> (\<forall>st. \<exists>m st'. te_read E st = ((m, None), st') \<and> rest st = m @ rest st' \<and> (rest st \<noteq> [] \<longrightarrow> m \<noteq> []))"

lemma readFromUntil_good:
  assumes E: "good_receiver E rest"
  shows "n \<le> length (data @ rest st) \<Longrightarrow> \<exists>data' st'. readFromUntil E n data st = Some (None, data', st') \<and> n \<le> length data' \<and> data' @ rest st' = data @ rest st"
proof (induction "length (rest st)" arbitrary: data st rule: less_induct)
  case less
  show ?case
  proof (cases "length data \<ge> n")
    case True
    then show ?thesis by (subst readFromUntil.simps) simp
  next
    case False
    then have ne: "rest st \<noteq> []" using less.prems by auto
    obtain m st' where r: "te_read E st = ((m, None), st')" "rest st = m @ rest st'" "m \<noteq> []"
      using E ne unfolding good_receiver_def by metis
    show ?thesis
    proof (cases "length (data @ m) \<ge> n")
      case True
      then show ?thesis using False r by (subst readFromUntil.simps) (simp add: Let_def)
    next
      case f: False
      have "length (rest st') < length (rest st)" "n \<le> length ((data @ m) @ rest st')" using r less.prems by simp_all
      from less.hyps[OF this] obtain data' st'' where "readFromUntil E n (data @ m) st' = Some (None, data', st'')" "n \<le> length data'"
        "data' @ rest st'' = (data @ m) @ rest st'" by blast
      then show ?thesis using False f r by (subst readFromUntil.simps) (simp add: Let_def)
    qed
  qed
qed

definition raw_of :: "'n tls_conn \<Rightarrow> byte list" where
  "raw_of c = (case co_rawInput c of None \<Rightarrow> [] | Some d \<Rightarrow> d)"

definition receiver_ok :: "u16 \<Rightarrow> 'n tls_conn \<Rightarrow> bool" where
  "receiver_ok v c \<longleftrightarrow> co_handshakeStatus c \<and> co_handshakeErr c = None \<and> hc_err (co_in c) = None \<and> co_hand c = [] \<and> co_haveVers c \<and> co_vers c = v"

lemma readRecord_flight:
  assumes E: "good_receiver E rest" and c: "receiver_ok v c" and f: "flight v (co_in c) (raw_of c @ rest (co_net c)) bs r" and ne: "bs \<noteq> []"
  obtains c' d off bs' where "readRecord E recordTypeApplicationData c = Some (None, c')" "co_input c' = Some (d, off)" "drop off d \<noteq> []"
    "bs = drop off d @ bs'" "flight v (co_in c') (raw_of c' @ rest (co_net c')) bs' r" "receiver_ok v c'"
proof -
  obtain ct ws off al d r1 bs' where w: "raw_of c @ rest (co_net c) = recordTypeApplicationData # w16 v @ be16 (length ct) @ ct @ ws"
    "decrypt (co_in c) (recordTypeApplicationData # w16 v @ be16 (length ct) @ ct) = Some ((True, off, al), d, r1)" "length ct \<le> maxCiphertext"
    "drop off d \<noteq> []" "length (drop off d) \<le> maxPlaintext" "hc_err r1 = hc_err (co_in c)" "flight v r1 ws bs' r" "bs = drop off d @ bs'"
    using f
  proof (cases rule: flight.cases)
    case (flight_rec ct off al d r1 p ws bs')
    then show ?thesis by (intro that[of ct ws off al d r1 bs']) simp_all
  qed (use ne in simp)
  define h where "h = [recordTypeApplicationData, b1 (unat v), b0 (unat v), b1 (length ct), b0 (length ct)]"
  have hw: "recordTypeApplicationData # w16 v @ be16 (length ct) @ zs = h @ zs" for zs by (simp add: h_def w16_def be16_def)
  have lh: "length h = recordHeaderLen" by (simp add: h_def recordHeaderLen_def)
  have lct: "get16 (b1 (length ct)) (b0 (length ct)) = length ct" using w(3) by (intro get16_be) (simp add: maxCiphertext_def)
  obtain raw st where r1: "readFromUntil E recordHeaderLen (raw_of c) (co_net c) = Some (None, raw, st)" "recordHeaderLen \<le> length raw"
    "raw @ rest st = h @ ct @ ws" using readFromUntil_good[OF E, of recordHeaderLen "raw_of c" "co_net c"] w(1) hw
    by (auto simp: h_def recordHeaderLen_def)
  have "take 5 (raw @ rest st) = h" using r1(3) by (simp add: h_def)
  then have raw5: "take 5 raw = h" using r1(2) by (simp add: recordHeaderLen_def)
  have at: "raw ! i = h ! i" if "i < 5" for i using raw5 that nth_take[of i 5 raw] by simp
  have hd: "raw ! 0 = recordTypeApplicationData" "of_nat (get16 (raw ! 1) (raw ! 2)) = v" "get16 (raw ! 3) (raw ! 4) = length ct"
    using at[of 0] at[of 1] at[of 2] at[of 3] at[of 4] lct by (simp_all add: h_def get16_w16)
  let ?c1 = "c\<lparr>co_net := st, co_rawInput := Some raw\<rparr>"
  have chk: "check_record_header recordTypeApplicationData ?c1 raw = None"
    using hd c w(3) by (simp add: check_record_header_def receiver_ok_def record_types)
  obtain raw2 st2 where r2: "readFromUntil E (recordHeaderLen + length ct) raw st = Some (None, raw2, st2)" "recordHeaderLen + length ct \<le> length raw2"
    "raw2 @ rest st2 = h @ ct @ ws" using readFromUntil_good[OF E, of "recordHeaderLen + length ct" raw st] r1(3)
    by (auto simp: h_def recordHeaderLen_def)
  have "take (recordHeaderLen + length ct) (raw2 @ rest st2) = h @ ct" using r2(3) lh by simp
  then have tk: "take (recordHeaderLen + length ct) raw2 = h @ ct" using r2(2) by simp
  have "drop (recordHeaderLen + length ct) (raw2 @ rest st2) = ws" using r2(3) lh by simp
  then have dr: "drop (recordHeaderLen + length ct) raw2 @ rest st2 = ws" using r2(2) by simp
  let ?raw = "if length raw2 \<le> recordHeaderLen + length ct then None else Some (drop (recordHeaderLen + length ct) raw2)"
  let ?c = "c\<lparr>co_net := st2, co_rawInput := ?raw, co_in := r1, co_warnCount := 0, co_input := Some (d, off)\<rparr>"
  have dec: "decrypt (co_in c) (h @ ct) = Some ((True, off, al), d, r1)" using w(2) hw[of ct] by simp
  have body: "read_body E recordTypeApplicationData raw ?c1 = Some ((False, None), ?c)"
    using hd r2(1) tk dec w(4,5,6) c unfolding read_body_def
    by (simp add: process_record_def receiver_ok_def record_types del: drop_eq_Nil length_drop)
  define cc where "cc = ?c"
  have "read_record_once E recordTypeApplicationData c = Some ((False, None), cc)"
    using r1(1) chk body by (simp add: read_record_once_def raw_of_def cc_def)
  then have "readRecord E recordTypeApplicationData c = Some (None, ?c)" unfolding cc_def[symmetric]
    using c by (simp add: readRecord_def receiver_ok_def record_types read_again.simps)
  moreover have "raw_of ?c @ rest (co_net ?c) = ws" using dr by (auto simp: raw_of_def)
  ultimately show thesis using w c by (intro that[of ?c d off bs']) (simp_all add: receiver_ok_def)
qed

text \<open>What the receiver still has to hand over: the opened record, then the records in its buffer and on the wire.\<close>

definition undelivered :: "u16 \<Rightarrow> ('n \<Rightarrow> byte list) \<Rightarrow> 'n tls_conn \<Rightarrow> byte list \<Rightarrow> half_conn \<Rightarrow> bool" where
  "undelivered v rest c bs r \<longleftrightarrow> receiver_ok v c \<and>
     (case co_input c of None \<Rightarrow> flight v (co_in c) (raw_of c @ rest (co_net c)) bs r
      | Some (d, off) \<Rightarrow> drop off d \<noteq> [] \<and> (\<exists>bs'. bs = drop off d @ bs' \<and> flight v (co_in c) (raw_of c @ rest (co_net c)) bs' r))"

lemma fill_input_flight:
  assumes E: "good_receiver E rest" and u: "undelivered v rest c bs r" and ne: "bs \<noteq> []"
  obtains c' d off bs' where "fill_input E c = Some (None, c')" "co_input c' = Some (d, off)" "drop off d \<noteq> []" "bs = drop off d @ bs'"
    "flight v (co_in c') (raw_of c' @ rest (co_net c')) bs' r" "receiver_ok v c'"
proof (cases "co_input c")
  case (Some y)
  obtain d off where "y = (d, off)" by fastforce
  then show thesis using Some u that[of c d off]
    by (subst (asm) fill_input.simps) (auto simp: undelivered_def)
next
  case None
  then have f: "receiver_ok v c" "flight v (co_in c) (raw_of c @ rest (co_net c)) bs r" using u by (simp_all add: undelivered_def)
  obtain c' d off bs' where r: "readRecord E recordTypeApplicationData c = Some (None, c')" "co_input c' = Some (d, off)" "drop off d \<noteq> []"
    "bs = drop off d @ bs'" "flight v (co_in c') (raw_of c' @ rest (co_net c')) bs' r" "receiver_ok v c'"
    by (rule readRecord_flight[OF E f ne])
  have "fill_input E c' = Some (None, c')" using r(2) by (subst fill_input.simps) simp
  then have "fill_input E c = Some (None, c')"
    using None r(1,6) f(1) by (subst fill_input.simps) (simp add: receiver_ok_def)
  then show thesis using r that by blast
qed

lemma flight_head: "flight v r ws bs r' \<Longrightarrow> ws = b # ws' \<Longrightarrow> b = recordTypeApplicationData"
  by (induction rule: flight.induct) simp_all

lemma conn_Read_flight:
  assumes E: "good_receiver E rest" and u: "undelivered v rest c bs r" and ne: "bs \<noteq> []" and len: "0 < len"
  obtains d c' bs' where "conn_Read E len c = Some ((d, None), c')" "d \<noteq> []" "length d \<le> len" "bs = d @ bs'" "undelivered v rest c' bs' r"
proof -
  obtain c1 b off bs1 where f: "fill_input E c = Some (None, c1)" "co_input c1 = Some (b, off)" "drop off b \<noteq> []" "bs = drop off b @ bs1"
    "flight v (co_in c1) (raw_of c1 @ rest (co_net c1)) bs1 r" "receiver_ok v c1"
    by (rule fill_input_flight[OF E u ne])
  define d where "d = take len (drop off b)"
  define off' where "off' = off + length d"
  define c2 where "c2 = c1\<lparr>co_input := (if off' \<ge> length b then None else Some (b, off'))\<rparr>"
  have d: "d \<noteq> []" "length d \<le> len" using f(3) len by (auto simp: d_def)
  have whole: "drop off b = d @ drop len (drop off b)" by (simp add: d_def del: drop_drop)
  then have rest: "drop (length d) (drop off b) = drop len (drop off b)" by (metis append_eq_conv_conj)
  have "drop off' b = drop (length d) (drop off b)" by (simp add: off'_def add.commute)
  then have split: "drop off b = d @ drop off' b" unfolding rest by (simp only: whole[symmetric])
  have c2: "co_rawInput c2 = co_rawInput c1" "receiver_ok v c2" "co_in c2 = co_in c1" "co_net c2 = co_net c1"
    using f(6) by (simp_all add: c2_def receiver_ok_def)
  have tail: "read_waiting_alert E d c2 = Some (None, c2)"
  proof (cases "co_rawInput c1")
    case (Some ri)
    have "ri ! 0 \<noteq> recordTypeAlert" if "length ri > 0"
    proof -
      obtain x xs where "ri = x # xs" using \<open>length ri > 0\<close> by (cases ri) auto
      then have "x = recordTypeApplicationData" using flight_head[OF f(5)] Some by (simp add: raw_of_def)
      then show ?thesis using \<open>ri = x # xs\<close> by (simp add: record_types)
    qed
    then show ?thesis using Some c2 by (auto simp: read_waiting_alert_def)
  qed (simp add: c2 read_waiting_alert_def)
  have "take_input len c1 = Some (d, c2)"
    using f(2) by (simp add: take_input_def Let_def d_def off'_def c2_def)
  then have "read_turns E len (Suc 100) c = Some ((d, None), c2)"
    using f(1,6) d(1) tail unfolding read_turns.simps by (simp add: receiver_ok_def)
  then have "read_turns E len 101 c = Some ((d, None), c2)" by simp
  then have "conn_Read E len c = Some ((d, None), c2)"
    using u len by (simp add: conn_Read_def Handshake_def undelivered_def receiver_ok_def)
  moreover have "undelivered v rest c2 (drop off' b @ bs1) r"
    using f(5) c2 by (auto simp: undelivered_def raw_of_def c2_def)
  ultimately show thesis using d f(4) split by (intro that[of d c2 "drop off' b @ bs1"]) simp_all
qed

section \<open>Both directions of the claim\<close>

text \<open>
  \<open>linked v rest W R bs\<close>: writer \<open>W\<close> and reader \<open>R\<close> are the established ends of a direction, and \<open>bs\<close>
  is what was written and not yet read.
\<close>

definition linked :: "u16 \<Rightarrow> ('m \<Rightarrow> byte list) \<Rightarrow> 'n tls_conn \<Rightarrow> 'm tls_conn \<Rightarrow> byte list \<Rightarrow> bool" where
  "linked v rest W R bs \<longleftrightarrow> (\<exists>r. sender_ok v W r \<and> can_write W \<and> undelivered v rest R bs r)"

lemma undelivered_more:
  assumes u: "undelivered v rest R bs r" and f: "flight v r ws b r'" and st: "rest st = rest (co_net R) @ ws"
  shows "undelivered v rest (R\<lparr>co_net := st\<rparr>) (bs @ b) r'"
proof -
  have "flight v (co_in R) (raw_of R @ rest st) (x @ b) r'" if "flight v (co_in R) (raw_of R @ rest (co_net R)) x r" for x
    using flight_append[OF that f] st by simp
  then show ?thesis using u by (fastforce simp: undelivered_def receiver_ok_def raw_of_def split: option.splits)
qed

text \<open>C3: A TLS connection refines a byte stream. While an established writer and reader are linked
  with the bytes \<open>bs\<close> under way, \<open>Write\<close> of any bytes returns their number without error and, once
  the transport has carried the records it sent, leaves the two linked with exactly those bytes added
  behind; and as long as something is under way, \<open>Read\<close> into a buffer of any size returns, without
  error, a first part of it, not empty and not longer than the buffer, and leaves the rest under way.
  This holds for every kind of suite, record sizing and version, and however the transport cuts the
  records up.\<close>

theorem tls_refines_byte_stream:
  assumes "good_sender E1 sent" "good_receiver E2 rest" "linked v rest W R bs"
  shows "(seq_val (hc_seq (co_out W)) + length b < 256 ^ 8 \<and> co_packetsSent W + int (length b) < 2 ^ 63 \<longrightarrow>
      (\<exists>W' ws. conn_Write E1 b W = Some ((length b, None), W') \<and> sent (co_net W') = sent (co_net W) @ ws
        \<and> (\<forall>st. rest st = rest (co_net R) @ ws \<longrightarrow> linked v rest W' (R\<lparr>co_net := st\<rparr>) (bs @ b))))
    \<and> (bs \<noteq> [] \<and> 0 < len \<longrightarrow>
      (\<exists>d R' bs'. conn_Read E2 len R = Some ((d, None), R') \<and> d \<noteq> [] \<and> length d \<le> len \<and> bs = d @ bs' \<and> linked v rest W R' bs'))"
proof -
  obtain r where r: "sender_ok v W r" "can_write W" "undelivered v rest R bs r" using assms(3) unfolding linked_def by blast
  have w: "seq_val (hc_seq (co_out W)) + length b < 256 ^ 8 \<and> co_packetsSent W + int (length b) < 2 ^ 63 \<longrightarrow>
      (\<exists>W' ws. conn_Write E1 b W = Some ((length b, None), W') \<and> sent (co_net W') = sent (co_net W) @ ws
        \<and> (\<forall>st. rest st = rest (co_net R) @ ws \<longrightarrow> linked v rest W' (R\<lparr>co_net := st\<rparr>) (bs @ b)))"
  proof (intro impI, elim conjE)
    assume n: "seq_val (hc_seq (co_out W)) + length b < 256 ^ 8" "co_packetsSent W + int (length b) < 2 ^ 63"
    obtain W' ws r' where wr: "conn_Write E1 b W = Some ((length b, None), W')" "sent (co_net W') = sent (co_net W) @ ws"
      "flight v r ws b r'" "sender_ok v W' r'" "can_write W'" by (rule conn_Write_flight[OF assms(1) r(1,2) n])
    then show "\<exists>W' ws. conn_Write E1 b W = Some ((length b, None), W') \<and> sent (co_net W') = sent (co_net W) @ ws
        \<and> (\<forall>st. rest st = rest (co_net R) @ ws \<longrightarrow> linked v rest W' (R\<lparr>co_net := st\<rparr>) (bs @ b))"
      using undelivered_more[OF r(3) wr(3)] unfolding linked_def by blast
  qed
  have "bs \<noteq> [] \<and> 0 < len \<longrightarrow>
      (\<exists>d R' bs'. conn_Read E2 len R = Some ((d, None), R') \<and> d \<noteq> [] \<and> length d \<le> len \<and> bs = d @ bs' \<and> linked v rest W R' bs')"
  proof (intro impI, elim conjE)
    assume n: "bs \<noteq> []" "0 < len"
    obtain d R' bs' where "conn_Read E2 len R = Some ((d, None), R')" "d \<noteq> []" "length d \<le> len" "bs = d @ bs'" "undelivered v rest R' bs' r"
      by (rule conn_Read_flight[OF assms(2) r(3) n])
    then show "\<exists>d R' bs'. conn_Read E2 len R = Some ((d, None), R') \<and> d \<noteq> [] \<and> length d \<le> len \<and> bs = d @ bs' \<and> linked v rest W R' bs'"
      using r(1,2) unfolding linked_def by blast
  qed
  with w show ?thesis by (rule conjI)
qed

text \<open>The toy suite on both ends, over a wire that is a list of bytes.\<close>

definition wire_env :: "byte list tls_env" where
  "wire_env = \<lparr>te_read = (\<lambda>st. ((take 4 st, None), drop 4 st)), te_write = (\<lambda>d st. ((length d, None), st @ d)),
     te_rand = (\<lambda>k st. (Inl (replicate k 7), st)), te_close = (\<lambda>st. (None, st)), te_handshake = (\<lambda>_ c. Some (None, c))\<rparr>"

definition toy_conn :: "byte list \<Rightarrow> half_conn \<Rightarrow> half_conn \<Rightarrow> byte list tls_conn" where
  "toy_conn st i out = \<lparr>co_net = st, co_isClient = True, co_handshakeStatus = True, co_handshakeErr = None, co_vers = VersionTLS12,
     co_haveVers = True, co_handshakes = 1, co_closeNotifyErr = None, co_closeNotifySent = False, co_in = i, co_out = out,
     co_rawInput = None, co_input = None, co_hand = [], co_buffering = False, co_sendBuf = [], co_bytesSent = 0, co_packetsSent = 0,
     co_warnCount = 0, co_activeCall = 0, co_DynamicRecordSizingDisabled = False, co_Renegotiation = RenegotiateNever, co_GMSupport = None\<rparr>"

lemma wire_env_good: "good_sender wire_env (\<lambda>st. st)" "good_receiver wire_env (\<lambda>st. st)"
  by (auto simp: good_sender_def good_receiver_def wire_env_def)

lemma toy_linked: "linked VersionTLS12 (\<lambda>st. st) (toy_conn [] toy_receiver toy_sender) (toy_conn [] toy_receiver toy_sender) []"
  using toy_sync(1) unfolding linked_def
  by (intro exI[of _ toy_receiver])
     (auto simp: sender_ok_def can_write_def undelivered_def receiver_ok_def raw_of_def toy_conn_def VersionTLS12_def
       toy_sender_def toy_receiver_def intro: flight_nil)

theorem tls_refines_byte_stream_witness:
  "\<exists>W' ws d R'. conn_Write wire_env [1, 2, 3] (toy_conn [] toy_receiver toy_sender) = Some ((3, None), W')
     \<and> conn_Read wire_env 8 (toy_conn ws toy_receiver toy_sender) = Some ((d, None), R') \<and> d \<noteq> []"
proof -
  let ?c = "toy_conn [] toy_receiver toy_sender"
  have n: "seq_val (hc_seq (co_out ?c)) + length [1, 2, 3 :: byte] < 256 ^ 8 \<and> co_packetsSent ?c + int (length [1, 2, 3 :: byte]) < 2 ^ 63"
    using toy_sync(2) by (simp add: toy_conn_def)
  from tls_refines_byte_stream[OF wire_env_good toy_linked, of "[1, 2, 3]" 0] n obtain W' ws where
    w: "conn_Write wire_env [1, 2, 3] ?c = Some ((length [1, 2, 3 :: byte], None), W')"
      "linked VersionTLS12 (\<lambda>st. st) W' (?c\<lparr>co_net := ws\<rparr>) ([] @ [1, 2, 3])"
    by (auto simp: toy_conn_def)
  have "?c\<lparr>co_net := ws\<rparr> = toy_conn ws toy_receiver toy_sender" by (simp add: toy_conn_def)
  then show ?thesis
    using w tls_refines_byte_stream[OF wire_env_good w(2), of "[]" 8] by auto
qed

end
