(* ===== verification/Unbounded_SPSC.thy ===== *)
theory Unbounded_SPSC
  imports Unbounded_MPSC
begin

text \<open>
  \<^verbatim>\<open>zqueue/unboundedspsc.go\<close>: the unbounded queue for one producer and one consumer. Its nodes, its pool and its
  consumer are those of the queue for many producers, so it lives on the same store of nodes (whose stop flag it does not
  have and leaves alone). Its producer stores the link first and moves its own \<open>head\<close> afterwards, without an atomic swap.
  Every run is, up to the position of \<open>head\<close> between the two, a run of the queue for many producers.
\<close>

section \<open>Operations\<close>

definition NewUnboundedSPSC :: "'a::zero umpsc" where
  "NewUnboundedSPSC = \<lparr>us_next = (\<lambda>_. None), us_val = (\<lambda>_. 0), us_head = 0, us_tail = 0, us_pool = [], us_fresh = 1,
     us_recycle = [], us_recycleCap = 256, us_stopped = False\<rparr>"

definition EnqueueS :: "'a \<Rightarrow> 'a umpsc \<Rightarrow> 'a umpsc" where
  "EnqueueS v s =
     (let (n, s) = pool_get 0 s; s = set_next n None (set_val n v s); s = set_next (us_head s) (Some n) s
      in s\<lparr>us_head := n\<rparr>)"

definition EnqueueBatchS :: "'a list \<Rightarrow> 'a umpsc \<Rightarrow> nat \<times> 'a umpsc" where
  "EnqueueBatchS elements s =
     (case elements of [] \<Rightarrow> (0, s)
      | x # xs \<Rightarrow>
          let (first, s) = pool_get 0 s; (lst, s) = build_chain first xs (set_val first x s); s = set_next lst None s;
              s = set_next (us_head s) (Some first) s
          in (length elements, s\<lparr>us_head := lst\<rparr>))"

definition DequeueS :: "'a::zero umpsc \<Rightarrow> ('a \<times> bool) \<times> 'a umpsc" where
  "DequeueS s =
     (let tail = us_tail s
      in case us_next s tail of
           Some nxt \<Rightarrow>
             let v = us_val s nxt; s = (set_val nxt 0 s)\<lparr>us_tail := nxt\<rparr>; s = set_val tail 0 (set_next tail None s);
                 s = (if length (us_recycle s) < us_recycleCap s then s\<lparr>us_recycle := us_recycle s @ [tail]\<rparr>
                      else (pool_put (us_recycle s) s)\<lparr>us_recycle := [tail]\<rparr>)
             in ((v, True), s)
         | None \<Rightarrow> ((0, False), s))"

text \<open>\<open>DequeueBatch\<close> for a buffer of \<open>limit\<close> elements: what it stores at the front of the buffer.\<close>

fun DequeueBatchS :: "nat \<Rightarrow> 'a::zero umpsc \<Rightarrow> 'a list \<times> 'a umpsc" where
  "DequeueBatchS 0 s = ([], s)"
| "DequeueBatchS (Suc limit) s =
     (let ((v, ok), s1) = DequeueS s in if ok then let (vs, s2) = DequeueBatchS limit s1 in (v # vs, s2) else ([], s))"

definition EmptyS :: "'a umpsc \<Rightarrow> bool" where "EmptyS s \<longleftrightarrow> us_next s (us_tail s) = None"

definition CloseS :: "'a umpsc \<Rightarrow> 'a umpsc" where
  "CloseS s = (pool_put (us_recycle s) s)\<lparr>us_recycle := []\<rparr>"

lemma DequeueS_eq: "DequeueS s = DequeueM s"
  by (simp add: DequeueS_def DequeueM_def recycle_def Let_def set_next_def set_val_def split: option.split)

section \<open>The producer beside the consumer\<close>

text \<open>
  Where the producer is: taking nodes, with its private chain closed and about to store the link, or about to move \<open>head\<close>.
\<close>

datatype 'a sprod_pc = UIdle | UBuilding "nat list" "'a list" | UReady "nat list" | UHead nat

record 'a spsc_sys =
  su_q :: "'a umpsc"
  su_pc :: "'a sprod_pc"
  su_in :: "'a list"
  su_out :: "'a list"

inductive spsc_step :: "'a::zero spsc_sys \<Rightarrow> 'a spsc_sys \<Rightarrow> bool" where
  start: "su_pc m = UIdle \<Longrightarrow> xs \<noteq> [] \<Longrightarrow> spsc_step m (m\<lparr>su_pc := UBuilding [] xs\<rparr>)"
| build: "su_pc m = UBuilding ns (x # xs) \<Longrightarrow> pool_get k (su_q m) = (n, q') \<Longrightarrow>
    spsc_step m (m\<lparr>su_q := chain_node ns n x q', su_pc := UBuilding (ns @ [n]) xs\<rparr>)"
| built: "su_pc m = UBuilding ns [] \<Longrightarrow> spsc_step m (m\<lparr>su_q := set_next (last ns) None (su_q m), su_pc := UReady ns\<rparr>)"
| link: "su_pc m = UReady ns \<Longrightarrow>
    spsc_step m (m\<lparr>su_q := set_next (us_head (su_q m)) (Some (hd ns)) (su_q m), su_pc := UHead (last ns),
                   su_in := su_in m @ map (us_val (su_q m)) ns\<rparr>)"
| move: "su_pc m = UHead l \<Longrightarrow> spsc_step m (m\<lparr>su_q := (su_q m)\<lparr>us_head := l\<rparr>, su_pc := UIdle\<rparr>)"
| dequeue: "DequeueS (su_q m) = ((v, b), q') \<Longrightarrow> spsc_step m (m\<lparr>su_q := q', su_out := su_out m @ (if b then [v] else [])\<rparr>)"
| close: "spsc_step m (m\<lparr>su_q := CloseS (su_q m)\<rparr>)"

definition spsc_init :: "'a::zero spsc_sys" where
  "spsc_init = \<lparr>su_q = NewUnboundedSPSC, su_pc = UIdle, su_in = [], su_out = []\<rparr>"

inductive spsc_reach :: "'a::zero spsc_sys \<Rightarrow> bool" where
  init: "spsc_reach spsc_init"
| step: "spsc_reach m \<Longrightarrow> spsc_step m m' \<Longrightarrow> spsc_reach m'"

section \<open>A run of the queue for many producers\<close>

text \<open>Between the link and the move of \<open>head\<close>, the other queue has moved its head already.\<close>

fun pc_abs :: "'a sprod_pc \<Rightarrow> 'a prod_pc" where
  "pc_abs UIdle = Idle"
| "pc_abs (UBuilding ns xs) = Building ns xs"
| "pc_abs (UReady ns) = Ready ns"
| "pc_abs (UHead l) = Idle"

fun head_abs :: "'a sprod_pc \<Rightarrow> 'a umpsc \<Rightarrow> 'a umpsc" where
  "head_abs (UHead l) q = q\<lparr>us_head := l\<rparr>"
| "head_abs p q = q"

definition spsc_abs :: "'a spsc_sys \<Rightarrow> 'a mpsc_sys" where
  "spsc_abs m = \<lparr>sys_q = head_abs (su_pc m) (su_q m), sys_pc = (\<lambda>_. Idle)(0 := pc_abs (su_pc m)), sys_in = su_in m, sys_out = su_out m\<rparr>"

lemma abs_sel [simp]:
  "sys_q (spsc_abs m) = head_abs (su_pc m) (su_q m)" "sys_pc (spsc_abs m) = (\<lambda>_. Idle)(0 := pc_abs (su_pc m))"
  "sys_in (spsc_abs m) = su_in m" "sys_out (spsc_abs m) = su_out m"
  by (simp_all add: spsc_abs_def)

lemma DequeueM_head: "DequeueM (q\<lparr>us_head := h\<rparr>) = (case DequeueM q of (r, q') \<Rightarrow> (r, q'\<lparr>us_head := h\<rparr>))"
  by (auto simp: DequeueM_def recycle_def pool_put_def set_next_def set_val_def Let_def split: option.split)

lemma head_abs_dequeue: "DequeueM q = (r, q') \<Longrightarrow> DequeueM (head_abs p q) = (r, head_abs p q')"
  by (cases p) (simp_all add: DequeueM_head)

lemma head_abs_close: "Shrink (head_abs p q) = head_abs p (CloseS q)"
  by (cases p) (simp_all add: Shrink_def CloseS_def pool_put_def)

text \<open>Nothing here sets the stop flag.\<close>

lemma spsc_step_runs: "spsc_step m m' \<Longrightarrow> \<not> us_stopped (su_q m) \<Longrightarrow> \<not> us_stopped (su_q m')"
  by (induction rule: spsc_step.induct)
    (auto simp: pool_get_def chain_node_def set_next_def set_val_def DequeueS_def pool_put_def CloseS_def Let_def split: option.splits if_splits)

lemma spsc_reach_runs: "spsc_reach m \<Longrightarrow> \<not> us_stopped (su_q m)"
  by (induction rule: spsc_reach.induct) (auto simp: spsc_init_def NewUnboundedSPSC_def dest: spsc_step_runs)

lemma spsc_simulates:
  assumes "spsc_step m m'" "mpsc_reach (spsc_abs m)" "\<not> us_stopped (su_q m)"
  shows "mpsc_reach (spsc_abs m')"
  using assms
proof (induction rule: spsc_step.induct)
  case (start m xs)
  have "mpsc_step (spsc_abs m) (spsc_abs (m\<lparr>su_pc := UBuilding [] xs\<rparr>))"
    using mpsc_step.start[of "spsc_abs m" 0 xs] start by (simp add: spsc_abs_def)
  then show ?case using start mpsc_reach.step by blast
next
  case (build m ns x xs k n q')
  have "mpsc_step (spsc_abs m) (spsc_abs (m\<lparr>su_q := chain_node ns n x q', su_pc := UBuilding (ns @ [n]) xs\<rparr>))"
    using mpsc_step.build[of "spsc_abs m" 0 ns x xs k n q'] build by (simp add: spsc_abs_def)
  then show ?case using build mpsc_reach.step by blast
next
  case (built m ns)
  have "mpsc_step (spsc_abs m) (spsc_abs (m\<lparr>su_q := set_next (last ns) None (su_q m), su_pc := UReady ns\<rparr>))"
    using mpsc_step.built[of "spsc_abs m" 0 ns] built by (simp add: spsc_abs_def)
  then show ?case using built mpsc_reach.step by blast
next
  case (link m ns)
  let ?a = "spsc_abs m" and ?h = "us_head (su_q m)"
  let ?b = "?a\<lparr>sys_pc := (sys_pc ?a)(0 := Swapping ns)\<rparr>"
  let ?c = "?b\<lparr>sys_q := (su_q m)\<lparr>us_head := last ns\<rparr>, sys_pc := (sys_pc ?b)(0 := Linking ?h (hd ns)), sys_in := su_in m @ map (us_val (su_q m)) ns\<rparr>"
  have "mpsc_step ?a ?b" using mpsc_step.recheck[of ?a 0 ns] link by simp
  then have "mpsc_reach ?b" using link mpsc_reach.step by blast
  moreover have "mpsc_step ?b ?c" using mpsc_step.swap[of ?b 0 ns ?h "(su_q m)\<lparr>us_head := last ns\<rparr>"] link by (simp add: swap_head_def)
  ultimately have "mpsc_reach ?c" using mpsc_reach.step by blast
  moreover have "mpsc_step ?c (?c\<lparr>sys_q := set_next ?h (Some (hd ns)) (sys_q ?c), sys_pc := (sys_pc ?c)(0 := Idle)\<rparr>)"
    by (rule mpsc_step.link) simp
  moreover have "?c\<lparr>sys_q := set_next ?h (Some (hd ns)) (sys_q ?c), sys_pc := (sys_pc ?c)(0 := Idle)\<rparr>
      = spsc_abs (m\<lparr>su_q := set_next ?h (Some (hd ns)) (su_q m), su_pc := UHead (last ns), su_in := su_in m @ map (us_val (su_q m)) ns\<rparr>)"
    by (simp add: spsc_abs_def set_next_def)
  ultimately show ?case using mpsc_reach.step by metis
next
  case (move m l)
  then show ?case by (simp add: spsc_abs_def)
next
  case (dequeue m v b q')
  have "mpsc_step (spsc_abs m) (spsc_abs (m\<lparr>su_q := q', su_out := su_out m @ (if b then [v] else [])\<rparr>))"
    using mpsc_step.dequeue[of "spsc_abs m" v b "head_abs (su_pc m) q'"] head_abs_dequeue[of "su_q m" "(v, b)" q' "su_pc m"] dequeue
    by (simp add: spsc_abs_def DequeueS_eq)
  then show ?case using dequeue mpsc_reach.step by blast
next
  case (close m)
  have "mpsc_step (spsc_abs m) (spsc_abs (m\<lparr>su_q := CloseS (su_q m)\<rparr>))"
    using mpsc_step.shrink[of "spsc_abs m"] by (simp add: spsc_abs_def head_abs_close)
  then show ?case using close mpsc_reach.step by blast
qed

lemma spsc_reach_abs: "spsc_reach m \<Longrightarrow> mpsc_reach (spsc_abs m)"
proof (induction rule: spsc_reach.induct)
  case init
  have "spsc_abs (spsc_init :: 'a spsc_sys) = mpsc_init" by (simp add: spsc_abs_def spsc_init_def mpsc_init_def NewUnboundedSPSC_def NewUnboundedMPSC_def fun_eq_iff)
  then show ?case using mpsc_reach.init by simp
next
  case (step m m')
  then show ?case using spsc_simulates spsc_reach_runs by blast
qed

section \<open>First in, first out\<close>

lemma no_link_quiet:
  assumes "umpsc_inv q pcs chain" "\<And>p a b. pcs p \<noteq> Linking a b"
  shows "umpsc_inv q quiet chain"
proof -
  have "node_ok q quiet chain" using umpsc_invD(1)[OF assms(1)] unfolding node_ok_def by (simp add: quiet_def)
  moreover have "chain_ok q quiet chain" using umpsc_invD(2)[OF assms(1)] assms(2) unfolding chain_ok_def by (auto simp: quiet_def)
  ultimately show ?thesis by (simp add: umpsc_inv_def quiet_def)
qed

lemma spsc_chain:
  assumes "spsc_reach m"
  obtains chain where "mpsc_inv (spsc_abs m) chain" "umpsc_inv (head_abs (su_pc m) (su_q m)) quiet chain"
proof -
  obtain chain where i: "mpsc_inv (spsc_abs m) chain" using mpsc_reach_inv[OF spsc_reach_abs[OF assms]] by blast
  have "pc_abs (su_pc m) \<noteq> Linking a b" for a b by (cases "su_pc m") simp_all
  then have "umpsc_inv (head_abs (su_pc m) (su_q m)) quiet chain"
    using i no_link_quiet[of _ "(\<lambda>_. Idle)(0 := pc_abs (su_pc m))" chain] by (simp add: mpsc_inv_def)
  then show thesis using i that by blast
qed

lemma head_abs_sel [simp]:
  "us_next (head_abs p q) = us_next q" "us_val (head_abs p q) = us_val q" "us_tail (head_abs p q) = us_tail q"
  "us_fresh (head_abs p q) = us_fresh q" "given_back (head_abs p q) = given_back q"
  by (cases p; simp add: given_back_def)+

lemma head_abs_contents: "um_contents (head_abs p q) = um_contents q"
  unfolding um_contents_def by (simp, rule um_list_cong) simp_all

text \<open>
  C38: The unbounded queue for one producer and one consumer, under every interleaving of the steps of the two: the values
  whose link has been stored are those taken out followed by those in the queue, in the order of insertion, batches included;
  \<open>Empty\<close> says whether there are any. When the producer is about to store its link, the node it writes to has not been given
  back and its link is still free, so the consumer cannot be recycling it. (Between the link and the move of \<open>head\<close> the
  consumer may have given that node back already, but the producer does not touch it any more.)
\<close>
theorem unbounded_spsc_fifo:
  assumes "spsc_reach m"
  shows "su_in m = su_out m @ um_contents (su_q m) \<and> (EmptyS (su_q m) \<longleftrightarrow> um_contents (su_q m) = [])
    \<and> (\<forall>ns. su_pc m = UReady ns \<longrightarrow> us_head (su_q m) \<notin> given_back (su_q m) \<and> us_next (su_q m) (us_head (su_q m)) = None
          \<and> set ns \<inter> given_back (su_q m) = {})"
proof -
  obtain chain where i: "mpsc_inv (spsc_abs m) chain" "umpsc_inv (head_abs (su_pc m) (su_q m)) quiet chain"
    by (rule spsc_chain[OF assms])
  have c: "um_contents (su_q m) = map (us_val (su_q m)) (tl chain)" using um_contents_eq[OF i(2)] by (simp add: head_abs_contents)
  note l = quiet_links[OF i(2), simplified]
  have "us_next (su_q m) (us_tail (su_q m)) = None \<longleftrightarrow> tl chain = []"
  proof (cases "tl chain")
    case Nil
    then have "chain = [us_tail (su_q m)]" using l(2,5) by (cases chain) auto
    then show ?thesis using l(3) Nil by simp
  next
    case (Cons b bs)
    then have "chain = us_tail (su_q m) # b # bs" using l(2,5) by (cases chain) auto
    then show ?thesis using l(1) Cons by (auto simp: links_def)
  qed
  moreover have "us_head (su_q m) \<notin> given_back (su_q m) \<and> us_next (su_q m) (us_head (su_q m)) = None \<and> set ns \<inter> given_back (su_q m) = {}"
    if "su_pc m = UReady ns" for ns
  proof -
    have u: "umpsc_inv (su_q m) (sys_pc (spsc_abs m)) chain" "sys_pc (spsc_abs m) 0 = Ready ns" using i(1) that by (simp_all add: mpsc_inv_def)
    have h: "last chain = us_head (su_q m)" "us_next (su_q m) (last chain) = None" "chain \<noteq> []"
      using umpsc_invD(2)[OF u(1)] unfolding chain_ok_def by blast+
    note d = node_okD[OF umpsc_invD(1)[OF u(1)]]
    have "us_head (su_q m) \<in> set chain" using h(1,3) last_in_set by metis
    then have "us_head (su_q m) \<notin> given_back (su_q m)" using d(4) by (simp add: given_back_def)
    moreover have "n \<notin> given_back (su_q m)" if "n \<in> set ns" for n using d(7)[of n 0] u(2) that by (simp add: given_back_def)
    ultimately show ?thesis using h(1,2) by auto
  qed
  ultimately show ?thesis using i(1) c by (auto simp: EmptyS_def mpsc_inv_def)
qed

theorem unbounded_spsc_fifo_witness:
  "\<exists>m :: int spsc_sys. spsc_reach m \<and> su_in m = [5, 6] \<and> su_out m = [5] \<and> um_contents (su_q m) = [6] \<and> \<not> EmptyS (su_q m)"
proof -
  obtain m :: "int spsc_sys" where m: "spsc_reach m" "su_in m = [5, 6]" "su_out m = [5]"
  proof -
    define m1 :: "int spsc_sys" where "m1 = spsc_init\<lparr>su_pc := UBuilding [] [5, 6]\<rparr>"
    define m2 where "m2 = m1\<lparr>su_q := chain_node [] 1 5 (snd (pool_get 0 (su_q m1))), su_pc := UBuilding [1] [6]\<rparr>"
    define m3 where "m3 = m2\<lparr>su_q := chain_node [1] 2 6 (snd (pool_get 0 (su_q m2))), su_pc := UBuilding [1, 2] []\<rparr>"
    define m4 where "m4 = m3\<lparr>su_q := set_next 2 None (su_q m3), su_pc := UReady [1, 2]\<rparr>"
    define m5 where "m5 = m4\<lparr>su_q := set_next 0 (Some 1) (su_q m4), su_pc := UHead 2, su_in := [5, 6]\<rparr>"
    define m6 where "m6 = m5\<lparr>su_q := snd (DequeueS (su_q m5)), su_out := [5]\<rparr>"
    note defs = m1_def m2_def m3_def m4_def m5_def m6_def spsc_init_def NewUnboundedSPSC_def pool_get_def chain_node_def set_next_def set_val_def Let_def
    have "spsc_reach m1" using spsc_reach.step[OF spsc_reach.init spsc_step.start[of spsc_init "[5, 6]"]] by (simp add: defs)
    then have "spsc_reach m2" using spsc_reach.step[OF _ spsc_step.build[of m1 "[]" 5 "[6]" 0 1 "snd (pool_get 0 (su_q m1))"]] by (simp add: defs)
    then have "spsc_reach m3" using spsc_reach.step[OF _ spsc_step.build[of m2 "[1]" 6 "[]" 0 2 "snd (pool_get 0 (su_q m2))"]] by (simp add: defs)
    then have "spsc_reach m4" using spsc_reach.step[OF _ spsc_step.built[of m3 "[1, 2]"]] by (simp add: defs)
    then have "spsc_reach m5" using spsc_reach.step[OF _ spsc_step.link[of m4 "[1, 2]"]] by (simp add: defs)
    then have "spsc_reach m6" using spsc_reach.step[OF _ spsc_step.dequeue[of m5 5 True "snd (DequeueS (su_q m5))"]] by (simp add: defs DequeueS_def)
    then show thesis by (rule that) (simp_all add: defs)
  qed
  have f: "su_in m = su_out m @ um_contents (su_q m)" "EmptyS (su_q m) \<longleftrightarrow> um_contents (su_q m) = []"
    using unbounded_spsc_fifo[OF m(1)] by blast+
  have "um_contents (su_q m) = [6]" using f(1) m(2,3) by simp
  then show ?thesis using m f(2) by (intro exI[of _ m]) simp
qed

end
