(* ===== verification/Spec2Isabelle.thy ===== *)
theory Spec2Isabelle
  imports Bounded_MPSC Bounded_Queue Channel_Life Double_Queue Priority_Queue Reactor_Channel SPSC_Ring Server
    Tls_Gm_Auth Tls_Gm_Panics Tls_Stream Tls_Ticket Unbounded_SPSC
begin

text \<open>
  A model of the Go library \<^verbatim>\<open>zhenyi-base\<close> and the theorems that make it correct.

  \<^bold>\<open>The program.\<close> The library is the network layer of a game server: connections
  (\<^verbatim>\<open>znet\<close>) that read frames out of a growable byte ring and send through a lock-free queue, an
  event loop that owns many connections (\<^verbatim>\<open>zreactor\<close>), a TLS stack with the Chinese national
  (GM) suites (\<^verbatim>\<open>zgmtls\<close>), and queues (\<^verbatim>\<open>zqueue\<close>). A byte that arrives takes this way: the
  reactor's loop (\<^verbatim>\<open>zreactor/reactor_linux.go\<close>) or the connection's own read goroutine fills the
  ring (\<^verbatim>\<open>znet/ringbuffer.go\<close>), possibly through the record layer of TLS (\<^verbatim>\<open>zgmtls/conn.go\<close>);
  the socket's parser (\<^verbatim>\<open>znet/socket.go\<close>) takes complete frames from the ring; the channel
  (\<^verbatim>\<open>znet/channel.go\<close>) hands each message to the server's handler, and a reply goes through
  \<open>Send\<close> into the unbounded queue (\<^verbatim>\<open>zqueue/unboundedmpsc.go\<close>), from which a send worker writes
  frames in batches.

  \<^bold>\<open>Theories and what they model.\<close>
  \<^item> \<open>Base_Prelude\<close>: Go's slices, integer conversions and circular backing arrays, with the
    helpers \<open>nextPowerOfTwo\<close> of \<^verbatim>\<open>zqueue\<close> and \<^verbatim>\<open>znet\<close>.
  \<^item> \<open>Fifo_Spec\<close>: the locales \<open>fifo\<close> and \<open>mailbox\<close>, the contract of a queue; \<open>Framing\<close>: the locale
    \<open>framing\<close>, a decoder usable on a stream that arrives in pieces.
  \<^item> \<open>Ring_Buffer\<close> (\<^verbatim>\<open>znet/ringbuffer.go\<close>): every method of the ring over its backing array and
    64-bit indices. Lemmas: the ring is the list \<open>ring_bytes\<close>; writes append, reads and discards take from the
    front, growth keeps the contents; the one case in which \<open>Write\<close> overruns.
  \<^item> \<open>Socket\<close> (\<^verbatim>\<open>znet/socket.go\<close>, \<^verbatim>\<open>znet/netmsg.go\<close>): both header formats, the writers, the three
    parsers. Lemmas: round trip, agreement of the parsers, independence of fragmentation
    (interpretation \<open>fr\<close> of \<open>framing\<close>).
  \<^item> \<open>Bounded_Queue\<close> (\<^verbatim>\<open>zqueue/queue.go\<close>, interpretation \<open>bq\<close>), \<open>Priority_Queue\<close>
    (\<^verbatim>\<open>zqueue/priority.go\<close>, locale \<open>max_queue\<close>, interpretation \<open>pq\<close>), \<open>Unbounded_MPSC\<close>
    (\<^verbatim>\<open>zqueue/unboundedmpsc.go\<close>, interpretation \<open>um\<close>), \<open>Bounded_MPSC\<close> (\<^verbatim>\<open>zqueue/mpsc.go\<close>), \<open>SPSC_Ring\<close>
    (\<^verbatim>\<open>zqueue/spsc.go\<close>), \<open>Unbounded_SPSC\<close> (\<^verbatim>\<open>zqueue/unboundedspsc.go\<close>, a refinement of the queue for many
    producers), \<open>Double_Queue\<close> (\<^verbatim>\<open>zqueue/swap.go\<close>, on an explicit store of shared arrays). The lock-free queues are step relations in which every atomic access is
    a step of its own and threads interleave freely; the theorems are linearizability against
    a list and the absence of use after recycling.
  \<^item> \<open>Channel\<close>, \<open>Channel_Send\<close>, \<open>Channel_Life\<close> (\<^verbatim>\<open>znet/channel.go\<close>, \<^verbatim>\<open>znet/shared_send_workers.go\<close>):
    a connection, receiving, sending and closing. Lemmas: exactly the frames of the byte stream
    are delivered, each message handed to \<open>Send\<close> is sent or released exactly once, the ring is returned once.
  \<^item> \<open>Reactor\<close>, \<open>Reactor_Channel\<close> (\<^verbatim>\<open>zreactor\<close>, epoll): the sharded table of descriptors (locale
    \<open>fd_table\<close>, interpretation \<open>ft\<close>), accepting, reading, heartbeats, and the loop over real channels
    (locale \<open>reactor_channel\<close>, interpretation \<open>bc\<close>).
  \<^item> \<open>Server\<close> (\<^verbatim>\<open>znet/server.go\<close>): the tables of connections, the limit and the authentication map.
  \<^item> \<open>Tls_Codec\<close>, \<open>Tls_Hello\<close>, \<open>Tls_Server_Hello\<close>, \<open>Tls_Messages\<close>, \<open>Tls_Roundtrip\<close>
    (\<^verbatim>\<open>zgmtls/handshake_messages.go\<close>, \<^verbatim>\<open>zgmtls/gm_handshake_messages.go\<close>): every handshake message.
  \<^item> \<open>Tls_Record\<close>, \<open>Tls_Padding\<close>, \<open>Tls_Protection\<close>, \<open>Tls_Conn\<close>, \<open>Tls_Stream\<close> (\<^verbatim>\<open>zgmtls/conn.go\<close>,
    \<^verbatim>\<open>zgmtls/cipher_suites.go\<close>): record protection and the connection. Lemmas: a sealed record opens to its
    payload, only an authentic record opens, the constant-time padding check is the plain one, and the
    connection refines a byte stream. \<open>Tls_Ticket\<close> (\<^verbatim>\<open>zgmtls/ticket.go\<close>): session tickets.
  \<^item> \<open>Tls_Program\<close>: a handshake as a datatype of calls on its connection with continuations.
    \<open>replay es p = Some r\<close> says that \<open>p\<close> makes the calls \<open>es\<close>, gets the answers they hold, and returns \<open>r\<close>;
    the answers are arbitrary, so what is proved of every replay holds against every peer and network.
    \<open>run_program\<close> runs a program on the connection of \<open>Tls_Conn\<close>, and each such run is a replay.
  \<^item> \<open>Tls_Suites\<close> (the tables of \<^verbatim>\<open>zgmtls/cipher_suites.go\<close> and \<^verbatim>\<open>zgmtls/gm_support.go\<close>), \<open>Tls_Prf\<close>
    (\<^verbatim>\<open>zgmtls/prf.go\<close>: key derivation, transcript hashes), \<open>Tls_Config\<close> (the parts of \<^verbatim>\<open>zgmtls/common.go\<close>
    and \<^verbatim>\<open>zgmtls/auth.go\<close> that choose versions, certificates and signatures), \<open>Tls_Keys\<close>
    (\<^verbatim>\<open>zgmtls/gm_key_agreement.go\<close>, \<^verbatim>\<open>zgmtls/key_agreement.go\<close>).
  \<^item> \<open>Tls_Gm_Client\<close>, \<open>Tls_Gm_Server\<close> (\<^verbatim>\<open>zgmtls/gm_handshake_client_double.go\<close>,
    \<^verbatim>\<open>zgmtls/gm_handshake_server_double.go\<close>): both sides of the handshake with two certificates, one definition
    per method. \<open>Tls_Transcript\<close> relates a replay to the bytes of its handshake messages and to the hash that the
    code keeps; \<open>Tls_Gm_Auth\<close> and \<open>Tls_Gm_Server_Auth\<close> take a successful replay apart, method by method, down to
    what each side has checked. \<open>Tls_Peaceful\<close> plays a program against given messages with toy libraries, for
    concrete runs; \<open>Tls_Gm_Panics\<close> plays those that end in a panic.

  \<^bold>\<open>Parameters.\<close> Ciphers (\<open>primitives\<close>), MACs, hash functions (\<open>hashes\<close>, with their sizes as the hypothesis
  \<open>hashes_ok\<close>), X.509, SM2, ECDSA, RSA and ASN.1 (\<open>pki\<close>), the ticket ciphers (\<open>ticket_crypto\<close>), the operating
  system's sockets and poller, clocks and the object pools are arguments of the definitions that use them.
  Random bytes that the code asks for are answers of the environment.

  \<^bold>\<open>Bounds and fuel.\<close> Counters of the rings and queues are 64-bit words; theorems about them assume fewer than
  \<open>2 ^ 62\<close> or \<open>2 ^ 63\<close> operations, or a state in which the counters have not come that far. Lengths of Go
  slices are below \<open>2 ^ 62\<close>. Loops that wait are step relations or \<open>partial_function\<close>s whose termination is a
  theorem of its own; the loops that the code cuts off itself (a hundred turns of the read loop) have the code's bound.

  \<^bold>\<open>Not modelled.\<close> The standard TLS handshakes, the GM handshakes with one certificate and the choice among
  them: \<open>handshake\<close> of the connection model is a parameter. Waiting for other goroutines, deadlines, recovery from
  panics of user callbacks. The kqueue loop of the reactor, which repeats the epoll one. The transports
  (\<^verbatim>\<open>ztcp\<close>, \<^verbatim>\<open>zws\<close>, \<^verbatim>\<open>zkcp\<close>), the client, logging, encryption wrappers, object pools, error values, batching
  heuristics in floating point and the small utilities over clocks, files, signals and random numbers: they are
  input and output or calls of third-party libraries, with little state of their own.
\<close>

end
